(* ===== verification/TW_Prelude.thy ===== *)
theory TW_Prelude
  imports Main "HOL-Library.Word" "HOL-Library.Signed_Division"
begin

text \<open>
  What every component shares: the results of an operation that can go wrong, the
  sequencing of such operations, the mutex a class carries, and the collections of
  rewrite rules the component theories add to.

  A C++ operation is a function from the states it touches to a result. \<^const>\<open>Inr\<close> holds
  the value and the new states, \<^const>\<open>Inl\<close> the reason why the C++ program has no defined
  behaviour there (a null or dangling pointer is read, an indeterminate value is used, a
  thread waits for a mutex it holds itself).
\<close>

section \<open>Named collections\<close>

named_theorems res_simps \<open>equations that evaluate a sequence of fallible operations\<close>
named_theorems heap_simps \<open>reading a heap after it was written\<close>
named_theorems sema_defs \<open>definitions of the semaphore operations\<close>
named_theorems circ_defs \<open>definitions of the circular buffer's operations\<close>

section \<open>Faults and results\<close>

datatype fault =
    NullDeref      \<comment> \<open>a null pointer is dereferenced\<close>
  | Dangling       \<comment> \<open>a pointer to memory that is not allocated, or no longer\<close>
  | DoubleFree     \<comment> \<open>memory that is not allocated is freed\<close>
  | OutOfBounds    \<comment> \<open>an array is indexed outside its bounds\<close>
  | Uninit         \<comment> \<open>an indeterminate value is used\<close>
  | SelfDeadlock   \<comment> \<open>a thread locks a (non-recursive) mutex that it holds\<close>
  | NotLocked      \<comment> \<open>a mutex that is not locked is unlocked\<close>
  | Overflow       \<comment> \<open>a signed integer leaves the range of its type\<close>
  | Diverges       \<comment> \<open>a loop does not end\<close>

type_synonym 'a res = "fault + 'a"

definition bindE :: "'a res \<Rightarrow> ('a \<Rightarrow> 'b res) \<Rightarrow> 'b res" where
  "bindE m f = (case m of Inl e \<Rightarrow> Inl e | Inr x \<Rightarrow> f x)"

lemma bindE_Inl [simp, res_simps]: "bindE (Inl e) f = Inl e"
  by (simp add: bindE_def)

lemma bindE_Inr [simp, res_simps]: "bindE (Inr x) f = f x"
  by (simp add: bindE_def)

lemma bindE_eq_Inr: "bindE m f = Inr y \<longleftrightarrow> (\<exists>x. m = Inr x \<and> f x = Inr y)"
  by (cases m) auto

lemma bindE_eq_InrE:
  assumes "bindE m f = Inr y"
  obtains x where "m = Inr x" and "f x = Inr y"
  using assms by (auto simp: bindE_eq_Inr)

lemma bindE_assoc: "bindE (bindE m f) g = bindE m (\<lambda>x. bindE (f x) g)"
  by (cases m) auto

lemma bindE_cong [fundef_cong]:
  "m = m' \<Longrightarrow> (\<And>x. m' = Inr x \<Longrightarrow> f x = f' x) \<Longrightarrow> bindE m f = bindE m' f'"
  by (cases m') auto

text \<open>\<open>holds r P\<close>: the operation has a defined result, and the result satisfies \<open>P\<close>.\<close>

definition holds :: "'a res \<Rightarrow> ('a \<Rightarrow> bool) \<Rightarrow> bool" where
  "holds r P \<longleftrightarrow> (case r of Inl e \<Rightarrow> False | Inr x \<Rightarrow> P x)"

lemma holds_simps [simp, res_simps]:
  "holds (Inr x) P \<longleftrightarrow> P x"
  "\<not> holds (Inl e) P"
  by (simp_all add: holds_def)

lemma holds_iff: "holds r P \<longleftrightarrow> (\<exists>x. r = Inr x \<and> P x)"
  by (cases r) auto

lemma holds_bindE: "holds (bindE m f) P \<longleftrightarrow> holds m (\<lambda>x. holds (f x) P)"
  by (cases m) auto

lemma holds_mono: "holds r P \<Longrightarrow> (\<And>x. r = Inr x \<Longrightarrow> P x \<Longrightarrow> Q x) \<Longrightarrow> holds r Q"
  by (auto simp: holds_iff)

text \<open>A call that may block has ended with a result, or sleeps on a condition variable.\<close>

datatype 'r progress = Done 'r | Blocked

section \<open>The mutex of a class\<close>

text \<open>
  A default \<^verbatim>\<open>pthread_mutex_t\<close> is not recursive. \<open>True\<close> stands for locked. Locking it
  from the thread that holds it never returns; unlocking it when it is free is undefined.
\<close>

definition mutex_lock :: "bool \<Rightarrow> bool res" where
  "mutex_lock m = (if m then Inl SelfDeadlock else Inr True)"

definition mutex_unlock :: "bool \<Rightarrow> bool res" where
  "mutex_unlock m = (if m then Inr False else Inl NotLocked)"

lemma mutex_simps [simp, res_simps]:
  "mutex_lock False = Inr True"
  "mutex_lock True = Inl SelfDeadlock"
  "mutex_unlock True = Inr False"
  "mutex_unlock False = Inl NotLocked"
  by (simp_all add: mutex_lock_def mutex_unlock_def)

section \<open>Sizes of arrays\<close>

text \<open>
  The allocators take a number of bytes as a \<^verbatim>\<open>tw_size\<close>, which is \<^verbatim>\<open>int\<close>: the product of a number of elements and
  their size, a \<^verbatim>\<open>size_t\<close>, loses all but its lowest 32 bits. A negative number is more than there is when the C library has
  made a \<^verbatim>\<open>size_t\<close> of it, and the allocation fails. \<open>array_room esz n\<close> is how many elements of \<open>esz\<close> bytes have room in
  what is asked for when \<open>n\<close> are wanted.
\<close>

definition tw_size :: "int \<Rightarrow> int" where
  "tw_size n = sint (word_of_int n :: 32 word)"

definition array_room :: "nat \<Rightarrow> int \<Rightarrow> nat option" where
  "array_room esz n = (let b = tw_size (int esz * n) in if b < 0 then None else Some (nat b div esz))"

lemma tw_size_fits: "0 \<le> n \<Longrightarrow> n < 2 ^ 31 \<Longrightarrow> tw_size n = n"
  unfolding tw_size_def by (subst sint_sbintrunc', subst signed_take_bit_int_eq_self) simp_all

lemma array_room_fits:
  assumes "0 < esz" "0 \<le> n" "int esz * n < 2 ^ 31"
  shows "array_room esz n = Some (nat n)"
proof -
  have "0 \<le> int esz * n" using assms(2) by simp
  then have "tw_size (int esz * n) = int esz * n" using assms(3) by (rule tw_size_fits)
  then show ?thesis using assms(1) \<open>0 \<le> int esz * n\<close> by (simp add: array_room_def nat_mult_distrib Let_def)
qed

section \<open>Lists\<close>

lemma nth_rev_last: "xs \<noteq> [] \<Longrightarrow> last xs = xs ! (length xs - 1)"
  by (simp add: last_conv_nth)

lemma set_tl_subset: "set (tl xs) \<subseteq> set xs"
  by (cases xs) auto

lemma disjoint_appendI:
  "set xs \<inter> A = {} \<Longrightarrow> set ys \<inter> A = {} \<Longrightarrow> set (xs @ ys) \<inter> A = {}"
  by auto

end
