(* ===== verification/TW_Heap.thy ===== *)
theory TW_Heap
  imports TW_Prelude
begin

text \<open>
  The memory the allocators of include/TW/tw_alloc.h hand out, and linked structures in it.

  A heap is a list of cells. The pointer \<open>Suc i\<close> addresses cell \<open>i\<close>, the null pointer is
  \<open>0\<close>. A cell is \<open>Raw\<close> memory that no object has been built in, an object, or \<open>Freed\<close>.
  \<open>malloc\<close> never hands out a freed address again, so that a use after free is always visible
  as a fault. It returns null once \<open>room\<close> cells have been handed out, and \<open>free\<close> gives its
  room back, as \<^verbatim>\<open>Alloc_Std::malloc\<close> and \<^verbatim>\<open>Alloc_Std::free\<close> do over libc.
\<close>

section \<open>Cells, allocation, access\<close>

type_synonym ptr = nat

abbreviation (input) NULL :: ptr where "NULL \<equiv> 0"

datatype 'c cell = Raw | Obj 'c | Freed

record 'c heap =
  mem :: "'c cell list"
  room :: nat

definition cell_at :: "'c heap \<Rightarrow> ptr \<Rightarrow> 'c cell" where
  "cell_at h p = (if p = NULL \<or> length (mem h) < p then Freed else mem h ! (p - 1))"

definition put_cell :: "ptr \<Rightarrow> 'c cell \<Rightarrow> 'c heap \<Rightarrow> 'c heap" where
  "put_cell p c h = h\<lparr>mem := (mem h)[p - 1 := c]\<rparr>"

definition grow :: "'c heap \<Rightarrow> 'c heap" where
  "grow h = h\<lparr>mem := mem h @ [Raw], room := room h - 1\<rparr>"

definition malloc :: "'c heap \<Rightarrow> ptr \<times> 'c heap" where
  "malloc h = (if room h = 0 then (NULL, h) else (Suc (length (mem h)), grow h))"

definition free :: "ptr \<Rightarrow> 'c heap \<Rightarrow> 'c heap res" where
  "free p h = (if p = NULL then Inr h
     else case cell_at h p of Freed \<Rightarrow> Inl DoubleFree
        | _ \<Rightarrow> Inr ((put_cell p Freed h)\<lparr>room := Suc (room h)\<rparr>))"

text \<open>Reading an object through a pointer, and building or overwriting one.\<close>

definition load :: "ptr \<Rightarrow> 'c heap \<Rightarrow> 'c res" where
  "load p h = (if p = NULL then Inl NullDeref
     else case cell_at h p of Freed \<Rightarrow> Inl Dangling | Raw \<Rightarrow> Inl Uninit | Obj c \<Rightarrow> Inr c)"

definition construct :: "ptr \<Rightarrow> 'c \<Rightarrow> 'c heap \<Rightarrow> 'c heap res" where
  "construct p c h = (if p = NULL then Inl NullDeref
     else case cell_at h p of Freed \<Rightarrow> Inl Dangling | _ \<Rightarrow> Inr (put_cell p (Obj c) h))"

definition modify :: "ptr \<Rightarrow> ('c \<Rightarrow> 'c) \<Rightarrow> 'c heap \<Rightarrow> 'c heap res" where
  "modify p f h = bindE (load p h) (\<lambda>c. Inr (put_cell p (Obj (f c)) h))"

definition empty_heap :: "nat \<Rightarrow> 'c heap" where
  "empty_heap n = \<lparr>mem = [], room = n\<rparr>"

abbreviation heap_size :: "'c heap \<Rightarrow> nat" where
  "heap_size h \<equiv> length (mem h)"

text \<open>The cells a program holds: those that are not freed.\<close>

definition live :: "'c heap \<Rightarrow> ptr set" where
  "live h = {p. cell_at h p \<noteq> Freed}"

subsection \<open>Reading after writing\<close>

lemma cell_at_NULL [simp]: "cell_at h NULL = Freed"
  by (simp add: cell_at_def)

lemma cell_at_beyond: "heap_size h < p \<Longrightarrow> cell_at h p = Freed"
  by (simp add: cell_at_def)

lemma cell_at_valid: "cell_at h p \<noteq> Freed \<Longrightarrow> p \<noteq> NULL \<and> p \<le> heap_size h"
  by (auto simp: cell_at_def split: if_splits)

lemma cell_at_Obj_pos: "cell_at h p = Obj c \<Longrightarrow> 0 < p"
  using cell_at_valid [of h p] by simp

lemma cell_at_put [heap_simps]:
  "cell_at h p \<noteq> Freed \<Longrightarrow> cell_at (put_cell p c h) q = (if q = p then c else cell_at h q)"
  by (cases p) (auto simp: cell_at_def put_cell_def nth_list_update split: if_splits)

lemma heap_size_put [simp]: "heap_size (put_cell p c h) = heap_size h"
  by (simp add: put_cell_def)

lemma room_put [simp]: "room (put_cell p c h) = room h"
  by (simp add: put_cell_def)

lemma cell_at_room [simp]: "cell_at (h\<lparr>room := r\<rparr>) q = cell_at h q"
  by (simp add: cell_at_def)

lemma malloc_ok: "0 < room h \<Longrightarrow>
    malloc h = (Suc (heap_size h), grow h)"
  by (simp add: malloc_def)

lemma malloc_fails: "room h = 0 \<Longrightarrow> malloc h = (NULL, h)"
  by (simp add: malloc_def)

lemma cell_at_malloc [heap_simps]:
  "cell_at (grow h) q = (if q = Suc (heap_size h) then Raw else cell_at h q)"
  by (cases q) (auto simp: cell_at_def grow_def nth_append)

lemma cell_at_fresh [simp]: "cell_at h (Suc (heap_size h)) = Freed"
  by (simp add: cell_at_def)

lemma load_iff [heap_simps]: "load p h = Inr c \<longleftrightarrow> cell_at h p = Obj c"
  by (auto simp: load_def split: cell.splits)

lemma load_Obj [simp, heap_simps]: "cell_at h p = Obj c \<Longrightarrow> load p h = Inr c"
  by (simp add: load_iff)

lemma load_NULL [simp]: "load NULL h = Inl NullDeref"
  by (simp add: load_def)

lemma modify_Obj [heap_simps]:
  "cell_at h p = Obj c \<Longrightarrow> modify p f h = Inr (put_cell p (Obj (f c)) h)"
  by (simp add: modify_def)

lemma modify_NULL [simp]: "modify NULL f h = Inl NullDeref"
  by (simp add: modify_def)

lemma construct_ok [heap_simps]:
  "cell_at h p \<noteq> Freed \<Longrightarrow> construct p c h = Inr (put_cell p (Obj c) h)"
  using cell_at_valid [of h p] by (cases "cell_at h p") (auto simp: construct_def)

lemma construct_NULL [simp]: "construct NULL c h = Inl NullDeref"
  by (simp add: construct_def)

lemma free_NULL [simp]: "free NULL h = Inr h"
  by (simp add: free_def)

lemma free_ok [heap_simps]:
  "cell_at h p \<noteq> Freed \<Longrightarrow> free p h = Inr ((put_cell p Freed h)\<lparr>room := Suc (room h)\<rparr>)"
  using cell_at_valid [of h p] by (cases "cell_at h p") (auto simp: free_def)

lemma live_iff: "p \<in> live h \<longleftrightarrow> cell_at h p \<noteq> Freed"
  by (simp add: live_def)

lemma live_bounds: "live h \<subseteq> {1..heap_size h}"
  using cell_at_valid by (fastforce simp: live_def)

lemma finite_live [simp]: "finite (live h)"
  by (rule finite_subset [OF live_bounds]) simp

lemma fresh_not_live [simp]: "Suc (heap_size h) \<notin> live h"
  by (simp add: live_iff)

lemma live_empty [simp]: "live (empty_heap n) = {}"
  by (auto simp: live_def cell_at_def empty_heap_def)

subsection \<open>The heap after an allocation that builds an object\<close>

text \<open>\<open>new_obj\<close> is the heap \<open>malloc\<close> followed by the construction of \<open>c\<close> leaves.\<close>

definition new_obj :: "'c \<Rightarrow> 'c heap \<Rightarrow> 'c heap" where
  "new_obj c h = put_cell (Suc (heap_size h)) (Obj c) (grow h)"

lemma malloc_construct:
  "0 < room h \<Longrightarrow> (case malloc h of (p, h') \<Rightarrow> construct p c h') = Inr (new_obj c h)"
  by (simp add: malloc_ok construct_ok cell_at_malloc new_obj_def)

lemma construct_new [heap_simps]:
  "construct (Suc (heap_size h)) c (grow h) = Inr (new_obj c h)"
  by (simp add: construct_ok cell_at_malloc new_obj_def)

lemma cell_at_new [heap_simps]:
  "cell_at (new_obj c h) q = (if q = Suc (heap_size h) then Obj c else cell_at h q)"
  by (simp add: new_obj_def cell_at_put cell_at_malloc)

lemma heap_size_new [simp]: "heap_size (new_obj c h) = Suc (heap_size h)"
  by (simp add: new_obj_def grow_def)

lemma room_new [simp]: "room (new_obj c h) = room h - 1"
  by (simp add: new_obj_def grow_def)

lemma live_new: "live (new_obj c h) = insert (Suc (heap_size h)) (live h)"
  by (auto simp: live_iff cell_at_new split: if_splits)

lemma live_put: "cell_at h p \<noteq> Freed \<Longrightarrow> c \<noteq> Freed \<Longrightarrow> live (put_cell p c h) = live h"
  by (auto simp: live_iff cell_at_put split: if_splits)

lemma live_put_Freed: "cell_at h p \<noteq> Freed \<Longrightarrow> live (put_cell p Freed h) = live h - {p}"
  by (auto simp: live_iff cell_at_put split: if_splits)

lemma live_room [simp]: "live (h\<lparr>room := r\<rparr>) = live h"
  by (simp add: live_def)

subsection \<open>What an operation leaves alone\<close>

definition same_outside :: "ptr set \<Rightarrow> 'c heap \<Rightarrow> 'c heap \<Rightarrow> bool" where
  "same_outside S h h' \<longleftrightarrow> (\<forall>q. q \<notin> S \<longrightarrow> cell_at h' q = cell_at h q)"

lemma same_outsideD: "same_outside S h h' \<Longrightarrow> q \<notin> S \<Longrightarrow> cell_at h' q = cell_at h q"
  by (simp add: same_outside_def)

lemma same_outside_refl [simp]: "same_outside S h h"
  by (simp add: same_outside_def)

lemma same_outside_mono: "same_outside S h h' \<Longrightarrow> S \<subseteq> T \<Longrightarrow> same_outside T h h'"
  by (auto simp: same_outside_def)

lemma same_outside_trans:
  "same_outside S h h' \<Longrightarrow> same_outside T h' h'' \<Longrightarrow> same_outside (S \<union> T) h h''"
  by (auto simp: same_outside_def)

lemma same_outside_put: "cell_at h p \<noteq> Freed \<Longrightarrow> same_outside {p} h (put_cell p c h)"
  by (auto simp: same_outside_def cell_at_put)

lemma same_outside_new: "same_outside {Suc (heap_size h)} h (new_obj c h)"
  by (auto simp: same_outside_def cell_at_new)

end
