(* ===== verification/TW_Chain.thy ===== *)
theory TW_Chain
  imports TW_Heap
begin

text \<open>
  Singly linked structures in a heap: the chain of cells a pointer leads to, the loops of
  the code that walk or free a chain, and what they do to it. The projection \<open>nx\<close> is the
  field that holds the next pointer, so that the lemmas serve every kind of link.
\<close>

section \<open>Chains\<close>

primrec chain :: "('c \<Rightarrow> ptr) \<Rightarrow> 'c heap \<Rightarrow> ptr \<Rightarrow> ptr list \<Rightarrow> ptr \<Rightarrow> bool" where
  "chain nx h p [] q \<longleftrightarrow> p = q"
| "chain nx h p (a # as) q \<longleftrightarrow>
     p = a \<and> (\<exists>c. cell_at h a = Obj c \<and> chain nx h (nx c) as q)"

definition obj_at :: "'c heap \<Rightarrow> ptr \<Rightarrow> 'c" where
  "obj_at h p = (case cell_at h p of Obj c \<Rightarrow> c | _ \<Rightarrow> undefined)"

lemma obj_at_Obj [simp]: "cell_at h p = Obj c \<Longrightarrow> obj_at h p = c"
  by (simp add: obj_at_def)

lemma obj_at_cong: "cell_at h' p = cell_at h p \<Longrightarrow> obj_at h' p = obj_at h p"
  by (simp add: obj_at_def)

lemma chain_NULL [simp]: "chain nx h NULL ps NULL \<longleftrightarrow> ps = []"
  by (cases ps) auto

lemma chain_neq_Nil: "chain nx h p ps q \<Longrightarrow> p \<noteq> q \<Longrightarrow> ps \<noteq> []"
  by (cases ps) auto

lemma chain_start: "chain nx h p (a # as) q \<Longrightarrow> p = a \<and> 0 < a"
  by (auto dest: cell_at_Obj_pos)

lemma chain_start_snoc: "chain nx h p (as @ [b]) q \<Longrightarrow> 0 < p"
  by (cases as) (auto dest: cell_at_Obj_pos)

lemma chain_append:
  "chain nx h p (as @ bs) q \<longleftrightarrow> (\<exists>r. chain nx h p as r \<and> chain nx h r bs q)"
  by (induction as arbitrary: p) auto

lemma chain_cells: "chain nx h p ps q \<Longrightarrow> a \<in> set ps \<Longrightarrow> \<exists>c. cell_at h a = Obj c"
  by (induction ps arbitrary: p) auto

lemma chain_live: "chain nx h p ps q \<Longrightarrow> set ps \<subseteq> live h"
  using chain_cells by (fastforce simp: live_iff)

lemma chain_not_NULL: "chain nx h p ps q \<Longrightarrow> NULL \<notin> set ps"
  using chain_cells by fastforce

lemma chain_fresh: "chain nx h p ps q \<Longrightarrow> Suc (heap_size h) \<notin> set ps"
  using chain_cells by fastforce

lemma chain_frame:
  "(\<And>a. a \<in> set ps \<Longrightarrow> cell_at h' a = cell_at h a) \<Longrightarrow> chain nx h' p ps q = chain nx h p ps q"
  by (induction ps arbitrary: p) auto

lemma objs_frame:
  "(\<And>a. a \<in> set ps \<Longrightarrow> cell_at h' a = cell_at h a) \<Longrightarrow> map (obj_at h') ps = map (obj_at h) ps"
  by (auto intro: obj_at_cong)

lemma chain_unique:
  "chain nx h p as NULL \<Longrightarrow> chain nx h p bs NULL \<Longrightarrow> as = bs"
proof (induction as arbitrary: p bs)
  case Nil
  then show ?case by simp
next
  case (Cons a as)
  then show ?case by (cases bs) auto
qed

lemma chain_distinct: "chain nx h p ps NULL \<Longrightarrow> distinct ps"
proof (induction ps arbitrary: p)
  case Nil
  then show ?case by simp
next
  case (Cons a ps)
  then obtain c where c: "cell_at h a = Obj c" and tl: "chain nx h (nx c) ps NULL" by auto
  have "a \<notin> set ps"
  proof
    assume "a \<in> set ps"
    then obtain bs cs where ps: "ps = bs @ a # cs" by (auto simp: in_set_conv_decomp)
    with tl have "chain nx h a (a # cs) NULL" by (auto simp: chain_append)
    with Cons.prems have "a # cs = a # ps" using chain_unique by fastforce
    with ps show False by simp
  qed
  with tl Cons.IH show ?case by auto
qed

lemma chain_length: "chain nx h p ps NULL \<Longrightarrow> length ps \<le> heap_size h"
proof -
  assume ch: "chain nx h p ps NULL"
  have "set ps \<subseteq> {1..heap_size h}"
    using chain_live [OF ch] live_bounds by blast
  then have "card (set ps) \<le> card {1..heap_size h}"
    by (rule card_mono [rotated]) simp
  with chain_distinct [OF ch] show ?thesis by (simp add: distinct_card)
qed

lemma chain_head: "chain nx h p ps NULL \<Longrightarrow> p = (if ps = [] then NULL else hd ps)"
  by (cases ps) auto

lemma chain_relink:
  assumes ch: "chain nx h p (as @ [b]) NULL"
    and b: "cell_at h' b = Obj c" "nx c = q"
    and fr: "\<And>a. a \<in> set as \<Longrightarrow> cell_at h' a = cell_at h a"
  shows "chain nx h' p (as @ [b]) q"
proof -
  from ch have "chain nx h p as b" by (auto simp: chain_append)
  then have "chain nx h' p as b" using chain_frame [OF fr] by blast
  with b show ?thesis by (auto simp: chain_append)
qed

section \<open>The loops over a chain\<close>

text \<open>
  \<^verbatim>\<open>while(p->next) { p = p->next; n++; }\<close>. A chain has no more cells than the heap, so with
  \<open>Suc (heap_size h)\<close> as fuel the loop runs out of it only where the C++ loop does not end.
\<close>

fun seek_end :: "('c \<Rightarrow> ptr) \<Rightarrow> nat \<Rightarrow> 'c heap \<Rightarrow> ptr \<Rightarrow> int \<Rightarrow> (ptr \<times> int) res" where
  "seek_end nx 0 h p n = Inl Diverges"
| "seek_end nx (Suc k) h p n = bindE (load p h) (\<lambda>c.
     if nx c = NULL then Inr (p, n) else seek_end nx k h (nx c) (n + 1))"

text \<open>\<^verbatim>\<open>while(p) { n = p->next; free(p); p = n; }\<close>\<close>

fun free_chain :: "('c \<Rightarrow> ptr) \<Rightarrow> nat \<Rightarrow> 'c heap \<Rightarrow> ptr \<Rightarrow> 'c heap res" where
  "free_chain nx 0 h p = (if p = NULL then Inr h else Inl Diverges)"
| "free_chain nx (Suc k) h p = (if p = NULL then Inr h
     else bindE (load p h) (\<lambda>c. bindE (free p h) (\<lambda>h'. free_chain nx k h' (nx c))))"

definition seek_last :: "('c \<Rightarrow> ptr) \<Rightarrow> 'c heap \<Rightarrow> ptr \<Rightarrow> int \<Rightarrow> (ptr \<times> int) res" where
  "seek_last nx h p n = seek_end nx (Suc (heap_size h)) h p n"

definition free_all :: "('c \<Rightarrow> ptr) \<Rightarrow> 'c heap \<Rightarrow> ptr \<Rightarrow> 'c heap res" where
  "free_all nx h p = free_chain nx (heap_size h) h p"

lemma seek_end_chain:
  "chain nx h p (as @ [b]) NULL \<Longrightarrow> length as < k \<Longrightarrow>
     seek_end nx k h p n = Inr (b, n + int (length as))"
proof (induction as arbitrary: p k n)
  case Nil
  then obtain c where "p = b" "cell_at h b = Obj c" "nx c = NULL" by auto
  with Nil.prems(2) show ?case by (cases k) auto
next
  case (Cons a as)
  then obtain c where c: "p = a" "cell_at h a = Obj c" "chain nx h (nx c) (as @ [b]) NULL" by auto
  moreover from c(3) have "0 < nx c" by (rule chain_start_snoc)
  moreover from Cons.prems(2) obtain k' where "k = Suc k'" "length as < k'" by (cases k) auto
  ultimately show ?case using Cons.IH [of "nx c" k' "n + 1"] by simp
qed

lemma seek_last_chain:
  assumes "chain nx h p (as @ [b]) NULL"
  shows "seek_last nx h p n = Inr (b, n + int (length as))"
proof -
  have "length as < Suc (heap_size h)" using chain_length [OF assms] by simp
  from seek_end_chain [OF assms this] show ?thesis by (simp add: seek_last_def)
qed

lemma seek_last_NULL: "seek_last nx h NULL n = Inl NullDeref"
  by (simp add: seek_last_def)

lemma free_chain_chain:
  assumes "chain nx h p ps NULL" and "length ps \<le> k"
  shows "\<exists>h'. free_chain nx k h p = Inr h'
     \<and> (\<forall>q. cell_at h' q = (if q \<in> set ps then Freed else cell_at h q))
     \<and> room h' = room h + length ps \<and> heap_size h' = heap_size h"
  using assms
proof (induction ps arbitrary: p h k)
  case Nil
  then show ?case by (cases k) auto
next
  case (Cons a ps)
  from Cons.prems obtain c where c: "p = a" "cell_at h a = Obj c" "chain nx h (nx c) ps NULL"
    by auto
  from Cons.prems obtain k' where k: "k = Suc k'" "length ps \<le> k'" by (cases k) auto
  let ?h = "(put_cell a Freed h)\<lparr>room := Suc (room h)\<rparr>"
  have a: "a \<notin> set ps" using chain_distinct [OF Cons.prems(1)] by simp
  then have "chain nx ?h (nx c) ps NULL"
    using c by (subst chain_frame) (auto simp: cell_at_put)
  from Cons.IH [OF this k(2)] obtain h' where h': "free_chain nx k' ?h (nx c) = Inr h'"
    "\<forall>q. cell_at h' q = (if q \<in> set ps then Freed else cell_at ?h q)"
    "room h' = room ?h + length ps" "heap_size h' = heap_size ?h" by blast
  have "0 < p" using c(1,2) by (auto dest: cell_at_Obj_pos)
  then show ?case using c k h' by (auto simp: free_ok cell_at_put)
qed

lemma free_all_chain:
  assumes "chain nx h p ps NULL"
  obtains h' where "free_all nx h p = Inr h'"
    and "\<And>q. cell_at h' q = (if q \<in> set ps then Freed else cell_at h q)"
    and "room h' = room h + length ps" and "heap_size h' = heap_size h"
  using free_chain_chain [OF assms chain_length [OF assms]] by (auto simp: free_all_def)

end
