(* ===== verification/TW_Queue.thy ===== *)
theory TW_Queue
  imports TW_Prelude
begin

text \<open>
  The contract the queue classes share (tw_FIFO, tw_safeFIFO, tw_safeFIFOmv,
  tw_safeCircular): what adding an element and removing one do to the list of the
  queued elements and to the space left, and what follows for every sequence of calls.
\<close>

section \<open>Sequences of calls\<close>

datatype 'a qop = Put 'a | Get

fun run_ops :: "('a \<Rightarrow> 's \<Rightarrow> 's res) \<Rightarrow> ('s \<Rightarrow> ('a option \<times> 's) res) \<Rightarrow>
    'a qop list \<Rightarrow> 's \<Rightarrow> ('a option list \<times> 's) res" where
  "run_ops put get [] s = Inr ([], s)"
| "run_ops put get (Put x # ops) s = bindE (put x s) (run_ops put get ops)"
| "run_ops put get (Get # ops) s = bindE (get s) (\<lambda>(r, s').
     bindE (run_ops put get ops s') (\<lambda>(rs, s''). Inr (r # rs, s'')))"

text \<open>The same calls on a list: what each \<open>Get\<close> returns, and the list at the end.\<close>

fun list_ops :: "'a qop list \<Rightarrow> 'a list \<Rightarrow> 'a option list \<times> 'a list" where
  "list_ops [] xs = ([], xs)"
| "list_ops (Put x # ops) xs = list_ops ops (xs @ [x])"
| "list_ops (Get # ops) [] = (let (rs, ys) = list_ops ops [] in (None # rs, ys))"
| "list_ops (Get # ops) (x # xs) = (let (rs, ys) = list_ops ops xs in (Some x # rs, ys))"

text \<open>\<open>fits n ops k\<close>: no \<open>Put\<close> of \<open>ops\<close> finds the space used up, from \<open>n\<close> free places and
  \<open>k\<close> queued elements.\<close>

fun fits :: "nat \<Rightarrow> 'a qop list \<Rightarrow> nat \<Rightarrow> bool" where
  "fits n [] k \<longleftrightarrow> True"
| "fits n (Put x # ops) k \<longleftrightarrow> 0 < n \<and> fits (n - 1) ops (Suc k)"
| "fits n (Get # ops) k \<longleftrightarrow> fits (if k = 0 then n else Suc n) ops (k - 1)"

fun puts :: "'a qop list \<Rightarrow> 'a list" where
  "puts [] = []"
| "puts (Put x # ops) = x # puts ops"
| "puts (Get # ops) = puts ops"

definition gots :: "'a option list \<Rightarrow> 'a list" where
  "gots rs = map the (filter (\<lambda>r. r \<noteq> None) rs)"

lemma gots_simps [simp]:
  "gots [] = []"
  "gots (None # rs) = gots rs"
  "gots (Some x # rs) = x # gots rs"
  by (simp_all add: gots_def)

text \<open>First in, first out: what was taken out, then what is left, is what was there, then
  what was put in.\<close>

lemma list_ops_fifo: "list_ops ops xs = (rs, ys) \<Longrightarrow> gots rs @ ys = xs @ puts ops"
proof (induction ops xs arbitrary: rs ys rule: list_ops.induct)
  case (3 ops)
  then show ?case by (auto split: prod.splits)
next
  case (4 ops x xs)
  then show ?case by (auto split: prod.splits)
qed auto

lemma fits_puts: "length (puts ops) \<le> n \<Longrightarrow> fits n ops k"
proof (induction ops arbitrary: n k)
  case Nil
  then show ?case by simp
next
  case (Cons a ops)
  show ?case
  proof (cases a)
    case (Put x)
    with Cons.prems have "length (puts ops) \<le> n - 1" "0 < n" by auto
    with Put Cons.IH show ?thesis by simp
  next
    case Get
    with Cons show ?thesis by simp
  qed
qed

section \<open>The interface\<close>

locale bounded_queue =
  fixes rep :: "'s \<Rightarrow> 'a list \<Rightarrow> bool"
    and space :: "'s \<Rightarrow> nat"
    and put :: "'a \<Rightarrow> 's \<Rightarrow> 's res"
    and get :: "'s \<Rightarrow> ('a option \<times> 's) res"
  assumes put_law: "rep s xs \<Longrightarrow> 0 < space s \<Longrightarrow>
      holds (put x s) (\<lambda>s'. rep s' (xs @ [x]) \<and> space s' = space s - 1)"
    and get_empty_law: "rep s [] \<Longrightarrow>
      holds (get s) (\<lambda>(r, s'). r = None \<and> rep s' [] \<and> space s' = space s)"
    and get_law: "rep s (x # xs) \<Longrightarrow>
      holds (get s) (\<lambda>(r, s'). r = Some x \<and> rep s' xs \<and> space s' = Suc (space s))"
begin

lemma run_list_ops:
  "rep s xs \<Longrightarrow> fits (space s) ops (length xs) \<Longrightarrow>
     holds (run_ops put get ops s) (\<lambda>(rs, s'). \<exists>ys. list_ops ops xs = (rs, ys) \<and> rep s' ys \<and>
       space s' + length ys = space s + length xs)"
proof (induction ops xs arbitrary: s rule: list_ops.induct)
  case (1 xs)
  then show ?case by simp
next
  case (2 x ops xs)
  from 2(3) have sp: "0 < space s" and f: "fits (space s - 1) ops (Suc (length xs))" by simp_all
  from put_law [OF 2(2) sp, of x] obtain s' where s': "put x s = Inr s'" "rep s' (xs @ [x])"
    "space s' = space s - 1" by (auto simp: holds_iff)
  with 2(1) [of s'] f sp show ?case by (auto simp: holds_iff)
next
  case (3 ops)
  from get_empty_law [OF 3(2)] obtain s' where s': "get s = Inr (None, s')" "rep s' []"
    "space s' = space s" by (auto simp: holds_iff)
  with 3(1) [of s'] 3(3) show ?case by (auto simp: holds_iff)
next
  case (4 ops x xs)
  from get_law [OF 4(2)] obtain s' where s': "get s = Inr (Some x, s')" "rep s' xs"
    "space s' = Suc (space s)" by (auto simp: holds_iff)
  with 4(1) [of s'] 4(3) show ?case by (auto simp: holds_iff)
qed

lemma run_fifo:
  assumes "rep s xs" and "fits (space s) ops (length xs)"
  shows "holds (run_ops put get ops s)
    (\<lambda>(rs, s'). \<exists>ys. rep s' ys \<and> gots rs @ ys = xs @ puts ops)"
  using run_list_ops [OF assms] list_ops_fifo by (fastforce elim: holds_mono)

lemma run_never_faults:
  assumes "rep s xs" and "fits (space s) ops (length xs)"
  shows "run_ops put get ops s \<noteq> Inl e"
  using run_fifo [OF assms] by (auto simp: holds_iff)

end

end
