(* ===== verification/TW_Fifo.thy ===== *)
theory TW_Fifo
  imports TW_Chain TW_Queue
begin

text \<open>
  The class tw_FIFO of include/TW/tw_fifo.h: an unlimited queue kept as a chain of links
  that \<open>out\<close> points to the head of and \<open>in\<close> to the end of. The template argument \<open>T\<close> is
  the type variable, the allocator is the heap of TW_Heap; the allocator pointer of the
  class is never read and is left out. \<open>remain\<close> is a C \<open>int\<close>, taken as an integer: a queue
  that overflows it needs more than 2 ^ 31 links.
\<close>

section \<open>The data\<close>

record 'a link =
  ldat :: 'a
  lnext :: ptr

record fifo =
  enabled :: bool
  in_p :: ptr
  out_p :: ptr
  remain :: int

definition fifo_new :: fifo where
  "fifo_new = \<lparr>enabled = True, in_p = NULL, out_p = NULL, remain = 0\<rparr>"

definition init_link :: "ptr \<Rightarrow> 'a \<Rightarrow> 'a link heap \<Rightarrow> 'a link heap res" where
  "init_link p the_d h = construct p \<lparr>ldat = the_d, lnext = NULL\<rparr> h"

text \<open>\<open>init_link()\<close> leaves the value \<open>T()\<close> of the default constructor, an argument here.\<close>

definition init_link_default :: "ptr \<Rightarrow> 'a \<Rightarrow> 'a link heap \<Rightarrow> 'a link heap res" where
  "init_link_default p dflt h = construct p \<lparr>ldat = dflt, lnext = NULL\<rparr> h"

section \<open>The operations\<close>

text \<open>The statements every adding method has: hook the link in at the end.\<close>

definition link_tail :: "ptr \<Rightarrow> 'f fifo_scheme \<Rightarrow> 'a link heap \<Rightarrow>
    ('f fifo_scheme \<times> 'a link heap) res" where
  "link_tail newlink f h =
     bindE (if in_p f \<noteq> NULL then modify (in_p f) (\<lambda>l. l\<lparr>lnext := newlink\<rparr>) h else Inr h)
       (\<lambda>h. let f = f\<lparr>in_p := newlink\<rparr>;
                f = (if out_p f = NULL then f\<lparr>out_p := in_p f\<rparr> else f)
            in Inr (f\<lparr>remain := remain f + 1\<rparr>, h))"

definition fifo_add :: "'a \<Rightarrow> fifo \<Rightarrow> 'a link heap \<Rightarrow> (fifo \<times> 'a link heap) res" where
  "fifo_add the_d f h =
     (if enabled f then
        let (newlink, h) = malloc h
        in bindE (init_link newlink the_d h) (\<lambda>h. link_tail newlink f h)
      else Inr (f, h))"

text \<open>Hook the link in at the head; \<open>addToHead\<close> stores the data a second time first.\<close>

definition link_head :: "ptr \<Rightarrow> 'a \<Rightarrow> 'f fifo_scheme \<Rightarrow> 'a link heap \<Rightarrow>
    ('f fifo_scheme \<times> 'a link heap) res" where
  "link_head newlink the_d f h =
     bindE (modify newlink (\<lambda>l. l\<lparr>ldat := the_d\<rparr>) h) (\<lambda>h.
     bindE (if out_p f = NULL then Inr (f\<lparr>out_p := newlink\<rparr>, h)
            else bindE (modify newlink (\<lambda>l. l\<lparr>lnext := out_p f\<rparr>) h)
                   (\<lambda>h. Inr (f\<lparr>out_p := newlink\<rparr>, h)))
       (\<lambda>(f, h). let f = (if in_p f = NULL then f\<lparr>in_p := out_p f\<rparr> else f)
                 in Inr (f\<lparr>remain := remain f + 1\<rparr>, h)))"

definition fifo_addToHead :: "'a \<Rightarrow> fifo \<Rightarrow> 'a link heap \<Rightarrow> (fifo \<times> 'a link heap) res" where
  "fifo_addToHead the_d f h =
     (if enabled f then
        let (newlink, h) = malloc h
        in bindE (init_link newlink the_d h) (\<lambda>h. link_head newlink the_d f h)
      else Inr (f, h))"

text \<open>\<open>addEmpty\<close> returns the address of the new link's data, or null when disabled.\<close>

definition fifo_addEmpty :: "'a \<Rightarrow> fifo \<Rightarrow> 'a link heap \<Rightarrow>
    (ptr \<times> fifo \<times> 'a link heap) res" where
  "fifo_addEmpty dflt f h =
     (if enabled f then
        let (newlink, h) = malloc h
        in bindE (init_link_default newlink dflt h) (\<lambda>h.
           bindE (link_tail newlink f h) (\<lambda>(f, h). Inr (newlink, f, h)))
      else Inr (NULL, f, h))"

text \<open>The statements every removing method has: unhook the head link and free it.\<close>

definition unlink_head :: "'f fifo_scheme \<Rightarrow> 'a link heap \<Rightarrow>
    ('a option \<times> 'f fifo_scheme \<times> 'a link heap) res" where
  "unlink_head f h =
     (if out_p f \<noteq> NULL then
        bindE (load (out_p f) h) (\<lambda>l.
        let oldout = out_p f; f = f\<lparr>out_p := lnext l\<rparr>
        in bindE (free oldout h) (\<lambda>h.
           Inr (Some (ldat l), f\<lparr>remain := remain f - 1\<rparr>, h)))
      else Inr (None, f, h))"

text \<open>\<^verbatim>\<open>if(in==out) in = NULL;\<close>\<close>

definition drop_in :: "'f fifo_scheme \<Rightarrow> 'f fifo_scheme" where
  "drop_in f = (if in_p f = out_p f then f\<lparr>in_p := NULL\<rparr> else f)"

definition fifo_remove :: "fifo \<Rightarrow> 'a link heap \<Rightarrow>
    ('a option \<times> fifo \<times> 'a link heap) res" where
  "fifo_remove f h = unlink_head (drop_in f) h"

definition fifo_peek :: "fifo \<Rightarrow> 'a link heap \<Rightarrow> 'a option res" where
  "fifo_peek f h =
     (if out_p f \<noteq> NULL then bindE (load (out_p f) h) (\<lambda>l. Inr (Some (ldat l))) else Inr None)"

definition fifo_remaining :: "fifo \<Rightarrow> int" where
  "fifo_remaining f = remain f"

definition fifo_enable :: "fifo \<Rightarrow> fifo" where
  "fifo_enable f = f\<lparr>enabled := True\<rparr>"

definition fifo_disable :: "fifo \<Rightarrow> fifo" where
  "fifo_disable f = f\<lparr>enabled := False\<rparr>"

definition fifo_clearAll :: "fifo \<Rightarrow> 'a link heap \<Rightarrow> (fifo \<times> 'a link heap) res" where
  "fifo_clearAll f h = bindE (free_all lnext h (out_p f))
     (\<lambda>h. Inr (f\<lparr>out_p := NULL, in_p := NULL, remain := 0\<rparr>, h))"

text \<open>The destructor leaves no object, only the heap.\<close>

definition fifo_destroy :: "fifo \<Rightarrow> 'a link heap \<Rightarrow> 'a link heap res" where
  "fifo_destroy f h = free_all lnext h (out_p f)"

text \<open>
  \<open>transferFrom\<close> for two different queues: \<open>f\<close> is \<^verbatim>\<open>*this\<close>, \<open>g\<close> is \<^verbatim>\<open>other\<close>.
\<close>

definition fifo_transferFrom :: "fifo \<Rightarrow> fifo \<Rightarrow> 'a link heap \<Rightarrow>
    (fifo \<times> fifo \<times> 'a link heap) res" where
  "fifo_transferFrom f g h =
     (if enabled f then
        bindE (if out_p g \<noteq> NULL then
                 bindE (if in_p f \<noteq> NULL then
                          bindE (modify (in_p f) (\<lambda>l. l\<lparr>lnext := out_p g\<rparr>) h) (\<lambda>h.
                          bindE (load (in_p f) h) (\<lambda>l. Inr (f\<lparr>in_p := lnext l\<rparr>, h)))
                        else Inr (f\<lparr>in_p := out_p g\<rparr>, h))
                   (\<lambda>(f, h). Inr (f\<lparr>remain := remain f + 1\<rparr>, h))
               else Inr (f, h))
          (\<lambda>(f, h). let f = (if out_p f = NULL then f\<lparr>out_p := in_p f\<rparr> else f) in
             bindE (seek_last lnext h (in_p f) (remain f)) (\<lambda>(e, n).
             Inr (f\<lparr>in_p := e, remain := n\<rparr>,
                  g\<lparr>out_p := NULL, in_p := NULL, remain := 0\<rparr>, h)))
      else Inr (f, g, h))"

text \<open>The copy constructor empties its argument: it calls \<open>transferFrom\<close>.\<close>

definition fifo_copy :: "fifo \<Rightarrow> 'a link heap \<Rightarrow> (fifo \<times> fifo \<times> 'a link heap) res" where
  "fifo_copy g h = fifo_transferFrom fifo_new g h"

text \<open>
  The copying loop of \<open>operator=\<close>: \<open>look\<close> walks the source, \<open>prev\<close> is the last link built.
  The source has at most \<open>heap_size h\<close> links, which bounds the loop.
\<close>

fun copy_links :: "nat \<Rightarrow> ptr \<Rightarrow> ptr \<Rightarrow> int \<Rightarrow> 'a link heap \<Rightarrow>
    (ptr \<times> int \<times> 'a link heap) res" where
  "copy_links 0 look prev n h = (if look = NULL then Inr (prev, n, h) else Inl Diverges)"
| "copy_links (Suc k) look prev n h =
     (if look = NULL then Inr (prev, n, h)
      else let (newlink, h) = malloc h in
        bindE (load look h) (\<lambda>l.
        bindE (init_link newlink (ldat l) h) (\<lambda>h.
        bindE (modify prev (\<lambda>m. m\<lparr>lnext := newlink\<rparr>) h) (\<lambda>h.
        bindE (load look h) (\<lambda>l. copy_links k (lnext l) newlink (n + 1) h)))))"

text \<open>
  The part of \<open>operator=\<close> after \<open>clearAll\<close>. \<open>prev\<close> is a local variable with no initial
  value: when the source is empty, \<^verbatim>\<open>this->in = prev\<close> reads it indeterminate.
\<close>

definition copy_chain :: "'f fifo_scheme \<Rightarrow> ptr \<Rightarrow> 'a link heap \<Rightarrow>
    ('f fifo_scheme \<times> 'a link heap) res" where
  "copy_chain f look h =
     (let f = f\<lparr>remain := 0\<rparr> in
      if look = NULL then Inl Uninit
      else let (newlink, h1) = malloc h in
        bindE (load look h1) (\<lambda>l.
        bindE (init_link newlink (ldat l) h1) (\<lambda>h2.
        let f = f\<lparr>out_p := newlink, remain := remain f + 1\<rparr> in
        bindE (load look h2) (\<lambda>l.
        bindE (copy_links (heap_size h) (lnext l) newlink (remain f) h2) (\<lambda>(prev, n, h).
        Inr (f\<lparr>in_p := prev, remain := n\<rparr>, h))))))"

definition fifo_assign :: "fifo \<Rightarrow> fifo \<Rightarrow> 'a link heap \<Rightarrow> (fifo \<times> 'a link heap) res" where
  "fifo_assign f g h =
     bindE (fifo_clearAll (f\<lparr>enabled := enabled g\<rparr>) h) (\<lambda>(f, h). copy_chain f (out_p g) h)"

subsection \<open>Iterators\<close>

definition fifo_startIter :: "fifo \<Rightarrow> ptr" where
  "fifo_startIter f = out_p f"

definition fifo_releaseIter :: "ptr \<Rightarrow> ptr" where
  "fifo_releaseIter look = NULL"

definition iter_getNext :: "ptr \<Rightarrow> 'a link heap \<Rightarrow> ('a option \<times> ptr) res" where
  "iter_getNext look h =
     (if look \<noteq> NULL then bindE (load look h) (\<lambda>l. Inr (Some (ldat l), lnext l))
      else Inr (None, look))"

definition iter_atEnd :: "ptr \<Rightarrow> bool" where
  "iter_atEnd look \<longleftrightarrow> look = NULL"

text \<open>A client's loop: \<^verbatim>\<open>while(it.getNext(x)) ...\<close>, collecting what it sees.\<close>

fun iter_all :: "nat \<Rightarrow> ptr \<Rightarrow> 'a link heap \<Rightarrow> 'a list res" where
  "iter_all 0 look h = (if iter_atEnd look then Inr [] else Inl Diverges)"
| "iter_all (Suc k) look h = bindE (iter_getNext look h) (\<lambda>(r, look).
     case r of None \<Rightarrow> Inr [] | Some x \<Rightarrow> bindE (iter_all k look h) (\<lambda>xs. Inr (x # xs)))"

section \<open>The queue a tw_FIFO represents\<close>

text \<open>
  \<open>fifo_rep h f ps xs\<close>: in the heap \<open>h\<close> the object \<open>f\<close> owns the links \<open>ps\<close>, in the order from
  \<open>out\<close> to \<open>in\<close>, and they hold the values \<open>xs\<close>.
\<close>

definition fifo_rep :: "'a link heap \<Rightarrow> 'f fifo_scheme \<Rightarrow> ptr list \<Rightarrow> 'a list \<Rightarrow> bool" where
  "fifo_rep h f ps xs \<longleftrightarrow>
     chain lnext h (out_p f) ps NULL \<and> map (\<lambda>p. ldat (obj_at h p)) ps = xs \<and>
     in_p f = (if ps = [] then NULL else last ps) \<and> remain f = int (length ps)"

definition same_object :: "'f fifo_scheme \<Rightarrow> 'f fifo_scheme \<Rightarrow> bool" where
  "same_object f f' \<longleftrightarrow> enabled f' = enabled f \<and> fifo.more f' = fifo.more f"

lemma same_object_refl [simp]: "same_object f f"
  by (simp add: same_object_def)

lemma fifo_repD:
  assumes "fifo_rep h f ps xs"
  shows "chain lnext h (out_p f) ps NULL" and "distinct ps" and "length xs = length ps"
    and "remain f = int (length xs)" and "set ps \<subseteq> live h" and "length ps \<le> heap_size h"
  using assms chain_distinct chain_live chain_length by (fastforce simp: fifo_rep_def)+

lemma fifo_rep_Nil: "fifo_rep h f ps [] \<longleftrightarrow> ps = [] \<and> out_p f = NULL \<and> in_p f = NULL \<and> remain f = 0"
  by (auto simp: fifo_rep_def)

lemma fifo_rep_frame:
  assumes "fifo_rep h f ps xs" and "\<And>q. q \<in> set ps \<Longrightarrow> cell_at h' q = cell_at h q"
  shows "fifo_rep h' f ps xs"
proof -
  have "map (\<lambda>p. ldat (obj_at h' p)) ps = map (\<lambda>p. ldat (obj_at h p)) ps"
    using assms(2) by (auto simp: obj_at_def)
  moreover have "chain lnext h' (out_p f) ps NULL \<longleftrightarrow> chain lnext h (out_p f) ps NULL"
    by (rule chain_frame) (rule assms(2))
  ultimately show ?thesis using assms(1) by (auto simp: fifo_rep_def)
qed

lemma fifo_rep_new: "fifo_rep h fifo_new [] []"
  by (simp add: fifo_rep_def fifo_new_def)

lemma fifo_rep_outside:
  "fifo_rep h f ps xs \<Longrightarrow> same_outside S h h' \<Longrightarrow> S \<inter> set ps = {} \<Longrightarrow> fifo_rep h' f ps xs"
  by (erule fifo_rep_frame) (auto simp: same_outside_def disjoint_iff)

lemma fifo_rep_fresh: "fifo_rep h f ps xs \<Longrightarrow> Suc (heap_size h) \<notin> set ps"
  by (auto simp: fifo_rep_def dest: chain_fresh)

lemma fifo_rep_new_obj: "fifo_rep h f ps xs \<Longrightarrow> fifo_rep (new_obj c h) f ps xs"
  by (rule fifo_rep_outside [OF _ same_outside_new]) (auto dest: fifo_rep_fresh)

subsection \<open>Hooking in and unhooking\<close>

lemma link_tail_rep:
  assumes r: "fifo_rep h f ps xs" and p: "p \<notin> set ps"
    and c: "cell_at h p = Obj \<lparr>ldat = x, lnext = NULL\<rparr>"
  shows "\<exists>f' h'. link_tail p f h = Inr (f', h') \<and> fifo_rep h' f' (ps @ [p]) (xs @ [x]) \<and>
    same_object f f' \<and> room h' = room h \<and> heap_size h' = heap_size h \<and>
    same_outside (set ps) h h' \<and> live h' = live h"
proof (cases ps rule: rev_cases)
  case Nil
  with r c show ?thesis by (auto simp: link_tail_def fifo_rep_def same_object_def Let_def)
next
  case (snoc as b)
  from r have ch: "chain lnext h (out_p f) (as @ [b]) NULL" and last: "in_p f = b"
    by (auto simp: fifo_rep_def snoc)
  from ch obtain l where l: "cell_at h b = Obj l" by (auto simp: chain_append)
  have b: "0 < b" using l by (rule cell_at_Obj_pos)
  have out: "0 < out_p f" using ch by (rule chain_start_snoc)
  let ?h = "put_cell b (Obj (l\<lparr>lnext := p\<rparr>)) h"
  have at: "cell_at ?h q = (if q = b then Obj (l\<lparr>lnext := p\<rparr>) else cell_at h q)" for q
    using l by (simp add: cell_at_put)
  have "distinct (as @ [b])" using ch by (rule chain_distinct)
  then have "chain lnext ?h (out_p f) (as @ [b]) p"
    by (intro chain_relink [OF ch]) (auto simp: at)
  then have "chain lnext ?h (out_p f) (ps @ [p]) NULL"
    using c p snoc by (auto simp: chain_append at)
  moreover have "map (\<lambda>q. ldat (obj_at ?h q)) (ps @ [p]) = xs @ [x]"
    using r p c l by (auto simp: fifo_rep_def obj_at_def at snoc)
  ultimately show ?thesis
    using r snoc l b out at
    by (auto simp: link_tail_def fifo_rep_def modify_Obj same_object_def same_outside_def Let_def live_put)
qed

lemma link_head_rep:
  assumes r: "fifo_rep h f ps xs" and p: "p \<notin> set ps"
    and c: "cell_at h p = Obj \<lparr>ldat = y, lnext = NULL\<rparr>"
  shows "\<exists>f' h'. link_head p x f h = Inr (f', h') \<and> fifo_rep h' f' (p # ps) (x # xs) \<and>
    same_object f f' \<and> room h' = room h \<and> heap_size h' = heap_size h \<and>
    same_outside {p} h h' \<and> live h' = live h"
proof (cases ps)
  case Nil
  with r c cell_at_Obj_pos [OF c] show ?thesis
    by (auto simp: link_head_def fifo_rep_def modify_Obj same_object_def Let_def cell_at_put
        same_outside_def live_put)
next
  case (Cons a as)
  let ?h1 = "put_cell p (Obj \<lparr>ldat = x, lnext = NULL\<rparr>) h"
  let ?h = "put_cell p (Obj \<lparr>ldat = x, lnext = out_p f\<rparr>) ?h1"
  have at1: "cell_at ?h1 q = (if q = p then Obj \<lparr>ldat = x, lnext = NULL\<rparr> else cell_at h q)" for q
    using c by (simp add: cell_at_put)
  have at: "cell_at ?h q = (if q = p then Obj \<lparr>ldat = x, lnext = out_p f\<rparr> else cell_at h q)" for q
    by (simp add: cell_at_put at1)
  have "chain lnext ?h (out_p f) ps NULL"
    using r p by (subst chain_frame) (auto simp: fifo_rep_def at)
  moreover have "map (\<lambda>q. ldat (obj_at ?h q)) ps = xs"
    using r p by (auto simp: fifo_rep_def obj_at_def at intro!: map_cong)
  moreover have "0 < out_p f" "0 < in_p f"
    using r Cons chain_start [of lnext h "out_p f" a as NULL] chain_not_NULL [of lnext h "out_p f" ps NULL]
    by (auto simp: fifo_rep_def) (metis last_in_set list.set_intros neq0_conv)
  ultimately show ?thesis
    using r Cons c at at1
    by (auto simp: link_head_def fifo_rep_def modify_Obj same_object_def same_outside_def Let_def
        live_put obj_at_def)
qed

lemma drop_in_simps [simp]:
  "out_p (drop_in f) = out_p f" "remain (drop_in f) = remain f" "same_object f (drop_in f)"
  "enabled (drop_in f) = enabled f" "fifo.more (drop_in f) = fifo.more f"
  by (simp_all add: drop_in_def same_object_def)

lemma drop_in_Nil: "fifo_rep h f ps [] \<Longrightarrow> drop_in f = f"
  by (auto simp: fifo_rep_def drop_in_def)

text \<open>After \<open>drop_in\<close> the end pointer is null exactly when one link or none is left.\<close>

lemma drop_in_Cons:
  assumes "fifo_rep h f (p # ps) xs"
  shows "in_p (drop_in f) = (if ps = [] then NULL else last ps)"
proof -
  have "p \<notin> set ps" and "out_p f = p" and "in_p f = last (p # ps)"
    using assms fifo_repD(2) [OF assms] by (auto simp: fifo_rep_def)
  then show ?thesis by (cases "ps = []") (auto simp: drop_in_def dest: last_in_set)
qed

lemma unlink_head_Nil:
  assumes "fifo_rep h f ps []"
  shows "unlink_head (drop_in f) h = Inr (None, f, h)"
  using assms drop_in_Nil [OF assms] by (auto simp: unlink_head_def fifo_rep_Nil)

lemma unlink_head_rep:
  assumes r: "fifo_rep h f ps (x # xs)"
  shows "\<exists>f' h'. unlink_head (drop_in f) h = Inr (Some x, f', h') \<and>
    fifo_rep h' f' (tl ps) xs \<and> same_object f f' \<and>
    room h' = Suc (room h) \<and> heap_size h' = heap_size h \<and>
    (\<forall>q. cell_at h' q = (if q = hd ps then Freed else cell_at h q))"
proof -
  from r obtain p qs where ps: "ps = p # qs" by (cases ps) (auto simp: fifo_rep_def)
  with r obtain l where l: "out_p f = p" "cell_at h p = Obj l" "chain lnext h (lnext l) qs NULL"
    "ldat l = x" "map (\<lambda>q. ldat (obj_at h q)) qs = xs"
    by (auto simp: fifo_rep_def)
  have p: "0 < p" "p \<notin> set qs"
    using cell_at_Obj_pos [OF l(2)] fifo_repD(2) [OF r] ps by auto
  let ?h = "(put_cell p Freed h)\<lparr>room := Suc (room h)\<rparr>"
  let ?f = "(drop_in f)\<lparr>out_p := lnext l, remain := remain f - 1\<rparr>"
  have at: "cell_at ?h q = (if q = p then Freed else cell_at h q)" for q
    using l(2) by (simp add: cell_at_put)
  have "chain lnext ?h (lnext l) qs NULL"
    using l(2,3) p by (subst chain_frame) (auto simp: cell_at_put)
  moreover have "map (\<lambda>q. ldat (obj_at ?h q)) qs = xs"
    using l(2,5) p(2) by (auto simp: obj_at_def cell_at_put)
  ultimately have "fifo_rep ?h ?f qs xs"
    using r drop_in_Cons [OF r [unfolded ps]] by (simp add: fifo_rep_def ps)
  moreover have "unlink_head (drop_in f) h = Inr (Some x, ?f, ?h)"
    using l p by (auto simp: unlink_head_def Let_def free_ok)
  ultimately show ?thesis using ps at by (fastforce simp: same_object_def)
qed

subsection \<open>The operations\<close>

lemma malloc_init_link [heap_simps]:
  "0 < room h \<Longrightarrow> (case malloc h of (p, h') \<Rightarrow> bindE (init_link p x h') (F p)) =
     F (Suc (heap_size h)) (new_obj \<lparr>ldat = x, lnext = NULL\<rparr> h)"
  by (simp add: malloc_ok init_link_def construct_new)

lemma malloc_init_link_fails [heap_simps]:
  "room h = 0 \<Longrightarrow> (case malloc h of (p, h') \<Rightarrow> bindE (init_link p x h') (F p)) = Inl NullDeref"
  by (simp add: malloc_fails init_link_def)

lemma malloc_init_default [heap_simps]:
  "0 < room h \<Longrightarrow> (case malloc h of (p, h') \<Rightarrow> bindE (init_link_default p x h') (F p)) =
     F (Suc (heap_size h)) (new_obj \<lparr>ldat = x, lnext = NULL\<rparr> h)"
  by (simp add: malloc_ok init_link_default_def construct_new)

text \<open>Building a link and hooking it in at the end, as every class here does.\<close>

lemma new_link_tail_rep:
  assumes r: "fifo_rep h f ps xs" and room: "0 < room h"
  shows "\<exists>f' h'. link_tail (Suc (heap_size h)) f (new_obj \<lparr>ldat = x, lnext = NULL\<rparr> h) = Inr (f', h') \<and>
    fifo_rep h' f' (ps @ [Suc (heap_size h)]) (xs @ [x]) \<and> same_object f f' \<and>
    room h' = room h - 1 \<and> same_outside (insert (Suc (heap_size h)) (set ps)) h h' \<and>
    live h' = insert (Suc (heap_size h)) (live h)"
proof -
  let ?p = "Suc (heap_size h)" and ?h = "new_obj \<lparr>ldat = x, lnext = NULL\<rparr> h"
  obtain f' h' where "link_tail ?p f ?h = Inr (f', h')" "fifo_rep h' f' (ps @ [?p]) (xs @ [x])"
    "same_object f f'" "room h' = room ?h" "same_outside (set ps) ?h h'" "live h' = live ?h"
    using link_tail_rep [OF fifo_rep_new_obj [OF r] fifo_rep_fresh [OF r], of _ x]
    by (auto simp: cell_at_new)
  moreover have "same_outside (insert ?p (set ps)) h h'"
    using same_outside_trans [OF same_outside_new \<open>same_outside (set ps) ?h h'\<close>] by simp
  ultimately show ?thesis by (simp add: live_new)
qed

lemma new_link_head_rep:
  assumes r: "fifo_rep h f ps xs" and room: "0 < room h"
  shows "\<exists>f' h'. link_head (Suc (heap_size h)) x f (new_obj \<lparr>ldat = y, lnext = NULL\<rparr> h) = Inr (f', h') \<and>
    fifo_rep h' f' (Suc (heap_size h) # ps) (x # xs) \<and> same_object f f' \<and>
    room h' = room h - 1 \<and> same_outside {Suc (heap_size h)} h h' \<and>
    live h' = insert (Suc (heap_size h)) (live h)"
proof -
  let ?p = "Suc (heap_size h)" and ?h = "new_obj \<lparr>ldat = y, lnext = NULL\<rparr> h"
  obtain f' h' where "link_head ?p x f ?h = Inr (f', h')" "fifo_rep h' f' (?p # ps) (x # xs)"
    "same_object f f'" "room h' = room ?h" "same_outside {?p} ?h h'" "live h' = live ?h"
    using link_head_rep [OF fifo_rep_new_obj [OF r] fifo_rep_fresh [OF r], of _ y x]
    by (auto simp: cell_at_new)
  moreover have "same_outside {?p} h h'"
    using same_outside_trans [OF same_outside_new \<open>same_outside {?p} ?h h'\<close>] by simp
  ultimately show ?thesis by (simp add: live_new)
qed

lemma fifo_add_rep:
  assumes "fifo_rep h f ps xs" and "enabled f" and "0 < room h"
  shows "holds (fifo_add x f h) (\<lambda>(f', h'). fifo_rep h' f' (ps @ [Suc (heap_size h)]) (xs @ [x]) \<and>
    same_object f f' \<and> room h' = room h - 1 \<and>
    same_outside (insert (Suc (heap_size h)) (set ps)) h h' \<and>
    live h' = insert (Suc (heap_size h)) (live h))"
  using new_link_tail_rep [OF assms(1,3), of x] assms(2,3)
  by (auto simp: fifo_add_def malloc_init_link)

lemma fifo_remove_rep:
  assumes "fifo_rep h f ps (x # xs)"
  shows "holds (fifo_remove f h) (\<lambda>(r, f', h'). r = Some x \<and> fifo_rep h' f' (tl ps) xs \<and>
    same_object f f' \<and> room h' = Suc (room h) \<and> heap_size h' = heap_size h \<and>
    (\<forall>q. cell_at h' q = (if q = hd ps then Freed else cell_at h q)))"
  using unlink_head_rep [OF assms] by (auto simp: fifo_remove_def)

lemma fifo_remove_Nil:
  "fifo_rep h f ps [] \<Longrightarrow> fifo_remove f h = Inr (None, f, h)"
  by (simp add: fifo_remove_def unlink_head_Nil)

lemma fifo_addToHead_rep:
  assumes "fifo_rep h f ps xs" and "enabled f" and "0 < room h"
  shows "holds (fifo_addToHead x f h) (\<lambda>(f', h'). fifo_rep h' f' (Suc (heap_size h) # ps) (x # xs) \<and>
    same_object f f' \<and> room h' = room h - 1 \<and> same_outside {Suc (heap_size h)} h h' \<and>
    live h' = insert (Suc (heap_size h)) (live h))"
  using new_link_head_rep [OF assms(1,3), of x x] assms(2,3)
  by (auto simp: fifo_addToHead_def malloc_init_link)

lemma fifo_addEmpty_rep:
  assumes "fifo_rep h f ps xs" and "enabled f" and "0 < room h"
  shows "holds (fifo_addEmpty dflt f h) (\<lambda>(p, f', h'). p = Suc (heap_size h) \<and>
    fifo_rep h' f' (ps @ [p]) (xs @ [dflt]) \<and> same_object f f' \<and> room h' = room h - 1)"
  using new_link_tail_rep [OF assms(1,3), of dflt] assms(2,3)
  by (auto simp: fifo_addEmpty_def malloc_init_default)

lemma fifo_disabled:
  assumes "\<not> enabled f"
  shows "fifo_add x f h = Inr (f, h)" and "fifo_addToHead x f h = Inr (f, h)"
    and "fifo_addEmpty x f h = Inr (NULL, f, h)" and "fifo_transferFrom f g h = Inr (f, g, h)"
  using assms
  by (simp_all add: fifo_add_def fifo_addToHead_def fifo_addEmpty_def fifo_transferFrom_def)

lemma fifo_add_no_memory:
  "enabled f \<Longrightarrow> room h = 0 \<Longrightarrow> fifo_add x f h = Inl NullDeref"
  by (simp add: fifo_add_def malloc_init_link_fails)

lemma fifo_peek_rep:
  assumes "fifo_rep h f ps xs"
  shows "fifo_peek f h = Inr (case xs of [] \<Rightarrow> None | x # _ \<Rightarrow> Some x)"
proof (cases ps)
  case Nil
  with assms show ?thesis by (auto simp: fifo_rep_def fifo_peek_def)
next
  case (Cons p qs)
  with assms show ?thesis
    by (auto simp: fifo_rep_def fifo_peek_def dest: cell_at_Obj_pos)
qed

lemma fifo_clearAll_rep:
  assumes "fifo_rep h f ps xs"
  shows "holds (fifo_clearAll f h) (\<lambda>(f', h'). fifo_rep h' f' [] [] \<and> same_object f f' \<and>
    live h' = live h - set ps \<and> room h' = room h + length xs \<and> same_outside (set ps) h h' \<and>
    heap_size h' = heap_size h)"
proof -
  from assms have "chain lnext h (out_p f) ps NULL" by (rule fifo_repD)
  from free_all_chain [OF this] obtain h' where
    "free_all lnext h (out_p f) = Inr h'"
    "\<And>q. cell_at h' q = (if q \<in> set ps then Freed else cell_at h q)"
    "room h' = room h + length ps" "heap_size h' = heap_size h" by blast
  with fifo_repD(3) [OF assms] show ?thesis
    by (auto simp: fifo_clearAll_def fifo_rep_Nil same_object_def live_def same_outside_def)
qed

lemma fifo_destroy_rep:
  assumes "fifo_rep h f ps xs"
  shows "holds (fifo_destroy f h) (\<lambda>h'. live h' = live h - set ps \<and> room h' = room h + length xs)"
proof -
  from assms have "chain lnext h (out_p f) ps NULL" by (rule fifo_repD)
  from free_all_chain [OF this] obtain h' where
    "free_all lnext h (out_p f) = Inr h'"
    "\<And>q. cell_at h' q = (if q \<in> set ps then Freed else cell_at h q)"
    "room h' = room h + length ps" by blast
  with fifo_repD(3) [OF assms] show ?thesis by (auto simp: fifo_destroy_def live_def)
qed

subsection \<open>Transfer\<close>

lemma chain_join:
  assumes ps: "chain nx h p (as @ [b]) NULL" and qs: "chain nx h q qs NULL"
    and dj: "set (as @ [b]) \<inter> set qs = {}" and b: "cell_at h b = Obj c" and c: "nx c' = q"
  shows "chain nx (put_cell b (Obj c') h) p ((as @ [b]) @ qs) NULL"
proof -
  have at: "cell_at (put_cell b (Obj c') h) a = (if a = b then Obj c' else cell_at h a)" for a
    using b by (simp add: cell_at_put)
  have "distinct (as @ [b])" using ps by (rule chain_distinct)
  then have "chain nx (put_cell b (Obj c') h) p (as @ [b]) q"
    by (intro chain_relink [OF ps _ c]) (auto simp: at)
  moreover have "chain nx (put_cell b (Obj c') h) q qs NULL"
    using qs dj by (subst chain_frame) (auto simp: at)
  ultimately show ?thesis by (subst chain_append) blast
qed

lemma fifo_transferFrom_rep:
  assumes f: "fifo_rep h f ps xs" and g: "fifo_rep h g qs ys"
    and dj: "set ps \<inter> set qs = {}" and en: "enabled f" and ne: "ps \<noteq> [] \<or> qs \<noteq> []"
  shows "holds (fifo_transferFrom f g h) (\<lambda>(f', g', h').
    fifo_rep h' f' (ps @ qs) (xs @ ys) \<and> fifo_rep h' g' [] [] \<and>
    same_object f f' \<and> same_object g g' \<and> room h' = room h \<and> live h' = live h)"
proof (cases qs rule: rev_cases)
  case Nil
  with ne obtain as b where ps: "ps = as @ [b]" by (cases ps rule: rev_cases) auto
  have "chain lnext h b ([] @ [b]) NULL" using f ps by (auto simp: fifo_rep_def chain_append)
  from seek_last_chain [OF this] f g Nil ps en
    chain_start_snoc [of lnext h "out_p f" as b NULL]
  show ?thesis by (auto simp: fifo_transferFrom_def fifo_rep_def same_object_def Let_def)
next
  case (snoc bs e)
  have gch: "chain lnext h (out_p g) (bs @ [e]) NULL" using g snoc by (simp add: fifo_rep_def)
  have gout: "0 < out_p g" using gch by (rule chain_start_snoc)
  show ?thesis
  proof (cases ps rule: rev_cases)
    case Nil
    with f g snoc en gout seek_last_chain [OF gch] show ?thesis
      by (auto simp: fifo_transferFrom_def fifo_rep_def same_object_def Let_def)
  next
    case (snoc as b)
    with f have fch: "chain lnext h (out_p f) (as @ [b]) NULL" and inb: "in_p f = b"
      by (auto simp: fifo_rep_def)
    then obtain l where l: "cell_at h b = Obj l" by (auto simp: chain_append)
    have b: "0 < b" using l by (rule cell_at_Obj_pos)
    have fout: "0 < out_p f" using fch by (rule chain_start_snoc)
    let ?h = "put_cell b (Obj (l\<lparr>lnext := out_p g\<rparr>)) h"
    have at: "cell_at ?h q = (if q = b then Obj (l\<lparr>lnext := out_p g\<rparr>) else cell_at h q)" for q
      using l by (simp add: cell_at_put)
    have bq: "b \<notin> set qs" using dj snoc by auto
    have ch: "chain lnext ?h (out_p f) (ps @ qs) NULL"
      using chain_join [OF fch _ _ l] gch dj snoc \<open>qs = bs @ [e]\<close> by simp
    have gch': "chain lnext ?h (out_p g) (bs @ [e]) NULL"
      using gch bq \<open>qs = bs @ [e]\<close> by (subst chain_frame) (auto simp: at)
    have xs: "map (\<lambda>p. ldat (obj_at ?h p)) (ps @ qs) = xs @ ys"
      using f g l by (auto simp: fifo_rep_def obj_at_def at)
    show ?thesis
      using seek_last_chain [OF gch'] f g en gout fout b inb l ch xs snoc \<open>qs = bs @ [e]\<close> at
      by (simp add: fifo_transferFrom_def fifo_rep_def same_object_def Let_def modify_Obj live_put)
  qed
qed

lemma fifo_transferFrom_both_empty:
  "fifo_rep h f [] [] \<Longrightarrow> fifo_rep h g [] [] \<Longrightarrow> enabled f \<Longrightarrow>
     fifo_transferFrom f g h = Inl NullDeref"
  by (auto simp: fifo_transferFrom_def fifo_rep_Nil seek_last_NULL Let_def)

subsection \<open>Copying\<close>

text \<open>
  The copying loop: \<open>prev\<close> ends the chain built so far, \<open>look\<close> leads to the links \<open>qs\<close>
  still to be copied. The new links \<open>ns\<close> are fresh and hold the same values.
\<close>

lemma copy_links_rep:
  assumes "chain lnext h look qs NULL" and "length qs \<le> k" and "length qs \<le> room h"
    and "cell_at h prev = Obj \<lparr>ldat = x, lnext = NULL\<rparr>" and "prev \<notin> set qs"
  shows "\<exists>h' ns. copy_links k look prev n h = Inr (last (prev # ns), n + int (length qs), h') \<and>
    length ns = length qs \<and> chain lnext h' prev (prev # ns) NULL \<and>
    map (\<lambda>p. ldat (obj_at h' p)) (prev # ns) = x # map (\<lambda>p. ldat (obj_at h p)) qs \<and>
    set ns \<inter> live h = {} \<and> same_outside (insert prev (set ns)) h h' \<and>
    room h' = room h - length qs"
  using assms
proof (induction qs arbitrary: k look prev n h x)
  case Nil
  then show ?case by (cases k) (auto intro!: exI [of _ "[]"])
next
  case (Cons q qs)
  then obtain l where l: "look = q" "cell_at h q = Obj l" "chain lnext h (lnext l) qs NULL"
    by auto
  obtain k' where k: "k = Suc k'" "length qs \<le> k'" using Cons.prems(2) by (cases k) auto
  let ?p = "Suc (heap_size h)"
  let ?h1 = "new_obj \<lparr>ldat = ldat l, lnext = NULL\<rparr> h"
  let ?h2 = "put_cell prev (Obj \<lparr>ldat = x, lnext = ?p\<rparr>) ?h1"
  have pos: "0 < q" using l(2) by (rule cell_at_Obj_pos)
  have fresh: "?p \<notin> set (q # qs)" "?p \<noteq> prev"
    using chain_fresh [OF Cons.prems(1)] Cons.prems(4) by (auto simp: cell_at_def split: if_splits)
  have at1: "cell_at ?h1 a = (if a = ?p then Obj \<lparr>ldat = ldat l, lnext = NULL\<rparr> else cell_at h a)" for a
    by (simp add: cell_at_new)
  have at2: "cell_at ?h2 a = (if a = prev then Obj \<lparr>ldat = x, lnext = ?p\<rparr> else cell_at ?h1 a)" for a
    using Cons.prems(4) fresh by (subst cell_at_put) (auto simp: at1)
  have ch: "chain lnext ?h2 (lnext l) qs NULL"
    using l(3) fresh Cons.prems(5) by (subst chain_frame) (auto simp: at1 at2)
  have rm: "length qs \<le> room ?h2" using Cons.prems(3) by simp
  obtain h' ns where ih: "copy_links k' (lnext l) ?p (n + 1) ?h2 =
      Inr (last (?p # ns), n + 1 + int (length qs), h')"
    "length ns = length qs" "chain lnext h' ?p (?p # ns) NULL"
    "map (\<lambda>a. ldat (obj_at h' a)) (?p # ns) = ldat l # map (\<lambda>a. ldat (obj_at ?h2 a)) qs"
    "set ns \<inter> live ?h2 = {}" "same_outside (insert ?p (set ns)) ?h2 h'"
    "room h' = room ?h2 - length qs"
    using Cons.IH [OF ch k(2) rm, of ?p "ldat l" "n + 1"] fresh by (simp add: at1 at2) blast
  have step: "copy_links k look prev n h = copy_links k' (lnext l) ?p (n + 1) ?h2"
    using l k pos fresh Cons.prems(3,4,5) at1 at2
    by (simp add: malloc_ok init_link_def construct_new cell_at_malloc modify_Obj
        load_Obj [of _ q l] cell_at_new)
  have lv: "live ?h2 = insert ?p (live h)"
    using Cons.prems(4) fresh by (auto simp: live_iff at1 at2 split: if_splits)
  have dj: "set ns \<inter> live h = {}" "prev \<notin> set ns" "?p \<notin> set ns"
    using ih(5) Cons.prems(4) by (auto simp: lv live_iff)
  have prev: "cell_at h' prev = Obj \<lparr>ldat = x, lnext = ?p\<rparr>"
    using same_outsideD [OF ih(6), of prev] dj fresh by (auto simp: at2)
  have "map (\<lambda>a. ldat (obj_at ?h2 a)) qs = map (\<lambda>a. ldat (obj_at h a)) qs"
    using fresh Cons.prems(5) by (auto simp: obj_at_def at1 at2)
  then have "map (\<lambda>a. ldat (obj_at h' a)) (prev # ?p # ns) = x # map (\<lambda>a. ldat (obj_at h a)) (q # qs)"
    using ih(4) prev l(2) by simp
  moreover have "chain lnext h' prev (prev # ?p # ns) NULL"
    using ih(3) prev by simp
  moreover have "same_outside (insert prev (set (?p # ns))) h h'"
    using ih(6) by (auto simp: same_outside_def at1 at2)
  moreover have "set (?p # ns) \<inter> live h = {}" using dj(1) by simp
  ultimately show ?case
    using step ih(1,2,7) by (intro exI [of _ h'] exI [of _ "?p # ns"]) auto
qed

lemma copy_chain_rep:
  assumes ch: "chain lnext h look qs NULL" and ne: "qs \<noteq> []" and room: "length qs \<le> room h"
  shows "holds (copy_chain f look h) (\<lambda>(f', h'). \<exists>ns.
    fifo_rep h' f' ns (map (\<lambda>p. ldat (obj_at h p)) qs) \<and> same_object f f' \<and>
    set ns \<inter> live h = {} \<and> same_outside (set ns) h h' \<and> room h' = room h - length qs)"
proof -
  obtain q rs where qs: "qs = q # rs" using ne by (cases qs) auto
  with ch obtain l where l: "look = q" "cell_at h q = Obj l" "chain lnext h (lnext l) rs NULL"
    by auto
  let ?p = "Suc (heap_size h)" and ?h1 = "new_obj \<lparr>ldat = ldat l, lnext = NULL\<rparr> h"
  have pos: "0 < q" using l(2) by (rule cell_at_Obj_pos)
  have fresh: "?p \<notin> set qs" using chain_fresh [OF ch] .
  have at1: "cell_at ?h1 a = (if a = ?p then Obj \<lparr>ldat = ldat l, lnext = NULL\<rparr> else cell_at h a)" for a
    by (simp add: cell_at_new)
  have ch1: "chain lnext ?h1 (lnext l) rs NULL"
    using l(3) fresh qs by (subst chain_frame) (auto simp: at1)
  have len: "length rs \<le> heap_size h" using chain_length [OF ch] qs by simp
  have rm: "length rs \<le> room ?h1" using room qs by simp
  obtain h' ns where cl: "copy_links (heap_size h) (lnext l) ?p 1 ?h1 =
      Inr (last (?p # ns), 1 + int (length rs), h')"
    "length ns = length rs" "chain lnext h' ?p (?p # ns) NULL"
    "map (\<lambda>a. ldat (obj_at h' a)) (?p # ns) = ldat l # map (\<lambda>a. ldat (obj_at ?h1 a)) rs"
    "set ns \<inter> live ?h1 = {}" "same_outside (insert ?p (set ns)) ?h1 h'"
    "room h' = room ?h1 - length rs"
    using copy_links_rep [OF ch1 len rm, of ?p "ldat l" 1] qs fresh by (simp add: at1) blast
  have "map (\<lambda>a. ldat (obj_at ?h1 a)) rs = map (\<lambda>a. ldat (obj_at h a)) rs"
    using fresh qs by (auto simp: obj_at_def at1)
  with cl(4) l(2) qs have vals: "map (\<lambda>a. ldat (obj_at h' a)) (?p # ns) = map (\<lambda>a. ldat (obj_at h a)) qs"
    by simp
  have "copy_chain f look h = Inr (f\<lparr>remain := 1 + int (length rs), out_p := ?p, in_p := last (?p # ns)\<rparr>, h')"
    using l pos room qs cl(1) fresh
    by (simp add: copy_chain_def Let_def malloc_ok init_link_def construct_new cell_at_malloc
        load_Obj [of _ q l] at1)
  moreover have "set (?p # ns) \<inter> live h = {}" using cl(5) by (auto simp: live_new)
  moreover have "same_outside (set (?p # ns)) h h'"
    using cl(6) by (auto simp: same_outside_def at1)
  ultimately show ?thesis
    using cl vals qs by (auto simp: fifo_rep_def same_object_def intro!: exI [of _ "?p # ns"])
qed

lemma copy_chain_empty: "copy_chain f NULL h = Inl Uninit"
  by (simp add: copy_chain_def Let_def)

lemma fifo_assign_rep:
  assumes f: "fifo_rep h f ps xs" and g: "fifo_rep h g qs ys"
    and dj: "set ps \<inter> set qs = {}" and ne: "ys \<noteq> []" and room: "length ys \<le> room h + length xs"
  shows "holds (fifo_assign f g h) (\<lambda>(f', h'). \<exists>ns. fifo_rep h' f' ns ys \<and>
    fifo_rep h' g qs ys \<and> set ns \<inter> set qs = {} \<and> enabled f' = enabled g \<and>
    room h' = room h + length xs - length ys)"
proof -
  let ?f = "f\<lparr>enabled := enabled g\<rparr>"
  have "fifo_rep h ?f ps xs" using f by (simp add: fifo_rep_def)
  from fifo_clearAll_rep [OF this] obtain f1 h1 where c: "fifo_clearAll ?f h = Inr (f1, h1)"
    "same_object ?f f1" "room h1 = room h + length xs" "same_outside (set ps) h h1"
    by (auto simp: holds_iff)
  have g1: "fifo_rep h1 g qs ys" using fifo_rep_outside [OF g c(4) dj] .
  have len: "length qs = length ys" using fifo_repD(3) [OF g] by simp
  have vals: "map (\<lambda>p. ldat (obj_at h1 p)) qs = ys" using g1 by (simp add: fifo_rep_def)
  obtain f2 h2 ns where cc: "copy_chain f1 (out_p g) h1 = Inr (f2, h2)" "fifo_rep h2 f2 ns ys"
    "same_object f1 f2" "set ns \<inter> live h1 = {}" "same_outside (set ns) h1 h2"
    "room h2 = room h1 - length qs"
    using copy_chain_rep [OF fifo_repD(1) [OF g1], of f1] ne room c(3) len vals
    by (auto simp: holds_iff)
  have "set ns \<inter> set qs = {}" using cc(4) fifo_repD(5) [OF g1] by blast
  then show ?thesis
    using c cc len fifo_rep_outside [OF g1 cc(5)]
    by (auto simp: fifo_assign_def same_object_def)
qed

lemma fifo_assign_from_empty:
  assumes f: "fifo_rep h f ps xs" and g: "fifo_rep h g [] []"
  shows "fifo_assign f g h = Inl Uninit"
proof -
  let ?f = "f\<lparr>enabled := enabled g\<rparr>"
  have "fifo_rep h ?f ps xs" using f by (simp add: fifo_rep_def)
  from fifo_clearAll_rep [OF this] g show ?thesis
    by (auto simp: fifo_assign_def holds_iff fifo_rep_Nil copy_chain_empty)
qed

subsection \<open>Iteration\<close>

lemma iter_all_chain:
  "chain lnext h look ps NULL \<Longrightarrow> length ps \<le> k \<Longrightarrow>
     iter_all k look h = Inr (map (\<lambda>p. ldat (obj_at h p)) ps)"
proof (induction ps arbitrary: look k)
  case Nil
  then show ?case by (cases k) (auto simp: iter_getNext_def iter_atEnd_def)
next
  case (Cons p ps)
  then obtain l where l: "look = p" "cell_at h p = Obj l" "chain lnext h (lnext l) ps NULL" by auto
  from Cons.prems obtain k' where "k = Suc k'" "length ps \<le> k'" by (cases k) auto
  with l Cons.IH [OF l(3), of k'] cell_at_Obj_pos [OF l(2)] show ?case
    by (simp add: iter_getNext_def)
qed

lemma iter_all_rep:
  assumes "fifo_rep h f ps xs"
  shows "iter_all (heap_size h) (fifo_startIter f) h = Inr xs"
  using assms iter_all_chain [OF fifo_repD(1) [OF assms] fifo_repD(6) [OF assms]]
  by (simp add: fifo_startIter_def fifo_rep_def)

section \<open>tw_FIFO as a bounded queue\<close>

type_synonym 'a fifo_state = "fifo \<times> 'a link heap"

definition fifo_queue :: "'a fifo_state \<Rightarrow> 'a list \<Rightarrow> bool" where
  "fifo_queue s xs \<longleftrightarrow> enabled (fst s) \<and> (\<exists>ps. fifo_rep (snd s) (fst s) ps xs)"

definition fifo_put :: "'a \<Rightarrow> 'a fifo_state \<Rightarrow> 'a fifo_state res" where
  "fifo_put x s = fifo_add x (fst s) (snd s)"

definition fifo_get :: "'a fifo_state \<Rightarrow> ('a option \<times> 'a fifo_state) res" where
  "fifo_get s = fifo_remove (fst s) (snd s)"

definition fifo_space :: "'a fifo_state \<Rightarrow> nat" where
  "fifo_space s = room (snd s)"

lemmas fifo_state_defs = fifo_queue_def fifo_put_def fifo_get_def fifo_space_def same_object_def

interpretation fq: bounded_queue fifo_queue fifo_space fifo_put fifo_get
proof
  fix s :: "'a fifo_state" and xs x
  assume "fifo_queue s xs" "0 < fifo_space s"
  then show "holds (fifo_put x s) (\<lambda>s'. fifo_queue s' (xs @ [x]) \<and> fifo_space s' = fifo_space s - 1)"
    using fifo_add_rep [of "snd s" "fst s" _ xs x] by (force simp: fifo_state_defs holds_iff)
next
  fix s :: "'a fifo_state"
  assume "fifo_queue s []"
  then show "holds (fifo_get s) (\<lambda>(r, s'). r = None \<and> fifo_queue s' [] \<and> fifo_space s' = fifo_space s)"
    using fifo_remove_Nil [of "snd s" "fst s"] by (force simp: fifo_state_defs holds_iff)
next
  fix s :: "'a fifo_state" and x xs
  assume "fifo_queue s (x # xs)"
  then show "holds (fifo_get s) (\<lambda>(r, s'). r = Some x \<and> fifo_queue s' xs \<and>
      fifo_space s' = Suc (fifo_space s))"
    using fifo_remove_rep [of "snd s" "fst s" _ x xs] by (force simp: fifo_state_defs holds_iff)
qed

text \<open>The same interface, with the account of who owns which memory: \<open>R\<close> is the memory of
  everything else, the queue owns the rest.\<close>

definition fifo_owns :: "ptr set \<Rightarrow> 'a fifo_state \<Rightarrow> 'a list \<Rightarrow> bool" where
  "fifo_owns R s xs \<longleftrightarrow> enabled (fst s) \<and> (\<exists>ps. fifo_rep (snd s) (fst s) ps xs \<and>
     live (snd s) = set ps \<union> R \<and> set ps \<inter> R = {})"

lemma live_after_free:
  assumes "\<And>q. cell_at h' q = (if q = p then Freed else cell_at h q)"
  shows "live h' = live h - {p}"
  using assms by (auto simp: live_iff split: if_splits)

lemma fifo_owns_add:
  assumes "fifo_owns R s xs" and "0 < fifo_space s"
  shows "holds (fifo_put x s) (\<lambda>s'. fifo_owns R s' (xs @ [x]) \<and> fifo_space s' = fifo_space s - 1)"
proof -
  from assms obtain ps where ps: "fifo_rep (snd s) (fst s) ps xs" "live (snd s) = set ps \<union> R"
    "set ps \<inter> R = {}" "enabled (fst s)" "0 < room (snd s)"
    by (auto simp: fifo_owns_def fifo_space_def)
  from fifo_add_rep [OF ps(1) ps(4) ps(5), of x] obtain f' h' where
    f': "fifo_add x (fst s) (snd s) = Inr (f', h')"
    "fifo_rep h' f' (ps @ [Suc (heap_size (snd s))]) (xs @ [x])" "enabled f'"
    "room h' = room (snd s) - 1" "live h' = insert (Suc (heap_size (snd s))) (live (snd s))"
    using ps(4) by (auto simp: holds_iff same_object_def)
  have "Suc (heap_size (snd s)) \<notin> R" using ps(2) fresh_not_live [of "snd s"] by auto
  then have "fifo_owns R (f', h') (xs @ [x])" using f' ps
    unfolding fifo_owns_def by (auto intro!: exI [of _ "ps @ [Suc (heap_size (snd s))]"])
  then show ?thesis using f' by (simp add: fifo_put_def fifo_space_def)
qed

lemma fifo_owns_remove:
  assumes "fifo_owns R s (x # xs)"
  shows "holds (fifo_get s) (\<lambda>(r, s'). r = Some x \<and> fifo_owns R s' xs \<and>
      fifo_space s' = Suc (fifo_space s))"
proof -
  from assms obtain ps where ps: "fifo_rep (snd s) (fst s) ps (x # xs)"
    "live (snd s) = set ps \<union> R" "set ps \<inter> R = {}" "enabled (fst s)"
    by (auto simp: fifo_owns_def)
  obtain p qs where q: "ps = p # qs" using ps(1) by (cases ps) (auto simp: fifo_rep_def)
  have "distinct ps" using ps(1) by (auto simp: fifo_rep_def dest: chain_distinct)
  moreover from fifo_remove_rep [OF ps(1)] obtain f' h' where
    f': "fifo_remove (fst s) (snd s) = Inr (Some x, f', h')" "fifo_rep h' f' (tl ps) xs"
    "enabled f'" "room h' = Suc (room (snd s))"
    "\<And>a. cell_at h' a = (if a = hd ps then Freed else cell_at (snd s) a)"
    using ps(4) by (auto simp: holds_iff same_object_def)
  ultimately have "live h' = set (tl ps) \<union> R"
    using live_after_free [of h' "hd ps" "snd s", OF f'(5)] ps(2,3) q by auto
  then have "fifo_owns R (f', h') xs"
    using f' ps(3) q unfolding fifo_owns_def by (auto intro!: exI [of _ qs])
  then show ?thesis using f' by (simp add: fifo_get_def fifo_space_def)
qed

interpretation fo: bounded_queue "fifo_owns R" fifo_space fifo_put fifo_get for R
proof
  fix s :: "'a fifo_state"
  assume "fifo_owns R s []"
  then show "holds (fifo_get s) (\<lambda>(r, s'). r = None \<and> fifo_owns R s' [] \<and> fifo_space s' = fifo_space s)"
    by (cases s) (auto simp: fifo_owns_def fifo_get_def fifo_space_def fifo_remove_Nil)
qed (rule fifo_owns_add fifo_owns_remove; assumption)+

lemma fifo_owns_destroy:
  assumes "fifo_owns R s xs"
  shows "holds (fifo_destroy (fst s) (snd s)) (\<lambda>h. live h = R \<and> room h = fifo_space s + length xs)"
proof -
  from assms obtain ps where ps: "fifo_rep (snd s) (fst s) ps xs"
    "live (snd s) = set ps \<union> R" "set ps \<inter> R = {}" by (auto simp: fifo_owns_def)
  from fifo_destroy_rep [OF ps(1)] ps(2,3) show ?thesis
    by (auto simp: fifo_space_def elim!: holds_mono)
qed

section \<open>Properties\<close>

text \<open>Two queues in one heap, to evaluate the operations on.\<close>

definition ex_heap :: "nat link heap" where
  "ex_heap = \<lparr>mem = [Obj \<lparr>ldat = 10, lnext = 2\<rparr>, Obj \<lparr>ldat = 20, lnext = NULL\<rparr>,
     Obj \<lparr>ldat = 30, lnext = NULL\<rparr>], room = 5\<rparr>"

definition ex_a :: fifo where
  "ex_a = \<lparr>enabled = True, in_p = 2, out_p = 1, remain = 2\<rparr>"

definition ex_b :: fifo where
  "ex_b = \<lparr>enabled = True, in_p = 3, out_p = 3, remain = 1\<rparr>"

lemma ex_rep: "fifo_rep ex_heap ex_a [1, 2] [10, 20]" "fifo_rep ex_heap ex_b [3] [30]"
  by (simp_all add: fifo_rep_def ex_heap_def ex_a_def ex_b_def cell_at_def obj_at_def numeral_2_eq_2
      numeral_3_eq_3)

text \<open>C18. A tw_FIFO is a first-in first-out queue: every sequence of \<open>add\<close> and \<open>remove\<close>, as
  long as the allocator has memory for it, runs without a fault and returns at each
  \<open>remove\<close> what the same calls on a list return, \<open>false\<close> for the empty queue included; at
  the end the links hold the list that is left.\<close>
theorem fifo_refines_list:
  assumes "fifo_queue s xs" and "fits (fifo_space s) ops (length xs)"
  shows "holds (run_ops fifo_put fifo_get ops s)
    (\<lambda>(rs, s'). \<exists>ys. list_ops ops xs = (rs, ys) \<and> fifo_queue s' ys)"
  by (rule holds_mono [OF fq.run_list_ops [OF assms]]) auto

theorem fifo_refines_list_witness:
  "holds (run_ops fifo_put fifo_get [Get, Put 40, Get, Get, Get] (ex_a, ex_heap))
    (\<lambda>(rs, s'). \<exists>ys. list_ops [Get, Put 40, Get, Get, Get] [10, 20] = (rs, ys) \<and> fifo_queue s' ys)"
  by (rule fifo_refines_list) (use ex_rep in \<open>auto simp: fifo_queue_def fifo_space_def ex_a_def ex_heap_def\<close>)

text \<open>A tw_FIFO frees what it allocates: after any sequence of \<open>add\<close> and \<open>remove\<close> the
  destructor leaves exactly the memory \<open>R\<close> of everything else, and the allocator has again
  the room it would have if the queued elements had never been added.\<close>
theorem fifo_frees_all_links:
  assumes "fifo_owns R s xs" and "fits (fifo_space s) ops (length xs)"
  shows "holds (run_ops fifo_put fifo_get ops s) (\<lambda>(rs, s').
    holds (fifo_destroy (fst s') (snd s')) (\<lambda>h. live h = R \<and> room h = fifo_space s + length xs))"
proof (rule holds_mono [OF fo.run_list_ops [OF assms]])
  fix v :: "'a option list \<times> 'a fifo_state"
  assume "case v of (rs, s') \<Rightarrow> \<exists>ys. list_ops ops xs = (rs, ys) \<and> fifo_owns R s' ys \<and>
    fifo_space s' + length ys = fifo_space s + length xs"
  then obtain ys where "fifo_owns R (snd v) ys" "fifo_space (snd v) + length ys = fifo_space s + length xs"
    by (auto split: prod.splits)
  with fifo_owns_destroy [OF this(1)]
  show "case v of (rs, s') \<Rightarrow> holds (fifo_destroy (fst s') (snd s'))
    (\<lambda>h. live h = R \<and> room h = fifo_space s + length xs)" by (auto split: prod.splits)
qed

theorem fifo_frees_all_links_witness:
  "holds (run_ops fifo_put fifo_get [Put 40, Get, Put 50] (ex_a, ex_heap)) (\<lambda>(rs, s').
    holds (fifo_destroy (fst s') (snd s')) (\<lambda>h. live h = {3} \<and> room h = 7))"
proof -
  have "p = 1 \<or> p = 2 \<or> p = 3" if "p \<in> live ex_heap" for p
  proof -
    have "heap_size ex_heap = 3" by (simp add: ex_heap_def)
    with that live_bounds [of ex_heap] have "1 \<le> p" "p \<le> 3" by auto
    then show ?thesis by arith
  qed
  then have "live ex_heap \<subseteq> {1, 2, 3}" by blast
  moreover have "{1, 2, 3} \<subseteq> live ex_heap"
    by (simp add: live_iff ex_heap_def cell_at_def numeral_2_eq_2 numeral_3_eq_3)
  ultimately have "live ex_heap = set [1, 2] \<union> {3}" "set [1, 2] \<inter> {3::nat} = {}" by auto
  moreover have "enabled ex_a" by (simp add: ex_a_def)
  ultimately have "fifo_owns {3} (ex_a, ex_heap) [10, 20]"
    unfolding fifo_owns_def fst_conv snd_conv using ex_rep(1) by blast
  from fifo_frees_all_links [OF this, of "[Put 40, Get, Put 50]"]
  show ?thesis by (simp add: fifo_space_def ex_heap_def)
qed

text \<open>\<open>transferFrom\<close> moves the whole of one queue behind another without touching the
  allocator: the receiver holds its own elements and then the other's, in order, over the
  same links, the other is empty.\<close>
theorem fifo_transfer_appends:
  assumes "fifo_rep h f ps xs" and "fifo_rep h g qs ys" and "set ps \<inter> set qs = {}"
    and "enabled f" and "xs \<noteq> [] \<or> ys \<noteq> []"
  shows "holds (fifo_transferFrom f g h) (\<lambda>(f', g', h'). fifo_rep h' f' (ps @ qs) (xs @ ys) \<and>
    fifo_rep h' g' [] [] \<and> fifo_remaining f' = fifo_remaining f + fifo_remaining g \<and>
    room h' = room h \<and> live h' = live h)"
proof -
  have "ps \<noteq> [] \<or> qs \<noteq> []" using assms by (auto simp: fifo_rep_def)
  from fifo_transferFrom_rep [OF assms(1,2,3,4) this] show ?thesis
    using fifo_repD(4) [OF assms(1)] fifo_repD(4) [OF assms(2)]
    by (auto simp: fifo_remaining_def dest: fifo_repD(4) elim!: holds_mono)
qed

theorem fifo_transfer_appends_witness:
  "holds (fifo_transferFrom ex_a ex_b ex_heap) (\<lambda>(f', g', h').
    fifo_rep h' f' ([1, 2] @ [3]) ([10, 20] @ [30]) \<and> fifo_rep h' g' [] [] \<and>
    fifo_remaining f' = fifo_remaining ex_a + fifo_remaining ex_b \<and>
    room h' = room ex_heap \<and> live h' = live ex_heap)"
  by (rule fifo_transfer_appends [OF ex_rep]) (simp_all add: ex_a_def)

text \<open>\<open>transferFrom\<close> of an empty queue to an empty queue is not a no-op: it reads through
  the null pointer \<open>in\<close>.\<close>
theorem fifo_transfer_empty_faults:
  assumes "fifo_rep h f [] []" and "fifo_rep h g [] []" and "enabled f"
  shows "fifo_transferFrom f g h = Inl NullDeref"
  by (rule fifo_transferFrom_both_empty [OF assms])

theorem fifo_transfer_empty_faults_witness:
  "fifo_transferFrom fifo_new fifo_new (empty_heap 4 :: nat link heap) = Inl NullDeref"
  by (rule fifo_transfer_empty_faults) (simp_all add: fifo_rep_Nil fifo_new_def)

text \<open>\<open>operator=\<close> makes a deep copy: the target holds the same elements in its own links,
  and destroying the copy leaves the original queue as it was.\<close>
theorem fifo_assign_is_deep:
  assumes "fifo_rep h f ps xs" and "fifo_rep h g qs ys" and "set ps \<inter> set qs = {}"
    and "ys \<noteq> []" and "length ys \<le> room h + length xs"
  shows "holds (fifo_assign f g h) (\<lambda>(f', h'). (\<exists>ns. fifo_rep h' f' ns ys) \<and>
    fifo_rep h' g qs ys \<and> holds (fifo_destroy f' h') (\<lambda>h''. fifo_rep h'' g qs ys))"
proof (rule holds_mono [OF fifo_assign_rep [OF assms]])
  fix s :: "fifo \<times> 'a link heap"
  obtain f' h' where s: "s = (f', h')" by (cases s)
  assume "case s of (f', h') \<Rightarrow> \<exists>ns. fifo_rep h' f' ns ys \<and> fifo_rep h' g qs ys \<and>
    set ns \<inter> set qs = {} \<and> enabled f' = enabled g \<and> room h' = room h + length xs - length ys"
  then obtain ns where ns: "fifo_rep h' f' ns ys" "fifo_rep h' g qs ys" "set ns \<inter> set qs = {}"
    by (auto simp: s)
  from fifo_clearAll_rep [OF ns(1)] have "holds (fifo_destroy f' h') (\<lambda>h''. same_outside (set ns) h' h'')"
    by (auto simp: fifo_destroy_def fifo_clearAll_def bindE_eq_Inr holds_iff)
  then have "holds (fifo_destroy f' h') (\<lambda>h''. fifo_rep h'' g qs ys)"
    by (rule holds_mono) (use ns(2,3) fifo_rep_outside in blast)
  with ns show "case s of (f', h') \<Rightarrow> (\<exists>ns. fifo_rep h' f' ns ys) \<and> fifo_rep h' g qs ys \<and>
    holds (fifo_destroy f' h') (\<lambda>h''. fifo_rep h'' g qs ys)" by (auto simp: s)
qed

theorem fifo_assign_is_deep_witness:
  "holds (fifo_assign ex_b ex_a ex_heap) (\<lambda>(f', h'). (\<exists>ns. fifo_rep h' f' ns [10, 20]) \<and>
    fifo_rep h' ex_a [1, 2] [10, 20] \<and> holds (fifo_destroy f' h') (\<lambda>h''. fifo_rep h'' ex_a [1, 2] [10, 20]))"
  by (rule fifo_assign_is_deep [OF ex_rep(2) ex_rep(1)]) (simp_all add: ex_heap_def)

text \<open>An iterator over a queue visits every queued element once, from the oldest to the
  newest, and then is at its end.\<close>
theorem fifo_iterates_in_order:
  assumes "fifo_rep h f ps xs"
  shows "iter_all (heap_size h) (fifo_startIter f) h = Inr xs"
  by (rule iter_all_rep [OF assms])

theorem fifo_iterates_in_order_witness:
  "iter_all (heap_size ex_heap) (fifo_startIter ex_a) ex_heap = Inr [10, 20]"
  by (rule fifo_iterates_in_order [OF ex_rep(1)])

end
