(* ===== verification/TW_SafeFifo.thy ===== *)
theory TW_SafeFifo
  imports TW_Fifo
begin

text \<open>
  The class tw_safeFIFO of include/TW/tw_fifo.h: the links of tw_FIFO, a mutex every method
  takes, and a condition variable that the blocking methods wait on.

  The object is the record of tw_FIFO with the mutex, the counter \<open>_block_cnt\<close> and the number
  of threads that wait on the condition variable. A method that does not block is one
  function from the state before the call to the state after it. A method that may block is
  two: \<open>_enter\<close> runs up to its end or to \<^verbatim>\<open>pthread_cond_wait\<close>, which gives the mutex up;
  \<open>_resume\<close> is the rest, run once the wait has returned (with the mutex taken again). What
  other threads do in between is any sequence of other calls.
\<close>

section \<open>The object\<close>

record sfifo = fifo +
  mtx :: bool
  block_cnt :: int
  waiting :: nat

definition sfifo_new :: sfifo where
  "sfifo_new = \<lparr>enabled = True, in_p = NULL, out_p = NULL, remain = 0,
     mtx = False, block_cnt = 0, waiting = 0\<rparr>"

definition lock_data :: "sfifo \<Rightarrow> sfifo res" where
  "lock_data f = bindE (mutex_lock (mtx f)) (\<lambda>m. Inr (f\<lparr>mtx := m\<rparr>))"

definition unlock_data :: "sfifo \<Rightarrow> sfifo res" where
  "unlock_data f = bindE (mutex_unlock (mtx f)) (\<lambda>m. Inr (f\<lparr>mtx := m\<rparr>))"

text \<open>\<^verbatim>\<open>pthread_cond_signal\<close> wakes one waiting thread, \<^verbatim>\<open>pthread_cond_broadcast\<close> all.\<close>

definition cond_signal :: "sfifo \<Rightarrow> sfifo" where
  "cond_signal f = f\<lparr>waiting := waiting f - 1\<rparr>"

definition cond_broadcast :: "sfifo \<Rightarrow> sfifo" where
  "cond_broadcast f = f\<lparr>waiting := 0\<rparr>"

text \<open>\<^verbatim>\<open>pthread_cond_wait\<close>: going to sleep gives the mutex up, waking up takes it again.\<close>

definition cond_wait_sleep :: "sfifo \<Rightarrow> sfifo res" where
  "cond_wait_sleep f = bindE (unlock_data f) (\<lambda>f. Inr (f\<lparr>waiting := Suc (waiting f)\<rparr>))"

definition cond_wait_wake :: "sfifo \<Rightarrow> sfifo res" where
  "cond_wait_wake f = lock_data f"

text \<open>\<open>_block_cnt\<close> is an \<^verbatim>\<open>int\<close> that every call counts itself in before it waits; nothing but \<open>unblock\<close> and
  \<open>unblockAll\<close> counts down, so a call that times out stays counted.\<close>

definition count_blocked :: "sfifo \<Rightarrow> sfifo res" where
  "count_blocked f = (if block_cnt f = 2147483647 then Inl Overflow else Inr (f\<lparr>block_cnt := block_cnt f + 1\<rparr>))"

section \<open>Waking blocked calls\<close>

definition sfifo_unblock :: "sfifo \<Rightarrow> sfifo res" where
  "sfifo_unblock f =
     bindE (lock_data f) (\<lambda>f.
     let f = (if 0 < block_cnt f
              then let f = cond_signal f in f\<lparr>block_cnt := block_cnt f - 1\<rparr> else f)
     in unlock_data f)"

definition sfifo_unblockAll :: "sfifo \<Rightarrow> sfifo res" where
  "sfifo_unblockAll f =
     bindE (lock_data f) (\<lambda>f.
     let f = (if 0 < block_cnt f
              then let f = cond_broadcast f in f\<lparr>block_cnt := 0\<rparr> else f)
     in unlock_data f)"

section \<open>Adding\<close>

text \<open>
  \<open>add\<close> is two critical sections: the link is built before the mutex is taken and hooked in
  under it; then \<open>unblock\<close> takes the mutex again.
\<close>

definition sfifo_add_locked :: "'a \<Rightarrow> sfifo \<Rightarrow> 'a link heap \<Rightarrow> (sfifo \<times> 'a link heap) res" where
  "sfifo_add_locked the_d f h =
     (let (newlink, h) = malloc h in
      bindE (init_link newlink the_d h) (\<lambda>h.
      bindE (lock_data f) (\<lambda>f.
      bindE (if enabled f then link_tail newlink f h else Inr (f, h)) (\<lambda>(f, h).
      bindE (unlock_data f) (\<lambda>f. Inr (f, h))))))"

definition sfifo_add :: "'a \<Rightarrow> sfifo \<Rightarrow> 'a link heap \<Rightarrow> (sfifo \<times> 'a link heap) res" where
  "sfifo_add the_d f h =
     bindE (sfifo_add_locked the_d f h) (\<lambda>(f, h).
     bindE (sfifo_unblock f) (\<lambda>f. Inr (f, h)))"

text \<open>\<^verbatim>\<open>add(T &&)\<close> names its argument, so \<open>init_link\<close> copies it all the same.\<close>

definition sfifo_add_rv :: "'a \<Rightarrow> sfifo \<Rightarrow> 'a link heap \<Rightarrow> (sfifo \<times> 'a link heap) res" where
  "sfifo_add_rv the_d f h =
     (let (newlink, h) = malloc h in
      bindE (init_link newlink the_d h) (\<lambda>h.
      bindE (lock_data f) (\<lambda>f.
      bindE (if enabled f then link_tail newlink f h else Inr (f, h)) (\<lambda>(f, h).
      bindE (unlock_data f) (\<lambda>f.
      bindE (sfifo_unblock f) (\<lambda>f. Inr (f, h)))))))"

definition sfifo_addToHead_locked :: "'a \<Rightarrow> sfifo \<Rightarrow> 'a link heap \<Rightarrow> (sfifo \<times> 'a link heap) res" where
  "sfifo_addToHead_locked the_d f h =
     bindE (lock_data f) (\<lambda>f.
     bindE (if enabled f then
              let (newlink, h) = malloc h
              in bindE (init_link newlink the_d h) (\<lambda>h. link_head newlink the_d f h)
            else Inr (f, h)) (\<lambda>(f, h).
     bindE (unlock_data f) (\<lambda>f. Inr (f, h))))"

definition sfifo_addToHead :: "'a \<Rightarrow> sfifo \<Rightarrow> 'a link heap \<Rightarrow> (sfifo \<times> 'a link heap) res" where
  "sfifo_addToHead the_d f h =
     bindE (sfifo_addToHead_locked the_d f h) (\<lambda>(f, h).
     bindE (sfifo_unblock f) (\<lambda>f. Inr (f, h)))"

text \<open>\<open>newlink\<close> has no value when the queue is disabled, and \<^verbatim>\<open>return &(newlink->d)\<close> uses it.\<close>

definition sfifo_addEmpty :: "'a \<Rightarrow> sfifo \<Rightarrow> 'a link heap \<Rightarrow>
    (ptr \<times> sfifo \<times> 'a link heap) res" where
  "sfifo_addEmpty dflt f h =
     bindE (lock_data f) (\<lambda>f.
     bindE (if enabled f then
              let (newlink, h) = malloc h
              in bindE (init_link_default newlink dflt h) (\<lambda>h.
                 bindE (link_tail newlink f h) (\<lambda>(f, h). Inr (Some newlink, f, h)))
            else Inr (None, f, h)) (\<lambda>(newlink, f, h).
     bindE (unlock_data f) (\<lambda>f.
     bindE (sfifo_unblock f) (\<lambda>f.
     case newlink of None \<Rightarrow> Inl Uninit | Some p \<Rightarrow> Inr (p, f, h)))))"

section \<open>Removing and looking\<close>

definition sfifo_remove :: "sfifo \<Rightarrow> 'a link heap \<Rightarrow>
    ('a option \<times> sfifo \<times> 'a link heap) res" where
  "sfifo_remove f h =
     bindE (lock_data f) (\<lambda>f.
     bindE (unlink_head (drop_in f) h) (\<lambda>(r, f, h).
     bindE (unlock_data f) (\<lambda>f. Inr (r, f, h))))"

text \<open>\<open>remove_mv\<close> moves the value out of a link that is freed at once.\<close>

definition sfifo_remove_mv :: "sfifo \<Rightarrow> 'a link heap \<Rightarrow>
    ('a option \<times> sfifo \<times> 'a link heap) res" where
  "sfifo_remove_mv f h =
     bindE (lock_data f) (\<lambda>f.
     bindE (unlink_head (drop_in f) h) (\<lambda>(r, f, h).
     bindE (unlock_data f) (\<lambda>f. Inr (r, f, h))))"

definition sfifo_removeOrBlock_enter :: "sfifo \<Rightarrow> 'a link heap \<Rightarrow>
    ('a option progress \<times> sfifo \<times> 'a link heap) res" where
  "sfifo_removeOrBlock_enter f h =
     bindE (lock_data f) (\<lambda>f.
     let f = drop_in f in
     if out_p f = NULL then
       bindE (bindE (count_blocked f) cond_wait_sleep) (\<lambda>f. Inr (Blocked, f, h))
     else
       bindE (unlink_head (drop_in f) h) (\<lambda>(r, f, h).
       bindE (unlock_data f) (\<lambda>f. Inr (Done r, f, h))))"

definition sfifo_removeOrBlock_resume :: "sfifo \<Rightarrow> 'a link heap \<Rightarrow>
    ('a option \<times> sfifo \<times> 'a link heap) res" where
  "sfifo_removeOrBlock_resume f h =
     bindE (cond_wait_wake f) (\<lambda>f.
     bindE (unlink_head (drop_in f) h) (\<lambda>(r, f, h).
     bindE (unlock_data f) (\<lambda>f. Inr (r, f, h))))"

text \<open>The timed variant: \<open>timedout\<close> is whether the wait returned \<^verbatim>\<open>ETIMEDOUT\<close>.\<close>

definition sfifo_removeOrBlock_timed_resume :: "bool \<Rightarrow> sfifo \<Rightarrow> 'a link heap \<Rightarrow>
    ('a option \<times> sfifo \<times> 'a link heap) res" where
  "sfifo_removeOrBlock_timed_resume timedout f h =
     bindE (cond_wait_wake f) (\<lambda>f.
     if timedout then bindE (unlock_data f) (\<lambda>f. Inr (None, f, h))
     else
       bindE (unlink_head (drop_in f) h) (\<lambda>(r, f, h).
       bindE (unlock_data f) (\<lambda>f. Inr (r, f, h))))"

definition peek_head :: "'f fifo_scheme \<Rightarrow> 'a link heap \<Rightarrow> 'a option res" where
  "peek_head f h =
     (if out_p f \<noteq> NULL then bindE (load (out_p f) h) (\<lambda>l. Inr (Some (ldat l))) else Inr None)"

definition sfifo_peek :: "sfifo \<Rightarrow> 'a link heap \<Rightarrow> ('a option \<times> sfifo) res" where
  "sfifo_peek f h =
     bindE (lock_data f) (\<lambda>f.
     bindE (peek_head f h) (\<lambda>r.
     bindE (unlock_data f) (\<lambda>f. Inr (r, f))))"

definition sfifo_peekOrBlock_enter :: "sfifo \<Rightarrow> 'a link heap \<Rightarrow>
    ('a option progress \<times> sfifo) res" where
  "sfifo_peekOrBlock_enter f h =
     bindE (lock_data f) (\<lambda>f.
     if out_p f = NULL then
       bindE (bindE (count_blocked f) cond_wait_sleep) (\<lambda>f. Inr (Blocked, f))
     else
       bindE (peek_head f h) (\<lambda>r.
       bindE (unlock_data f) (\<lambda>f. Inr (Done r, f))))"

definition sfifo_peekOrBlock_resume :: "sfifo \<Rightarrow> 'a link heap \<Rightarrow> ('a option \<times> sfifo) res" where
  "sfifo_peekOrBlock_resume f h =
     bindE (cond_wait_wake f) (\<lambda>f.
     bindE (peek_head f h) (\<lambda>r.
     bindE (unlock_data f) (\<lambda>f. Inr (r, f))))"

definition sfifo_peekOrBlock_timed_resume :: "bool \<Rightarrow> sfifo \<Rightarrow> 'a link heap \<Rightarrow>
    ('a option \<times> sfifo) res" where
  "sfifo_peekOrBlock_timed_resume timedout f h =
     bindE (cond_wait_wake f) (\<lambda>f.
     if timedout then bindE (unlock_data f) (\<lambda>f. Inr (None, f))
     else
       bindE (peek_head f h) (\<lambda>r.
       bindE (unlock_data f) (\<lambda>f. Inr (r, f))))"

definition sfifo_remaining :: "sfifo \<Rightarrow> (int \<times> sfifo) res" where
  "sfifo_remaining f =
     bindE (lock_data f) (\<lambda>f. bindE (unlock_data f) (\<lambda>f. Inr (remain f, f)))"

section \<open>Enabling, clearing, copying, iterating\<close>

definition sfifo_enable :: "sfifo \<Rightarrow> sfifo res" where
  "sfifo_enable f = bindE (lock_data f) (\<lambda>f. unlock_data (f\<lparr>enabled := True\<rparr>))"

definition sfifo_disable :: "sfifo \<Rightarrow> sfifo res" where
  "sfifo_disable f = bindE (lock_data f) (\<lambda>f. unlock_data (f\<lparr>enabled := False\<rparr>))"

definition sfifo_clearAll :: "sfifo \<Rightarrow> 'a link heap \<Rightarrow> (sfifo \<times> 'a link heap) res" where
  "sfifo_clearAll f h =
     bindE (lock_data f) (\<lambda>f.
     bindE (free_all lnext h (out_p f)) (\<lambda>h.
     bindE (unlock_data (f\<lparr>out_p := NULL, in_p := NULL, remain := 0\<rparr>)) (\<lambda>f.
     bindE (sfifo_unblockAll f) (\<lambda>f. Inr (f, h)))))"

definition sfifo_destroy :: "sfifo \<Rightarrow> 'a link heap \<Rightarrow> 'a link heap res" where
  "sfifo_destroy f h =
     bindE (sfifo_unblockAll f) (\<lambda>f.
     bindE (lock_data f) (\<lambda>f.
     bindE (free_all lnext h (out_p f)) (\<lambda>h.
     bindE (unlock_data f) (\<lambda>f. Inr h))))"

text \<open>\<open>operator=\<close> for two different queues: \<open>f\<close> is \<^verbatim>\<open>*this\<close>, \<open>g\<close> the one copied.\<close>

definition sfifo_assign :: "sfifo \<Rightarrow> sfifo \<Rightarrow> 'a link heap \<Rightarrow>
    (sfifo \<times> sfifo \<times> 'a link heap) res" where
  "sfifo_assign f g h =
     bindE (sfifo_clearAll f h) (\<lambda>(f, h).
     bindE (lock_data g) (\<lambda>g.
     bindE (lock_data f) (\<lambda>f.
     bindE (copy_chain (f\<lparr>enabled := enabled g\<rparr>) (out_p g) h) (\<lambda>(f, h).
     bindE (unlock_data g) (\<lambda>g.
     bindE (unlock_data f) (\<lambda>f. Inr (f, g, h)))))))"

text \<open>\<open>operator=\<close> of a queue to itself takes the same mutex twice.\<close>

definition sfifo_assign_self :: "sfifo \<Rightarrow> 'a link heap \<Rightarrow> (sfifo \<times> 'a link heap) res" where
  "sfifo_assign_self f h =
     bindE (sfifo_clearAll f h) (\<lambda>(f, h).
     bindE (lock_data f) (\<lambda>f.
     bindE (lock_data f) (\<lambda>f.
     bindE (copy_chain f (out_p f) h) (\<lambda>(f, h).
     bindE (unlock_data f) (\<lambda>f.
     bindE (unlock_data f) (\<lambda>f. Inr (f, h)))))))"

definition sfifo_copy :: "sfifo \<Rightarrow> 'a link heap \<Rightarrow> (sfifo \<times> sfifo \<times> 'a link heap) res" where
  "sfifo_copy g h = sfifo_assign sfifo_new g h"

definition sfifo_startIter :: "sfifo \<Rightarrow> (ptr \<times> sfifo) res" where
  "sfifo_startIter f = (let look = out_p f in bindE (lock_data f) (\<lambda>f. Inr (look, f)))"

definition sfifo_releaseIter :: "sfifo \<Rightarrow> (ptr \<times> sfifo) res" where
  "sfifo_releaseIter f = bindE (unlock_data f) (\<lambda>f. Inr (NULL, f))"

section \<open>What the operations do\<close>

lemma lock_simps [simp]:
  "\<not> mtx f \<Longrightarrow> lock_data f = Inr (f\<lparr>mtx := True\<rparr>)"
  "mtx f \<Longrightarrow> lock_data f = Inl SelfDeadlock"
  "mtx f \<Longrightarrow> unlock_data f = Inr (f\<lparr>mtx := False\<rparr>)"
  "\<not> mtx f \<Longrightarrow> unlock_data f = Inl NotLocked"
  by (simp_all add: lock_data_def unlock_data_def)

lemma fifo_rep_fields [simp]:
  "fifo_rep h (f\<lparr>mtx := m\<rparr>) ps xs = fifo_rep h f ps xs"
  "fifo_rep h (f\<lparr>block_cnt := b\<rparr>) ps xs = fifo_rep h f ps xs"
  "fifo_rep h (f\<lparr>waiting := w\<rparr>) ps xs = fifo_rep h f ps xs"
  "fifo_rep h (f\<lparr>enabled := e\<rparr>) ps xs = fifo_rep h f ps xs"
  by (simp_all add: fifo_rep_def)

lemma same_object_sfifo:
  "same_object f f' \<longleftrightarrow> enabled f' = enabled f \<and> mtx f' = mtx f \<and> block_cnt f' = block_cnt f \<and>
     waiting f' = waiting f" for f f' :: sfifo
  by (cases f; cases f') (auto simp: same_object_def)

text \<open>A queue at rest: the mutex is free.\<close>

definition sfifo_rep :: "'a link heap \<Rightarrow> sfifo \<Rightarrow> ptr list \<Rightarrow> 'a list \<Rightarrow> bool" where
  "sfifo_rep h f ps xs \<longleftrightarrow> fifo_rep h f ps xs \<and> \<not> mtx f"

definition unblocked :: "sfifo \<Rightarrow> sfifo" where
  "unblocked f = (if 0 < block_cnt f
     then f\<lparr>block_cnt := block_cnt f - 1, waiting := waiting f - 1\<rparr> else f)"

lemma unblocked_simps [simp]:
  "fifo_rep h (unblocked f) ps xs = fifo_rep h f ps xs" "mtx (unblocked f) = mtx f"
  "enabled (unblocked f) = enabled f" "out_p (unblocked f) = out_p f" "in_p (unblocked f) = in_p f"
  by (simp_all add: unblocked_def)

lemma sfifo_unblock_eq: "\<not> mtx f \<Longrightarrow> sfifo_unblock f = Inr (unblocked f)"
  by (cases f) (simp add: sfifo_unblock_def cond_signal_def Let_def unblocked_def)

lemma sfifo_unblockAll_eq:
  "\<not> mtx f \<Longrightarrow> sfifo_unblockAll f =
     Inr (if 0 < block_cnt f then f\<lparr>block_cnt := 0, waiting := 0\<rparr> else f)"
  by (cases f) (simp add: sfifo_unblockAll_def cond_broadcast_def Let_def)

lemma sfifo_add_locked_rep:
  assumes r: "sfifo_rep h f ps xs" and en: "enabled f" and room: "0 < room h"
  shows "holds (sfifo_add_locked x f h) (\<lambda>(f', h').
    sfifo_rep h' f' (ps @ [Suc (heap_size h)]) (xs @ [x]) \<and> same_object f f' \<and>
    room h' = room h - 1)"
proof -
  have "fifo_rep h (f\<lparr>mtx := True\<rparr>) ps xs" using r by (simp add: sfifo_rep_def)
  from new_link_tail_rep [OF this room, of x] en room r show ?thesis
    by (auto simp: sfifo_add_locked_def malloc_init_link sfifo_rep_def same_object_sfifo)
qed

lemma sfifo_add_rep:
  assumes "sfifo_rep h f ps xs" and "enabled f" and "0 < room h"
  shows "holds (sfifo_add x f h) (\<lambda>(f', h').
    sfifo_rep h' f' (ps @ [Suc (heap_size h)]) (xs @ [x]) \<and> enabled f' \<and>
    block_cnt f' = max 0 (block_cnt f - 1) + min 0 (block_cnt f) \<and> room h' = room h - 1)"
  using sfifo_add_locked_rep [OF assms, of x] assms(2)
  by (auto simp: sfifo_add_def sfifo_rep_def holds_iff sfifo_unblock_eq same_object_sfifo
      unblocked_def)

lemma sfifo_add_rv_eq: "sfifo_add_rv x f h = sfifo_add x f h"
  by (simp add: sfifo_add_rv_def sfifo_add_def sfifo_add_locked_def bindE_assoc
      split_def Let_def)

text \<open>A disabled queue drops the value, and the link built for it stays allocated.\<close>

lemma sfifo_add_disabled:
  assumes "\<not> mtx f" and "\<not> enabled f" and "0 < room h"
  shows "sfifo_add x f h = Inr (unblocked f, new_obj \<lparr>ldat = x, lnext = NULL\<rparr> h)"
  using assms by (cases f) (simp add: sfifo_add_def sfifo_add_locked_def malloc_init_link sfifo_unblock_eq)

lemma sfifo_addToHead_rep:
  assumes r: "sfifo_rep h f ps xs" and en: "enabled f" and room: "0 < room h"
  shows "holds (sfifo_addToHead x f h) (\<lambda>(f', h').
    sfifo_rep h' f' (Suc (heap_size h) # ps) (x # xs) \<and> enabled f' \<and> room h' = room h - 1)"
proof -
  have "fifo_rep h (f\<lparr>mtx := True\<rparr>) ps xs" using r by (simp add: sfifo_rep_def)
  from new_link_head_rep [OF this room, of x x] en room r show ?thesis
    by (auto simp: sfifo_addToHead_def sfifo_addToHead_locked_def malloc_init_link sfifo_rep_def
        same_object_sfifo sfifo_unblock_eq)
qed

lemma sfifo_addEmpty_rep:
  assumes r: "sfifo_rep h f ps xs" and en: "enabled f" and room: "0 < room h"
  shows "holds (sfifo_addEmpty dflt f h) (\<lambda>(p, f', h'). p = Suc (heap_size h) \<and>
    sfifo_rep h' f' (ps @ [p]) (xs @ [dflt]) \<and> enabled f' \<and> room h' = room h - 1)"
proof -
  have "fifo_rep h (f\<lparr>mtx := True\<rparr>) ps xs" using r by (simp add: sfifo_rep_def)
  from new_link_tail_rep [OF this room, of dflt] en room r show ?thesis
    by (auto simp: sfifo_addEmpty_def malloc_init_default sfifo_rep_def
        same_object_sfifo sfifo_unblock_eq)
qed

lemma sfifo_addEmpty_disabled:
  "\<not> mtx f \<Longrightarrow> \<not> enabled f \<Longrightarrow> sfifo_addEmpty dflt f h = Inl Uninit"
  by (simp add: sfifo_addEmpty_def sfifo_unblock_eq)

subsection \<open>Removing\<close>

lemma unlink_locked:
  assumes r: "sfifo_rep h f ps (x # xs)"
  obtains f' h' where "unlink_head (drop_in (f\<lparr>mtx := True\<rparr>)) h = Inr (Some x, f', h')"
    and "sfifo_rep h' (f'\<lparr>mtx := False\<rparr>) (tl ps) xs" and "mtx f'"
    and "same_object f (f'\<lparr>mtx := False\<rparr>)" and "room h' = Suc (room h)"
proof -
  have "fifo_rep h (f\<lparr>mtx := True\<rparr>) ps (x # xs)" using r by (simp add: sfifo_rep_def)
  from unlink_head_rep [OF this] r show ?thesis
    by (auto simp: sfifo_rep_def same_object_sfifo intro: that)
qed

lemma unlink_locked_Nil:
  assumes r: "sfifo_rep h f ps []"
  shows "unlink_head (drop_in (f\<lparr>mtx := True\<rparr>)) h = Inr (None, f\<lparr>mtx := True\<rparr>, h)"
    and "drop_in (f\<lparr>mtx := True\<rparr>) = f\<lparr>mtx := True\<rparr>"
  using unlink_head_Nil [of h "f\<lparr>mtx := True\<rparr>" ps] drop_in_Nil [of h "f\<lparr>mtx := True\<rparr>" ps] r
  by (simp_all add: sfifo_rep_def)

lemma sfifo_restore [simp]: "\<not> mtx f \<Longrightarrow> f\<lparr>mtx := False\<rparr> = f" "mtx f \<Longrightarrow> f\<lparr>mtx := True\<rparr> = f"
  by (cases f; simp)+

lemma sfifo_remove_rep:
  assumes "sfifo_rep h f ps (x # xs)"
  shows "holds (sfifo_remove f h) (\<lambda>(r, f', h'). r = Some x \<and> sfifo_rep h' f' (tl ps) xs \<and>
    same_object f f' \<and> room h' = Suc (room h))"
proof -
  from assms have m: "\<not> mtx f" by (simp add: sfifo_rep_def)
  from unlink_locked [OF assms] obtain f' h' where
    "unlink_head (drop_in (f\<lparr>mtx := True\<rparr>)) h = Inr (Some x, f', h')"
    "sfifo_rep h' (f'\<lparr>mtx := False\<rparr>) (tl ps) xs" "mtx f'"
    "same_object f (f'\<lparr>mtx := False\<rparr>)" "room h' = Suc (room h)" by blast
  with m show ?thesis by (simp add: sfifo_remove_def)
qed

lemma sfifo_remove_Nil: "sfifo_rep h f ps [] \<Longrightarrow> sfifo_remove f h = Inr (None, f, h)"
  using unlink_locked_Nil [of h f ps] by (simp add: sfifo_remove_def sfifo_rep_def)

lemma sfifo_remove_mv_eq: "sfifo_remove_mv f h = sfifo_remove f h"
  by (simp add: sfifo_remove_mv_def sfifo_remove_def)

text \<open>Removing or waiting: the call ends at once where \<open>remove\<close> succeeds, else it goes to sleep.\<close>

lemma removeOrBlock_enter_Cons:
  assumes "sfifo_rep h f ps (x # xs)"
  shows "sfifo_removeOrBlock_enter f h =
    bindE (sfifo_remove f h) (\<lambda>(r, f', h'). Inr (Done r, f', h'))"
proof -
  have out: "out_p f \<noteq> NULL" using assms chain_start
    by (cases ps) (auto simp: sfifo_rep_def fifo_rep_def dest: cell_at_Obj_pos)
  have dd: "drop_in (drop_in g) = drop_in g" for g :: sfifo
    by (simp add: drop_in_def)
  show ?thesis using assms out dd
    by (simp add: sfifo_removeOrBlock_enter_def sfifo_remove_def sfifo_rep_def Let_def bindE_assoc
        split_def)
qed

lemma removeOrBlock_enter_Nil:
  assumes "sfifo_rep h f ps []"
  shows "sfifo_removeOrBlock_enter f h = (if block_cnt f = 2147483647 then Inl Overflow
    else Inr (Blocked, f\<lparr>block_cnt := block_cnt f + 1, waiting := Suc (waiting f)\<rparr>, h))"
  using assms unlink_locked_Nil [OF assms]
  by (cases f) (simp add: sfifo_removeOrBlock_enter_def sfifo_rep_def fifo_rep_Nil count_blocked_def cond_wait_sleep_def Let_def)

lemma removeOrBlock_resume_eq: "sfifo_removeOrBlock_resume f h = sfifo_remove f h"
  by (simp add: sfifo_removeOrBlock_resume_def sfifo_remove_def cond_wait_wake_def)

lemma removeOrBlock_timed_resume_eq:
  "\<not> mtx f \<Longrightarrow> sfifo_removeOrBlock_timed_resume t f h =
     (if t then Inr (None, f, h) else sfifo_remove f h)"
  by (simp add: sfifo_removeOrBlock_timed_resume_def sfifo_remove_def cond_wait_wake_def)

subsection \<open>Looking\<close>

lemma peek_head_rep:
  assumes "fifo_rep h f ps xs"
  shows "peek_head f h = Inr (case xs of [] \<Rightarrow> None | x # _ \<Rightarrow> Some x)"
proof (cases ps)
  case Nil
  with assms show ?thesis by (auto simp: fifo_rep_def peek_head_def)
next
  case (Cons p qs)
  with assms show ?thesis
    by (auto simp: fifo_rep_def peek_head_def dest: cell_at_Obj_pos)
qed

lemma sfifo_peek_rep:
  assumes "sfifo_rep h f ps xs"
  shows "sfifo_peek f h = Inr (case xs of [] \<Rightarrow> None | x # _ \<Rightarrow> Some x, f)"
  using assms peek_head_rep [of h "f\<lparr>mtx := True\<rparr>" ps xs]
  by (simp add: sfifo_peek_def sfifo_rep_def)

lemma sfifo_peekOrBlock_enter_rep:
  assumes "sfifo_rep h f ps xs"
  shows "sfifo_peekOrBlock_enter f h = (case xs of
      [] \<Rightarrow> if block_cnt f = 2147483647 then Inl Overflow
        else Inr (Blocked, f\<lparr>block_cnt := block_cnt f + 1, waiting := Suc (waiting f)\<rparr>)
    | x # _ \<Rightarrow> Inr (Done (Some x), f))"
proof (cases xs)
  case Nil
  with assms show ?thesis
    by (cases f) (auto simp: sfifo_peekOrBlock_enter_def sfifo_rep_def fifo_rep_Nil count_blocked_def cond_wait_sleep_def)
next
  case (Cons x ys)
  with assms have "out_p f \<noteq> NULL"
    by (cases ps) (auto simp: sfifo_rep_def fifo_rep_def dest: cell_at_Obj_pos)
  with Cons assms peek_head_rep [of h "f\<lparr>mtx := True\<rparr>" ps xs] show ?thesis
    by (simp add: sfifo_peekOrBlock_enter_def sfifo_rep_def)
qed

lemma sfifo_peekOrBlock_resume_eq:
  "sfifo_peekOrBlock_resume f h = sfifo_peek f h"
  "\<not> mtx f \<Longrightarrow> sfifo_peekOrBlock_timed_resume t f h = (if t then Inr (None, f) else sfifo_peek f h)"
  by (simp_all add: sfifo_peekOrBlock_resume_def sfifo_peek_def sfifo_peekOrBlock_timed_resume_def
      cond_wait_wake_def)

lemma sfifo_remaining_rep:
  "sfifo_rep h f ps xs \<Longrightarrow> sfifo_remaining f = Inr (int (length xs), f)"
  using fifo_repD(4) [of h f ps xs] by (simp add: sfifo_remaining_def sfifo_rep_def)

subsection \<open>Clearing and copying\<close>

lemma sfifo_clearAll_rep:
  assumes r: "sfifo_rep h f ps xs"
  shows "holds (sfifo_clearAll f h) (\<lambda>(f', h'). sfifo_rep h' f' [] [] \<and> enabled f' = enabled f \<and>
    (0 \<le> block_cnt f \<longrightarrow> block_cnt f' = 0) \<and> (int (waiting f) \<le> block_cnt f \<longrightarrow> waiting f' = 0) \<and>
    live h' = live h - set ps \<and> room h' = room h + length xs \<and> same_outside (set ps) h h')"
proof -
  from r have "chain lnext h (out_p f) ps NULL" by (auto simp: sfifo_rep_def dest: fifo_repD)
  from free_all_chain [OF this] obtain h' where
    "free_all lnext h (out_p f) = Inr h'"
    "\<And>q. cell_at h' q = (if q \<in> set ps then Freed else cell_at h q)"
    "room h' = room h + length ps" by blast
  moreover have "length xs = length ps" using r fifo_repD(3) by (auto simp: sfifo_rep_def)
  ultimately show ?thesis using r
    by (auto simp: sfifo_clearAll_def sfifo_rep_def fifo_rep_Nil live_def same_outside_def
        sfifo_unblockAll_eq)
qed

lemma sfifo_assign_rep:
  assumes f: "sfifo_rep h f ps xs" and g: "sfifo_rep h g qs ys"
    and dj: "set ps \<inter> set qs = {}" and ne: "ys \<noteq> []" and room: "length ys \<le> room h + length xs"
  shows "holds (sfifo_assign f g h) (\<lambda>(f', g', h'). \<exists>ns. sfifo_rep h' f' ns ys \<and>
    sfifo_rep h' g qs ys \<and> g' = g \<and> set ns \<inter> set qs = {} \<and> enabled f' = enabled g)"
proof -
  from sfifo_clearAll_rep [OF f] obtain f1 h1 where c: "sfifo_clearAll f h = Inr (f1, h1)"
    "sfifo_rep h1 f1 [] []" "room h1 = room h + length xs" "same_outside (set ps) h h1"
    by (auto simp: holds_iff)
  have "fifo_rep h g qs ys" using g by (simp add: sfifo_rep_def)
  from fifo_rep_outside [OF this c(4)] dj have g1: "fifo_rep h1 g qs ys" by blast
  have len: "length qs = length ys" using fifo_repD(3) [OF g1] by simp
  have vals: "map (\<lambda>p. ldat (obj_at h1 p)) qs = ys" using g1 by (simp add: fifo_rep_def)
  obtain f2 h2 ns where cc:
    "copy_chain (f1\<lparr>mtx := True, enabled := enabled g\<rparr>) (out_p g) h1 = Inr (f2, h2)"
    "fifo_rep h2 f2 ns ys" "same_object (f1\<lparr>mtx := True, enabled := enabled g\<rparr>) f2"
    "set ns \<inter> live h1 = {}" "same_outside (set ns) h1 h2"
    using copy_chain_rep [OF fifo_repD(1) [OF g1], of "f1\<lparr>mtx := True, enabled := enabled g\<rparr>"]
      ne room c(3) len vals by (auto simp: holds_iff)
  have "set ns \<inter> set qs = {}" using cc(4) fifo_repD(5) [OF g1] by blast
  then show ?thesis
    using c cc g fifo_rep_outside [OF g1 cc(5)]
    by (auto simp: sfifo_assign_def sfifo_rep_def same_object_sfifo)
qed

lemma sfifo_assign_from_empty:
  assumes f: "sfifo_rep h f ps xs" and g: "sfifo_rep h g [] []"
  shows "sfifo_assign f g h = Inl Uninit"
  using sfifo_clearAll_rep [OF f] g
  by (auto simp: sfifo_assign_def holds_iff sfifo_rep_def fifo_rep_Nil copy_chain_empty)

lemma sfifo_assign_self_deadlock:
  assumes f: "sfifo_rep h f ps xs"
  shows "sfifo_assign_self f h = Inl SelfDeadlock"
  using sfifo_clearAll_rep [OF f] by (auto simp: sfifo_assign_self_def holds_iff sfifo_rep_def)

text \<open>While an iterator is open its thread holds the mutex: every other call would deadlock.\<close>

lemma sfifo_iter_holds_lock:
  assumes "\<not> mtx f" and "sfifo_startIter f = Inr (look, f')"
  shows "look = out_p f" and "sfifo_remove f' h = Inl SelfDeadlock"
    and "sfifo_releaseIter f' = Inr (NULL, f)"
  using assms by (auto simp: sfifo_startIter_def sfifo_remove_def sfifo_releaseIter_def)

section \<open>tw_safeFIFO as a bounded queue\<close>

type_synonym 'a sfifo_state = "sfifo \<times> 'a link heap"

definition sfifo_queue :: "'a sfifo_state \<Rightarrow> 'a list \<Rightarrow> bool" where
  "sfifo_queue s xs \<longleftrightarrow> enabled (fst s) \<and> (\<exists>ps. sfifo_rep (snd s) (fst s) ps xs)"

definition sfifo_put :: "'a \<Rightarrow> 'a sfifo_state \<Rightarrow> 'a sfifo_state res" where
  "sfifo_put x s = sfifo_add x (fst s) (snd s)"

definition sfifo_get :: "'a sfifo_state \<Rightarrow> ('a option \<times> 'a sfifo_state) res" where
  "sfifo_get s = sfifo_remove (fst s) (snd s)"

definition sfifo_space :: "'a sfifo_state \<Rightarrow> nat" where
  "sfifo_space s = room (snd s)"

lemmas sfifo_state_defs = sfifo_queue_def sfifo_put_def sfifo_get_def sfifo_space_def

interpretation sq: bounded_queue sfifo_queue sfifo_space sfifo_put sfifo_get
proof
  fix s :: "'a sfifo_state" and xs x
  assume "sfifo_queue s xs" "0 < sfifo_space s"
  then show "holds (sfifo_put x s) (\<lambda>s'. sfifo_queue s' (xs @ [x]) \<and> sfifo_space s' = sfifo_space s - 1)"
    using sfifo_add_rep [of "snd s" "fst s" _ xs x] by (force simp: sfifo_state_defs holds_iff)
next
  fix s :: "'a sfifo_state"
  assume "sfifo_queue s []"
  then show "holds (sfifo_get s) (\<lambda>(r, s'). r = None \<and> sfifo_queue s' [] \<and> sfifo_space s' = sfifo_space s)"
    using sfifo_remove_Nil [of "snd s" "fst s"] by (force simp: sfifo_state_defs holds_iff)
next
  fix s :: "'a sfifo_state" and x xs
  assume "sfifo_queue s (x # xs)"
  then show "holds (sfifo_get s) (\<lambda>(r, s'). r = Some x \<and> sfifo_queue s' xs \<and>
      sfifo_space s' = Suc (sfifo_space s))"
    using sfifo_remove_rep [of "snd s" "fst s" _ x xs]
    by (force simp: sfifo_state_defs holds_iff same_object_sfifo)
qed

section \<open>Properties\<close>

definition ex_sfifo :: sfifo where
  "ex_sfifo = \<lparr>enabled = True, in_p = 2, out_p = 1, remain = 2, mtx = False,
     block_cnt = 3, waiting = 2\<rparr>"

lemma ex_sfifo_rep: "sfifo_rep ex_heap ex_sfifo [1, 2] [10, 20]"
  by (simp add: sfifo_rep_def fifo_rep_def ex_heap_def ex_sfifo_def cell_at_def obj_at_def
      numeral_2_eq_2)

text \<open>Called from one thread, a tw_safeFIFO is the same first-in first-out queue: any
  sequence of \<open>add\<close> and \<open>remove\<close> with enough memory ends without a fault, returns what a
  list would return, and leaves the mutex free.\<close>
theorem sfifo_refines_list:
  assumes "sfifo_queue s xs" and "fits (sfifo_space s) ops (length xs)"
  shows "holds (run_ops sfifo_put sfifo_get ops s)
    (\<lambda>(rs, s'). \<exists>ys. list_ops ops xs = (rs, ys) \<and> sfifo_queue s' ys \<and> \<not> mtx (fst s') \<and>
      sfifo_space s' + length ys = sfifo_space s + length xs)"
  by (rule holds_mono [OF sq.run_list_ops [OF assms]]) (auto simp: sfifo_queue_def sfifo_rep_def)

theorem sfifo_refines_list_witness:
  "holds (run_ops sfifo_put sfifo_get [Get, Put 40, Get, Get, Get] (ex_sfifo, ex_heap))
    (\<lambda>(rs, s'). \<exists>ys. list_ops [Get, Put 40, Get, Get, Get] [10, 20] = (rs, ys) \<and>
      sfifo_queue s' ys \<and> \<not> mtx (fst s') \<and>
      sfifo_space s' + length ys = sfifo_space (ex_sfifo, ex_heap) + length [10::nat, 20])"
  by (rule sfifo_refines_list)
    (use ex_sfifo_rep in \<open>auto simp: sfifo_queue_def sfifo_space_def ex_sfifo_def ex_heap_def\<close>)

text \<open>\<open>removeOrBlock\<close> goes to sleep exactly when the queue is empty; then it has counted
  itself in \<open>_block_cnt\<close>, released the mutex and changed nothing else. On a queue with
  elements it takes the oldest one out, as \<open>remove\<close> does.\<close>
theorem removeOrBlock_sleeps_iff_empty:
  assumes "sfifo_rep h f ps xs" and "block_cnt f < 2147483647"
  shows "holds (sfifo_removeOrBlock_enter f h) (\<lambda>(r, f', h'). case xs of
      [] \<Rightarrow> r = Blocked \<and> h' = h \<and>
        f' = f\<lparr>block_cnt := block_cnt f + 1, waiting := Suc (waiting f)\<rparr>
    | x # ys \<Rightarrow> r = Done (Some x) \<and> sfifo_rep h' f' (tl ps) ys \<and>
        block_cnt f' = block_cnt f \<and> waiting f' = waiting f)"
proof (cases xs)
  case Nil
  with removeOrBlock_enter_Nil [of h f ps] assms show ?thesis by auto
next
  case (Cons x ys)
  with removeOrBlock_enter_Cons [of h f ps x ys] sfifo_remove_rep [of h f ps x ys] assms
  show ?thesis by (auto simp: holds_iff same_object_sfifo)
qed

theorem removeOrBlock_sleeps_iff_empty_witness:
  "holds (sfifo_removeOrBlock_enter ex_sfifo ex_heap) (\<lambda>(r, f', h'). r = Done (Some 10) \<and>
    sfifo_rep h' f' [2] [20] \<and> block_cnt f' = block_cnt ex_sfifo \<and> waiting f' = waiting ex_sfifo)"
  using removeOrBlock_sleeps_iff_empty [OF ex_sfifo_rep] by (simp add: ex_sfifo_def)

text \<open>\<open>k\<close> calls of \<^verbatim>\<open>removeOrBlock(fill, t)\<close> one after the other that all time out: to sleep, awake again without a signal, and back.\<close>

fun timed_out_calls :: "nat \<Rightarrow> sfifo \<Rightarrow> 'a link heap \<Rightarrow> (sfifo \<times> 'a link heap) res" where
  "timed_out_calls 0 f h = Inr (f, h)"
| "timed_out_calls (Suc k) f h =
     bindE (timed_out_calls k f h) (\<lambda>(f, h).
     bindE (sfifo_removeOrBlock_enter f h) (\<lambda>(r, f, h).
     bindE (sfifo_removeOrBlock_timed_resume True (f\<lparr>waiting := waiting f - 1\<rparr>) h) (\<lambda>(r, f, h). Inr (f, h))))"

lemma timed_out_calls_rep:
  assumes r: "sfifo_rep h f ps []" and b: "block_cnt f + int k \<le> 2147483647"
  shows "timed_out_calls k f h = Inr (f\<lparr>block_cnt := block_cnt f + int k\<rparr>, h)"
  using b
proof (induction k)
  case (Suc k)
  let ?f = "f\<lparr>block_cnt := block_cnt f + int k\<rparr>"
  have "sfifo_rep h ?f ps []" using r by (simp add: sfifo_rep_def)
  from removeOrBlock_enter_Nil [OF this] Suc r show ?case
    by (cases f) (simp add: removeOrBlock_timed_resume_eq sfifo_rep_def)
qed simp

text \<open>A call of \<open>removeOrBlock\<close> that times out leaves itself counted in \<open>_block_cnt\<close>. Polling an empty new queue with a time
  limit works 2 ^ 31 - 1 times; the next call overflows the counter.\<close>
theorem timed_out_calls_overflow:
  assumes "sfifo_rep h f ps []" and "block_cnt f = 0"
  shows "k \<le> 2147483647 \<Longrightarrow> timed_out_calls k f h = Inr (f\<lparr>block_cnt := int k\<rparr>, h)"
    and "timed_out_calls 2147483648 f h = Inl Overflow"
proof -
  show k: "timed_out_calls k f h = Inr (f\<lparr>block_cnt := int k\<rparr>, h)" if "k \<le> 2147483647" for k
    using timed_out_calls_rep [OF assms(1), of k] assms(2) that by simp
  have "sfifo_rep h (f\<lparr>block_cnt := 2147483647\<rparr>) ps []" using assms(1) by (simp add: sfifo_rep_def)
  from removeOrBlock_enter_Nil [OF this]
  have "timed_out_calls (Suc n) f h = Inl Overflow" if "timed_out_calls n f h = Inr (f\<lparr>block_cnt := 2147483647\<rparr>, h)" for n
    using that by simp
  from this [of 2147483647] k [of 2147483647] show "timed_out_calls 2147483648 f h = Inl Overflow" by simp
qed

theorem timed_out_calls_overflow_witness:
  "timed_out_calls 2147483648 sfifo_new ex_heap = Inl Overflow \<and>
    timed_out_calls 3 sfifo_new ex_heap = Inr (sfifo_new\<lparr>block_cnt := 3\<rparr>, ex_heap)"
proof -
  have "sfifo_rep ex_heap sfifo_new [] []" "block_cnt sfifo_new = 0"
    by (simp_all add: sfifo_rep_def sfifo_new_def fifo_rep_Nil)
  from timed_out_calls_overflow [OF this] show ?thesis by simp
qed

text \<open>\<open>clearAll\<close> empties the queue, returns its links to the allocator and wakes every
  thread that waits on it, provided \<open>_block_cnt\<close> counts them all.\<close>
theorem sfifo_clearAll_wakes_all:
  assumes "sfifo_rep h f ps xs" and "int (waiting f) \<le> block_cnt f"
  shows "holds (sfifo_clearAll f h) (\<lambda>(f', h'). sfifo_rep h' f' [] [] \<and> block_cnt f' = 0 \<and>
    waiting f' = 0 \<and> live h' = live h - set ps \<and> room h' = room h + length xs)"
  by (rule holds_mono [OF sfifo_clearAll_rep [OF assms(1)]]) (use assms(2) in auto)

theorem sfifo_clearAll_wakes_all_witness:
  "holds (sfifo_clearAll ex_sfifo ex_heap) (\<lambda>(f', h'). sfifo_rep h' f' [] [] \<and>
    block_cnt f' = 0 \<and> waiting f' = 0 \<and> live h' = live ex_heap - set [1, 2] \<and>
    room h' = room ex_heap + length [10::nat, 20])"
  by (rule sfifo_clearAll_wakes_all [OF ex_sfifo_rep]) (simp add: ex_sfifo_def)

text \<open>Assigning a tw_safeFIFO to itself never returns: \<open>operator=\<close> does not test for it
  and locks the same mutex twice.\<close>
theorem sfifo_self_assign_deadlocks:
  assumes "sfifo_rep h f ps xs"
  shows "sfifo_assign_self f h = Inl SelfDeadlock"
  by (rule sfifo_assign_self_deadlock [OF assms])

theorem sfifo_self_assign_deadlocks_witness:
  "sfifo_assign_self ex_sfifo ex_heap = Inl SelfDeadlock"
  by (rule sfifo_self_assign_deadlocks [OF ex_sfifo_rep])

end
