(* ===== verification/TW_Counting.thy ===== *)
theory TW_Counting
  imports TW_Prelude
begin

text \<open>
  The contract of a counting semaphore, which TW_Sema and TW_SemaTwoWay share: acquiring
  takes a unit or blocks when there is none, releasing gives a unit back. And threads as a
  list of program points, of which the component theories count those at a given point.
\<close>

section \<open>The interface\<close>

datatype semop = Acquire | Release

fun run_sema :: "('s \<Rightarrow> (int progress \<times> 's) res) \<Rightarrow> ('s \<Rightarrow> (int \<times> 's) res) \<Rightarrow>
    semop list \<Rightarrow> 's \<Rightarrow> (int progress list \<times> 's) res" where
  "run_sema acq rel [] s = Inr ([], s)"
| "run_sema acq rel (Acquire # ops) s = bindE (acq s) (\<lambda>(r, s').
     bindE (run_sema acq rel ops s') (\<lambda>(rs, s''). Inr (r # rs, s'')))"
| "run_sema acq rel (Release # ops) s = bindE (rel s) (\<lambda>(r, s').
     bindE (run_sema acq rel ops s') (\<lambda>(rs, s''). Inr (Done r # rs, s'')))"

text \<open>The same calls on a number: an \<open>Acquire\<close> that finds no unit blocks and takes none.\<close>

fun count_ops :: "semop list \<Rightarrow> int \<Rightarrow> int progress list \<times> int" where
  "count_ops [] n = ([], n)"
| "count_ops (Acquire # ops) n =
     (if n < 1 then let (rs, m) = count_ops ops n in (Blocked # rs, m)
      else let (rs, m) = count_ops ops (n - 1) in (Done 0 # rs, m))"
| "count_ops (Release # ops) n = (let (rs, m) = count_ops ops (n + 1) in (Done 0 # rs, m))"

lemma count_ops_nonneg: "0 \<le> n \<Longrightarrow> 0 \<le> snd (count_ops ops n)"
  by (induction ops n rule: count_ops.induct) (auto split: prod.splits)

locale counting_sema =
  fixes ok :: "'s \<Rightarrow> bool"
    and count :: "'s \<Rightarrow> int"
    and acq :: "'s \<Rightarrow> (int progress \<times> 's) res"
    and rel :: "'s \<Rightarrow> (int \<times> 's) res"
  assumes acq_law: "ok s \<Longrightarrow> 1 \<le> count s \<Longrightarrow>
      holds (acq s) (\<lambda>(p, s'). p = Done 0 \<and> ok s' \<and> count s' = count s - 1)"
    and acq_block_law: "ok s \<Longrightarrow> count s < 1 \<Longrightarrow>
      holds (acq s) (\<lambda>(p, s'). p = Blocked \<and> ok s' \<and> count s' = count s)"
    and rel_law: "ok s \<Longrightarrow> holds (rel s) (\<lambda>(r, s'). r = 0 \<and> ok s' \<and> count s' = count s + 1)"
begin

lemma run_counts:
  "ok s \<Longrightarrow> holds (run_sema acq rel ops s)
     (\<lambda>(rs, s'). ok s' \<and> (rs, count s') = count_ops ops (count s))"
proof (induction ops arbitrary: s)
  case Nil
  then show ?case by simp
next
  case (Cons a ops)
  consider "a = Acquire" "count s < 1" | "a = Acquire" "1 \<le> count s" | "a = Release"
    by (cases a; cases "count s < 1") auto
  then show ?case
  proof cases
    case 1
    from acq_block_law [OF Cons.prems 1(2)] obtain s' where
      "acq s = Inr (Blocked, s')" "ok s'" "count s' = count s" by (auto simp: holds_iff)
    with 1 Cons.IH [of s'] show ?thesis by (auto simp: holds_iff split: prod.splits)
  next
    case 2
    from acq_law [OF Cons.prems 2(2)] obtain s' where
      "acq s = Inr (Done 0, s')" "ok s'" "count s' = count s - 1" by (auto simp: holds_iff)
    with 2 Cons.IH [of s'] show ?thesis by (auto simp: holds_iff split: prod.splits)
  next
    case 3
    from rel_law [OF Cons.prems] obtain s' where
      "rel s = Inr (0, s')" "ok s'" "count s' = count s + 1" by (auto simp: holds_iff)
    with 3 Cons.IH [of s'] show ?thesis by (auto simp: holds_iff split: prod.splits)
  qed
qed

lemma run_nonneg:
  assumes "ok s" and "0 \<le> count s"
  shows "holds (run_sema acq rel ops s) (\<lambda>(rs, s'). 0 \<le> count s')"
  by (rule holds_mono [OF run_counts [OF assms(1)]])
    (use count_ops_nonneg [OF assms(2)] in \<open>auto split: prod.splits simp: prod_eq_iff\<close>)

end

section \<open>Counting threads\<close>

definition count_at :: "('c \<Rightarrow> bool) \<Rightarrow> 'c list \<Rightarrow> nat" where
  "count_at P ts = length (filter P ts)"

lemma count_at_update:
  "t < length ts \<Longrightarrow> count_at P (ts[t := c]) + of_bool (P (ts ! t)) =
     count_at P ts + of_bool (P c)"
proof (induction ts arbitrary: t)
  case (Cons a ts)
  then show ?case by (cases t) (auto simp: count_at_def)
qed simp

lemma count_at_pos: "t < length ts \<Longrightarrow> P (ts ! t) \<Longrightarrow> 0 < count_at P ts"
  unfolding count_at_def by (metis filter_empty_conv length_greater_0_conv nth_mem)

lemma count_at_off: "t < length ts \<Longrightarrow> P (ts ! t) \<Longrightarrow> \<not> P c \<Longrightarrow>
    count_at P (ts[t := c]) = count_at P ts - 1"
  using count_at_update [of t ts P c] by simp

lemma count_at_on: "t < length ts \<Longrightarrow> \<not> P (ts ! t) \<Longrightarrow> P c \<Longrightarrow>
    count_at P (ts[t := c]) = Suc (count_at P ts)"
  using count_at_update [of t ts P c] by simp

lemma count_at_same: "t < length ts \<Longrightarrow> P (ts ! t) = P c \<Longrightarrow>
    count_at P (ts[t := c]) = count_at P ts"
  using count_at_update [of t ts P c] by simp

lemmas count_at_updates = count_at_off count_at_on count_at_same

lemma count_at_zero: "count_at P ts = 0 \<longleftrightarrow> (\<forall>c\<in>set ts. \<not> P c)"
  by (auto simp: count_at_def filter_empty_conv)

lemma count_at_map_zero: "(\<And>c. \<not> P (f c)) \<Longrightarrow> count_at P (map f ts) = 0"
  by (simp add: count_at_def filter_empty_conv)

text \<open>\<open>signals n m wake ts ts'\<close>: a critical section left \<open>m\<close> of the \<open>n\<close> threads waiting on a condition variable; the
  one it has signalled, if any, is awake now.\<close>

inductive signals :: "nat \<Rightarrow> nat \<Rightarrow> ('c \<Rightarrow> 'c option) \<Rightarrow> 'c list \<Rightarrow> 'c list \<Rightarrow> bool" where
  signals_none: "signals n n wake ts ts"
| signals_one: "u < length ts \<Longrightarrow> wake (ts ! u) = Some c \<Longrightarrow> signals (Suc n) n wake ts (ts[u := c])"

inductive_cases signalsE: "signals n m wake ts ts'"

lemma signals_same [simp]: "signals n n wake ts ts' \<longleftrightarrow> ts' = ts"
  by (auto elim: signalsE intro: signals_none)

end
