(* ===== verification/TW_SafeFifoThreads.thy ===== *)
theory TW_SafeFifoThreads
  imports TW_SafeFifo TW_Counting
begin

text \<open>
  Threads that share one tw_safeFIFO (include/TW/tw_fifo.h).

  A method of the class is one or two critical sections, and each runs under the mutex, so a
  step of the system is one critical section of one thread. A thread is outside the class, or
  between the two critical sections of \<open>add\<close> (hooking the link in, and \<open>unblock\<close>), or asleep
  on the condition variable, or awake again and about to run the rest of its call.
  The condition variable may also wake a thread for no reason, or because its time is over;
  a thread whose time is over before it runs again may have been signalled, and its wait
  returns \<^verbatim>\<open>ETIMEDOUT\<close> all the same.

  The lists \<open>added\<close> and \<open>removed\<close> record the values in the order in which the critical
  sections that queue and unqueue them ran; no operation reads them.
\<close>

section \<open>The system and its steps\<close>

datatype role = Remover | Peeker

datatype tstate = Idle | Signalling | Sleeping role | Woken role | TimedOut role

record 'a sys =
  que :: sfifo
  hp :: "'a link heap"
  ths :: "tstate list"
  added :: "'a list"
  removed :: "'a list"

definition sys_init :: "nat \<Rightarrow> nat \<Rightarrow> 'a sys" where
  "sys_init n k = \<lparr>que = sfifo_new, hp = empty_heap n, ths = replicate k Idle,
     added = [], removed = []\<rparr>"

definition at_thread :: "'a sys \<Rightarrow> nat \<Rightarrow> tstate \<Rightarrow> bool" where
  "at_thread s t c \<longleftrightarrow> t < length (ths s) \<and> ths s ! t = c"

definition goto :: "nat \<Rightarrow> tstate \<Rightarrow> 'a sys \<Rightarrow> 'a sys" where
  "goto t c s = s\<lparr>ths := (ths s)[t := c]\<rparr>"

definition took :: "'a option \<Rightarrow> 'a sys \<Rightarrow> 'a sys" where
  "took r s = s\<lparr>removed := removed s @ gots [r]\<rparr>"

text \<open>\<open>wakes f ts ts'\<close>: what \<open>unblock\<close> called on \<open>f\<close> does to the threads.\<close>

inductive wakes :: "sfifo \<Rightarrow> tstate list \<Rightarrow> tstate list \<Rightarrow> bool" where
  no_waiter: "waiting f = 0 \<or> block_cnt f \<le> 0 \<Longrightarrow> wakes f ts ts"
| one_waiter: "0 < waiting f \<Longrightarrow> 0 < block_cnt f \<Longrightarrow> u < length ts \<Longrightarrow> ts ! u = Sleeping r \<Longrightarrow>
    wakes f ts (ts[u := Woken r])"

fun wake_up :: "tstate \<Rightarrow> tstate" where
  "wake_up (Sleeping r) = Woken r"
| "wake_up c = c"

text \<open>The flags say whether there are threads that call \<open>peekOrBlock\<close>, and whether a wait with a time limit can run out of it.\<close>

inductive step :: "bool \<Rightarrow> bool \<Rightarrow> 'a sys \<Rightarrow> 'a sys \<Rightarrow> bool" for peekers timed where
  add: "at_thread s t Idle \<Longrightarrow> sfifo_add_locked x (que s) (hp s) = Inr (f, h) \<Longrightarrow>
    step peekers timed s (goto t Signalling (s\<lparr>que := f, hp := h,
      added := added s @ (if enabled (que s) then [x] else [])\<rparr>))"
| signal: "at_thread s t Signalling \<Longrightarrow> sfifo_unblock (que s) = Inr f \<Longrightarrow>
    wakes (que s) ((ths s)[t := Idle]) ts \<Longrightarrow> step peekers timed s (s\<lparr>que := f, ths := ts\<rparr>)"
| unblock: "at_thread s t Idle \<Longrightarrow> sfifo_unblock (que s) = Inr f \<Longrightarrow>
    wakes (que s) (ths s) ts \<Longrightarrow> step peekers timed s (s\<lparr>que := f, ths := ts\<rparr>)"
| unblockAll: "at_thread s t Idle \<Longrightarrow> sfifo_unblockAll (que s) = Inr f \<Longrightarrow>
    step peekers timed s (s\<lparr>que := f,
      ths := (if 0 < block_cnt (que s) then map wake_up (ths s) else ths s)\<rparr>)"
| remove: "at_thread s t Idle \<Longrightarrow> sfifo_remove (que s) (hp s) = Inr (r, f, h) \<Longrightarrow>
    step peekers timed s (took r (s\<lparr>que := f, hp := h\<rparr>))"
| remove_done: "at_thread s t Idle \<Longrightarrow>
    sfifo_removeOrBlock_enter (que s) (hp s) = Inr (Done r, f, h) \<Longrightarrow>
    step peekers timed s (took r (s\<lparr>que := f, hp := h\<rparr>))"
| remove_sleep: "at_thread s t Idle \<Longrightarrow>
    sfifo_removeOrBlock_enter (que s) (hp s) = Inr (Blocked, f, h) \<Longrightarrow>
    step peekers timed s (goto t (Sleeping Remover) (s\<lparr>que := f, hp := h\<rparr>))"
| remove_wake: "at_thread s t (Woken Remover) \<Longrightarrow>
    sfifo_removeOrBlock_resume (que s) (hp s) = Inr (r, f, h) \<Longrightarrow>
    step peekers timed s (goto t Idle (took r (s\<lparr>que := f, hp := h\<rparr>)))"
| remove_timeout: "at_thread s t (TimedOut Remover) \<Longrightarrow>
    sfifo_removeOrBlock_timed_resume True (que s) (hp s) = Inr (r, f, h) \<Longrightarrow>
    step peekers timed s (goto t Idle (took r (s\<lparr>que := f, hp := h\<rparr>)))"
| peek_sleep: "peekers \<Longrightarrow> at_thread s t Idle \<Longrightarrow>
    sfifo_peekOrBlock_enter (que s) (hp s) = Inr (Blocked, f) \<Longrightarrow>
    step peekers timed s (goto t (Sleeping Peeker) (s\<lparr>que := f\<rparr>))"
| peek_wake: "at_thread s t (Woken Peeker) \<Longrightarrow>
    sfifo_peekOrBlock_resume (que s) (hp s) = Inr (r, f) \<Longrightarrow>
    step peekers timed s (goto t Idle (s\<lparr>que := f\<rparr>))"
| peek_timeout: "at_thread s t (TimedOut Peeker) \<Longrightarrow>
    sfifo_peekOrBlock_timed_resume True (que s) (hp s) = Inr (r, f) \<Longrightarrow>
    step peekers timed s (goto t Idle (s\<lparr>que := f\<rparr>))"
| enable: "at_thread s t Idle \<Longrightarrow> sfifo_enable (que s) = Inr f \<Longrightarrow>
    step peekers timed s (s\<lparr>que := f\<rparr>)"
| disable: "at_thread s t Idle \<Longrightarrow> sfifo_disable (que s) = Inr f \<Longrightarrow>
    step peekers timed s (s\<lparr>que := f\<rparr>)"
| spurious: "at_thread s t (Sleeping r) \<Longrightarrow>
    step peekers timed s (goto t (Woken r) (s\<lparr>que := (que s)\<lparr>waiting := waiting (que s) - 1\<rparr>\<rparr>))"
| timeout: "timed \<Longrightarrow> at_thread s t (Sleeping r) \<Longrightarrow>
    step peekers timed s (goto t (TimedOut r) (s\<lparr>que := (que s)\<lparr>waiting := waiting (que s) - 1\<rparr>\<rparr>))"
| late: "timed \<Longrightarrow> at_thread s t (Woken r) \<Longrightarrow> step peekers timed s (goto t (TimedOut r) s)"

inductive reachable :: "bool \<Rightarrow> bool \<Rightarrow> nat \<Rightarrow> nat \<Rightarrow> 'a sys \<Rightarrow> bool" for peekers timed n k where
  reach_init: "reachable peekers timed n k (sys_init n k)"
| reach_step: "reachable peekers timed n k s \<Longrightarrow> step peekers timed s s' \<Longrightarrow> reachable peekers timed n k s'"

inductive_cases wakesE: "wakes f ts ts'"

section \<open>Counting threads\<close>

fun is_sleeping :: "tstate \<Rightarrow> bool" where
  "is_sleeping (Sleeping r) = True"
| "is_sleeping _ = False"

text \<open>The threads that are on their way to the queue: one will take an element or find none.\<close>

fun is_coming :: "tstate \<Rightarrow> bool" where
  "is_coming Signalling = True"
| "is_coming (Woken Remover) = True"
| "is_coming _ = False"

lemma wake_up_not_sleeping [simp]: "\<not> is_sleeping (wake_up c)"
  by (cases c) auto

lemma count_wake_up [simp]: "count_at is_sleeping (map wake_up ts) = 0"
  by (rule count_at_map_zero) simp

section \<open>The invariant\<close>

definition sys_inv :: "'a sys \<Rightarrow> bool" where
  "sys_inv s \<longleftrightarrow> (\<exists>ps xs. sfifo_rep (hp s) (que s) ps xs \<and> added s = removed s @ xs) \<and>
     waiting (que s) = count_at is_sleeping (ths s) \<and>
     int (waiting (que s)) \<le> block_cnt (que s)"

text \<open>The queue holds at most as many elements as threads are coming, or nobody sleeps.\<close>

definition no_lost_wakeup :: "'a sys \<Rightarrow> bool" where
  "no_lost_wakeup s \<longleftrightarrow> count_at is_sleeping (ths s) = 0 \<or>
     length (added s) \<le> length (removed s) + count_at is_coming (ths s)"

definition no_peekers :: "'a sys \<Rightarrow> bool" where
  "no_peekers s \<longleftrightarrow> (\<forall>c\<in>set (ths s). c \<notin> {Sleeping Peeker, Woken Peeker, TimedOut Peeker})"

lemma sys_fields [simp]:
  "que (goto t c s) = que s" "hp (goto t c s) = hp s" "ths (goto t c s) = (ths s)[t := c]"
  "added (goto t c s) = added s" "removed (goto t c s) = removed s"
  "que (took r s) = que s" "hp (took r s) = hp s" "ths (took r s) = ths s"
  "added (took r s) = added s" "removed (took r s) = removed s @ gots [r]"
  by (simp_all add: goto_def took_def)

lemma sys_init_inv: "sys_inv (sys_init n k)"
  by (auto simp: sys_inv_def sys_init_def sfifo_new_def sfifo_rep_def fifo_rep_Nil count_at_def
      intro!: exI [of _ "[]"])

subsection \<open>Each critical section from a state that satisfies it\<close>

lemma add_locked_cases:
  assumes r: "sfifo_rep h f ps xs" and e: "sfifo_add_locked x f h = Inr (f', h')"
  shows "\<exists>ps. sfifo_rep h' f' ps (xs @ (if enabled f then [x] else []))"
    and "waiting f' = waiting f \<and> block_cnt f' = block_cnt f \<and> enabled f' = enabled f"
proof -
  from e have room: "0 < room h"
    by (cases "room h = 0") (auto simp: sfifo_add_locked_def malloc_fails init_link_def)
  have "(\<exists>ps. sfifo_rep h' f' ps (xs @ (if enabled f then [x] else []))) \<and>
    waiting f' = waiting f \<and> block_cnt f' = block_cnt f \<and> enabled f' = enabled f"
  proof (cases "enabled f")
    case True
    with sfifo_add_locked_rep [OF r True room, of x] e show ?thesis
      by (auto simp: same_object_sfifo)
  next
    case False
    with e room r have "f' = f" "h' = new_obj \<lparr>ldat = x, lnext = NULL\<rparr> h"
      by (auto simp: sfifo_add_locked_def malloc_init_link sfifo_rep_def)
    with False r fifo_rep_new_obj [of h f ps xs "\<lparr>ldat = x, lnext = NULL\<rparr>"] show ?thesis
      by (auto simp: sfifo_rep_def)
  qed
  then show "\<exists>ps. sfifo_rep h' f' ps (xs @ (if enabled f then [x] else []))"
    and "waiting f' = waiting f \<and> block_cnt f' = block_cnt f \<and> enabled f' = enabled f" by auto
qed

lemma remove_cases:
  assumes r: "sfifo_rep h f ps xs" and e: "sfifo_remove f h = Inr (r, f', h')"
  shows "\<exists>ps ys. sfifo_rep h' f' ps ys \<and> xs = gots [r] @ ys"
    and "waiting f' = waiting f \<and> block_cnt f' = block_cnt f"
    and "r = None \<longleftrightarrow> xs = []"
proof -
  have "(\<exists>ps ys. sfifo_rep h' f' ps ys \<and> xs = gots [r] @ ys) \<and>
    waiting f' = waiting f \<and> block_cnt f' = block_cnt f \<and> (r = None \<longleftrightarrow> xs = [])"
  proof (cases xs)
    case Nil
    with r e show ?thesis by (auto simp: sfifo_remove_Nil)
  next
    case (Cons x ys)
    with sfifo_remove_rep [of h f ps x ys] r e show ?thesis
      by (auto simp: same_object_sfifo)
  qed
  then show "\<exists>ps ys. sfifo_rep h' f' ps ys \<and> xs = gots [r] @ ys"
    and "waiting f' = waiting f \<and> block_cnt f' = block_cnt f"
    and "r = None \<longleftrightarrow> xs = []" by auto
qed

lemma enter_done:
  assumes r: "sfifo_rep h f ps xs" and e: "sfifo_removeOrBlock_enter f h = Inr (Done r, f', h')"
  shows "sfifo_remove f h = Inr (r, f', h')"
  using assms removeOrBlock_enter_Nil [of h f ps] removeOrBlock_enter_Cons [of h f ps]
  by (cases xs) (auto simp: bindE_eq_Inr split_def split: if_splits)

lemma enter_blocked:
  assumes r: "sfifo_rep h f ps xs" and e: "sfifo_removeOrBlock_enter f h = Inr (Blocked, f', h')"
  shows "xs = [] \<and> f' = f\<lparr>block_cnt := block_cnt f + 1, waiting := Suc (waiting f)\<rparr> \<and> h' = h"
  using assms removeOrBlock_enter_Nil [of h f ps] removeOrBlock_enter_Cons [of h f ps]
  by (cases xs) (auto simp: bindE_eq_Inr split_def split: if_splits)

lemma peek_blocked:
  assumes r: "sfifo_rep h f ps xs" and e: "sfifo_peekOrBlock_enter f h = Inr (Blocked, f')"
  shows "xs = [] \<and> f' = f\<lparr>block_cnt := block_cnt f + 1, waiting := Suc (waiting f)\<rparr>"
  using assms by (auto simp: sfifo_peekOrBlock_enter_rep split: list.splits if_splits)

lemma peek_same:
  "sfifo_rep h f ps xs \<Longrightarrow> sfifo_peekOrBlock_resume f h = Inr (r, f') \<Longrightarrow> f' = f"
  "sfifo_rep h f ps xs \<Longrightarrow> sfifo_peekOrBlock_timed_resume True f h = Inr (r, f') \<Longrightarrow> f' = f"
  by (auto simp: sfifo_peekOrBlock_resume_eq sfifo_peek_rep sfifo_rep_def)

lemma timed_out_same:
  "sfifo_rep h f ps xs \<Longrightarrow> sfifo_removeOrBlock_timed_resume True f h = Inr (r, f', h') \<Longrightarrow>
     r = None \<and> f' = f \<and> h' = h"
  by (auto simp: removeOrBlock_timed_resume_eq sfifo_rep_def)

lemma unblock_result:
  "sfifo_rep h f ps xs \<Longrightarrow> sfifo_unblock f = Inr f' \<Longrightarrow> f' = unblocked f"
  by (auto simp: sfifo_unblock_eq sfifo_rep_def)

lemma enable_result:
  "sfifo_rep h f ps xs \<Longrightarrow> sfifo_enable f = Inr f' \<Longrightarrow> f' = f\<lparr>enabled := True\<rparr>"
  "sfifo_rep h f ps xs \<Longrightarrow> sfifo_disable f = Inr f' \<Longrightarrow> f' = f\<lparr>enabled := False\<rparr>"
  by (cases f; auto simp: sfifo_enable_def sfifo_disable_def sfifo_rep_def)+

lemma unblocked_inv:
  assumes "waiting f = count_at is_sleeping ts" and "int (waiting f) \<le> block_cnt f"
    and "wakes f ts ts'"
  shows "waiting (unblocked f) = count_at is_sleeping ts'"
    and "int (waiting (unblocked f)) \<le> block_cnt (unblocked f)"
  using assms by (auto elim!: wakesE simp: unblocked_def count_at_updates)


subsection \<open>The invariant holds in every reachable state\<close>

lemma sys_invE:
  assumes "sys_inv s"
  obtains ps xs where "sfifo_rep (hp s) (que s) ps xs" and "added s = removed s @ xs"
    and "waiting (que s) = count_at is_sleeping (ths s)"
    and "int (waiting (que s)) \<le> block_cnt (que s)"
  using assms by (auto simp: sys_inv_def)

lemma sys_invI:
  assumes "sfifo_rep (hp s) (que s) ps xs" and "added s = removed s @ xs"
    and "waiting (que s) = count_at is_sleeping (ths s)"
    and "int (waiting (que s)) \<le> block_cnt (que s)"
  shows "sys_inv s"
  using assms by (auto simp: sys_inv_def)

lemma step_sys_inv:
  assumes "step p w s s'" and "sys_inv s"
  shows "sys_inv s'"
proof -
  from \<open>sys_inv s\<close> obtain ps xs where r: "sfifo_rep (hp s) (que s) ps xs"
    and a: "added s = removed s @ xs"
    and w: "waiting (que s) = count_at is_sleeping (ths s)"
    and b: "int (waiting (que s)) \<le> block_cnt (que s)" by (rule sys_invE)
  have rf: "sfifo_rep (hp s) (unblocked (que s)) ps xs" using r by (simp add: sfifo_rep_def)
  show ?thesis
    using \<open>step p w s s'\<close>
  proof cases
    case (add t x f h)
    from add_locked_cases [OF r add(3)] obtain ps' where
      "sfifo_rep h f ps' (xs @ (if enabled (que s) then [x] else []))"
      "waiting f = waiting (que s)" "block_cnt f = block_cnt (que s)" by blast
    with a w b add(2) show ?thesis unfolding add(1)
      by (intro sys_invI) (auto simp: at_thread_def count_at_updates)
  next
    case (signal t f ts)
    have "waiting (que s) = count_at is_sleeping ((ths s)[t := Idle])"
      using w signal(2) by (simp add: at_thread_def count_at_updates)
    from unblocked_inv [OF this b signal(4)] unblock_result [OF r signal(3)] rf a
    show ?thesis unfolding signal(1) by (intro sys_invI) auto
  next
    case (unblock t f ts)
    from unblocked_inv [OF w b unblock(4)] unblock_result [OF r unblock(3)] rf a
    show ?thesis unfolding unblock(1) by (intro sys_invI) auto
  next
    case (unblockAll t f)
    with r w b a show ?thesis
      by (auto simp: sfifo_unblockAll_eq sfifo_rep_def intro!: sys_invI)
  next
    case (remove t r' f h)
    from remove_cases [OF r remove(3)] obtain ps' ys where
      "sfifo_rep h f ps' ys" "xs = gots [r'] @ ys"
      "waiting f = waiting (que s)" "block_cnt f = block_cnt (que s)" by blast
    with a w b show ?thesis unfolding remove(1) by (intro sys_invI) auto
  next
    case (remove_done t r' f h)
    from remove_cases [OF r enter_done [OF r remove_done(3)]] obtain ps' ys where
      "sfifo_rep h f ps' ys" "xs = gots [r'] @ ys"
      "waiting f = waiting (que s)" "block_cnt f = block_cnt (que s)" by blast
    with a w b show ?thesis unfolding remove_done(1) by (intro sys_invI) auto
  next
    case (remove_sleep t f h)
    from enter_blocked [OF r remove_sleep(3)] r a w b remove_sleep(2)
    show ?thesis unfolding remove_sleep(1)
      by (intro sys_invI [where ps = ps and xs = xs]) (auto simp: at_thread_def count_at_updates sfifo_rep_def)
  next
    case (remove_wake t r' f h)
    have "sfifo_remove (que s) (hp s) = Inr (r', f, h)"
      using remove_wake(3) by (simp add: removeOrBlock_resume_eq)
    from remove_cases [OF r this] obtain ps' ys where
      "sfifo_rep h f ps' ys" "xs = gots [r'] @ ys"
      "waiting f = waiting (que s)" "block_cnt f = block_cnt (que s)" by blast
    with a w b remove_wake(2) show ?thesis unfolding remove_wake(1)
      by (intro sys_invI) (auto simp: at_thread_def count_at_updates)
  next
    case (remove_timeout t r' f h)
    with timed_out_same [OF r remove_timeout(3)] r a w b show ?thesis
      by (intro sys_invI [where ps = ps and xs = xs]) (auto simp: at_thread_def count_at_updates)
  next
    case (peek_sleep t f)
    from peek_blocked [OF r peek_sleep(4)] r a w b peek_sleep(3)
    show ?thesis unfolding peek_sleep(1)
      by (intro sys_invI [where ps = ps and xs = xs]) (auto simp: at_thread_def count_at_updates sfifo_rep_def)
  next
    case (peek_wake t r' f)
    with peek_same [OF r] r a w b show ?thesis
      by (intro sys_invI [where ps = ps and xs = xs]) (auto simp: at_thread_def count_at_updates)
  next
    case (peek_timeout t r' f)
    with peek_same [OF r] r a w b show ?thesis
      by (intro sys_invI [where ps = ps and xs = xs]) (auto simp: at_thread_def count_at_updates)
  next
    case (enable t f)
    with enable_result [OF r] r a w b show ?thesis
      by (intro sys_invI [where ps = ps and xs = xs]) (auto simp: sfifo_rep_def)
  next
    case (disable t f)
    with enable_result [OF r] r a w b show ?thesis
      by (intro sys_invI [where ps = ps and xs = xs]) (auto simp: sfifo_rep_def)
  next
    case (spurious t r')
    with r a w b show ?thesis
      by (intro sys_invI [where ps = ps and xs = xs]) (auto simp: at_thread_def count_at_updates sfifo_rep_def)
  next
    case (timeout t r')
    with r a w b show ?thesis
      by (intro sys_invI [where ps = ps and xs = xs]) (auto simp: at_thread_def count_at_updates sfifo_rep_def)
  next
    case (late t r')
    with r a w b show ?thesis
      by (intro sys_invI [where ps = ps and xs = xs]) (auto simp: at_thread_def count_at_updates)
  qed
qed

lemma reachable_sys_inv: "reachable p w n k s \<Longrightarrow> sys_inv s"
  by (induction rule: reachable.induct) (auto intro: sys_init_inv step_sys_inv)


subsection \<open>No wake-up is lost while nobody peeks\<close>

lemma no_peekers_update:
  "no_peekers s \<Longrightarrow> c \<notin> {Sleeping Peeker, Woken Peeker, TimedOut Peeker} \<Longrightarrow>
     ths s' = (ths s)[t := c] \<Longrightarrow> no_peekers s'"
  using set_update_subset_insert [of "ths s" t c] by (auto simp: no_peekers_def)

lemma no_peekers_role:
  "no_peekers s \<Longrightarrow> at_thread s t (Sleeping r) \<Longrightarrow> r = Remover"
  "no_peekers s \<Longrightarrow> at_thread s t (Woken Peeker) \<Longrightarrow> False"
  "no_peekers s \<Longrightarrow> at_thread s t (TimedOut Peeker) \<Longrightarrow> False"
  using nth_mem [of t "ths s"] by (cases r; auto simp: no_peekers_def at_thread_def)+

lemma no_peekers_wakes:
  assumes n: "no_peekers s" and w: "wakes f ts ts'" and t: "set ts \<subseteq> insert Idle (set (ths s))"
  shows "\<forall>c\<in>set ts'. c \<notin> {Sleeping Peeker, Woken Peeker, TimedOut Peeker}"
  using w
proof cases
  case no_waiter
  then show ?thesis using n t by (auto simp: no_peekers_def)
next
  case (one_waiter u r)
  have "Sleeping r \<in> set ts" using one_waiter nth_mem by metis
  with n t have "r = Remover" by (cases r) (auto simp: no_peekers_def)
  with one_waiter set_update_subset_insert [of ts u "Woken r"] n t show ?thesis
    by (fastforce simp: no_peekers_def)
qed

lemma step_no_peekers:
  assumes "step False False s s'" and n: "no_peekers s"
  shows "no_peekers s'"
  using assms(1)
proof cases
  case (signal t f ts)
  have "set ((ths s)[t := Idle]) \<subseteq> insert Idle (set (ths s))"
    by (rule set_update_subset_insert)
  from no_peekers_wakes [OF n signal(4) this] show ?thesis
    by (simp add: signal(1) no_peekers_def)
next
  case (unblock t f ts)
  from no_peekers_wakes [OF n unblock(4)] show ?thesis
    by (auto simp: unblock(1) no_peekers_def)
next
  case (unblockAll t f)
  have "wake_up c \<notin> {Sleeping Peeker, Woken Peeker, TimedOut Peeker}"
    if "c \<in> set (ths s)" for c
    using n that by (cases c) (auto simp: no_peekers_def)
  then show ?thesis using n by (auto simp: unblockAll(1) no_peekers_def)
next
  case (spurious t r)
  with no_peekers_role(1) [OF n spurious(2)] show ?thesis
    by (intro no_peekers_update [OF n, of "Woken Remover" _ t]) auto
next
  case (add t x f h)
  then show ?thesis by (intro no_peekers_update [OF n, of Signalling _ t]) auto
next
  case (remove_sleep t f h)
  then show ?thesis by (intro no_peekers_update [OF n, of "Sleeping Remover" _ t]) auto
next
  case (remove_wake t r f h)
  then show ?thesis by (intro no_peekers_update [OF n, of Idle _ t]) auto
next
  case (remove_timeout t r f h)
  then show ?thesis by (intro no_peekers_update [OF n, of Idle _ t]) auto
next
  case (peek_wake t r f)
  then show ?thesis using no_peekers_role(2) [OF n] by blast
next
  case (peek_timeout t r f)
  then show ?thesis using no_peekers_role(3) [OF n] by blast
qed (use n in \<open>simp_all add: no_peekers_def\<close>)

lemma wakes_coming:
  assumes w: "wakes f ts ts'" and all: "\<forall>c\<in>set ts. c \<noteq> Sleeping Peeker"
    and n: "waiting f = count_at is_sleeping ts" "int (waiting f) \<le> block_cnt f"
  shows "count_at is_sleeping ts' = 0 \<or>
    count_at is_coming ts' = Suc (count_at is_coming ts)"
  using w
proof cases
  case no_waiter
  then show ?thesis using n by auto
next
  case (one_waiter u r)
  have "Sleeping r \<in> set ts" using one_waiter nth_mem by metis
  with all have "r = Remover" by (cases r) auto
  with one_waiter show ?thesis by (simp add: count_at_updates)
qed


lemma wakes_none: "wakes f ts ts' \<Longrightarrow> waiting f = 0 \<Longrightarrow> ts' = ts"
  by (auto elim: wakes.cases)

text \<open>A thread that takes an element, or finds none, or comes no more.\<close>

lemma no_lost_wakeup_take:
  assumes l: "no_lost_wakeup s" and a: "added s = removed s @ xs" and xs: "xs = gots [r] @ ys"
    and c: "r = None \<longleftrightarrow> xs = []" and t: "at_thread s t (Woken Remover)"
  shows "no_lost_wakeup (goto t Idle (took r (s\<lparr>que := f, hp := h\<rparr>)))"
proof (cases "count_at is_sleeping (ths s) = 0")
  case True
  with t show ?thesis by (simp add: no_lost_wakeup_def at_thread_def count_at_updates)
next
  case False
  with l have "length (added s) \<le> length (removed s) + count_at is_coming (ths s)"
    by (simp add: no_lost_wakeup_def)
  moreover have "0 < count_at is_coming (ths s)"
    using t by (auto simp: at_thread_def intro: count_at_pos)
  ultimately show ?thesis using t a xs c
    by (cases r) (auto simp: no_lost_wakeup_def at_thread_def count_at_updates)
qed

lemma step_no_lost_wakeup:
  assumes st: "step False False s s'" and i: "sys_inv s" and n: "no_peekers s" and l: "no_lost_wakeup s"
  shows "no_lost_wakeup s'"
proof -
  from i obtain ps xs where r: "sfifo_rep (hp s) (que s) ps xs"
    and a: "added s = removed s @ xs"
    and w: "waiting (que s) = count_at is_sleeping (ths s)"
    and b: "int (waiting (que s)) \<le> block_cnt (que s)" by (rule sys_invE)
  from st show ?thesis
  proof cases
    case (add t x f h)
    with l show ?thesis by (auto simp: no_lost_wakeup_def at_thread_def count_at_updates)
  next
    case (signal t f ts)
    let ?ts = "(ths s)[t := Idle]"
    have s: "count_at is_sleeping ?ts = count_at is_sleeping (ths s)"
      "Suc (count_at is_coming ?ts) = count_at is_coming (ths s)"
      using signal(2) count_at_pos [of t "ths s" is_coming]
      by (auto simp: at_thread_def count_at_updates)
    have "\<forall>c\<in>set ?ts. c \<noteq> Sleeping Peeker"
      using n set_update_subset_insert [of "ths s" t Idle] by (auto simp: no_peekers_def)
    from wakes_coming [OF signal(4) this] wakes_none [OF signal(4)] s w b l
    show ?thesis by (auto simp: signal(1) no_lost_wakeup_def)
  next
    case (unblock t f ts)
    have "\<forall>c\<in>set (ths s). c \<noteq> Sleeping Peeker" using n by (auto simp: no_peekers_def)
    from wakes_coming [OF unblock(4) this w b] wakes_none [OF unblock(4)] l w
    show ?thesis by (auto simp: unblock(1) no_lost_wakeup_def)
  next
    case (unblockAll t f)
    with l w b show ?thesis by (auto simp: no_lost_wakeup_def)
  next
    case (remove t r' f h)
    from remove_cases [OF r remove(3)] a l show ?thesis
      unfolding remove(1) by (cases r') (auto simp: no_lost_wakeup_def)
  next
    case (remove_done t r' f h)
    from remove_cases [OF r enter_done [OF r remove_done(3)]] a l show ?thesis
      unfolding remove_done(1) by (cases r') (auto simp: no_lost_wakeup_def)
  next
    case (remove_sleep t f h)
    with enter_blocked [OF r remove_sleep(3)] a show ?thesis
      by (simp add: no_lost_wakeup_def)
  next
    case (remove_wake t r' f h)
    have "sfifo_remove (que s) (hp s) = Inr (r', f, h)"
      using remove_wake(3) by (simp add: removeOrBlock_resume_eq)
    from remove_cases [OF r this] no_lost_wakeup_take [OF l a _ _ remove_wake(2)]
    show ?thesis unfolding remove_wake(1) by blast
  next
    case (remove_timeout t r' f h)
    with timed_out_same [OF r remove_timeout(3)] l show ?thesis
      by (auto simp: no_lost_wakeup_def at_thread_def count_at_updates)
  next
    case (peek_wake t r' f)
    with no_peekers_role(2) [OF n] show ?thesis by blast
  next
    case (peek_timeout t r' f)
    with no_peekers_role(3) [OF n] show ?thesis by blast
  next
    case (spurious t r')
    with no_peekers_role(1) [OF n spurious(2)] l show ?thesis
      by (auto simp: no_lost_wakeup_def at_thread_def count_at_updates)
  qed (use l in \<open>simp_all add: no_lost_wakeup_def\<close>)
qed

lemma reachable_no_lost_wakeup:
  "reachable False False n k s \<Longrightarrow> no_peekers s \<and> no_lost_wakeup s"
proof (induction rule: reachable.induct)
  case reach_init
  then show ?case by (auto simp: no_peekers_def no_lost_wakeup_def sys_init_def)
next
  case (reach_step s s')
  then show ?case
    using step_no_peekers step_no_lost_wakeup reachable_sys_inv by blast
qed

lemma sfifo_calls_defined:
  assumes r: "sfifo_rep h f ps xs" and room: "0 < room h" and b: "block_cnt f < 2147483647"
  shows "\<exists>v. sfifo_add_locked x f h = Inr v" and "\<exists>v. sfifo_unblock f = Inr v"
    and "\<exists>v. sfifo_removeOrBlock_enter f h = Inr v"
    and "\<exists>v. sfifo_removeOrBlock_resume f h = Inr v"
proof -
  show "\<exists>v. sfifo_add_locked x f h = Inr v"
    using r room sfifo_add_locked_rep [OF r _ room, of x]
    by (cases "enabled f") (auto simp: holds_iff sfifo_add_locked_def malloc_init_link sfifo_rep_def)
  show "\<exists>v. sfifo_unblock f = Inr v"
    using r by (simp add: sfifo_rep_def sfifo_unblock_eq)
  have rem: "\<exists>v. sfifo_remove f h = Inr v"
  proof (cases xs)
    case Nil
    with r sfifo_remove_Nil [of h f ps] show ?thesis by simp
  next
    case (Cons y ys)
    with sfifo_remove_rep [of h f ps y ys] r show ?thesis by (auto simp: holds_iff)
  qed
  show "\<exists>v. sfifo_removeOrBlock_enter f h = Inr v"
    using r b rem removeOrBlock_enter_Nil [of h f ps] removeOrBlock_enter_Cons [of h f ps]
    by (cases xs) auto
  show "\<exists>v. sfifo_removeOrBlock_resume f h = Inr v"
    using rem by (simp add: removeOrBlock_resume_eq)
qed

section \<open>Properties\<close>

text \<open>C4. Threads that share a tw_safeFIFO see one queue: in every reachable state the
  values taken out so far are, in the same order, the first ones of those put in, and
  the linked list under \<open>out\<close> holds exactly the rest; the mutex is free between two critical
  sections and \<open>_remain\<close> is the number of queued values.\<close>
theorem threads_share_one_fifo:
  assumes "reachable p w n k s"
  shows "\<exists>ps xs. fifo_rep (hp s) (que s) ps xs \<and> added s = removed s @ xs \<and>
    remain (que s) = int (length xs) \<and> \<not> mtx (que s)"
  using reachable_sys_inv [OF assms] fifo_repD(4) by (fastforce simp: sys_inv_def sfifo_rep_def)

text \<open>\<open>unblock\<close> signals the condition variable only while \<open>_block_cnt\<close> is positive. That
  is enough: in every reachable state \<open>_block_cnt\<close> is at least the number of threads asleep,
  so as long as a thread sleeps the next \<open>unblock\<close> signals.\<close>
theorem block_cnt_counts_sleepers:
  assumes "reachable p w n k s"
  shows "waiting (que s) = count_at is_sleeping (ths s) \<and>
    int (count_at is_sleeping (ths s)) \<le> block_cnt (que s)"
  using reachable_sys_inv [OF assms] by (auto simp: sys_inv_def)

text \<open>C5. No wake-up is lost among threads that add, remove, and remove or block, as long as no time limit runs out: when no
  thread is on its way (between hooking its link in and \<open>unblock\<close>, or woken and not yet back) and one sleeps in
  \<open>removeOrBlock\<close>, then the queue is empty. It does not matter that \<open>unblock\<close> runs after the
  mutex was given up, that threads call \<open>unblock\<close>, \<open>unblockAll\<close>, \<open>enable\<close> or \<open>disable\<close>, or that the condition variable wakes a thread
  for no reason. That no thread peeks and no wait times out is needed: see the last two theorems.\<close>
theorem no_sleeper_misses_an_element:
  assumes "reachable False False n k s" and "count_at is_coming (ths s) = 0"
    and "0 < count_at is_sleeping (ths s)"
  shows "added s = removed s \<and> out_p (que s) = NULL \<and> remain (que s) = 0"
proof -
  from reachable_sys_inv [OF assms(1)] obtain ps xs where
    "sfifo_rep (hp s) (que s) ps xs" "added s = removed s @ xs" by (rule sys_invE)
  then show ?thesis using reachable_no_lost_wakeup [OF assms(1)] assms(2,3)
    by (auto simp: no_lost_wakeup_def sfifo_rep_def fifo_rep_Nil)
qed

text \<open>No critical section can fault: in a reachable state with memory left and room in \<open>_block_cnt\<close>, hooking a
  link in, \<open>unblock\<close>, \<open>removeOrBlock\<close> up to its wait and \<open>removeOrBlock\<close> after it all have a
  defined result (no null or dangling pointer is read, no mutex is locked twice).\<close>
theorem threads_never_fault:
  assumes "reachable p w n k s" and "0 < room (hp s)" and "block_cnt (que s) < 2147483647"
  shows "(\<exists>v. sfifo_add_locked x (que s) (hp s) = Inr v) \<and> (\<exists>v. sfifo_unblock (que s) = Inr v) \<and>
    (\<exists>v. sfifo_removeOrBlock_enter (que s) (hp s) = Inr v) \<and>
    (\<exists>v. sfifo_removeOrBlock_resume (que s) (hp s) = Inr v)"
proof -
  from reachable_sys_inv [OF assms(1)] obtain ps xs where "sfifo_rep (hp s) (que s) ps xs"
    by (rule sys_invE)
  from sfifo_calls_defined [OF this assms(2,3)] show ?thesis by blast
qed

section \<open>Executions\<close>

definition sleeper :: "nat sys" where
  "sleeper = (sys_init 1 1)\<lparr>que := sfifo_new\<lparr>block_cnt := 1, waiting := 1\<rparr>,
     ths := [Sleeping Remover]\<rparr>"

lemma sleeper_reachable: "reachable False False 1 1 sleeper"
proof -
  have "step False False (sys_init 1 1) (goto 0 (Sleeping Remover) ((sys_init 1 1)\<lparr>
      que := sfifo_new\<lparr>block_cnt := 1, waiting := 1\<rparr>, hp := empty_heap 1\<rparr>) :: nat sys)"
    by (rule step.remove_sleep)
      (simp_all add: at_thread_def sys_init_def sfifo_removeOrBlock_enter_def sfifo_new_def
        drop_in_def count_blocked_def cond_wait_sleep_def Let_def)
  then have "reachable False False 1 1 (goto 0 (Sleeping Remover) ((sys_init 1 1)\<lparr>
      que := sfifo_new\<lparr>block_cnt := 1, waiting := 1\<rparr>, hp := empty_heap 1\<rparr>) :: nat sys)"
    by (rule reach_step [OF reach_init])
  then show ?thesis by (simp add: goto_def sys_init_def sleeper_def)
qed

theorem threads_share_one_fifo_witness:
  "\<exists>ps xs. fifo_rep (hp sleeper) (que sleeper) ps xs \<and> added sleeper = removed sleeper @ xs \<and>
    remain (que sleeper) = int (length xs) \<and> \<not> mtx (que sleeper)"
  by (rule threads_share_one_fifo [OF sleeper_reachable])

theorem block_cnt_counts_sleepers_witness:
  "waiting (que sleeper) = count_at is_sleeping (ths sleeper) \<and>
    int (count_at is_sleeping (ths sleeper)) \<le> block_cnt (que sleeper)"
  by (rule block_cnt_counts_sleepers [OF sleeper_reachable])

theorem no_sleeper_misses_an_element_witness:
  "added sleeper = removed sleeper \<and> out_p (que sleeper) = NULL \<and> remain (que sleeper) = 0"
  by (rule no_sleeper_misses_an_element [OF sleeper_reachable])
    (simp_all add: count_at_def sleeper_def)

theorem threads_never_fault_witness:
  "(\<exists>v. sfifo_add_locked 7 (que sleeper) (hp sleeper) = Inr v) \<and>
    (\<exists>v. sfifo_unblock (que sleeper) = Inr v) \<and>
    (\<exists>v. sfifo_removeOrBlock_enter (que sleeper) (hp sleeper) = Inr v) \<and>
    (\<exists>v. sfifo_removeOrBlock_resume (que sleeper) (hp sleeper) = Inr v)"
  by (rule threads_never_fault [OF sleeper_reachable])
    (simp_all add: sleeper_def sys_init_def sfifo_new_def empty_heap_def)

text \<open>
  The execution in which a peeking thread eats the signal: thread 0 sleeps in
  \<open>peekOrBlock\<close>, thread 1 in \<open>removeOrBlock\<close>, thread 2 adds one value and signals; the signal
  wakes thread 0, which looks at the value and leaves it in the queue.
\<close>

definition one_link :: "nat link heap" where
  "one_link = \<lparr>mem = [Obj \<lparr>ldat = 7, lnext = NULL\<rparr>], room = 0\<rparr>"

definition asleep :: "tstate list \<Rightarrow> nat sys" where
  "asleep ts = \<lparr>que = sfifo_new\<lparr>block_cnt := int (count_at is_sleeping ts),
     waiting := count_at is_sleeping ts\<rparr>, hp = empty_heap 1, ths = ts, added = [], removed = []\<rparr>"

definition one_added :: "tstate list \<Rightarrow> nat sys" where
  "one_added ts = \<lparr>que = sfifo_new\<lparr>in_p := 1, out_p := 1, remain := 1,
     block_cnt := int (count_at is_sleeping ts), waiting := count_at is_sleeping ts\<rparr>,
     hp = one_link, ths = ts, added = [7], removed = []\<rparr>"

lemmas exec_simps = at_thread_def goto_def asleep_def one_added_def sfifo_new_def empty_heap_def
  count_at_def sfifo_removeOrBlock_enter_def sfifo_peekOrBlock_enter_def drop_in_def
  count_blocked_def cond_wait_sleep_def Let_def

lemma exec_peek_sleep: "step True w (asleep [Idle, Idle, Idle]) (asleep [Sleeping Peeker, Idle, Idle])"
proof -
  have "asleep [Sleeping Peeker, Idle, Idle] = goto 0 (Sleeping Peeker)
      ((asleep [Idle, Idle, Idle])\<lparr>que := sfifo_new\<lparr>block_cnt := 1, waiting := 1\<rparr>\<rparr>)"
    by (simp add: exec_simps)
  moreover have "step True w (asleep [Idle, Idle, Idle]) (goto 0 (Sleeping Peeker)
      ((asleep [Idle, Idle, Idle])\<lparr>que := sfifo_new\<lparr>block_cnt := 1, waiting := 1\<rparr>\<rparr>))"
    by (rule step.peek_sleep) (simp_all add: exec_simps)
  ultimately show ?thesis by simp
qed

lemma exec_timed_sleep: "step p w (asleep [Idle, Idle, Idle]) (asleep [Sleeping Remover, Idle, Idle])"
proof -
  let ?s = "(asleep [Idle, Idle, Idle])\<lparr>que := sfifo_new\<lparr>block_cnt := 1, waiting := 1\<rparr>, hp := empty_heap 1\<rparr>"
  have "asleep [Sleeping Remover, Idle, Idle] = goto 0 (Sleeping Remover) ?s"
    by (simp add: exec_simps)
  moreover have "step p w (asleep [Idle, Idle, Idle]) (goto 0 (Sleeping Remover) ?s)"
    by (rule step.remove_sleep) (simp_all add: exec_simps)
  ultimately show ?thesis by simp
qed

lemma exec_remove_sleep: "step p w (asleep [Sleeping r, Idle, Idle])
    (asleep [Sleeping r, Sleeping Remover, Idle])"
proof -
  let ?s = "(asleep [Sleeping r, Idle, Idle])\<lparr>que := sfifo_new\<lparr>block_cnt := 2, waiting := 2\<rparr>,
    hp := empty_heap 1\<rparr>"
  have "asleep [Sleeping r, Sleeping Remover, Idle] = goto 1 (Sleeping Remover) ?s"
    by (simp add: exec_simps)
  moreover have "step p w (asleep [Sleeping r, Idle, Idle]) (goto 1 (Sleeping Remover) ?s)"
    by (rule step.remove_sleep) (simp_all add: exec_simps)
  ultimately show ?thesis by simp
qed


lemma exec_add: "step p w (asleep [Sleeping r, Sleeping Remover, Idle])
    (one_added [Sleeping r, Sleeping Remover, Signalling])"
proof -
  let ?a = "asleep [Sleeping r, Sleeping Remover, Idle]"
  let ?s = "?a\<lparr>que := que (one_added [Sleeping r, Sleeping Remover, Signalling]),
    hp := one_link, added := added ?a @ (if enabled (que ?a) then [7] else [])\<rparr>"
  have "one_added [Sleeping r, Sleeping Remover, Signalling] = goto 2 Signalling ?s"
    by (simp add: exec_simps)
  moreover have "step p w ?a (goto 2 Signalling ?s)"
    by (rule step.add)
      (simp_all add: exec_simps sfifo_add_locked_def malloc_init_link new_obj_def link_tail_def
        one_link_def put_cell_def grow_def modify_def)
  ultimately show ?thesis by simp
qed

lemma exec_signal: "step p w (one_added [Sleeping r, Sleeping Remover, Signalling])
    (one_added [Woken r, Sleeping Remover, Idle])"
proof -
  let ?a = "one_added [Sleeping r, Sleeping Remover, Signalling]"
  let ?s = "?a\<lparr>que := que (one_added [Woken r, Sleeping Remover, Idle]),
    ths := [Woken r, Sleeping Remover, Idle]\<rparr>"
  have w: "wakes (que ?a) ((ths ?a)[2 := Idle]) (((ths ?a)[2 := Idle])[0 := Woken r])"
    by (rule one_waiter) (simp_all add: exec_simps)
  have "step p w ?a ?s"
    by (rule step.signal [of _ 2]) (use w in \<open>simp_all add: exec_simps sfifo_unblock_eq unblocked_def\<close>)
  moreover have "?s = one_added [Woken r, Sleeping Remover, Idle]"
    by (simp add: exec_simps)
  ultimately show ?thesis by simp
qed

lemma exec_peek_wake: "step p w (one_added [Woken Peeker, Sleeping Remover, Idle])
    (one_added [Idle, Sleeping Remover, Idle])"
proof -
  let ?a = "one_added [Woken Peeker, Sleeping Remover, Idle]"
  have "one_added [Idle, Sleeping Remover, Idle] = goto 0 Idle (?a\<lparr>que := que ?a\<rparr>)"
    by (simp add: exec_simps)
  moreover have "step p w ?a (goto 0 Idle (?a\<lparr>que := que ?a\<rparr>))"
    by (rule step.peek_wake [where r = "Some 7"])
      (simp_all add: exec_simps sfifo_peekOrBlock_resume_eq sfifo_peek_def peek_head_def
        one_link_def load_def cell_at_def)
  ultimately show ?thesis by simp
qed

lemma exec_late: "step p True (one_added [Woken r, Sleeping Remover, Idle]) (one_added [TimedOut r, Sleeping Remover, Idle])"
proof -
  let ?a = "one_added [Woken r, Sleeping Remover, Idle]"
  have "one_added [TimedOut r, Sleeping Remover, Idle] = goto 0 (TimedOut r) ?a"
    by (simp add: exec_simps)
  moreover have "step p True ?a (goto 0 (TimedOut r) ?a)" by (rule step.late) (simp_all add: exec_simps)
  ultimately show ?thesis by simp
qed

lemma exec_timed_return: "step p w (one_added [TimedOut Remover, Sleeping Remover, Idle])
    (one_added [Idle, Sleeping Remover, Idle])"
proof -
  let ?a = "one_added [TimedOut Remover, Sleeping Remover, Idle]"
  have "one_added [Idle, Sleeping Remover, Idle] = goto 0 Idle (took None (?a\<lparr>que := que ?a, hp := hp ?a\<rparr>))"
    by (simp add: exec_simps took_def)
  moreover have "step p w ?a (goto 0 Idle (took None (?a\<lparr>que := que ?a, hp := hp ?a\<rparr>)))"
    by (rule step.remove_timeout) (simp_all add: exec_simps removeOrBlock_timed_resume_eq)
  ultimately show ?thesis by simp
qed

text \<open>C23. A thread in \<open>peekOrBlock\<close> can eat the wake-up a thread in \<open>removeOrBlock\<close> needs: with
  both asleep, \<open>add\<close> signals one of them, and when that is the one that only looks, the
  other goes on sleeping though the queue holds an element and no thread is on its way to
  wake it. So the guarantee above does not extend to threads that peek.\<close>
theorem peeking_loses_a_wakeup:
  "\<exists>s :: nat sys. reachable True False 1 3 s \<and> ths s = [Idle, Sleeping Remover, Idle] \<and>
     remain (que s) = 1 \<and> added s \<noteq> removed s"
proof (intro exI conjI)
  have "asleep [Idle, Idle, Idle] = sys_init 1 3"
    by (simp add: exec_simps sys_init_def numeral_3_eq_3)
  then have "reachable True False 1 3 (asleep [Idle, Idle, Idle])" by (simp add: reach_init)
  then show "reachable True False 1 3 (one_added [Idle, Sleeping Remover, Idle])"
    by (meson reach_step exec_peek_sleep exec_remove_sleep exec_add exec_signal exec_peek_wake)
qed (simp_all add: exec_simps)

text \<open>Waits with a time limit lose wake-ups as well: the signal of an \<open>add\<close> can go to a call of \<^verbatim>\<open>removeOrBlock(fill, t)\<close> whose
  time is over before it runs again. Its wait returns \<^verbatim>\<open>ETIMEDOUT\<close>, and the call returns false without a look at the queue: a thread
  in \<open>removeOrBlock\<close> goes on sleeping though the queue holds an element and no thread is on its way to wake it.\<close>
theorem timed_wait_loses_a_wakeup:
  "\<exists>s :: nat sys. reachable False True 1 3 s \<and> ths s = [Idle, Sleeping Remover, Idle] \<and>
     remain (que s) = 1 \<and> added s \<noteq> removed s"
proof (intro exI conjI)
  have "asleep [Idle, Idle, Idle] = sys_init 1 3"
    by (simp add: exec_simps sys_init_def numeral_3_eq_3)
  then have "reachable False True 1 3 (asleep [Idle, Idle, Idle])" by (simp add: reach_init)
  then show "reachable False True 1 3 (one_added [Idle, Sleeping Remover, Idle])"
    by (meson reach_step exec_timed_sleep exec_remove_sleep exec_add exec_signal exec_late exec_timed_return)
qed (simp_all add: exec_simps)

end
