(* ===== verification/TW_SafeFifoMv.thy ===== *)
theory TW_SafeFifoMv
  imports TW_SafeFifo
begin

text \<open>
  The class tw_safeFIFOmv of include/TW/tw_fifo.h: tw_safeFIFO for types whose values are
  moved (\<^verbatim>\<open>d = std::move(the_d)\<close>) into and out of the links.

  The object has the fields of tw_safeFIFO. What a value is after it was moved from depends
  on the type \<open>T\<close> and is the parameter \<open>moved\<close>; an adding operation returns what it leaves
  behind in the caller's variable. Values of a link that is freed at once are not tracked.
\<close>

section \<open>Moving into a link\<close>

definition mv_init_link :: "('a \<Rightarrow> 'a) \<Rightarrow> ptr \<Rightarrow> 'a \<Rightarrow> 'a link heap \<Rightarrow> ('a \<times> 'a link heap) res" where
  "mv_init_link moved p the_d h =
     bindE (construct p \<lparr>ldat = the_d, lnext = NULL\<rparr> h) (\<lambda>h. Inr (moved the_d, h))"

definition mv_init_link_default :: "ptr \<Rightarrow> 'a \<Rightarrow> 'a link heap \<Rightarrow> 'a link heap res" where
  "mv_init_link_default p dflt h = construct p \<lparr>ldat = dflt, lnext = NULL\<rparr> h"

definition mv_new :: sfifo where
  "mv_new = \<lparr>enabled = True, in_p = NULL, out_p = NULL, remain = 0,
     mtx = False, block_cnt = 0, waiting = 0\<rparr>"

section \<open>The operations\<close>

definition mv_unblock :: "sfifo \<Rightarrow> sfifo res" where
  "mv_unblock f =
     bindE (lock_data f) (\<lambda>f.
     let f = (if 0 < block_cnt f
              then let f = cond_signal f in f\<lparr>block_cnt := block_cnt f - 1\<rparr> else f)
     in unlock_data f)"

definition mv_unblockAll :: "sfifo \<Rightarrow> sfifo res" where
  "mv_unblockAll f =
     bindE (lock_data f) (\<lambda>f.
     let f = (if 0 < block_cnt f
              then let f = cond_broadcast f in f\<lparr>block_cnt := 0\<rparr> else f)
     in unlock_data f)"

definition mv_add :: "('a \<Rightarrow> 'a) \<Rightarrow> 'a \<Rightarrow> sfifo \<Rightarrow> 'a link heap \<Rightarrow>
    ('a \<times> sfifo \<times> 'a link heap) res" where
  "mv_add moved the_d f h =
     (let (newlink, h) = malloc h in
      bindE (mv_init_link moved newlink the_d h) (\<lambda>(the_d, h).
      bindE (lock_data f) (\<lambda>f.
      bindE (if enabled f then link_tail newlink f h else Inr (f, h)) (\<lambda>(f, h).
      bindE (unlock_data f) (\<lambda>f.
      bindE (mv_unblock f) (\<lambda>f. Inr (the_d, f, h)))))))"

definition mv_add_rv :: "('a \<Rightarrow> 'a) \<Rightarrow> 'a \<Rightarrow> sfifo \<Rightarrow> 'a link heap \<Rightarrow>
    ('a \<times> sfifo \<times> 'a link heap) res" where
  "mv_add_rv moved the_d f h =
     (let (newlink, h) = malloc h in
      bindE (mv_init_link moved newlink the_d h) (\<lambda>(the_d, h).
      bindE (lock_data f) (\<lambda>f.
      bindE (if enabled f then link_tail newlink f h else Inr (f, h)) (\<lambda>(f, h).
      bindE (unlock_data f) (\<lambda>f.
      bindE (mv_unblock f) (\<lambda>f. Inr (the_d, f, h)))))))"

text \<open>\<open>addToHead\<close> moves the value into the link and then assigns the variable to it again.\<close>

definition mv_addToHead :: "('a \<Rightarrow> 'a) \<Rightarrow> 'a \<Rightarrow> sfifo \<Rightarrow> 'a link heap \<Rightarrow>
    ('a \<times> sfifo \<times> 'a link heap) res" where
  "mv_addToHead moved the_d f h =
     bindE (lock_data f) (\<lambda>f.
     bindE (if enabled f then
              let (newlink, h) = malloc h
              in bindE (mv_init_link moved newlink the_d h) (\<lambda>(the_d, h).
                 bindE (link_head newlink the_d f h) (\<lambda>(f, h). Inr (the_d, f, h)))
            else Inr (the_d, f, h)) (\<lambda>(the_d, f, h).
     bindE (unlock_data f) (\<lambda>f.
     bindE (mv_unblock f) (\<lambda>f. Inr (the_d, f, h)))))"

definition mv_addEmpty :: "'a \<Rightarrow> sfifo \<Rightarrow> 'a link heap \<Rightarrow>
    (ptr \<times> sfifo \<times> 'a link heap) res" where
  "mv_addEmpty dflt f h =
     bindE (lock_data f) (\<lambda>f.
     bindE (if enabled f then
              let (newlink, h) = malloc h
              in bindE (mv_init_link_default newlink dflt h) (\<lambda>h.
                 bindE (link_tail newlink f h) (\<lambda>(f, h). Inr (Some newlink, f, h)))
            else Inr (None, f, h)) (\<lambda>(newlink, f, h).
     bindE (unlock_data f) (\<lambda>f.
     bindE (mv_unblock f) (\<lambda>f.
     case newlink of None \<Rightarrow> Inl Uninit | Some p \<Rightarrow> Inr (p, f, h)))))"

definition mv_remove :: "sfifo \<Rightarrow> 'a link heap \<Rightarrow>
    ('a option \<times> sfifo \<times> 'a link heap) res" where
  "mv_remove f h =
     bindE (lock_data f) (\<lambda>f.
     bindE (unlink_head (drop_in f) h) (\<lambda>(r, f, h).
     bindE (unlock_data f) (\<lambda>f. Inr (r, f, h))))"

text \<open>\<open>removeOrBlock\<close>, up to its wait and after it. The timed variant copies the value; the
  flag says whether the wait returned \<^verbatim>\<open>ETIMEDOUT\<close>.\<close>

definition mv_removeOrBlock_enter :: "sfifo \<Rightarrow> 'a link heap \<Rightarrow>
    ('a option progress \<times> sfifo \<times> 'a link heap) res" where
  "mv_removeOrBlock_enter f h =
     bindE (lock_data f) (\<lambda>f.
     let f = drop_in f in
     if out_p f = NULL then
       bindE (bindE (count_blocked f) cond_wait_sleep) (\<lambda>f. Inr (Blocked, f, h))
     else
       bindE (unlink_head (drop_in f) h) (\<lambda>(r, f, h).
       bindE (unlock_data f) (\<lambda>f. Inr (Done r, f, h))))"

definition mv_removeOrBlock_resume :: "sfifo \<Rightarrow> 'a link heap \<Rightarrow>
    ('a option \<times> sfifo \<times> 'a link heap) res" where
  "mv_removeOrBlock_resume f h =
     bindE (cond_wait_wake f) (\<lambda>f.
     bindE (unlink_head (drop_in f) h) (\<lambda>(r, f, h).
     bindE (unlock_data f) (\<lambda>f. Inr (r, f, h))))"

definition mv_removeOrBlock_timed_resume :: "bool \<Rightarrow> sfifo \<Rightarrow> 'a link heap \<Rightarrow>
    ('a option \<times> sfifo \<times> 'a link heap) res" where
  "mv_removeOrBlock_timed_resume timedout f h =
     bindE (cond_wait_wake f) (\<lambda>f.
     if timedout then bindE (unlock_data f) (\<lambda>f. Inr (None, f, h))
     else
       bindE (unlink_head (drop_in f) h) (\<lambda>(r, f, h).
       bindE (unlock_data f) (\<lambda>f. Inr (r, f, h))))"

definition mv_peek :: "sfifo \<Rightarrow> 'a link heap \<Rightarrow> ('a option \<times> sfifo) res" where
  "mv_peek f h =
     bindE (lock_data f) (\<lambda>f.
     bindE (peek_head f h) (\<lambda>r.
     bindE (unlock_data f) (\<lambda>f. Inr (r, f))))"

definition mv_peekOrBlock_enter :: "sfifo \<Rightarrow> 'a link heap \<Rightarrow>
    ('a option progress \<times> sfifo) res" where
  "mv_peekOrBlock_enter f h =
     bindE (lock_data f) (\<lambda>f.
     if out_p f = NULL then
       bindE (bindE (count_blocked f) cond_wait_sleep) (\<lambda>f. Inr (Blocked, f))
     else
       bindE (peek_head f h) (\<lambda>r.
       bindE (unlock_data f) (\<lambda>f. Inr (Done r, f))))"

definition mv_peekOrBlock_resume :: "sfifo \<Rightarrow> 'a link heap \<Rightarrow> ('a option \<times> sfifo) res" where
  "mv_peekOrBlock_resume f h =
     bindE (cond_wait_wake f) (\<lambda>f.
     bindE (peek_head f h) (\<lambda>r.
     bindE (unlock_data f) (\<lambda>f. Inr (r, f))))"

definition mv_peekOrBlock_timed_resume :: "bool \<Rightarrow> sfifo \<Rightarrow> 'a link heap \<Rightarrow>
    ('a option \<times> sfifo) res" where
  "mv_peekOrBlock_timed_resume timedout f h =
     bindE (cond_wait_wake f) (\<lambda>f.
     if timedout then bindE (unlock_data f) (\<lambda>f. Inr (None, f))
     else
       bindE (peek_head f h) (\<lambda>r.
       bindE (unlock_data f) (\<lambda>f. Inr (r, f))))"

definition mv_remaining :: "sfifo \<Rightarrow> (int \<times> sfifo) res" where
  "mv_remaining f =
     bindE (lock_data f) (\<lambda>f. bindE (unlock_data f) (\<lambda>f. Inr (remain f, f)))"

definition mv_enable :: "sfifo \<Rightarrow> sfifo res" where
  "mv_enable f = bindE (lock_data f) (\<lambda>f. unlock_data (f\<lparr>enabled := True\<rparr>))"

definition mv_disable :: "sfifo \<Rightarrow> sfifo res" where
  "mv_disable f = bindE (lock_data f) (\<lambda>f. unlock_data (f\<lparr>enabled := False\<rparr>))"

definition mv_clearAll :: "sfifo \<Rightarrow> 'a link heap \<Rightarrow> (sfifo \<times> 'a link heap) res" where
  "mv_clearAll f h =
     bindE (lock_data f) (\<lambda>f.
     bindE (free_all lnext h (out_p f)) (\<lambda>h.
     bindE (unlock_data (f\<lparr>out_p := NULL, in_p := NULL, remain := 0\<rparr>)) (\<lambda>f.
     bindE (mv_unblockAll f) (\<lambda>f. Inr (f, h)))))"

definition mv_destroy :: "sfifo \<Rightarrow> 'a link heap \<Rightarrow> 'a link heap res" where
  "mv_destroy f h =
     bindE (mv_unblockAll f) (\<lambda>f.
     bindE (lock_data f) (\<lambda>f.
     bindE (free_all lnext h (out_p f)) (\<lambda>h.
     bindE (unlock_data f) (\<lambda>f. Inr h))))"

section \<open>Assignment moves out of its source\<close>

text \<open>\<^verbatim>\<open>newlink->init_link(look->d)\<close>: the value is moved, and the source link keeps \<open>moved\<close> of it.\<close>

definition mv_take :: "('a \<Rightarrow> 'a) \<Rightarrow> ptr \<Rightarrow> ptr \<Rightarrow> 'a link heap \<Rightarrow> 'a link heap res" where
  "mv_take moved newlink look h =
     bindE (load look h) (\<lambda>l.
     bindE (mv_init_link moved newlink (ldat l) h) (\<lambda>(d, h).
     modify look (\<lambda>l. l\<lparr>ldat := d\<rparr>) h))"

fun mv_copy_links :: "('a \<Rightarrow> 'a) \<Rightarrow> nat \<Rightarrow> ptr \<Rightarrow> ptr \<Rightarrow> int \<Rightarrow> 'a link heap \<Rightarrow>
    (ptr \<times> int \<times> 'a link heap) res" where
  "mv_copy_links moved 0 look prev n h =
     (if look = NULL then Inr (prev, n, h) else Inl Diverges)"
| "mv_copy_links moved (Suc k) look prev n h =
     (if look = NULL then Inr (prev, n, h)
      else let (newlink, h) = malloc h in
        bindE (mv_take moved newlink look h) (\<lambda>h.
        bindE (modify prev (\<lambda>m. m\<lparr>lnext := newlink\<rparr>) h) (\<lambda>h.
        bindE (load look h) (\<lambda>l. mv_copy_links moved k (lnext l) newlink (n + 1) h))))"

definition mv_copy_chain :: "('a \<Rightarrow> 'a) \<Rightarrow> sfifo \<Rightarrow> ptr \<Rightarrow> 'a link heap \<Rightarrow>
    (sfifo \<times> 'a link heap) res" where
  "mv_copy_chain moved f look h =
     (let f = f\<lparr>remain := 0\<rparr> in
      if look = NULL then Inl Uninit
      else let (newlink, h1) = malloc h in
        bindE (mv_take moved newlink look h1) (\<lambda>h2.
        let f = f\<lparr>out_p := newlink, remain := remain f + 1\<rparr> in
        bindE (load look h2) (\<lambda>l.
        bindE (mv_copy_links moved (heap_size h) (lnext l) newlink (remain f) h2) (\<lambda>(prev, n, h).
        Inr (f\<lparr>in_p := prev, remain := n\<rparr>, h)))))"

definition mv_assign :: "('a \<Rightarrow> 'a) \<Rightarrow> sfifo \<Rightarrow> sfifo \<Rightarrow> 'a link heap \<Rightarrow>
    (sfifo \<times> sfifo \<times> 'a link heap) res" where
  "mv_assign moved f g h =
     bindE (mv_clearAll f h) (\<lambda>(f, h).
     bindE (lock_data g) (\<lambda>g.
     bindE (lock_data f) (\<lambda>f.
     bindE (mv_copy_chain moved (f\<lparr>enabled := enabled g\<rparr>) (out_p g) h) (\<lambda>(f, h).
     bindE (unlock_data g) (\<lambda>g.
     bindE (unlock_data f) (\<lambda>f. Inr (f, g, h)))))))"

definition mv_copy :: "('a \<Rightarrow> 'a) \<Rightarrow> sfifo \<Rightarrow> 'a link heap \<Rightarrow> (sfifo \<times> sfifo \<times> 'a link heap) res" where
  "mv_copy moved g h = mv_assign moved mv_new g h"

section \<open>Iterating\<close>

definition mv_startIter :: "sfifo \<Rightarrow> (ptr \<times> sfifo) res" where
  "mv_startIter f = (let look = out_p f in bindE (lock_data f) (\<lambda>f. Inr (look, f)))"

definition mv_releaseIter :: "sfifo \<Rightarrow> (ptr \<times> sfifo) res" where
  "mv_releaseIter f = bindE (unlock_data f) (\<lambda>f. Inr (NULL, f))"

text \<open>\<open>el\<close> past the end throws, here \<open>None\<close>.\<close>

definition mv_iter_el :: "ptr \<Rightarrow> 'a link heap \<Rightarrow> 'a option res" where
  "mv_iter_el look h =
     (if look \<noteq> NULL then bindE (load look h) (\<lambda>l. Inr (Some (ldat l))) else Inr None)"

definition mv_iter_next :: "ptr \<Rightarrow> 'a link heap \<Rightarrow> ptr res" where
  "mv_iter_next look h =
     (if look \<noteq> NULL then bindE (load look h) (\<lambda>l. Inr (lnext l)) else Inr look)"

definition mv_iter_atEnd :: "ptr \<Rightarrow> bool" where
  "mv_iter_atEnd look = (if look \<noteq> NULL then False else True)"

section \<open>What the operations do\<close>

text \<open>The methods that move nothing are those of tw_safeFIFO.\<close>

lemma mv_same:
  "mv_unblock f = sfifo_unblock f" "mv_unblockAll f = sfifo_unblockAll f"
  "mv_remove f h = sfifo_remove f h" "mv_addEmpty d f h = sfifo_addEmpty d f h"
  "mv_removeOrBlock_enter f h = sfifo_removeOrBlock_enter f h"
  "mv_removeOrBlock_resume f h = sfifo_removeOrBlock_resume f h"
  "mv_removeOrBlock_timed_resume t f h = sfifo_removeOrBlock_timed_resume t f h"
  "mv_peek f h = sfifo_peek f h" "mv_peekOrBlock_enter f h = sfifo_peekOrBlock_enter f h"
  "mv_peekOrBlock_resume f h = sfifo_peekOrBlock_resume f h"
  "mv_peekOrBlock_timed_resume t f h = sfifo_peekOrBlock_timed_resume t f h"
  "mv_remaining f = sfifo_remaining f" "mv_enable f = sfifo_enable f"
  "mv_disable f = sfifo_disable f" "mv_destroy f h = sfifo_destroy f h"
  "mv_startIter f = sfifo_startIter f" "mv_releaseIter f = sfifo_releaseIter f"
proof -
  show u: "mv_unblock f = sfifo_unblock f" for f
    by (simp add: mv_unblock_def sfifo_unblock_def)
  show a: "mv_unblockAll f = sfifo_unblockAll f" for f
    by (simp add: mv_unblockAll_def sfifo_unblockAll_def)
  show "mv_addEmpty d f h = sfifo_addEmpty d f h"
    by (simp add: mv_addEmpty_def sfifo_addEmpty_def u mv_init_link_default_def init_link_default_def
        cong: if_cong)
  show "mv_destroy f h = sfifo_destroy f h"
    by (simp add: mv_destroy_def sfifo_destroy_def a)
qed (simp_all add: mv_remove_def sfifo_remove_def mv_removeOrBlock_enter_def
    sfifo_removeOrBlock_enter_def mv_removeOrBlock_resume_def sfifo_removeOrBlock_resume_def
    mv_removeOrBlock_timed_resume_def sfifo_removeOrBlock_timed_resume_def mv_peek_def sfifo_peek_def
    mv_peekOrBlock_enter_def sfifo_peekOrBlock_enter_def mv_peekOrBlock_resume_def
    sfifo_peekOrBlock_resume_def mv_peekOrBlock_timed_resume_def sfifo_peekOrBlock_timed_resume_def
    mv_remaining_def sfifo_remaining_def mv_enable_def sfifo_enable_def mv_disable_def
    sfifo_disable_def mv_startIter_def sfifo_startIter_def mv_releaseIter_def sfifo_releaseIter_def)

lemma mv_clearAll_eq: "mv_clearAll f h = sfifo_clearAll f h"
  by (simp add: mv_clearAll_def sfifo_clearAll_def mv_same)

lemma mv_init_link_eq:
  "mv_init_link moved p x h = bindE (init_link p x h) (\<lambda>h. Inr (moved x, h))"
  by (simp add: mv_init_link_def init_link_def)

lemma mv_add_eq:
  "mv_add moved x f h = bindE (sfifo_add x f h) (\<lambda>(f, h). Inr (moved x, f, h))"
  by (simp add: mv_add_def sfifo_add_def sfifo_add_locked_def mv_same mv_init_link_eq bindE_assoc
      split_def Let_def cong: if_cong)

lemma mv_add_rv_eq: "mv_add_rv moved x f h = mv_add moved x f h"
  by (simp add: mv_add_rv_def mv_add_def)

lemma link_head_any:
  assumes "0 < room h"
  shows "bindE (init_link (Suc (heap_size h)) x (grow h)) (\<lambda>h'. link_head (Suc (heap_size h)) y f h') =
    bindE (init_link (Suc (heap_size h)) y (grow h)) (\<lambda>h'. link_head (Suc (heap_size h)) y f h')"
proof -
  have "modify (Suc (heap_size h)) (\<lambda>l. l\<lparr>ldat := y\<rparr>) (new_obj \<lparr>ldat = z, lnext = NULL\<rparr> h) =
      Inr (new_obj \<lparr>ldat = y, lnext = NULL\<rparr> h)" for z
    by (simp add: modify_Obj cell_at_new) (simp add: new_obj_def put_cell_def grow_def)
  then show ?thesis by (simp add: init_link_def construct_new link_head_def)
qed

text \<open>So \<open>addToHead\<close> queues not the value it was given, but what moving it left behind.\<close>

lemma mv_addToHead_eq:
  assumes "\<not> mtx f" and "enabled f" and "0 < room h"
  shows "mv_addToHead moved x f h =
    bindE (sfifo_addToHead (moved x) f h) (\<lambda>(f, h). Inr (moved x, f, h))"
proof -
  have "malloc h = (Suc (heap_size h), grow h)" using assms(3) by (rule malloc_ok)
  moreover have "bindE (init_link (Suc (heap_size h)) x (grow h))
      (\<lambda>h'. bindE (link_head (Suc (heap_size h)) (moved x) g h') k) =
    bindE (init_link (Suc (heap_size h)) (moved x) (grow h))
      (\<lambda>h'. bindE (link_head (Suc (heap_size h)) (moved x) g h') k)"
    for g :: sfifo and k :: "sfifo \<times> 'a link heap \<Rightarrow> ('a \<times> sfifo \<times> 'a link heap) res"
    using link_head_any [OF assms(3), of x "moved x" g] by (simp flip: bindE_assoc)
  ultimately show ?thesis using assms
    by (simp add: mv_addToHead_def sfifo_addToHead_def sfifo_addToHead_locked_def mv_same
        mv_init_link_eq bindE_assoc split_def)
qed


text \<open>When moving a value leaves it as it was, assignment copies, as that of tw_safeFIFO does.\<close>

lemma modify_unchanged: "load p h = Inr c \<Longrightarrow> f c = c \<Longrightarrow> modify p f h = Inr h"
  by (cases h; cases p) (auto simp: modify_def put_cell_def load_iff cell_at_def list_update_same_conv
      split: if_splits)

lemma mv_take_id:
  assumes id: "\<And>x. moved x = x" and m: "malloc h = (p, h1)"
  shows "mv_take moved p look h1 = bindE (load look h1) (\<lambda>l. init_link p (ldat l) h1)"
proof (cases "load look h1")
  case (Inr l)
  show ?thesis
  proof (cases "room h = 0")
    case True
    with m Inr show ?thesis
      by (simp add: malloc_fails mv_take_def mv_init_link_def init_link_def)
  next
    case False
    with m have p: "p = Suc (heap_size h)" "h1 = grow h" by (simp_all add: malloc_def)
    with Inr have "load look (new_obj \<lparr>ldat = ldat l, lnext = NULL\<rparr> h) = Inr l"
      by (auto simp: load_iff cell_at_new cell_at_malloc split: if_splits)
    then have "modify look (\<lambda>m. m\<lparr>ldat := ldat l\<rparr>) (new_obj \<lparr>ldat = ldat l, lnext = NULL\<rparr> h) =
        Inr (new_obj \<lparr>ldat = ldat l, lnext = NULL\<rparr> h)"
      by (rule modify_unchanged) simp
    then show ?thesis
      using Inr id p by (simp add: mv_take_def mv_init_link_def init_link_def construct_new)
  qed
qed (simp add: mv_take_def)

lemma mv_copy_links_id:
  assumes id: "\<And>x. moved x = x"
  shows "mv_copy_links moved k look prev n h = copy_links k look prev n h"
proof (induction k arbitrary: look prev n h)
  case (Suc k)
  obtain p h1 where m: "malloc h = (p, h1)" by (cases "malloc h")
  show ?case using mv_take_id [OF id m, of look] Suc
    by (simp add: m bindE_assoc)
qed simp

lemma mv_assign_id:
  assumes id: "\<And>x. moved x = x"
  shows "mv_assign moved f g h = sfifo_assign f g h"
proof -
  have "mv_copy_chain moved f look h = copy_chain f look h" for f look h
  proof -
    obtain p h1 where m: "malloc h = (p, h1)" by (cases "malloc h")
    show ?thesis using mv_take_id [OF id m, of look] mv_copy_links_id [OF id]
      by (simp add: m mv_copy_chain_def copy_chain_def Let_def bindE_assoc)
  qed
  then show ?thesis by (simp add: mv_assign_def sfifo_assign_def mv_clearAll_eq)
qed

section \<open>tw_safeFIFOmv as a bounded queue\<close>

definition mv_put :: "('a \<Rightarrow> 'a) \<Rightarrow> 'a \<Rightarrow> 'a sfifo_state \<Rightarrow> 'a sfifo_state res" where
  "mv_put moved x s = bindE (mv_add moved x (fst s) (snd s)) (\<lambda>(x', s'). Inr s')"

definition mv_get :: "'a sfifo_state \<Rightarrow> ('a option \<times> 'a sfifo_state) res" where
  "mv_get s = mv_remove (fst s) (snd s)"

lemma mv_put_eq: "mv_put moved x s = sfifo_put x s"
  by (simp add: mv_put_def mv_add_eq sfifo_put_def bindE_assoc split_def) (simp add: bindE_def split: sum.splits)

lemma mv_get_eq: "mv_get s = sfifo_get s"
  by (simp add: mv_get_def mv_same sfifo_get_def)

interpretation mq: bounded_queue sfifo_queue sfifo_space "mv_put moved" mv_get for moved
  by unfold_locales
    (unfold mv_put_eq mv_get_eq, (erule sq.put_law sq.get_empty_law sq.get_law, assumption?)+)

section \<open>Properties\<close>

text \<open>A tw_safeFIFOmv is a first-in first-out queue of the values moved into it, whatever
  moving leaves behind in the callers' variables.\<close>
theorem mv_refines_list:
  assumes "sfifo_queue s xs" and "fits (sfifo_space s) ops (length xs)"
  shows "holds (run_ops (mv_put moved) mv_get ops s)
    (\<lambda>(rs, s'). \<exists>ys. list_ops ops xs = (rs, ys) \<and> sfifo_queue s' ys)"
  by (rule holds_mono [OF mq.run_list_ops [OF assms]]) auto

theorem mv_refines_list_witness:
  "holds (run_ops (mv_put (\<lambda>_. 0)) mv_get [Get, Put 40, Get, Get, Get] (ex_sfifo, ex_heap))
    (\<lambda>(rs, s'). \<exists>ys. list_ops [Get, Put 40, Get, Get, Get] [10, 20] = (rs, ys) \<and> sfifo_queue s' ys)"
  by (rule mv_refines_list)
    (use ex_sfifo_rep in \<open>auto simp: sfifo_queue_def sfifo_space_def ex_sfifo_def ex_heap_def\<close>)

text \<open>\<open>addToHead\<close> of tw_safeFIFOmv does not queue the value it is given: \<open>init_link\<close> has
  moved it into the new link, and the assignment that follows overwrites the link with what
  the move left behind. The value itself is lost.\<close>
theorem mv_addToHead_queues_leftover:
  assumes "sfifo_rep h f ps xs" and "enabled f" and "0 < room h"
  shows "holds (mv_addToHead moved x f h)
    (\<lambda>(v, f', h'). v = moved x \<and> sfifo_rep h' f' (Suc (heap_size h) # ps) (moved x # xs))"
  using sfifo_addToHead_rep [OF assms, of "moved x"] mv_addToHead_eq [OF _ assms(2,3), of moved x] assms(1)
  by (auto simp: sfifo_rep_def holds_iff)

theorem mv_addToHead_queues_leftover_witness:
  "holds (mv_addToHead (\<lambda>_. 0) 77 ex_sfifo ex_heap)
    (\<lambda>(v, f', h'). v = 0 \<and> sfifo_rep h' f' (4 # [1, 2]) (0 # [10, 20]))"
proof -
  have "Suc (heap_size ex_heap) = 4" by (simp add: ex_heap_def)
  moreover have "enabled ex_sfifo" "0 < room ex_heap" by (simp_all add: ex_sfifo_def ex_heap_def)
  ultimately show ?thesis
    using mv_addToHead_queues_leftover [OF ex_sfifo_rep, of "\<lambda>_. 0" 77] by metis
qed

text \<open>For a type whose values survive being moved, \<open>operator=\<close> of tw_safeFIFOmv is a deep
  copy, as that of tw_safeFIFO.\<close>
theorem mv_assign_copies:
  assumes "\<And>x. moved x = x" and "sfifo_rep h f ps xs" and "sfifo_rep h g qs ys"
    and "set ps \<inter> set qs = {}" and "ys \<noteq> []" and "length ys \<le> room h + length xs"
  shows "holds (mv_assign moved f g h) (\<lambda>(f', g', h'). (\<exists>ns. sfifo_rep h' f' ns ys) \<and>
    sfifo_rep h' g qs ys \<and> g' = g \<and> enabled f' = enabled g)"
  unfolding mv_assign_id [OF assms(1)]
  by (rule holds_mono [OF sfifo_assign_rep [OF assms(2-6)]]) auto

definition ex_sfifo_b :: sfifo where
  "ex_sfifo_b = \<lparr>enabled = True, in_p = 3, out_p = 3, remain = 1, mtx = False,
     block_cnt = 0, waiting = 0\<rparr>"

lemma ex_sfifo_b_rep: "sfifo_rep ex_heap ex_sfifo_b [3] [30]"
  by (simp add: sfifo_rep_def fifo_rep_def ex_heap_def ex_sfifo_b_def cell_at_def obj_at_def
      numeral_3_eq_3)

theorem mv_assign_copies_witness:
  "holds (mv_assign (\<lambda>x. x) ex_sfifo_b ex_sfifo ex_heap) (\<lambda>(f', g', h').
    (\<exists>ns. sfifo_rep h' f' ns [10, 20]) \<and> sfifo_rep h' ex_sfifo [1, 2] [10, 20] \<and>
    g' = ex_sfifo \<and> enabled f' = enabled ex_sfifo)"
  by (rule mv_assign_copies [OF _ ex_sfifo_b_rep ex_sfifo_rep]) (simp_all add: ex_heap_def)

text \<open>For other types it is not: the elements of the (constant) source are moved out.\<close>

lemma mv_assign_steals:
  "holds (mv_assign (\<lambda>_. (0::nat)) ex_sfifo ex_sfifo_b ex_heap)
    (\<lambda>(f', g', h'). out_p f' = 4 \<and> out_p g' = 3 \<and>
      mem h' = [Freed, Freed, Obj \<lparr>ldat = 0, lnext = NULL\<rparr>, Obj \<lparr>ldat = 30, lnext = NULL\<rparr>])"
  by code_simp

end
