(* ===== verification/TW_Utils.thy ===== *)
theory TW_Utils
  imports TW_Prelude
begin

text \<open>
  The functions of tw_utils.cpp and the class TimeVal of include/TW/tw_utils.h: times in
  microseconds, numbers as text, the hash of Hsieh.

  The fields of \<^verbatim>\<open>struct timeval\<close> and \<^verbatim>\<open>struct timespec\<close> are 64-bit signed integers, here
  \<open>int\<close>: a sum that left their range would be undefined in C++. Division and remainder round
  towards zero (\<open>sdiv\<close> and \<open>smod\<close> of Signed_Division). The clock is an argument.
\<close>

section \<open>Times\<close>

record timeval =
  tv_sec :: int
  tv_usec :: int

record timespec =
  ts_sec :: int
  ts_nsec :: int

definition usec_to_timeval :: "int \<Rightarrow> timeval \<Rightarrow> timeval" where
  "usec_to_timeval usec tv = tv\<lparr>tv_sec := usec sdiv 1000000, tv_usec := usec smod 1000000\<rparr>"

definition add_usec_to_timeval :: "int \<Rightarrow> timeval \<Rightarrow> timeval" where
  "add_usec_to_timeval usec tv =
     (let tv = tv\<lparr>tv_sec := tv_sec tv + usec sdiv 1000000\<rparr>
      in tv\<lparr>tv_usec := tv_usec tv + usec smod 1000000\<rparr>)"

definition timeval_to_timespec :: "timeval \<Rightarrow> timespec \<Rightarrow> timespec" where
  "timeval_to_timespec tv ts =
     (let ts = ts\<lparr>ts_sec := tv_sec tv\<rparr>;
          ts = ts\<lparr>ts_nsec := tv_usec tv * 1000\<rparr>;
          ts = ts\<lparr>ts_sec := ts_sec ts + ts_nsec ts sdiv 1000000000\<rparr>
      in ts\<lparr>ts_nsec := ts_nsec ts smod 1000000000\<rparr>)"

text \<open>TimeVal holds one time in both formats; \<open>timespec\<close> brings the second up to date.\<close>

record TimeVal =
  tv_val :: timeval
  tv_spec :: timespec

definition TimeVal_copy :: "TimeVal \<Rightarrow> TimeVal" where
  "TimeVal_copy t = \<lparr>tv_val = tv_val t, tv_spec = tv_spec t\<rparr>"

definition TimeVal_setInterval :: "int \<Rightarrow> TimeVal \<Rightarrow> TimeVal" where
  "TimeVal_setInterval usec t =
     (let t = t\<lparr>tv_val := \<lparr>tv_sec = 0, tv_usec = 0\<rparr>\<rparr>
      in t\<lparr>tv_val := usec_to_timeval usec (tv_val t)\<rparr>)"

definition TimeVal_addUsec :: "int \<Rightarrow> TimeVal \<Rightarrow> TimeVal" where
  "TimeVal_addUsec usec t = t\<lparr>tv_val := add_usec_to_timeval usec (tv_val t)\<rparr>"

definition TimeVal_gettimeofday :: "timeval \<Rightarrow> TimeVal \<Rightarrow> TimeVal" where
  "TimeVal_gettimeofday now t = t\<lparr>tv_val := now\<rparr>"

definition TimeVal_timespec :: "TimeVal \<Rightarrow> timespec \<times> TimeVal" where
  "TimeVal_timespec t = (let t = t\<lparr>tv_spec := timeval_to_timespec (tv_val t) (tv_spec t)\<rparr>
     in (tv_spec t, t))"

text \<open>The value of a time in microseconds and nanoseconds.\<close>

definition usecs :: "timeval \<Rightarrow> int" where
  "usecs tv = tv_sec tv * 1000000 + tv_usec tv"

definition nsecs :: "timespec \<Rightarrow> int" where
  "nsecs ts = ts_sec ts * 1000000000 + ts_nsec ts"

definition valid_timespec :: "timespec \<Rightarrow> bool" where
  "valid_timespec ts \<longleftrightarrow> 0 \<le> ts_nsec ts \<and> ts_nsec ts < 1000000000"

lemma sdiv_smod: "(x::int) sdiv n * n + x smod n = x"
  by (rule sdiv_mult_smod_eq)

lemma smod_small_abs: "0 < n \<Longrightarrow> \<bar>(x::int) smod n\<bar> < n"
  using smod_int_range [where a = x and b = n] by auto

lemma usecs_usec_to_timeval: "usecs (usec_to_timeval usec tv) = usec"
  using sdiv_smod [of usec 1000000] by (simp add: usecs_def usec_to_timeval_def)

lemma usecs_add: "usecs (add_usec_to_timeval usec tv) = usecs tv + usec"
  using sdiv_smod [of usec 1000000]
  by (simp add: usecs_def add_usec_to_timeval_def Let_def algebra_simps)

lemma nsecs_timeval_to_timespec: "nsecs (timeval_to_timespec tv ts) = usecs tv * 1000"
  using sdiv_smod [of "tv_usec tv * 1000" 1000000000]
  by (simp add: usecs_def nsecs_def timeval_to_timespec_def Let_def algebra_simps)


section \<open>Numbers as text\<close>

definition digit :: "nat \<Rightarrow> char" where
  "digit n = ''0123456789abcdef'' ! n"

function to_base :: "nat \<Rightarrow> nat \<Rightarrow> string" where
  "to_base b n = (if n < b \<or> b < 2 then [digit n] else to_base b (n div b) @ [digit (n mod b)])"
  by pat_completeness auto
termination by (relation "measure snd") auto

declare to_base.simps [simp del]

text \<open>\<^verbatim>\<open>snprintf(s, cap, ...)\<close> writes at most \<open>cap - 1\<close> characters and a terminating zero.\<close>

definition snprintf :: "nat \<Rightarrow> string \<Rightarrow> string" where
  "snprintf cap txt = (if cap = 0 then [] else take (cap - 1) txt @ [CHR 0x00])"

definition convInt :: "32 word \<Rightarrow> nat \<Rightarrow> string" where
  "convInt v cap = snprintf cap
     (if sint v < 0 then CHR ''-'' # to_base 10 (nat (- sint v)) else to_base 10 (nat (sint v)))"

definition convIntHex :: "32 word \<Rightarrow> nat \<Rightarrow> string" where
  "convIntHex v cap = snprintf cap (to_base 16 (unat v))"

text \<open>\<open>string_printf\<close>: \<open>txt\<close> is the formatted text; the buffer has 100 bytes.\<close>

definition string_printf :: "string \<Rightarrow> string" where
  "string_printf txt = takeWhile (\<lambda>c. c \<noteq> CHR 0x00) (snprintf 100 txt)"

text \<open>\<open>hexDumpToString\<close> prints \<^verbatim>\<open>(int)*walkp\<close> in hexadecimal: a \<^verbatim>\<open>char\<close> is signed.\<close>

definition hex_of_char :: "8 word \<Rightarrow> string" where
  "hex_of_char w = to_base 16 (unat (signed_take_bit 7 (ucast w) :: 32 word))"

fun hexDump_loop :: "bool \<Rightarrow> 8 word list \<Rightarrow> string" where
  "hexDump_loop first [] = []"
| "hexDump_loop first (w # ws) = (if first then [] else '','') @ hex_of_char w @ hexDump_loop False ws"

definition hexDumpToString :: "8 word list \<Rightarrow> string" where
  "hexDumpToString ws = ''DUMP('' @ to_base 10 (length ws) @ '')['' @ hexDump_loop True ws @ '']''"

section \<open>The hash of Hsieh\<close>

text \<open>\<^verbatim>\<open>get16bits\<close> reads two bytes, the lower one first; \<^verbatim>\<open>char\<close> is signed.\<close>

definition get16bits :: "8 word \<Rightarrow> 8 word \<Rightarrow> 32 word" where
  "get16bits a b = ucast a + push_bit 8 (ucast b)"

fun hsieh_loop :: "nat \<Rightarrow> 8 word list \<Rightarrow> 32 word \<Rightarrow> (8 word list \<times> 32 word) res" where
  "hsieh_loop 0 dat hash = Inr (dat, hash)"
| "hsieh_loop (Suc n) (a # b # c # d # dat) hash =
     (let hash = hash + get16bits a b;
          tmp = xor (push_bit 11 (get16bits c d)) hash;
          hash = xor (push_bit 16 hash) tmp
      in hsieh_loop n dat (hash + drop_bit 11 hash))"
| "hsieh_loop (Suc n) dat hash = Inl OutOfBounds"

fun hsieh_tail :: "nat \<Rightarrow> 8 word list \<Rightarrow> 32 word \<Rightarrow> 32 word res" where
  "hsieh_tail (Suc (Suc (Suc 0))) (a # b # c # dat) hash =
     (let hash = hash + get16bits a b;
          hash = xor hash (push_bit 16 hash);
          hash = xor hash (push_bit 18 (signed_take_bit 7 (ucast c)))
      in Inr (hash + drop_bit 11 hash))"
| "hsieh_tail (Suc (Suc 0)) (a # b # dat) hash =
     (let hash = hash + get16bits a b;
          hash = xor hash (push_bit 11 hash)
      in Inr (hash + drop_bit 17 hash))"
| "hsieh_tail (Suc 0) (a # dat) hash =
     (let hash = hash + signed_take_bit 7 (ucast a);
          hash = xor hash (push_bit 10 hash)
      in Inr (hash + drop_bit 1 hash))"
| "hsieh_tail 0 dat hash = Inr hash"
| "hsieh_tail _ dat hash = Inl OutOfBounds"

definition hsieh_avalanche :: "32 word \<Rightarrow> 32 word" where
  "hsieh_avalanche hash =
     (let hash = xor hash (push_bit 3 hash);
          hash = hash + drop_bit 5 hash;
          hash = xor hash (push_bit 4 hash);
          hash = hash + drop_bit 17 hash;
          hash = xor hash (push_bit 25 hash)
      in hash + drop_bit 6 hash)"

definition data_hash_Hsieh :: "8 word list option \<Rightarrow> 32 word \<Rightarrow> 32 word res" where
  "data_hash_Hsieh dat len =
     (if sint len \<le> 0 then Inr 0
      else case dat of None \<Rightarrow> Inr 0
        | Some bytes \<Rightarrow>
            bindE (hsieh_loop (unat len div 4) bytes len) (\<lambda>(rest, hash).
            bindE (hsieh_tail (unat len mod 4) rest hash) (\<lambda>hash.
            Inr (hsieh_avalanche hash))))"

text \<open>What a C string holds up to its zero.\<close>

definition c_string :: "string \<Rightarrow> string" where
  "c_string = takeWhile (\<lambda>c. c \<noteq> CHR 0x00)"

section \<open>What the functions compute\<close>

lemma unat_sint_pos:
  fixes w :: "32 word"
  assumes "0 \<le> sint w"
  shows "unat w = nat (sint w)"
proof -
  have "sint w < 2 ^ 31" using sint_lt [of w] by simp
  with assms have "take_bit 32 (sint w) = sint w" by (intro take_bit_int_eq_self) simp_all
  then have "uint w = sint w" by (simp add: uint_sint)
  then show ?thesis by (simp add: unat_eq_nat_uint)
qed

text \<open>The hash of a block of memory reads exactly the block.\<close>

lemma hsieh_loop_reads:
  "4 * n \<le> length xs \<Longrightarrow> \<exists>h. \<forall>ys. hsieh_loop n (xs @ ys) hash = Inr (drop (4 * n) xs @ ys, h)"
proof (induction n xs hash rule: hsieh_loop.induct)
  case (2 n a b c d dat hash)
  have "drop (4 * Suc n) (a # b # c # d # dat) = drop (4 * n) dat"
    by (simp add: eval_nat_numeral)
  with 2 show ?case unfolding append_Cons hsieh_loop.simps(2) Let_def by simp
qed auto

lemma hsieh_tail_reads:
  "n < 4 \<Longrightarrow> n \<le> length xs \<Longrightarrow> \<exists>h. \<forall>ys. hsieh_tail n (xs @ ys) hash = Inr h"
  by (induction n xs hash rule: hsieh_tail.induct) (auto simp: Let_def)

lemma hsieh_reads:
  assumes "sint len \<le> int (length xs)"
  shows "\<exists>h. \<forall>ys. data_hash_Hsieh (Some (xs @ ys)) len = Inr h"
proof (cases "sint len \<le> 0")
  case True
  then show ?thesis by (simp add: data_hash_Hsieh_def)
next
  case False
  then have "unat len = nat (sint len)" by (simp add: unat_sint_pos)
  then have len: "unat len \<le> length xs" using assms by simp
  then have "4 * (unat len div 4) \<le> length xs" by simp
  from hsieh_loop_reads [OF this] obtain h1 where h1:
    "\<And>ys. hsieh_loop (unat len div 4) (xs @ ys) len = Inr (drop (4 * (unat len div 4)) xs @ ys, h1)"
    by blast
  have "unat len mod 4 \<le> length (drop (4 * (unat len div 4)) xs)"
    using len by (simp add: minus_mult_div_eq_mod flip: minus_mult_div_eq_mod)
  from hsieh_tail_reads [OF _ this] obtain h2 where
    "\<And>ys. hsieh_tail (unat len mod 4) (drop (4 * (unat len div 4)) xs @ ys) h1 = Inr h2"
    by (metis mod_less_divisor zero_less_numeral)
  with False h1 show ?thesis by (simp add: data_hash_Hsieh_def)
qed


subsection \<open>Numbers as text can be read back\<close>

definition digit_val :: "char \<Rightarrow> nat" where
  "digit_val c = length (takeWhile (\<lambda>d. d \<noteq> c) ''0123456789abcdef'')"

definition from_base :: "nat \<Rightarrow> string \<Rightarrow> nat" where
  "from_base b txt = foldl (\<lambda>n c. b * n + digit_val c) 0 txt"

definition read_int :: "string \<Rightarrow> int" where
  "read_int txt = (if take 1 txt = ''-'' then - int (from_base 10 (drop 1 txt))
     else int (from_base 10 txt))"

lemma digits_ok: "\<forall>n\<in>set [0..<16]. digit_val (digit n) = n \<and> digit n \<noteq> CHR ''-''"
  by code_simp

lemma digit_val_digit: "n < 16 \<Longrightarrow> digit_val (digit n) = n"
  using digits_ok by (simp only: atLeastLessThan_iff set_upt Ball_def) simp

lemma digit_not_minus: "n < 16 \<Longrightarrow> digit n \<noteq> CHR ''-''"
  using digits_ok by (simp only: atLeastLessThan_iff set_upt Ball_def) simp

lemma from_base_to_base:
  assumes "2 \<le> b" and "b \<le> 16"
  shows "from_base b (to_base b n) = n"
  using assms
proof (induction b n rule: to_base.induct)
  case (1 b n)
  show ?case
  proof (cases "n < b")
    case True
    then have "to_base b n = [digit n]" by (simp add: to_base.simps)
    with True 1 show ?thesis by (simp add: from_base_def digit_val_digit)
  next
    case False
    then have "to_base b n = to_base b (n div b) @ [digit (n mod b)]"
      using 1 by (simp add: to_base.simps [of b n])
    moreover have "n mod b < b" using 1 by simp
    then have "digit_val (digit (n mod b)) = n mod b" using 1 by (intro digit_val_digit) linarith
    moreover have "from_base b (to_base b (n div b)) = n div b" using 1 False by simp
    ultimately show ?thesis by (simp add: from_base_def)
  qed
qed

lemma to_base_first_not_minus:
  assumes "2 \<le> b" and "b \<le> 16"
  shows "take 1 (to_base b n) \<noteq> ''-'' \<and> to_base b n \<noteq> []"
  using assms
proof (induction b n rule: to_base.induct)
  case (1 b n)
  show ?case
  proof (cases "n < b")
    case True
    then have "to_base b n = [digit n]" by (simp add: to_base.simps)
    with True 1 show ?thesis by (simp add: digit_not_minus)
  next
    case False
    then have "to_base b n = to_base b (n div b) @ [digit (n mod b)]"
      using 1 by (simp add: to_base.simps [of b n])
    moreover have "take 1 (to_base b (n div b)) \<noteq> ''-'' \<and> to_base b (n div b) \<noteq> []"
      using 1 False by auto
    ultimately show ?thesis by (cases "to_base b (n div b)") auto
  qed
qed

lemma length_to_base: "2 \<le> b \<Longrightarrow> 0 < k \<Longrightarrow> n < b ^ k \<Longrightarrow> length (to_base b n) \<le> k"
proof (induction b n arbitrary: k rule: to_base.induct)
  case (1 b n)
  show ?case
  proof (cases "n < b")
    case True
    with 1 show ?thesis by (subst to_base.simps) auto
  next
    case False
    have "k \<noteq> 1" using False 1 by auto
    then obtain j where j: "k = Suc j" "0 < j" using 1 by (cases k) auto
    then have "n div b < b ^ j" using 1 by (simp add: less_mult_imp_div_less mult.commute)
    with 1 False j show ?thesis by (subst to_base.simps) auto
  qed
qed

section \<open>Properties\<close>

text \<open>The deadline a timed wait computes from the clock (\<open>add_usec_to_timeval\<close>, then
  \<open>timeval_to_timespec\<close>) lies exactly \<open>usec\<close> microseconds ahead, and for waits that are not
  negative it is a valid \<^verbatim>\<open>timespec\<close>, although the intermediate \<^verbatim>\<open>timeval\<close> may hold more
  than 999999 microseconds.\<close>
theorem deadline_exact:
  assumes "0 \<le> tv_usec now" and "tv_usec now < 1000000" and "0 \<le> usec"
  shows "nsecs (timeval_to_timespec (add_usec_to_timeval usec now) ts) = (usecs now + usec) * 1000 \<and>
    valid_timespec (timeval_to_timespec (add_usec_to_timeval usec now) ts)"
proof -
  have "0 \<le> tv_usec (add_usec_to_timeval usec now)"
    using assms smod_int_compares(2) [of usec 1000000] by (simp add: add_usec_to_timeval_def Let_def)
  then have "valid_timespec (timeval_to_timespec (add_usec_to_timeval usec now) ts)"
    by (simp add: valid_timespec_def timeval_to_timespec_def Let_def smod_int_compares)
  then show ?thesis by (simp add: nsecs_timeval_to_timespec usecs_add)
qed

theorem deadline_exact_witness:
  "nsecs (timeval_to_timespec (add_usec_to_timeval 2500000 \<lparr>tv_sec = 7, tv_usec = 900000\<rparr>)
      \<lparr>ts_sec = 0, ts_nsec = 0\<rparr>) = (usecs \<lparr>tv_sec = 7, tv_usec = 900000\<rparr> + 2500000) * 1000 \<and>
    valid_timespec (timeval_to_timespec (add_usec_to_timeval 2500000 \<lparr>tv_sec = 7, tv_usec = 900000\<rparr>)
      \<lparr>ts_sec = 0, ts_nsec = 0\<rparr>)"
  by (rule deadline_exact) simp_all

text \<open>A negative wait can give a deadline that is not valid.\<close>

lemma deadline_negative:
  "\<not> valid_timespec (timeval_to_timespec (add_usec_to_timeval (- 200) \<lparr>tv_sec = 7, tv_usec = 100\<rparr>) ts)"
  by (simp add: valid_timespec_def timeval_to_timespec_def add_usec_to_timeval_def Let_def)

text \<open>\<open>data_hash_Hsieh\<close> of \<open>len\<close> bytes reads no byte outside the block, so it has a result
  and the result depends on nothing that follows the block in memory.\<close>
theorem hash_reads_block_only:
  assumes "sint len \<le> int (length block)"
  shows "\<exists>h. data_hash_Hsieh (Some block) len = Inr h \<and> data_hash_Hsieh (Some (block @ rest)) len = Inr h"
  using hsieh_reads [OF assms] by (metis append_Nil2)

theorem hash_reads_block_only_witness:
  "\<exists>h. data_hash_Hsieh (Some [1, 2, 3, 4, 5, 6, 200]) 7 = Inr h \<and>
    data_hash_Hsieh (Some ([1, 2, 3, 4, 5, 6, 200] @ [9])) 7 = Inr h"
  by (rule hash_reads_block_only) simp

text \<open>C40. \<open>convInt\<close> with a buffer of at least 12 bytes writes the whole number and a
  terminating zero, and reading the text back gives the number.\<close>
theorem convInt_roundtrip:
  assumes "12 \<le> cap"
  shows "\<exists>txt. convInt v cap = txt @ [CHR 0x00] \<and> read_int txt = sint v"
proof -
  let ?n = "nat \<bar>sint v\<bar>"
  let ?txt = "if sint v < 0 then CHR ''-'' # to_base 10 ?n else to_base 10 ?n"
  have "\<bar>sint v\<bar> \<le> 2 ^ 31" using sint_lt [of v] sint_ge [of v] by auto
  then have "?n < 10 ^ 10" by simp
  from length_to_base [OF _ _ this] have "length ?txt \<le> 11"
    by (cases "sint v < 0") auto
  then have "convInt v cap = ?txt @ [CHR 0x00]"
    using assms by (auto simp: convInt_def snprintf_def)
  moreover have "read_int ?txt = sint v"
    using to_base_first_not_minus [of 10 ?n] by (auto simp: read_int_def from_base_to_base)
  ultimately show ?thesis by blast
qed

theorem convInt_roundtrip_witness:
  "\<exists>txt. convInt (- 2147483648) 12 = txt @ [CHR 0x00] \<and> read_int txt = sint (- 2147483648 :: 32 word)"
  by (rule convInt_roundtrip) simp

end
