(* ===== verification/TW_Sema.thy ===== *)
theory TW_Sema
  imports TW_Counting TW_Utils
begin

text \<open>
  The class TW_Sema of include/TW/tw_sema.h: a counting semaphore from a mutex and a
  condition variable.

  The object is its counter, the mutex and the number of threads that wait on the condition
  variable. A call that may wait is cut at \<^verbatim>\<open>pthread_cond_wait\<close>; the untimed \<open>acquire\<close> is
  cut once more where it gives the mutex up, and again inside the \<^verbatim>\<open>cnt--\<close> that follows: without
  the mutex, reading the counter and writing it back are two steps of which other threads can
  run between.
\<close>

section \<open>The object\<close>

record sema =
  sem_cnt :: int
  sem_mtx :: bool
  sem_waiting :: nat

definition sema_new :: "int \<Rightarrow> sema" where
  "sema_new init_count = \<lparr>sem_cnt = init_count, sem_mtx = False, sem_waiting = 0\<rparr>"

definition sema_lock :: "sema \<Rightarrow> sema res" where
  "sema_lock s = bindE (mutex_lock (sem_mtx s)) (\<lambda>m. Inr (s\<lparr>sem_mtx := m\<rparr>))"

definition sema_unlock :: "sema \<Rightarrow> sema res" where
  "sema_unlock s = bindE (mutex_unlock (sem_mtx s)) (\<lambda>m. Inr (s\<lparr>sem_mtx := m\<rparr>))"

definition sema_sleep :: "sema \<Rightarrow> sema res" where
  "sema_sleep s = bindE (sema_unlock s) (\<lambda>s. Inr (s\<lparr>sem_waiting := Suc (sem_waiting s)\<rparr>))"

text \<open>Both calls return 0: the condition variable is initialised.\<close>

definition sema_cond_signal :: "sema \<Rightarrow> int \<times> sema" where
  "sema_cond_signal s = (0, s\<lparr>sem_waiting := sem_waiting s - 1\<rparr>)"

definition sema_cond_broadcast :: "sema \<Rightarrow> int \<times> sema" where
  "sema_cond_broadcast s = (0, s\<lparr>sem_waiting := 0\<rparr>)"

section \<open>acquire\<close>

text \<open>The loop, with the mutex held: sleep while there is no unit. \<open>r\<close> is the value of \<open>ret\<close>,
  0 or what the last wait returned. \<open>Done\<close>: the mutex is free again, the counter not yet
  decremented.\<close>

definition sema_acquire_loop :: "int \<Rightarrow> sema \<Rightarrow> (int progress \<times> sema) res" where
  "sema_acquire_loop r s =
     (if sem_cnt s < 1 then bindE (sema_sleep s) (\<lambda>s. Inr (Blocked, s))
      else bindE (sema_unlock s) (\<lambda>s. Inr (Done r, s)))"

definition sema_acquire_enter :: "sema \<Rightarrow> (int progress \<times> sema) res" where
  "sema_acquire_enter s = bindE (sema_lock s) (sema_acquire_loop 0)"

definition sema_acquire_resume :: "int \<Rightarrow> sema \<Rightarrow> (int progress \<times> sema) res" where
  "sema_acquire_resume r s = bindE (sema_lock s) (sema_acquire_loop r)"

text \<open>\<^verbatim>\<open>cnt--\<close>: the counter is read, and what was read less one is written. \<open>sema_acquire_finish\<close>
  is both, with nothing between.\<close>

definition sema_load :: "sema \<Rightarrow> int" where
  "sema_load s = sem_cnt s"

definition sema_store :: "int \<Rightarrow> sema \<Rightarrow> sema" where
  "sema_store v s = s\<lparr>sem_cnt := v - 1\<rparr>"

definition sema_acquire_finish :: "sema \<Rightarrow> sema" where
  "sema_acquire_finish s = sema_store (sema_load s) s"

text \<open>The whole call, when no other thread runs between its parts.\<close>

definition sema_acquire :: "sema \<Rightarrow> (int progress \<times> sema) res" where
  "sema_acquire s = bindE (sema_acquire_enter s) (\<lambda>(p, s). case p of
       Done r \<Rightarrow> Inr (Done r, sema_acquire_finish s) | Blocked \<Rightarrow> Inr (Blocked, s))"

definition sema_acquire_again :: "int \<Rightarrow> sema \<Rightarrow> (int progress \<times> sema) res" where
  "sema_acquire_again r s = bindE (sema_acquire_resume r s) (\<lambda>(p, s). case p of
       Done r \<Rightarrow> Inr (Done r, sema_acquire_finish s) | Blocked \<Rightarrow> Inr (Blocked, s))"

text \<open>The timed \<open>acquire\<close> decrements the counter only after a wait that was not in vain;
  \<open>ret\<close> is what \<^verbatim>\<open>pthread_cond_timedwait\<close> returned.\<close>

definition sema_acquire_timed_enter :: "sema \<Rightarrow> (int progress \<times> sema) res" where
  "sema_acquire_timed_enter s =
     bindE (sema_lock s) (\<lambda>s.
     if sem_cnt s < 1 then bindE (sema_sleep s) (\<lambda>s. Inr (Blocked, s))
     else bindE (sema_unlock s) (\<lambda>s. Inr (Done 0, s)))"

definition sema_acquire_timed_resume :: "int \<Rightarrow> sema \<Rightarrow> (int \<times> sema) res" where
  "sema_acquire_timed_resume ret s =
     bindE (sema_lock s) (\<lambda>s.
     let s = (if ret = 0 then s\<lparr>sem_cnt := sem_cnt s - 1\<rparr> else s)
     in bindE (sema_unlock s) (\<lambda>s. Inr (ret, s)))"

text \<open>\<^verbatim>\<open>acquire(usec_wait)\<close> computes its deadline from the clock and goes on as the timed one.\<close>

definition sema_acquire_usec_enter :: "timeval \<Rightarrow> int \<Rightarrow> timespec \<Rightarrow> sema \<Rightarrow>
    (timespec \<times> int progress \<times> sema) res" where
  "sema_acquire_usec_enter now usec_wait ts s =
     (let tv = add_usec_to_timeval usec_wait now; ts = timeval_to_timespec tv ts
      in bindE (sema_acquire_timed_enter s) (\<lambda>(p, s). Inr (ts, p, s)))"

section \<open>release and the rest\<close>

definition sema_release :: "sema \<Rightarrow> (int \<times> sema) res" where
  "sema_release s =
     bindE (sema_lock s) (\<lambda>s.
     let s = s\<lparr>sem_cnt := sem_cnt s + 1\<rparr>;
         (ret, s) = (if 0 < sem_cnt s then sema_cond_signal s else (0, s))
     in bindE (sema_unlock s) (\<lambda>s. Inr (ret, s)))"

definition sema_releaseAll :: "sema \<Rightarrow> (int \<times> sema) res" where
  "sema_releaseAll s =
     bindE (sema_lock s) (\<lambda>s.
     let s = s\<lparr>sem_cnt := sem_cnt s + 1\<rparr>;
         (ret, s) = (if 0 < sem_cnt s then sema_cond_broadcast s else (0, s))
     in bindE (sema_unlock s) (\<lambda>s. Inr (ret, s)))"

definition sema_count :: "sema \<Rightarrow> (int \<times> sema) res" where
  "sema_count s = bindE (sema_lock s) (\<lambda>s. let ret = sem_cnt s in
     bindE (sema_unlock s) (\<lambda>s. Inr (ret, s)))"

definition sema_destroy :: "sema \<Rightarrow> unit res" where
  "sema_destroy s = bindE (sema_lock s) (\<lambda>s. let (_, s) = sema_cond_broadcast s in
     bindE (sema_unlock s) (\<lambda>s. Inr ()))"

section \<open>What one thread sees\<close>

lemmas sema_finish_defs = sema_acquire_finish_def sema_load_def sema_store_def

lemma sema_lock_simps [simp]:
  "\<not> sem_mtx s \<Longrightarrow> sema_lock s = Inr (s\<lparr>sem_mtx := True\<rparr>)"
  "sem_mtx s \<Longrightarrow> sema_lock s = Inl SelfDeadlock"
  "sem_mtx s \<Longrightarrow> sema_unlock s = Inr (s\<lparr>sem_mtx := False\<rparr>)"
  "\<not> sem_mtx s \<Longrightarrow> sema_unlock s = Inl NotLocked"
  by (simp_all add: sema_lock_def sema_unlock_def)

lemma sema_restore [simp]: "\<not> sem_mtx s \<Longrightarrow> s\<lparr>sem_mtx := False\<rparr> = s"
  by (cases s) simp

lemma sema_acquire_enter_eq:
  "\<not> sem_mtx s \<Longrightarrow> sema_acquire_enter s = Inr (if sem_cnt s < 1
     then (Blocked, s\<lparr>sem_waiting := Suc (sem_waiting s)\<rparr>) else (Done 0, s))"
  by (cases s) (simp add: sema_acquire_enter_def sema_acquire_loop_def sema_sleep_def)

lemma sema_acquire_resume_eq:
  "\<not> sem_mtx s \<Longrightarrow> sema_acquire_resume r s = Inr (if sem_cnt s < 1
     then (Blocked, s\<lparr>sem_waiting := Suc (sem_waiting s)\<rparr>) else (Done r, s))"
  by (cases s) (simp add: sema_acquire_resume_def sema_acquire_loop_def sema_sleep_def)

lemma sema_release_eq:
  "\<not> sem_mtx s \<Longrightarrow> sema_release s = Inr (0, if 0 \<le> sem_cnt s
     then s\<lparr>sem_cnt := sem_cnt s + 1, sem_waiting := sem_waiting s - 1\<rparr>
     else s\<lparr>sem_cnt := sem_cnt s + 1\<rparr>)"
  by (cases s) (simp add: sema_release_def sema_cond_signal_def Let_def)

lemma sema_acquire_eq:
  "\<not> sem_mtx s \<Longrightarrow> sema_acquire s = Inr (if sem_cnt s < 1
     then (Blocked, s\<lparr>sem_waiting := Suc (sem_waiting s)\<rparr>)
     else (Done 0, s\<lparr>sem_cnt := sem_cnt s - 1\<rparr>))"
  by (simp add: sema_acquire_def sema_acquire_enter_eq sema_finish_defs)

lemma sema_acquire_again_eq:
  "\<not> sem_mtx s \<Longrightarrow> sema_acquire_again r s = Inr (if sem_cnt s < 1
     then (Blocked, s\<lparr>sem_waiting := Suc (sem_waiting s)\<rparr>)
     else (Done r, s\<lparr>sem_cnt := sem_cnt s - 1\<rparr>))"
  by (simp add: sema_acquire_again_def sema_acquire_resume_eq sema_finish_defs)

lemma sema_acquire_timed_eq:
  "\<not> sem_mtx s \<Longrightarrow> sema_acquire_timed_enter s = Inr (if sem_cnt s < 1
     then (Blocked, s\<lparr>sem_waiting := Suc (sem_waiting s)\<rparr>) else (Done 0, s))"
  "\<not> sem_mtx s \<Longrightarrow> sema_acquire_timed_resume ret s =
     Inr (ret, if ret = 0 then s\<lparr>sem_cnt := sem_cnt s - 1\<rparr> else s)"
  by (cases s; simp add: sema_acquire_timed_enter_def sema_acquire_timed_resume_def sema_sleep_def Let_def)+

lemma sema_count_eq: "\<not> sem_mtx s \<Longrightarrow> sema_count s = Inr (sem_cnt s, s)"
  by (simp add: sema_count_def Let_def)

lemma sema_releaseAll_eq:
  "\<not> sem_mtx s \<Longrightarrow> 0 \<le> sem_cnt s \<Longrightarrow>
     sema_releaseAll s = Inr (0, s\<lparr>sem_cnt := sem_cnt s + 1, sem_waiting := 0\<rparr>)"
  by (cases s) (simp add: sema_releaseAll_def sema_cond_broadcast_def Let_def)

interpretation ts: counting_sema "\<lambda>s. \<not> sem_mtx s" sem_cnt sema_acquire sema_release
  by unfold_locales (auto simp: sema_acquire_eq sema_release_eq)

section \<open>Threads that share a semaphore\<close>

text \<open>
  A thread holds a unit or not, sleeps, is awake again, has given the mutex up at the end of
  \<open>acquire\<close>, or is inside the decrement with the value it has read. Threads here use
  \<open>acquire\<close> and \<open>release\<close>; only a thread that holds a unit releases one.
\<close>

datatype sthread = Out | SemaAsleep | SemaAwake | Passed | Loaded int | Holding

record ssys =
  sem :: sema
  sths :: "sthread list"

definition ssys_init :: "int \<Rightarrow> nat \<Rightarrow> ssys" where
  "ssys_init n k = \<lparr>sem = sema_new n, sths = replicate k Out\<rparr>"

definition s_at :: "ssys \<Rightarrow> nat \<Rightarrow> sthread \<Rightarrow> bool" where
  "s_at s t c \<longleftrightarrow> t < length (sths s) \<and> sths s ! t = c"

definition s_go :: "nat \<Rightarrow> sthread \<Rightarrow> sema \<Rightarrow> sthread list \<Rightarrow> ssys" where
  "s_go t c m ts = \<lparr>sem = m, sths = ts[t := c]\<rparr>"

fun s_next :: "int progress \<Rightarrow> sthread" where
  "s_next (Done r) = Passed"
| "s_next Blocked = SemaAsleep"

inductive s_step :: "ssys \<Rightarrow> ssys \<Rightarrow> bool" where
  s_enter: "s_at s t Out \<Longrightarrow> sema_acquire_enter (sem s) = Inr (p, m) \<Longrightarrow>
    s_step s (s_go t (s_next p) m (sths s))"
| s_resume: "s_at s t SemaAwake \<Longrightarrow> sema_acquire_resume 0 (sem s) = Inr (p, m) \<Longrightarrow>
    s_step s (s_go t (s_next p) m (sths s))"
| s_load: "s_at s t Passed \<Longrightarrow>
    s_step s (s_go t (Loaded (sema_load (sem s))) (sem s) (sths s))"
| s_store: "s_at s t (Loaded v) \<Longrightarrow>
    s_step s (s_go t Holding (sema_store v (sem s)) (sths s))"
| s_release: "s_at s t Holding \<Longrightarrow> sema_release (sem s) = Inr (r, m) \<Longrightarrow>
    sem_waiting (sem s) = 0 \<or> sem_cnt (sem s) < 0 \<Longrightarrow>
    s_step s (s_go t Out m (sths s))"
| s_release_wake: "s_at s t Holding \<Longrightarrow> sema_release (sem s) = Inr (r, m) \<Longrightarrow>
    0 \<le> sem_cnt (sem s) \<Longrightarrow> s_at s u SemaAsleep \<Longrightarrow>
    s_step s (s_go t Out m ((sths s)[u := SemaAwake]))"
| s_spurious: "s_at s t SemaAsleep \<Longrightarrow>
    s_step s (s_go t SemaAwake ((sem s)\<lparr>sem_waiting := sem_waiting (sem s) - 1\<rparr>) (sths s))"

inductive s_reachable :: "int \<Rightarrow> nat \<Rightarrow> ssys \<Rightarrow> bool" for n k where
  s_reach_init: "s_reachable n k (ssys_init n k)"
| s_reach_step: "s_reachable n k s \<Longrightarrow> s_step s s' \<Longrightarrow> s_reachable n k s'"

section \<open>Runs in which no decrement is disturbed\<close>

fun s_loaded :: "sthread \<Rightarrow> bool" where
  "s_loaded (Loaded v) = True"
| "s_loaded _ = False"

text \<open>Threads on their way through \<open>acquire\<close>.\<close>

fun s_coming :: "sthread \<Rightarrow> bool" where
  "s_coming SemaAwake = True"
| "s_coming Passed = True"
| "s_coming (Loaded v) = True"
| "s_coming _ = False"

text \<open>While a thread is inside its decrement, the next step is the one that ends it: no thread is
  inside before a step or none is after it.\<close>

inductive s_undisturbed :: "int \<Rightarrow> nat \<Rightarrow> ssys \<Rightarrow> bool" for n k where
  s_und_init: "s_undisturbed n k (ssys_init n k)"
| s_und_step: "s_undisturbed n k s \<Longrightarrow> s_step s s' \<Longrightarrow>
    count_at s_loaded (sths s) = 0 \<or> count_at s_loaded (sths s') = 0 \<Longrightarrow> s_undisturbed n k s'"

definition s_inv :: "int \<Rightarrow> ssys \<Rightarrow> bool" where
  "s_inv n s \<longleftrightarrow> \<not> sem_mtx (sem s) \<and>
     sem_cnt (sem s) + int (count_at (\<lambda>c. c = Holding) (sths s)) = n \<and>
     sem_waiting (sem s) = count_at (\<lambda>c. c = SemaAsleep) (sths s) \<and>
     (count_at (\<lambda>c. c = SemaAsleep) (sths s) = 0 \<or>
      sem_cnt (sem s) \<le> int (count_at s_coming (sths s))) \<and>
     (\<forall>t v. s_at s t (Loaded v) \<longrightarrow> v = sem_cnt (sem s))"

lemma s_inv_init: "s_inv n (ssys_init n k)"
  by (auto simp: s_inv_def ssys_init_def sema_new_def count_at_def s_at_def)

lemma count_at_pos_eq: "t < length ts \<Longrightarrow> ts ! t = c \<Longrightarrow> 0 < count_at (\<lambda>x. x = c) ts"
  by (rule count_at_pos) auto

lemma s_none_loaded: "count_at s_loaded (sths s) = 0 \<Longrightarrow> \<not> s_at s t (Loaded v)"
  using count_at_pos [of t "sths s" s_loaded] by (auto simp: s_at_def)

lemma s_coming_pos: "t < length ts \<Longrightarrow> ts ! t = c \<Longrightarrow> s_coming c \<Longrightarrow> 0 < count_at s_coming ts"
  by (rule count_at_pos) auto

lemma s_at_go: "s_at (s_go t c m ts) u d \<longleftrightarrow> u < length ts \<and> (if u = t then c else ts ! u) = d"
  by (auto simp: s_at_def s_go_def nth_list_update)

lemma s_inv_step:
  assumes "s_step s s'" and i: "s_inv n s"
    and und: "count_at s_loaded (sths s) = 0 \<or> count_at s_loaded (sths s') = 0"
  shows "s_inv n s'"
  using assms(1)
proof cases
  case (s_enter t p m)
  with i s_none_loaded show ?thesis
    by (auto simp: s_inv_def s_at_def s_go_def sema_acquire_enter_eq count_at_updates nth_list_update split: if_splits)
next
  case (s_resume t p m)
  with i count_at_pos_eq [of t "sths s" SemaAwake] s_coming_pos [of t "sths s" SemaAwake] show ?thesis
    by (auto simp: s_inv_def s_at_def s_go_def sema_acquire_resume_eq count_at_updates nth_list_update split: if_splits)
next
  case (s_load t)
  with i show ?thesis
    by (auto simp: s_inv_def s_at_def s_go_def sema_load_def count_at_updates nth_list_update split: if_splits)
next
  case (s_store t v)
  have "count_at s_loaded (sths s') = 0"
    using und s_none_loaded [of s t v] s_store(2) by auto
  then have none: "\<not> s_at s' u (Loaded w)" for u w by (rule s_none_loaded)
  from i s_store(2) have v: "v = sem_cnt (sem s)" by (auto simp: s_inv_def)
  have t: "t < length (sths s)" "sths s ! t = Loaded v" using s_store(2) by (simp_all add: s_at_def)
  have n: "count_at (\<lambda>c. c = Holding) (sths s') = Suc (count_at (\<lambda>c. c = Holding) (sths s))"
    "count_at (\<lambda>c. c = SemaAsleep) (sths s') = count_at (\<lambda>c. c = SemaAsleep) (sths s)"
    "Suc (count_at s_coming (sths s')) = count_at s_coming (sths s)"
    using t s_coming_pos [OF t] by (simp_all add: s_store(1) s_go_def count_at_updates)
  have m: "sem_mtx (sem s') = sem_mtx (sem s)" "sem_waiting (sem s') = sem_waiting (sem s)"
    "sem_cnt (sem s') = sem_cnt (sem s) - 1"
    using v by (simp_all add: s_store(1) s_go_def sema_store_def)
  show ?thesis using i none n m unfolding s_inv_def by auto
next
  case (s_release t r m)
  have none: "count_at s_loaded (sths s) = 0"
    using und s_release by (auto simp: s_at_def s_go_def count_at_updates)
  with s_release i count_at_pos_eq [of t "sths s" Holding] s_none_loaded [OF none] show ?thesis
    by (auto simp: s_inv_def s_at_def s_go_def sema_release_eq count_at_updates nth_list_update split: if_splits)
next
  case (s_release_wake t r m u)
  have "u \<noteq> t" using s_release_wake by (auto simp: s_at_def)
  with s_release_wake und have none: "count_at s_loaded (sths s) = 0"
    by (auto simp: s_at_def s_go_def count_at_updates)
  with s_release_wake i \<open>u \<noteq> t\<close> count_at_pos_eq [of t "sths s" Holding]
    count_at_pos_eq [of u "sths s" SemaAsleep] s_none_loaded [OF none] show ?thesis
    by (auto simp: s_inv_def s_at_def s_go_def sema_release_eq count_at_updates nth_list_update)
next
  case (s_spurious t)
  with i show ?thesis
    by (auto simp: s_inv_def s_at_def s_go_def count_at_updates nth_list_update split: if_splits)
qed

lemma s_undisturbed_inv: "s_undisturbed n k s \<Longrightarrow> s_inv n s"
  by (induction rule: s_undisturbed.induct) (auto intro: s_inv_init s_inv_step)

section \<open>Properties\<close>

text \<open>Used by one thread at a time, a TW_Sema counts: any sequence of \<open>acquire\<close> and
  \<open>release\<close> does to the counter, and returns, what it would with a number; \<open>acquire\<close> blocks
  exactly when there is no unit, so a counter that starts at zero or above stays there.\<close>
theorem sema_counts:
  assumes "\<not> sem_mtx s"
  shows "holds (run_sema sema_acquire sema_release ops s)
    (\<lambda>(rs, s'). \<not> sem_mtx s' \<and> (rs, sem_cnt s') = count_ops ops (sem_cnt s))"
  by (rule ts.run_counts [OF assms])

theorem sema_counts_witness:
  "holds (run_sema sema_acquire sema_release [Acquire, Acquire, Release, Acquire] (sema_new 1))
    (\<lambda>(rs, s'). \<not> sem_mtx s' \<and>
      (rs, sem_cnt s') = count_ops [Acquire, Acquire, Release, Acquire] (sem_cnt (sema_new 1)))"
  by (rule sema_counts) (simp add: sema_new_def)

text \<open>As long as no other step comes between the read and the write of a decrement, threads that share a
  TW_Sema account for every unit and sleep only when they must: the counter and the units held add up
  to the initial count, and if no thread is on its way through \<open>acquire\<close> while one
  sleeps, all units are held.\<close>
theorem sema_no_lost_release:
  assumes "s_undisturbed n k s"
  shows "sem_cnt (sem s) + int (count_at (\<lambda>c. c = Holding) (sths s)) = n \<and>
    (count_at (\<lambda>c. c = SemaAsleep) (sths s) = 0 \<or> 0 < count_at s_coming (sths s) \<or>
     n \<le> int (count_at (\<lambda>c. c = Holding) (sths s)))"
  using s_undisturbed_inv [OF assms] by (auto simp: s_inv_def)

section \<open>Executions\<close>

definition s_ex :: "int \<Rightarrow> sthread list \<Rightarrow> ssys" where
  "s_ex c ts = \<lparr>sem = sema_new c, sths = ts\<rparr>"

lemma s_ex_enter:
  assumes "t < length ts" "ts ! t = Out" "1 \<le> c"
  shows "s_step (s_ex c ts) (s_ex c (ts[t := Passed]))"
proof -
  have "s_step (s_ex c ts) (s_go t (s_next (Done 0)) (sema_new c) (sths (s_ex c ts)))"
    by (rule s_step.s_enter) (use assms in \<open>simp_all add: s_at_def s_ex_def sema_acquire_enter_eq sema_new_def\<close>)
  then show ?thesis by (simp add: s_go_def s_ex_def)
qed

lemma s_ex_load:
  assumes "t < length ts" "ts ! t = Passed"
  shows "s_step (s_ex c ts) (s_ex c (ts[t := Loaded c]))"
proof -
  have "s_step (s_ex c ts) (s_go t (Loaded (sema_load (sem (s_ex c ts)))) (sem (s_ex c ts)) (sths (s_ex c ts)))"
    by (rule s_step.s_load) (use assms in \<open>simp add: s_at_def s_ex_def\<close>)
  then show ?thesis by (simp add: s_go_def s_ex_def sema_load_def sema_new_def)
qed

lemma s_ex_store:
  assumes "t < length ts" "ts ! t = Loaded v"
  shows "s_step (s_ex c ts) (s_ex (v - 1) (ts[t := Holding]))"
proof -
  have "s_step (s_ex c ts) (s_go t Holding (sema_store v (sem (s_ex c ts))) (sths (s_ex c ts)))"
    by (rule s_step.s_store) (use assms in \<open>simp add: s_at_def s_ex_def\<close>)
  then show ?thesis by (simp add: s_go_def s_ex_def sema_store_def sema_new_def)
qed


text \<open>The same for a reachable state of two threads.\<close>

lemma s_reach_enter:
  "s_reachable n k (s_ex c [Out, y]) \<Longrightarrow> 1 \<le> c \<Longrightarrow> s_reachable n k (s_ex c [Passed, y])"
  "s_reachable n k (s_ex c [x, Out]) \<Longrightarrow> 1 \<le> c \<Longrightarrow> s_reachable n k (s_ex c [x, Passed])"
  using s_reach_step [OF _ s_ex_enter [of 0 "[Out, y]" c]] s_reach_step [OF _ s_ex_enter [of 1 "[x, Out]" c]]
  by auto

lemma s_reach_load:
  "s_reachable n k (s_ex c [Passed, y]) \<Longrightarrow> s_reachable n k (s_ex c [Loaded c, y])"
  "s_reachable n k (s_ex c [x, Passed]) \<Longrightarrow> s_reachable n k (s_ex c [x, Loaded c])"
  using s_reach_step [OF _ s_ex_load [of 0 "[Passed, y]" c]] s_reach_step [OF _ s_ex_load [of 1 "[x, Passed]" c]]
  by auto

lemma s_reach_store:
  "s_reachable n k (s_ex c [Loaded v, y]) \<Longrightarrow> s_reachable n k (s_ex (v - 1) [Holding, y])"
  "s_reachable n k (s_ex c [x, Loaded v]) \<Longrightarrow> s_reachable n k (s_ex (v - 1) [x, Holding])"
  using s_reach_step [OF _ s_ex_store [of 0 "[Loaded v, y]" v c]] s_reach_step [OF _ s_ex_store [of 1 "[x, Loaded v]" v c]]
  by auto


lemma s_reach_start: "s_reachable n 2 (s_ex n [Out, Out])"
  using s_reach_init [of n 2] by (simp add: s_ex_def ssys_init_def numeral_2_eq_2)

lemma s_reach_both: "s_reachable n k (s_ex c [Out, Out]) \<Longrightarrow> 1 \<le> c \<Longrightarrow> s_reachable n k (s_ex c [Passed, Passed])"
  by (intro s_reach_enter(2) s_reach_enter(1))





text \<open>Nor does it keep them apart: a second thread can find the unit the first one is about to take. From a count
  of 1, two threads can both hold a unit, and the counter is \<open>-1\<close>.\<close>
theorem sema_unit_taken_twice:
  "\<exists>s. s_reachable 1 2 s \<and> sths s = [Holding, Holding] \<and> sem_cnt (sem s) = - 1"
proof (intro exI conjI)
  have "s_reachable 1 2 (s_ex 1 [Passed, Passed])" by (rule s_reach_both [OF s_reach_start]) simp
  from s_reach_store(2) [OF s_reach_load(2) [OF s_reach_store(1) [OF s_reach_load(1) [OF this]]]]
  show "s_reachable 1 2 (s_ex (- 1) [Holding, Holding])" by simp
qed (simp_all add: s_ex_def sema_new_def)

theorem sema_no_lost_release_witness:
  "sem_cnt (sem (s_ex 1 [Passed, Out])) + int (count_at (\<lambda>c. c = Holding) (sths (s_ex 1 [Passed, Out]))) = 1 \<and>
    (count_at (\<lambda>c. c = SemaAsleep) (sths (s_ex 1 [Passed, Out])) = 0 \<or>
     0 < count_at s_coming (sths (s_ex 1 [Passed, Out])) \<or>
     1 \<le> int (count_at (\<lambda>c. c = Holding) (sths (s_ex 1 [Passed, Out]))))"
proof (rule sema_no_lost_release)
  have "s_undisturbed 1 2 (s_ex 1 [Out, Out])"
    using s_und_init [of 1 2] by (simp add: s_ex_def ssys_init_def numeral_2_eq_2)
  from s_und_step [OF this s_ex_enter [of 0]] show "s_undisturbed 1 2 (s_ex 1 [Passed, Out])"
    by (simp add: s_ex_def count_at_def)
qed

text \<open>The timed \<open>acquire\<close> takes no unit when there is one: it returns 0 and leaves the
  counter as it is, so that any number of threads can acquire the same unit this way, and
  the \<open>release\<close> of each raises the counter above what it was.\<close>
theorem sema_timed_acquire_takes_none:
  assumes "\<not> sem_mtx s" and "1 \<le> sem_cnt s"
  shows "sema_acquire_timed_enter s = Inr (Done 0, s) \<and>
    bindE (sema_acquire_timed_enter s) (\<lambda>(p, s). sema_release s) =
      Inr (0, s\<lparr>sem_cnt := sem_cnt s + 1, sem_waiting := sem_waiting s - 1\<rparr>)"
  using assms by (simp add: sema_acquire_timed_eq sema_release_eq)

theorem sema_timed_acquire_takes_none_witness:
  "sema_acquire_timed_enter (sema_new 1) = Inr (Done 0, sema_new 1) \<and>
    bindE (sema_acquire_timed_enter (sema_new 1)) (\<lambda>(p, s). sema_release s) =
      Inr (0, (sema_new 1)\<lparr>sem_cnt := sem_cnt (sema_new 1) + 1, sem_waiting := sem_waiting (sema_new 1) - 1\<rparr>)"
  by (rule sema_timed_acquire_takes_none) (simp_all add: sema_new_def)

end
