(* ===== verification/TW_BndFifo.thy ===== *)
theory TW_BndFifo
  imports TW_SafeFifo TW_Sema
begin

text \<open>
  The class tw_bndSafeFIFO of include/TW/tw_fifo.h: a tw_safeFIFO and a TW_Sema whose units are
  the free places.

  The object holds the FIFO, the semaphore it points to (\<open>None\<close> for a null pointer; no other
  object points to it) and the bound. \<open>peek\<close> and \<open>peekOrBlock\<close> do not compile (they pass no
  argument on) and are left out.
\<close>

section \<open>The object\<close>

record bnd =
  bfifo :: sfifo
  bsema :: "sema option"
  bmax :: int

definition bnd_new_default :: bnd where
  "bnd_new_default = \<lparr>bfifo = sfifo_new, bsema = None, bmax = 0\<rparr>"

definition bnd_new :: "int \<Rightarrow> bnd" where
  "bnd_new maxsize = \<lparr>bfifo = sfifo_new, bsema = Some (sema_new maxsize), bmax = maxsize\<rparr>"

text \<open>Calls through \<open>_sizeSema\<close>.\<close>

definition size_sema :: "(sema \<Rightarrow> ('r \<times> sema) res) \<Rightarrow> bnd \<Rightarrow> ('r \<times> bnd) res" where
  "size_sema f b = (case bsema b of None \<Rightarrow> Inl NullDeref
     | Some s \<Rightarrow> bindE (f s) (\<lambda>(r, s). Inr (r, b\<lparr>bsema := Some s\<rparr>)))"

text \<open>\<open>releaseAll\<close> and \<^verbatim>\<open>delete\<close>, when there is a semaphore.\<close>

definition drop_sema :: "bnd \<Rightarrow> bnd res" where
  "drop_sema b = (case bsema b of None \<Rightarrow> Inr b
     | Some s \<Rightarrow> bindE (sema_releaseAll s) (\<lambda>(_, s). bindE (sema_destroy s) (\<lambda>_. Inr (b\<lparr>bsema := None\<rparr>))))"

section \<open>The operations\<close>

definition bnd_copy :: "bnd \<Rightarrow> 'a link heap \<Rightarrow> (bnd \<times> bnd \<times> 'a link heap) res" where
  "bnd_copy b h =
     bindE (sfifo_copy (bfifo b) h) (\<lambda>(f, g, h).
     let b = b\<lparr>bfifo := g\<rparr> in
     bindE (size_sema sema_count b) (\<lambda>(n, b).
     Inr (\<lparr>bfifo = f, bsema = Some (sema_new n), bmax = bmax b\<rparr>, b, h)))"

definition bnd_from_fifo :: "int \<Rightarrow> sfifo \<Rightarrow> 'a link heap \<Rightarrow> (bnd \<times> sfifo \<times> 'a link heap) res" where
  "bnd_from_fifo maxsize g h =
     bindE (sfifo_copy g h) (\<lambda>(f, g, h).
     bindE (sfifo_remaining g) (\<lambda>(n, g).
     Inr (\<lparr>bfifo = f, bsema = Some (sema_new (maxsize - n)), bmax = maxsize\<rparr>, g, h)))"

text \<open>\<open>operator=\<close> copies the elements and the count of free places, not the bound.\<close>

definition bnd_assign :: "bnd \<Rightarrow> bnd \<Rightarrow> 'a link heap \<Rightarrow> (bnd \<times> bnd \<times> 'a link heap) res" where
  "bnd_assign b c h =
     bindE (sfifo_assign (bfifo b) (bfifo c) h) (\<lambda>(f, g, h).
     let c = c\<lparr>bfifo := g\<rparr> in
     bindE (drop_sema (b\<lparr>bfifo := f\<rparr>)) (\<lambda>b.
     bindE (size_sema sema_count c) (\<lambda>(n, c).
     Inr (b\<lparr>bsema := Some (sema_new n)\<rparr>, c, h))))"

text \<open>The adding methods wait for a place first; a call cut at its wait resumes with what the
  wait returned.\<close>

definition bnd_add_tail :: "'a \<Rightarrow> int progress \<times> bnd \<Rightarrow> 'a link heap \<Rightarrow>
    (unit progress \<times> bnd \<times> 'a link heap) res" where
  "bnd_add_tail the_d pb h = (case pb of
     (Blocked, b) \<Rightarrow> Inr (Blocked, b, h)
   | (Done r, b) \<Rightarrow> bindE (sfifo_add the_d (bfifo b) h) (\<lambda>(f, h). Inr (Done (), b\<lparr>bfifo := f\<rparr>, h)))"

definition bnd_add_enter :: "'a \<Rightarrow> bnd \<Rightarrow> 'a link heap \<Rightarrow>
    (unit progress \<times> bnd \<times> 'a link heap) res" where
  "bnd_add_enter the_d b h = bindE (size_sema sema_acquire b) (\<lambda>pb. bnd_add_tail the_d pb h)"

definition bnd_add_resume :: "'a \<Rightarrow> bnd \<Rightarrow> 'a link heap \<Rightarrow>
    (unit progress \<times> bnd \<times> 'a link heap) res" where
  "bnd_add_resume the_d b h = bindE (size_sema (sema_acquire_again 0) b) (\<lambda>pb. bnd_add_tail the_d pb h)"

definition bnd_addToHead_enter :: "'a \<Rightarrow> bnd \<Rightarrow> 'a link heap \<Rightarrow>
    (unit progress \<times> bnd \<times> 'a link heap) res" where
  "bnd_addToHead_enter the_d b h =
     bindE (size_sema sema_acquire b) (\<lambda>(p, b). case p of
       Blocked \<Rightarrow> Inr (Blocked, b, h)
     | Done r \<Rightarrow> bindE (sfifo_addToHead the_d (bfifo b) h) (\<lambda>(f, h). Inr (Done (), b\<lparr>bfifo := f\<rparr>, h)))"

definition bnd_addEmpty_enter :: "'a \<Rightarrow> bnd \<Rightarrow> 'a link heap \<Rightarrow>
    (ptr progress \<times> bnd \<times> 'a link heap) res" where
  "bnd_addEmpty_enter dflt b h =
     bindE (size_sema sema_acquire b) (\<lambda>(p, b). case p of
       Blocked \<Rightarrow> Inr (Blocked, b, h)
     | Done r \<Rightarrow> bindE (sfifo_addEmpty dflt (bfifo b) h) (\<lambda>(q, f, h). Inr (Done q, b\<lparr>bfifo := f\<rparr>, h)))"

text \<open>A place is given back when an element was taken out.\<close>

definition give_back :: "'a option \<Rightarrow> bnd \<Rightarrow> bnd res" where
  "give_back ret b = (if ret \<noteq> None then bindE (size_sema sema_release b) (\<lambda>(_, b). Inr b) else Inr b)"

definition bnd_remove :: "bnd \<Rightarrow> 'a link heap \<Rightarrow> ('a option \<times> bnd \<times> 'a link heap) res" where
  "bnd_remove b h =
     bindE (sfifo_remove (bfifo b) h) (\<lambda>(ret, f, h).
     bindE (give_back ret (b\<lparr>bfifo := f\<rparr>)) (\<lambda>b. Inr (ret, b, h)))"

definition bnd_removeOrBlock_enter :: "bnd \<Rightarrow> 'a link heap \<Rightarrow>
    ('a option progress \<times> bnd \<times> 'a link heap) res" where
  "bnd_removeOrBlock_enter b h =
     bindE (sfifo_removeOrBlock_enter (bfifo b) h) (\<lambda>(p, f, h). case p of
       Blocked \<Rightarrow> Inr (Blocked, b\<lparr>bfifo := f\<rparr>, h)
     | Done ret \<Rightarrow> bindE (give_back ret (b\<lparr>bfifo := f\<rparr>)) (\<lambda>b. Inr (Done ret, b, h)))"

definition bnd_removeOrBlock_resume :: "bnd \<Rightarrow> 'a link heap \<Rightarrow>
    ('a option \<times> bnd \<times> 'a link heap) res" where
  "bnd_removeOrBlock_resume b h =
     bindE (sfifo_removeOrBlock_resume (bfifo b) h) (\<lambda>(ret, f, h).
     bindE (give_back ret (b\<lparr>bfifo := f\<rparr>)) (\<lambda>b. Inr (ret, b, h)))"

definition bnd_unblockRemoveCalls :: "bnd \<Rightarrow> bnd res" where
  "bnd_unblockRemoveCalls b = bindE (sfifo_unblock (bfifo b)) (\<lambda>f. Inr (b\<lparr>bfifo := f\<rparr>))"

definition bnd_unblockAll :: "bnd \<Rightarrow> bnd res" where
  "bnd_unblockAll b =
     bindE (size_sema sema_releaseAll b) (\<lambda>(_, b).
     bindE (sfifo_unblockAll (bfifo b)) (\<lambda>f. Inr (b\<lparr>bfifo := f\<rparr>)))"

definition bnd_enable :: "bnd \<Rightarrow> bnd res" where
  "bnd_enable b = bindE (sfifo_enable (bfifo b)) (\<lambda>f. Inr (b\<lparr>bfifo := f\<rparr>))"

definition bnd_disable :: "bnd \<Rightarrow> bnd res" where
  "bnd_disable b = bindE (sfifo_disable (bfifo b)) (\<lambda>f. Inr (b\<lparr>bfifo := f\<rparr>))"

definition bnd_remaining :: "bnd \<Rightarrow> (int \<times> bnd) res" where
  "bnd_remaining b = bindE (sfifo_remaining (bfifo b)) (\<lambda>(n, f). Inr (n, b\<lparr>bfifo := f\<rparr>))"

definition bnd_clearAll :: "bnd \<Rightarrow> 'a link heap \<Rightarrow> (bnd \<times> 'a link heap) res" where
  "bnd_clearAll b h =
     bindE (sfifo_clearAll (bfifo b) h) (\<lambda>(f, h).
     bindE (drop_sema (b\<lparr>bfifo := f\<rparr>)) (\<lambda>b.
     Inr (b\<lparr>bsema := Some (sema_new (bmax b))\<rparr>, h)))"

definition bnd_destroy :: "bnd \<Rightarrow> 'a link heap \<Rightarrow> 'a link heap res" where
  "bnd_destroy b h = bindE (drop_sema b) (\<lambda>b. sfifo_destroy (bfifo b) h)"

section \<open>What the operations do\<close>

definition adders_waiting :: "bnd \<Rightarrow> nat" where
  "adders_waiting b = (case bsema b of None \<Rightarrow> 0 | Some m \<Rightarrow> sem_waiting m)"

text \<open>The free places and the elements make up the bound.\<close>

definition bnd_rep :: "'a link heap \<Rightarrow> bnd \<Rightarrow> 'a list \<Rightarrow> bool" where
  "bnd_rep h b xs \<longleftrightarrow> (\<exists>ps. sfifo_rep h (bfifo b) ps xs) \<and> enabled (bfifo b) \<and>
     (case bsema b of None \<Rightarrow> False
      | Some s \<Rightarrow> \<not> sem_mtx s \<and> 0 \<le> sem_cnt s \<and> sem_cnt s + int (length xs) = bmax b)"

lemma bnd_repE:
  assumes "bnd_rep h b xs"
  obtains ps s where "sfifo_rep h (bfifo b) ps xs" and "enabled (bfifo b)" and "bsema b = Some s"
    and "\<not> sem_mtx s" and "0 \<le> sem_cnt s" and "sem_cnt s + int (length xs) = bmax b"
  using assms by (auto simp: bnd_rep_def split: option.splits)

lemma bnd_rep_bound: "bnd_rep h b xs \<Longrightarrow> int (length xs) \<le> bmax b"
  by (auto elim!: bnd_repE)

lemma bnd_new_rep: "0 \<le> n \<Longrightarrow> bnd_rep h (bnd_new n) []"
  by (simp add: bnd_rep_def bnd_new_def sema_new_def sfifo_new_def sfifo_rep_def fifo_rep_Nil)

lemma bnd_add_rep:
  assumes r: "bnd_rep h b xs" and sp: "int (length xs) < bmax b" and room: "0 < room h"
  shows "holds (bnd_add_enter x b h) (\<lambda>(p, b', h'). p = Done () \<and> bnd_rep h' b' (xs @ [x]) \<and>
    bmax b' = bmax b \<and> adders_waiting b' = adders_waiting b \<and> room h' = room h - 1)"
proof -
  from r obtain ps s where b: "sfifo_rep h (bfifo b) ps xs" "enabled (bfifo b)" "bsema b = Some s"
    "\<not> sem_mtx s" "0 \<le> sem_cnt s" "sem_cnt s + int (length xs) = bmax b" by (rule bnd_repE)
  have "sema_acquire s = Inr (Done 0, s\<lparr>sem_cnt := sem_cnt s - 1\<rparr>)"
    using b(4,6) sp by (simp add: sema_acquire_eq)
  moreover from sfifo_add_rep [OF b(1,2) room, of x] obtain f' h' where
    "sfifo_add x (bfifo b) h = Inr (f', h')" "sfifo_rep h' f' (ps @ [Suc (heap_size h)]) (xs @ [x])"
    "enabled f'" "room h' = room h - 1" by (auto simp: holds_iff)
  ultimately show ?thesis using b sp
    by (auto simp: bnd_add_enter_def bnd_add_tail_def size_sema_def bnd_rep_def adders_waiting_def)
qed

lemma bnd_add_full:
  assumes r: "bnd_rep h b xs" and full: "int (length xs) = bmax b"
  shows "holds (bnd_add_enter x b h) (\<lambda>(p, b', h'). p = Blocked \<and> bnd_rep h b' xs \<and> h' = h \<and>
    bmax b' = bmax b \<and> adders_waiting b' = Suc (adders_waiting b))"
proof -
  from r obtain ps s where b: "sfifo_rep h (bfifo b) ps xs" "enabled (bfifo b)" "bsema b = Some s"
    "\<not> sem_mtx s" "0 \<le> sem_cnt s" "sem_cnt s + int (length xs) = bmax b" by (rule bnd_repE)
  then show ?thesis using full
    by (auto simp: bnd_add_enter_def bnd_add_tail_def size_sema_def sema_acquire_eq bnd_rep_def adders_waiting_def)
qed

text \<open>A blocked \<open>add\<close> that is awake again tests the counter as one that enters does.\<close>

lemma bnd_add_resume_eq: "bnd_rep h b xs \<Longrightarrow> bnd_add_resume x b h = bnd_add_enter x b h"
  by (auto elim!: bnd_repE simp: bnd_add_resume_def bnd_add_enter_def size_sema_def sema_acquire_eq sema_acquire_again_eq)

lemma bnd_remove_rep:
  assumes r: "bnd_rep h b (x # xs)"
  shows "holds (bnd_remove b h) (\<lambda>(v, b', h'). v = Some x \<and> bnd_rep h' b' xs \<and>
    bmax b' = bmax b \<and> adders_waiting b' = adders_waiting b - 1 \<and> room h' = Suc (room h))"
proof -
  from r obtain ps s where b: "sfifo_rep h (bfifo b) ps (x # xs)" "enabled (bfifo b)" "bsema b = Some s"
    "\<not> sem_mtx s" "0 \<le> sem_cnt s" "sem_cnt s + int (length (x # xs)) = bmax b" by (rule bnd_repE)
  from sfifo_remove_rep [OF b(1)] obtain f' h' where
    "sfifo_remove (bfifo b) h = Inr (Some x, f', h')" "sfifo_rep h' f' (tl ps) xs"
    "enabled f'" "room h' = Suc (room h)" using b(2) by (auto simp: holds_iff same_object_sfifo)
  then show ?thesis using b
    by (auto simp: bnd_remove_def give_back_def size_sema_def sema_release_eq bnd_rep_def adders_waiting_def)
qed

lemma bnd_remove_Nil: "bnd_rep h b [] \<Longrightarrow> bnd_remove b h = Inr (None, b, h)"
  by (auto elim!: bnd_repE simp: bnd_remove_def give_back_def sfifo_remove_Nil)

lemma bnd_clearAll_rep:
  assumes r: "bnd_rep h b xs"
  shows "holds (bnd_clearAll b h) (\<lambda>(b', h'). bnd_rep h' b' [] \<and> bmax b' = bmax b \<and>
    room h' = room h + length xs)"
proof -
  from r obtain ps s where b: "sfifo_rep h (bfifo b) ps xs" "enabled (bfifo b)" "bsema b = Some s"
    "\<not> sem_mtx s" "0 \<le> sem_cnt s" "sem_cnt s + int (length xs) = bmax b" by (rule bnd_repE)
  have "drop_sema (b\<lparr>bfifo := f\<rparr>) = Inr (b\<lparr>bfifo := f, bsema := None\<rparr>)" for f
    using b by (simp add: drop_sema_def sema_releaseAll_eq sema_destroy_def sema_cond_broadcast_def)
  then show ?thesis using sfifo_clearAll_rep [OF b(1)] b
    by (auto simp: bnd_clearAll_def holds_iff bnd_rep_def sema_new_def)
qed

section \<open>tw_bndSafeFIFO as a bounded queue\<close>

type_synonym 'a bnd_state = "bnd \<times> 'a link heap"

definition bnd_queue :: "'a bnd_state \<Rightarrow> 'a list \<Rightarrow> bool" where
  "bnd_queue s xs \<longleftrightarrow> bnd_rep (snd s) (fst s) xs"

definition bnd_put :: "'a \<Rightarrow> 'a bnd_state \<Rightarrow> 'a bnd_state res" where
  "bnd_put x s = bindE (bnd_add_enter x (fst s) (snd s)) (\<lambda>(p, s). Inr s)"

definition bnd_get :: "'a bnd_state \<Rightarrow> ('a option \<times> 'a bnd_state) res" where
  "bnd_get s = bnd_remove (fst s) (snd s)"

text \<open>A place is free when the semaphore has a unit and the allocator has memory.\<close>

definition bnd_space :: "'a bnd_state \<Rightarrow> nat" where
  "bnd_space s = min (case bsema (fst s) of None \<Rightarrow> 0 | Some m \<Rightarrow> nat (sem_cnt m)) (room (snd s))"

lemma bnd_space_eq:
  "bnd_rep h b xs \<Longrightarrow> bnd_space (b, h) = min (nat (bmax b - int (length xs))) (room h)"
  by (auto elim!: bnd_repE simp: bnd_space_def)

lemmas bnd_state_defs = bnd_queue_def bnd_put_def bnd_get_def

interpretation bq: bounded_queue bnd_queue bnd_space bnd_put bnd_get
proof
  fix s :: "'a bnd_state" and xs x
  obtain b h where s: "s = (b, h)" by (cases s)
  assume q: "bnd_queue s xs" and "0 < bnd_space s"
  then have r: "bnd_rep h b xs" "int (length xs) < bmax b" "0 < room h"
    using bnd_space_eq [of h b xs] by (auto simp: s bnd_queue_def)
  from bnd_add_rep [OF this, of x] obtain b' h' where
    b': "bnd_add_enter x b h = Inr (Done (), b', h')" "bnd_rep h' b' (xs @ [x])" "bmax b' = bmax b"
    "room h' = room h - 1" by (auto simp: holds_iff)
  then show "holds (bnd_put x s) (\<lambda>s'. bnd_queue s' (xs @ [x]) \<and> bnd_space s' = bnd_space s - 1)"
    using bnd_space_eq [OF r(1)] bnd_space_eq [OF b'(2)] r(2,3)
    by (simp add: s bnd_state_defs) linarith
next
  fix s :: "'a bnd_state"
  assume "bnd_queue s []"
  then show "holds (bnd_get s) (\<lambda>(r, s'). r = None \<and> bnd_queue s' [] \<and> bnd_space s' = bnd_space s)"
    by (cases s) (simp add: bnd_state_defs bnd_remove_Nil)
next
  fix s :: "'a bnd_state" and x xs
  obtain b h where s: "s = (b, h)" by (cases s)
  assume "bnd_queue s (x # xs)"
  then have r: "bnd_rep h b (x # xs)" by (simp add: s bnd_queue_def)
  from bnd_remove_rep [OF this] obtain b' h' where
    b': "bnd_remove b h = Inr (Some x, b', h')" "bnd_rep h' b' xs" "bmax b' = bmax b"
    "room h' = Suc (room h)" by (auto simp: holds_iff)
  moreover have "int (length xs) < bmax b" using r by (auto elim!: bnd_repE)
  ultimately show "holds (bnd_get s) (\<lambda>(r, s'). r = Some x \<and> bnd_queue s' xs \<and>
      bnd_space s' = Suc (bnd_space s))"
    using bnd_space_eq [OF r] bnd_space_eq [OF b'(2)] by (auto simp: s bnd_state_defs)
qed


section \<open>Runs with calls that wait\<close>

text \<open>
  Calls that run one after the other, each until it returns or sleeps. Of the \<open>add\<close> calls that wait, \<open>asleep\<close> are the
  values of those asleep and \<open>awake\<close> of those that are awake again and have not run since. \<open>Take u\<close> is a \<open>remove\<close>;
  if its \<open>release\<close> signals, the \<open>u\<close>-th sleeper is the one that wakes. \<open>Spurious u\<close> wakes one for no reason. \<open>Again\<close> lets the first
  thread that is awake go on with its call.
\<close>

datatype 'a bop = Add 'a | Again | Take nat | Spurious nat

datatype 'a banswer = Added | Waits | Took "'a option" | Nothing

type_synonym 'a bcalls = "'a list \<times> 'a list"

fun wake_nth :: "nat \<Rightarrow> 'a bcalls \<Rightarrow> 'a bcalls" where
  "wake_nth u ([], awake) = ([], awake)"
| "wake_nth u (asleep, awake) = (let i = min u (length asleep - 1) in
     (take i asleep @ drop (Suc i) asleep, awake @ [asleep ! i]))"

fun bop_add :: "'a \<Rightarrow> 'a bcalls \<Rightarrow> (unit progress \<times> bnd \<times> 'a link heap) res \<Rightarrow>
    ('a banswer \<times> bnd \<times> 'a link heap \<times> 'a bcalls) res" where
  "bop_add x (asleep, awake) m = bindE m (\<lambda>(p, b, h). case p of
     Done _ \<Rightarrow> Inr (Added, b, h, asleep, awake) | Blocked \<Rightarrow> Inr (Waits, b, h, asleep @ [x], awake))"

fun bnd_op :: "'a bop \<Rightarrow> bnd \<times> 'a link heap \<times> 'a bcalls \<Rightarrow> ('a banswer \<times> bnd \<times> 'a link heap \<times> 'a bcalls) res" where
  "bnd_op (Add x) (b, h, w) = bop_add x w (bnd_add_enter x b h)"
| "bnd_op Again (b, h, asleep, []) = Inr (Nothing, b, h, asleep, [])"
| "bnd_op Again (b, h, asleep, x # awake) = bop_add x (asleep, awake) (bnd_add_resume x b h)"
| "bnd_op (Take u) (b, h, w) = bindE (bnd_remove b h) (\<lambda>(r, b', h').
     Inr (Took r, b', h', if adders_waiting b' < adders_waiting b then wake_nth u w else w))"
| "bnd_op (Spurious u) (b, h, w) = Inr (Nothing,
     b\<lparr>bsema := map_option (\<lambda>m. m\<lparr>sem_waiting := sem_waiting m - 1\<rparr>) (bsema b)\<rparr>, h, wake_nth u w)"

fun bnd_ops :: "'a bop list \<Rightarrow> bnd \<times> 'a link heap \<times> 'a bcalls \<Rightarrow>
    ('a banswer list \<times> bnd \<times> 'a link heap \<times> 'a bcalls) res" where
  "bnd_ops [] s = Inr ([], s)"
| "bnd_ops (c # ops) s = bindE (bnd_op c s) (\<lambda>(a, s). bindE (bnd_ops ops s) (\<lambda>(as, s). Inr (a # as, s)))"

text \<open>The same on a list of at most \<open>m\<close> elements.\<close>

fun blist_add :: "int \<Rightarrow> 'a \<Rightarrow> 'a list \<times> 'a bcalls \<Rightarrow> 'a banswer \<times> 'a list \<times> 'a bcalls" where
  "blist_add m x (xs, asleep, awake) =
     (if int (length xs) < m then (Added, xs @ [x], asleep, awake) else (Waits, xs, asleep @ [x], awake))"

fun blist_op :: "int \<Rightarrow> 'a bop \<Rightarrow> 'a list \<times> 'a bcalls \<Rightarrow> 'a banswer \<times> 'a list \<times> 'a bcalls" where
  "blist_op m (Add x) (xs, w) = blist_add m x (xs, w)"
| "blist_op m Again (xs, asleep, []) = (Nothing, xs, asleep, [])"
| "blist_op m Again (xs, asleep, x # awake) = blist_add m x (xs, asleep, awake)"
| "blist_op m (Take u) ([], w) = (Took None, [], w)"
| "blist_op m (Take u) (x # xs, w) = (Took (Some x), xs, wake_nth u w)"
| "blist_op m (Spurious u) (xs, w) = (Nothing, xs, wake_nth u w)"

fun blist_ops :: "int \<Rightarrow> 'a bop list \<Rightarrow> 'a list \<times> 'a bcalls \<Rightarrow> 'a banswer list \<times> 'a list \<times> 'a bcalls" where
  "blist_ops m [] s = ([], s)"
| "blist_ops m (c # ops) s = (let (a, s) = blist_op m c s; (as, s) = blist_ops m ops s in (a # as, s))"

text \<open>How many links the calls can need.\<close>

fun adds_of :: "'a bop list \<Rightarrow> nat" where
  "adds_of [] = 0"
| "adds_of (Add x # ops) = Suc (adds_of ops)"
| "adds_of (_ # ops) = adds_of ops"

fun calls_of :: "'a bcalls \<Rightarrow> nat" where
  "calls_of (asleep, awake) = length asleep + length awake"

definition bnd_calls_rep :: "bnd \<times> 'a link heap \<times> 'a bcalls \<Rightarrow> 'a list \<times> 'a bcalls \<Rightarrow> bool" where
  "bnd_calls_rep s l \<longleftrightarrow> (case (s, l) of ((b, h, w), (xs, v)) \<Rightarrow>
     bnd_rep h b xs \<and> v = w \<and> adders_waiting b = length (fst w))"

lemma bnd_calls_bound: "bnd_calls_rep (b, h, w) (xs, v) \<Longrightarrow> int (length xs) \<le> bmax b"
  using bnd_rep_bound [of h b xs] by (auto simp: bnd_calls_rep_def)

lemma wake_nth_length: "length (fst (wake_nth u w)) = length (fst w) - 1" "calls_of (wake_nth u w) = calls_of w"
  by (cases "(u, w)" rule: wake_nth.cases; simp add: Let_def)+

lemma bnd_add_op:
  assumes r: "bnd_rep h b xs" and w: "adders_waiting b = length asleep" and room: "0 < room h"
  shows "holds (bop_add x (asleep, awake) (bnd_add_enter x b h)) (\<lambda>(a, b', h', w').
    \<exists>ys. blist_add (bmax b) x (xs, asleep, awake) = (a, ys, w') \<and> bnd_calls_rep (b', h', w') (ys, w') \<and> bmax b' = bmax b \<and>
      room h + calls_of w' \<le> Suc (room h' + calls_of (asleep, awake)))"
proof (cases "int (length xs) < bmax b")
  case True
  from bnd_add_rep [OF r True room, of x] show ?thesis using True w
    by (auto simp: holds_iff bnd_calls_rep_def)
next
  case False
  then have "int (length xs) = bmax b" using r by (auto elim!: bnd_repE)
  from bnd_add_full [OF r this, of x] show ?thesis using False w
    by (auto simp: holds_iff bnd_calls_rep_def)
qed

lemma bnd_op_rep:
  assumes r: "bnd_calls_rep (b, h, w) (xs, w)" and room: "adds_of [c] + calls_of w \<le> room h"
  shows "holds (bnd_op c (b, h, w)) (\<lambda>(a, b', h', w'). \<exists>ys. blist_op (bmax b) c (xs, w) = (a, ys, w') \<and>
    bnd_calls_rep (b', h', w') (ys, w') \<and> bmax b' = bmax b \<and> room h + calls_of w' \<le> room h' + calls_of w + adds_of [c])"
proof -
  obtain asleep awake where w: "w = (asleep, awake)" by (cases w)
  from r have q: "bnd_rep h b xs" "adders_waiting b = length asleep" by (auto simp: bnd_calls_rep_def w)
  show ?thesis
  proof (cases c)
    case (Add x)
    have "0 < room h" using room Add by simp
    from bnd_add_op [OF q this, of x awake] show ?thesis
      unfolding Add w bnd_op.simps by (rule holds_mono) auto
  next
    case Again
    show ?thesis
    proof (cases awake)
      case Nil
      then show ?thesis using r Again by (simp add: w)
    next
      case (Cons x ws)
      have "0 < room h" using room Cons by (simp add: w)
      from bnd_add_op [OF q this, of x ws] show ?thesis
        unfolding Again w Cons bnd_op.simps bnd_add_resume_eq [OF q(1)]
        by (rule holds_mono) auto
    qed
  next
    case (Take u)
    show ?thesis
    proof (cases xs)
      case Nil
      then show ?thesis using q bnd_remove_Nil [of h b] Take by (simp add: w bnd_calls_rep_def)
    next
      case (Cons x ys)
      from bnd_remove_rep [OF q(1) [unfolded Cons]] obtain b' h' where
        b': "bnd_remove b h = Inr (Some x, b', h')" "bnd_rep h' b' ys" "bmax b' = bmax b"
        "adders_waiting b' = adders_waiting b - 1" "room h' = Suc (room h)" by (auto simp: holds_iff)
      have "(if adders_waiting b' < adders_waiting b then wake_nth u w else w) = wake_nth u w"
        using b'(4) q(2) by (cases asleep) (simp_all add: w)
      then show ?thesis using b' q(2) wake_nth_length [of u w] Take Cons
        by (cases asleep) (simp_all add: w bnd_calls_rep_def)
    qed
  next
    case (Spurious u)
    then show ?thesis using q wake_nth_length [of u w]
      by (auto simp: w bnd_calls_rep_def adders_waiting_def bnd_rep_def split: option.splits)
  qed
qed

lemma bnd_ops_rep:
  assumes "bnd_calls_rep (b, h, w) (xs, w)" and "adds_of ops + calls_of w \<le> room h"
  shows "holds (bnd_ops ops (b, h, w)) (\<lambda>(as, b', h', w'). \<exists>ys. blist_ops (bmax b) ops (xs, w) = (as, ys, w') \<and>
    bnd_calls_rep (b', h', w') (ys, w') \<and> bmax b' = bmax b)"
  using assms
proof (induction ops arbitrary: b h w xs)
  case (Cons c ops)
  have n: "adds_of (c # ops) = adds_of [c] + adds_of ops" by (cases c) auto
  have "adds_of [c] + calls_of w \<le> room h" using Cons.prems(2) n by simp
  from bnd_op_rep [OF Cons.prems(1) this] obtain a b' h' w' ys where
    c: "bnd_op c (b, h, w) = Inr (a, b', h', w')" "blist_op (bmax b) c (xs, w) = (a, ys, w')"
    "bnd_calls_rep (b', h', w') (ys, w')" "bmax b' = bmax b" "room h + calls_of w' \<le> room h' + calls_of w + adds_of [c]"
    by (auto simp: holds_iff)
  have "adds_of ops + calls_of w' \<le> room h'" using c(5) Cons.prems(2) n by linarith
  from Cons.IH [OF c(3) this] c show ?case by (auto simp: holds_iff)
qed simp

section \<open>Properties\<close>

definition ex_bnd :: bnd where
  "ex_bnd = \<lparr>bfifo = ex_sfifo, bsema = Some (sema_new 1), bmax = 3\<rparr>"

lemma ex_bnd_rep: "bnd_rep ex_heap ex_bnd [10, 20]"
  using ex_sfifo_rep by (auto simp: bnd_rep_def ex_bnd_def sema_new_def) (simp add: ex_sfifo_def)

text \<open>C20. A tw_bndSafeFIFO is a bounded first-in first-out queue whose full side waits: when its calls run one after the
  other, each until it returns or sleeps, with memory for every \<open>add\<close>, then in every order of \<open>add\<close>, \<open>remove\<close>,
  wake-ups and returns from a wait, without a fault, an \<open>add\<close> that finds the bound reached sleeps and queues
  nothing, one that wakes up at a full queue sleeps again, each \<open>remove\<close> returns the oldest element and wakes one sleeper, and
  the queue never holds more than its bound.\<close>
theorem bnd_refines_list:
  assumes "bnd_calls_rep (b, h, w) (xs, w)" and "adds_of ops + calls_of w \<le> room h"
  shows "holds (bnd_ops ops (b, h, w)) (\<lambda>(as, b', h', w'). \<exists>ys. blist_ops (bmax b) ops (xs, w) = (as, ys, w') \<and>
    bnd_calls_rep (b', h', w') (ys, w') \<and> int (length ys) \<le> bmax b)"
  using bnd_ops_rep [OF assms] by (rule holds_mono) (force dest: bnd_calls_bound)

theorem bnd_refines_list_witness:
  "holds (bnd_ops [Add 30, Add 40, Take 0, Again, Again, Spurious 0] (ex_bnd, ex_heap, [], [])) (\<lambda>(as, b', h', w').
    \<exists>ys. blist_ops (bmax ex_bnd) [Add 30, Add 40, Take 0, Again, Again, Spurious 0] ([10, 20], [], []) = (as, ys, w') \<and>
      bnd_calls_rep (b', h', w') (ys, w') \<and> int (length ys) \<le> bmax ex_bnd)"
  using bnd_refines_list [of ex_bnd ex_heap "([], [])" "[10, 20]" "[Add 30, Add 40, Take 0, Again, Again, Spurious 0]"] ex_bnd_rep
  by (simp add: bnd_calls_rep_def adders_waiting_def ex_bnd_def sema_new_def ex_heap_def)

text \<open>\<open>add\<close> to a tw_bndSafeFIFO waits exactly when the queue holds as many elements as its
  bound, before it allocates anything.\<close>
theorem bnd_add_waits_iff_full:
  assumes "bnd_rep h b xs" and "0 < room h"
  shows "holds (bnd_add_enter x b h) (\<lambda>(p, b', h'). (p = Blocked \<longleftrightarrow> int (length xs) = bmax b) \<and>
    bnd_rep h' b' (if p = Blocked then xs else xs @ [x]))"
proof (cases "int (length xs) = bmax b")
  case True
  from bnd_add_full [OF assms(1) True, of x] show ?thesis by (rule holds_mono) (use True in auto)
next
  case False
  then have "int (length xs) < bmax b" using assms(1) by (auto elim!: bnd_repE)
  from bnd_add_rep [OF assms(1) this assms(2), of x] show ?thesis
    by (rule holds_mono) (use False in auto)
qed

theorem bnd_add_waits_iff_full_witness:
  "holds (bnd_add_enter 30 ex_bnd ex_heap) (\<lambda>(p, b', h').
    (p = Blocked \<longleftrightarrow> int (length [10::nat, 20]) = bmax ex_bnd) \<and>
    bnd_rep h' b' (if p = Blocked then [10, 20] else [10, 20] @ [30]))"
  by (rule bnd_add_waits_iff_full [OF ex_bnd_rep]) (simp add: ex_heap_def)

text \<open>Adding to a disabled tw_bndSafeFIFO uses a free place up though nothing is queued (and
  the link built for the value stays allocated): afterwards places and elements no longer make up
  the bound.\<close>
theorem bnd_disabled_add_loses_place:
  assumes "bnd_rep h b xs" and "int (length xs) < bmax b" and "0 < room h"
  shows "holds (bnd_disable b) (\<lambda>b1. holds (bnd_add_enter x b1 h) (\<lambda>(p, b2, h2). p = Done () \<and>
    (\<exists>ps. sfifo_rep h2 (bfifo b2) ps xs) \<and> room h2 = room h - 1 \<and>
    (\<exists>m. bsema b2 = Some m \<and> sem_cnt m + int (length xs) = bmax b2 - 1)))"
proof -
  from assms(1) obtain ps s where b: "sfifo_rep h (bfifo b) ps xs" "enabled (bfifo b)" "bsema b = Some s"
    "\<not> sem_mtx s" "0 \<le> sem_cnt s" "sem_cnt s + int (length xs) = bmax b" by (rule bnd_repE)
  let ?f = "(bfifo b)\<lparr>enabled := False\<rparr>"
  have d: "bnd_disable b = Inr (b\<lparr>bfifo := ?f\<rparr>)"
    using b(1) by (cases "bfifo b") (simp add: bnd_disable_def sfifo_disable_def sfifo_rep_def)
  have "sfifo_add x ?f h = Inr (unblocked ?f, new_obj \<lparr>ldat = x, lnext = NULL\<rparr> h)"
    using b(1) assms(3) by (intro sfifo_add_disabled) (simp_all add: sfifo_rep_def)
  moreover have "sfifo_rep (new_obj \<lparr>ldat = x, lnext = NULL\<rparr> h) (unblocked ?f) ps xs"
    using b(1) fifo_rep_new_obj [of h "bfifo b" ps xs] by (auto simp: sfifo_rep_def)
  ultimately show ?thesis using d b assms(2)
    by (auto simp: bnd_add_enter_def bnd_add_tail_def size_sema_def sema_acquire_eq)
qed

theorem bnd_disabled_add_loses_place_witness:
  "holds (bnd_disable ex_bnd) (\<lambda>b1. holds (bnd_add_enter 30 b1 ex_heap) (\<lambda>(p, b2, h2). p = Done () \<and>
    (\<exists>ps. sfifo_rep h2 (bfifo b2) ps [10, 20]) \<and> room h2 = room ex_heap - 1 \<and>
    (\<exists>m. bsema b2 = Some m \<and> sem_cnt m + int (length [10::nat, 20]) = bmax b2 - 1)))"
  by (rule bnd_disabled_add_loses_place [OF ex_bnd_rep]) (simp_all add: ex_bnd_def ex_heap_def)

text \<open>A default-constructed tw_bndSafeFIFO has no semaphore: \<open>add\<close> calls through a null pointer.\<close>

lemma bnd_default_add_faults: "bnd_add_enter x bnd_new_default h = Inl NullDeref"
  by (simp add: bnd_add_enter_def size_sema_def bnd_new_default_def)

end
