(* ===== verification/TW_Sema2.thy ===== *)
theory TW_Sema2
  imports TW_Counting TW_Utils
begin

text \<open>
  The class TW_SemaTwoWay of include/TW/tw_sema2.h: a counting semaphore that one can also wait
  on for an acquirer to come. tw_safeCircular uses its units as the free places of a buffer
  and its mutex as the mutex of the buffer.

  The object is the counter, its initial value, the mutex and, for each of the two condition
  variables, the number of threads that wait on it. Each call that may wait is two
  functions, cut at the wait: \<open>_enter\<close> and \<open>_resume\<close>, which is given what the wait returned.
  A call whose name says that it keeps the lock returns with the mutex taken.
\<close>

section \<open>The object\<close>

record sema2 =
  s2_cnt :: int
  s2_size :: int
  s2_mtx :: bool
  s2_gtz :: nat   \<comment> \<open>waiting on gtZeroCond\<close>
  s2_dec :: nat   \<comment> \<open>waiting on decrementCond\<close>

definition sema2_new :: "int \<Rightarrow> sema2" where
  "sema2_new init_count =
     \<lparr>s2_cnt = init_count, s2_size = init_count, s2_mtx = False, s2_gtz = 0, s2_dec = 0\<rparr>"

definition sema2_lockSemaOnly :: "sema2 \<Rightarrow> sema2 res" where
  "sema2_lockSemaOnly s = bindE (mutex_lock (s2_mtx s)) (\<lambda>m. Inr (s\<lparr>s2_mtx := m\<rparr>))"

definition sema2_releaseSemaLock :: "sema2 \<Rightarrow> sema2 res" where
  "sema2_releaseSemaLock s = bindE (mutex_unlock (s2_mtx s)) (\<lambda>m. Inr (s\<lparr>s2_mtx := m\<rparr>))"

definition sleep_gtz :: "sema2 \<Rightarrow> sema2 res" where
  "sleep_gtz s = bindE (sema2_releaseSemaLock s) (\<lambda>s. Inr (s\<lparr>s2_gtz := Suc (s2_gtz s)\<rparr>))"

definition sleep_dec :: "sema2 \<Rightarrow> sema2 res" where
  "sleep_dec s = bindE (sema2_releaseSemaLock s) (\<lambda>s. Inr (s\<lparr>s2_dec := Suc (s2_dec s)\<rparr>))"

definition signal_gtz :: "sema2 \<Rightarrow> int \<times> sema2" where
  "signal_gtz s = (0, s\<lparr>s2_gtz := s2_gtz s - 1\<rparr>)"

definition signal_dec :: "sema2 \<Rightarrow> int \<times> sema2" where
  "signal_dec s = (0, s\<lparr>s2_dec := s2_dec s - 1\<rparr>)"

definition broadcast_gtz :: "sema2 \<Rightarrow> int \<times> sema2" where
  "broadcast_gtz s = (0, s\<lparr>s2_gtz := 0\<rparr>)"

definition broadcast_dec :: "sema2 \<Rightarrow> int \<times> sema2" where
  "broadcast_dec s = (0, s\<lparr>s2_dec := 0\<rparr>)"

definition sema2_reset :: "sema2 \<Rightarrow> sema2 res" where
  "sema2_reset s = bindE (sema2_lockSemaOnly s) (\<lambda>s.
     sema2_releaseSemaLock (s\<lparr>s2_cnt := s2_size s\<rparr>))"

definition sema2_resetNoLock :: "sema2 \<Rightarrow> sema2" where
  "sema2_resetNoLock s = s\<lparr>s2_cnt := s2_size s\<rparr>"

definition sema2_cloneFrom :: "sema2 \<Rightarrow> sema2 \<Rightarrow> sema2" where
  "sema2_cloneFrom s other = (let s = s\<lparr>s2_cnt := s2_cnt other\<rparr> in s\<lparr>s2_size := s2_size other\<rparr>)"

section \<open>Acquiring\<close>

text \<open>What every acquiring call does once it has a unit.\<close>

definition take_unit :: "sema2 \<Rightarrow> sema2" where
  "take_unit s = snd (signal_dec (s\<lparr>s2_cnt := s2_cnt s - 1\<rparr>))"

text \<open>\<open>acquire\<close> with the mutex held: the loop ends with a unit or with a wait that failed.\<close>

definition sema2_acquire_loop :: "int \<Rightarrow> sema2 \<Rightarrow> (int progress \<times> sema2) res" where
  "sema2_acquire_loop ret s =
     (if ret = 0 \<and> s2_cnt s < 1 then bindE (sleep_gtz s) (\<lambda>s. Inr (Blocked, s))
      else let s = (if ret = 0 then take_unit s else s)
           in bindE (sema2_releaseSemaLock s) (\<lambda>s. Inr (Done ret, s)))"

definition sema2_acquire_enter :: "sema2 \<Rightarrow> (int progress \<times> sema2) res" where
  "sema2_acquire_enter s = bindE (sema2_lockSemaOnly s) (sema2_acquire_loop 0)"

definition sema2_acquire_resume :: "int \<Rightarrow> sema2 \<Rightarrow> (int progress \<times> sema2) res" where
  "sema2_acquire_resume ret s = bindE (sema2_lockSemaOnly s) (sema2_acquire_loop ret)"

text \<open>The timed variant differs only in the wait, which may also return \<^verbatim>\<open>ETIMEDOUT\<close>.\<close>

definition sema2_acquire_timed_enter :: "sema2 \<Rightarrow> (int progress \<times> sema2) res" where
  "sema2_acquire_timed_enter s =
     bindE (sema2_lockSemaOnly s) (\<lambda>s.
     if s2_cnt s < 1 then bindE (sleep_gtz s) (\<lambda>s. Inr (Blocked, s))
     else bindE (sema2_releaseSemaLock (take_unit s)) (\<lambda>s. Inr (Done 0, s)))"

definition sema2_acquire_timed_resume :: "int \<Rightarrow> sema2 \<Rightarrow> (int progress \<times> sema2) res" where
  "sema2_acquire_timed_resume ret s =
     bindE (sema2_lockSemaOnly s) (\<lambda>s.
     if ret \<noteq> 0 then bindE (sema2_releaseSemaLock s) (\<lambda>s. Inr (Done ret, s))
     else if s2_cnt s < 1 then bindE (sleep_gtz s) (\<lambda>s. Inr (Blocked, s))
     else bindE (sema2_releaseSemaLock (take_unit s)) (\<lambda>s. Inr (Done 0, s)))"

definition sema2_keep_loop :: "int \<Rightarrow> sema2 \<Rightarrow> (int progress \<times> sema2) res" where
  "sema2_keep_loop ret s =
     (if ret \<noteq> 0 then Inr (Done ret, s)
      else if 1 \<le> s2_cnt s then Inr (Done 0, take_unit s)
      else bindE (sleep_gtz s) (\<lambda>s. Inr (Blocked, s)))"

definition sema2_acquireAndKeepLock_enter :: "sema2 \<Rightarrow> (int progress \<times> sema2) res" where
  "sema2_acquireAndKeepLock_enter s = bindE (sema2_lockSemaOnly s) (sema2_keep_loop 0)"

definition sema2_acquireAndKeepLock_resume :: "int \<Rightarrow> sema2 \<Rightarrow> (int progress \<times> sema2) res" where
  "sema2_acquireAndKeepLock_resume ret s = bindE (sema2_lockSemaOnly s) (sema2_keep_loop ret)"

definition sema2_acquireAndKeepLockNoBlock :: "sema2 \<Rightarrow> (bool \<times> sema2) res" where
  "sema2_acquireAndKeepLockNoBlock s =
     bindE (sema2_lockSemaOnly s) (\<lambda>s.
     if 1 \<le> s2_cnt s then Inr (True, take_unit s) else Inr (False, s))"

definition sema2_acquireAndKeepLock_timed_enter :: "sema2 \<Rightarrow> (int progress \<times> sema2) res" where
  "sema2_acquireAndKeepLock_timed_enter s =
     bindE (sema2_lockSemaOnly s) (\<lambda>s.
     if 1 \<le> s2_cnt s then Inr (Done 0, take_unit s)
     else bindE (sleep_gtz s) (\<lambda>s. Inr (Blocked, s)))"

definition sema2_acquireAndKeepLock_timed_resume :: "int \<Rightarrow> sema2 \<Rightarrow> (int progress \<times> sema2) res" where
  "sema2_acquireAndKeepLock_timed_resume ret s =
     bindE (sema2_lockSemaOnly s) (\<lambda>s.
     if ret \<noteq> 0 then Inr (Done ret, s)
     else if 1 \<le> s2_cnt s then Inr (Done 0, take_unit s)
     else bindE (sleep_gtz s) (\<lambda>s. Inr (Blocked, s)))"

text \<open>The variants that are given a number of microseconds compute a deadline from the clock.\<close>

definition sema2_acquire_usec_enter :: "timeval \<Rightarrow> int \<Rightarrow> timespec \<Rightarrow> sema2 \<Rightarrow>
    (timespec \<times> int progress \<times> sema2) res" where
  "sema2_acquire_usec_enter now usec_wait ts s =
     (let tv = add_usec_to_timeval usec_wait now; ts = timeval_to_timespec tv ts
      in bindE (sema2_acquire_timed_enter s) (\<lambda>(p, s). Inr (ts, p, s)))"

definition sema2_acquireAndKeepLock_usec_enter :: "timeval \<Rightarrow> int \<Rightarrow> timespec \<Rightarrow> sema2 \<Rightarrow>
    (timespec \<times> int progress \<times> sema2) res" where
  "sema2_acquireAndKeepLock_usec_enter now usec_wait ts s =
     (let tv = add_usec_to_timeval usec_wait now; ts = timeval_to_timespec tv ts
      in bindE (sema2_acquireAndKeepLock_timed_enter s) (\<lambda>(p, s). Inr (ts, p, s)))"

section \<open>Waiting for an acquirer\<close>

definition lock_if :: "bool \<Rightarrow> sema2 \<Rightarrow> sema2 res" where
  "lock_if lock s = (if lock then sema2_lockSemaOnly s else Inr s)"

definition sema2_waitForAcquirers_enter :: "bool \<Rightarrow> sema2 \<Rightarrow> (int progress \<times> sema2) res" where
  "sema2_waitForAcquirers_enter lock s =
     bindE (lock_if lock s) (\<lambda>s.
     if s2_size s \<le> s2_cnt s then bindE (sleep_dec s) (\<lambda>s. Inr (Blocked, s))
     else bindE (sema2_releaseSemaLock s) (\<lambda>s. Inr (Done 0, s)))"

definition sema2_waitForAcquirers_resume :: "int \<Rightarrow> sema2 \<Rightarrow> (int \<times> sema2) res" where
  "sema2_waitForAcquirers_resume ret s =
     bindE (sema2_lockSemaOnly s) (\<lambda>s.
     let ret = (if s2_size s \<le> s2_cnt s then - 1 else ret)
     in bindE (sema2_releaseSemaLock s) (\<lambda>s. Inr (ret, s)))"

definition sema2_waitForAcquirers_timed_enter :: "bool \<Rightarrow> sema2 \<Rightarrow> (int progress \<times> sema2) res" where
  "sema2_waitForAcquirers_timed_enter lock s =
     bindE (lock_if lock s) (\<lambda>s.
     if s2_size s \<le> s2_cnt s then bindE (sleep_dec s) (\<lambda>s. Inr (Blocked, s))
     else bindE (sema2_releaseSemaLock s) (\<lambda>s. Inr (Done 0, s)))"

definition sema2_waitForAcquirers_usec_enter :: "timeval \<Rightarrow> int \<Rightarrow> timespec \<Rightarrow> bool \<Rightarrow> sema2 \<Rightarrow>
    (timespec \<times> int progress \<times> sema2) res" where
  "sema2_waitForAcquirers_usec_enter now usec_wait ts lock s =
     (let tv = add_usec_to_timeval usec_wait now; ts = timeval_to_timespec tv ts
      in bindE (sema2_waitForAcquirers_timed_enter lock s) (\<lambda>(p, s). Inr (ts, p, s)))"

definition sema2_waitForAcquirersKeepLock_enter :: "bool \<Rightarrow> sema2 \<Rightarrow> (int progress \<times> sema2) res" where
  "sema2_waitForAcquirersKeepLock_enter lock s =
     bindE (lock_if lock s) (\<lambda>s.
     if s2_size s \<le> s2_cnt s then bindE (sleep_dec s) (\<lambda>s. Inr (Blocked, s))
     else Inr (Done 0, s))"

definition sema2_waitForAcquirersKeepLock_resume :: "int \<Rightarrow> sema2 \<Rightarrow> (int \<times> sema2) res" where
  "sema2_waitForAcquirersKeepLock_resume ret s =
     bindE (sema2_lockSemaOnly s) (\<lambda>s. Inr (if s2_size s \<le> s2_cnt s then - 1 else ret, s))"

text \<open>The variant with a deadline calls \<^verbatim>\<open>pthread_cond_wait\<close>: the deadline has no effect.\<close>

definition sema2_waitForAcquirersKeepLock_timed_enter :: "timespec \<Rightarrow> bool \<Rightarrow> sema2 \<Rightarrow>
    (int progress \<times> sema2) res" where
  "sema2_waitForAcquirersKeepLock_timed_enter abstime lock s =
     bindE (lock_if lock s) (\<lambda>s.
     if s2_size s \<le> s2_cnt s then bindE (sleep_dec s) (\<lambda>s. Inr (Blocked, s))
     else Inr (Done 0, s))"

definition sema2_waitForAcquirersKeepLock_usec_enter :: "timeval \<Rightarrow> int \<Rightarrow> timespec \<Rightarrow> bool \<Rightarrow> sema2 \<Rightarrow>
    (int progress \<times> sema2) res" where
  "sema2_waitForAcquirersKeepLock_usec_enter now usec_wait ts lock s =
     (let tv = add_usec_to_timeval usec_wait now; ts = timeval_to_timespec tv ts
      in sema2_waitForAcquirersKeepLock_timed_enter ts lock s)"

definition sema2_waitForDecrementKeepLock_enter :: "bool \<Rightarrow> sema2 \<Rightarrow> (int progress \<times> sema2) res" where
  "sema2_waitForDecrementKeepLock_enter lock s =
     bindE (lock_if lock s) (\<lambda>s. bindE (sleep_dec s) (\<lambda>s. Inr (Blocked, s)))"

definition sema2_waitForDecrementKeepLock_usec_enter :: "timeval \<Rightarrow> int \<Rightarrow> timespec \<Rightarrow> bool \<Rightarrow> sema2 \<Rightarrow>
    (timespec \<times> int progress \<times> sema2) res" where
  "sema2_waitForDecrementKeepLock_usec_enter now usec_wait ts lock s =
     (let tv = add_usec_to_timeval usec_wait now; ts = timeval_to_timespec tv ts
      in bindE (lock_if lock s) (\<lambda>s. bindE (sleep_dec s) (\<lambda>s. Inr (ts, Blocked, s))))"

definition sema2_waitForDecrementKeepLock_resume :: "int \<Rightarrow> sema2 \<Rightarrow> (int \<times> sema2) res" where
  "sema2_waitForDecrementKeepLock_resume ret s =
     bindE (sema2_lockSemaOnly s) (\<lambda>s. Inr (ret, s))"

section \<open>Releasing\<close>

definition sema2_releaseWithoutLock :: "sema2 \<Rightarrow> int \<times> sema2" where
  "sema2_releaseWithoutLock s =
     (let s = s\<lparr>s2_cnt := s2_cnt s + 1\<rparr> in if 0 < s2_cnt s then signal_gtz s else (0, s))"

definition sema2_release :: "sema2 \<Rightarrow> (int \<times> sema2) res" where
  "sema2_release s =
     bindE (sema2_lockSemaOnly s) (\<lambda>s.
     let s = s\<lparr>s2_cnt := s2_cnt s + 1\<rparr>; (ret, s) = (if 0 < s2_cnt s then signal_gtz s else (0, s))
     in bindE (sema2_releaseSemaLock s) (\<lambda>s. Inr (ret, s)))"

definition sema2_releaseAndKeepLock :: "sema2 \<Rightarrow> (int \<times> sema2) res" where
  "sema2_releaseAndKeepLock s =
     bindE (sema2_lockSemaOnly s) (\<lambda>s.
     let s = s\<lparr>s2_cnt := s2_cnt s + 1\<rparr> in Inr (if 0 < s2_cnt s then signal_gtz s else (0, s)))"

definition sema2_releaseAll :: "sema2 \<Rightarrow> (int \<times> sema2) res" where
  "sema2_releaseAll s =
     bindE (sema2_lockSemaOnly s) (\<lambda>s.
     let s = s\<lparr>s2_cnt := s2_cnt s + 1\<rparr>; (_, s) = broadcast_dec s; (ret, s) = broadcast_gtz s
     in bindE (sema2_releaseSemaLock s) (\<lambda>s. Inr (ret, s)))"

definition sema2_releaseAllAcquireLocks :: "sema2 \<Rightarrow> sema2 res" where
  "sema2_releaseAllAcquireLocks s =
     bindE (sema2_lockSemaOnly s) (\<lambda>s. sema2_releaseSemaLock (snd (broadcast_dec s)))"

definition sema2_count :: "sema2 \<Rightarrow> (int \<times> sema2) res" where
  "sema2_count s = bindE (sema2_lockSemaOnly s) (\<lambda>s. let ret = s2_cnt s in
     bindE (sema2_releaseSemaLock s) (\<lambda>s. Inr (ret, s)))"

definition sema2_countNoBlock :: "sema2 \<Rightarrow> int" where
  "sema2_countNoBlock s = s2_cnt s"

definition sema2_destroy :: "sema2 \<Rightarrow> unit res" where
  "sema2_destroy s = bindE (sema2_lockSemaOnly s) (\<lambda>s.
     let (_, s) = broadcast_gtz s; (_, s) = broadcast_dec s
     in bindE (sema2_releaseSemaLock s) (\<lambda>s. Inr ()))"

section \<open>What one thread sees\<close>

lemma sema2_lock_simps [simp]:
  "\<not> s2_mtx s \<Longrightarrow> sema2_lockSemaOnly s = Inr (s\<lparr>s2_mtx := True\<rparr>)"
  "s2_mtx s \<Longrightarrow> sema2_lockSemaOnly s = Inl SelfDeadlock"
  "s2_mtx s \<Longrightarrow> sema2_releaseSemaLock s = Inr (s\<lparr>s2_mtx := False\<rparr>)"
  "\<not> s2_mtx s \<Longrightarrow> sema2_releaseSemaLock s = Inl NotLocked"
  by (simp_all add: sema2_lockSemaOnly_def sema2_releaseSemaLock_def)

lemma sema2_restore [simp]: "\<not> s2_mtx s \<Longrightarrow> s\<lparr>s2_mtx := False\<rparr> = s"
  by (cases s) simp

lemma take_unit_simps [simp]:
  "s2_mtx (take_unit s) = s2_mtx s" "s2_cnt (take_unit s) = s2_cnt s - 1"
  "s2_size (take_unit s) = s2_size s" "s2_gtz (take_unit s) = s2_gtz s"
  "s2_dec (take_unit s) = s2_dec s - 1"
  "take_unit (s\<lparr>s2_mtx := b\<rparr>) = (take_unit s)\<lparr>s2_mtx := b\<rparr>"
  by (simp_all add: take_unit_def signal_dec_def)

text \<open>A condition variable is not waited on without the mutex.\<close>

lemma sleep_simps [simp]:
  "s2_mtx s \<Longrightarrow> sleep_gtz s = Inr (s\<lparr>s2_mtx := False, s2_gtz := Suc (s2_gtz s)\<rparr>)"
  "s2_mtx s \<Longrightarrow> sleep_dec s = Inr (s\<lparr>s2_mtx := False, s2_dec := Suc (s2_dec s)\<rparr>)"
  "\<not> s2_mtx s \<Longrightarrow> sleep_dec s = Inl NotLocked"
  by (simp_all add: sleep_gtz_def sleep_dec_def)

lemma keep_enter_eq:
  "\<not> s2_mtx s \<Longrightarrow> sema2_acquireAndKeepLock_enter s = Inr (if 1 \<le> s2_cnt s
     then (Done 0, (take_unit s)\<lparr>s2_mtx := True\<rparr>) else (Blocked, s\<lparr>s2_gtz := Suc (s2_gtz s)\<rparr>))"
  by (cases s) (simp add: sema2_acquireAndKeepLock_enter_def sema2_keep_loop_def)

lemma keep_resume_eq:
  "\<not> s2_mtx s \<Longrightarrow> sema2_acquireAndKeepLock_resume 0 s = sema2_acquireAndKeepLock_enter s"
  by (simp add: sema2_acquireAndKeepLock_enter_def sema2_acquireAndKeepLock_resume_def)

lemma keep_timed_eq:
  "sema2_acquireAndKeepLock_timed_enter s = sema2_acquireAndKeepLock_enter s"
  "sema2_acquireAndKeepLock_timed_resume ret s = sema2_acquireAndKeepLock_resume ret s"
  by (cases "sema2_lockSemaOnly s"; simp add: sema2_acquireAndKeepLock_timed_enter_def
      sema2_acquireAndKeepLock_enter_def sema2_acquireAndKeepLock_timed_resume_def
      sema2_acquireAndKeepLock_resume_def sema2_keep_loop_def)+

lemma keep_noblock_eq:
  "\<not> s2_mtx s \<Longrightarrow> sema2_acquireAndKeepLockNoBlock s = Inr (if 1 \<le> s2_cnt s
     then (True, (take_unit s)\<lparr>s2_mtx := True\<rparr>) else (False, s\<lparr>s2_mtx := True\<rparr>))"
  by (simp add: sema2_acquireAndKeepLockNoBlock_def)

lemma sema2_acquire_eq:
  "\<not> s2_mtx s \<Longrightarrow> sema2_acquire_enter s = Inr (if s2_cnt s < 1
     then (Blocked, s\<lparr>s2_gtz := Suc (s2_gtz s)\<rparr>) else (Done 0, take_unit s))"
  by (cases s) (simp add: sema2_acquire_enter_def sema2_acquire_loop_def Let_def take_unit_def signal_dec_def)


lemma sema2_release_eq:
  "\<not> s2_mtx s \<Longrightarrow> sema2_release s = Inr (sema2_releaseWithoutLock s)"
  by (cases s) (simp add: sema2_release_def sema2_releaseWithoutLock_def signal_gtz_def Let_def)

lemma releaseWithoutLock_simps [simp]:
  "fst (sema2_releaseWithoutLock s) = 0"
  "s2_cnt (snd (sema2_releaseWithoutLock s)) = s2_cnt s + 1"
  "s2_size (snd (sema2_releaseWithoutLock s)) = s2_size s"
  "s2_mtx (snd (sema2_releaseWithoutLock s)) = s2_mtx s"
  by (simp_all add: sema2_releaseWithoutLock_def signal_gtz_def Let_def)

interpretation tw: counting_sema "\<lambda>s. \<not> s2_mtx s" s2_cnt sema2_acquire_enter sema2_release
proof
  fix s :: sema2
  assume "\<not> s2_mtx s"
  then show "holds (sema2_release s) (\<lambda>(r, s'). r = 0 \<and> \<not> s2_mtx s' \<and> s2_cnt s' = s2_cnt s + 1)"
    by (auto simp: sema2_release_eq split_def)
qed (auto simp: sema2_acquire_eq)

section \<open>Properties\<close>

text \<open>Used by one thread at a time, a TW_SemaTwoWay counts as TW_Sema does: \<open>acquire\<close> takes a
  unit or blocks when there is none, \<open>release\<close> gives one back.\<close>
theorem sema2_counts:
  assumes "\<not> s2_mtx s"
  shows "holds (run_sema sema2_acquire_enter sema2_release ops s)
    (\<lambda>(rs, s'). \<not> s2_mtx s' \<and> (rs, s2_cnt s') = count_ops ops (s2_cnt s))"
  by (rule tw.run_counts [OF assms])

theorem sema2_counts_witness:
  "holds (run_sema sema2_acquire_enter sema2_release [Acquire, Release, Acquire, Acquire] (sema2_new 1))
    (\<lambda>(rs, s'). \<not> s2_mtx s' \<and>
      (rs, s2_cnt s') = count_ops [Acquire, Release, Acquire, Acquire] (s2_cnt (sema2_new 1)))"
  by (rule sema2_counts) (simp add: sema2_new_def)

section \<open>Threads that share a two-way semaphore\<close>

text \<open>
  Threads call \<open>acquire\<close> with and without a time limit, \<open>release\<close> whether they hold a unit or not,
  \<open>releaseAll\<close>, \<open>reset\<close> and \<open>count\<close>. All of them change the counter under the mutex only, so a step is
  a whole call, or the part of one before or after a wait; a wait may return with an error or because its time is over, whether
  the thread was signalled or not. The flag of a waiting thread tells the call with a time limit.

  \<open>wgiven\<close> records the units that came from nowhere: those released by threads that held none, by \<open>releaseAll\<close>, and what
  \<open>reset\<close> made of the counter. No operation reads it.
\<close>

datatype wthread = WOut | WAsleep bool | WAwake bool | WHolding

record wsys =
  wsem :: sema2
  wths :: "wthread list"
  wgiven :: int

definition wsys_init :: "int \<Rightarrow> nat \<Rightarrow> wsys" where
  "wsys_init n k = \<lparr>wsem = sema2_new n, wths = replicate k WOut, wgiven = 0\<rparr>"

definition w_at :: "wsys \<Rightarrow> nat \<Rightarrow> wthread \<Rightarrow> bool" where
  "w_at s t c \<longleftrightarrow> t < length (wths s) \<and> wths s ! t = c"

definition w_go :: "sema2 \<Rightarrow> wthread list \<Rightarrow> int \<Rightarrow> wsys \<Rightarrow> wsys" where
  "w_go m ts g s = \<lparr>wsem = m, wths = ts, wgiven = wgiven s + g\<rparr>"

fun w_next :: "bool \<Rightarrow> int progress \<Rightarrow> wthread" where
  "w_next timed (Done r) = (if r = 0 then WHolding else WOut)"
| "w_next timed Blocked = WAsleep timed"

fun w_wake :: "wthread \<Rightarrow> wthread option" where
  "w_wake (WAsleep timed) = Some (WAwake timed)"
| "w_wake _ = None"

fun w_woken :: "wthread \<Rightarrow> wthread" where
  "w_woken (WAsleep timed) = WAwake timed"
| "w_woken c = c"

inductive w_step :: "wsys \<Rightarrow> wsys \<Rightarrow> bool" where
  w_enter: "w_at s t WOut \<Longrightarrow> sema2_acquire_enter (wsem s) = Inr (p, m) \<Longrightarrow>
    w_step s (w_go m ((wths s)[t := w_next False p]) 0 s)"
| w_resume: "w_at s t (WAwake False) \<Longrightarrow> sema2_acquire_resume ret (wsem s) = Inr (p, m) \<Longrightarrow>
    w_step s (w_go m ((wths s)[t := w_next False p]) 0 s)"
| w_timed_enter: "w_at s t WOut \<Longrightarrow> sema2_acquire_timed_enter (wsem s) = Inr (p, m) \<Longrightarrow>
    w_step s (w_go m ((wths s)[t := w_next True p]) 0 s)"
| w_timed_resume: "w_at s t (WAwake True) \<Longrightarrow> sema2_acquire_timed_resume ret (wsem s) = Inr (p, m) \<Longrightarrow>
    w_step s (w_go m ((wths s)[t := w_next True p]) 0 s)"
| w_release: "w_at s t WHolding \<Longrightarrow> sema2_release (wsem s) = Inr (r, m) \<Longrightarrow>
    signals (s2_gtz (wsem s)) (s2_gtz m) w_wake ((wths s)[t := WOut]) ts \<Longrightarrow> w_step s (w_go m ts 0 s)"
| w_foreign_release: "w_at s t WOut \<Longrightarrow> sema2_release (wsem s) = Inr (r, m) \<Longrightarrow>
    signals (s2_gtz (wsem s)) (s2_gtz m) w_wake (wths s) ts \<Longrightarrow> w_step s (w_go m ts 1 s)"
| w_releaseAll: "w_at s t c \<Longrightarrow> c \<in> {WOut, WHolding} \<Longrightarrow> sema2_releaseAll (wsem s) = Inr (r, m) \<Longrightarrow>
    w_step s (w_go m (map w_woken (wths s)) 1 s)"
| w_reset: "w_at s t c \<Longrightarrow> c \<in> {WOut, WHolding} \<Longrightarrow> sema2_reset (wsem s) = Inr m \<Longrightarrow>
    w_step s (w_go m (wths s) (s2_cnt m - s2_cnt (wsem s)) s)"
| w_count: "w_at s t c \<Longrightarrow> c \<in> {WOut, WHolding} \<Longrightarrow> sema2_count (wsem s) = Inr (r, m) \<Longrightarrow>
    w_step s (w_go m (wths s) 0 s)"
| w_spurious: "w_at s t (WAsleep timed) \<Longrightarrow>
    w_step s (w_go ((wsem s)\<lparr>s2_gtz := s2_gtz (wsem s) - 1\<rparr>) ((wths s)[t := WAwake timed]) 0 s)"

inductive w_reachable :: "int \<Rightarrow> nat \<Rightarrow> wsys \<Rightarrow> bool" for n k where
  w_reach_init: "w_reachable n k (wsys_init n k)"
| w_reach_step: "w_reachable n k s \<Longrightarrow> w_step s s' \<Longrightarrow> w_reachable n k s'"




lemma sema2_broadcasts_eq:
  "\<not> s2_mtx s \<Longrightarrow> sema2_releaseAll s = Inr (0, s\<lparr>s2_cnt := s2_cnt s + 1, s2_dec := 0, s2_gtz := 0\<rparr>)"
  "\<not> s2_mtx s \<Longrightarrow> sema2_reset s = Inr (s\<lparr>s2_cnt := s2_size s\<rparr>)"
  "\<not> s2_mtx s \<Longrightarrow> sema2_count s = Inr (s2_cnt s, s)"
  by (cases s; simp add: sema2_releaseAll_def sema2_reset_def sema2_count_def broadcast_dec_def broadcast_gtz_def Let_def)+







section \<open>Properties of the shared semaphore\<close>


section \<open>Executions\<close>

definition w_ex :: "int \<Rightarrow> int \<Rightarrow> wthread list \<Rightarrow> wsys" where
  "w_ex c g ts = \<lparr>wsem = (sema2_new 1)\<lparr>s2_cnt := c\<rparr>, wths = ts, wgiven = g\<rparr>"

lemma w_ex_start: "w_reachable 1 2 (w_ex 1 0 [WOut, WOut])"
  using w_reach_init [of 1 2] by (simp add: w_ex_def wsys_init_def sema2_new_def numeral_2_eq_2)

lemma w_ex_acquire:
  assumes "w_reachable n k (w_ex 1 g ts)" "t < length ts" "ts ! t = WOut"
  shows "w_reachable n k (w_ex 0 g (ts[t := WHolding]))"
proof -
  have "w_step (w_ex 1 g ts) (w_go ((sema2_new 1)\<lparr>s2_cnt := 0\<rparr>) ((wths (w_ex 1 g ts))[t := w_next False (Done 0)]) 0 (w_ex 1 g ts))"
    by (rule w_step.w_enter)
      (use assms in \<open>simp_all add: w_at_def w_ex_def sema2_acquire_eq sema2_new_def take_unit_def signal_dec_def\<close>)
  from w_reach_step [OF assms(1) this] show ?thesis by (simp add: w_go_def w_ex_def)
qed

lemma w_ex_reachable: "w_reachable 1 2 (w_ex 0 0 [WHolding, WOut])"
  using w_ex_acquire [OF w_ex_start, of 0] by simp

text \<open>\<open>reset\<close> does not know of the units that are held: after it a second thread gets the unit the first one holds. The same holds after a
  \<open>release\<close> by a thread that holds none, and after \<open>releaseAll\<close>.\<close>
theorem sema2_reset_doubles_a_unit:
  "\<exists>s. w_reachable 1 2 s \<and> wths s = [WHolding, WHolding] \<and> wgiven s = 1"
proof (intro exI conjI)
  let ?s = "w_ex 0 0 [WHolding, WOut]" and ?m = "(sema2_new 1)\<lparr>s2_cnt := 1\<rparr>"
  have "w_step ?s (w_go ?m (wths ?s) (s2_cnt ?m - s2_cnt (wsem ?s)) ?s)"
    by (rule w_step.w_reset [of _ 1 WOut])
      (simp_all add: w_at_def w_ex_def sema2_broadcasts_eq sema2_new_def)
  from w_reach_step [OF w_ex_reachable this] have "w_reachable 1 2 (w_ex 1 1 [WHolding, WOut])"
    by (simp add: w_go_def w_ex_def)
  from w_ex_acquire [OF this, of 1] show "w_reachable 1 2 (w_ex 0 1 [WHolding, WHolding])" by simp
qed (simp_all add: w_ex_def)


end
