(* ===== verification/TW_Circular.thy ===== *)
theory TW_Circular
  imports TW_Sema2 TW_Queue
begin

text \<open>
  The class tw_safeCircular of include/TW/tw_circular.h: a bounded queue in an array. Its
  TW_SemaTwoWay counts the free places, is its lock, and lets adders wait for a place and
  removers wait for an element.

  \<open>slots\<close> is the array \<open>data\<close>; a slot no object was built in is \<open>None\<close>. An access outside the
  array, or the use of a slot with no object, is a fault. \<open>isObjects\<close> says that the slots hold
  default-constructed objects from the start; the object \<^verbatim>\<open>T()\<close> is the argument \<open>dflt\<close>.
  What a moved-from value becomes is the argument \<open>moved\<close>.
\<close>

section \<open>The object\<close>

record 'a circ =
  isObjects :: bool
  c_reverse :: bool
  csema :: sema2
  c_enabled :: bool
  nextIn :: int
  nextOut :: int
  c_size :: int
  slots :: "'a option list"

text \<open>\<^verbatim>\<open>ALLOC::malloc(size * sizeof(T))\<close>, with \<open>esz\<close> the size of an element and \<open>mem\<close> whether the system has the memory,
  and the loop that builds the objects \<open>objs\<close> in the array. Nothing is tested: objects are built through a null pointer, or
  behind the end of an array that came out too small.\<close>

definition circ_array :: "nat \<Rightarrow> bool \<Rightarrow> int \<Rightarrow> 'a option list option \<Rightarrow> 'a option list res" where
  "circ_array esz mem sz objs = (case (if mem then array_room esz sz else None, objs) of
     (None, None) \<Rightarrow> Inr []
   | (None, Some vs) \<Rightarrow> if 0 < sz then Inl NullDeref else Inr []
   | (Some n, None) \<Rightarrow> Inr (replicate n None)
   | (Some n, Some vs) \<Rightarrow> if int n < sz then Inl OutOfBounds else Inr vs)"

definition circ_new :: "nat \<Rightarrow> bool \<Rightarrow> 'a \<Rightarrow> int \<Rightarrow> bool \<Rightarrow> 'a circ res" where
  "circ_new esz mem dflt sz initobj =
     bindE (circ_array esz mem sz (if initobj then Some (replicate (nat sz) (Some dflt)) else None)) (\<lambda>arr.
     Inr \<lparr>isObjects = initobj, c_reverse = False, csema = sema2_new sz,
       c_enabled = True, nextIn = - 1, nextOut = 0, c_size = sz, slots = arr\<rparr>)"

definition fetch :: "int \<Rightarrow> 'a circ \<Rightarrow> 'a res" where
  "fetch i c = (if i < 0 \<or> int (length (slots c)) \<le> i then Inl OutOfBounds
     else case slots c ! nat i of None \<Rightarrow> Inl Uninit | Some v \<Rightarrow> Inr v)"

definition store :: "int \<Rightarrow> 'a \<Rightarrow> 'a circ \<Rightarrow> 'a circ res" where
  "store i v c = (if i < 0 \<or> int (length (slots c)) \<le> i then Inl OutOfBounds
     else Inr (c\<lparr>slots := (slots c)[nat i := Some v]\<rparr>))"

definition circ_lock :: "'a circ \<Rightarrow> 'a circ res" where
  "circ_lock c = bindE (sema2_lockSemaOnly (csema c)) (\<lambda>s. Inr (c\<lparr>csema := s\<rparr>))"

definition circ_unlock :: "'a circ \<Rightarrow> 'a circ res" where
  "circ_unlock c = bindE (sema2_releaseSemaLock (csema c)) (\<lambda>s. Inr (c\<lparr>csema := s\<rparr>))"

definition circ_full :: "'a circ \<Rightarrow> bool" where
  "circ_full c = (sema2_countNoBlock (csema c) = 0)"

definition nextNextIn :: "'a circ \<Rightarrow> int" where
  "nextNextIn c = (if c_reverse c then let n = nextIn c - 1 in if n < 0 then c_size c - 1 else n
     else let n = nextIn c + 1 in if c_size c \<le> n then 0 else n)"

definition nextNextOut :: "'a circ \<Rightarrow> int" where
  "nextNextOut c = (if c_reverse c then let n = nextOut c - 1 in if n < 0 then c_size c - 1 else n
     else let n = nextOut c + 1 in if c_size c \<le> n then 0 else n)"

definition circ_remain :: "'a circ \<Rightarrow> int" where
  "circ_remain c = c_size c - sema2_countNoBlock (csema c)"

definition circ_reverse :: "'a circ \<Rightarrow> 'a circ" where
  "circ_reverse c =
     (if circ_remain c < 1 then c
      else let c = c\<lparr>c_reverse := \<not> c_reverse c\<rparr>; t = nextOut c;
               c = c\<lparr>nextOut := nextIn c\<rparr>
           in c\<lparr>nextIn := t\<rparr>)"

section \<open>Adding\<close>

text \<open>\<^verbatim>\<open>nextIn = nextNextIn(); data[nextIn] = the_d;\<close>\<close>

definition put_next :: "'a \<Rightarrow> 'a circ \<Rightarrow> 'a circ res" where
  "put_next the_d c = (let c = c\<lparr>nextIn := nextNextIn c\<rparr> in store (nextIn c) the_d c)"

text \<open>\<open>add\<close> stores whatever \<open>acquireAndKeepLock\<close> returned.\<close>

definition circ_add_tail :: "'a \<Rightarrow> int progress \<times> sema2 \<Rightarrow> 'a circ \<Rightarrow> (bool progress \<times> 'a circ) res" where
  "circ_add_tail the_d ps c = (case ps of
     (Blocked, s) \<Rightarrow> Inr (Blocked, c\<lparr>csema := s\<rparr>)
   | (Done r, s) \<Rightarrow> bindE (put_next the_d (c\<lparr>csema := s\<rparr>)) (\<lambda>c.
       bindE (circ_unlock c) (\<lambda>c. Inr (Done True, c))))"

definition circ_add_enter :: "'a \<Rightarrow> 'a circ \<Rightarrow> (bool progress \<times> 'a circ) res" where
  "circ_add_enter the_d c =
     bindE (sema2_acquireAndKeepLock_enter (csema c)) (\<lambda>ps. circ_add_tail the_d ps c)"

definition circ_add_resume :: "int \<Rightarrow> 'a \<Rightarrow> 'a circ \<Rightarrow> (bool progress \<times> 'a circ) res" where
  "circ_add_resume ret the_d c =
     bindE (sema2_acquireAndKeepLock_resume ret (csema c)) (\<lambda>ps. circ_add_tail the_d ps c)"

text \<open>The timed \<open>add\<close> stores only with a unit.\<close>

definition circ_add_timed_tail :: "'a \<Rightarrow> int progress \<times> sema2 \<Rightarrow> 'a circ \<Rightarrow> (bool progress \<times> 'a circ) res" where
  "circ_add_timed_tail the_d ps c = (case ps of
     (Blocked, s) \<Rightarrow> Inr (Blocked, c\<lparr>csema := s\<rparr>)
   | (Done r, s) \<Rightarrow>
       bindE (if r = 0 then put_next the_d (c\<lparr>csema := s\<rparr>) else Inr (c\<lparr>csema := s\<rparr>)) (\<lambda>c.
       bindE (circ_unlock c) (\<lambda>c. Inr (Done (r = 0), c))))"

definition circ_add_timed_enter :: "'a \<Rightarrow> 'a circ \<Rightarrow> (bool progress \<times> 'a circ) res" where
  "circ_add_timed_enter the_d c =
     bindE (sema2_acquireAndKeepLock_timed_enter (csema c)) (\<lambda>ps. circ_add_timed_tail the_d ps c)"

definition circ_add_timed_resume :: "int \<Rightarrow> 'a \<Rightarrow> 'a circ \<Rightarrow> (bool progress \<times> 'a circ) res" where
  "circ_add_timed_resume ret the_d c =
     bindE (sema2_acquireAndKeepLock_timed_resume ret (csema c)) (\<lambda>ps. circ_add_timed_tail the_d ps c)"

definition circ_addIfRoom :: "'a \<Rightarrow> 'a circ \<Rightarrow> (bool \<times> 'a circ) res" where
  "circ_addIfRoom the_d c =
     bindE (sema2_acquireAndKeepLockNoBlock (csema c)) (\<lambda>(got, s).
     let c = c\<lparr>csema := s\<rparr> in
     bindE (if got then put_next the_d c else Inr c) (\<lambda>c.
     bindE (circ_unlock c) (\<lambda>c. Inr (got, c))))"

text \<open>The moving variants also leave \<open>moved the_d\<close> in the caller's variable when they store.\<close>

definition circ_addMv_enter :: "('a \<Rightarrow> 'a) \<Rightarrow> 'a \<Rightarrow> 'a circ \<Rightarrow> ('a \<times> bool progress \<times> 'a circ) res" where
  "circ_addMv_enter moved the_d c =
     bindE (sema2_acquireAndKeepLock_enter (csema c)) (\<lambda>(p, s). case p of
       Blocked \<Rightarrow> Inr (the_d, Blocked, c\<lparr>csema := s\<rparr>)
     | Done r \<Rightarrow> bindE (put_next the_d (c\<lparr>csema := s\<rparr>)) (\<lambda>c.
         bindE (circ_unlock c) (\<lambda>c. Inr (moved the_d, Done True, c))))"

definition circ_addMvIfRoom :: "('a \<Rightarrow> 'a) \<Rightarrow> 'a \<Rightarrow> 'a circ \<Rightarrow> ('a \<times> bool \<times> 'a circ) res" where
  "circ_addMvIfRoom moved the_d c =
     bindE (sema2_acquireAndKeepLockNoBlock (csema c)) (\<lambda>(got, s).
     let c = c\<lparr>csema := s\<rparr> in
     bindE (if got then bindE (put_next the_d c) (\<lambda>c. Inr (moved the_d, c)) else Inr (the_d, c)) (\<lambda>(v, c).
     bindE (circ_unlock c) (\<lambda>c. Inr (v, got, c))))"

definition circ_addMv_timed_enter :: "('a \<Rightarrow> 'a) \<Rightarrow> 'a \<Rightarrow> 'a circ \<Rightarrow> ('a \<times> bool progress \<times> 'a circ) res" where
  "circ_addMv_timed_enter moved the_d c =
     bindE (sema2_acquireAndKeepLock_timed_enter (csema c)) (\<lambda>(p, s). case p of
       Blocked \<Rightarrow> Inr (the_d, Blocked, c\<lparr>csema := s\<rparr>)
     | Done r \<Rightarrow>
         bindE (if r = 0 then bindE (put_next the_d (c\<lparr>csema := s\<rparr>)) (\<lambda>c. Inr (moved the_d, c))
                else Inr (the_d, c\<lparr>csema := s\<rparr>)) (\<lambda>(v, c).
         bindE (circ_unlock c) (\<lambda>c. Inr (v, Done (r = 0), c))))"

section \<open>Removing\<close>

definition circ_release :: "'a circ \<Rightarrow> 'a circ" where
  "circ_release c = c\<lparr>csema := snd (sema2_releaseWithoutLock (csema c))\<rparr>"

definition reset_ends :: "'a circ \<Rightarrow> 'a circ" where
  "reset_ends c = c\<lparr>nextIn := - 1, nextOut := 0, c_reverse := False\<rparr>"

text \<open>The branch of every remover that finds \<open>r\<close> elements, \<open>r > 0\<close>; \<open>leave\<close> is what the slot
  keeps of the value: all of it, or what moving leaves.\<close>

definition take_next :: "('a \<Rightarrow> 'a) \<Rightarrow> int \<Rightarrow> 'a circ \<Rightarrow> ('a \<times> 'a circ) res" where
  "take_next leave r c =
     (let c = circ_release c in
      bindE (fetch (nextOut c) c) (\<lambda>fill.
      bindE (store (nextOut c) (leave fill) c) (\<lambda>c.
      let c = c\<lparr>nextOut := nextNextOut c\<rparr>;
          c = (if r = 1 then reset_ends c else c)
      in Inr (fill, c))))"

text \<open>The branch of a blocking remover that has waited: the unit is given back last, so that
  \<open>remain()\<close> still counts the element.\<close>

definition take_after_wait :: "('a \<Rightarrow> 'a) \<Rightarrow> 'a circ \<Rightarrow> ('a \<times> 'a circ) res" where
  "take_after_wait leave c =
     bindE (fetch (nextOut c) c) (\<lambda>fill.
     bindE (store (nextOut c) (leave fill) c) (\<lambda>c.
     let c = (if circ_remain c = 0 then reset_ends c else c);
         c = c\<lparr>nextOut := nextNextOut c\<rparr>
     in Inr (fill, circ_release c)))"

definition circ_remove :: "'a circ \<Rightarrow> ('a option \<times> 'a circ) res" where
  "circ_remove c =
     bindE (circ_lock c) (\<lambda>c.
     let r = circ_remain c in
     bindE (if 0 < r then bindE (take_next id r c) (\<lambda>(fill, c). Inr (Some fill, c))
            else Inr (None, c)) (\<lambda>(ret, c).
     bindE (circ_unlock c) (\<lambda>c. Inr (ret, c))))"

definition circ_removeMv :: "('a \<Rightarrow> 'a) \<Rightarrow> 'a circ \<Rightarrow> ('a option \<times> 'a circ) res" where
  "circ_removeMv moved c =
     bindE (circ_lock c) (\<lambda>c.
     let r = circ_remain c in
     bindE (if 0 < r then bindE (take_next moved r c) (\<lambda>(fill, c). Inr (Some fill, c))
            else Inr (None, c)) (\<lambda>(ret, c).
     bindE (circ_unlock c) (\<lambda>c. Inr (ret, c))))"

definition circ_removeOrBlock_enter :: "'a circ \<Rightarrow> ('a option progress \<times> 'a circ) res" where
  "circ_removeOrBlock_enter c =
     bindE (circ_lock c) (\<lambda>c.
     let rm = circ_remain c in
     if 0 < rm then
       bindE (take_next id rm c) (\<lambda>(fill, c). bindE (circ_unlock c) (\<lambda>c. Inr (Done (Some fill), c)))
     else
       bindE (sema2_waitForAcquirersKeepLock_enter False (csema c)) (\<lambda>(p, s). case p of
         Blocked \<Rightarrow> Inr (Blocked, c\<lparr>csema := s\<rparr>)
       | Done r \<Rightarrow>
           bindE (take_after_wait id (c\<lparr>csema := s\<rparr>)) (\<lambda>(fill, c).
           bindE (circ_unlock c) (\<lambda>c. Inr (Done (Some fill), c)))))"

definition circ_removeOrBlock_resume :: "int \<Rightarrow> 'a circ \<Rightarrow> ('a option \<times> 'a circ) res" where
  "circ_removeOrBlock_resume ret c =
     bindE (sema2_waitForAcquirersKeepLock_resume ret (csema c)) (\<lambda>(r, s).
     let c = c\<lparr>csema := s\<rparr> in
     bindE (if r = 0 then bindE (take_after_wait id c) (\<lambda>(fill, c). Inr (Some fill, c))
            else Inr (None, c)) (\<lambda>(ret, c).
     bindE (circ_unlock c) (\<lambda>c. Inr (ret, c))))"

definition circ_removeMvOrBlock_enter :: "('a \<Rightarrow> 'a) \<Rightarrow> 'a circ \<Rightarrow> ('a option progress \<times> 'a circ) res" where
  "circ_removeMvOrBlock_enter moved c =
     bindE (circ_lock c) (\<lambda>c.
     let rm = circ_remain c in
     if 0 < rm then
       bindE (take_next moved rm c) (\<lambda>(fill, c). bindE (circ_unlock c) (\<lambda>c. Inr (Done (Some fill), c)))
     else
       bindE (sema2_waitForAcquirersKeepLock_enter False (csema c)) (\<lambda>(p, s). case p of
         Blocked \<Rightarrow> Inr (Blocked, c\<lparr>csema := s\<rparr>)
       | Done r \<Rightarrow>
           bindE (take_after_wait moved (c\<lparr>csema := s\<rparr>)) (\<lambda>(fill, c).
           bindE (circ_unlock c) (\<lambda>c. Inr (Done (Some fill), c)))))"

definition circ_removeMvOrBlock_resume :: "('a \<Rightarrow> 'a) \<Rightarrow> int \<Rightarrow> 'a circ \<Rightarrow> ('a option \<times> 'a circ) res" where
  "circ_removeMvOrBlock_resume moved ret c =
     bindE (sema2_waitForAcquirersKeepLock_resume ret (csema c)) (\<lambda>(r, s).
     let c = c\<lparr>csema := s\<rparr> in
     bindE (if r = 0 then bindE (take_after_wait moved c) (\<lambda>(fill, c). Inr (Some fill, c))
            else Inr (None, c)) (\<lambda>(ret, c).
     bindE (circ_unlock c) (\<lambda>c. Inr (ret, c))))"


text \<open>With a time limit only the call of the semaphore differs.\<close>

definition circ_removeOrBlock_usec_enter :: "timeval \<Rightarrow> int \<Rightarrow> timespec \<Rightarrow> 'a circ \<Rightarrow>
    ('a option progress \<times> 'a circ) res" where
  "circ_removeOrBlock_usec_enter now usec_wait ts c =
     bindE (circ_lock c) (\<lambda>c.
     let rm = circ_remain c in
     if 0 < rm then
       bindE (take_next id rm c) (\<lambda>(fill, c). bindE (circ_unlock c) (\<lambda>c. Inr (Done (Some fill), c)))
     else
       bindE (sema2_waitForAcquirersKeepLock_usec_enter now usec_wait ts False (csema c)) (\<lambda>(p, s).
       case p of
         Blocked \<Rightarrow> Inr (Blocked, c\<lparr>csema := s\<rparr>)
       | Done r \<Rightarrow>
           bindE (take_after_wait id (c\<lparr>csema := s\<rparr>)) (\<lambda>(fill, c).
           bindE (circ_unlock c) (\<lambda>c. Inr (Done (Some fill), c)))))"

definition circ_removeMvOrBlock_usec_enter :: "('a \<Rightarrow> 'a) \<Rightarrow> timeval \<Rightarrow> int \<Rightarrow> timespec \<Rightarrow> 'a circ \<Rightarrow>
    ('a option progress \<times> 'a circ) res" where
  "circ_removeMvOrBlock_usec_enter moved now usec_wait ts c =
     bindE (circ_lock c) (\<lambda>c.
     let rm = circ_remain c in
     if 0 < rm then
       bindE (take_next moved rm c) (\<lambda>(fill, c). bindE (circ_unlock c) (\<lambda>c. Inr (Done (Some fill), c)))
     else
       bindE (sema2_waitForAcquirersKeepLock_usec_enter now usec_wait ts False (csema c)) (\<lambda>(p, s).
       case p of
         Blocked \<Rightarrow> Inr (Blocked, c\<lparr>csema := s\<rparr>)
       | Done r \<Rightarrow>
           bindE (take_after_wait moved (c\<lparr>csema := s\<rparr>)) (\<lambda>(fill, c).
           bindE (circ_unlock c) (\<lambda>c. Inr (Done (Some fill), c)))))"

section \<open>Access by position\<close>

text \<open>\<open>get\<close>, \<open>set\<close> and \<open>setMv\<close> walk from a first position, once for each of the \<open>n\<close> elements
  before the one they want; the position is wrapped before it is advanced.\<close>

definition walk_start :: "'a circ \<Rightarrow> int" where
  "walk_start c =
     (let p = nextOut c - 1;
          p = (if c_reverse c then let p = nextIn c - 2 in if p < 0 then c_size c - 1 else p else p)
      in p + 1)"

fun walk :: "int \<Rightarrow> nat \<Rightarrow> int \<Rightarrow> int" where
  "walk sz 0 p = p"
| "walk sz (Suc k) p = (let p = (if sz \<le> p then 0 else p) in walk sz k (p + 1))"

definition circ_get :: "int \<Rightarrow> 'a circ \<Rightarrow> ('a option \<times> 'a circ) res" where
  "circ_get n c =
     bindE (circ_lock c) (\<lambda>c.
     bindE (if 0 \<le> n \<and> n < circ_remain c
            then bindE (fetch (walk (c_size c) (nat n) (walk_start c)) c) (\<lambda>d. Inr (Some d))
            else Inr None) (\<lambda>ret.
     bindE (circ_unlock c) (\<lambda>c. Inr (ret, c))))"

definition circ_set :: "int \<Rightarrow> 'a \<Rightarrow> 'a circ \<Rightarrow> (bool \<times> 'a circ) res" where
  "circ_set n d c =
     bindE (circ_lock c) (\<lambda>c.
     bindE (if 0 \<le> n \<and> n < circ_remain c
            then bindE (store (walk (c_size c) (nat n) (walk_start c)) d c) (\<lambda>c. Inr (True, c))
            else Inr (False, c)) (\<lambda>(ret, c).
     bindE (circ_unlock c) (\<lambda>c. Inr (ret, c))))"

definition circ_setMv :: "('a \<Rightarrow> 'a) \<Rightarrow> int \<Rightarrow> 'a \<Rightarrow> 'a circ \<Rightarrow> ('a \<times> bool \<times> 'a circ) res" where
  "circ_setMv moved n d c =
     bindE (circ_lock c) (\<lambda>c.
     bindE (if 0 \<le> n \<and> n < circ_remain c
            then bindE (store (walk (c_size c) (nat n) (walk_start c)) d c) (\<lambda>c. Inr (moved d, True, c))
            else Inr (d, False, c)) (\<lambda>(d, ret, c).
     bindE (circ_unlock c) (\<lambda>c. Inr (d, ret, c))))"

section \<open>Iterating\<close>

record citer =
  ci_valid :: bool
  ci_n :: int
  ci_p :: int

definition circ_getIter :: "'a circ \<Rightarrow> (citer \<times> 'a circ) res" where
  "circ_getIter c =
     bindE (circ_lock c) (\<lambda>c.
     Inr (\<lparr>ci_valid = (0 < circ_remain c), ci_n = 0, ci_p = nextOut c\<rparr>, c))"

definition citer_next :: "citer \<Rightarrow> 'a circ \<Rightarrow> bool \<times> citer" where
  "citer_next i c =
     (let i = i\<lparr>ci_n := ci_n i + 1\<rparr> in
      if ci_n i < circ_remain c
      then let i = i\<lparr>ci_p := ci_p i + 1\<rparr> in
           (True, if c_size c \<le> ci_p i then i\<lparr>ci_p := 0\<rparr> else i)
      else (False, i\<lparr>ci_valid := False\<rparr>))"

definition citer_data :: "citer \<Rightarrow> 'a circ \<Rightarrow> 'a option res" where
  "citer_data i c = (if ci_valid i \<and> ci_n i < circ_remain c
     then bindE (fetch (ci_p i) c) (\<lambda>d. Inr (Some d)) else Inr None)"

definition citer_atEnd :: "citer \<Rightarrow> 'a circ \<Rightarrow> bool" where
  "citer_atEnd i c = (if ci_valid i \<and> ci_n i < circ_remain c then False else True)"

definition citer_release :: "citer \<Rightarrow> 'a circ \<Rightarrow> (citer \<times> 'a circ) res" where
  "citer_release i c = bindE (circ_unlock c) (\<lambda>c. Inr (i\<lparr>ci_valid := False\<rparr>, c))"

text \<open>The loop of a caller: read, advance, until \<open>next\<close> says that there is no more.\<close>

fun citer_all :: "nat \<Rightarrow> citer \<Rightarrow> 'a circ \<Rightarrow> 'a list res" where
  "citer_all 0 i c = (if citer_atEnd i c then Inr [] else Inl Diverges)"
| "citer_all (Suc k) i c =
     bindE (citer_data i c) (\<lambda>d. case d of None \<Rightarrow> Inr [] | Some v \<Rightarrow>
       let (more, i) = citer_next i c in
       if more then bindE (citer_all k i c) (\<lambda>vs. Inr (v # vs)) else Inr [v])"

section \<open>The whole buffer\<close>

definition circ_remaining :: "'a circ \<Rightarrow> (int \<times> 'a circ) res" where
  "circ_remaining c = bindE (circ_lock c) (\<lambda>c. let ret = circ_remain c in
     bindE (circ_unlock c) (\<lambda>c. Inr (ret, c)))"

definition circ_enable :: "'a circ \<Rightarrow> 'a circ res" where
  "circ_enable c = bindE (circ_lock c) (\<lambda>c. circ_unlock (c\<lparr>c_enabled := True\<rparr>))"

definition circ_disable :: "'a circ \<Rightarrow> 'a circ res" where
  "circ_disable c = bindE (circ_lock c) (\<lambda>c. circ_unlock (c\<lparr>c_enabled := False\<rparr>))"

definition circ_clear :: "'a \<Rightarrow> 'a circ \<Rightarrow> 'a circ res" where
  "circ_clear dflt c =
     bindE (circ_lock c) (\<lambda>c.
     let c = (if isObjects c then c\<lparr>slots := replicate (nat (c_size c)) (Some dflt)\<rparr> else c);
         c = c\<lparr>nextIn := - 1, nextOut := 0\<rparr>;
         c = c\<lparr>c_reverse := False, c_enabled := True\<rparr>
     in circ_unlock (c\<lparr>csema := sema2_resetNoLock (csema c)\<rparr>))"

text \<open>\<open>cloneFrom\<close> and \<open>transferFrom\<close>: the new array is raw memory, and objects are built in it
  (by the copying or the moving constructor) only when \<open>isObjects\<close>. The result is
  \<^verbatim>\<open>*this\<close>, then \<open>other\<close>.\<close>

definition circ_cloneFrom :: "nat \<Rightarrow> bool \<Rightarrow> 'a circ \<Rightarrow> 'a circ \<Rightarrow> ('a circ \<times> 'a circ) res" where
  "circ_cloneFrom esz mem c other =
     bindE (circ_lock c) (\<lambda>c.
     bindE (circ_lock other) (\<lambda>other.
     let c = c\<lparr>csema := sema2_cloneFrom (csema c) (csema other)\<rparr>;
         c = c\<lparr>nextIn := nextIn other, nextOut := nextOut other, c_size := c_size other,
               isObjects := isObjects other, c_reverse := c_reverse other,
               c_enabled := c_enabled other\<rparr>
     in bindE (circ_array esz mem (c_size c) (if isObjects c then Some (slots other) else None)) (\<lambda>arr.
        let c = c\<lparr>slots := arr\<rparr>
        in bindE (circ_unlock other) (\<lambda>other.
           bindE (circ_unlock c) (\<lambda>c. Inr (c, other))))))"

definition circ_transferFrom :: "nat \<Rightarrow> bool \<Rightarrow> ('a \<Rightarrow> 'a) \<Rightarrow> 'a circ \<Rightarrow> 'a circ \<Rightarrow> ('a circ \<times> 'a circ) res" where
  "circ_transferFrom esz mem moved c other =
     bindE (circ_lock c) (\<lambda>c.
     bindE (circ_lock other) (\<lambda>other.
     let c = c\<lparr>csema := sema2_cloneFrom (csema c) (csema other)\<rparr>;
         c = c\<lparr>nextIn := nextIn other, nextOut := nextOut other, c_size := c_size other,
               isObjects := isObjects other, c_reverse := c_reverse other,
               c_enabled := c_enabled other\<rparr>
     in bindE (circ_array esz mem (c_size c) (if isObjects c then Some (slots other) else None)) (\<lambda>arr.
        let c = c\<lparr>slots := arr\<rparr>;
            other = (if isObjects c then other\<lparr>slots := map (map_option moved) (slots other)\<rparr> else other);
            other = other\<lparr>csema := sema2_resetNoLock (csema other)\<rparr>;
            other = other\<lparr>nextIn := - 1, nextOut := 0\<rparr>
        in bindE (circ_unlock other) (\<lambda>other.
           bindE (circ_unlock c) (\<lambda>c. Inr (c, other))))))"

definition circ_unblockAll :: "'a circ \<Rightarrow> 'a circ res" where
  "circ_unblockAll c = bindE (sema2_releaseAll (csema c)) (\<lambda>(_, s). Inr (c\<lparr>csema := s\<rparr>))"

definition circ_unblockAllRemovers :: "'a circ \<Rightarrow> 'a circ res" where
  "circ_unblockAllRemovers c =
     bindE (sema2_releaseAllAcquireLocks (csema c)) (\<lambda>s. Inr (c\<lparr>csema := s\<rparr>))"

text \<open>The destructor destroys the objects; it does not free the array.\<close>

definition circ_destroy :: "'a circ \<Rightarrow> 'a circ res" where
  "circ_destroy c =
     bindE (circ_unblockAll c) (\<lambda>c.
     bindE (circ_lock c) (\<lambda>c.
     circ_unlock (if isObjects c then c\<lparr>slots := replicate (nat (c_size c)) None\<rparr> else c)))"

section \<open>The list a buffer holds\<close>

text \<open>\<open>dir\<close> is the way the two ends move; \<open>slot\<close> is where element \<open>i\<close> lies.\<close>

definition dir :: "'a circ \<Rightarrow> int" where
  "dir c = (if c_reverse c then - 1 else 1)"

definition slot :: "'a circ \<Rightarrow> int \<Rightarrow> int" where
  "slot c i = (nextOut c + dir c * i) mod c_size c"

definition circ_core :: "'a circ \<Rightarrow> 'a list \<Rightarrow> bool" where
  "circ_core c xs \<longleftrightarrow> 0 < c_size c \<and> length (slots c) = nat (c_size c) \<and>
     s2_size (csema c) = c_size c \<and> s2_cnt (csema c) = c_size c - int (length xs) \<and>
     int (length xs) \<le> c_size c \<and> 0 \<le> nextOut c \<and> nextOut c < c_size c \<and>
     - 1 \<le> nextIn c \<and> nextIn c < c_size c \<and> (c_reverse c \<or> xs \<noteq> [] \<longrightarrow> 0 \<le> nextIn c) \<and>
     nextIn c mod c_size c = slot c (int (length xs) - 1) \<and>
     (\<forall>i<length xs. slots c ! nat (slot c (int i)) = Some (xs ! i))"

definition circ_rep :: "'a circ \<Rightarrow> 'a list \<Rightarrow> bool" where
  "circ_rep c xs \<longleftrightarrow> circ_core c xs \<and> \<not> s2_mtx (csema c)"

lemma dir_cases: "dir c = 1 \<or> dir c = - 1"
  by (simp add: dir_def)

lemma slot_bounds: "0 < c_size c \<Longrightarrow> 0 \<le> slot c i \<and> slot c i < c_size c"
  by (simp add: slot_def)

lemma slot_inj:
  assumes "0 \<le> i" and "i < j" and "j < c_size c"
  shows "slot c i \<noteq> slot c j"
proof
  assume "slot c i = slot c j"
  then have "c_size c dvd dir c * i - dir c * j" by (simp add: slot_def mod_eq_dvd_iff)
  then have "c_size c dvd j - i"
    using dir_cases [of c] by (auto simp: dvd_diff_commute)
  then have "c_size c \<le> j - i" using assms(2) by (simp add: zdvd_imp_le)
  then show False using assms by simp
qed

lemma slot_eq_iff:
  "0 \<le> i \<Longrightarrow> 0 \<le> j \<Longrightarrow> i < c_size c \<Longrightarrow> j < c_size c \<Longrightarrow> slot c i = slot c j \<longleftrightarrow> i = j"
  using slot_inj [of i j c] slot_inj [of j i c] by (metis linorder_neqE_linordered_idom)

lemma mod_step_up: "0 \<le> a \<Longrightarrow> a \<le> n \<Longrightarrow> 0 < n \<Longrightarrow> (if n \<le> a then 0 else a) = a mod (n::int)"
  by auto

lemma mod_step_down: "- 1 \<le> a \<Longrightarrow> a < n \<Longrightarrow> 0 < n \<Longrightarrow> (if a < 0 then n - 1 else a) = a mod (n::int)"
proof -
  assume a: "- 1 \<le> a" "a < n" "0 < n"
  show ?thesis
  proof (cases "a < 0")
    case True
    with a have "a = - 1" by simp
    then show ?thesis using a by (simp add: zmod_minus1)
  qed (use a in simp)
qed

lemma nextNextIn_eq:
  assumes "circ_core c xs"
  shows "nextNextIn c = slot c (int (length xs))"
proof -
  have "nextNextIn c = (nextIn c + dir c) mod c_size c"
    using assms mod_step_up [of "nextIn c + 1" "c_size c"] mod_step_down [of "nextIn c - 1" "c_size c"]
    by (auto simp: nextNextIn_def circ_core_def dir_def Let_def)
  also have "\<dots> = (nextIn c mod c_size c + dir c) mod c_size c" by (simp add: mod_simps)
  also have "\<dots> = (slot c (int (length xs) - 1) + dir c) mod c_size c"
    using assms by (simp add: circ_core_def)
  also have "\<dots> = slot c (int (length xs))"
    by (simp add: slot_def mod_simps algebra_simps)
  finally show ?thesis .
qed

lemma nextNextOut_eq:
  assumes "0 \<le> nextOut c" and "nextOut c < c_size c"
  shows "nextNextOut c = slot c 1"
  using assms mod_step_up [of "nextOut c + 1" "c_size c"] mod_step_down [of "nextOut c - 1" "c_size c"]
  by (auto simp: nextNextOut_def slot_def dir_def Let_def)

text \<open>The fields that place an element.\<close>

lemma slot_cong:
  "nextOut c' = nextOut c \<Longrightarrow> c_reverse c' = c_reverse c \<Longrightarrow> c_size c' = c_size c \<Longrightarrow>
     slot c' i = slot c i"
  by (simp add: slot_def dir_def)

lemma slot_fields [simp]:
  "slot (c\<lparr>csema := s\<rparr>) i = slot c i" "slot (c\<lparr>nextIn := n\<rparr>) i = slot c i"
  "slot (c\<lparr>slots := xs\<rparr>) i = slot c i" "slot (c\<lparr>c_enabled := b\<rparr>) i = slot c i"
  by (simp_all add: slot_def dir_def)

lemma put_next_rep:
  assumes r: "circ_core c xs" and room: "int (length xs) < c_size c"
  shows "put_next x c = Inr (c\<lparr>nextIn := slot c (int (length xs)),
      slots := (slots c)[nat (slot c (int (length xs))) := Some x]\<rparr>)"
    and "circ_core (c\<lparr>nextIn := slot c (int (length xs)), csema := s,
      slots := (slots c)[nat (slot c (int (length xs))) := Some x]\<rparr>) (xs @ [x]) \<longleftrightarrow>
      s2_cnt s = s2_cnt (csema c) - 1 \<and> s2_size s = c_size c"
proof -
  let ?n = "slot c (int (length xs))"
  have sz: "0 < c_size c" "length (slots c) = nat (c_size c)" using r by (simp_all add: circ_core_def)
  note b = slot_bounds [OF sz(1)]
  show "put_next x c = Inr (c\<lparr>nextIn := ?n, slots := (slots c)[nat ?n := Some x]\<rparr>)"
    using b [of "int (length xs)"] sz
    by (simp add: put_next_def Let_def nextNextIn_eq [OF r] store_def)
  have ne: "nat (slot c (int i)) \<noteq> nat ?n" if "i < length xs" for i
    using slot_inj [of "int i" "int (length xs)" c] that room b [of "int i"] b [of "int (length xs)"]
    by (simp add: eq_nat_nat_iff)
  have "(slots c)[nat ?n := Some x] ! nat (slot c (int i)) = Some ((xs @ [x]) ! i)"
    if "i < Suc (length xs)" for i
    using that ne [of i] r b [of "int (length xs)"] sz
    by (cases "i = length xs") (auto simp: circ_core_def nth_append)
  then show "circ_core (c\<lparr>nextIn := ?n, csema := s, slots := (slots c)[nat ?n := Some x]\<rparr>) (xs @ [x]) \<longleftrightarrow>
      s2_cnt s = s2_cnt (csema c) - 1 \<and> s2_size s = c_size c"
    using r room b [of "int (length xs)"] sz by (auto simp: circ_core_def)
qed


text \<open>Taking the first element out of a buffer that holds one.\<close>

lemma slot_next:
  assumes "nextOut c' = slot c 1" and "c_reverse c' = c_reverse c" and "c_size c' = c_size c"
  shows "slot c' i = slot c (i + 1)"
  using assms by (simp add: slot_def dir_def mod_simps algebra_simps)

lemma fetch_cong: "slots c' = slots c \<Longrightarrow> fetch i c' = fetch i c"
  by (simp add: fetch_def)

lemma fetch_store_first:
  assumes r: "circ_core c (x # xs)"
  shows "fetch (nextOut c) c = Inr x"
    and "store (nextOut c) y c = Inr (c\<lparr>slots := (slots c)[nat (nextOut c) := Some y]\<rparr>)"
proof -
  have "nextOut c = slot c 0" "length (slots c) = nat (c_size c)" "0 < c_size c"
    using r by (auto simp: circ_core_def slot_def)
  moreover have "slots c ! nat (slot c 0) = Some x" using r by (auto simp: circ_core_def)
  ultimately show "fetch (nextOut c) c = Inr x"
    and "store (nextOut c) y c = Inr (c\<lparr>slots := (slots c)[nat (nextOut c) := Some y]\<rparr>)"
    using slot_bounds [of c 0] by (simp_all add: fetch_def store_def)
qed

lemma circ_core_tail:
  assumes r: "circ_core c (x # xs)" and n: "c' = c\<lparr>nextOut := slot c 1, csema := s,
      slots := (slots c)[nat (nextOut c) := Some y]\<rparr>"
    and s: "s2_cnt s = s2_cnt (csema c) + 1" "s2_size s = c_size c"
  shows "circ_core c' xs"
proof -
  have sz: "0 < c_size c" "length (slots c) = nat (c_size c)" "int (length xs) < c_size c"
    "nextOut c = slot c 0" using r by (auto simp: circ_core_def slot_def)
  note b = slot_bounds [OF sz(1)]
  have sl: "slot c' i = slot c (i + 1)" for i by (rule slot_next) (simp_all add: n)
  have "slots c' ! nat (slot c' (int i)) = Some (xs ! i)" if "i < length xs" for i
  proof -
    have "slot c 0 \<noteq> slot c (int i + 1)" using that sz(3) by (intro slot_inj) auto
    then have "nat (nextOut c) \<noteq> nat (slot c (int i + 1))"
      using b [of 0] b [of "int i + 1"] sz(4) by (simp add: eq_nat_nat_iff)
    moreover have "slots c ! nat (slot c (int (Suc i))) = Some ((x # xs) ! Suc i)"
      using r that by (simp only: circ_core_def length_Cons Suc_less_eq)
    moreover have "slots c' = (slots c)[nat (nextOut c) := Some y]" by (simp add: n)
    ultimately show ?thesis by (simp add: sl add.commute)
  qed
  then show ?thesis
    using r s b [of 1] sl [of "int (length xs) - 1"] by (auto simp: circ_core_def n)
qed

lemma circ_core_empty:
  assumes "0 < c_size c" and "length (slots c) = nat (c_size c)" and "s2_size (csema c) = c_size c"
    and "s2_cnt (csema c) = c_size c" and "nextIn c = - 1" and "nextOut c = 0" and "\<not> c_reverse c"
  shows "circ_core c []"
  using assms by (simp add: circ_core_def slot_def dir_def)

lemma circ_remain_eq: "circ_core c xs \<Longrightarrow> circ_remain c = int (length xs)"
  by (simp add: circ_core_def circ_remain_def sema2_countNoBlock_def)

lemma circ_release_fields [simp]:
  "nextOut (circ_release c) = nextOut c" "nextIn (circ_release c) = nextIn c"
  "c_size (circ_release c) = c_size c" "c_reverse (circ_release c) = c_reverse c"
  "slots (circ_release c) = slots c" "isObjects (circ_release c) = isObjects c"
  "c_enabled (circ_release c) = c_enabled c"
  "csema (circ_release c) = snd (sema2_releaseWithoutLock (csema c))"
  by (simp_all add: circ_release_def)

text \<open>What the two removing branches have in common: the fields they do not change.\<close>

definition same_circ :: "'a circ \<Rightarrow> 'a circ \<Rightarrow> bool" where
  "same_circ c c' \<longleftrightarrow> c_size c' = c_size c \<and> isObjects c' = isObjects c \<and> c_enabled c' = c_enabled c"

lemma take_next_rep:
  assumes r: "circ_core c (x # xs)"
  shows "holds (take_next leave (int (length (x # xs))) c) (\<lambda>(v, c'). v = x \<and> circ_core c' xs \<and>
    same_circ c c' \<and> csema c' = snd (sema2_releaseWithoutLock (csema c)))"
proof -
  have rng: "0 \<le> nextOut c" "nextOut c < c_size c" using r by (simp_all add: circ_core_def)
  let ?d = "c\<lparr>csema := snd (sema2_releaseWithoutLock (csema c)),
    slots := (slots c)[nat (nextOut c) := Some (leave x)], nextOut := slot c 1\<rparr>"
  have f: "fetch (nextOut c) (circ_release c) = Inr x"
    using fetch_store_first(1) [OF r] fetch_cong [of "circ_release c" c] by simp
  have s: "store (nextOut c) (leave x) (circ_release c) =
      Inr (c\<lparr>csema := snd (sema2_releaseWithoutLock (csema c)),
        slots := (slots c)[nat (nextOut c) := Some (leave x)]\<rparr>)"
    using fetch_store_first(2) [OF r, of "leave x"] by (auto simp: store_def circ_release_def split: if_splits)
  have nn: "nextNextOut (c\<lparr>csema := t, slots := l\<rparr>) = slot c 1" for t l
    using nextNextOut_eq [of "c\<lparr>csema := t, slots := l\<rparr>"] rng by simp
  have eq: "take_next leave (int (length (x # xs))) c = Inr (x, if xs = [] then reset_ends ?d else ?d)"
    using f s nn by (simp add: take_next_def Let_def)
  have core: "circ_core ?d xs"
    by (rule circ_core_tail [OF r, where s = "snd (sema2_releaseWithoutLock (csema c))" and y = "leave x"])
      (use r in \<open>simp_all add: circ_core_def\<close>)
  have "circ_core (reset_ends ?d) []" if "xs = []"
    by (rule circ_core_empty) (use core that in \<open>auto simp: circ_core_def reset_ends_def\<close>)
  with eq core show ?thesis by (simp add: same_circ_def reset_ends_def)
qed

lemma take_after_wait_rep:
  assumes r: "circ_core c (x # xs)"
  shows "holds (take_after_wait leave c) (\<lambda>(v, c'). v = x \<and> circ_core c' xs \<and>
    same_circ c c' \<and> csema c' = snd (sema2_releaseWithoutLock (csema c)))"
proof -
  have rng: "0 \<le> nextOut c" "nextOut c < c_size c" using r by (simp_all add: circ_core_def)
  let ?e = "c\<lparr>slots := (slots c)[nat (nextOut c) := Some (leave x)]\<rparr>"
  let ?d = "c\<lparr>csema := snd (sema2_releaseWithoutLock (csema c)),
    slots := (slots c)[nat (nextOut c) := Some (leave x)], nextOut := slot c 1\<rparr>"
  have nn: "nextNextOut ?e = slot c 1" using nextNextOut_eq [of ?e] rng by simp
  have "circ_remain ?e = circ_remain c" by (simp add: circ_remain_def)
  then have "circ_remain ?e \<noteq> 0" using circ_remain_eq [OF r] by simp
  then have "take_after_wait leave c = Inr (x, ?d)"
    using fetch_store_first(1) [OF r] fetch_store_first(2) [OF r, of "leave x"] nn
    by (simp add: take_after_wait_def Let_def circ_release_def)
  moreover have "circ_core ?d xs"
    by (rule circ_core_tail [OF r, where s = "snd (sema2_releaseWithoutLock (csema c))" and y = "leave x"])
      (use r in \<open>simp_all add: circ_core_def\<close>)
  ultimately show ?thesis by (simp add: same_circ_def)
qed

section \<open>What the operations do\<close>

lemma circ_lock_simps [simp]:
  "\<not> s2_mtx (csema c) \<Longrightarrow> circ_lock c = Inr (c\<lparr>csema := (csema c)\<lparr>s2_mtx := True\<rparr>\<rparr>)"
  "s2_mtx (csema c) \<Longrightarrow> circ_lock c = Inl SelfDeadlock"
  "s2_mtx (csema c) \<Longrightarrow> circ_unlock c = Inr (c\<lparr>csema := (csema c)\<lparr>s2_mtx := False\<rparr>\<rparr>)"
  by (simp_all add: circ_lock_def circ_unlock_def)

lemma circ_core_sema:
  "s2_cnt s = s2_cnt (csema c) \<Longrightarrow> s2_size s = s2_size (csema c) \<Longrightarrow>
     circ_core (c\<lparr>csema := s\<rparr>) xs = circ_core c xs"
  by (simp add: circ_core_def)

lemma circ_restore [simp]: "\<not> s2_mtx (csema c) \<Longrightarrow> c\<lparr>csema := (csema c)\<lparr>s2_mtx := False\<rparr>\<rparr> = c"
  by simp

lemma circ_unlock_core:
  assumes "circ_core c xs" and "s2_mtx (csema c)"
  obtains c' where "circ_unlock c = Inr c'" and "circ_rep c' xs" and "same_circ c c'"
  using assms by (auto simp: circ_rep_def circ_core_sema same_circ_def intro: that)

lemma same_circ_trans: "same_circ a b \<Longrightarrow> same_circ b c \<Longrightarrow> same_circ a c"
  by (simp add: same_circ_def)

subsection \<open>Adding\<close>

lemma put_unlock:
  assumes r: "circ_core c xs" and room: "int (length xs) < c_size c"
    and s: "s2_mtx s" "s2_cnt s = s2_cnt (csema c) - 1" "s2_size s = c_size c"
  obtains c' c'' where "put_next x (c\<lparr>csema := s\<rparr>) = Inr c'" and "circ_unlock c' = Inr c''"
    and "circ_rep c'' (xs @ [x])" and "same_circ c c''"
proof -
  let ?n = "slot c (int (length xs))"
  let ?p = "c\<lparr>nextIn := ?n, slots := (slots c)[nat ?n := Some x]\<rparr>"
  have "put_next x (c\<lparr>csema := s\<rparr>) = bindE (put_next x c) (\<lambda>c. Inr (c\<lparr>csema := s\<rparr>))"
    by (simp add: put_next_def Let_def store_def nextNextIn_def)
  then have p: "put_next x (c\<lparr>csema := s\<rparr>) = Inr (?p\<lparr>csema := s\<rparr>)"
    by (simp add: put_next_rep(1) [OF r room])
  have "?p\<lparr>csema := s\<rparr> = c\<lparr>nextIn := ?n, csema := s, slots := (slots c)[nat ?n := Some x]\<rparr>"
    by (cases c) simp
  then have core: "circ_core (?p\<lparr>csema := s\<rparr>) (xs @ [x])"
    using put_next_rep(2) [OF r room, where s = s and x = x] s by (simp only:)
  with circ_unlock_core [OF core] s(1) obtain c'' where
    "circ_unlock (?p\<lparr>csema := s\<rparr>) = Inr c''" "circ_rep c'' (xs @ [x])" "same_circ (?p\<lparr>csema := s\<rparr>) c''"
    by auto
  with p that show ?thesis by (auto simp: same_circ_def)
qed

lemma circ_add_rep:
  assumes r: "circ_rep c xs" and room: "int (length xs) < c_size c"
  shows "holds (circ_add_enter x c) (\<lambda>(p, c'). p = Done True \<and> circ_rep c' (xs @ [x]) \<and> same_circ c c')"
proof -
  let ?s = "(take_unit (csema c))\<lparr>s2_mtx := True\<rparr>"
  from r have core: "circ_core c xs" "\<not> s2_mtx (csema c)" by (simp_all add: circ_rep_def)
  then have "1 \<le> s2_cnt (csema c)" "s2_size (csema c) = c_size c" using room by (simp_all add: circ_core_def)
  moreover from this obtain c' c'' where "put_next x (c\<lparr>csema := ?s\<rparr>) = Inr c'"
    "circ_unlock c' = Inr c''" "circ_rep c'' (xs @ [x])" "same_circ c c''"
    using put_unlock [OF core(1) room, of ?s x] by auto
  ultimately show ?thesis using core(2)
    by (simp add: circ_add_enter_def circ_add_tail_def keep_enter_eq)
qed

lemma circ_add_full:
  assumes r: "circ_rep c xs" and full: "int (length xs) = c_size c"
  shows "circ_add_enter x c =
      Inr (Blocked, c\<lparr>csema := (csema c)\<lparr>s2_gtz := Suc (s2_gtz (csema c))\<rparr>\<rparr>)"
  using assms by (simp add: circ_add_enter_def circ_add_tail_def keep_enter_eq circ_rep_def circ_core_def)

lemma circ_add_resume_eq: "\<not> s2_mtx (csema c) \<Longrightarrow> circ_add_resume 0 x c = circ_add_enter x c"
  by (simp add: circ_add_resume_def circ_add_enter_def keep_resume_eq)

lemma circ_add_timed_eq:
  "\<not> s2_mtx (csema c) \<Longrightarrow> circ_add_timed_enter x c = circ_add_enter x c"
  by (simp add: circ_add_timed_enter_def circ_add_enter_def keep_timed_eq keep_enter_eq
      circ_add_timed_tail_def circ_add_tail_def)

lemma circ_addIfRoom_rep:
  assumes r: "circ_rep c xs"
  shows "holds (circ_addIfRoom x c) (\<lambda>(got, c'). (got \<longleftrightarrow> int (length xs) < c_size c) \<and>
    circ_rep c' (if got then xs @ [x] else xs) \<and> same_circ c c')"
proof (cases "int (length xs) < c_size c")
  case True
  let ?s = "(take_unit (csema c))\<lparr>s2_mtx := True\<rparr>"
  from r have core: "circ_core c xs" "\<not> s2_mtx (csema c)" by (simp_all add: circ_rep_def)
  then have "1 \<le> s2_cnt (csema c)" "s2_size (csema c) = c_size c" using True by (simp_all add: circ_core_def)
  moreover from this obtain c' c'' where "put_next x (c\<lparr>csema := ?s\<rparr>) = Inr c'"
    "circ_unlock c' = Inr c''" "circ_rep c'' (xs @ [x])" "same_circ c c''"
    using put_unlock [OF core(1) True, of ?s x] by auto
  ultimately show ?thesis using core(2) True by (simp add: circ_addIfRoom_def keep_noblock_eq)
next
  case False
  with r show ?thesis
    by (auto simp: circ_addIfRoom_def keep_noblock_eq circ_rep_def circ_core_def same_circ_def)
qed

lemma circ_addMv_eq:
  assumes "circ_rep c xs" and "int (length xs) < c_size c"
  shows "circ_addMv_enter moved x c =
    bindE (circ_add_enter x c) (\<lambda>(p, c). Inr (moved x, p, c))"
  using assms
  by (simp add: circ_addMv_enter_def circ_add_enter_def circ_add_tail_def circ_rep_def circ_core_def
      keep_enter_eq bindE_assoc)

subsection \<open>Removing\<close>

lemma circ_remove_Mv: "circ_remove c = circ_removeMv id c"
  "circ_removeOrBlock_enter c = circ_removeMvOrBlock_enter id c"
  "circ_removeOrBlock_resume ret c = circ_removeMvOrBlock_resume id ret c"
  by (simp_all add: circ_remove_def circ_removeMv_def circ_removeOrBlock_enter_def
      circ_removeMvOrBlock_enter_def circ_removeOrBlock_resume_def circ_removeMvOrBlock_resume_def)

text \<open>The limit on the time to wait is not used.\<close>

lemma wait_usec_eq:
  "sema2_waitForAcquirersKeepLock_usec_enter now usec ts lock s =
     sema2_waitForAcquirersKeepLock_enter lock s"
  by (simp add: sema2_waitForAcquirersKeepLock_usec_enter_def
      sema2_waitForAcquirersKeepLock_timed_enter_def sema2_waitForAcquirersKeepLock_enter_def Let_def)

lemma circ_usec_eq:
  "circ_removeMvOrBlock_usec_enter moved now usec ts c = circ_removeMvOrBlock_enter moved c"
  "circ_removeOrBlock_usec_enter now usec ts c = circ_removeOrBlock_enter c"
  by (simp_all add: circ_removeMvOrBlock_usec_enter_def circ_removeMvOrBlock_enter_def
      circ_removeOrBlock_usec_enter_def circ_removeOrBlock_enter_def wait_usec_eq Let_def
      cong: if_cong)

lemma circ_locked_core: "circ_rep c xs \<Longrightarrow> circ_core (c\<lparr>csema := (csema c)\<lparr>s2_mtx := True\<rparr>\<rparr>) xs"
  by (simp add: circ_rep_def circ_core_sema)

lemma take_unlock:
  assumes r: "circ_rep c (x # xs)"
  obtains c' c'' where "take_next leave (int (length (x # xs))) (c\<lparr>csema := (csema c)\<lparr>s2_mtx := True\<rparr>\<rparr>) =
      Inr (x, c')"
    and "circ_unlock c' = Inr c''" and "circ_rep c'' xs" and "same_circ c c''"
proof -
  let ?c = "c\<lparr>csema := (csema c)\<lparr>s2_mtx := True\<rparr>\<rparr>"
  from take_next_rep [OF circ_locked_core [OF r], of leave] obtain c' where
    c': "take_next leave (int (length (x # xs))) ?c = Inr (x, c')" "circ_core c' xs" "same_circ ?c c'"
    "csema c' = snd (sema2_releaseWithoutLock (csema ?c))" by (auto simp: holds_iff)
  moreover from c'(4) have "s2_mtx (csema c')" by simp
  from circ_unlock_core [OF c'(2) this] obtain c'' where
    "circ_unlock c' = Inr c''" "circ_rep c'' xs" "same_circ c' c''" by blast
  ultimately show ?thesis using that by (auto simp: same_circ_def)
qed

lemma circ_removeMv_rep:
  assumes r: "circ_rep c (x # xs)"
  shows "holds (circ_removeMv moved c) (\<lambda>(v, c'). v = Some x \<and> circ_rep c' xs \<and> same_circ c c')"
proof -
  let ?c = "c\<lparr>csema := (csema c)\<lparr>s2_mtx := True\<rparr>\<rparr>"
  from take_unlock [OF r, of moved] obtain c' c'' where
    "take_next moved (int (length (x # xs))) ?c = Inr (x, c')"
    "circ_unlock c' = Inr c''" "circ_rep c'' xs" "same_circ c c''" by blast
  moreover have "circ_remain ?c = int (length (x # xs))"
    using circ_remain_eq [OF circ_locked_core [OF r]] .
  ultimately show ?thesis using r by (simp add: circ_removeMv_def circ_rep_def Let_def)
qed

lemma circ_removeMv_Nil: "circ_rep c [] \<Longrightarrow> circ_removeMv moved c = Inr (None, c)"
  using circ_remain_eq [OF circ_locked_core, of c "[]"]
  by (simp add: circ_removeMv_def circ_rep_def Let_def)

lemma removeMvOrBlock_enter_Cons:
  assumes r: "circ_rep c (x # xs)"
  shows "holds (circ_removeMvOrBlock_enter moved c)
    (\<lambda>(p, c'). p = Done (Some x) \<and> circ_rep c' xs \<and> same_circ c c')"
proof -
  let ?c = "c\<lparr>csema := (csema c)\<lparr>s2_mtx := True\<rparr>\<rparr>"
  from take_unlock [OF r, of moved] obtain c' c'' where
    "take_next moved (int (length (x # xs))) ?c = Inr (x, c')"
    "circ_unlock c' = Inr c''" "circ_rep c'' xs" "same_circ c c''" by blast
  moreover have "circ_remain ?c = int (length (x # xs))"
    using circ_remain_eq [OF circ_locked_core [OF r]] .
  ultimately show ?thesis using r by (simp add: circ_removeMvOrBlock_enter_def circ_rep_def Let_def)
qed

lemma removeMvOrBlock_enter_Nil:
  assumes r: "circ_rep c []"
  shows "circ_removeMvOrBlock_enter moved c =
    Inr (Blocked, c\<lparr>csema := (csema c)\<lparr>s2_dec := Suc (s2_dec (csema c))\<rparr>\<rparr>)"
  using r circ_remain_eq [OF circ_locked_core [OF r]]
  by (cases "csema c") (simp add: circ_removeMvOrBlock_enter_def circ_rep_def circ_core_def Let_def
      sema2_waitForAcquirersKeepLock_enter_def lock_if_def)

text \<open>After the wait an element is taken if there is one and the wait did not fail.\<close>

lemma removeMvOrBlock_resume_rep:
  assumes r: "circ_rep c xs"
  shows "holds (circ_removeMvOrBlock_resume moved ret c) (\<lambda>(v, c').
    if xs = [] \<or> ret \<noteq> 0 then v = None \<and> c' = c
    else v = Some (hd xs) \<and> circ_rep c' (tl xs) \<and> same_circ c c')"
proof (cases "xs = [] \<or> ret \<noteq> 0")
  case True
  with r show ?thesis
    by (auto simp: circ_removeMvOrBlock_resume_def sema2_waitForAcquirersKeepLock_resume_def
        circ_rep_def circ_core_def Let_def)
next
  case False
  then obtain x ys where xs: "xs = x # ys" "ret = 0" by (cases xs) auto
  let ?c = "c\<lparr>csema := (csema c)\<lparr>s2_mtx := True\<rparr>\<rparr>"
  have core: "circ_core ?c (x # ys)" using circ_locked_core [OF r] xs by simp
  from take_after_wait_rep [OF core, of moved] obtain c' where
    c': "take_after_wait moved ?c = Inr (x, c')" "circ_core c' ys" "same_circ ?c c'"
    "csema c' = snd (sema2_releaseWithoutLock (csema ?c))" by (auto simp: holds_iff)
  moreover from c'(4) have "s2_mtx (csema c')" by simp
  from circ_unlock_core [OF c'(2) this] obtain c'' where
    "circ_unlock c' = Inr c''" "circ_rep c'' ys" "same_circ c' c''" by blast
  ultimately show ?thesis using r xs
    by (simp add: circ_removeMvOrBlock_resume_def sema2_waitForAcquirersKeepLock_resume_def
        circ_rep_def circ_core_def same_circ_def Let_def)
qed

subsection \<open>The whole buffer\<close>

lemma circ_array_fits:
  assumes "0 < esz" "0 \<le> sz" "int esz * sz < 2 ^ 31"
  shows "circ_array esz True sz objs = Inr (case objs of None \<Rightarrow> replicate (nat sz) None | Some vs \<Rightarrow> vs)"
  using assms by (simp add: circ_array_def array_room_fits split: option.splits)

lemma circ_new_fits:
  assumes "0 < esz" "0 \<le> sz" "int esz * sz < 2 ^ 31"
  shows "circ_new esz True dflt sz initobj = Inr \<lparr>isObjects = initobj, c_reverse = False, csema = sema2_new sz,
    c_enabled = True, nextIn = - 1, nextOut = 0, c_size = sz,
    slots = replicate (nat sz) (if initobj then Some dflt else None)\<rparr>"
  by (simp add: circ_new_def circ_array_fits [OF assms])

text \<open>A buffer whose array came out with room for all its elements.\<close>

lemma circ_new_rep:
  assumes "circ_new esz mem dflt sz b = Inr c" "int (length (slots c)) = sz" "0 < sz"
  shows "circ_rep c []" and "c_size c = sz" and "s2_gtz (csema c) = 0" and "s2_dec (csema c) = 0"
proof -
  have c: "csema c = sema2_new sz" "c_reverse c = False" "c_size c = sz" "nextIn c = - 1" "nextOut c = 0"
    "isObjects c = b" "circ_array esz mem sz (if b then Some (replicate (nat sz) (Some dflt)) else None) = Inr (slots c)"
    using assms(1) by (auto simp: circ_new_def bindE_eq_Inr)
  have "slots c = replicate (nat sz) (Some dflt)" if "b"
    using c(7) assms(3) that by (auto simp: circ_array_def split: option.splits if_splits)
  then show "circ_rep c []" "c_size c = sz" "s2_gtz (csema c) = 0" "s2_dec (csema c) = 0" using c assms(2,3)
    by (auto simp: circ_rep_def circ_core_def sema2_new_def slot_def dir_def)
qed

lemma circ_clear_rep:
  assumes "circ_rep c xs"
  shows "holds (circ_clear dflt c) (\<lambda>c'. circ_rep c' [] \<and> c_enabled c' \<and> c_size c' = c_size c)"
  using assms by (auto simp: circ_clear_def circ_rep_def Let_def circ_core_def slot_def dir_def
      sema2_resetNoLock_def circ_unlock_def)

lemma circ_reverse_rep:
  assumes r: "circ_rep c xs"
  shows "circ_rep (circ_reverse c) (rev xs)"
proof (cases "xs = []")
  case True
  with r circ_remain_eq [of c xs] show ?thesis by (simp add: circ_reverse_def circ_rep_def)
next
  case False
  let ?l = "int (length xs)"
  from r have core: "circ_core c xs" by (simp add: circ_rep_def)
  have sz: "0 < c_size c" using core by (simp add: circ_core_def)
  have "circ_remain c = ?l" by (rule circ_remain_eq [OF core])
  then have eq: "circ_reverse c =
      c\<lparr>c_reverse := \<not> c_reverse c, nextOut := nextIn c, nextIn := nextOut c\<rparr>"
    using False by (simp add: circ_reverse_def Let_def)
  have rng: "0 \<le> nextIn c" "nextIn c < c_size c" using core False by (auto simp: circ_core_def)
  then have nin: "nextIn c = slot c (?l - 1)" using core by (simp add: circ_core_def)
  have sl: "slot (circ_reverse c) i = slot c (?l - 1 - i)" for i
  proof -
    have "slot (circ_reverse c) i = (nextIn c - dir c * i) mod c_size c"
      by (simp add: eq slot_def dir_def)
    then show ?thesis
      unfolding nin by (simp add: slot_def mod_simps algebra_simps)
  qed
  have n0: "nextOut c = slot c 0" using core by (simp add: circ_core_def slot_def)
  have el: "slots c ! nat (slot c (?l - 1 - int i)) = Some (rev xs ! i)" if "i < length xs" for i
  proof -
    have ix: "?l - 1 - int i = int (length xs - Suc i)" using that by simp
    have "slots c ! nat (slot c (int (length xs - Suc i))) = Some (xs ! (length xs - Suc i))"
      using core that unfolding circ_core_def by (meson diff_Suc_less length_pos_if_in_set nth_mem)
    then show ?thesis unfolding ix rev_nth [OF that] .
  qed
  have "circ_core (circ_reverse c) (rev xs)"
    using core el rng n0 sl [of "?l - 1"] slot_bounds [OF sz, of 0]
    unfolding circ_core_def length_rev sl by (simp add: eq)
  then show ?thesis using r by (simp add: circ_rep_def eq)
qed

subsection \<open>Access by position\<close>

lemma walk_eq:
  "0 \<le> p \<Longrightarrow> p \<le> sz \<Longrightarrow> int k \<le> sz \<Longrightarrow> 0 < sz \<Longrightarrow>
     walk sz k p = (if p + int k \<le> sz then p + int k else p + int k - sz)"
proof (induction k arbitrary: p)
  case (Suc k)
  show ?case
  proof (cases "p = sz")
    case True
    with Suc.IH [of 1] Suc.prems show ?thesis by (simp add: Let_def)
  next
    case False
    with Suc.IH [of "p + 1"] Suc.prems show ?thesis by (simp add: Let_def)
  qed
qed simp

lemma slot_forward:
  assumes "\<not> c_reverse c" and "0 \<le> nextOut c" and "nextOut c < c_size c" and "0 \<le> i" and "i < c_size c"
  shows "slot c i = (if nextOut c + i < c_size c then nextOut c + i else nextOut c + i - c_size c)"
proof (cases "nextOut c + i < c_size c")
  case False
  then have "(nextOut c + i) mod c_size c = (nextOut c + i - c_size c) mod c_size c" by simp
  also have "\<dots> = nextOut c + i - c_size c" using False assms by (intro mod_pos_pos_trivial) auto
  finally show ?thesis using False assms by (simp add: slot_def dir_def)
qed (use assms in \<open>simp add: slot_def dir_def\<close>)

lemma fetch_slot:
  assumes "circ_core c xs" and "i < length xs"
  shows "fetch (slot c (int i)) c = Inr (xs ! i)"
  using assms slot_bounds [of c "int i"] by (auto simp: fetch_def circ_core_def)

lemma circ_get_forward:
  assumes r: "circ_rep c xs" and fw: "\<not> c_reverse c" and n: "n < length xs"
  shows "circ_get (int n) c =
    (if nextOut c + int n = c_size c then Inl OutOfBounds else Inr (Some (xs ! n), c))"
proof -
  from r have core: "circ_core c xs" "\<not> s2_mtx (csema c)" by (simp_all add: circ_rep_def)
  let ?c = "c\<lparr>csema := (csema c)\<lparr>s2_mtx := True\<rparr>\<rparr>"
  have lc: "circ_core ?c xs" by (rule circ_locked_core [OF r])
  have rem: "circ_remain ?c = int (length xs)" by (rule circ_remain_eq [OF lc])
  have rng: "0 \<le> nextOut c" "nextOut c < c_size c" "int n < c_size c" "0 < c_size c"
    "length (slots c) = nat (c_size c)"
    using core(1) n by (simp_all add: circ_core_def)
  have w: "walk (c_size c) n (nextOut c) =
      (if nextOut c + int n \<le> c_size c then nextOut c + int n else nextOut c + int n - c_size c)"
    using rng by (intro walk_eq) simp_all
  have f: "fetch (walk (c_size c) n (nextOut c)) ?c =
      (if nextOut c + int n = c_size c then Inl OutOfBounds else Inr (xs ! n))"
  proof (cases "nextOut c + int n = c_size c")
    case True
    then show ?thesis using w rng by (simp add: fetch_def)
  next
    case False
    then have "walk (c_size c) n (nextOut c) = slot ?c (int n)"
      using w slot_forward [of c "int n"] fw rng by simp
    then show ?thesis using fetch_slot [OF lc n] False by simp
  qed
  have ws: "walk_start ?c = nextOut c" using fw by (simp add: walk_start_def Let_def)
  show ?thesis using n core(2) rem f ws by (simp add: circ_get_def)
qed

subsection \<open>Iterating\<close>

lemma citer_all_from:
  assumes core: "circ_core c xs" and fw: "\<not> c_reverse c" and n: "n < length xs"
    and k: "length xs - n \<le> k"
  shows "citer_all k \<lparr>ci_valid = True, ci_n = int n, ci_p = slot c (int n)\<rparr> c = Inr (drop n xs)"
  using n k
proof (induction k arbitrary: n)
  case (Suc k)
  have rem: "circ_remain c = int (length xs)" by (rule circ_remain_eq [OF core])
  have rng: "0 \<le> nextOut c" "nextOut c < c_size c" "0 < c_size c" "int (length xs) \<le> c_size c"
    using core by (simp_all add: circ_core_def)
  have d: "citer_data \<lparr>ci_valid = True, ci_n = int n, ci_p = slot c (int n)\<rparr> c = Inr (Some (xs ! n))"
    using Suc.prems rem fetch_slot [OF core Suc.prems(1)] by (simp add: citer_data_def)
  show ?case
  proof (cases "Suc n < length xs")
    case True
    have sl: "(if c_size c \<le> slot c (int n) + 1 then 0 else slot c (int n) + 1) = slot c (int (Suc n))"
      using slot_forward [OF fw rng(1,2), of "int n"] slot_forward [OF fw rng(1,2), of "int (Suc n)"]
        True rng by (auto split: if_splits)
    have "citer_next \<lparr>ci_valid = True, ci_n = int n, ci_p = slot c (int n)\<rparr> c =
        (True, \<lparr>ci_valid = True, ci_n = int (Suc n), ci_p = slot c (int (Suc n))\<rparr>)"
      using True rem sl by (simp add: citer_next_def Let_def split: if_splits)
    then show ?thesis
      using d Suc.IH [OF True] Suc.prems Cons_nth_drop_Suc [OF Suc.prems(1)] by simp
  next
    case False
    then have "drop n xs = [xs ! n]" using Suc.prems(1) Cons_nth_drop_Suc [of n xs] by simp
    moreover have "fst (citer_next \<lparr>ci_valid = True, ci_n = int n, ci_p = slot c (int n)\<rparr> c) = False"
      using False rem by (simp add: citer_next_def Let_def)
    ultimately show ?thesis using d by (simp add: split_def)
  qed
qed simp


subsection \<open>Copies\<close>

lemma circ_cloneFrom_rep:
  assumes c: "\<not> s2_mtx (csema c)" and r: "circ_rep d xs" and ob: "isObjects d"
    and esz: "0 < esz" "int esz * c_size d < 2 ^ 31"
  shows "holds (circ_cloneFrom esz True c d) (\<lambda>(c', d'). circ_rep c' xs \<and> d' = d)"
  using assms by (cases d) (auto simp: circ_cloneFrom_def circ_array_fits circ_unlock_def Let_def circ_rep_def circ_core_def
      sema2_cloneFrom_def slot_def dir_def)

lemma circ_cloneFrom_raw:
  assumes c: "\<not> s2_mtx (csema c)" and r: "circ_rep d (x # xs)" and ob: "\<not> isObjects d"
    and esz: "0 < esz" "int esz * c_size d < 2 ^ 31"
  shows "bindE (circ_cloneFrom esz True c d) (\<lambda>(c', d'). circ_remove c') = Inl Uninit"
  using assms
  by (auto simp: circ_cloneFrom_def circ_array_fits circ_unlock_def Let_def circ_rep_def circ_core_def
      sema2_cloneFrom_def circ_remove_def circ_remain_def sema2_countNoBlock_def take_next_def
      fetch_def circ_release_def)

lemma circ_transferFrom_rep:
  assumes c: "\<not> s2_mtx (csema c)" and r: "circ_rep d xs" and ob: "isObjects d" and fw: "\<not> c_reverse d"
    and esz: "0 < esz" "int esz * c_size d < 2 ^ 31"
  shows "holds (circ_transferFrom esz True moved c d) (\<lambda>(c', d'). circ_rep c' xs \<and> circ_rep d' [])"
  using assms by (auto simp: circ_transferFrom_def circ_array_fits circ_unlock_def Let_def circ_rep_def circ_core_def
      sema2_cloneFrom_def sema2_resetNoLock_def slot_def dir_def)

section \<open>tw_safeCircular as a bounded queue\<close>

definition circ_put :: "'a \<Rightarrow> 'a circ \<Rightarrow> 'a circ res" where
  "circ_put x c = bindE (circ_add_enter x c) (\<lambda>(p, c). Inr c)"

definition circ_space :: "'a circ \<Rightarrow> nat" where
  "circ_space c = nat (sema2_countNoBlock (csema c))"

lemma circ_space_eq: "circ_rep c xs \<Longrightarrow> int (circ_space c) = c_size c - int (length xs)"
  by (simp add: circ_space_def circ_rep_def circ_core_def sema2_countNoBlock_def)

interpretation cq: bounded_queue circ_rep circ_space circ_put circ_remove
proof
  fix c :: "'a circ" and xs x
  assume r: "circ_rep c xs" and "0 < circ_space c"
  then have "int (length xs) < c_size c" using circ_space_eq [OF r] by simp
  from circ_add_rep [OF r this, of x] obtain c' where
    c': "circ_add_enter x c = Inr (Done True, c')" "circ_rep c' (xs @ [x])" "c_size c' = c_size c"
    by (auto simp: holds_iff same_circ_def)
  then show "holds (circ_put x c) (\<lambda>c'. circ_rep c' (xs @ [x]) \<and> circ_space c' = circ_space c - 1)"
    using circ_space_eq [OF r] circ_space_eq [OF c'(2)] by (simp add: circ_put_def)
next
  fix c :: "'a circ"
  assume "circ_rep c []"
  then show "holds (circ_remove c) (\<lambda>(r, c'). r = None \<and> circ_rep c' [] \<and> circ_space c' = circ_space c)"
    by (simp add: circ_remove_Mv circ_removeMv_Nil)
next
  fix c :: "'a circ" and x xs
  assume r: "circ_rep c (x # xs)"
  from circ_removeMv_rep [OF r, of id] obtain c' where
    c': "circ_remove c = Inr (Some x, c')" "circ_rep c' xs" "c_size c' = c_size c"
    by (auto simp: holds_iff same_circ_def circ_remove_Mv)
  then show "holds (circ_remove c) (\<lambda>(r, c'). r = Some x \<and> circ_rep c' xs \<and>
      circ_space c' = Suc (circ_space c))"
    using circ_space_eq [OF r] circ_space_eq [OF c'(2)] by simp
qed

section \<open>Properties\<close>

text \<open>A buffer of three places whose two elements lie across the end of the array, and the
  same buffer with its direction reversed.\<close>

definition ex_circ :: "nat circ" where
  "ex_circ = \<lparr>isObjects = True, c_reverse = False, csema = (sema2_new 3)\<lparr>s2_cnt := 1\<rparr>,
     c_enabled = True, nextIn = 0, nextOut = 2, c_size = 3, slots = [Some 20, Some 5, Some 10]\<rparr>"

lemma ex_circ_rep: "circ_rep ex_circ [10, 20]"
proof -
  have "slots ex_circ ! nat (slot ex_circ (int i)) = Some ([10, 20] ! i)" if "i < 2" for i
    using that by (cases i) (auto simp: ex_circ_def slot_def dir_def)
  then show ?thesis
    by (simp add: circ_rep_def circ_core_def numeral_2_eq_2)
      (simp add: ex_circ_def sema2_new_def slot_def dir_def)
qed

text \<open>C17. A tw_safeCircular is a bounded first-in first-out queue: any sequence of \<open>add\<close> and
  \<open>remove\<close> that never adds to a full buffer runs without a fault (no access outside the
  array, no use of an empty slot) and returns what the calls on a list return, however often
  the two ends wrap around, in either direction.\<close>
theorem circ_refines_list:
  assumes "circ_rep c xs" and "fits (circ_space c) ops (length xs)"
  shows "holds (run_ops circ_put circ_remove ops c)
    (\<lambda>(rs, c'). \<exists>ys. list_ops ops xs = (rs, ys) \<and> circ_rep c' ys)"
  by (rule holds_mono [OF cq.run_list_ops [OF assms]]) auto

theorem circ_refines_list_witness:
  "holds (run_ops circ_put circ_remove [Put 30, Get, Put 40, Get, Get, Get, Get, Put 50] ex_circ)
    (\<lambda>(rs, c'). \<exists>ys. list_ops [Put 30, Get, Put 40, Get, Get, Get, Get, Put 50] [10, 20] = (rs, ys) \<and>
      circ_rep c' ys)"
proof (rule circ_refines_list [OF ex_circ_rep])
  have "circ_space ex_circ = 1"
    by (simp add: circ_space_def ex_circ_def sema2_new_def sema2_countNoBlock_def)
  then show "fits (circ_space ex_circ) [Put 30, Get, Put 40, Get, Get, Get, Get, Put 50]
      (length [10::nat, 20])" by simp
qed

text \<open>Adding without a place is refused or waits, and changes nothing: \<open>addIfRoom\<close> returns
  \<open>false\<close> exactly when the buffer is full, and then \<open>add\<close> goes to sleep.\<close>
theorem circ_full_is_refused:
  assumes "circ_rep c xs"
  shows "holds (circ_addIfRoom x c) (\<lambda>(got, c'). (got \<longleftrightarrow> int (length xs) < c_size c) \<and>
      circ_rep c' (if got then xs @ [x] else xs)) \<and>
    holds (circ_add_enter x c) (\<lambda>(p, c'). (p = Blocked \<longleftrightarrow> int (length xs) = c_size c) \<and>
      circ_rep c' (if p = Blocked then xs else xs @ [x]))"
proof
  show "holds (circ_addIfRoom x c) (\<lambda>(got, c'). (got \<longleftrightarrow> int (length xs) < c_size c) \<and>
      circ_rep c' (if got then xs @ [x] else xs))"
    by (rule holds_mono [OF circ_addIfRoom_rep [OF assms]]) (auto split: if_splits)
  show "holds (circ_add_enter x c) (\<lambda>(p, c'). (p = Blocked \<longleftrightarrow> int (length xs) = c_size c) \<and>
      circ_rep c' (if p = Blocked then xs else xs @ [x]))"
  proof (cases "int (length xs) = c_size c")
    case True
    then show ?thesis using circ_add_full [OF assms True] assms by (simp add: circ_rep_def circ_core_sema)
  next
    case False
    then have "int (length xs) < c_size c" using assms by (simp add: circ_rep_def circ_core_def)
    from circ_add_rep [OF assms this] show ?thesis by (rule holds_mono) (use False in auto)
  qed
qed

theorem circ_full_is_refused_witness:
  "holds (circ_addIfRoom 30 ex_circ) (\<lambda>(got, c'). (got \<longleftrightarrow> int (length [10::nat, 20]) < c_size ex_circ) \<and>
      circ_rep c' (if got then [10, 20] @ [30] else [10, 20])) \<and>
    holds (circ_add_enter 30 ex_circ) (\<lambda>(p, c'). (p = Blocked \<longleftrightarrow> int (length [10::nat, 20]) = c_size ex_circ) \<and>
      circ_rep c' (if p = Blocked then [10, 20] else [10, 20] @ [30]))"
  by (rule circ_full_is_refused [OF ex_circ_rep])

text \<open>\<open>reverse\<close> turns the queue round in constant time: the buffer then holds the same
  elements in the opposite order, and is a queue again for every later operation.\<close>
theorem circ_reverse_reverses:
  assumes "circ_rep c xs" and "fits (circ_space c) ops (length xs)"
  shows "circ_rep (circ_reverse c) (rev xs) \<and>
    holds (run_ops circ_put circ_remove ops (circ_reverse c))
      (\<lambda>(rs, c'). \<exists>ys. list_ops ops (rev xs) = (rs, ys) \<and> circ_rep c' ys)"
proof -
  note rv = circ_reverse_rep [OF assms(1)]
  have "circ_space (circ_reverse c) = circ_space c"
    by (simp add: circ_space_def circ_reverse_def Let_def)
  then have "fits (circ_space (circ_reverse c)) ops (length (rev xs))" using assms(2) by simp
  from cq.run_list_ops [OF rv this] have "holds (run_ops circ_put circ_remove ops (circ_reverse c))
      (\<lambda>(rs, c'). \<exists>ys. list_ops ops (rev xs) = (rs, ys) \<and> circ_rep c' ys)"
    by (rule holds_mono) auto
  with rv show ?thesis by blast
qed

theorem circ_reverse_reverses_witness:
  "circ_rep (circ_reverse ex_circ) (rev [10, 20]) \<and>
    holds (run_ops circ_put circ_remove [Get, Put 30, Get, Get] (circ_reverse ex_circ))
      (\<lambda>(rs, c'). \<exists>ys. list_ops [Get, Put 30, Get, Get] (rev [10, 20]) = (rs, ys) \<and> circ_rep c' ys)"
proof (rule circ_reverse_reverses [OF ex_circ_rep])
  have "circ_space ex_circ = 1"
    by (simp add: circ_space_def ex_circ_def sema2_new_def sema2_countNoBlock_def)
  then show "fits (circ_space ex_circ) [Get, Put 30, Get, Get] (length [10::nat, 20])" by simp
qed

text \<open>\<open>removeOrBlock\<close> that has slept takes the oldest element when it wakes to a buffer that
  holds one, and gives up (it does not go back to sleep) when another thread was faster or
  the wait failed; either way the buffer stays a queue.\<close>
theorem circ_remove_after_wait:
  assumes "circ_rep c xs"
  shows "holds (circ_removeOrBlock_resume ret c) (\<lambda>(v, c').
    if xs = [] \<or> ret \<noteq> 0 then v = None \<and> c' = c
    else v = Some (hd xs) \<and> circ_rep c' (tl xs))"
  unfolding circ_remove_Mv
  by (rule holds_mono [OF removeMvOrBlock_resume_rep [OF assms]]) (auto split: if_splits)

theorem circ_remove_after_wait_witness:
  "holds (circ_removeOrBlock_resume 0 ex_circ) (\<lambda>(v, c'). v = Some 10 \<and> circ_rep c' [20])"
  using circ_remove_after_wait [OF ex_circ_rep, of 0] by simp

text \<open>\<open>get(n, d)\<close> of a buffer that was not reversed finds element \<open>n\<close>, with one exception:
  when the element lies in slot 0 because the buffer wraps around exactly there, the
  position is not wrapped and \<^verbatim>\<open>data[_size]\<close>, behind the end of the array, is read.\<close>
theorem circ_get_nth:
  assumes "circ_rep c xs" and "\<not> c_reverse c" and "n < length xs"
  shows "circ_get (int n) c =
    (if nextOut c + int n = c_size c then Inl OutOfBounds else Inr (Some (xs ! n), c))"
  by (rule circ_get_forward [OF assms])

theorem circ_get_nth_witness:
  "circ_get (int 1) ex_circ =
    (if nextOut ex_circ + int 1 = c_size ex_circ then Inl OutOfBounds else Inr (Some ([10, 20] ! 1), ex_circ)) \<and>
   nextOut ex_circ + int 1 = c_size ex_circ"
  using circ_get_nth [OF ex_circ_rep, of 1] by (simp add: ex_circ_def)

text \<open>After \<open>reverse\<close> the first position can lie behind the array, too.\<close>

lemma circ_get_reversed_faults:
  "bindE (circ_new 4 True (0::nat) 5 True) (\<lambda>c. bindE (circ_put 10 c) (\<lambda>c.
     bindE (circ_put 20 c) (\<lambda>c. circ_get 0 (circ_reverse c)))) = Inl OutOfBounds"
  by code_simp

text \<open>An iterator over a buffer that was not reversed shows the elements in their order,
  each once, and holds the lock meanwhile.\<close>
theorem circ_iterates_in_order:
  assumes "circ_rep c xs" and "\<not> c_reverse c"
  shows "holds (circ_getIter c) (\<lambda>(i, c'). citer_all (length xs) i c' = Inr xs \<and> s2_mtx (csema c') \<and>
    circ_remove c' = Inl SelfDeadlock)"
proof -
  let ?c = "c\<lparr>csema := (csema c)\<lparr>s2_mtx := True\<rparr>\<rparr>"
  have core: "circ_core ?c xs" by (rule circ_locked_core [OF assms(1)])
  have rem: "circ_remain ?c = int (length xs)" by (rule circ_remain_eq [OF core])
  have it: "circ_getIter c = Inr (\<lparr>ci_valid = (xs \<noteq> []), ci_n = 0, ci_p = nextOut c\<rparr>, ?c)"
    using assms(1) rem by (simp add: circ_getIter_def circ_rep_def)
  have "citer_all (length xs) \<lparr>ci_valid = (xs \<noteq> []), ci_n = 0, ci_p = nextOut c\<rparr> ?c = Inr xs"
  proof (cases xs)
    case Nil
    then show ?thesis by (simp add: citer_atEnd_def)
  next
    case (Cons x ys)
    have "nextOut c = slot ?c 0" using core by (simp add: circ_core_def slot_def)
    then show ?thesis using citer_all_from [OF core, of 0 "length xs"] assms(2) Cons by simp
  qed
  with it show ?thesis by (simp add: circ_remove_def)
qed

theorem circ_iterates_in_order_witness:
  "holds (circ_getIter ex_circ) (\<lambda>(i, c'). citer_all (length [10::nat, 20]) i c' = Inr [10, 20] \<and>
    s2_mtx (csema c') \<and> circ_remove c' = Inl SelfDeadlock)"
  by (rule circ_iterates_in_order [OF ex_circ_rep]) (simp add: ex_circ_def)

text \<open>\<open>cloneFrom\<close> copies a buffer of objects, and leaves the source as it was. Of a buffer
  that was not built with \<open>initobj\<close> it copies the counts but no element: the next \<open>remove\<close>
  uses memory that was never written.\<close>
theorem circ_clone_copies_objects_only:
  assumes "\<not> s2_mtx (csema c)" and "circ_rep d (x # xs)" and "0 < esz" and "int esz * c_size d < 2 ^ 31"
  shows "(isObjects d \<longrightarrow> holds (circ_cloneFrom esz True c d) (\<lambda>(c', d'). circ_rep c' (x # xs) \<and> d' = d)) \<and>
    (\<not> isObjects d \<longrightarrow> bindE (circ_cloneFrom esz True c d) (\<lambda>(c', d'). circ_remove c') = Inl Uninit)"
  using circ_cloneFrom_rep [OF assms(1,2) _ assms(3,4)] circ_cloneFrom_raw [OF assms(1,2) _ assms(3,4)] by blast

theorem circ_clone_copies_objects_only_witness:
  "holds (circ_cloneFrom 8 True (ex_circ\<lparr>nextOut := 1\<rparr>) ex_circ) (\<lambda>(c', d'). circ_rep c' (10 # [20]) \<and> d' = ex_circ)"
  using circ_clone_copies_objects_only [OF _ ex_circ_rep, of "ex_circ\<lparr>nextOut := 1\<rparr>" 8]
  by (simp add: ex_circ_def sema2_new_def)

text \<open>The size of the array is computed in an \<^verbatim>\<open>int\<close>. A buffer of 2 ^ 29 + 1 elements of eight bytes is built without a word, with an
  array of one element: the second element is stored behind its end.\<close>
theorem circ_new_truncates:
  "holds (circ_new 8 True x 536870913 False) (\<lambda>c. length (slots c) = 1 \<and> holds (circ_put x c) (\<lambda>c. circ_put x c = Inl OutOfBounds))"
proof -
  have "array_room 8 536870913 = Some 1" by (simp add: array_room_def tw_size_def Let_def)
  then show ?thesis
    by (simp add: circ_new_def circ_array_def circ_put_def circ_add_enter_def keep_enter_eq sema2_new_def circ_add_tail_def
        put_next_def nextNextIn_def store_def circ_unlock_def Let_def)
qed

end
