(* ===== verification/TW_BufBlk.thy ===== *)
theory TW_BufBlk
  imports TW_Chain
begin

text \<open>
  The byte buffers of include/TW/tw_bufblk.h: MemBlk (a reference-counted piece of memory),
  BufBlk (a window on a MemBlk, chained to further ones) and BufBlkIter.

  There are two heaps, of BufBlk and of MemBlk objects. A \<^verbatim>\<open>char *\<close> into the memory of a
  block is its offset from the base of that memory, so that \<open>_rd_ptr\<close> and \<open>_wr_ptr\<close> are integers;
  a block without a MemBlk has the null pointer there, written \<open>0\<close>. \<open>_mark\<close> is null (\<open>NoMark\<close>)
  after some of the constructors even where there is a MemBlk, and arithmetic on that null makes
  it point into no block (\<open>Wild\<close>). A byte no one has written is \<open>None\<close>. The lengths and offsets of
  type \<^verbatim>\<open>int\<close> are unbounded integers.

  The operator \<^verbatim>\<open>new\<close> does not fail here; \<open>avail\<close> is the number of further requests that
  \<^verbatim>\<open>ALLOC::malloc\<close> and \<^verbatim>\<open>ALLOC::realloc\<close> grant. The calls are those of one thread, so that the
  mutex around a reference count never makes one wait. Whether it is still initialised is kept
  in \<open>mmutex\<close>; locking a destroyed mutex fails, the code does not look at that, and goes on.
\<close>

section \<open>The objects\<close>

type_synonym byte = "8 word option"

record memblk =
  mrefs :: int
  mbytes :: "byte list"
  msize :: int
  mmanage :: bool
  mproper :: "bool option"
  mmutex :: bool

datatype mark = NoMark | At int | Wild

record buf =
  bmb :: ptr
  brd :: int
  bwr :: int
  bmark :: mark
  bnxt :: ptr
  bflags :: "32 word option"

record bufs =
  blks :: "buf heap"
  mems :: "memblk heap"
  avail :: nat
  late_touches :: nat

text \<open>\<^verbatim>\<open>new T(...)\<close>.\<close>

definition alloc_obj :: "'c \<Rightarrow> 'c heap \<Rightarrow> ptr \<times> 'c heap" where
  "alloc_obj c h = (Suc (heap_size h), new_obj c h)"

definition new_buf :: "buf \<Rightarrow> bufs \<Rightarrow> ptr \<times> bufs" where
  "new_buf b s = (let (p, h) = alloc_obj b (blks s) in (p, s\<lparr>blks := h\<rparr>))"

definition new_mem :: "memblk \<Rightarrow> bufs \<Rightarrow> ptr \<times> bufs" where
  "new_mem m s = (let (p, h) = alloc_obj m (mems s) in (p, s\<lparr>mems := h\<rparr>))"

definition get_buf :: "ptr \<Rightarrow> bufs \<Rightarrow> buf res" where
  "get_buf p s = load p (blks s)"

definition get_mem :: "ptr \<Rightarrow> bufs \<Rightarrow> memblk res" where
  "get_mem p s = load p (mems s)"

definition set_buf :: "ptr \<Rightarrow> (buf \<Rightarrow> buf) \<Rightarrow> bufs \<Rightarrow> bufs res" where
  "set_buf p f s = bindE (modify p f (blks s)) (\<lambda>h. Inr (s\<lparr>blks := h\<rparr>))"

definition set_mem :: "ptr \<Rightarrow> (memblk \<Rightarrow> memblk) \<Rightarrow> bufs \<Rightarrow> bufs res" where
  "set_mem p f s = bindE (modify p f (mems s)) (\<lambda>h. Inr (s\<lparr>mems := h\<rparr>))"

text \<open>\<^verbatim>\<open>memcpy\<close> and \<^verbatim>\<open>memmove\<close> within the memory of a block; a length below zero is a huge
  \<^verbatim>\<open>size_t\<close>.\<close>

definition read_bytes :: "ptr \<Rightarrow> int \<Rightarrow> int \<Rightarrow> bufs \<Rightarrow> byte list res" where
  "read_bytes p off n s = bindE (get_mem p s) (\<lambda>m.
     if off < 0 \<or> n < 0 \<or> int (length (mbytes m)) < off + n then Inl OutOfBounds
     else Inr (take (nat n) (drop (nat off) (mbytes m))))"

definition write_at :: "nat \<Rightarrow> 'b list \<Rightarrow> 'b list \<Rightarrow> 'b list" where
  "write_at i ys xs = take i xs @ ys @ drop (i + length ys) xs"

definition write_bytes :: "ptr \<Rightarrow> int \<Rightarrow> byte list \<Rightarrow> bufs \<Rightarrow> bufs res" where
  "write_bytes p off bs s = bindE (get_mem p s) (\<lambda>m.
     if off < 0 \<or> int (length (mbytes m)) < off + int (length bs) then Inl OutOfBounds
     else set_mem p (\<lambda>m. m\<lparr>mbytes := write_at (nat off) bs (mbytes m)\<rparr>) s)"

section \<open>MemBlk\<close>

definition MemBlk_new :: "int \<Rightarrow> bufs \<Rightarrow> ptr \<times> bufs" where
  "MemBlk_new sz s =
     (if 0 \<le> sz \<and> 0 < avail s
      then new_mem \<lparr>mrefs = 1, mbytes = replicate (nat sz) None, msize = sz, mmanage = True,
             mproper = Some True, mmutex = True\<rparr> (s\<lparr>avail := avail s - 1\<rparr>)
      else new_mem \<lparr>mrefs = 1, mbytes = [], msize = 0, mmanage = True, mproper = Some False,
             mmutex = True\<rparr> s)"

text \<open>Around existing memory; \<open>_proper\<close> is not initialised.\<close>

definition MemBlk_wrap :: "byte list \<Rightarrow> bool \<Rightarrow> bufs \<Rightarrow> ptr \<times> bufs" where
  "MemBlk_wrap dat manage s =
     new_mem \<lparr>mrefs = 1, mbytes = dat, msize = int (length dat), mmanage = manage, mproper = None,
       mmutex = True\<rparr> s"

definition MemBlk_getRefCount :: "ptr \<Rightarrow> bufs \<Rightarrow> int res" where
  "MemBlk_getRefCount p s = bindE (get_mem p s) (\<lambda>m. Inr (mrefs m))"

definition MemBlk_checkout :: "ptr \<Rightarrow> bufs \<Rightarrow> bufs res" where
  "MemBlk_checkout p s = set_mem p (\<lambda>m. m\<lparr>mrefs := mrefs m + 1\<rparr>) s"

text \<open>The mutex is destroyed on every call. After \<^verbatim>\<open>delete this\<close> it is inside freed memory: a use of a deleted
  object, undefined in C++, that every last release makes. The model goes on, as the program does in practice,
  and counts it in \<open>late_touches\<close>.\<close>

definition MemBlk_release :: "ptr \<Rightarrow> bufs \<Rightarrow> bufs res" where
  "MemBlk_release p s =
     bindE (set_mem p (\<lambda>m. m\<lparr>mrefs := mrefs m - 1\<rparr>) s) (\<lambda>s.
     bindE (get_mem p s) (\<lambda>m.
     if mrefs m < 1 then bindE (free p (mems s)) (\<lambda>h.
       Inr (s\<lparr>mems := h, late_touches := Suc (late_touches s)\<rparr>))
     else set_mem p (\<lambda>m. m\<lparr>mmutex := False\<rparr>) s))"

definition MemBlk_deepCopy :: "ptr \<Rightarrow> bufs \<Rightarrow> (ptr \<times> bufs) res" where
  "MemBlk_deepCopy p s =
     bindE (get_mem p s) (\<lambda>m.
     let (q, s) = MemBlk_new (msize m) s in
     bindE (read_bytes p 0 (msize m) s) (\<lambda>bs.
     bindE (write_bytes q 0 bs s) (\<lambda>s. Inr (q, s))))"

text \<open>\<^verbatim>\<open>realloc\<close> to no bytes frees the memory and returns null.\<close>

definition MemBlk_resize :: "ptr \<Rightarrow> int \<Rightarrow> bufs \<Rightarrow> (bool \<times> bufs) res" where
  "MemBlk_resize p sz s = bindE (get_mem p s) (\<lambda>m.
     if sz = 0 then bindE (set_mem p (\<lambda>m. m\<lparr>mbytes := []\<rparr>) s) (\<lambda>s. Inr (False, s))
     else if sz < 0 \<or> avail s = 0 then Inr (False, s)
     else bindE (set_mem p (\<lambda>m. m\<lparr>mbytes := take (nat sz) (mbytes m @ replicate (nat sz) None),
       msize := sz\<rparr>) (s\<lparr>avail := avail s - 1\<rparr>)) (\<lambda>s. Inr (True, s)))"

definition MemBlk_size :: "ptr \<Rightarrow> bufs \<Rightarrow> int res" where
  "MemBlk_size p s = bindE (get_mem p s) (\<lambda>m. Inr (msize m))"

definition MemBlk_fillWith :: "8 word \<Rightarrow> ptr \<Rightarrow> bufs \<Rightarrow> bufs res" where
  "MemBlk_fillWith v p s = bindE (get_mem p s) (\<lambda>m.
     write_bytes p 0 (replicate (nat (msize m)) (Some v)) s)"

section \<open>BufBlk: making and releasing\<close>

definition BufBlk_default :: "bufs \<Rightarrow> ptr \<times> bufs" where
  "BufBlk_default s =
     new_buf \<lparr>bmb = NULL, brd = 0, bwr = 0, bmark = NoMark, bnxt = NULL, bflags = Some 0\<rparr> s"

definition BufBlk_on :: "ptr \<Rightarrow> bufs \<Rightarrow> (ptr \<times> bufs) res" where
  "BufBlk_on m s = bindE (MemBlk_checkout m s) (\<lambda>s.
     Inr (new_buf \<lparr>bmb = m, brd = 0, bwr = 0, bmark = NoMark, bnxt = NULL, bflags = Some 0\<rparr> s))"

text \<open>These constructors do not initialise \<open>_flags\<close>.\<close>

definition BufBlk_data :: "byte list \<Rightarrow> bool \<Rightarrow> bufs \<Rightarrow> ptr \<times> bufs" where
  "BufBlk_data dat manage s = (let (m, s) = MemBlk_wrap dat manage s in
     new_buf \<lparr>bmb = m, brd = 0, bwr = 0, bmark = At 0, bnxt = NULL, bflags = None\<rparr> s)"

definition BufBlk_size :: "int \<Rightarrow> bufs \<Rightarrow> ptr \<times> bufs" where
  "BufBlk_size sz s = (let (m, s) = MemBlk_new sz s in
     new_buf \<lparr>bmb = m, brd = 0, bwr = 0, bmark = At 0, bnxt = NULL, bflags = None\<rparr> s)"

definition BufBlk_size_next :: "int \<Rightarrow> ptr \<Rightarrow> bufs \<Rightarrow> ptr \<times> bufs" where
  "BufBlk_size_next sz nxt s = (let (m, s) = MemBlk_new sz s in
     new_buf \<lparr>bmb = m, brd = 0, bwr = 0, bmark = At 0, bnxt = nxt, bflags = None\<rparr> s)"

text \<open>\<open>release\<close> goes down the chain first; the chain has at most \<open>heap_size\<close> blocks.\<close>

fun release_chain :: "nat \<Rightarrow> ptr \<Rightarrow> bufs \<Rightarrow> bufs res" where
  "release_chain 0 p s = Inl Diverges"
| "release_chain (Suc k) p s =
     bindE (get_buf p s) (\<lambda>b.
     bindE (if bnxt b \<noteq> NULL then release_chain k (bnxt b) s else Inr s) (\<lambda>s.
     bindE (if bmb b \<noteq> NULL then MemBlk_release (bmb b) s else Inr s) (\<lambda>s.
     bindE (free p (blks s)) (\<lambda>h. Inr (s\<lparr>blks := h\<rparr>)))))"

definition BufBlk_release :: "ptr \<Rightarrow> bufs \<Rightarrow> bufs res" where
  "BufBlk_release p s = release_chain (Suc (heap_size (blks s))) p s"

text \<open>The destructor of a block that is not deleted through \<open>release\<close>; the object itself goes
  with its scope.\<close>

definition BufBlk_destroy :: "ptr \<Rightarrow> bufs \<Rightarrow> bufs res" where
  "BufBlk_destroy p s =
     bindE (get_buf p s) (\<lambda>b.
     bindE (if bnxt b \<noteq> NULL then BufBlk_release (bnxt b) s else Inr s) (\<lambda>s.
     if bmb b \<noteq> NULL then MemBlk_release (bmb b) s else Inr s))"

section \<open>BufBlk: copies\<close>

fun copy_tail :: "nat \<Rightarrow> ptr \<Rightarrow> ptr \<Rightarrow> bufs \<Rightarrow> bufs res" where
  "copy_tail 0 walk walko s = (if walko = NULL then Inr s else Inl Diverges)"
| "copy_tail (Suc k) walk walko s =
     (if walko = NULL then Inr s
      else bindE (get_buf walko s) (\<lambda>o'.
        bindE (BufBlk_on (bmb o') s) (\<lambda>(q, s).
        bindE (set_buf walk (\<lambda>b. b\<lparr>bnxt := q\<rparr>) s) (\<lambda>s.
        bindE (set_buf q (\<lambda>b. b\<lparr>brd := brd o'\<rparr>) s) (\<lambda>s.
        bindE (set_buf q (\<lambda>b. b\<lparr>bwr := bwr o'\<rparr>) s) (\<lambda>s.
        copy_tail k q (bnxt o') s))))))"

definition BufBlk_assignFromBlk :: "ptr \<Rightarrow> ptr \<Rightarrow> bufs \<Rightarrow> bufs res" where
  "BufBlk_assignFromBlk this other s =
     bindE (get_buf other s) (\<lambda>b.
     bindE (if bmb b \<noteq> NULL then MemBlk_checkout (bmb b) s else Inr s) (\<lambda>s.
     bindE (set_buf this (\<lambda>t. t\<lparr>bmb := bmb b, bnxt := NULL, brd := brd b, bwr := bwr b,
       bmark := bmark b\<rparr>) s) (\<lambda>s.
     bindE (get_buf other s) (\<lambda>b.
     copy_tail (heap_size (blks s)) this (bnxt b) s))))"

definition BufBlk_copy :: "ptr \<Rightarrow> bufs \<Rightarrow> (ptr \<times> bufs) res" where
  "BufBlk_copy other s =
     bindE (get_buf other s) (\<lambda>b.
     let (p, s) = new_buf \<lparr>bmb = bmb b, brd = brd b, bwr = bwr b, bmark = bmark b, bnxt = NULL,
       bflags = Some 0\<rparr> s in
     bindE (BufBlk_assignFromBlk p other s) (\<lambda>s. Inr (p, s)))"

definition BufBlk_duplicate :: "ptr \<Rightarrow> bufs \<Rightarrow> (ptr \<times> bufs) res" where
  "BufBlk_duplicate this s = BufBlk_copy this s"

definition BufBlk_assign :: "ptr \<Rightarrow> ptr \<Rightarrow> bufs \<Rightarrow> bufs res" where
  "BufBlk_assign this other s =
     bindE (get_buf this s) (\<lambda>b.
     bindE (if bnxt b \<noteq> NULL then BufBlk_release (bnxt b) s else Inr s) (\<lambda>s.
     bindE (if bmb b \<noteq> NULL then MemBlk_release (bmb b) s else Inr s) (\<lambda>s.
     BufBlk_assignFromBlk this other s)))"

text \<open>\<open>_mark\<close> moved to another base by pointer arithmetic.\<close>

definition rebase :: "mark \<Rightarrow> mark" where
  "rebase k = (case k of At i \<Rightarrow> At i | _ \<Rightarrow> Wild)"

fun deepCopy_loop :: "nat \<Rightarrow> ptr \<Rightarrow> ptr \<Rightarrow> bufs \<Rightarrow> bufs res" where
  "deepCopy_loop 0 walknew walk s = (if walk = NULL then Inr s else Inl Diverges)"
| "deepCopy_loop (Suc k) walknew walk s =
     (if walk = NULL then Inr s
      else bindE (get_buf walk s) (\<lambda>b.
        bindE (if bmb b \<noteq> NULL
               then bindE (MemBlk_deepCopy (bmb b) s) (\<lambda>(m, s).
                 set_buf walknew (\<lambda>n. n\<lparr>bmb := m, bflags := bflags b, brd := brd b, bwr := bwr b,
                   bmark := rebase (bmark b)\<rparr>) s)
               else Inr s) (\<lambda>s.
        if bnxt b = NULL then Inr s
        else let (q, s) = BufBlk_default s in
          bindE (set_buf walknew (\<lambda>n. n\<lparr>bnxt := q\<rparr>) s) (\<lambda>s. deepCopy_loop k q (bnxt b) s))))"

definition BufBlk_deepCopy :: "ptr \<Rightarrow> bufs \<Rightarrow> (ptr \<times> bufs) res" where
  "BufBlk_deepCopy this s =
     (let (p, s) = BufBlk_default s in
      bindE (deepCopy_loop (heap_size (blks s)) p this s) (\<lambda>s. Inr (p, s)))"

section \<open>BufBlk: one block\<close>

definition BufBlk_getRefCount :: "ptr \<Rightarrow> bufs \<Rightarrow> int res" where
  "BufBlk_getRefCount p s = bindE (get_buf p s) (\<lambda>b.
     if bmb b \<noteq> NULL then MemBlk_getRefCount (bmb b) s else Inr 0)"

definition BufBlk_set_flags :: "32 word \<Rightarrow> ptr \<Rightarrow> bufs \<Rightarrow> bufs res" where
  "BufBlk_set_flags f p s = set_buf p (\<lambda>b. b\<lparr>bflags := Some f\<rparr>) s"

definition BufBlk_get_flags :: "ptr \<Rightarrow> bufs \<Rightarrow> 32 word res" where
  "BufBlk_get_flags p s = bindE (get_buf p s) (\<lambda>b.
     case bflags b of None \<Rightarrow> Inl Uninit | Some f \<Rightarrow> Inr f)"

definition BufBlk_nexblk :: "ptr \<Rightarrow> bufs \<Rightarrow> ptr res" where
  "BufBlk_nexblk p s = bindE (get_buf p s) (\<lambda>b. Inr (bnxt b))"

definition BufBlk_setNexblk :: "ptr \<Rightarrow> ptr \<Rightarrow> bufs \<Rightarrow> bufs res" where
  "BufBlk_setNexblk q p s = set_buf p (\<lambda>b. b\<lparr>bnxt := q\<rparr>) s"

definition BufBlk_length :: "ptr \<Rightarrow> bufs \<Rightarrow> int res" where
  "BufBlk_length p s = bindE (get_buf p s) (\<lambda>b. Inr (bwr b - brd b))"

definition BufBlk_capacity :: "ptr \<Rightarrow> bufs \<Rightarrow> int res" where
  "BufBlk_capacity p s = bindE (get_buf p s) (\<lambda>b. MemBlk_size (bmb b) s)"

definition BufBlk_freespace :: "ptr \<Rightarrow> bufs \<Rightarrow> int res" where
  "BufBlk_freespace p s = bindE (get_buf p s) (\<lambda>b.
     bindE (MemBlk_size (bmb b) s) (\<lambda>n. Inr (n - bwr b)))"

text \<open>\<open>src\<close> is the memory from the source address on.\<close>

definition BufBlk_copyFrom :: "byte list \<Rightarrow> int \<Rightarrow> ptr \<Rightarrow> bufs \<Rightarrow> (int \<times> bufs) res" where
  "BufBlk_copyFrom src sz p s =
     bindE (BufBlk_freespace p s) (\<lambda>f.
     let n = (if f < sz then f else sz) in
     if n < 0 \<or> int (length src) < n then Inl OutOfBounds
     else bindE (get_buf p s) (\<lambda>b.
       bindE (write_bytes (bmb b) (bwr b) (take (nat n) src) s) (\<lambda>s.
       bindE (set_buf p (\<lambda>b. b\<lparr>bwr := bwr b + n\<rparr>) s) (\<lambda>s. Inr (n, s)))))"

definition BufBlk_reset :: "ptr \<Rightarrow> bufs \<Rightarrow> bufs res" where
  "BufBlk_reset p s = bindE (get_buf p s) (\<lambda>b. bindE (get_mem (bmb b) s) (\<lambda>_.
     set_buf p (\<lambda>b. b\<lparr>brd := 0, bwr := 0, bmark := At 0\<rparr>) s))"

definition BufBlk_isValid :: "ptr \<Rightarrow> bufs \<Rightarrow> bool res" where
  "BufBlk_isValid p s = bindE (get_buf p s) (\<lambda>b. Inr (bmb b \<noteq> NULL))"

definition BufBlk_resize :: "int \<Rightarrow> ptr \<Rightarrow> bufs \<Rightarrow> (bool \<times> bufs) res" where
  "BufBlk_resize sz p s = bindE (get_buf p s) (\<lambda>b.
     if bmb b = NULL then Inr (False, s)
     else bindE (MemBlk_resize (bmb b) sz s) (\<lambda>(ok, s).
       if ok then bindE (set_buf p (\<lambda>b. b\<lparr>bmark := rebase (bmark b)\<rparr>) s) (\<lambda>s. Inr (True, s))
       else Inr (False, s)))"

definition BufBlk_rewind :: "int \<Rightarrow> ptr \<Rightarrow> bufs \<Rightarrow> bufs res" where
  "BufBlk_rewind offset p s = bindE (get_buf p s) (\<lambda>b.
     case bmark b of
       At i \<Rightarrow> set_buf p (\<lambda>b. b\<lparr>brd := i + offset\<rparr>) s
     | NoMark \<Rightarrow> if bmb b = NULL \<and> offset = 0 then Inr s else Inl NullDeref
     | Wild \<Rightarrow> Inl Dangling)"

definition BufBlk_setMark :: "ptr \<Rightarrow> bufs \<Rightarrow> bufs res" where
  "BufBlk_setMark p s =
     set_buf p (\<lambda>b. b\<lparr>bmark := (if bmb b = NULL then NoMark else At (brd b))\<rparr>) s"

definition BufBlk_mark :: "ptr \<Rightarrow> bufs \<Rightarrow> mark res" where
  "BufBlk_mark p s = bindE (get_buf p s) (\<lambda>b. Inr (bmark b))"

definition BufBlk_fillWith :: "8 word \<Rightarrow> ptr \<Rightarrow> bufs \<Rightarrow> bufs res" where
  "BufBlk_fillWith v p s = bindE (get_buf p s) (\<lambda>b. MemBlk_fillWith v (bmb b) s)"

definition BufBlk_rd_ptr :: "ptr \<Rightarrow> bufs \<Rightarrow> int res" where
  "BufBlk_rd_ptr p s = bindE (get_buf p s) (\<lambda>b. Inr (brd b))"

definition BufBlk_wr_ptr :: "ptr \<Rightarrow> bufs \<Rightarrow> int res" where
  "BufBlk_wr_ptr p s = bindE (get_buf p s) (\<lambda>b. Inr (bwr b))"

definition BufBlk_inc_rd_ptr :: "int \<Rightarrow> ptr \<Rightarrow> bufs \<Rightarrow> bufs res" where
  "BufBlk_inc_rd_ptr x p s = set_buf p (\<lambda>b. b\<lparr>brd := brd b + x\<rparr>) s"

definition BufBlk_inc_wr_ptr :: "int \<Rightarrow> ptr \<Rightarrow> bufs \<Rightarrow> bufs res" where
  "BufBlk_inc_wr_ptr x p s = set_buf p (\<lambda>b. b\<lparr>bwr := bwr b + x\<rparr>) s"

definition BufBlk_dec_rd_ptr :: "int \<Rightarrow> ptr \<Rightarrow> bufs \<Rightarrow> bufs res" where
  "BufBlk_dec_rd_ptr x p s = set_buf p (\<lambda>b. b\<lparr>brd := brd b - x\<rparr>) s"

definition BufBlk_dec_wr_ptr :: "int \<Rightarrow> ptr \<Rightarrow> bufs \<Rightarrow> bufs res" where
  "BufBlk_dec_wr_ptr x p s = set_buf p (\<lambda>b. b\<lparr>bwr := bwr b - x\<rparr>) s"

definition BufBlk_set_rd_ptr :: "int \<Rightarrow> ptr \<Rightarrow> bufs \<Rightarrow> bufs res" where
  "BufBlk_set_rd_ptr i p s = set_buf p (\<lambda>b. b\<lparr>brd := i\<rparr>) s"

definition BufBlk_set_wr_ptr :: "int \<Rightarrow> ptr \<Rightarrow> bufs \<Rightarrow> bufs res" where
  "BufBlk_set_wr_ptr i p s = set_buf p (\<lambda>b. b\<lparr>bwr := i\<rparr>) s"

definition BufBlk_isContigous :: "int \<Rightarrow> int \<Rightarrow> ptr \<Rightarrow> bufs \<Rightarrow> bool res" where
  "BufBlk_isContigous pos len p s = bindE (get_buf p s) (\<lambda>b. bindE (MemBlk_size (bmb b) s) (\<lambda>n.
     Inr (0 \<le> pos \<and> pos + len \<le> n)))"

definition BufBlk_isContigousReadble :: "int \<Rightarrow> int \<Rightarrow> ptr \<Rightarrow> bufs \<Rightarrow> bool res" where
  "BufBlk_isContigousReadble pos len p s = bindE (get_buf p s) (\<lambda>b.
     Inr (brd b \<le> pos \<and> pos + len \<le> bwr b))"

end
