(* ===== verification/TW_BufChain.thy ===== *)
theory TW_BufChain
  imports TW_BufBlk
begin

text \<open>
  The operations of include/TW/tw_bufblk.h that work on a whole chain of BufBlks (addToEnd,
  total_length, total_capacity, getContigBlock, eatBytes) and BufBlkIter, with what they do to the
  bytes between the read and write pointers of the chain.
\<close>

section \<open>The operations on a chain\<close>

definition BufBlk_addToEnd :: "ptr \<Rightarrow> ptr \<Rightarrow> bufs \<Rightarrow> bufs res" where
  "BufBlk_addToEnd b this s =
     bindE (seek_last bnxt (blks s) this 0) (\<lambda>(look, _). set_buf look (\<lambda>c. c\<lparr>bnxt := b\<rparr>) s)"

fun total_length_loop :: "nat \<Rightarrow> int \<Rightarrow> ptr \<Rightarrow> bufs \<Rightarrow> int res" where
  "total_length_loop 0 n look s = (if look = NULL then Inr n else Inl Diverges)"
| "total_length_loop (Suc k) n look s =
     (if look = NULL then Inr n
      else bindE (BufBlk_length look s) (\<lambda>l.
        bindE (get_buf look s) (\<lambda>b. total_length_loop k (n + l) (bnxt b) s)))"

definition BufBlk_total_length :: "ptr \<Rightarrow> bufs \<Rightarrow> int res" where
  "BufBlk_total_length this s = total_length_loop (heap_size (blks s)) 0 this s"

fun total_capacity_loop :: "nat \<Rightarrow> int \<Rightarrow> ptr \<Rightarrow> bufs \<Rightarrow> int res" where
  "total_capacity_loop 0 n look s = (if look = NULL then Inr n else Inl Diverges)"
| "total_capacity_loop (Suc k) n look s =
     (if look = NULL then Inr n
      else bindE (BufBlk_capacity look s) (\<lambda>l.
        bindE (get_buf look s) (\<lambda>b. total_capacity_loop k (n + l) (bnxt b) s)))"

definition BufBlk_total_capacity :: "ptr \<Rightarrow> bufs \<Rightarrow> int res" where
  "BufBlk_total_capacity this s = total_capacity_loop (heap_size (blks s)) 0 this s"

text \<open>The block where an offset lies, what is left of the offset there, and the block before.\<close>

fun find_offset :: "nat \<Rightarrow> int \<Rightarrow> ptr \<Rightarrow> ptr \<Rightarrow> bufs \<Rightarrow> (int \<times> ptr \<times> ptr) res" where
  "find_offset 0 need look prev s =
     (if need < 0 \<or> look = NULL then Inr (need, look, prev) else Inl Diverges)"
| "find_offset (Suc k) need look prev s =
     (if need < 0 \<or> look = NULL then Inr (need, look, prev)
      else bindE (BufBlk_length look s) (\<lambda>l.
        if need < l then Inr (need, look, prev)
        else bindE (get_buf look s) (\<lambda>b. find_offset k (need - l) (bnxt b) look s)))"

text \<open>The memory a pointer into a block leads to.\<close>

definition bytes_from :: "ptr \<Rightarrow> int \<Rightarrow> bufs \<Rightarrow> byte list res" where
  "bytes_from m off s = bindE (get_mem m s) (\<lambda>c.
     if off < 0 \<or> int (length (mbytes c)) < off then Inl OutOfBounds
     else Inr (drop (nat off) (mbytes c)))"

text \<open>The bytes of the blocks that follow go to the block \<open>out\<close>, until none \<open>remain\<close>.\<close>

fun contig_loop :: "nat \<Rightarrow> ptr \<Rightarrow> int \<Rightarrow> ptr \<Rightarrow> bufs \<Rightarrow> (int \<times> bufs) res" where
  "contig_loop 0 out remain look s =
     (if look = NULL \<or> remain \<le> 0 then Inr (remain, s) else Inl Diverges)"
| "contig_loop (Suc k) out remain look s =
     (if look = NULL \<or> remain \<le> 0 then Inr (remain, s)
      else bindE (BufBlk_length look s) (\<lambda>l.
        let need = (if l < remain then l else remain) in
        bindE (get_buf look s) (\<lambda>b.
        bindE (bytes_from (bmb b) (brd b) s) (\<lambda>src.
        bindE (BufBlk_copyFrom src need out s) (\<lambda>(_, s).
        bindE (get_buf look s) (\<lambda>b. contig_loop k out (remain - need) (bnxt b) s))))))"

definition BufBlk_getContigBlock ::
    "ptr \<Rightarrow> int \<Rightarrow> int \<Rightarrow> ptr \<Rightarrow> bufs \<Rightarrow> (bool \<times> ptr \<times> bufs) res" where
  "BufBlk_getContigBlock outblk rd_offset sz this s =
     bindE (find_offset (heap_size (blks s)) rd_offset this NULL s) (\<lambda>(need, look, _).
     if look = NULL then Inr (False, outblk, s)
     else bindE (BufBlk_length look s) (\<lambda>l.
     if \<not> need < l then Inr (False, outblk, s)
     else if l - need - sz \<ge> 0 then
       bindE (get_buf look s) (\<lambda>b.
       bindE (BufBlk_on (bmb b) s) (\<lambda>(q, s).
       bindE (get_buf look s) (\<lambda>b.
       bindE (set_buf q (\<lambda>c. c\<lparr>brd := brd b + need\<rparr>) s) (\<lambda>s.
       bindE (BufBlk_setMark q s) (\<lambda>s.
       bindE (set_buf q (\<lambda>c. c\<lparr>bwr := brd c + sz\<rparr>) s) (\<lambda>s. Inr (True, q, s)))))))
     else bindE (get_buf look s) (\<lambda>b.
       if bnxt b = NULL then Inr (False, outblk, s)
       else let (q, s) = BufBlk_size sz s in
         bindE (bytes_from (bmb b) (brd b + need) s) (\<lambda>src.
         bindE (BufBlk_copyFrom src (l - need) q s) (\<lambda>(_, s).
         bindE (get_buf look s) (\<lambda>b.
         bindE (contig_loop (heap_size (blks s)) q (sz - (l - need)) (bnxt b) s) (\<lambda>(remain, s).
         Inr (remain = 0, q, s))))))))"

text \<open>The loop of eatBytes that looks for the end of what it removes, in \<open>look\<close>, with \<open>back\<close> the
  block before that.\<close>

fun eat_loop :: "nat \<Rightarrow> int \<Rightarrow> ptr \<Rightarrow> ptr \<Rightarrow> bufs \<Rightarrow> (int \<times> ptr \<times> ptr \<times> bufs) res" where
  "eat_loop 0 sz look back s =
     (if look = NULL \<or> sz \<le> 0 then Inr (sz, look, back, s) else Inl Diverges)"
| "eat_loop (Suc k) sz look back s =
     (if look = NULL \<or> sz \<le> 0 then Inr (sz, look, back, s)
      else bindE (BufBlk_length look s) (\<lambda>l.
        if sz < l then
          bindE (set_buf look (\<lambda>b. b\<lparr>brd := brd b + sz\<rparr>) s) (\<lambda>s. Inr (sz, look, back, s))
        else bindE (get_buf look s) (\<lambda>b. eat_loop k (sz - l) (bnxt b) look s)))"

text \<open>The three cases of eatBytes: the bytes end before the end of the block, or there, or in
  a block that follows.\<close>

definition eat_inside :: "int \<Rightarrow> int \<Rightarrow> ptr \<Rightarrow> bufs \<Rightarrow> bufs res" where
  "eat_inside need sz look s =
     (if 0 < need then
        bindE (get_buf look s) (\<lambda>b.
        bindE (BufBlk_length look s) (\<lambda>l.
        bindE (read_bytes (bmb b) (brd b + need + sz) (l - sz - need) s) (\<lambda>bs.
        bindE (write_bytes (bmb b) (brd b + need) bs s) (\<lambda>s.
        set_buf look (\<lambda>b. b\<lparr>bwr := bwr b - sz\<rparr>) s))))
      else set_buf look (\<lambda>b. b\<lparr>brd := brd b + sz\<rparr>) s)"

definition eat_to_end :: "int \<Rightarrow> ptr \<Rightarrow> ptr \<Rightarrow> ptr \<Rightarrow> bufs \<Rightarrow> (ptr \<times> bufs) res" where
  "eat_to_end need head look prev s =
     (if 0 < need then
        bindE (set_buf look (\<lambda>b. b\<lparr>bwr := brd b + need\<rparr>) s) (\<lambda>s. Inr (head, s))
      else bindE (get_buf look s) (\<lambda>b.
        bindE (if prev \<noteq> NULL then set_buf prev (\<lambda>c. c\<lparr>bnxt := bnxt b\<rparr>) s else Inr s) (\<lambda>s.
        bindE (if head = look then bindE (get_buf look s) (\<lambda>b. Inr (bnxt b)) else Inr head) (\<lambda>head.
        bindE (set_buf look (\<lambda>c. c\<lparr>bnxt := NULL\<rparr>) s) (\<lambda>s.
        bindE (BufBlk_release look s) (\<lambda>s. Inr (head, s)))))))"

definition drop_blocks :: "ptr \<Rightarrow> ptr \<Rightarrow> ptr \<Rightarrow> ptr \<Rightarrow> int \<Rightarrow> bufs \<Rightarrow> bufs res" where
  "drop_blocks prev front back look sz s =
     (if back \<noteq> front then
        bindE (set_buf back (\<lambda>b. b\<lparr>bnxt := NULL\<rparr>) s) (\<lambda>s.
        bindE (set_buf prev (\<lambda>b. b\<lparr>bnxt := look\<rparr>) s) (\<lambda>s.
        BufBlk_release front s))
      else if prev \<noteq> front then
        if look = front \<and> sz \<noteq> 0 then Inr s
        else bindE (set_buf front (\<lambda>b. b\<lparr>bnxt := NULL\<rparr>) s) (\<lambda>s.
          bindE (set_buf prev (\<lambda>b. b\<lparr>bnxt := look\<rparr>) s) (\<lambda>s.
          BufBlk_release front s))
      else Inr s)"

definition eat_beyond :: "int \<Rightarrow> int \<Rightarrow> ptr \<Rightarrow> ptr \<Rightarrow> bufs \<Rightarrow> (ptr \<times> bufs) res" where
  "eat_beyond need sz head look s =
     bindE (BufBlk_length look s) (\<lambda>l.
     let prev = look; frontsz = l - need in
     bindE (if 0 < need then
        bindE (set_buf look (\<lambda>b. b\<lparr>bwr := bwr b - frontsz\<rparr>) s) (\<lambda>s.
        bindE (get_buf look s) (\<lambda>b. Inr (bnxt b, s)))
      else Inr (look, s)) (\<lambda>(front, s).
     bindE (get_buf look s) (\<lambda>b.
     bindE (eat_loop (heap_size (blks s)) (sz - frontsz) (bnxt b) front s) (\<lambda>(sz, look, back, s).
     if front = NULL then Inr (head, s)
     else bindE (drop_blocks prev front back look sz s) (\<lambda>s.
       Inr (if front = head then look else head, s))))))"

definition BufBlk_eatBytes :: "int \<Rightarrow> int \<Rightarrow> ptr \<Rightarrow> bufs \<Rightarrow> (ptr \<times> bufs) res" where
  "BufBlk_eatBytes rd_offset sz this s =
     bindE (find_offset (heap_size (blks s)) rd_offset this NULL s) (\<lambda>(need, look, prev).
     if look = NULL then Inr (this, s)
     else bindE (BufBlk_length look s) (\<lambda>l.
     if \<not> need < l then Inr (this, s)
     else if l - need - sz > 0 then bindE (eat_inside need sz look s) (\<lambda>s. Inr (this, s))
     else if l - need - sz = 0 then eat_to_end need this look prev s
     else eat_beyond need sz this look s))"

section \<open>BufBlkIter\<close>

record biter =
  icur :: ptr
  istart :: ptr
  ioff :: int

definition BufBlkIter_new :: "ptr \<Rightarrow> bufs \<Rightarrow> (biter \<times> bufs) res" where
  "BufBlkIter_new b s = bindE (BufBlk_duplicate b s) (\<lambda>(p, s).
     Inr (\<lparr>icur = p, istart = p, ioff = 0\<rparr>, s))"

text \<open>A chunk is the memory block and the offset its start points to, and its length.\<close>

type_synonym chunk = "ptr \<times> int \<times> int"

definition BufBlkIter_getNextChunk :: "int \<Rightarrow> biter \<Rightarrow> bufs \<Rightarrow> (chunk option \<times> biter) res" where
  "BufBlkIter_getNextChunk mx it s =
     (if icur it = NULL then Inr (None, it)
      else bindE (get_buf (icur it) s) (\<lambda>b.
        bindE (BufBlk_length (icur it) s) (\<lambda>l.
        let start = brd b + ioff it in
        if mx = -1 then
          Inr (Some (bmb b, start, l - ioff it), it\<lparr>ioff := 0, icur := bnxt b\<rparr>)
        else if l - ioff it \<le> mx then
          Inr (Some (bmb b, start, l - ioff it), it\<lparr>ioff := 0, icur := bnxt b\<rparr>)
        else let it' = it\<lparr>ioff := ioff it + mx\<rparr> in
          Inr (Some (bmb b, start, mx), if l \<le> ioff it' then it'\<lparr>icur := bnxt b\<rparr> else it'))))"

definition BufBlkIter_previewNextChunk :: "int \<Rightarrow> biter \<Rightarrow> bufs \<Rightarrow> chunk option res" where
  "BufBlkIter_previewNextChunk mx it s =
     (if icur it = NULL then Inr None
      else bindE (get_buf (icur it) s) (\<lambda>b.
        bindE (BufBlk_length (icur it) s) (\<lambda>l.
        let start = brd b + ioff it in
        if mx = -1 then Inr (Some (bmb b, start, l - ioff it))
        else if l - ioff it < mx then Inr (Some (bmb b, start, l - ioff it))
        else Inr (Some (bmb b, start, mx)))))"

text \<open>The bytes written at the destination so far are in \<open>out\<close>.\<close>

fun copy_loop :: "nat \<Rightarrow> byte list \<Rightarrow> int \<Rightarrow> biter \<Rightarrow> bufs \<Rightarrow> (byte list \<times> int \<times> biter) res" where
  "copy_loop 0 out remain it s =
     (if remain \<le> 0 \<or> icur it = NULL then Inr (out, remain, it) else Inl Diverges)"
| "copy_loop (Suc k) out remain it s =
     (if remain \<le> 0 \<or> icur it = NULL then Inr (out, remain, it)
      else bindE (get_buf (icur it) s) (\<lambda>b.
        bindE (BufBlk_length (icur it) s) (\<lambda>l.
        if l - ioff it \<le> remain then
          bindE (read_bytes (bmb b) (brd b + ioff it) (l - ioff it) s) (\<lambda>bs.
          copy_loop k (out @ bs) (remain - (l - ioff it)) (it\<lparr>ioff := 0, icur := bnxt b\<rparr>) s)
        else
          bindE (read_bytes (bmb b) (brd b + ioff it) remain s) (\<lambda>bs.
          copy_loop k (out @ bs) 0 (it\<lparr>ioff := ioff it + remain\<rparr>) s))))"

text \<open>\<open>None\<close> stands for false; otherwise the bytes copied and their number.\<close>

definition BufBlkIter_copyNextChunks ::
    "int \<Rightarrow> biter \<Rightarrow> bufs \<Rightarrow> ((byte list \<times> int) option \<times> biter) res" where
  "BufBlkIter_copyNextChunks space it s =
     (if icur it = NULL then Inr (None, it)
      else bindE (copy_loop (Suc (heap_size (blks s))) [] space it s) (\<lambda>(out, remain, it).
        Inr (Some (out, space - remain), it)))"

definition BufBlkIter_rewind :: "biter \<Rightarrow> biter" where
  "BufBlkIter_rewind it = it\<lparr>icur := istart it, ioff := 0\<rparr>"

definition BufBlkIter_destroy :: "biter \<Rightarrow> bufs \<Rightarrow> bufs res" where
  "BufBlkIter_destroy it s =
     (if istart it \<noteq> NULL then BufBlk_release (istart it) s else Inr s)"

section \<open>The bytes of a chain\<close>

definition buf_at :: "bufs \<Rightarrow> ptr \<Rightarrow> buf" where
  "buf_at s p = obj_at (blks s) p"

definition mem_of :: "bufs \<Rightarrow> ptr \<Rightarrow> ptr" where
  "mem_of s p = bmb (buf_at s p)"

definition blk_bytes :: "bufs \<Rightarrow> ptr \<Rightarrow> byte list" where
  "blk_bytes s p = (let b = buf_at s p; m = obj_at (mems s) (bmb b) in
     take (nat (bwr b - brd b)) (drop (nat (brd b)) (mbytes m)))"

definition content :: "bufs \<Rightarrow> ptr list \<Rightarrow> byte list" where
  "content s ps = concat (map (blk_bytes s) ps)"

text \<open>A block in order: it has its memory, and \<open>base \<le> rd_ptr \<le> wr_ptr \<le> base + size\<close>.\<close>

definition ok_blk :: "bufs \<Rightarrow> ptr \<Rightarrow> bool" where
  "ok_blk s p \<longleftrightarrow> (\<exists>b m. cell_at (blks s) p = Obj b \<and> cell_at (mems s) (bmb b) = Obj m \<and>
     0 \<le> brd b \<and> brd b \<le> bwr b \<and> bwr b \<le> msize m \<and> msize m = int (length (mbytes m)) \<and>
     1 \<le> mrefs m)"

definition buf_rep :: "bufs \<Rightarrow> ptr \<Rightarrow> ptr list \<Rightarrow> bool" where
  "buf_rep s p ps \<longleftrightarrow> chain bnxt (blks s) p ps NULL \<and> (\<forall>q\<in>set ps. ok_blk s q)"

lemma get_buf_Obj [simp]: "cell_at (blks s) p = Obj b \<Longrightarrow> get_buf p s = Inr b"
  by (simp add: get_buf_def)

lemma get_mem_Obj [simp]: "cell_at (mems s) p = Obj m \<Longrightarrow> get_mem p s = Inr m"
  by (simp add: get_mem_def)

lemma set_buf_Obj [simp]:
  "cell_at (blks s) p = Obj b \<Longrightarrow> set_buf p f s = Inr (s\<lparr>blks := put_cell p (Obj (f b)) (blks s)\<rparr>)"
  by (simp add: set_buf_def modify_Obj)

lemma set_mem_Obj [simp]:
  "cell_at (mems s) p = Obj m \<Longrightarrow> set_mem p f s = Inr (s\<lparr>mems := put_cell p (Obj (f m)) (mems s)\<rparr>)"
  by (simp add: set_mem_def modify_Obj)

lemma new_buf_eq [simp]: "new_buf b s = (Suc (heap_size (blks s)), s\<lparr>blks := new_obj b (blks s)\<rparr>)"
  by (simp add: new_buf_def alloc_obj_def)

lemma new_mem_eq [simp]: "new_mem m s = (Suc (heap_size (mems s)), s\<lparr>mems := new_obj m (mems s)\<rparr>)"
  by (simp add: new_mem_def alloc_obj_def)

lemma content_Nil [simp]: "content s [] = []"
  by (simp add: content_def)

lemma content_Cons [simp]: "content s (p # ps) = blk_bytes s p @ content s ps"
  by (simp add: content_def)

lemma content_append [simp]: "content s (ps @ qs) = content s ps @ content s qs"
  by (simp add: content_def)

lemma ok_blkE:
  assumes "ok_blk s p"
  obtains b m where "cell_at (blks s) p = Obj b" "cell_at (mems s) (bmb b) = Obj m"
    "0 \<le> brd b" "brd b \<le> bwr b" "bwr b \<le> msize m" "msize m = int (length (mbytes m))"
    "1 \<le> mrefs m" "blk_bytes s p = take (nat (bwr b - brd b)) (drop (nat (brd b)) (mbytes m))"
    "int (length (blk_bytes s p)) = bwr b - brd b" "buf_at s p = b" "mem_of s p = bmb b"
proof -
  from assms obtain b m where *: "cell_at (blks s) p = Obj b" "cell_at (mems s) (bmb b) = Obj m"
    "0 \<le> brd b" "brd b \<le> bwr b" "bwr b \<le> msize m" "msize m = int (length (mbytes m))"
    "1 \<le> mrefs m" by (auto simp: ok_blk_def)
  then have "blk_bytes s p = take (nat (bwr b - brd b)) (drop (nat (brd b)) (mbytes m))"
    by (simp add: blk_bytes_def buf_at_def)
  with * show ?thesis
    by (intro that [of b m]) (auto simp: buf_at_def mem_of_def nat_diff_distrib)
qed

lemma ok_blk_mem: "ok_blk s p \<Longrightarrow> mem_of s p \<noteq> Suc (heap_size (mems s))"
  by (erule ok_blkE) (metis cell.distinct(5) cell_at_fresh)

lemma buf_rep_Nil [simp]: "buf_rep s p [] \<longleftrightarrow> p = NULL"
  by (auto simp: buf_rep_def)

lemma buf_rep_Cons:
  "buf_rep s p (q # qs) \<longleftrightarrow> p = q \<and> 0 < q \<and> ok_blk s q \<and> buf_rep s (bnxt (buf_at s q)) qs"
proof (cases "\<exists>b. cell_at (blks s) q = Obj b")
  case True
  then obtain b where b: "cell_at (blks s) q = Obj b" by blast
  with cell_at_Obj_pos [OF b] show ?thesis by (auto simp: buf_rep_def buf_at_def)
next
  case False
  then show ?thesis by (auto simp: buf_rep_def ok_blk_def)
qed

lemma buf_rep_append:
  "buf_rep s p (as @ q # bs) \<Longrightarrow> buf_rep s q (q # bs)"
  by (auto simp: buf_rep_def chain_append)

lemma length_ok: "ok_blk s p \<Longrightarrow> BufBlk_length p s = Inr (int (length (blk_bytes s p)))"
  by (auto simp: BufBlk_length_def elim!: ok_blkE)

lemma get_buf_ok: "ok_blk s p \<Longrightarrow> get_buf p s = Inr (buf_at s p)"
  by (auto elim!: ok_blkE)

lemma total_length_loop_eq:
  "buf_rep s p ps \<Longrightarrow> length ps \<le> k \<Longrightarrow>
     total_length_loop k n p s = Inr (n + int (length (content s ps)))"
proof (induction k arbitrary: p ps n)
  case 0
  then show ?case by simp
next
  case (Suc k)
  then show ?case
    by (cases ps) (auto simp: buf_rep_Cons length_ok get_buf_ok)
qed

lemma buf_rep_length: "buf_rep s p ps \<Longrightarrow> length ps \<le> heap_size (blks s)"
  by (auto simp: buf_rep_def dest: chain_length)

lemma total_length_eq:
  "buf_rep s p ps \<Longrightarrow> BufBlk_total_length p s = Inr (int (length (content s ps)))"
  by (simp add: BufBlk_total_length_def total_length_loop_eq buf_rep_length)

lemma find_offset_inside:
  "buf_rep s p (as @ q # bs) \<Longrightarrow> length as < k \<Longrightarrow> int (length (content s as)) \<le> need \<Longrightarrow>
   need < int (length (content s (as @ [q]))) \<Longrightarrow>
     find_offset k need p prev s = Inr (need - int (length (content s as)), q, last (prev # as))"
proof (induction as arbitrary: k p need prev)
  case Nil
  then show ?case by (cases k) (auto simp: buf_rep_Cons length_ok)
next
  case (Cons a as)
  then obtain k' where k: "k = Suc k'" by (cases k) auto
  from Cons.prems have "buf_rep s (bnxt (buf_at s a)) (as @ q # bs)" "ok_blk s a" "p = a" "0 < a"
    by (auto simp: buf_rep_Cons)
  with Cons.IH [of "bnxt (buf_at s a)" k' "need - int (length (blk_bytes s a))" a] Cons.prems k
  show ?case by (simp add: length_ok get_buf_ok algebra_simps)
qed

lemma find_offset_beyond:
  "buf_rep s p ps \<Longrightarrow> length ps \<le> k \<Longrightarrow> int (length (content s ps)) \<le> need \<Longrightarrow>
     find_offset k need p prev s = Inr (need - int (length (content s ps)), NULL, last (prev # ps))"
proof (induction ps arbitrary: k p need prev)
  case Nil
  then show ?case by (cases k) auto
next
  case (Cons a ps)
  then obtain k' where k: "k = Suc k'" by (cases k) auto
  from Cons.prems have "buf_rep s (bnxt (buf_at s a)) ps" "ok_blk s a" "p = a" "0 < a"
    by (auto simp: buf_rep_Cons)
  with Cons.IH [of "bnxt (buf_at s a)" k' "need - int (length (blk_bytes s a))" a] Cons.prems k
  show ?case by (simp add: length_ok get_buf_ok algebra_simps)
qed

text \<open>An offset below the length of the chain splits the chain.\<close>

lemma offset_splits:
  "0 \<le> n \<Longrightarrow> n < int (length (content s ps)) \<Longrightarrow> \<exists>as q bs. ps = as @ q # bs \<and>
     int (length (content s as)) \<le> n \<and> n < int (length (content s (as @ [q])))"
proof (induction ps arbitrary: n)
  case Nil
  then show ?case by simp
next
  case (Cons a ps)
  show ?case
  proof (cases "n < int (length (blk_bytes s a))")
    case True
    with Cons.prems show ?thesis by (intro exI [of _ "[]"]) auto
  next
    case False
    with Cons.prems Cons.IH [of "n - int (length (blk_bytes s a))"]
    obtain as q bs where "ps = as @ q # bs" "int (length (content s as)) \<le> n - int (length (blk_bytes s a))"
      "n - int (length (blk_bytes s a)) < int (length (content s (as @ [q])))" by auto
    then show ?thesis by (intro exI [of _ "a # as"]) auto
  qed
qed

section \<open>Reading a chain through an iterator\<close>

definition iter_ok :: "bufs \<Rightarrow> biter \<Rightarrow> ptr list \<Rightarrow> bool" where
  "iter_ok s it ps \<longleftrightarrow> buf_rep s (icur it) ps \<and> 0 \<le> ioff it \<and>
     (case ps of [] \<Rightarrow> ioff it = 0 | p # _ \<Rightarrow> ioff it \<le> int (length (blk_bytes s p)))"

definition iter_left :: "bufs \<Rightarrow> biter \<Rightarrow> ptr list \<Rightarrow> byte list" where
  "iter_left s it ps = drop (nat (ioff it)) (content s ps)"

lemma read_blk:
  assumes "ok_blk s p" "0 \<le> i" "0 \<le> n" "i + n \<le> int (length (blk_bytes s p))"
  shows "read_bytes (mem_of s p) (brd (buf_at s p) + i) n s =
    Inr (take (nat n) (drop (nat i) (blk_bytes s p)))"
proof -
  obtain b m where *: "cell_at (mems s) (bmb b) = Obj m" "0 \<le> brd b" "brd b \<le> bwr b"
    "bwr b \<le> msize m" "msize m = int (length (mbytes m))"
    "blk_bytes s p = take (nat (bwr b - brd b)) (drop (nat (brd b)) (mbytes m))"
    "int (length (blk_bytes s p)) = bwr b - brd b" "buf_at s p = b" "mem_of s p = bmb b"
    using assms(1) by (rule ok_blkE)
  have "nat (brd b + i) = nat i + nat (brd b)" and le: "nat i + nat n \<le> nat (bwr b - brd b)"
    using assms * by linarith+
  moreover from le have "min (nat n) (nat (bwr b - brd b) - nat i) = nat n" by simp
  ultimately have "take (nat n) (drop (nat (brd b + i)) (mbytes m)) =
      take (nat n) (drop (nat i) (blk_bytes s p))"
    by (simp add: *(6) drop_take)
  with assms * show ?thesis by (simp add: read_bytes_def)
qed

lemma bmb_buf_at: "bmb (buf_at s p) = mem_of s p"
  by (simp add: mem_of_def)

lemma iter_ok_next:
  "iter_ok s it (p # ps) \<Longrightarrow> iter_ok s (it\<lparr>ioff := 0, icur := bnxt (buf_at s p)\<rparr>) ps"
  by (auto simp: iter_ok_def buf_rep_Cons split: list.split)

lemma copy_loop_eq:
  "iter_ok s it ps \<Longrightarrow> 0 \<le> remain \<Longrightarrow> length ps < k \<Longrightarrow> \<exists>it' ps'.
     copy_loop k out remain it s = Inr (out @ take (nat remain) (iter_left s it ps),
       max 0 (remain - int (length (iter_left s it ps))), it') \<and>
     iter_ok s it' ps' \<and> iter_left s it' ps' = drop (nat remain) (iter_left s it ps) \<and>
     istart it' = istart it"
proof (induction k arbitrary: it ps remain out)
  case 0
  then show ?case by simp
next
  case (Suc k)
  show ?case
  proof (cases ps)
    case Nil
    with Suc.prems show ?thesis
      by (intro exI [of _ it] exI [of _ ps]) (auto simp: iter_ok_def iter_left_def)
  next
    case (Cons p ps')
    let ?l = "int (length (blk_bytes s p))" and ?b = "blk_bytes s p"
    from Suc.prems Cons have p: "icur it = p" "0 < p" "ok_blk s p" and off: "0 \<le> ioff it" "ioff it \<le> ?l"
      by (auto simp: iter_ok_def buf_rep_Cons)
    have left: "iter_left s it ps = drop (nat (ioff it)) ?b @ content s ps'"
      using off by (simp add: iter_left_def Cons)
    let ?it = "it\<lparr>ioff := 0, icur := bnxt (buf_at s p)\<rparr>"
    show ?thesis
    proof (cases "remain = 0 \<or> remain < ?l - ioff it")
      case True
      with Suc.prems p off have "copy_loop (Suc k) out remain it s =
          Inr (out @ take (nat remain) (drop (nat (ioff it)) ?b), 0, it\<lparr>ioff := ioff it + remain\<rparr>)"
        by (cases k) (auto simp: length_ok get_buf_ok bmb_buf_at read_blk)
      moreover have "nat (ioff it + remain) = nat remain + nat (ioff it)"
        using off Suc.prems by simp
      then have "iter_left s (it\<lparr>ioff := ioff it + remain\<rparr>) ps = drop (nat remain) (iter_left s it ps)"
        by (simp add: iter_left_def)
      moreover have "iter_ok s (it\<lparr>ioff := ioff it + remain\<rparr>) ps"
        using Suc.prems off True Cons by (auto simp: iter_ok_def)
      moreover have "nat remain \<le> length (drop (nat (ioff it)) ?b)"
        using True off by auto
      ultimately show ?thesis
        using left by (intro exI [of _ "it\<lparr>ioff := ioff it + remain\<rparr>"] exI [of _ ps]) auto
    next
      case False
      with Suc.prems p off have run: "copy_loop (Suc k) out remain it s =
          copy_loop k (out @ drop (nat (ioff it)) ?b) (remain - (?l - ioff it)) ?it s"
        by (auto simp: length_ok get_buf_ok bmb_buf_at read_blk)
      have "iter_ok s ?it ps'"
        using Suc.prems Cons iter_ok_next by blast
      moreover have "iter_left s ?it ps' = content s ps'" by (simp add: iter_left_def)
      moreover have "nat remain = nat (remain - (?l - ioff it)) + length (drop (nat (ioff it)) ?b)"
        using False off by auto
      ultimately show ?thesis
        using Suc.IH [of ?it ps' "remain - (?l - ioff it)" "out @ drop (nat (ioff it)) ?b"]
          Suc.prems Cons False off
        unfolding run left by (fastforce simp: max_def nat_diff_distrib)
    qed
  qed
qed

lemma copyNextChunks_eq:
  assumes "iter_ok s it ps" "0 \<le> space" "ps \<noteq> []"
  shows "\<exists>it' ps'. BufBlkIter_copyNextChunks space it s =
      Inr (Some (take (nat space) (iter_left s it ps),
        min space (int (length (iter_left s it ps)))), it') \<and>
    iter_ok s it' ps' \<and> iter_left s it' ps' = drop (nat space) (iter_left s it ps) \<and>
    istart it' = istart it"
proof -
  from assms have "icur it \<noteq> NULL" by (cases ps) (auto simp: iter_ok_def buf_rep_Cons)
  moreover from assms(1) have "length ps < Suc (heap_size (blks s))"
    by (auto simp: iter_ok_def dest: buf_rep_length)
  with assms obtain it' ps' where
    "copy_loop (Suc (heap_size (blks s))) [] space it s = Inr (take (nat space) (iter_left s it ps),
      max 0 (space - int (length (iter_left s it ps))), it')"
    "iter_ok s it' ps'" "iter_left s it' ps' = drop (nat space) (iter_left s it ps)"
    "istart it' = istart it"
    using copy_loop_eq [of s it ps space "Suc (heap_size (blks s))" "[]"] by auto
  ultimately show ?thesis
    by (intro exI [of _ it'] exI [of _ ps'])
      (auto simp: BufBlkIter_copyNextChunks_def simp del: copy_loop.simps)
qed

section \<open>Duplicates share the memory\<close>

text \<open>Each block of \<open>ms\<close> has got one more reference, and nothing else has changed.\<close>

definition more_refs :: "ptr list \<Rightarrow> bufs \<Rightarrow> bufs \<Rightarrow> bool" where
  "more_refs ms s s' \<longleftrightarrow> (\<forall>m. cell_at (mems s') m = (case cell_at (mems s) m of
     Obj c \<Rightarrow> Obj (c\<lparr>mrefs := mrefs c + int (count_list ms m)\<rparr>) | x \<Rightarrow> x))"

lemma more_refs_Nil: "mems s' = mems s \<Longrightarrow> more_refs [] s s'"
  by (simp add: more_refs_def split: cell.split)

lemma more_refs_trans: "more_refs as s t \<Longrightarrow> more_refs bs t u \<Longrightarrow> more_refs (as @ bs) s u"
  by (auto simp: more_refs_def split: cell.split)

text \<open>A block that is the same object, over memory that has at most got more references.\<close>

lemma more_refs_Obj:
  "more_refs ms s s' \<Longrightarrow> cell_at (mems s) m = Obj c \<Longrightarrow>
     cell_at (mems s') m = Obj (c\<lparr>mrefs := mrefs c + int (count_list ms m)\<rparr>)"
  by (simp add: more_refs_def)

lemma more_refs_blk:
  assumes "more_refs ms s s'" "ok_blk s p" "cell_at (blks s') q = Obj b'"
    "bmb b' = mem_of s p" "brd b' = brd (buf_at s p)" "bwr b' = bwr (buf_at s p)"
  shows "ok_blk s' q \<and> blk_bytes s' q = blk_bytes s p \<and> mem_of s' q = mem_of s p"
proof -
  obtain b m where *: "cell_at (mems s) (bmb b) = Obj m" "0 \<le> brd b" "brd b \<le> bwr b"
    "bwr b \<le> msize m" "msize m = int (length (mbytes m))" "1 \<le> mrefs m"
    "blk_bytes s p = take (nat (bwr b - brd b)) (drop (nat (brd b)) (mbytes m))"
    "buf_at s p = b" "mem_of s p = bmb b"
    using assms(2) by (rule ok_blkE)
  with more_refs_Obj [OF assms(1) *(1)] assms(3-) show ?thesis
    by (simp add: ok_blk_def blk_bytes_def buf_at_def mem_of_def)
qed

lemma more_refs_same:
  assumes "more_refs ms s s'" "ok_blk s p" "cell_at (blks s') p = cell_at (blks s) p"
  shows "ok_blk s' p \<and> blk_bytes s' p = blk_bytes s p \<and> mem_of s' p = mem_of s p"
proof -
  from assms(2) obtain b where "cell_at (blks s) p = Obj b" "buf_at s p = b" "mem_of s p = bmb b"
    by (rule ok_blkE)
  with more_refs_blk [OF assms(1,2), of p b] assms(3) show ?thesis by simp
qed

lemma buf_rep_more_refs:
  assumes "more_refs ms s s'" "buf_rep s p ps"
    and "\<And>q. q \<in> set ps \<Longrightarrow> cell_at (blks s') q = cell_at (blks s) q"
  shows "buf_rep s' p ps \<and> content s' ps = content s ps \<and> map (mem_of s') ps = map (mem_of s) ps"
proof -
  have "\<And>q. q \<in> set ps \<Longrightarrow> ok_blk s' q \<and> blk_bytes s' q = blk_bytes s q \<and> mem_of s' q = mem_of s q"
    using assms more_refs_same by (auto simp: buf_rep_def)
  moreover have "chain bnxt (blks s') p ps NULL"
    using assms(2,3) chain_frame [of ps "blks s'" "blks s" bnxt p NULL] by (auto simp: buf_rep_def)
  ultimately show ?thesis
    by (auto simp: buf_rep_def content_def intro!: arg_cong [where f = concat])
qed

text \<open>The copy of the rest of a chain behind the block \<open>w\<close>.\<close>

definition copied_after :: "ptr \<Rightarrow> buf \<Rightarrow> bufs \<Rightarrow> ptr list \<Rightarrow> ptr list \<Rightarrow> bufs \<Rightarrow> bool" where
  "copied_after w b s ps qs s' \<longleftrightarrow>
     (\<exists>n. cell_at (blks s') w = Obj (b\<lparr>bnxt := n\<rparr>) \<and> buf_rep s' n qs) \<and>
     (\<forall>q. heap_size (blks s) < q \<or> q = w \<or> cell_at (blks s') q = cell_at (blks s) q) \<and>
     (\<forall>q\<in>set qs. heap_size (blks s) < q) \<and>
     more_refs (map (mem_of s) ps) s s' \<and>
     map (blk_bytes s') qs = map (blk_bytes s) ps \<and>
     map (mem_of s') qs = map (mem_of s) ps"

lemma checkout_more_refs:
  "cell_at (mems s) m = Obj c \<Longrightarrow> MemBlk_checkout m s =
     Inr (s\<lparr>mems := put_cell m (Obj (c\<lparr>mrefs := mrefs c + 1\<rparr>)) (mems s)\<rparr>) \<and>
   more_refs [m] s (s\<lparr>mems := put_cell m (Obj (c\<lparr>mrefs := mrefs c + 1\<rparr>)) (mems s), blks := h\<rparr>)"
  by (auto simp: MemBlk_checkout_def more_refs_def cell_at_put split: cell.split)

lemma copy_tail_eq:
  "cell_at (blks s) w = Obj b \<Longrightarrow> bnxt b = NULL \<Longrightarrow> buf_rep s o' ps \<Longrightarrow> w \<notin> set ps \<Longrightarrow>
   length ps \<le> k \<Longrightarrow> \<exists>s' qs. copy_tail k w o' s = Inr s' \<and> copied_after w b s ps qs s'"
proof (induction ps arbitrary: s w b o' k)
  case Nil
  then show ?case
    by (intro exI [of _ s] exI [of _ "[]"], cases k)
      (auto simp: copied_after_def more_refs_Nil intro!: exI [of _ NULL])
next
  case (Cons p ps)
  then obtain k' where k: "k = Suc k'" "length ps \<le> k'" by (cases k) auto
  from Cons.prems have p: "o' = p" "0 < p" "ok_blk s p" "w \<noteq> p" and tl: "buf_rep s (bnxt (buf_at s p)) ps"
    by (auto simp: buf_rep_Cons)
  obtain bp m where bp: "cell_at (blks s) p = Obj bp" "cell_at (mems s) (bmb bp) = Obj m"
    "buf_at s p = bp" "mem_of s p = bmb bp"
    using p(3) by (rule ok_blkE)
  have live: "w \<le> heap_size (blks s)" "p \<le> heap_size (blks s)"
    using cell_at_valid [of "blks s" w] cell_at_valid [of "blks s" p] Cons.prems(1) bp by auto
  let ?q = "Suc (heap_size (blks s))"
  let ?bq = "\<lparr>bmb = bmb bp, brd = brd bp, bwr = bwr bp, bmark = NoMark, bnxt = NULL, bflags = Some 0\<rparr>"
  let ?m = "put_cell (bmb bp) (Obj (m\<lparr>mrefs := mrefs m + 1\<rparr>)) (mems s)"
  obtain h where h: "copy_tail k w o' s = copy_tail k' ?q (bnxt bp) (s\<lparr>mems := ?m, blks := h\<rparr>)"
    and cells: "\<And>r. cell_at h r = (if r = ?q then Obj ?bq
        else if r = w then Obj (b\<lparr>bnxt := ?q\<rparr>) else cell_at (blks s) r)"
    and size: "heap_size h = ?q"
  proof
    show "copy_tail k w o' s = copy_tail k' ?q (bnxt bp) (s\<lparr>mems := ?m, blks :=
        put_cell ?q (Obj ?bq) (put_cell ?q (Obj (?bq\<lparr>bwr := 0\<rparr>)) (put_cell w (Obj (b\<lparr>bnxt := ?q\<rparr>))
          (new_obj (?bq\<lparr>brd := 0, bwr := 0\<rparr>) (blks s))))\<rparr>)"
      using p bp Cons.prems(1) live
      by (simp add: k BufBlk_on_def checkout_more_refs cell_at_new cell_at_put)
  qed (use Cons.prems(1) live in \<open>auto simp: cell_at_new cell_at_put\<close>)
  let ?s = "s\<lparr>mems := ?m, blks := h\<rparr>"
  have mr: "more_refs [bmb bp] s ?s" using checkout_more_refs bp by blast
  have notin: "?q \<notin> set ps" "w \<notin> set ps"
    using tl Cons.prems(4) by (auto simp: buf_rep_def dest: chain_fresh)
  have keep: "\<And>r. r \<in> set ps \<Longrightarrow> cell_at h r = cell_at (blks s) r"
    using notin by (auto simp: cells)
  have tl': "buf_rep ?s (bnxt bp) ps \<and> content ?s ps = content s ps \<and> map (mem_of ?s) ps = map (mem_of s) ps"
    using buf_rep_more_refs [OF mr tl] keep bp(3) by simp
  then obtain s' qs where run: "copy_tail k' ?q (bnxt bp) ?s = Inr s'"
    and ca: "copied_after ?q ?bq ?s ps qs s'"
    using Cons.IH [of ?s ?q ?bq "bnxt bp" k'] k notin by (auto simp: cells)
  from ca obtain n where n: "cell_at (blks s') ?q = Obj (?bq\<lparr>bnxt := n\<rparr>)" "buf_rep s' n qs"
    and fr: "\<And>r. ?q < r \<or> r = ?q \<or> cell_at (blks s') r = cell_at h r"
    and fresh: "\<forall>q\<in>set qs. ?q < q" and mr': "more_refs (map (mem_of ?s) ps) ?s s'"
    and same: "map (blk_bytes s') qs = map (blk_bytes ?s) ps" "map (mem_of s') qs = map (mem_of ?s) ps"
    by (auto simp: copied_after_def size)
  have mr2: "more_refs (map (mem_of s) (p # ps)) s s'"
    using more_refs_trans [OF mr mr'] tl' bp by simp
  then have q: "ok_blk s' ?q \<and> blk_bytes s' ?q = blk_bytes s p \<and> mem_of s' ?q = mem_of s p"
    using more_refs_blk [OF _ p(3) n(1)] bp by auto
  have "cell_at (blks s') w = Obj (b\<lparr>bnxt := ?q\<rparr>)"
    using fr [of w] live by (auto simp: cells)
  moreover have "buf_rep s' ?q (?q # qs)"
    using q n by (simp add: buf_rep_Cons buf_at_def)
  moreover have "\<And>r. heap_size (blks s) < r \<or> r = w \<or> cell_at (blks s') r = cell_at (blks s) r"
  proof -
    fix r
    show "heap_size (blks s) < r \<or> r = w \<or> cell_at (blks s') r = cell_at (blks s) r"
      using fr [of r] cells [of r] by (cases "r \<le> heap_size (blks s)") auto
  qed
  moreover have "map (blk_bytes ?s) ps = map (blk_bytes s) ps"
    using more_refs_same [OF mr] tl keep by (auto simp: buf_rep_def)
  moreover have "\<forall>r\<in>set (?q # qs). heap_size (blks s) < r" using fresh by auto
  ultimately have "copied_after w b s (p # ps) (?q # qs) s'"
    unfolding copied_after_def using mr2 same q tl' by (simp, blast)
  moreover have "copy_tail k w o' s = Inr s'" using h run by simp
  ultimately show ?case by blast
qed

definition shares :: "bufs \<Rightarrow> ptr \<Rightarrow> ptr list \<Rightarrow> bufs \<Rightarrow> ptr \<Rightarrow> ptr list \<Rightarrow> bool" where
  "shares s p ps s' q qs \<longleftrightarrow>
     buf_rep s' q qs \<and> map (mem_of s') qs = map (mem_of s) ps \<and>
     map (blk_bytes s') qs = map (blk_bytes s) ps \<and>
     buf_rep s' p ps \<and> content s' ps = content s ps \<and> set qs \<inter> set ps = {} \<and>
     more_refs (map (mem_of s) ps) s s'"

lemma BufBlk_copy_eq:
  assumes rep: "buf_rep s p (a # ps)"
  shows "\<exists>q qs s'. BufBlk_copy p s = Inr (q, s') \<and> shares s p (a # ps) s' q qs"
proof -
  from rep have p: "p = a" "0 < a" "ok_blk s a" and tl: "buf_rep s (bnxt (buf_at s a)) ps"
    by (auto simp: buf_rep_Cons)
  obtain b m where b: "cell_at (blks s) a = Obj b" "cell_at (mems s) (bmb b) = Obj m"
    "buf_at s a = b" "mem_of s a = bmb b"
    using p(3) by (rule ok_blkE)
  have "a \<le> heap_size (blks s)" "bmb b \<noteq> 0"
    using cell_at_valid [of "blks s" a] cell_at_Obj_pos b by auto
  let ?q = "Suc (heap_size (blks s))"
  let ?bq = "\<lparr>bmb = bmb b, brd = brd b, bwr = bwr b, bmark = bmark b, bnxt = NULL, bflags = Some 0\<rparr>"
  let ?h = "put_cell ?q (Obj ?bq) (new_obj ?bq (blks s))"
  let ?s = "s\<lparr>mems := put_cell (bmb b) (Obj (m\<lparr>mrefs := mrefs m + 1\<rparr>)) (mems s), blks := ?h\<rparr>"
  have cells: "\<And>r. cell_at ?h r = (if r = ?q then Obj ?bq else cell_at (blks s) r)"
    by (simp add: cell_at_put cell_at_new)
  have mr: "more_refs [bmb b] s ?s" using checkout_more_refs b(2) by blast
  have notin: "?q \<notin> set (a # ps)" using rep by (auto simp: buf_rep_def dest: chain_fresh)
  then have keep: "\<And>r. r \<in> set (a # ps) \<Longrightarrow> cell_at ?h r = cell_at (blks s) r"
    by (auto simp: cells)
  then have "buf_rep ?s (bnxt b) ps" and mof: "map (mem_of ?s) ps = map (mem_of s) ps"
    using buf_rep_more_refs [OF mr tl] b(3) by simp_all
  moreover have "length ps \<le> heap_size (blks ?s)"
    using buf_rep_length [OF rep] by simp
  ultimately obtain s' qs where run: "copy_tail (heap_size (blks ?s)) ?q (bnxt b) ?s = Inr s'"
    and ca: "copied_after ?q ?bq ?s ps qs s'"
    using copy_tail_eq [of ?s ?q ?bq "bnxt b" ps "heap_size (blks ?s)"] notin cells [of ?q]
    by (auto simp del: copy_tail.simps heap_size_put heap_size_new)
  have copy: "BufBlk_copy p s = Inr (?q, s')"
    using p b run \<open>a \<le> _\<close> \<open>bmb b \<noteq> 0\<close>
    by (simp add: BufBlk_copy_def BufBlk_assignFromBlk_def MemBlk_checkout_def cell_at_new cell_at_put
        del: copy_tail.simps)
  from ca obtain n where n: "cell_at (blks s') ?q = Obj (?bq\<lparr>bnxt := n\<rparr>)" "buf_rep s' n qs"
    and fr: "\<And>r. ?q < r \<or> r = ?q \<or> cell_at (blks s') r = cell_at ?h r"
    and fresh: "\<forall>q\<in>set qs. ?q < q" and mr': "more_refs (map (mem_of ?s) ps) ?s s'"
    and same: "map (blk_bytes s') qs = map (blk_bytes ?s) ps" "map (mem_of s') qs = map (mem_of ?s) ps"
    by (auto simp: copied_after_def)
  have "set (a # ps) \<subseteq> live (blks s)"
    using rep by (auto simp: buf_rep_def dest: chain_live simp del: chain.simps set_simps)
  then have old: "r \<le> heap_size (blks s)" if "r \<in> set (a # ps)" for r
    using that live_bounds [of "blks s"] by fastforce
  have mr2: "more_refs (map (mem_of s) (a # ps)) s s'"
    using more_refs_trans [OF mr mr'] mof b(4) by simp
  then have "ok_blk s' ?q \<and> blk_bytes s' ?q = blk_bytes s a \<and> mem_of s' ?q = mem_of s a"
    using more_refs_blk [OF _ p(3) n(1)] b(3,4) by auto
  moreover have sb: "map (blk_bytes ?s) ps = map (blk_bytes s) ps"
    using more_refs_same [OF mr] tl keep by (auto simp: buf_rep_def)
  moreover have "cell_at (blks s') r = cell_at (blks s) r" if "r \<in> set (a # ps)" for r
    using fr [of r] old [OF that] keep [OF that] by auto
  then have "buf_rep s' p (a # ps) \<and> content s' (a # ps) = content s (a # ps)"
    using buf_rep_more_refs [OF mr2 rep] by simp
  moreover have "set (?q # qs) \<inter> set (a # ps) = {}"
    using old fresh by fastforce
  ultimately have "shares s p (a # ps) s' ?q (?q # qs)"
    unfolding shares_def using n mr2 same mof by (simp add: buf_rep_Cons buf_at_def)
  with copy show ?thesis by blast
qed

lemma iter_new_eq:
  assumes "buf_rep s p (a # ps)"
  shows "\<exists>it qs s'. BufBlkIter_new p s = Inr (it, s') \<and> shares s p (a # ps) s' (istart it) qs \<and>
    iter_ok s' it qs \<and> iter_left s' it qs = content s (a # ps) \<and> qs \<noteq> []"
proof -
  from BufBlk_copy_eq [OF assms] obtain q qs s' where *: "BufBlk_copy p s = Inr (q, s')"
    "shares s p (a # ps) s' q qs" by blast
  then have "map (blk_bytes s') qs = map (blk_bytes s) (a # ps)" "buf_rep s' q qs"
    by (simp_all add: shares_def)
  with * show ?thesis
    by (intro exI [of _ "\<lparr>icur = q, istart = q, ioff = 0\<rparr>"] exI [of _ qs] exI [of _ s'])
      (auto simp: BufBlkIter_new_def BufBlk_duplicate_def iter_ok_def iter_left_def content_def
        split: list.split)
qed

section \<open>Copying into a block\<close>

definition only_touches :: "ptr \<Rightarrow> ptr \<Rightarrow> bufs \<Rightarrow> bufs \<Rightarrow> bool" where
  "only_touches p m s s' \<longleftrightarrow>
     (\<forall>q. q \<noteq> p \<longrightarrow> cell_at (blks s') q = cell_at (blks s) q) \<and>
     (\<forall>k. k \<noteq> m \<longrightarrow> cell_at (mems s') k = cell_at (mems s) k) \<and>
     heap_size (blks s') = heap_size (blks s) \<and> bnxt (buf_at s' p) = bnxt (buf_at s p)"

definition room_in :: "bufs \<Rightarrow> ptr \<Rightarrow> int" where
  "room_in s p = msize (obj_at (mems s) (mem_of s p)) - bwr (buf_at s p)"

lemma only_touches_refl: "only_touches p m s s"
  by (simp add: only_touches_def)

lemma only_touches_trans:
  "only_touches p m s t \<Longrightarrow> only_touches p m t u \<Longrightarrow> only_touches p m s u"
  by (simp add: only_touches_def)

lemma only_touches_blk:
  assumes "only_touches p m s s'" "ok_blk s q" "q \<noteq> p" "mem_of s q \<noteq> m"
  shows "ok_blk s' q \<and> blk_bytes s' q = blk_bytes s q \<and> mem_of s' q = mem_of s q \<and>
    buf_at s' q = buf_at s q"
proof -
  from assms(2) obtain b c where b: "cell_at (blks s) q = Obj b" "cell_at (mems s) (bmb b) = Obj c"
    "buf_at s q = b" "mem_of s q = bmb b"
    by (rule ok_blkE)
  with assms have "cell_at (blks s') q = Obj b" "cell_at (mems s') (bmb b) = Obj c"
    by (simp_all add: only_touches_def)
  with b assms(2) show ?thesis
    by (simp add: ok_blk_def blk_bytes_def buf_at_def mem_of_def)
qed

lemma only_touches_rep:
  assumes ot: "only_touches p m s s'" and rep: "buf_rep s r qs"
    and out: "p \<notin> set qs" "m \<notin> mem_of s ` set qs"
  shows "buf_rep s' r qs \<and> content s' qs = content s qs \<and> map (mem_of s') qs = map (mem_of s) qs"
proof -
  have same: "ok_blk s' q \<and> blk_bytes s' q = blk_bytes s q \<and> mem_of s' q = mem_of s q"
    if "q \<in> set qs" for q
  proof -
    from that out have "q \<noteq> p" "mem_of s q \<noteq> m" by auto
    with that rep only_touches_blk [OF ot, of q] show ?thesis by (simp add: buf_rep_def)
  qed
  have "\<And>q. q \<in> set qs \<Longrightarrow> cell_at (blks s') q = cell_at (blks s) q"
    using ot out(1) by (auto simp: only_touches_def)
  then have "chain bnxt (blks s') r qs NULL"
    using rep chain_frame [of qs "blks s'" "blks s" bnxt r NULL] by (simp add: buf_rep_def)
  with same show ?thesis
    by (simp add: buf_rep_def content_def cong: map_cong)
qed

lemma write_at_length [simp]: "i + length ys \<le> length xs \<Longrightarrow> length (write_at i ys xs) = length xs"
  by (simp add: write_at_def)

lemma write_at_slice:
  "r \<le> w \<Longrightarrow> w + length ys \<le> length xs \<Longrightarrow>
   take (w - r + length ys) (drop r (write_at w ys xs)) = take (w - r) (drop r xs) @ ys"
  by (simp add: write_at_def drop_take)

lemma copyFrom_eq:
  assumes ok: "ok_blk s p" and n: "n = min sz (room_in s p)" "0 \<le> sz" "n \<le> int (length src)"
  shows "\<exists>s'. BufBlk_copyFrom src sz p s = Inr (n, s') \<and> ok_blk s' p \<and>
    blk_bytes s' p = blk_bytes s p @ take (nat n) src \<and> mem_of s' p = mem_of s p \<and>
    room_in s' p = room_in s p - n \<and> only_touches p (mem_of s p) s s'"
proof -
  obtain b m where *: "cell_at (blks s) p = Obj b" "cell_at (mems s) (bmb b) = Obj m"
    "0 \<le> brd b" "brd b \<le> bwr b" "bwr b \<le> msize m" "msize m = int (length (mbytes m))"
    "1 \<le> mrefs m" "blk_bytes s p = take (nat (bwr b - brd b)) (drop (nat (brd b)) (mbytes m))"
    "buf_at s p = b" "mem_of s p = bmb b"
    using ok by (rule ok_blkE)
  then have room: "room_in s p = msize m - bwr b" by (simp add: room_in_def)
  then have le: "0 \<le> n" "n = (if msize m - bwr b < sz then msize m - bwr b else sz)"
    "nat (bwr b) + nat n \<le> length (mbytes m)"
    using n * by (auto simp: min_def split: if_splits)
  have len: "length (take (nat n) src) = nat n" using n(3) by (simp add: min_absorb2)
  let ?m = "m\<lparr>mbytes := write_at (nat (bwr b)) (take (nat n) src) (mbytes m)\<rparr>"
  let ?b = "b\<lparr>bwr := bwr b + n\<rparr>"
  let ?s = "s\<lparr>mems := put_cell (bmb b) (Obj ?m) (mems s), blks := put_cell p (Obj ?b) (blks s)\<rparr>"
  have fs: "BufBlk_freespace p s = Inr (msize m - bwr b)"
    using * by (simp add: BufBlk_freespace_def MemBlk_size_def)
  have "BufBlk_copyFrom src sz p s = Inr (n, ?s)"
    unfolding BufBlk_copyFrom_def fs bindE_Inr le(2) [symmetric] Let_def
    using * le(1,3) len n(3) by (simp add: write_bytes_def)
  moreover have cells: "cell_at (blks ?s) p = Obj ?b" "cell_at (mems ?s) (bmb b) = Obj ?m"
    using * by (simp_all add: cell_at_put)
  moreover have "blk_bytes ?s p = blk_bytes s p @ take (nat n) src"
  proof -
    have sum: "nat (bwr b + n - brd b) = nat (bwr b) - nat (brd b) + length (take (nat n) src)"
      "nat (bwr b - brd b) = nat (bwr b) - nat (brd b)"
      unfolding len using *(3,4) le(1) by linarith+
    have "blk_bytes ?s p = take (nat (bwr b + n - brd b))
        (drop (nat (brd b)) (write_at (nat (bwr b)) (take (nat n) src) (mbytes m)))"
      using cells by (simp add: blk_bytes_def buf_at_def)
    then show ?thesis
      unfolding *(8) sum using *(3,4) le(3) len by (subst (asm) write_at_slice) simp_all
  qed
  moreover have "ok_blk ?s p"
  proof -
    have "length (mbytes ?m) = length (mbytes m)" using le(3) len by simp
    moreover have "brd b \<le> bwr b + n" "bwr b + n \<le> msize m"
      using *(4,5) le(1) n(1) room by linarith+
    ultimately show ?thesis
      using cells *(3,6,7) by (simp add: ok_blk_def)
  qed
  moreover have "only_touches p (mem_of s p) s ?s"
    using * by (simp add: only_touches_def cell_at_put buf_at_def)
  ultimately show ?thesis
    using * room by (intro exI [of _ ?s]) (simp add: room_in_def mem_of_def buf_at_def)
qed

lemma bytes_from_blk:
  assumes "ok_blk s p" "0 \<le> i" "i \<le> int (length (blk_bytes s p))"
  shows "\<exists>src. bytes_from (mem_of s p) (brd (buf_at s p) + i) s = Inr src \<and>
    take (length (blk_bytes s p) - nat i) src = drop (nat i) (blk_bytes s p) \<and>
    length (blk_bytes s p) - nat i \<le> length src"
proof -
  obtain b m where *: "cell_at (mems s) (bmb b) = Obj m" "0 \<le> brd b" "brd b \<le> bwr b"
    "bwr b \<le> msize m" "msize m = int (length (mbytes m))"
    "blk_bytes s p = take (nat (bwr b - brd b)) (drop (nat (brd b)) (mbytes m))"
    "int (length (blk_bytes s p)) = bwr b - brd b" "buf_at s p = b" "mem_of s p = bmb b"
    using assms(1) by (rule ok_blkE)
  have "nat (brd b + i) = nat i + nat (brd b)" using assms * by simp
  moreover have "length (blk_bytes s p) = nat (bwr b - brd b)" using * by linarith
  ultimately show ?thesis
    using assms * by (simp add: bytes_from_def drop_take)
qed

lemma contig_loop_eq:
  "ok_blk s out \<Longrightarrow> room_in s out = remain \<Longrightarrow> buf_rep s look ps \<Longrightarrow> out \<notin> set ps \<Longrightarrow>
   mem_of s out \<notin> mem_of s ` set ps \<Longrightarrow> length ps \<le> k \<Longrightarrow> 0 \<le> remain \<Longrightarrow>
   \<exists>s'. contig_loop k out remain look s = Inr (max 0 (remain - int (length (content s ps))), s') \<and>
     ok_blk s' out \<and> blk_bytes s' out = blk_bytes s out @ take (nat remain) (content s ps) \<and>
     mem_of s' out = mem_of s out \<and> only_touches out (mem_of s out) s s'"
proof (induction k arbitrary: s remain look ps)
  case 0
  then show ?case by (auto simp: only_touches_refl)
next
  case (Suc k)
  show ?case
  proof (cases "ps = [] \<or> remain = 0")
    case True
    with Suc.prems show ?thesis by (auto simp: only_touches_refl)
  next
    case False
    then obtain p ps' where ps: "ps = p # ps'" by (cases ps) auto
    from Suc.prems ps have p: "look = p" "0 < p" "ok_blk s p" "p \<noteq> out"
      and tl: "buf_rep s (bnxt (buf_at s p)) ps'"
      by (auto simp: buf_rep_Cons)
    let ?l = "int (length (blk_bytes s p))"
    define n where "n = (if ?l < remain then ?l else remain)"
    then have nle: "0 \<le> n" "n \<le> remain" "n \<le> ?l" "n = min remain ?l" using Suc.prems(7) by auto
    obtain src where src: "bytes_from (mem_of s p) (brd (buf_at s p)) s = Inr src"
      "take (length (blk_bytes s p)) src = blk_bytes s p" "?l \<le> int (length src)"
      using bytes_from_blk [OF p(3), of 0] by auto
    have n: "n = min n (room_in s out)" "0 \<le> n" "n \<le> int (length src)"
      using src(3) Suc.prems(2) nle by auto
    obtain t where t: "BufBlk_copyFrom src n out s = Inr (n, t)" "ok_blk t out"
      "blk_bytes t out = blk_bytes s out @ take (nat n) src" "mem_of t out = mem_of s out"
      "room_in t out = remain - n" "only_touches out (mem_of s out) s t"
      using copyFrom_eq [OF Suc.prems(1) n] Suc.prems(2) by blast
    have "nat n = min (nat remain) (length (blk_bytes s p))" using nle by linarith
    then have "take (nat n) src = take (nat remain) (take (length (blk_bytes s p)) src)"
      by (simp only: take_take)
    then have "take (nat n) src = take (nat remain) (blk_bytes s p)" using src(2) by simp
    moreover have "mem_of s p \<noteq> mem_of s out" using Suc.prems(5) ps by auto
    then have "buf_at t p = buf_at s p" "ok_blk t p"
      using only_touches_blk [OF t(6) p(3,4)] by auto
    moreover from this have run: "contig_loop (Suc k) out remain look s =
        contig_loop k out (remain - n) (bnxt (buf_at s p)) t"
      using False p t(1) src(1) Suc.prems(7) bmb_buf_at [of s p]
      by (simp add: length_ok get_buf_ok n_def [symmetric] Let_def split del: if_split)
    moreover have tl': "buf_rep t (bnxt (buf_at s p)) ps' \<and> content t ps' = content s ps' \<and>
        map (mem_of t) ps' = map (mem_of s) ps'"
      using only_touches_rep [OF t(6) tl] Suc.prems ps by auto
    then have "mem_of t ` set ps' = mem_of s ` set ps'" by (metis set_map)
    then obtain u where u: "contig_loop k out (remain - n) (bnxt (buf_at s p)) t =
        Inr (max 0 (remain - n - int (length (content t ps'))), u)" "ok_blk u out"
        "blk_bytes u out = blk_bytes t out @ take (nat (remain - n)) (content t ps')"
        "mem_of u out = mem_of t out" "only_touches out (mem_of t out) t u"
      using Suc.IH [OF t(2,5) conjunct1 [OF tl']] Suc.prems(4-6) ps nle t(4) by auto
    moreover have "only_touches out (mem_of s out) s u"
      using only_touches_trans [OF t(6)] u(5) t(4) by simp
    moreover have "nat (remain - n) = nat remain - length (blk_bytes s p)"
      "max 0 (remain - n - int (length (content t ps'))) =
       max 0 (remain - int (length (content s ps)))"
      using nle(4) tl' ps by auto
    ultimately show ?thesis
      using t(3,4) tl' ps by (intro exI [of _ u]) simp
  qed
qed

end
