(* ===== verification/TW_BufCut.thy ===== *)
theory TW_BufCut
  imports TW_BufChain
begin

text \<open>
  What getContigBlock and eatBytes of include/TW/tw_bufblk.h do to the bytes of a chain, and the
  properties of the byte buffers.
\<close>

section \<open>getContigBlock\<close>








section \<open>Releasing a chain\<close>

definition ptr_to :: "ptr list \<Rightarrow> ptr" where
  "ptr_to ps = (if ps = [] then NULL else hd ps)"

lemma ptr_to_simps [simp]: "ptr_to [] = NULL" "ptr_to (p # ps) = p"
  by (simp_all add: ptr_to_def)

lemma buf_rep_ptr: "buf_rep s p ps \<Longrightarrow> p = ptr_to ps"
  by (cases ps) (auto simp: buf_rep_Cons)

text \<open>The blocks \<open>ps\<close> are gone, and each has given back its reference.\<close>

definition released :: "bufs \<Rightarrow> ptr list \<Rightarrow> bufs \<Rightarrow> bool" where
  "released s ps s' \<longleftrightarrow>
     (\<forall>q. cell_at (blks s') q = (if q \<in> set ps then Freed else cell_at (blks s) q)) \<and>
     (\<forall>m. m \<notin> mem_of s ` set ps \<longrightarrow> cell_at (mems s') m = cell_at (mems s) m) \<and>
     (\<forall>q\<in>set ps. let m = obj_at (mems s) (mem_of s q) in cell_at (mems s') (mem_of s q) =
        (if mrefs m = 1 then Freed else Obj (m\<lparr>mrefs := mrefs m - 1, mmutex := False\<rparr>)))"

lemma MemBlk_release_eq:
  assumes m: "cell_at (mems s) p = Obj m" and refs: "1 \<le> mrefs m"
  shows "\<exists>h. MemBlk_release p s =
      Inr (s\<lparr>mems := h, late_touches := late_touches s + (if mrefs m = 1 then 1 else 0)\<rparr>) \<and> (\<forall>k. cell_at h k =
    (if k = p then (if mrefs m = 1 then Freed else Obj (m\<lparr>mrefs := mrefs m - 1, mmutex := False\<rparr>))
     else cell_at (mems s) k))"
proof (cases "mrefs m = 1")
  case True
  let ?h = "put_cell p Freed (put_cell p (Obj (m\<lparr>mrefs := 0\<rparr>)) (mems s))\<lparr>room := Suc (room (mems s))\<rparr>"
  have "MemBlk_release p s = Inr (s\<lparr>mems := ?h, late_touches := late_touches s + 1\<rparr>)"
    using m True by (simp add: MemBlk_release_def cell_at_put free_ok)
  with m True show ?thesis by (intro exI [of _ ?h]) (simp add: cell_at_put)
next
  case False
  let ?h = "put_cell p (Obj (m\<lparr>mrefs := mrefs m - 1, mmutex := False\<rparr>))
    (put_cell p (Obj (m\<lparr>mrefs := mrefs m - 1\<rparr>)) (mems s))"
  have "MemBlk_release p s = Inr (s\<lparr>mems := ?h\<rparr>)"
    using m False refs by (simp add: MemBlk_release_def cell_at_put)
  with m False show ?thesis by (intro exI [of _ ?h]) (simp add: cell_at_put)
qed

lemma release_chain_eq:
  "buf_rep s p ps \<Longrightarrow> ps \<noteq> [] \<Longrightarrow> distinct (map (mem_of s) ps) \<Longrightarrow> length ps \<le> k \<Longrightarrow>
     \<exists>s'. release_chain k p s = Inr s' \<and> released s ps s'"
proof (induction ps arbitrary: p k)
  case Nil
  then show ?case by simp
next
  case (Cons a ps)
  from Cons.prems obtain k' where k: "k = Suc k'" "length ps \<le> k'" by (cases k) auto
  from Cons.prems have a: "p = a" "ok_blk s a" and tl: "buf_rep s (bnxt (buf_at s a)) ps"
    by (auto simp: buf_rep_Cons)
  have anot: "a \<notin> set ps" "mem_of s a \<notin> mem_of s ` set ps"
    using Cons.prems chain_distinct by (auto simp: buf_rep_def)
  obtain b m where b: "cell_at (blks s) a = Obj b" "cell_at (mems s) (bmb b) = Obj m"
    "1 \<le> mrefs m" "buf_at s a = b" "mem_of s a = bmb b"
    using a(2) by (rule ok_blkE)
  have pos: "0 < bmb b" using b(2) by (rule cell_at_Obj_pos)
  obtain t where t: "(if bnxt b \<noteq> NULL then release_chain k' (bnxt b) s else Inr s) = Inr t" "released s ps t"
  proof (cases "ps = []")
    case True
    with tl b(4) that [of s] show ?thesis by (auto simp: released_def)
  next
    case False
    then have "bnxt b \<noteq> NULL" using tl b(4) by (cases ps) (auto simp: buf_rep_Cons)
    moreover obtain t where "release_chain k' (bnxt b) s = Inr t" "released s ps t"
      using Cons.IH [of "bnxt b" k'] tl False Cons.prems(3) k(2) b(4) by auto
    ultimately show ?thesis using that by simp
  qed
  have ta: "cell_at (blks t) a = Obj b" "cell_at (mems t) (bmb b) = Obj m"
    using t(2) anot b by (simp_all add: released_def)
  obtain h n where h: "MemBlk_release (bmb b) t = Inr (t\<lparr>mems := h, late_touches := n\<rparr>)"
    "\<And>k. cell_at h k = (if k = bmb b then (if mrefs m = 1 then Freed
       else Obj (m\<lparr>mrefs := mrefs m - 1, mmutex := False\<rparr>)) else cell_at (mems t) k)"
    using MemBlk_release_eq [OF ta(2) b(3)] by blast
  let ?u = "t\<lparr>mems := h, late_touches := n, blks := (put_cell a Freed (blks t))\<lparr>room := Suc (room (blks t))\<rparr>\<rparr>"
  have "release_chain k p s = Inr ?u"
    using a(1) b t(1) h(1) ta(1) pos by (simp add: k free_ok)
  moreover have "released s (a # ps) ?u"
    unfolding released_def
  proof (intro conjI ballI allI impI)
    fix q
    show "cell_at (blks ?u) q = (if q \<in> set (a # ps) then Freed else cell_at (blks s) q)"
      using t(2) ta(1) by (simp add: released_def cell_at_put)
  next
    fix k
    assume "k \<notin> mem_of s ` set (a # ps)"
    with t(2) b(5) show "cell_at (mems ?u) k = cell_at (mems s) k" by (simp add: released_def h(2))
  next
    fix q
    assume "q \<in> set (a # ps)"
    then consider "q = a" | "q \<in> set ps" "mem_of s q \<noteq> bmb b"
      using anot(2) b(5) by (metis image_eqI set_ConsD)
    then show "let m = obj_at (mems s) (mem_of s q) in cell_at (mems ?u) (mem_of s q) =
        (if mrefs m = 1 then Freed else Obj (m\<lparr>mrefs := mrefs m - 1, mmutex := False\<rparr>))"
    proof cases
      case 1
      with b show ?thesis by (simp add: h(2))
    next
      case 2
      with t(2) show ?thesis by (simp add: h(2) released_def)
    qed
  qed
  ultimately show ?case by blast
qed

lemma BufBlk_release_eq:
  assumes "buf_rep s p ps" "ps \<noteq> []" "distinct (map (mem_of s) ps)"
  shows "\<exists>s'. BufBlk_release p s = Inr s' \<and> released s ps s'"
  using release_chain_eq [OF assms] buf_rep_length [OF assms(1)] by (simp add: BufBlk_release_def del: release_chain.simps)

lemma released_rep:
  assumes rel: "released s fs s'" and rep: "buf_rep s p ps"
    and out: "set ps \<inter> set fs = {}" "mem_of s ` set ps \<inter> mem_of s ` set fs = {}"
  shows "buf_rep s' p ps \<and> content s' ps = content s ps"
proof -
  have same: "ok_blk s' q \<and> blk_bytes s' q = blk_bytes s q \<and> cell_at (blks s') q = cell_at (blks s) q"
    if "q \<in> set ps" for q
  proof -
    have ok: "ok_blk s q" using rep that by (simp add: buf_rep_def)
    then obtain b m where b: "cell_at (blks s) q = Obj b" "cell_at (mems s) (bmb b) = Obj m"
      "buf_at s q = b" "mem_of s q = bmb b" by (rule ok_blkE)
    have "q \<notin> set fs" "mem_of s q \<notin> mem_of s ` set fs" using that out by auto
    with rel b(4) have "cell_at (blks s') q = cell_at (blks s) q"
      "cell_at (mems s') (bmb b) = cell_at (mems s) (bmb b)" by (simp_all add: released_def)
    with b ok show ?thesis by (simp add: ok_blk_def blk_bytes_def buf_at_def)
  qed
  then have "chain bnxt (blks s') p ps NULL"
    using rep chain_frame [of ps "blks s'" "blks s" bnxt p NULL] by (simp add: buf_rep_def)
  with same show ?thesis by (simp add: buf_rep_def content_def cong: map_cong)
qed

section \<open>Unlinking part of a chain\<close>

text \<open>\<open>fs\<close> comes out of the chain \<open>as @ q # fs @ gs\<close>.\<close>

definition unlinked :: "bufs \<Rightarrow> ptr \<Rightarrow> ptr list \<Rightarrow> ptr list \<Rightarrow> bufs \<Rightarrow> bool" where
  "unlinked s q fs gs t \<longleftrightarrow> mems t = mems s \<and> (\<forall>x. cell_at (blks t) x =
     (if x = q then Obj ((buf_at s q)\<lparr>bnxt := ptr_to gs\<rparr>)
      else if x = last fs then Obj ((buf_at s x)\<lparr>bnxt := NULL\<rparr>) else cell_at (blks s) x))"

lemma unlinked_blk:
  assumes "unlinked s q fs gs t" "ok_blk s x"
  shows "ok_blk t x \<and> blk_bytes t x = blk_bytes s x \<and> mem_of t x = mem_of s x"
proof -
  from assms(2) obtain b c where b: "cell_at (blks s) x = Obj b" "cell_at (mems s) (bmb b) = Obj c"
    "buf_at s x = b" "mem_of s x = bmb b"
    by (rule ok_blkE)
  with assms(1) obtain n where "cell_at (blks t) x = Obj (b\<lparr>bnxt := n\<rparr>)" "mems t = mems s"
  proof -
    note cells = assms(1) [unfolded unlinked_def, THEN conjunct2, rule_format, of x]
    have "cell_at (blks t) x = Obj (b\<lparr>bnxt := (if x = q then ptr_to gs
        else if x = last fs then NULL else bnxt b)\<rparr>)"
      using b(1,3) cells by auto
    with that assms(1) show ?thesis by (simp add: unlinked_def)
  qed
  with b assms(2) show ?thesis
    by (simp add: ok_blk_def blk_bytes_def buf_at_def mem_of_def)
qed

lemma unlinked_rep:
  assumes rep: "buf_rep s p (as @ q # fs @ gs)" and fs: "fs \<noteq> []" and t: "unlinked s q fs gs t"
  shows "buf_rep t p (as @ q # gs) \<and> buf_rep t (hd fs) fs \<and>
    (\<forall>x\<in>set (as @ q # fs @ gs). blk_bytes t x = blk_bytes s x \<and> mem_of t x = mem_of s x)"
proof -
  let ?ps = "as @ q # fs @ gs"
  have ok: "\<forall>x\<in>set ?ps. ok_blk s x" using rep by (simp add: buf_rep_def)
  then have same: "\<forall>x\<in>set ?ps. ok_blk t x \<and> blk_bytes t x = blk_bytes s x \<and> mem_of t x = mem_of s x"
    using unlinked_blk [OF t] by simp
  have ch: "chain bnxt (blks s) p ?ps NULL" using rep by (simp add: buf_rep_def)
  then have dist: "distinct ?ps" by (rule chain_distinct)
  obtain fs' l where fsl: "fs = fs' @ [l]" using fs by (cases fs rule: rev_cases) auto
  from ch [unfolded fsl] obtain bq bl where pre: "chain bnxt (blks s) p as q"
    and bq: "cell_at (blks s) q = Obj bq" "chain bnxt (blks s) (bnxt bq) fs' l"
    and bl: "cell_at (blks s) l = Obj bl" "chain bnxt (blks s) (bnxt bl) gs NULL"
    by (auto simp: chain_append)
  have gs: "bnxt bl = ptr_to gs" using chain_head [OF bl(2)] by (simp add: ptr_to_def)
  have fst: "bnxt bq = hd fs" using bq(2) fsl by (cases fs') auto
  have cells: "cell_at (blks t) x = (if x = q then Obj (bq\<lparr>bnxt := ptr_to gs\<rparr>)
      else if x = l then Obj (bl\<lparr>bnxt := NULL\<rparr>) else cell_at (blks s) x)" for x
    using t bq(1) bl(1) fsl by (simp add: unlinked_def buf_at_def)
  have keep: "chain bnxt (blks t) r xs r' = chain bnxt (blks s) r xs r'" if "q \<notin> set xs" "l \<notin> set xs" for r xs r'
    using that by (intro chain_frame) (auto simp: cells)
  have "chain bnxt (blks t) p as q" "chain bnxt (blks t) (bnxt bq) fs' l"
    "chain bnxt (blks t) (bnxt bl) gs NULL"
    using pre bq(2) bl(2) dist fsl by (simp_all add: keep)
  moreover have "cell_at (blks t) q = Obj (bq\<lparr>bnxt := bnxt bl\<rparr>)" "cell_at (blks t) l = Obj (bl\<lparr>bnxt := NULL\<rparr>)"
    using dist fsl gs by (auto simp: cells)
  ultimately have "chain bnxt (blks t) p (as @ q # gs) NULL" "chain bnxt (blks t) (hd fs) fs NULL"
    unfolding fst [symmetric] unfolding fsl by (auto simp: chain_append)
  with same show ?thesis by (auto simp: buf_rep_def)
qed

section \<open>eatBytes\<close>

text \<open>One block \<open>q\<close> of a chain has changed its bytes.\<close>

lemma touched_rep:
  assumes rep: "buf_rep s p (as @ q # bs)" and dist: "distinct (map (mem_of s) (as @ q # bs))"
    and t: "only_touches q (mem_of s q) s t" "ok_blk t q" "mem_of t q = mem_of s q"
  shows "buf_rep t p (as @ q # bs) \<and> map (mem_of t) (as @ q # bs) = map (mem_of s) (as @ q # bs) \<and>
    content t as = content s as \<and> content t bs = content s bs"
proof -
  let ?ps = "as @ q # bs"
  from rep have "chain bnxt (blks s) p ?ps NULL" by (simp only: buf_rep_def)
  then have "distinct ?ps" by (rule chain_distinct)
  then have neq: "x \<noteq> q \<and> mem_of s x \<noteq> mem_of s q" if "x \<in> set as \<union> set bs" for x
    using dist that by (auto simp: image_iff)
  have same: "ok_blk t x \<and> blk_bytes t x = blk_bytes s x \<and> mem_of t x = mem_of s x"
    if "x \<in> set as \<union> set bs" for x
    using only_touches_blk [OF t(1), of x] neq [OF that] rep that by (auto simp: buf_rep_def)
  from rep obtain b where b: "cell_at (blks s) q = Obj b" "chain bnxt (blks s) p as q"
    "chain bnxt (blks s) (bnxt b) bs NULL" by (auto simp: buf_rep_def chain_append)
  obtain c where c: "cell_at (blks t) q = Obj c" using t(2) by (auto elim: ok_blkE)
  with b t(1) have "bnxt c = bnxt b" by (simp add: only_touches_def buf_at_def)
  moreover have "chain bnxt (blks t) r xs r' = chain bnxt (blks s) r xs r'"
    if "set xs \<subseteq> set as \<union> set bs" for r xs r'
    using t(1) neq that by (intro chain_frame) (auto simp: only_touches_def)
  ultimately have "chain bnxt (blks t) p ?ps NULL" using b c by (auto simp: chain_append)
  with same t(2,3) show ?thesis by (auto simp: buf_rep_def content_def intro!: arg_cong [where f = concat])
qed

definition narrowed :: "ptr \<Rightarrow> int \<Rightarrow> int \<Rightarrow> bufs \<Rightarrow> bufs" where
  "narrowed q r w s = s\<lparr>blks := put_cell q (Obj ((buf_at s q)\<lparr>brd := r, bwr := w\<rparr>)) (blks s)\<rparr>"

lemma narrow:
  assumes "ok_blk s q" "brd (buf_at s q) \<le> r" "r \<le> w" "w \<le> bwr (buf_at s q)"
  shows "ok_blk (narrowed q r w s) q \<and> mem_of (narrowed q r w s) q = mem_of s q \<and>
    only_touches q (mem_of s q) s (narrowed q r w s) \<and>
    live (blks (narrowed q r w s)) = live (blks s) \<and>
    blk_bytes (narrowed q r w s) q = take (nat (w - r)) (drop (nat (r - brd (buf_at s q))) (blk_bytes s q))"
proof -
  obtain b m where *: "cell_at (blks s) q = Obj b" "cell_at (mems s) (bmb b) = Obj m"
    "0 \<le> brd b" "brd b \<le> bwr b" "bwr b \<le> msize m" "msize m = int (length (mbytes m))"
    "1 \<le> mrefs m" "blk_bytes s q = take (nat (bwr b - brd b)) (drop (nat (brd b)) (mbytes m))"
    "buf_at s q = b" "mem_of s q = bmb b"
    using assms(1) by (rule ok_blkE)
  have cell: "cell_at (blks (narrowed q r w s)) x = (if x = q then Obj (b\<lparr>brd := r, bwr := w\<rparr>) else cell_at (blks s) x)"
    "mems (narrowed q r w s) = mems s" "heap_size (blks (narrowed q r w s)) = heap_size (blks s)" for x
    using * by (simp_all add: narrowed_def cell_at_put)
  have "nat (w - r) \<le> nat (bwr b - brd b) - nat (r - brd b)" "nat (r - brd b) + nat (brd b) = nat r"
    using assms(2-4) *(3,4) unfolding *(9) by linarith+
  then have "take (nat (w - r)) (drop (nat r) (mbytes m)) =
      take (nat (w - r)) (drop (nat (r - brd b)) (blk_bytes s q))"
    by (simp add: *(8) drop_take min_def)
  moreover have "ok_blk (narrowed q r w s) q"
    using assms(2-4) * by (auto simp: ok_blk_def cell)
  moreover have "live (blks (narrowed q r w s)) = live (blks s)"
    using *(1) by (auto simp: live_iff cell split: if_splits)
  ultimately show ?thesis
    using *(1,2,9,10) cell by (simp add: only_touches_def blk_bytes_def buf_at_def mem_of_def)
qed

lemma eat_inside_eq:
  assumes ok: "ok_blk s q" and d: "0 \<le> d" "0 \<le> n" "d + n < int (length (blk_bytes s q))"
  shows "\<exists>t. eat_inside d n q s = Inr t \<and> ok_blk t q \<and> mem_of t q = mem_of s q \<and>
    only_touches q (mem_of s q) s t \<and> live (blks t) = live (blks s) \<and>
    blk_bytes t q = take (nat d) (blk_bytes s q) @ drop (nat (d + n)) (blk_bytes s q)"
proof -
  obtain b m where *: "cell_at (blks s) q = Obj b" "cell_at (mems s) (bmb b) = Obj m"
    "0 \<le> brd b" "brd b \<le> bwr b" "bwr b \<le> msize m" "msize m = int (length (mbytes m))"
    "1 \<le> mrefs m" "blk_bytes s q = take (nat (bwr b - brd b)) (drop (nat (brd b)) (mbytes m))"
    "int (length (blk_bytes s q)) = bwr b - brd b" "buf_at s q = b" "mem_of s q = bmb b"
    using ok by (rule ok_blkE)
  show ?thesis
  proof (cases "d = 0")
    case True
    have run: "eat_inside d n q s = Inr (narrowed q (brd b + n) (bwr b) s)"
      using True * by (simp add: eat_inside_def narrowed_def)
    have "nat (bwr b - brd b - n) = length (blk_bytes s q) - nat n" using d *(9) True by linarith
    then show ?thesis
      using narrow [OF ok, of "brd b + n" "bwr b"] d True *(9,10) run by (simp add: algebra_simps)
  next
    case False
    let ?i = "nat (brd b) + nat d"
    let ?ys = "take (nat (bwr b - brd b - n - d)) (drop (nat (brd b + d + n)) (mbytes m))"
    let ?m = "m\<lparr>mbytes := write_at ?i ?ys (mbytes m)\<rparr>" and ?b = "b\<lparr>bwr := bwr b - n\<rparr>"
    let ?t = "s\<lparr>mems := put_cell (bmb b) (Obj ?m) (mems s), blks := put_cell q (Obj ?b) (blks s)\<rparr>"
    have le: "brd b + d + n < bwr b" "nat (brd b + d) = ?i" using d *(3,9) by auto
    have len: "length ?ys = nat (bwr b - brd b - n - d)"
      using le *(3-6) d(1,2) by (simp add: min_absorb2 nat_le_iff)
    have in_mem: "?i + length ?ys \<le> length (mbytes m)" unfolding len using le *(3-6) d(1,2) by linarith
    have "BufBlk_length q s = Inr (bwr b - brd b)" using *(9) by (simp add: length_ok [OF ok])
    then have run: "eat_inside d n q s = Inr ?t"
      using False d(1,2) *(1-6) le len in_mem
      by (simp add: eat_inside_def read_bytes_def write_bytes_def)
    have cells: "cell_at (blks ?t) q = Obj ?b" "cell_at (mems ?t) (bmb b) = Obj ?m"
      using *(1,2) by (simp_all add: cell_at_put)
    have "nat (bwr b - n - brd b) = ?i - nat (brd b) + length ?ys"
      unfolding len using le *(3) d(1,2) by linarith
    then have "blk_bytes ?t q = take (nat d) (drop (nat (brd b)) (mbytes m)) @ ?ys"
      using cells write_at_slice [of "nat (brd b)" ?i ?ys "mbytes m", OF _ in_mem]
      by (simp add: blk_bytes_def buf_at_def del: length_take length_drop)
    also have "\<dots> = take (nat d) (blk_bytes s q) @ drop (nat (d + n)) (blk_bytes s q)"
    proof -
      have "nat d \<le> nat (bwr b - brd b)" "nat (d + n) + nat (brd b) = nat (brd b + d + n)"
        "nat (bwr b - brd b) - nat (d + n) = nat (bwr b - brd b - n - d)"
        using le d(1,2) *(3) by linarith+
      then show ?thesis by (simp add: *(8) drop_take min_def)
    qed
    finally have bytes: "blk_bytes ?t q = take (nat d) (blk_bytes s q) @ drop (nat (d + n)) (blk_bytes s q)" .
    have "length (mbytes ?m) = length (mbytes m)" using in_mem by simp
    then have "ok_blk ?t q"
      using cells *(3,5-7) le(1) d(1,2) by (simp add: ok_blk_def)
    moreover have "only_touches q (mem_of s q) s ?t" "live (blks ?t) = live (blks s)" "mem_of ?t q = mem_of s q"
      using *(1,2,10,11) cells
      by (auto simp: only_touches_def cell_at_put buf_at_def mem_of_def live_put)
    ultimately show ?thesis using run bytes by blast
  qed
qed

lemma eat_loop_eq:
  "buf_rep s look bs \<Longrightarrow> distinct (map (mem_of s) bs) \<Longrightarrow> 0 \<le> n \<Longrightarrow> length bs \<le> k \<Longrightarrow> \<exists>fs gs n' t.
     eat_loop k n look bk s = Inr (n', ptr_to gs, last (bk # fs), t) \<and> bs = fs @ gs \<and>
     buf_rep t look bs \<and> map (mem_of t) bs = map (mem_of s) bs \<and> mems t = mems s \<and>
     content t gs = drop (nat n) (content s bs) \<and> live (blks t) = live (blks s) \<and>
     (\<forall>x. x \<notin> set gs \<longrightarrow> cell_at (blks t) x = cell_at (blks s) x) \<and>
     (0 < n \<longrightarrow> fs = [] \<longrightarrow> bs \<noteq> [] \<longrightarrow> 0 < n')"
proof (induction bs arbitrary: look n k bk)
  case Nil
  then show ?case by (cases k) auto
next
  case (Cons a bs)
  then obtain k' where k: "k = Suc k'" "length bs \<le> k'" by (cases k) auto
  from Cons.prems have a: "look = a" "0 < a" "ok_blk s a" and tl: "buf_rep s (bnxt (buf_at s a)) bs"
    by (auto simp: buf_rep_Cons)
  let ?l = "int (length (blk_bytes s a))"
  consider "n = 0" | "0 < n" "n < ?l" | "0 < n" "?l \<le> n" using Cons.prems(3) by linarith
  then show ?case
  proof cases
    case 1
    with Cons.prems k a show ?thesis by (intro exI [of _ "[]"] exI [of _ "a # bs"]) auto
  next
    case 2
    obtain b where b: "cell_at (blks s) a = Obj b" "buf_at s a = b" "?l = bwr b - brd b"
      using a(3) by (rule ok_blkE)
    let ?t = "narrowed a (brd b + n) (bwr b) s"
    have run: "eat_loop k n look bk s = Inr (n, a, bk, ?t)"
      using 2 a k b by (simp add: length_ok narrowed_def)
    have nar: "ok_blk ?t a" "mem_of ?t a = mem_of s a" "only_touches a (mem_of s a) s ?t"
      "live (blks ?t) = live (blks s)"
      "blk_bytes ?t a = take (nat (bwr b - (brd b + n))) (drop (nat n) (blk_bytes s a))"
      using narrow [OF a(3), of "brd b + n" "bwr b"] 2 b by simp_all
    have "nat (bwr b - (brd b + n)) = length (blk_bytes s a) - nat n" using b(3) 2 by linarith
    then have "blk_bytes ?t a = drop (nat n) (blk_bytes s a)" using nar(5) by simp
    moreover have "buf_rep ?t look (a # bs) \<and> map (mem_of ?t) (a # bs) = map (mem_of s) (a # bs) \<and>
        content ?t bs = content s bs"
      using touched_rep [of s look "[]" a bs ?t] Cons.prems nar by simp
    moreover have "mems ?t = mems s" by (simp add: narrowed_def)
    moreover have "\<forall>x. x \<noteq> a \<longrightarrow> cell_at (blks ?t) x = cell_at (blks s) x"
      using nar(3) by (simp add: only_touches_def)
    ultimately show ?thesis
      using run 2 nar(4) by (intro exI [of _ "[]"] exI [of _ "a # bs"] exI [of _ n] exI [of _ ?t]) auto
  next
    case 3
    have run: "eat_loop k n look bk s = eat_loop k' (n - ?l) (bnxt (buf_at s a)) a s"
      using 3 a k by (simp add: length_ok get_buf_ok)
    obtain fs gs n' t where IH: "eat_loop k' (n - ?l) (bnxt (buf_at s a)) a s =
        Inr (n', ptr_to gs, last (a # fs), t)" "bs = fs @ gs" "buf_rep t (bnxt (buf_at s a)) bs"
      "map (mem_of t) bs = map (mem_of s) bs" "mems t = mems s"
      "content t gs = drop (nat (n - ?l)) (content s bs)" "live (blks t) = live (blks s)"
      "\<forall>x. x \<notin> set gs \<longrightarrow> cell_at (blks t) x = cell_at (blks s) x"
    proof -
      have "distinct (map (mem_of s) bs)" "0 \<le> n - ?l" using Cons.prems(2) 3 by auto
      from Cons.IH [OF tl this k(2), of a] that show thesis by (elim exE conjE) blast
    qed
    have "distinct (a # bs)" using Cons.prems(1) chain_distinct unfolding buf_rep_def by blast
    then have "a \<notin> set gs" using IH(2) by simp
    with IH(8) have "cell_at (blks t) a = cell_at (blks s) a" by simp
    then have "buf_at t a = buf_at s a" "ok_blk t a" "mem_of t a = mem_of s a"
      using a(3) IH(5) by (simp_all add: buf_at_def obj_at_def ok_blk_def mem_of_def)
    then have "buf_rep t look (a # bs)" "map (mem_of t) (a # bs) = map (mem_of s) (a # bs)"
      using a IH(3,4) by (simp_all add: buf_rep_Cons)
    moreover have "drop (nat n) (content s (a # bs)) = drop (nat (n - ?l)) (content s bs)"
      using 3 by (simp add: nat_diff_distrib)
    ultimately show ?thesis
      using run IH by (intro exI [of _ "a # fs"] exI [of _ gs] exI [of _ n'] exI [of _ t]) auto
  qed
qed

lemma unlink_release:
  assumes rep: "buf_rep s p (as @ q # fs @ gs)" and dist: "distinct (map (mem_of s) (as @ q # fs @ gs))"
    and fs: "fs \<noteq> []" and t: "unlinked s q fs gs t"
  shows "\<exists>u. BufBlk_release (hd fs) t = Inr u \<and> buf_rep u p (as @ q # gs) \<and>
    content u (as @ q # gs) = content s (as @ q # gs) \<and> live (blks u) = live (blks s) - set fs"
proof -
  let ?ps = "as @ q # fs @ gs"
  have t': "buf_rep t p (as @ q # gs)" "buf_rep t (hd fs) fs"
    and same: "\<forall>x\<in>set ?ps. blk_bytes t x = blk_bytes s x \<and> mem_of t x = mem_of s x"
    using unlinked_rep [OF rep fs t] by blast+
  have "map (mem_of t) ?ps = map (mem_of s) ?ps" using same by auto
  then have dist': "distinct (map (mem_of t) ?ps)" using dist by metis
  then obtain u where u: "BufBlk_release (hd fs) t = Inr u" "released t fs u"
    using BufBlk_release_eq [OF t'(2) fs] by auto
  have "distinct ?ps" using dist by (simp only: distinct_map)
  then have "set (as @ q # gs) \<inter> set fs = {}" by auto
  moreover have "mem_of t ` set (as @ q # gs) \<inter> mem_of t ` set fs = {}"
    using dist' by auto
  ultimately have "buf_rep u p (as @ q # gs) \<and> content u (as @ q # gs) = content t (as @ q # gs)"
    using released_rep [OF u(2) t'(1)] by blast
  moreover have "content t (as @ q # gs) = content s (as @ q # gs)"
    using same by (simp add: content_def cong: map_cong)
  moreover have "live (blks t) = live (blks s)"
  proof -
    have "ok_blk s q" "ok_blk s (last fs)" using rep fs by (auto simp: buf_rep_def)
    then have "cell_at (blks s) q \<noteq> Freed" "cell_at (blks s) (last fs) \<noteq> Freed"
      by (auto elim!: ok_blkE)
    moreover have "(cell_at (blks t) x = Freed) = (x \<noteq> q \<and> x \<noteq> last fs \<and> cell_at (blks s) x = Freed)" for x
      using t [unfolded unlinked_def, THEN conjunct2, rule_format, of x] by auto
    ultimately show ?thesis by (auto simp: live_def)
  qed
  moreover have "live (blks u) = live (blks t) - set fs"
    using u(2) by (auto simp: live_iff released_def split: if_splits)
  ultimately show ?thesis using u(1) by auto
qed

text \<open>What eatBytes has to do: the bytes are gone, and so are the blocks that are no longer in
  the chain.\<close>

definition eaten :: "bufs \<Rightarrow> ptr list \<Rightarrow> int \<Rightarrow> int \<Rightarrow> ptr \<times> bufs \<Rightarrow> bool" where
  "eaten s ps off n = (\<lambda>(h, s'). \<exists>hs. buf_rep s' h hs \<and> set hs \<subseteq> set ps \<and>
     live (blks s') = live (blks s) - (set ps - set hs) \<and>
     content s' hs = take (nat off) (content s ps) @ drop (nat (off + n)) (content s ps))"

lemma eaten_touched:
  assumes rep: "buf_rep s p (as @ q # bs)" and dist: "distinct (map (mem_of s) (as @ q # bs))"
    and t: "only_touches q (mem_of s q) s t" "ok_blk t q" "mem_of t q = mem_of s q"
      "live (blks t) = live (blks s)"
      "blk_bytes t q = take (nat d) (blk_bytes s q) @ drop (nat (d + n)) (blk_bytes s q)"
    and d: "0 \<le> d" "0 \<le> n" "d + n \<le> int (length (blk_bytes s q))"
  shows "eaten s (as @ q # bs) (int (length (content s as)) + d) n (p, t)"
proof -
  have "nat (int (length (content s as)) + d) = length (content s as) + nat d"
    "nat (int (length (content s as)) + d + n) = length (content s as) + nat (d + n)"
    using d by linarith+
  then show ?thesis
    using touched_rep [OF rep dist t(1-3)] t(4,5) d
    by (auto simp: eaten_def intro!: exI [of _ "as @ q # bs"])
qed

lemma eat_to_end_mid:
  assumes rep: "buf_rep s p (as @ q # bs)" and dist: "distinct (map (mem_of s) (as @ q # bs))"
    and d: "0 < d" "d \<le> int (length (blk_bytes s q))"
  shows "holds (eat_to_end d p q prev s) (eaten s (as @ q # bs) (int (length (content s as)) + d)
    (int (length (blk_bytes s q)) - d))"
proof -
  have ok: "ok_blk s q" using rep by (simp add: buf_rep_def)
  then obtain b where b: "cell_at (blks s) q = Obj b" "buf_at s q = b"
    "int (length (blk_bytes s q)) = bwr b - brd b"
    by (rule ok_blkE)
  have "eat_to_end d p q prev s = Inr (p, narrowed q (brd b) (brd b + d) s)"
    using d b by (simp add: eat_to_end_def narrowed_def)
  moreover have "eaten s (as @ q # bs) (int (length (content s as)) + d)
      (int (length (blk_bytes s q)) - d) (p, narrowed q (brd b) (brd b + d) s)"
    using narrow [OF ok, of "brd b" "brd b + d"] b d
    by (intro eaten_touched [OF rep dist]) auto
  ultimately show ?thesis by simp
qed

lemma eat_to_end_whole:
  assumes rep: "buf_rep s p (as @ q # bs)" and dist: "distinct (map (mem_of s) (as @ q # bs))"
  shows "holds (eat_to_end 0 p q (last (NULL # as)) s)
    (eaten s (as @ q # bs) (int (length (content s as))) (int (length (blk_bytes s q))))"
proof -
  let ?ps = "as @ q # bs"
  have ok: "ok_blk s q" and q: "buf_rep s q (q # bs)" using rep buf_rep_append by (auto simp: buf_rep_def)
  then obtain b where b: "cell_at (blks s) q = Obj b" "buf_at s q = b" by (elim ok_blkE)
  have nx: "bnxt b = ptr_to bs" using q b(2) by (auto simp: buf_rep_Cons dest: buf_rep_ptr)
  have dps: "distinct ?ps" using dist by (simp only: distinct_map)
  have goal: ?thesis if run: "eat_to_end 0 p q (last (NULL # as)) s = Inr (h, u)"
    and u: "buf_rep u h (as @ bs)" "content u (as @ bs) = content s (as @ bs)"
      "live (blks u) = live (blks s) - {q}" for h u
    using that dps by (auto simp: eaten_def nat_add_distrib intro!: exI [of _ "as @ bs"])
  show ?thesis
  proof (cases as rule: rev_cases)
    case Nil
    with rep have pq: "p = q" by (simp add: buf_rep_Cons)
    let ?t = "s\<lparr>blks := put_cell q (Obj (b\<lparr>bnxt := NULL\<rparr>)) (blks s)\<rparr>"
    have tq: "ok_blk ?t q \<and> mem_of ?t q = mem_of s q"
      using ok b by (auto simp: ok_blk_def mem_of_def buf_at_def cell_at_put)
    then have "buf_rep ?t q [q]" using b by (auto simp: buf_rep_Cons buf_at_def cell_at_put dest: cell_at_Obj_pos)
    then obtain u where u: "BufBlk_release q ?t = Inr u" "released ?t [q] u"
      using BufBlk_release_eq [of ?t q "[q]"] by auto
    have mr: "more_refs [] s ?t" by (rule more_refs_Nil) simp
    have "buf_rep s (bnxt b) bs" using q b(2) by (simp add: buf_rep_Cons)
    moreover have "cell_at (blks ?t) x = cell_at (blks s) x" if "x \<in> set bs" for x
      using that dps b(1) by (auto simp: cell_at_put)
    ultimately have tl: "buf_rep ?t (bnxt b) bs" "content ?t bs = content s bs"
      "map (mem_of ?t) bs = map (mem_of s) bs"
      using buf_rep_more_refs [OF mr] by blast+
    have "mem_of ?t q \<notin> mem_of ?t ` set bs"
      using dist tq tl(3) [THEN arg_cong, of set, unfolded set_map] by simp
    then have "buf_rep u (bnxt b) bs \<and> content u bs = content s bs"
      using released_rep [OF u(2) tl(1)] tl(2) dps by auto
    moreover have "eat_to_end 0 p q (last (NULL # as)) s = Inr (bnxt b, u)"
      using b u(1) Nil pq by (simp add: eat_to_end_def)
    moreover have "live (blks u) = live (blks s) - {q}"
      using u(2) b(1) by (auto simp: live_iff released_def cell_at_put split: if_splits)
    ultimately show ?thesis using goal Nil by simp
  next
    case (snoc as' r)
    have rep': "buf_rep s p (as' @ r # [q] @ bs)" and dist': "distinct (map (mem_of s) (as' @ r # [q] @ bs))"
      using rep dist snoc by simp_all
    have "ok_blk s r" using rep' by (simp add: buf_rep_def)
    then obtain c where c: "cell_at (blks s) r = Obj c" "buf_at s r = c" by (elim ok_blkE)
    have neq: "r \<noteq> q" "p \<noteq> q" "r \<noteq> 0"
      using dps snoc buf_rep_ptr [OF rep] cell_at_Obj_pos [OF c(1)] by (cases as', auto)+
    let ?t = "s\<lparr>blks := put_cell q (Obj (b\<lparr>bnxt := NULL\<rparr>))
      (put_cell r (Obj (c\<lparr>bnxt := bnxt b\<rparr>)) (blks s))\<rparr>"
    have "unlinked s r [q] bs ?t"
      using b c neq nx by (simp add: unlinked_def cell_at_put)
    then obtain u where u: "BufBlk_release q ?t = Inr u" "buf_rep u p (as' @ r # bs)"
      "content u (as' @ r # bs) = content s (as' @ r # bs)" "live (blks u) = live (blks s) - {q}"
      using unlink_release [OF rep' dist'] by auto
    have "eat_to_end 0 p q (last (NULL # as)) s = Inr (p, u)"
      using b c neq snoc u(1) by (simp add: eat_to_end_def cell_at_put)
    then show ?thesis using goal u(2-4) snoc by simp
  qed
qed

lemma rep_new_tail:
  "buf_rep s p (as @ bs) \<Longrightarrow> buf_rep t (ptr_to bs) bs \<Longrightarrow> mems t = mems s \<Longrightarrow>
   (\<And>x. x \<in> set as \<Longrightarrow> cell_at (blks t) x = cell_at (blks s) x) \<Longrightarrow>
     buf_rep t p (as @ bs) \<and> content t as = content s as \<and> map (mem_of t) as = map (mem_of s) as"
proof (induction as arbitrary: p)
  case Nil
  then show ?case using buf_rep_ptr [of s p bs] by simp
next
  case (Cons a as)
  then have a: "p = a" "0 < a" "ok_blk s a" "buf_rep s (bnxt (buf_at s a)) (as @ bs)"
    by (auto simp: buf_rep_Cons)
  have "cell_at (blks t) a = cell_at (blks s) a" using Cons.prems by simp
  then have "buf_at t a = buf_at s a" "ok_blk t a" "mem_of t a = mem_of s a" "blk_bytes t a = blk_bytes s a"
    using a(3) Cons.prems(3) by (simp_all add: buf_at_def obj_at_def ok_blk_def mem_of_def blk_bytes_def)
  with Cons.IH [OF a(4)] Cons.prems a show ?case by (simp add: buf_rep_Cons)
qed

lemma drop_blocks_eq:
  assumes rep: "buf_rep s p (as @ q # fs @ gs)" and dist: "distinct (map (mem_of s) (as @ q # fs @ gs))"
    and fs: "fs = [] \<longrightarrow> gs \<noteq> [] \<and> n \<noteq> 0"
  shows "\<exists>u. drop_blocks q (ptr_to (fs @ gs)) (last (ptr_to (fs @ gs) # fs)) (ptr_to gs) n s = Inr u \<and>
    buf_rep u p (as @ q # gs) \<and> content u (as @ q # gs) = content s (as @ q # gs) \<and>
    live (blks u) = live (blks s) - set fs"
proof (cases "fs = []")
  case True
  have "distinct (as @ q # fs @ gs)" using dist by (simp only: distinct_map)
  then have dps: "distinct (as @ q # gs)" by auto
  obtain g gs' where "gs = g # gs'" using fs True by (cases gs) auto
  with True fs rep dps have "drop_blocks q (ptr_to (fs @ gs)) (last (ptr_to (fs @ gs) # fs)) (ptr_to gs) n s = Inr s"
    by (auto simp: drop_blocks_def)
  with True rep show ?thesis by simp
next
  case False
  let ?ps = "as @ q # fs @ gs"
  have dps: "distinct ?ps" using dist by (simp only: distinct_map)
  obtain f fs' where f: "fs = f # fs'" using False by (cases fs) auto
  have "ok_blk s q" "ok_blk s (last fs)" using rep False by (auto simp: buf_rep_def)
  then obtain c l where c: "cell_at (blks s) q = Obj c" "buf_at s q = c"
    and l: "cell_at (blks s) (last fs) = Obj l" "buf_at s (last fs) = l"
    by (metis ok_blkE)
  have neq: "q \<noteq> last fs" "q \<noteq> f" "ptr_to gs \<noteq> f"
    using dps False f rep by (auto simp: ptr_to_def buf_rep_def dest: chain_not_NULL)
  let ?t = "s\<lparr>blks := put_cell q (Obj (c\<lparr>bnxt := ptr_to gs\<rparr>))
    (put_cell (last fs) (Obj (l\<lparr>bnxt := NULL\<rparr>)) (blks s))\<rparr>"
  have "unlinked s q fs gs ?t"
    using c l neq by (simp add: unlinked_def cell_at_put)
  then obtain u where u: "BufBlk_release f ?t = Inr u" "buf_rep u p (as @ q # gs)"
    "content u (as @ q # gs) = content s (as @ q # gs)" "live (blks u) = live (blks s) - set fs"
    using unlink_release [OF rep dist False] f by auto
  have "drop_blocks q (ptr_to (fs @ gs)) (last (ptr_to (fs @ gs) # fs)) (ptr_to gs) n s = Inr u"
    using u(1) c l neq f by (cases "fs' = []") (auto simp: drop_blocks_def cell_at_put)
  with u show ?thesis by blast
qed

lemma eat_beyond_eq:
  assumes rep: "buf_rep s p (as @ q # bs)" and dist: "distinct (map (mem_of s) (as @ q # bs))"
    and d: "0 < d" "d < int (length (blk_bytes s q))" "int (length (blk_bytes s q)) < d + n"
  shows "holds (eat_beyond d n p q s) (eaten s (as @ q # bs) (int (length (content s as)) + d) n)"
proof -
  let ?ps = "as @ q # bs" and ?l = "int (length (blk_bytes s q))"
  have dps: "distinct ?ps" using dist by (simp only: distinct_map)
  have ok: "ok_blk s q" using rep by (simp add: buf_rep_def)
  then obtain b where b: "cell_at (blks s) q = Obj b" "buf_at s q = b" "?l = bwr b - brd b"
    by (rule ok_blkE)
  let ?s = "narrowed q (brd b) (brd b + d) s"
  have nar: "ok_blk ?s q" "mem_of ?s q = mem_of s q" "only_touches q (mem_of s q) s ?s"
    "live (blks ?s) = live (blks s)" "blk_bytes ?s q = take (nat d) (blk_bytes s q)"
    using narrow [OF ok, of "brd b" "brd b + d"] b d by simp_all
  have s': "buf_rep ?s p ?ps" "map (mem_of ?s) ?ps = map (mem_of s) ?ps"
    "content ?s as = content s as" "content ?s bs = content s bs"
    using touched_rep [OF rep dist nar(3,1,2)] by auto
  have cq: "cell_at (blks ?s) q = Obj (b\<lparr>bwr := brd b + d\<rparr>)"
    using b by (simp add: narrowed_def cell_at_put)
  have tl: "buf_rep ?s (bnxt b) bs"
    using buf_rep_append [OF s'(1)] cq by (simp add: buf_rep_Cons buf_at_def)
  then have nx: "bnxt b = ptr_to bs" by (rule buf_rep_ptr)
  have "distinct (map (mem_of ?s) ?ps)" using s'(2) dist by metis
  then have dist': "distinct (map (mem_of ?s) bs)" by simp
  obtain fs gs n' t where t: "eat_loop (heap_size (blks ?s)) (n - (?l - d)) (bnxt b) (ptr_to bs) ?s =
      Inr (n', ptr_to gs, last (ptr_to bs # fs), t)" "bs = fs @ gs" "buf_rep t (bnxt b) bs"
    "map (mem_of t) bs = map (mem_of ?s) bs" "mems t = mems ?s"
    "content t gs = drop (nat (n - (?l - d))) (content ?s bs)" "live (blks t) = live (blks ?s)"
    "\<forall>x. x \<notin> set gs \<longrightarrow> cell_at (blks t) x = cell_at (blks ?s) x"
    "0 < n - (?l - d) \<longrightarrow> fs = [] \<longrightarrow> bs \<noteq> [] \<longrightarrow> 0 < n'"
  proof -
    have "0 \<le> n - (?l - d)" using d by simp
    from eat_loop_eq [OF tl dist' this buf_rep_length [OF tl], of "ptr_to bs"] that
    show thesis by (elim exE conjE) blast
  qed
  have outside: "cell_at (blks t) x = cell_at (blks ?s) x" if "x \<in> set (as @ [q])" for x
    using that dps t(2,8) by auto
  have t': "buf_rep t p (as @ q # fs @ gs)" "content t as @ blk_bytes t q = content s as @ take (nat d) (blk_bytes s q)"
    "map (mem_of t) (as @ [q]) = map (mem_of ?s) (as @ [q])"
    using rep_new_tail [of ?s p "as @ [q]" bs t] s'(1,3) t(2,3,5) nx outside nar(5) by auto
  have "map (mem_of t) ?ps = map (mem_of s) ?ps" using t'(3) t(4) s'(2) by auto
  then have dist2: "distinct (map (mem_of t) (as @ q # fs @ gs))" using dist t(2) by metis
  have res: "eat_beyond d n p q s = bindE (if bs = [] then Inr t
      else drop_blocks q (ptr_to (fs @ gs)) (last (ptr_to (fs @ gs) # fs)) (ptr_to gs) n' t) (\<lambda>u. Inr (p, u))"
  proof -
    have "BufBlk_length q s = Inr ?l" by (rule length_ok [OF ok])
    moreover have "set_buf q (\<lambda>b. b\<lparr>bwr := bwr b - (?l - d)\<rparr>) s = Inr ?s"
    proof -
      have "bwr b - (?l - d) = brd b + d" using b(3) by simp
      then show ?thesis using b(1,2) by (simp only: set_buf_Obj narrowed_def)
        (cases b, simp)
    qed
    moreover have "get_buf q ?s = Inr (b\<lparr>bwr := brd b + d\<rparr>)" using cq by simp
    moreover have "ptr_to bs = NULL \<longleftrightarrow> bs = []"
      using tl nx by (cases bs) (auto simp: buf_rep_Cons)
    moreover have "bs \<noteq> [] \<longrightarrow> ptr_to bs \<noteq> p"
      using dps buf_rep_ptr [OF rep] by (cases as; cases bs) auto
    ultimately show ?thesis
      using d t(1) nx unfolding t(2) [symmetric]
      by (cases "bs = []") (simp_all add: eat_beyond_def Let_def)
  qed
  have fin: "eaten s ?ps (int (length (content s as)) + d) n (p, u)"
    if u: "buf_rep u p (as @ q # gs)" "content u (as @ q # gs) = content t (as @ q # gs)"
      "live (blks u) = live (blks t) - set fs" for u
  proof -
    have "nat (int (length (content s as)) + d) = length (content s as) + nat d"
      "nat (int (length (content s as)) + d + n) =
        length (content s as) + (length (blk_bytes s q) + nat (n - (?l - d)))"
      using d by linarith+
    moreover have "nat d \<le> length (blk_bytes s q)" using d by simp
    moreover have "content u (as @ q # gs) = content s as @ take (nat d) (blk_bytes s q) @ content t gs"
      unfolding u(2) using t'(2) by simp
    ultimately have "take (nat (int (length (content s as)) + d)) (content s ?ps) @
        drop (nat (int (length (content s as)) + d + n)) (content s ?ps) = content u (as @ q # gs)"
      using t(6) s'(4) by simp
    moreover have "set ?ps - set (as @ q # gs) = set fs" using dps t(2) by auto
    ultimately show ?thesis
      using u t(2,7) nar(4) by (auto simp: eaten_def intro!: exI [of _ "as @ q # gs"])
  qed
  show ?thesis
  proof (cases "bs = []")
    case True
    then show ?thesis using res fin [of t] t'(1) t(2) by simp
  next
    case False
    have "fs = [] \<longrightarrow> gs \<noteq> [] \<and> n' \<noteq> 0" using t(9) False d t(2) by auto
    from drop_blocks_eq [OF t'(1) dist2 this] show ?thesis
      using False fin by (auto simp: res)
  qed
qed

lemma eatBytes_eq:
  assumes rep: "buf_rep s p ps" and dist: "distinct (map (mem_of s) ps)" and ps: "ps = as @ q # bs"
    and d: "0 \<le> d" "d < int (length (blk_bytes s q))" "0 \<le> n" "0 < d \<or> n \<le> int (length (blk_bytes s q))"
  shows "holds (BufBlk_eatBytes (int (length (content s as)) + d) n p s)
    (eaten s ps (int (length (content s as)) + d) n)"
proof -
  let ?off = "int (length (content s as)) + d" and ?l = "int (length (blk_bytes s q))"
  note rep' = rep [unfolded ps] and dist' = dist [unfolded ps]
  have ok: "ok_blk s q" "q \<noteq> NULL"
    using rep' buf_rep_append [OF rep'] by (auto simp: buf_rep_def buf_rep_Cons dest: chain_not_NULL)
  have find: "find_offset (heap_size (blks s)) ?off p NULL s = Inr (d, q, last (NULL # as))"
    using find_offset_inside [OF rep', of "heap_size (blks s)" ?off NULL] buf_rep_length [OF rep'] d by simp
  consider "d + n < ?l" | "d + n = ?l" "0 < d" | "d = 0" "n = ?l" | "0 < d" "?l < d + n"
    using d by linarith
  then show ?thesis
  proof cases
    case 1
    obtain t where t: "eat_inside d n q s = Inr t" "ok_blk t q" "mem_of t q = mem_of s q"
      "only_touches q (mem_of s q) s t" "live (blks t) = live (blks s)"
      "blk_bytes t q = take (nat d) (blk_bytes s q) @ drop (nat (d + n)) (blk_bytes s q)"
      using eat_inside_eq [OF ok(1) d(1,3) 1] by blast
    have "eaten s ps ?off n (p, t)"
      unfolding ps using eaten_touched [OF rep' dist' t(4,2,3,5,6)] d 1 by simp
    then show ?thesis using 1 d find ok t(1) by (simp add: BufBlk_eatBytes_def length_ok)
  next
    case 2
    then have "n = ?l - d" by simp
    with 2 d find ok eat_to_end_mid [OF rep' dist', of d] show ?thesis
      by (simp add: BufBlk_eatBytes_def length_ok ps)
  next
    case 3
    with d find ok eat_to_end_whole [OF rep' dist'] show ?thesis
      by (simp add: BufBlk_eatBytes_def length_ok ps)
  next
    case 4
    with d find ok eat_beyond_eq [OF rep' dist', of d n] show ?thesis
      by (simp add: BufBlk_eatBytes_def length_ok ps)
  qed
qed

section \<open>Properties\<close>

text \<open>A chain of three blocks, for the witnesses.\<close>

definition ex_mem :: "byte list \<Rightarrow> memblk" where
  "ex_mem bs = \<lparr>mrefs = 1, mbytes = bs, msize = int (length bs), mmanage = True, mproper = Some True,
     mmutex = True\<rparr>"

definition ex_buf :: "ptr \<Rightarrow> int \<Rightarrow> int \<Rightarrow> ptr \<Rightarrow> buf" where
  "ex_buf m r w n = \<lparr>bmb = m, brd = r, bwr = w, bmark = At 0, bnxt = n, bflags = None\<rparr>"

definition ex_bufs :: bufs where
  "ex_bufs =
     \<lparr>blks = \<lparr>mem = [Obj (ex_buf 1 0 2 2), Obj (ex_buf 2 1 3 3), Obj (ex_buf 3 0 1 0)], room = 0\<rparr>,
      mems = \<lparr>mem = [Obj (ex_mem [Some 1, Some 2, None]), Obj (ex_mem [Some 9, Some 3, Some 4]),
        Obj (ex_mem [Some 5])], room = 0\<rparr>, avail = 5, late_touches = 0\<rparr>"

lemma ex_bufs_rep:
  "buf_rep ex_bufs 1 [1, 2, 3]"
  "content ex_bufs [1, 2, 3] = [Some 1, Some 2, Some 3, Some 4, Some 5]"
  "distinct (map (mem_of ex_bufs) [1, 2, 3])"
  "map (\<lambda>p. length (blk_bytes ex_bufs p)) [1, 2, 3] = [2, 2, 1]"
  by (simp_all add: buf_rep_def ok_blk_def content_def blk_bytes_def buf_at_def obj_at_def mem_of_def
      ex_bufs_def ex_buf_def ex_mem_def cell_at_def numeral_2_eq_2 numeral_3_eq_3)


text \<open>C3. BufBlkIter gives back what is in the buffer: an iterator built on a chain and asked for
  \<open>space\<close> bytes copies the first \<open>space\<close> readable bytes of the chain (or all there are), across
  the boundaries of its blocks, and a further call goes on after them; the buffer keeps its bytes.\<close>

theorem iter_copies_content:
  assumes "buf_rep s p (a # ps)" "0 \<le> n" "0 \<le> k"
  shows "\<exists>it s' it' it'' m.
    BufBlkIter_new p s = Inr (it, s') \<and> buf_rep s' p (a # ps) \<and>
    content s' (a # ps) = content s (a # ps) \<and>
    BufBlkIter_copyNextChunks n it s' = Inr (Some (take (nat n) (content s (a # ps)),
      min n (int (length (content s (a # ps))))), it') \<and>
    BufBlkIter_copyNextChunks k it' s' = Inr (m, it'') \<and>
    (case m of None \<Rightarrow> int (length (content s (a # ps))) \<le> n
     | Some (bs, c) \<Rightarrow> bs = take (nat k) (drop (nat n) (content s (a # ps))))"
proof -
  obtain it qs s' where it: "BufBlkIter_new p s = Inr (it, s')" "shares s p (a # ps) s' (istart it) qs"
    "iter_ok s' it qs" "iter_left s' it qs = content s (a # ps)" "qs \<noteq> []"
    using iter_new_eq [OF assms(1)] by blast
  obtain it' qs' where it': "BufBlkIter_copyNextChunks n it s' = Inr (Some (take (nat n) (content s (a # ps)),
      min n (int (length (content s (a # ps))))), it')" "iter_ok s' it' qs'"
    "iter_left s' it' qs' = drop (nat n) (content s (a # ps))"
    using copyNextChunks_eq [OF it(3) assms(2) it(5)] it(4) by metis
  have keep: "buf_rep s' p (a # ps)" "content s' (a # ps) = content s (a # ps)"
    using it(2) by (simp_all add: shares_def)
  show ?thesis
  proof (cases "qs' = []")
    case True
    then have "BufBlkIter_copyNextChunks k it' s' = Inr (None, it')"
      using it'(2) by (simp add: iter_ok_def BufBlkIter_copyNextChunks_def)
    moreover have "length (content s (a # ps)) \<le> nat n"
      using it'(3) True by (simp add: iter_left_def del: content_Cons)
    ultimately show ?thesis using it(1) it'(1) keep assms(2)
      by (intro exI [of _ it] exI [of _ s'] exI [of _ it'] exI [of _ "None"])
        (simp del: content_Cons add: nat_le_iff le_nat_iff)
  next
    case False
    obtain it'' where "BufBlkIter_copyNextChunks k it' s' =
        Inr (Some (take (nat k) (drop (nat n) (content s (a # ps))),
          min k (int (length (drop (nat n) (content s (a # ps)))))), it'')"
      using copyNextChunks_eq [OF it'(2) assms(3) False] it'(3) by metis
    then show ?thesis using it(1) it'(1) keep
      by (intro exI [of _ it] exI [of _ s'] exI [of _ it'] exI [of _ it''] exI
        [of _ "Some (take (nat k) (drop (nat n) (content s (a # ps))),
          min k (int (length (drop (nat n) (content s (a # ps))))))"]) (simp del: content_Cons)
  qed
qed

theorem iter_copies_content_witness:
  "\<exists>it s' it' it'' m.
    BufBlkIter_new 1 ex_bufs = Inr (it, s') \<and> buf_rep s' 1 [1, 2, 3] \<and>
    content s' [1, 2, 3] = content ex_bufs [1, 2, 3] \<and>
    BufBlkIter_copyNextChunks 3 it s' = Inr (Some (take (nat 3) (content ex_bufs [1, 2, 3]),
      min 3 (int (length (content ex_bufs [1, 2, 3])))), it') \<and>
    BufBlkIter_copyNextChunks 9 it' s' = Inr (m, it'') \<and>
    (case m of None \<Rightarrow> int (length (content ex_bufs [1, 2, 3])) \<le> 3
     | Some (bs, c) \<Rightarrow> bs = take (nat 9) (drop (nat 3) (content ex_bufs [1, 2, 3])))"
  using iter_copies_content [OF ex_bufs_rep(1), of 3 9] by simp



text \<open>C1. eatBytes takes exactly the \<open>n\<close> bytes at the offset out of the chain (or all that follow, if
  there are fewer): within a block, to its end, or over any number of following blocks. The blocks that leave the chain
  are freed, and no others. This holds where the bytes
  begin inside a block, or at the start of a block without going beyond that block, and no two blocks of the chain share their memory.
  Where they begin at the start of a block and go beyond it, eatBytes frees the wrong blocks: see the last theorem.\<close>

theorem eatBytes_removes:
  assumes "buf_rep s p (as @ q # bs)" "distinct (map (mem_of s) (as @ q # bs))"
    and "off = int (length (content s as)) + d" "0 \<le> d" "d < int (length (blk_bytes s q))"
    and "0 \<le> n" "0 < d \<or> n \<le> int (length (blk_bytes s q))"
  shows "\<exists>h s' hs. BufBlk_eatBytes off n p s = Inr (h, s') \<and>
    buf_rep s' h hs \<and> set hs \<subseteq> set (as @ q # bs) \<and>
    live (blks s') = live (blks s) - (set (as @ q # bs) - set hs) \<and>
    content s' hs = take (nat off) (content s (as @ q # bs)) @
      drop (nat (off + n)) (content s (as @ q # bs))"
proof -
  from eatBytes_eq [OF assms(1,2) refl assms(4-7)] assms(3)
  have "holds (BufBlk_eatBytes off n p s) (eaten s (as @ q # bs) off n)" by simp
  then show ?thesis unfolding holds_iff eaten_def by (elim exE conjE) (auto simp del: content_append content_Cons)
qed

theorem eatBytes_removes_witness:
  "\<exists>h s' hs. BufBlk_eatBytes 1 3 1 ex_bufs = Inr (h, s') \<and> buf_rep s' h hs \<and>
    set hs \<subseteq> {1, 2, 3} \<and> content s' hs = [Some 1, Some 5]"
  using eatBytes_removes [of ex_bufs 1 "[]" 1 "[2, 3]" 1 1 3] ex_bufs_rep
  by (fastforce simp: eval_nat_numeral simp del: content_Cons)

text \<open>Where the bytes to remove begin at the head of the chain and are those of its first two
  blocks, eatBytes releases the first block together with the blocks that should stay: the head
  it returns is memory that has been freed, and the second block is lost.\<close>

theorem eatBytes_frees_the_rest:
  assumes rep: "buf_rep s p (a # b # c # cs)" and dist: "distinct (map (mem_of s) (a # b # c # cs))"
    and len: "0 < length (blk_bytes s a)" "0 < length (blk_bytes s b)"
  shows "\<exists>s'. BufBlk_eatBytes 0 (int (length (blk_bytes s a)) + int (length (blk_bytes s b))) p s =
      Inr (c, s') \<and> cell_at (blks s') c = Freed \<and> cell_at (blks s') b \<noteq> Freed"
proof -
  from rep have ok: "p = a" "0 < a" "ok_blk s a" "0 < b" "ok_blk s b"
    and nx: "bnxt (buf_at s a) = b" "bnxt (buf_at s b) = c"
    by (auto simp: buf_rep_Cons)
  have dps: "distinct (a # b # c # cs)" using dist by (simp only: distinct_map)
  obtain ba bb where ba: "cell_at (blks s) a = Obj ba" "buf_at s a = ba"
    and bb: "cell_at (blks s) b = Obj bb" "buf_at s b = bb"
    using ok(3,5) by (metis ok_blkE)
  let ?t = "s\<lparr>blks := put_cell a (Obj (ba\<lparr>bnxt := c\<rparr>)) (put_cell b (Obj (bb\<lparr>bnxt := NULL\<rparr>)) (blks s))\<rparr>"
  have un: "unlinked s a [b] (c # cs) ?t"
    using ba bb dps by (simp add: unlinked_def cell_at_put)
  have t: "buf_rep ?t p (a # c # cs)"
    and same: "\<forall>x\<in>set (a # b # c # cs). mem_of ?t x = mem_of s x"
    using unlinked_rep [of s p "[]" a "[b]" "c # cs" ?t] rep un by auto
  have "map (mem_of ?t) (a # c # cs) = map (mem_of s) (a # c # cs)" using same by simp
  moreover have "distinct (map (mem_of s) (a # c # cs))" using dist by simp
  ultimately have "distinct (map (mem_of ?t) (a # c # cs))" by metis
  then obtain u where u: "BufBlk_release a ?t = Inr u" "released ?t (a # c # cs) u"
    using BufBlk_release_eq [OF t] ok(1) by auto
  obtain k where k: "heap_size (blks s) = Suc (Suc k)"
    using buf_rep_length [OF rep] by (cases "heap_size (blks s)"; cases "heap_size (blks s) - 1") auto
  have "BufBlk_eatBytes 0 (int (length (blk_bytes s a)) + int (length (blk_bytes s b))) p s = Inr (c, u)"
    using ok len nx u(1) ba bb dps
    by (simp add: BufBlk_eatBytes_def k length_ok get_buf_ok eat_beyond_def drop_blocks_def cell_at_put)
  moreover have "cell_at (blks u) c = Freed" "cell_at (blks u) b \<noteq> Freed"
    using u(2) dps ba(1) bb(1) by (auto simp: released_def cell_at_put)
  ultimately show ?thesis by blast
qed

theorem eatBytes_frees_the_rest_witness:
  "\<exists>s'. BufBlk_eatBytes 0 4 1 ex_bufs = Inr (3, s') \<and> cell_at (blks s') 3 = Freed \<and>
    cell_at (blks s') 2 \<noteq> Freed"
proof -
  have len: "length (blk_bytes ex_bufs 1) = 2" "length (blk_bytes ex_bufs 2) = 2"
    using ex_bufs_rep(4) by simp_all
  from eatBytes_frees_the_rest [OF ex_bufs_rep(1,3)] show ?thesis unfolding len by simp
qed

text \<open>Every last release of a MemBlk uses the object after it was deleted.\<close>
theorem last_release_touches_freed:
  assumes "cell_at (mems s) p = Obj m" and "mrefs m = 1"
  shows "holds (MemBlk_release p s) (\<lambda>s'. cell_at (mems s') p = Freed \<and> late_touches s' = Suc (late_touches s))"
  using MemBlk_release_eq [OF assms(1)] assms(2) by auto

theorem last_release_touches_freed_witness:
  "holds (MemBlk_release 1 ex_bufs) (\<lambda>s'. cell_at (mems s') 1 = Freed \<and> late_touches s' = Suc (late_touches ex_bufs))"
  by (rule last_release_touches_freed [where m = "ex_mem [Some 1, Some 2, None]"])
    (simp_all add: ex_bufs_def cell_at_def ex_mem_def)

end
