(* ===== verification/TW_KHashBits.thy ===== *)
theory TW_KHashBits
  imports TW_Heap
begin

unbundle bit_operations_syntax

text \<open>
  The macros of include/TW/khash.h that the hash table of include/TW/tw_khash.h is built from: two
  flag bits for each bucket, packed into 32-bit words; rounding up to a power of two; the step of
  the probe sequence. With what they mean for buckets as natural numbers.
\<close>

section \<open>Arrays with bounds\<close>

definition arr_get :: "'a list \<Rightarrow> nat \<Rightarrow> 'a res" where
  "arr_get xs i = (if i < length xs then Inr (xs ! i) else Inl OutOfBounds)"

definition arr_set :: "'a list \<Rightarrow> nat \<Rightarrow> 'a \<Rightarrow> 'a list res" where
  "arr_set xs i x = (if i < length xs then Inr (xs[i := x]) else Inl OutOfBounds)"

lemma arr_get_ok [simp]: "i < length xs \<Longrightarrow> arr_get xs i = Inr (xs ! i)"
  by (simp add: arr_get_def)

lemma arr_set_ok [simp]: "i < length xs \<Longrightarrow> arr_set xs i x = Inr (xs[i := x])"
  by (simp add: arr_set_def)

section \<open>The macros\<close>

type_synonym khint = "32 word"

definition flag_word :: "khint \<Rightarrow> nat" where
  "flag_word i = unat (drop_bit 4 i)"

definition flag_pos :: "khint \<Rightarrow> nat" where
  "flag_pos i = unat (push_bit 1 (i AND 0xF))"

definition ac_isempty :: "khint list \<Rightarrow> khint \<Rightarrow> bool res" where
  "ac_isempty fl i = bindE (arr_get fl (flag_word i)) (\<lambda>w. Inr (drop_bit (flag_pos i) w AND 2 \<noteq> 0))"

definition ac_isdel :: "khint list \<Rightarrow> khint \<Rightarrow> bool res" where
  "ac_isdel fl i = bindE (arr_get fl (flag_word i)) (\<lambda>w. Inr (drop_bit (flag_pos i) w AND 1 \<noteq> 0))"

definition ac_iseither :: "khint list \<Rightarrow> khint \<Rightarrow> bool res" where
  "ac_iseither fl i = bindE (arr_get fl (flag_word i)) (\<lambda>w. Inr (drop_bit (flag_pos i) w AND 3 \<noteq> 0))"

definition ac_set_isempty_false :: "khint list \<Rightarrow> khint \<Rightarrow> khint list res" where
  "ac_set_isempty_false fl i = bindE (arr_get fl (flag_word i)) (\<lambda>w.
     arr_set fl (flag_word i) (w AND NOT (push_bit (flag_pos i) 2)))"

definition ac_set_isboth_false :: "khint list \<Rightarrow> khint \<Rightarrow> khint list res" where
  "ac_set_isboth_false fl i = bindE (arr_get fl (flag_word i)) (\<lambda>w.
     arr_set fl (flag_word i) (w AND NOT (push_bit (flag_pos i) 3)))"

definition ac_set_isdel_true :: "khint list \<Rightarrow> khint \<Rightarrow> khint list res" where
  "ac_set_isdel_true fl i = bindE (arr_get fl (flag_word i)) (\<lambda>w.
     arr_set fl (flag_word i) (w OR push_bit (flag_pos i) 1))"

definition ac_inc :: "khint \<Rightarrow> khint \<Rightarrow> khint" where
  "ac_inc k m = ((drop_bit 3 k XOR push_bit 3 k) OR 1) AND m"

definition ac_fsize :: "khint \<Rightarrow> khint" where
  "ac_fsize m = (if m < 16 then 1 else drop_bit 4 m)"

definition kroundup32 :: "khint \<Rightarrow> khint" where
  "kroundup32 x =
     (let x = x - 1;
          x = x OR drop_bit 1 x;
          x = x OR drop_bit 2 x;
          x = x OR drop_bit 4 x;
          x = x OR drop_bit 8 x;
          x = x OR drop_bit 16 x
      in x + 1)"

text \<open>\<^verbatim>\<open>(khint_t)(n * __ac_HASH_UPPER + 0.5)\<close> with \<open>__ac_HASH_UPPER = 0.77\<close>. It is used for powers of
  two only, where the product of the double 0.77 is exact but for an error below 10 ^ -6, and
  the sum is never so near to an integer.\<close>

definition hash_upper :: "khint \<Rightarrow> khint" where
  "hash_upper n = of_nat ((unat n * 77 + 50) div 100)"

text \<open>The 64-bit hash folded to 32 bits.\<close>

definition kh_int64_hash_func :: "64 word \<Rightarrow> khint" where
  "kh_int64_hash_func key = ucast (drop_bit 33 key XOR key XOR push_bit 11 key)"

section \<open>The flags of a bucket\<close>

definition is_empty :: "khint list \<Rightarrow> nat \<Rightarrow> bool" where
  "is_empty fl i = bit (fl ! (i div 16)) (2 * (i mod 16) + 1)"

definition is_del :: "khint list \<Rightarrow> nat \<Rightarrow> bool" where
  "is_del fl i = bit (fl ! (i div 16)) (2 * (i mod 16))"

definition is_used :: "khint list \<Rightarrow> nat \<Rightarrow> bool" where
  "is_used fl i \<longleftrightarrow> \<not> is_empty fl i \<and> \<not> is_del fl i"

lemma flag_word_eq: "flag_word i = unat i div 16"
  by (simp add: flag_word_def drop_bit_eq_div unat_div)

lemma and_mask_mod: "m < 32 \<Longrightarrow> unat ((i :: khint) AND mask m) = unat i mod 2 ^ m"
  unfolding take_bit_eq_mask [symmetric] unsigned_take_bit_eq by (simp add: take_bit_eq_mod)

lemma flag_pos_eq: "flag_pos i = 2 * (unat i mod 16)"
proof -
  have "unat (i AND 0xF) = unat i mod 16"
    using and_mask_mod [of 4 i] by (simp add: mask_eq_exp_minus_1)
  then have "unat (i AND 0xF) < 16" "unat (i AND 0xF) = unat i mod 16" by simp_all
  then show ?thesis
    by (simp add: flag_pos_def push_bit_eq_mult unat_mult_lem [THEN iffD1])
qed

lemma and_bits:
  fixes w :: khint
  shows "(w AND 1 \<noteq> 0) = bit w 0" "(w AND 2 \<noteq> 0) = bit w 1" "(w AND 3 \<noteq> 0) = (bit w 0 \<or> bit w 1)"
proof -
  show "(w AND 1 \<noteq> 0) = bit w 0" by (simp add: and_one_eq bit_0 odd_iff_mod_2_eq_one)
  have "w AND 2 = (if bit w 1 then 2 else 0)"
    by (rule bit_eqI) (auto simp: bit_simps)
  then show "(w AND 2 \<noteq> 0) = bit w 1" by simp
  have "w AND 3 = 0 \<longleftrightarrow> \<not> bit w 0 \<and> \<not> bit w 1"
  proof
    assume "w AND 3 = 0"
    then have "\<not> bit (w AND 3) 0" "\<not> bit (w AND 3) 1" by simp_all
    then show "\<not> bit w 0 \<and> \<not> bit w 1" by (simp add: bit_and_iff)
  next
    assume "\<not> bit w 0 \<and> \<not> bit w 1"
    moreover have "(3 :: khint) = mask 2" by (simp add: mask_eq_exp_minus_1)
    ultimately show "w AND 3 = 0"
      by (simp only:, intro bit_eqI) (auto simp only: bit_and_iff bit_mask_iff less_2_cases_iff bit_0_eq One_nat_def)
  qed
  then show "(w AND 3 \<noteq> 0) = (bit w 0 \<or> bit w 1)" by auto
qed

text \<open>\<open>flags_for fl n\<close>: the flag array covers the buckets below \<open>n\<close>.\<close>

definition flags_for :: "khint list \<Rightarrow> nat \<Rightarrow> bool" where
  "flags_for fl n \<longleftrightarrow> n \<le> 16 * length fl"

lemma flags_for_word: "flags_for fl n \<Longrightarrow> unat i < n \<Longrightarrow> unat i div 16 < length fl"
  unfolding flags_for_def by simp

lemma ac_isempty_eq: "flags_for fl n \<Longrightarrow> unat i < n \<Longrightarrow> ac_isempty fl i = Inr (is_empty fl (unat i))"
  using flags_for_word [of fl n i]
  by (simp add: ac_isempty_def flag_word_eq flag_pos_eq is_empty_def and_bits bit_drop_bit_eq)

lemma ac_isdel_eq: "flags_for fl n \<Longrightarrow> unat i < n \<Longrightarrow> ac_isdel fl i = Inr (is_del fl (unat i))"
  using flags_for_word [of fl n i]
  by (simp add: ac_isdel_def flag_word_eq flag_pos_eq is_del_def and_bits bit_drop_bit_eq)

lemma ac_iseither_eq: "flags_for fl n \<Longrightarrow> unat i < n \<Longrightarrow> ac_iseither fl i = Inr (\<not> is_used fl (unat i))"
  using flags_for_word [of fl n i]
  by (auto simp: ac_iseither_def flag_word_eq flag_pos_eq is_used_def is_empty_def is_del_def and_bits
      bit_drop_bit_eq)

definition clear_empty :: "khint list \<Rightarrow> nat \<Rightarrow> khint list" where
  "clear_empty fl i = fl[i div 16 := fl ! (i div 16) AND NOT (push_bit (2 * (i mod 16)) 2)]"

definition clear_both :: "khint list \<Rightarrow> nat \<Rightarrow> khint list" where
  "clear_both fl i = fl[i div 16 := fl ! (i div 16) AND NOT (push_bit (2 * (i mod 16)) 3)]"

definition mark_del :: "khint list \<Rightarrow> nat \<Rightarrow> khint list" where
  "mark_del fl i = fl[i div 16 := fl ! (i div 16) OR push_bit (2 * (i mod 16)) 1]"

lemma ac_set_isempty_false_eq:
  "flags_for fl n \<Longrightarrow> unat i < n \<Longrightarrow> ac_set_isempty_false fl i = Inr (clear_empty fl (unat i))"
  using flags_for_word [of fl n i]
  by (simp add: ac_set_isempty_false_def flag_word_eq flag_pos_eq clear_empty_def)

lemma ac_set_isboth_false_eq:
  "flags_for fl n \<Longrightarrow> unat i < n \<Longrightarrow> ac_set_isboth_false fl i = Inr (clear_both fl (unat i))"
  using flags_for_word [of fl n i]
  by (simp add: ac_set_isboth_false_def flag_word_eq flag_pos_eq clear_both_def)

lemma ac_set_isdel_true_eq:
  "flags_for fl n \<Longrightarrow> unat i < n \<Longrightarrow> ac_set_isdel_true fl i = Inr (mark_del fl (unat i))"
  using flags_for_word [of fl n i]
  by (simp add: ac_set_isdel_true_def flag_word_eq flag_pos_eq mark_del_def)

lemma same_bucket: "(i div 16 = j div 16 \<and> i mod 16 = j mod 16) = (i = (j :: nat))"
  by (metis div_mult_mod_eq)

lemma bit_2_3:
  "bit (2 :: khint) n = (n = 1)" "bit (3 :: khint) n = (n = 0 \<or> n = 1)" "bit (1 :: khint) n = (n = 0)"
proof -
  have "(2 :: khint) = push_bit 1 1" "(3 :: khint) = mask 2"
    by (simp_all add: mask_eq_exp_minus_1)
  then show "bit (2 :: khint) n = (n = 1)" "bit (3 :: khint) n = (n = 0 \<or> n = 1)"
    by (auto simp only: bit_push_bit_iff bit_1_iff bit_mask_iff less_2_cases_iff) auto
  show "bit (1 :: khint) n = (n = 0)" by (simp add: bit_1_iff)
qed

text \<open>Within a word, the bits of two buckets are different.\<close>

lemma flag_bits:
  assumes "a < 16" and "b < 16"
  shows "bit (push_bit (2 * a) (2 :: khint)) (2 * b + 1) = (a = b)"
    and "bit (push_bit (2 * a) (2 :: khint)) (2 * b) = False"
    and "bit (push_bit (2 * a) (3 :: khint)) (2 * b + 1) = (a = b)"
    and "bit (push_bit (2 * a) (3 :: khint)) (2 * b) = (a = b)"
    and "bit (push_bit (2 * a) (1 :: khint)) (2 * b + 1) = False"
    and "bit (push_bit (2 * a) (1 :: khint)) (2 * b) = (a = b)"
proof -
  have lt: "2 * b + 1 < 32" "2 * b < 32" using assms by auto
  show "bit (push_bit (2 * a) (2 :: khint)) (2 * b + 1) = (a = b)"
    unfolding bit_push_bit_iff bit_2_3 using lt by simp presburger
  show "bit (push_bit (2 * a) (2 :: khint)) (2 * b) = False"
    unfolding bit_push_bit_iff bit_2_3 using lt by simp presburger
  show "bit (push_bit (2 * a) (3 :: khint)) (2 * b + 1) = (a = b)"
    unfolding bit_push_bit_iff bit_2_3 using lt by simp presburger
  show "bit (push_bit (2 * a) (3 :: khint)) (2 * b) = (a = b)"
    unfolding bit_push_bit_iff bit_2_3 using lt by simp presburger
  show "bit (push_bit (2 * a) (1 :: khint)) (2 * b + 1) = False"
    unfolding bit_push_bit_iff bit_2_3 using lt by simp presburger
  show "bit (push_bit (2 * a) (1 :: khint)) (2 * b) = (a = b)"
    unfolding bit_push_bit_iff bit_2_3 using lt by simp presburger
qed

lemma flags_after:
  assumes "i div 16 < length fl"
  shows "is_empty (clear_empty fl i) j = (is_empty fl j \<and> j \<noteq> i)"
    and "is_del (clear_empty fl i) j = is_del fl j"
    and "is_empty (clear_both fl i) j = (is_empty fl j \<and> j \<noteq> i)"
    and "is_del (clear_both fl i) j = (is_del fl j \<and> j \<noteq> i)"
    and "is_empty (mark_del fl i) j = is_empty fl j"
    and "is_del (mark_del fl i) j = (is_del fl j \<or> j = i)"
proof -
  have lt: "2 * (j mod 16) + 1 < 32" "2 * (j mod 16) < 32" by auto
  note bits = flag_bits [of "i mod 16" "j mod 16"]
  note defs = is_empty_def is_del_def clear_empty_def clear_both_def mark_del_def
  show "is_empty (clear_empty fl i) j = (is_empty fl j \<and> j \<noteq> i)"
    and "is_del (clear_empty fl i) j = is_del fl j"
    and "is_empty (clear_both fl i) j = (is_empty fl j \<and> j \<noteq> i)"
    and "is_del (clear_both fl i) j = (is_del fl j \<and> j \<noteq> i)"
    and "is_empty (mark_del fl i) j = is_empty fl j"
    and "is_del (mark_del fl i) j = (is_del fl j \<or> j = i)"
  proof -
    have m: "(i mod 16 = j mod 16) = (j = i)" if "i div 16 = j div 16"
      using same_bucket [of i j] that by auto
    have n: "j \<noteq> i" if "i div 16 \<noteq> j div 16" using that by auto
    note s = defs nth_list_update bit_and_iff bit_or_iff bit_not_iff m bits
    show "is_empty (clear_empty fl i) j = (is_empty fl j \<and> j \<noteq> i)"
      by (cases "i div 16 = j div 16") (use assms lt n in \<open>simp_all add: s del: One_nat_def push_bit_of_1\<close>)
    show "is_del (clear_empty fl i) j = is_del fl j"
      by (cases "i div 16 = j div 16") (use assms lt n in \<open>simp_all add: s del: One_nat_def push_bit_of_1\<close>)
    show "is_empty (clear_both fl i) j = (is_empty fl j \<and> j \<noteq> i)"
      by (cases "i div 16 = j div 16") (use assms lt n in \<open>simp_all add: s del: One_nat_def push_bit_of_1\<close>)
    show "is_del (clear_both fl i) j = (is_del fl j \<and> j \<noteq> i)"
      by (cases "i div 16 = j div 16") (use assms lt n in \<open>simp_all add: s del: One_nat_def push_bit_of_1\<close>)
    show "is_empty (mark_del fl i) j = is_empty fl j"
      by (cases "i div 16 = j div 16") (use assms lt n in \<open>simp_all add: s del: One_nat_def push_bit_of_1\<close>)
    show "is_del (mark_del fl i) j = (is_del fl j \<or> j = i)"
      by (cases "i div 16 = j div 16") (use assms lt n in \<open>simp_all add: s del: One_nat_def push_bit_of_1\<close>)
  qed
qed

section \<open>The flags of a new table\<close>

text \<open>\<^verbatim>\<open>memset(flags, 0xaa, words * sizeof(khint32_t))\<close>.\<close>

definition memset_aa :: "khint list \<Rightarrow> nat \<Rightarrow> khint list res" where
  "memset_aa fl words = (if length fl < words then Inl OutOfBounds
     else Inr (replicate words 0xAAAAAAAA @ drop words fl))"

definition new_flags_for :: "khint \<Rightarrow> khint list" where
  "new_flags_for n = replicate (unat (ac_fsize n)) 0xAAAAAAAA"

lemma bits_aa:
  assumes "a < 16"
  shows "bit (0xAAAAAAAA :: khint) (2 * a + 1)" and "\<not> bit (0xAAAAAAAA :: khint) (2 * a)"
proof -
  have "\<forall>a \<in> set [0..<16]. bit (0xAAAAAAAA :: khint) (2 * a + 1) \<and> \<not> bit (0xAAAAAAAA :: khint) (2 * a)"
    by code_simp
  then show "bit (0xAAAAAAAA :: khint) (2 * a + 1)" "\<not> bit (0xAAAAAAAA :: khint) (2 * a)"
    using assms by auto
qed

lemma all_empty_aa:
  assumes "i < 16 * w"
  shows "is_empty (replicate w 0xAAAAAAAA @ fl) i" and "\<not> is_del (replicate w 0xAAAAAAAA @ fl) i"
  using assms bits_aa [of "i mod 16"]
  by (simp_all add: is_empty_def is_del_def nth_append less_mult_imp_div_less mult.commute)

section \<open>Rounding up to a power of two\<close>

lemma smear_double:
  fixes y z :: khint
  assumes "\<And>n. bit z n = (\<exists>d<w. bit y (n + d))"
  shows "bit (z OR drop_bit w z) n = (\<exists>d<w + w. bit y (n + d))"
proof -
  have "(\<exists>d<w. bit y (w + n + d)) = (\<exists>d. w \<le> d \<and> d < w + w \<and> bit y (n + d))" (is "?l = ?r")
  proof
    assume ?l
    then obtain d where "d < w" "bit y (w + n + d)" by blast
    then show ?r by (intro exI [of _ "w + d"]) (simp add: ac_simps)
  next
    assume ?r
    then obtain d where "w \<le> d" "d < w + w" "bit y (n + d)" by blast
    then show ?l by (intro exI [of _ "d - w"]) (simp add: ac_simps)
  qed
  then show ?thesis
    by (simp add: bit_or_iff bit_drop_bit_eq assms) (metis le_add1 le_less_trans linorder_not_less)
qed

lemma kroundup32_smear:
  "\<exists>z. kroundup32 x = z + 1 \<and> (\<forall>n. bit z n = (\<exists>d<32. bit (x - 1) (n + d)))"
proof -
  define y where "y = x - 1"
  define z1 where "z1 = y OR drop_bit 1 y"
  define z2 where "z2 = z1 OR drop_bit 2 z1"
  define z4 where "z4 = z2 OR drop_bit 4 z2"
  define z8 where "z8 = z4 OR drop_bit 8 z4"
  define z16 where "z16 = z8 OR drop_bit 16 z8"
  have 0: "bit y n = (\<exists>d<1. bit y (n + d))" for n by simp
  have 1: "bit z1 n = (\<exists>d<2. bit y (n + d))" for n
    using smear_double [OF 0, of n] by (simp only: z1_def one_add_one)
  have 2: "bit z2 n = (\<exists>d<4. bit y (n + d))" for n
    using smear_double [OF 1, of n] by (simp add: z2_def)
  have 4: "bit z4 n = (\<exists>d<8. bit y (n + d))" for n
    using smear_double [OF 2, of n] by (simp add: z4_def)
  have 8: "bit z8 n = (\<exists>d<16. bit y (n + d))" for n
    using smear_double [OF 4, of n] by (simp add: z8_def)
  have 16: "bit z16 n = (\<exists>d<32. bit y (n + d))" for n
    using smear_double [OF 8, of n] by (simp add: z16_def)
  have "kroundup32 x = z16 + 1"
    by (simp add: kroundup32_def Let_def y_def z1_def z2_def z4_def z8_def z16_def)
  then show ?thesis using 16 unfolding y_def by blast
qed

lemma top_bit:
  fixes y :: khint
  assumes "y \<noteq> 0"
  obtains k where "k < 32" "bit y k" "\<And>j. k < j \<Longrightarrow> \<not> bit y j"
proof -
  let ?B = "{n. bit y n}"
  have lt: "n < 32" if "bit y n" for n using bit_imp_le_length [OF that] by simp
  then have "finite ?B" by (intro finite_subset [of ?B "{..<32}"]) auto
  moreover have "?B \<noteq> {}" using assms by (auto simp: bit_eq_iff)
  ultimately have "Max ?B \<in> ?B" "\<And>j. j \<in> ?B \<Longrightarrow> j \<le> Max ?B" by (rule Max_in, simp_all)
  then have "bit y (Max ?B)" "\<And>j. Max ?B < j \<Longrightarrow> \<not> bit y j"
    using not_le by blast+
  with lt show ?thesis by (intro that [of "Max ?B"])
qed

lemma bit_imp_exp_le: "bit (y :: khint) k \<Longrightarrow> 2 ^ k \<le> unat y"
proof -
  assume "bit y k"
  then have "bit (unat y) k" by (simp add: bit_unsigned_iff)
  then have "unat y div 2 ^ k \<noteq> 0" by (metis bit_iff_odd even_zero)
  then show ?thesis by (metis div_less not_le)
qed

lemma no_bits_above: "(\<And>j. k \<le> j \<Longrightarrow> \<not> bit (y :: khint) j) \<Longrightarrow> unat y < 2 ^ k"
proof -
  assume a: "\<And>j. k \<le> j \<Longrightarrow> \<not> bit y j"
  have "take_bit k (unat y) = unat y"
    by (rule bit_eqI) (use a in \<open>auto simp: bit_take_bit_iff bit_unsigned_iff not_less [symmetric]\<close>)
  then show ?thesis by (metis take_bit_nat_less_exp)
qed

lemma unat_mask_exp: "m < 32 \<Longrightarrow> unat (mask m + 1 :: khint) = 2 ^ m"
proof -
  assume "m < 32"
  then have "(mask m + 1 :: khint) = 2 ^ m" by (simp add: mask_eq_exp_minus_1)
  moreover have "(2 :: nat) ^ m < 2 ^ 32" using \<open>m < 32\<close> by (rule power_strict_increasing) simp
  ultimately have "(mask m + 1 :: khint) = of_nat (2 ^ m)" "(2 :: nat) ^ m < 2 ^ LENGTH(32)" by simp_all
  then show ?thesis by (simp only: unat_of_nat mod_less)
qed

lemma kroundup32_power:
  assumes "0 < x" and "unat x \<le> 2 ^ 31"
  shows "\<exists>m\<le>31. unat (kroundup32 x) = 2 ^ m \<and> unat x \<le> 2 ^ m \<and> 2 ^ m < 2 * unat x"
proof (cases "x = 1")
  case True
  then show ?thesis by (intro exI [of _ 0]) (simp add: kroundup32_def)
next
  case False
  have ux: "unat x = Suc (unat (x - 1))" using assms(1)
    by (simp add: unat_minus_one word_gt_0) (metis Suc_pred unat_gt_0 word_gt_0)
  have "x - 1 \<noteq> 0" using False by simp
  then obtain k where k: "k < 32" "bit (x - 1) k" "\<And>j. k < j \<Longrightarrow> \<not> bit (x - 1) j"
    using top_bit by blast
  obtain z where z: "kroundup32 x = z + 1" "\<And>n. bit z n = (\<exists>d<32. bit (x - 1) (n + d))"
    using kroundup32_smear by blast
  have "bit z n = (n \<le> k)" for n
  proof
    assume "bit z n" then show "n \<le> k"
      unfolding z(2) using k(3) by (metis le_add1 le_trans not_le)
  next
    assume "n \<le> k" then show "bit z n"
      unfolding z(2) using k(1,2) by (intro exI [of _ "k - n"]) simp
  qed
  then have "z = mask (Suc k)"
    by (intro bit_eqI) (auto simp: bit_mask_iff less_Suc_eq_le)
  moreover have lo: "2 ^ k \<le> unat (x - 1)" by (rule bit_imp_exp_le [OF k(2)])
  moreover have hi: "unat (x - 1) < 2 ^ Suc k"
    by (rule no_bits_above) (use k(3) Suc_le_lessD in blast)
  moreover have "k < 31"
  proof (rule ccontr)
    assume "\<not> k < 31"
    then have "k = 31" using k(1) by simp
    then show False using lo ux assms(2) by simp
  qed
  ultimately show ?thesis using z(1) ux unat_mask_exp [of "Suc k"]
    by (intro exI [of _ "Suc k"]) simp
qed

section \<open>The probe sequence\<close>

definition probe :: "nat \<Rightarrow> nat \<Rightarrow> nat \<Rightarrow> nat \<Rightarrow> nat" where
  "probe n a c t = (a + t * c) mod n"

lemma probe_less: "0 < n \<Longrightarrow> probe n a c t < n"
  by (simp add: probe_def)

lemma probe_0: "a < n \<Longrightarrow> probe n a c 0 = a"
  by (simp add: probe_def)

lemma probe_Suc: "probe n a c (Suc t) = (probe n a c t + c) mod n"
  by (simp add: probe_def mod_simps ac_simps)

lemma probe_inj_aux:
  assumes "odd c" and "s \<le> t" and "t < 2 ^ m" and "probe (2 ^ m) a c s = probe (2 ^ m) a c t"
  shows "s = t"
proof -
  have "(2 :: nat) ^ m dvd (a + t * c) - (a + s * c)"
    using assms(4) unfolding probe_def by (metis mod_eq_dvd_iff_nat assms(2) add_le_cancel_left mult_le_mono1)
  then have "2 ^ m dvd (t - s) * c" by (simp add: diff_mult_distrib)
  moreover have "coprime ((2 :: nat) ^ m) c" using assms(1) by simp
  ultimately have "2 ^ m dvd t - s" by (simp add: coprime_dvd_mult_left_iff)
  then show ?thesis using assms(2,3) by (metis diff_is_0_eq dvd_imp_le le_antisym less_imp_diff_less not_le zero_less_iff_neq_zero)
qed

lemma probe_inj: "odd c \<Longrightarrow> inj_on (probe (2 ^ m) a c) {..<2 ^ m}"
  by (rule inj_onI) (metis lessThan_iff linear probe_inj_aux)

lemma probe_surj:
  assumes "odd c" and "p < 2 ^ m"
  obtains t where "t < 2 ^ m" and "probe (2 ^ m) a c t = p"
proof -
  have "probe (2 ^ m) a c ` {..<2 ^ m} \<subseteq> {..<2 ^ m}" by (auto simp: probe_less)
  then have "probe (2 ^ m) a c ` {..<2 ^ m} = {..<2 ^ m}"
    using endo_inj_surj [OF _ _ probe_inj [OF assms(1)]] by blast
  then show ?thesis using assms(2) that by (metis imageE lessThan_iff)
qed

lemma probe_wrap: "odd c \<Longrightarrow> t < 2 ^ m \<Longrightarrow> a < 2 ^ m \<Longrightarrow> (probe (2 ^ m) a c t = a) = (t = 0)"
  using probe_inj_aux [of c 0 t m a] by (auto simp: probe_0)

lemma probe_full: "a < 2 ^ m \<Longrightarrow> probe (2 ^ m) a c (2 ^ m) = a"
  by (simp add: probe_def)

text \<open>The word arithmetic of the code walks along it.\<close>

lemma minus_one_mask: "unat (n :: khint) = 2 ^ m \<Longrightarrow> m < 32 \<Longrightarrow> n - 1 = mask m"
  by (metis add_diff_cancel_right' unat_mask_exp word_unat_eq_iff)

lemma and_mask_less: "unat n = 2 ^ m \<Longrightarrow> m < 32 \<Longrightarrow> unat ((i :: khint) AND (n - 1)) = unat i mod 2 ^ m"
  by (simp add: minus_one_mask and_mask_mod)

lemma step_mask:
  assumes "unat n = 2 ^ m" and "m < 32"
  shows "unat (((i :: khint) + inc) AND (n - 1)) = (unat i + unat inc) mod 2 ^ m"
proof -
  have "(2 :: nat) ^ m dvd 2 ^ 32" using assms(2) by (intro le_imp_power_dvd) simp
  then show ?thesis
    by (simp add: and_mask_less [OF assms] unat_word_ariths mod_mod_cancel)
qed

lemma ac_inc_odd: "unat n = 2 ^ m \<Longrightarrow> 0 < m \<Longrightarrow> m < 32 \<Longrightarrow> odd (unat (ac_inc k (n - 1)))"
proof -
  assume n: "unat n = 2 ^ m" "0 < m" "m < 32"
  have "bit (ac_inc k (n - 1)) 0"
    unfolding ac_inc_def minus_one_mask [OF n(1,3)] using n(2)
    by (simp add: bit_and_iff bit_or_iff bit_mask_iff)
  then have "bit (unat (ac_inc k (n - 1))) 0" by (simp only: bit_unsigned_iff) simp
  then show ?thesis by (simp add: bit_0)
qed

lemma ac_fsize_covers: "unat n = 2 ^ m \<Longrightarrow> unat n \<le> 16 * unat (ac_fsize n)"
proof -
  assume n: "unat n = 2 ^ m"
  show ?thesis
  proof (cases "n < 16")
    case True
    then show ?thesis by (simp add: ac_fsize_def word_less_nat_alt)
  next
    case False
    then have "16 \<le> (2 :: nat) ^ m" using n by (simp add: word_less_nat_alt)
    then have "(2 :: nat) ^ 4 \<le> 2 ^ m" by simp
    then have "4 \<le> m" by (rule power_le_imp_le_exp [rotated]) simp
    then have "(2 :: nat) ^ 4 dvd 2 ^ m" by (rule le_imp_power_dvd)
    then show ?thesis using False n flag_word_eq [of n] by (simp add: ac_fsize_def flag_word_def)
  qed
qed

end
