(* ===== verification/TW_KHash.thy ===== *)
theory TW_KHash
  imports TW_KHashBits
begin

unbundle bit_operations_syntax

text \<open>
  The open-addressing hash table inside TW_KHash_32 of include/TW/tw_khash.h (kh_A_t and the
  functions kh_get_A, kh_resize_A, kh_put_A, kh_del_A, kh_clear_A). The hash function and the
  equality of the keys are parameters, as they are template arguments of the class.

  The arrays are lists, \<open>[]\<close> for a null pointer. A key or a value is \<open>None\<close> until the first
  is stored in its place. \<open>kb\<close> is \<^verbatim>\<open>sizeof(KEY)\<close>; a value is a pointer of 8 bytes. The allocations of the table's own arrays are
  taken to succeed when their size is one, the number of bytes after its conversion to the \<^verbatim>\<open>int\<close> of \<^verbatim>\<open>ALLOC::realloc\<close>: the
  code does not look at their results. Every loop has fuel, one more step than there are buckets.
\<close>

section \<open>The table and its operations\<close>

record ('k, 'v) kh =
  n_buckets :: khint
  ksize :: khint
  n_occupied :: khint
  upper_bound :: khint
  kflags :: "khint list"
  kkeys :: "'k option list"
  kvals :: "'v option list"

definition kh_init_A :: "('k, 'v) kh" where
  "kh_init_A = \<lparr>n_buckets = 0, ksize = 0, n_occupied = 0, upper_bound = 0,
     kflags = [], kkeys = [], kvals = []\<rparr>"

definition kh_clear_A :: "('k, 'v) kh \<Rightarrow> ('k, 'v) kh res" where
  "kh_clear_A h = (if kflags h = [] then Inr h
     else bindE (memset_aa (kflags h) (unat (ac_fsize (n_buckets h)))) (\<lambda>fl.
       Inr (h\<lparr>kflags := fl, ksize := 0, n_occupied := 0\<rparr>)))"

definition key_at :: "('k, 'v) kh \<Rightarrow> khint \<Rightarrow> 'k res" where
  "key_at h i = bindE (arr_get (kkeys h) (unat i)) (\<lambda>k.
     case k of None \<Rightarrow> Inl Uninit | Some k \<Rightarrow> Inr k)"

text \<open>The condition of the search loops: the bucket is not empty, and it is deleted or has another key.\<close>

definition probe_on :: "('k \<Rightarrow> 'k \<Rightarrow> bool) \<Rightarrow> ('k, 'v) kh \<Rightarrow> 'k \<Rightarrow> khint \<Rightarrow> bool res" where
  "probe_on eq h key i =
     bindE (ac_isempty (kflags h) i) (\<lambda>e. if e then Inr False else
     bindE (ac_isdel (kflags h) i) (\<lambda>d. if d then Inr True else
     bindE (key_at h i) (\<lambda>k. Inr (\<not> eq k key))))"

fun get_loop :: "('k \<Rightarrow> 'k \<Rightarrow> bool) \<Rightarrow> ('k, 'v) kh \<Rightarrow> 'k \<Rightarrow> khint \<Rightarrow> khint \<Rightarrow> nat \<Rightarrow> khint \<Rightarrow> khint res" where
  "get_loop eq h key inc start 0 i = Inl Diverges"
| "get_loop eq h key inc start (Suc f) i = bindE (probe_on eq h key i) (\<lambda>go.
     if go then
       (let i = (i + inc) AND (n_buckets h - 1)
        in if i = start then Inr (n_buckets h) else get_loop eq h key inc start f i)
     else bindE (ac_iseither (kflags h) i) (\<lambda>d. Inr (if d then n_buckets h else i)))"

definition kh_get_A :: "('k \<Rightarrow> khint) \<Rightarrow> ('k \<Rightarrow> 'k \<Rightarrow> bool) \<Rightarrow> ('k, 'v) kh \<Rightarrow> 'k \<Rightarrow> khint res" where
  "kh_get_A hash eq h key = (if n_buckets h \<noteq> 0 then
     (let msk = n_buckets h - 1; k = hash key; i = k AND msk; inc = ac_inc k msk
      in get_loop eq h key inc i (Suc (unat (n_buckets h))) i)
     else Inr 0)"

text \<open>Resizing. \<open>find_free\<close> is the search for an empty bucket in the new flags, \<open>kick_loop\<close> the
  \<^verbatim>\<open>while (1)\<close> loop that moves one entry and those it kicks out, \<open>rehash_loop\<close> the loop over the
  old buckets.\<close>

fun find_free :: "khint list \<Rightarrow> khint \<Rightarrow> khint \<Rightarrow> nat \<Rightarrow> khint \<Rightarrow> khint res" where
  "find_free nf msk inc 0 i = Inl Diverges"
| "find_free nf msk inc (Suc f) i = bindE (ac_isempty nf i) (\<lambda>e.
     if e then Inr i else find_free nf msk inc f ((i + inc) AND msk))"

definition set_entry :: "khint \<Rightarrow> 'k \<Rightarrow> 'v option \<Rightarrow> ('k, 'v) kh \<Rightarrow> ('k, 'v) kh res" where
  "set_entry i key val h =
     bindE (arr_set (kkeys h) (unat i) (Some key)) (\<lambda>ks.
     bindE (arr_set (kvals h) (unat i) val) (\<lambda>vs. Inr (h\<lparr>kkeys := ks, kvals := vs\<rparr>)))"

fun kick_loop :: "('k \<Rightarrow> khint) \<Rightarrow> khint \<Rightarrow> nat \<Rightarrow> 'k \<Rightarrow> 'v option \<Rightarrow> ('k, 'v) kh \<Rightarrow> khint list
    \<Rightarrow> (('k, 'v) kh \<times> khint list) res" where
  "kick_loop hash msk 0 key val h nf = Inl Diverges"
| "kick_loop hash msk (Suc f) key val h nf =
     (let k = hash key; inc = ac_inc k msk in
     bindE (find_free nf msk inc (Suc (unat msk)) (k AND msk)) (\<lambda>i.
     bindE (ac_set_isempty_false nf i) (\<lambda>nf.
     bindE (if i < n_buckets h then ac_iseither (kflags h) i else Inr True) (\<lambda>free_there.
     if \<not> free_there then
       bindE (key_at h i) (\<lambda>key'.
       bindE (arr_get (kvals h) (unat i)) (\<lambda>val'.
       bindE (set_entry i key val h) (\<lambda>h.
       bindE (ac_set_isdel_true (kflags h) i) (\<lambda>fl.
         kick_loop hash msk f key' val' (h\<lparr>kflags := fl\<rparr>) nf))))
     else bindE (set_entry i key val h) (\<lambda>h. Inr (h, nf))))))"

fun rehash_loop :: "('k \<Rightarrow> khint) \<Rightarrow> khint \<Rightarrow> nat \<Rightarrow> khint \<Rightarrow> ('k, 'v) kh \<Rightarrow> khint list
    \<Rightarrow> (('k, 'v) kh \<times> khint list) res" where
  "rehash_loop hash msk 0 j h nf = Inl Diverges"
| "rehash_loop hash msk (Suc f) j h nf =
     (if j = n_buckets h then Inr (h, nf) else
      bindE (ac_iseither (kflags h) j) (\<lambda>d.
      if d then rehash_loop hash msk f (j + 1) h nf else
      bindE (key_at h j) (\<lambda>key.
      bindE (arr_get (kvals h) (unat j)) (\<lambda>val.
      bindE (ac_set_isdel_true (kflags h) j) (\<lambda>fl.
      bindE (kick_loop hash msk (Suc (unat (n_buckets h))) key val (h\<lparr>kflags := fl\<rparr>) nf) (\<lambda>(h, nf).
      rehash_loop hash msk f (j + 1) h nf))))))"

text \<open>An array of \<open>n\<close> elements of \<open>esz\<close> bytes. When the number of bytes is negative as an \<^verbatim>\<open>int\<close>, \<^verbatim>\<open>realloc\<close> fails and the null
  pointer takes the place of the array.\<close>

definition grow_arr :: "'a option list \<Rightarrow> nat \<Rightarrow> 'a option list" where
  "grow_arr xs n = take n xs @ replicate (n - length xs) None"

definition realloc_arr :: "nat \<Rightarrow> 'a option list \<Rightarrow> nat \<Rightarrow> 'a option list" where
  "realloc_arr esz xs n = (case array_room esz (int n) of None \<Rightarrow> [] | Some k \<Rightarrow> grow_arr xs k)"

definition realloc_kh :: "nat \<Rightarrow> khint \<Rightarrow> ('k, 'v) kh \<Rightarrow> ('k, 'v) kh" where
  "realloc_kh kb n h = h\<lparr>kkeys := realloc_arr kb (kkeys h) (unat n), kvals := realloc_arr 8 (kvals h) (unat n)\<rparr>"

definition kh_resize_A :: "nat \<Rightarrow> ('k \<Rightarrow> khint) \<Rightarrow> ('k, 'v) kh \<Rightarrow> khint \<Rightarrow> ('k, 'v) kh res" where
  "kh_resize_A kb hash h req =
     (let r = kroundup32 req; n' = (if r < 4 then 4 else r) in
      if hash_upper n' \<le> ksize h then Inr h else
      let nf = new_flags_for n'; h = (if n_buckets h < n' then realloc_kh kb n' h else h) in
      bindE (rehash_loop hash (n' - 1) (Suc (unat (n_buckets h))) 0 h nf) (\<lambda>(h, nf).
      let h = (if n' < n_buckets h then realloc_kh kb n' h else h) in
      Inr (h\<lparr>kflags := nf, n_buckets := n', n_occupied := ksize h, upper_bound := hash_upper n'\<rparr>)))"

fun put_loop :: "('k \<Rightarrow> 'k \<Rightarrow> bool) \<Rightarrow> ('k, 'v) kh \<Rightarrow> 'k \<Rightarrow> khint \<Rightarrow> khint \<Rightarrow> nat \<Rightarrow> khint \<Rightarrow> khint
    \<Rightarrow> (khint \<times> khint \<times> khint) res" where
  "put_loop eq h key inc start 0 i site = Inl Diverges"
| "put_loop eq h key inc start (Suc f) i site = bindE (probe_on eq h key i) (\<lambda>go.
     if go then
       bindE (ac_isdel (kflags h) i) (\<lambda>d.
       let site = (if d then i else site); i = (i + inc) AND (n_buckets h - 1)
       in if i = start then Inr (site, i, site) else put_loop eq h key inc start f i site)
     else Inr (n_buckets h, i, site))"

definition put_place :: "('k \<Rightarrow> khint) \<Rightarrow> ('k \<Rightarrow> 'k \<Rightarrow> bool) \<Rightarrow> ('k, 'v) kh \<Rightarrow> 'k \<Rightarrow> khint res" where
  "put_place hash eq h key =
     (let n = n_buckets h; msk = n - 1; k = hash key; i = k AND msk in
      bindE (ac_isempty (kflags h) i) (\<lambda>e. if e then Inr i else
      bindE (put_loop eq h key (ac_inc k msk) i (Suc (unat n)) i n) (\<lambda>(x, i, site).
      if x = n then bindE (ac_isempty (kflags h) i) (\<lambda>e. Inr (if e \<and> site \<noteq> n then site else i))
      else Inr x)))"

definition put_key :: "('k, 'v) kh \<Rightarrow> khint \<Rightarrow> 'k \<Rightarrow> ('k, 'v) kh res" where
  "put_key h x key = bindE (arr_set (kkeys h) (unat x) (Some key)) (\<lambda>ks.
     bindE (ac_set_isboth_false (kflags h) x) (\<lambda>fl. Inr (h\<lparr>kkeys := ks, kflags := fl\<rparr>)))"

definition put_fill :: "('k, 'v) kh \<Rightarrow> 'k \<Rightarrow> khint \<Rightarrow> (khint \<times> int \<times> ('k, 'v) kh) res" where
  "put_fill h key x =
     bindE (ac_isempty (kflags h) x) (\<lambda>e. if e then
       bindE (put_key h x key) (\<lambda>h. Inr (x, 1, h\<lparr>ksize := ksize h + 1, n_occupied := n_occupied h + 1\<rparr>))
     else bindE (ac_isdel (kflags h) x) (\<lambda>d. if d then
       bindE (put_key h x key) (\<lambda>h. Inr (x, 2, h\<lparr>ksize := ksize h + 1\<rparr>))
     else Inr (x, 0, h)))"

definition put_room :: "nat \<Rightarrow> ('k \<Rightarrow> khint) \<Rightarrow> ('k, 'v) kh \<Rightarrow> ('k, 'v) kh res" where
  "put_room kb hash h = (if upper_bound h \<le> n_occupied h then
     (if push_bit 1 (ksize h) < n_buckets h then kh_resize_A kb hash h (n_buckets h - 1)
      else kh_resize_A kb hash h (n_buckets h + 1)) else Inr h)"

definition kh_put_A :: "nat \<Rightarrow> ('k \<Rightarrow> khint) \<Rightarrow> ('k \<Rightarrow> 'k \<Rightarrow> bool) \<Rightarrow> ('k, 'v) kh \<Rightarrow> 'k
    \<Rightarrow> (khint \<times> int \<times> ('k, 'v) kh) res" where
  "kh_put_A kb hash eq h key = bindE (put_room kb hash h) (\<lambda>h.
     bindE (put_place hash eq h key) (put_fill h key))"

definition kh_del_A :: "('k, 'v) kh \<Rightarrow> khint \<Rightarrow> ('k, 'v) kh res" where
  "kh_del_A h x = (if x \<noteq> n_buckets h then
     bindE (ac_iseither (kflags h) x) (\<lambda>d. if d then Inr h else
     bindE (ac_set_isdel_true (kflags h) x) (\<lambda>fl. Inr (h\<lparr>kflags := fl, ksize := ksize h - 1\<rparr>)))
     else Inr h)"

end
