(* ===== verification/TW_KHashInv.thy ===== *)
theory TW_KHashInv
  imports TW_KHash
begin

unbundle bit_operations_syntax

text \<open>
  The invariant of the hash table, and the search of kh_get_A against its reference definition: a
  linear search of the key array.
\<close>

section \<open>The path of a key\<close>

text \<open>A table with buckets has a power of two of them, at least 4.\<close>

definition pow2 :: "khint \<Rightarrow> bool" where
  "pow2 n \<longleftrightarrow> (\<exists>m. 2 \<le> m \<and> m < 32 \<and> unat n = 2 ^ m)"

text \<open>The bucket that the search for a key looks at in step \<open>t\<close>.\<close>

definition path :: "('k \<Rightarrow> khint) \<Rightarrow> khint \<Rightarrow> 'k \<Rightarrow> nat \<Rightarrow> nat" where
  "path hash n k t = probe (unat n) (unat (hash k AND (n - 1))) (unat (ac_inc (hash k) (n - 1))) t"

lemma pow2_pos: "pow2 n \<Longrightarrow> 4 \<le> unat n"
proof -
  assume "pow2 n"
  then obtain m where m: "2 \<le> m" "unat n = 2 ^ m" unfolding pow2_def by blast
  then have "(2 :: nat) ^ 2 \<le> 2 ^ m" by (intro power_increasing) simp_all
  then show ?thesis using m(2) by simp
qed

lemma pow2_ne: "pow2 n \<Longrightarrow> n \<noteq> 0"
  using pow2_pos [of n] by auto

lemma pow2_exp:
  assumes "pow2 n"
  obtains m where "2 \<le> m" "0 < m" "m < 32" "unat n = 2 ^ m"
  using assms that unfolding pow2_def by (metis less_le_trans zero_less_numeral)

lemma path_less: "pow2 n \<Longrightarrow> path hash n k t < unat n"
  unfolding path_def using pow2_pos [of n] by (intro probe_less) simp

lemma path_start: "pow2 n \<Longrightarrow> path hash n k 0 = unat (hash k AND (n - 1))"
  unfolding path_def by (erule pow2_exp) (simp add: probe_0 and_mask_less)

lemma path_step:
  "pow2 n \<Longrightarrow> unat i = path hash n k t \<Longrightarrow>
     unat ((i + ac_inc (hash k) (n - 1)) AND (n - 1)) = path hash n k (Suc t)"
  unfolding path_def by (erule pow2_exp) (simp add: step_mask probe_Suc)

lemma path_inj:
  assumes "pow2 n" and "s < unat n" and "t < unat n" and "path hash n k s = path hash n k t"
  shows "s = t"
proof -
  obtain m where m: "0 < m" "m < 32" "unat n = 2 ^ m" using assms(1) by (rule pow2_exp)
  show ?thesis
    using inj_onD [OF probe_inj [OF ac_inc_odd [OF m(3,1,2)]]] m(3) assms(2-4)
    unfolding path_def by simp
qed

lemma path_surj:
  assumes "pow2 n" and "p < unat n"
  obtains t where "t < unat n" and "path hash n k t = p"
proof -
  obtain m where m: "0 < m" "m < 32" "unat n = 2 ^ m" using assms(1) by (rule pow2_exp)
  then show ?thesis
    using probe_surj [OF ac_inc_odd [OF m(3,1,2)], of p] assms(2) that unfolding path_def by metis
qed

lemma path_full: "path hash n k (unat n) = path hash n k 0"
  unfolding path_def probe_def by simp

lemma path_wrap:
  "pow2 n \<Longrightarrow> 0 < t \<Longrightarrow> t \<le> unat n \<Longrightarrow> (path hash n k t = path hash n k 0) = (t = unat n)"
  using path_inj [of n t 0 hash k] path_full by (cases "t = unat n") (auto simp: path_full)

section \<open>The invariant\<close>

text \<open>\<open>reaches\<close>: bucket \<open>i\<close> is on the path of the key, and the search gets to it over buckets of \<open>N\<close>.\<close>

definition reaches :: "('k \<Rightarrow> khint) \<Rightarrow> khint \<Rightarrow> nat set \<Rightarrow> nat \<Rightarrow> 'k \<Rightarrow> bool" where
  "reaches hash n N i k \<longleftrightarrow> (\<exists>t<unat n. path hash n k t = i \<and> (\<forall>s<t. path hash n k s \<in> N))"

lemma reaches_mono: "reaches hash n N i k \<Longrightarrow> N \<subseteq> N' \<Longrightarrow> reaches hash n N' i k"
  unfolding reaches_def by blast

definition used_set :: "('k, 'v) kh \<Rightarrow> nat set" where
  "used_set h = {i. i < unat (n_buckets h) \<and> is_used (kflags h) i}"

definition occ_set :: "('k, 'v) kh \<Rightarrow> nat set" where
  "occ_set h = {i. i < unat (n_buckets h) \<and> \<not> is_empty (kflags h) i}"

lemma used_occ: "used_set h \<subseteq> occ_set h"
  by (auto simp: used_set_def occ_set_def is_used_def)

lemma finite_sets [simp]: "finite (used_set h)" "finite (occ_set h)"
  by (auto simp: used_set_def occ_set_def)

lemma occ_less: "i \<in> occ_set h \<Longrightarrow> i < unat (n_buckets h)"
  and used_less: "i \<in> used_set h \<Longrightarrow> i < unat (n_buckets h)"
  by (auto simp: used_set_def occ_set_def)

text \<open>The arrays have a place for every bucket.\<close>

definition kh_arrays :: "('k, 'v) kh \<Rightarrow> bool" where
  "kh_arrays h \<longleftrightarrow> pow2 (n_buckets h) \<and> length (kflags h) = unat (ac_fsize (n_buckets h))
     \<and> length (kkeys h) = unat (n_buckets h) \<and> length (kvals h) = unat (n_buckets h)"

text \<open>Every used bucket has a key that is found there, and no two have the same key.\<close>

definition kh_keys_ok :: "('k \<Rightarrow> khint) \<Rightarrow> ('k \<Rightarrow> 'k \<Rightarrow> bool) \<Rightarrow> ('k, 'v) kh \<Rightarrow> bool" where
  "kh_keys_ok hash eq h \<longleftrightarrow>
     (\<forall>i\<in>used_set h. \<exists>k. kkeys h ! i = Some k \<and> reaches hash (n_buckets h) (occ_set h) i k)
   \<and> (\<forall>i\<in>used_set h. \<forall>j\<in>used_set h. \<forall>k l. kkeys h ! i = Some k \<longrightarrow> kkeys h ! j = Some l \<longrightarrow> eq k l \<longrightarrow> i = j)"

definition kh_counts :: "('k, 'v) kh \<Rightarrow> bool" where
  "kh_counts h \<longleftrightarrow> unat (ksize h) = card (used_set h) \<and> unat (n_occupied h) = card (occ_set h)
     \<and> upper_bound h = hash_upper (n_buckets h) \<and> n_occupied h \<le> upper_bound h"

definition kh_ok :: "('k \<Rightarrow> khint) \<Rightarrow> ('k \<Rightarrow> 'k \<Rightarrow> bool) \<Rightarrow> ('k, 'v) kh \<Rightarrow> bool" where
  "kh_ok hash eq h \<longleftrightarrow> h = kh_init_A \<or> (kh_arrays h \<and> kh_keys_ok hash eq h \<and> kh_counts h)"

lemma kh_ok_cases:
  assumes "kh_ok hash eq h"
  obtains "h = kh_init_A" | "kh_arrays h" "kh_keys_ok hash eq h" "kh_counts h"
  using assms unfolding kh_ok_def by blast

lemma kh_flags_for: "kh_arrays h \<Longrightarrow> flags_for (kflags h) (unat (n_buckets h))"
  unfolding kh_arrays_def flags_for_def pow2_def using ac_fsize_covers by metis

lemma hash_upper_less: "pow2 n \<Longrightarrow> unat (hash_upper n) < unat n"
proof -
  assume "pow2 n"
  then have "4 \<le> unat n" by (rule pow2_pos)
  then have lt: "(unat n * 77 + 50) div 100 < unat n" by simp
  moreover have "unat n < 2 ^ LENGTH(32)" by (rule unsigned_less)
  ultimately show ?thesis unfolding hash_upper_def unat_of_nat by simp
qed

text \<open>So some bucket is empty, and a search ends there at the latest.\<close>

lemma some_empty:
  assumes "pow2 (n_buckets h)" and "kh_counts h"
  obtains i where "i < unat (n_buckets h)" and "i \<notin> occ_set h"
proof -
  have "card (occ_set h) < unat (n_buckets h)"
    using assms hash_upper_less [OF assms(1)] unfolding kh_counts_def word_le_nat_alt by auto
  then have "\<not> {..<unat (n_buckets h)} \<subseteq> occ_set h"
    using card_mono [of "occ_set h" "{..<unat (n_buckets h)}"] by auto
  then show ?thesis using that by blast
qed

section \<open>What the search finds\<close>

text \<open>The bucket that holds the key: the reference definition, which looks at every bucket.\<close>

definition bucket_of :: "('k \<Rightarrow> 'k \<Rightarrow> bool) \<Rightarrow> ('k, 'v) kh \<Rightarrow> 'k \<Rightarrow> nat option" where
  "bucket_of eq h key = find (\<lambda>i. is_used (kflags h) i
     \<and> (case kkeys h ! i of Some k \<Rightarrow> eq k key | None \<Rightarrow> False)) [0..<unat (n_buckets h)]"

text \<open>The search loops stop at an empty bucket, and at a used one with the key.\<close>

definition stops :: "('k \<Rightarrow> 'k \<Rightarrow> bool) \<Rightarrow> ('k, 'v) kh \<Rightarrow> 'k \<Rightarrow> nat \<Rightarrow> bool" where
  "stops eq h key i \<longleftrightarrow> i \<notin> occ_set h \<or> i \<in> used_set h \<and> (\<exists>k. kkeys h ! i = Some k \<and> eq k key)"

lemma keys_Some: "kh_keys_ok hash eq h \<Longrightarrow> i \<in> used_set h \<Longrightarrow> \<exists>k. kkeys h ! i = Some k"
  unfolding kh_keys_ok_def by blast

lemma key_at_eq:
  "kh_arrays h \<Longrightarrow> unat i < unat (n_buckets h) \<Longrightarrow> kkeys h ! unat i = Some k \<Longrightarrow> key_at h i = Inr k"
  unfolding kh_arrays_def key_at_def by simp

lemma probe_on_eq:
  assumes "kh_arrays h" and "kh_keys_ok hash eq h" and i: "unat i < unat (n_buckets h)"
  shows "probe_on eq h key i = Inr (\<not> stops eq h key (unat i))"
proof -
  note f = ac_isempty_eq [OF kh_flags_for [OF assms(1)] i] ac_isdel_eq [OF kh_flags_for [OF assms(1)] i]
  show ?thesis
  proof (cases "unat i \<in> used_set h")
    case True
    then obtain k where "kkeys h ! unat i = Some k" using keys_Some [OF assms(2)] by blast
    moreover have "unat i \<in> occ_set h" using True used_occ by blast
    ultimately show ?thesis
      using True i key_at_eq [OF assms(1) i] f
      by (simp add: probe_on_def stops_def used_set_def is_used_def)
  next
    case False
    then show ?thesis using i f
      by (auto simp: probe_on_def stops_def used_set_def occ_set_def is_used_def)
  qed
qed

lemma get_loop_stops:
  assumes "kh_arrays h" and "kh_keys_ok hash eq h" and "T < unat (n_buckets h)"
    and "stops eq h key (path hash (n_buckets h) k T)"
  shows "t \<le> T \<Longrightarrow> (\<forall>s. t \<le> s \<longrightarrow> s < T \<longrightarrow> \<not> stops eq h key (path hash (n_buckets h) k s)) \<Longrightarrow>
    unat i = path hash (n_buckets h) k t \<Longrightarrow> unat start = path hash (n_buckets h) k 0 \<Longrightarrow> T < f + t \<Longrightarrow>
    get_loop eq h key (ac_inc (hash k) (n_buckets h - 1)) start f i =
      Inr (if path hash (n_buckets h) k T \<in> used_set h then of_nat (path hash (n_buckets h) k T) else n_buckets h)"
proof (induction f arbitrary: i t)
  case 0
  then show ?case by simp
next
  case (Suc f)
  let ?n = "n_buckets h" and ?p = "path hash (n_buckets h) k"
  have p2: "pow2 ?n" using assms(1) unfolding kh_arrays_def by blast
  have i: "unat i < unat ?n" using path_less [OF p2] Suc.prems(3) by simp
  note on = probe_on_eq [OF assms(1,2) i, of key]
  note ei = ac_iseither_eq [OF kh_flags_for [OF assms(1)] i]
  show ?case
  proof (cases "t = T")
    case True
    have "of_nat (?p T) = i" using Suc.prems(3) True by (metis of_nat_unat ucast_id)
    then show ?thesis using True assms(4) Suc.prems(3) on ei i by (simp add: used_set_def)
  next
    case False
    then have t: "t < T" using Suc.prems(1) by simp
    then have "\<not> stops eq h key (unat i)" using Suc.prems(2,3) by simp
    moreover have step: "unat ((i + ac_inc (hash k) (?n - 1)) AND (?n - 1)) = ?p (Suc t)"
      by (rule path_step [OF p2 Suc.prems(3)])
    moreover have "(i + ac_inc (hash k) (?n - 1)) AND (?n - 1) \<noteq> start"
    proof
      assume "(i + ac_inc (hash k) (?n - 1)) AND (?n - 1) = start"
      then have "?p (Suc t) = ?p 0" using step Suc.prems(4) by simp
      then show False using path_wrap [OF p2, of "Suc t" hash k] t assms(3) by simp
    qed
    ultimately show ?thesis
      using on Suc.IH [of "Suc t", OF _ _ step Suc.prems(4)] t Suc.prems(2,5) by simp
  qed
qed

lemma key_reaches:
  assumes "kh_keys_ok hash eq h" and "i \<in> used_set h" and "kkeys h ! i = Some k"
  shows "reaches hash (n_buckets h) (occ_set h) i k"
proof -
  obtain k' where k': "kkeys h ! i = Some k'" "reaches hash (n_buckets h) (occ_set h) i k'"
    using assms(1,2) unfolding kh_keys_ok_def by blast
  then show ?thesis using assms(3) by simp
qed

text \<open>The laws of the hash function and the equality of the keys.\<close>

locale hashing =
  fixes hash :: "'k \<Rightarrow> khint" and eq :: "'k \<Rightarrow> 'k \<Rightarrow> bool"
  assumes eq_refl: "eq k k"
    and eq_sym: "eq k l \<Longrightarrow> eq l k"
    and eq_trans: "eq k l \<Longrightarrow> eq l m \<Longrightarrow> eq k m"
    and eq_hash: "eq k l \<Longrightarrow> hash k = hash l"
begin

lemma reaches_eq: "eq k l \<Longrightarrow> reaches hash n N i k = reaches hash n N i l"
  unfolding reaches_def path_def by (simp add: eq_hash)

lemma key_unique:
  assumes "kh_keys_ok hash eq h" and "i \<in> used_set h" and "j \<in> used_set h"
    and "kkeys h ! i = Some k" and "kkeys h ! j = Some l" and "eq k key" and "eq l key"
  shows "i = j"
  using assms eq_trans [OF assms(6) eq_sym [OF assms(7)]] unfolding kh_keys_ok_def by blast

lemma bucket_of_iff:
  assumes "kh_keys_ok hash eq h"
  shows "bucket_of eq h key = Some i \<longleftrightarrow> i \<in> used_set h \<and> (\<exists>k. kkeys h ! i = Some k \<and> eq k key)"
    (is "_ \<longleftrightarrow> ?P i")
proof -
  let ?Q = "\<lambda>i. is_used (kflags h) i \<and> (case kkeys h ! i of Some k \<Rightarrow> eq k key | None \<Rightarrow> False)"
  have Q: "?P i \<longleftrightarrow> i < unat (n_buckets h) \<and> ?Q i" for i
    by (auto simp: used_set_def split: option.splits)
  show ?thesis
  proof
    assume "bucket_of eq h key = Some i"
    then show "?P i" unfolding bucket_of_def Q by (auto simp: find_Some_iff)
  next
    assume P: "?P i"
    then have "find ?Q [0..<unat (n_buckets h)] \<noteq> None"
      unfolding find_None_iff Q by auto
    then obtain j where j: "bucket_of eq h key = Some j" unfolding bucket_of_def by blast
    then have "?P j" unfolding bucket_of_def Q by (auto simp: find_Some_iff)
    then have "i = j" using key_unique [OF assms] P by blast
    then show "bucket_of eq h key = Some i" using j by simp
  qed
qed

lemma bucket_of_None_iff:
  assumes "kh_keys_ok hash eq h"
  shows "bucket_of eq h key = None \<longleftrightarrow> (\<forall>i\<in>used_set h. \<forall>k. kkeys h ! i = Some k \<longrightarrow> \<not> eq k key)"
proof -
  have "bucket_of eq h key = None \<longleftrightarrow> (\<forall>i. bucket_of eq h key \<noteq> Some i)"
    by (cases "bucket_of eq h key") simp_all
  also have "\<dots> \<longleftrightarrow> (\<forall>i\<in>used_set h. \<forall>k. kkeys h ! i = Some k \<longrightarrow> \<not> eq k key)"
    unfolding bucket_of_iff [OF assms] by blast
  finally show ?thesis .
qed

lemma first_stop:
  assumes "kh_arrays h" and "kh_counts h"
  obtains T where "T < unat (n_buckets h)" "stops eq h key (path hash (n_buckets h) key T)"
    "\<And>s. s < T \<Longrightarrow> \<not> stops eq h key (path hash (n_buckets h) key s)"
proof -
  let ?P = "\<lambda>t. t < unat (n_buckets h) \<and> stops eq h key (path hash (n_buckets h) key t)"
  have p2: "pow2 (n_buckets h)" using assms(1) unfolding kh_arrays_def by blast
  obtain p where "p < unat (n_buckets h)" "p \<notin> occ_set h" by (rule some_empty [OF p2 assms(2)])
  moreover obtain t where "t < unat (n_buckets h)" "path hash (n_buckets h) key t = p"
    by (rule path_surj [OF p2 calculation(1)])
  ultimately have ex: "?P t" by (simp add: stops_def)
  show ?thesis
  proof (rule that [of "LEAST t. ?P t"])
    show "(LEAST t. ?P t) < unat (n_buckets h)"
      "stops eq h key (path hash (n_buckets h) key (LEAST t. ?P t))"
      using LeastI [of ?P, OF ex] by simp_all
    show "\<not> stops eq h key (path hash (n_buckets h) key s)" if "s < (LEAST t. ?P t)" for s
      using that not_less_Least [OF that] Least_le [of ?P, OF ex] ex by auto
  qed
qed

text \<open>The first stop of the search for a key is its bucket, when it has one.\<close>

lemma stop_at_bucket:
  assumes "kh_arrays h" and "kh_keys_ok hash eq h" and T: "T < unat (n_buckets h)"
    and st: "stops eq h key (path hash (n_buckets h) key T)"
    and no: "\<And>s. s < T \<Longrightarrow> \<not> stops eq h key (path hash (n_buckets h) key s)"
  shows "bucket_of eq h key =
    (if path hash (n_buckets h) key T \<in> used_set h then Some (path hash (n_buckets h) key T) else None)"
proof -
  let ?p = "path hash (n_buckets h) key"
  have p2: "pow2 (n_buckets h)" using assms(1) unfolding kh_arrays_def by blast
  have at: "?p T = i" if b: "bucket_of eq h key = Some i" for i
  proof -
    obtain k where i: "i \<in> used_set h" "kkeys h ! i = Some k" "eq k key"
      using b unfolding bucket_of_iff [OF assms(2)] by blast
    have "reaches hash (n_buckets h) (occ_set h) i key"
      using key_reaches [OF assms(2) i(1,2)] reaches_eq [OF i(3)] by blast
    then obtain t where t: "t < unat (n_buckets h)" "?p t = i" "\<forall>s<t. ?p s \<in> occ_set h"
      unfolding reaches_def by blast
    have "stops eq h key (?p t)" using t(2) i by (auto simp: stops_def)
    then have "T \<le> t" using no not_less by blast
    moreover have "\<not> T < t"
    proof
      assume "T < t"
      then have "?p T \<in> used_set h" "\<exists>k. kkeys h ! ?p T = Some k \<and> eq k key"
        using st t(3) unfolding stops_def by blast+
      then have "?p T = ?p t" using key_unique [OF assms(2) _ i(1) _ i(2) _ i(3)] t(2) by blast
      then have "T = t" by (rule path_inj [OF p2 T t(1)])
      then show False using \<open>T < t\<close> by simp
    qed
    ultimately show ?thesis using t(2) by simp
  qed
  show ?thesis
  proof (cases "bucket_of eq h key")
    case None
    have "?p T \<notin> used_set h"
    proof
      assume u: "?p T \<in> used_set h"
      then have "\<exists>k. kkeys h ! ?p T = Some k \<and> eq k key"
        using st used_occ unfolding stops_def by blast
      then show False using u None unfolding bucket_of_None_iff [OF assms(2)] by blast
    qed
    then show ?thesis using None by simp
  next
    case (Some i)
    then have "i \<in> used_set h" unfolding bucket_of_iff [OF assms(2)] by blast
    then show ?thesis using Some at [OF Some] by simp
  qed
qed

lemma bucket_of_init [simp]: "bucket_of eq kh_init_A key = None"
  by (simp add: bucket_of_def kh_init_A_def)

theorem get_is_bucket_of:
  assumes "kh_ok hash eq h"
  shows "kh_get_A hash eq h key =
    Inr (case bucket_of eq h key of None \<Rightarrow> n_buckets h | Some i \<Rightarrow> of_nat i)"
  using assms
proof (cases rule: kh_ok_cases)
  case 1
  then show ?thesis by (simp add: kh_get_A_def) (simp add: kh_init_A_def)
next
  case 2
  have p2: "pow2 (n_buckets h)" using 2(1) unfolding kh_arrays_def by blast
  obtain T where T: "T < unat (n_buckets h)" "stops eq h key (path hash (n_buckets h) key T)"
    "\<And>s. s < T \<Longrightarrow> \<not> stops eq h key (path hash (n_buckets h) key s)"
    using first_stop [OF 2(1,3)] by blast
  note b = stop_at_bucket [OF 2(1,2) T]
  have "kh_get_A hash eq h key = Inr (if path hash (n_buckets h) key T \<in> used_set h
      then of_nat (path hash (n_buckets h) key T) else n_buckets h)"
    unfolding kh_get_A_def Let_def using pow2_ne [OF p2] T(1)
    by (simp add: get_loop_stops [OF 2(1,2) T(1,2), where t = 0] T(3) path_start [OF p2] del: get_loop.simps)
  then show ?thesis using b by simp
qed

end

end
