(* ===== verification/TW_KHashPut.thy ===== *)
theory TW_KHashPut
  imports TW_KHashInv
begin

unbundle bit_operations_syntax

text \<open>
  kh_put_A in a table with room, kh_del_A and kh_clear_A: what they do to the used buckets, and
  that they keep the invariant.
\<close>

section \<open>The flags after a change\<close>

lemma used_after:
  assumes "i div 16 < length fl"
  shows "is_used (clear_both fl i) j = (is_used fl j \<or> j = i)"
    and "is_used (mark_del fl i) j = (is_used fl j \<and> j \<noteq> i)"
    and "is_used (clear_empty fl i) j = (is_used fl j \<or> j = i \<and> \<not> is_del fl i)"
  using flags_after [OF assms] unfolding is_used_def by auto

lemma length_flags_after [simp]:
  "length (clear_empty fl i) = length fl" "length (clear_both fl i) = length fl"
  "length (mark_del fl i) = length fl"
  by (simp_all add: clear_empty_def clear_both_def mark_del_def)

lemma arrays_word: "kh_arrays h \<Longrightarrow> i < unat (n_buckets h) \<Longrightarrow> i div 16 < length (kflags h)"
  using kh_flags_for [of h] unfolding flags_for_def by simp

lemma arrays_pow2: "kh_arrays h \<Longrightarrow> pow2 (n_buckets h)"
  by (simp add: kh_arrays_def)

section \<open>Storing a value\<close>

text \<open>\<^verbatim>\<open>kh_value(h, x) = v\<close>.\<close>

definition set_val :: "nat \<Rightarrow> 'v option \<Rightarrow> ('k, 'v) kh \<Rightarrow> ('k, 'v) kh" where
  "set_val i v h = h\<lparr>kvals := (kvals h)[i := v]\<rparr>"

lemma set_val_simps [simp]:
  "n_buckets (set_val i v h) = n_buckets h" "ksize (set_val i v h) = ksize h"
  "kflags (set_val i v h) = kflags h" "kkeys (set_val i v h) = kkeys h"
  "used_set (set_val i v h) = used_set h" "occ_set (set_val i v h) = occ_set h"
  "bucket_of eq (set_val i v h) key = bucket_of eq h key"
  "kvals (set_val i v h) = (kvals h)[i := v]"
  by (simp_all add: set_val_def used_set_def occ_set_def bucket_of_def)

lemma set_val_ok: "kh_ok hash eq h \<Longrightarrow> kh_ok hash eq (set_val i v h)"
proof (erule kh_ok_cases)
  assume "h = kh_init_A"
  then show ?thesis by (simp add: kh_ok_def set_val_def kh_init_A_def)
next
  assume "kh_arrays h" "kh_keys_ok hash eq h" "kh_counts h"
  then have "kh_arrays (set_val i v h)" "kh_keys_ok hash eq (set_val i v h)" "kh_counts (set_val i v h)"
    unfolding kh_arrays_def kh_keys_ok_def kh_counts_def by (simp_all add: set_val_def used_set_def occ_set_def) auto
  then show ?thesis unfolding kh_ok_def by blast
qed

section \<open>Deleting\<close>

definition del_bucket :: "nat \<Rightarrow> ('k, 'v) kh \<Rightarrow> ('k, 'v) kh" where
  "del_bucket i h = h\<lparr>kflags := mark_del (kflags h) i, ksize := ksize h - 1\<rparr>"

lemma kh_del_used:
  assumes "kh_arrays h" and "unat x \<in> used_set h"
  shows "kh_del_A h x = Inr (del_bucket (unat x) h)"
proof -
  have x: "unat x < unat (n_buckets h)" using assms(2) by (rule used_less)
  then have "x \<noteq> n_buckets h" by auto
  then show ?thesis
    using ac_iseither_eq [OF kh_flags_for [OF assms(1)] x]
      ac_set_isdel_true_eq [OF kh_flags_for [OF assms(1)] x] assms(2)
    by (simp add: kh_del_A_def del_bucket_def used_set_def)
qed

lemma del_bucket_sets:
  assumes "kh_arrays h" and "i \<in> used_set h"
  shows "used_set (del_bucket i h) = used_set h - {i}" and "occ_set (del_bucket i h) = occ_set h"
  using used_after(2) [OF arrays_word [OF assms(1) used_less [OF assms(2)]]]
    flags_after(5) [OF arrays_word [OF assms(1) used_less [OF assms(2)]]]
  unfolding used_set_def occ_set_def del_bucket_def by auto

lemma del_bucket_ok:
  assumes "kh_arrays h" "kh_keys_ok hash eq h" "kh_counts h" and "i \<in> used_set h"
  shows "kh_arrays (del_bucket i h)" and "kh_keys_ok hash eq (del_bucket i h)"
    and "kh_counts (del_bucket i h)"
proof -
  note s = del_bucket_sets [OF assms(1,4)]
  have [simp]: "n_buckets (del_bucket i h) = n_buckets h" "kkeys (del_bucket i h) = kkeys h"
    "n_occupied (del_bucket i h) = n_occupied h" "upper_bound (del_bucket i h) = upper_bound h"
    by (simp_all add: del_bucket_def)
  show "kh_arrays (del_bucket i h)" using assms(1) by (simp add: kh_arrays_def del_bucket_def)
  show "kh_keys_ok hash eq (del_bucket i h)" using assms(2) unfolding kh_keys_ok_def s by simp
  have "0 < card (used_set h)" using assms(4) by (auto simp: card_gt_0_iff)
  then have "unat (ksize h - 1) = card (used_set h) - 1"
    using assms(3) unfolding kh_counts_def by (metis unat_gt_0 unat_minus_one word_gt_0 word_neq_0_conv)
  then show "kh_counts (del_bucket i h)"
    using assms(3,4) unfolding kh_counts_def s by (auto simp: del_bucket_def)
qed

section \<open>Putting a key into a free bucket\<close>

definition put_bucket :: "nat \<Rightarrow> 'k \<Rightarrow> ('k, 'v) kh \<Rightarrow> ('k, 'v) kh" where
  "put_bucket i key h = h\<lparr>kkeys := (kkeys h)[i := Some key], kflags := clear_both (kflags h) i,
     ksize := ksize h + 1, n_occupied := (if i \<in> occ_set h then n_occupied h else n_occupied h + 1)\<rparr>"

lemma put_bucket_simps [simp]:
  "n_buckets (put_bucket i key h) = n_buckets h" "upper_bound (put_bucket i key h) = upper_bound h"
  "kvals (put_bucket i key h) = kvals h" "kkeys (put_bucket i key h) = (kkeys h)[i := Some key]"
  "ksize (put_bucket i key h) = ksize h + 1"
  by (simp_all add: put_bucket_def)

lemma put_bucket_sets:
  assumes "kh_arrays h" and "i < unat (n_buckets h)"
  shows "used_set (put_bucket i key h) = insert i (used_set h)"
    and "occ_set (put_bucket i key h) = insert i (occ_set h)"
  using used_after(1) [OF arrays_word [OF assms]] flags_after(3) [OF arrays_word [OF assms]] assms(2)
  unfolding used_set_def occ_set_def put_bucket_def by auto

lemma put_fill_free:
  assumes "kh_arrays h" and "unat x < unat (n_buckets h)" and "unat x \<notin> used_set h"
  shows "put_fill h key x = Inr (x, if unat x \<in> occ_set h then 2 else 1, put_bucket (unat x) key h)"
proof -
  note f = ac_isempty_eq [OF kh_flags_for [OF assms(1)] assms(2)]
    ac_isdel_eq [OF kh_flags_for [OF assms(1)] assms(2)]
    ac_set_isboth_false_eq [OF kh_flags_for [OF assms(1)] assms(2)]
  show ?thesis using assms f
    by (auto simp: put_fill_def put_key_def put_bucket_def occ_set_def used_set_def is_used_def kh_arrays_def)
qed

lemma put_fill_used:
  assumes "kh_arrays h" and "unat x \<in> used_set h"
  shows "put_fill h key x = Inr (x, 0, h)"
  using ac_isempty_eq [OF kh_flags_for [OF assms(1)] used_less [OF assms(2)]]
    ac_isdel_eq [OF kh_flags_for [OF assms(1)] used_less [OF assms(2)]] assms(2)
  by (simp add: put_fill_def used_set_def is_used_def)

lemma card_le_buckets: "card (used_set h) \<le> unat (n_buckets h)" "card (occ_set h) \<le> unat (n_buckets h)"
proof -
  have "used_set h \<subseteq> {..<unat (n_buckets h)}" "occ_set h \<subseteq> {..<unat (n_buckets h)}"
    by (auto simp: used_set_def occ_set_def)
  then show "card (used_set h) \<le> unat (n_buckets h)" "card (occ_set h) \<le> unat (n_buckets h)"
    by (auto dest!: card_mono [rotated])
qed

lemma unat_plus_one: "unat (a :: khint) < unat (b :: khint) \<Longrightarrow> unat (a + 1) = Suc (unat a)"
proof -
  assume "unat a < unat b"
  moreover have "unat b < 2 ^ LENGTH(32)" by (rule unsigned_less)
  ultimately show ?thesis by (simp add: unat_word_ariths)
qed

text \<open>A key that the table does not have, put into a bucket of its path that is not used and that
  the search gets to.\<close>

lemma put_bucket_counts:
  assumes "kh_arrays h" "kh_counts h" and i: "i < unat (n_buckets h)" "i \<notin> used_set h"
    and room: "n_occupied h < upper_bound h"
  shows "kh_counts (put_bucket i key h)"
proof -
  note s = put_bucket_sets [OF assms(1) i(1)]
  have c: "unat (ksize h) = card (used_set h)" "unat (n_occupied h) = card (occ_set h)"
    "upper_bound h = hash_upper (n_buckets h)"
    using assms(2) unfolding kh_counts_def by simp_all
  have "unat (n_occupied h) < unat (upper_bound h)" using room by (simp add: word_less_nat_alt)
  moreover have "card (used_set h) \<le> card (occ_set h)" by (rule card_mono) (simp_all add: used_occ)
  ultimately have "unat (ksize h + 1) = Suc (unat (ksize h))"
    "unat (n_occupied h + 1) = Suc (unat (n_occupied h))"
    "unat (n_occupied h + 1) \<le> unat (upper_bound h)"
    using c unat_plus_one [of "ksize h" "upper_bound h"] unat_plus_one [of "n_occupied h" "upper_bound h"]
    by simp_all
  then show ?thesis using c i(2) room
    unfolding kh_counts_def s by (auto simp: put_bucket_def word_le_nat_alt insert_absorb)
qed

section \<open>Where a key is put\<close>

lemma unat_of_bucket: "i < unat (n :: khint) \<Longrightarrow> unat (of_nat i :: khint) = i"
proof -
  assume "i < unat n"
  moreover have "unat n < 2 ^ LENGTH(32)" by (rule unsigned_less)
  ultimately show ?thesis by (simp add: unat_of_nat)
qed

text \<open>The loop of kh_put_A remembers the last deleted bucket that it passed.\<close>

definition site_ok :: "('k \<Rightarrow> khint) \<Rightarrow> ('k, 'v) kh \<Rightarrow> 'k \<Rightarrow> nat \<Rightarrow> khint \<Rightarrow> bool" where
  "site_ok hash h k T site \<longleftrightarrow> site = n_buckets h
     \<or> (\<exists>s<T. unat site = path hash (n_buckets h) k s \<and> unat site \<in> occ_set h - used_set h)"

lemma put_loop_stops:
  assumes "kh_arrays h" and "kh_keys_ok hash eq h" and "T < unat (n_buckets h)"
    and "stops eq h key (path hash (n_buckets h) k T)"
  shows "t \<le> T \<Longrightarrow> (\<forall>s. t \<le> s \<longrightarrow> s < T \<longrightarrow> \<not> stops eq h key (path hash (n_buckets h) k s)) \<Longrightarrow>
    unat i = path hash (n_buckets h) k t \<Longrightarrow> unat start = path hash (n_buckets h) k 0 \<Longrightarrow> T < f + t \<Longrightarrow>
    site_ok hash h k t site \<Longrightarrow>
    \<exists>site'. put_loop eq h key (ac_inc (hash k) (n_buckets h - 1)) start f i site =
      Inr (n_buckets h, of_nat (path hash (n_buckets h) k T), site') \<and> site_ok hash h k T site'"
proof (induction f arbitrary: i t site)
  case 0
  then show ?case by simp
next
  case (Suc f)
  let ?n = "n_buckets h" and ?p = "path hash (n_buckets h) k"
  have p2: "pow2 ?n" by (rule arrays_pow2 [OF assms(1)])
  have i: "unat i < unat ?n" using path_less [OF p2] Suc.prems(3) by simp
  note on = probe_on_eq [OF assms(1,2) i, of key]
  show ?case
  proof (cases "t = T")
    case True
    have "of_nat (unat i) = i" by simp
    then have "of_nat (?p T) = i" using Suc.prems(3) True by simp
    then show ?thesis using True assms(4) Suc.prems(3,6) on by simp
  next
    case False
    then have t: "t < T" using Suc.prems(1) by simp
    then have ns: "\<not> stops eq h key (unat i)" using Suc.prems(2,3) by simp
    let ?i = "(i + ac_inc (hash k) (?n - 1)) AND (?n - 1)"
    let ?site = "if is_del (kflags h) (unat i) then i else site"
    have step: "unat ?i = ?p (Suc t)" by (rule path_step [OF p2 Suc.prems(3)])
    have ne: "?i \<noteq> start"
    proof
      assume "?i = start"
      then have "?p (Suc t) = ?p 0" using step Suc.prems(4) by simp
      then show False using path_wrap [OF p2, of "Suc t" hash k] t assms(3) by simp
    qed
    have "unat i \<in> occ_set h" using ns by (simp add: stops_def)
    then have "site_ok hash h k (Suc t) ?site"
      using Suc.prems(3,6) i unfolding site_ok_def used_set_def is_used_def
      by (auto simp: less_Suc_eq)
    then obtain site' where "put_loop eq h key (ac_inc (hash k) (?n - 1)) start f ?i ?site =
        Inr (?n, of_nat (?p T), site')" "site_ok hash h k T site'"
      using Suc.IH [of "Suc t" ?i ?site, OF _ _ step Suc.prems(4)] t Suc.prems(2,5) by auto
    then show ?thesis
      using on ns ne ac_isdel_eq [OF kh_flags_for [OF assms(1)] i] by (simp add: Let_def)
  qed
qed

context hashing begin

lemma put_place_ok:
  assumes "kh_arrays h" and "kh_keys_ok hash eq h" and "kh_counts h"
  obtains x where "put_place hash eq h key = Inr x" and "unat x < unat (n_buckets h)"
    and "\<And>i. bucket_of eq h key = Some i \<Longrightarrow> unat x = i"
    and "bucket_of eq h key = None \<Longrightarrow> unat x \<notin> used_set h \<and> reaches hash (n_buckets h) (occ_set h) (unat x) key"
proof -
  let ?n = "n_buckets h" and ?p = "path hash (n_buckets h) key"
  have p2: "pow2 ?n" by (rule arrays_pow2 [OF assms(1)])
  obtain T where T: "T < unat ?n" "stops eq h key (?p T)"
    "\<And>s. s < T \<Longrightarrow> \<not> stops eq h key (?p s)"
    using first_stop [OF assms(1,3)] by blast
  note b = stop_at_bucket [OF assms(1,2) T]
  have occ: "?p s \<in> occ_set h" if "s < T" for s using T(3) [OF that] by (simp add: stops_def)
  have reach: "reaches hash ?n (occ_set h) (?p s) key" if "s \<le> T" for s
    unfolding reaches_def using that T(1) occ by (intro exI [of _ s]) auto
  have lt: "?p s < unat ?n" for s by (rule path_less [OF p2])
  define i0 where "i0 = hash key AND (?n - 1)"
  have i0: "unat i0 = ?p 0" unfolding i0_def by (rule path_start [OF p2, symmetric])
  have e0: "ac_isempty (kflags h) i0 = Inr (?p 0 \<notin> occ_set h)"
    using ac_isempty_eq [OF kh_flags_for [OF assms(1)], of i0] lt [of 0] i0 by (simp add: occ_set_def)
  have unT: "unat (of_nat (?p T) :: khint) = ?p T"
    by (rule unat_of_bucket [OF lt])
  have eT: "ac_isempty (kflags h) (of_nat (?p T)) = Inr (?p T \<notin> occ_set h)"
    using ac_isempty_eq [OF kh_flags_for [OF assms(1)], of "of_nat (?p T)"] lt [of T] unT
    by (simp add: occ_set_def)
  show ?thesis
  proof (cases "?p 0 \<notin> occ_set h")
    case True
    then have "\<not> 0 < T" using occ by blast
    then have T0: "T = 0" by simp
    have "put_place hash eq h key = Inr i0"
      unfolding put_place_def Let_def i0_def [symmetric] using e0 True by simp
    then show ?thesis
    proof (rule that)
      show "unat i0 < unat ?n" using lt i0 by simp
      show "unat i0 = i" if "bucket_of eq h key = Some i" for i
        using that b True T0 used_occ [of h] by (auto split: if_splits)
      show "unat i0 \<notin> used_set h \<and> reaches hash ?n (occ_set h) (unat i0) key"
        using True used_occ [of h] i0 reach [of 0] by auto
    qed
  next
    case False
    have "site_ok hash h key 0 ?n" by (simp add: site_ok_def)
    then obtain site where site: "put_loop eq h key (ac_inc (hash key) (?n - 1)) i0 (Suc (unat ?n)) i0 ?n
        = Inr (?n, of_nat (?p T), site)" "site_ok hash h key T site"
      using put_loop_stops [OF assms(1,2) T(1,2), of 0 i0 i0 "Suc (unat ?n)" ?n] T(1,3) i0 by auto
    let ?x = "if ?p T \<notin> occ_set h \<and> site \<noteq> ?n then site else of_nat (?p T)"
    have "put_place hash eq h key = Inr ?x"
      unfolding put_place_def Let_def i0_def [symmetric] using e0 False site(1) eT
      by (simp del: put_loop.simps)
    then show ?thesis
    proof (rule that)
      have s: "\<exists>s<T. unat site = ?p s \<and> unat site \<notin> used_set h" if "site \<noteq> ?n"
        using site(2) that unfolding site_ok_def by auto
      show "unat ?x < unat ?n" using s lt unT by auto
      show "unat ?x = i" if "bucket_of eq h key = Some i" for i
      proof -
        have "?p T \<in> used_set h" "i = ?p T" using that b by (auto split: if_splits)
        then show ?thesis using used_occ [of h] unT by auto
      qed
      show "unat ?x \<notin> used_set h \<and> reaches hash ?n (occ_set h) (unat ?x) key"
        if n: "bucket_of eq h key = None"
      proof (cases "?p T \<notin> occ_set h \<and> site \<noteq> ?n")
        case True
        then obtain s where "s < T" "unat site = ?p s" "unat site \<notin> used_set h" using s by blast
        then show ?thesis using True reach [of s] by simp
      next
        case False
        have "?p T \<notin> used_set h" using n b by (auto split: if_splits)
        then show ?thesis using False unT reach [of T] by auto
      qed
    qed
  qed
qed

lemma put_bucket_keys:
  assumes "kh_arrays h" "kh_keys_ok hash eq h" and i: "i < unat (n_buckets h)" "i \<notin> used_set h"
    and none: "bucket_of eq h key = None"
    and reach: "reaches hash (n_buckets h) (occ_set h) i key"
  shows "kh_keys_ok hash eq (put_bucket i key h)"
proof -
  let ?h = "put_bucket i key h"
  note s = put_bucket_sets [OF assms(1) i(1)]
  have li: "i < length (kkeys h)" using assms(1) i(1) by (simp add: kh_arrays_def)
  have at: "kkeys ?h ! j = (if j = i then Some key else kkeys h ! j)" for j
    using li by (simp add: nth_list_update)
  have ne: "\<not> eq k key" "\<not> eq key k" if "j \<in> used_set h" "kkeys h ! j = Some k" for j k
    using none that eq_sym unfolding bucket_of_None_iff [OF assms(2)] by blast+
  have "\<exists>k. kkeys ?h ! j = Some k \<and> reaches hash (n_buckets h) (insert i (occ_set h)) j k"
    if "j \<in> insert i (used_set h)" for j
  proof (cases "j = i")
    case True
    then show ?thesis using at reaches_mono [OF reach subset_insertI] by simp
  next
    case False
    then have j: "j \<in> used_set h" using that by simp
    then obtain k where "kkeys h ! j = Some k" using keys_Some [OF assms(2)] by blast
    then show ?thesis
      using False at reaches_mono [OF key_reaches [OF assms(2) j] subset_insertI] by simp
  qed
  moreover have "j = l" if "j \<in> insert i (used_set h)" "l \<in> insert i (used_set h)"
    "kkeys ?h ! j = Some a" "kkeys ?h ! l = Some b" "eq a b" for j l a b
  proof (cases "j = i \<or> l = i")
    case True
    then show ?thesis using that ne unfolding at by (auto split: if_splits)
  next
    case False
    then show ?thesis using that assms(2) unfolding at kh_keys_ok_def by auto
  qed
  ultimately show ?thesis unfolding kh_keys_ok_def s put_bucket_simps(1) by blast
qed

text \<open>kh_put_A once there is room.\<close>

lemma put_with_room:
  assumes "kh_arrays h" "kh_keys_ok hash eq h" "kh_counts h" and "n_occupied h < upper_bound h"
  obtains x where "unat x < unat (n_buckets h)"
    and "\<And>i. bucket_of eq h key = Some i \<Longrightarrow> unat x = i
      \<and> bindE (put_place hash eq h key) (put_fill h key) = Inr (x, 0, h)"
    and "bucket_of eq h key = None \<Longrightarrow> unat x \<notin> used_set h
      \<and> bindE (put_place hash eq h key) (put_fill h key)
          = Inr (x, if unat x \<in> occ_set h then 2 else 1, put_bucket (unat x) key h)
      \<and> kh_arrays (put_bucket (unat x) key h) \<and> kh_keys_ok hash eq (put_bucket (unat x) key h)
      \<and> kh_counts (put_bucket (unat x) key h)"
proof -
  obtain x where x: "put_place hash eq h key = Inr x" "unat x < unat (n_buckets h)"
    "\<And>i. bucket_of eq h key = Some i \<Longrightarrow> unat x = i"
    "bucket_of eq h key = None \<Longrightarrow> unat x \<notin> used_set h \<and> reaches hash (n_buckets h) (occ_set h) (unat x) key"
    using put_place_ok [OF assms(1-3)] by blast
  show ?thesis
  proof (rule that [OF x(2)])
    show "unat x = i \<and> bindE (put_place hash eq h key) (put_fill h key) = Inr (x, 0, h)"
      if b: "bucket_of eq h key = Some i" for i
    proof -
      have "i \<in> used_set h" using b unfolding bucket_of_iff [OF assms(2)] by blast
      then show ?thesis using x(1,3) b put_fill_used [OF assms(1)] by simp
    qed
    assume n: "bucket_of eq h key = None"
    note u = conjunct1 [OF x(4) [OF n]] and r = conjunct2 [OF x(4) [OF n]]
    have "kh_arrays (put_bucket (unat x) key h)"
      using assms(1) by (simp add: kh_arrays_def put_bucket_def)
    then show "unat x \<notin> used_set h
      \<and> bindE (put_place hash eq h key) (put_fill h key)
          = Inr (x, if unat x \<in> occ_set h then 2 else 1, put_bucket (unat x) key h)
      \<and> kh_arrays (put_bucket (unat x) key h) \<and> kh_keys_ok hash eq (put_bucket (unat x) key h)
      \<and> kh_counts (put_bucket (unat x) key h)"
      using x(1) u put_fill_free [OF assms(1) x(2) u] put_bucket_keys [OF assms(1,2) x(2) u n r]
        put_bucket_counts [OF assms(1,3) x(2) u assms(4)] by simp
  qed
qed

text \<open>What is found afterwards.\<close>

lemma bucket_of_put:
  assumes "kh_arrays h" "kh_keys_ok hash eq h" and i: "i < unat (n_buckets h)" "i \<notin> used_set h"
    and none: "bucket_of eq h key = None" and ok: "kh_keys_ok hash eq (put_bucket i key h)"
  shows "bucket_of eq (put_bucket i key h) k = (if eq key k then Some i else bucket_of eq h k)"
proof -
  note s = put_bucket_sets [OF assms(1) i(1), of key]
  have at: "kkeys (put_bucket i key h) ! j = (if j = i then Some key else kkeys h ! j)" for j
    using assms(1) i(1) by (simp add: kh_arrays_def nth_list_update)
  show ?thesis
  proof (cases "eq key k")
    case True
    then have "bucket_of eq (put_bucket i key h) k = Some i"
      unfolding bucket_of_iff [OF ok] s at by simp
    then show ?thesis using True by simp
  next
    case False
    have "bucket_of eq (put_bucket i key h) k = Some j \<longleftrightarrow> bucket_of eq h k = Some j" for j
      unfolding bucket_of_iff [OF ok] bucket_of_iff [OF assms(2)] s at using False i(2) by auto
    then show ?thesis using False by (metis not_None_eq)
  qed
qed

lemma bucket_of_del:
  assumes "kh_arrays h" "kh_keys_ok hash eq h" "kh_counts h" and b: "bucket_of eq h key = Some i"
  shows "bucket_of eq (del_bucket i h) k = (if eq key k then None else bucket_of eq h k)"
proof -
  obtain l where i: "i \<in> used_set h" "kkeys h ! i = Some l" "eq l key"
    using b unfolding bucket_of_iff [OF assms(2)] by blast
  note s = del_bucket_sets [OF assms(1) i(1)]
  note ok = del_bucket_ok(2) [OF assms(1-3) i(1)]
  have at: "kkeys (del_bucket i h) = kkeys h" by (simp add: del_bucket_def)
  have "bucket_of eq (del_bucket i h) k = Some j \<longleftrightarrow> \<not> eq key k \<and> bucket_of eq h k = Some j" for j
  proof (cases "j = i")
    case True
    then show ?thesis unfolding bucket_of_iff [OF ok] bucket_of_iff [OF assms(2)] s at
      using i eq_trans eq_sym by (metis Diff_iff insertI1 option.inject)
  next
    case False
    have "\<not> eq key k" if "j \<in> used_set h" "kkeys h ! j = Some a" "eq a k" for a
      using key_unique [OF assms(2) that(1) i(1) that(2) i(2) that(3)] False eq_trans [OF i(3)] by blast
    then show ?thesis unfolding bucket_of_iff [OF ok] bucket_of_iff [OF assms(2)] s at
      using False by blast
  qed
  then show ?thesis by (metis not_None_eq)
qed

end

section \<open>Clearing\<close>

lemma kh_clear_init [simp]: "kh_clear_A kh_init_A = Inr kh_init_A"
  by (simp add: kh_clear_A_def kh_init_A_def)

definition cleared :: "('k, 'v) kh \<Rightarrow> ('k, 'v) kh" where
  "cleared h = h\<lparr>kflags := new_flags_for (n_buckets h), ksize := 0, n_occupied := 0\<rparr>"

lemma new_flags_empty:
  assumes "pow2 n" and "i < unat n"
  shows "is_empty (new_flags_for n) i" and "\<not> is_del (new_flags_for n) i"
proof -
  have "i < 16 * unat (ac_fsize n)"
    using assms ac_fsize_covers [of n] unfolding pow2_def by fastforce
  then show "is_empty (new_flags_for n) i" "\<not> is_del (new_flags_for n) i"
    using all_empty_aa [of i "unat (ac_fsize n)" "[]"] by (simp_all add: new_flags_for_def)
qed

lemma kh_clear_eq:
  assumes "kh_arrays h"
  shows "kh_clear_A h = Inr (cleared h)"
proof -
  have "kflags h \<noteq> []" using kh_flags_for [OF assms] pow2_pos [OF arrays_pow2 [OF assms]]
    by (auto simp: flags_for_def)
  then show ?thesis using assms
    by (simp add: kh_clear_A_def memset_aa_def cleared_def new_flags_for_def kh_arrays_def)
qed

lemma cleared_ok:
  assumes "kh_arrays h" and "kh_counts h"
  shows "kh_arrays (cleared h)" "kh_keys_ok hash eq (cleared h)" "kh_counts (cleared h)"
    "used_set (cleared h) = {}"
proof -
  have s: "used_set (cleared h) = {}" "occ_set (cleared h) = {}"
    using new_flags_empty [OF arrays_pow2 [OF assms(1)]]
    by (auto simp: used_set_def occ_set_def is_used_def cleared_def)
  show "used_set (cleared h) = {}" by (rule s)
  show "kh_arrays (cleared h)" using assms(1) by (simp add: kh_arrays_def cleared_def new_flags_for_def)
  show "kh_keys_ok hash eq (cleared h)" by (simp add: kh_keys_ok_def s)
  show "kh_counts (cleared h)" using assms(2) unfolding kh_counts_def s by (simp add: cleared_def)
qed

end
