(* ===== verification/TW_KHashResize.thy ===== *)
theory TW_KHashResize
  imports TW_KHashPut
begin

unbundle bit_operations_syntax

text \<open>
  kh_resize_A: the rehash in place, which moves the entries inside the arrays they are in and kicks
  out those that are in the way, keeps the set of entries and gives a table with the invariant.
\<close>

section \<open>Entries\<close>

definition ents :: "'k option list \<Rightarrow> 'v option list \<Rightarrow> nat set \<Rightarrow> ('k option \<times> 'v option) set" where
  "ents ks vs S = (\<lambda>i. (ks ! i, vs ! i)) ` S"

definition entries :: "('k, 'v) kh \<Rightarrow> ('k option \<times> 'v option) set" where
  "entries h = ents (kkeys h) (kvals h) (used_set h)"

lemma ents_outside: "i \<notin> S \<Longrightarrow> ents (ks[i := a]) (vs[i := b]) S = ents ks vs S"
  unfolding ents_def by (rule image_cong) (simp, metis nth_list_update_neq)

lemma ents_insert_new:
  "i \<notin> S \<Longrightarrow> i < length ks \<Longrightarrow> i < length vs \<Longrightarrow>
    ents (ks[i := a]) (vs[i := b]) (insert i S) = insert (a, b) (ents ks vs S)"
  using ents_outside [of i S ks a vs b] by (simp add: ents_def)

lemma ents_remove: "i \<in> S \<Longrightarrow> ents ks vs S = insert (ks ! i, vs ! i) (ents ks vs (S - {i}))"
  by (auto simp: ents_def)

text \<open>The buckets that the new flags have taken.\<close>

definition new_occ :: "khint \<Rightarrow> khint list \<Rightarrow> nat set" where
  "new_occ n nf = {i. i < unat n \<and> \<not> is_empty nf i}"

lemma finite_new_occ [simp]: "finite (new_occ n nf)"
  by (simp add: new_occ_def)

lemma find_free_finds:
  assumes p2: "pow2 n" and fl: "flags_for nf (unat n)" and T: "T < unat n" "path hash n k T \<notin> new_occ n nf"
  shows "t \<le> T \<Longrightarrow> (\<forall>s. t \<le> s \<longrightarrow> s < T \<longrightarrow> path hash n k s \<in> new_occ n nf) \<Longrightarrow>
    unat i = path hash n k t \<Longrightarrow> T < f + t \<Longrightarrow>
    find_free nf (n - 1) (ac_inc (hash k) (n - 1)) f i = Inr (of_nat (path hash n k T))"
proof (induction f arbitrary: i t)
  case 0
  then show ?case by simp
next
  case (Suc f)
  have i: "unat i < unat n" using path_less [OF p2] Suc.prems(3) by simp
  note e = ac_isempty_eq [OF fl i]
  show ?case
  proof (cases "t = T")
    case True
    have "of_nat (unat i) = i" by simp
    then have "of_nat (path hash n k T) = i" using Suc.prems(3) True by simp
    then show ?thesis using True T(2) Suc.prems(3) e i by (simp add: new_occ_def)
  next
    case False
    then have t: "t < T" using Suc.prems(1) by simp
    then have "unat i \<in> new_occ n nf" using Suc.prems(2,3) by simp
    then show ?thesis
      using e Suc.IH [of "Suc t", OF _ _ path_step [OF p2 Suc.prems(3)]] t Suc.prems(2,4)
      by (simp add: new_occ_def)
  qed
qed

lemma find_free_ok:
  assumes p2: "pow2 n" and fl: "flags_for nf (unat n)" and room: "card (new_occ n nf) < unat n"
  obtains i where "find_free nf (n - 1) (ac_inc (hash k) (n - 1)) (Suc (unat (n - 1))) (hash k AND (n - 1)) = Inr i"
    and "unat i < unat n" and "unat i \<notin> new_occ n nf" and "reaches hash n (new_occ n nf) (unat i) k"
proof -
  let ?P = "\<lambda>t. t < unat n \<and> path hash n k t \<notin> new_occ n nf"
  have "\<not> {..<unat n} \<subseteq> new_occ n nf"
    using card_mono [of "new_occ n nf" "{..<unat n}"] room by auto
  then obtain p where p: "p < unat n" "p \<notin> new_occ n nf" by blast
  obtain t where t: "t < unat n" "path hash n k t = p" by (rule path_surj [OF p2 p(1)])
  then have ex: "?P t" using p(2) by simp
  define T where "T = (LEAST t. ?P t)"
  have T: "T < unat n" "path hash n k T \<notin> new_occ n nf"
    using LeastI [of ?P, OF ex] unfolding T_def by simp_all
  have no: "path hash n k s \<in> new_occ n nf" if "s < T" for s
    using not_less_Least [of s ?P] that T(1) unfolding T_def by auto
  have un: "unat (of_nat (path hash n k T) :: khint) = path hash n k T"
    by (rule unat_of_bucket [OF path_less [OF p2]])
  have "Suc (unat (n - 1)) = unat n" using pow2_pos [OF p2] pow2_ne [OF p2]
    by (simp add: unat_minus_one)
  then have "find_free nf (n - 1) (ac_inc (hash k) (n - 1)) (Suc (unat (n - 1))) (hash k AND (n - 1))
      = Inr (of_nat (path hash n k T))"
    using find_free_finds [OF p2 fl T, of 0 "hash k AND (n - 1)" "unat n"] no T(1) path_start [OF p2, of hash k]
    by simp
  then show ?thesis
  proof (rule that)
    show "unat (of_nat (path hash n k T) :: khint) < unat n" using un path_less [OF p2] by simp
    show "unat (of_nat (path hash n k T) :: khint) \<notin> new_occ n nf" using un T(2) by simp
    show "reaches hash n (new_occ n nf) (unat (of_nat (path hash n k T) :: khint)) k"
      unfolding un reaches_def using T(1) no by blast
  qed
qed

section \<open>The invariant of the rehash\<close>

text \<open>\<open>E\<close> is the set of all entries, \<open>P\<close> the one that is in hand, or none. The rest are in buckets
  that the old flags have as used or the new flags as taken, never both.\<close>

definition rehashing :: "('k \<Rightarrow> khint) \<Rightarrow> khint \<Rightarrow> ('k option \<times> 'v option) set \<Rightarrow> ('k, 'v) kh
    \<Rightarrow> khint list \<Rightarrow> ('k option \<times> 'v option) set \<Rightarrow> bool" where
  "rehashing hash n E h nf P \<longleftrightarrow>
     pow2 n \<and> flags_for nf (unat n) \<and> (\<forall>i<unat n. \<not> is_del nf i)
   \<and> flags_for (kflags h) (unat (n_buckets h))
   \<and> unat n \<le> length (kkeys h) \<and> unat (n_buckets h) \<le> length (kkeys h) \<and> length (kvals h) = length (kkeys h)
   \<and> used_set h \<inter> new_occ n nf = {}
   \<and> (\<forall>i\<in>new_occ n nf. \<exists>k. kkeys h ! i = Some k \<and> reaches hash n (new_occ n nf) i k)
   \<and> ents (kkeys h) (kvals h) (used_set h \<union> new_occ n nf) \<union> P = E
   \<and> card (used_set h \<union> new_occ n nf) + card P = card E
   \<and> card E < unat n \<and> (\<forall>e\<in>E. fst e \<noteq> None)"

text \<open>What the rehash leaves alone.\<close>

definition same_rest :: "('k, 'v) kh \<Rightarrow> ('k, 'v) kh \<Rightarrow> khint list \<Rightarrow> khint list \<Rightarrow> bool" where
  "same_rest h h' nf nf' \<longleftrightarrow> n_buckets h' = n_buckets h \<and> ksize h' = ksize h
     \<and> length (kkeys h') = length (kkeys h) \<and> length nf' = length nf
     \<and> used_set h' \<subseteq> used_set h"

lemma same_rest_refl [simp]: "same_rest h h nf nf"
  by (simp add: same_rest_def)

lemma same_rest_trans: "same_rest h h' nf nf' \<Longrightarrow> same_rest h' h'' nf' nf'' \<Longrightarrow> same_rest h h'' nf nf''"
  unfolding same_rest_def by auto

lemma new_occ_clear:
  assumes "flags_for nf (unat n)" and "i < unat n"
  shows "new_occ n (clear_empty nf i) = insert i (new_occ n nf)"
  using flags_after(1) [of i nf] assms unfolding new_occ_def flags_for_def by auto

text \<open>\<open>stored\<close> is the table with an entry written into bucket \<open>i\<close>, \<open>kicked\<close> the same with the
  old bucket given up.\<close>

definition stored :: "nat \<Rightarrow> 'k \<Rightarrow> 'v option \<Rightarrow> ('k, 'v) kh \<Rightarrow> ('k, 'v) kh" where
  "stored i key val h = h\<lparr>kkeys := (kkeys h)[i := Some key], kvals := (kvals h)[i := val]\<rparr>"

definition given_up :: "nat \<Rightarrow> ('k, 'v) kh \<Rightarrow> ('k, 'v) kh" where
  "given_up i h = h\<lparr>kflags := mark_del (kflags h) i\<rparr>"

lemma stored_simps [simp]:
  "n_buckets (stored i key val h) = n_buckets h" "ksize (stored i key val h) = ksize h"
  "kflags (stored i key val h) = kflags h" "kkeys (stored i key val h) = (kkeys h)[i := Some key]"
  "kvals (stored i key val h) = (kvals h)[i := val]" "used_set (stored i key val h) = used_set h"
  by (simp_all add: stored_def used_set_def)

lemma given_up_simps [simp]:
  "n_buckets (given_up i h) = n_buckets h" "ksize (given_up i h) = ksize h"
  "kkeys (given_up i h) = kkeys h" "kvals (given_up i h) = kvals h"
  "kflags (given_up i h) = mark_del (kflags h) i"
  by (simp_all add: given_up_def)

lemma given_up_used:
  assumes "flags_for (kflags h) (unat (n_buckets h))" and "i \<in> used_set h"
  shows "used_set (given_up i h) = used_set h - {i}"
proof -
  have "i div 16 < length (kflags h)" using assms used_less unfolding flags_for_def by fastforce
  then show ?thesis using used_after(2) [of i "kflags h"] by (auto simp: used_set_def)
qed

lemma rehash_place:
  assumes R: "rehashing hash n E h nf {(Some key, val)}"
    and i: "i < unat n" "i \<notin> new_occ n nf" "reaches hash n (new_occ n nf) i key" "i \<notin> used_set h"
  shows "rehashing hash n E (stored i key val h) (clear_empty nf i) {}"
proof -
  note d = R [unfolded rehashing_def]
  have li: "i < length (kkeys h)" "i < length (kvals h)" using d i(1) by simp_all
  have w: "i div 16 < length nf" using d i(1) unfolding flags_for_def by auto
  note nc = new_occ_clear [of nf n i, OF _ i(1)]
  let ?N = "new_occ n nf" and ?U = "used_set h"
  have nin: "i \<notin> ?U \<union> ?N" using i by simp
  have "\<exists>k. (kkeys h)[i := Some key] ! j = Some k \<and> reaches hash n (insert i ?N) j k"
    if j: "j \<in> insert i ?N" for j
  proof (cases "j = i")
    case True
    then show ?thesis using li reaches_mono [OF i(3) subset_insertI] by simp
  next
    case False
    then obtain k where "kkeys h ! j = Some k" "reaches hash n ?N j k" using j d by blast
    then show ?thesis using False reaches_mono [OF _ subset_insertI] by auto
  qed
  moreover have "ents ((kkeys h)[i := Some key]) ((kvals h)[i := val]) (?U \<union> insert i ?N) = E"
    using ents_insert_new [OF nin li, of "Some key" val] d by simp
  moreover have "card (?U \<union> insert i ?N) = card E"
    using nin d by simp
  ultimately show ?thesis
    using d i nc flags_after(2) [OF w] by (simp add: rehashing_def flags_for_def)
qed

lemma rehash_kick:
  assumes R: "rehashing hash n E h nf {(Some key, val)}"
    and i: "i < unat n" "i \<notin> new_occ n nf" "reaches hash n (new_occ n nf) i key" "i \<in> used_set h"
  shows "rehashing hash n E (given_up i (stored i key val h)) (clear_empty nf i) {(kkeys h ! i, kvals h ! i)}"
proof -
  note d = R [unfolded rehashing_def]
  have li: "i < length (kkeys h)" "i < length (kvals h)" using d i(1) by simp_all
  have w: "i div 16 < length nf" using d i(1) unfolding flags_for_def by auto
  note nc = new_occ_clear [of nf n i, OF _ i(1)]
  let ?N = "new_occ n nf" and ?U = "used_set h"
  have u: "used_set (given_up i (stored i key val h)) = ?U - {i}"
    using given_up_used [of "stored i key val h" i] d i(4) by simp
  have "\<exists>k. (kkeys h)[i := Some key] ! j = Some k \<and> reaches hash n (insert i ?N) j k"
    if j: "j \<in> insert i ?N" for j
  proof (cases "j = i")
    case True
    then show ?thesis using li reaches_mono [OF i(3) subset_insertI] by simp
  next
    case False
    then obtain k where "kkeys h ! j = Some k" "reaches hash n ?N j k" using j d by blast
    then show ?thesis using False reaches_mono [OF _ subset_insertI] by auto
  qed
  moreover have "ents ((kkeys h)[i := Some key]) ((kvals h)[i := val]) ((?U - {i}) \<union> insert i ?N)
      \<union> {(kkeys h ! i, kvals h ! i)} = E"
  proof -
    let ?S = "(?U \<union> ?N) - {i}"
    have "(?U - {i}) \<union> insert i ?N = insert i ?S" by auto
    then have "ents ((kkeys h)[i := Some key]) ((kvals h)[i := val]) ((?U - {i}) \<union> insert i ?N)
      = insert (Some key, val) (ents (kkeys h) (kvals h) ?S)"
      using ents_insert_new [OF _ li, of ?S "Some key" val] by simp
    moreover have "ents (kkeys h) (kvals h) (?U \<union> ?N) = insert (kkeys h ! i, kvals h ! i) (ents (kkeys h) (kvals h) ?S)"
      using i(4) by (intro ents_remove) simp
    ultimately show ?thesis using d by auto
  qed
  moreover have "(?U - {i}) \<union> insert i ?N = ?U \<union> ?N" using i(4) by auto
  ultimately show ?thesis
    using d i nc flags_after(2) [OF w] u by (simp add: rehashing_def flags_for_def) auto
qed

section \<open>The loops\<close>

lemma set_entry_eq:
  "unat i < length (kkeys h) \<Longrightarrow> length (kvals h) = length (kkeys h) \<Longrightarrow>
    set_entry i key val h = Inr (stored (unat i) key val h)"
  by (simp add: set_entry_def stored_def)

lemma rehashing_parts:
  assumes "rehashing hash n E h nf P"
  shows "pow2 n" and "flags_for nf (unat n)" and "flags_for (kflags h) (unat (n_buckets h))"
    and "unat n \<le> length (kkeys h)" and "unat (n_buckets h) \<le> length (kkeys h)"
    and "length (kvals h) = length (kkeys h)"
  using assms unfolding rehashing_def by simp_all

lemma kick_loop_ok:
  "rehashing hash n E h nf {(Some key, val)} \<Longrightarrow> card (used_set h) < f \<Longrightarrow>
    \<exists>h' nf'. kick_loop hash (n - 1) f key val h nf = Inr (h', nf')
      \<and> rehashing hash n E h' nf' {} \<and> same_rest h h' nf nf'"
proof (induction f arbitrary: key val h nf)
  case 0
  then show ?case by simp
next
  case (Suc f)
  note R = Suc.prems(1)
  note d = R [unfolded rehashing_def]
  have p2: "pow2 n" and fn: "flags_for nf (unat n)" and fo: "flags_for (kflags h) (unat (n_buckets h))"
    and len: "unat n \<le> length (kkeys h)" "length (kvals h) = length (kkeys h)"
    by (rule rehashing_parts [OF R])+
  have "card (new_occ n nf) \<le> card (used_set h \<union> new_occ n nf)" by (rule card_mono) simp_all
  then have room: "card (new_occ n nf) < unat n" using d by linarith
  obtain i where i: "find_free nf (n - 1) (ac_inc (hash key) (n - 1)) (Suc (unat (n - 1))) (hash key AND (n - 1)) = Inr i"
    "unat i < unat n" "unat i \<notin> new_occ n nf" "reaches hash n (new_occ n nf) (unat i) key"
    by (rule find_free_ok [OF p2 fn room])
  have li: "unat i < length (kkeys h)" using i(2) len by simp
  note set_i = set_entry_eq [OF li len(2), of key val]
  note clear_i = ac_set_isempty_false_eq [OF fn i(2)]
  have kick_if: "(if i < n_buckets h then ac_iseither (kflags h) i else Inr True) = Inr (unat i \<notin> used_set h)"
    using ac_iseither_eq [OF fo, of i] by (simp add: used_set_def word_less_nat_alt)
  show ?case
  proof (cases "unat i \<in> used_set h")
    case False
    note R' = rehash_place [OF R i(2-4) False]
    have "kick_loop hash (n - 1) (Suc f) key val h nf = Inr (stored (unat i) key val h, clear_empty nf (unat i))"
      using False i(1) set_i clear_i kick_if by (simp add: Let_def del: find_free.simps)
    then show ?thesis using R' by (auto simp: same_rest_def)
  next
    case True
    note R' = rehash_kick [OF R i(2-4) True]
    let ?h = "given_up (unat i) (stored (unat i) key val h)"
    have "(kkeys h ! unat i, kvals h ! unat i) \<in> E" using R' unfolding rehashing_def by blast
    then obtain key' where key': "kkeys h ! unat i = Some key'" using d by fastforce
    have del: "ac_set_isdel_true (kflags h) i = Inr (mark_del (kflags h) (unat i))"
      by (rule ac_set_isdel_true_eq [OF fo used_less [OF True]])
    have u: "used_set ?h = used_set h - {unat i}"
      using given_up_used [of "stored (unat i) key val h" "unat i"] fo True by simp
    have "card (used_set ?h) < f"
      using Suc.prems(2) card_Diff1_less [OF finite_sets(1) True] unfolding u by linarith
    then obtain h' nf' where IH: "kick_loop hash (n - 1) f key' (kvals h ! unat i) ?h (clear_empty nf (unat i)) = Inr (h', nf')"
      "rehashing hash n E h' nf' {}" "same_rest ?h h' (clear_empty nf (unat i)) nf'"
      using Suc.IH [OF R' [unfolded key']] by blast
    have "key_at h i = Inr key'" using li key' by (simp add: key_at_def)
    then have "kick_loop hash (n - 1) (Suc f) key val h nf
        = kick_loop hash (n - 1) f key' (kvals h ! unat i) ?h (clear_empty nf (unat i))"
      using True i(1) set_i clear_i kick_if li len(2) del
      by (simp add: Let_def given_up_def del: find_free.simps)
    then show ?thesis using IH u unfolding same_rest_def by auto
  qed
qed

lemma rehash_start:
  assumes R: "rehashing hash n E h nf {}" and i: "i \<in> used_set h"
  shows "rehashing hash n E (given_up i h) nf {(kkeys h ! i, kvals h ! i)}"
proof -
  note d = R [unfolded rehashing_def]
  have u: "used_set (given_up i h) = used_set h - {i}" using given_up_used i d by blast
  have nin: "i \<notin> new_occ n nf" using d i by blast
  then have s: "(used_set h \<union> new_occ n nf) - {i} = (used_set h - {i}) \<union> new_occ n nf" by auto
  have "ents (kkeys h) (kvals h) (used_set h \<union> new_occ n nf)
      = insert (kkeys h ! i, kvals h ! i) (ents (kkeys h) (kvals h) ((used_set h - {i}) \<union> new_occ n nf))"
    using ents_remove [of i "used_set h \<union> new_occ n nf"] i unfolding s by simp
  then have "ents (kkeys h) (kvals h) ((used_set h - {i}) \<union> new_occ n nf) \<union> {(kkeys h ! i, kvals h ! i)} = E"
    using d by simp
  moreover have "Suc (card ((used_set h - {i}) \<union> new_occ n nf)) = card E"
    using d card_Suc_Diff1 [of "used_set h \<union> new_occ n nf" i] i unfolding s by simp
  moreover have "(used_set h - {i}) \<inter> new_occ n nf = {}" using d by blast
  ultimately show ?thesis using d u by (simp add: rehashing_def flags_for_def)
qed

lemma rehash_loop_ok:
  "rehashing hash n E h nf {} \<Longrightarrow> unat j \<le> unat (n_buckets h) \<Longrightarrow> (\<forall>i\<in>used_set h. unat j \<le> i) \<Longrightarrow>
    unat (n_buckets h) < f + unat j \<Longrightarrow>
    \<exists>h' nf'. rehash_loop hash (n - 1) f j h nf = Inr (h', nf')
      \<and> rehashing hash n E h' nf' {} \<and> same_rest h h' nf nf' \<and> used_set h' = {}"
proof (induction f arbitrary: j h nf)
  case 0
  then show ?case by simp
next
  case (Suc f)
  note R = Suc.prems(1)
  note d = R [unfolded rehashing_def]
  have fo: "flags_for (kflags h) (unat (n_buckets h))" and len: "unat (n_buckets h) \<le> length (kkeys h)"
    "length (kvals h) = length (kkeys h)" by (rule rehashing_parts [OF R])+
  show ?case
  proof (cases "j = n_buckets h")
    case True
    then have "used_set h = {}" using Suc.prems(3) used_less [of _ h] by fastforce
    then show ?thesis using True R by simp
  next
    case False
    then have j: "unat j < unat (n_buckets h)" using Suc.prems(2)
      by (metis le_neq_implies_less word_unat_eq_iff)
    then have j1: "unat (j + 1) = Suc (unat j)" by (rule unat_plus_one)
    note e = ac_iseither_eq [OF fo j]
    show ?thesis
    proof (cases "unat j \<in> used_set h")
      case no: False
      then have "rehash_loop hash (n - 1) (Suc f) j h nf = rehash_loop hash (n - 1) f (j + 1) h nf"
        using False e j by (simp add: used_set_def)
      moreover have "\<forall>i\<in>used_set h. unat (j + 1) \<le> i"
        using Suc.prems(3) no unfolding j1 by (metis Suc_leI le_neq_implies_less)
      ultimately show ?thesis
        using Suc.IH [OF R, of "j + 1"] j j1 Suc.prems(4) by simp
    next
      case yes: True
      let ?h = "given_up (unat j) h"
      note R' = rehash_start [OF R yes]
      have u: "used_set ?h = used_set h - {unat j}" by (rule given_up_used [OF fo yes])
      have "(kkeys h ! unat j, kvals h ! unat j) \<in> E" using R' unfolding rehashing_def by blast
      then obtain key where key: "kkeys h ! unat j = Some key" using d by fastforce
      have "card (used_set ?h) < Suc (unat (n_buckets ?h))"
        using card_le_buckets(1) [of ?h] by simp
      then obtain h1 nf1 where k: "kick_loop hash (n - 1) (Suc (unat (n_buckets h))) key (kvals h ! unat j) ?h nf = Inr (h1, nf1)"
        "rehashing hash n E h1 nf1 {}" "same_rest ?h h1 nf nf1"
        using kick_loop_ok [OF R' [unfolded key], of "Suc (unat (n_buckets h))"]
        by (auto simp del: kick_loop.simps)
      have n1: "n_buckets h1 = n_buckets h" "used_set h1 \<subseteq> used_set h - {unat j}"
        using k(3) u by (simp_all add: same_rest_def)
      have "\<forall>i\<in>used_set h1. unat (j + 1) \<le> i"
      proof
        fix i
        assume "i \<in> used_set h1"
        then have "i \<in> used_set h" "i \<noteq> unat j" using n1(2) by auto
        then have "unat j \<le> i" "i \<noteq> unat j" using Suc.prems(3) by simp_all
        then show "unat (j + 1) \<le> i" unfolding j1 by simp
      qed
      then obtain h' nf' where IH: "rehash_loop hash (n - 1) f (j + 1) h1 nf1 = Inr (h', nf')"
        "rehashing hash n E h' nf' {}" "same_rest h1 h' nf1 nf'" "used_set h' = {}"
        using Suc.IH [OF k(2), of "j + 1"] j j1 n1(1) Suc.prems(4) by auto
      have "key_at h j = Inr key" using len j key by (simp add: key_at_def)
      moreover have "ac_set_isdel_true (kflags h) j = Inr (mark_del (kflags h) (unat j))"
        by (rule ac_set_isdel_true_eq [OF fo j])
      ultimately have "rehash_loop hash (n - 1) (Suc f) j h nf = rehash_loop hash (n - 1) f (j + 1) h1 nf1"
        using False e j yes len k(1) by (simp add: used_set_def given_up_def del: kick_loop.simps)
      moreover have "same_rest h ?h nf nf" using u by (auto simp: same_rest_def)
      ultimately show ?thesis using IH k(3) same_rest_trans by metis
    qed
  qed
qed

section \<open>The whole resize\<close>

text \<open>The number of buckets that a request is rounded to.\<close>

definition new_size :: "khint \<Rightarrow> khint" where
  "new_size req = (let r = kroundup32 req in if r < 4 then 4 else r)"

lemma kroundup32_too_big:
  assumes "x = 0 \<or> 2 ^ 31 < unat x"
  shows "kroundup32 x = 0"
proof -
  have "2 ^ 31 \<le> unat (x - 1)"
  proof (cases "x = 0")
    case False
    then have "unat (x - 1) = unat x - 1" by (simp add: unat_minus_one)
    then show ?thesis using assms False by auto
  qed (simp add: unsigned_minus_1_eq_mask mask_eq_exp_minus_1)
  moreover have "unat (x - 1) < 2 ^ LENGTH(32)" by (rule unsigned_less)
  ultimately have "unat (x - 1) div 2 ^ 31 = 1" by (simp add: div_nat_eqI)
  then have "bit (unat (x - 1)) 31" by (simp add: bit_iff_odd)
  then have b: "bit (x - 1) 31" by (simp add: bit_unsigned_iff)
  obtain z where z: "kroundup32 x = z + 1" "\<And>n. bit z n = (\<exists>d<32. bit (x - 1) (n + d))"
    using kroundup32_smear by blast
  have "bit z n" if "n < 32" for n
    unfolding z(2) using b that by (intro exI [of _ "31 - n"]) simp
  then have "z = - 1" by (intro bit_eqI) simp
  then show ?thesis using z(1) by simp
qed

lemma pow2_new_size: "pow2 (new_size req)"
proof -
  have 4: "pow2 4" unfolding pow2_def by (intro exI [of _ 2]) simp
  show ?thesis
  proof (cases "kroundup32 req < 4")
    case True
    then show ?thesis using 4 by (simp add: new_size_def)
  next
    case False
    then have "req \<noteq> 0 \<and> unat req \<le> 2 ^ 31"
      using kroundup32_too_big [of req] by (rule_tac ccontr) (auto simp: not_le)
    then obtain m where m: "m \<le> 31" "unat (kroundup32 req) = 2 ^ m"
      using kroundup32_power [of req] by (auto simp: word_gt_0)
    have "(2 :: nat) ^ 2 \<le> 2 ^ m" using False m(2) by (simp add: word_less_nat_alt)
    then have "2 \<le> m" by (rule power_le_imp_le_exp [rotated]) simp
    then show ?thesis using False m unfolding pow2_def new_size_def
      by (intro exI [of _ m]) simp
  qed
qed

text \<open>What a rehash needs of the old table. A table without buckets has it too.\<close>

lemma kh_ok_old_all:
  assumes "kh_ok hash eq h"
  shows "flags_for (kflags h) (unat (n_buckets h)) \<and> length (kkeys h) = unat (n_buckets h) \<and>
    length (kvals h) = unat (n_buckets h) \<and> kh_keys_ok hash eq h \<and> unat (ksize h) = card (used_set h)"
  using assms
proof (cases rule: kh_ok_cases)
  case 1
  then show ?thesis by (simp add: kh_init_A_def flags_for_def kh_keys_ok_def used_set_def)
next
  case 2
  then show ?thesis using kh_flags_for [OF 2(1)] by (simp add: kh_arrays_def kh_counts_def)
qed

lemma kh_ok_old:
  assumes "kh_ok hash eq h"
  shows "flags_for (kflags h) (unat (n_buckets h))" and "length (kkeys h) = unat (n_buckets h)"
    and "length (kvals h) = unat (n_buckets h)" and "kh_keys_ok hash eq h"
    and "unat (ksize h) = card (used_set h)"
  using kh_ok_old_all [OF assms] by simp_all

text \<open>When the arrays of a table with \<open>n\<close> buckets have sizes that an \<^verbatim>\<open>int\<close> holds, they get their places.\<close>

definition kh_fits :: "nat \<Rightarrow> nat \<Rightarrow> bool" where
  "kh_fits kb n \<longleftrightarrow> 0 < kb \<and> kb * n < 2 ^ 31 \<and> 8 * n < 2 ^ 31"

lemma kh_fits_mono: "kh_fits kb n \<Longrightarrow> m \<le> n \<Longrightarrow> kh_fits kb m"
  using le_less_trans [OF mult_le_mono2 [of m n kb], of "2 ^ 31"] by (simp add: kh_fits_def)

definition grow_kh :: "khint \<Rightarrow> ('k, 'v) kh \<Rightarrow> ('k, 'v) kh" where
  "grow_kh n h = h\<lparr>kkeys := grow_arr (kkeys h) (unat n), kvals := grow_arr (kvals h) (unat n)\<rparr>"

lemma realloc_arr_fits: "0 < esz \<Longrightarrow> esz * n < 2 ^ 31 \<Longrightarrow> realloc_arr esz xs n = grow_arr xs n"
proof -
  assume "0 < esz" "esz * n < 2 ^ 31"
  then have "0 < esz" "0 \<le> int n" "int esz * int n < 2 ^ 31" by (simp_all flip: of_nat_mult)
  from array_room_fits [OF this] show ?thesis by (simp add: realloc_arr_def)
qed

lemma realloc_kh_fits: "kh_fits kb (unat n) \<Longrightarrow> realloc_kh kb n h = grow_kh n h"
  by (simp add: realloc_kh_def grow_kh_def kh_fits_def realloc_arr_fits)

lemma grow_nth: "i < length xs \<Longrightarrow> i < n \<Longrightarrow> grow_arr xs n ! i = xs ! i"
  by (simp add: grow_arr_def nth_append)

lemma length_grow [simp]: "length (grow_arr xs n) = n"
  by (simp add: grow_arr_def)

lemma grow_kh_simps [simp]:
  "n_buckets (grow_kh n h) = n_buckets h" "ksize (grow_kh n h) = ksize h"
  "kflags (grow_kh n h) = kflags h" "used_set (grow_kh n h) = used_set h"
  "kkeys (grow_kh n h) = grow_arr (kkeys h) (unat n)"
  "kvals (grow_kh n h) = grow_arr (kvals h) (unat n)"
  by (simp_all add: grow_kh_def used_set_def)

context hashing begin

lemma card_entries:
  assumes "kh_keys_ok hash eq h"
  shows "card (entries h) = card (used_set h)"
proof -
  have "inj_on (\<lambda>i. (kkeys h ! i, kvals h ! i)) (used_set h)"
  proof (rule inj_onI)
    fix i j
    assume i: "i \<in> used_set h" and j: "j \<in> used_set h"
      and e: "(kkeys h ! i, kvals h ! i) = (kkeys h ! j, kvals h ! j)"
    obtain k where "kkeys h ! i = Some k" using keys_Some [OF assms i] by blast
    then show "i = j" using key_unique [OF assms i j _ _ eq_refl eq_refl] e by simp
  qed
  then show ?thesis by (simp add: entries_def ents_def card_image)
qed

lemma rehashing_init:
  assumes ok: "kh_ok hash eq h" and p2: "pow2 n" and few: "card (used_set h) < unat n"
  shows "rehashing hash n (entries h) (if n_buckets h < n then grow_kh n h else h) (new_flags_for n) {}"
proof -
  note o = kh_ok_old [OF ok]
  let ?h = "if n_buckets h < n then grow_kh n h else h"
  have u: "used_set ?h = used_set h" "n_buckets ?h = n_buckets h" "kflags ?h = kflags h" by simp_all
  have e: "new_occ n (new_flags_for n) = {}" using new_flags_empty(1) [OF p2] by (auto simp: new_occ_def)
  have "unat n \<le> 16 * unat (ac_fsize n)" using p2 ac_fsize_covers [of n] unfolding pow2_def by blast
  then have fl: "flags_for (new_flags_for n) (unat n)" by (simp add: flags_for_def new_flags_for_def)
  have len: "unat n \<le> length (kkeys ?h)" "unat (n_buckets h) \<le> length (kkeys ?h)" "length (kvals ?h) = length (kkeys ?h)"
    using o(2,3) by (auto simp: word_less_nat_alt)
  have same: "kkeys ?h ! i = kkeys h ! i" "kvals ?h ! i = kvals h ! i" if "i \<in> used_set h" for i
    using used_less [OF that] o(2,3) by (auto simp: grow_nth word_less_nat_alt)
  then have "ents (kkeys ?h) (kvals ?h) (used_set h) = entries h"
    unfolding entries_def ents_def by (intro image_cong) simp_all
  moreover have "\<forall>e\<in>entries h. fst e \<noteq> None"
    using keys_Some [OF o(4)] by (fastforce simp: entries_def ents_def)
  ultimately show ?thesis
    using p2 fl len o(1) new_flags_empty(2) [OF p2] card_entries [OF o(4)] few
    unfolding rehashing_def u e by simp
qed

lemma rehash_final:
  assumes ok: "kh_ok hash eq h" and R: "rehashing hash n (entries h) h2 nf {}" and u: "used_set h2 = {}"
    and same: "ksize h2 = ksize h" "length nf = unat (ac_fsize n)" "n_buckets h2 = n_buckets h"
      "length (kkeys h2) = (if n_buckets h < n then unat n else unat (n_buckets h))"
    and few: "ksize h < hash_upper n"
    and h3: "h3 = (if n < n_buckets h then grow_kh n h2 else h2)
      \<lparr>kflags := nf, n_buckets := n, n_occupied := ksize h, upper_bound := hash_upper n\<rparr>"
  shows "kh_arrays h3" and "kh_keys_ok hash eq h3" and "kh_counts h3" and "entries h3 = entries h"
proof -
  note o = kh_ok_old [OF ok]
  note d = R [unfolded rehashing_def u]
  let ?N = "new_occ n nf"
  have N: "used_set h3 = ?N" "occ_set h3 = ?N"
    using d unfolding h3 used_set_def occ_set_def new_occ_def is_used_def by auto
  have f: "kflags h3 = nf" "n_buckets h3 = n" "ksize h3 = ksize h" "n_occupied h3 = ksize h"
    "upper_bound h3 = hash_upper n" unfolding h3 using same(1) by simp_all
  have len: "length (kkeys h3) = unat n" "length (kvals h3) = unat n"
    using d same(4) unfolding h3 by (auto simp: word_less_nat_alt)
  have at: "kkeys h3 ! i = kkeys h2 ! i" "kvals h3 ! i = kvals h2 ! i" if "i \<in> ?N" for i
  proof -
    have "i < unat n" using that by (simp add: new_occ_def)
    then show "kkeys h3 ! i = kkeys h2 ! i" "kvals h3 ! i = kvals h2 ! i"
      unfolding h3 using d by (auto simp: grow_nth)
  qed
  have "ents (kkeys h3) (kvals h3) ?N = ents (kkeys h2) (kvals h2) ?N"
    unfolding ents_def using at by (intro image_cong) simp_all
  then show e: "entries h3 = entries h" using d by (simp add: entries_def N)
  have cN: "card ?N = card (entries h)" using d by simp
  show "kh_arrays h3" using d f len same(2) by (simp add: kh_arrays_def)
  show "kh_counts h3"
    using f N cN o(5) card_entries [OF o(4)] few unfolding kh_counts_def by simp
  have inj: "inj_on (\<lambda>i. (kkeys h3 ! i, kvals h3 ! i)) ?N"
    by (rule eq_card_imp_inj_on) (use cN e N in \<open>simp_all add: entries_def ents_def\<close>)
  show "kh_keys_ok hash eq h3"
    unfolding kh_keys_ok_def N f
  proof (intro conjI ballI allI impI)
    fix i
    assume "i \<in> ?N"
    then show "\<exists>k. kkeys h3 ! i = Some k \<and> reaches hash n ?N i k" using d at(1) by simp
  next
    fix i j k l
    assume i: "i \<in> ?N" "kkeys h3 ! i = Some k" and j: "j \<in> ?N" "kkeys h3 ! j = Some l" and kl: "eq k l"
    have "(kkeys h3 ! i, kvals h3 ! i) \<in> entries h3" "(kkeys h3 ! j, kvals h3 ! j) \<in> entries h3"
      using i(1) j(1) by (simp_all add: entries_def ents_def N)
    then have "(kkeys h3 ! i, kvals h3 ! i) \<in> entries h" "(kkeys h3 ! j, kvals h3 ! j) \<in> entries h"
      unfolding e by simp_all
    then obtain a b where a: "a \<in> used_set h" "kkeys h ! a = Some k" "kvals h ! a = kvals h3 ! i"
      and b: "b \<in> used_set h" "kkeys h ! b = Some l" "kvals h ! b = kvals h3 ! j"
      using i(2) j(2) by (auto simp: entries_def ents_def)
    have "a = b" by (rule key_unique [OF o(4) a(1) b(1) a(2) b(2) kl eq_refl])
    then have "(kkeys h3 ! i, kvals h3 ! i) = (kkeys h3 ! j, kvals h3 ! j)"
      using a b i(2) j(2) by simp
    then show "i = j" using inj i(1) j(1) by (simp add: inj_on_def)
  qed
qed

lemma resize_ok:
  assumes ok: "kh_ok hash eq h" and few: "ksize h < hash_upper (new_size req)" and fits: "kh_fits kb (unat (new_size req))"
  obtains h' where "kh_resize_A kb hash h req = Inr h'" and "kh_arrays h'" and "kh_keys_ok hash eq h'"
    and "kh_counts h'" and "entries h' = entries h" and "n_buckets h' = new_size req"
    and "n_occupied h' = ksize h" and "ksize h' = ksize h" and "upper_bound h' = hash_upper (new_size req)"
proof -
  let ?n = "new_size req"
  let ?h = "if n_buckets h < ?n then grow_kh ?n h else h"
  have p2: "pow2 ?n" by (rule pow2_new_size)
  have "card (used_set h) < unat ?n"
    using few kh_ok_old(5) [OF ok] hash_upper_less [OF p2] by (simp add: word_less_nat_alt)
  note R = rehashing_init [OF ok p2 this]
  have n: "n_buckets ?h = n_buckets h" by simp
  obtain h2 nf where r: "rehash_loop hash (?n - 1) (Suc (unat (n_buckets h))) 0 ?h (new_flags_for ?n) = Inr (h2, nf)"
    "rehashing hash ?n (entries h) h2 nf {}" "same_rest ?h h2 (new_flags_for ?n) nf" "used_set h2 = {}"
    using rehash_loop_ok [OF R, of 0 "Suc (unat (n_buckets h))"] n by auto
  have s: "ksize h2 = ksize h" "length nf = unat (ac_fsize ?n)" "n_buckets h2 = n_buckets h"
    "length (kkeys h2) = (if n_buckets h < ?n then unat ?n else unat (n_buckets h))"
    using r(3) kh_ok_old(2) [OF ok] by (auto simp: same_rest_def new_flags_for_def)
  define h3 where "h3 = (if ?n < n_buckets h then grow_kh ?n h2 else h2)
      \<lparr>kflags := nf, n_buckets := ?n, n_occupied := ksize h, upper_bound := hash_upper ?n\<rparr>"
  have c: "(hash_upper ?n \<le> ksize h) = False" using few by simp
  have k: "ksize (if ?n < n_buckets h then grow_kh ?n h2 else h2) = ksize h" using s(1) by simp
  have "kh_resize_A kb hash h req = Inr h3"
    unfolding kh_resize_A_def Let_def new_size_def [unfolded Let_def, symmetric] h3_def
    by (simp only: realloc_kh_fits [OF fits] c if_False n r(1) bindE_Inr prod.case s(3) k)
  moreover note rehash_final [OF ok r(2,4) s few h3_def]
  moreover have "n_buckets h3 = ?n" "n_occupied h3 = ksize h" "ksize h3 = ksize h" "upper_bound h3 = hash_upper ?n"
    unfolding h3_def using s(1) by simp_all
  ultimately show ?thesis using that by blast
qed

end

section \<open>Sizes beyond an int\<close>

text \<open>From 2 ^ 28 buckets on the number of bytes of the values, a power of two from 2 ^ 31 on, is negative or 0 as an \<^verbatim>\<open>int\<close>,
  and the array is lost; the loop then reads the value of the first entry through a null pointer.\<close>

lemma realloc_lost:
  assumes "pow2 n" and "2 ^ 28 \<le> unat n"
  shows "realloc_arr 8 xs (unat n) = []"
proof -
  obtain m where m: "m < 32" "unat n = 2 ^ m" using assms(1) unfolding pow2_def by blast
  have "28 \<le> m" by (rule power_le_imp_le_exp [of 2]) (use assms(2) m(2) in simp_all)
  then have "m = 28 \<or> m = 29 \<or> m = 30 \<or> m = 31" using m(1) by linarith
  then have "array_room 8 (int (unat n)) = None \<or> array_room 8 (int (unat n)) = Some 0"
    unfolding m(2) by (elim disjE) (simp_all add: array_room_def tw_size_def Let_def signed_take_bit_int_eq_self_iff)
  then show ?thesis by (auto simp: realloc_arr_def grow_arr_def)
qed

lemma rehash_lost:
  assumes fl: "flags_for (kflags h) (unat (n_buckets h))" and v: "kvals h = []"
    and ks: "\<forall>i \<in> used_set h. i < length (kkeys h) \<longrightarrow> kkeys h ! i \<noteq> None" and i: "i \<in> used_set h"
  shows "unat j \<le> i \<Longrightarrow> unat (n_buckets h) < f + unat j \<Longrightarrow> rehash_loop hash msk f j h nf = Inl OutOfBounds"
proof (induction f arbitrary: j)
  case 0
  then show ?case using used_less [OF i] by simp
next
  case (Suc f)
  have j: "unat j < unat (n_buckets h)" using Suc.prems(1) used_less [OF i] by simp
  then have ne: "j \<noteq> n_buckets h" by auto
  note e = ac_iseither_eq [OF fl j]
  show ?case
  proof (cases "unat j \<in> used_set h")
    case True
    then show ?thesis using e ne j ks v
      by (auto simp: used_set_def key_at_def arr_get_def split: option.splits)
  next
    case False
    then have "unat (j + 1) \<le> i" using Suc.prems(1) i unat_plus_one [OF j] by (cases "i = unat j") auto
    then show ?thesis using Suc.IH [of "j + 1"] Suc.prems(2) unat_plus_one [OF j] False e ne j by (simp add: used_set_def)
  qed
qed

lemma resize_too_big:
  assumes ok: "kh_ok hash eq h" and few: "ksize h < hash_upper (new_size req)" and some: "ksize h \<noteq> 0"
    and grow: "n_buckets h < new_size req" and big: "2 ^ 28 \<le> unat (new_size req)"
  shows "kh_resize_A kb hash h req = Inl OutOfBounds"
proof -
  let ?n = "new_size req"
  let ?h = "realloc_kh kb ?n h"
  note o = kh_ok_old [OF ok]
  have s: "n_buckets ?h = n_buckets h" "kflags ?h = kflags h" "used_set ?h = used_set h"
    by (simp_all add: realloc_kh_def used_set_def)
  have v: "kvals ?h = []" using realloc_lost [OF pow2_new_size big] by (simp add: realloc_kh_def)
  have ks: "kkeys ?h ! i \<noteq> None" if "i \<in> used_set h" "i < length (kkeys ?h)" for i
    using that keys_Some [OF o(4) that(1)] o(2) used_less [OF that(1)]
    by (auto simp: realloc_kh_def realloc_arr_def grow_arr_def nth_append split: option.splits)
  have "card (used_set h) \<noteq> 0" using some o(5) by (metis unat_eq_zero)
  then obtain i where i: "i \<in> used_set h" by (metis card.empty ex_in_conv)
  have "rehash_loop hash (?n - 1) (Suc (unat (n_buckets h))) 0 ?h (new_flags_for ?n) = Inl OutOfBounds"
    by (rule rehash_lost [where i = i]) (use o(1) v ks i s in auto)
  moreover have c: "(hash_upper ?n \<le> ksize h) = False" using few by simp
  ultimately show ?thesis
    unfolding kh_resize_A_def Let_def new_size_def [unfolded Let_def, symmetric]
    by (simp only: c grow if_False if_True s(1) bindE_Inl)
qed

end
