(* ===== verification/TW_KHashMap.thy ===== *)
theory TW_KHashMap
  imports TW_KHashResize
begin

unbundle bit_operations_syntax

text \<open>
  The hash table as a finite map: what kh_put_A, kh_del_A and kh_clear_A do to the values that
  the keys of the table have.
\<close>

section \<open>The value of a key\<close>

definition lookup :: "('k \<Rightarrow> 'k \<Rightarrow> bool) \<Rightarrow> ('k, 'v) kh \<Rightarrow> 'k \<Rightarrow> 'v option option" where
  "lookup eq h key = map_option (\<lambda>i. kvals h ! i) (bucket_of eq h key)"

lemma unat_hash_upper: "pow2 n \<Longrightarrow> unat (hash_upper n) = (unat n * 77 + 50) div 100"
proof -
  assume p: "pow2 n"
  have "unat n < 2 ^ LENGTH(32)" by (rule unsigned_less)
  then have "(unat n * 77 + 50) div 100 < 2 ^ LENGTH(32)" using pow2_pos [OF p] by simp
  then show ?thesis unfolding hash_upper_def by (simp only: unat_of_nat mod_less)
qed

lemma new_size_ge:
  assumes "0 < req" and "unat req \<le> 2 ^ 31"
  shows "unat req \<le> unat (new_size req)"
proof -
  obtain m where "unat (kroundup32 req) = 2 ^ m" "unat req \<le> 2 ^ m"
    using kroundup32_power [OF assms] by blast
  then show ?thesis by (auto simp: new_size_def Let_def word_less_nat_alt)
qed

lemma pow2_next: "pow2 n \<Longrightarrow> pow2 k \<Longrightarrow> unat n < unat k \<Longrightarrow> 2 * unat n \<le> unat k"
proof -
  assume "pow2 n" "pow2 k" and lt: "unat n < unat k"
  then obtain a b where a: "unat n = 2 ^ a" and b: "unat k = 2 ^ b" unfolding pow2_def by blast
  then have "a < b" using lt by simp
  then have "(2 :: nat) ^ Suc a \<le> 2 ^ b" by (intro power_increasing) simp_all
  then show ?thesis using a b by simp
qed

lemma new_size_le:
  assumes "0 < req" and "unat req \<le> 2 ^ 31"
  shows "unat (new_size req) < max 5 (2 * unat req)"
proof -
  obtain m where "unat (kroundup32 req) = 2 ^ m" "2 ^ m < 2 * unat req"
    using kroundup32_power [OF assms] by blast
  then show ?thesis by (auto simp: new_size_def Let_def)
qed

text \<open>A table grows only while it is at least half full.\<close>

lemma kh_put_room_few:
  assumes p2: "pow2 (n_buckets h)" and big: "unat (n_buckets h) \<le> 2 ^ 30"
    and k: "unat (ksize h) \<le> unat (hash_upper (n_buckets h))"
  shows "push_bit 1 (ksize h) < n_buckets h \<Longrightarrow> ksize h < hash_upper (new_size (n_buckets h - 1))
      \<and> unat (new_size (n_buckets h - 1)) \<le> unat (n_buckets h)"
    and "ksize h < hash_upper (new_size (n_buckets h + 1))"
    and "\<not> push_bit 1 (ksize h) < n_buckets h \<Longrightarrow> unat (new_size (n_buckets h + 1)) \<le> 4 * unat (ksize h) + 1"
    and "unat (new_size (n_buckets h + 1)) \<le> 2 * unat (n_buckets h)"
proof -
  let ?n = "n_buckets h"
  have n4: "4 \<le> unat ?n" by (rule pow2_pos [OF p2])
  have un: "unat (hash_upper ?n) < unat ?n" by (rule hash_upper_less [OF p2])
  note up = unat_hash_upper [OF pow2_new_size]
  have dbl: "unat (push_bit 1 (ksize h)) = 2 * unat (ksize h)"
    using k un big by (simp add: push_bit_eq_mult unat_word_ariths)
  show "ksize h < hash_upper (new_size (?n - 1)) \<and> unat (new_size (?n - 1)) \<le> unat ?n"
    if s: "push_bit 1 (ksize h) < ?n"
  proof
    have m1: "unat (?n - 1) = unat ?n - 1" using pow2_ne [OF p2] by (simp add: unat_minus_one)
    have "unat (new_size (?n - 1)) < 2 * unat ?n"
      using new_size_le [of "?n - 1"] m1 n4 big by (simp add: word_less_nat_alt) linarith
    then show "unat (new_size (?n - 1)) \<le> unat ?n"
      using pow2_next [OF p2 pow2_new_size, of "?n - 1"] by linarith
    have "2 * unat (ksize h) < unat ?n" using s dbl by (simp add: word_less_nat_alt)
    moreover note m1
    moreover have "unat ?n - 1 \<le> unat (new_size (?n - 1))"
      using new_size_ge [of "?n - 1"] m1 n4 big by (simp add: word_less_nat_alt)
    ultimately show "ksize h < hash_upper (new_size (?n - 1))"
      unfolding word_less_nat_alt up using n4 by linarith
  qed
  have p1: "unat (?n + 1) = Suc (unat ?n)" using big by (simp add: unat_word_ariths)
  have "unat (?n + 1) \<le> unat (new_size (?n + 1))"
    using p1 big by (intro new_size_ge) (simp_all add: word_less_nat_alt)
  then have "2 * unat ?n \<le> unat (new_size (?n + 1))"
    using p1 by (intro pow2_next [OF p2 pow2_new_size]) simp
  then show "ksize h < hash_upper (new_size (?n + 1))"
    unfolding word_less_nat_alt up using k un by linarith
  show "unat (new_size (?n + 1)) \<le> 2 * unat ?n"
  proof -
    obtain a where a: "unat (new_size (?n + 1)) = 2 ^ a" using pow2_new_size [of "?n + 1"] unfolding pow2_def by blast
    have "a \<noteq> 0" using a pow2_pos [OF pow2_new_size, of "?n + 1"] by (intro notI) simp
    then have "even (unat (new_size (?n + 1)))" using a by simp
    moreover have "unat (new_size (?n + 1)) < max 5 (2 * unat (?n + 1))"
      using p1 big by (intro new_size_le) (simp_all add: word_less_nat_alt)
    ultimately show ?thesis using n4 unfolding p1 by (auto elim!: evenE)
  qed
  show "unat (new_size (?n + 1)) \<le> 4 * unat (ksize h) + 1" if "\<not> push_bit 1 (ksize h) < ?n"
    using new_size_le [of "?n + 1"] that dbl p1 big n4 by (simp add: word_less_nat_alt)
qed

context hashing begin

lemma lookup_iff:
  assumes "kh_keys_ok hash eq h"
  shows "lookup eq h key = Some v \<longleftrightarrow> (\<exists>l. (Some l, v) \<in> entries h \<and> eq l key)"
proof
  assume "lookup eq h key = Some v"
  then obtain i where i: "bucket_of eq h key = Some i" "kvals h ! i = v"
    unfolding lookup_def by auto
  then obtain l where "i \<in> used_set h" "kkeys h ! i = Some l" "eq l key"
    unfolding bucket_of_iff [OF assms] by blast
  then show "\<exists>l. (Some l, v) \<in> entries h \<and> eq l key" using i(2) by (force simp: entries_def ents_def)
next
  assume "\<exists>l. (Some l, v) \<in> entries h \<and> eq l key"
  then obtain l i where "i \<in> used_set h" "kkeys h ! i = Some l" "kvals h ! i = v" "eq l key"
    by (force simp: entries_def ents_def)
  then show "lookup eq h key = Some v" using bucket_of_iff [OF assms, of key i] by (simp add: lookup_def)
qed

lemma lookup_entries_eq:
  assumes "kh_keys_ok hash eq h" "kh_keys_ok hash eq h'" "entries h' = entries h"
  shows "lookup eq h' key = lookup eq h key"
proof -
  have "lookup eq h' key = Some v \<longleftrightarrow> lookup eq h key = Some v" for v
    unfolding lookup_iff [OF assms(1)] lookup_iff [OF assms(2)] assms(3) by (rule refl)
  then show ?thesis by (metis not_None_eq)
qed

lemma put_room_ok:
  assumes ok: "kh_ok hash eq h" and big: "kh_fits kb (max 4 (2 * unat (n_buckets h)))"
  obtains h' where "put_room kb hash h = Inr h'" and "kh_arrays h'" "kh_keys_ok hash eq h'" "kh_counts h'"
    and "entries h' = entries h" and "ksize h' = ksize h" and "n_occupied h' < upper_bound h'"
    and "unat (n_buckets h') \<le> max (max 4 (unat (n_buckets h))) (4 * unat (ksize h) + 1)"
proof (cases "upper_bound h \<le> n_occupied h")
  case False
  then have "h \<noteq> kh_init_A" by (auto simp: kh_init_A_def)
  then have "kh_arrays h" "kh_keys_ok hash eq h" "kh_counts h" using ok unfolding kh_ok_def by blast+
  moreover have "put_room kb hash h = Inr h" using False by (simp add: put_room_def)
  ultimately show ?thesis using False that [of h] by (simp add: not_le)
next
  case True
  have b30: "unat (n_buckets h) \<le> 2 ^ 30" using big by (simp add: kh_fits_def)
  obtain req where r: "put_room kb hash h = kh_resize_A kb hash h req" "ksize h < hash_upper (new_size req)"
    "unat (new_size req) \<le> max (max 4 (unat (n_buckets h))) (4 * unat (ksize h) + 1)"
    "unat (new_size req) \<le> max 4 (2 * unat (n_buckets h))"
  proof (cases rule: kh_ok_cases [OF ok])
    case 1
    have "kroundup32 1 = 1" by (simp add: kroundup32_def)
    then have "(0 :: khint) < hash_upper (new_size 1)" "new_size 1 = 4"
      by (simp_all add: new_size_def hash_upper_def)
    then show ?thesis using True that [of 1] 1 by (simp add: put_room_def kh_init_A_def)
  next
    case 2
    have "card (used_set h) \<le> card (occ_set h)" by (rule card_mono) (simp_all add: used_occ)
    then have "unat (ksize h) \<le> unat (hash_upper (n_buckets h))"
      using 2(3) unfolding kh_counts_def by (auto simp: word_le_nat_alt)
    note few = kh_put_room_few [OF arrays_pow2 [OF 2(1)] b30 this]
    show ?thesis
    proof (cases "push_bit 1 (ksize h) < n_buckets h")
      case less: True
      show ?thesis
        by (rule that [of "n_buckets h - 1"]) (use True less few(1) [OF less] in \<open>auto simp: put_room_def\<close>)
    next
      case more: False
      show ?thesis
        by (rule that [of "n_buckets h + 1"]) (use True more few(2,4) few(3) [OF more] in \<open>simp_all add: put_room_def\<close>)
    qed
  qed
  obtain h' where "kh_resize_A kb hash h req = Inr h'" "kh_arrays h'" "kh_keys_ok hash eq h'"
    "kh_counts h'" "entries h' = entries h" "n_buckets h' = new_size req"
    "n_occupied h' = ksize h" "ksize h' = ksize h" "upper_bound h' = hash_upper (new_size req)"
    using resize_ok [OF ok r(2) kh_fits_mono [OF big r(4)]] by blast
  then show ?thesis using r by (intro that [of h']) simp_all
qed

theorem put_spec:
  assumes ok: "kh_ok hash eq h" and big: "kh_fits kb (max 4 (2 * unat (n_buckets h)))"
  obtains x r h' where "kh_put_A kb hash eq h key = Inr (x, r, h')" and "kh_arrays h'" and "kh_ok hash eq h'"
    and "bucket_of eq h' key = Some (unat x)"
    and "\<And>k. \<not> eq key k \<Longrightarrow> lookup eq h' k = lookup eq h k"
    and "(r = 0) = (lookup eq h key \<noteq> None)"
    and "lookup eq h key \<noteq> None \<Longrightarrow> lookup eq h' key = lookup eq h key"
    and "unat (ksize h') = unat (ksize h) + (if lookup eq h key = None then 1 else 0)"
    and "unat (n_buckets h') \<le> max (max 4 (unat (n_buckets h))) (4 * unat (ksize h) + 1)"
proof -
  obtain h1 where h1: "put_room kb hash h = Inr h1" "kh_arrays h1" "kh_keys_ok hash eq h1" "kh_counts h1"
    "entries h1 = entries h" "ksize h1 = ksize h" "n_occupied h1 < upper_bound h1"
    "unat (n_buckets h1) \<le> max (max 4 (unat (n_buckets h))) (4 * unat (ksize h) + 1)"
    using put_room_ok [OF ok big] by blast
  have l1: "lookup eq h1 k = lookup eq h k" for k
    by (rule lookup_entries_eq [OF kh_ok_old(4) [OF ok] h1(3,5)])
  obtain x where x: "unat x < unat (n_buckets h1)"
    "\<And>i. bucket_of eq h1 key = Some i \<Longrightarrow> unat x = i
      \<and> bindE (put_place hash eq h1 key) (put_fill h1 key) = Inr (x, 0, h1)"
    "bucket_of eq h1 key = None \<Longrightarrow> unat x \<notin> used_set h1
      \<and> bindE (put_place hash eq h1 key) (put_fill h1 key)
          = Inr (x, if unat x \<in> occ_set h1 then 2 else 1, put_bucket (unat x) key h1)
      \<and> kh_arrays (put_bucket (unat x) key h1) \<and> kh_keys_ok hash eq (put_bucket (unat x) key h1)
      \<and> kh_counts (put_bucket (unat x) key h1)"
    using put_with_room [OF h1(2-4,7)] by blast
  have put: "kh_put_A kb hash eq h key = bindE (put_place hash eq h1 key) (put_fill h1 key)"
    using h1(1) by (simp add: kh_put_A_def)
  show ?thesis
  proof (cases "bucket_of eq h1 key")
    case (Some i)
    then have some: "lookup eq h key \<noteq> None" using l1 [of key] by (metis lookup_def option.simps(8,9) option.distinct(1))
    show ?thesis
      by (rule that [of x 0 h1]) (use x(2) [OF Some] Some put h1 l1 some in \<open>simp_all add: kh_ok_def\<close>)
  next
    case None
    then have none: "lookup eq h key = None" using l1 [of key] by (simp add: lookup_def)
    note p = x(3) [OF None]
    let ?h = "put_bucket (unat x) key h1"
    have b: "bucket_of eq ?h k = (if eq key k then Some (unat x) else bucket_of eq h1 k)" for k
      using bucket_of_put [OF h1(2,3) x(1) _ None] p by blast
    have "unat (ksize h1) < unat (upper_bound h1)"
      using h1(4,7) card_mono [OF finite_sets(2) used_occ, of h1] unfolding kh_counts_def
      by (simp add: word_less_nat_alt)
    then have "unat (ksize ?h) = Suc (unat (ksize h))" using unat_plus_one h1(6) by simp
    moreover have "lookup eq ?h k = lookup eq h k" if "\<not> eq key k" for k
      using b [of k] l1 [of k] that by (simp add: lookup_def)
    ultimately show ?thesis
      by (intro that [of x "if unat x \<in> occ_set h1 then 2 else 1" ?h]) (use p put none b [of key] eq_refl h1(8) in \<open>simp_all add: kh_ok_def\<close>)
  qed
qed

theorem del_spec:
  assumes ok: "kh_ok hash eq h" and b: "bucket_of eq h key = Some i"
  obtains h' where "kh_del_A h (of_nat i) = Inr h'" and "kh_ok hash eq h'"
    and "\<And>k. lookup eq h' k = (if eq key k then None else lookup eq h k)"
    and "unat (ksize h') = unat (ksize h) - 1" and "unat (ksize h) \<noteq> 0"
proof -
  note keys = kh_ok_old(4) [OF ok]
  have i: "i \<in> used_set h" using b unfolding bucket_of_iff [OF keys] by blast
  then have "h \<noteq> kh_init_A" by (auto simp: used_set_def kh_init_A_def)
  then have h: "kh_arrays h" "kh_counts h" using ok unfolding kh_ok_def by blast+
  have u: "unat (of_nat i :: khint) = i" by (rule unat_of_bucket [OF used_less [OF i]])
  have "kh_del_A h (of_nat i) = Inr (del_bucket i h)"
    using kh_del_used [OF h(1), of "of_nat i"] i u by simp
  moreover have "kh_ok hash eq (del_bucket i h)"
    using del_bucket_ok [OF h(1) keys h(2) i] unfolding kh_ok_def by blast
  moreover have "lookup eq (del_bucket i h) k = (if eq key k then None else lookup eq h k)" for k
    using bucket_of_del [OF h(1) keys h(2) b, of k] by (simp add: lookup_def del_bucket_def)
  moreover have "card (used_set h) \<noteq> 0" using i by auto
  then have "unat (ksize h) \<noteq> 0" using h(2) by (simp add: kh_counts_def)
  moreover have "unat (ksize (del_bucket i h)) = unat (ksize h) - 1"
    using del_bucket_ok(3) [OF h(1) keys h(2) i] h(2) del_bucket_sets(1) [OF h(1) i] i
    by (simp add: kh_counts_def)
  ultimately show ?thesis using that by blast
qed

end

end
