(* ===== verification/TW_KHash32.thy ===== *)
theory TW_KHash32
  imports TW_KHashMap
begin

unbundle bit_operations_syntax

text \<open>
  The class TW_KHash_32 of include/TW/tw_khash.h: a map from keys to objects of type DATA that it
  allocates itself. The table holds pointers to them in a heap; the null pointer stands there when
  an allocation has failed. The keys and the objects are values, a parameter \<open>new\<close> is the object that
  the default constructor builds.
\<close>

section \<open>Hashing a key\<close>

text \<open>\<^verbatim>\<open>__hash_func\<close> of the class on a 64-bit machine: the hash that the user gives for the key type, folded
  to 32 bits. From include/TW/tw_hashes.h, the hash and the equality of 32-bit integers, and the
  hash of a type that has none of its own.\<close>

definition hash_func :: "('k \<Rightarrow> 64 word) \<Rightarrow> 'k \<Rightarrow> khint" where
  "hash_func tw_hash key = kh_int64_hash_func (tw_hash key)"

definition tw_hash_default :: "'k \<Rightarrow> 64 word" where
  "tw_hash_default x = 0"

definition hash_uint32t :: "32 word \<Rightarrow> 64 word" where
  "hash_uint32t x = ucast x"

definition uint32_eqFunc :: "32 word \<Rightarrow> 32 word \<Rightarrow> bool" where
  "uint32_eqFunc l r \<longleftrightarrow> l = r"

definition eqstr_numericP :: "'k \<Rightarrow> 'k \<Rightarrow> bool" where
  "eqstr_numericP kt1 kt2 \<longleftrightarrow> kt1 = kt2"

interpretation u32: hashing "hash_func hash_uint32t" uint32_eqFunc
  by unfold_locales (auto simp: uint32_eqFunc_def)

interpretation any_key: hashing "hash_func tw_hash_default" eqstr_numericP
  by unfold_locales (auto simp: eqstr_numericP_def)

section \<open>The state\<close>

record ('k, 'd) khash32 =
  khmap :: "('k, ptr) kh"
  k_lock :: bool
  iters_out :: int

definition val_at :: "('k, ptr) kh \<Rightarrow> khint \<Rightarrow> ptr res" where
  "val_at m i = bindE (arr_get (kvals m) (unat i)) (\<lambda>v.
     case v of None \<Rightarrow> Inl Uninit | Some p \<Rightarrow> Inr p)"

text \<open>\<^verbatim>\<open>TW_NEW_WALLOC(kh_value(KHASHMAP, k), DATA, DATA(d), _alloc)\<close> and
  \<^verbatim>\<open>TW_DELETE_WALLOC(old, DATA, _alloc)\<close>.\<close>

definition new_data :: "khint \<Rightarrow> 'd \<Rightarrow> ('k, ptr) kh \<Rightarrow> 'd heap \<Rightarrow> (('k, ptr) kh \<times> 'd heap) res" where
  "new_data k d m H = (case malloc H of (p, H) \<Rightarrow>
     bindE (arr_set (kvals m) (unat k) (Some p)) (\<lambda>vs.
     let m = m\<lparr>kvals := vs\<rparr> in
     if p = NULL then Inr (m, H) else bindE (construct p d H) (\<lambda>H. Inr (m, H))))"

definition delete_data :: "ptr \<Rightarrow> 'd heap \<Rightarrow> 'd heap res" where
  "delete_data p H = bindE (load p H) (\<lambda>_. free p H)"

text \<open>Every operation locks, works on the table and the heap, and unlocks.\<close>

type_synonym ('k, 'd, 'r) body = "('k, ptr) kh \<Rightarrow> 'd heap \<Rightarrow> ('r \<times> ('k, ptr) kh \<times> 'd heap) res"

definition locked :: "('k, 'd, 'r) body \<Rightarrow> ('k, 'd) khash32 \<Rightarrow> 'd heap \<Rightarrow> ('r \<times> ('k, 'd) khash32 \<times> 'd heap) res" where
  "locked f s H = bindE (mutex_lock (k_lock s)) (\<lambda>l.
     bindE (f (khmap s) H) (\<lambda>(r, m, H).
     bindE (mutex_unlock l) (\<lambda>l. Inr (r, s\<lparr>khmap := m, k_lock := l\<rparr>, H))))"

section \<open>The operations\<close>

definition khash_init :: "nat \<Rightarrow> ('k \<Rightarrow> khint) \<Rightarrow> int \<Rightarrow> ('k, 'd) khash32 res" where
  "khash_init kb hash items =
     bindE (if 0 < items then kh_resize_A kb hash kh_init_A (of_int items) else Inr kh_init_A) (\<lambda>m.
     Inr \<lparr>khmap = m, k_lock = False, iters_out = 0\<rparr>)"

text \<open>The part that the operations share: a new bucket for a key with a new object.\<close>

definition put_new :: "nat \<Rightarrow> ('k \<Rightarrow> khint) \<Rightarrow> ('k \<Rightarrow> 'k \<Rightarrow> bool) \<Rightarrow> 'k \<Rightarrow> 'd \<Rightarrow> ('k, 'd, khint) body" where
  "put_new kb hash eq key d m H = bindE (kh_put_A kb hash eq m key) (\<lambda>(k, r, m).
     bindE (new_data k d m H) (\<lambda>(m, H). Inr (k, m, H)))"

definition addReplace_old :: "nat \<Rightarrow> ('k \<Rightarrow> khint) \<Rightarrow> ('k \<Rightarrow> 'k \<Rightarrow> bool) \<Rightarrow> 'k \<Rightarrow> 'd \<Rightarrow> 'd \<Rightarrow> ('k, 'd, bool \<times> 'd) body" where
  "addReplace_old kb hash eq key dat oldref m H = bindE (kh_get_A hash eq m key) (\<lambda>k.
     if k \<noteq> n_buckets m then
       bindE (val_at m k) (\<lambda>old.
       bindE (if old \<noteq> NULL then load old H else Inr oldref) (\<lambda>oldref.
       bindE (delete_data old H) (\<lambda>H.
       bindE (new_data k dat m H) (\<lambda>(m, H). Inr ((True, oldref), m, H)))))
     else bindE (put_new kb hash eq key dat m H) (\<lambda>(k, m, H). Inr ((True, oldref), m, H)))"

definition addReplace :: "nat \<Rightarrow> ('k \<Rightarrow> khint) \<Rightarrow> ('k \<Rightarrow> 'k \<Rightarrow> bool) \<Rightarrow> 'k \<Rightarrow> 'd \<Rightarrow> ('k, 'd, bool) body" where
  "addReplace kb hash eq key dat m H = bindE (kh_get_A hash eq m key) (\<lambda>k.
     if k \<noteq> n_buckets m then
       bindE (val_at m k) (\<lambda>old.
       bindE (delete_data old H) (\<lambda>H.
       bindE (new_data k dat m H) (\<lambda>(m, H). Inr (True, m, H))))
     else bindE (put_new kb hash eq key dat m H) (\<lambda>(k, m, H). Inr (True, m, H)))"

definition addReplaceNew :: "nat \<Rightarrow> ('k \<Rightarrow> khint) \<Rightarrow> ('k \<Rightarrow> 'k \<Rightarrow> bool) \<Rightarrow> 'd \<Rightarrow> 'k \<Rightarrow> ('k, 'd, ptr) body" where
  "addReplaceNew kb hash eq new key m H = bindE (kh_get_A hash eq m key) (\<lambda>k.
     if k \<noteq> n_buckets m then
       bindE (val_at m k) (\<lambda>old.
       bindE (delete_data old H) (\<lambda>H.
       bindE (new_data k new m H) (\<lambda>(m, H).
       bindE (val_at m k) (\<lambda>p. Inr (p, m, H)))))
     else bindE (put_new kb hash eq key new m H) (\<lambda>(k, m, H).
       bindE (val_at m k) (\<lambda>p. Inr (p, m, H))))"

definition addNoreplaceNew :: "nat \<Rightarrow> ('k \<Rightarrow> khint) \<Rightarrow> ('k \<Rightarrow> 'k \<Rightarrow> bool) \<Rightarrow> 'd \<Rightarrow> 'k \<Rightarrow> ('k, 'd, ptr) body" where
  "addNoreplaceNew kb hash eq new key m H = bindE (kh_get_A hash eq m key) (\<lambda>k.
     if k = n_buckets m then
       bindE (put_new kb hash eq key new m H) (\<lambda>(k, m, H).
       bindE (val_at m k) (\<lambda>p. Inr (p, m, H)))
     else Inr (NULL, m, H))"

definition findOrNew :: "nat \<Rightarrow> ('k \<Rightarrow> khint) \<Rightarrow> ('k \<Rightarrow> 'k \<Rightarrow> bool) \<Rightarrow> 'd \<Rightarrow> 'k \<Rightarrow> ('k, 'd, ptr) body" where
  "findOrNew kb hash eq new key m H = bindE (kh_get_A hash eq m key) (\<lambda>k.
     if k \<noteq> n_buckets m then bindE (val_at m k) (\<lambda>p. Inr (p, m, H))
     else bindE (put_new kb hash eq key new m H) (\<lambda>(k, m, H).
       bindE (val_at m k) (\<lambda>p. Inr (p, m, H))))"

definition addNoreplace :: "nat \<Rightarrow> ('k \<Rightarrow> khint) \<Rightarrow> ('k \<Rightarrow> 'k \<Rightarrow> bool) \<Rightarrow> 'k \<Rightarrow> 'd \<Rightarrow> ('k, 'd, bool) body" where
  "addNoreplace kb hash eq key dat m H = bindE (kh_get_A hash eq m key) (\<lambda>k.
     if k = n_buckets m then
       bindE (put_new kb hash eq key dat m H) (\<lambda>(k, m, H). Inr (True, m, H))
     else Inr (False, m, H))"

definition remove_fill :: "('k \<Rightarrow> khint) \<Rightarrow> ('k \<Rightarrow> 'k \<Rightarrow> bool) \<Rightarrow> 'k \<Rightarrow> 'd \<Rightarrow> ('k, 'd, bool \<times> 'd) body" where
  "remove_fill hash eq key fill m H = bindE (kh_get_A hash eq m key) (\<lambda>k.
     if k \<noteq> n_buckets m then
       bindE (val_at m k) (\<lambda>d.
       bindE (if d \<noteq> NULL then bindE (load d H) (\<lambda>fill. bindE (delete_data d H) (\<lambda>H. Inr (fill, H)))
              else Inr (fill, H)) (\<lambda>(fill, H).
       bindE (kh_del_A m k) (\<lambda>m. Inr ((True, fill), m, H))))
     else Inr ((False, fill), m, H))"

definition remove :: "('k \<Rightarrow> khint) \<Rightarrow> ('k \<Rightarrow> 'k \<Rightarrow> bool) \<Rightarrow> 'k \<Rightarrow> ('k, 'd, bool) body" where
  "remove hash eq key m H = bindE (kh_get_A hash eq m key) (\<lambda>k.
     if k \<noteq> n_buckets m then
       bindE (val_at m k) (\<lambda>d.
       bindE (if d \<noteq> NULL then delete_data d H else Inr H) (\<lambda>H.
       bindE (kh_del_A m k) (\<lambda>m. Inr (True, m, H))))
     else Inr (False, m, H))"

definition find_fill :: "('k \<Rightarrow> khint) \<Rightarrow> ('k \<Rightarrow> 'k \<Rightarrow> bool) \<Rightarrow> 'k \<Rightarrow> 'd \<Rightarrow> ('k, 'd, bool \<times> 'd) body" where
  "find_fill hash eq key fill m H = bindE (kh_get_A hash eq m key) (\<lambda>k.
     if k \<noteq> n_buckets m then
       bindE (val_at m k) (\<lambda>p.
       if p \<noteq> NULL then bindE (load p H) (\<lambda>fill. Inr ((True, fill), m, H))
       else Inr ((False, fill), m, H))
     else Inr ((False, fill), m, H))"

definition find_ptr :: "('k \<Rightarrow> khint) \<Rightarrow> ('k \<Rightarrow> 'k \<Rightarrow> bool) \<Rightarrow> 'k \<Rightarrow> ('k, 'd, ptr) body" where
  "find_ptr hash eq key m H = bindE (kh_get_A hash eq m key) (\<lambda>k.
     if k \<noteq> n_buckets m then bindE (val_at m k) (\<lambda>p. Inr (p, m, H))
     else Inr (NULL, m, H))"

text \<open>\<^verbatim>\<open>(int) kh_size(KHASHMAP)\<close>, without the lock.\<close>

definition khash_size :: "('k, 'd) khash32 \<Rightarrow> int" where
  "khash_size s = sint (ksize (khmap s))"

text \<open>removeAll: the loop over the buckets, with the destructor of the key, then kh_clear_A.\<close>

fun remove_loop :: "nat \<Rightarrow> khint \<Rightarrow> ('k, ptr) kh \<Rightarrow> 'd heap \<Rightarrow> (('k, ptr) kh \<times> 'd heap) res" where
  "remove_loop 0 k m H = Inl Diverges"
| "remove_loop (Suc f) k m H =
     (if k = n_buckets m then Inr (m, H) else
      bindE (ac_iseither (kflags m) k) (\<lambda>e.
      if e then remove_loop f (k + 1) m H else
      bindE (val_at m k) (\<lambda>d.
      bindE (if d \<noteq> NULL then delete_data d H else Inr H) (\<lambda>H.
      bindE (key_at m k) (\<lambda>_.
      bindE (arr_set (kkeys m) (unat k) None) (\<lambda>ks.
      remove_loop f (k + 1) (m\<lparr>kkeys := ks\<rparr>) H))))))"

definition removeAll :: "('k, 'd, bool) body" where
  "removeAll m H = bindE (remove_loop (Suc (unat (n_buckets m))) 0 m H) (\<lambda>(m, H).
     bindE (kh_clear_A m) (\<lambda>m. Inr (True, m, H)))"

text \<open>The destructor. kh_destroy_A gives back the arrays, which are not in the heap of the objects.\<close>

definition khash_destroy :: "('k, 'd) khash32 \<Rightarrow> 'd heap \<Rightarrow> 'd heap res" where
  "khash_destroy s H = bindE (locked removeAll s H) (\<lambda>(_, _, H). Inr H)"

section \<open>The iterator\<close>

fun skip_loop :: "nat \<Rightarrow> ('k, ptr) kh \<Rightarrow> khint \<Rightarrow> khint res" where
  "skip_loop 0 m i = Inl Diverges"
| "skip_loop (Suc f) m i =
     (if i = n_buckets m then Inr i else
      bindE (ac_iseither (kflags m) i) (\<lambda>e. if e then skip_loop f m (i + 1) else Inr i))"

definition gotoStart :: "('k, 'd) khash32 \<Rightarrow> (khint \<times> ('k, 'd) khash32) res" where
  "gotoStart s = bindE (mutex_lock (k_lock s)) (\<lambda>l.
     bindE (skip_loop (Suc (unat (n_buckets (khmap s)))) (khmap s) 0) (\<lambda>i.
     bindE (mutex_unlock l) (\<lambda>l. Inr (i, s\<lparr>k_lock := l, iters_out := iters_out s + 1\<rparr>))))"

definition hiter_getNext :: "('k, 'd) khash32 \<Rightarrow> khint \<Rightarrow> (bool \<times> khint) res" where
  "hiter_getNext s i = (if i = n_buckets (khmap s) then Inr (False, i) else
     bindE (skip_loop (Suc (unat (n_buckets (khmap s)))) (khmap s) (i + 1)) (\<lambda>i.
     Inr (i \<noteq> n_buckets (khmap s), i)))"

definition hiter_atEnd :: "('k, 'd) khash32 \<Rightarrow> khint \<Rightarrow> bool" where
  "hiter_atEnd s i \<longleftrightarrow> i = n_buckets (khmap s)"

definition hiter_data :: "('k, 'd) khash32 \<Rightarrow> khint \<Rightarrow> ptr res" where
  "hiter_data s i = (if i \<noteq> n_buckets (khmap s) then val_at (khmap s) i else Inr NULL)"

definition hiter_key :: "('k, 'd) khash32 \<Rightarrow> khint \<Rightarrow> 'k option res" where
  "hiter_key s i = (if i \<noteq> n_buckets (khmap s)
     then bindE (key_at (khmap s) i) (\<lambda>k. Inr (Some k)) else Inr None)"

definition hiter_setData :: "ptr \<Rightarrow> ('k, 'd) khash32 \<Rightarrow> khint \<Rightarrow> ('k, 'd) khash32 res" where
  "hiter_setData p s i = (if i \<noteq> n_buckets (khmap s) then
     bindE (arr_set (kvals (khmap s)) (unat i) (Some p)) (\<lambda>vs.
       Inr (s\<lparr>khmap := (khmap s)\<lparr>kvals := vs\<rparr>\<rparr>))
     else Inr s)"

definition releaseIter :: "('k, 'd) khash32 \<Rightarrow> ('k, 'd) khash32 res" where
  "releaseIter s = bindE (mutex_lock (k_lock s)) (\<lambda>l.
     bindE (mutex_unlock l) (\<lambda>l.
     Inr (s\<lparr>k_lock := l, iters_out := (if 0 < iters_out s then iters_out s - 1 else iters_out s)\<rparr>)))"

end
