(* ===== verification/TW_KHash32Spec.thy ===== *)
theory TW_KHash32Spec
  imports TW_KHash32
begin

unbundle bit_operations_syntax

text \<open>
  TW_KHash_32 against its specification: a finite map from keys to objects, with every object that
  the map gives up freed, and no other one.
\<close>

section \<open>Contents and ownership\<close>

definition contents :: "('k \<Rightarrow> 'k \<Rightarrow> bool) \<Rightarrow> ('k, ptr) kh \<Rightarrow> 'd heap \<Rightarrow> 'k \<Rightarrow> 'd option" where
  "contents eq m H key = (case lookup eq m key of
     Some (Some p) \<Rightarrow> (case cell_at H p of Obj d \<Rightarrow> Some d | _ \<Rightarrow> None) | _ \<Rightarrow> None)"

text \<open>The objects of the table.\<close>

definition owned :: "('k \<Rightarrow> 'k \<Rightarrow> bool) \<Rightarrow> ('k, ptr) kh \<Rightarrow> ptr set" where
  "owned eq m = {p. p \<noteq> NULL \<and> (\<exists>k. lookup eq m k = Some (Some p))}"

text \<open>Every key of the table has a pointer, null or to an object that no other key has. The cells
  in use are those of the table and those of \<open>F\<close>.\<close>

definition khash_ok :: "('k \<Rightarrow> khint) \<Rightarrow> ('k \<Rightarrow> 'k \<Rightarrow> bool) \<Rightarrow> ptr set \<Rightarrow> ('k, ptr) kh \<Rightarrow> 'd heap \<Rightarrow> bool" where
  "khash_ok hash eq F m H \<longleftrightarrow> kh_ok hash eq m
   \<and> (\<forall>k v. lookup eq m k = Some v \<longrightarrow> (\<exists>p. v = Some p \<and> (p = NULL \<or> (\<exists>d. cell_at H p = Obj d))))
   \<and> (\<forall>k l p. lookup eq m k = Some (Some p) \<longrightarrow> lookup eq m l = Some (Some p) \<longrightarrow> p \<noteq> NULL \<longrightarrow> eq k l)
   \<and> live H = F \<union> owned eq m \<and> F \<inter> owned eq m = {}"

lemma khash_okD:
  assumes "khash_ok hash eq F m H"
  shows "kh_ok hash eq m" and "live H = F \<union> owned eq m" and "F \<inter> owned eq m = {}"
  using assms by (simp_all add: khash_ok_def)

lemma khash_ok_cell:
  assumes "khash_ok hash eq F m H" and "lookup eq m k = Some v"
  obtains p where "v = Some p" and "p = NULL" | p d where "v = Some p" and "p \<noteq> NULL" and "cell_at H p = Obj d"
  using assms unfolding khash_ok_def by blast

lemma khash_ok_inj:
  "khash_ok hash eq F m H \<Longrightarrow> lookup eq m k = Some (Some p) \<Longrightarrow> lookup eq m l = Some (Some p) \<Longrightarrow>
    p \<noteq> NULL \<Longrightarrow> eq k l"
  unfolding khash_ok_def by blast

text \<open>The object \<open>new_data\<close> builds, and the pointer it stores.\<close>

definition alloc_obj :: "'d \<Rightarrow> 'd heap \<Rightarrow> ptr \<times> 'd heap" where
  "alloc_obj d H = (if room H = 0 then (NULL, H) else (Suc (heap_size H), new_obj d H))"

lemma new_data_eq:
  assumes "unat k < length (kvals m)" and "alloc_obj d H = (p, H')"
  shows "new_data k d m H = Inr (set_val (unat k) (Some p) m, H')"
  using assms unfolding new_data_def alloc_obj_def
  by (auto simp: malloc_def set_val_def construct_new Let_def split: if_splits)

lemma alloc_obj_cases:
  assumes "alloc_obj d H = (p, H')"
  obtains "p = NULL" "H' = H" "room H = 0"
  | "0 < room H" "p = Suc (heap_size H)" "H' = new_obj d H"
  using assms unfolding alloc_obj_def by (auto split: if_splits)

lemma delete_data_ok:
  assumes "cell_at H p = Obj d"
  shows "delete_data p H = Inr ((put_cell p Freed H)\<lparr>room := Suc (room H)\<rparr>)"
  using assms free_ok [of H p] by (simp add: delete_data_def)

text \<open>The heap without an object.\<close>

definition without :: "ptr \<Rightarrow> 'd heap \<Rightarrow> 'd heap" where
  "without p H = (put_cell p Freed H)\<lparr>room := Suc (room H)\<rparr>"

lemma without_simps:
  assumes "cell_at H p = Obj d"
  shows "cell_at (without p H) q = (if q = p then Freed else cell_at H q)"
    and "live (without p H) = live H - {p}" and "room (without p H) = Suc (room H)"
  using assms by (simp_all add: without_def cell_at_put live_put_Freed)

context hashing begin

lemma bucket_of_cong: "eq k l \<Longrightarrow> bucket_of eq m k = bucket_of eq m l"
proof -
  assume "eq k l"
  then have "eq a k = eq a l" for a using eq_sym eq_trans by blast
  then show ?thesis unfolding bucket_of_def by (simp cong: option.case_cong)
qed

lemma lookup_cong: "eq k l \<Longrightarrow> lookup eq m k = lookup eq m l"
  unfolding lookup_def by (simp add: bucket_of_cong)

lemma contents_cong: "eq k l \<Longrightarrow> contents eq m H k = contents eq m H l"
  unfolding contents_def by (simp add: lookup_cong)

lemma lookup_set_val:
  assumes keys: "kh_keys_ok hash eq m" and b: "bucket_of eq m key = Some i" and len: "i < length (kvals m)"
  shows "lookup eq (set_val i v m) k = (if eq key k then Some v else lookup eq m k)"
proof (cases "eq key k")
  case True
  then show ?thesis using b len bucket_of_cong [OF True, of m] by (simp add: lookup_def)
next
  case False
  have "j \<noteq> i" if bk: "bucket_of eq m k = Some j" for j
  proof
    assume "j = i"
    then obtain a c where "kkeys m ! i = Some a" "eq a key" "kkeys m ! i = Some c" "eq c k"
      using b bk unfolding bucket_of_iff [OF keys] by blast
    then show False using False eq_trans eq_sym by (metis option.inject)
  qed
  then show ?thesis using False by (cases "bucket_of eq m k") (auto simp: lookup_def)
qed

text \<open>Storing a new object for a key, in a table that is in order for the other keys.\<close>

lemma store_new:
  assumes ok: "kh_ok hash eq m" and b: "bucket_of eq m key = Some i"
    and good_all: "\<forall>k v. \<not> eq key k \<longrightarrow> lookup eq m k = Some v \<longrightarrow> (\<exists>p. v = Some p \<and> (p = NULL \<or> (\<exists>d. cell_at H p = Obj d)))"
    and inj_all: "\<forall>k l p. \<not> eq key k \<longrightarrow> \<not> eq key l \<longrightarrow> lookup eq m k = Some (Some p) \<longrightarrow>
      lookup eq m l = Some (Some p) \<longrightarrow> p \<noteq> NULL \<longrightarrow> eq k l"
    and live: "live H = F \<union> {p. p \<noteq> NULL \<and> (\<exists>k. \<not> eq key k \<and> lookup eq m k = Some (Some p))}"
      "F \<inter> {p. p \<noteq> NULL \<and> (\<exists>k. \<not> eq key k \<and> lookup eq m k = Some (Some p))} = {}"
    and a: "alloc_obj d H = (p, H')"
  shows "khash_ok hash eq F (set_val i (Some p) m) H'"
    and "contents eq (set_val i (Some p) m) H' k =
      (if eq key k then (if room H = 0 then None else Some d) else contents eq m H k)"
proof -
  note good = good_all [rule_format] and inj = inj_all [rule_format]
  note keys = kh_ok_old(4) [OF ok]
  have "i \<in> used_set m" using b unfolding bucket_of_iff [OF keys] by blast
  then have len: "i < length (kvals m)" using used_less kh_ok_old(3) [OF ok] by fastforce
  note look = lookup_set_val [OF keys b len]
  have fresh: "q \<noteq> Suc (heap_size H)" if "cell_at H q = Obj c" for q c using that by auto
  have cell: "cell_at H' q = cell_at H q" if "cell_at H q \<noteq> Freed" for q
    using a that by (rule_tac alloc_obj_cases) (auto simp: cell_at_new)
  have own: "owned eq (set_val i (Some p) m) =
    (if p = NULL then {} else {p}) \<union> {p. p \<noteq> NULL \<and> (\<exists>k. \<not> eq key k \<and> lookup eq m k = Some (Some p))}"
    unfolding owned_def look using eq_refl [of key] by auto
  show "contents eq (set_val i (Some p) m) H' k =
      (if eq key k then (if room H = 0 then None else Some d) else contents eq m H k)"
  proof (cases "eq key k")
    case True
    then show ?thesis using a
      by (rule_tac alloc_obj_cases [OF a]) (simp_all add: contents_def look cell_at_new)
  next
    case False
    show ?thesis
    proof (cases "lookup eq m k")
      case None
      then show ?thesis using False by (simp add: contents_def look)
    next
      case (Some v)
      then obtain q where q: "v = Some q" "q = NULL \<or> (\<exists>d. cell_at H q = Obj d)"
        using good [OF False] by blast
      then show ?thesis using False Some cell [of q] by (auto simp: contents_def look)
    qed
  qed
  show "khash_ok hash eq F (set_val i (Some p) m) H'"
    unfolding khash_ok_def
  proof (intro conjI allI impI)
    show "kh_ok hash eq (set_val i (Some p) m)" by (rule set_val_ok [OF ok])
    show "\<exists>q. v = Some q \<and> (q = NULL \<or> (\<exists>d. cell_at H' q = Obj d))"
      if lk: "lookup eq (set_val i (Some p) m) k = Some v" for k v
    proof (cases "eq key k")
      case True
      then have "v = Some p" using lk by (simp add: look)
      then show ?thesis by (rule_tac alloc_obj_cases [OF a]) (simp_all add: cell_at_new)
    next
      case False
      then obtain q where "v = Some q" "q = NULL \<or> (\<exists>d. cell_at H q = Obj d)"
        using good [OF False, of v] lk by (auto simp: look)
      then show ?thesis using cell [of q] by auto
    qed
    show "eq k l" if "lookup eq (set_val i (Some p) m) k = Some (Some q)"
      "lookup eq (set_val i (Some p) m) l = Some (Some q)" "q \<noteq> NULL" for k l q
    proof -
      have ne: "q \<noteq> p" if "\<not> eq key k" "lookup eq m k = Some (Some q)" for k
        using good [OF that] a \<open>q \<noteq> NULL\<close> fresh by (rule_tac alloc_obj_cases [OF a]) auto
      show ?thesis
      proof (cases "eq key k \<or> eq key l")
        case True
        then have "eq key k" "eq key l" using that ne by (auto simp: look split: if_splits)
        then show ?thesis using eq_sym eq_trans by blast
      next
        case False
        then show ?thesis using that inj by (simp add: look)
      qed
    qed
    show "live H' = F \<union> owned eq (set_val i (Some p) m)"
      unfolding own using live(1) by (rule_tac alloc_obj_cases [OF a]) (auto simp: live_new)
    have "p \<notin> F" if "p \<noteq> NULL"
      using that live(1) fresh_not_live [of H] by (rule_tac alloc_obj_cases [OF a]) auto
    then show "F \<inter> owned eq (set_val i (Some p) m) = {}" unfolding own using live(2) by auto
  qed
qed

end

section \<open>The steps of the operations\<close>

text \<open>What every operation on one key promises: the key has the value \<open>v\<close> afterwards and the other
  keys what they had; the table has at most one entry more, and at most four times as many buckets as entries.\<close>

definition grown :: "('k, ptr) kh \<Rightarrow> ('k, ptr) kh \<Rightarrow> bool" where
  "grown m m' \<longleftrightarrow> unat (ksize m') \<le> Suc (unat (ksize m))
     \<and> unat (n_buckets m') \<le> max (max 4 (unat (n_buckets m))) (4 * unat (ksize m) + 1)"

definition updated :: "('k \<Rightarrow> khint) \<Rightarrow> ('k \<Rightarrow> 'k \<Rightarrow> bool) \<Rightarrow> ptr set \<Rightarrow> 'k \<Rightarrow> 'd option
    \<Rightarrow> ('k, ptr) kh \<Rightarrow> 'd heap \<Rightarrow> ('k, ptr) kh \<Rightarrow> 'd heap \<Rightarrow> bool" where
  "updated hash eq F key v m H m' H' \<longleftrightarrow> khash_ok hash eq F m' H'
     \<and> (\<forall>k. contents eq m' H' k = (if eq key k then v else contents eq m H k))
     \<and> (\<forall>k. \<not> eq key k \<longrightarrow> lookup eq m' k = lookup eq m k)
     \<and> grown m m'"

lemma grown_refl [simp]: "grown m m"
  by (simp add: grown_def)

context hashing begin

lemma get_missing:
  assumes "kh_ok hash eq m" and "lookup eq m key = None"
  shows "kh_get_A hash eq m key = Inr (n_buckets m)"
  using get_is_bucket_of [OF assms(1), of key] assms(2) by (simp add: lookup_def)

lemma get_found:
  assumes ok: "kh_ok hash eq m" and look: "lookup eq m key = Some (Some p)"
  obtains i where "bucket_of eq m key = Some i" and "kh_get_A hash eq m key = Inr (of_nat i)"
    and "of_nat i \<noteq> n_buckets m" and "unat (of_nat i :: khint) = i" and "i < length (kvals m)"
    and "val_at m (of_nat i) = Inr p" and "kvals m ! i = Some p"
proof -
  obtain i where b: "bucket_of eq m key = Some i" "kvals m ! i = Some p"
    using look unfolding lookup_def by auto
  then have "i \<in> used_set m" unfolding bucket_of_iff [OF kh_ok_old(4) [OF ok]] by blast
  then have lt: "i < unat (n_buckets m)" by (rule used_less)
  have u: "unat (of_nat i :: khint) = i" by (rule unat_of_bucket [OF lt])
  have len: "i < length (kvals m)" using lt kh_ok_old(3) [OF ok] by simp
  show ?thesis
  proof (rule that [OF b(1) _ _ u len _ b(2)])
    show "kh_get_A hash eq m key = Inr (of_nat i)" using get_is_bucket_of [OF ok, of key] b(1) by simp
    show "of_nat i \<noteq> n_buckets m" using u lt by auto
    show "val_at m (of_nat i) = Inr p" using u len b(2) by (simp add: val_at_def)
  qed
qed

lemma put_new_spec:
  assumes ok: "khash_ok hash eq F m H" and big: "kh_fits kb (max 4 (2 * unat (n_buckets m)))"
    and none: "lookup eq m key = None"
  obtains x m' H' where "put_new kb hash eq key d m H = Inr (x, m', H')"
    and "updated hash eq F key (if room H = 0 then None else Some d) m H m' H'"
    and "val_at m' x = Inr (fst (alloc_obj d H))" and "H' = snd (alloc_obj d H)"
    and "lookup eq m' key = Some (Some (fst (alloc_obj d H)))"
proof -
  obtain x r m1 where m1: "kh_put_A kb hash eq m key = Inr (x, r, m1)" "kh_arrays m1" "kh_ok hash eq m1"
    "bucket_of eq m1 key = Some (unat x)" "\<And>k. \<not> eq key k \<Longrightarrow> lookup eq m1 k = lookup eq m k"
    "(r = 0) = (lookup eq m key \<noteq> None)" "lookup eq m key \<noteq> None \<Longrightarrow> lookup eq m1 key = lookup eq m key"
    "unat (ksize m1) = unat (ksize m) + (if lookup eq m key = None then 1 else 0)"
    "unat (n_buckets m1) \<le> max (max 4 (unat (n_buckets m))) (4 * unat (ksize m) + 1)"
    using put_spec [OF khash_okD(1) [OF ok] big, of key] by blast
  obtain p H' where a: "alloc_obj d H = (p, H')" by (cases "alloc_obj d H")
  have "unat x \<in> used_set m1" using m1(4) unfolding bucket_of_iff [OF kh_ok_old(4) [OF m1(3)]] by blast
  then have len: "unat x < length (kvals m1)" using used_less kh_ok_old(3) [OF m1(3)] by fastforce
  have no: "lookup eq m k \<noteq> Some v" if "eq key k" for k v
    using none lookup_cong [OF that, of m] by simp
  have own: "{p. p \<noteq> NULL \<and> (\<exists>k. \<not> eq key k \<and> lookup eq m1 k = Some (Some p))} = owned eq m"
    unfolding owned_def using m1(5) no by force
  have good: "\<forall>k v. \<not> eq key k \<longrightarrow> lookup eq m1 k = Some v \<longrightarrow>
      (\<exists>p. v = Some p \<and> (p = NULL \<or> (\<exists>d. cell_at H p = Obj d)))"
    using ok m1(5) unfolding khash_ok_def by simp
  have inj: "\<forall>k l p. \<not> eq key k \<longrightarrow> \<not> eq key l \<longrightarrow> lookup eq m1 k = Some (Some p) \<longrightarrow>
      lookup eq m1 l = Some (Some p) \<longrightarrow> p \<noteq> NULL \<longrightarrow> eq k l"
    using khash_ok_inj [OF ok] m1(5) by simp
  note st = store_new [OF m1(3,4) good inj, unfolded own, OF khash_okD(2,3) [OF ok] a]
  let ?m = "set_val (unat x) (Some p) m1"
  have c: "contents eq m1 H k = contents eq m H k" if "\<not> eq key k" for k
    using m1(5) [OF that] by (simp add: contents_def)
  have l: "lookup eq ?m k = lookup eq m k" if "\<not> eq key k" for k
    using lookup_set_val [OF kh_ok_old(4) [OF m1(3)] m1(4) len] m1(5) that by simp
  have g: "grown m ?m" using m1(8,9) none by (simp add: grown_def)
  show ?thesis
  proof (rule that)
    show "put_new kb hash eq key d m H = Inr (x, ?m, H')"
      using m1(1) new_data_eq [OF len a] by (simp add: put_new_def)
    show "updated hash eq F key (if room H = 0 then None else Some d) m H ?m H'"
      unfolding updated_def using st(1) l g st(2) c by simp
    show "val_at ?m x = Inr (fst (alloc_obj d H))" using len a by (simp add: val_at_def)
    show "lookup eq ?m key = Some (Some (fst (alloc_obj d H)))"
      using lookup_set_val [OF kh_ok_old(4) [OF m1(3)] m1(4) len] eq_refl a by simp
    show "H' = snd (alloc_obj d H)" using a by simp
  qed
qed

lemma replace_spec:
  assumes ok: "khash_ok hash eq F m H" and b: "bucket_of eq m key = Some i" "kvals m ! i = Some old"
    and old: "old \<noteq> NULL" "cell_at H old = Obj d0" and i: "i < length (kvals m)" "unat (of_nat i :: khint) = i"
  obtains m' H' where "new_data (of_nat i) d m (without old H) = Inr (m', H')"
    and "val_at m' (of_nat i) = Inr (Suc (heap_size H))" and "lookup eq m' key = Some (Some (Suc (heap_size H)))"
    and "updated hash eq F key (Some d) m H m' H'" and "room H' = room H"
proof -
  let ?H = "without old H"
  note w = without_simps [OF old(2)]
  have look: "lookup eq m key = Some (Some old)" using b by (simp add: lookup_def)
  note okk = khash_okD(1) [OF ok]
  obtain p H' where a: "alloc_obj d ?H = (p, H')" by (cases "alloc_obj d ?H")
  have hs: "heap_size ?H = heap_size H" by (simp add: without_def)
  have p: "p = Suc (heap_size H)" "H' = new_obj d ?H"
    using a w(3) hs by (auto simp: alloc_obj_def)
  have other: "q \<noteq> old" if "\<not> eq key k" "lookup eq m k = Some (Some q)" for k q
    using khash_ok_inj [OF ok look, where l = k] that old(1) by blast
  have same: "q = old" if "eq key k" "lookup eq m k = Some (Some q)" for k q
    using lookup_cong [OF that(1), of m] that(2) look by simp
  have own: "{p. p \<noteq> NULL \<and> (\<exists>k. \<not> eq key k \<and> lookup eq m k = Some (Some p))} = owned eq m - {old}"
    unfolding owned_def by (auto dest: other same)
  have "old \<in> owned eq m" using look old(1) by (auto simp: owned_def)
  then have live: "live ?H = F \<union> (owned eq m - {old})" "F \<inter> (owned eq m - {old}) = {}"
    using w(2) khash_okD(2,3) [OF ok] by auto
  have good: "\<forall>k v. \<not> eq key k \<longrightarrow> lookup eq m k = Some v \<longrightarrow>
      (\<exists>q. v = Some q \<and> (q = NULL \<or> (\<exists>d. cell_at ?H q = Obj d)))"
  proof (intro allI impI)
    fix k v
    assume nk: "\<not> eq key k" and lk: "lookup eq m k = Some v"
    obtain q where q: "v = Some q" "q = NULL \<or> (\<exists>d. cell_at H q = Obj d)"
      using ok lk unfolding khash_ok_def by blast
    have "q \<noteq> old" using other [OF nk] lk q(1) by simp
    then show "\<exists>q. v = Some q \<and> (q = NULL \<or> (\<exists>d. cell_at ?H q = Obj d))" using q w(1) by auto
  qed
  have inj: "\<forall>k l p. \<not> eq key k \<longrightarrow> \<not> eq key l \<longrightarrow> lookup eq m k = Some (Some p) \<longrightarrow>
      lookup eq m l = Some (Some p) \<longrightarrow> p \<noteq> NULL \<longrightarrow> eq k l"
    using khash_ok_inj [OF ok] by simp
  note st = store_new [OF okk b(1) good inj, unfolded own, OF live a]
  have c: "contents eq m ?H k = contents eq m H k" if nk: "\<not> eq key k" for k
  proof (cases "lookup eq m k")
    case (Some v)
    then show ?thesis using other [OF nk] w(1) by (cases v) (auto simp: contents_def)
  qed (simp add: contents_def)
  let ?m = "set_val i (Some p) m"
  have l: "lookup eq ?m k = lookup eq m k" if "\<not> eq key k" for k
    using lookup_set_val [OF kh_ok_old(4) [OF okk] b(1) i(1)] that by simp
  show ?thesis
  proof (rule that)
    show "new_data (of_nat i) d m ?H = Inr (?m, H')"
      using new_data_eq [OF _ a, of "of_nat i" m] i by simp
    show "val_at ?m (of_nat i) = Inr (Suc (heap_size H))" using i p(1) by (simp add: val_at_def)
    show "lookup eq ?m key = Some (Some (Suc (heap_size H)))"
      using lookup_set_val [OF kh_ok_old(4) [OF okk] b(1) i(1)] eq_refl p(1) by simp
    show "updated hash eq F key (Some d) m H ?m H'"
      unfolding updated_def using st c l w(3) by (simp add: grown_def)
    show "room H' = room H" using p(2) w(3) by simp
  qed
qed

text \<open>Taking a key out of the table when its object has been freed, or was never there.\<close>

lemma drop_spec:
  assumes ok: "khash_ok hash eq F m H" and b: "bucket_of eq m key = Some i" "kvals m ! i = Some p"
    and H': "if p = NULL then H' = H else \<exists>d. cell_at H p = Obj d \<and> H' = without p H"
  obtains m' where "kh_del_A m (of_nat i) = Inr m'" and "updated hash eq F key None m H m' H'"
    and "unat (ksize m') = unat (ksize m) - 1" and "unat (ksize m) \<noteq> 0" and "lookup eq m' key = None"
proof -
  have look: "lookup eq m key = Some (Some p)" using b by (simp add: lookup_def)
  obtain m' where m': "kh_del_A m (of_nat i) = Inr m'" "kh_ok hash eq m'"
    "\<And>k. lookup eq m' k = (if eq key k then None else lookup eq m k)"
    "unat (ksize m') = unat (ksize m) - 1" "unat (ksize m) \<noteq> 0"
    using del_spec [OF khash_okD(1) [OF ok] b(1)] by blast
  have other: "q \<noteq> p" if "\<not> eq key k" "lookup eq m k = Some (Some q)" "q \<noteq> NULL" for k q
    using khash_ok_inj [OF ok look, where l = k] that by blast
  have cell: "cell_at H' q = cell_at H q" if "q \<noteq> p" for q
    using H' that without_simps(1) [of H p] by (auto split: if_splits)
  have live: "live H' = live H - {p}"
    using H' without_simps(2) [of H p] cell_at_NULL [of H] by (auto split: if_splits simp: live_iff)
  have same: "q = p" if "eq key k" "lookup eq m k = Some (Some q)" for k q
    using lookup_cong [OF that(1), of m] that(2) look by simp
  have own: "owned eq m' = owned eq m - {p}"
    unfolding owned_def m'(3) using other by (auto dest: same split: if_splits)
  have pF: "p \<notin> F"
  proof (cases "p = NULL")
    case True
    then have "p \<notin> live H" by (simp add: live_iff)
    then show ?thesis using khash_okD(2) [OF ok] by simp
  next
    case False
    then show ?thesis using khash_okD(3) [OF ok] look by (auto simp: owned_def)
  qed
  have c: "contents eq m' H' k = (if eq key k then None else contents eq m H k)" for k
  proof (cases "eq key k")
    case True
    then show ?thesis using m'(3) by (simp add: contents_def)
  next
    case nk: False
    then have l: "lookup eq m' k = lookup eq m k" using m'(3) by simp
    show ?thesis
    proof (cases "lookup eq m k")
      case None
      then show ?thesis using nk l by (simp add: contents_def)
    next
      case (Some v)
      then obtain q where q: "v = Some q" using ok unfolding khash_ok_def by blast
      have "cell_at H' q = cell_at H q"
        using cell [of q] other [OF nk] Some q cell_at_NULL [of H] cell_at_NULL [of H'] by metis
      then show ?thesis using nk l Some q by (simp add: contents_def)
    qed
  qed
  have "khash_ok hash eq F m' H'" unfolding khash_ok_def
  proof (intro conjI allI impI)
    show "kh_ok hash eq m'" by (rule m'(2))
    show "\<exists>q. v = Some q \<and> (q = NULL \<or> (\<exists>d. cell_at H' q = Obj d))"
      if lk: "lookup eq m' k = Some v" for k v
    proof -
      have nk: "\<not> eq key k" and l: "lookup eq m k = Some v" using lk m'(3) by (auto split: if_splits)
      obtain q where q: "v = Some q" "q = NULL \<or> (\<exists>d. cell_at H q = Obj d)"
        using ok l unfolding khash_ok_def by blast
      then show ?thesis using other [OF nk, of q] l cell [of q] by (cases "q = NULL") auto
    qed
    show "eq k l" if "lookup eq m' k = Some (Some q)" "lookup eq m' l = Some (Some q)" "q \<noteq> NULL" for k l q
      using that m'(3) khash_ok_inj [OF ok, of k q l] by (auto split: if_splits)
    show "live H' = F \<union> owned eq m'" using live own khash_okD(2) [OF ok] pF by auto
    show "F \<inter> owned eq m' = {}" using own khash_okD(3) [OF ok] by auto
  qed
  moreover have "n_buckets m' = n_buckets m"
    using m'(1) by (auto simp: kh_del_A_def bindE_eq_Inr split: if_splits)
  ultimately have "updated hash eq F key None m H m' H'"
    using c m'(3,4) by (simp add: updated_def grown_def le_max_iff_disj le_diff_conv)
  then show ?thesis using that m'(1,4,5) m'(3) [of key] eq_refl by simp
qed

end

section \<open>The operations\<close>

context hashing begin

lemma contents_of_lookup:
  "lookup eq m key = Some (Some p) \<Longrightarrow> cell_at H p = Obj d \<Longrightarrow> contents eq m H key = Some d"
  "lookup eq m key = Some (Some NULL) \<Longrightarrow> contents eq m H key = None"
  "lookup eq m key = None \<Longrightarrow> contents eq m H key = None"
  by (simp_all add: contents_def)

lemma same_updated:
  assumes "khash_ok hash eq F m H" and "contents eq m H key = v"
  shows "updated hash eq F key v m H m H"
  unfolding updated_def using assms contents_cong [of key _ m H] by auto

text \<open>A key that is there, with an object.\<close>

lemma replace_updated:
  assumes ok: "khash_ok hash eq F m H" and look: "lookup eq m key = Some (Some old)" and n: "old \<noteq> NULL"
  obtains i d0 m' H' where "kh_get_A hash eq m key = Inr (of_nat i)" and "of_nat i \<noteq> n_buckets m"
    and "val_at m (of_nat i) = Inr old" and "load old H = Inr d0" and "contents eq m H key = Some d0"
    and "delete_data old H = Inr (without old H)" and "new_data (of_nat i) d m (without old H) = Inr (m', H')"
    and "val_at m' (of_nat i) = Inr (Suc (heap_size H))" and "updated hash eq F key (Some d) m H m' H'"
    and "lookup eq m' key = Some (Some (Suc (heap_size H)))" and "room H' = room H"
proof -
  obtain d0 where d0: "cell_at H old = Obj d0" using khash_ok_cell [OF ok look] n by auto
  obtain i where i: "bucket_of eq m key = Some i" "kh_get_A hash eq m key = Inr (of_nat i)"
    "of_nat i \<noteq> n_buckets m" "unat (of_nat i :: khint) = i" "i < length (kvals m)"
    "val_at m (of_nat i) = Inr old" "kvals m ! i = Some old"
    by (rule get_found [OF khash_okD(1) [OF ok] look])
  obtain m' H' where r: "new_data (of_nat i) d m (without old H) = Inr (m', H')"
    "val_at m' (of_nat i) = Inr (Suc (heap_size H))" "lookup eq m' key = Some (Some (Suc (heap_size H)))"
    "updated hash eq F key (Some d) m H m' H'" "room H' = room H"
    by (rule replace_spec [OF ok i(1,7) n d0 i(5,4), of d])
  have "delete_data old H = Inr (without old H)"
    using delete_data_ok [OF d0] by (simp add: without_def)
  then show ?thesis
    using that [of i d0 m' H'] i(2,3,6) d0 contents_of_lookup(1) [OF look d0] r by simp
qed

text \<open>The value that an add gives the key: none when the allocation fails for a new key.\<close>

definition added :: "('k, ptr) kh \<Rightarrow> 'd heap \<Rightarrow> 'k \<Rightarrow> 'd \<Rightarrow> 'd option" where
  "added m H key d = (if room H = 0 \<and> lookup eq m key = None then None else Some d)"

lemma addReplace_spec:
  assumes ok: "khash_ok hash eq F m H" and big: "kh_fits kb (max 4 (2 * unat (n_buckets m)))"
    and n: "lookup eq m key \<noteq> Some (Some NULL)"
  obtains m' H' where "addReplace kb hash eq key d m H = Inr (True, m', H')"
    and "addReplace_old kb hash eq key d o0 m H
      = Inr ((True, case contents eq m H key of Some c \<Rightarrow> c | None \<Rightarrow> o0), m', H')"
    and "updated hash eq F key (added m H key d) m H m' H'"
    and "room H - 1 \<le> room H'" and "room H \<noteq> 0 \<Longrightarrow> lookup eq m' key \<noteq> Some (Some NULL)"
proof (cases "lookup eq m key")
  case None
  obtain x m' H' where p: "put_new kb hash eq key d m H = Inr (x, m', H')"
    "updated hash eq F key (if room H = 0 then None else Some d) m H m' H'"
    "val_at m' x = Inr (fst (alloc_obj d H))" "H' = snd (alloc_obj d H)" "lookup eq m' key = Some (Some (fst (alloc_obj d H)))"
    by (rule put_new_spec [OF ok big None, of d])
  have c: "contents eq m H key = None" by (rule contents_of_lookup(3) [OF None])
  show ?thesis
    by (rule that [of m' H'])
      (use None p c get_missing [OF khash_okD(1) [OF ok] None] in
        \<open>simp_all add: addReplace_def addReplace_old_def added_def alloc_obj_def\<close>)
next
  case (Some v)
  then obtain old where old: "v = Some old" "old \<noteq> NULL"
    using khash_ok_cell [OF ok Some] n by metis
  obtain i d0 m' H' where r: "kh_get_A hash eq m key = Inr (of_nat i)" "of_nat i \<noteq> n_buckets m"
    "val_at m (of_nat i) = Inr old" "load old H = Inr d0" "contents eq m H key = Some d0"
    "delete_data old H = Inr (without old H)" "new_data (of_nat i) d m (without old H) = Inr (m', H')"
    "val_at m' (of_nat i) = Inr (Suc (heap_size H))" "updated hash eq F key (Some d) m H m' H'" "lookup eq m' key = Some (Some (Suc (heap_size H)))"
    "room H' = room H"
    by (rule replace_updated [OF ok Some [unfolded old(1)] old(2), of d])
  show ?thesis
    by (rule that [of m' H'])
      (use r Some old in \<open>simp_all add: addReplace_def addReplace_old_def added_def\<close>)
qed

end

end
