(* ===== verification/TW_KHash32Ops.thy ===== *)
theory TW_KHash32Ops
  imports TW_KHash32Spec
begin

unbundle bit_operations_syntax

text \<open>
  The remaining operations of TW_KHash_32, a whole run of operations from an empty table against
  the map it stands for, and the iterator.
\<close>

section \<open>Adding, finding, removing\<close>

context hashing begin

lemma addNoreplace_spec:
  assumes ok: "khash_ok hash eq F m H" and big: "kh_fits kb (max 4 (2 * unat (n_buckets m)))"
  obtains m' H' where "addNoreplace kb hash eq key d m H = Inr (lookup eq m key = None, m', H')"
    and "updated hash eq F key (if lookup eq m key = None then added m H key d else contents eq m H key) m H m' H'"
    and "room H - 1 \<le> room H'" and "room H \<noteq> 0 \<Longrightarrow> lookup eq m key \<noteq> Some (Some NULL) \<Longrightarrow> lookup eq m' key \<noteq> Some (Some NULL)"
proof (cases "lookup eq m key")
  case None
  obtain x m' H' where p: "put_new kb hash eq key d m H = Inr (x, m', H')"
    "updated hash eq F key (if room H = 0 then None else Some d) m H m' H'"
    "val_at m' x = Inr (fst (alloc_obj d H))" "H' = snd (alloc_obj d H)"
    "lookup eq m' key = Some (Some (fst (alloc_obj d H)))"
    by (rule put_new_spec [OF ok big None, of d])
  show ?thesis
    by (rule that [of m' H']) (use None p get_missing [OF khash_okD(1) [OF ok] None] in
        \<open>simp_all add: addNoreplace_def added_def alloc_obj_def\<close>)
next
  case (Some v)
  obtain p where p: "v = Some p" using khash_ok_cell [OF ok Some] by metis
  obtain i where i: "bucket_of eq m key = Some i" "kh_get_A hash eq m key = Inr (of_nat i)"
    "of_nat i \<noteq> n_buckets m" "unat (of_nat i :: khint) = i" "i < length (kvals m)"
    "val_at m (of_nat i) = Inr p" "kvals m ! i = Some p"
    by (rule get_found [OF khash_okD(1) [OF ok] Some [unfolded p]])
  show ?thesis
    by (rule that [of m H]) (use Some i same_updated [OF ok refl, of key] in \<open>simp_all add: addNoreplace_def\<close>)
qed

text \<open>The operations that return a pointer to the object: null when the allocation failed.\<close>

lemma findOrNew_spec:
  assumes ok: "khash_ok hash eq F m H" and big: "kh_fits kb (max 4 (2 * unat (n_buckets m)))"
  obtains p m' H' where "findOrNew kb hash eq d key m H = Inr (p, m', H')"
    and "addNoreplaceNew kb hash eq d key m H = Inr (if lookup eq m key = None then p else NULL, m', H')"
    and "lookup eq m' key = Some (Some p)"
    and "updated hash eq F key (if lookup eq m key = None then added m H key d else contents eq m H key) m H m' H'"
proof (cases "lookup eq m key")
  case None
  obtain x m' H' where p: "put_new kb hash eq key d m H = Inr (x, m', H')"
    "updated hash eq F key (if room H = 0 then None else Some d) m H m' H'"
    "val_at m' x = Inr (fst (alloc_obj d H))" "H' = snd (alloc_obj d H)"
    "lookup eq m' key = Some (Some (fst (alloc_obj d H)))"
    by (rule put_new_spec [OF ok big None, of d])
  show ?thesis
    by (rule that [of "fst (alloc_obj d H)" m' H'])
      (use None p get_missing [OF khash_okD(1) [OF ok] None] in
        \<open>simp_all add: findOrNew_def addNoreplaceNew_def added_def\<close>)
next
  case (Some v)
  obtain p where p: "v = Some p" using khash_ok_cell [OF ok Some] by metis
  obtain i where i: "bucket_of eq m key = Some i" "kh_get_A hash eq m key = Inr (of_nat i)"
    "of_nat i \<noteq> n_buckets m" "unat (of_nat i :: khint) = i" "i < length (kvals m)"
    "val_at m (of_nat i) = Inr p" "kvals m ! i = Some p"
    by (rule get_found [OF khash_okD(1) [OF ok] Some [unfolded p]])
  show ?thesis
    by (rule that [of p m H]) (use Some p i same_updated [OF ok refl, of key] in
        \<open>simp_all add: findOrNew_def addNoreplaceNew_def\<close>)
qed

lemma addReplaceNew_spec:
  assumes ok: "khash_ok hash eq F m H" and big: "kh_fits kb (max 4 (2 * unat (n_buckets m)))"
    and n: "lookup eq m key \<noteq> Some (Some NULL)"
  obtains p m' H' where "addReplaceNew kb hash eq d key m H = Inr (p, m', H')"
    and "lookup eq m' key = Some (Some p)"
    and "updated hash eq F key (added m H key d) m H m' H'"
proof (cases "lookup eq m key")
  case None
  obtain x m' H' where p: "put_new kb hash eq key d m H = Inr (x, m', H')"
    "updated hash eq F key (if room H = 0 then None else Some d) m H m' H'"
    "val_at m' x = Inr (fst (alloc_obj d H))" "H' = snd (alloc_obj d H)"
    "lookup eq m' key = Some (Some (fst (alloc_obj d H)))"
    by (rule put_new_spec [OF ok big None, of d])
  show ?thesis
    by (rule that [of "fst (alloc_obj d H)" m' H'])
      (use None p get_missing [OF khash_okD(1) [OF ok] None] in \<open>simp_all add: addReplaceNew_def added_def\<close>)
next
  case (Some v)
  then obtain old where old: "v = Some old" "old \<noteq> NULL"
    using khash_ok_cell [OF ok Some] n by metis
  obtain i d0 m' H' where r: "kh_get_A hash eq m key = Inr (of_nat i)" "of_nat i \<noteq> n_buckets m"
    "val_at m (of_nat i) = Inr old" "load old H = Inr d0" "contents eq m H key = Some d0"
    "delete_data old H = Inr (without old H)" "new_data (of_nat i) d m (without old H) = Inr (m', H')"
    "val_at m' (of_nat i) = Inr (Suc (heap_size H))" "updated hash eq F key (Some d) m H m' H'"
    "lookup eq m' key = Some (Some (Suc (heap_size H)))" "room H' = room H"
    by (rule replace_updated [OF ok Some [unfolded old(1)] old(2), of d])
  show ?thesis
    by (rule that [of "Suc (heap_size H)" m' H'])
      (use r Some old in \<open>simp_all add: addReplaceNew_def added_def\<close>)
qed

text \<open>A key whose object could not be allocated: the destructor is run on a null pointer.\<close>

lemma replace_null_faults:
  assumes ok: "khash_ok hash eq F m H" and look: "lookup eq m key = Some (Some NULL)"
  shows "addReplace kb hash eq key d m H = Inl NullDeref"
    and "addReplace_old kb hash eq key d o0 m H = Inl NullDeref"
    and "addReplaceNew kb hash eq d key m H = Inl NullDeref"
proof -
  obtain i where i: "bucket_of eq m key = Some i" "kh_get_A hash eq m key = Inr (of_nat i)"
    "of_nat i \<noteq> n_buckets m" "unat (of_nat i :: khint) = i" "i < length (kvals m)"
    "val_at m (of_nat i) = Inr NULL" "kvals m ! i = Some NULL"
    by (rule get_found [OF khash_okD(1) [OF ok] look])
  then show "addReplace kb hash eq key d m H = Inl NullDeref"
    and "addReplace_old kb hash eq key d o0 m H = Inl NullDeref"
    and "addReplaceNew kb hash eq d key m H = Inl NullDeref"
    by (simp_all add: addReplace_def addReplace_old_def addReplaceNew_def delete_data_def)
qed

lemma find_spec:
  assumes ok: "khash_ok hash eq F m H"
  shows "find_fill hash eq key fill m H = Inr ((case contents eq m H key of Some c \<Rightarrow> (True, c) | None \<Rightarrow> (False, fill)), m, H)"
    and "find_ptr hash eq key m H = Inr ((case lookup eq m key of Some (Some p) \<Rightarrow> p | _ \<Rightarrow> NULL), m, H)"
proof (atomize (full), cases "lookup eq m key")
  case None
  then show "find_fill hash eq key fill m H = Inr ((case contents eq m H key of Some c \<Rightarrow> (True, c) | None \<Rightarrow> (False, fill)), m, H)
    \<and> find_ptr hash eq key m H = Inr ((case lookup eq m key of Some (Some p) \<Rightarrow> p | _ \<Rightarrow> NULL), m, H)"
    using get_missing [OF khash_okD(1) [OF ok] None] contents_of_lookup(3) [OF None, of H]
    by (simp add: find_fill_def find_ptr_def)
next
  case (Some v)
  obtain p where p: "v = Some p" "p = NULL \<or> (\<exists>d. cell_at H p = Obj d)"
    using khash_ok_cell [OF ok Some] by metis
  note look = Some [unfolded p(1)]
  obtain i where i: "bucket_of eq m key = Some i" "kh_get_A hash eq m key = Inr (of_nat i)"
    "of_nat i \<noteq> n_buckets m" "unat (of_nat i :: khint) = i" "i < length (kvals m)"
    "val_at m (of_nat i) = Inr p" "kvals m ! i = Some p"
    by (rule get_found [OF khash_okD(1) [OF ok] look])
  then show "find_fill hash eq key fill m H = Inr ((case contents eq m H key of Some c \<Rightarrow> (True, c) | None \<Rightarrow> (False, fill)), m, H)
    \<and> find_ptr hash eq key m H = Inr ((case lookup eq m key of Some (Some p) \<Rightarrow> p | _ \<Rightarrow> NULL), m, H)"
    using p(2) look by (auto simp: find_fill_def find_ptr_def contents_def)
qed

lemma remove_spec:
  assumes ok: "khash_ok hash eq F m H"
  obtains m' H' where "remove hash eq key m H = Inr (lookup eq m key \<noteq> None, m', H')"
    and "remove_fill hash eq key fill m H
      = Inr ((lookup eq m key \<noteq> None, case contents eq m H key of Some c \<Rightarrow> c | None \<Rightarrow> fill), m', H')"
    and "updated hash eq F key None m H m' H'" and "lookup eq m' key = None" and "room H \<le> room H'"
    and "unat (ksize m') = unat (ksize m) - (if lookup eq m key = None then 0 else 1)"
proof (cases "lookup eq m key")
  case None
  note c = contents_of_lookup(3) [OF None, of H]
  show ?thesis
    by (rule that [of m H]) (use None c get_missing [OF khash_okD(1) [OF ok] None] same_updated [OF ok c] in
        \<open>simp_all add: remove_def remove_fill_def\<close>)
next
  case (Some v)
  obtain p where p: "v = Some p" "p = NULL \<or> (\<exists>d. cell_at H p = Obj d)"
    using khash_ok_cell [OF ok Some] by metis
  note look = Some [unfolded p(1)]
  obtain i where i: "bucket_of eq m key = Some i" "kh_get_A hash eq m key = Inr (of_nat i)"
    "of_nat i \<noteq> n_buckets m" "unat (of_nat i :: khint) = i" "i < length (kvals m)"
    "val_at m (of_nat i) = Inr p" "kvals m ! i = Some p"
    by (rule get_found [OF khash_okD(1) [OF ok] look])
  define H' where "H' = (if p = NULL then H else without p H)"
  have del: "(if p \<noteq> NULL then delete_data p H else Inr H) = Inr H'"
    using p(2) delete_data_ok [of H p] by (auto simp: H'_def without_def)
  have H': "if p = NULL then H' = H else \<exists>d. cell_at H p = Obj d \<and> H' = without p H"
    using p(2) by (auto simp: H'_def)
  obtain m' where m': "kh_del_A m (of_nat i) = Inr m'" "updated hash eq F key None m H m' H'"
    "unat (ksize m') = unat (ksize m) - 1" "unat (ksize m) \<noteq> 0" "lookup eq m' key = None"
    by (rule drop_spec [OF ok i(1,7) H'])
  have fill: "(if p \<noteq> NULL then bindE (load p H) (\<lambda>fill. bindE (delete_data p H) (\<lambda>H. Inr (fill, H)))
      else Inr (fill, H)) = Inr (case contents eq m H key of Some c \<Rightarrow> c | None \<Rightarrow> fill, H')"
    using p(2) look delete_data_ok [of H p] by (auto simp: H'_def without_def contents_def)
  have "room H \<le> room H'" using p(2) without_simps(3) [of H p] by (auto simp: H'_def)
  then show ?thesis
    using that [of m' H'] i m' del fill Some by (simp add: remove_def remove_fill_def)
qed

end

section \<open>Emptying the table\<close>

text \<open>The pointers in the used buckets from \<open>k\<close> on.\<close>

definition ptrs_from :: "('k, ptr) kh \<Rightarrow> nat \<Rightarrow> ptr set" where
  "ptrs_from m k = {p. p \<noteq> NULL \<and> (\<exists>i\<in>used_set m. k \<le> i \<and> kvals m ! i = Some p)}"

text \<open>The loop has come to bucket \<open>k\<close>: from there on the table is as it was.\<close>

definition emptying :: "('k, ptr) kh \<Rightarrow> nat \<Rightarrow> 'k option list \<Rightarrow> ptr set \<Rightarrow> 'd heap \<Rightarrow> bool" where
  "emptying m k ks F H \<longleftrightarrow> length ks = length (kkeys m)
     \<and> (\<forall>i\<in>used_set m. k \<le> i \<longrightarrow> ks ! i \<noteq> None
          \<and> (\<exists>p. kvals m ! i = Some p \<and> (p = NULL \<or> (\<exists>d. cell_at H p = Obj d))))
     \<and> (\<forall>i\<in>used_set m. \<forall>j\<in>used_set m. \<forall>p. kvals m ! i = Some p \<longrightarrow> kvals m ! j = Some p \<longrightarrow> p \<noteq> NULL \<longrightarrow> i = j)
     \<and> live H = F \<union> ptrs_from m k \<and> F \<inter> ptrs_from m k = {}"

lemma ptrs_from_skip: "k \<notin> used_set m \<Longrightarrow> ptrs_from m k = ptrs_from m (Suc k)"
  unfolding ptrs_from_def by (metis Suc_leD Suc_leI le_neq_implies_less)

lemma emptying_skip:
  assumes "emptying m k ks F H" and "k \<notin> used_set m"
  shows "emptying m (Suc k) ks F H"
  using assms unfolding emptying_def ptrs_from_skip [OF assms(2)] by simp

lemma emptying_step:
  assumes e: "emptying m k ks F H" and k: "k \<in> used_set m" "kvals m ! k = Some p"
  shows "emptying m (Suc k) (ks[k := None]) F (if p = NULL then H else without p H)"
    and "(if p \<noteq> NULL then delete_data p H else Inr H) = Inr (if p = NULL then H else without p H)"
proof -
  have cell: "p = NULL \<or> (\<exists>d. cell_at H p = Obj d)" using e k unfolding emptying_def by fastforce
  then show "(if p \<noteq> NULL then delete_data p H else Inr H) = Inr (if p = NULL then H else without p H)"
    using delete_data_ok [of H p] by (auto simp: without_def)
  let ?H = "if p = NULL then H else without p H"
  have other: "q \<noteq> p" if "i \<in> used_set m" "Suc k \<le> i" "kvals m ! i = Some q" "q \<noteq> NULL" for i q
    using e k that unfolding emptying_def by (metis not_less_eq_eq order_refl)
  have cell': "cell_at ?H q = cell_at H q" if "q \<noteq> p" for q
    using cell that without_simps(1) [of H p] by auto
  have from_k: "ptrs_from m (Suc k) = ptrs_from m k - {p}"
  proof -
    have "q \<in> ptrs_from m (Suc k) \<longleftrightarrow> q \<in> ptrs_from m k \<and> q \<noteq> p" for q
    proof
      assume "q \<in> ptrs_from m (Suc k)"
      then show "q \<in> ptrs_from m k \<and> q \<noteq> p"
        unfolding ptrs_from_def using other Suc_leD by blast
    next
      assume "q \<in> ptrs_from m k \<and> q \<noteq> p"
      then obtain i where i: "q \<noteq> NULL" "i \<in> used_set m" "k \<le> i" "kvals m ! i = Some q" "q \<noteq> p"
        unfolding ptrs_from_def by blast
      then have "i \<noteq> k" using k(2) by auto
      then show "q \<in> ptrs_from m (Suc k)" unfolding ptrs_from_def using i by (metis (mono_tags, lifting) Suc_leI le_neq_implies_less mem_Collect_eq)
    qed
    then show ?thesis by blast
  qed
  have live: "live ?H = live H - {p}"
    using cell without_simps(2) [of H p] cell_at_NULL [of H] by (auto simp: live_iff)
  have pF: "p \<notin> F"
  proof (cases "p = NULL")
    case True
    then have "p \<notin> live H" by (simp add: live_iff)
    then show ?thesis using e unfolding emptying_def by simp
  next
    case False
    then have "p \<in> ptrs_from m k" using k unfolding ptrs_from_def by blast
    then show ?thesis using e unfolding emptying_def by blast
  qed
  have "(ks[k := None]) ! i \<noteq> None \<and> (\<exists>q. kvals m ! i = Some q \<and> (q = NULL \<or> (\<exists>d. cell_at ?H q = Obj d)))"
    if i: "i \<in> used_set m" "Suc k \<le> i" for i
  proof -
    obtain q where q: "ks ! i \<noteq> None" "kvals m ! i = Some q" "q = NULL \<or> (\<exists>d. cell_at H q = Obj d)"
      using e i unfolding emptying_def by (meson Suc_leD)
    have "q = NULL \<or> (\<exists>d. cell_at ?H q = Obj d)"
      using q(3) other [OF i q(2)] cell' [of q] by (cases "q = NULL") simp_all
    then show ?thesis using q(1,2) i(2) by simp
  qed
  moreover have "live ?H = F \<union> ptrs_from m (Suc k)"
    using live from_k pF e unfolding emptying_def by blast
  moreover have "F \<inter> ptrs_from m (Suc k) = {}" using from_k e unfolding emptying_def by blast
  ultimately show "emptying m (Suc k) (ks[k := None]) F ?H"
    using e unfolding emptying_def by simp
qed

lemma remove_loop_ok:
  assumes fl: "flags_for (kflags m) (unat (n_buckets m))" and len: "length (kkeys m) = unat (n_buckets m)"
    "length (kvals m) = unat (n_buckets m)"
  shows "emptying m (unat k) ks F H \<Longrightarrow> unat k \<le> unat (n_buckets m) \<Longrightarrow> unat (n_buckets m) < f + unat k \<Longrightarrow>
    \<exists>ks' H'. remove_loop f k (m\<lparr>kkeys := ks\<rparr>) H = Inr (m\<lparr>kkeys := ks'\<rparr>, H')
      \<and> length ks' = length (kkeys m) \<and> live H' = F \<and> room H \<le> room H'"
proof (induction f arbitrary: k ks H)
  case 0
  then show ?case by simp
next
  case (Suc f)
  show ?case
  proof (cases "k = n_buckets m")
    case True
    then have "ptrs_from m (unat k) = {}" unfolding ptrs_from_def using used_less [of _ m] by fastforce
    then show ?thesis using True Suc.prems(1) unfolding emptying_def by auto
  next
    case False
    then have k: "unat k < unat (n_buckets m)" using Suc.prems(2)
      by (metis le_neq_implies_less word_unat_eq_iff)
    then have k1: "unat (k + 1) = Suc (unat k)" by (rule unat_plus_one)
    note e = ac_iseither_eq [OF fl k]
    have lk: "length ks = unat (n_buckets m)" using Suc.prems(1) len unfolding emptying_def by simp
    show ?thesis
    proof (cases "unat k \<in> used_set m")
      case no: False
      then show ?thesis
        using False e k Suc.IH [of "k + 1" ks H] emptying_skip [OF Suc.prems(1) no] k1 Suc.prems(3)
        by (simp add: used_set_def)
    next
      case yes: True
      then obtain p where p: "kvals m ! unat k = Some p" "ks ! unat k \<noteq> None"
        using Suc.prems(1) unfolding emptying_def by blast
      let ?H = "if p = NULL then H else without p H"
      note st = emptying_step [OF Suc.prems(1) yes p(1)]
      have "val_at (m\<lparr>kkeys := ks\<rparr>) k = Inr p" using k len p(1) by (simp add: val_at_def)
      moreover have "key_at (m\<lparr>kkeys := ks\<rparr>) k = Inr (the (ks ! unat k))"
        using k lk p(2) by (auto simp: key_at_def)
      ultimately have "remove_loop (Suc f) k (m\<lparr>kkeys := ks\<rparr>) H
          = remove_loop f (k + 1) (m\<lparr>kkeys := ks[unat k := None]\<rparr>) ?H"
        using False e k yes lk st(2) by (simp add: used_set_def)
      moreover have "room H \<le> room ?H" by (simp add: without_def)
      ultimately show ?thesis
        using Suc.IH [of "k + 1" "ks[unat k := None]" ?H] st(1) k1 k Suc.prems(3) by fastforce
    qed
  qed
qed

context hashing begin

lemma lookup_bucket:
  assumes "kh_keys_ok hash eq m" and "i \<in> used_set m" and "kkeys m ! i = Some k"
  shows "lookup eq m k = Some (kvals m ! i)"
  using bucket_of_iff [OF assms(1), of k i] assms(2,3) eq_refl by (simp add: lookup_def)

lemma emptying_init:
  assumes ok: "khash_ok hash eq F m H"
  shows "emptying m 0 (kkeys m) F H"
proof -
  note keys = kh_ok_old(4) [OF khash_okD(1) [OF ok]]
  have "owned eq m = ptrs_from m 0"
  proof -
    have "p \<in> owned eq m \<longleftrightarrow> p \<in> ptrs_from m 0" for p
    proof
      assume "p \<in> owned eq m"
      then obtain k i where "p \<noteq> NULL" "bucket_of eq m k = Some i" "kvals m ! i = Some p"
        unfolding owned_def lookup_def by auto
      then show "p \<in> ptrs_from m 0"
        unfolding bucket_of_iff [OF keys] ptrs_from_def by auto
    next
      assume "p \<in> ptrs_from m 0"
      then obtain i where i: "p \<noteq> NULL" "i \<in> used_set m" "kvals m ! i = Some p"
        unfolding ptrs_from_def by blast
      obtain k where "kkeys m ! i = Some k" using keys_Some [OF keys i(2)] by blast
      then have "lookup eq m k = Some (Some p)" using lookup_bucket [OF keys i(2)] i(3) by simp
      then show "p \<in> owned eq m" using i(1) unfolding owned_def by blast
    qed
    then show ?thesis by blast
  qed
  moreover have "kkeys m ! i \<noteq> None \<and> (\<exists>p. kvals m ! i = Some p \<and> (p = NULL \<or> (\<exists>d. cell_at H p = Obj d)))"
    if i: "i \<in> used_set m" for i
  proof -
    obtain k where k: "kkeys m ! i = Some k" using keys_Some [OF keys i] by blast
    show ?thesis using k khash_ok_cell [OF ok lookup_bucket [OF keys i k]] by (metis option.distinct(1))
  qed
  moreover have "i = j" if i: "i \<in> used_set m" "kvals m ! i = Some p"
    and j: "j \<in> used_set m" "kvals m ! j = Some p" and p: "p \<noteq> NULL" for i j p
  proof -
    obtain k l where k: "kkeys m ! i = Some k" and l: "kkeys m ! j = Some l"
      using keys_Some [OF keys i(1)] keys_Some [OF keys j(1)] by blast
    have "eq k l" using khash_ok_inj [OF ok _ _ p, of k l] lookup_bucket [OF keys i(1) k]
      lookup_bucket [OF keys j(1) l] i(2) j(2) by simp
    then show ?thesis by (rule key_unique [OF keys i(1) j(1) k l _ eq_refl])
  qed
  ultimately show ?thesis
    using khash_okD(2,3) [OF ok] unfolding emptying_def by (metis (no_types, lifting))
qed

lemma empty_ok:
  assumes "kh_ok hash eq m" and "used_set m = {}" and "live H = F"
  shows "khash_ok hash eq F m H" and "contents eq m H k = None" and "lookup eq m k = None"
proof -
  have l: "lookup eq m k = None" for k
    using bucket_of_None_iff [OF kh_ok_old(4) [OF assms(1)], of k] assms(2) by (simp add: lookup_def)
  then show "lookup eq m k = None" by simp
  have "owned eq m = {}" using l by (simp add: owned_def)
  then show "khash_ok hash eq F m H" using assms l by (simp add: khash_ok_def)
  show "contents eq m H k = None" using l by (simp add: contents_def)
qed

lemma removeAll_spec:
  assumes ok: "khash_ok hash eq F m H"
  obtains m' H' where "removeAll m H = Inr (True, m', H')" and "khash_ok hash eq F m' H'"
    and "\<forall>k. contents eq m' H' k = None" and "\<forall>k. lookup eq m' k = None" and "live H' = F"
    and "ksize m' = 0" and "n_buckets m' = n_buckets m" and "room H \<le> room H'"
proof -
  note o = kh_ok_old [OF khash_okD(1) [OF ok]]
  obtain ks H' where r: "remove_loop (Suc (unat (n_buckets m))) 0 m H = Inr (m\<lparr>kkeys := ks\<rparr>, H')"
    "length ks = length (kkeys m)" "live H' = F" "room H \<le> room H'"
    using remove_loop_ok [OF o(1-3), of 0 "kkeys m" F H "Suc (unat (n_buckets m))"] emptying_init [OF ok] by auto
  let ?m = "m\<lparr>kkeys := ks\<rparr>"
  obtain m' where m': "kh_clear_A ?m = Inr m'" "kh_ok hash eq m'" "used_set m' = {}" "ksize m' = 0"
    "n_buckets m' = n_buckets m"
  proof (cases rule: kh_ok_cases [OF khash_okD(1) [OF ok]])
    case 1
    then have "?m = kh_init_A" using r(2) by (simp add: kh_init_A_def)
    then show ?thesis using that [of kh_init_A] 1
      by (simp add: kh_ok_def) (simp add: kh_init_A_def used_set_def)
  next
    case 2
    have s: "used_set ?m = used_set m" "occ_set ?m = occ_set m" by (simp_all add: used_set_def occ_set_def)
    have "kh_arrays ?m" "kh_counts ?m"
      using 2 r(2) unfolding kh_arrays_def kh_counts_def s by auto
    then show ?thesis
      using that [of "cleared ?m"] kh_clear_eq [of ?m] cleared_ok(1,3,4) [of ?m] cleared_ok(2) [of ?m hash eq]
      by (simp add: kh_ok_def) (simp add: cleared_def)
  qed
  have "removeAll m H = Inr (True, m', H')"
    using r(1) m'(1) by (simp add: removeAll_def del: remove_loop.simps)
  then show ?thesis using that empty_ok [OF m'(2,3) r(3)] r(3,4) m'(4,5) by blast
qed

end

section \<open>A run of operations\<close>

datatype ('k, 'd) kcmd =
    CAddReplace 'k 'd
  | CAddNoreplace 'k 'd
  | CRemove 'k 'd
  | CFind 'k 'd
  | CRemoveAll

text \<open>The result of an operation: what it returns, and the object in its reference parameter.\<close>

definition kcmd_body :: "nat \<Rightarrow> ('k \<Rightarrow> khint) \<Rightarrow> ('k \<Rightarrow> 'k \<Rightarrow> bool) \<Rightarrow> ('k, 'd) kcmd \<Rightarrow> ('k, 'd, bool \<times> 'd option) body" where
  "kcmd_body kb hash eq c m H = (case c of
     CAddReplace k d \<Rightarrow> bindE (addReplace kb hash eq k d m H) (\<lambda>(b, m, H). Inr ((b, None), m, H))
   | CAddNoreplace k d \<Rightarrow> bindE (addNoreplace kb hash eq k d m H) (\<lambda>(b, m, H). Inr ((b, None), m, H))
   | CRemove k d \<Rightarrow> bindE (remove_fill hash eq k d m H) (\<lambda>((b, d), m, H). Inr ((b, Some d), m, H))
   | CFind k d \<Rightarrow> bindE (find_fill hash eq k d m H) (\<lambda>((b, d), m, H). Inr ((b, Some d), m, H))
   | CRemoveAll \<Rightarrow> bindE (removeAll m H) (\<lambda>(b, m, H). Inr ((b, None), m, H)))"

fun khash_run :: "nat \<Rightarrow> ('k \<Rightarrow> khint) \<Rightarrow> ('k \<Rightarrow> 'k \<Rightarrow> bool) \<Rightarrow> ('k, 'd) kcmd list \<Rightarrow> ('k, 'd) khash32 \<Rightarrow> 'd heap
    \<Rightarrow> ((bool \<times> 'd option) list \<times> ('k, 'd) khash32 \<times> 'd heap) res" where
  "khash_run kb hash eq [] s H = Inr ([], s, H)"
| "khash_run kb hash eq (c # cs) s H = bindE (locked (kcmd_body kb hash eq c) s H) (\<lambda>(r, s, H).
     bindE (khash_run kb hash eq cs s H) (\<lambda>(rs, s, H). Inr (r # rs, s, H)))"

text \<open>The same commands on a map.\<close>

definition map_cmd :: "('k \<Rightarrow> 'k \<Rightarrow> bool) \<Rightarrow> ('k, 'd) kcmd \<Rightarrow> ('k \<Rightarrow> 'd option)
    \<Rightarrow> (bool \<times> 'd option) \<times> ('k \<Rightarrow> 'd option)" where
  "map_cmd eq c M = (case c of
     CAddReplace k d \<Rightarrow> ((True, None), (\<lambda>x. if eq k x then Some d else M x))
   | CAddNoreplace k d \<Rightarrow> ((M k = None, None), (if M k = None then (\<lambda>x. if eq k x then Some d else M x) else M))
   | CRemove k d \<Rightarrow> ((M k \<noteq> None, Some (case M k of Some c \<Rightarrow> c | None \<Rightarrow> d)), (\<lambda>x. if eq k x then None else M x))
   | CFind k d \<Rightarrow> ((M k \<noteq> None, Some (case M k of Some c \<Rightarrow> c | None \<Rightarrow> d)), M)
   | CRemoveAll \<Rightarrow> ((True, None), (\<lambda>x. None)))"

fun map_run :: "('k \<Rightarrow> 'k \<Rightarrow> bool) \<Rightarrow> ('k, 'd) kcmd list \<Rightarrow> ('k \<Rightarrow> 'd option)
    \<Rightarrow> (bool \<times> 'd option) list \<times> ('k \<Rightarrow> 'd option)" where
  "map_run eq [] M = ([], M)"
| "map_run eq (c # cs) M = (case map_cmd eq c M of (r, M) \<Rightarrow>
     (case map_run eq cs M of (rs, M) \<Rightarrow> (r # rs, M)))"

text \<open>After \<open>t\<close> commands with memory to spare: no null pointer is in the table, and it has at most
  \<open>t\<close> entries.\<close>

definition follows :: "('k \<Rightarrow> khint) \<Rightarrow> ('k \<Rightarrow> 'k \<Rightarrow> bool) \<Rightarrow> ptr set \<Rightarrow> nat \<Rightarrow> ('k, ptr) kh \<Rightarrow> 'd heap
    \<Rightarrow> ('k \<Rightarrow> 'd option) \<Rightarrow> bool" where
  "follows hash eq F t m H M \<longleftrightarrow> khash_ok hash eq F m H
     \<and> (\<forall>k. lookup eq m k \<noteq> Some (Some NULL)) \<and> contents eq m H = M
     \<and> unat (ksize m) \<le> t \<and> unat (n_buckets m) \<le> max 4 (4 * t + 1)"

lemma grown_bounds:
  assumes "grown m m'" and "unat (ksize m) \<le> t" and "unat (n_buckets m) \<le> max 4 (4 * t + 1)"
  shows "unat (ksize m') \<le> Suc t" and "unat (n_buckets m') \<le> max 4 (4 * Suc t + 1)"
  using assms unfolding grown_def by auto

context hashing begin

lemma no_null_contents:
  assumes "khash_ok hash eq F m H" and "lookup eq m k \<noteq> Some (Some NULL)"
  shows "(lookup eq m k = None) = (contents eq m H k = None)"
proof (cases "lookup eq m k")
  case None
  then show ?thesis by (simp add: contents_def)
next
  case (Some v)
  show ?thesis
    using khash_ok_cell [OF assms(1) Some] assms(2) Some by (metis contents_of_lookup(1) option.distinct(1))
qed

lemma follows_updated:
  assumes f: "follows hash eq F t m H M" and u: "updated hash eq F key v m H m' H'"
    and n: "lookup eq m' key \<noteq> Some (Some NULL)"
  shows "follows hash eq F (Suc t) m' H' (\<lambda>x. if eq key x then v else M x)"
proof -
  have "lookup eq m' k \<noteq> Some (Some NULL)" for k
  proof (cases "eq key k")
    case True
    then show ?thesis using n lookup_cong [OF True, of m'] by simp
  next
    case False
    then show ?thesis using u f unfolding updated_def follows_def by simp
  qed
  moreover have "contents eq m' H' = (\<lambda>x. if eq key x then v else M x)"
    using u f unfolding updated_def follows_def by auto
  ultimately show ?thesis
    using u f grown_bounds [of m m' t] unfolding updated_def follows_def by simp
qed

lemma kcmd_follows:
  assumes f: "follows hash eq F t m H M" and t: "kh_fits kb (8 * Suc t)" and room: "room H \<noteq> 0"
  shows "\<exists>m' H'. kcmd_body kb hash eq c m H = Inr (fst (map_cmd eq c M), m', H')
    \<and> follows hash eq F (Suc t) m' H' (snd (map_cmd eq c M)) \<and> room H - 1 \<le> room H'"
proof -
  have ok: "khash_ok hash eq F m H" and nn: "lookup eq m k \<noteq> Some (Some NULL)" and M: "contents eq m H = M"
    for k using f unfolding follows_def by simp_all
  have big: "kh_fits kb (max 4 (2 * unat (n_buckets m)))"
    by (rule kh_fits_mono [OF t]) (use f in \<open>auto simp: follows_def\<close>)
  note nc = no_null_contents [OF ok nn, unfolded M]
  have added: "added m H key d = Some d" for key d using room by (simp add: added_def)
  have more: "follows hash eq F (Suc t) m H M"
    using f unfolding follows_def by auto
  have cong: "M k = M l" if "eq k l" for k l using contents_cong [OF that, of m H] M by simp
  show ?thesis
  proof (cases c)
    case (CAddReplace k d)
    obtain m' H' where r: "addReplace kb hash eq k d m H = Inr (True, m', H')"
      "addReplace_old kb hash eq k d d m H = Inr ((True, case contents eq m H k of Some c \<Rightarrow> c | None \<Rightarrow> d), m', H')"
      "updated hash eq F k (added m H k d) m H m' H'"
      "room H - 1 \<le> room H'" "room H \<noteq> 0 \<Longrightarrow> lookup eq m' k \<noteq> Some (Some NULL)"
      using addReplace_spec [OF ok big nn [of k], of d d] by blast
    show ?thesis using follows_updated [OF f r(3) r(5) [OF room], unfolded added] r(1,4)
      by (simp add: CAddReplace kcmd_body_def map_cmd_def added)
  next
    case (CAddNoreplace k d)
    obtain m' H' where r: "addNoreplace kb hash eq k d m H = Inr (lookup eq m k = None, m', H')"
      "updated hash eq F k (if lookup eq m k = None then added m H k d else contents eq m H k) m H m' H'"
      "room H - 1 \<le> room H'" "room H \<noteq> 0 \<Longrightarrow> lookup eq m k \<noteq> Some (Some NULL) \<Longrightarrow> lookup eq m' k \<noteq> Some (Some NULL)"
      using addNoreplace_spec [OF ok big, of k d] by blast
    have "(\<lambda>x. if eq k x then M k else M x) = M" using cong by (auto intro!: ext)
    then show ?thesis
      using follows_updated [OF f r(2) r(4) [OF room nn [of k]], unfolded added nc M] r(1,3)
      by (cases "M k") (simp_all add: CAddNoreplace kcmd_body_def map_cmd_def nc cong: if_cong)
  next
    case (CRemove k d)
    obtain m' H' where r: "remove hash eq k m H = Inr (lookup eq m k \<noteq> None, m', H')"
      "remove_fill hash eq k d m H = Inr ((lookup eq m k \<noteq> None, case contents eq m H k of Some c \<Rightarrow> c | None \<Rightarrow> d), m', H')"
      "updated hash eq F k None m H m' H'" "lookup eq m' k = None" "room H \<le> room H'"
      "unat (ksize m') = unat (ksize m) - (if lookup eq m k = None then 0 else 1)"
      by (rule remove_spec [OF ok, of k d])
    have n': "lookup eq m' k \<noteq> Some (Some NULL)" using r(4) by simp
    show ?thesis using follows_updated [OF f r(3) n'] r(2,5)
      by (simp add: CRemove kcmd_body_def map_cmd_def nc M)
  next
    case (CFind k d)
    show ?thesis using find_spec(1) [OF ok, of k d] more
      by (auto simp: CFind kcmd_body_def map_cmd_def M split: option.split)
  next
    case CRemoveAll
    obtain m' H' where r: "removeAll m H = Inr (True, m', H')" "khash_ok hash eq F m' H'"
      "\<forall>k. contents eq m' H' k = None" "\<forall>k. lookup eq m' k = None" "live H' = F" "ksize m' = 0"
      "n_buckets m' = n_buckets m" "room H \<le> room H'"
      by (rule removeAll_spec [OF ok])
    have "follows hash eq F (Suc t) m' H' (\<lambda>x. None)"
      using r(2,3,4,6,7) f unfolding follows_def by auto
    then show ?thesis using r(1,8) by (simp add: CRemoveAll kcmd_body_def map_cmd_def)
  qed
qed

lemma locked_run:
  assumes "\<not> k_lock s" and "f (khmap s) H = Inr (r, m, H')"
  shows "locked f s H = Inr (r, s\<lparr>khmap := m, k_lock := False\<rparr>, H')"
  using assms by (simp add: locked_def)

lemma khash_run_follows:
  "follows hash eq F t (khmap s) H M \<Longrightarrow> \<not> k_lock s \<Longrightarrow> kh_fits kb (8 * (t + length cs)) \<Longrightarrow> length cs \<le> room H \<Longrightarrow>
    \<exists>s' H'. khash_run kb hash eq cs s H = Inr (fst (map_run eq cs M), s', H') \<and> \<not> k_lock s'
      \<and> follows hash eq F (t + length cs) (khmap s') H' (snd (map_run eq cs M))"
proof (induction cs arbitrary: t s H M)
  case Nil
  then show ?case by simp
next
  case (Cons c cs)
  have t: "kh_fits kb (8 * Suc t)" by (rule kh_fits_mono [OF Cons.prems(3)]) simp
  have room: "room H \<noteq> 0" using Cons.prems(4) by auto
  obtain m H1 where m: "kcmd_body kb hash eq c (khmap s) H = Inr (fst (map_cmd eq c M), m, H1)"
    "follows hash eq F (Suc t) m H1 (snd (map_cmd eq c M))" "room H - 1 \<le> room H1"
    using kcmd_follows [OF Cons.prems(1) t room] by blast
  have room1: "length cs \<le> room H1" using m(3) Cons.prems(4) by auto
  note l = locked_run [of s "kcmd_body kb hash eq c", OF Cons.prems(2) m(1)]
  let ?s = "s\<lparr>khmap := m, k_lock := False\<rparr>"
  obtain s' H' where IH: "khash_run kb hash eq cs ?s H1 = Inr (fst (map_run eq cs (snd (map_cmd eq c M))), s', H')"
    "\<not> k_lock s'" "follows hash eq F (Suc t + length cs) (khmap s') H' (snd (map_run eq cs (snd (map_cmd eq c M))))"
    using Cons.IH [of "Suc t" ?s H1 "snd (map_cmd eq c M)"] m(2) Cons.prems(3) room1 by auto
  show ?case using IH l by (auto simp: split_def)
qed

end

end
