(* ===== verification/TW_KHash32Iter.thy ===== *)
theory TW_KHash32Iter
  imports TW_KHash32Ops
begin

text \<open>
  HashIterator of TW_KHash_32: a loop with it from gotoStart to the end meets every used bucket of
  the table once.
\<close>

section \<open>Iterating\<close>

text \<open>A loop over the table with an iterator: from where it is to the end, the keys and the objects.\<close>

fun hiter_walk :: "nat \<Rightarrow> ('k, 'd) khash32 \<Rightarrow> khint \<Rightarrow> ('k option \<times> ptr) list res" where
  "hiter_walk 0 s i = Inl Diverges"
| "hiter_walk (Suc f) s i = (if hiter_atEnd s i then Inr [] else
     bindE (hiter_key s i) (\<lambda>k.
     bindE (hiter_data s i) (\<lambda>p.
     bindE (hiter_getNext s i) (\<lambda>(_, i).
     bindE (hiter_walk f s i) (\<lambda>kps. Inr ((k, p) # kps))))))"

definition used_from :: "('k, 'v) kh \<Rightarrow> nat \<Rightarrow> nat list" where
  "used_from m i = filter (is_used (kflags m)) [i..<unat (n_buckets m)]"

lemma used_from_step:
  "i < unat (n_buckets m) \<Longrightarrow> used_from m i = (if is_used (kflags m) i then [i] else []) @ used_from m (Suc i)"
  by (simp add: used_from_def upt_conv_Cons)

lemma used_from_end: "unat (n_buckets m) \<le> i \<Longrightarrow> used_from m i = []"
  by (simp add: used_from_def)

lemma used_from_0: "set (used_from m 0) = used_set m" "distinct (used_from m i)"
  by (auto simp: used_from_def used_set_def)

text \<open>\<open>next_used\<close>: the first used bucket from \<open>i\<close> on, or the end.\<close>

definition next_used :: "('k, 'v) kh \<Rightarrow> nat \<Rightarrow> nat" where
  "next_used m i = (case used_from m i of [] \<Rightarrow> unat (n_buckets m) | j # _ \<Rightarrow> j)"

lemma used_from_next: "i \<le> unat (n_buckets m) \<Longrightarrow> used_from m (next_used m i) = used_from m i"
  and next_used_le: "i \<le> unat (n_buckets m) \<Longrightarrow> i \<le> next_used m i \<and> next_used m i \<le> unat (n_buckets m)"
  and next_used_used: "next_used m i < unat (n_buckets m) \<Longrightarrow> next_used m i \<in> used_set m"
proof -
  have *: "i \<le> unat (n_buckets m) \<Longrightarrow> used_from m (next_used m i) = used_from m i
      \<and> i \<le> next_used m i \<and> next_used m i \<le> unat (n_buckets m)"
  proof (induction "unat (n_buckets m) - i" arbitrary: i)
    case 0
    then show ?case by (simp add: next_used_def used_from_end)
  next
    case (Suc d)
    then have i: "i < unat (n_buckets m)" by simp
    show ?case
    proof (cases "is_used (kflags m) i")
      case True
      then show ?thesis using used_from_step [OF i] i by (simp add: next_used_def)
    next
      case False
      then have "next_used m i = next_used m (Suc i)" "used_from m i = used_from m (Suc i)"
        using used_from_step [OF i] by (simp_all add: next_used_def)
      moreover have "d = unat (n_buckets m) - Suc i" using Suc.hyps(2) by simp
      ultimately show ?thesis using Suc.hyps(1) [of "Suc i"] i by auto
    qed
  qed
  show "i \<le> unat (n_buckets m) \<Longrightarrow> used_from m (next_used m i) = used_from m i"
    and "i \<le> unat (n_buckets m) \<Longrightarrow> i \<le> next_used m i \<and> next_used m i \<le> unat (n_buckets m)"
    using * by simp_all
  assume lt: "next_used m i < unat (n_buckets m)"
  then obtain j js where j: "used_from m i = j # js" by (auto simp: next_used_def split: list.splits)
  then have "j \<in> set (used_from m i)" by simp
  then show "next_used m i \<in> used_set m" using j by (simp add: next_used_def used_from_def used_set_def)
qed

lemma skip_loop_next:
  assumes fl: "flags_for (kflags m) (unat (n_buckets m))"
  shows "unat i \<le> unat (n_buckets m) \<Longrightarrow> unat (n_buckets m) < f + unat i \<Longrightarrow>
    \<exists>j. skip_loop f m i = Inr j \<and> unat j = next_used m (unat i)"
proof (induction f arbitrary: i)
  case 0
  then show ?case by simp
next
  case (Suc f)
  show ?case
  proof (cases "i = n_buckets m")
    case True
    then show ?thesis by (simp add: next_used_def used_from_end)
  next
    case False
    then have i: "unat i < unat (n_buckets m)" using Suc.prems(1)
      by (metis le_neq_implies_less word_unat_eq_iff)
    then have i1: "unat (i + 1) = Suc (unat i)" by (rule unat_plus_one)
    show ?thesis
    proof (cases "is_used (kflags m) (unat i)")
      case True
      then show ?thesis using False ac_iseither_eq [OF fl i] used_from_step [OF i] by (simp add: next_used_def)
    next
      case no: False
      then have "next_used m (unat i) = next_used m (Suc (unat i))"
        using used_from_step [OF i] by (simp add: next_used_def)
      then show ?thesis
        using no False ac_iseither_eq [OF fl i] Suc.IH [of "i + 1"] i1 i Suc.prems(2) by simp
    qed
  qed
qed

context hashing begin

lemma hiter_walk_used:
  assumes ok: "khash_ok hash eq F (khmap s) H"
  shows "unat i \<le> unat (n_buckets (khmap s)) \<Longrightarrow> next_used (khmap s) (unat i) = unat i \<Longrightarrow>
    unat (n_buckets (khmap s)) < f + unat i \<Longrightarrow>
    hiter_walk f s i = Inr (map (\<lambda>j. (kkeys (khmap s) ! j, the (kvals (khmap s) ! j))) (used_from (khmap s) (unat i)))"
proof (induction f arbitrary: i)
  case 0
  then show ?case by simp
next
  case (Suc f)
  let ?m = "khmap s"
  note o = kh_ok_old [OF khash_okD(1) [OF ok]]
  show ?case
  proof (cases "i = n_buckets ?m")
    case True
    then show ?thesis by (simp add: hiter_atEnd_def used_from_end)
  next
    case False
    then have i: "unat i < unat (n_buckets ?m)" using Suc.prems(1)
      by (metis le_neq_implies_less word_unat_eq_iff)
    then have i1: "unat (i + 1) = Suc (unat i)" by (rule unat_plus_one)
    have u: "unat i \<in> used_set ?m" using next_used_used [of ?m "unat i"] Suc.prems(2) i by simp
    obtain k where k: "kkeys ?m ! unat i = Some k" using keys_Some [OF o(4) u] by blast
    obtain p where p: "kvals ?m ! unat i = Some p"
      using khash_ok_cell [OF ok lookup_bucket [OF o(4) u k]] by metis
    have key: "hiter_key s i = Inr (Some k)" using False i o(2) k by (simp add: hiter_key_def key_at_def)
    have dat: "hiter_data s i = Inr p" using False i o(3) p by (simp add: hiter_data_def val_at_def)
    obtain j where j: "skip_loop (Suc (unat (n_buckets ?m))) ?m (i + 1) = Inr j"
      "unat j = next_used ?m (Suc (unat i))"
      using skip_loop_next [OF o(1), of "i + 1" "Suc (unat (n_buckets ?m))"] i i1 by auto
    have nx: "hiter_getNext s i = Inr (j \<noteq> n_buckets ?m, j)"
      using False j(1) by (simp add: hiter_getNext_def del: skip_loop.simps)
    have le: "Suc (unat i) \<le> unat (n_buckets ?m)" using i by simp
    note nu = next_used_le [OF le] used_from_next [OF le]
    have "next_used ?m (unat j) = unat j" using nu(2) j(2) by (simp add: next_used_def)
    then have IH: "hiter_walk f s j = Inr (map (\<lambda>j. (kkeys ?m ! j, the (kvals ?m ! j))) (used_from ?m (unat j)))"
      using Suc.IH [of j] nu(1) j(2) Suc.prems(3) by simp
    show ?thesis
      using False key dat nx IH nu(2) j(2) used_from_step [OF i] u k p
      by (simp add: hiter_atEnd_def used_set_def)
  qed
qed

lemma gotoStart_spec:
  assumes ok: "khash_ok hash eq F (khmap s) H" and "\<not> k_lock s"
  obtains i where "gotoStart s = Inr (i, s\<lparr>iters_out := iters_out s + 1\<rparr>)"
    and "hiter_walk (Suc (unat (n_buckets (khmap s)))) (s\<lparr>iters_out := iters_out s + 1\<rparr>) i
      = Inr (map (\<lambda>j. (kkeys (khmap s) ! j, the (kvals (khmap s) ! j))) (used_from (khmap s) 0))"
proof -
  let ?m = "khmap s" and ?s = "s\<lparr>iters_out := iters_out s + 1\<rparr>"
  note o = kh_ok_old [OF khash_okD(1) [OF ok]]
  obtain i where i: "skip_loop (Suc (unat (n_buckets ?m))) ?m 0 = Inr i" "unat i = next_used ?m 0"
    using skip_loop_next [OF o(1), of 0 "Suc (unat (n_buckets ?m))"] by auto
  have g: "gotoStart s = Inr (i, ?s)"
    using i(1) assms(2) by (simp add: gotoStart_def del: skip_loop.simps)
  have n: "next_used ?m (unat i) = unat i" "used_from ?m (unat i) = used_from ?m 0"
    using used_from_next [of 0 ?m] i(2) by (simp_all add: next_used_def)
  have "unat i \<le> unat (n_buckets ?m)" using next_used_le [of 0 ?m] i(2) by simp
  then have "hiter_walk (Suc (unat (n_buckets ?m))) ?s i
      = Inr (map (\<lambda>j. (kkeys ?m ! j, the (kvals ?m ! j))) (used_from ?m 0))"
    using hiter_walk_used [of F ?s H i "Suc (unat (n_buckets ?m))"] ok n by (simp del: hiter_walk.simps)
  then show ?thesis using g that by blast
qed

end

end
