(* ===== verification/TW_KHash32Props.thy ===== *)
theory TW_KHash32Props
  imports TW_KHash32Iter
begin

unbundle bit_operations_syntax

text \<open>
  The properties of the hash table, with tables to show that their hypotheses can hold.
\<close>

lemma two_put_table:
  "\<exists>x h. kh_ok (hash_func hash_uint32t) uint32_eqFunc h \<and> unat (n_buckets h) = 4
     \<and> bucket_of uint32_eqFunc h 7 = Some (unat (x :: khint)) \<and> unat (ksize (h :: (32 word, ptr) kh)) = 1"
proof -
  let ?i = "kh_init_A :: (32 word, ptr) kh"
  have a: "kh_ok (hash_func hash_uint32t) uint32_eqFunc ?i" by (simp add: kh_ok_def)
  have b: "kh_fits 4 (max 4 (2 * unat (n_buckets ?i)))" by (simp add: kh_init_A_def kh_fits_def)
  have c: "lookup uint32_eqFunc ?i 7 = None" by (simp add: lookup_def bucket_of_def kh_init_A_def)
  show ?thesis
  proof (rule u32.put_spec [OF a b, of 7])
    fix x :: khint and h :: "(32 word, ptr) kh"
    assume ar: "kh_arrays h"
    assume h: "kh_ok (hash_func hash_uint32t) uint32_eqFunc h" "bucket_of uint32_eqFunc h 7 = Some (unat x)"
      "unat (ksize h) = unat (ksize ?i) + (if lookup uint32_eqFunc ?i 7 = None then 1 else 0)"
      "unat (n_buckets h) \<le> max (max 4 (unat (n_buckets ?i))) (4 * unat (ksize ?i) + 1)"
    have "unat (n_buckets h) = 4" using h(4) pow2_pos [OF arrays_pow2 [OF ar]] by (simp add: kh_init_A_def)
    moreover have "unat (ksize h) = 1" using h(3) c by (simp add: kh_init_A_def)
    ultimately show ?thesis using h(1,2) by blast
  qed
qed

text \<open>C8. \<open>kh_get_A\<close>, which probes along the path of the key and stops at the first empty bucket, finds
  what a search through all buckets finds: the bucket with an equal key, or the end of the table.\<close>
theorem kh_get_is_linear_search:
  assumes "hashing hash eq" and "kh_ok hash eq h"
  shows "kh_get_A hash eq h key =
    Inr (case bucket_of eq h key of None \<Rightarrow> n_buckets h | Some i \<Rightarrow> of_nat i)"
  by (rule hashing.get_is_bucket_of [OF assms])

theorem kh_get_is_linear_search_witness:
  "\<exists>x h. kh_ok (hash_func hash_uint32t) uint32_eqFunc h \<and> unat (ksize (h :: (32 word, ptr) kh)) = 1
     \<and> kh_get_A (hash_func hash_uint32t) uint32_eqFunc h 7 = Inr x"
proof -
  obtain x and h :: "(32 word, ptr) kh" where h: "kh_ok (hash_func hash_uint32t) uint32_eqFunc h"
    "bucket_of uint32_eqFunc h 7 = Some (unat (x :: khint))" "unat (ksize h) = 1"
    using two_put_table by blast
  have "hashing (hash_func hash_uint32t) uint32_eqFunc" by unfold_locales
  from kh_get_is_linear_search [OF this h(1), of 7] h show ?thesis by auto
qed

text \<open>C9. \<open>kh_put_A\<close>, which may first move the whole table into a bigger or a cleaner one, returns
  the bucket of the key and says whether the key is new; every other key keeps its value, and
  so does this one if it was there. The table is in order again. (While twice the number of buckets, or 4 of a new table, are
  arrays of keys and of values whose sizes in bytes an \<^verbatim>\<open>int\<close> holds, and there is memory for them.)\<close>
theorem kh_put_spec:
  assumes "hashing hash eq" and "kh_ok hash eq h" and "kh_fits kb (max 4 (2 * unat (n_buckets h)))"
  shows "holds (kh_put_A kb hash eq h key) (\<lambda>(x, r, h'). kh_ok hash eq h'
    \<and> bucket_of eq h' key = Some (unat x) \<and> (r = 0) = (lookup eq h key \<noteq> None)
    \<and> (\<forall>k. lookup eq h' k = lookup eq h k \<or> eq key k \<and> lookup eq h k = None)
    \<and> unat (ksize h') = unat (ksize h) + (if lookup eq h key = None then 1 else 0))"
proof (rule hashing.put_spec [OF assms, of key])
  fix x r h'
  assume p: "kh_put_A kb hash eq h key = Inr (x, r, h')" "kh_ok hash eq h'"
    "bucket_of eq h' key = Some (unat x)" "\<And>k. \<not> eq key k \<Longrightarrow> lookup eq h' k = lookup eq h k"
    "(r = 0) = (lookup eq h key \<noteq> None)" "lookup eq h key \<noteq> None \<Longrightarrow> lookup eq h' key = lookup eq h key"
    "unat (ksize h') = unat (ksize h) + (if lookup eq h key = None then 1 else 0)"
  have "lookup eq h' k = lookup eq h k \<or> eq key k \<and> lookup eq h k = None" for k
  proof (cases "eq key k")
    case True
    note c = hashing.lookup_cong [OF assms(1) True, of h] hashing.lookup_cong [OF assms(1) True, of h']
    show ?thesis using p(6) True unfolding c [symmetric] by auto
  qed (simp add: p(4))
  then show ?thesis using p by simp
qed

theorem kh_put_spec_witness:
  "\<exists>h. unat (ksize (h :: (32 word, ptr) kh)) = 1 \<and> holds (kh_put_A 4 (hash_func hash_uint32t) uint32_eqFunc h 9)
     (\<lambda>(x, r, h'). bucket_of uint32_eqFunc h' 9 = Some (unat x))"
proof -
  obtain h :: "(32 word, ptr) kh" where h: "kh_ok (hash_func hash_uint32t) uint32_eqFunc h"
    "unat (n_buckets h) = 4" "unat (ksize h) = 1"
    using two_put_table by blast
  have f: "kh_fits 4 (max 4 (2 * unat (n_buckets h)))" using h(2) by (simp add: kh_fits_def)
  have "hashing (hash_func hash_uint32t) uint32_eqFunc" by unfold_locales
  from kh_put_spec [OF this h(1) f, of 9] h(3)
  show ?thesis by (intro exI [of _ h]) (auto elim!: holds_mono)
qed

text \<open>C7. \<open>kh_resize_A\<close>, which rehashes inside the old arrays and kicks out what is in the way, keeps
  every key and its value. A size that is too small for the entries
  changes nothing; otherwise the table has that size, rounded up, and no deleted bucket is left. (For a size, rounded up,
  with which the arrays of keys and of values have sizes in bytes that an \<^verbatim>\<open>int\<close> holds, while there is memory for them.)\<close>
theorem kh_resize_keeps_map:
  assumes "hashing hash eq" and "kh_ok hash eq h" and "kh_fits kb (unat (new_size req))"
  shows "holds (kh_resize_A kb hash h req) (\<lambda>h'. kh_ok hash eq h' \<and> (\<forall>k. lookup eq h' k = lookup eq h k)
    \<and> (if hash_upper (new_size req) \<le> ksize h then h' = h
       else n_buckets h' = new_size req \<and> ksize h' = ksize h \<and> n_occupied h' = ksize h))"
proof (cases "hash_upper (new_size req) \<le> ksize h")
  case True
  then have "kh_resize_A kb hash h req = Inr h" by (simp add: kh_resize_A_def new_size_def Let_def)
  then show ?thesis using True assms(2) by simp
next
  case False
  then have few: "ksize h < hash_upper (new_size req)" by simp
  obtain h' where r: "kh_resize_A kb hash h req = Inr h'" "kh_arrays h'" "kh_keys_ok hash eq h'"
    "kh_counts h'" "entries h' = entries h" "n_buckets h' = new_size req"
    "n_occupied h' = ksize h" "ksize h' = ksize h" "upper_bound h' = hash_upper (new_size req)"
    by (rule hashing.resize_ok [OF assms(1,2) few assms(3)])
  then show ?thesis
    using False hashing.lookup_entries_eq [OF assms(1) kh_ok_old(4) [OF assms(2)] r(3,5)]
    by (simp add: kh_ok_def)
qed

theorem kh_resize_keeps_map_witness:
  "\<exists>h. unat (ksize (h :: (32 word, ptr) kh)) = 1 \<and> holds (kh_resize_A 4 (hash_func hash_uint32t) h 100)
     (\<lambda>h'. \<forall>k. lookup uint32_eqFunc h' k = lookup uint32_eqFunc h k)"
proof -
  obtain h :: "(32 word, ptr) kh" where h: "kh_ok (hash_func hash_uint32t) uint32_eqFunc h" "unat (ksize h) = 1"
    using two_put_table by blast
  have "hashing (hash_func hash_uint32t) uint32_eqFunc" by unfold_locales
  moreover have "kh_fits 4 (unat (new_size 100))" by (simp add: new_size_def kroundup32_def Let_def kh_fits_def)
  ultimately show ?thesis using kh_resize_keeps_map [of "hash_func hash_uint32t" uint32_eqFunc h 4 100] h
    by (intro exI [of _ h]) (auto elim!: holds_mono)
qed

text \<open>Growing to 2 ^ 28 buckets or more loses the values, of 8 bytes each: their number of bytes is negative or 0 as the \<^verbatim>\<open>int\<close> that
  \<^verbatim>\<open>ALLOC::realloc\<close> takes. The rehash of a table with an entry then goes through a null pointer.\<close>
theorem kh_resize_loses_values:
  assumes "hashing hash eq" and "kh_ok hash eq h" and "ksize h < hash_upper (new_size req)" and "ksize h \<noteq> 0"
    and "n_buckets h < new_size req" and "2 ^ 28 \<le> unat (new_size req)"
  shows "kh_resize_A kb hash h req = Inl OutOfBounds"
  by (rule resize_too_big [OF assms(2-6)])

theorem kh_resize_loses_values_witness:
  "\<exists>h. unat (ksize (h :: (32 word, ptr) kh)) = 1 \<and> kh_resize_A 4 (hash_func hash_uint32t) h (2 ^ 28) = Inl OutOfBounds"
proof -
  obtain h :: "(32 word, ptr) kh" where h: "kh_ok (hash_func hash_uint32t) uint32_eqFunc h" "unat (n_buckets h) = 4" "unat (ksize h) = 1"
    using two_put_table by blast
  have n: "new_size (2 ^ 28) = 2 ^ 28" by (simp add: new_size_def kroundup32_def Let_def)
  have "hashing (hash_func hash_uint32t) uint32_eqFunc" by unfold_locales
  moreover have "ksize h < hash_upper (2 ^ 28)" "ksize h \<noteq> 0" "n_buckets h < 2 ^ 28"
    using h(2,3) by (auto simp: word_less_nat_alt hash_upper_def)
  ultimately show ?thesis
    using kh_resize_loses_values [of "hash_func hash_uint32t" uint32_eqFunc h "2 ^ 28" 4] h(1,3) n by (intro exI [of _ h]) simp
qed

text \<open>\<open>kroundup32\<close> gives the least power of two that is not below its argument, when there is one in
  32 bits, and 0 otherwise.\<close>
theorem kroundup32_least_power:
  "if 0 < x \<and> unat x \<le> 2 ^ 31
   then \<exists>m. m \<le> 31 \<and> unat (kroundup32 x) = 2 ^ m \<and> unat x \<le> 2 ^ m \<and> 2 ^ m < 2 * unat x
   else kroundup32 x = 0"
  using kroundup32_power [of x] kroundup32_too_big [of x] by (auto simp: word_gt_0)

text \<open>C10. The search for a free bucket in the rehash, a loop that has no other exit, ends at an
  empty bucket whenever there is one: the step is odd and the size a power of two, so that
  the path meets every bucket.\<close>
theorem find_free_terminates:
  assumes "pow2 n" and "flags_for nf (unat n)" and "card (new_occ n nf) < unat n"
  shows "holds (find_free nf (n - 1) (ac_inc k (n - 1)) (Suc (unat (n - 1))) (k AND (n - 1)))
    (\<lambda>i. unat i < unat n \<and> is_empty nf (unat i))"
proof -
  obtain i where "find_free nf (n - 1) (ac_inc (id k) (n - 1)) (Suc (unat (n - 1))) (id k AND (n - 1)) = Inr i"
    "unat i < unat n" "unat i \<notin> new_occ n nf" "reaches id n (new_occ n nf) (unat i) k"
    by (rule find_free_ok [OF assms])
  then show ?thesis by (simp add: new_occ_def del: find_free.simps)
qed

theorem find_free_terminates_witness:
  "holds (find_free [0xAAAAAAA8] 3 (ac_inc 4 3) 4 (4 AND 3)) (\<lambda>i. unat i < 4 \<and> is_empty [0xAAAAAAA8] (unat i))"
proof -
  have "pow2 4" unfolding pow2_def by (intro exI [of _ 2]) simp
  moreover have "flags_for [0xAAAAAAA8] (unat (4 :: khint))" by (simp add: flags_for_def)
  moreover have "card (new_occ 4 [0xAAAAAAA8]) < unat (4 :: khint)"
  proof -
    have "is_empty [0xAAAAAAA8] 3" by code_simp
    then have "i < 3" if "i \<in> new_occ 4 [0xAAAAAAA8]" for i
      using that by (cases "i = 3") (auto simp: new_occ_def)
    then have "new_occ 4 [0xAAAAAAA8] \<subseteq> {..<3}" by blast
    then have "card (new_occ 4 [0xAAAAAAA8]) \<le> card {..<3 :: nat}" by (rule card_mono [rotated]) simp
    then show ?thesis by simp
  qed
  ultimately show ?thesis using find_free_terminates [of 4 "[0xAAAAAAA8]" 4] by (simp del: find_free.simps)
qed

text \<open>C6. A TW_KHash_32 is a finite map: for every sequence of operations on a new one, each returns what
  the map returns, the table then holds what the map holds, its objects are the only memory it
  has taken, and its destructor gives all of it back. (While there is memory, and for so few operations that arrays of eight times as many
  keys and values have sizes in bytes that an \<^verbatim>\<open>int\<close> holds: fewer than 2 ^ 25 with keys of up to 8 bytes.)\<close>
theorem khash_run_is_a_map:
  assumes "hashing hash eq" and "kh_fits kb (8 * length cmds)" and "length cmds \<le> room H"
  shows "holds (bindE (khash_init kb hash 0) (\<lambda>s. khash_run kb hash eq cmds s H)) (\<lambda>(rs, s, H').
    rs = fst (map_run eq cmds (\<lambda>_. None)) \<and> contents eq (khmap s) H' = snd (map_run eq cmds (\<lambda>_. None))
    \<and> live H' = live H \<union> owned eq (khmap s) \<and> live H \<inter> owned eq (khmap s) = {}
    \<and> holds (khash_destroy s H') (\<lambda>H''. live H'' = live H))"
proof -
  let ?s = "\<lparr>khmap = kh_init_A, k_lock = False, iters_out = 0\<rparr>"
  have ini: "khash_init kb hash 0 = Inr ?s" by (simp add: khash_init_def)
  have ok: "kh_ok hash eq kh_init_A" "used_set (kh_init_A :: ('a, ptr) kh) = {}"
    by (simp_all add: kh_ok_def used_set_def kh_init_A_def)
  have "follows hash eq (live H) 0 (khmap ?s) H (\<lambda>_. None)"
    using hashing.empty_ok [OF assms(1) ok, of H "live H"]
    by (simp add: follows_def fun_eq_iff) (simp add: kh_init_A_def)
  then obtain s' H' where r: "khash_run kb hash eq cmds ?s H = Inr (fst (map_run eq cmds (\<lambda>_. None)), s', H')"
    "\<not> k_lock s'" "follows hash eq (live H) (length cmds) (khmap s') H' (snd (map_run eq cmds (\<lambda>_. None)))"
    using hashing.khash_run_follows [OF assms(1), of "live H" 0 ?s H "\<lambda>_. None" kb cmds] assms(2,3) by auto
  have k: "khash_ok hash eq (live H) (khmap s') H'" using r(3) by (simp add: follows_def)
  obtain m2 H2 where d: "removeAll (khmap s') H' = Inr (True, m2, H2)" "khash_ok hash eq (live H) m2 H2"
    "\<forall>k. contents eq m2 H2 k = None" "\<forall>k. lookup eq m2 k = None" "live H2 = live H" "ksize m2 = 0"
    "n_buckets m2 = n_buckets (khmap s')" "room H' \<le> room H2"
    by (rule hashing.removeAll_spec [OF assms(1) k])
  have "khash_destroy s' H' = Inr H2"
    using r(2) d(1) by (simp add: khash_destroy_def locked_def)
  then show ?thesis using ini r d(5) khash_okD(2,3) [OF k] by (simp add: follows_def)
qed

theorem khash_run_is_a_map_witness:
  "holds (bindE (khash_init 4 (hash_func hash_uint32t) 0) (\<lambda>s. khash_run 4 (hash_func hash_uint32t) uint32_eqFunc
     [CAddReplace 5 (10 :: nat), CAddNoreplace 5 20, CFind 5 0, CRemove 5 0, CFind 5 40] s (empty_heap 10)))
    (\<lambda>(rs, s, H'). rs = [(True, None), (False, None), (True, Some (10 :: nat)), (True, Some (10 :: nat)), (False, Some 40)]
      \<and> holds (khash_destroy s H') (\<lambda>H''. live H'' = {}))" (is "holds (bindE _ (\<lambda>s. khash_run _ _ _ ?cs _ _)) _")
proof -
  have h: "hashing (hash_func hash_uint32t) uint32_eqFunc" by unfold_locales
  have m: "fst (map_run uint32_eqFunc ?cs (\<lambda>_. None))
      = [(True, None), (False, None), (True, Some (10 :: nat)), (True, Some (10 :: nat)), (False, Some 40)]"
    by (simp add: map_cmd_def uint32_eqFunc_def)
  have "kh_fits 4 (8 * length ?cs)" "length ?cs \<le> room (empty_heap 10)" by (simp_all add: empty_heap_def kh_fits_def)
  from khash_run_is_a_map [OF h this] show ?thesis
    by (rule holds_mono) (auto simp: m simp del: khash_run.simps map_run.simps)
qed

text \<open>When there is no memory for the object of a new key, \<open>addReplace\<close> reports success and the
  table counts the key with a null pointer; the key cannot be found, and the next \<open>addReplace\<close> of
  it runs the destructor on the null pointer.\<close>
theorem khash_failed_add_faults_later:
  assumes "hashing hash eq" and "khash_ok hash eq F m H" and "kh_fits kb (max 4 (2 * unat (n_buckets m)))"
    and "lookup eq m key = None" and "room H = 0"
  shows "holds (addReplace kb hash eq key d m H) (\<lambda>(b, m', H'). b \<and> H' = H
    \<and> lookup eq m' key = Some (Some NULL)
    \<and> find_fill hash eq key c m' H' = Inr ((False, c), m', H')
    \<and> addReplace kb hash eq key d' m' H' = Inl NullDeref)"
proof -
  obtain x m' H' where p: "put_new kb hash eq key d m H = Inr (x, m', H')"
    "updated hash eq F key (if room H = 0 then None else Some d) m H m' H'"
    "val_at m' x = Inr (fst (alloc_obj d H))" "H' = snd (alloc_obj d H)"
    "lookup eq m' key = Some (Some (fst (alloc_obj d H)))"
    by (rule hashing.put_new_spec [OF assms(1-4), of d])
  have a: "alloc_obj d H = (NULL, H)" using assms(5) by (simp add: alloc_obj_def)
  have ok: "khash_ok hash eq F m' H" using p(2,4) a by (simp add: updated_def)
  have look: "lookup eq m' key = Some (Some NULL)" using p(5) a by simp
  have "addReplace kb hash eq key d m H = Inr (True, m', H)"
    using p(1,4) a hashing.get_missing [OF assms(1) khash_okD(1) [OF assms(2)] assms(4)]
    by (simp add: addReplace_def)
  moreover have "find_fill hash eq key c m' H = Inr ((False, c), m', H)"
    using hashing.find_spec(1) [OF assms(1) ok, of key c] look by (simp add: contents_def)
  ultimately show ?thesis
    using look hashing.replace_null_faults(1) [OF assms(1) ok look] by simp
qed

theorem khash_failed_add_faults_later_witness:
  "holds (addReplace 4 (hash_func hash_uint32t) uint32_eqFunc 5 (10 :: nat) kh_init_A (empty_heap 0)) (\<lambda>(b, m', H').
     addReplace 4 (hash_func hash_uint32t) uint32_eqFunc 5 20 m' H' = Inl NullDeref)"
proof -
  have h: "hashing (hash_func hash_uint32t) uint32_eqFunc" by unfold_locales
  have "kh_ok (hash_func hash_uint32t) uint32_eqFunc (kh_init_A :: (32 word, ptr) kh)"
    "used_set (kh_init_A :: (32 word, ptr) kh) = {}" "live (empty_heap 0 :: nat heap) = {}"
    by (simp_all add: kh_ok_def used_set_def kh_init_A_def)
  note e = u32.empty_ok [OF this]
  have "holds (addReplace 4 (hash_func hash_uint32t) uint32_eqFunc 5 (10 :: nat) kh_init_A (empty_heap 0)) (\<lambda>(b, m', H'). b \<and> H' = empty_heap 0
    \<and> lookup uint32_eqFunc m' 5 = Some (Some NULL)
    \<and> find_fill (hash_func hash_uint32t) uint32_eqFunc 5 30 m' H' = Inr ((False, 30), m', H')
    \<and> addReplace 4 (hash_func hash_uint32t) uint32_eqFunc 5 20 m' H' = Inl NullDeref)"
    by (rule khash_failed_add_faults_later [OF h e(1) _ e(3)]) (simp_all add: kh_init_A_def empty_heap_def kh_fits_def)
  then show ?thesis by (rule holds_mono) auto
qed

text \<open>C24. A loop with a HashIterator, from \<open>gotoStart\<close> until \<open>atEnd\<close>, meets each entry of the table
  exactly once: as many as \<open>size\<close> counts, no key twice, each with the object that \<open>find\<close> gives.\<close>
theorem khash_iter_visits_all:
  assumes "hashing hash eq" and "khash_ok hash eq F (khmap s) H" and "\<not> k_lock s"
  shows "holds (bindE (gotoStart s) (\<lambda>(i, s'). hiter_walk (Suc (unat (n_buckets (khmap s)))) s' i)) (\<lambda>kps.
    length kps = unat (ksize (khmap s)) \<and> distinct (map fst kps)
    \<and> (\<forall>k p. (lookup eq (khmap s) k = Some (Some p)) = (\<exists>l. (Some l, p) \<in> set kps \<and> eq l k)))"
proof -
  let ?m = "khmap s" and ?e = "\<lambda>j. (kkeys (khmap s) ! j, the (kvals (khmap s) ! j))"
  obtain i where g: "gotoStart s = Inr (i, s\<lparr>iters_out := iters_out s + 1\<rparr>)"
    "hiter_walk (Suc (unat (n_buckets ?m))) (s\<lparr>iters_out := iters_out s + 1\<rparr>) i = Inr (map ?e (used_from ?m 0))"
    by (rule hashing.gotoStart_spec [OF assms])
  note o = kh_ok_old [OF khash_okD(1) [OF assms(2)]]
  note u = used_from_0(1) [of ?m] used_from_0(2) [of ?m 0]
  have len: "length (used_from ?m 0) = unat (ksize ?m)"
    using distinct_card [OF u(2)] u(1) o(5) by simp
  have "inj_on (\<lambda>j. kkeys ?m ! j) (used_set ?m)"
  proof (rule inj_onI)
    fix a b
    assume a: "a \<in> used_set ?m" and b: "b \<in> used_set ?m" and e: "kkeys ?m ! a = kkeys ?m ! b"
    obtain k where k: "kkeys ?m ! a = Some k" using keys_Some [OF o(4) a] by blast
    show "a = b"
      using hashing.key_unique [OF assms(1) o(4) a b k _ hashing.eq_refl [OF assms(1)] hashing.eq_refl [OF assms(1)]] k e by simp
  qed
  then have dis: "distinct (map fst (map ?e (used_from ?m 0)))"
    using u by (simp add: distinct_map comp_def)
  have "(lookup eq ?m k = Some (Some p)) = (\<exists>l. (Some l, p) \<in> set (map ?e (used_from ?m 0)) \<and> eq l k)" for k p
  proof -
    have "(Some l, p) \<in> ?e ` used_set ?m \<longleftrightarrow> (Some l, Some p) \<in> entries ?m" for l
    proof -
      have "kvals ?m ! j \<noteq> None" if j: "j \<in> used_set ?m" for j
      proof -
        obtain a where a: "kkeys ?m ! j = Some a" using keys_Some [OF o(4) j] by blast
        show ?thesis
          using khash_ok_cell [OF assms(2) hashing.lookup_bucket [OF assms(1) o(4) j a]] by (metis option.distinct(1))
      qed
      then show ?thesis unfolding entries_def ents_def by (auto simp: image_iff) (metis option.sel)+
    qed
    then show ?thesis unfolding hashing.lookup_iff [OF assms(1) o(4)] using u(1) by simp
  qed
  then show ?thesis using g len dis by simp
qed

theorem khash_iter_visits_all_witness:
  "holds (bindE (khash_init 4 (hash_func hash_uint32t) 3) (\<lambda>s. bindE (gotoStart (s :: (32 word, nat) khash32)) (\<lambda>(i, s').
     hiter_walk (Suc (unat (n_buckets (khmap s)))) s' i))) (\<lambda>kps. kps = [])"
proof -
  have h: "hashing (hash_func hash_uint32t) uint32_eqFunc" by unfold_locales
  have ok0: "kh_ok (hash_func hash_uint32t) uint32_eqFunc (kh_init_A :: (32 word, ptr) kh)"
    and k0: "ksize (kh_init_A :: (32 word, ptr) kh) = 0" and up: "\<not> hash_upper (new_size 3) \<le> 0"
    by (simp_all add: kh_ok_def kh_init_A_def hash_upper_def new_size_def kroundup32_def Let_def)
  have fit: "kh_fits 4 (unat (new_size 3))" by (simp add: kh_fits_def new_size_def kroundup32_def Let_def)
  obtain m :: "(32 word, ptr) kh" where m: "kh_resize_A 4 (hash_func hash_uint32t) kh_init_A 3 = Inr m"
    "kh_ok (hash_func hash_uint32t) uint32_eqFunc m" "ksize m = 0"
    using u32.resize_ok [OF ok0, of 3 4] k0 up fit by (metis kh_ok_def not_le)
  have "card (used_set m) = 0" using kh_ok_old(5) [OF m(2)] m(3) by simp
  then have "used_set m = {}" by simp
  note e = u32.empty_ok(1) [OF m(2) this live_empty [of 5]]
  let ?s = "\<lparr>khmap = m, k_lock = False, iters_out = 0\<rparr> :: (32 word, nat) khash32"
  have i: "khash_init 4 (hash_func hash_uint32t) 3 = Inr ?s" using m(1) by (simp add: khash_init_def)
  have "khash_ok (hash_func hash_uint32t) uint32_eqFunc {} (khmap ?s) (empty_heap 5 :: nat heap)" using e by simp
  from khash_iter_visits_all [OF h this] show ?thesis
    unfolding i bindE_Inr by (rule holds_mono) (simp_all add: m(3))
qed

end
