(* ===== verification/TW_Deque.thy ===== *)
theory TW_Deque
  imports TW_Queue
begin

text \<open>
  The contract of a queue with two ends: that of a queue, and adding at the front and removing at
  the back. What follows for every sequence of calls.
\<close>

datatype 'a dqop = Push_back 'a | Push_front 'a | Pop_front | Pop_back

fun run_dops :: "('a \<Rightarrow> 's \<Rightarrow> 's res) \<Rightarrow> ('a \<Rightarrow> 's \<Rightarrow> 's res) \<Rightarrow> ('s \<Rightarrow> ('a option \<times> 's) res) \<Rightarrow>
    ('s \<Rightarrow> ('a option \<times> 's) res) \<Rightarrow> 'a dqop list \<Rightarrow> 's \<Rightarrow> ('a option list \<times> 's) res" where
  "run_dops pb pf gf gb [] s = Inr ([], s)"
| "run_dops pb pf gf gb (Push_back x # ops) s = bindE (pb x s) (run_dops pb pf gf gb ops)"
| "run_dops pb pf gf gb (Push_front x # ops) s = bindE (pf x s) (run_dops pb pf gf gb ops)"
| "run_dops pb pf gf gb (Pop_front # ops) s = bindE (gf s) (\<lambda>(r, s).
     bindE (run_dops pb pf gf gb ops s) (\<lambda>(rs, s). Inr (r # rs, s)))"
| "run_dops pb pf gf gb (Pop_back # ops) s = bindE (gb s) (\<lambda>(r, s).
     bindE (run_dops pb pf gf gb ops s) (\<lambda>(rs, s). Inr (r # rs, s)))"

text \<open>The same calls on a list.\<close>

fun list_dops :: "'a dqop list \<Rightarrow> 'a list \<Rightarrow> 'a option list \<times> 'a list" where
  "list_dops [] xs = ([], xs)"
| "list_dops (Push_back x # ops) xs = list_dops ops (xs @ [x])"
| "list_dops (Push_front x # ops) xs = list_dops ops (x # xs)"
| "list_dops (Pop_front # ops) xs = (let (rs, ys) = list_dops ops (tl xs)
     in ((if xs = [] then None else Some (hd xs)) # rs, ys))"
| "list_dops (Pop_back # ops) xs = (let (rs, ys) = list_dops ops (butlast xs)
     in ((if xs = [] then None else Some (last xs)) # rs, ys))"

fun dfits :: "nat \<Rightarrow> 'a dqop list \<Rightarrow> nat \<Rightarrow> bool" where
  "dfits n [] k \<longleftrightarrow> True"
| "dfits n (Push_back x # ops) k \<longleftrightarrow> 0 < n \<and> dfits (n - 1) ops (Suc k)"
| "dfits n (Push_front x # ops) k \<longleftrightarrow> 0 < n \<and> dfits (n - 1) ops (Suc k)"
| "dfits n (Pop_front # ops) k \<longleftrightarrow> dfits (if k = 0 then n else Suc n) ops (k - 1)"
| "dfits n (Pop_back # ops) k \<longleftrightarrow> dfits (if k = 0 then n else Suc n) ops (k - 1)"

locale bounded_deque = bounded_queue rep space put get
  for rep :: "'s \<Rightarrow> 'a list \<Rightarrow> bool" and space :: "'s \<Rightarrow> nat" and put :: "'a \<Rightarrow> 's \<Rightarrow> 's res"
    and get :: "'s \<Rightarrow> ('a option \<times> 's) res" +
  fixes put_front :: "'a \<Rightarrow> 's \<Rightarrow> 's res"
    and get_back :: "'s \<Rightarrow> ('a option \<times> 's) res"
  assumes put_front_law: "rep s xs \<Longrightarrow> 0 < space s \<Longrightarrow>
      holds (put_front x s) (\<lambda>s'. rep s' (x # xs) \<and> space s' = space s - 1)"
    and get_back_empty_law: "rep s [] \<Longrightarrow>
      holds (get_back s) (\<lambda>(r, s'). r = None \<and> rep s' [] \<and> space s' = space s)"
    and get_back_law: "rep s (xs @ [x]) \<Longrightarrow>
      holds (get_back s) (\<lambda>(r, s'). r = Some x \<and> rep s' xs \<and> space s' = Suc (space s))"
begin

lemma get_any:
  assumes "rep s xs"
  obtains s' where "get s = Inr (if xs = [] then None else Some (hd xs), s')" and "rep s' (tl xs)"
    and "space s' = (if xs = [] then space s else Suc (space s))"
  using assms get_empty_law [of s] get_law [of s "hd xs" "tl xs"]
  by (cases "xs = []") (auto simp: holds_iff)

lemma get_back_any:
  assumes "rep s xs"
  obtains s' where "get_back s = Inr (if xs = [] then None else Some (last xs), s')" and "rep s' (butlast xs)"
    and "space s' = (if xs = [] then space s else Suc (space s))"
  using assms get_back_empty_law [of s] get_back_law [of s "butlast xs" "last xs"]
  by (cases "xs = []") (auto simp: holds_iff)

lemma run_list_dops:
  "rep s xs \<Longrightarrow> dfits (space s) ops (length xs) \<Longrightarrow>
     holds (run_dops put put_front get get_back ops s) (\<lambda>(rs, s'). \<exists>ys. list_dops ops xs = (rs, ys)
       \<and> rep s' ys \<and> space s' + length ys = space s + length xs)"
proof (induction ops xs arbitrary: s rule: list_dops.induct)
  case (1 xs)
  then show ?case by simp
next
  case (2 x ops xs)
  obtain s' where "put x s = Inr s'" "rep s' (xs @ [x])" "space s' = space s - 1"
    using put_law [OF 2(2), of x] 2(3) by (auto simp: holds_iff)
  with 2(1) [of s'] 2(3) show ?case by (auto simp: holds_iff)
next
  case (3 x ops xs)
  obtain s' where "put_front x s = Inr s'" "rep s' (x # xs)" "space s' = space s - 1"
    using put_front_law [OF 3(2), of x] 3(3) by (auto simp: holds_iff)
  with 3(1) [of s'] 3(3) show ?case by (auto simp: holds_iff)
next
  case (4 ops xs)
  obtain s' where "get s = Inr (if xs = [] then None else Some (hd xs), s')" "rep s' (tl xs)"
    "space s' = (if xs = [] then space s else Suc (space s))" by (rule get_any [OF 4(2)])
  with 4(1) [of s'] 4(3) show ?case by (cases xs) (auto simp: holds_iff)
next
  case (5 ops xs)
  obtain s' where s': "get_back s = Inr (if xs = [] then None else Some (last xs), s')" "rep s' (butlast xs)"
    "space s' = (if xs = [] then space s else Suc (space s))" by (rule get_back_any [OF 5(2)])
  have "dfits (space s') ops (length (butlast xs))" using 5(3) s'(3) by (auto split: if_splits)
  from 5(1) [OF s'(2) this] s' show ?case by (cases "xs = []") (auto simp: holds_iff)
qed

end

end
