(* ===== verification/TW_List.thy ===== *)
theory TW_List
  imports TW_Chain TW_Deque
begin

text \<open>
  The class LList of include/TW/tw_list.h: a list of links with pointers both ways, and its
  iterators, which may remove the link they are at. The template argument \<open>T\<close> is the type
  variable, the allocator is the heap; the allocator pointer of the class is never read and is
  left out, and \<open>remain\<close> is an integer. \<^verbatim>\<open>startIter\<close> sets the owner of an iterator: the operations of
  iterators that use it have the list as an argument.
\<close>

section \<open>The data\<close>

record 'a dlink =
  ddat :: 'a
  dnext :: ptr
  dprev :: ptr

record llist =
  l_enabled :: bool
  l_head :: ptr
  l_tail :: ptr
  l_remain :: int

definition ll_new :: llist where
  "ll_new = \<lparr>l_enabled = True, l_head = NULL, l_tail = NULL, l_remain = 0\<rparr>"

definition ll_init_link :: "ptr \<Rightarrow> 'a \<Rightarrow> 'a dlink heap \<Rightarrow> 'a dlink heap res" where
  "ll_init_link p the_d h = construct p \<lparr>ddat = the_d, dnext = NULL, dprev = NULL\<rparr> h"

section \<open>The operations\<close>

text \<open>Both \<open>addToTail\<close> and \<open>addEmptyTail\<close> hook their link in like this.\<close>

definition ll_hook_tail :: "ptr \<Rightarrow> llist \<Rightarrow> 'a dlink heap \<Rightarrow> (llist \<times> 'a dlink heap) res" where
  "ll_hook_tail newlink l h =
     bindE (if l_tail l \<noteq> NULL then
              bindE (modify (l_tail l) (\<lambda>c. c\<lparr>dnext := newlink\<rparr>) h) (\<lambda>h.
              modify newlink (\<lambda>c. c\<lparr>dprev := l_tail l\<rparr>) h)
            else Inr h) (\<lambda>h.
     let l = l\<lparr>l_tail := newlink\<rparr>;
         l = (if l_head l = NULL then l\<lparr>l_head := l_tail l\<rparr> else l)
     in Inr (l\<lparr>l_remain := l_remain l + 1\<rparr>, h))"

definition ll_addToTail :: "'a \<Rightarrow> llist \<Rightarrow> 'a dlink heap \<Rightarrow> (llist \<times> 'a dlink heap) res" where
  "ll_addToTail the_d l h = (if l_enabled l then
     (case malloc h of (newlink, h) \<Rightarrow>
      bindE (ll_init_link newlink the_d h) (\<lambda>h. ll_hook_tail newlink l h))
     else Inr (l, h))"

definition ll_addEmptyTail :: "'a \<Rightarrow> llist \<Rightarrow> 'a dlink heap \<Rightarrow> (ptr \<times> llist \<times> 'a dlink heap) res" where
  "ll_addEmptyTail dflt l h = (if l_enabled l then
     (case malloc h of (newlink, h) \<Rightarrow>
      bindE (ll_init_link newlink dflt h) (\<lambda>h.
      bindE (ll_hook_tail newlink l h) (\<lambda>(l, h). Inr (newlink, l, h))))
     else Inr (NULL, l, h))"

definition ll_addToHead :: "'a \<Rightarrow> llist \<Rightarrow> 'a dlink heap \<Rightarrow> (llist \<times> 'a dlink heap) res" where
  "ll_addToHead the_d l h = (if l_enabled l then
     (case malloc h of (newlink, h) \<Rightarrow>
      bindE (ll_init_link newlink the_d h) (\<lambda>h.
      bindE (modify newlink (\<lambda>c. c\<lparr>dnext := l_head l\<rparr>) h) (\<lambda>h.
      bindE (if l_head l \<noteq> NULL then modify (l_head l) (\<lambda>c. c\<lparr>dprev := newlink\<rparr>) h else Inr h) (\<lambda>h.
      let l = l\<lparr>l_head := newlink\<rparr>;
          l = (if l_tail l = NULL then l\<lparr>l_tail := l_head l\<rparr> else l)
      in Inr (l\<lparr>l_remain := l_remain l + 1\<rparr>, h)))))
     else Inr (l, h))"

definition ll_transferFrom :: "llist \<Rightarrow> llist \<Rightarrow> 'a dlink heap \<Rightarrow> (llist \<times> llist \<times> 'a dlink heap) res" where
  "ll_transferFrom l other h = (if l_enabled l then
     bindE (if l_head other \<noteq> NULL then
         bindE (if l_tail l \<noteq> NULL then
             bindE (modify (l_tail l) (\<lambda>c. c\<lparr>dnext := l_head other\<rparr>) h) (\<lambda>h.
             bindE (load (l_tail l) h) (\<lambda>t.
             bindE (modify (dnext t) (\<lambda>c. c\<lparr>dprev := l_tail l\<rparr>) h) (\<lambda>h.
             bindE (load (l_tail l) h) (\<lambda>t. Inr (l\<lparr>l_tail := dnext t\<rparr>, h)))))
           else Inr (l\<lparr>l_tail := l_head other\<rparr>, h)) (\<lambda>(l, h).
         Inr (l\<lparr>l_remain := l_remain l + 1\<rparr>, h))
       else Inr (l, h)) (\<lambda>(l, h).
     let l = (if l_head l = NULL then l\<lparr>l_head := l_tail l\<rparr> else l) in
     bindE (seek_last dnext h (l_tail l) (l_remain l)) (\<lambda>(t, n).
     Inr (l\<lparr>l_tail := t, l_remain := n\<rparr>, other\<lparr>l_head := NULL, l_tail := NULL, l_remain := 0\<rparr>, h)))
     else Inr (l, other, h))"

definition ll_enable :: "llist \<Rightarrow> llist" where
  "ll_enable l = l\<lparr>l_enabled := True\<rparr>"

definition ll_disable :: "llist \<Rightarrow> llist" where
  "ll_disable l = l\<lparr>l_enabled := False\<rparr>"

definition ll_removeHead :: "llist \<Rightarrow> 'a dlink heap \<Rightarrow> ('a option \<times> llist \<times> 'a dlink heap) res" where
  "ll_removeHead l h =
     (let l = (if l_head l = l_tail l then l\<lparr>l_tail := NULL\<rparr> else l) in
      if l_head l \<noteq> NULL then
        bindE (load (l_head l) h) (\<lambda>c.
        let oldout = l_head l; l = l\<lparr>l_head := dnext c\<rparr> in
        bindE (if l_head l \<noteq> NULL then modify (l_head l) (\<lambda>c. c\<lparr>dprev := NULL\<rparr>) h else Inr h) (\<lambda>h.
        bindE (free oldout h) (\<lambda>h.
        Inr (Some (ddat c), l\<lparr>l_remain := l_remain l - 1\<rparr>, h))))
      else Inr (None, l, h))"

definition ll_removeTail :: "llist \<Rightarrow> 'a dlink heap \<Rightarrow> ('a option \<times> llist \<times> 'a dlink heap) res" where
  "ll_removeTail l h =
     (let l = (if l_head l = l_tail l then l\<lparr>l_head := NULL\<rparr> else l) in
      if l_tail l \<noteq> NULL then
        bindE (load (l_tail l) h) (\<lambda>c.
        let oldout = l_tail l; l = l\<lparr>l_tail := dprev c\<rparr> in
        bindE (if l_tail l \<noteq> NULL then modify (l_tail l) (\<lambda>c. c\<lparr>dnext := NULL\<rparr>) h else Inr h) (\<lambda>h.
        bindE (free oldout h) (\<lambda>h.
        Inr (Some (ddat c), l\<lparr>l_remain := l_remain l - 1\<rparr>, h))))
      else Inr (None, l, h))"

text \<open>It does not free the link.\<close>

definition ll_removeLink :: "ptr \<Rightarrow> llist \<Rightarrow> 'a dlink heap \<Rightarrow> (llist \<times> 'a dlink heap) res" where
  "ll_removeLink p l h = (if p \<noteq> NULL then
     bindE (load p h) (\<lambda>c.
     bindE (if dnext c \<noteq> NULL then modify (dnext c) (\<lambda>n. n\<lparr>dprev := dprev c\<rparr>) h else Inr h) (\<lambda>h.
     bindE (load p h) (\<lambda>c.
     bindE (if dprev c \<noteq> NULL then modify (dprev c) (\<lambda>n. n\<lparr>dnext := dnext c\<rparr>) h else Inr h) (\<lambda>h.
     bindE (if l_head l = p then bindE (load (l_head l) h) (\<lambda>c. Inr (l\<lparr>l_head := dnext c\<rparr>)) else Inr l) (\<lambda>l.
     bindE (if l_tail l = p then bindE (load (l_tail l) h) (\<lambda>c. Inr (l\<lparr>l_tail := dprev c\<rparr>)) else Inr l) (\<lambda>l.
     Inr (l\<lparr>l_remain := l_remain l - 1\<rparr>, h)))))))
     else Inr (l, h))"

definition ll_peekHead :: "llist \<Rightarrow> 'a dlink heap \<Rightarrow> 'a option res" where
  "ll_peekHead l h = (if l_head l \<noteq> NULL then bindE (load (l_head l) h) (\<lambda>c. Inr (Some (ddat c))) else Inr None)"

definition ll_peekTail :: "llist \<Rightarrow> 'a dlink heap \<Rightarrow> 'a option res" where
  "ll_peekTail l h = (if l_tail l \<noteq> NULL then bindE (load (l_tail l) h) (\<lambda>c. Inr (Some (ddat c))) else Inr None)"

definition ll_remaining :: "llist \<Rightarrow> int" where
  "ll_remaining l = l_remain l"

definition ll_clearAll :: "llist \<Rightarrow> 'a dlink heap \<Rightarrow> (llist \<times> 'a dlink heap) res" where
  "ll_clearAll l h = bindE (free_all dnext h (l_head l)) (\<lambda>h.
     Inr (l\<lparr>l_head := NULL, l_tail := NULL, l_remain := 0\<rparr>, h))"

definition ll_destroy :: "llist \<Rightarrow> 'a dlink heap \<Rightarrow> 'a dlink heap res" where
  "ll_destroy l h = bindE (ll_clearAll l h) (\<lambda>(_, h). Inr h)"

text \<open>The copying loop of \<open>operator=\<close>. The heap grows with it, so the fuel is taken before it.\<close>

fun ll_copy_links :: "nat \<Rightarrow> ptr \<Rightarrow> ptr \<Rightarrow> int \<Rightarrow> 'a dlink heap \<Rightarrow> (ptr \<times> int \<times> 'a dlink heap) res" where
  "ll_copy_links 0 look prev n h = (if look = NULL then Inr (prev, n, h) else Inl Diverges)"
| "ll_copy_links (Suc k) look prev n h = (if look = NULL then Inr (prev, n, h) else
     (case malloc h of (newlink, h) \<Rightarrow>
      bindE (load look h) (\<lambda>c.
      bindE (ll_init_link newlink (ddat c) h) (\<lambda>h.
      bindE (modify prev (\<lambda>c. c\<lparr>dnext := newlink\<rparr>) h) (\<lambda>h.
      bindE (modify newlink (\<lambda>c. c\<lparr>dprev := prev\<rparr>) h) (\<lambda>h.
      bindE (load look h) (\<lambda>c.
      ll_copy_links k (dnext c) newlink (n + 1) h)))))))"

text \<open>\<open>operator=\<close> of another list. When that list is empty, the local variable \<open>prev\<close> has no value
  when it is assigned to \<open>tail\<close>.\<close>

definition ll_assign :: "llist \<Rightarrow> llist \<Rightarrow> 'a dlink heap \<Rightarrow> (llist \<times> 'a dlink heap) res" where
  "ll_assign l other h =
     bindE (ll_clearAll (l\<lparr>l_enabled := l_enabled other\<rparr>) h) (\<lambda>(l, h).
     let l = l\<lparr>l_remain := 0\<rparr>; look = l_head other in
     if look \<noteq> NULL then
       (case malloc h of (newlink, h) \<Rightarrow>
        bindE (load look h) (\<lambda>c.
        bindE (ll_init_link newlink (ddat c) h) (\<lambda>h.
        bindE (load look h) (\<lambda>c.
        bindE (ll_copy_links (heap_size h) (dnext c) newlink 1 h) (\<lambda>(prev, n, h).
        Inr (l\<lparr>l_head := newlink, l_remain := n, l_tail := prev\<rparr>, h))))))
     else Inl Uninit)"

definition ll_assign_self :: "llist \<Rightarrow> 'a dlink heap \<Rightarrow> (llist \<times> 'a dlink heap) res" where
  "ll_assign_self l h = bindE (ll_clearAll l h) (\<lambda>(l, h). ll_assign l l h)"

definition ll_copy :: "llist \<Rightarrow> 'a dlink heap \<Rightarrow> (llist \<times> 'a dlink heap) res" where
  "ll_copy other h = ll_assign ll_new other h"

section \<open>Iterators\<close>

text \<open>An iterator is the pointer \<open>look\<close>.\<close>

definition ll_iter :: ptr where "ll_iter = NULL"
definition ll_startIterHead :: "llist \<Rightarrow> ptr" where "ll_startIterHead l = l_head l"
definition ll_startIterTail :: "llist \<Rightarrow> ptr" where "ll_startIterTail l = l_tail l"
definition ll_releaseIter :: "ptr \<Rightarrow> ptr" where "ll_releaseIter i = NULL"

definition ll_getNext :: "ptr \<Rightarrow> 'a dlink heap \<Rightarrow> ('a option \<times> ptr) res" where
  "ll_getNext look h = (if look \<noteq> NULL then bindE (load look h) (\<lambda>c. Inr (Some (ddat c), dnext c))
     else Inr (None, look))"

definition ll_getPrev :: "ptr \<Rightarrow> 'a dlink heap \<Rightarrow> ('a option \<times> ptr) res" where
  "ll_getPrev look h = (if look \<noteq> NULL then bindE (load look h) (\<lambda>c. Inr (Some (ddat c), dprev c))
     else Inr (None, look))"

definition ll_getCurrent :: "ptr \<Rightarrow> 'a dlink heap \<Rightarrow> 'a option res" where
  "ll_getCurrent look h = (if look \<noteq> NULL then bindE (load look h) (\<lambda>c. Inr (Some (ddat c))) else Inr None)"

definition ll_setCurrent :: "'a \<Rightarrow> ptr \<Rightarrow> 'a dlink heap \<Rightarrow> (bool \<times> 'a dlink heap) res" where
  "ll_setCurrent fill look h = (if look \<noteq> NULL
     then bindE (modify look (\<lambda>c. c\<lparr>ddat := fill\<rparr>) h) (\<lambda>h. Inr (True, h)) else Inr (False, h))"

definition ll_removeNext :: "ptr \<Rightarrow> llist \<Rightarrow> 'a dlink heap \<Rightarrow> ('a option \<times> ptr \<times> llist \<times> 'a dlink heap) res" where
  "ll_removeNext look l h = (if look \<noteq> NULL then
     bindE (load look h) (\<lambda>c.
     bindE (ll_removeLink look l h) (\<lambda>(l, h). Inr (Some (ddat c), dnext c, l, h)))
     else Inr (None, look, l, h))"

definition ll_removePrev :: "ptr \<Rightarrow> llist \<Rightarrow> 'a dlink heap \<Rightarrow> ('a option \<times> ptr \<times> llist \<times> 'a dlink heap) res" where
  "ll_removePrev look l h = (if look \<noteq> NULL then
     bindE (load look h) (\<lambda>c.
     bindE (ll_removeLink look l h) (\<lambda>(l, h). Inr (Some (ddat c), dprev c, l, h)))
     else Inr (None, look, l, h))"

definition ll_atEnd :: "ptr \<Rightarrow> bool" where "ll_atEnd look \<longleftrightarrow> look = NULL"

end
