(* ===== verification/TW_ListRep.thy ===== *)
theory TW_ListRep
  imports TW_List
begin

text \<open>
  LList represents a list: the predicate that relates the links in the heap to it, and what every
  operation does to it.
\<close>

section \<open>Doubly linked segments\<close>

definition first :: "ptr list \<Rightarrow> ptr \<Rightarrow> ptr" where
  "first ps q = (case ps of [] \<Rightarrow> q | p # _ \<Rightarrow> p)"

definition final :: "ptr \<Rightarrow> ptr list \<Rightarrow> ptr" where
  "final q ps = (if ps = [] then q else last ps)"

lemma first_simps [simp]: "first [] q = q" "first (p # ps) q = p"
  and final_simps [simp]: "final q [] = q" "final q (p # ps) = final p ps" "final q (ps @ [p]) = p"
  by (simp_all add: first_def final_def)

lemma first_append: "first (ps @ qs) r = first ps (first qs r)"
  by (cases ps) simp_all

text \<open>\<open>dseg h prv ps xs nxt\<close>: the links \<open>ps\<close> hold \<open>xs\<close>, the link before them is \<open>prv\<close> and the one after
  them \<open>nxt\<close>.\<close>

fun dseg :: "'a dlink heap \<Rightarrow> ptr \<Rightarrow> ptr list \<Rightarrow> 'a list \<Rightarrow> ptr \<Rightarrow> bool" where
  "dseg h prv [] [] nxt \<longleftrightarrow> True"
| "dseg h prv (p # ps) (x # xs) nxt \<longleftrightarrow>
     cell_at h p = Obj \<lparr>ddat = x, dnext = first ps nxt, dprev = prv\<rparr> \<and> dseg h p ps xs nxt"
| "dseg h prv _ _ nxt \<longleftrightarrow> False"

lemma dseg_length: "dseg h prv ps xs nxt \<Longrightarrow> length ps = length xs"
  by (induction h prv ps xs nxt rule: dseg.induct) simp_all

lemma dseg_Nil [simp]: "dseg h prv [] xs nxt \<longleftrightarrow> xs = []" "dseg h prv ps [] nxt \<longleftrightarrow> ps = []"
  by (cases xs; simp) (cases ps; simp)

lemma dseg_append:
  "length ps = length xs \<Longrightarrow> dseg h prv (ps @ qs) (xs @ ys) nxt \<longleftrightarrow>
     dseg h prv ps xs (first qs nxt) \<and> dseg h (final prv ps) qs ys nxt"
  by (induction ps xs arbitrary: prv rule: list_induct2) (auto simp: first_append)

lemma dseg_snoc:
  assumes "dseg h prv (ps @ [p]) zs nxt"
  obtains xs x where "zs = xs @ [x]" and "dseg h prv ps xs p"
    and "cell_at h p = Obj \<lparr>ddat = x, dnext = nxt, dprev = final prv ps\<rparr>"
proof -
  have "zs \<noteq> []" using assms by (cases zs) auto
  then obtain xs x where z: "zs = xs @ [x]" by (cases zs rule: rev_cases) auto
  have "length ps = length xs" using dseg_length [OF assms] z by simp
  then show ?thesis using assms that z by (auto simp: dseg_append)
qed

lemma dseg_snocI:
  assumes "dseg h prv ps xs p" and "cell_at h p = Obj \<lparr>ddat = x, dnext = nxt, dprev = final prv ps\<rparr>"
  shows "dseg h prv (ps @ [p]) (xs @ [x]) nxt"
  using assms dseg_length [OF assms(1)] by (simp add: dseg_append)

lemma dseg_frame:
  "(\<And>a. a \<in> set ps \<Longrightarrow> cell_at h' a = cell_at h a) \<Longrightarrow> dseg h' prv ps xs nxt = dseg h prv ps xs nxt"
  by (induction h prv ps xs nxt rule: dseg.induct) auto

lemma dseg_chain: "dseg h prv ps xs nxt \<Longrightarrow> chain dnext h (first ps nxt) ps nxt"
  by (induction h prv ps xs nxt rule: dseg.induct) auto

lemma dseg_cells: "dseg h prv ps xs nxt \<Longrightarrow> a \<in> set ps \<Longrightarrow> \<exists>c. cell_at h a = Obj c"
  using chain_cells [OF dseg_chain] .

lemma dseg_not_NULL: "dseg h prv ps xs nxt \<Longrightarrow> NULL \<notin> set ps"
  using chain_not_NULL [OF dseg_chain] .

lemma dseg_fresh: "dseg h prv ps xs nxt \<Longrightarrow> Suc (heap_size h) \<notin> set ps"
  using chain_fresh [OF dseg_chain] .

section \<open>Representing a list\<close>

definition ll_rep :: "'a dlink heap \<Rightarrow> llist \<Rightarrow> ptr list \<Rightarrow> 'a list \<Rightarrow> bool" where
  "ll_rep h l ps xs \<longleftrightarrow> dseg h NULL ps xs NULL \<and> l_head l = first ps NULL
     \<and> l_tail l = final NULL ps \<and> l_remain l = int (length xs)"

lemma ll_repD:
  assumes "ll_rep h l ps xs"
  shows "dseg h NULL ps xs NULL" and "l_head l = first ps NULL" and "l_tail l = final NULL ps"
    and "l_remain l = int (length xs)" and "distinct ps" and "length ps = length xs" and "NULL \<notin> set ps"
    and "Suc (heap_size h) \<notin> set ps" and "chain dnext h (first ps NULL) ps NULL"
proof -
  show d: "dseg h NULL ps xs NULL" and "l_head l = first ps NULL" and "l_tail l = final NULL ps"
    and "l_remain l = int (length xs)" using assms by (simp_all add: ll_rep_def)
  show "chain dnext h (first ps NULL) ps NULL" by (rule dseg_chain [OF d])
  then show "distinct ps" by (rule chain_distinct)
  show "length ps = length xs" by (rule dseg_length [OF d])
  show "NULL \<notin> set ps" by (rule dseg_not_NULL [OF d])
  show "Suc (heap_size h) \<notin> set ps" by (rule dseg_fresh [OF d])
qed

lemma ll_rep_new: "ll_rep h ll_new [] []"
  by (simp add: ll_rep_def ll_new_def)

lemma ll_rep_frame:
  "ll_rep h l ps xs \<Longrightarrow> (\<And>a. a \<in> set ps \<Longrightarrow> cell_at h' a = cell_at h a) \<Longrightarrow> ll_rep h' l ps xs"
  unfolding ll_rep_def using dseg_frame [of ps h' h] by blast

text \<open>What an operation leaves alone: the cells outside \<open>S\<close>.\<close>

lemma ll_rep_end:
  assumes "ll_rep h l (ps @ [p]) zs"
  obtains xs x where "zs = xs @ [x]" and "dseg h NULL ps xs p"
    and "cell_at h p = Obj \<lparr>ddat = x, dnext = NULL, dprev = final NULL ps\<rparr>" and "l_tail l = p"
    and "p \<notin> set ps" and "0 < p"
proof -
  note d = ll_repD [OF assms]
  obtain xs x where x: "zs = xs @ [x]" "dseg h NULL ps xs p"
    "cell_at h p = Obj \<lparr>ddat = x, dnext = NULL, dprev = final NULL ps\<rparr>" by (rule dseg_snoc [OF d(1)])
  show ?thesis using that [OF x] d(3,5) cell_at_Obj_pos [OF x(3)] by simp
qed

subsection \<open>Adding\<close>

lemma ll_hook_tail_rep:
  assumes rep: "ll_rep h l ps xs" and n: "cell_at h n = Obj \<lparr>ddat = x, dnext = NULL, dprev = NULL\<rparr>" "n \<notin> set ps"
  obtains l' h' where "ll_hook_tail n l h = Inr (l', h')" and "ll_rep h' l' (ps @ [n]) (xs @ [x])"
    and "l_enabled l' = l_enabled l" and "room h' = room h" and "heap_size h' = heap_size h"
    and "live h' = live h" and "same_outside (insert n (set ps)) h h'"
proof (cases ps rule: rev_cases)
  case Nil
  have "0 < n" using cell_at_Obj_pos [OF n(1)] .
  then have "ll_hook_tail n l h = Inr (l\<lparr>l_tail := n, l_head := n, l_remain := l_remain l + 1\<rparr>, h)"
    using ll_repD [OF rep] Nil by (simp add: ll_hook_tail_def Let_def)
  then show ?thesis
    by (rule that) (use ll_repD [OF rep] Nil n in \<open>simp_all add: ll_rep_def\<close>)
next
  case (snoc qs q)
  obtain ys y where q: "xs = ys @ [y]" "dseg h NULL qs ys q"
    "cell_at h q = Obj \<lparr>ddat = y, dnext = NULL, dprev = final NULL qs\<rparr>" "l_tail l = q" "q \<notin> set qs" "0 < q"
    by (rule ll_rep_end [OF rep [unfolded snoc]])
  have ne: "q \<noteq> n" using n(2) snoc by auto
  let ?h1 = "put_cell q (Obj \<lparr>ddat = y, dnext = n, dprev = final NULL qs\<rparr>) h"
  have c1: "cell_at ?h1 a = (if a = q then Obj \<lparr>ddat = y, dnext = n, dprev = final NULL qs\<rparr> else cell_at h a)" for a
    using q(3) by (simp add: cell_at_put)
  let ?h = "put_cell n (Obj \<lparr>ddat = x, dnext = NULL, dprev = q\<rparr>) ?h1"
  have c: "cell_at ?h a = (if a = n then Obj \<lparr>ddat = x, dnext = NULL, dprev = q\<rparr> else
      if a = q then Obj \<lparr>ddat = y, dnext = n, dprev = final NULL qs\<rparr> else cell_at h a)" for a
    using c1 n(1) ne by (simp add: cell_at_put)
  have "dseg ?h NULL qs ys q"
    using q(2,5) n(2) snoc c by (subst dseg_frame [of _ _ h]) auto
  then have "dseg ?h NULL (qs @ [q]) (ys @ [y]) n" by (rule dseg_snocI) (simp add: c ne)
  then have "dseg ?h NULL ((qs @ [q]) @ [n]) ((ys @ [y]) @ [x]) NULL" by (rule dseg_snocI) (simp add: c)
  moreover have "l_head l \<noteq> NULL" using ll_repD(2,7) [OF rep] snoc by (cases qs) auto
  then have "ll_hook_tail n l h = Inr (l\<lparr>l_tail := n, l_remain := l_remain l + 1\<rparr>, ?h)"
    using q(3,4,6) n(1) ne c1 by (simp add: ll_hook_tail_def modify_Obj Let_def)
  ultimately show ?thesis
  proof (intro that)
    show "ll_rep ?h (l\<lparr>l_tail := n, l_remain := l_remain l + 1\<rparr>) (ps @ [n]) (xs @ [x])"
      using \<open>dseg ?h NULL ((qs @ [q]) @ [n]) ((ys @ [y]) @ [x]) NULL\<close> ll_repD(2,4) [OF rep] snoc q(1)
      by (simp add: ll_rep_def first_append final_def)
    show "live ?h = live h" using c q(3) n(1) by (auto simp: live_iff split: if_splits)
  qed (use c snoc in \<open>auto simp: same_outside_def\<close>)
qed

text \<open>The cell that an addition takes.\<close>

lemma malloc_init:
  "0 < room h \<Longrightarrow> (case malloc h of (p, h) \<Rightarrow> bindE (ll_init_link p x h) (f p)) =
     f (Suc (heap_size h)) (new_obj \<lparr>ddat = x, dnext = NULL, dprev = NULL\<rparr> h)"
  by (simp add: malloc_ok ll_init_link_def construct_new)

lemma ll_addToTail_rep:
  assumes rep: "ll_rep h l ps xs" and "l_enabled l" and room: "0 < room h"
  obtains l' h' where "ll_addToTail x l h = Inr (l', h')"
    and "ll_addEmptyTail x l h = Inr (Suc (heap_size h), l', h')"
    and "ll_rep h' l' (ps @ [Suc (heap_size h)]) (xs @ [x])"
    and "l_enabled l'" and "room h' = room h - 1"
    and "live h' = insert (Suc (heap_size h)) (live h)"
    and "same_outside (insert (Suc (heap_size h)) (set ps)) h h'"
proof -
  let ?n = "Suc (heap_size h)" and ?h = "new_obj \<lparr>ddat = x, dnext = NULL, dprev = NULL\<rparr> h"
  note d = ll_repD [OF rep]
  have rep1: "ll_rep ?h l ps xs" using rep d(8) by (rule_tac ll_rep_frame) (auto simp: cell_at_new)
  have cn: "cell_at ?h ?n = Obj \<lparr>ddat = x, dnext = NULL, dprev = NULL\<rparr>" by (simp add: cell_at_new)
  obtain l' h' where h': "ll_hook_tail ?n l ?h = Inr (l', h')" "ll_rep h' l' (ps @ [?n]) (xs @ [x])"
    "l_enabled l' = l_enabled l" "room h' = room ?h" "heap_size h' = heap_size ?h" "live h' = live ?h"
    "same_outside (insert ?n (set ps)) ?h h'"
    by (rule ll_hook_tail_rep [OF rep1 cn d(8)])
  show ?thesis
    by (rule that [of l' h']) (use h' assms(2) room in
        \<open>simp_all add: ll_addToTail_def ll_addEmptyTail_def malloc_init live_new cell_at_new same_outside_def\<close>)
qed

lemma ll_addToHead_rep:
  assumes rep: "ll_rep h l ps xs" and "l_enabled l" and room: "0 < room h"
  obtains l' h' where "ll_addToHead x l h = Inr (l', h')"
    and "ll_rep h' l' (Suc (heap_size h) # ps) (x # xs)"
    and "l_enabled l'" and "room h' = room h - 1"
    and "live h' = insert (Suc (heap_size h)) (live h)"
    and "same_outside (insert (Suc (heap_size h)) (set ps)) h h'"
proof -
  let ?n = "Suc (heap_size h)" and ?h = "new_obj \<lparr>ddat = x, dnext = NULL, dprev = NULL\<rparr> h"
  note d = ll_repD [OF rep]
  define h1 where "h1 = put_cell ?n (Obj \<lparr>ddat = x, dnext = l_head l, dprev = NULL\<rparr>) ?h"
  have c1: "cell_at h1 a = (if a = ?n then Obj \<lparr>ddat = x, dnext = l_head l, dprev = NULL\<rparr> else cell_at h a)" for a
    by (simp add: h1_def cell_at_put cell_at_new)
  have m1: "modify ?n (\<lambda>c. c\<lparr>dnext := l_head l\<rparr>) ?h = Inr h1"
    by (simp add: modify_Obj [of _ _ "\<lparr>ddat = x, dnext = NULL, dprev = NULL\<rparr>"] cell_at_new h1_def)
  have room1: "room h1 = room h - 1" by (simp add: h1_def)
  have live1: "live h1 = insert ?n (live h)" by (auto simp: live_iff c1 split: if_splits)
  show ?thesis
  proof (cases ps)
    case Nil
    then show ?thesis
      using that [of "l\<lparr>l_head := ?n, l_tail := ?n, l_remain := l_remain l + 1\<rparr>" h1] d(2,3,4,6) assms(2) room m1 c1 live1 room1
      by (simp add: ll_addToHead_def malloc_init ll_rep_def Let_def same_outside_def)
  next
    case (Cons p qs)
    then obtain y ys where y: "xs = y # ys" "cell_at h p = Obj \<lparr>ddat = y, dnext = first qs NULL, dprev = NULL\<rparr>"
      "dseg h p qs ys NULL" using d(1) by (cases xs) auto
    have p: "l_head l = p" "p \<noteq> ?n" "0 < p" "p \<notin> set qs" "?n \<notin> set qs"
      using d(2,5,8) Cons cell_at_Obj_pos [OF y(2)] by auto
    define h2 where "h2 = put_cell p (Obj \<lparr>ddat = y, dnext = first qs NULL, dprev = ?n\<rparr>) h1"
    have c2: "cell_at h2 a = (if a = p then Obj \<lparr>ddat = y, dnext = first qs NULL, dprev = ?n\<rparr> else cell_at h1 a)" for a
      using y(2) p(2) by (simp add: h2_def cell_at_put c1)
    have room2: "room h2 = room h1" by (simp add: h2_def)
    have m2: "modify p (\<lambda>c. c\<lparr>dprev := ?n\<rparr>) h1 = Inr h2"
      using y(2) p(2) by (simp add: modify_Obj [of _ _ "\<lparr>ddat = y, dnext = first qs NULL, dprev = NULL\<rparr>"] c1 h2_def)
    have "dseg h2 p qs ys NULL" using y(3) p(4,5) by (subst dseg_frame [of _ _ h]) (auto simp: c2 c1)
    then have "ll_rep h2 (l\<lparr>l_head := ?n, l_remain := l_remain l + 1\<rparr>) (?n # ps) (x # xs)"
      using d(3,4) Cons y(1) p by (simp add: ll_rep_def c2 c1)
    moreover have "l_tail l \<in> set ps" using d(3) Cons by (simp add: final_def)
    then have "l_tail l \<noteq> NULL" using d(7) by metis
    moreover have "live h2 = live h1" using y(2) p(2) by (auto simp: live_iff c2 c1 split: if_splits)
    ultimately show ?thesis
      using that [of "l\<lparr>l_head := ?n, l_remain := l_remain l + 1\<rparr>" h2] assms(2) room m1 m2 p live1 Cons c1 c2 room1 room2
      by (simp add: ll_addToHead_def malloc_init Let_def same_outside_def)
  qed
qed

subsection \<open>Removing at the ends\<close>

lemma ll_rep_begin:
  assumes "ll_rep h l (p # ps) zs"
  obtains x xs where "zs = x # xs" and "dseg h p ps xs NULL"
    and "cell_at h p = Obj \<lparr>ddat = x, dnext = first ps NULL, dprev = NULL\<rparr>" and "l_head l = p"
    and "p \<notin> set ps" and "0 < p"
proof -
  note d = ll_repD [OF assms]
  obtain x xs where "zs = x # xs" using d(6) by (cases zs) auto
  moreover have "cell_at h p = Obj \<lparr>ddat = x, dnext = first ps NULL, dprev = NULL\<rparr>"
    using d(1) calculation by simp
  ultimately show ?thesis using that [of x xs] d(1,2,5) cell_at_Obj_pos [of h p] by simp
qed

lemma ll_remove_empty:
  assumes "ll_rep h l [] xs"
  shows "ll_removeHead l h = Inr (None, l, h)" and "ll_removeTail l h = Inr (None, l, h)" and "xs = []"
  using ll_repD [OF assms] by (simp_all add: ll_removeHead_def ll_removeTail_def)

lemma ll_removeHead_rep:
  assumes rep: "ll_rep h l (p # ps) (x # xs)"
  obtains l' h' where "ll_removeHead l h = Inr (Some x, l', h')" and "ll_rep h' l' ps xs"
    and "l_enabled l' = l_enabled l" and "room h' = Suc (room h)" and "live h' = live h - {p}"
    and "same_outside (insert p (set ps)) h h'"
proof -
  note d = ll_repD [OF rep]
  have b: "dseg h p ps xs NULL" "cell_at h p = Obj \<lparr>ddat = x, dnext = first ps NULL, dprev = NULL\<rparr>"
    "l_head l = p" "p \<notin> set ps" "0 < p" by (rule ll_rep_begin [OF rep], simp)+
  show ?thesis
  proof (cases ps)
    case Nil
    have t: "l_tail l = p" using d(3) Nil by simp
    define h' where "h' = (put_cell p Freed h)\<lparr>room := Suc (room h)\<rparr>"
    have c: "cell_at h' a = (if a = p then Freed else cell_at h a)" for a
      using b(2) by (simp add: h'_def cell_at_put)
    have "ll_removeHead l h = Inr (Some x, l\<lparr>l_tail := NULL, l_head := NULL, l_remain := l_remain l - 1\<rparr>, h')"
      using b(2,3,5) t Nil by (simp add: ll_removeHead_def Let_def free_ok h'_def)
    then show ?thesis
      by (rule that) (use d(4,6) Nil c b(2) in \<open>auto simp: ll_rep_def h'_def live_put_Freed same_outside_def\<close>)
  next
    case (Cons q qs)
    obtain y ys where y: "xs = y # ys" "cell_at h q = Obj \<lparr>ddat = y, dnext = first qs NULL, dprev = p\<rparr>"
      "dseg h q qs ys NULL" using b(1) Cons by (cases xs) auto
    have q: "q \<noteq> p" "0 < q" "q \<notin> set qs" "p \<notin> set qs" using d(5) Cons cell_at_Obj_pos [OF y(2)] by auto
    have t: "l_tail l \<noteq> p" using d(3,5) Cons by (auto simp: final_def)
    define h1 where "h1 = put_cell q (Obj \<lparr>ddat = y, dnext = first qs NULL, dprev = NULL\<rparr>) h"
    have c1: "cell_at h1 a = (if a = q then Obj \<lparr>ddat = y, dnext = first qs NULL, dprev = NULL\<rparr> else cell_at h a)" for a
      using y(2) by (simp add: h1_def cell_at_put)
    define h' where "h' = (put_cell p Freed h1)\<lparr>room := Suc (room h)\<rparr>"
    have c: "cell_at h' a = (if a = p then Freed else cell_at h1 a)" for a
      using b(2) q(1) by (simp add: h'_def cell_at_put c1)
    have "ll_removeHead l h = Inr (Some x, l\<lparr>l_head := q, l_remain := l_remain l - 1\<rparr>, h')"
      using b(2,3,5) t Cons y(2) q(1,2)
      by (simp add: ll_removeHead_def Let_def modify_Obj [OF y(2)] free_ok h1_def [symmetric] c1 h'_def)
        (simp add: h1_def)
    moreover have "dseg h' q qs ys NULL"
      using y(3) q by (subst dseg_frame [of _ _ h]) (auto simp: c c1)
    then have "ll_rep h' (l\<lparr>l_head := q, l_remain := l_remain l - 1\<rparr>) ps xs"
      using d(3,4) y(1) q(1) Cons by (simp add: ll_rep_def c c1)
    moreover have "live h' = live h - {p}" using y(2) q(1) by (auto simp: live_iff c c1 split: if_splits)
    moreover have "same_outside (insert p (set ps)) h h'" using Cons by (simp add: same_outside_def c c1)
    moreover have "room h' = Suc (room h)" by (simp add: h'_def)
    ultimately show ?thesis
      by (intro that [of "l\<lparr>l_head := q, l_remain := l_remain l - 1\<rparr>" h']) simp_all
  qed
qed

lemma ll_removeTail_rep:
  assumes rep: "ll_rep h l (ps @ [p]) (xs @ [x])"
  obtains l' h' where "ll_removeTail l h = Inr (Some x, l', h')" and "ll_rep h' l' ps xs"
    and "l_enabled l' = l_enabled l" and "room h' = Suc (room h)" and "live h' = live h - {p}"
    and "same_outside (insert p (set ps)) h h'"
proof -
  note d = ll_repD [OF rep]
  have b: "dseg h NULL ps xs p" "cell_at h p = Obj \<lparr>ddat = x, dnext = NULL, dprev = final NULL ps\<rparr>"
    "l_tail l = p" "p \<notin> set ps" "0 < p" by (rule ll_rep_end [OF rep], simp)+
  show ?thesis
  proof (cases ps rule: rev_cases)
    case Nil
    have t: "l_head l = p" using d(2) Nil by simp
    define h' where "h' = (put_cell p Freed h)\<lparr>room := Suc (room h)\<rparr>"
    have c: "cell_at h' a = (if a = p then Freed else cell_at h a)" for a
      using b(2) by (simp add: h'_def cell_at_put)
    have "ll_removeTail l h = Inr (Some x, l\<lparr>l_tail := NULL, l_head := NULL, l_remain := l_remain l - 1\<rparr>, h')"
      using b(2,3,5) t Nil by (simp add: ll_removeTail_def Let_def free_ok h'_def)
    then show ?thesis
      by (rule that) (use d(4,6) Nil c b(2) in \<open>auto simp: ll_rep_def h'_def live_put_Freed same_outside_def\<close>)
  next
    case (snoc qs q)
    obtain ys y where y: "xs = ys @ [y]" "dseg h NULL qs ys q"
      "cell_at h q = Obj \<lparr>ddat = y, dnext = p, dprev = final NULL qs\<rparr>"
      by (rule dseg_snoc [OF b(1) [unfolded snoc]])
    have q: "q \<noteq> p" "0 < q" "q \<notin> set qs" "p \<notin> set qs" using d(5) snoc cell_at_Obj_pos [OF y(3)] by auto
    have t: "l_head l \<noteq> p" using d(2,5) snoc by (cases qs) auto
    define h1 where "h1 = put_cell q (Obj \<lparr>ddat = y, dnext = NULL, dprev = final NULL qs\<rparr>) h"
    have c1: "cell_at h1 a = (if a = q then Obj \<lparr>ddat = y, dnext = NULL, dprev = final NULL qs\<rparr> else cell_at h a)" for a
      using y(3) by (simp add: h1_def cell_at_put)
    define h' where "h' = (put_cell p Freed h1)\<lparr>room := Suc (room h)\<rparr>"
    have c: "cell_at h' a = (if a = p then Freed else cell_at h1 a)" for a
      using b(2) q(1) by (simp add: h'_def cell_at_put c1)
    have "ll_removeTail l h = Inr (Some x, l\<lparr>l_tail := q, l_remain := l_remain l - 1\<rparr>, h')"
      using b(2,3,5) t snoc y(3) q(1,2)
      by (simp add: ll_removeTail_def Let_def modify_Obj [OF y(3)] free_ok h1_def [symmetric] c1 h'_def)
        (simp add: h1_def)
    moreover have "dseg h' NULL qs ys q"
      using y(2) q by (subst dseg_frame [of _ _ h]) (auto simp: c c1)
    then have "dseg h' NULL (qs @ [q]) (ys @ [y]) NULL"
      by (rule dseg_snocI) (use q(1) in \<open>simp add: c c1\<close>)
    then have "ll_rep h' (l\<lparr>l_tail := q, l_remain := l_remain l - 1\<rparr>) ps xs"
      using d(2,4) y(1) snoc by (simp add: ll_rep_def first_append)
    moreover have "live h' = live h - {p}" using y(3) q(1) by (auto simp: live_iff c c1 split: if_splits)
    moreover have "same_outside (insert p (set ps)) h h'" using snoc by (simp add: same_outside_def c c1)
    moreover have "room h' = Suc (room h)" by (simp add: h'_def)
    ultimately show ?thesis
      by (intro that [of "l\<lparr>l_tail := q, l_remain := l_remain l - 1\<rparr>" h']) simp_all
  qed
qed

lemma ll_peek_rep:
  assumes "ll_rep h l ps xs"
  shows "ll_peekHead l h = Inr (if xs = [] then None else Some (hd xs))"
    and "ll_peekTail l h = Inr (if xs = [] then None else Some (last xs))"
    and "ll_remaining l = int (length xs)"
proof -
  note d = ll_repD [OF assms]
  show "ll_remaining l = int (length xs)" using d(4) by (simp add: ll_remaining_def)
  show "ll_peekHead l h = Inr (if xs = [] then None else Some (hd xs))"
  proof (cases ps)
    case Nil
    then show ?thesis using d(2,6) by (simp add: ll_peekHead_def)
  next
    case (Cons p qs)
    show ?thesis
      by (rule ll_rep_begin [OF assms [unfolded Cons]]) (simp add: ll_peekHead_def)
  qed
  show "ll_peekTail l h = Inr (if xs = [] then None else Some (last xs))"
  proof (cases ps rule: rev_cases)
    case Nil
    then show ?thesis using d(3,6) by (simp add: ll_peekTail_def)
  next
    case (snoc qs p)
    show ?thesis
      by (rule ll_rep_end [OF assms [unfolded snoc]]) (simp add: ll_peekTail_def)
  qed
qed

subsection \<open>Clearing\<close>

lemma ll_clearAll_rep:
  assumes rep: "ll_rep h l ps xs"
  obtains h' where "ll_clearAll l h = Inr (l\<lparr>l_head := NULL, l_tail := NULL, l_remain := 0\<rparr>, h')"
    and "ll_rep h' (l\<lparr>l_head := NULL, l_tail := NULL, l_remain := 0\<rparr>) [] []"
    and "room h' = room h + length xs" and "live h' = live h - set ps" and "same_outside (set ps) h h'"
proof -
  note d = ll_repD [OF rep]
  obtain h' where h': "free_all dnext h (first ps NULL) = Inr h'"
    "\<And>q. cell_at h' q = (if q \<in> set ps then Freed else cell_at h q)"
    "room h' = room h + length ps" "heap_size h' = heap_size h"
    using free_all_chain [OF d(9)] by metis
  show ?thesis
    by (rule that [of h']) (use h' d in \<open>auto simp: ll_clearAll_def ll_rep_def live_iff same_outside_def split: if_splits\<close>)
qed

end
