(* ===== verification/TW_ListOps.thy ===== *)
theory TW_ListOps
  imports TW_ListRep
begin

text \<open>
  LList as a queue with two ends that owns its links, and the operations on two lists:
  \<open>transferFrom\<close> and the copies.
\<close>

section \<open>LList as a queue with two ends\<close>

type_synonym 'a ll_state = "llist \<times> 'a dlink heap"

text \<open>\<open>R\<close> is the memory of everything else; the list owns the rest.\<close>

definition ll_owns :: "ptr set \<Rightarrow> 'a ll_state \<Rightarrow> 'a list \<Rightarrow> bool" where
  "ll_owns R s xs \<longleftrightarrow> l_enabled (fst s) \<and> (\<exists>ps. ll_rep (snd s) (fst s) ps xs \<and>
     live (snd s) = set ps \<union> R \<and> set ps \<inter> R = {})"

definition ll_put :: "'a \<Rightarrow> 'a ll_state \<Rightarrow> 'a ll_state res" where
  "ll_put x s = ll_addToTail x (fst s) (snd s)"

definition ll_put_front :: "'a \<Rightarrow> 'a ll_state \<Rightarrow> 'a ll_state res" where
  "ll_put_front x s = ll_addToHead x (fst s) (snd s)"

definition ll_get :: "'a ll_state \<Rightarrow> ('a option \<times> 'a ll_state) res" where
  "ll_get s = ll_removeHead (fst s) (snd s)"

definition ll_get_back :: "'a ll_state \<Rightarrow> ('a option \<times> 'a ll_state) res" where
  "ll_get_back s = ll_removeTail (fst s) (snd s)"

definition ll_space :: "'a ll_state \<Rightarrow> nat" where
  "ll_space s = room (snd s)"

lemma ll_ownsE:
  assumes "ll_owns R s xs"
  obtains l h ps where "s = (l, h)" and "l_enabled l" and "ll_rep h l ps xs" and "live h = set ps \<union> R"
    and "set ps \<inter> R = {}" and "Suc (heap_size h) \<notin> R"
proof -
  obtain l h where s: "s = (l, h)" by (cases s)
  obtain ps where "l_enabled l" "ll_rep h l ps xs" "live h = set ps \<union> R" "set ps \<inter> R = {}"
    using assms by (auto simp: ll_owns_def s)
  moreover then have "Suc (heap_size h) \<notin> R" using fresh_not_live [of h] by auto
  ultimately show ?thesis using that s by blast
qed

lemma ll_ownsI:
  "l_enabled l \<Longrightarrow> ll_rep h l ps xs \<Longrightarrow> live h = set ps \<union> R \<Longrightarrow> set ps \<inter> R = {} \<Longrightarrow> ll_owns R (l, h) xs"
  by (auto simp: ll_owns_def)

lemma ll_put_owns:
  assumes "ll_owns R s xs" and "0 < ll_space s"
  shows "holds (ll_put x s) (\<lambda>s'. ll_owns R s' (xs @ [x]) \<and> ll_space s' = ll_space s - 1)"
proof -
  obtain l h ps where s: "s = (l, h)" "l_enabled l" "ll_rep h l ps xs" "live h = set ps \<union> R"
    "set ps \<inter> R = {}" "Suc (heap_size h) \<notin> R" by (rule ll_ownsE [OF assms(1)])
  have room: "0 < room h" using assms(2) s(1) by (simp add: ll_space_def)
  obtain l' h' where h': "ll_addToTail x l h = Inr (l', h')" "ll_rep h' l' (ps @ [Suc (heap_size h)]) (xs @ [x])"
    "l_enabled l'" "room h' = room h - 1" "live h' = insert (Suc (heap_size h)) (live h)"
    by (rule ll_addToTail_rep [OF s(3,2) room])
  have "ll_owns R (l', h') (xs @ [x])" by (rule ll_ownsI [OF h'(3,2)]) (use h'(5) s(4,5,6) in auto)
  then show ?thesis using h' s(1) by (simp add: ll_put_def ll_space_def)
qed

lemma ll_put_front_owns:
  assumes "ll_owns R s xs" and "0 < ll_space s"
  shows "holds (ll_put_front x s) (\<lambda>s'. ll_owns R s' (x # xs) \<and> ll_space s' = ll_space s - 1)"
proof -
  obtain l h ps where s: "s = (l, h)" "l_enabled l" "ll_rep h l ps xs" "live h = set ps \<union> R"
    "set ps \<inter> R = {}" "Suc (heap_size h) \<notin> R" by (rule ll_ownsE [OF assms(1)])
  have room: "0 < room h" using assms(2) s(1) by (simp add: ll_space_def)
  obtain l' h' where h': "ll_addToHead x l h = Inr (l', h')" "ll_rep h' l' (Suc (heap_size h) # ps) (x # xs)"
    "l_enabled l'" "room h' = room h - 1" "live h' = insert (Suc (heap_size h)) (live h)"
    by (rule ll_addToHead_rep [OF s(3,2) room])
  have "ll_owns R (l', h') (x # xs)" by (rule ll_ownsI [OF h'(3,2)]) (use h'(5) s(4,5,6) in auto)
  then show ?thesis using h' s(1) by (simp add: ll_put_front_def ll_space_def)
qed

lemma ll_get_owns:
  assumes "ll_owns R s (x # xs)"
  shows "holds (ll_get s) (\<lambda>(r, s'). r = Some x \<and> ll_owns R s' xs \<and> ll_space s' = Suc (ll_space s))"
proof -
  obtain l h qs where s: "s = (l, h)" "l_enabled l" "ll_rep h l qs (x # xs)" "live h = set qs \<union> R"
    "set qs \<inter> R = {}" by (rule ll_ownsE [OF assms])
  obtain p ps where q: "qs = p # ps" using ll_repD(6) [OF s(3)] by (cases qs) auto
  obtain l' h' where h': "ll_removeHead l h = Inr (Some x, l', h')" "ll_rep h' l' ps xs"
    "l_enabled l' = l_enabled l" "room h' = Suc (room h)" "live h' = live h - {p}"
    by (rule ll_removeHead_rep [OF s(3) [unfolded q]])
  have "ll_owns R (l', h') xs"
    by (rule ll_ownsI [OF _ h'(2)]) (use h'(3,5) s(2,4,5) q ll_repD(5) [OF s(3)] in auto)
  then show ?thesis using h' s(1) by (simp add: ll_get_def ll_space_def)
qed

lemma ll_get_back_owns:
  assumes "ll_owns R s (xs @ [x])"
  shows "holds (ll_get_back s) (\<lambda>(r, s'). r = Some x \<and> ll_owns R s' xs \<and> ll_space s' = Suc (ll_space s))"
proof -
  obtain l h qs where s: "s = (l, h)" "l_enabled l" "ll_rep h l qs (xs @ [x])" "live h = set qs \<union> R"
    "set qs \<inter> R = {}" by (rule ll_ownsE [OF assms])
  obtain p ps where q: "qs = ps @ [p]" using ll_repD(6) [OF s(3)] by (cases qs rule: rev_cases) auto
  obtain l' h' where h': "ll_removeTail l h = Inr (Some x, l', h')" "ll_rep h' l' ps xs"
    "l_enabled l' = l_enabled l" "room h' = Suc (room h)" "live h' = live h - {p}"
    by (rule ll_removeTail_rep [OF s(3) [unfolded q]])
  have "ll_owns R (l', h') xs"
    by (rule ll_ownsI [OF _ h'(2)]) (use h'(3,5) s(2,4,5) q ll_repD(5) [OF s(3)] in auto)
  then show ?thesis using h' s(1) by (simp add: ll_get_back_def ll_space_def)
qed

lemma ll_empty_owns:
  assumes "ll_owns R s []"
  shows "ll_get s = Inr (None, s)" and "ll_get_back s = Inr (None, s)"
proof -
  obtain l h ps where s: "s = (l, h)" "ll_rep h l ps []" by (rule ll_ownsE [OF assms])
  have "ps = []" using ll_repD(6) [OF s(2)] by simp
  then show "ll_get s = Inr (None, s)" "ll_get_back s = Inr (None, s)"
    using ll_remove_empty [of h l "[]"] s by (simp_all add: ll_get_def ll_get_back_def)
qed

interpretation lld: bounded_deque "ll_owns R" ll_space ll_put ll_get ll_put_front ll_get_back for R
  by unfold_locales
    (rule ll_put_owns ll_put_front_owns ll_get_owns ll_get_back_owns; assumption
      | simp add: ll_empty_owns)+

lemma ll_destroy_owns:
  assumes "ll_owns R s xs"
  shows "holds (ll_destroy (fst s) (snd s)) (\<lambda>h. live h = R \<and> room h = ll_space s + length xs)"
proof -
  obtain l h ps where s: "s = (l, h)" "ll_rep h l ps xs" "live h = set ps \<union> R" "set ps \<inter> R = {}"
    by (rule ll_ownsE [OF assms])
  obtain h' where "ll_clearAll l h = Inr (l\<lparr>l_head := NULL, l_tail := NULL, l_remain := 0\<rparr>, h')"
    "room h' = room h + length xs" "live h' = live h - set ps" by (rule ll_clearAll_rep [OF s(2)])
  then show ?thesis using s by (auto simp: ll_destroy_def ll_space_def)
qed

section \<open>Two lists\<close>

lemma live_two_puts:
  "(\<And>a. cell_at h' a = Freed \<longleftrightarrow> cell_at h a = Freed) \<Longrightarrow> live h' = live h"
  by (simp add: live_def)

text \<open>Joining two segments: what the two writes of \<open>transferFrom\<close> do.\<close>

lemma dseg_join:
  assumes a: "dseg h NULL (ps @ [p]) xs NULL" and b: "dseg h NULL (q # qs) ys NULL"
    and dis: "set (ps @ [p]) \<inter> set (q # qs) = {}"
    and p: "cell_at h p = Obj c" and q: "cell_at h q = Obj d"
    and c: "\<And>r. cell_at h' r = (if r = q then Obj (d\<lparr>dprev := p\<rparr>) else if r = p then Obj (c\<lparr>dnext := q\<rparr>) else cell_at h r)"
  shows "dseg h' NULL ((ps @ [p]) @ (q # qs)) (xs @ ys) NULL"
proof -
  have dp: "distinct (ps @ [p])" by (rule chain_distinct [OF dseg_chain [OF a]])
  have dq: "distinct (q # qs)" by (rule chain_distinct [OF dseg_chain [OF b]])
  obtain zs z where z: "xs = zs @ [z]" "dseg h NULL ps zs p"
    "cell_at h p = Obj \<lparr>ddat = z, dnext = NULL, dprev = final NULL ps\<rparr>" by (rule dseg_snoc [OF a])
  obtain w ws where w: "ys = w # ws" "cell_at h q = Obj \<lparr>ddat = w, dnext = first qs NULL, dprev = NULL\<rparr>"
    "dseg h q qs ws NULL" using b by (cases ys) auto
  have "dseg h' NULL ps zs p" using z(2) dp dis c by (subst dseg_frame [of _ _ h]) auto
  then have 1: "dseg h' NULL (ps @ [p]) xs q"
    unfolding z(1) by (rule dseg_snocI) (use c p z(3) dis in auto)
  have "dseg h' q qs ws NULL" using w(3) dq dis c by (subst dseg_frame [of _ _ h]) auto
  then have 2: "dseg h' p (q # qs) ys NULL" using c q w(1,2) by auto
  show ?thesis using 1 2 dseg_length [OF a] by (subst dseg_append) (simp_all add: final_def)
qed

lemma ll_transferFrom_rep:
  assumes f: "ll_rep h l ps xs" and g: "ll_rep h o' qs ys" and dis: "set ps \<inter> set qs = {}"
    and en: "l_enabled l" and ne: "xs \<noteq> [] \<or> ys \<noteq> []"
  obtains l' h' where "ll_transferFrom l o' h = Inr (l', o'\<lparr>l_head := NULL, l_tail := NULL, l_remain := 0\<rparr>, h')"
    and "ll_rep h' l' (ps @ qs) (xs @ ys)" and "l_enabled l'" and "room h' = room h" and "live h' = live h"
proof -
  note df = ll_repD [OF f] and dg = ll_repD [OF g]
  show ?thesis
  proof (cases qs)
    case Nil
    then obtain p ps' where p: "ps = ps' @ [p]" "ys = []" using ne df(6) dg(6) by (cases ps rule: rev_cases) auto
    have t: "l_tail l = p" using df(3) p by simp
    have "chain dnext h p ([] @ [p]) NULL" using df(9) p
      by (auto simp: chain_append)
    from seek_last_chain [OF this] have s: "seek_last dnext h p n = Inr (p, n)" for n by simp
    have "l_head l \<noteq> NULL" using df(2,7) p by (cases ps') auto
    then show ?thesis using that [of l h] Nil dg(2) s t en f p
      by (simp add: ll_transferFrom_def Let_def)
  next
    case (Cons q qs')
    obtain w ws where w: "ys = w # ws" "cell_at h q = Obj \<lparr>ddat = w, dnext = first qs' NULL, dprev = NULL\<rparr>"
      "l_head o' = q" "0 < q" by (rule ll_rep_begin [OF g [unfolded Cons]])
    obtain rs r where r: "q # qs' = rs @ [r]" by (cases "q # qs'" rule: rev_cases) auto
    have fin: "final NULL (ps @ qs) = r" using r Cons by (simp add: final_def)
    have lrs: "length rs = length qs'" using arg_cong [OF r, of length] by simp
    show ?thesis
    proof (cases ps rule: rev_cases)
      case Nil
      have "chain dnext h q (rs @ [r]) NULL" using dg(9) Cons by (simp add: r [symmetric])
      from seek_last_chain [OF this] have s: "seek_last dnext h q n = Inr (r, n + int (length rs))" for n .
      let ?l = "l\<lparr>l_tail := r, l_head := q, l_remain := 1 + int (length rs)\<rparr>"
      have "ll_transferFrom l o' h = Inr (?l, o'\<lparr>l_head := NULL, l_tail := NULL, l_remain := 0\<rparr>, h)"
        using w(3,4) df Nil en s by (simp add: ll_transferFrom_def Let_def)
      moreover have "ll_rep h ?l (ps @ qs) (xs @ ys)"
        using dg df Nil Cons fin lrs w(1) by (simp add: ll_rep_def)
      ultimately show ?thesis using that [of ?l h] en by simp
    next
      case (snoc ps' p)
      obtain zs z where z: "xs = zs @ [z]" "cell_at h p = Obj \<lparr>ddat = z, dnext = NULL, dprev = final NULL ps'\<rparr>"
        "l_tail l = p" "0 < p" by (rule ll_rep_end [OF f [unfolded snoc]])
      have pq: "p \<noteq> q" using dis snoc Cons by auto
      define h1 where "h1 = put_cell p (Obj \<lparr>ddat = z, dnext = q, dprev = final NULL ps'\<rparr>) h"
      have c1: "cell_at h1 a = (if a = p then Obj \<lparr>ddat = z, dnext = q, dprev = final NULL ps'\<rparr> else cell_at h a)" for a
        using z(2) by (simp add: h1_def cell_at_put)
      define h2 where "h2 = put_cell q (Obj \<lparr>ddat = w, dnext = first qs' NULL, dprev = p\<rparr>) h1"
      have c2: "cell_at h2 a = (if a = q then Obj \<lparr>ddat = w, dnext = first qs' NULL, dprev = p\<rparr> else cell_at h1 a)" for a
        using w(2) pq by (simp add: h2_def cell_at_put c1)
      have d2: "dseg h2 NULL ((ps' @ [p]) @ (q # qs')) (xs @ ys) NULL"
        by (rule dseg_join [OF _ _ _ z(2) w(2)]) (use df(1) dg(1) dis snoc Cons c1 c2 in auto)
      have m1: "modify p (\<lambda>c. c\<lparr>dnext := q\<rparr>) h = Inr h1"
        using z(2) by (simp add: modify_Obj h1_def)
      have m2: "modify q (\<lambda>c. c\<lparr>dprev := p\<rparr>) h1 = Inr h2"
        using w(2) pq by (simp add: modify_Obj [of _ _ "\<lparr>ddat = w, dnext = first qs' NULL, dprev = NULL\<rparr>"] c1 h2_def)
      have l1: "load p h1 = Inr \<lparr>ddat = z, dnext = q, dprev = final NULL ps'\<rparr>"
        "load p h2 = Inr \<lparr>ddat = z, dnext = q, dprev = final NULL ps'\<rparr>" using pq by (simp_all add: c1 c2)
      have "chain dnext h2 q (rs @ [r]) NULL"
      proof -
        have "dseg h2 (final NULL (ps' @ [p])) (q # qs') ys NULL"
          using d2 df(6) snoc by (subst (asm) dseg_append) simp_all
        from dseg_chain [OF this] show ?thesis by (simp add: r [symmetric])
      qed
      from seek_last_chain [OF this] have s: "seek_last dnext h2 q n = Inr (r, n + int (length rs))" for n .
      have hd: "l_head l \<noteq> NULL" using df(2,7) snoc by (cases ps') auto
      let ?l = "l\<lparr>l_tail := r, l_remain := l_remain l + 1 + int (length rs)\<rparr>"
      have "ll_transferFrom l o' h = Inr (?l, o'\<lparr>l_head := NULL, l_tail := NULL, l_remain := 0\<rparr>, h2)"
        using w(3,4) z(3,4) en s m1 m2 l1 hd by (simp add: ll_transferFrom_def Let_def)
      moreover have "ll_rep h2 ?l (ps @ qs) (xs @ ys)"
        using d2 fin lrs dg(6) df(2,4) snoc Cons w(1) by (simp add: ll_rep_def first_append)
      moreover have "room h2 = room h" by (simp add: h1_def h2_def)
      moreover have "live h2 = live h" by (rule live_two_puts) (use c1 c2 z(2) w(2) in auto)
      ultimately show ?thesis using that [of ?l h2] en by simp
    qed
  qed
qed

lemma ll_transferFrom_both_empty:
  assumes "ll_rep h l [] []" and "ll_rep h o' [] []" and "l_enabled l"
  shows "ll_transferFrom l o' h = Inl NullDeref"
  using ll_repD [OF assms(1)] ll_repD [OF assms(2)] assms(3)
  by (simp add: ll_transferFrom_def seek_last_NULL Let_def)

subsection \<open>Copying\<close>

text \<open>Each round of the copying loop hooks a link in as \<open>addToTail\<close> does.\<close>

lemma ll_copy_links_step:
  assumes "ll_rep h l as zs" and "as \<noteq> []" and look: "cell_at h look = Obj \<lparr>ddat = x, dnext = nx, dprev = pv\<rparr>"
    and room: "0 < room h" and out: "look \<notin> set as"
  obtains l' h' where
    "ll_copy_links (Suc k) look (l_tail l) n h = ll_copy_links k nx (l_tail l') (n + 1) h'"
    and "ll_rep h' l' (as @ [Suc (heap_size h)]) (zs @ [x])" and "l_enabled l' = l_enabled l"
    and "room h' = room h - 1" and "live h' = insert (Suc (heap_size h)) (live h)"
    and "same_outside (insert (Suc (heap_size h)) (set as)) h h'"
proof -
  let ?n = "Suc (heap_size h)" and ?h = "new_obj \<lparr>ddat = x, dnext = NULL, dprev = NULL\<rparr> h"
  note d = ll_repD [OF assms(1)]
  have rep1: "ll_rep ?h l as zs" using assms(1) d(8) by (rule_tac ll_rep_frame) (auto simp: cell_at_new)
  have cn: "cell_at ?h ?n = Obj \<lparr>ddat = x, dnext = NULL, dprev = NULL\<rparr>" by (simp add: cell_at_new)
  obtain l' h' where h': "ll_hook_tail ?n l ?h = Inr (l', h')" "ll_rep h' l' (as @ [?n]) (zs @ [x])"
    "l_enabled l' = l_enabled l" "room h' = room ?h" "heap_size h' = heap_size ?h" "live h' = live ?h"
    "same_outside (insert ?n (set as)) ?h h'"
    by (rule ll_hook_tail_rep [OF rep1 cn d(8)])
  have so: "same_outside (insert ?n (set as)) h h'"
    using h'(7) by (simp add: same_outside_def cell_at_new)
  have tl: "l_tail l \<noteq> NULL" using d(3,7) assms(2) last_in_set [of as] by (metis final_def)
  have hd: "l_head l \<noteq> NULL" using d(2,7) assms(2) by (cases as) auto
  have lk: "look \<noteq> ?n" "look \<noteq> NULL" using look cell_at_Obj_pos [OF look] by auto
  have lk2: "cell_at h' look = Obj \<lparr>ddat = x, dnext = nx, dprev = pv\<rparr>"
    using same_outsideD [OF so, of look] lk(1) out look by simp
  have g: "load look (grow h) = Inr \<lparr>ddat = x, dnext = nx, dprev = pv\<rparr>"
    using look lk by (simp add: cell_at_malloc)
  from h'(1) tl hd obtain h1 where m: "modify (l_tail l) (\<lambda>c. c\<lparr>dnext := ?n\<rparr>) ?h = Inr h1"
    "modify ?n (\<lambda>c. c\<lparr>dprev := l_tail l\<rparr>) h1 = Inr h'" and t: "l_tail l' = ?n"
    by (auto simp: ll_hook_tail_def Let_def bindE_eq_Inr)
  have "ll_copy_links (Suc k) look (l_tail l) n h = ll_copy_links k nx (l_tail l') (n + 1) h'"
    using room lk g lk2 m t by (simp add: malloc_ok ll_init_link_def construct_new)
  then show ?thesis by (rule that [OF _ h'(2,3)]) (use h'(4,6) so in \<open>simp_all add: live_new\<close>)
qed

lemma ll_copy_links_rep:
  "ll_rep h l as zs \<Longrightarrow> as \<noteq> [] \<Longrightarrow> dseg h pv qs ys NULL \<Longrightarrow> set as \<inter> set qs = {} \<Longrightarrow>
   length qs \<le> k \<Longrightarrow> length ys \<le> room h \<Longrightarrow>
   \<exists>l' h' ns. ll_copy_links k (first qs NULL) (l_tail l) n h = Inr (l_tail l', n + int (length ys), h')
     \<and> ll_rep h' l' (as @ ns) (zs @ ys) \<and> room h' = room h - length ys
     \<and> set ns \<inter> live h = {} \<and> live h' = live h \<union> set ns \<and> same_outside (set as \<union> set ns) h h'"
proof (induction ys arbitrary: h l as zs pv qs k n)
  case Nil
  then have "ll_copy_links k (first qs NULL) (l_tail l) n h = Inr (l_tail l, n, h)" by (cases k) simp_all
  with Nil show ?case by (intro exI [of _ l] exI [of _ h] exI [of _ "[]"]) simp
next
  case (Cons y ys)
  obtain q rs where q: "qs = q # rs" "cell_at h q = Obj \<lparr>ddat = y, dnext = first rs NULL, dprev = pv\<rparr>"
    "dseg h q rs ys NULL" using Cons.prems(3) by (cases qs) auto
  obtain k' where k: "k = Suc k'" "length rs \<le> k'" using Cons.prems(5) q(1) by (cases k) auto
  have r: "0 < room h" "q \<notin> set as" using Cons.prems(4,6) q(1) by auto
  let ?n = "Suc (heap_size h)"
  obtain l' h' where s: "ll_copy_links (Suc k') q (l_tail l) n h = ll_copy_links k' (first rs NULL) (l_tail l') (n + 1) h'"
    "ll_rep h' l' (as @ [?n]) (zs @ [y])" "room h' = room h - 1" "live h' = insert ?n (live h)"
    "same_outside (insert ?n (set as)) h h'"
    by (rule ll_copy_links_step [OF Cons.prems(1,2) q(2) r])
  have nrs: "?n \<notin> set rs" using dseg_fresh [OF q(3)] .
  have "dseg h' q rs ys NULL"
    by (subst dseg_frame [of _ _ h], rule same_outsideD [OF s(5)])
      (use nrs Cons.prems(4) q(1,3) in auto)
  moreover have "set (as @ [?n]) \<inter> set rs = {}" "as @ [?n] \<noteq> []" using nrs Cons.prems(4) q(1) by auto
  moreover have "length ys \<le> room h'" using Cons.prems(6) s(3) by simp
  ultimately obtain l'' h'' ns where ih: "ll_copy_links k' (first rs NULL) (l_tail l') (n + 1) h'
      = Inr (l_tail l'', n + 1 + int (length ys), h'')"
    "ll_rep h'' l'' ((as @ [?n]) @ ns) ((zs @ [y]) @ ys)" "room h'' = room h' - length ys"
    "set ns \<inter> live h' = {}" "live h'' = live h' \<union> set ns" "same_outside (set (as @ [?n]) \<union> set ns) h' h''"
    using Cons.IH [OF s(2) _ _ _ k(2), of q "n + 1"] by blast
  have so: "same_outside (set as \<union> set (?n # ns)) h h''"
    using s(5) ih(6) by (simp add: same_outside_def)
  show ?case
    by (rule exI [of _ l''], rule exI [of _ h''], rule exI [of _ "?n # ns"])
      (use s ih so q(1) k(1) fresh_not_live [of h] in auto)
qed

lemma ll_assign_rep:
  assumes f: "ll_rep h l ps xs" and g: "ll_rep h o' qs ys" and dis: "set ps \<inter> set qs = {}"
    and ne: "ys \<noteq> []" and room: "length ys \<le> room h + length xs"
  obtains l' h' ns where "ll_assign l o' h = Inr (l', h')" and "ll_rep h' l' ns ys" and "ll_rep h' o' qs ys"
    and "l_enabled l' = l_enabled o'" and "room h' = room h + length xs - length ys"
    and "set ns \<inter> (live h - set ps) = {}" and "live h' = (live h - set ps) \<union> set ns"
proof -
  let ?l0 = "l\<lparr>l_enabled := l_enabled o'\<rparr>"
  have f0: "ll_rep h ?l0 ps xs" using f by (simp add: ll_rep_def)
  obtain h1 where h1: "ll_clearAll ?l0 h = Inr (?l0\<lparr>l_head := NULL, l_tail := NULL, l_remain := 0\<rparr>, h1)"
    "room h1 = room h + length xs" "live h1 = live h - set ps" "same_outside (set ps) h h1"
    by (rule ll_clearAll_rep [OF f0]) (use that in simp)
  have g1: "ll_rep h1 o' qs ys"
    using dis same_outsideD [OF h1(4)] by (intro ll_rep_frame [OF g]) auto
  note d = ll_repD [OF g1]
  obtain q rs where qs: "qs = q # rs" using ne d(6) by (cases qs) auto
  obtain y zs where y: "ys = y # zs" "dseg h1 q rs zs NULL"
    "cell_at h1 q = Obj \<lparr>ddat = y, dnext = first rs NULL, dprev = NULL\<rparr>" "l_head o' = q" "0 < q"
    by (rule ll_rep_begin [OF g1 [unfolded qs]])
  let ?n = "Suc (heap_size h1)" and ?h2 = "new_obj \<lparr>ddat = y, dnext = NULL, dprev = NULL\<rparr> h1"
  let ?l2 = "?l0\<lparr>l_head := ?n, l_tail := ?n, l_remain := 1\<rparr>"
  have nq: "?n \<noteq> q" "?n \<notin> set rs" using d(8) qs by auto
  have rep2: "ll_rep ?h2 ?l2 [?n] [y]" by (simp add: ll_rep_def cell_at_new)
  have seg2: "dseg ?h2 q rs zs NULL" using y(2) nq by (subst dseg_frame [of _ _ h1]) (auto simp: cell_at_new)
  have len: "length rs \<le> heap_size ?h2" using chain_length [OF d(9)] qs by simp
  have rm: "length zs \<le> room ?h2" using room h1(2) y(1) by simp
  have r1: "0 < room h1" using le_trans [OF _ room, of 1] y(1) h1(2) by auto
  obtain l3 h3 ns where c: "ll_copy_links (heap_size ?h2) (first rs NULL) ?n 1 ?h2 = Inr (l_tail l3, 1 + int (length zs), h3)"
    "ll_rep h3 l3 ([?n] @ ns) ([y] @ zs)" "room h3 = room ?h2 - length zs"
    "set ns \<inter> live ?h2 = {}" "live h3 = live ?h2 \<union> set ns" "same_outside (set [?n] \<union> set ns) ?h2 h3"
    using ll_copy_links_rep [OF rep2 _ seg2 _ len rm, of 1] nq by auto
  have ld: "load q (grow h1) = Inr \<lparr>ddat = y, dnext = first rs NULL, dprev = NULL\<rparr>"
    "load q ?h2 = Inr \<lparr>ddat = y, dnext = first rs NULL, dprev = NULL\<rparr>"
    using y(3) nq by (simp_all add: cell_at_malloc cell_at_new)
  let ?l' = "?l0\<lparr>l_head := ?n, l_tail := l_tail l3, l_remain := 1 + int (length zs)\<rparr>"
  have run: "ll_assign l o' h = Inr (?l', h3)"
    using h1(1) y(4,5) r1 ld c(1) 
    by (simp add: ll_assign_def Let_def malloc_ok ll_init_link_def construct_new del: ll_copy_links.simps)
  have rep': "ll_rep h3 ?l' (?n # ns) ys" using c(2) y(1) by (simp add: ll_rep_def)
  have "set qs \<subseteq> live h1" by (rule chain_live [OF d(9)])
  then have "set qs \<inter> set (?n # ns) = {}" using c(4) nq qs by (auto simp: live_new)
  then have "cell_at h3 a = cell_at h1 a" if "a \<in> set qs" for a
    using same_outsideD [OF c(6), of a] that by (auto simp: cell_at_new)
  then have g': "ll_rep h3 o' qs ys" by (rule ll_rep_frame [OF g1])
  have liv: "live h3 = live h1 \<union> set (?n # ns)" using c(5) by (auto simp: live_new)
  have dj: "set (?n # ns) \<inter> live h1 = {}" using c(4) fresh_not_live [of h1] by (auto simp: live_new)
  show ?thesis
    by (rule that [OF run rep' g']) (use liv dj h1(2,3) c(3) y(1) in auto)
qed

end
