(* ===== verification/TW_ListIter.thy ===== *)
theory TW_ListIter
  imports TW_ListOps
begin

text \<open>
  The iterators of LList: walking a list in both directions, and removing the link an iterator is
  at; with them the properties of LList.
\<close>

section \<open>Walking\<close>

text \<open>A client's loops \<^verbatim>\<open>while(it.getNext(x)) ...\<close> and \<^verbatim>\<open>while(it.getPrev(x)) ...\<close>, collecting what they see.\<close>

fun ll_iter_next :: "nat \<Rightarrow> ptr \<Rightarrow> 'a dlink heap \<Rightarrow> 'a list res" where
  "ll_iter_next 0 look h = (if ll_atEnd look then Inr [] else Inl Diverges)"
| "ll_iter_next (Suc k) look h = bindE (ll_getNext look h) (\<lambda>(r, look).
     case r of None \<Rightarrow> Inr [] | Some x \<Rightarrow> bindE (ll_iter_next k look h) (\<lambda>xs. Inr (x # xs)))"

fun ll_iter_prev :: "nat \<Rightarrow> ptr \<Rightarrow> 'a dlink heap \<Rightarrow> 'a list res" where
  "ll_iter_prev 0 look h = (if ll_atEnd look then Inr [] else Inl Diverges)"
| "ll_iter_prev (Suc k) look h = bindE (ll_getPrev look h) (\<lambda>(r, look).
     case r of None \<Rightarrow> Inr [] | Some x \<Rightarrow> bindE (ll_iter_prev k look h) (\<lambda>xs. Inr (x # xs)))"

lemma ll_iter_next_dseg:
  "dseg h prv ps xs NULL \<Longrightarrow> length xs \<le> k \<Longrightarrow> ll_iter_next k (first ps NULL) h = Inr xs"
proof (induction xs arbitrary: prv ps k)
  case Nil
  then show ?case by (cases k) (simp_all add: ll_atEnd_def ll_getNext_def)
next
  case (Cons x xs)
  obtain p qs where p: "ps = p # qs" "cell_at h p = Obj \<lparr>ddat = x, dnext = first qs NULL, dprev = prv\<rparr>"
    "dseg h p qs xs NULL" using Cons.prems(1) by (cases ps) auto
  obtain k' where k: "k = Suc k'" "length xs \<le> k'" using Cons.prems(2) by (cases k) auto
  show ?case using Cons.IH [OF p(3) k(2)] p(1,2) k(1) cell_at_Obj_pos [OF p(2)] by (simp add: ll_getNext_def)
qed

lemma ll_iter_prev_dseg:
  "dseg h NULL ps xs nxt \<Longrightarrow> length xs \<le> k \<Longrightarrow> ll_iter_prev k (final NULL ps) h = Inr (rev xs)"
proof (induction ps arbitrary: xs nxt k rule: rev_induct)
  case Nil
  then show ?case by (cases k) (simp_all add: ll_atEnd_def ll_getPrev_def)
next
  case (snoc p qs)
  obtain ys y where y: "xs = ys @ [y]" "dseg h NULL qs ys p"
    "cell_at h p = Obj \<lparr>ddat = y, dnext = nxt, dprev = final NULL qs\<rparr>" by (rule dseg_snoc [OF snoc.prems(1)])
  obtain k' where k: "k = Suc k'" "length ys \<le> k'" using snoc.prems(2) y(1) by (cases k) auto
  show ?case using snoc.IH [OF y(2) k(2)] y(1,3) k(1) cell_at_Obj_pos [OF y(3)] by (simp add: ll_getPrev_def)
qed

lemma ll_iter_rep:
  assumes "ll_rep h l ps xs"
  shows "ll_iter_next (heap_size h) (ll_startIterHead l) h = Inr xs"
    and "ll_iter_prev (heap_size h) (ll_startIterTail l) h = Inr (rev xs)"
proof -
  note d = ll_repD [OF assms]
  have k: "length xs \<le> heap_size h" using chain_length [OF d(9)] d(6) by simp
  show "ll_iter_next (heap_size h) (ll_startIterHead l) h = Inr xs"
    using ll_iter_next_dseg [OF d(1) k] d(2) by (simp add: ll_startIterHead_def)
  show "ll_iter_prev (heap_size h) (ll_startIterTail l) h = Inr (rev xs)"
    using ll_iter_prev_dseg [OF d(1) k] d(3) by (simp add: ll_startIterTail_def)
qed

section \<open>Taking a link out of the middle\<close>

lemma relink_prev:
  assumes seg: "dseg h q bs zs NULL" and dis: "distinct bs"
  obtains h1 where "(if first bs NULL \<noteq> NULL then modify (first bs NULL) (\<lambda>n. n\<lparr>dprev := q'\<rparr>) h else Inr h) = Inr h1"
    and "dseg h1 q' bs zs NULL" and "room h1 = room h" and "live h1 = live h" and "same_outside (set bs) h h1"
proof (cases bs)
  case Nil
  then show ?thesis using that [of h] seg by simp
next
  case (Cons b bs')
  obtain z zs' where z: "zs = z # zs'" "cell_at h b = Obj \<lparr>ddat = z, dnext = first bs' NULL, dprev = q\<rparr>"
    "dseg h b bs' zs' NULL" using seg Cons by (cases zs) auto
  define h1 where "h1 = put_cell b (Obj \<lparr>ddat = z, dnext = first bs' NULL, dprev = q'\<rparr>) h"
  have c1: "cell_at h1 a = (if a = b then Obj \<lparr>ddat = z, dnext = first bs' NULL, dprev = q'\<rparr> else cell_at h a)" for a
    using z(2) by (simp add: h1_def cell_at_put)
  have "modify b (\<lambda>n. n\<lparr>dprev := q'\<rparr>) h = Inr h1" using z(2) by (simp add: modify_Obj h1_def)
  moreover have "dseg h1 b bs' zs' NULL" using z(3) dis Cons c1 by (subst dseg_frame [of _ _ h]) auto
  moreover have "live h1 = live h" by (rule live_two_puts) (use c1 z(2) in auto)
  moreover have "room h1 = room h" by (simp add: h1_def)
  moreover have "same_outside (set bs) h h1" using c1 Cons by (simp add: same_outside_def)
  ultimately show ?thesis
    using that [of h1] Cons z(1) c1 cell_at_Obj_pos [OF z(2)] by simp
qed

lemma relink_next:
  assumes seg: "dseg h NULL as ys q" and dis: "distinct as"
  obtains h1 where "(if final NULL as \<noteq> NULL then modify (final NULL as) (\<lambda>n. n\<lparr>dnext := q'\<rparr>) h else Inr h) = Inr h1"
    and "dseg h1 NULL as ys q'" and "room h1 = room h" and "live h1 = live h" and "same_outside (set as) h h1"
proof (cases as rule: rev_cases)
  case Nil
  then show ?thesis using that [of h] seg by simp
next
  case (snoc as' a)
  obtain zs z where z: "ys = zs @ [z]" "dseg h NULL as' zs a"
    "cell_at h a = Obj \<lparr>ddat = z, dnext = q, dprev = final NULL as'\<rparr>" by (rule dseg_snoc [OF seg [unfolded snoc]])
  define h1 where "h1 = put_cell a (Obj \<lparr>ddat = z, dnext = q', dprev = final NULL as'\<rparr>) h"
  have c1: "cell_at h1 r = (if r = a then Obj \<lparr>ddat = z, dnext = q', dprev = final NULL as'\<rparr> else cell_at h r)" for r
    using z(3) by (simp add: h1_def cell_at_put)
  have "modify a (\<lambda>n. n\<lparr>dnext := q'\<rparr>) h = Inr h1" using z(3) by (simp add: modify_Obj h1_def)
  moreover have "dseg h1 NULL as' zs a" using z(2) dis snoc c1 by (subst dseg_frame [of _ _ h]) auto
  then have "dseg h1 NULL (as' @ [a]) (zs @ [z]) q'" by (rule dseg_snocI) (simp add: c1)
  moreover have "live h1 = live h" by (rule live_two_puts) (use c1 z(3) in auto)
  moreover have "room h1 = room h" by (simp add: h1_def)
  moreover have "same_outside (set as) h h1" using c1 snoc by (simp add: same_outside_def)
  ultimately show ?thesis
    using that [of h1] snoc z(1) cell_at_Obj_pos [OF z(3)] by simp
qed

lemma ll_removeLink_rep:
  assumes rep: "ll_rep h l (as @ p # bs) (ys @ x # zs)" and len: "length as = length ys"
  obtains l' h' where "cell_at h p = Obj \<lparr>ddat = x, dnext = first bs NULL, dprev = final NULL as\<rparr>" and "0 < p"
    and "ll_removeLink p l h = Inr (l', h')" and "ll_rep h' l' (as @ bs) (ys @ zs)"
    and "l_enabled l' = l_enabled l" and "room h' = room h" and "live h' = live h"
proof -
  note d = ll_repD [OF rep]
  have seg: "dseg h NULL as ys p" "cell_at h p = Obj \<lparr>ddat = x, dnext = first bs NULL, dprev = final NULL as\<rparr>"
    "dseg h p bs zs NULL" using d(1) len by (auto simp: dseg_append)
  have dis: "distinct as" "distinct bs" "p \<notin> set as" "p \<notin> set bs" "set as \<inter> set bs = {}" using d(5) by auto
  have pp: "0 < p" using cell_at_Obj_pos [OF seg(2)] .
  obtain h1 where h1: "(if first bs NULL \<noteq> NULL then modify (first bs NULL) (\<lambda>n. n\<lparr>dprev := final NULL as\<rparr>) h else Inr h) = Inr h1"
    "dseg h1 (final NULL as) bs zs NULL" "room h1 = room h" "live h1 = live h" "same_outside (set bs) h h1"
    by (rule relink_prev [OF seg(3) dis(2)])
  have s1: "dseg h1 NULL as ys p"
    by (subst dseg_frame [of _ _ h], rule same_outsideD [OF h1(5)]) (use dis seg(1) in auto)
  have p1: "cell_at h1 p = Obj \<lparr>ddat = x, dnext = first bs NULL, dprev = final NULL as\<rparr>"
    using same_outsideD [OF h1(5) dis(4)] seg(2) by simp
  obtain h2 where h2: "(if final NULL as \<noteq> NULL then modify (final NULL as) (\<lambda>n. n\<lparr>dnext := first bs NULL\<rparr>) h1 else Inr h1) = Inr h2"
    "dseg h2 NULL as ys (first bs NULL)" "room h2 = room h1" "live h2 = live h1" "same_outside (set as) h1 h2"
    by (rule relink_next [OF s1 dis(1)])
  have s2: "dseg h2 (final NULL as) bs zs NULL"
    by (subst dseg_frame [of _ _ h1], rule same_outsideD [OF h2(5)]) (use dis h1(2) in auto)
  have p2: "load p h2 = Inr \<lparr>ddat = x, dnext = first bs NULL, dprev = final NULL as\<rparr>"
    using same_outsideD [OF h2(5) dis(3)] p1 by simp
  let ?la = "if l_head l = p then l\<lparr>l_head := first bs NULL\<rparr> else l"
  let ?lb = "if l_tail ?la = p then ?la\<lparr>l_tail := final NULL as\<rparr> else ?la"
  let ?l' = "?lb\<lparr>l_remain := l_remain l - 1\<rparr>"
  have run: "ll_removeLink p l h = Inr (?l', h2)"
    using pp p2 by (cases "l_head l = p"; cases "l_tail l = p")
      (simp_all only: ll_removeLink_def load_Obj [OF seg(2)] load_Obj [OF p1] bindE_Inr dlink.simps h1(1) h2(1)
        llist.simps neq0_conv [symmetric] refl if_True if_False, simp_all)
  have hd: "l_head ?l' = first (as @ bs) NULL"
    using d(2) dis(3) by (cases as) (auto simp: first_append)
  have tl: "l_tail ?l' = final NULL (as @ bs)"
    using d(3) dis(4) by (cases bs rule: rev_cases) (auto simp: final_def)
  have rep': "ll_rep h2 ?l' (as @ bs) (ys @ zs)"
    unfolding ll_rep_def using h2(2) s2 len hd tl d(4) by (simp add: dseg_append)
  show ?thesis
    by (rule that [OF seg(2) pp run rep']) (simp_all add: h2(3,4) h1(3,4))
qed

lemma ll_removeNext_rep:
  assumes rep: "ll_rep h l (as @ p # bs) (ys @ x # zs)" and len: "length as = length ys"
  obtains l' h' where "ll_removeNext p l h = Inr (Some x, first bs NULL, l', h')"
    and "ll_removePrev p l h = Inr (Some x, final NULL as, l', h')"
    and "ll_rep h' l' (as @ bs) (ys @ zs)" and "l_enabled l' = l_enabled l"
    and "room h' = room h" and "live h' = live h"
proof -
  obtain l' h' where r: "cell_at h p = Obj \<lparr>ddat = x, dnext = first bs NULL, dprev = final NULL as\<rparr>" "0 < p"
    "ll_removeLink p l h = Inr (l', h')" "ll_rep h' l' (as @ bs) (ys @ zs)" "l_enabled l' = l_enabled l"
    "room h' = room h" "live h' = live h" by (rule ll_removeLink_rep [OF assms])
  show ?thesis by (rule that [OF _ _ r(4-7)]) (use r(1-3) in \<open>simp_all add: ll_removeNext_def ll_removePrev_def\<close>)
qed

section \<open>Properties\<close>

text \<open>Two lists in one heap, to evaluate the operations on.\<close>

definition exl_heap :: "nat dlink heap" where
  "exl_heap = \<lparr>mem = [Obj \<lparr>ddat = 10, dnext = 2, dprev = NULL\<rparr>, Obj \<lparr>ddat = 20, dnext = 3, dprev = 1\<rparr>,
     Obj \<lparr>ddat = 30, dnext = NULL, dprev = 2\<rparr>, Obj \<lparr>ddat = 40, dnext = NULL, dprev = NULL\<rparr>], room = 5\<rparr>"

definition exl_a :: llist where
  "exl_a = \<lparr>l_enabled = True, l_head = 1, l_tail = 3, l_remain = 3\<rparr>"

definition exl_b :: llist where
  "exl_b = \<lparr>l_enabled = True, l_head = 4, l_tail = 4, l_remain = 1\<rparr>"

lemma exl_cells: "cell_at exl_heap 1 = Obj \<lparr>ddat = 10, dnext = 2, dprev = NULL\<rparr>"
  "cell_at exl_heap 2 = Obj \<lparr>ddat = 20, dnext = 3, dprev = 1\<rparr>"
  "cell_at exl_heap 3 = Obj \<lparr>ddat = 30, dnext = NULL, dprev = 2\<rparr>"
  "cell_at exl_heap 4 = Obj \<lparr>ddat = 40, dnext = NULL, dprev = NULL\<rparr>"
  by (simp_all add: cell_at_def exl_heap_def nth_Cons')

lemma exl_rep: "ll_rep exl_heap exl_a [1, 2, 3] [10, 20, 30]" "ll_rep exl_heap exl_b [4] [40]"
  by (simp_all add: ll_rep_def exl_a_def exl_b_def exl_cells del: One_nat_def)

lemma exl_live: "live exl_heap = set [1, 2, 3] \<union> {4}"
proof -
  have "heap_size exl_heap = 4" by (simp add: exl_heap_def)
  moreover have "{1..4 :: nat} = {1, 2, 3, 4}" by auto
  ultimately have "live exl_heap \<subseteq> {1, 2, 3, 4}" using live_bounds [of exl_heap] by simp
  moreover have "{1, 2, 3, 4} \<subseteq> live exl_heap" by (simp add: live_iff exl_cells del: One_nat_def)
  ultimately show ?thesis by auto
qed

lemma exl_owns: "ll_owns {4} (exl_a, exl_heap) [10, 20, 30]"
  by (rule ll_ownsI [OF _ exl_rep(1) exl_live]) (simp_all add: exl_a_def)

text \<open>C11. An LList is a queue with two ends: every sequence of \<open>addToTail\<close>, \<open>addToHead\<close>, \<open>removeHead\<close>
  and \<open>removeTail\<close>, as long as the allocator has memory for it, runs without a fault and returns what
  the same calls on a list return, \<open>false\<close> for the empty list included; the destructor then frees every
  link that is left, and nothing else.\<close>
theorem ll_is_deque:
  assumes "ll_owns R s xs" and "dfits (ll_space s) ops (length xs)"
  shows "holds (run_dops ll_put ll_put_front ll_get ll_get_back ops s) (\<lambda>(rs, s'). \<exists>ys. list_dops ops xs = (rs, ys)
    \<and> ll_owns R s' ys \<and> holds (ll_destroy (fst s') (snd s')) (\<lambda>h. live h = R \<and> room h = ll_space s + length xs))"
proof (rule holds_mono [OF lld.run_list_dops [OF assms]])
  fix v :: "'a option list \<times> 'a ll_state"
  assume "case v of (rs, s') \<Rightarrow> \<exists>ys. list_dops ops xs = (rs, ys) \<and> ll_owns R s' ys \<and>
    ll_space s' + length ys = ll_space s + length xs"
  then obtain ys where "list_dops ops xs = (fst v, ys)" "ll_owns R (snd v) ys"
    "ll_space (snd v) + length ys = ll_space s + length xs" by (auto split: prod.splits)
  with ll_destroy_owns [OF this(2)] show "case v of (rs, s') \<Rightarrow> \<exists>ys. list_dops ops xs = (rs, ys)
    \<and> ll_owns R s' ys \<and> holds (ll_destroy (fst s') (snd s')) (\<lambda>h. live h = R \<and> room h = ll_space s + length xs)"
    by (auto split: prod.splits)
qed

theorem ll_is_deque_witness:
  "holds (run_dops ll_put ll_put_front ll_get ll_get_back [Pop_back, Push_front 5, Pop_front, Push_back 6] (exl_a, exl_heap))
    (\<lambda>(rs, s'). \<exists>ys. list_dops [Pop_back, Push_front 5, Pop_front, Push_back 6] [10, 20, 30] = (rs, ys)
    \<and> ll_owns {4} s' ys \<and> holds (ll_destroy (fst s') (snd s')) (\<lambda>h. live h = {4} \<and> room h = 8))"
  using ll_is_deque [OF exl_owns, of "[Pop_back, Push_front 5, Pop_front, Push_back 6]"]
  by (simp add: ll_space_def exl_heap_def)

text \<open>Removing the link an iterator is at takes exactly its element out of the list and moves the
  iterator to the link after it (\<open>removeNext\<close>) or before it (\<open>removePrev\<close>), wherever the link is; but the link
  is not freed: when the list is destroyed the memory of the removed link is still held.\<close>
theorem ll_remove_at_iterator:
  assumes "ll_rep h l (as @ p # bs) (ys @ x # zs)" and "length as = length ys"
  shows "holds (ll_removeNext p l h) (\<lambda>(r, i, l', h'). r = Some x \<and> i = first bs NULL
      \<and> ll_rep h' l' (as @ bs) (ys @ zs) \<and> holds (ll_destroy l' h') (\<lambda>h''. live h'' = live h - set (as @ bs) \<and> p \<in> live h''))
    \<and> holds (ll_removePrev p l h) (\<lambda>(r, i, l', h'). r = Some x \<and> i = final NULL as
      \<and> ll_rep h' l' (as @ bs) (ys @ zs) \<and> holds (ll_destroy l' h') (\<lambda>h''. live h'' = live h - set (as @ bs) \<and> p \<in> live h''))"
proof -
  obtain l' h' where r: "ll_removeNext p l h = Inr (Some x, first bs NULL, l', h')"
    "ll_removePrev p l h = Inr (Some x, final NULL as, l', h')" "ll_rep h' l' (as @ bs) (ys @ zs)"
    "l_enabled l' = l_enabled l" "room h' = room h" "live h' = live h" by (rule ll_removeNext_rep [OF assms])
  obtain h'' where d: "ll_clearAll l' h' = Inr (l'\<lparr>l_head := NULL, l_tail := NULL, l_remain := 0\<rparr>, h'')"
    "live h'' = live h' - set (as @ bs)" by (rule ll_clearAll_rep [OF r(3)])
  have "p \<in> live h" using chain_live [OF ll_repD(9) [OF assms(1)]] by auto
  moreover have "p \<notin> set (as @ bs)" using ll_repD(5) [OF assms(1)] by auto
  ultimately have "p \<in> live h''" using d(2) r(6) by simp
  then show ?thesis using r d by (simp add: ll_destroy_def)
qed

theorem ll_remove_at_iterator_witness:
  "holds (ll_removeNext 2 exl_a exl_heap) (\<lambda>(r, i, l', h'). r = Some 20 \<and> i = 3
      \<and> ll_rep h' l' [1, 3] [10, 30] \<and> holds (ll_destroy l' h') (\<lambda>h''. live h'' = live exl_heap - {1, 3} \<and> 2 \<in> live h''))"
  using ll_remove_at_iterator [of exl_heap exl_a "[1]" 2 "[3]" "[10]" 20 "[30]"] exl_rep(1) by simp

text \<open>An iterator started at the head sees every element once, in order; one started at the tail sees
  them in the opposite order.\<close>
theorem ll_iterates_both_ways:
  assumes "ll_rep h l ps xs"
  shows "ll_iter_next (heap_size h) (ll_startIterHead l) h = Inr xs
    \<and> ll_iter_prev (heap_size h) (ll_startIterTail l) h = Inr (rev xs)"
  using ll_iter_rep [OF assms] by simp

theorem ll_iterates_both_ways_witness:
  "ll_iter_next (heap_size exl_heap) (ll_startIterHead exl_a) exl_heap = Inr [10, 20, 30]
    \<and> ll_iter_prev (heap_size exl_heap) (ll_startIterTail exl_a) exl_heap = Inr [30, 20, 10]"
  using ll_iterates_both_ways [OF exl_rep(1)] by simp

text \<open>\<open>transferFrom\<close> moves the links of one list behind those of another.\<close>
theorem ll_transfer_appends:
  assumes "ll_rep h l ps xs" and "ll_rep h o' qs ys" and "set ps \<inter> set qs = {}"
    and "l_enabled l" and "xs \<noteq> [] \<or> ys \<noteq> []"
  shows "holds (ll_transferFrom l o' h) (\<lambda>(l', o'', h'). ll_rep h' l' (ps @ qs) (xs @ ys) \<and> ll_rep h' o'' [] []
    \<and> room h' = room h \<and> live h' = live h)"
proof -
  obtain l' h' where "ll_transferFrom l o' h = Inr (l', o'\<lparr>l_head := NULL, l_tail := NULL, l_remain := 0\<rparr>, h')"
    "ll_rep h' l' (ps @ qs) (xs @ ys)" "room h' = room h" "live h' = live h"
    by (rule ll_transferFrom_rep [OF assms])
  then show ?thesis by (simp add: ll_rep_def)
qed

theorem ll_transfer_appends_witness:
  "holds (ll_transferFrom exl_a exl_b exl_heap) (\<lambda>(l', o'', h'). ll_rep h' l' ([1, 2, 3] @ [4]) ([10, 20, 30] @ [40])
    \<and> ll_rep h' o'' [] [] \<and> room h' = room exl_heap \<and> live h' = live exl_heap)"
  by (rule ll_transfer_appends [OF exl_rep]) (simp_all add: exl_a_def)

text \<open>\<open>transferFrom\<close> of an empty list to an empty list reads through the null pointer \<open>tail\<close>.\<close>
theorem ll_transfer_empty_faults:
  assumes "ll_rep h l [] []" and "ll_rep h o' [] []" and "l_enabled l"
  shows "ll_transferFrom l o' h = Inl NullDeref"
  by (rule ll_transferFrom_both_empty [OF assms])

theorem ll_transfer_empty_faults_witness:
  "ll_transferFrom ll_new ll_new (empty_heap 4 :: nat dlink heap) = Inl NullDeref"
  by (rule ll_transfer_empty_faults [OF ll_rep_new ll_rep_new]) (simp add: ll_new_def)

text \<open>\<open>operator=\<close> of a list that is not empty makes a deep copy: links of its own, and the source is
  unchanged. Of an empty list it uses a local variable without a value.\<close>
theorem ll_assign_is_deep:
  assumes "ll_rep h l ps xs" and "ll_rep h o' qs ys" and "set ps \<inter> set qs = {}"
    and "ys \<noteq> []" and "length ys \<le> room h + length xs"
  shows "holds (ll_assign l o' h) (\<lambda>(l', h'). \<exists>ns. ll_rep h' l' ns ys \<and> ll_rep h' o' qs ys
    \<and> set ns \<inter> set qs = {} \<and> live h' = (live h - set ps) \<union> set ns)"
proof -
  obtain l' h' ns where r: "ll_assign l o' h = Inr (l', h')" "ll_rep h' l' ns ys" "ll_rep h' o' qs ys"
    "set ns \<inter> (live h - set ps) = {}" "live h' = (live h - set ps) \<union> set ns" by (rule ll_assign_rep [OF assms])
  have "set qs \<subseteq> live h" by (rule chain_live [OF ll_repD(9) [OF assms(2)]])
  then have "set ns \<inter> set qs = {}" using assms(3) r(4) by blast
  then show ?thesis using r by auto
qed

theorem ll_assign_is_deep_witness:
  "holds (ll_assign exl_b exl_a exl_heap) (\<lambda>(l', h'). \<exists>ns. ll_rep h' l' ns [10, 20, 30] \<and> ll_rep h' exl_a [1, 2, 3] [10, 20, 30]
    \<and> set ns \<inter> set [1, 2, 3] = {} \<and> live h' = (live exl_heap - set [4]) \<union> set ns)"
  by (rule ll_assign_is_deep [OF exl_rep(2) exl_rep(1)]) (simp_all add: exl_heap_def)

theorem ll_assign_empty_faults:
  assumes "ll_rep h l ps xs" and "ll_rep h o' [] []"
  shows "ll_assign l o' h = Inl Uninit"
proof -
  let ?l = "l\<lparr>l_enabled := l_enabled o'\<rparr>"
  have "ll_rep h ?l ps xs" using assms(1) by (simp add: ll_rep_def)
  then obtain h' where "ll_clearAll ?l h = Inr (?l\<lparr>l_head := NULL, l_tail := NULL, l_remain := 0\<rparr>, h')"
    by (rule ll_clearAll_rep) blast
  then show ?thesis using ll_repD(2) [OF assms(2)] by (simp add: ll_assign_def Let_def)
qed

theorem ll_assign_empty_faults_witness:
  "ll_assign exl_a ll_new exl_heap = Inl Uninit"
  by (rule ll_assign_empty_faults [OF exl_rep(1) ll_rep_new])

end
