(* ===== verification/TW_Stack.thy ===== *)
theory TW_Stack
  imports TW_Chain
begin

text \<open>
  The class Stack of include/TW/tw_stack.h: a stack kept as a chain of links that \<open>head\<close> points to.
  Links come from \<^verbatim>\<open>new\<close>, which throws \<^verbatim>\<open>std::bad_alloc\<close> when there is no memory, and is \<open>malloc\<close> of the
  heap otherwise.
\<close>

section \<open>The interface\<close>

datatype 'a sop = Push 'a | Pop

fun run_sops :: "('a \<Rightarrow> 's \<Rightarrow> 's res) \<Rightarrow> ('s \<Rightarrow> ('a option \<times> 's) res) \<Rightarrow> 'a sop list \<Rightarrow> 's
    \<Rightarrow> ('a option list \<times> 's) res" where
  "run_sops push pop [] s = Inr ([], s)"
| "run_sops push pop (Push x # ops) s = bindE (push x s) (run_sops push pop ops)"
| "run_sops push pop (Pop # ops) s = bindE (pop s) (\<lambda>(r, s).
     bindE (run_sops push pop ops s) (\<lambda>(rs, s). Inr (r # rs, s)))"

fun list_sops :: "'a sop list \<Rightarrow> 'a list \<Rightarrow> 'a option list \<times> 'a list" where
  "list_sops [] xs = ([], xs)"
| "list_sops (Push x # ops) xs = list_sops ops (x # xs)"
| "list_sops (Pop # ops) [] = (let (rs, ys) = list_sops ops [] in (None # rs, ys))"
| "list_sops (Pop # ops) (x # xs) = (let (rs, ys) = list_sops ops xs in (Some x # rs, ys))"

text \<open>A push that finds no memory throws and leaves the stack alone; \<open>push\<close> below is one that goes
  through or throws.\<close>

fun pushed :: "'a sop list \<Rightarrow> nat" where
  "pushed [] = 0"
| "pushed (Push x # ops) = Suc (pushed ops)"
| "pushed (Pop # ops) = pushed ops"

locale bounded_stack =
  fixes rep :: "'s \<Rightarrow> 'a list \<Rightarrow> bool"
    and space :: "'s \<Rightarrow> nat"
    and push :: "'a \<Rightarrow> 's \<Rightarrow> 's res"
    and pop :: "'s \<Rightarrow> ('a option \<times> 's) res"
  assumes push_law: "rep s xs \<Longrightarrow> 0 < space s \<Longrightarrow>
      holds (push x s) (\<lambda>s'. rep s' (x # xs) \<and> space s' = space s - 1)"
    and pop_empty_law: "rep s [] \<Longrightarrow>
      holds (pop s) (\<lambda>(r, s'). r = None \<and> rep s' [] \<and> space s' = space s)"
    and pop_law: "rep s (x # xs) \<Longrightarrow>
      holds (pop s) (\<lambda>(r, s'). r = Some x \<and> rep s' xs \<and> space s' = Suc (space s))"
begin

lemma run_list_sops:
  "rep s xs \<Longrightarrow> pushed ops \<le> space s \<Longrightarrow>
     holds (run_sops push pop ops s) (\<lambda>(rs, s'). \<exists>ys. list_sops ops xs = (rs, ys) \<and> rep s' ys \<and>
       space s' + length ys = space s + length xs)"
proof (induction ops xs arbitrary: s rule: list_sops.induct)
  case (1 xs)
  then show ?case by simp
next
  case (2 x ops xs)
  obtain s' where "push x s = Inr s'" "rep s' (x # xs)" "space s' = space s - 1"
    using push_law [OF 2(2), of x] 2(3) by (auto simp: holds_iff)
  with 2(1) [of s'] 2(3) show ?case by (auto simp: holds_iff)
next
  case (3 ops)
  obtain s' where "pop s = Inr (None, s')" "rep s' []" "space s' = space s"
    using pop_empty_law [OF 3(2)] by (auto simp: holds_iff)
  with 3(1) [of s'] 3(3) show ?case by (auto simp: holds_iff)
next
  case (4 ops x xs)
  obtain s' where "pop s = Inr (Some x, s')" "rep s' xs" "space s' = Suc (space s)"
    using pop_law [OF 4(2)] by (auto simp: holds_iff)
  with 4(1) [of s'] 4(3) show ?case by (auto simp: holds_iff)
qed

end

section \<open>The class\<close>

record 'a slink =
  sdata :: 'a
  snext :: ptr

record stack =
  st_head :: ptr
  st_cnt :: int

definition st_new :: stack where
  "st_new = \<lparr>st_head = NULL, st_cnt = 0\<rparr>"

text \<open>\<^verbatim>\<open>new Link\<close> builds the data with its default constructor; \<open>initialize\<close> assigns both fields.\<close>

definition slink_initialize :: "ptr \<Rightarrow> 'a \<Rightarrow> ptr \<Rightarrow> 'a slink heap \<Rightarrow> 'a slink heap res" where
  "slink_initialize p dat nxt h = modify p (\<lambda>_. \<lparr>sdata = dat, snext = nxt\<rparr>) h"

text \<open>The first component is false when \<^verbatim>\<open>new\<close> throws.\<close>

definition st_push :: "'a \<Rightarrow> 'a \<Rightarrow> stack \<Rightarrow> 'a slink heap \<Rightarrow> (bool \<times> stack \<times> 'a slink heap) res" where
  "st_push dflt dat s h = (case malloc h of (newLink, h) \<Rightarrow>
     if newLink = NULL then Inr (False, s, h) else
     bindE (construct newLink \<lparr>sdata = dflt, snext = NULL\<rparr> h) (\<lambda>h.
     bindE (slink_initialize newLink dat (st_head s) h) (\<lambda>h.
     Inr (True, s\<lparr>st_head := newLink, st_cnt := st_cnt s + 1\<rparr>, h))))"

definition st_peek :: "stack \<Rightarrow> 'a slink heap \<Rightarrow> 'a option res" where
  "st_peek s h = (if st_head s \<noteq> NULL then bindE (load (st_head s) h) (\<lambda>c. Inr (Some (sdata c))) else Inr None)"

definition st_pop :: "stack \<Rightarrow> 'a slink heap \<Rightarrow> ('a option \<times> stack \<times> 'a slink heap) res" where
  "st_pop s h = (if st_head s = NULL then Inr (None, s, h) else
     let s = s\<lparr>st_cnt := st_cnt s - 1\<rparr> in
     bindE (load (st_head s) h) (\<lambda>c.
     let oldHead = st_head s; s = s\<lparr>st_head := snext c\<rparr> in
     bindE (free oldHead h) (\<lambda>h. Inr (Some (sdata c), s, h))))"

definition st_remaining :: "stack \<Rightarrow> int" where
  "st_remaining s = st_cnt s"

definition st_cleanup :: "stack \<Rightarrow> 'a slink heap \<Rightarrow> (stack \<times> 'a slink heap) res" where
  "st_cleanup s h = bindE (free_all snext h (st_head s)) (\<lambda>h. Inr (s\<lparr>st_head := NULL, st_cnt := 0\<rparr>, h))"

definition st_destroy :: "stack \<Rightarrow> 'a slink heap \<Rightarrow> 'a slink heap res" where
  "st_destroy s h = bindE (st_cleanup s h) (\<lambda>(_, h). Inr h)"

text \<open>The class declares no copy constructor: the one the compiler adds copies the two members.\<close>

definition st_copy :: "stack \<Rightarrow> stack" where
  "st_copy s = s"

section \<open>The list a stack represents\<close>

definition st_rep :: "'a slink heap \<Rightarrow> stack \<Rightarrow> ptr list \<Rightarrow> 'a list \<Rightarrow> bool" where
  "st_rep h s ps xs \<longleftrightarrow> chain snext h (st_head s) ps NULL \<and> map (\<lambda>p. sdata (obj_at h p)) ps = xs
     \<and> st_cnt s = int (length xs)"

text \<open>\<open>R\<close> is the memory of everything else.\<close>

type_synonym 'a st_state = "stack \<times> 'a slink heap"

definition st_owns :: "ptr set \<Rightarrow> 'a st_state \<Rightarrow> 'a list \<Rightarrow> bool" where
  "st_owns R s xs \<longleftrightarrow> (\<exists>ps. st_rep (snd s) (fst s) ps xs \<and> live (snd s) = set ps \<union> R \<and> set ps \<inter> R = {})"

lemma st_rep_frame:
  "st_rep h s ps xs \<Longrightarrow> (\<And>a. a \<in> set ps \<Longrightarrow> cell_at h' a = cell_at h a) \<Longrightarrow> st_rep h' s ps xs"
  unfolding st_rep_def using chain_frame [of ps h' h] by (auto simp: obj_at_def)

lemma st_push_rep:
  assumes rep: "st_rep h s ps xs" and room: "0 < room h"
  obtains s' h' where "st_push dflt x s h = Inr (True, s', h')" and "st_rep h' s' (Suc (heap_size h) # ps) (x # xs)"
    and "room h' = room h - 1" and "live h' = insert (Suc (heap_size h)) (live h)"
proof -
  let ?n = "Suc (heap_size h)" and ?h = "new_obj \<lparr>sdata = dflt, snext = NULL\<rparr> h"
  let ?h' = "put_cell ?n (Obj \<lparr>sdata = x, snext = st_head s\<rparr>) ?h"
  let ?s = "s\<lparr>st_head := ?n, st_cnt := st_cnt s + 1\<rparr>"
  have c: "cell_at ?h' a = (if a = ?n then Obj \<lparr>sdata = x, snext = st_head s\<rparr> else cell_at h a)" for a
    by (simp add: cell_at_put cell_at_new)
  have ch: "chain snext h (st_head s) ps NULL" using rep by (simp add: st_rep_def)
  have "st_rep ?h' s ps xs" by (rule st_rep_frame [OF rep]) (use chain_fresh [OF ch] c in auto)
  then have "st_rep ?h' ?s (?n # ps) (x # xs)" using c by (simp add: st_rep_def)
  moreover have "st_push dflt x s h = Inr (True, ?s, ?h')"
    using room by (simp add: st_push_def malloc_ok construct_new slink_initialize_def modify_Obj cell_at_new)
  moreover have "live ?h' = insert ?n (live h)" by (auto simp: live_iff c split: if_splits)
  ultimately show ?thesis using that [of ?s ?h'] by simp
qed

lemma st_push_throws: "room h = 0 \<Longrightarrow> st_push dflt x s h = Inr (False, s, h)"
  by (simp add: st_push_def malloc_fails)

lemma st_pop_rep:
  assumes rep: "st_rep h s (p # ps) (x # xs)"
  obtains s' h' where "st_pop s h = Inr (Some x, s', h')" and "st_rep h' s' ps xs"
    and "room h' = Suc (room h)" and "live h' = live h - {p}"
proof -
  have ch: "chain snext h (st_head s) (p # ps) NULL" using rep by (simp add: st_rep_def)
  obtain c where c: "st_head s = p" "cell_at h p = Obj c" "sdata c = x" "chain snext h (snext c) ps NULL"
    using ch rep by (auto simp: st_rep_def)
  have p: "0 < p" "p \<notin> set ps" using cell_at_Obj_pos [OF c(2)] chain_distinct [OF ch] by auto
  let ?h = "(put_cell p Freed h)\<lparr>room := Suc (room h)\<rparr>" and ?s = "s\<lparr>st_cnt := st_cnt s - 1, st_head := snext c\<rparr>"
  have at: "cell_at ?h a = (if a = p then Freed else cell_at h a)" for a using c(2) by (simp add: cell_at_put)
  have "st_rep h ?s ps xs" using rep c by (simp add: st_rep_def)
  then have "st_rep ?h ?s ps xs" by (rule st_rep_frame) (use p at in auto)
  moreover have "st_pop s h = Inr (Some x, ?s, ?h)"
    using c p by (simp add: st_pop_def Let_def free_ok)
  moreover have "live ?h = live h - {p}" using c(2) by (simp add: live_put_Freed)
  ultimately show ?thesis using that [of ?s ?h] by simp
qed

lemma st_cleanup_rep:
  assumes rep: "st_rep h s ps xs"
  obtains h' where "st_cleanup s h = Inr (s\<lparr>st_head := NULL, st_cnt := 0\<rparr>, h')"
    and "room h' = room h + length xs" and "live h' = live h - set ps"
    and "\<forall>p \<in> set ps. cell_at h' p = Freed"
proof -
  have ch: "chain snext h (st_head s) ps NULL" and "length ps = length xs" using rep by (auto simp: st_rep_def)
  then obtain h' where h': "free_all snext h (st_head s) = Inr h'" "room h' = room h + length xs"
    "\<And>q. cell_at h' q = (if q \<in> set ps then Freed else cell_at h q)"
    using free_all_chain [OF ch] by metis
  have "live h' = live h - set ps" using h'(3) by (auto simp: live_iff split: if_splits)
  then show ?thesis using that [of h'] h' by (simp add: st_cleanup_def)
qed

lemma st_peek_rep:
  assumes "st_rep h s ps xs"
  shows "st_peek s h = Inr (if xs = [] then None else Some (hd xs))" and "st_remaining s = int (length xs)"
  using assms by (cases ps; auto simp: st_rep_def st_peek_def st_remaining_def dest: cell_at_Obj_pos)+

section \<open>Stack as a bounded stack\<close>

definition st_put :: "'a \<Rightarrow> 'a \<Rightarrow> 'a st_state \<Rightarrow> 'a st_state res" where
  "st_put dflt x s = bindE (st_push dflt x (fst s) (snd s)) (\<lambda>(_, s). Inr s)"

definition st_take :: "'a st_state \<Rightarrow> ('a option \<times> 'a st_state) res" where
  "st_take s = st_pop (fst s) (snd s)"

definition st_space :: "'a st_state \<Rightarrow> nat" where
  "st_space s = room (snd s)"

lemma st_put_owns:
  assumes "st_owns R s xs" and "0 < st_space s"
  shows "holds (st_put dflt x s) (\<lambda>s'. st_owns R s' (x # xs) \<and> st_space s' = st_space s - 1)"
proof -
  obtain ps where ps: "st_rep (snd s) (fst s) ps xs" "live (snd s) = set ps \<union> R" "set ps \<inter> R = {}"
    using assms(1) by (auto simp: st_owns_def)
  have room: "0 < room (snd s)" using assms(2) by (simp add: st_space_def)
  let ?n = "Suc (heap_size (snd s))"
  obtain s' h' where h': "st_push dflt x (fst s) (snd s) = Inr (True, s', h')"
    "st_rep h' s' (?n # ps) (x # xs)" "room h' = room (snd s) - 1" "live h' = insert ?n (live (snd s))"
    by (rule st_push_rep [OF ps(1) room])
  have "?n \<notin> R" using ps(2) fresh_not_live [of "snd s"] by auto
  then have "st_owns R (s', h') (x # xs)"
    unfolding st_owns_def using h' ps by (intro exI [of _ "?n # ps"]) auto
  then show ?thesis using h' by (simp add: st_put_def st_space_def)
qed

lemma st_take_owns:
  assumes "st_owns R s (x # xs)"
  shows "holds (st_take s) (\<lambda>(r, s'). r = Some x \<and> st_owns R s' xs \<and> st_space s' = Suc (st_space s))"
proof -
  obtain qs where qs: "st_rep (snd s) (fst s) qs (x # xs)" "live (snd s) = set qs \<union> R" "set qs \<inter> R = {}"
    using assms(1) by (auto simp: st_owns_def)
  obtain p ps where q: "qs = p # ps" using qs(1) by (cases qs) (auto simp: st_rep_def)
  obtain s' h' where h': "st_pop (fst s) (snd s) = Inr (Some x, s', h')" "st_rep h' s' ps xs"
    "room h' = Suc (room (snd s))" "live h' = live (snd s) - {p}"
    by (rule st_pop_rep [OF qs(1) [unfolded q]])
  have "distinct qs" using qs(1) by (auto simp: st_rep_def dest: chain_distinct)
  then have "st_owns R (s', h') xs" unfolding st_owns_def using h' qs(2,3) q by (intro exI [of _ ps]) auto
  then show ?thesis using h' by (simp add: st_take_def st_space_def)
qed

lemma st_take_empty: "st_owns R s [] \<Longrightarrow> st_take s = Inr (None, s)"
  by (cases s) (auto simp: st_owns_def st_rep_def st_take_def st_pop_def)

interpretation sts: bounded_stack "st_owns R" st_space "st_put dflt" st_take for R dflt
  by unfold_locales (rule st_put_owns st_take_owns; assumption | simp add: st_take_empty)+

section \<open>Properties\<close>

definition exs_heap :: "nat slink heap" where
  "exs_heap = \<lparr>mem = [Obj \<lparr>sdata = 10, snext = NULL\<rparr>, Obj \<lparr>sdata = 20, snext = 1\<rparr>], room = 3\<rparr>"

definition exs :: stack where "exs = \<lparr>st_head = 2, st_cnt = 2\<rparr>"

lemma exs_rep: "st_rep exs_heap exs [2, 1] [20, 10]"
  by (simp add: st_rep_def exs_def exs_heap_def cell_at_def obj_at_def nth_Cons')

lemma exs_owns: "st_owns {} (exs, exs_heap) [20, 10]"
proof -
  have "heap_size exs_heap = 2" by (simp add: exs_heap_def)
  moreover have "{1..2 :: nat} = {2, 1}" by auto
  ultimately have "live exs_heap \<subseteq> {2, 1}" using live_bounds [of exs_heap] by simp
  moreover have "{2, 1} \<subseteq> live exs_heap" by (simp add: live_iff exs_heap_def cell_at_def nth_Cons')
  ultimately have "live exs_heap = set [2, 1] \<union> {}" by auto
  then show ?thesis unfolding st_owns_def fst_conv snd_conv using exs_rep by blast
qed

text \<open>A Stack is a last-in first-out stack: every sequence of \<open>push\<close> and \<open>pop\<close> with memory for its
  pushes runs without a fault and returns what the same calls on a list return; the destructor then
  frees every link that is left, and nothing else.\<close>
theorem stack_refines_list:
  assumes "st_owns R s xs" and "pushed ops \<le> st_space s"
  shows "holds (run_sops (st_put dflt) st_take ops s) (\<lambda>(rs, s'). \<exists>ys. list_sops ops xs = (rs, ys) \<and> st_owns R s' ys
    \<and> holds (st_destroy (fst s') (snd s')) (\<lambda>h. live h = R \<and> room h = st_space s + length xs))"
proof (rule holds_mono [OF sts.run_list_sops [OF assms]])
  fix v :: "'a option list \<times> 'a st_state"
  obtain rs s' where v: "v = (rs, s')" by (cases v)
  assume "case v of (rs, s') \<Rightarrow> \<exists>ys. list_sops ops xs = (rs, ys) \<and> st_owns R s' ys \<and>
    st_space s' + length ys = st_space s + length xs"
  then obtain ys where ys: "list_sops ops xs = (rs, ys)" "st_owns R s' ys"
    "st_space s' + length ys = st_space s + length xs" by (auto simp: v)
  obtain ps where ps: "st_rep (snd s') (fst s') ps ys" "live (snd s') = set ps \<union> R" "set ps \<inter> R = {}"
    using ys(2) by (auto simp: st_owns_def)
  obtain h where "st_cleanup (fst s') (snd s') = Inr ((fst s')\<lparr>st_head := NULL, st_cnt := 0\<rparr>, h)"
    "room h = room (snd s') + length ys" "live h = live (snd s') - set ps" by (rule st_cleanup_rep [OF ps(1)])
  then have "holds (st_destroy (fst s') (snd s')) (\<lambda>h. live h = R \<and> room h = st_space s + length xs)"
    using ps ys(3) by (auto simp: st_destroy_def st_space_def)
  then show "case v of (rs, s') \<Rightarrow> \<exists>ys. list_sops ops xs = (rs, ys) \<and> st_owns R s' ys
    \<and> holds (st_destroy (fst s') (snd s')) (\<lambda>h. live h = R \<and> room h = st_space s + length xs)"
    using ys(1,2) by (simp add: v)
qed

theorem stack_refines_list_witness:
  "holds (run_sops (st_put 0) st_take [Push 30, Pop, Pop] (exs, exs_heap))
    (\<lambda>(rs, s'). \<exists>ys. list_sops [Push 30, Pop, Pop] [20, 10] = (rs, ys) \<and> st_owns {} s' ys
    \<and> holds (st_destroy (fst s') (snd s')) (\<lambda>h. live h = {} \<and> room h = 5))"
  using stack_refines_list [OF exs_owns, of "[Push 30, Pop, Pop]" 0] by (simp add: st_space_def exs_heap_def)

text \<open>A Stack must not be copied: the copy shares the links, so once one of the two is destroyed the
  destructor of the other reads a freed link.\<close>
theorem stack_copy_destroyed_twice:
  assumes "st_rep h s ps xs" and "xs \<noteq> []"
  shows "holds (st_destroy (st_copy s) h) (\<lambda>h'. st_destroy s h' = Inl Dangling)"
proof -
  obtain h' where h': "st_cleanup s h = Inr (s\<lparr>st_head := NULL, st_cnt := 0\<rparr>, h')"
    "\<forall>p \<in> set ps. cell_at h' p = Freed" by (rule st_cleanup_rep [OF assms(1)])
  obtain p qs where p: "ps = p # qs" using assms by (cases ps) (auto simp: st_rep_def)
  have ch: "chain snext h (st_head s) ps NULL" using assms(1) by (simp add: st_rep_def)
  have hd: "st_head s = p" "0 < p" using ch p chain_start [of snext h "st_head s" p qs NULL] by auto
  have "free_all snext h (st_head s) = Inr h'" using h'(1) by (auto simp: st_cleanup_def bindE_eq_Inr)
  then have "heap_size h' = heap_size h" using free_all_chain [OF ch] by auto
  moreover have "0 < heap_size h" using chain_length [OF ch] p by (cases "heap_size h") simp_all
  ultimately obtain k where "heap_size h' = Suc k" using gr0_implies_Suc by metis
  then have "free_all snext h' p = Inl Dangling"
    using hd h'(2) p by (simp add: free_all_def load_def)
  then show ?thesis using h'(1) hd(1) by (simp add: st_destroy_def st_copy_def st_cleanup_def)
qed

theorem stack_copy_destroyed_twice_witness:
  "holds (st_destroy (st_copy exs) exs_heap) (\<lambda>h'. st_destroy exs h' = Inl Dangling)"
  by (rule stack_copy_destroyed_twice [OF exs_rep]) simp

end
