(* ===== verification/TW_Array.thy ===== *)
theory TW_Array
  imports TW_Heap
begin

text \<open>
  The class DynArray of include/TW/tw_array.h: an array that grows with \<^verbatim>\<open>realloc\<close>. A block of the heap
  is the list of its slots; a slot no value has been stored in is \<open>None\<close>. The allocator is the one of
  \<^verbatim>\<open>Alloc_Std\<close> over glibc; the allocator pointer of the class chooses between two names of the same functions
  and is left out. \<open>esz\<close> is \<^verbatim>\<open>sizeof(T)\<close>.
\<close>

section \<open>Blocks\<close>

type_synonym 'a blocks = "'a option list heap"

text \<open>The size in bytes is computed as a \<^verbatim>\<open>size_t\<close> and passed as a \<^verbatim>\<open>tw_size\<close>, which is \<^verbatim>\<open>int\<close>. A negative size is
  more than there is when the C library has made a \<^verbatim>\<open>size_t\<close> of it.\<close>

definition da_bytes :: "nat \<Rightarrow> int \<Rightarrow> int" where
  "da_bytes esz n = tw_size (int esz * n)"

definition block_malloc :: "nat \<Rightarrow> int \<Rightarrow> 'a blocks \<Rightarrow> ptr \<times> 'a blocks" where
  "block_malloc esz b h = (if b < 0 then (NULL, h) else
     case malloc h of (p, h) \<Rightarrow>
       if p = NULL then (NULL, h) else (p, put_cell p (Obj (replicate (nat b div esz) None)) h))"

text \<open>\<^verbatim>\<open>realloc(p, 0)\<close> frees the block and returns null; a \<open>realloc\<close> that fails leaves the block alone.\<close>

definition block_realloc :: "nat \<Rightarrow> ptr \<Rightarrow> int \<Rightarrow> 'a blocks \<Rightarrow> (ptr \<times> 'a blocks) res" where
  "block_realloc esz p b h = (if p = NULL then Inr (block_malloc esz b h)
     else if b = 0 then bindE (free p h) (\<lambda>h. Inr (NULL, h))
     else bindE (load p h) (\<lambda>xs.
       case block_malloc esz b h of (q, h) \<Rightarrow>
         if q = NULL then Inr (NULL, h) else
         bindE (modify q (\<lambda>ns. take (length ns) xs @ drop (length xs) ns) h) (\<lambda>h.
         bindE (free p h) (\<lambda>h. Inr (q, h)))))"

definition block_get :: "ptr \<Rightarrow> int \<Rightarrow> 'a blocks \<Rightarrow> 'a res" where
  "block_get p i h = bindE (load p h) (\<lambda>xs. if 0 \<le> i \<and> i < int (length xs)
     then (case xs ! nat i of None \<Rightarrow> Inl Uninit | Some v \<Rightarrow> Inr v) else Inl OutOfBounds)"

definition block_set :: "ptr \<Rightarrow> int \<Rightarrow> 'a \<Rightarrow> 'a blocks \<Rightarrow> 'a blocks res" where
  "block_set p i v h = bindE (load p h) (\<lambda>xs. if 0 \<le> i \<and> i < int (length xs)
     then Inr (put_cell p (Obj (xs[nat i := Some v])) h) else Inl OutOfBounds)"

text \<open>\<open>memcpy\<close> and \<open>memmove\<close> of \<open>n\<close> elements (what distinguishes them is overlap, which \<open>memmove\<close> alone is
  used for), and \<open>memset\<close> with \<open>z\<close> the value whose bytes are 0.\<close>

definition block_copy :: "ptr \<Rightarrow> int \<Rightarrow> ptr \<Rightarrow> int \<Rightarrow> int \<Rightarrow> 'a blocks \<Rightarrow> 'a blocks res" where
  "block_copy p i q j n h = (if n = 0 then Inr h else
     bindE (load q h) (\<lambda>src. bindE (load p h) (\<lambda>dst.
     if 0 \<le> i \<and> 0 \<le> j \<and> 0 \<le> n \<and> i + n \<le> int (length dst) \<and> j + n \<le> int (length src)
     then Inr (put_cell p (Obj (take (nat i) dst @ take (nat n) (drop (nat j) src) @ drop (nat (i + n)) dst)) h)
     else Inl OutOfBounds)))"

definition block_fill :: "ptr \<Rightarrow> int \<Rightarrow> int \<Rightarrow> 'a \<Rightarrow> 'a blocks \<Rightarrow> 'a blocks res" where
  "block_fill p i n z h = (if n = 0 then Inr h else
     bindE (load p h) (\<lambda>dst. if 0 \<le> i \<and> 0 \<le> n \<and> i + n \<le> int (length dst)
     then Inr (put_cell p (Obj (take (nat i) dst @ replicate (nat n) (Some z) @ drop (nat (i + n)) dst)) h)
     else Inl OutOfBounds))"

section \<open>The class\<close>

record darr =
  da_array :: ptr
  da_size :: int

definition da_setup :: "nat \<Rightarrow> darr \<Rightarrow> 'a blocks \<Rightarrow> darr \<times> 'a blocks" where
  "da_setup esz a h = (case block_malloc esz (da_bytes esz (da_size a)) h of (p, h) \<Rightarrow> (a\<lparr>da_array := p\<rparr>, h))"

definition da_new :: darr where
  "da_new = \<lparr>da_array = NULL, da_size = 0\<rparr>"

definition da_new_size :: "nat \<Rightarrow> int \<Rightarrow> 'a blocks \<Rightarrow> darr \<times> 'a blocks" where
  "da_new_size esz n h = da_setup esz \<lparr>da_array = NULL, da_size = n\<rparr> h"

definition da_copy :: "nat \<Rightarrow> darr \<Rightarrow> 'a blocks \<Rightarrow> (darr \<times> 'a blocks) res" where
  "da_copy esz ob h = (case da_setup esz \<lparr>da_array = NULL, da_size = da_size ob\<rparr> h of (a, h) \<Rightarrow>
     bindE (block_copy (da_array a) 0 (da_array ob) 0 (da_size ob) h) (\<lambda>h. Inr (a, h)))"

definition da_zeroArray :: "'a \<Rightarrow> darr \<Rightarrow> 'a blocks \<Rightarrow> 'a blocks res" where
  "da_zeroArray z a h = block_fill (da_array a) 0 (da_size a) z h"

definition da_get :: "int \<Rightarrow> darr \<Rightarrow> 'a blocks \<Rightarrow> 'a option res" where
  "da_get loc a h = (if loc < da_size a then bindE (block_get (da_array a) loc h) (\<lambda>v. Inr (Some v)) else Inr None)"

text \<open>\<open>putByRef\<close> and \<open>put\<close>.\<close>

definition da_put :: "int \<Rightarrow> 'a \<Rightarrow> darr \<Rightarrow> 'a blocks \<Rightarrow> (bool \<times> 'a blocks) res" where
  "da_put loc v a h = (if loc < da_size a then bindE (block_set (da_array a) loc v h) (\<lambda>h. Inr (True, h)) else Inr (False, h))"

definition da_size_of :: "darr \<Rightarrow> int" where
  "da_size_of a = da_size a"

definition da_resize :: "nat \<Rightarrow> 'a \<Rightarrow> int \<Rightarrow> bool \<Rightarrow> darr \<Rightarrow> 'a blocks \<Rightarrow> (darr \<times> 'a blocks) res" where
  "da_resize esz z n zeroout a h = (let olds = da_size a; a = a\<lparr>da_size := n\<rparr> in
     bindE (block_realloc esz (da_array a) (da_bytes esz (da_size a)) h) (\<lambda>(p, h).
     let a = a\<lparr>da_array := p\<rparr> in
     if olds < da_size a \<and> zeroout
     then bindE (block_fill (da_array a) olds (da_size a - olds) z h) (\<lambda>h. Inr (a, h))
     else Inr (a, h)))"

text \<open>The second argument \<open>zeroout\<close> of \<open>resize\<close> has the default value false.\<close>

definition da_addToEnd :: "nat \<Rightarrow> 'a \<Rightarrow> 'a \<Rightarrow> darr \<Rightarrow> 'a blocks \<Rightarrow> (darr \<times> 'a blocks) res" where
  "da_addToEnd esz z v a h = (let a = a\<lparr>da_size := da_size a + 1\<rparr> in
     bindE (da_resize esz z (da_size a) False a h) (\<lambda>(a, h).
     bindE (block_set (da_array a) (da_size a - 1) v h) (\<lambda>h. Inr (a, h))))"

definition da_addArrayToEnd :: "nat \<Rightarrow> 'a \<Rightarrow> darr \<Rightarrow> darr \<Rightarrow> 'a blocks \<Rightarrow> (darr \<times> 'a blocks) res" where
  "da_addArrayToEnd esz z ob a h = (if da_size ob > 0 then
     let olds = da_size a; a = a\<lparr>da_size := da_size a + da_size ob\<rparr> in
     bindE (da_resize esz z (da_size a) False a h) (\<lambda>(a, h).
     bindE (block_copy (da_array a) olds (da_array ob) 0 (da_size ob) h) (\<lambda>h. Inr (a, h)))
     else Inr (a, h))"

text \<open>The same with the array itself as the argument: \<^verbatim>\<open>o._array\<close> and \<^verbatim>\<open>o._size\<close> are those of the grown array.\<close>

definition da_addSelfToEnd :: "nat \<Rightarrow> 'a \<Rightarrow> darr \<Rightarrow> 'a blocks \<Rightarrow> (darr \<times> 'a blocks) res" where
  "da_addSelfToEnd esz z a h = (if da_size a > 0 then
     let olds = da_size a; a = a\<lparr>da_size := da_size a + da_size a\<rparr> in
     bindE (da_resize esz z (da_size a) False a h) (\<lambda>(a, h).
     bindE (block_copy (da_array a) olds (da_array a) 0 (da_size a) h) (\<lambda>h. Inr (a, h)))
     else Inr (a, h))"

definition da_insert :: "nat \<Rightarrow> 'a \<Rightarrow> int \<Rightarrow> darr \<Rightarrow> darr \<Rightarrow> 'a blocks \<Rightarrow> (darr \<times> 'a blocks) res" where
  "da_insert esz z loc ob a h = (if da_size ob > 0 then
     let olds = da_size a; a = a\<lparr>da_size := da_size a + da_size ob\<rparr> in
     bindE (da_resize esz z (da_size a) False a h) (\<lambda>(a, h).
     bindE (block_copy (da_array a) (loc + da_size ob) (da_array a) loc (olds - loc) h) (\<lambda>h.
     bindE (block_copy (da_array a) loc (da_array ob) 0 (da_size ob) h) (\<lambda>h. Inr (a, h))))
     else Inr (a, h))"

definition da_destroy :: "darr \<Rightarrow> 'a blocks \<Rightarrow> 'a blocks res" where
  "da_destroy a h = (if da_array a \<noteq> NULL then free (da_array a) h else Inr h)"

definition da_assign :: "nat \<Rightarrow> darr \<Rightarrow> darr \<Rightarrow> 'a blocks \<Rightarrow> (darr \<times> 'a blocks) res" where
  "da_assign esz a ob h = bindE (if da_array a \<noteq> NULL then free (da_array a) h else Inr h) (\<lambda>h.
     case da_setup esz (a\<lparr>da_size := da_size ob\<rparr>) h of (a, h) \<Rightarrow>
     bindE (block_copy (da_array a) 0 (da_array ob) 0 (da_size ob) h) (\<lambda>h. Inr (a, h)))"

definition da_assign_self :: "nat \<Rightarrow> darr \<Rightarrow> 'a blocks \<Rightarrow> (darr \<times> 'a blocks) res" where
  "da_assign_self esz a h = bindE (if da_array a \<noteq> NULL then free (da_array a) h else Inr h) (\<lambda>h.
     case da_setup esz a h of (a, h) \<Rightarrow>
     bindE (block_copy (da_array a) 0 (da_array a) 0 (da_size a) h) (\<lambda>h. Inr (a, h)))"

section \<open>The list an array represents\<close>

definition da_rep :: "'a blocks \<Rightarrow> darr \<Rightarrow> 'a option list \<Rightarrow> bool" where
  "da_rep h a xs \<longleftrightarrow> da_size a = int (length xs)
     \<and> (if da_array a = NULL then xs = [] else cell_at h (da_array a) = Obj xs)"

definition da_cells :: "darr \<Rightarrow> ptr set" where
  "da_cells a = (if da_array a = NULL then {} else {da_array a})"

text \<open>Sizes that neither the computation of the bytes nor the \<^verbatim>\<open>int\<close> truncates.\<close>

definition da_fits :: "nat \<Rightarrow> nat \<Rightarrow> bool" where
  "da_fits esz n \<longleftrightarrow> 0 < esz \<and> esz * n < 2 ^ 31"

lemma da_bytes_fits:
  assumes "da_fits esz n"
  shows "da_bytes esz (int n) = int (esz * n)" and "nat (da_bytes esz (int n)) div esz = n"
    and "da_bytes esz (int n) = 0 \<longleftrightarrow> n = 0" and "0 \<le> da_bytes esz (int n)"
proof -
  have b: "int (esz * n) < 2 ^ 31" using assms by (simp add: da_fits_def) (metis of_nat_less_numeral_iff of_nat_mult)
  have e: "0 < esz" using assms by (simp add: da_fits_def)
  have "sint (word_of_int (int (esz * n)) :: 32 word) = int (esz * n)"
    by (subst sint_sbintrunc', subst signed_take_bit_int_eq_self) (use b in \<open>simp_all del: of_nat_mult\<close>)
  then show 1: "da_bytes esz (int n) = int (esz * n)" by (simp add: da_bytes_def tw_size_def)
  show "nat (da_bytes esz (int n)) div esz = n" unfolding 1 nat_int using e by simp
  show "da_bytes esz (int n) = 0 \<longleftrightarrow> n = 0" unfolding 1 nat_int using e by simp
  show "0 \<le> da_bytes esz (int n)" unfolding 1 by simp
qed

lemma block_malloc_fits:
  assumes "da_fits esz n" and "0 < room h"
  shows "block_malloc esz (da_bytes esz (int n)) h = (Suc (heap_size h), new_obj (replicate n None) h)"
  using da_bytes_fits [OF assms(1)] assms(2)
  by (simp add: block_malloc_def malloc_ok new_obj_def del: of_nat_mult)

text \<open>What a \<open>realloc\<close> that finds room does.\<close>

definition resized :: "nat \<Rightarrow> 'a option list \<Rightarrow> 'a option list" where
  "resized n xs = take n xs @ replicate (n - length xs) None"

lemma length_resized [simp]: "length (resized n xs) = n"
  by (simp add: resized_def)

lemma da_rep_frame:
  "da_rep h a xs \<Longrightarrow> (\<And>q. q \<in> da_cells a \<Longrightarrow> cell_at h' q = cell_at h q) \<Longrightarrow> da_rep h' a xs"
  by (auto simp: da_rep_def da_cells_def split: if_splits)

lemma da_cells_live: "da_rep h a xs \<Longrightarrow> da_cells a \<subseteq> live h"
  by (auto simp: da_rep_def da_cells_def live_iff)

lemma block_realloc_fits:
  assumes rep: "da_rep h a xs" and fits: "da_fits esz n" and room: "0 < room h"
  obtains p h' where "block_realloc esz (da_array a) (da_bytes esz (int n)) h = Inr (p, h')"
    and "da_rep h' \<lparr>da_array = p, da_size = int n\<rparr> (resized n xs)"
    and "room h' + (if p = NULL then 0 else 1) = room h + (if da_array a = NULL then 0 else 1)"
    and "live h' = (live h - da_cells a) \<union> (if p = NULL then {} else {p})"
    and "p \<noteq> NULL \<longrightarrow> p = Suc (heap_size h)" and "same_outside (da_cells a \<union> {Suc (heap_size h)}) h h'"
proof (cases "da_array a = NULL")
  case True
  let ?n = "Suc (heap_size h)" and ?h = "new_obj (replicate n None) h"
  have xs: "xs = []" using rep True by (simp add: da_rep_def)
  show ?thesis
    by (rule that [of ?n ?h])
      (use True block_malloc_fits [OF fits room] xs room in
        \<open>simp_all add: block_realloc_def da_rep_def cell_at_new resized_def live_new da_cells_def same_outside_def\<close>)
next
  case False
  let ?a = "da_array a"
  have c: "cell_at h ?a = Obj xs" using rep False by (simp add: da_rep_def)
  show ?thesis
  proof (cases "n = 0")
    case True
    let ?h = "(put_cell ?a Freed h)\<lparr>room := Suc (room h)\<rparr>"
    show ?thesis
      by (rule that [of NULL ?h])
        (use False True c da_bytes_fits [OF fits] in
          \<open>auto simp: block_realloc_def free_ok da_rep_def resized_def live_put_Freed da_cells_def same_outside_def cell_at_put\<close>)
  next
    case n: False
    let ?n = "Suc (heap_size h)" and ?h = "new_obj (replicate n None) h"
    have na: "?a \<noteq> ?n" using c by auto
    let ?h1 = "put_cell ?n (Obj (resized n xs)) ?h"
    have c1: "cell_at ?h1 q = (if q = ?n then Obj (resized n xs) else cell_at h q)" for q
      by (simp add: cell_at_put cell_at_new)
    define h2 where "h2 = (put_cell ?a Freed ?h1)\<lparr>room := Suc (room ?h1)\<rparr>"
    have c2: "cell_at h2 q = (if q = ?a then Freed else cell_at ?h1 q)" for q
      using c na by (simp add: h2_def cell_at_put c1)
    have r2: "room h2 = Suc (room ?h1)" by (simp add: h2_def)
    have "modify ?n (\<lambda>ns. take (length ns) xs @ drop (length xs) ns) ?h = Inr ?h1"
      by (simp add: modify_Obj [of _ _ "replicate n None"] cell_at_new resized_def)
    moreover have "free ?a ?h1 = Inr h2" using c na by (simp add: free_ok c1 h2_def)
    ultimately have run: "block_realloc esz ?a (da_bytes esz (int n)) h = Inr (?n, h2)"
      using False n c da_bytes_fits(3) [OF fits] block_malloc_fits [OF fits room] by (simp add: block_realloc_def)
    have "live h2 = (live h - {?a}) \<union> {?n}" using na by (auto simp: live_iff c2 c1 split: if_splits)
    moreover have "da_rep h2 \<lparr>da_array = ?n, da_size = int n\<rparr> (resized n xs)"
      using na by (simp add: da_rep_def c2 c1)
    moreover have "same_outside (da_cells a \<union> {?n}) h h2" using False by (simp add: same_outside_def c2 c1 da_cells_def)
    ultimately show ?thesis using that [OF run] False room r2 by (simp add: da_cells_def)
  qed
qed

end
