(* ===== verification/TW_ArrayOps.thy ===== *)
theory TW_ArrayOps
  imports TW_Array
begin

text \<open>What every operation of DynArray does to the list the array represents, and the properties.\<close>

section \<open>Sequences of calls\<close>

text \<open>The arguments that are arrays are one other array \<open>ob\<close>.\<close>

datatype 'a acmd = AGet int | APut int 'a | AAdd 'a | AAddArray | AInsert int | AResize int bool | AZero | ASize | AAssign

datatype 'a ares = AVal 'a | ABool bool | AInt int | AVoid

type_synonym 'a da_state = "darr \<times> darr \<times> 'a blocks"

fun da_step :: "nat \<Rightarrow> 'a \<Rightarrow> 'a acmd \<Rightarrow> 'a da_state \<Rightarrow> ('a ares \<times> 'a da_state) res" where
  "da_step esz z (AGet i) (a, ob, h) = bindE (da_get i a h) (\<lambda>r.
     Inr (case r of None \<Rightarrow> ABool False | Some v \<Rightarrow> AVal v, a, ob, h))"
| "da_step esz z (APut i v) (a, ob, h) = bindE (da_put i v a h) (\<lambda>(r, h). Inr (ABool r, a, ob, h))"
| "da_step esz z (AAdd v) (a, ob, h) = bindE (da_addToEnd esz z v a h) (\<lambda>(a, h). Inr (AVoid, a, ob, h))"
| "da_step esz z AAddArray (a, ob, h) = bindE (da_addArrayToEnd esz z ob a h) (\<lambda>(a, h). Inr (AVoid, a, ob, h))"
| "da_step esz z (AInsert i) (a, ob, h) = bindE (da_insert esz z i ob a h) (\<lambda>(a, h). Inr (AVoid, a, ob, h))"
| "da_step esz z (AResize n zo) (a, ob, h) = bindE (da_resize esz z n zo a h) (\<lambda>(a, h). Inr (AVoid, a, ob, h))"
| "da_step esz z AZero (a, ob, h) = bindE (da_zeroArray z a h) (\<lambda>h. Inr (AVoid, a, ob, h))"
| "da_step esz z ASize (a, ob, h) = Inr (AInt (da_size_of a), a, ob, h)"
| "da_step esz z AAssign (a, ob, h) = bindE (da_assign esz a ob h) (\<lambda>(a, h). Inr (AVoid, a, ob, h))"

fun da_run :: "nat \<Rightarrow> 'a \<Rightarrow> 'a acmd list \<Rightarrow> 'a da_state \<Rightarrow> ('a ares list \<times> 'a da_state) res" where
  "da_run esz z [] s = Inr ([], s)"
| "da_run esz z (c # cs) s = bindE (da_step esz z c s) (\<lambda>(r, s).
     bindE (da_run esz z cs s) (\<lambda>(rs, s). Inr (r # rs, s)))"

text \<open>The same on lists: a slot without a value is \<open>None\<close>.\<close>

definition list_resize :: "'a option \<Rightarrow> nat \<Rightarrow> 'a option list \<Rightarrow> 'a option list" where
  "list_resize d n xs = take n xs @ replicate (n - length xs) d"

fun list_astep :: "'a \<Rightarrow> 'a option list \<Rightarrow> 'a acmd \<Rightarrow> 'a option list \<Rightarrow> 'a ares \<times> 'a option list" where
  "list_astep z ys (AGet i) xs = (if i < int (length xs) then AVal (the (xs ! nat i)) else ABool False, xs)"
| "list_astep z ys (APut i v) xs = (ABool (i < int (length xs)), if i < int (length xs) then xs[nat i := Some v] else xs)"
| "list_astep z ys (AAdd v) xs = (AVoid, xs @ [Some v])"
| "list_astep z ys AAddArray xs = (AVoid, xs @ ys)"
| "list_astep z ys (AInsert i) xs = (AVoid, take (nat i) xs @ ys @ drop (nat i) xs)"
| "list_astep z ys (AResize n zo) xs = (AVoid, list_resize (if zo then Some z else None) (nat n) xs)"
| "list_astep z ys AZero xs = (AVoid, replicate (length xs) (Some z))"
| "list_astep z ys ASize xs = (AInt (int (length xs)), xs)"
| "list_astep z ys AAssign xs = (AVoid, ys)"

text \<open>When the sizes of a call are in order: the allocator's \<^verbatim>\<open>int\<close> holds the bytes of the array it makes. When its indices are: no
  negative index, no read of a slot without a value, no insertion of elements beyond the end (the code moves a negative number of them).\<close>

fun acmd_sized :: "nat \<Rightarrow> 'a option list \<Rightarrow> 'a acmd \<Rightarrow> 'a option list \<Rightarrow> bool" where
  "acmd_sized esz ys (AAdd v) xs \<longleftrightarrow> da_fits esz (length xs + 1)"
| "acmd_sized esz ys AAddArray xs \<longleftrightarrow> da_fits esz (length xs + length ys)"
| "acmd_sized esz ys (AInsert i) xs \<longleftrightarrow> da_fits esz (length xs + length ys)"
| "acmd_sized esz ys (AResize n zo) xs \<longleftrightarrow> 0 \<le> n \<and> da_fits esz (nat n)"
| "acmd_sized esz ys AAssign xs \<longleftrightarrow> da_fits esz (length ys)"
| "acmd_sized esz ys c xs \<longleftrightarrow> True"

fun acmd_indexed :: "'a option list \<Rightarrow> 'a acmd \<Rightarrow> 'a option list \<Rightarrow> bool" where
  "acmd_indexed ys (AGet i) xs \<longleftrightarrow> int (length xs) \<le> i \<or> 0 \<le> i \<and> xs ! nat i \<noteq> None"
| "acmd_indexed ys (APut i v) xs \<longleftrightarrow> 0 \<le> i"
| "acmd_indexed ys (AInsert i) xs \<longleftrightarrow> ys = [] \<or> 0 \<le> i \<and> i \<le> int (length xs)"
| "acmd_indexed ys c xs \<longleftrightarrow> True"

fun list_arun :: "'a \<Rightarrow> 'a option list \<Rightarrow> 'a acmd list \<Rightarrow> 'a option list \<Rightarrow> 'a ares list \<times> 'a option list" where
  "list_arun z ys [] xs = ([], xs)"
| "list_arun z ys (c # cs) xs = (let (r, xs) = list_astep z ys c xs; (rs, xs) = list_arun z ys cs xs in (r # rs, xs))"

text \<open>All calls up to the first whose indices are not in order; whether there is none.\<close>

fun acmds_sized :: "nat \<Rightarrow> 'a \<Rightarrow> 'a option list \<Rightarrow> 'a acmd list \<Rightarrow> 'a option list \<Rightarrow> bool" where
  "acmds_sized esz z ys [] xs \<longleftrightarrow> True"
| "acmds_sized esz z ys (c # cs) xs \<longleftrightarrow> acmd_sized esz ys c xs
     \<and> (if acmd_indexed ys c xs then acmds_sized esz z ys cs (snd (list_astep z ys c xs)) else True)"

fun acmds_indexed :: "'a \<Rightarrow> 'a option list \<Rightarrow> 'a acmd list \<Rightarrow> 'a option list \<Rightarrow> bool" where
  "acmds_indexed z ys [] xs \<longleftrightarrow> True"
| "acmds_indexed z ys (c # cs) xs \<longleftrightarrow> acmd_indexed ys c xs \<and> acmds_indexed z ys cs (snd (list_astep z ys c xs))"

section \<open>The invariant\<close>

text \<open>\<open>R\<close> is the memory of everything else, the other array included; \<open>r\<close> is the room there would be without
  the array.\<close>

definition da_inv :: "ptr set \<Rightarrow> nat \<Rightarrow> 'a option list \<Rightarrow> 'a da_state \<Rightarrow> 'a option list \<Rightarrow> bool" where
  "da_inv R r ys s xs \<longleftrightarrow> (case s of (a, ob, h) \<Rightarrow> da_rep h a xs \<and> da_rep h ob ys
     \<and> live h = da_cells a \<union> R \<and> da_cells a \<inter> R = {} \<and> da_cells ob \<subseteq> R
     \<and> room h + (if da_array a = NULL then 0 else 1) = r)"

lemma da_invD:
  assumes "da_inv R r ys (a, ob, h) xs"
  shows "da_rep h a xs" and "da_rep h ob ys" and "live h = da_cells a \<union> R" and "da_cells a \<inter> R = {}"
    and "da_cells ob \<subseteq> R" and "room h + (if da_array a = NULL then 0 else 1) = r"
    and "da_size a = int (length xs)" and "da_size ob = int (length ys)"
  using assms by (auto simp: da_inv_def da_rep_def)

lemma da_cells_size [simp]: "da_cells (a\<lparr>da_size := n\<rparr>) = da_cells a"
  by (simp add: da_cells_def)

text \<open>Overwriting the contents of the array's block.\<close>

lemma da_inv_write:
  assumes inv: "da_inv R r ys (a, ob, h) xs" and p: "da_array a \<noteq> NULL" and l: "length xs' = length xs"
  shows "da_inv R r ys (a, ob, put_cell (da_array a) (Obj xs') h) xs'"
proof -
  note d = da_invD [OF inv]
  let ?h = "put_cell (da_array a) (Obj xs') h"
  have c: "cell_at h (da_array a) = Obj xs" using d(1) p by (simp add: da_rep_def)
  then have at: "cell_at ?h q = (if q = da_array a then Obj xs' else cell_at h q)" for q by (simp add: cell_at_put)
  have "da_rep ?h ob ys"
    by (rule da_rep_frame [OF d(2)]) (use d(4,5) p in \<open>auto simp: at da_cells_def split: if_splits\<close>)
  moreover have "live ?h = live h" using c by (auto simp: live_iff at split: if_splits)
  ultimately show ?thesis
    unfolding da_inv_def using d at p l by (simp add: da_rep_def)
qed

lemma da_resize_size: "da_resize esz z n False (a\<lparr>da_size := m\<rparr>) h = da_resize esz z n False a h"
  by (simp add: da_resize_def Let_def)

lemma list_resize_None: "list_resize None n xs = resized n xs"
  by (simp add: list_resize_def resized_def)

lemma da_resize_inv:
  assumes inv: "da_inv R r ys (a, ob, h) xs" and fits: "da_fits esz n" and r: "2 \<le> r"
  obtains a' h' where "da_resize esz z (int n) False a h = Inr (a', h')"
    and "da_inv R r ys (a', ob, h') (resized n xs)" and "da_size a' = int n"
    and "0 < n \<longrightarrow> da_array a' \<noteq> NULL"
proof -
  note d = da_invD [OF inv]
  have room: "0 < room h" using d(6) r by (simp split: if_splits)
  obtain p h' where h': "block_realloc esz (da_array a) (da_bytes esz (int n)) h = Inr (p, h')"
    "da_rep h' \<lparr>da_array = p, da_size = int n\<rparr> (resized n xs)"
    "room h' + (if p = NULL then 0 else 1) = room h + (if da_array a = NULL then 0 else 1)"
    "live h' = (live h - da_cells a) \<union> (if p = NULL then {} else {p})"
    "p \<noteq> NULL \<longrightarrow> p = Suc (heap_size h)" "same_outside (da_cells a \<union> {Suc (heap_size h)}) h h'"
    by (rule block_realloc_fits [OF d(1) fits room])
  let ?a = "a\<lparr>da_size := int n, da_array := p\<rparr>"
  have n: "Suc (heap_size h) \<notin> R" using d(3) fresh_not_live [of h] by auto
  have rep: "da_rep h' ?a (resized n xs)" using h'(2) by (simp add: da_rep_def split: if_splits)
  have ob: "da_rep h' ob ys"
    by (rule da_rep_frame [OF d(2)], rule same_outsideD [OF h'(6)]) (use d(4,5) n in auto)
  have "da_inv R r ys (?a, ob, h') (resized n xs)"
    unfolding da_inv_def using rep ob h'(3-5) d(3-6) n by (auto simp: da_cells_def)
  moreover have "da_resize esz z (int n) False a h = Inr (?a, h')" using h'(1) by (simp add: da_resize_def Let_def)
  moreover have "0 < n \<longrightarrow> resized n xs \<noteq> []" by (simp flip: length_0_conv)
  then have "0 < n \<longrightarrow> da_array ?a \<noteq> NULL" using rep by (simp add: da_rep_def split: if_splits)
  ultimately show ?thesis using that [of ?a h'] by simp
qed

text \<open>\<open>memcpy\<close> from the other array, and \<open>memmove\<close> inside the array.\<close>

lemma block_copy_other:
  assumes inv: "da_inv R r ys (a, ob, h) xs" and p: "da_array a \<noteq> NULL" and i: "i + length ys \<le> length xs"
  obtains h' where "block_copy (da_array a) (int i) (da_array ob) 0 (da_size ob) h = Inr h'"
    and "da_inv R r ys (a, ob, h') (take i xs @ ys @ drop (i + length ys) xs)"
proof (cases "ys = []")
  case True
  then show ?thesis using that [of h] inv da_invD(8) [OF inv] by (simp add: block_copy_def)
next
  case False
  note d = da_invD [OF inv]
  have "cell_at h (da_array a) = Obj xs" "cell_at h (da_array ob) = Obj ys"
    using d(1,2) p False by (auto simp: da_rep_def split: if_splits)
  then have "block_copy (da_array a) (int i) (da_array ob) 0 (da_size ob) h
      = Inr (put_cell (da_array a) (Obj (take i xs @ ys @ drop (i + length ys) xs)) h)"
    using False i d(8) by (simp add: block_copy_def nat_add_distrib flip: of_nat_add)
  then show ?thesis by (rule that) (rule da_inv_write [OF inv p], use i in simp)
qed

lemma block_move_own:
  assumes inv: "da_inv R r ys (a, ob, h) xs" and p: "da_array a \<noteq> NULL"
    and i: "i + n \<le> length xs" "j + n \<le> length xs"
  obtains h' where "block_copy (da_array a) (int i) (da_array a) (int j) (int n) h = Inr h'"
    and "da_inv R r ys (a, ob, h') (take i xs @ take n (drop j xs) @ drop (i + n) xs)"
proof (cases "n = 0")
  case True
  then show ?thesis using that [of h] inv by (simp add: block_copy_def)
next
  case False
  note d = da_invD [OF inv]
  have "cell_at h (da_array a) = Obj xs" using d(1) p by (auto simp: da_rep_def)
  then have "block_copy (da_array a) (int i) (da_array a) (int j) (int n) h
      = Inr (put_cell (da_array a) (Obj (take i xs @ take n (drop j xs) @ drop (i + n) xs)) h)"
    using False i by (simp add: block_copy_def nat_add_distrib flip: of_nat_add)
  then show ?thesis by (rule that) (rule da_inv_write [OF inv p], use i in simp)
qed

lemma block_fill_own:
  assumes inv: "da_inv R r ys (a, ob, h) xs" and i: "i + n = length xs"
  obtains h' where "block_fill (da_array a) (int i) (int n) z h = Inr h'"
    and "da_inv R r ys (a, ob, h') (take i xs @ replicate n (Some z))"
proof (cases "n = 0")
  case True
  then show ?thesis using that [of h] inv i by (simp add: block_fill_def)
next
  case False
  note d = da_invD [OF inv]
  have p: "da_array a \<noteq> NULL" and c: "cell_at h (da_array a) = Obj xs"
    using d(1) i False by (auto simp: da_rep_def split: if_splits)
  then have "block_fill (da_array a) (int i) (int n) z h
      = Inr (put_cell (da_array a) (Obj (take i xs @ replicate n (Some z))) h)"
    using False i by (simp add: block_fill_def nat_add_distrib flip: of_nat_add)
  then show ?thesis by (rule that) (rule da_inv_write [OF inv p], use i in simp)
qed

section \<open>The operations\<close>

lemma da_get_step:
  assumes "da_inv R r ys (a, ob, h) xs" and "0 \<le> i" and "i < int (length xs) \<longrightarrow> xs ! nat i \<noteq> None"
  shows "da_get i a h = Inr (if i < int (length xs) then xs ! nat i else None)"
proof (cases "i < int (length xs)")
  case True
  then have "cell_at h (da_array a) = Obj xs"
    using da_invD(1) [OF assms(1)] assms(2) by (auto simp: da_rep_def split: if_splits)
  with True show ?thesis using assms da_invD(7) [OF assms(1)]
    by (auto simp: da_get_def block_get_def split: option.splits)
next
  case False
  then show ?thesis using da_invD(7) [OF assms(1)] by (simp add: da_get_def)
qed

lemma da_put_step:
  assumes "da_inv R r ys (a, ob, h) xs" and "0 \<le> i"
  obtains h' where "da_put i v a h = Inr (i < int (length xs), h')"
    and "da_inv R r ys (a, ob, h') (if i < int (length xs) then xs[nat i := Some v] else xs)"
proof (cases "i < int (length xs)")
  case True
  then have p: "da_array a \<noteq> NULL" and "cell_at h (da_array a) = Obj xs"
    using da_invD(1) [OF assms(1)] assms(2) by (auto simp: da_rep_def split: if_splits)
  then have "da_put i v a h = Inr (True, put_cell (da_array a) (Obj (xs[nat i := Some v])) h)"
    using True assms(2) da_invD(7) [OF assms(1)] by (simp add: da_put_def block_set_def)
  with True show ?thesis using that da_inv_write [OF assms(1) p, of "xs[nat i := Some v]"] by simp
next
  case False
  then show ?thesis using that [of h] da_invD(7) [OF assms(1)] assms(1) by (simp add: da_put_def)
qed

lemma da_addToEnd_step:
  assumes inv: "da_inv R r ys (a, ob, h) xs" and fits: "da_fits esz (length xs + 1)" and r: "2 \<le> r"
  obtains a' h' where "da_addToEnd esz z v a h = Inr (a', h')" and "da_inv R r ys (a', ob, h') (xs @ [Some v])"
proof -
  note d = da_invD [OF inv]
  obtain a1 h1 where h1: "da_resize esz z (int (length xs + 1)) False a h = Inr (a1, h1)"
    "da_inv R r ys (a1, ob, h1) (resized (length xs + 1) xs)" "da_size a1 = int (length xs + 1)"
    "0 < length xs + 1 \<longrightarrow> da_array a1 \<noteq> NULL"
    by (rule da_resize_inv [OF inv fits r])
  have p: "da_array a1 \<noteq> NULL" using h1(4) by simp
  have x1: "resized (length xs + 1) xs = xs @ [None]" by (simp add: resized_def)
  let ?h = "put_cell (da_array a1) (Obj (xs @ [Some v])) h1"
  have "cell_at h1 (da_array a1) = Obj (xs @ [None])"
    using da_invD(1) [OF h1(2)] p x1 by (simp add: da_rep_def)
  then have s: "block_set (da_array a1) (int (length xs)) v h1 = Inr ?h" by (simp add: block_set_def)
  have "da_addToEnd esz z v a h = Inr (a1, ?h)"
    using h1(1,3) s d(7) by (simp add: da_addToEnd_def Let_def da_resize_size add.commute)
  then show ?thesis by (rule that) (rule da_inv_write [OF h1(2) p], use x1 in simp)
qed

lemma da_addArrayToEnd_step:
  assumes inv: "da_inv R r ys (a, ob, h) xs" and fits: "da_fits esz (length xs + length ys)" and r: "2 \<le> r"
  obtains a' h' where "da_addArrayToEnd esz z ob a h = Inr (a', h')" and "da_inv R r ys (a', ob, h') (xs @ ys)"
proof (cases "ys = []")
  case True
  then show ?thesis using that [of a h] inv da_invD(8) [OF inv] by (simp add: da_addArrayToEnd_def)
next
  case False
  note d = da_invD [OF inv]
  let ?n = "length xs + length ys"
  obtain a1 h1 where h1: "da_resize esz z (int ?n) False a h = Inr (a1, h1)"
    "da_inv R r ys (a1, ob, h1) (resized ?n xs)" "da_size a1 = int ?n" "0 < ?n \<longrightarrow> da_array a1 \<noteq> NULL"
    by (rule da_resize_inv [OF inv fits r])
  have p: "da_array a1 \<noteq> NULL" using h1(4) False by simp
  have i: "length xs + length ys \<le> length (resized ?n xs)" by simp
  obtain h' where h': "block_copy (da_array a1) (int (length xs)) (da_array ob) 0 (da_size ob) h1 = Inr h'"
    "da_inv R r ys (a1, ob, h') (take (length xs) (resized ?n xs) @ ys @ drop ?n (resized ?n xs))"
    by (rule block_copy_other [OF h1(2) p i])
  have "da_addArrayToEnd esz z ob a h = Inr (a1, h')"
    using False h1(1) h'(1) d(7,8) by (simp add: da_addArrayToEnd_def Let_def da_resize_size)
  then show ?thesis by (rule that) (use h'(2) in \<open>simp add: resized_def\<close>)
qed

lemma da_insert_step:
  assumes inv: "da_inv R r ys (a, ob, h) xs" and i: "i \<le> length xs"
    and fits: "da_fits esz (length xs + length ys)" and r: "2 \<le> r"
  obtains a' h' where "da_insert esz z (int i) ob a h = Inr (a', h')"
    and "da_inv R r ys (a', ob, h') (take i xs @ ys @ drop i xs)"
proof (cases "ys = []")
  case True
  then show ?thesis using that [of a h] inv da_invD(8) [OF inv] by (simp add: da_insert_def)
next
  case False
  note d = da_invD [OF inv]
  let ?n = "length xs + length ys"
  obtain a1 h1 where h1: "da_resize esz z (int ?n) False a h = Inr (a1, h1)"
    "da_inv R r ys (a1, ob, h1) (resized ?n xs)" "da_size a1 = int ?n" "0 < ?n \<longrightarrow> da_array a1 \<noteq> NULL"
    by (rule da_resize_inv [OF inv fits r])
  have p: "da_array a1 \<noteq> NULL" using h1(4) False by simp
  let ?xs = "resized ?n xs" and ?k = "length xs - i"
  have le: "(i + length ys) + ?k \<le> length ?xs" "i + ?k \<le> length ?xs" using i by simp_all
  let ?ws = "take (i + length ys) ?xs @ take ?k (drop i ?xs) @ drop ((i + length ys) + ?k) ?xs"
  obtain h2 where h2: "block_copy (da_array a1) (int (i + length ys)) (da_array a1) (int i) (int ?k) h1 = Inr h2"
    "da_inv R r ys (a1, ob, h2) ?ws"
    by (rule block_move_own [OF h1(2) p le])
  have i2: "i + length ys \<le> length ?ws" using i by simp
  obtain h3 where h3: "block_copy (da_array a1) (int i) (da_array ob) 0 (da_size ob) h2 = Inr h3"
    "da_inv R r ys (a1, ob, h3) (take i ?ws @ ys @ drop (i + length ys) ?ws)"
    by (rule block_copy_other [OF h2(2) p i2])
  have "da_insert esz z (int i) ob a h = Inr (a1, h3)"
    using False h1(1) h2(1) h3(1) d(7,8) i by (simp add: da_insert_def Let_def da_resize_size of_nat_diff)
  moreover have "take i ?ws @ ys @ drop (i + length ys) ?ws = take i xs @ ys @ drop i xs"
    using i by (simp add: resized_def)
  ultimately show ?thesis using that h3(2) by simp
qed

lemma da_resize_step:
  assumes inv: "da_inv R r ys (a, ob, h) xs" and fits: "da_fits esz n" and r: "2 \<le> r"
  obtains a' h' where "da_resize esz z (int n) zo a h = Inr (a', h')"
    and "da_inv R r ys (a', ob, h') (list_resize (if zo then Some z else None) n xs)"
proof -
  note d = da_invD [OF inv]
  obtain a1 h1 where h1: "da_resize esz z (int n) False a h = Inr (a1, h1)"
    "da_inv R r ys (a1, ob, h1) (resized n xs)" "da_size a1 = int n" "0 < n \<longrightarrow> da_array a1 \<noteq> NULL"
    by (rule da_resize_inv [OF inv fits r])
  show ?thesis
  proof (cases "zo \<and> length xs < n")
    case True
    have i: "length xs + (n - length xs) = length (resized n xs)" using True by simp
    obtain h2 where h2: "block_fill (da_array a1) (int (length xs)) (int (n - length xs)) z h1 = Inr h2"
      "da_inv R r ys (a1, ob, h2) (take (length xs) (resized n xs) @ replicate (n - length xs) (Some z))"
      by (rule block_fill_own [OF h1(2) i])
    have "da_resize esz z (int n) zo a h = Inr (a1, h2)"
      using h1(1) h2(1) True d(7)
      by (auto simp: da_resize_def Let_def bindE_eq_Inr of_nat_diff)
    then show ?thesis by (rule that) (use h2(2) True in \<open>simp add: resized_def list_resize_def\<close>)
  next
    case False
    then have "da_resize esz z (int n) zo a h = Inr (a1, h1)"
      using h1(1) d(7) by (auto simp: da_resize_def Let_def bindE_eq_Inr)
    then show ?thesis by (rule that) (use h1(2) False in \<open>auto simp: resized_def list_resize_def\<close>)
  qed
qed

lemma da_assign_step:
  assumes inv: "da_inv R r ys (a, ob, h) xs" and fits: "da_fits esz (length ys)" and r: "2 \<le> r"
  obtains a' h' where "da_assign esz a ob h = Inr (a', h')" and "da_inv R r ys (a', ob, h') ys"
proof -
  note d = da_invD [OF inv]
  obtain h1 where h1: "(if da_array a \<noteq> NULL then free (da_array a) h else Inr h) = Inr h1"
    "room h1 = r" "same_outside (da_cells a) h h1" "live h1 = R"
  proof (cases "da_array a = NULL")
    case True
    then show ?thesis using that [of h] d(3,6) by (simp add: da_cells_def)
  next
    case False
    then have c: "cell_at h (da_array a) = Obj xs" using d(1) by (simp add: da_rep_def)
    have "live (put_cell (da_array a) Freed h) = R"
      using live_put_Freed [of h "da_array a"] c d(3,4) False by (auto simp: da_cells_def)
    then show ?thesis
      using that [of "(put_cell (da_array a) Freed h)\<lparr>room := Suc (room h)\<rparr>"] False c d(6)
      by (simp add: free_ok same_outside_def cell_at_put da_cells_def)
  qed
  let ?n = "Suc (heap_size h1)" and ?h2 = "new_obj (replicate (length ys) None) h1"
  let ?a = "a\<lparr>da_size := int (length ys), da_array := ?n\<rparr>"
  have room: "0 < room h1" using h1(2) r by simp
  have nR: "?n \<notin> R" using fresh_not_live [of h1] h1(4) by simp
  have "da_rep h1 ob ys"
    by (rule da_rep_frame [OF d(2)], rule same_outsideD [OF h1(3)]) (use d(4,5) in auto)
  then have ob: "da_rep ?h2 ob ys" by (rule da_rep_frame) (use d(5) nR in \<open>auto simp: cell_at_new\<close>)
  have inv2: "da_inv R r ys (?a, ob, ?h2) (replicate (length ys) None)"
    unfolding da_inv_def using ob h1(2,4) nR d(5) r
    by (auto simp: da_rep_def [of _ ?a] cell_at_new live_new da_cells_def [of ?a])
  have st: "da_setup esz (a\<lparr>da_size := int (length ys)\<rparr>) h1 = (?a, ?h2)"
    using block_malloc_fits [OF fits room] by (simp add: da_setup_def)
  have p: "da_array ?a \<noteq> NULL" and le: "0 + length ys \<le> length (replicate (length ys) None)" by simp_all
  obtain h3 where h3: "block_copy (da_array ?a) (int 0) (da_array ob) 0 (da_size ob) ?h2 = Inr h3"
    "da_inv R r ys (?a, ob, h3) (take 0 (replicate (length ys) None) @ ys @ drop (0 + length ys) (replicate (length ys) None))"
    by (rule block_copy_other [OF inv2 p le])
  have "da_assign esz a ob h = Inr (?a, h3)"
    using h1(1) st h3(1) d(8) by (simp add: da_assign_def split del: if_split)
  then show ?thesis by (rule that) (use h3(2) in simp)
qed

lemma da_step_inv:
  assumes inv: "da_inv R r ys s xs" and sz: "acmd_sized esz ys c xs" and ok: "acmd_indexed ys c xs" and r: "2 \<le> r"
  shows "\<exists>s'. da_step esz z c s = Inr (fst (list_astep z ys c xs), s') \<and> da_inv R r ys s' (snd (list_astep z ys c xs))"
proof -
  obtain a ob h where s: "s = (a, ob, h)" by (cases s)
  note inv = inv [unfolded s]
  show ?thesis
  proof (cases c)
    case (AGet i)
    then have i: "0 \<le> i" "i < int (length xs) \<longrightarrow> xs ! nat i \<noteq> None" using ok by auto
    show ?thesis using da_get_step [OF inv i] i inv AGet
      by (auto simp: s split: option.splits)
  next
    case (APut i v)
    then have "0 \<le> i" using ok by simp
    from da_put_step [OF inv this, of v] obtain h' where "da_put i v a h = Inr (i < int (length xs), h')"
      "da_inv R r ys (a, ob, h') (if i < int (length xs) then xs[nat i := Some v] else xs)" .
    then show ?thesis using APut by (simp add: s)
  next
    case (AAdd v)
    then have "da_fits esz (length xs + 1)" using sz by simp
    then obtain a' h' where "da_addToEnd esz z v a h = Inr (a', h')" "da_inv R r ys (a', ob, h') (xs @ [Some v])"
      by (rule da_addToEnd_step [OF inv _ r])
    then show ?thesis using AAdd by (simp add: s)
  next
    case AAddArray
    then have "da_fits esz (length xs + length ys)" using sz by simp
    then obtain a' h' where "da_addArrayToEnd esz z ob a h = Inr (a', h')" "da_inv R r ys (a', ob, h') (xs @ ys)"
      by (rule da_addArrayToEnd_step [OF inv _ r])
    then show ?thesis using AAddArray by (simp add: s)
  next
    case (AInsert i)
    show ?thesis
    proof (cases "ys = []")
      case True
      then have "da_insert esz z i ob a h = Inr (a, h)" using da_invD(8) [OF inv] by (simp add: da_insert_def)
      then show ?thesis using True inv AInsert by (simp add: s)
    next
      case False
      then obtain k where k: "i = int k" "k \<le> length xs" using ok AInsert by (auto dest: nonneg_int_cases)
      have "da_fits esz (length xs + length ys)" using AInsert sz by simp
      then obtain a' h' where "da_insert esz z (int k) ob a h = Inr (a', h')"
        "da_inv R r ys (a', ob, h') (take k xs @ ys @ drop k xs)"
        by (rule da_insert_step [OF inv k(2) _ r])
      then show ?thesis using AInsert k by (simp add: s)
    qed
  next
    case (AResize n zo)
    then obtain k where k: "n = int k" using sz by (auto dest: nonneg_int_cases)
    have "da_fits esz k" using AResize sz k by simp
    then obtain a' h' where "da_resize esz z (int k) zo a h = Inr (a', h')"
      "da_inv R r ys (a', ob, h') (list_resize (if zo then Some z else None) k xs)"
      by (rule da_resize_step [OF inv _ r])
    then show ?thesis using AResize k by (simp add: s)
  next
    case AZero
    have "0 + length xs = length xs" by simp
    then obtain h' where "block_fill (da_array a) (int 0) (int (length xs)) z h = Inr h'"
      "da_inv R r ys (a, ob, h') (take 0 xs @ replicate (length xs) (Some z))"
      by (rule block_fill_own [OF inv])
    then show ?thesis using AZero da_invD(7) [OF inv] by (simp add: s da_zeroArray_def)
  next
    case ASize
    then show ?thesis using da_invD(7) [OF inv] inv by (simp add: s da_size_of_def)
  next
    case AAssign
    then have "da_fits esz (length ys)" using sz by simp
    then obtain a' h' where "da_assign esz a ob h = Inr (a', h')" "da_inv R r ys (a', ob, h') ys"
      by (rule da_assign_step [OF inv _ r])
    then show ?thesis using AAssign by (simp add: s)
  qed
qed

text \<open>A call whose indices are not in order.\<close>

lemma da_insert_past:
  assumes inv: "da_inv R r ys (a, ob, h) xs" and fits: "da_fits esz (length xs + length ys)" and r: "2 \<le> r"
    and ys: "ys \<noteq> []" and i: "i < 0 \<or> int (length xs) < i"
  shows "da_insert esz z i ob a h = Inl OutOfBounds"
proof -
  note d = da_invD [OF inv]
  let ?n = "length xs + length ys"
  obtain a1 h1 where h1: "da_resize esz z (int ?n) False a h = Inr (a1, h1)"
    "da_inv R r ys (a1, ob, h1) (resized ?n xs)" "0 < ?n \<longrightarrow> da_array a1 \<noteq> NULL"
    by (rule da_resize_inv [OF inv fits r]) blast
  have "cell_at h1 (da_array a1) = Obj (resized ?n xs)"
    using da_invD(1) [OF h1(2)] h1(3) ys by (auto simp: da_rep_def)
  moreover have "int (length xs) - i \<noteq> 0" using i by auto
  ultimately have "block_copy (da_array a1) (i + int (length ys)) (da_array a1) i (int (length xs) - i) h1 = Inl OutOfBounds"
    using i by (auto simp: block_copy_def)
  then show ?thesis using h1(1) d(7,8) ys by (simp add: da_insert_def Let_def da_resize_size)
qed

lemma da_step_faults:
  assumes inv: "da_inv R r ys s xs" and sz: "acmd_sized esz ys c xs" and no: "\<not> acmd_indexed ys c xs" and r: "2 \<le> r"
  shows "\<exists>e. da_step esz z c s = Inl e"
proof -
  obtain a ob h where s: "s = (a, ob, h)" by (cases s)
  note d = da_invD [OF inv [unfolded s]]
  show ?thesis
  proof (cases c)
    case (AGet i)
    then have "i < int (length xs)" "0 \<le> i \<longrightarrow> xs ! nat i = None" using no by auto
    then show ?thesis using d(1,7) AGet
      by (auto simp: s da_get_def block_get_def da_rep_def split: if_splits)
  next
    case (APut i v)
    then show ?thesis using no d(1,7) by (auto simp: s da_put_def block_set_def da_rep_def split: if_splits)
  next
    case (AInsert i)
    then have "ys \<noteq> []" "i < 0 \<or> int (length xs) < i" "da_fits esz (length xs + length ys)" using no sz by auto
    then show ?thesis using da_insert_past [OF inv [unfolded s] _ r] AInsert by (simp add: s)
  qed (use no in simp_all)
qed

lemma da_run_inv:
  "da_inv R r ys s xs \<Longrightarrow> acmds_sized esz z ys cs xs \<Longrightarrow> 2 \<le> r \<Longrightarrow>
     if acmds_indexed z ys cs xs
     then \<exists>s'. da_run esz z cs s = Inr (fst (list_arun z ys cs xs), s') \<and> da_inv R r ys s' (snd (list_arun z ys cs xs))
     else \<exists>e. da_run esz z cs s = Inl e"
proof (induction cs arbitrary: s xs)
  case Nil
  then show ?case by simp
next
  case (Cons c cs)
  have sz: "acmd_sized esz ys c xs" using Cons.prems(2) by simp
  show ?case
  proof (cases "acmd_indexed ys c xs")
    case True
    from da_step_inv [OF Cons.prems(1) sz True Cons.prems(3)]
    obtain s1 where s1: "da_step esz z c s = Inr (fst (list_astep z ys c xs), s1)"
      "da_inv R r ys s1 (snd (list_astep z ys c xs))" by blast
    have "acmds_sized esz z ys cs (snd (list_astep z ys c xs))" using Cons.prems(2) True by simp
    from Cons.IH [OF s1(2) this Cons.prems(3)] s1(1) True show ?thesis by (auto split: prod.splits if_splits)
  next
    case False
    obtain e where "da_step esz z c s = Inl e" using da_step_faults [OF Cons.prems(1) sz False Cons.prems(3)] by blast
    then show ?thesis using False by simp
  qed
qed

lemma da_destroy_inv:
  assumes "da_inv R r ys (a, ob, h) xs"
  shows "holds (da_destroy a h) (\<lambda>h. live h = R \<and> room h = r)"
proof -
  note d = da_invD [OF assms]
  show ?thesis
  proof (cases "da_array a = NULL")
    case True
    then show ?thesis using d(3,6) by (simp add: da_destroy_def da_cells_def)
  next
    case False
    then have "cell_at h (da_array a) = Obj xs" using d(1) by (simp add: da_rep_def)
    then show ?thesis using False d(3,4,6) by (simp add: da_destroy_def free_ok live_put_Freed da_cells_def)
  qed
qed

section \<open>Properties\<close>

text \<open>Two arrays in one heap, to evaluate the operations on.\<close>

definition exa_heap :: "nat blocks" where
  "exa_heap = \<lparr>mem = [Obj [Some 1, Some 2, None], Obj [Some 7, Some 8]], room = 3\<rparr>"

definition exa :: darr where "exa = \<lparr>da_array = 1, da_size = 3\<rparr>"
definition exa_o :: darr where "exa_o = \<lparr>da_array = 2, da_size = 2\<rparr>"

lemma exa_inv: "da_inv {2} 4 [Some 7, Some 8] (exa, exa_o, exa_heap) [Some 1, Some 2, None]"
proof -
  have "heap_size exa_heap = 2" by (simp add: exa_heap_def)
  moreover have "{1..2 :: nat} = {1, 2}" by auto
  ultimately have "live exa_heap \<subseteq> {1, 2}" using live_bounds [of exa_heap] by simp
  moreover have "{1, 2} \<subseteq> live exa_heap" by (simp add: live_iff exa_heap_def cell_at_def nth_Cons')
  ultimately have "live exa_heap = {1, 2}" by auto
  then show ?thesis
    by (simp add: da_inv_def da_rep_def da_cells_def exa_def exa_o_def) (simp add: exa_heap_def cell_at_def nth_Cons' insert_commute)
qed

text \<open>C12. A DynArray is a list. For every sequence of its operations (reading and storing an element, adding an
  element, adding or inserting another array, resizing, zeroing, assigning) that makes no array whose size in bytes does not fit
  an \<^verbatim>\<open>int\<close>, while there is memory: if no index is negative, no slot is read before a value was stored and no elements are
  inserted beyond the end, then it runs without a
  fault and does to the elements what the same operations do to a list, the other array is unchanged, and the
  destructor frees the array's memory and nothing else was lost; otherwise it ends with a fault, since the code checks none of the three.\<close>
theorem array_refines_list:
  assumes "da_inv R r ys s xs" and "acmds_sized esz z ys cs xs" and "2 \<le> r"
  shows "if acmds_indexed z ys cs xs
    then holds (da_run esz z cs s) (\<lambda>(rs, a', ob', h'). \<exists>zs. list_arun z ys cs xs = (rs, zs) \<and> da_rep h' a' zs
      \<and> da_rep h' ob' ys \<and> holds (da_destroy a' h') (\<lambda>h. live h = R \<and> room h = r))
    else \<exists>e. da_run esz z cs s = Inl e"
proof (cases "acmds_indexed z ys cs xs")
  case True
  then obtain a' ob' h' where s': "da_run esz z cs s = Inr (fst (list_arun z ys cs xs), a', ob', h')"
    "da_inv R r ys (a', ob', h') (snd (list_arun z ys cs xs))"
    using da_run_inv [OF assms] by (metis prod_cases3)
  then show ?thesis using True da_invD(1,2) [OF s'(2)] da_destroy_inv [OF s'(2)]
    by (auto intro!: exI [of _ "snd (list_arun z ys cs xs)"])
next
  case False
  then show ?thesis using da_run_inv [OF assms] by simp
qed

theorem array_refines_list_witness:
  "holds (da_run 4 0 [AAdd 9, AInsert 1, AGet 1, AResize 7 True, APut 2 5] (exa, exa_o, exa_heap))
    (\<lambda>(rs, a', ob', h'). \<exists>zs. list_arun 0 [Some 7, Some 8] [AAdd 9, AInsert 1, AGet 1, AResize 7 True, APut 2 5]
        [Some 1, Some 2, None] = (rs, zs) \<and> da_rep h' a' zs
    \<and> da_rep h' ob' [Some 7, Some 8] \<and> holds (da_destroy a' h') (\<lambda>h. live h = {2} \<and> room h = 4))
  \<and> (\<exists>e. da_run 4 0 [AAdd 9, AInsert 5] (exa, exa_o, exa_heap) = Inl e)"
  using array_refines_list [OF exa_inv, of 4 0 "[AAdd 9, AInsert 1, AGet 1, AResize 7 True, APut 2 5]"]
    array_refines_list [OF exa_inv, of 4 0 "[AAdd 9, AInsert 5]"]
  by (simp add: da_fits_def list_resize_def del: da_run.simps da_step.simps)

lemma da_fits_int: "0 \<le> n \<Longrightarrow> 0 < esz \<Longrightarrow> da_fits esz (nat n) \<longleftrightarrow> int esz * n < 2 ^ 31"
proof -
  assume "0 \<le> n" and e: "0 < esz"
  then obtain k where k: "n = int k" by (auto dest: nonneg_int_cases)
  have "int (esz * k) < int (2 ^ 31) \<longleftrightarrow> esz * k < 2 ^ 31" by (rule of_nat_less_iff)
  then show ?thesis using e by (simp add: k da_fits_def)
qed

text \<open>The constructor with a size gives an array all of whose elements can be stored to if and only if the
  size in bytes is below 2 ^ 31: the byte count passes through an \<^verbatim>\<open>int\<close>, beyond that it is negative (the
  array is null) or too small (the block ends before the array does).\<close>
theorem array_size_limit:
  assumes "0 < n" and "0 < esz" and "0 < room h"
  shows "(case da_new_size esz n h of (a, h') \<Rightarrow> \<forall>i. 0 \<le> i \<longrightarrow> i < n \<longrightarrow> holds (da_put i v a h') (\<lambda>(ok, h''). ok))
    \<longleftrightarrow> int esz * n < 2 ^ 31"
proof -
  let ?b = "da_bytes esz n" and ?p = "Suc (heap_size h)"
  have b: "?b < 2 ^ 31" using sint_lt [of "word_of_int (int esz * n) :: 32 word"] by (simp add: da_bytes_def tw_size_def)
  show ?thesis
  proof (cases "?b < 0")
    case True
    then have "da_new_size esz n h = (\<lparr>da_array = NULL, da_size = n\<rparr>, h)"
      by (simp add: da_new_size_def da_setup_def block_malloc_def)
    moreover have "\<not> int esz * n < 2 ^ 31"
    proof
      assume "int esz * n < 2 ^ 31"
      then have "da_fits esz (nat n)" using assms da_fits_int [of n esz] by simp
      from da_bytes_fits(4) [OF this] show False using True assms(1) by simp
    qed
    ultimately show ?thesis using assms(1) by (auto simp: da_put_def block_set_def intro!: exI [of _ 0])
  next
    case False
    let ?k = "nat ?b div esz"
    have new: "da_new_size esz n h = (\<lparr>da_array = ?p, da_size = n\<rparr>, new_obj (replicate ?k None) h)"
      using False assms(3) by (simp add: da_new_size_def da_setup_def block_malloc_def malloc_ok new_obj_def)
    have put: "holds (da_put i v \<lparr>da_array = ?p, da_size = n\<rparr> (new_obj (replicate ?k None) h)) (\<lambda>(ok, h''). ok)
        \<longleftrightarrow> i < int ?k" if "0 \<le> i" "i < n" for i
      using that by (simp add: da_put_def block_set_def cell_at_new)
    have all: "(\<forall>i. 0 \<le> i \<longrightarrow> i < n \<longrightarrow> i < int ?k) \<longleftrightarrow> n \<le> int ?k"
      using assms(1) by (auto dest: spec [of _ "n - 1"])
    have "n \<le> int ?k \<longleftrightarrow> int esz * n < 2 ^ 31"
    proof
      assume "int esz * n < 2 ^ 31"
      then have "da_fits esz (nat n)" using assms da_fits_int [of n esz] by simp
      from da_bytes_fits(2) [OF this] show "n \<le> int ?k" using assms(1) by simp
    next
      assume "n \<le> int ?k"
      then have "int esz * n \<le> int esz * int ?k" by (simp add: mult_left_mono)
      also have "\<dots> \<le> int (nat ?b)" by (metis div_times_less_eq_dividend mult.commute of_nat_le_iff of_nat_mult)
      also have "\<dots> < 2 ^ 31" using b False by simp
      finally show "int esz * n < 2 ^ 31" .
    qed
    then show ?thesis using new put all by auto
  qed
qed

theorem array_size_limit_witness:
  "(case da_new_size 8 (2 ^ 29) (empty_heap 3 :: nat blocks) of (a, h') \<Rightarrow>
     \<forall>i. 0 \<le> i \<longrightarrow> i < 2 ^ 29 \<longrightarrow> holds (da_put i 5 a h') (\<lambda>(ok, h''). ok)) \<longleftrightarrow> int 8 * 2 ^ 29 < 2 ^ 31"
  by (rule array_size_limit) (simp_all add: empty_heap_def)

text \<open>What the operations do not guard against: adding an array to itself copies beyond the end of the
  block, assigning it to itself loses every value, a negative index is outside the block, and an element that
  is added when there is no memory is stored through a null pointer.\<close>
theorem array_unguarded:
  assumes "da_inv R r ys (a, ob, h) xs" and "da_fits esz (2 * length xs)" and "2 \<le> r" and "xs \<noteq> []" and "i < 0"
  shows "da_addSelfToEnd esz z a h = Inl OutOfBounds \<and> da_get i a h = Inl OutOfBounds
    \<and> da_addToEnd esz z v a (h\<lparr>room := 0\<rparr>) = Inl NullDeref
    \<and> holds (da_assign_self esz a h) (\<lambda>(a', h'). da_size a' = int (length xs) \<and> da_get 0 a' h' = Inl Uninit)"
proof (intro conjI)
  note d = da_invD [OF assms(1)]
  have pos: "0 < length xs" using assms(4) by simp
  have p: "da_array a \<noteq> NULL" and c: "cell_at h (da_array a) = Obj xs"
    using d(1) assms(4) by (auto simp: da_rep_def split: if_splits)
  show "da_get i a h = Inl OutOfBounds" using c d(7) assms(5) by (simp add: da_get_def block_get_def)
  show "da_addSelfToEnd esz z a h = Inl OutOfBounds"
  proof -
    obtain a1 h1 where h1: "da_resize esz z (int (2 * length xs)) False a h = Inr (a1, h1)"
      "da_inv R r ys (a1, ob, h1) (resized (2 * length xs) xs)" "da_size a1 = int (2 * length xs)"
      "0 < 2 * length xs \<longrightarrow> da_array a1 \<noteq> NULL"
      by (rule da_resize_inv [OF assms(1,2,3)])
    have "cell_at h1 (da_array a1) = Obj (resized (2 * length xs) xs)"
      using da_invD(1) [OF h1(2)] h1(4) pos by (auto simp: da_rep_def)
    then have "block_copy (da_array a1) (int (length xs)) (da_array a1) 0 (int (2 * length xs)) h1 = Inl OutOfBounds"
      using pos by (simp add: block_copy_def)
    then show ?thesis using h1(1,3) d(7) pos by (simp add: da_addSelfToEnd_def Let_def da_resize_size mult_2 [symmetric])
  qed
  show "da_addToEnd esz z v a (h\<lparr>room := 0\<rparr>) = Inl NullDeref"
  proof -
    have "esz * Suc (length xs) \<le> esz * (2 * length xs)" using pos by (intro mult_le_mono2) linarith
    then have f: "da_fits esz (Suc (length xs))" using assms(2) unfolding da_fits_def by linarith
    have "block_malloc esz (da_bytes esz (int (Suc (length xs)))) (h\<lparr>room := 0\<rparr>) = (NULL, h\<lparr>room := 0\<rparr>)"
      by (simp add: block_malloc_def malloc_fails)
    then show ?thesis
      using p c d(7) da_bytes_fits(3) [OF f]
      by (simp add: da_addToEnd_def da_resize_def block_realloc_def block_set_def Let_def add.commute)
  qed
  show "holds (da_assign_self esz a h) (\<lambda>(a', h'). da_size a' = int (length xs) \<and> da_get 0 a' h' = Inl Uninit)"
  proof -
    have f: "da_fits esz (length xs)" using assms(2) by (auto simp: da_fits_def)
    let ?h1 = "(put_cell (da_array a) Freed h)\<lparr>room := Suc (room h)\<rparr>"
    let ?n = "Suc (heap_size ?h1)" and ?h2 = "new_obj (replicate (length xs) None) ?h1"
    have st: "da_setup esz a ?h1 = (a\<lparr>da_array := ?n\<rparr>, ?h2)"
      using block_malloc_fits [OF f, of ?h1] d(7) by (simp add: da_setup_def)
    have "block_copy ?n 0 ?n 0 (int (length xs)) ?h2 = Inr (put_cell ?n (Obj (replicate (length xs) None)) ?h2)"
      using pos by (simp add: block_copy_def cell_at_new)
    moreover have "block_get ?n 0 (put_cell ?n (Obj (replicate (length xs) None)) ?h2) = Inl Uninit"
      using pos by (simp add: block_get_def cell_at_put cell_at_new)
    ultimately show ?thesis
      using p c st d(7) pos by (simp add: da_assign_self_def free_ok da_get_def)
  qed
qed

theorem array_unguarded_witness:
  "da_addSelfToEnd 4 0 exa exa_heap = Inl OutOfBounds \<and> da_get (-1) exa exa_heap = Inl OutOfBounds
    \<and> da_addToEnd 4 0 9 exa (exa_heap\<lparr>room := 0\<rparr>) = Inl NullDeref
    \<and> holds (da_assign_self 4 exa exa_heap) (\<lambda>(a', h'). da_size a' = 3 \<and> da_get 0 a' h' = Inl Uninit)"
  using array_unguarded [OF exa_inv, of 4 "-1" 0 9] by (simp add: da_fits_def)

end
