(* ===== verification/TW_AutoPtr.thy ===== *)
theory TW_AutoPtr
  imports TW_Chain
begin

text \<open>
  The class autoPointer of include/TW/tw_autopointer.h: a pointer with a count of its users and a list of
  callbacks that are called before the object is deleted. The objects and the entries of the list are in two
  heaps. A callback is a function pointer of the client; what is recorded is that it is called, and with which
  argument. The allocator pointer is stored and never used.
\<close>

section \<open>The data\<close>

record 'cb cbentry =
  cb_fun :: 'cb
  cb_next :: ptr

record aptr =
  ap_D :: ptr
  ap_refCount :: int
  ap_mutex :: bool
  ap_first :: ptr

type_synonym ('o, 'cb) ap_state = "aptr \<times> 'o heap \<times> 'cb cbentry heap"

section \<open>The operations\<close>

definition ap_removeAllCallbacks :: "aptr \<Rightarrow> 'cb cbentry heap \<Rightarrow> 'cb cbentry heap res" where
  "ap_removeAllCallbacks a e = free_all cb_next e (ap_first a)"

definition ap_reset :: "ptr \<Rightarrow> aptr \<Rightarrow> 'cb cbentry heap \<Rightarrow> (aptr \<times> 'cb cbentry heap) res" where
  "ap_reset d a e = (let a = a\<lparr>ap_D := d, ap_refCount := 1\<rparr> in
     bindE (ap_removeAllCallbacks a e) (\<lambda>e. Inr (a\<lparr>ap_first := NULL\<rparr>, e)))"

definition ap_null :: aptr where
  "ap_null = \<lparr>ap_D = NULL, ap_refCount = 0, ap_mutex = False, ap_first = NULL\<rparr>"

definition ap_new :: "ptr \<Rightarrow> 'cb cbentry heap \<Rightarrow> (aptr \<times> 'cb cbentry heap) res" where
  "ap_new d e = ap_reset d ap_null e"

text \<open>The first component is false when \<^verbatim>\<open>new\<close> throws.\<close>

definition ap_addCallback :: "'cb \<Rightarrow> 'cb \<Rightarrow> aptr \<Rightarrow> 'cb cbentry heap \<Rightarrow> (bool \<times> aptr \<times> 'cb cbentry heap) res" where
  "ap_addCallback nocb cb a e = (if ap_first a \<noteq> NULL then
     bindE (seek_last cb_next e (ap_first a) 0) (\<lambda>(nex, _).
     case malloc e of (p, e) \<Rightarrow>
       if p = NULL then Inr (False, a, e) else
       bindE (construct p \<lparr>cb_fun = nocb, cb_next = NULL\<rparr> e) (\<lambda>e.
       bindE (modify nex (\<lambda>c. c\<lparr>cb_next := p\<rparr>) e) (\<lambda>e.
       bindE (load nex e) (\<lambda>c.
       bindE (modify (cb_next c) (\<lambda>c. c\<lparr>cb_fun := cb\<rparr>) e) (\<lambda>e. Inr (True, a, e))))))
     else (case malloc e of (p, e) \<Rightarrow>
       if p = NULL then Inr (False, a, e) else
       bindE (construct p \<lparr>cb_fun = nocb, cb_next = NULL\<rparr> e) (\<lambda>e.
       let a = a\<lparr>ap_first := p\<rparr> in
       bindE (modify (ap_first a) (\<lambda>c. c\<lparr>cb_fun := cb\<rparr>) e) (\<lambda>e. Inr (True, a, e)))))"

definition ap_attached :: "aptr \<Rightarrow> (bool \<times> aptr) res" where
  "ap_attached a = bindE (mutex_lock (ap_mutex a)) (\<lambda>m.
     let ret = (ap_D a \<noteq> NULL) in
     bindE (mutex_unlock m) (\<lambda>m. Inr (ret, a\<lparr>ap_mutex := m\<rparr>)))"

definition ap_dupP :: "aptr \<Rightarrow> aptr res" where
  "ap_dupP a = bindE (mutex_lock (ap_mutex a)) (\<lambda>m.
     let a = a\<lparr>ap_refCount := ap_refCount a + 1\<rparr> in
     bindE (mutex_unlock m) (\<lambda>m. Inr (a\<lparr>ap_mutex := m\<rparr>)))"

definition ap_dat :: "aptr \<Rightarrow> ptr" where
  "ap_dat a = ap_D a"

text \<open>The loop of \<open>destroy\<close>: every callback is called with the object, and its entry is deleted. It ends within
  as many rounds as the heap has cells, unless it meets a deleted entry first.\<close>

fun ap_call_all :: "nat \<Rightarrow> ptr \<Rightarrow> ptr \<Rightarrow> 'cb cbentry heap \<Rightarrow> (('cb \<times> ptr) list \<times> 'cb cbentry heap) res" where
  "ap_call_all 0 walk d e = (if walk = NULL then Inr ([], e) else Inl Diverges)"
| "ap_call_all (Suc k) walk d e = (if walk = NULL then Inr ([], e) else
     bindE (load walk e) (\<lambda>c.
     bindE (free walk e) (\<lambda>e.
     bindE (ap_call_all k (cb_next c) d e) (\<lambda>(calls, e). Inr ((cb_fun c, d) # calls, e)))))"

definition ap_destroy :: "('o, 'cb) ap_state \<Rightarrow> (('cb \<times> ptr) list \<times> ('o, 'cb) ap_state) res" where
  "ap_destroy s = (case s of (a, ob, e) \<Rightarrow>
     bindE (ap_call_all (heap_size e) (ap_first a) (ap_D a) e) (\<lambda>(calls, e).
     bindE (free (ap_D a) ob) (\<lambda>ob. Inr (calls, a\<lparr>ap_D := NULL\<rparr>, ob, e))))"

definition ap_release :: "('o, 'cb) ap_state \<Rightarrow> (('cb \<times> ptr) list \<times> ('o, 'cb) ap_state) res" where
  "ap_release s = (case s of (a, ob, e) \<Rightarrow>
     bindE (mutex_lock (ap_mutex a)) (\<lambda>m.
     let a = a\<lparr>ap_refCount := ap_refCount a - 1\<rparr> in
     bindE (if ap_refCount a < 1 then ap_destroy (a, ob, e) else Inr ([], a, ob, e)) (\<lambda>(calls, a, ob, e).
     bindE (mutex_unlock m) (\<lambda>m. Inr (calls, a\<lparr>ap_mutex := m\<rparr>, ob, e)))))"

text \<open>An exception leaves the mutex locked.\<close>

definition ap_registerCallback :: "'cb \<Rightarrow> 'cb \<Rightarrow> aptr \<Rightarrow> 'cb cbentry heap \<Rightarrow> (bool \<times> aptr \<times> 'cb cbentry heap) res" where
  "ap_registerCallback nocb cb a e = bindE (mutex_lock (ap_mutex a)) (\<lambda>m.
     bindE (ap_addCallback nocb cb a e) (\<lambda>(ok, a, e).
     if ok then bindE (mutex_unlock m) (\<lambda>m. Inr (True, a\<lparr>ap_mutex := m\<rparr>, e))
     else Inr (False, a\<lparr>ap_mutex := m\<rparr>, e)))"

definition ap_destructor :: "('o, 'cb) ap_state \<Rightarrow> (('cb \<times> ptr) list \<times> ('o, 'cb) ap_state) res" where
  "ap_destructor s = (case s of (a, ob, e) \<Rightarrow>
     bindE (mutex_lock (ap_mutex a)) (\<lambda>m.
     bindE (if ap_D a \<noteq> NULL then ap_destroy (a, ob, e) else Inr ([], a, ob, e)) (\<lambda>(calls, a, ob, e).
     bindE (mutex_unlock m) (\<lambda>m. Inr (calls, a\<lparr>ap_mutex := m\<rparr>, ob, e)))))"

section \<open>The life of a pointer\<close>

datatype 'cb apop = Dup | Release | Register 'cb

fun ap_step :: "'cb \<Rightarrow> 'cb apop \<Rightarrow> ('o, 'cb) ap_state \<Rightarrow> (('cb \<times> ptr) list \<times> ('o, 'cb) ap_state) res" where
  "ap_step nocb Dup (a, ob, e) = bindE (ap_dupP a) (\<lambda>a. Inr ([], a, ob, e))"
| "ap_step nocb Release s = ap_release s"
| "ap_step nocb (Register cb) (a, ob, e) = bindE (ap_registerCallback nocb cb a e) (\<lambda>(_, a, e). Inr ([], a, ob, e))"

fun ap_run :: "'cb \<Rightarrow> 'cb apop list \<Rightarrow> ('o, 'cb) ap_state \<Rightarrow> (('cb \<times> ptr) list \<times> ('o, 'cb) ap_state) res" where
  "ap_run nocb [] s = Inr ([], s)"
| "ap_run nocb (c # cs) s = bindE (ap_step nocb c s) (\<lambda>(calls, s).
     bindE (ap_run nocb cs s) (\<lambda>(calls', s). Inr (calls @ calls', s)))"

text \<open>The same in the abstract: the number of users and the callbacks, until the last user is gone.\<close>

fun sp_step :: "'cb apop \<Rightarrow> nat \<times> 'cb list \<Rightarrow> nat \<times> 'cb list" where
  "sp_step Dup (n, cbs) = (Suc n, cbs)"
| "sp_step Release (n, cbs) = (n - 1, cbs)"
| "sp_step (Register cb) (n, cbs) = (n, cbs @ [cb])"

fun sp_run :: "'cb apop list \<Rightarrow> nat \<times> 'cb list \<Rightarrow> nat \<times> 'cb list" where
  "sp_run [] st = st"
| "sp_run (c # cs) st = sp_run cs (sp_step c st)"

text \<open>No call after the last user has released.\<close>

fun sp_ok :: "'cb apop list \<Rightarrow> nat \<times> 'cb list \<Rightarrow> bool" where
  "sp_ok [] st \<longleftrightarrow> True"
| "sp_ok (c # cs) st \<longleftrightarrow> 0 < fst st \<and> sp_ok cs (sp_step c st)"

fun registers :: "'cb apop list \<Rightarrow> nat" where
  "registers [] = 0"
| "registers (Register cb # cs) = Suc (registers cs)"
| "registers (c # cs) = registers cs"

section \<open>What the heaps hold\<close>

text \<open>\<open>d\<close> is the object, \<open>R\<close> the entries of other pointers.\<close>

definition ap_alive :: "ptr \<Rightarrow> ptr set \<Rightarrow> ('o, 'cb) ap_state \<Rightarrow> nat \<times> 'cb list \<Rightarrow> bool" where
  "ap_alive d R s st \<longleftrightarrow> (case s of (a, ob, e) \<Rightarrow> case st of (n, cbs) \<Rightarrow>
     ap_D a = d \<and> d \<noteq> NULL \<and> cell_at ob d \<noteq> Freed \<and> ap_refCount a = int n \<and> 0 < n \<and> \<not> ap_mutex a
     \<and> (\<exists>ps. chain cb_next e (ap_first a) ps NULL \<and> map (\<lambda>p. cb_fun (obj_at e p)) ps = cbs
          \<and> live e = set ps \<union> R \<and> set ps \<inter> R = {}))"

lemma ap_call_all_chain:
  "chain cb_next e p ps NULL \<Longrightarrow> length ps \<le> k \<Longrightarrow>
     \<exists>e'. ap_call_all k p d e = Inr (map (\<lambda>p. (cb_fun (obj_at e p), d)) ps, e')
       \<and> live e' = live e - set ps \<and> (\<forall>q. cell_at e' q = (if q \<in> set ps then Freed else cell_at e q))
       \<and> room e' = room e + length ps \<and> heap_size e' = heap_size e"
proof (induction ps arbitrary: p e k)
  case Nil
  then show ?case by (cases k) auto
next
  case (Cons q ps)
  then obtain c where c: "p = q" "cell_at e q = Obj c" "chain cb_next e (cb_next c) ps NULL" by auto
  obtain k' where k: "k = Suc k'" "length ps \<le> k'" using Cons.prems(2) by (cases k) auto
  let ?e = "(put_cell q Freed e)\<lparr>room := Suc (room e)\<rparr>"
  have q: "q \<notin> set ps" "0 < q" using chain_distinct [OF Cons.prems(1)] cell_at_Obj_pos [OF c(2)] by auto
  have at: "cell_at ?e r = (if r = q then Freed else cell_at e r)" for r using c(2) by (simp add: cell_at_put)
  have "chain cb_next ?e (cb_next c) ps NULL" using c(3) q(1) at by (subst chain_frame) auto
  from Cons.IH [OF this k(2)] obtain e' where e': "ap_call_all k' (cb_next c) d ?e
      = Inr (map (\<lambda>p. (cb_fun (obj_at ?e p), d)) ps, e')"
    "live e' = live ?e - set ps" "\<forall>r. cell_at e' r = (if r \<in> set ps then Freed else cell_at ?e r)"
    "room e' = room ?e + length ps" "heap_size e' = heap_size ?e" by blast
  have "map (\<lambda>p. (cb_fun (obj_at ?e p), d)) ps = map (\<lambda>p. (cb_fun (obj_at e p), d)) ps"
    using q(1) at by (auto simp: obj_at_def)
  moreover have "live ?e = live e - {q}" using c(2) by (simp add: live_put_Freed)
  ultimately show ?case using c e' k q at by (auto simp: free_ok)
qed

lemma ap_addCallback_chain:
  assumes ch: "chain cb_next e (ap_first a) ps NULL" and room: "0 < room e"
  obtains a' e' where "ap_addCallback nocb cb a e = Inr (True, a', e')"
    and "a' = a\<lparr>ap_first := ap_first a'\<rparr>" and "chain cb_next e' (ap_first a') (ps @ [Suc (heap_size e)]) NULL"
    and "map (\<lambda>p. cb_fun (obj_at e' p)) (ps @ [Suc (heap_size e)]) = map (\<lambda>p. cb_fun (obj_at e p)) ps @ [cb]"
    and "live e' = insert (Suc (heap_size e)) (live e)" and "room e' = room e - 1"
proof -
  let ?n = "Suc (heap_size e)" and ?e1 = "new_obj \<lparr>cb_fun = nocb, cb_next = NULL\<rparr> e"
  have n: "?n \<notin> set ps" using chain_fresh [OF ch] .
  show ?thesis
  proof (cases ps rule: rev_cases)
    case Nil
    let ?e2 = "put_cell ?n (Obj \<lparr>cb_fun = cb, cb_next = NULL\<rparr>) ?e1"
    have at: "cell_at ?e2 q = (if q = ?n then Obj \<lparr>cb_fun = cb, cb_next = NULL\<rparr> else cell_at e q)" for q
      by (simp add: cell_at_put cell_at_new)
    have "live ?e2 = insert ?n (live e)" by (auto simp: live_iff at split: if_splits)
    then show ?thesis
      using that [of "a\<lparr>ap_first := ?n\<rparr>" ?e2] ch Nil room at
      by (simp add: ap_addCallback_def malloc_ok construct_new modify_Obj cell_at_new Let_def)
  next
    case (snoc qs q)
    then obtain c where c: "cell_at e q = Obj c" "chain cb_next e (ap_first a) qs q" using ch by (auto simp: chain_append)
    have q: "q \<noteq> ?n" "q \<notin> set qs" "?n \<notin> set qs" using n snoc chain_distinct [OF ch] by auto
    have hd: "0 < ap_first a" using ch snoc chain_start_snoc by metis
    have sk: "seek_last cb_next e (ap_first a) 0 = Inr (q, 0 + int (length qs))"
      by (rule seek_last_chain) (use ch snoc in simp)
    let ?e2 = "put_cell q (Obj (c\<lparr>cb_next := ?n\<rparr>)) ?e1"
    have at2: "cell_at ?e2 r = (if r = q then Obj (c\<lparr>cb_next := ?n\<rparr>) else cell_at ?e1 r)" for r
      using c(1) q by (simp add: cell_at_put cell_at_new)
    let ?e3 = "put_cell ?n (Obj \<lparr>cb_fun = cb, cb_next = NULL\<rparr>) ?e2"
    have at3: "cell_at ?e3 r = (if r = ?n then Obj \<lparr>cb_fun = cb, cb_next = NULL\<rparr> else
        if r = q then Obj (c\<lparr>cb_next := ?n\<rparr>) else cell_at e r)" for r
      using q by (simp add: cell_at_put at2 cell_at_new)
    have m1: "modify q (\<lambda>c. c\<lparr>cb_next := ?n\<rparr>) ?e1 = Inr ?e2" using c(1) q by (simp add: modify_Obj cell_at_new)
    have m2: "modify ?n (\<lambda>c. c\<lparr>cb_fun := cb\<rparr>) ?e2 = Inr ?e3"
      using q by (simp add: modify_Obj [of _ _ "\<lparr>cb_fun = nocb, cb_next = NULL\<rparr>"] at2 cell_at_new)
    have run: "ap_addCallback nocb cb a e = Inr (True, a, ?e3)"
      using hd sk room m1 m2 at2 q by (simp add: ap_addCallback_def malloc_ok construct_new)
    have "chain cb_next ?e3 (ap_first a) qs q" using c(2) q at3 by (subst chain_frame [of _ _ e]) auto
    then have ch3: "chain cb_next ?e3 (ap_first a) (ps @ [?n]) NULL" using at3 q snoc by (simp add: chain_append)
    have "map (\<lambda>p. cb_fun (obj_at ?e3 p)) qs = map (\<lambda>p. cb_fun (obj_at e p)) qs"
      using q at3 by (auto simp: obj_at_def)
    then have mp: "map (\<lambda>p. cb_fun (obj_at ?e3 p)) (ps @ [?n]) = map (\<lambda>p. cb_fun (obj_at e p)) ps @ [cb]"
      using snoc at3 q c(1) by (simp add: obj_at_def)
    have "live ?e3 = insert ?n (live e)" using c(1) by (auto simp: live_iff at3 split: if_splits)
    then show ?thesis using that [OF run _ ch3 mp] by simp
  qed
qed

section \<open>What the operations do\<close>

lemma ap_alive_dup:
  "ap_alive d R (a, ob, e) (n, cbs) \<Longrightarrow> \<exists>a'. ap_dupP a = Inr a' \<and> ap_alive d R (a', ob, e) (Suc n, cbs)"
  by (auto simp: ap_alive_def ap_dupP_def Let_def)

lemma ap_alive_register:
  assumes al: "ap_alive d R (a, ob, e) (n, cbs)" and room: "0 < room e"
  shows "\<exists>a' e'. ap_registerCallback nocb cb a e = Inr (True, a', e') \<and> ap_alive d R (a', ob, e') (n, cbs @ [cb])
    \<and> room e' = room e - 1"
proof -
  obtain ps where ps: "chain cb_next e (ap_first a) ps NULL" "map (\<lambda>p. cb_fun (obj_at e p)) ps = cbs"
    "live e = set ps \<union> R" "set ps \<inter> R = {}" using al by (auto simp: ap_alive_def)
  let ?n = "Suc (heap_size e)"
  obtain a' e' where r: "ap_addCallback nocb cb a e = Inr (True, a', e')" "a' = a\<lparr>ap_first := ap_first a'\<rparr>"
    "chain cb_next e' (ap_first a') (ps @ [?n]) NULL"
    "map (\<lambda>p. cb_fun (obj_at e' p)) (ps @ [?n]) = map (\<lambda>p. cb_fun (obj_at e p)) ps @ [cb]"
    "live e' = insert ?n (live e)" "room e' = room e - 1"
    by (rule ap_addCallback_chain [OF ps(1) room])
  have a: "\<not> ap_mutex a" "ap_D a = d" "d \<noteq> NULL" "cell_at ob d \<noteq> Freed" "ap_refCount a = int n" "0 < n"
    using al by (auto simp: ap_alive_def)
  have f: "ap_D a' = ap_D a" "ap_refCount a' = ap_refCount a"
    using arg_cong [OF r(2), of ap_D] arg_cong [OF r(2), of ap_refCount] by simp_all
  have n: "?n \<notin> R" using ps(3) fresh_not_live [of e] by auto
  let ?ps = "ps @ [?n]"
  have mem: "live e' = set ?ps \<union> R" "set ?ps \<inter> R = {}" using n r(5) ps(3,4) by auto
  have mp: "map (\<lambda>p. cb_fun (obj_at e' p)) ?ps = cbs @ [cb]" using r(4) ps(2) by simp
  have "ap_alive d R (a'\<lparr>ap_mutex := False\<rparr>, ob, e') (n, cbs @ [cb])"
    unfolding ap_alive_def prod.case
    by (intro conjI exI [of _ ?ps]) (use a f r(3) mp mem in simp_all)
  then show ?thesis using r(1,6) a(1) by (simp add: ap_registerCallback_def)
qed

lemma ap_destroy_alive:
  assumes "chain cb_next e (ap_first a) ps NULL" and "map (\<lambda>p. cb_fun (obj_at e p)) ps = cbs"
    and "live e = set ps \<union> R" and "set ps \<inter> R = {}" and "ap_D a = d" and "cell_at ob d \<noteq> Freed"
  shows "\<exists>ob' e'. ap_destroy (a, ob, e) = Inr (map (\<lambda>cb. (cb, d)) cbs, a\<lparr>ap_D := NULL\<rparr>, ob', e')
    \<and> live ob' = live ob - {d} \<and> live e' = R \<and> (\<forall>q \<in> set ps. cell_at e' q = Freed)
    \<and> heap_size e' = heap_size e \<and> room e \<le> room e'"
proof -
  from ap_call_all_chain [OF assms(1) chain_length [OF assms(1)], of d] obtain e' where
    e': "ap_call_all (heap_size e) (ap_first a) d e = Inr (map (\<lambda>p. (cb_fun (obj_at e p), d)) ps, e')"
    "live e' = live e - set ps" "\<forall>q. cell_at e' q = (if q \<in> set ps then Freed else cell_at e q)"
    "heap_size e' = heap_size e" "room e' = room e + length ps" by blast
  have "map (\<lambda>p. (cb_fun (obj_at e p), d)) ps = map (\<lambda>cb. (cb, d)) cbs" using assms(2) by auto
  moreover have "live e' = R" using e'(2) assms(3,4) by auto
  ultimately show ?thesis using e' assms(5,6) by (simp add: ap_destroy_def free_ok live_put_Freed)
qed

lemma ap_alive_release:
  assumes al: "ap_alive d R (a, ob, e) (n, cbs)"
  shows "\<exists>calls a' ob' e'. ap_release (a, ob, e) = Inr (calls, a', ob', e') \<and> room e \<le> room e' \<and>
    (if n = 1 then calls = map (\<lambda>cb. (cb, d)) cbs \<and> ap_D a' = NULL \<and> live ob' = live ob - {d} \<and> live e' = R
     else calls = [] \<and> ob' = ob \<and> ap_alive d R (a', ob', e') (n - 1, cbs))"
proof -
  obtain ps where ps: "chain cb_next e (ap_first a) ps NULL" "map (\<lambda>p. cb_fun (obj_at e p)) ps = cbs"
    "live e = set ps \<union> R" "set ps \<inter> R = {}" using al by (auto simp: ap_alive_def)
  have a: "\<not> ap_mutex a" "ap_D a = d" "d \<noteq> NULL" "cell_at ob d \<noteq> Freed" "ap_refCount a = int n" "0 < n"
    using al by (auto simp: ap_alive_def)
  let ?a = "a\<lparr>ap_refCount := int n - 1\<rparr>"
  show ?thesis
  proof (cases "n = 1")
    case True
    have ch: "chain cb_next e (ap_first ?a) ps NULL" and d: "ap_D ?a = d" using ps(1) a(2) by simp_all
    from ap_destroy_alive [OF ch ps(2,3,4) d a(4)] obtain ob' e' where
      r: "ap_destroy (?a, ob, e) = Inr (map (\<lambda>cb. (cb, d)) cbs, ?a\<lparr>ap_D := NULL\<rparr>, ob', e')"
      "live ob' = live ob - {d}" "live e' = R" "room e \<le> room e'" by blast
    have "ap_release (a, ob, e) = Inr (map (\<lambda>cb. (cb, d)) cbs, ?a\<lparr>ap_D := NULL, ap_mutex := False\<rparr>, ob', e')"
      using r(1) a True by (simp add: ap_release_def Let_def)
    then show ?thesis using r(2-4) True by simp
  next
    case False
    then have "\<not> int n - 1 < 1" using a(6) by simp
    then have "ap_release (a, ob, e) = Inr ([], ?a\<lparr>ap_mutex := False\<rparr>, ob, e)"
      using a by (simp add: ap_release_def Let_def)
    moreover have "ap_alive d R (?a\<lparr>ap_mutex := False\<rparr>, ob, e) (n - 1, cbs)"
      unfolding ap_alive_def prod.case
      by (intro conjI exI [of _ ps]) (use a ps False in simp_all)
    ultimately show ?thesis using False by simp
  qed
qed

lemma ap_run_alive:
  "ap_alive d R (a, ob, e) st \<Longrightarrow> sp_ok cs st \<Longrightarrow> registers cs \<le> room e \<Longrightarrow>
   holds (ap_run nocb cs (a, ob, e)) (\<lambda>(calls, a', ob', e'). case sp_run cs st of (n, cbs) \<Rightarrow>
     if n = 0 then calls = map (\<lambda>cb. (cb, d)) cbs \<and> ap_D a' = NULL \<and> live ob' = live ob - {d} \<and> live e' = R
     else calls = [] \<and> ob' = ob \<and> ap_alive d R (a', ob', e') (n, cbs))"
proof (induction cs arbitrary: a ob e st)
  case Nil
  then show ?case by (cases st) (auto simp: ap_alive_def)
next
  case (Cons c cs)
  obtain n cbs where st: "st = (n, cbs)" by (cases st)
  show ?case
  proof (cases c)
    case Dup
    from ap_alive_dup [OF Cons.prems(1) [unfolded st]] obtain a' where
      "ap_dupP a = Inr a'" "ap_alive d R (a', ob, e) (Suc n, cbs)" by blast
    with Cons.IH [of a' ob e "(Suc n, cbs)"] Cons.prems(2,3) Dup st show ?thesis by (auto simp: holds_iff)
  next
    case (Register cb)
    then have "0 < room e" using Cons.prems(3) by simp
    from ap_alive_register [OF Cons.prems(1) [unfolded st] this] obtain a' e' where
      "ap_registerCallback nocb cb a e = Inr (True, a', e')" "ap_alive d R (a', ob, e') (n, cbs @ [cb])"
      "room e' = room e - 1" by blast
    moreover then have "registers cs \<le> room e'" using Cons.prems(3) Register by simp
    ultimately show ?thesis using Cons.IH [of a' ob e' "(n, cbs @ [cb])"] Cons.prems(2) Register st
      by (fastforce simp: holds_iff)
  next
    case Release
    from ap_alive_release [OF Cons.prems(1) [unfolded st]] obtain calls a' ob' e' where
      r: "ap_release (a, ob, e) = Inr (calls, a', ob', e')" "room e \<le> room e'"
      "if n = 1 then calls = map (\<lambda>cb. (cb, d)) cbs \<and> ap_D a' = NULL \<and> live ob' = live ob - {d} \<and> live e' = R
       else calls = [] \<and> ob' = ob \<and> ap_alive d R (a', ob', e') (n - 1, cbs)" by blast
    show ?thesis
    proof (cases "n = 1")
      case True
      then have "cs = []" using Cons.prems(2) Release st by (cases cs) auto
      then show ?thesis using r True Release st by simp
    next
      case False
      then have "ap_alive d R (a', ob', e') (n - 1, cbs)" "ob' = ob" "calls = []" using r(3) by auto
      with Cons.IH [of a' ob' e' "(n - 1, cbs)"] Cons.prems(2,3) Release st r(1,2) show ?thesis by (auto simp: holds_iff)
    qed
  qed
qed

section \<open>Properties\<close>

definition exp_objs :: "nat heap" where
  "exp_objs = \<lparr>mem = [Obj 5, Obj 6], room = 3\<rparr>"

definition exp_entries :: "string cbentry heap" where
  "exp_entries = \<lparr>mem = [Obj \<lparr>cb_fun = ''a'', cb_next = NULL\<rparr>], room = 3\<rparr>"

definition exp_a :: aptr where
  "exp_a = \<lparr>ap_D = 2, ap_refCount = 1, ap_mutex = False, ap_first = 1\<rparr>"

lemma exp_alive: "ap_alive 2 {} (exp_a, exp_objs, exp_entries) (1, [''a''])"
proof -
  have "heap_size exp_entries = 1" by (simp add: exp_entries_def)
  then have "live exp_entries \<subseteq> {1}" using live_bounds [of exp_entries] by simp
  moreover have "{1} \<subseteq> live exp_entries" by (simp add: live_iff exp_entries_def cell_at_def)
  ultimately have l: "live exp_entries = set [1] \<union> {}" by auto
  have ch: "chain cb_next exp_entries (ap_first exp_a) [1] NULL" "map (\<lambda>p. cb_fun (obj_at exp_entries p)) [1] = [''a'']"
    by (simp_all add: exp_entries_def exp_a_def cell_at_def obj_at_def)
  have "cell_at exp_objs 2 \<noteq> Freed" by (simp add: exp_objs_def cell_at_def)
  then show ?thesis unfolding ap_alive_def prod.case
    by (intro conjI exI [of _ "[1]"]) (use ch l in \<open>simp_all add: exp_a_def\<close>)
qed

text \<open>C13. An autoPointer deletes its object exactly when the last user releases it: for every sequence of
  \<open>dupP\<close>, \<open>release\<close> and \<open>registerCallback\<close> the object lives, and no callback has been called, as long as there is
  a user; the release of the last one calls every callback once, in the order they were registered and with
  the object, deletes the object and the list of callbacks, and nothing else.\<close>
theorem autoptr_deleted_by_last_user:
  assumes "ap_alive d R (a, ob, e) st" and "sp_ok cs st" and "registers cs \<le> room e"
  shows "holds (ap_run nocb cs (a, ob, e)) (\<lambda>(calls, a', ob', e'). case sp_run cs st of (n, cbs) \<Rightarrow>
     if n = 0 then calls = map (\<lambda>cb. (cb, d)) cbs \<and> ap_D a' = NULL \<and> live ob' = live ob - {d} \<and> live e' = R
     else calls = [] \<and> ob' = ob \<and> ap_alive d R (a', ob', e') (n, cbs))"
  by (rule ap_run_alive [OF assms])

theorem autoptr_deleted_by_last_user_witness:
  "holds (ap_run '''' [Dup, Register ''b'', Release, Release] (exp_a, exp_objs, exp_entries)) (\<lambda>(calls, a', ob', e').
     calls = [(''a'', 2), (''b'', 2)] \<and> ap_D a' = NULL \<and> live ob' = live exp_objs - {2} \<and> live e' = {})"
  using autoptr_deleted_by_last_user [OF exp_alive, of "[Dup, Register ''b'', Release, Release]" "''''"]
  by (simp add: exp_entries_def)

text \<open>C14. An autoPointer that had a callback must not be used again once its object is deleted: \<open>destroy\<close> deletes
  the list of callbacks but keeps the pointer to it, so \<open>reset\<close>, which is meant to give the pointer a new object,
  \<open>registerCallback\<close> and a further \<open>release\<close> all read a deleted entry.\<close>
theorem autoptr_reuse_faults:
  assumes "ap_alive d R (a, ob, e) (1, cbs)" and "cbs \<noteq> []"
  shows "holds (ap_release (a, ob, e)) (\<lambda>(calls, a', ob', e'). ap_reset d' a' e' = Inl Dangling
    \<and> ap_registerCallback nocb cb a' e' = Inl Dangling \<and> ap_release (a', ob', e') = Inl Dangling)"
proof -
  obtain ps where ps: "chain cb_next e (ap_first a) ps NULL" "map (\<lambda>p. cb_fun (obj_at e p)) ps = cbs"
    "live e = set ps \<union> R" "set ps \<inter> R = {}" using assms(1) by (auto simp: ap_alive_def)
  have a: "\<not> ap_mutex a" "ap_D a = d" "cell_at ob d \<noteq> Freed" "ap_refCount a = 1"
    using assms(1) by (auto simp: ap_alive_def)
  let ?a = "a\<lparr>ap_refCount := 0\<rparr>"
  have ch: "chain cb_next e (ap_first ?a) ps NULL" and d: "ap_D ?a = d" using ps(1) a(2) by simp_all
  from ap_destroy_alive [OF ch ps(2,3,4) d a(3)] obtain ob' e' where
    r: "ap_destroy (?a, ob, e) = Inr (map (\<lambda>cb. (cb, d)) cbs, ?a\<lparr>ap_D := NULL\<rparr>, ob', e')"
    "\<forall>q \<in> set ps. cell_at e' q = Freed" "heap_size e' = heap_size e" by blast
  obtain p qs where p: "ps = p # qs" using ps(2) assms(2) by (cases ps) auto
  have f: "ap_first a = p" "0 < p" "cell_at e' p = Freed"
    using ps(1) p r(2) chain_start [of cb_next e "ap_first a" p qs NULL] by auto
  have "length ps \<le> heap_size e'" using chain_length [OF ps(1)] r(3) by simp
  then obtain k where k: "heap_size e' = Suc k" using p by (cases "heap_size e'") simp_all
  let ?a' = "?a\<lparr>ap_D := NULL, ap_mutex := False\<rparr>"
  have "ap_release (a, ob, e) = Inr (map (\<lambda>cb. (cb, d)) cbs, ?a', ob', e')"
    using r(1) a by (simp add: ap_release_def Let_def)
  moreover have ld: "load p e' = Inl Dangling" using f by (simp add: load_def)
  then have "ap_reset d' ?a' e' = Inl Dangling" "ap_registerCallback nocb cb ?a' e' = Inl Dangling"
    "ap_release (?a', ob', e') = Inl Dangling"
    using f k by (simp_all add: ap_reset_def ap_removeAllCallbacks_def free_all_def Let_def
        ap_registerCallback_def ap_addCallback_def seek_last_def ap_release_def ap_destroy_def)
  ultimately show ?thesis by simp
qed

theorem autoptr_reuse_faults_witness:
  "holds (ap_release (exp_a, exp_objs, exp_entries)) (\<lambda>(calls, a', ob', e'). ap_reset 1 a' e' = Inl Dangling
    \<and> ap_registerCallback '''' ''c'' a' e' = Inl Dangling \<and> ap_release (a', ob', e') = Inl Dangling)"
  by (rule autoptr_reuse_faults [OF exp_alive]) simp

end
