(* ===== verification/TW_Mutex.thy ===== *)
theory TW_Mutex
  imports TW_Prelude
begin

text \<open>
  The mutex classes of include/TW/tw_sema.h that the containers take as a template argument: TW_Mutex,
  TW_RecursiveMutex and TW_NoMutex. Threads are numbers. A call returns a code, or the thread sleeps and
  tries again when the mutex is free; a call with a time limit is told whether the limit has passed.
\<close>

section \<open>The codes\<close>

definition TW_MUTEX_SUCCESS :: int where "TW_MUTEX_SUCCESS = 0"
definition TW_MUTEX_BUSY :: int where "TW_MUTEX_BUSY = 16"
definition TW_MUTEX_TIMEOUT :: int where "TW_MUTEX_TIMEOUT = 110"
definition TW_MUTEX_EXCEEDED :: int where "TW_MUTEX_EXCEEDED = 11"

lemmas mutex_codes = TW_MUTEX_SUCCESS_def TW_MUTEX_BUSY_def TW_MUTEX_TIMEOUT_def TW_MUTEX_EXCEEDED_def

section \<open>TW_Mutex\<close>

text \<open>The thread that holds it. Locking it again in that thread sleeps for good; unlocking it in another
  thread is undefined.\<close>

type_synonym tw_mutex = "nat option"

definition mx_new :: tw_mutex where "mx_new = None"

definition mx_acquire :: "nat \<Rightarrow> tw_mutex \<Rightarrow> (int progress \<times> tw_mutex) res" where
  "mx_acquire t m = (case m of None \<Rightarrow> Inr (Done TW_MUTEX_SUCCESS, Some t) | Some _ \<Rightarrow> Inr (Blocked, m))"

definition mx_acquire_timed :: "bool \<Rightarrow> nat \<Rightarrow> tw_mutex \<Rightarrow> (int progress \<times> tw_mutex) res" where
  "mx_acquire_timed late t m = (case m of None \<Rightarrow> Inr (Done TW_MUTEX_SUCCESS, Some t)
     | Some _ \<Rightarrow> Inr (if late then Done TW_MUTEX_TIMEOUT else Blocked, m))"

definition mx_tryAcquire :: "nat \<Rightarrow> tw_mutex \<Rightarrow> (int progress \<times> tw_mutex) res" where
  "mx_tryAcquire t m = (case m of None \<Rightarrow> Inr (Done TW_MUTEX_SUCCESS, Some t)
     | Some _ \<Rightarrow> Inr (Done TW_MUTEX_BUSY, m))"

definition mx_release :: "nat \<Rightarrow> tw_mutex \<Rightarrow> (int progress \<times> tw_mutex) res" where
  "mx_release t m = (if m = Some t then Inr (Done TW_MUTEX_SUCCESS, None) else Inl NotLocked)"

section \<open>TW_RecursiveMutex\<close>

text \<open>The thread that holds it and how often, an \<^verbatim>\<open>unsigned int\<close> of the thread library.\<close>

type_synonym tw_rmutex = "(nat \<times> nat) option"

definition rm_new :: tw_rmutex where "rm_new = None"

definition rm_enter :: "int progress \<Rightarrow> nat \<Rightarrow> tw_rmutex \<Rightarrow> (int progress \<times> tw_rmutex) res" where
  "rm_enter busy t m = (case m of None \<Rightarrow> Inr (Done TW_MUTEX_SUCCESS, Some (t, 1))
     | Some (u, n) \<Rightarrow> if u \<noteq> t then Inr (busy, m)
         else if n = 2 ^ 32 - 1 then Inr (Done TW_MUTEX_EXCEEDED, m)
         else Inr (Done TW_MUTEX_SUCCESS, Some (t, n + 1)))"

definition rm_acquire :: "nat \<Rightarrow> tw_rmutex \<Rightarrow> (int progress \<times> tw_rmutex) res" where
  "rm_acquire = rm_enter Blocked"

definition rm_acquire_timed :: "bool \<Rightarrow> nat \<Rightarrow> tw_rmutex \<Rightarrow> (int progress \<times> tw_rmutex) res" where
  "rm_acquire_timed late = rm_enter (if late then Done TW_MUTEX_TIMEOUT else Blocked)"

definition rm_tryAcquire :: "nat \<Rightarrow> tw_rmutex \<Rightarrow> (int progress \<times> tw_rmutex) res" where
  "rm_tryAcquire = rm_enter (Done TW_MUTEX_BUSY)"

definition rm_release :: "nat \<Rightarrow> tw_rmutex \<Rightarrow> (int progress \<times> tw_rmutex) res" where
  "rm_release t m = (case m of Some (u, n) \<Rightarrow>
     if u = t then Inr (Done TW_MUTEX_SUCCESS, if n = 1 then None else Some (t, n - 1)) else Inl NotLocked
     | None \<Rightarrow> Inl NotLocked)"

section \<open>TW_NoMutex\<close>

definition no_acquire :: "nat \<Rightarrow> unit \<Rightarrow> (int progress \<times> unit) res" where
  "no_acquire t m = Inr (Done 0, m)"

definition no_release :: "nat \<Rightarrow> unit \<Rightarrow> (int progress \<times> unit) res" where
  "no_release t m = Inr (Done 0, m)"

section \<open>Threads that share a mutex\<close>

datatype lockop = Acquire | Acquire_timed bool | Try_acquire | Unlock

fun lock_call :: "(nat \<Rightarrow> 'm \<Rightarrow> (int progress \<times> 'm) res) \<Rightarrow> (bool \<Rightarrow> nat \<Rightarrow> 'm \<Rightarrow> (int progress \<times> 'm) res) \<Rightarrow>
    (nat \<Rightarrow> 'm \<Rightarrow> (int progress \<times> 'm) res) \<Rightarrow> (nat \<Rightarrow> 'm \<Rightarrow> (int progress \<times> 'm) res) \<Rightarrow>
    nat \<Rightarrow> lockop \<Rightarrow> 'm \<Rightarrow> (int progress \<times> 'm) res" where
  "lock_call acq tim tr rel t Acquire m = acq t m"
| "lock_call acq tim tr rel t (Acquire_timed late) m = tim late t m"
| "lock_call acq tim tr rel t Try_acquire m = tr t m"
| "lock_call acq tim tr rel t Unlock m = rel t m"

text \<open>How often each thread is inside after a call: only a call that returns success changes it.\<close>

fun inside :: "nat \<Rightarrow> lockop \<Rightarrow> int progress \<Rightarrow> (nat \<Rightarrow> int) \<Rightarrow> nat \<Rightarrow> int" where
  "inside t Unlock r c = c(t := c t - 1)"
| "inside t _ (Done x) c = (if x = TW_MUTEX_SUCCESS then c(t := c t + 1) else c)"
| "inside t _ Blocked c = c"

text \<open>The calls of all threads in the order they happen; a thread calls \<open>release\<close> only when it is inside.
  \<open>lock_run\<close> fails to be defined where the library does.\<close>

fun lock_run :: "(nat \<Rightarrow> lockop \<Rightarrow> 'm \<Rightarrow> (int progress \<times> 'm) res) \<Rightarrow> (nat \<times> lockop) list \<Rightarrow> (nat \<Rightarrow> int) \<Rightarrow> 'm
    \<Rightarrow> ((nat \<Rightarrow> int) \<times> 'm) res" where
  "lock_run call [] c m = Inr (c, m)"
| "lock_run call ((t, op) # ops) c m = (if op = Unlock \<and> c t \<le> 0 then lock_run call ops c m
     else bindE (call t op m) (\<lambda>(r, m). lock_run call ops (inside t op r c) m))"

locale mutex_class =
  fixes owned :: "'m \<Rightarrow> nat \<Rightarrow> nat"
    and call :: "nat \<Rightarrow> lockop \<Rightarrow> 'm \<Rightarrow> (int progress \<times> 'm) res"
  assumes one_owner: "0 < owned m t \<Longrightarrow> 0 < owned m u \<Longrightarrow> t = u"
    and enter_law: "op \<noteq> Unlock \<Longrightarrow> holds (call t op m) (\<lambda>(r, m').
        if r = Done TW_MUTEX_SUCCESS then owned m' = (owned m)(t := owned m t + 1) else m' = m)"
    and leave_law: "0 < owned m t \<Longrightarrow> holds (call t Unlock m) (\<lambda>(r, m').
        owned m' = (owned m)(t := owned m t - 1))"
begin

lemma lock_run_counts:
  "(\<And>t. c t = int (owned m t)) \<Longrightarrow>
     holds (lock_run call ops c m) (\<lambda>(c', m'). \<forall>t. c' t = int (owned m' t))"
proof (induction ops arbitrary: c m)
  case Nil
  then show ?case by simp
next
  case (Cons x ops)
  obtain t op where x: "x = (t, op)" by (cases x)
  show ?case
  proof (cases "op = Unlock")
    case True
    show ?thesis
    proof (cases "c t \<le> 0")
      case False
      then have "0 < owned m t" using Cons.prems [of t] by simp
      from leave_law [OF this] obtain r m' where r: "call t Unlock m = Inr (r, m')"
        "owned m' = (owned m)(t := owned m t - 1)" by (auto simp: holds_iff)
      have "(c(t := c t - 1)) u = int (owned m' u)" for u
        using Cons.prems [of u] \<open>0 < owned m t\<close> r(2) by auto
      from Cons.IH [of "c(t := c t - 1)" m', OF this] show ?thesis using True False r(1) x by (simp add: fun_upd_def)
    qed (use True x Cons in simp)
  next
    case False
    from enter_law [OF this, of t m] obtain r m' where r: "call t op m = Inr (r, m')"
      "if r = Done TW_MUTEX_SUCCESS then owned m' = (owned m)(t := owned m t + 1) else m' = m"
      by (auto simp: holds_iff)
    have "inside t op r c = (if r = Done TW_MUTEX_SUCCESS then c(t := c t + 1) else c)"
      using False by (cases op; cases r) auto
    then have "inside t op r c u = int (owned m' u)" for u using r(2) Cons.prems [of u] by auto
    from Cons.IH [of "inside t op r c" m', OF this] show ?thesis using False r(1) x by simp
  qed
qed

lemma lock_run_excludes:
  assumes "\<And>t. c t = int (owned m t)"
  shows "holds (lock_run call ops c m) (\<lambda>(c', m'). \<forall>t u. 0 < c' t \<longrightarrow> 0 < c' u \<longrightarrow> t = u)"
  by (rule holds_mono [OF lock_run_counts [of c m ops, OF assms]]) (auto intro: one_owner)

end

definition mx_owned :: "tw_mutex \<Rightarrow> nat \<Rightarrow> nat" where
  "mx_owned m t = (if m = Some t then 1 else 0)"

definition rm_owned :: "tw_rmutex \<Rightarrow> nat \<Rightarrow> nat" where
  "rm_owned m t = (case m of None \<Rightarrow> 0 | Some (u, n) \<Rightarrow> if u = t then n else 0)"

abbreviation mx_call :: "nat \<Rightarrow> lockop \<Rightarrow> tw_mutex \<Rightarrow> (int progress \<times> tw_mutex) res" where
  "mx_call \<equiv> lock_call mx_acquire mx_acquire_timed mx_tryAcquire mx_release"

abbreviation rm_call :: "nat \<Rightarrow> lockop \<Rightarrow> tw_rmutex \<Rightarrow> (int progress \<times> tw_rmutex) res" where
  "rm_call \<equiv> lock_call rm_acquire rm_acquire_timed rm_tryAcquire rm_release"


lemmas mutex_defs = mx_acquire_def mx_acquire_timed_def mx_tryAcquire_def mx_release_def
  rm_acquire_def rm_acquire_timed_def rm_tryAcquire_def rm_enter_def rm_release_def mutex_codes

interpretation mx: mutex_class mx_owned mx_call
proof
  fix t op m
  show "op \<noteq> Unlock \<Longrightarrow> holds (mx_call t op m) (\<lambda>(r, m').
      if r = Done TW_MUTEX_SUCCESS then mx_owned m' = (mx_owned m)(t := mx_owned m t + 1) else m' = m)"
    by (cases op) (auto simp: mutex_defs mx_owned_def split: option.splits)
qed (auto simp: mutex_defs mx_owned_def split: if_splits)

interpretation rm: mutex_class rm_owned rm_call
proof
  fix t op m
  show "op \<noteq> Unlock \<Longrightarrow> holds (rm_call t op m) (\<lambda>(r, m').
      if r = Done TW_MUTEX_SUCCESS then rm_owned m' = (rm_owned m)(t := rm_owned m t + 1) else m' = m)"
    by (cases op) (auto simp: mutex_defs rm_owned_def split: option.splits)
next
  fix m :: tw_rmutex and t
  assume "0 < rm_owned m t"
  then show "holds (rm_call t Unlock m) (\<lambda>(r, m'). rm_owned m' = (rm_owned m)(t := rm_owned m t - 1))"
    by (auto simp: mutex_defs rm_owned_def split: option.splits)
qed (auto simp: mutex_defs rm_owned_def split: option.splits if_splits)

section \<open>Properties\<close>

text \<open>TW_Mutex and TW_RecursiveMutex exclude: however the calls of threads interleave, timed and trying ones
  included, no two threads are inside at once; inside a TW_Mutex a thread is at most once, inside a
  TW_RecursiveMutex as often as it has entered and not left.\<close>
theorem mutexes_exclude:
  "holds (lock_run mx_call ops (\<lambda>_. 0) mx_new) (\<lambda>(c, m). \<forall>t u. 0 < c t \<longrightarrow> 0 < c u \<longrightarrow> t = u \<and> c t = 1)
   \<and> holds (lock_run rm_call ops (\<lambda>_. 0) rm_new) (\<lambda>(c, m). \<forall>t u. 0 < c t \<longrightarrow> 0 < c u \<longrightarrow> t = u)"
proof
  have "holds (lock_run mx_call ops (\<lambda>_. 0) mx_new) (\<lambda>(c, m). \<forall>t. c t = int (mx_owned m t))"
    by (rule mx.lock_run_counts) (simp add: mx_new_def mx_owned_def)
  then show "holds (lock_run mx_call ops (\<lambda>_. 0) mx_new) (\<lambda>(c, m). \<forall>t u. 0 < c t \<longrightarrow> 0 < c u \<longrightarrow> t = u \<and> c t = 1)"
    by (rule holds_mono) (clarsimp simp: mx_owned_def, metis less_irrefl option.inject)
  show "holds (lock_run rm_call ops (\<lambda>_. 0) rm_new) (\<lambda>(c, m). \<forall>t u. 0 < c t \<longrightarrow> 0 < c u \<longrightarrow> t = u)"
    by (rule rm.lock_run_excludes) (simp add: rm_new_def rm_owned_def)
qed

theorem mutexes_exclude_witness:
  "holds (lock_run mx_call [(1, Acquire), (2, Acquire_timed True), (2, Try_acquire), (1, Unlock), (2, Acquire)] (\<lambda>_. 0) mx_new)
    (\<lambda>(c, m). \<forall>t u. 0 < c t \<longrightarrow> 0 < c u \<longrightarrow> t = u \<and> c t = 1)"
  using mutexes_exclude by blast

text \<open>TW_NoMutex lets every thread in.\<close>
theorem no_mutex_excludes_none:
  "holds (no_acquire t m) (\<lambda>(r, m'). r = Done 0 \<and> holds (no_acquire u m') (\<lambda>(r', _). r' = Done 0))"
  by (simp add: no_acquire_def)

end
