(* ===== verification/TW_Task.thy ===== *)
theory TW_Task
  imports TW_SafeFifo TW_Utils
begin

text \<open>
  The classes BaseTask, Task and TaskManager of include/TW/tw_task.h and src/tw_task.cpp: an object that
  runs its virtual method \<open>work\<close> in a thread of its own, and a list of such objects.

  \<open>work\<close> is a function on the parameter, of any type \<open>'v\<close>. A thread goes through the stages of
  \<^verbatim>\<open>do_work\<close>; \<open>startTask\<close> and \<^verbatim>\<open>do_work\<close> are cut where they give up the task's mutex, so that other threads
  can come in between. A thread that has ended stays until it is joined, as in the thread library; joining
  it a second time is undefined, and so is joining with a handle no thread was ever stored in.
\<close>

section \<open>Tasks and threads\<close>

datatype 'v stage =
    T_new            \<comment> \<open>created\<close>
  | T_lwp            \<comment> \<open>has stored its number in the task\<close>
  | T_work 'v        \<comment> \<open>in \<open>work\<close>, with this parameter\<close>
  | T_ret 'v         \<comment> \<open>\<open>work\<close> has returned\<close>
  | T_done 'v        \<comment> \<open>has set \<^verbatim>\<open>_completed\<close> and has yet to return\<close>
  | T_exit 'v        \<comment> \<open>ended, with this value\<close>
  | T_joined

record 'v btask =
  bt_param :: "'v option"
  bt_name :: ptr
  bt_handle :: "nat option"
  bt_mutex :: bool
  bt_running :: bool
  bt_completed :: bool
  bt_retval :: 'v
  bt_lwp :: "64 word"

definition bt_new :: "'v \<Rightarrow> 'v btask" where
  "bt_new null = \<lparr>bt_param = None, bt_name = NULL, bt_handle = None, bt_mutex = False, bt_running = False,
     bt_completed = False, bt_retval = null, bt_lwp = 0\<rparr>"

text \<open>\<^verbatim>\<open>_thread_mutex.acquire(); ... _thread_mutex.release();\<close>\<close>

definition bt_locked :: "('v btask \<Rightarrow> ('r \<times> 'v btask) res) \<Rightarrow> 'v btask \<Rightarrow> ('r \<times> 'v btask) res" where
  "bt_locked f t = bindE (mutex_lock (bt_mutex t)) (\<lambda>m. bindE (f (t\<lparr>bt_mutex := m\<rparr>)) (\<lambda>(r, t).
     bindE (mutex_unlock (bt_mutex t)) (\<lambda>m. Inr (r, t\<lparr>bt_mutex := m\<rparr>))))"

definition bt_getLWP :: "'v btask \<Rightarrow> (64 word \<times> 'v btask) res" where
  "bt_getLWP = bt_locked (\<lambda>t. Inr (bt_lwp t, t))"

definition bt_isRunning :: "'v btask \<Rightarrow> (bool \<times> 'v btask) res" where
  "bt_isRunning = bt_locked (\<lambda>t. Inr (bt_running t, t))"

definition bt_isCompleted :: "'v btask \<Rightarrow> (bool \<times> 'v btask) res" where
  "bt_isCompleted = bt_locked (\<lambda>t. Inr (bt_completed t, t))"

definition bt_getRetval :: "'v btask \<Rightarrow> ('v \<times> 'v btask) res" where
  "bt_getRetval = bt_locked (\<lambda>t. Inr (bt_retval t, t))"

subsection \<open>Names\<close>

definition bt_nameTask :: "string \<Rightarrow> 'v btask \<Rightarrow> string heap \<Rightarrow> ('v btask \<times> string heap) res" where
  "bt_nameTask s t h = bindE (bt_locked (\<lambda>t.
     bindE (if bt_name t \<noteq> NULL then free (bt_name t) h else Inr h) (\<lambda>h.
     case malloc h of (p, h) \<Rightarrow> bindE (construct p s h) (\<lambda>h. Inr (h, t\<lparr>bt_name := p\<rparr>)))) t) (\<lambda>(h, t). Inr (t, h))"

definition bt_get_name :: "'v btask \<Rightarrow> (ptr \<times> 'v btask) res" where
  "bt_get_name = bt_locked (\<lambda>t. Inr (bt_name t, t))"

definition bt_appendName :: "string \<Rightarrow> 'v btask \<Rightarrow> string heap \<Rightarrow> (string \<times> 'v btask) res" where
  "bt_appendName s t h = bindE (bt_get_name t) (\<lambda>(n, t).
     if n \<noteq> NULL then bindE (load n h) (\<lambda>nm. Inr (s @ c_string nm, t))
     else bindE (bt_getLWP t) (\<lambda>(l, t). Inr (s @ ''Task LWP: '' @ c_string (convInt (ucast l) 20), t)))"

section \<open>Starting a task\<close>

text \<open>The threads of the program: the task each runs for, and its stage.\<close>

type_synonym 'v threads = "(nat \<times> 'v stage) list"

definition bt_start_check :: "'v btask \<Rightarrow> (bool \<times> 'v btask) res" where
  "bt_start_check = bt_locked (\<lambda>t. Inr (\<not> bt_running t, t))"

text \<open>\<open>rc\<close> is what \<^verbatim>\<open>pthread_create\<close> returns: 0, or an error with no thread created.\<close>

definition bt_start_create :: "int \<Rightarrow> nat \<Rightarrow> 'v \<Rightarrow> 'v btask \<Rightarrow> 'v threads \<Rightarrow> 'v btask \<times> 'v threads" where
  "bt_start_create rc self val t ths = (let t = t\<lparr>bt_param := Some val\<rparr> in
     if rc = 0 then (t\<lparr>bt_handle := Some (length ths)\<rparr>, ths @ [(self, T_new)]) else (t, ths))"

definition bt_start_running :: "'v btask \<Rightarrow> (unit \<times> 'v btask) res" where
  "bt_start_running = bt_locked (\<lambda>t. Inr ((), t\<lparr>bt_running := True\<rparr>))"

definition bt_startTask :: "int \<Rightarrow> nat \<Rightarrow> 'v \<Rightarrow> 'v btask \<Rightarrow> 'v threads \<Rightarrow> (int \<times> 'v btask \<times> 'v threads) res" where
  "bt_startTask rc self val t ths = bindE (bt_start_check t) (\<lambda>(start, t).
     if start then
       (case bt_start_create rc self val t ths of (t, ths) \<Rightarrow>
        if rc = 0 then bindE (bt_start_running t) (\<lambda>(_, t). Inr (rc, t, ths)) else Inr (rc, t, ths))
     else Inr (-1, t, ths))"

section \<open>The thread\<close>

text \<open>\<^verbatim>\<open>do_work\<close>, stage by stage: \<open>n\<close> is the number the system gives the thread.\<close>

definition bt_do_work :: "('v \<Rightarrow> 'v) \<Rightarrow> 64 word \<Rightarrow> 'v stage \<Rightarrow> 'v btask \<Rightarrow> ('v stage \<times> 'v btask) res" where
  "bt_do_work work n st t = (case st of
       T_new \<Rightarrow> Inr (T_lwp, t\<lparr>bt_lwp := n\<rparr>)
     | T_lwp \<Rightarrow> (case bt_param t of None \<Rightarrow> Inl Uninit | Some p \<Rightarrow> Inr (T_work p, t))
     | T_work p \<Rightarrow> Inr (T_ret (work p), t)
     | T_ret v \<Rightarrow> bt_locked (\<lambda>t. Inr (T_done v, t\<lparr>bt_completed := True\<rparr>)) t
     | T_done v \<Rightarrow> Inr (T_exit v, t)
     | _ \<Rightarrow> Inr (st, t))"

section \<open>Waiting for a task\<close>

text \<open>\<^verbatim>\<open>pthread_join\<close> and \<^verbatim>\<open>pthread_timedjoin_np\<close> with the task's handle. When the time is over the return value
  is what it was.\<close>

definition bt_waitForTask :: "'v btask \<Rightarrow> 'v threads \<Rightarrow> ('v progress \<times> 'v btask \<times> 'v threads) res" where
  "bt_waitForTask t ths = (case bt_handle t of None \<Rightarrow> Inl Uninit
     | Some i \<Rightarrow> (case snd (ths ! i) of
         T_exit v \<Rightarrow> Inr (Done v, t\<lparr>bt_retval := v\<rparr>, ths[i := (fst (ths ! i), T_joined)])
       | T_joined \<Rightarrow> Inl Dangling
       | _ \<Rightarrow> Inr (Blocked, t, ths)))"

definition bt_waitForTask_timed :: "bool \<Rightarrow> 'v btask \<Rightarrow> 'v threads \<Rightarrow> ('v progress \<times> 'v btask \<times> 'v threads) res" where
  "bt_waitForTask_timed late t ths = bindE (bt_waitForTask t ths) (\<lambda>(r, t, ths).
     Inr (if r = Blocked \<and> late then Done (bt_retval t) else r, t, ths))"

section \<open>The task manager\<close>

text \<open>The list holds pointers to tasks; \<open>tasks\<close> is the memory they point to. A task pointer is an index.\<close>

type_synonym 'v world = "'v btask list \<times> 'v threads"

definition tm_addTask :: "nat \<Rightarrow> sfifo \<Rightarrow> nat link heap \<Rightarrow> (sfifo \<times> nat link heap) res" where
  "tm_addTask k f h = sfifo_add k f h"

definition tm_wait :: "nat \<Rightarrow> 'v world \<Rightarrow> ('v progress \<times> 'v world) res" where
  "tm_wait k w = (case w of (ts, ths) \<Rightarrow> if k < length ts
     then bindE (bt_waitForTask (ts ! k) ths) (\<lambda>(r, t, ths). Inr (r, ts[k := t], ths)) else Inl Dangling)"

definition tm_wait_timed :: "bool \<Rightarrow> nat \<Rightarrow> 'v world \<Rightarrow> ('v progress \<times> 'v world) res" where
  "tm_wait_timed late k w = (case w of (ts, ths) \<Rightarrow> if k < length ts
     then bindE (bt_waitForTask_timed late (ts ! k) ths) (\<lambda>(r, t, ths). Inr (r, ts[k := t], ths)) else Inl Dangling)"

text \<open>The loop over the list. It stops where a wait does not return; the iterator then still holds the
  mutex of the list. \<open>wait\<close> is one of the two waits above.\<close>

fun tm_join_loop :: "(nat \<Rightarrow> 'v world \<Rightarrow> ('v progress \<times> 'v world) res) \<Rightarrow> nat \<Rightarrow> ptr \<Rightarrow> nat link heap \<Rightarrow> 'v world
    \<Rightarrow> ((nat \<times> 'v) list progress \<times> ptr \<times> 'v world) res" where
  "tm_join_loop wait 0 look h w = Inl Diverges"
| "tm_join_loop wait (Suc n) look h w = bindE (iter_getNext look h) (\<lambda>(r, look). case r of
       None \<Rightarrow> Inr (Done [], look, w)
     | Some k \<Rightarrow> bindE (wait k w) (\<lambda>(p, w). case p of
         Blocked \<Rightarrow> Inr (Blocked, look, w)
       | Done v \<Rightarrow> bindE (tm_join_loop wait n look h w) (\<lambda>(q, look, w).
           Inr (case q of Done l \<Rightarrow> Done ((k, v) # l) | Blocked \<Rightarrow> Blocked, look, w))))"

definition tm_joinAll :: "(nat \<Rightarrow> 'v world \<Rightarrow> ('v progress \<times> 'v world) res) \<Rightarrow> sfifo \<Rightarrow> nat link heap \<Rightarrow> 'v world
    \<Rightarrow> ((nat \<times> 'v) list progress \<times> sfifo \<times> 'v world) res" where
  "tm_joinAll wait f h w = bindE (sfifo_startIter f) (\<lambda>(look, f).
     bindE (tm_join_loop wait (Suc (heap_size h)) look h w) (\<lambda>(r, look, w). case r of
       Blocked \<Rightarrow> Inr (Blocked, f, w)
     | Done l \<Rightarrow> bindE (sfifo_releaseIter f) (\<lambda>(_, f). Inr (Done l, f, w))))"

text \<open>\<open>shutdownAll\<close>: the loop goes on while \<open>getNext\<close> does \<^emph>\<open>not\<close> find a task, and calls \<open>shutdown\<close> on the
  local variable \<open>task\<close>, which then has no value. The result is the tasks that were shut down.\<close>

fun tm_shutdown_loop :: "nat \<Rightarrow> ptr \<Rightarrow> nat link heap \<Rightarrow> (nat list \<times> ptr) res" where
  "tm_shutdown_loop 0 look h = Inl Diverges"
| "tm_shutdown_loop (Suc n) look h = bindE (iter_getNext look h) (\<lambda>(r, look). case r of
       Some k \<Rightarrow> Inr ([], look)
     | None \<Rightarrow> Inl Uninit)"

definition tm_shutdownAll :: "sfifo \<Rightarrow> nat link heap \<Rightarrow> (nat list \<times> sfifo) res" where
  "tm_shutdownAll f h = bindE (sfifo_startIter f) (\<lambda>(look, f).
     bindE (tm_shutdown_loop (Suc (heap_size h)) look h) (\<lambda>(l, look).
     bindE (sfifo_releaseIter f) (\<lambda>(_, f). Inr (l, f))))"

text \<open>\<open>dumpThreadInfo\<close>; the counter \<open>c\<close> is never changed.\<close>

definition nl :: string where "nl = [CHR 0x0A]"

fun tm_dump_loop :: "nat \<Rightarrow> 32 word \<Rightarrow> string \<Rightarrow> ptr \<Rightarrow> nat link heap \<Rightarrow> string heap \<Rightarrow> 'v btask list
    \<Rightarrow> (string \<times> ptr \<times> 'v btask list) res" where
  "tm_dump_loop 0 c s look h names ts = Inl Diverges"
| "tm_dump_loop (Suc n) c s look h names ts = bindE (iter_getNext look h) (\<lambda>(r, look). case r of
       None \<Rightarrow> Inr (s, look, ts)
     | Some k \<Rightarrow> if k < length ts then
         let s = s @ ''   '' @ c_string (convInt c 20) @ '': '' in
         bindE (bt_appendName s (ts ! k) names) (\<lambda>(s, t).
         bindE (bt_getLWP t) (\<lambda>(l, t).
         let s = s @ '' (LWP:'' @ c_string (convInt (ucast l) 20) @ '')'' @ nl in
         tm_dump_loop n c s look h names (ts[k := t])))
         else Inl Dangling)"

definition tm_dumpThreadInfo :: "sfifo \<Rightarrow> nat link heap \<Rightarrow> string heap \<Rightarrow> 'v btask list \<Rightarrow> (string \<times> sfifo \<times> 'v btask list) res" where
  "tm_dumpThreadInfo f h names ts = (let s = ''TaskManager dump:'' @ nl in
     bindE (sfifo_startIter f) (\<lambda>(look, f).
     bindE (tm_dump_loop (Suc (heap_size h)) 0 s look h names ts) (\<lambda>(s, look, ts).
     bindE (sfifo_releaseIter f) (\<lambda>(_, f). Inr (s, f, ts)))))"

end
