(* ===== verification/TW_TaskManager.thy ===== *)
theory TW_TaskManager
  imports TW_Task
begin

text \<open>
  What the methods of TaskManager do to the tasks in the manager's list, and the properties of tasks
  used by one thread.
\<close>

section \<open>Walking the manager's list\<close>

text \<open>The loop of \<open>joinAll\<close> on the list that the manager's queue represents.\<close>

fun join_list :: "(nat \<Rightarrow> 'v world \<Rightarrow> ('v progress \<times> 'v world) res) \<Rightarrow> nat list \<Rightarrow> 'v world
    \<Rightarrow> ((nat \<times> 'v) list progress \<times> 'v world) res" where
  "join_list wait [] w = Inr (Done [], w)"
| "join_list wait (k # ks) w = bindE (wait k w) (\<lambda>(p, w). case p of
       Blocked \<Rightarrow> Inr (Blocked, w)
     | Done v \<Rightarrow> bindE (join_list wait ks w) (\<lambda>(q, w).
         Inr (case q of Done l \<Rightarrow> Done ((k, v) # l) | Blocked \<Rightarrow> Blocked, w)))"

lemma iter_getNext_cell:
  "cell_at h p = Obj c \<Longrightarrow> iter_getNext p h = Inr (Some (ldat c), lnext c)"
  "iter_getNext NULL h = Inr (None, NULL)"
  by (simp_all add: iter_getNext_def cell_at_Obj_pos)

lemma tm_join_loop_list:
  "chain lnext h look ps NULL \<Longrightarrow> length ps < n \<Longrightarrow>
     bindE (tm_join_loop wait n look h w) (\<lambda>(r, look, w). Inr (r, w)) = join_list wait (map (\<lambda>p. ldat (obj_at h p)) ps) w"
proof (induction ps arbitrary: look n w)
  case Nil
  then show ?case by (cases n) (simp_all add: iter_getNext_cell)
next
  case (Cons p ps)
  then obtain c where c: "look = p" "cell_at h p = Obj c" "chain lnext h (lnext c) ps NULL" by auto
  obtain m where m: "n = Suc m" "length ps < m" using Cons.prems(2) by (cases n) auto
  show ?case
  proof (cases "wait (ldat c) w")
    case (Inr pw)
    obtain q w' where q: "pw = (q, w')" by (cases pw)
    show ?thesis
    proof (cases q)
      case (Done v)
      have "bindE (bindE (tm_join_loop wait m (lnext c) h w') (\<lambda>(q, look, w).
            Inr (case q of Done l \<Rightarrow> Done ((ldat c, v) # l) | Blocked \<Rightarrow> Blocked, look, w))) (\<lambda>(r, look, w). Inr (r, w))
          = bindE (bindE (tm_join_loop wait m (lnext c) h w') (\<lambda>(r, look, w). Inr (r, w))) (\<lambda>(q, w).
            Inr (case q of Done l \<Rightarrow> Done ((ldat c, v) # l) | Blocked \<Rightarrow> Blocked, w))"
        by (simp add: bindE_assoc split_def)
      then show ?thesis using Cons.IH [OF c(3) m(2), of w'] c m Inr q Done by (simp add: iter_getNext_cell)
    qed (use c m Inr q in \<open>simp add: iter_getNext_cell\<close>)
  qed (use c m in \<open>simp add: iter_getNext_cell\<close>)
qed

lemma tm_joinAll_list:
  assumes "sfifo_rep h f ps ks"
  shows "tm_joinAll wait f h w = bindE (join_list wait ks w) (\<lambda>(r, w).
    Inr (r, if r = Blocked then f\<lparr>mtx := True\<rparr> else f, w))"
proof -
  have f: "fifo_rep h f ps ks" "\<not> mtx f" using assms by (simp_all add: sfifo_rep_def)
  have len: "length ps < Suc (heap_size h)" using fifo_repD(6) [OF f(1)] by simp
  have ks: "map (\<lambda>p. ldat (obj_at h p)) ps = ks" using f(1) by (simp add: fifo_rep_def)
  let ?loop = "tm_join_loop wait (Suc (heap_size h)) (out_p f) h w"
  have j: "join_list wait ks w = bindE ?loop (\<lambda>(r, look, w). Inr (r, w))"
    using tm_join_loop_list [OF fifo_repD(1) [OF f(1)] len, of wait w] unfolding ks by (rule sym)
  moreover have "f\<lparr>mtx := False\<rparr> = f" using f(2) by simp
  ultimately show ?thesis
    using f(2) unfolding tm_joinAll_def sfifo_startIter_def sfifo_releaseIter_def Let_def j
    by (cases ?loop) (auto simp del: tm_join_loop.simps split: progress.splits)
qed

section \<open>Joining\<close>

text \<open>A task whose thread has ended with a value, and one whose thread has been joined.\<close>

definition ended :: "nat \<Rightarrow> 'v world \<Rightarrow> 'v \<Rightarrow> bool" where
  "ended k w v \<longleftrightarrow> k < length (fst w) \<and> (\<exists>i. bt_handle (fst w ! k) = Some i \<and> i < length (snd w) \<and> snd w ! i = (k, T_exit v))"

definition reaped :: "nat \<Rightarrow> 'v world \<Rightarrow> bool" where
  "reaped k w \<longleftrightarrow> k < length (fst w) \<and> (\<exists>i. bt_handle (fst w ! k) = Some i \<and> i < length (snd w) \<and> snd w ! i = (k, T_joined))"

lemma tm_wait_ended:
  assumes "ended k w v"
  obtains w' where "tm_wait k w = Inr (Done v, w')" and "reaped k w'" and "bt_retval (fst w' ! k) = v"
    and "\<forall>j u. j \<noteq> k \<longrightarrow> ended j w u \<longrightarrow> ended j w' u" and "\<forall>j. reaped j w \<longrightarrow> reaped j w'"
    and "\<forall>j. j \<noteq> k \<longrightarrow> fst w' ! j = fst w ! j"
proof -
  obtain ts ths where w: "w = (ts, ths)" by (cases w)
  obtain i where i: "k < length ts" "bt_handle (ts ! k) = Some i" "i < length ths" "ths ! i = (k, T_exit v)"
    using assms by (auto simp: ended_def w)
  let ?w = "(ts[k := (ts ! k)\<lparr>bt_retval := v\<rparr>], ths[i := (k, T_joined)])"
  show ?thesis
  proof (rule that [of ?w])
    show "tm_wait k w = Inr (Done v, ?w)" using i by (simp add: w tm_wait_def bt_waitForTask_def)
    show "reaped k ?w" using i by (simp add: reaped_def)
    show "bt_retval (fst ?w ! k) = v" using i by simp
    show "\<forall>j u. j \<noteq> k \<longrightarrow> ended j w u \<longrightarrow> ended j ?w u"
    proof (intro allI impI)
      fix j u assume jk: "j \<noteq> k" and e: "ended j w u"
      obtain m where m: "bt_handle (ts ! j) = Some m" "m < length ths" "ths ! m = (j, T_exit u)" "j < length ts"
        using e by (auto simp: ended_def w)
      then have "m \<noteq> i" using i(4) jk by auto
      then show "ended j ?w u" using m jk by (simp add: ended_def)
    qed
    show "\<forall>j. reaped j w \<longrightarrow> reaped j ?w"
    proof (intro allI impI)
      fix j assume e: "reaped j w"
      obtain m where m: "bt_handle (ts ! j) = Some m" "m < length ths" "ths ! m = (j, T_joined)" "j < length ts"
        using e by (auto simp: reaped_def w)
      then have "m \<noteq> i" "j \<noteq> k" using i by auto
      then show "reaped j ?w" using m by (simp add: reaped_def)
    qed
    show "\<forall>j. j \<noteq> k \<longrightarrow> fst ?w ! j = fst w ! j" by (simp add: w)
  qed
qed

lemma tm_wait_reaped: "reaped k w \<Longrightarrow> tm_wait k w = Inl Dangling"
  by (auto simp: reaped_def tm_wait_def bt_waitForTask_def split: prod.splits)

lemma join_list_distinct:
  "distinct ks \<Longrightarrow> (\<forall>k \<in> set ks. ended k w (val k)) \<Longrightarrow>
     \<exists>w'. join_list tm_wait ks w = Inr (Done (map (\<lambda>k. (k, val k)) ks), w')
       \<and> (\<forall>k \<in> set ks. reaped k w' \<and> bt_retval (fst w' ! k) = val k) \<and> (\<forall>j. reaped j w \<longrightarrow> reaped j w')
       \<and> (\<forall>j. j \<notin> set ks \<longrightarrow> fst w' ! j = fst w ! j)"
proof (induction ks arbitrary: w)
  case Nil
  then show ?case by simp
next
  case (Cons k ks)
  have "ended k w (val k)" using Cons.prems(2) by simp
  then obtain w1 where w1: "tm_wait k w = Inr (Done (val k), w1)" "reaped k w1" "bt_retval (fst w1 ! k) = val k"
    "\<forall>j u. j \<noteq> k \<longrightarrow> ended j w u \<longrightarrow> ended j w1 u" "\<forall>j. reaped j w \<longrightarrow> reaped j w1"
    "\<forall>j. j \<noteq> k \<longrightarrow> fst w1 ! j = fst w ! j" by (rule tm_wait_ended)
  have "\<forall>j \<in> set ks. ended j w1 (val j)" using w1(4) Cons.prems by auto
  with Cons.IH [of w1] Cons.prems(1) obtain w' where w': "join_list tm_wait ks w1 = Inr (Done (map (\<lambda>k. (k, val k)) ks), w')"
    "\<forall>k \<in> set ks. reaped k w' \<and> bt_retval (fst w' ! k) = val k" "\<forall>j. reaped j w1 \<longrightarrow> reaped j w'"
    "\<forall>j. j \<notin> set ks \<longrightarrow> fst w' ! j = fst w1 ! j" by auto
  show ?case
    by (rule exI [of _ w']) (use w1 w' Cons.prems(1) in auto)
qed

lemma join_list_repeated:
  "(\<forall>k \<in> set ks. if k \<in> D then reaped k w else ended k w (val k)) \<Longrightarrow> \<not> (distinct ks \<and> set ks \<inter> D = {}) \<Longrightarrow>
     join_list tm_wait ks w = Inl Dangling"
proof (induction ks arbitrary: w D)
  case Nil
  then show ?case by simp
next
  case (Cons k ks)
  show ?case
  proof (cases "k \<in> D")
    case True
    then show ?thesis using Cons.prems(1) tm_wait_reaped by fastforce
  next
    case False
    then have "ended k w (val k)" using Cons.prems(1) by simp
    then obtain w1 where w1: "tm_wait k w = Inr (Done (val k), w1)" "reaped k w1"
      "\<forall>j u. j \<noteq> k \<longrightarrow> ended j w u \<longrightarrow> ended j w1 u" "\<forall>j. reaped j w \<longrightarrow> reaped j w1" by (rule tm_wait_ended)
    have "\<forall>j \<in> set ks. if j \<in> insert k D then reaped j w1 else ended j w1 (val j)"
      using Cons.prems(1) w1(2-4) by auto
    moreover have "\<not> (distinct ks \<and> set ks \<inter> insert k D = {})" using Cons.prems(2) False by auto
    ultimately have "join_list tm_wait ks w1 = Inl Dangling" by (rule Cons.IH)
    then show ?thesis using w1(1) by simp
  qed
qed

section \<open>The text of a number\<close>

definition int_text :: "int \<Rightarrow> string" where
  "int_text v = (if v < 0 then CHR ''-'' # to_base 10 (nat (- v)) else to_base 10 (nat v))"

lemma digits_no_zero: "\<forall>n\<in>set [0..<16]. digit n \<noteq> CHR 0x00"
  by code_simp

lemma to_base_no_zero: "CHR 0x00 \<notin> set (to_base 10 n)"
proof (induction "10 :: nat" n rule: to_base.induct)
  case (1 n)
  have d: "digit m \<noteq> CHR 0x00" if "m < 10" for m using digits_no_zero that by simp
  show ?case
  proof (cases "n < 10")
    case True
    then show ?thesis using d [OF True] by (simp add: to_base.simps)
  next
    case False
    then show ?thesis using 1 d [of "n mod 10"] by (subst to_base.simps) auto
  qed
qed

lemma c_string_convInt: "c_string (convInt v 20) = int_text (sint v)"
proof -
  let ?n = "nat \<bar>sint v\<bar>"
  have "\<bar>sint v\<bar> \<le> 2 ^ 31" using sint_lt [of v] sint_ge [of v] by auto
  then have "?n < 10 ^ 10" by simp
  from length_to_base [OF _ _ this] have len: "length (int_text (sint v)) \<le> 11"
    by (cases "sint v < 0") (auto simp: int_text_def)
  have "convInt v 20 = int_text (sint v) @ [CHR 0x00]"
    using len by (simp add: convInt_def snprintf_def int_text_def [symmetric])
  moreover have "\<forall>c \<in> set (int_text (sint v)). c \<noteq> CHR 0x00"
    using to_base_no_zero by (auto simp: int_text_def)
  ultimately show ?thesis by (simp add: c_string_def takeWhile_append)
qed

section \<open>The dump\<close>

lemma bt_locked_free: "\<not> bt_mutex t \<Longrightarrow> (\<And>t'. f t' = Inr (g t', t')) \<Longrightarrow> bt_locked f t = Inr (g (t\<lparr>bt_mutex := True\<rparr>), t)"
  by (cases t) (simp add: bt_locked_def)

lemma bt_read_simps:
  "\<not> bt_mutex t \<Longrightarrow> bt_getLWP t = Inr (bt_lwp t, t)"
  "\<not> bt_mutex t \<Longrightarrow> bt_get_name t = Inr (bt_name t, t)"
  "\<not> bt_mutex t \<Longrightarrow> bt_isRunning t = Inr (bt_running t, t)"
  "\<not> bt_mutex t \<Longrightarrow> bt_isCompleted t = Inr (bt_completed t, t)"
  "\<not> bt_mutex t \<Longrightarrow> bt_getRetval t = Inr (bt_retval t, t)"
  by (simp_all add: bt_getLWP_def bt_get_name_def bt_isRunning_def bt_isCompleted_def bt_getRetval_def bt_locked_free)

definition name_text :: "string heap \<Rightarrow> 'v btask \<Rightarrow> string" where
  "name_text names t = (if bt_name t \<noteq> NULL then c_string (obj_at names (bt_name t))
     else ''Task LWP: '' @ int_text (sint (ucast (bt_lwp t) :: 32 word)))"

definition dump_line :: "string heap \<Rightarrow> 'v btask \<Rightarrow> string" where
  "dump_line names t = ''   0: '' @ name_text names t @ '' (LWP:'' @ int_text (sint (ucast (bt_lwp t) :: 32 word)) @ '')'' @ nl"

definition readable :: "string heap \<Rightarrow> 'v btask \<Rightarrow> bool" where
  "readable names t \<longleftrightarrow> \<not> bt_mutex t \<and> (bt_name t = NULL \<or> (\<exists>s. cell_at names (bt_name t) = Obj s))"

lemma bt_appendName_text:
  "readable names t \<Longrightarrow> bt_appendName s t names = Inr (s @ name_text names t, t)"
  by (auto simp: readable_def bt_appendName_def bt_read_simps name_text_def c_string_convInt)

lemma zero_text: "int_text 0 = ''0''"
  by (simp add: int_text_def to_base.simps digit_def)

lemma tm_dump_loop_text:
  "chain lnext h look ps NULL \<Longrightarrow> length ps < n \<Longrightarrow> map (\<lambda>p. ldat (obj_at h p)) ps = ks \<Longrightarrow>
   (\<forall>k \<in> set ks. k < length ts \<and> readable names (ts ! k)) \<Longrightarrow>
     tm_dump_loop n 0 s look h names ts = Inr (s @ concat (map (\<lambda>k. dump_line names (ts ! k)) ks), NULL, ts)"
proof (induction ps arbitrary: look n s ks)
  case Nil
  then show ?case by (cases n) (simp_all add: iter_getNext_cell)
next
  case (Cons p ps)
  then obtain c where c: "look = p" "cell_at h p = Obj c" "chain lnext h (lnext c) ps NULL" by auto
  obtain m where m: "n = Suc m" "length ps < m" using Cons.prems(2) by (cases n) auto
  let ?k = "ldat c" and ?ks = "map (\<lambda>p. ldat (obj_at h p)) ps"
  have ks: "ks = ?k # ?ks" using Cons.prems(3) c(2) by auto
  then have k: "?k < length ts" "readable names (ts ! ?k)" "\<not> bt_mutex (ts ! ?k)"
    using Cons.prems(4) by (auto simp: readable_def)
  have rest: "\<forall>k \<in> set ?ks. k < length ts \<and> readable names (ts ! k)" using Cons.prems(4) ks by simp
  have upd: "ts[?k := ts ! ?k] = ts" by simp
  show ?case
    using Cons.IH [OF c(3) m(2) refl rest] c m k
    by (simp add: iter_getNext_cell bt_appendName_text bt_read_simps c_string_convInt zero_text Let_def ks dump_line_def)
qed

section \<open>Properties\<close>

text \<open>Two tasks whose threads have ended, and a manager that holds both, to evaluate the methods on.\<close>

definition ext_tasks :: "nat btask list" where
  "ext_tasks = [(bt_new 0)\<lparr>bt_handle := Some 0, bt_running := True, bt_completed := True, bt_lwp := 11\<rparr>,
     (bt_new 0)\<lparr>bt_handle := Some 1, bt_running := True, bt_completed := True, bt_lwp := 12, bt_name := 1\<rparr>]"

definition ext_world :: "nat world" where
  "ext_world = (ext_tasks, [(0, T_exit 7), (1, T_exit 8)])"

definition ext_heap :: "nat link heap" where
  "ext_heap = \<lparr>mem = [Obj \<lparr>ldat = 1, lnext = 2\<rparr>, Obj \<lparr>ldat = 0, lnext = NULL\<rparr>], room = 2\<rparr>"

definition ext_list :: sfifo where
  "ext_list = \<lparr>enabled = True, in_p = 2, out_p = 1, remain = 2, mtx = False, block_cnt = 0, waiting = 0\<rparr>"

definition ext_names :: "string heap" where
  "ext_names = \<lparr>mem = [Obj ''io'']  , room = 3\<rparr>"

lemma ext_rep: "sfifo_rep ext_heap ext_list [1, 2] [1, 0]"
  by (simp add: sfifo_rep_def fifo_rep_def ext_heap_def ext_list_def cell_at_def obj_at_def nth_Cons')

text \<open>\<open>joinAll\<close> waits for every task of the manager once, in the order they were added: when their threads
  have ended and no task was added twice, it returns with the value of each task in the task, every thread
  joined, the other tasks untouched and the list unlocked; a task that was added twice is joined a second time,
  which is undefined.\<close>
theorem joinAll_joins_each:
  assumes "sfifo_rep h f ps ks" and "\<forall>k \<in> set ks. ended k w (val k)"
  shows "if distinct ks
    then holds (tm_joinAll tm_wait f h w) (\<lambda>(r, f', w'). r = Done (map (\<lambda>k. (k, val k)) ks) \<and> f' = f
      \<and> (\<forall>k \<in> set ks. reaped k w' \<and> bt_retval (fst w' ! k) = val k) \<and> (\<forall>j. j \<notin> set ks \<longrightarrow> fst w' ! j = fst w ! j))
    else tm_joinAll tm_wait f h w = Inl Dangling"
proof (cases "distinct ks")
  case True
  from join_list_distinct [OF True assms(2)] obtain w' where
    "join_list tm_wait ks w = Inr (Done (map (\<lambda>k. (k, val k)) ks), w')"
    "\<forall>k \<in> set ks. reaped k w' \<and> bt_retval (fst w' ! k) = val k" "\<forall>j. j \<notin> set ks \<longrightarrow> fst w' ! j = fst w ! j" by blast
  then show ?thesis using True by (simp add: tm_joinAll_list [OF assms(1)])
next
  case False
  have "join_list tm_wait ks w = Inl Dangling"
    by (rule join_list_repeated [of ks "{}"]) (use assms(2) False in auto)
  then show ?thesis using False by (simp add: tm_joinAll_list [OF assms(1)])
qed

theorem joinAll_joins_each_witness:
  "holds (tm_joinAll tm_wait ext_list ext_heap ext_world) (\<lambda>(r, f', w'). r = Done [(1, 8), (0, 7)] \<and> f' = ext_list
     \<and> (\<forall>k \<in> {1, 0}. reaped k w' \<and> bt_retval (fst w' ! k) = k + 7) \<and> (\<forall>j. j \<notin> {1, 0} \<longrightarrow> fst w' ! j = ext_tasks ! j))"
proof -
  have "\<forall>k \<in> set [1, 0]. ended k ext_world (k + 7)"
    by (simp add: ended_def ext_world_def ext_tasks_def bt_new_def)
  from joinAll_joins_each [OF ext_rep this] show ?thesis by (simp add: ext_world_def)
qed

text \<open>\<open>shutdownAll\<close> never shuts a task down: when the manager has tasks it does nothing, and when it has none
  it calls \<open>shutdown\<close> through a pointer that has no value.\<close>
theorem shutdownAll_shuts_none_down:
  assumes "sfifo_rep h f ps ks"
  shows "tm_shutdownAll f h = (if ks = [] then Inl Uninit else Inr ([], f))"
proof -
  have f: "chain lnext h (out_p f) ps NULL" "length ks = length ps" "\<not> mtx f"
    using assms fifo_repD(1,3) by (auto simp: sfifo_rep_def)
  have u: "f\<lparr>mtx := False\<rparr> = f" using f(3) by simp
  show ?thesis
  proof (cases ps)
    case Nil
    then show ?thesis using f
      by (simp add: tm_shutdownAll_def sfifo_startIter_def iter_getNext_cell Let_def)
  next
    case (Cons p qs)
    then obtain c where "out_p f = p" "cell_at h p = Obj c" using f(1) by auto
    then show ?thesis using f(2,3) u Cons
      by (auto simp: tm_shutdownAll_def sfifo_startIter_def sfifo_releaseIter_def iter_getNext_cell Let_def)
  qed
qed

theorem shutdownAll_shuts_none_down_witness:
  "tm_shutdownAll ext_list ext_heap = Inr ([], ext_list)"
  using shutdownAll_shuts_none_down [OF ext_rep] by simp

text \<open>\<open>dumpThreadInfo\<close> gives a headline and one line for each task of the manager, in the order they were added,
  with the name of the task or else its number, and its number; every line is numbered 0. It changes neither
  the tasks nor the list.\<close>
theorem dumpThreadInfo_text:
  assumes "sfifo_rep h f ps ks" and "\<forall>k \<in> set ks. k < length ts \<and> readable names (ts ! k)"
  shows "tm_dumpThreadInfo f h names ts
    = Inr (''TaskManager dump:'' @ nl @ concat (map (\<lambda>k. dump_line names (ts ! k)) ks), f, ts)"
proof -
  have f: "fifo_rep h f ps ks" "\<not> mtx f" using assms(1) by (simp_all add: sfifo_rep_def)
  have len: "length ps < Suc (heap_size h)" using fifo_repD(6) [OF f(1)] by simp
  have ks: "map (\<lambda>p. ldat (obj_at h p)) ps = ks" using f(1) by (simp add: fifo_rep_def)
  have "f\<lparr>mtx := False\<rparr> = f" using f(2) by simp
  then show ?thesis
    using tm_dump_loop_text [OF fifo_repD(1) [OF f(1)] len ks assms(2)] f(2)
    by (simp add: tm_dumpThreadInfo_def sfifo_startIter_def sfifo_releaseIter_def Let_def del: tm_dump_loop.simps)
qed

theorem dumpThreadInfo_text_witness:
  "tm_dumpThreadInfo ext_list ext_heap ext_names ext_tasks = Inr (''TaskManager dump:'' @ nl @
     ''   0: io (LWP:12)'' @ nl @ ''   0: Task LWP: 11 (LWP:11)'' @ nl, ext_list, ext_tasks)"
proof -
  have r: "\<forall>k \<in> set [1, 0]. k < length ext_tasks \<and> readable ext_names (ext_tasks ! k)"
    by (simp add: ext_tasks_def readable_def ext_names_def cell_at_def bt_new_def)
  show ?thesis
    using dumpThreadInfo_text [OF ext_rep r]
    by (simp add: dump_line_def name_text_def ext_tasks_def ext_names_def obj_at_def cell_at_def bt_new_def
        c_string_def int_text_def to_base.simps digit_def)
qed

text \<open>What a task's one thread does, and what the methods then return: \<open>startTask\<close> starts a thread only when
  the task is not running; once \<open>work\<close> has returned the task is completed, \<open>waitForTask\<close> returns the value
  \<open>work\<close> gave for the parameter and leaves it to \<open>getRetval\<close>; and \<open>isRunning\<close> stays true.\<close>
theorem task_life:
  assumes "bt_startTask 0 self val t ths = Inr (0, t1, ths1)" and "\<not> bt_mutex t" and "\<not> bt_running t"
  shows "bt_startTask rc self val2 t1 ths1 = Inr (-1, t1, ths1)
    \<and> holds (bindE (bt_do_work work n T_new t1) (\<lambda>(a, t). bindE (bt_do_work work n a t) (\<lambda>(b, t).
        bindE (bt_do_work work n b t) (\<lambda>(c, t). bindE (bt_do_work work n c t) (\<lambda>(d, t). bt_do_work work n d t))))) (\<lambda>(st, t2). st = T_exit (work val)
          \<and> holds (bt_isCompleted t2) (\<lambda>(b, _). b) \<and> holds (bt_isRunning t2) (\<lambda>(b, _). b) \<and> holds (bt_getLWP t2) (\<lambda>(l, _). l = n)
          \<and> holds (bt_waitForTask t2 (ths1[length ths := (self, st)])) (\<lambda>(r, t3, ths3). r = Done (work val)
            \<and> holds (bt_getRetval t3) (\<lambda>(v, _). v = work val) \<and> bt_waitForTask t3 ths3 = Inl Dangling))"
proof -
  have t1: "t1 = t\<lparr>bt_param := Some val, bt_handle := Some (length ths), bt_running := True\<rparr>" "ths1 = ths @ [(self, T_new)]"
    using assms by (auto simp: bt_startTask_def bt_start_check_def bt_start_create_def bt_start_running_def bt_locked_def Let_def)
  have m: "\<not> bt_mutex t1" using t1(1) assms(2) by simp
  show ?thesis
    using m by (simp add: t1 assms(2) bt_startTask_def bt_start_check_def bt_locked_def bt_do_work_def bt_read_simps bt_waitForTask_def)
qed

definition ext_started :: "nat btask" where
  "ext_started = (bt_new 0)\<lparr>bt_param := Some 5, bt_handle := Some 0, bt_running := True\<rparr>"

theorem task_life_witness:
  "bt_startTask 0 3 5 (bt_new 0) [] = Inr (0, ext_started, [(3, T_new)])
    \<and> bt_startTask 0 3 9 ext_started [(3, T_new)] = Inr (-1, ext_started, [(3, T_new)])"
proof -
  have s: "bt_startTask 0 3 5 (bt_new 0) [] = Inr (0, ext_started, [(3, T_new)])"
    by (simp add: bt_startTask_def bt_start_check_def bt_start_create_def bt_start_running_def bt_locked_def
        bt_new_def Let_def ext_started_def)
  have "\<not> bt_mutex (bt_new 0)" "\<not> bt_running (bt_new 0)" by (simp_all add: bt_new_def)
  from task_life [OF s this, of 0 9 Suc 77] s show ?thesis by blast
qed

end
