(* ===== verification/TW_TaskThreads.thy ===== *)
theory TW_TaskThreads
  imports TW_Task
begin

text \<open>
  Threads that share one task (src/tw_task.cpp): clients that call \<open>startTask\<close> and \<open>waitForTask\<close>, and the
  threads the task has started. A step is one critical section, or one call of the thread library, of one
  thread. \<open>startTask\<close> is three of them: it looks at \<^verbatim>\<open>_running\<close>, creates the thread, sets \<^verbatim>\<open>_running\<close>.
\<close>

section \<open>The system and its steps\<close>

datatype 'v client =
    C_idle
  | C_checked bool 'v     \<comment> \<open>\<open>startTask\<close> has looked at \<^verbatim>\<open>_running\<close>\<close>
  | C_created int 'v      \<comment> \<open>\<open>startTask\<close> has called \<^verbatim>\<open>pthread_create\<close>, with this result\<close>
  | C_started int         \<comment> \<open>\<open>startTask\<close> has returned this\<close>
  | C_got 'v              \<comment> \<open>\<open>waitForTask\<close> has returned this\<close>

record 'v tsys =
  the_task :: "'v btask"
  threads :: "'v threads"
  clients :: "'v client list"

definition tsys_init :: "'v \<Rightarrow> nat \<Rightarrow> 'v tsys" where
  "tsys_init null k = \<lparr>the_task = bt_new null, threads = [], clients = replicate k C_idle\<rparr>"

fun at_rest :: "'v client \<Rightarrow> bool" where
  "at_rest (C_checked b v) = False"
| "at_rest (C_created rc v) = False"
| "at_rest _ = True"

text \<open>The clients in \<open>S\<close> call \<open>startTask\<close>, all of them \<open>waitForTask\<close>. A client waits only where the thread library
  defines it.\<close>

inductive task_step :: "('v \<Rightarrow> 'v) \<Rightarrow> nat set \<Rightarrow> 'v tsys \<Rightarrow> 'v tsys \<Rightarrow> bool" for work S where
  check: "c < length (clients s) \<Longrightarrow> c \<in> S \<Longrightarrow> at_rest (clients s ! c) \<Longrightarrow>
    bt_start_check (the_task s) = Inr (b, t) \<Longrightarrow>
    task_step work S s (s\<lparr>the_task := t, clients := (clients s)[c := C_checked b v]\<rparr>)"
| refuse: "c < length (clients s) \<Longrightarrow> clients s ! c = C_checked False v \<Longrightarrow>
    task_step work S s (s\<lparr>clients := (clients s)[c := C_started (-1)]\<rparr>)"
| create: "c < length (clients s) \<Longrightarrow> clients s ! c = C_checked True v \<Longrightarrow>
    bt_start_create rc 0 v (the_task s) (threads s) = (t, ths) \<Longrightarrow>
    task_step work S s (s\<lparr>the_task := t, threads := ths, clients := (clients s)[c := C_created rc v]\<rparr>)"
| fail: "c < length (clients s) \<Longrightarrow> clients s ! c = C_created rc v \<Longrightarrow> rc \<noteq> 0 \<Longrightarrow>
    task_step work S s (s\<lparr>clients := (clients s)[c := C_started rc]\<rparr>)"
| running: "c < length (clients s) \<Longrightarrow> clients s ! c = C_created 0 v \<Longrightarrow>
    bt_start_running (the_task s) = Inr (u, t) \<Longrightarrow>
    task_step work S s (s\<lparr>the_task := t, clients := (clients s)[c := C_started 0]\<rparr>)"
| thread: "i < length (threads s) \<Longrightarrow> bt_do_work work n (snd (threads s ! i)) (the_task s) = Inr (st, t) \<Longrightarrow>
    task_step work S s (s\<lparr>the_task := t, threads := (threads s)[i := (fst (threads s ! i), st)]\<rparr>)"
| wait: "c < length (clients s) \<Longrightarrow> at_rest (clients s ! c) \<Longrightarrow>
    bt_waitForTask (the_task s) (threads s) = Inr (Done v, t, ths) \<Longrightarrow>
    task_step work S s (s\<lparr>the_task := t, threads := ths, clients := (clients s)[c := C_got v]\<rparr>)"

inductive task_reach :: "('v \<Rightarrow> 'v) \<Rightarrow> nat set \<Rightarrow> 'v \<Rightarrow> nat \<Rightarrow> 'v tsys \<Rightarrow> bool" for work S null k where
  reach_init: "task_reach work S null k (tsys_init null k)"
| reach_step: "task_reach work S null k s \<Longrightarrow> task_step work S s s' \<Longrightarrow> task_reach work S null k s'"

section \<open>One client that starts the task\<close>

text \<open>The stages that fit the parameter, and whether the task is completed in them.\<close>

fun stage_ok :: "('v \<Rightarrow> 'v) \<Rightarrow> 'v \<Rightarrow> 'v stage \<Rightarrow> bool" where
  "stage_ok work p (T_work q) \<longleftrightarrow> q = p"
| "stage_ok work p (T_ret v) \<longleftrightarrow> v = work p"
| "stage_ok work p (T_done v) \<longleftrightarrow> v = work p"
| "stage_ok work p (T_exit v) \<longleftrightarrow> v = work p"
| "stage_ok work p _ \<longleftrightarrow> True"

fun stage_ended :: "'v stage \<Rightarrow> bool" where
  "stage_ended (T_done v) = True"
| "stage_ended (T_exit v) = True"
| "stage_ended T_joined = True"
| "stage_ended _ = False"

definition not_begun :: "'v tsys \<Rightarrow> bool" where
  "not_begun s \<longleftrightarrow> threads s = [] \<and> \<not> bt_running (the_task s) \<and> \<not> bt_completed (the_task s)
     \<and> bt_handle (the_task s) = None
     \<and> (\<forall>c < length (clients s). \<forall>v. clients s ! c \<noteq> C_got v \<and> clients s ! c \<noteq> C_created 0 v)"

definition begun :: "('v \<Rightarrow> 'v) \<Rightarrow> nat \<Rightarrow> 'v tsys \<Rightarrow> bool" where
  "begun work c0 s \<longleftrightarrow> (\<exists>p st. threads s = [(0, st)] \<and> bt_param (the_task s) = Some p
     \<and> bt_handle (the_task s) = Some 0 \<and> stage_ok work p st \<and> bt_completed (the_task s) = stage_ended st
     \<and> (bt_running (the_task s) \<or> (c0 < length (clients s) \<and> (\<exists>v. clients s ! c0 = C_created 0 v)))
     \<and> (\<forall>v. c0 < length (clients s) \<longrightarrow> clients s ! c0 \<noteq> C_checked True v)
     \<and> (\<forall>c < length (clients s). \<forall>v. clients s ! c = C_got v \<longrightarrow> v = work p))"

definition one_inv :: "('v \<Rightarrow> 'v) \<Rightarrow> nat \<Rightarrow> 'v tsys \<Rightarrow> bool" where
  "one_inv work c0 s \<longleftrightarrow> \<not> bt_mutex (the_task s)
     \<and> (\<forall>c < length (clients s). c \<noteq> c0 \<longrightarrow> at_rest (clients s ! c))
     \<and> (not_begun s \<or> begun work c0 s)"

lemma bt_section_simps:
  "\<not> bt_mutex t \<Longrightarrow> bt_start_check t = Inr (\<not> bt_running t, t)"
  "\<not> bt_mutex t \<Longrightarrow> bt_start_running t = Inr ((), t\<lparr>bt_running := True\<rparr>)"
  by (cases t; simp add: bt_start_check_def bt_start_running_def bt_locked_def)+

lemma bt_do_work_inv:
  assumes "bt_do_work work n st t = Inr (st', t')" and "\<not> bt_mutex t" and "bt_param t = Some p"
    and "stage_ok work p st" and "bt_completed t = stage_ended st"
  shows "stage_ok work p st' \<and> bt_completed t' = stage_ended st' \<and> \<not> bt_mutex t' \<and> bt_param t' = Some p
    \<and> bt_handle t' = bt_handle t \<and> bt_running t' = bt_running t"
  using assms by (cases st) (auto simp: bt_do_work_def bt_locked_def)

lemma one_inv_create:
  assumes "one_inv work c0 s" and "c < length (clients s)" and "clients s ! c = C_checked True v"
    and "bt_start_create rc 0 v (the_task s) (threads s) = (t, ths)"
  shows "one_inv work c0 (s\<lparr>the_task := t, threads := ths, clients := (clients s)[c := C_created rc v]\<rparr>)"
proof -
  have c: "c = c0" using assms(1-3) by (fastforce simp: one_inv_def)
  have nb: "not_begun s" using assms(1-3) c by (auto simp: one_inv_def begun_def)
  show ?thesis
  proof (cases "rc = 0")
    case True
    have "begun work c0 (s\<lparr>the_task := t, threads := ths, clients := (clients s)[c := C_created rc v]\<rparr>)"
      using nb assms(2,4) c True by (auto simp: begun_def not_begun_def bt_start_create_def nth_list_update)
    then show ?thesis using assms True by (auto simp: one_inv_def nth_list_update bt_start_create_def c)
  next
    case False
    have "not_begun (s\<lparr>the_task := t, threads := ths, clients := (clients s)[c := C_created rc v]\<rparr>)"
      using nb assms(2,4) c False by (auto simp: not_begun_def bt_start_create_def nth_list_update)
    then show ?thesis using assms False by (auto simp: one_inv_def nth_list_update bt_start_create_def c)
  qed
qed

lemma one_inv_client:
  assumes "one_inv work c0 s" and "c < length (clients s)" and "at_rest w"
    and "\<forall>v. w \<noteq> C_got v" and "\<forall>v. clients s ! c \<noteq> C_created 0 v"
  shows "one_inv work c0 (s\<lparr>clients := (clients s)[c := w]\<rparr>)"
proof -
  have "not_begun s \<Longrightarrow> not_begun (s\<lparr>clients := (clients s)[c := w]\<rparr>)"
    using assms(2-4) by (auto simp: not_begun_def nth_list_update)
  moreover have "begun work c0 s \<Longrightarrow> begun work c0 (s\<lparr>clients := (clients s)[c := w]\<rparr>)"
    using assms(2-5) by (auto simp: begun_def nth_list_update)
  ultimately show ?thesis using assms(1-3) by (auto simp: one_inv_def nth_list_update)
qed

lemma one_inv_step:
  assumes "task_step work {c0} s s'" and "one_inv work c0 s"
  shows "one_inv work c0 s'"
  using assms
proof (cases rule: task_step.cases)
  case (check c b t v)
  then have "t = the_task s" "b = (\<not> bt_running t)" using assms(2) by (auto simp: one_inv_def bt_section_simps)
  moreover have "not_begun s \<Longrightarrow> not_begun s'" using check calculation by (auto simp: not_begun_def nth_list_update)
  moreover have "begun work c0 s \<Longrightarrow> begun work c0 s'"
    using check calculation(1,2) by (auto simp: begun_def nth_list_update)
  ultimately show ?thesis using check assms(2) by (auto simp: one_inv_def nth_list_update)
next
  case (refuse c v)
  then show ?thesis using assms(2) by (simp add: one_inv_client)
next
  case (create c v rc t ths)
  then show ?thesis using one_inv_create [OF assms(2)] by simp
next
  case (fail c rc v)
  then show ?thesis using assms(2) by (simp add: one_inv_client)
next
  case (running c v u t)
  then have "t = (the_task s)\<lparr>bt_running := True\<rparr>" using assms(2) by (simp add: one_inv_def bt_section_simps)
  moreover have "\<not> not_begun s" using running by (auto simp: not_begun_def)
  moreover have "begun work c0 s \<Longrightarrow> begun work c0 s'"
    using running(1,2,3) calculation(1) by (auto simp: begun_def nth_list_update)
  ultimately show ?thesis using running assms(2) by (auto simp: one_inv_def nth_list_update)
next
  case (thread i n st t)
  then have b: "begun work c0 s" using assms(2) by (auto simp: one_inv_def not_begun_def)
  obtain p st0 where b0: "threads s = [(0, st0)]" "bt_param (the_task s) = Some p" "stage_ok work p st0"
      "bt_completed (the_task s) = stage_ended st0"
    using b unfolding begun_def by blast
  have d: "stage_ok work p st \<and> bt_completed t = stage_ended st \<and> \<not> bt_mutex t \<and> bt_param t = Some p
      \<and> bt_handle t = bt_handle (the_task s) \<and> bt_running t = bt_running (the_task s)"
    using thread(2,3) b0 assms(2) by (intro bt_do_work_inv) (auto simp: one_inv_def)
  then have "begun work c0 s'" using b b0 thread(1,2) by (auto simp: begun_def)
  then show ?thesis using d thread(1) assms(2) by (auto simp: one_inv_def)
next
  case (wait c v t ths)
  then have b: "begun work c0 s"
    using assms(2) by (auto simp: one_inv_def not_begun_def bt_waitForTask_def)
  then obtain p st where b0: "threads s = [(0, st)]" "bt_handle (the_task s) = Some 0" "stage_ok work p st"
      "bt_completed (the_task s) = stage_ended st" "bt_param (the_task s) = Some p"
    unfolding begun_def by blast
  have w: "st = T_exit v" "t = (the_task s)\<lparr>bt_retval := v\<rparr>" "ths = [(0, T_joined)]"
    using wait(4) b0 by (auto simp: bt_waitForTask_def split: stage.splits)
  have "begun work c0 s'" using b b0 w wait(1,2,3) by (auto simp: begun_def nth_list_update)
  then show ?thesis using w wait(1-3) assms(2) by (auto simp: one_inv_def nth_list_update)
qed

text \<open>C25. As long as one client only calls \<open>startTask\<close>, however often and however its calls, the waits of
  the other clients and the steps of the thread interleave, at most one thread is ever created; \<^verbatim>\<open>_completed\<close> is set exactly
  from the last critical section of that thread on, before and after its end; and whatever \<open>waitForTask\<close> gives a client is the result of \<open>work\<close> on the parameter of the call.\<close>
theorem single_starter:
  assumes "task_reach work {c0} null k s"
  shows "length (threads s) \<le> 1
    \<and> (bt_completed (the_task s) \<longleftrightarrow> (\<exists>st. threads s = [(0, st)] \<and> stage_ended st))
    \<and> (\<forall>c < length (clients s). \<forall>v. clients s ! c = C_got v
         \<longrightarrow> (\<exists>p. bt_param (the_task s) = Some p \<and> v = work p))"
proof -
  have "one_inv work c0 s" using assms
  proof induction
    case reach_init
    then show ?case by (auto simp: one_inv_def not_begun_def tsys_init_def bt_new_def)
  next
    case (reach_step s s')
    then show ?case by (blast intro: one_inv_step)
  qed
  then have "not_begun s \<or> begun work c0 s" by (simp add: one_inv_def)
  then show ?thesis
  proof
    assume "not_begun s"
    then show ?thesis by (auto simp: not_begun_def)
  next
    assume "begun work c0 s"
    then obtain p st where "threads s = [(0, st)]" "bt_param (the_task s) = Some p"
        "bt_completed (the_task s) = stage_ended st"
        "\<forall>c < length (clients s). \<forall>v. clients s ! c = C_got v \<longrightarrow> v = work p"
      unfolding begun_def by blast
    then show ?thesis by auto
  qed
qed


section \<open>Two clients that start the task\<close>

lemma task_reach_steps:
  assumes "(task_step work S)\<^sup>*\<^sup>* s s'" and "task_reach work S null k s"
  shows "task_reach work S null k s'"
  using assms by induction (auto intro: reach_step)

lemma steps_check:
  assumes "(task_step work S)\<^sup>*\<^sup>* a s" and "c < length (clients s)" and "c \<in> S" and "at_rest (clients s ! c)"
    and "\<not> bt_mutex (the_task s)"
    and "s' = s\<lparr>clients := (clients s)[c := C_checked (\<not> bt_running (the_task s)) v]\<rparr>"
  shows "(task_step work S)\<^sup>*\<^sup>* a s'"
  using rtranclp.rtrancl_into_rtrancl [OF assms(1) task_step.check [OF assms(2-4) bt_section_simps(1) [OF assms(5)]]] assms(6)
  by simp

lemma steps_create:
  assumes "(task_step work S)\<^sup>*\<^sup>* a s" and "c < length (clients s)" and "clients s ! c = C_checked True v"
    and "s' = s\<lparr>the_task := (the_task s)\<lparr>bt_param := Some v, bt_handle := Some (length (threads s))\<rparr>,
           threads := threads s @ [(0, T_new)], clients := (clients s)[c := C_created 0 v]\<rparr>"
  shows "(task_step work S)\<^sup>*\<^sup>* a s'"
  by (rule rtranclp.rtrancl_into_rtrancl [OF assms(1)], unfold assms(4), rule task_step.create [OF assms(2,3)])
    (simp add: bt_start_create_def)

lemma steps_running:
  assumes "(task_step work S)\<^sup>*\<^sup>* a s" and "c < length (clients s)" and "clients s ! c = C_created 0 v"
    and "\<not> bt_mutex (the_task s)"
    and "s' = s\<lparr>the_task := (the_task s)\<lparr>bt_running := True\<rparr>, clients := (clients s)[c := C_started 0]\<rparr>"
  shows "(task_step work S)\<^sup>*\<^sup>* a s'"
  using rtranclp.rtrancl_into_rtrancl [OF assms(1) task_step.running [OF assms(2,3) bt_section_simps(2) [OF assms(4)]]] assms(5)
  by simp

lemma steps_thread:
  assumes "(task_step work S)\<^sup>*\<^sup>* a s" and "i < length (threads s)"
    and "bt_do_work work n (snd (threads s ! i)) (the_task s) = Inr (st, t)"
    and "s' = s\<lparr>the_task := t, threads := (threads s)[i := (fst (threads s ! i), st)]\<rparr>"
  shows "(task_step work S)\<^sup>*\<^sup>* a s'"
  using rtranclp.rtrancl_into_rtrancl [OF assms(1) task_step.thread [OF assms(2,3)]] assms(4) by simp

text \<open>Two clients that call \<open>startTask\<close> on the same task, with \<open>x\<close> and with \<open>y\<close>, can both be told that they started it:
  the flag \<^verbatim>\<open>_running\<close> is looked at in one critical section and set in another. The task then has two
  threads, both of them in \<open>work\<close> with \<open>y\<close>; \<open>x\<close> is lost, and the handle is that of the second thread only.\<close>
theorem start_races:
  "\<exists>s s'. task_reach work {0, 1} null 2 s \<and> clients s = [C_checked True x, C_checked True y]
     \<and> (task_step work {0, 1})\<^sup>*\<^sup>* s s' \<and> clients s' = [C_started 0, C_started 0]
     \<and> threads s' = [(0, T_work y), (0, T_work y)] \<and> bt_handle (the_task s') = Some 1"
proof -
  let ?t = "\<lambda>p hd r. \<lparr>bt_param = p, bt_name = NULL, bt_handle = hd, bt_mutex = False, bt_running = r,
     bt_completed = False, bt_retval = null, bt_lwp = 0\<rparr>"
  let ?s = "\<lambda>t ths cs. \<lparr>the_task = t, threads = ths, clients = cs\<rparr>"
  let ?E = "\<lambda>s. (task_step work {0, 1})\<^sup>*\<^sup>* (?s (?t None None False) [] [C_idle, C_idle]) s"
  let ?c = "?s (?t None None False) [] [C_checked True x, C_checked True y]"
  let ?R = "\<lambda>s. (task_step work {0, 1})\<^sup>*\<^sup>* ?c s"
  have "?E (?s (?t None None False) [] [C_checked True x, C_idle])"
    by (rule steps_check [where c = 0 and v = x, OF rtranclp.rtrancl_refl]) simp_all
  then have "?E ?c" by (rule steps_check [where c = 1 and v = y]) simp_all
  then have r2: "task_reach work {0, 1} null 2 ?c"
    using task_reach_steps reach_init [of work "{0, 1}" null 2]
    by (force simp: tsys_init_def bt_new_def numeral_2_eq_2)
  have "?R (?s (?t (Some x) (Some 0) False) [(0, T_new)] [C_created 0 x, C_checked True y])"
    by (rule steps_create [where c = 0 and v = x, OF rtranclp.rtrancl_refl]) simp_all
  then have "?R (?s (?t (Some y) (Some 1) False) [(0, T_new), (0, T_new)] [C_created 0 x, C_created 0 y])"
    by (rule steps_create [where c = 1 and v = y]) simp_all
  then have "?R (?s (?t (Some y) (Some 1) True) [(0, T_new), (0, T_new)] [C_started 0, C_created 0 y])"
    by (rule steps_running [where c = 0 and v = x]) simp_all
  then have "?R (?s (?t (Some y) (Some 1) True) [(0, T_new), (0, T_new)] [C_started 0, C_started 0])"
    by (rule steps_running [where c = 1 and v = y]) simp_all
  then have "?R (?s (?t (Some y) (Some 1) True) [(0, T_lwp), (0, T_new)] [C_started 0, C_started 0])"
    by (rule steps_thread [where i = 0 and n = 0]) (simp_all add: bt_do_work_def)
  then have "?R (?s (?t (Some y) (Some 1) True) [(0, T_work y), (0, T_new)] [C_started 0, C_started 0])"
    by (rule steps_thread [where i = 0 and n = 0]) (simp_all add: bt_do_work_def)
  then have "?R (?s (?t (Some y) (Some 1) True) [(0, T_work y), (0, T_lwp)] [C_started 0, C_started 0])"
    by (rule steps_thread [where i = 1 and n = 0]) (simp_all add: bt_do_work_def)
  then have "?R (?s (?t (Some y) (Some 1) True) [(0, T_work y), (0, T_work y)] [C_started 0, C_started 0])"
    by (rule steps_thread [where i = 1 and n = 0]) (simp_all add: bt_do_work_def)
  with r2 show ?thesis by (intro exI conjI) (assumption | simp)+
qed

theorem single_starter_witness:
  "\<exists>s. task_reach (\<lambda>v. v + 1 :: int) {0} 0 1 s \<and> length (threads s) = 1 \<and> length (threads s) \<le> 1"
proof -
  let ?t = "\<lambda>p hd. \<lparr>bt_param = p, bt_name = NULL, bt_handle = hd, bt_mutex = False, bt_running = False,
     bt_completed = False, bt_retval = 0, bt_lwp = 0\<rparr>"
  let ?i = "\<lparr>the_task = ?t None None, threads = [], clients = [C_idle]\<rparr>"
  let ?s = "\<lparr>the_task = ?t (Some 7) (Some 0), threads = [(0, T_new)], clients = [C_created 0 7]\<rparr>"
  let ?E = "\<lambda>s. (task_step (\<lambda>v. v + 1 :: int) {0})\<^sup>*\<^sup>* ?i s"
  have "?E \<lparr>the_task = ?t None None, threads = [], clients = [C_checked True 7]\<rparr>"
    by (rule steps_check [where c = 0 and v = 7, OF rtranclp.rtrancl_refl]) simp_all
  then have e: "?E ?s" by (rule steps_create [where c = 0 and v = 7]) simp_all
  have "tsys_init 0 1 = ?i" by (simp add: tsys_init_def bt_new_def)
  then have "task_reach (\<lambda>v. v + 1 :: int) {0} 0 1 ?i" by (metis reach_init)
  then have "task_reach (\<lambda>v. v + 1 :: int) {0} 0 1 ?s" by (rule task_reach_steps [OF e])
  then show ?thesis using single_starter [of "\<lambda>v. v + 1" 0 0 1 ?s] by force
qed

end
