(* ===== verification/TW_StringMap.thy ===== *)
theory TW_StringMap
  imports TW_KHash32Ops TW_Utils
begin

text \<open>
  Strings as keys: the class CStrCont and the maps TW_StringMapGeneric and TW_StringStringMap of
  include/TW/tw_stringmap.h and src/tw_stringmap.cpp, over the table TW_KHash_32.

  CStrCont is modelled over a heap of strings. The maps see a key as the text it points to, since its hash
  and its comparison read nothing else. The copies that the map makes of its keys and of the strings in its objects, with a \<^verbatim>\<open>malloc\<close> each whose
  result is not looked at, are texts: the memory they take is not counted. The objects of a TW_StringStringMap, CStrCont again, are values
  with their text and their flag \<^verbatim>\<open>weak\<close>.
\<close>

section \<open>CStrCont\<close>

record cstr =
  cs_s :: ptr
  cs_weak :: bool

definition cs_new :: cstr where
  "cs_new = \<lparr>cs_s = NULL, cs_weak = False\<rparr>"

definition cs_wrap :: "ptr \<Rightarrow> cstr" where
  "cs_wrap p = cs_new\<lparr>cs_s := p, cs_weak := True\<rparr>"

definition cs_makeWeak :: "cstr \<Rightarrow> cstr" where
  "cs_makeWeak c = c\<lparr>cs_weak := True\<rparr>"

text \<open>\<^verbatim>\<open>strcpy\<close> copies up to the zero; \<^verbatim>\<open>strlen\<close> has read the string before the memory is asked for.\<close>

definition cs_copyfrom :: "cstr \<Rightarrow> cstr \<Rightarrow> string heap \<Rightarrow> (cstr \<times> string heap) res" where
  "cs_copyfrom c src S =
     (if cs_s src \<noteq> NULL then
        bindE (load (cs_s src) S) (\<lambda>t. case malloc S of (p, S) \<Rightarrow>
        bindE (construct p (c_string t) S) (\<lambda>S. Inr (c\<lparr>cs_weak := False, cs_s := p\<rparr>, S)))
      else Inr (c\<lparr>cs_s := NULL\<rparr>, S))"

definition cs_copy :: "cstr \<Rightarrow> string heap \<Rightarrow> (cstr \<times> string heap) res" where
  "cs_copy src S = cs_copyfrom cs_new src S"

definition cs_destroy :: "cstr \<Rightarrow> string heap \<Rightarrow> string heap res" where
  "cs_destroy c S = (if cs_s c \<noteq> NULL \<and> \<not> cs_weak c then free (cs_s c) S else Inr S)"

text \<open>\<open>operator=\<close> of an object that is not the object itself.\<close>

definition cs_assign :: "cstr \<Rightarrow> cstr \<Rightarrow> string heap \<Rightarrow> (cstr \<times> string heap) res" where
  "cs_assign c src S =
     bindE (if cs_s c \<noteq> NULL \<and> \<not> cs_weak c then bindE (free (cs_s c) S) (\<lambda>S. Inr (c\<lparr>cs_s := NULL\<rparr>, S))
            else Inr (c, S)) (\<lambda>(c, S).
     let c = c\<lparr>cs_weak := cs_weak src\<rparr> in
     if \<not> cs_weak src then cs_copyfrom c src S else Inr (c\<lparr>cs_s := cs_s src\<rparr>, S))"

section \<open>The hash and the comparison of keys\<close>

definition cs_hash :: "cstr \<Rightarrow> string heap \<Rightarrow> 64 word res" where
  "cs_hash v S = bindE (load (cs_s v) S) (\<lambda>t. let t = c_string t in
     bindE (data_hash_Hsieh (Some (map of_char t @ [0])) (of_nat (length t))) (\<lambda>h. Inr (ucast h)))"

definition StringMapG_eqstrP :: "cstr \<Rightarrow> cstr \<Rightarrow> string heap \<Rightarrow> bool res" where
  "StringMapG_eqstrP k l S = bindE (load (cs_s k) S) (\<lambda>t. bindE (load (cs_s l) S) (\<lambda>u. Inr (c_string t = c_string u)))"

definition StringMap_eqstrP :: "bool \<Rightarrow> cstr \<Rightarrow> cstr \<Rightarrow> string heap \<Rightarrow> bool res" where
  "StringMap_eqstrP same k l S = (if same \<or> cs_s k = cs_s l then Inr True else StringMapG_eqstrP k l S)"

text \<open>The same, of the texts.\<close>

definition text_hash :: "string \<Rightarrow> 64 word" where
  "text_hash t = (case data_hash_Hsieh (Some (map of_char t @ [0])) (of_nat (length t)) of
     Inr h \<Rightarrow> ucast h | Inl _ \<Rightarrow> 0)"

definition text_eq :: "string \<Rightarrow> string \<Rightarrow> bool" where
  "text_eq t u \<longleftrightarrow> t = u"

interpretation texts: hashing "hash_func text_hash" text_eq
  by unfold_locales (auto simp: text_eq_def)

section \<open>TW_StringMapGeneric\<close>

text \<open>\<^verbatim>\<open>sizeof(CStrCont)\<close>: a pointer and a flag.\<close>

definition cstr_bytes :: nat where
  "cstr_bytes = 16"

text \<open>The text of the key of an operation. A null pointer is read where the key is hashed: always when something
  is added, otherwise only when the table has buckets.\<close>

definition key_text :: "bool \<Rightarrow> ptr \<Rightarrow> (string, 'd) khash32 \<Rightarrow> string heap \<Rightarrow> string res" where
  "key_text adds key s S = (if \<not> adds \<and> n_buckets (khmap s) = 0 then Inr []
     else bindE (load (cs_s (cs_wrap key)) S) (\<lambda>t. Inr (c_string t)))"

type_synonym ('d, 'r) smap_op =
  "(string, 'd) khash32 \<Rightarrow> 'd heap \<Rightarrow> string heap \<Rightarrow> ('r \<times> (string, 'd) khash32 \<times> 'd heap) res"

definition sm_addReplace :: "ptr \<Rightarrow> 'd \<Rightarrow> ('d, bool) smap_op" where
  "sm_addReplace key dat s H S = bindE (key_text True key s S) (\<lambda>k.
     locked (addReplace cstr_bytes (hash_func text_hash) text_eq k dat) s H)"

definition sm_addReplace_old :: "ptr \<Rightarrow> 'd \<Rightarrow> 'd \<Rightarrow> ('d, bool \<times> 'd) smap_op" where
  "sm_addReplace_old key dat olddat s H S = bindE (key_text True key s S) (\<lambda>k.
     locked (addReplace_old cstr_bytes (hash_func text_hash) text_eq k dat olddat) s H)"

definition sm_addReplaceNew :: "'d \<Rightarrow> ptr \<Rightarrow> ('d, ptr) smap_op" where
  "sm_addReplaceNew new key s H S = bindE (key_text True key s S) (\<lambda>k.
     locked (addReplaceNew cstr_bytes (hash_func text_hash) text_eq new k) s H)"

definition sm_addNoreplaceNew :: "'d \<Rightarrow> ptr \<Rightarrow> ('d, ptr) smap_op" where
  "sm_addNoreplaceNew new key s H S = bindE (key_text True key s S) (\<lambda>k.
     locked (addNoreplaceNew cstr_bytes (hash_func text_hash) text_eq new k) s H)"

definition sm_remove :: "ptr \<Rightarrow> ('d, bool) smap_op" where
  "sm_remove key s H S = bindE (key_text False key s S) (\<lambda>k.
     locked (remove (hash_func text_hash) text_eq k) s H)"

definition sm_remove_fill :: "ptr \<Rightarrow> 'd \<Rightarrow> ('d, bool \<times> 'd) smap_op" where
  "sm_remove_fill key fill s H S = bindE (key_text False key s S) (\<lambda>k.
     locked (remove_fill (hash_func text_hash) text_eq k fill) s H)"

definition sm_find_fill :: "ptr \<Rightarrow> 'd \<Rightarrow> ('d, bool \<times> 'd) smap_op" where
  "sm_find_fill key fill s H S = bindE (key_text False key s S) (\<lambda>k.
     locked (find_fill (hash_func text_hash) text_eq k fill) s H)"

definition sm_find :: "ptr \<Rightarrow> ('d, ptr) smap_op" where
  "sm_find key s H S = bindE (key_text False key s S) (\<lambda>k.
     locked (find_ptr (hash_func text_hash) text_eq k) s H)"

definition sm_findOrNew :: "'d \<Rightarrow> ptr \<Rightarrow> ('d, ptr) smap_op" where
  "sm_findOrNew new key s H S = bindE (key_text True key s S) (\<lambda>k.
     locked (findOrNew cstr_bytes (hash_func text_hash) text_eq new k) s H)"

text \<open>The key at an iterator: \<^verbatim>\<open>HashIterator::key()\<close> returns null at the end.\<close>

definition smiter_key :: "(string, 'd) khash32 \<Rightarrow> khint \<Rightarrow> string res" where
  "smiter_key s i = bindE (hiter_key s i) (\<lambda>r. case r of None \<Rightarrow> Inl NullDeref | Some k \<Rightarrow> Inr k)"

section \<open>TW_StringStringMap\<close>

text \<open>An object: the string it holds, if any, and \<^verbatim>\<open>weak\<close>. A copy of an object owns its string.\<close>

record cstr_val =
  cv_text :: "string option"
  cv_weak :: bool

definition cv_new :: cstr_val where
  "cv_new = \<lparr>cv_text = None, cv_weak = False\<rparr>"

definition cv_wrap :: "string option \<Rightarrow> cstr_val" where
  "cv_wrap t = \<lparr>cv_text = t, cv_weak = True\<rparr>"

definition cv_copy :: "cstr_val \<Rightarrow> cstr_val" where
  "cv_copy v = \<lparr>cv_text = cv_text v, cv_weak = False\<rparr>"

text \<open>\<^verbatim>\<open>&(d->s)\<close>: of a null \<open>d\<close> it is the null pointer, since \<open>s\<close> is the first member. \<open>dat\<close> is what the parameter
  points to.\<close>

definition ss_addReplace :: "ptr \<Rightarrow> string option \<Rightarrow> (cstr_val, bool) smap_op" where
  "ss_addReplace key dat = sm_addReplace key (cv_copy (cv_wrap dat))"

definition ss_addReplace_old :: "ptr \<Rightarrow> string option \<Rightarrow> string option \<Rightarrow> (cstr_val, bool \<times> string option) smap_op" where
  "ss_addReplace_old key dat olddat s H S =
     bindE (sm_addReplace_old key (cv_copy (cv_wrap dat)) cv_new s H S) (\<lambda>((ret, old), s, H).
     Inr ((ret, if ret then cv_text old else olddat), s, H))"

definition ss_addReplaceNew :: "ptr \<Rightarrow> (cstr_val, ptr) smap_op" where
  "ss_addReplaceNew = sm_addReplaceNew cv_new"

definition ss_addNoreplaceNew :: "ptr \<Rightarrow> (cstr_val, ptr) smap_op" where
  "ss_addNoreplaceNew = sm_addNoreplaceNew cv_new"

definition ss_remove :: "ptr \<Rightarrow> (cstr_val, bool) smap_op" where
  "ss_remove = sm_remove"

definition ss_remove_fill :: "ptr \<Rightarrow> string option \<Rightarrow> (cstr_val, bool \<times> string option) smap_op" where
  "ss_remove_fill key fill s H S = bindE (sm_remove_fill key cv_new s H S) (\<lambda>((ret, f), s, H).
     Inr ((ret, if ret then cv_text f else fill), s, H))"

definition ss_find_fill :: "ptr \<Rightarrow> string option \<Rightarrow> (cstr_val, bool \<times> string option) smap_op" where
  "ss_find_fill key fill s H S = bindE (sm_find_fill key cv_new s H S) (\<lambda>((ret, f), s, H).
     Inr ((ret, if ret then cv_text f else fill), s, H))"

text \<open>This one calls \<open>makeWeak\<close> on the object in the map, before it tests whether there is one.\<close>

definition ss_find :: "ptr \<Rightarrow> (cstr_val, ptr) smap_op" where
  "ss_find key s H S = bindE (sm_find key s H S) (\<lambda>(r, s, H).
     bindE (modify r (\<lambda>v. v\<lparr>cv_weak := True\<rparr>) H) (\<lambda>H. Inr (r, s, H)))"

definition ss_findOrNew :: "ptr \<Rightarrow> (cstr_val, ptr) smap_op" where
  "ss_findOrNew = sm_findOrNew cv_new"

definition ssiter_key :: "(string, cstr_val) khash32 \<Rightarrow> khint \<Rightarrow> string res" where
  "ssiter_key = smiter_key"

definition ssiter_data :: "(string, cstr_val) khash32 \<Rightarrow> khint \<Rightarrow> cstr_val heap \<Rightarrow> string option res" where
  "ssiter_data s i H = bindE (hiter_data s i) (\<lambda>r.
     if r \<noteq> NULL then bindE (load r H) (\<lambda>v. Inr (cv_text v)) else Inr None)"

end
