(* ===== verification/TW_StringMapProps.thy ===== *)
theory TW_StringMapProps
  imports TW_StringMap TW_KHash32Props TW_Chain
begin

text \<open>
  The string maps are maps on texts: what the hash table promises for its keys, carried over to pointers to
  strings; and what the destructor of a CStrCont gives back.
\<close>

section \<open>A key is its text\<close>

lemma data_hash_ok: "\<exists>h. data_hash_Hsieh (Some (map of_char t @ [0])) (of_nat (length t)) = Inr h"
proof -
  have "sint (of_nat n :: 32 word) \<le> int n" for n
  proof (cases "0 \<le> sint (of_nat n :: 32 word)")
    case True
    from unat_sint_pos [OF this] have "sint (of_nat n :: 32 word) = int (unat (of_nat n :: 32 word))" using True by simp
    also have "unat (of_nat n :: 32 word) \<le> n" by (simp add: unat_of_nat)
    finally show ?thesis by simp
  qed simp
  then have "sint (of_nat (length t) :: 32 word) \<le> int (length (map of_char t :: 8 word list))" by simp
  from hsieh_reads [OF this] show ?thesis by blast
qed

lemma key_is_its_text:
  assumes "cell_at S (cs_s c) = Obj t" and "cell_at S (cs_s d) = Obj u"
  shows "cs_hash c S = Inr (text_hash (c_string t))"
    and "StringMapG_eqstrP c d S = Inr (text_eq (c_string t) (c_string u))"
    and "StringMap_eqstrP (c = d) c d S = Inr (text_eq (c_string t) (c_string u))"
proof -
  obtain h where "data_hash_Hsieh (Some (map of_char (c_string t) @ [0])) (of_nat (length (c_string t))) = Inr h"
    using data_hash_ok by blast
  then show "cs_hash c S = Inr (text_hash (c_string t))"
    using assms by (simp add: cs_hash_def text_hash_def Let_def)
  show "StringMapG_eqstrP c d S = Inr (text_eq (c_string t) (c_string u))"
    using assms by (simp add: StringMapG_eqstrP_def text_eq_def)
  then show "StringMap_eqstrP (c = d) c d S = Inr (text_eq (c_string t) (c_string u))"
    using assms by (auto simp: StringMap_eqstrP_def text_eq_def)
qed

section \<open>A run of operations\<close>

datatype 'd scmd =
    S_addReplace ptr 'd
  | S_remove ptr 'd
  | S_find ptr 'd
  | S_removeAll

definition scmd_op :: "'d scmd \<Rightarrow> ('d, bool \<times> 'd option) smap_op" where
  "scmd_op c s H S = (case c of
     S_addReplace k d \<Rightarrow> bindE (sm_addReplace k d s H S) (\<lambda>(b, s, H). Inr ((b, None), s, H))
   | S_remove k d \<Rightarrow> bindE (sm_remove_fill k d s H S) (\<lambda>((b, d), s, H). Inr ((b, Some d), s, H))
   | S_find k d \<Rightarrow> bindE (sm_find_fill k d s H S) (\<lambda>((b, d), s, H). Inr ((b, Some d), s, H))
   | S_removeAll \<Rightarrow> bindE (locked removeAll s H) (\<lambda>(b, s, H). Inr ((b, None), s, H)))"

fun smap_run :: "'d scmd list \<Rightarrow> ('d, (bool \<times> 'd option) list) smap_op" where
  "smap_run [] s H S = Inr ([], s, H)"
| "smap_run (c # cs) s H S = bindE (scmd_op c s H S) (\<lambda>(r, s, H).
     bindE (smap_run cs s H S) (\<lambda>(rs, s, H). Inr (r # rs, s, H)))"

text \<open>The commands on the texts, and the keys of a command.\<close>

definition text_at :: "string heap \<Rightarrow> ptr \<Rightarrow> string" where
  "text_at S p = c_string (obj_at S p)"

fun text_cmd :: "string heap \<Rightarrow> 'd scmd \<Rightarrow> (string, 'd) kcmd" where
  "text_cmd S (S_addReplace k d) = CAddReplace (text_at S k) d"
| "text_cmd S (S_remove k d) = CRemove (text_at S k) d"
| "text_cmd S (S_find k d) = CFind (text_at S k) d"
| "text_cmd S S_removeAll = CRemoveAll"

fun scmd_keys :: "'d scmd \<Rightarrow> ptr set" where
  "scmd_keys (S_addReplace k d) = {k}"
| "scmd_keys (S_remove k d) = {k}"
| "scmd_keys (S_find k d) = {k}"
| "scmd_keys S_removeAll = {}"

definition is_string :: "string heap \<Rightarrow> ptr \<Rightarrow> bool" where
  "is_string S p \<longleftrightarrow> (\<exists>t. cell_at S p = Obj t)"

lemma key_text_ok:
  "is_string S k \<Longrightarrow> key_text adds k s S = Inr (if \<not> adds \<and> n_buckets (khmap s) = 0 then [] else text_at S k)"
  by (auto simp: key_text_def is_string_def cs_wrap_def text_at_def)

lemma locked_post:
  "bindE (locked f s H) (\<lambda>(r, s, H). Inr (g r, s, H)) = locked (\<lambda>m H. bindE (f m H) (\<lambda>(r, m, H). Inr (g r, m, H))) s H"
  by (auto simp: locked_def bindE_def split: sum.splits prod.splits)

lemma locked_post_fill:
  "bindE (locked f s H) (\<lambda>((b, d), s, H). Inr ((b, Some d), s, H))
    = locked (\<lambda>m H. bindE (f m H) (\<lambda>((b, d), m, H). Inr ((b, Some d), m, H))) s H"
  by (auto simp: locked_def bindE_def split: sum.splits prod.splits)

text \<open>With no buckets the key does not matter.\<close>

lemma no_buckets:
  assumes "n_buckets m = 0"
  shows "remove_fill hash eq k d m H = remove_fill hash eq l d m H"
    and "find_fill hash eq k d m H = find_fill hash eq l d m H"
  using assms by (simp_all add: remove_fill_def find_fill_def kh_get_A_def)

lemma locked_cong: "f (khmap s) H = g (khmap s) H \<Longrightarrow> locked f s H = locked g s H"
  by (simp add: locked_def)

lemma scmd_is_kcmd:
  assumes "\<forall>k \<in> scmd_keys c. is_string S k"
  shows "scmd_op c s H S = locked (kcmd_body cstr_bytes (hash_func text_hash) text_eq (text_cmd S c)) s H"
proof (cases c)
  case (S_addReplace k d)
  then show ?thesis using assms
    by (simp add: scmd_op_def sm_addReplace_def key_text_ok locked_post kcmd_body_def)
      (rule locked_cong, simp add: kcmd_body_def)
next
  case (S_remove k d)
  then show ?thesis using assms
    by (simp add: scmd_op_def sm_remove_fill_def key_text_ok locked_post_fill)
      (auto intro!: locked_cong simp: kcmd_body_def no_buckets [of "khmap s" _ _ "[]" d H "text_at S k"])
next
  case (S_find k d)
  then show ?thesis using assms
    by (simp add: scmd_op_def sm_find_fill_def key_text_ok locked_post_fill)
      (auto intro!: locked_cong simp: kcmd_body_def no_buckets [of "khmap s" _ _ "[]" d H "text_at S k"])
next
  case S_removeAll
  then show ?thesis
    by (simp add: scmd_op_def locked_post) (rule locked_cong, simp add: kcmd_body_def)
qed

lemma smap_run_is_khash_run:
  "\<forall>c \<in> set cs. \<forall>k \<in> scmd_keys c. is_string S k \<Longrightarrow>
    smap_run cs s H S = khash_run cstr_bytes (hash_func text_hash) text_eq (map (text_cmd S) cs) s H"
  by (induction cs arbitrary: s H) (simp_all add: scmd_is_kcmd)

section \<open>Properties\<close>

text \<open>C39. A TW_StringMapGeneric is a map on texts: for every sequence of operations on a new one, with keys that point
  to strings, each returns what a map from texts returns, so that two pointers to equal strings are the same
  key; the map then holds what that map holds, and its destructor gives back the memory of all objects. (While there is memory, and for fewer
  than 2 ^ 24 operations, so that no array of the table is too big for an \<^verbatim>\<open>int\<close>. The copies of the keys are texts here:
  their memory is not part of the model, and the code does not look at whether it got any.)\<close>
theorem string_map_is_a_map:
  assumes "\<forall>c \<in> set cmds. \<forall>k \<in> scmd_keys c. is_string S k"
    and "length cmds < 2 ^ 24" and "length cmds \<le> room H"
  shows "holds (bindE (khash_init cstr_bytes (hash_func text_hash) 0) (\<lambda>s. smap_run cmds s H S)) (\<lambda>(rs, s, H').
    (rs, contents text_eq (khmap s) H') = map_run (=) (map (text_cmd S) cmds) (\<lambda>_. None)
    \<and> holds (khash_destroy s H') (\<lambda>H''. live H'' = live H))"
proof -
  have h: "hashing (hash_func text_hash) text_eq" by unfold_locales
  have e: "text_eq = (=)" by (auto simp: text_eq_def fun_eq_iff)
  note r = khash_run_is_a_map [OF h, of cstr_bytes "map (text_cmd S) cmds" H]
  have "kh_fits cstr_bytes (8 * length (map (text_cmd S) cmds))" "length (map (text_cmd S) cmds) \<le> room H"
    using assms(2,3) by (simp_all add: kh_fits_def cstr_bytes_def)
  from r [OF this] show ?thesis
    unfolding smap_run_is_khash_run [OF assms(1)]
    by (rule holds_mono) (auto simp: e prod_eq_iff)
qed

definition two_keys :: "string heap" where
  "two_keys = \<lparr>mem = [Obj ''id'', Obj ''id'', Obj ''no''], room = 0\<rparr>"

theorem string_map_is_a_map_witness:
  "holds (bindE (khash_init cstr_bytes (hash_func text_hash) 0) (\<lambda>s.
     smap_run [S_addReplace 1 (10 :: nat), S_find 2 0, S_find 3 0, S_remove 2 0] s (empty_heap 4) two_keys))
    (\<lambda>(rs, s, H'). rs = [(True, None), (True, Some 10), (False, Some 0), (True, Some 10)])"
    (is "holds (bindE _ (\<lambda>s. smap_run ?cs s _ _)) _")
proof -
  have t: "text_at two_keys (Suc 0) = ''id''" "text_at two_keys 2 = ''id''" "text_at two_keys 3 = ''no''"
    by (simp_all add: text_at_def two_keys_def obj_at_def cell_at_def c_string_def)
  have "\<forall>c \<in> set ?cs. \<forall>k \<in> scmd_keys c. is_string two_keys k"
    by (simp add: is_string_def two_keys_def cell_at_def)
  from string_map_is_a_map [OF this, of "empty_heap 4"] show ?thesis
    by (rule holds_mono) (auto simp: empty_heap_def t map_cmd_def)
qed

text \<open>A copy of a CStrCont, weak or not, owns a string of its own with the same text; its destructor leaves the
  memory as it was. The destructor of a copy that has been made weak gives nothing back.\<close>
theorem cstr_copy_owns:
  assumes "cell_at S (cs_s c) = Obj t" and "0 < room S"
  shows "holds (cs_copy c S) (\<lambda>(d, S'). \<not> cs_weak d \<and> cell_at S' (cs_s d) = Obj (c_string t)
    \<and> live S' = insert (cs_s d) (live S) \<and> cs_s d \<notin> live S
    \<and> holds (cs_destroy d S') (\<lambda>S''. live S'' = live S \<and> (\<forall>p \<in> live S. cell_at S'' p = cell_at S p))
    \<and> cs_destroy (cs_makeWeak d) S' = Inr S')"
proof -
  have n: "cs_s c \<noteq> NULL" by (rule notI) (use assms(1) in simp)
  let ?p = "Suc (heap_size S)" and ?S = "new_obj (c_string t) S"
  have c: "cs_copy c S = Inr (\<lparr>cs_s = ?p, cs_weak = False\<rparr>, ?S)"
    using assms n by (simp add: cs_copy_def cs_copyfrom_def cs_new_def malloc_ok construct_new)
  have p: "cell_at ?S ?p = Obj (c_string t)" by (simp add: cell_at_new)
  have f: "free ?p ?S = Inr ((put_cell ?p Freed ?S)\<lparr>room := Suc (room ?S)\<rparr>)" by (rule free_ok) (simp add: p)
  have q: "?p \<notin> live S" by (rule fresh_not_live) 
  have at: "\<forall>p \<in> live S. cell_at ((put_cell ?p Freed ?S)\<lparr>room := Suc (room ?S)\<rparr>) p = cell_at S p"
    using q by (auto simp: cell_at_put cell_at_new)
  have l: "live ((put_cell ?p Freed ?S)\<lparr>room := Suc (room ?S)\<rparr>) = live S"
    using q p by (auto simp: live_put_Freed live_new)
  show ?thesis using n p f q at l
    by (simp add: c cs_destroy_def cs_makeWeak_def live_new)
qed

theorem cstr_copy_owns_witness:
  "holds (cs_copy (cs_wrap 1) (two_keys\<lparr>room := 1\<rparr>)) (\<lambda>(d, S'). \<not> cs_weak d \<and> cell_at S' (cs_s d) = Obj ''id'')"
proof -
  have "cell_at (two_keys\<lparr>room := 1\<rparr>) (cs_s (cs_wrap 1)) = Obj ''id''" "0 < room (two_keys\<lparr>room := 1\<rparr>)"
    by (simp_all add: two_keys_def cell_at_def cs_wrap_def)
  from cstr_copy_owns [OF this] show ?thesis by (rule holds_mono) (auto simp: c_string_def)
qed

text \<open>The copy is written to what \<^verbatim>\<open>malloc\<close> returns without a test.\<close>
theorem cstr_copy_unchecked:
  assumes "cell_at S (cs_s c) = Obj t" and "room S = 0"
  shows "cs_copy c S = Inl NullDeref"
proof -
  have "cs_s c \<noteq> NULL" by (rule notI) (use assms(1) in simp)
  then show ?thesis using assms by (simp add: cs_copy_def cs_copyfrom_def malloc_fails construct_def)
qed

theorem cstr_copy_unchecked_witness:
  "cs_copy (cs_wrap 1) two_keys = Inl NullDeref"
  by (rule cstr_copy_unchecked [of two_keys _ "''id''"]) (simp_all add: two_keys_def cs_wrap_def cell_at_def)

text \<open>\<open>find\<close> of a TW_StringStringMap that returns a pointer to the string: of a key that is not there it writes
  through a null pointer; of one that is there it marks the string \<^emph>\<open>in the map\<close> as weak, so that
  the destructor will not free it, though \<open>find\<close> has handed out no copy.\<close>
theorem ss_find_marks_weak:
  assumes "khash_ok (hash_func text_hash) text_eq F (khmap s) H" and "\<not> k_lock s" and "is_string S key"
    and "n_buckets (khmap s) \<noteq> 0"
  shows "case lookup text_eq (khmap s) (text_at S key) of
     Some (Some p) \<Rightarrow> if p = NULL then ss_find key s H S = Inl NullDeref
       else holds (ss_find key s H S) (\<lambda>(r, s', H'). r = p \<and> s' = s
         \<and> contents text_eq (khmap s) H' (text_at S key) = Some ((the (contents text_eq (khmap s) H (text_at S key)))\<lparr>cv_weak := True\<rparr>))
   | _ \<Rightarrow> ss_find key s H S = Inl NullDeref"
proof -
  let ?k = "text_at S key"
  note f = texts.find_spec(2) [OF assms(1), of ?k]
  have sf: "sm_find key s H S = Inr ((case lookup text_eq (khmap s) ?k of Some (Some p) \<Rightarrow> p | _ \<Rightarrow> NULL), s, H)"
    using key_text_ok [OF assms(3), of False s] assms(2,4) f
    by (simp add: sm_find_def locked_def)
  show ?thesis
  proof (cases "lookup text_eq (khmap s) ?k")
    case None
    then show ?thesis by (simp add: ss_find_def sf modify_def)
  next
    case (Some v)
    obtain p where p: "v = Some p" "p = NULL \<or> (\<exists>d. cell_at H p = Obj d)"
      using khash_ok_cell [OF assms(1) Some] by metis
    then show ?thesis using Some
      by (auto simp: ss_find_def sf modify_def contents_def cell_at_put)
  qed
qed

lemma one_string_map:
  "\<exists>m (H :: cstr_val heap). khash_ok (hash_func text_hash) text_eq {} m H
     \<and> (\<exists>p. p \<noteq> NULL \<and> lookup text_eq m ''id'' = Some (Some p)) \<and> n_buckets m \<noteq> 0"
proof -
  let ?i = "kh_init_A :: (string, ptr) kh" and ?H = "empty_heap 3 :: cstr_val heap"
  have k: "kh_ok (hash_func text_hash) text_eq ?i" "used_set ?i = {}" "live ?H = {}"
    by (simp_all add: kh_ok_def used_set_def kh_init_A_def)
  note ok = texts.empty_ok(1) [OF k]
  have n: "lookup text_eq ?i ''id'' = None" by (simp add: lookup_def)
  have b: "kh_fits cstr_bytes (max 4 (2 * unat (n_buckets ?i)))" by (simp add: kh_init_A_def kh_fits_def cstr_bytes_def)
  obtain x m' and H' :: "cstr_val heap" where m: "put_new cstr_bytes (hash_func text_hash) text_eq ''id'' cv_new ?i ?H = Inr (x, m', H')"
    "updated (hash_func text_hash) text_eq {} ''id'' (if room ?H = 0 then None else Some cv_new) ?i ?H m' H'"
    "val_at m' x = Inr (fst (alloc_obj cv_new ?H))" "H' = snd (alloc_obj cv_new ?H)"
    "lookup text_eq m' ''id'' = Some (Some (fst (alloc_obj cv_new ?H)))"
    by (rule texts.put_new_spec [OF ok b n, of cv_new])
  have "fst (alloc_obj cv_new ?H) \<noteq> NULL" by (simp add: alloc_obj_def empty_heap_def)
  moreover have "n_buckets m' \<noteq> 0"
  proof
    assume "n_buckets m' = 0"
    then have "used_set m' = {}" by (simp add: used_set_def)
    then have "bucket_of text_eq m' ''id'' = None"
      using m(2) texts.bucket_of_None_iff [of m' "''id''"] unfolding updated_def khash_ok_def
      by (auto dest: kh_ok_old(4))
    then show False using m(5) by (simp add: lookup_def)
  qed
  ultimately show ?thesis using m(2,5) unfolding updated_def by blast
qed

theorem ss_find_marks_weak_witness:
  "\<exists>s H. holds (ss_find 1 s H two_keys) (\<lambda>(r, s', H'). r \<noteq> NULL \<and> s' = s)"
proof -
  obtain m and H :: "cstr_val heap" where m: "khash_ok (hash_func text_hash) text_eq {} m H"
    "\<exists>p. p \<noteq> NULL \<and> lookup text_eq m ''id'' = Some (Some p)" "n_buckets m \<noteq> 0"
    using one_string_map by blast
  let ?s = "\<lparr>khmap = m, k_lock = False, iters_out = 0\<rparr>"
  have t: "text_at two_keys 1 = ''id''" "is_string two_keys 1"
    by (simp_all add: text_at_def is_string_def two_keys_def cell_at_def c_string_def)
  have "khash_ok (hash_func text_hash) text_eq {} (khmap ?s) H" "\<not> k_lock ?s" "n_buckets (khmap ?s) \<noteq> 0"
    using m by simp_all
  from ss_find_marks_weak [OF this(1,2) t(2) this(3)] m(2) t(1)
  have "holds (ss_find 1 ?s H two_keys) (\<lambda>(r, s', H'). r \<noteq> NULL \<and> s' = ?s)"
    by (auto elim!: holds_mono)
  then show ?thesis by blast
qed

end
