(* ===== verification/TW_RBTree.thy ===== *)
theory TW_RBTree
  imports TW_Heap
begin

text \<open>
  The red-black tree of include/TW/provos_rb_tree.h, which the macros RB_GENERATE_* of include/TW/tw_rbtree.h
  instantiate, and the class RB_Tree around it. The nodes are in a heap and point to their children and to
  their parent; every access goes through the heap, so that a null or deleted pointer is a fault. The
  loops have fuel.

  Two branches of the code that are mirror images are one branch here, with the side as an argument: \<open>rb_rotate SL\<close>
  is RB_ROTATE_LEFT and \<open>rb_rotate SR\<close> is RB_ROTATE_RIGHT. RB_AUGMENT does nothing.
\<close>

section \<open>Nodes\<close>

datatype side = SL | SR

fun opp :: "side \<Rightarrow> side" where
  "opp SL = SR"
| "opp SR = SL"

record 'd rb_node =
  rb_data :: 'd
  rbe_left :: ptr
  rbe_right :: ptr
  rbe_parent :: ptr
  rbe_red :: bool

type_synonym 'd rb_heap = "'d rb_node heap"

fun kid :: "side \<Rightarrow> 'd rb_node \<Rightarrow> ptr" where
  "kid SL n = rbe_left n"
| "kid SR n = rbe_right n"

fun set_kid :: "side \<Rightarrow> ptr \<Rightarrow> 'd rb_node \<Rightarrow> 'd rb_node" where
  "set_kid SL p n = n\<lparr>rbe_left := p\<rparr>"
| "set_kid SR p n = n\<lparr>rbe_right := p\<rparr>"

definition rd :: "('d rb_node \<Rightarrow> 'r) \<Rightarrow> ptr \<Rightarrow> 'd rb_heap \<Rightarrow> 'r res" where
  "rd f p h = bindE (load p h) (\<lambda>n. Inr (f n))"

definition set_parent :: "ptr \<Rightarrow> ptr \<Rightarrow> 'd rb_heap \<Rightarrow> 'd rb_heap res" where
  "set_parent p q h = modify p (\<lambda>n. n\<lparr>rbe_parent := q\<rparr>) h"

definition set_red :: "ptr \<Rightarrow> bool \<Rightarrow> 'd rb_heap \<Rightarrow> 'd rb_heap res" where
  "set_red p c h = modify p (\<lambda>n. n\<lparr>rbe_red := c\<rparr>) h"

text \<open>\<^verbatim>\<open>p && RB_COLOR(p) == RB_RED\<close> and \<^verbatim>\<open>p == NULL || RB_COLOR(p) == RB_BLACK\<close>.\<close>

definition rb_is_red :: "ptr \<Rightarrow> 'd rb_heap \<Rightarrow> bool res" where
  "rb_is_red p h = (if p = NULL then Inr False else rd rbe_red p h)"

definition rb_set :: "ptr \<Rightarrow> ptr \<Rightarrow> 'd rb_heap \<Rightarrow> 'd rb_heap res" where
  "rb_set elm parent h =
     modify elm (\<lambda>n. n\<lparr>rbe_parent := parent, rbe_left := NULL, rbe_right := NULL, rbe_red := True\<rparr>) h"

definition rb_set_blackred :: "ptr \<Rightarrow> ptr \<Rightarrow> 'd rb_heap \<Rightarrow> 'd rb_heap res" where
  "rb_set_blackred black red h = bindE (set_red black False h) (set_red red True)"

text \<open>The child of \<open>p\<close> that is \<open>old\<close>, or the root when \<open>p\<close> is null, becomes \<open>new\<close>.\<close>

definition rb_relink :: "ptr \<Rightarrow> ptr \<Rightarrow> ptr \<Rightarrow> ptr \<times> 'd rb_heap \<Rightarrow> (ptr \<times> 'd rb_heap) res" where
  "rb_relink p old new = (\<lambda>(root, h).
     if p \<noteq> NULL then
       bindE (rd rbe_left p h) (\<lambda>l.
       bindE (modify p (set_kid (if old = l then SL else SR) new) h) (\<lambda>h. Inr (root, h)))
     else Inr (new, h))"

definition rb_rotate :: "side \<Rightarrow> ptr \<Rightarrow> ptr \<times> 'd rb_heap \<Rightarrow> (ptr \<times> 'd rb_heap) res" where
  "rb_rotate s elm = (\<lambda>(root, h).
     bindE (rd (kid (opp s)) elm h) (\<lambda>tmp.
     bindE (rd (kid s) tmp h) (\<lambda>b.
     bindE (modify elm (set_kid (opp s) b) h) (\<lambda>h.
     bindE (if b \<noteq> NULL then set_parent b elm h else Inr h) (\<lambda>h.
     bindE (rd rbe_parent elm h) (\<lambda>p.
     bindE (set_parent tmp p h) (\<lambda>h.
     bindE (rb_relink p elm tmp (root, h)) (\<lambda>(root, h).
     bindE (modify tmp (set_kid s elm) h) (\<lambda>h.
     bindE (set_parent elm tmp h) (\<lambda>h. Inr (root, h)))))))))))"

section \<open>Inserting\<close>

fun rb_insert_color :: "nat \<Rightarrow> ptr \<Rightarrow> ptr \<times> 'd rb_heap \<Rightarrow> (ptr \<times> 'd rb_heap) res" where
  "rb_insert_color 0 elm rh = Inl Diverges"
| "rb_insert_color (Suc f) elm (root, h) =
     bindE (rd rbe_parent elm h) (\<lambda>parent.
     bindE (rb_is_red parent h) (\<lambda>red.
     if red then
       bindE (rd rbe_parent parent h) (\<lambda>gparent.
       bindE (rd rbe_left gparent h) (\<lambda>l.
       let s = if parent = l then SL else SR in
       bindE (rd (kid (opp s)) gparent h) (\<lambda>tmp.
       bindE (rb_is_red tmp h) (\<lambda>tred.
       if tred then
         bindE (set_red tmp False h) (\<lambda>h.
         bindE (rb_set_blackred parent gparent h) (\<lambda>h.
         rb_insert_color f gparent (root, h)))
       else
         bindE (rd (kid (opp s)) parent h) (\<lambda>k.
         bindE (if k = elm
           then bindE (rb_rotate s parent (root, h)) (\<lambda>rh. Inr (elm, parent, rh))
           else Inr (parent, elm, root, h)) (\<lambda>(parent, elm, root, h).
         bindE (rb_set_blackred parent gparent h) (\<lambda>h.
         bindE (rb_rotate (opp s) gparent (root, h)) (\<lambda>rh.
         rb_insert_color f elm rh))))))))
     else bindE (set_red root False h) (\<lambda>h. Inr (root, h))))"

text \<open>The search for the place: the last node on the way down and the last comparison, or the node that is equal.\<close>

fun rb_place :: "('d \<Rightarrow> 'd \<Rightarrow> int) \<Rightarrow> nat \<Rightarrow> 'd \<Rightarrow> ptr \<Rightarrow> ptr \<Rightarrow> int \<Rightarrow> 'd rb_heap \<Rightarrow> (ptr + ptr \<times> int) res" where
  "rb_place cmp 0 key tmp parent cm h = Inl Diverges"
| "rb_place cmp (Suc f) key tmp parent cm h =
     (if tmp \<noteq> NULL then
        bindE (load tmp h) (\<lambda>n.
        let cm = cmp key (rb_data n) in
        if cm < 0 then rb_place cmp f key (rbe_left n) tmp cm h
        else if cm > 0 then rb_place cmp f key (rbe_right n) tmp cm h
        else Inr (Inl tmp))
      else Inr (Inr (parent, cm)))"

definition rb_insert :: "('d \<Rightarrow> 'd \<Rightarrow> int) \<Rightarrow> ptr \<Rightarrow> ptr \<times> 'd rb_heap \<Rightarrow> (ptr \<times> ptr \<times> 'd rb_heap) res" where
  "rb_insert cmp elm = (\<lambda>(root, h).
     bindE (rd rb_data elm h) (\<lambda>key.
     bindE (rb_place cmp (Suc (heap_size h)) key root NULL 0 h) (\<lambda>r. case r of
       Inl p \<Rightarrow> Inr (p, root, h)
     | Inr (parent, cm) \<Rightarrow>
         bindE (rb_set elm parent h) (\<lambda>h1.
         bindE (if parent \<noteq> NULL
           then bindE (modify parent (set_kid (if cm < 0 then SL else SR) elm) h1) (\<lambda>h1. Inr (root, h1))
           else Inr (elm, h1)) (\<lambda>rh.
         bindE (rb_insert_color (Suc (heap_size h)) elm rh) (\<lambda>rh. Inr (NULL, rh)))))))"

section \<open>Removing\<close>

text \<open>The end of RB_REMOVE_COLOR when the sibling \<open>tmp\<close> is black and has a red child: the child on the far
  side is made the red one, and a last rotation.\<close>

definition rb_red_far :: "side \<Rightarrow> ptr \<Rightarrow> ptr \<Rightarrow> ptr \<times> 'd rb_heap \<Rightarrow> (ptr \<times> ptr \<times> 'd rb_heap) res" where
  "rb_red_far s parent tmp = (\<lambda>(root, h).
     bindE (rd (kid (opp s)) tmp h) (\<lambda>far.
     bindE (rb_is_red far h) (\<lambda>fred.
     if \<not> fred then
       bindE (rd (kid s) tmp h) (\<lambda>near.
       bindE (if near \<noteq> NULL then set_red near False h else Inr h) (\<lambda>h.
       bindE (set_red tmp True h) (\<lambda>h.
       bindE (rb_rotate (opp s) tmp (root, h)) (\<lambda>(root, h).
       bindE (rd (kid (opp s)) parent h) (\<lambda>tmp. Inr (tmp, root, h))))))
     else Inr (tmp, root, h))))"

definition rb_remove_end :: "side \<Rightarrow> ptr \<Rightarrow> ptr \<Rightarrow> ptr \<times> 'd rb_heap \<Rightarrow> (ptr \<times> 'd rb_heap) res" where
  "rb_remove_end s parent tmp rh =
     bindE (rb_red_far s parent tmp rh) (\<lambda>(tmp, root, h).
     bindE (rd rbe_red parent h) (\<lambda>c.
     bindE (set_red tmp c h) (\<lambda>h.
     bindE (set_red parent False h) (\<lambda>h.
     bindE (rd (kid (opp s)) tmp h) (\<lambda>far.
     bindE (if far \<noteq> NULL then set_red far False h else Inr h) (\<lambda>h.
     rb_rotate s parent (root, h)))))))"

text \<open>A red sibling is first rotated away.\<close>

definition rb_black_sibling :: "side \<Rightarrow> ptr \<Rightarrow> ptr \<times> 'd rb_heap \<Rightarrow> (ptr \<times> ptr \<times> 'd rb_heap) res" where
  "rb_black_sibling s parent = (\<lambda>(root, h).
     bindE (rd (kid (opp s)) parent h) (\<lambda>tmp.
     bindE (rd rbe_red tmp h) (\<lambda>tred.
     if tred then
       bindE (rb_set_blackred tmp parent h) (\<lambda>h.
       bindE (rb_rotate s parent (root, h)) (\<lambda>(root, h).
       bindE (rd (kid (opp s)) parent h) (\<lambda>tmp. Inr (tmp, root, h))))
     else Inr (tmp, root, h))))"

fun rb_remove_color :: "nat \<Rightarrow> ptr \<Rightarrow> ptr \<Rightarrow> ptr \<times> 'd rb_heap \<Rightarrow> (ptr \<times> 'd rb_heap) res" where
  "rb_remove_color 0 parent elm rh = Inl Diverges"
| "rb_remove_color (Suc f) parent elm (root, h) =
     bindE (rb_is_red elm h) (\<lambda>red.
     if \<not> red \<and> elm \<noteq> root then
       bindE (rd rbe_left parent h) (\<lambda>l.
       let s = if l = elm then SL else SR in
       bindE (rb_black_sibling s parent (root, h)) (\<lambda>(tmp, root, h).
       bindE (load tmp h) (\<lambda>n.
       bindE (rb_is_red (rbe_left n) h) (\<lambda>lred.
       bindE (if lred then Inr True else rb_is_red (rbe_right n) h) (\<lambda>any_red.
       if \<not> any_red then
         bindE (set_red tmp True h) (\<lambda>h.
         bindE (rd rbe_parent parent h) (\<lambda>gparent.
         rb_remove_color f gparent parent (root, h)))
       else
         bindE (rb_remove_end s parent tmp (root, h)) (\<lambda>(root, h).
         bindE (if root \<noteq> NULL then set_red root False h else Inr h) (\<lambda>h. Inr (root, h))))))))
     else bindE (if elm \<noteq> NULL then set_red elm False h else Inr h) (\<lambda>h. Inr (root, h)))"

text \<open>The end of the left spine below a node.\<close>

fun rb_spine :: "side \<Rightarrow> nat \<Rightarrow> ptr \<Rightarrow> 'd rb_heap \<Rightarrow> ptr res" where
  "rb_spine s 0 elm h = Inl Diverges"
| "rb_spine s (Suc f) elm h = bindE (rd (kid s) elm h) (\<lambda>l. if l \<noteq> NULL then rb_spine s f l h else Inr elm)"

text \<open>Taking a node with at most one child out: \<open>child\<close> takes its place.\<close>

definition rb_unlink :: "ptr \<Rightarrow> ptr \<Rightarrow> ptr \<times> 'd rb_heap \<Rightarrow> (ptr \<times> bool \<times> ptr \<times> 'd rb_heap) res" where
  "rb_unlink elm child = (\<lambda>(root, h).
     bindE (rd rbe_parent elm h) (\<lambda>parent.
     bindE (rd rbe_red elm h) (\<lambda>color.
     bindE (if child \<noteq> NULL then set_parent child parent h else Inr h) (\<lambda>h.
     bindE (rb_relink parent elm child (root, h)) (\<lambda>rh. Inr (parent, color, rh))))))"

text \<open>The successor \<open>elm\<close> takes the place of \<open>old\<close>, with the links and the colour of \<open>old\<close>.\<close>

definition rb_replace :: "ptr \<Rightarrow> ptr \<Rightarrow> ptr \<times> 'd rb_heap \<Rightarrow> (ptr \<times> 'd rb_heap) res" where
  "rb_replace old elm = (\<lambda>(root, h).
     bindE (load old h) (\<lambda>n.
     bindE (modify elm (\<lambda>e. e\<lparr>rbe_left := rbe_left n, rbe_right := rbe_right n, rbe_parent := rbe_parent n,
       rbe_red := rbe_red n\<rparr>) h) (\<lambda>h.
     bindE (rb_relink (rbe_parent n) old elm (root, h)) (\<lambda>(root, h).
     bindE (set_parent (rbe_left n) elm h) (\<lambda>h.
     bindE (rd rbe_right old h) (\<lambda>r.
     bindE (if r \<noteq> NULL then set_parent r elm h else Inr h) (\<lambda>h. Inr (root, h))))))))"

definition rb_remove :: "ptr \<Rightarrow> ptr \<times> 'd rb_heap \<Rightarrow> (ptr \<times> 'd rb_heap) res" where
  "rb_remove old = (\<lambda>(root, h).
     bindE (load old h) (\<lambda>n.
     bindE (if rbe_left n = NULL \<or> rbe_right n = NULL then
         let child = if rbe_left n = NULL then rbe_right n else rbe_left n in
         bindE (rb_unlink old child (root, h)) (\<lambda>(parent, color, rh). Inr (child, parent, color, rh))
       else
         bindE (rb_spine SL (heap_size h) (rbe_right n) h) (\<lambda>elm.
         bindE (rd rbe_right elm h) (\<lambda>child.
         bindE (rb_unlink elm child (root, h)) (\<lambda>(parent, color, root, h).
         bindE (rd rbe_parent elm h) (\<lambda>eparent.
         bindE (rb_replace old elm (root, h)) (\<lambda>rh.
         Inr (child, if eparent = old then elm else parent, color, rh))))))) (\<lambda>(child, parent, color, root, h).
     if \<not> color then rb_remove_color (Suc (Suc (heap_size h))) parent child (root, h) else Inr (root, h))))"

section \<open>Finding\<close>

fun rb_find :: "('d \<Rightarrow> 'd \<Rightarrow> int) \<Rightarrow> nat \<Rightarrow> 'd \<Rightarrow> ptr \<Rightarrow> 'd rb_heap \<Rightarrow> ptr res" where
  "rb_find cmp 0 key tmp h = Inl Diverges"
| "rb_find cmp (Suc f) key tmp h =
     (if tmp \<noteq> NULL then
        bindE (load tmp h) (\<lambda>n.
        let cm = cmp key (rb_data n) in
        if cm < 0 then rb_find cmp f key (rbe_left n) h
        else if cm > 0 then rb_find cmp f key (rbe_right n) h
        else Inr tmp)
      else Inr NULL)"

fun rb_nfind :: "('d \<Rightarrow> 'd \<Rightarrow> int) \<Rightarrow> nat \<Rightarrow> 'd \<Rightarrow> ptr \<Rightarrow> ptr \<Rightarrow> 'd rb_heap \<Rightarrow> ptr res" where
  "rb_nfind cmp 0 key res tmp h = Inl Diverges"
| "rb_nfind cmp (Suc f) key res tmp h =
     (if tmp \<noteq> NULL then
        bindE (load tmp h) (\<lambda>n.
        let cm = cmp key (rb_data n) in
        if cm < 0 then rb_nfind cmp f key tmp (rbe_left n) h
        else if cm > 0 then rb_nfind cmp f key res (rbe_right n) h
        else Inr tmp)
      else Inr res)"

text \<open>RB_NEXT (\<open>s = SL\<close>) and RB_PREV (\<open>s = SR\<close>).\<close>

fun rb_climb :: "side \<Rightarrow> nat \<Rightarrow> ptr \<Rightarrow> 'd rb_heap \<Rightarrow> ptr res" where
  "rb_climb s 0 elm h = Inl Diverges"
| "rb_climb s (Suc f) elm h =
     bindE (rd rbe_parent elm h) (\<lambda>p.
     if p = NULL then Inr p
     else bindE (rd (kid (opp s)) p h) (\<lambda>k. if elm = k then rb_climb s f p h else Inr p))"

definition rb_next :: "side \<Rightarrow> ptr \<Rightarrow> 'd rb_heap \<Rightarrow> ptr res" where
  "rb_next s elm h =
     bindE (rd (kid (opp s)) elm h) (\<lambda>r.
     if r \<noteq> NULL then rb_spine s (heap_size h) r h
     else bindE (rd rbe_parent elm h) (\<lambda>p.
       bindE (if p \<noteq> NULL then bindE (rd (kid s) p h) (\<lambda>k. Inr (elm = k)) else Inr False) (\<lambda>here.
       if here then Inr p else rb_climb s (heap_size h) elm h)))"

fun rb_minmax :: "nat \<Rightarrow> int \<Rightarrow> ptr \<Rightarrow> ptr \<Rightarrow> 'd rb_heap \<Rightarrow> ptr res" where
  "rb_minmax 0 val tmp parent h = Inl Diverges"
| "rb_minmax (Suc f) val tmp parent h =
     (if tmp \<noteq> NULL then bindE (rd (kid (if val < 0 then SL else SR)) tmp h) (\<lambda>k. rb_minmax f val k tmp h)
      else Inr parent)"

end
