(* ===== verification/TW_RBRep.thy ===== *)
theory TW_RBRep
  imports TW_RBTree
begin

text \<open>
  The trees that the nodes of TW_RBTree represent: a tree and its place in a bigger one (a list of frames, the
  innermost first), when a heap represents them, and what the writes of the code do to that.
\<close>

section \<open>Trees and their contexts\<close>

datatype 'd rbt = Tip | Nd "'d rbt" ptr bool 'd "'d rbt"

fun rt :: "'d rbt \<Rightarrow> ptr" where
  "rt Tip = NULL"
| "rt (Nd l q c d r) = q"

fun elems :: "'d rbt \<Rightarrow> (ptr \<times> 'd) list" where
  "elems Tip = []"
| "elems (Nd l q c d r) = elems l @ [(q, d)] @ elems r"

fun ptrs :: "'d rbt \<Rightarrow> ptr set" where
  "ptrs Tip = {}"
| "ptrs (Nd l q c d r) = insert q (ptrs l \<union> ptrs r)"

fun dist :: "'d rbt \<Rightarrow> bool" where
  "dist Tip = True"
| "dist (Nd l q c d r) \<longleftrightarrow> q \<notin> ptrs l \<and> q \<notin> ptrs r \<and> ptrs l \<inter> ptrs r = {} \<and> dist l \<and> dist r"

text \<open>A node with a child on side \<open>s\<close> and the other one.\<close>

fun mk :: "side \<Rightarrow> 'd rbt \<Rightarrow> ptr \<Rightarrow> bool \<Rightarrow> 'd \<Rightarrow> 'd rbt \<Rightarrow> 'd rbt" where
  "mk SL a q c d b = Nd a q c d b"
| "mk SR a q c d b = Nd b q c d a"

fun join :: "side \<Rightarrow> 'x list \<Rightarrow> 'x list \<Rightarrow> 'x list" where
  "join SL xs ys = xs @ ys"
| "join SR xs ys = ys @ xs"

fun node :: "side \<Rightarrow> ptr \<Rightarrow> ptr \<Rightarrow> ptr \<Rightarrow> bool \<Rightarrow> 'd \<Rightarrow> 'd rb_node" where
  "node SL a b p c d = \<lparr>rb_data = d, rbe_left = a, rbe_right = b, rbe_parent = p, rbe_red = c\<rparr>"
| "node SR a b p c d = \<lparr>rb_data = d, rbe_left = b, rbe_right = a, rbe_parent = p, rbe_red = c\<rparr>"

lemma node_simps [simp]:
  "kid s (node s a b p c d) = a" "kid (opp s) (node s a b p c d) = b"
  "set_kid s x (node s a b p c d) = node s x b p c d" "set_kid (opp s) x (node s a b p c d) = node s a x p c d"
  "rbe_parent (node s a b p c d) = p" "rbe_red (node s a b p c d) = c" "rb_data (node s a b p c d) = d"
  "(node s a b p c d)\<lparr>rbe_parent := q\<rparr> = node s a b q c d" "(node s a b p c d)\<lparr>rbe_red := e\<rparr> = node s a b p e d"
  "node (opp s) a b p c d = node s b a p c d"
  by (cases s; simp)+

lemma opp_simps [simp]: "opp (opp s) = s" "opp s \<noteq> s" "s \<noteq> opp s"
  by (cases s; simp)+

lemma mk_simps [simp]:
  "rt (mk s a q c d b) = q" "ptrs (mk s a q c d b) = insert q (ptrs a \<union> ptrs b)"
  "dist (mk s a q c d b) \<longleftrightarrow> q \<notin> ptrs a \<and> q \<notin> ptrs b \<and> ptrs a \<inter> ptrs b = {} \<and> dist a \<and> dist b"
  "mk s a q c d b \<noteq> Tip" "mk (opp s) a q c d b = mk s b q c d a"
  by (cases s; auto)+

lemma elems_mk: "elems (mk s a q c d b) = join s (elems a) (join s [(q, d)] (elems b))"
  by (cases s) auto

lemma join_assoc: "join s (join s xs ys) zs = join s xs (join s ys zs)"
  by (cases s) auto

lemma mk_cases:
  assumes "t \<noteq> Tip"
  shows "\<exists>a q c d b. t = mk s a q c d b"
proof -
  obtain l q c d r where "t = Nd l q c d r" using assms by (cases t) auto
  then have "t = mk SL l q c d r" "t = mk SR r q c d l" by simp_all
  then show ?thesis by (cases s) blast+
qed

datatype 'd frame = Fr side ptr bool 'd "'d rbt"

fun fill :: "'d frame \<Rightarrow> 'd rbt \<Rightarrow> 'd rbt" where
  "fill (Fr s q c d b) t = mk s t q c d b"

fun plug :: "'d frame list \<Rightarrow> 'd rbt \<Rightarrow> 'd rbt" where
  "plug [] t = t"
| "plug (f # fs) t = plug fs (fill f t)"

fun up :: "'d frame list \<Rightarrow> ptr" where
  "up [] = NULL"
| "up (Fr s q c d b # fs) = q"

fun ptrsc :: "'d frame list \<Rightarrow> ptr set" where
  "ptrsc [] = {}"
| "ptrsc (Fr s q c d b # fs) = insert q (ptrs b \<union> ptrsc fs)"

fun distc :: "'d frame list \<Rightarrow> bool" where
  "distc [] = True"
| "distc (Fr s q c d b # fs) \<longleftrightarrow> q \<notin> ptrs b \<and> q \<notin> ptrsc fs \<and> ptrs b \<inter> ptrsc fs = {} \<and> dist b \<and> distc fs"

fun rootc :: "'d frame list \<Rightarrow> ptr \<Rightarrow> ptr" where
  "rootc [] p = p"
| "rootc (Fr s q c d b # fs) p = rootc fs q"

text \<open>What stands before the hole and behind it.\<close>

fun before :: "'d frame list \<Rightarrow> (ptr \<times> 'd) list" where
  "before [] = []"
| "before (Fr SL q c d b # fs) = before fs"
| "before (Fr SR q c d b # fs) = before fs @ elems b @ [(q, d)]"

fun behind :: "'d frame list \<Rightarrow> (ptr \<times> 'd) list" where
  "behind [] = []"
| "behind (Fr SL q c d b # fs) = (q, d) # elems b @ behind fs"
| "behind (Fr SR q c d b # fs) = behind fs"

lemma plug_append [simp]: "plug (fs @ gs) t = plug gs (plug fs t)"
  by (induction fs arbitrary: t) simp_all

lemma ptrsc_append [simp]: "ptrsc (fs @ gs) = ptrsc fs \<union> ptrsc gs"
  by (induction fs rule: ptrsc.induct) auto

lemma ptrs_plug: "ptrs (plug fs t) = ptrs t \<union> ptrsc fs"
  by (induction fs arbitrary: t rule: ptrsc.induct) auto

lemma dist_plug: "dist (plug fs t) \<longleftrightarrow> dist t \<and> distc fs \<and> ptrs t \<inter> ptrsc fs = {}"
  by (induction fs arbitrary: t rule: distc.induct) auto

lemma rt_plug: "rt (plug fs t) = rootc fs (rt t)"
  by (induction fs arbitrary: t rule: distc.induct) simp_all

lemma elems_plug: "elems (plug fs t) = before fs @ elems t @ behind fs"
  by (induction fs arbitrary: t rule: before.induct) simp_all

lemma ptrs_elems: "ptrs t = fst ` set (elems t)"
  by (induction t) auto

lemma dist_elems: "dist t = distinct (map fst (elems t))"
  by (induction t) (auto simp: ptrs_elems)

section \<open>When a heap represents a tree\<close>

fun rep :: "'d rb_heap \<Rightarrow> ptr \<Rightarrow> 'd rbt \<Rightarrow> bool" where
  "rep h p Tip = True"
| "rep h p (Nd l q c d r) \<longleftrightarrow> cell_at h q = Obj (node SL (rt l) (rt r) p c d) \<and> rep h q l \<and> rep h q r"

fun repc :: "'d rb_heap \<Rightarrow> 'd frame list \<Rightarrow> ptr \<Rightarrow> bool" where
  "repc h [] x = True"
| "repc h (Fr s q c d b # fs) x \<longleftrightarrow> cell_at h q = Obj (node s x (rt b) (up fs) c d) \<and> rep h q b \<and> repc h fs q"

lemma rep_mk [simp]:
  "rep h p (mk s a q c d b) \<longleftrightarrow> cell_at h q = Obj (node s (rt a) (rt b) p c d) \<and> rep h q a \<and> rep h q b"
  by (cases s) auto

lemma rep_plug: "rep h NULL (plug fs t) \<longleftrightarrow> rep h (up fs) t \<and> repc h fs (rt t)"
  by (induction fs arbitrary: t rule: ptrsc.induct) auto

lemma rep_obj: "rep h p t \<Longrightarrow> q \<in> ptrs t \<Longrightarrow> \<exists>n. cell_at h q = Obj n"
  by (induction t arbitrary: p) auto

lemma rep_root: "rep h p t \<Longrightarrow> rt t = NULL \<longleftrightarrow> t = Tip"
  by (cases t) (auto dest: cell_at_Obj_pos)

lemma rep_null: "rep h p t \<Longrightarrow> NULL \<notin> ptrs t"
  by (induction t arbitrary: p) (auto dest: cell_at_Obj_pos)

lemma repc_null: "repc h fs x \<Longrightarrow> NULL \<notin> ptrsc fs"
  by (induction fs arbitrary: x rule: ptrsc.induct) (auto dest: cell_at_Obj_pos rep_null)

lemma up_null: "repc h fs x \<Longrightarrow> up fs = NULL \<longleftrightarrow> fs = []"
  by (cases "(h, fs, x)" rule: repc.cases) (auto dest: cell_at_Obj_pos)

lemma rt_in: "t \<noteq> Tip \<Longrightarrow> rt t \<in> ptrs t"
  by (cases t) auto

lemma up_in: "fs \<noteq> [] \<Longrightarrow> up fs \<in> ptrsc fs"
  by (cases fs rule: ptrsc.cases) auto

lemma rep_cong: "(\<And>q. q \<in> ptrs t \<Longrightarrow> cell_at h' q = cell_at h q) \<Longrightarrow> rep h' p t = rep h p t"
  by (induction t arbitrary: p) auto

lemma repc_cong: "(\<And>q. q \<in> ptrsc fs \<Longrightarrow> cell_at h' q = cell_at h q) \<Longrightarrow> repc h' fs x = repc h fs x"
proof (induction fs arbitrary: x rule: ptrsc.induct)
  case (2 s q c d b fs)
  have "rep h' q b = rep h q b" by (rule rep_cong) (use 2(2) in simp)
  then show ?case using 2 by simp
qed simp

lemma rep_put: "q \<notin> ptrs t \<Longrightarrow> cell_at h q \<noteq> Freed \<Longrightarrow> rep (put_cell q n h) p t = rep h p t"
  by (rule rep_cong) (auto simp: cell_at_put)

lemma repc_put: "q \<notin> ptrsc fs \<Longrightarrow> cell_at h q \<noteq> Freed \<Longrightarrow> repc (put_cell q n h) fs x = repc h fs x"
  by (rule repc_cong) (auto simp: cell_at_put)

section \<open>The writes\<close>

text \<open>Giving a subtree another parent.\<close>

definition reparent :: "ptr \<Rightarrow> 'd rbt \<Rightarrow> 'd rb_heap \<Rightarrow> 'd rb_heap" where
  "reparent p t h = (case t of Tip \<Rightarrow> h
     | Nd l q c d r \<Rightarrow> put_cell q (Obj (node SL (rt l) (rt r) p c d)) h)"

lemma cell_at_reparent:
  assumes "rep h p0 t"
  shows "cell_at (reparent p t h) q = (case t of Tip \<Rightarrow> cell_at h q
     | Nd l x c d r \<Rightarrow> if q = x then Obj (node SL (rt l) (rt r) p c d) else cell_at h q)"
  using assms by (cases t) (auto simp: reparent_def cell_at_put)

lemma cell_at_reparent_out:
  assumes "rep h p0 t" and "q \<notin> ptrs t"
  shows "cell_at (reparent p t h) q = cell_at h q"
  using assms by (auto simp: cell_at_reparent split: rbt.split)

lemma set_parent_rt:
  assumes "rep h p0 t"
  shows "(if rt t \<noteq> NULL then set_parent (rt t) p h else Inr h) = Inr (reparent p t h)"
  using assms rep_root [OF assms] by (cases t) (auto simp: reparent_def set_parent_def modify_Obj simp del: node.simps)

lemma rep_reparent: "rep h p0 t \<Longrightarrow> dist t \<Longrightarrow> rep (reparent p t h) p t"
  by (cases t) (auto simp: reparent_def cell_at_put rep_put)

lemma rep_reparent_out: "rep h p0 t \<Longrightarrow> ptrs t \<inter> ptrs u = {} \<Longrightarrow> rep (reparent p t h) p1 u = rep h p1 u"
  by (rule rep_cong, rule cell_at_reparent_out) auto

lemma repc_reparent_out: "rep h p0 t \<Longrightarrow> ptrs t \<inter> ptrsc fs = {} \<Longrightarrow> repc (reparent p t h) fs x = repc h fs x"
  by (rule repc_cong, rule cell_at_reparent_out) auto

lemma size_reparent [simp]: "heap_size (reparent p t h) = heap_size h" "room (reparent p t h) = room h"
  by (cases t; simp add: reparent_def)+

lemma live_reparent: "rep h p0 t \<Longrightarrow> live (reparent p t h) = live h"
  by (cases t) (auto simp: reparent_def live_put)

text \<open>Changing what hangs in a hole.\<close>

definition rehang :: "'d frame list \<Rightarrow> ptr \<Rightarrow> 'd rb_heap \<Rightarrow> 'd rb_heap" where
  "rehang fs x h = (case fs of [] \<Rightarrow> h
     | Fr s q c d b # gs \<Rightarrow> put_cell q (Obj (node s x (rt b) (up gs) c d)) h)"

lemma cell_at_rehang_out:
  assumes "repc h fs x0" and "q \<notin> ptrsc fs"
  shows "cell_at (rehang fs x h) q = cell_at h q"
  using assms by (cases "(h, fs, x0)" rule: repc.cases) (auto simp: rehang_def cell_at_put)

lemma rb_relink_up:
  assumes "repc h fs x" and "\<forall>s q c d b gs. fs = Fr s q c d b # gs \<longrightarrow> x \<noteq> rt b"
  shows "rb_relink (up fs) x y (rootc fs x, h) = Inr (rootc fs y, rehang fs y h)"
proof (cases fs rule: ptrsc.cases)
  case 1
  then show ?thesis by (simp add: rb_relink_def rehang_def)
next
  case (2 s q c d b gs)
  then have c: "cell_at h q = Obj (node s x (rt b) (up gs) c d)" "x \<noteq> rt b" using assms by auto
  then have "q \<noteq> NULL" by (auto dest: cell_at_Obj_pos)
  moreover have "(if x = rbe_left (node s x (rt b) (up gs) c d) then SL else SR) = s" using c(2) by (cases s) auto
  ultimately show ?thesis using 2 c
    by (simp add: rb_relink_def rd_def modify_Obj rehang_def del: node.simps)
qed

lemma repc_rehang: "repc h fs x0 \<Longrightarrow> distc fs \<Longrightarrow> repc (rehang fs x h) fs x"
  by (cases "(h, fs, x0)" rule: repc.cases) (auto simp: rehang_def cell_at_put rep_put repc_put)

lemma rep_rehang_out: "repc h fs x0 \<Longrightarrow> ptrs t \<inter> ptrsc fs = {} \<Longrightarrow> rep (rehang fs x h) p t = rep h p t"
  by (rule rep_cong, rule cell_at_rehang_out) auto

lemma size_rehang [simp]: "heap_size (rehang fs x h) = heap_size h" "room (rehang fs x h) = room h"
  by (cases fs rule: ptrsc.cases; simp add: rehang_def)+

lemma live_rehang: "repc h fs x0 \<Longrightarrow> live (rehang fs x h) = live h"
  by (cases "(h, fs, x0)" rule: repc.cases) (auto simp: rehang_def live_put)

end
