(* ===== verification/TW_RBRotate.thy ===== *)
theory TW_RBRotate
  imports TW_RBRep
begin

text \<open>
  Rotating and recolouring inside a tree.
\<close>

definition tree_at :: "ptr \<times> 'd rb_heap \<Rightarrow> 'd rbt \<Rightarrow> bool" where
  "tree_at rh t \<longleftrightarrow> fst rh = rt t \<and> rep (snd rh) NULL t \<and> dist t"

definition moved :: "ptr set \<Rightarrow> 'd rb_heap \<Rightarrow> 'd rb_heap \<Rightarrow> bool" where
  "moved S h h' \<longleftrightarrow> heap_size h' = heap_size h \<and> room h' = room h \<and> live h' = live h \<and> same_outside S h h'"

lemma moved_refl [simp]: "moved S h h"
  by (simp add: moved_def)

lemma moved_trans [trans]: "moved S h h' \<Longrightarrow> moved S h' h'' \<Longrightarrow> moved S h h''"
  by (auto simp: moved_def same_outside_def)

lemma moved_put: "cell_at h q \<noteq> Freed \<Longrightarrow> q \<in> S \<Longrightarrow> moved S h (put_cell q (Obj n) h)"
  by (auto simp: moved_def same_outside_def cell_at_put live_put)

lemma moved_reparent: "rep h p0 t \<Longrightarrow> ptrs t \<subseteq> S \<Longrightarrow> moved S h (reparent p t h)"
  by (auto simp: moved_def same_outside_def live_reparent intro!: cell_at_reparent_out)

lemma moved_rehang: "repc h fs x0 \<Longrightarrow> ptrsc fs \<subseteq> S \<Longrightarrow> moved S h (rehang fs x h)"
  by (auto simp: moved_def same_outside_def live_rehang intro!: cell_at_rehang_out)

lemma tree_at_plug:
  "tree_at (root, h) (plug fs t) \<longleftrightarrow> root = rootc fs (rt t) \<and> rep h (up fs) t \<and> repc h fs (rt t)
    \<and> dist t \<and> distc fs \<and> ptrs t \<inter> ptrsc fs = {}"
  by (auto simp: tree_at_def rt_plug rep_plug dist_plug)

lemma hole_not_sibling:
  assumes "rep h p t" and "t \<noteq> Tip" and "ptrs t \<inter> ptrsc fs = {}"
  shows "\<forall>s q c d b gs. fs = Fr s q c d b # gs \<longrightarrow> rt t \<noteq> rt b"
proof (intro allI impI)
  fix s q c d b gs
  assume fs: "fs = Fr s q c d b # gs"
  show "rt t \<noteq> rt b"
  proof (cases "b = Tip")
    case True
    then show ?thesis using rep_root [OF assms(1)] assms(2) by simp
  next
    case False
    then show ?thesis using rt_in [OF False] rt_in [OF assms(2)] assms(3) fs by auto
  qed
qed

lemma rb_rotate_plug:
  assumes "tree_at (root, h) (plug fs (mk s a x c d (mk s b y e k g)))"
  shows "\<exists>root' h'. rb_rotate s x (root, h) = Inr (root', h')
    \<and> tree_at (root', h') (plug fs (mk s (mk s a x c d b) y e k g))
    \<and> moved (ptrs (plug fs (mk s a x c d (mk s b y e k g)))) h h'"
proof -
  note p = assms [unfolded tree_at_plug]
  have cx: "cell_at h x = Obj (node s (rt a) y (up fs) c d)" and cy: "cell_at h y = Obj (node s (rt b) (rt g) x e k)"
    and ra: "rep h x a" and rb: "rep h y b" and rg: "rep h y g" and rc: "repc h fs x"
    and root: "root = rootc fs x" using p by auto
  have dx: "x \<noteq> y" "x \<notin> ptrs a" "x \<notin> ptrs b" "x \<notin> ptrs g" "x \<notin> ptrsc fs" "y \<notin> ptrs a" "y \<notin> ptrs b" "y \<notin> ptrs g" "y \<notin> ptrsc fs"
    and dab: "ptrs b \<inter> ptrs a = {}" "ptrs b \<inter> ptrs g = {}" "ptrs a \<inter> ptrs g = {}" "ptrs b \<inter> ptrsc fs = {}"
      "ptrs a \<inter> ptrsc fs = {}" "ptrs g \<inter> ptrsc fs = {}"
    and ds: "dist a" "dist b" "dist g" "distc fs" using p by auto
  define h1 where "h1 = put_cell x (Obj (node s (rt a) (rt b) (up fs) c d)) h"
  define h2 where "h2 = reparent x b h1"
  define h3 where "h3 = put_cell y (Obj (node s (rt b) (rt g) (up fs) e k)) h2"
  define h4 where "h4 = rehang fs y h3"
  define h5 where "h5 = put_cell y (Obj (node s x (rt g) (up fs) e k)) h4"
  define h6 where "h6 = put_cell x (Obj (node s (rt a) (rt b) y c d)) h5"
  have at1: "cell_at h1 q = (if q = x then Obj (node s (rt a) (rt b) (up fs) c d) else cell_at h q)" for q
    using cx by (simp add: h1_def cell_at_put)
  have b1: "rep h1 y b" "rep h1 x a" "rep h1 y g" "repc h1 fs x"
    using ra rb rg rc dx cx by (simp_all add: h1_def rep_put repc_put)
  have at2: "cell_at h2 q = cell_at h1 q" if "q \<notin> ptrs b" for q
    unfolding h2_def by (rule cell_at_reparent_out [OF b1(1) that])
  have b2: "rep h2 x b" "rep h2 x a" "rep h2 y g" "repc h2 fs x"
    using b1 dab ds unfolding h2_def by (simp_all add: rep_reparent rep_reparent_out repc_reparent_out)
  have x2: "cell_at h2 x = Obj (node s (rt a) (rt b) (up fs) c d)" "cell_at h2 y = Obj (node s (rt b) (rt g) x e k)"
    using at2 dx at1 cy by simp_all
  have x3: "cell_at h3 x = Obj (node s (rt a) (rt b) (up fs) c d)" "cell_at h3 y = Obj (node s (rt b) (rt g) (up fs) e k)"
    using x2 dx by (simp_all add: h3_def cell_at_put)
  have b3: "rep h3 x b" "rep h3 x a" "rep h3 y g" "repc h3 fs x"
    using b2 dx x2 by (simp_all add: h3_def rep_put repc_put)
  have x4: "cell_at h4 x = Obj (node s (rt a) (rt b) (up fs) c d)" "cell_at h4 y = Obj (node s (rt b) (rt g) (up fs) e k)"
    using x3 cell_at_rehang_out [OF b3(4)] dx by (simp_all add: h4_def)
  have b4: "rep h4 x b" "rep h4 x a" "rep h4 y g" "repc h4 fs y"
    using b3 dab ds repc_rehang [OF b3(4)] by (simp_all add: h4_def rep_rehang_out [OF b3(4)])
  have x5: "cell_at h5 x = Obj (node s (rt a) (rt b) (up fs) c d)" "cell_at h5 y = Obj (node s x (rt g) (up fs) e k)"
    using x4 dx by (simp_all add: h5_def cell_at_put)
  have b5: "rep h5 x b" "rep h5 x a" "rep h5 y g" "repc h5 fs y"
    using b4 dx x4 by (simp_all add: h5_def rep_put repc_put)
  have x6: "cell_at h6 x = Obj (node s (rt a) (rt b) y c d)" "cell_at h6 y = Obj (node s x (rt g) (up fs) e k)"
    using x5 dx by (simp_all add: h6_def cell_at_put)
  have b6: "rep h6 x b" "rep h6 x a" "rep h6 y g" "repc h6 fs y"
    using b5 dx x5 by (simp_all add: h6_def rep_put repc_put)
  have rl: "rb_relink (up fs) x y (rootc fs x, h3) = Inr (rootc fs y, h4)"
    unfolding h4_def
    by (rule rb_relink_up [OF b3(4)]) (use hole_not_sibling [of h "up fs" "mk s a x c d (mk s b y e k g)" fs] p in simp)
  have run: "rb_rotate s x (root, h) = Inr (rootc fs y, h6)"
  proof -
    have s0: "rd (kid (opp s)) x h = Inr y" "rd (kid s) y h = Inr (rt b)" using cx cy by (simp_all add: rd_def)
    have s1: "modify x (set_kid (opp s) (rt b)) h = Inr h1" using cx by (simp add: modify_Obj h1_def)
    note s2 = set_parent_rt [OF b1(1), of x, folded h2_def]
    have s3: "rd rbe_parent x h2 = Inr (up fs)" "set_parent y (up fs) h2 = Inr h3"
      using x2 by (simp_all add: rd_def set_parent_def modify_Obj h3_def)
    have s5: "modify y (set_kid s x) h4 = Inr h5" "set_parent x y h5 = Inr h6"
      using x4 x5 by (simp_all add: set_parent_def modify_Obj h5_def h6_def)
    show ?thesis
      by (simp only: rb_rotate_def prod.case bindE_Inr s0 s1 s2 s3 root rl s5)
  qed
  have mv: "moved (insert x (insert y (ptrs b \<union> ptrsc fs))) h h6"
  proof -
    let ?S = "insert x (insert y (ptrs b \<union> ptrsc fs))"
    have "moved ?S h h1" unfolding h1_def by (rule moved_put) (simp_all add: cx)
    also have "moved ?S h1 h2" unfolding h2_def by (rule moved_reparent [OF b1(1)]) auto
    also have "moved ?S h2 h3" unfolding h3_def by (rule moved_put) (simp_all add: x2)
    also have "moved ?S h3 h4" unfolding h4_def by (rule moved_rehang [OF b3(4)]) auto
    also have "moved ?S h4 h5" unfolding h5_def by (rule moved_put) (simp_all add: x4)
    also have "moved ?S h5 h6" unfolding h6_def by (rule moved_put) (simp_all add: x5)
    finally show ?thesis .
  qed
  show ?thesis
  proof (intro exI conjI)
    show "rb_rotate s x (root, h) = Inr (rootc fs y, h6)" by (rule run)
    show "tree_at (rootc fs y, h6) (plug fs (mk s (mk s a x c d b) y e k g))"
      unfolding tree_at_plug using x6 b6 dx dab ds by (auto simp: Int_commute)
    show "moved (ptrs (plug fs (mk s a x c d (mk s b y e k g)))) h h6"
      using mv by (rule rev_mp) (auto simp: moved_def same_outside_def ptrs_plug)
  qed
qed

lemma tree_at_load:
  "tree_at (root, h) (plug fs (mk s a q c d b)) \<Longrightarrow> load q h = Inr (node s (rt a) (rt b) (up fs) c d)"
  by (auto simp: tree_at_plug)

lemma tree_at_rd:
  "tree_at (root, h) (plug fs (mk s a q c d b)) \<Longrightarrow> rd f q h = Inr (f (node s (rt a) (rt b) (up fs) c d))"
  using tree_at_load [of root h fs s a q c d b] by (simp add: rd_def)

lemma set_red_plug:
  assumes "tree_at (root, h) (plug fs (mk s a q c d b))"
  shows "\<exists>h'. set_red q e h = Inr h' \<and> tree_at (root, h') (plug fs (mk s a q e d b))
    \<and> moved (ptrs (plug fs (mk s a q c d b))) h h'"
proof -
  note p = assms [unfolded tree_at_plug]
  have c: "cell_at h q = Obj (node s (rt a) (rt b) (up fs) c d)" using p by simp
  let ?h = "put_cell q (Obj (node s (rt a) (rt b) (up fs) e d)) h"
  have "set_red q e h = Inr ?h" using c by (simp add: set_red_def modify_Obj)
  moreover have "tree_at (root, ?h) (plug fs (mk s a q e d b))"
    unfolding tree_at_plug using p c by (auto simp: cell_at_put rep_put repc_put)
  moreover have "moved (ptrs (plug fs (mk s a q c d b))) h ?h"
    by (rule moved_put) (simp_all add: c ptrs_plug)
  ultimately show ?thesis by blast
qed

section \<open>The laws of red-black trees\<close>

fun red :: "'d rbt \<Rightarrow> bool" where
  "red Tip = False"
| "red (Nd l q c d r) = c"

fun bh :: "'d rbt \<Rightarrow> nat" where
  "bh Tip = 0"
| "bh (Nd l q c d r) = (if c then bh l else Suc (bh l))"

text \<open>A red node has no red child; below a node every path meets as many black nodes.\<close>

fun rb_ok :: "'d rbt \<Rightarrow> bool" where
  "rb_ok Tip = True"
| "rb_ok (Nd l q c d r) \<longleftrightarrow> rb_ok l \<and> rb_ok r \<and> bh l = bh r \<and> (c \<longrightarrow> \<not> red l \<and> \<not> red r)"

text \<open>The same of a context for a tree of black height \<open>n\<close> whose root is red if \<open>c\<close>.\<close>

fun ctx_ok :: "'d frame list \<Rightarrow> nat \<Rightarrow> bool \<Rightarrow> bool" where
  "ctx_ok [] n c = True"
| "ctx_ok (Fr s q e d b # fs) n c \<longleftrightarrow> rb_ok b \<and> bh b = n \<and> (e \<longrightarrow> \<not> c \<and> \<not> red b)
     \<and> ctx_ok fs (if e then n else Suc n) e"

fun paint :: "bool \<Rightarrow> 'd rbt \<Rightarrow> 'd rbt" where
  "paint c Tip = Tip"
| "paint c (Nd l q e d r) = Nd l q c d r"

lemma red_mk [simp]: "red (mk s a q c d b) = c" "paint e (mk s a q c d b) = mk s a q e d b"
  by (cases s; simp)+

lemma rb_ok_mk [simp]:
  "rb_ok (mk s a q c d b) \<longleftrightarrow> rb_ok a \<and> rb_ok b \<and> bh a = bh b \<and> (c \<longrightarrow> \<not> red a \<and> \<not> red b)"
  by (cases s) auto

lemma bh_mk: "bh a = bh b \<Longrightarrow> bh (mk s a q c d b) = (if c then bh a else Suc (bh a))"
  by (cases s) auto

lemma rb_ok_plug: "rb_ok (plug fs t) \<longleftrightarrow> rb_ok t \<and> ctx_ok fs (bh t) (red t)"
proof (induction fs arbitrary: t rule: ptrsc.induct)
  case (2 s q c d b fs)
  have "rb_ok (plug fs (mk s t q c d b)) \<longleftrightarrow> rb_ok (mk s t q c d b) \<and> ctx_ok fs (bh (mk s t q c d b)) c"
    using 2(1) by simp
  then show ?case by (auto simp: bh_mk)
qed simp

lemma ctx_ok_mono: "ctx_ok fs n True \<Longrightarrow> ctx_ok fs n c"
  by (cases fs rule: ptrsc.cases) auto

lemma paint_simps [simp]:
  "rt (paint c t) = rt t" "elems (paint c t) = elems t" "red (paint c t) = (t \<noteq> Tip \<and> c)" "ptrs (paint c t) = ptrs t"
  by (cases t; simp)+

lemma rb_ok_paint: "rb_ok t \<Longrightarrow> rb_ok (paint False t)"
  by (cases t) auto

lemma rb_is_red_rt: "rep h p t \<Longrightarrow> rb_is_red (rt t) h = Inr (red t)"
  by (cases t) (auto simp: rb_is_red_def rd_def dest: cell_at_Obj_pos simp del: node.simps)

lemma rb_is_red_up:
  "repc h fs x \<Longrightarrow> rb_is_red (up fs) h = Inr (case fs of [] \<Rightarrow> False | Fr s q c d b # gs \<Rightarrow> c)"
  by (cases fs rule: ptrsc.cases) (auto simp: rb_is_red_def rd_def dest: cell_at_Obj_pos)

text \<open>A tree with a root of its own: where every loop ends.\<close>

lemma set_red_root:
  assumes "tree_at (root, h) t" and "t \<noteq> Tip"
  shows "\<exists>h'. set_red root False h = Inr h' \<and> tree_at (root, h') (paint False t) \<and> moved (ptrs t) h h'"
proof -
  obtain a q c d b where t: "t = mk SL a q c d b" using mk_cases [OF assms(2)] by blast
  have "tree_at (root, h) (plug [] (mk SL a q c d b))" using assms(1) t by simp
  from set_red_plug [OF this, of False] show ?thesis
    using assms(1) t by (auto simp: tree_at_def)
qed

end
