(* ===== verification/TW_Compare.thy ===== *)
theory TW_Compare
  imports TW_Prelude
begin

text \<open>
  The contract of a comparison function, which the trees are given by their client.
\<close>

locale comparing =
  fixes cmp :: "'d \<Rightarrow> 'd \<Rightarrow> int"
  assumes cmp_swap: "cmp a b < 0 \<longleftrightarrow> 0 < cmp b a"
    and cmp_trans: "cmp a b < 0 \<Longrightarrow> cmp b c < 0 \<Longrightarrow> cmp a c < 0"
    and cmp_eq: "cmp a b = 0 \<Longrightarrow> cmp a c < 0 \<longleftrightarrow> cmp b c < 0"
begin

lemma cmp_eq_right: "cmp a b = 0 \<Longrightarrow> cmp c b < 0 \<Longrightarrow> cmp c a < 0"
  using cmp_swap cmp_eq by (metis less_irrefl linorder_neqE_linordered_idom less_asym)

lemma less_swap: "cmp a b < 0 \<Longrightarrow> 0 < cmp b a" "0 < cmp b a \<Longrightarrow> cmp a b < 0"
  using cmp_swap by blast+

lemma le_swap: "cmp a b \<le> 0 \<longleftrightarrow> 0 \<le> cmp b a"
  using cmp_swap [of b a] by linarith

lemma zero_swap: "cmp a b = 0 \<longleftrightarrow> cmp b a = 0"
  using le_swap [of a b] le_swap [of b a] by linarith

lemma le_less_trans: "cmp a b \<le> 0 \<Longrightarrow> cmp b c < 0 \<Longrightarrow> cmp a c < 0"
  using cmp_trans cmp_eq by (metis order_le_less)

lemma less_le_trans: "cmp a b < 0 \<Longrightarrow> cmp b c \<le> 0 \<Longrightarrow> cmp a c < 0"
  using cmp_trans cmp_eq_right zero_swap by (metis order_le_less)

lemma le_trans: "cmp a b \<le> 0 \<Longrightarrow> cmp b c \<le> 0 \<Longrightarrow> cmp a c \<le> 0"
  using le_less_trans [of b c a] le_swap zero_swap less_swap
  by (metis less_le_trans linorder_not_le)

end

text \<open>Lists in the order of \<open>cmp\<close>, with or without equal elements.\<close>

definition ordered :: "('d \<Rightarrow> 'd \<Rightarrow> int) \<Rightarrow> 'd list \<Rightarrow> bool" where
  "ordered cmp xs \<longleftrightarrow> sorted_wrt (\<lambda>a b. cmp a b \<le> 0) xs"

definition strictly :: "('d \<Rightarrow> 'd \<Rightarrow> int) \<Rightarrow> 'd list \<Rightarrow> bool" where
  "strictly cmp xs \<longleftrightarrow> sorted_wrt (\<lambda>a b. cmp a b < 0) xs"

lemma ordered_append: "ordered cmp (xs @ ys) \<longleftrightarrow> ordered cmp xs \<and> ordered cmp ys \<and> (\<forall>x \<in> set xs. \<forall>y \<in> set ys. cmp x y \<le> 0)"
  by (auto simp: ordered_def sorted_wrt_append)

lemma ordered_Cons: "ordered cmp (x # xs) \<longleftrightarrow> (\<forall>y \<in> set xs. cmp x y \<le> 0) \<and> ordered cmp xs"
  by (auto simp: ordered_def)

lemma ordered_Nil [simp]: "ordered cmp []"
  by (simp add: ordered_def)

lemma strictly_append: "strictly cmp (xs @ ys) \<longleftrightarrow> strictly cmp xs \<and> strictly cmp ys \<and> (\<forall>x \<in> set xs. \<forall>y \<in> set ys. cmp x y < 0)"
  by (auto simp: strictly_def sorted_wrt_append)

lemma strictly_Cons: "strictly cmp (x # xs) \<longleftrightarrow> (\<forall>y \<in> set xs. cmp x y < 0) \<and> strictly cmp xs"
  by (auto simp: strictly_def)

lemma strictly_Nil [simp]: "strictly cmp []"
  by (simp add: strictly_def)

lemma strictly_ordered: "strictly cmp xs \<Longrightarrow> ordered cmp xs"
  by (induction xs) (auto simp: strictly_Cons ordered_Cons order_less_imp_le)

end
