(* ===== verification/TW_RBInsert.thy ===== *)
theory TW_RBInsert
  imports TW_RBRotate TW_Compare
begin

text \<open>
  Inserting into the red-black tree: the recolouring loop and the search for the place.
\<close>

section \<open>The recolouring loop\<close>

lemma red_cases:
  assumes "red t"
  shows "\<exists>l q d r. t = mk s l q True d r"
proof -
  have "t \<noteq> Tip" using assms by auto
  from mk_cases [OF this, of s] obtain l q c d r where "t = mk s l q c d r" by blast
  then show ?thesis using assms by auto
qed

text \<open>What an operation that keeps the elements leaves: a tree in order with a black root.\<close>

definition fixed :: "'d rbt \<Rightarrow> 'd rb_heap \<Rightarrow> (ptr \<times> 'd rb_heap) res \<Rightarrow> bool" where
  "fixed T h r \<longleftrightarrow> (\<exists>root' h' t'. r = Inr (root', h') \<and> tree_at (root', h') t' \<and> rb_ok t' \<and> \<not> red t'
     \<and> elems t' = elems T \<and> moved (ptrs T) h h')"

lemma ptrs_same: "elems t = elems u \<Longrightarrow> ptrs t = ptrs u"
  by (simp add: ptrs_elems)

lemma fixed_trans: "fixed U h1 r \<Longrightarrow> moved (ptrs T) h h1 \<Longrightarrow> elems U = elems T \<Longrightarrow> fixed T h r"
  unfolding fixed_def using moved_trans ptrs_same by metis

lemma rd_frame:
  assumes "tree_at (root, h) (plug (Fr s q c d b # fs) t)"
  shows "load q h = Inr (node s (rt t) (rt b) (up fs) c d)"
    and "rd f q h = Inr (f (node s (rt t) (rt b) (up fs) c d))"
    and "t \<noteq> Tip \<Longrightarrow> (if rt t = rbe_left (node s (rt t) (rt b) (up fs) c d) then SL else SR) = s"
proof -
  note a = assms [unfolded tree_at_plug]
  show l: "load q h = Inr (node s (rt t) (rt b) (up fs) c d)" using a by auto
  then show "rd f q h = Inr (f (node s (rt t) (rt b) (up fs) c d))" by (simp add: rd_def)
  assume "t \<noteq> Tip"
  then have "rt t \<noteq> rt b" using hole_not_sibling [of h q t "Fr s q c d b # fs"] a by auto
  then show "(if rt t = rbe_left (node s (rt t) (rt b) (up fs) c d) then SL else SR) = s" by (cases s) auto
qed

lemma rd_hole_parent:
  assumes "tree_at (root, h) (plug fs t)" and "t \<noteq> Tip"
  shows "rd rbe_parent (rt t) h = Inr (up fs)"
  using assms by (cases t) (auto simp: tree_at_plug rd_def)

lemma insert_color_stop:
  assumes t: "tree_at (root, h) (plug fs x)" and x: "x \<noteq> Tip" and ok: "rb_ok (plug fs x)"
    and stop: "\<forall>s q c d b gs. fs = Fr s q c d b # gs \<longrightarrow> \<not> c"
  shows "fixed (plug fs x) h (rb_insert_color (Suc f) (rt x) (root, h))"
proof -
  have r: "rb_is_red (up fs) h = Inr False"
    using rb_is_red_up [of h fs "rt x"] t stop by (auto simp: tree_at_plug split: list.split frame.split)
  have ne: "plug fs x \<noteq> Tip" using x ptrs_plug [of fs x] rt_in [OF x] by (metis empty_iff ptrs.simps(1) UnI1)
  obtain h' where h': "set_red root False h = Inr h'" "tree_at (root, h') (paint False (plug fs x))" "moved (ptrs (plug fs x)) h h'"
    using set_red_root [OF t ne] by blast
  have "rb_insert_color (Suc f) (rt x) (root, h) = Inr (root, h')"
    using rd_hole_parent [OF t x] r h'(1) by simp
  then show ?thesis unfolding fixed_def using h'(2,3) rb_ok_paint [OF ok] ne by auto
qed

fun top_black :: "'d frame list \<Rightarrow> bool" where
  "top_black [] = True"
| "top_black [Fr s q c d b] = (\<not> c)"
| "top_black (f # g # fs) = top_black (g # fs)"

text \<open>The last rotation, when the uncle \<open>u\<close> is black.\<close>

lemma insert_color_end:
  assumes t: "tree_at (root, h) (plug (Fr s g False e2 u # hs) (mk s x p True e y))"
    and x: "rb_ok x" "red x" "rb_ok y" "\<not> red y" "bh x = bh y"
    and u: "rb_ok u" "bh u = bh y" "\<not> red u" and hs: "ctx_ok hs (Suc (bh y)) False"
  shows "fixed (plug (Fr s g False e2 u # hs) (mk s x p True e y)) h
    (bindE (rb_set_blackred p g h) (\<lambda>h. bindE (rb_rotate (opp s) g (root, h)) (\<lambda>rh. rb_insert_color (Suc f) (rt x) rh)))"
proof -
  let ?T = "plug (Fr s g False e2 u # hs) (mk s x p True e y)"
  obtain h1 where h1: "set_red p False h = Inr h1" "tree_at (root, h1) (plug (Fr s g False e2 u # hs) (mk s x p False e y))"
    "moved (ptrs ?T) h h1" using set_red_plug [OF t, of False] by blast
  have t1: "tree_at (root, h1) (plug hs (mk s (mk s x p False e y) g False e2 u))" using h1(2) by simp
  obtain h2 where h2: "set_red g True h1 = Inr h2" "tree_at (root, h2) (plug hs (mk s (mk s x p False e y) g True e2 u))"
    "moved (ptrs (plug hs (mk s (mk s x p False e y) g False e2 u))) h1 h2" using set_red_plug [OF t1, of True] by blast
  have t2: "tree_at (root, h2) (plug hs (mk (opp s) u g True e2 (mk (opp s) y p False e x)))" using h2(2) by simp
  let ?U = "plug hs (mk (opp s) (mk (opp s) u g True e2 y) p False e x)"
  obtain root3 h3 where h3: "rb_rotate (opp s) g (root, h2) = Inr (root3, h3)" "tree_at (root3, h3) ?U"
    "moved (ptrs (plug hs (mk (opp s) u g True e2 (mk (opp s) y p False e x)))) h2 h3"
    using rb_rotate_plug [OF t2] by blast
  have el: "elems ?U = elems ?T" by (cases s) (simp_all add: elems_plug)
  have U: "?U = plug (Fr s p False e (mk (opp s) u g True e2 y) # hs) x" by simp
  have ok: "rb_ok ?U" using x u hs by (simp add: rb_ok_plug bh_mk)
  have nx: "x \<noteq> Tip" using x(2) by auto
  have f: "fixed ?U h3 (rb_insert_color (Suc f) (rt x) (root3, h3))"
    using insert_color_stop [OF h3(2) [unfolded U] nx ok [unfolded U], of f] unfolding U by simp
  have "moved (ptrs ?T) h h3"
  proof -
    have e1: "ptrs (plug hs (mk s (mk s x p False e y) g False e2 u)) = ptrs ?T"
      "ptrs (plug hs (mk (opp s) u g True e2 (mk (opp s) y p False e x))) = ptrs ?T" by (auto simp: ptrs_plug)
    show ?thesis using h1(3) h2(3) h3(3) unfolding e1 by (blast intro: moved_trans)
  qed
  from fixed_trans [OF f this el] h1(1) h2(1) h3(1) show ?thesis
    by (simp add: rb_set_blackred_def del: rb_insert_color.simps)
qed

text \<open>The rotation of the parent that comes before it when \<open>elm\<close> is on the inner side: either way a red node \<open>p\<close>
  with a red child on its outer side is left.\<close>

lemma insert_color_inner:
  assumes t: "tree_at (root, h) (plug (Fr s' p True e b # Fr s g False e2 u # hs) x)"
    and x: "rb_ok x" "red x" and b: "rb_ok b" "bh b = bh x" "\<not> red b"
  shows "\<exists>root' h' x' p' e' y'.
    (bindE (rd (kid (opp s)) p h) (\<lambda>k. if k = rt x
       then bindE (rb_rotate s p (root, h)) (\<lambda>rh. Inr (rt x, p, rh)) else Inr (p, rt x, root, h)))
      = Inr (p', rt x', root', h')
    \<and> tree_at (root', h') (plug (Fr s g False e2 u # hs) (mk s x' p' True e' y'))
    \<and> rb_ok x' \<and> red x' \<and> rb_ok y' \<and> \<not> red y' \<and> bh x' = bh y' \<and> bh y' = bh x
    \<and> elems (plug (Fr s g False e2 u # hs) (mk s x' p' True e' y')) = elems (plug (Fr s' p True e b # Fr s g False e2 u # hs) x)
    \<and> moved (ptrs (plug (Fr s' p True e b # Fr s g False e2 u # hs) x)) h h'"
proof (cases "s' = s")
  case True
  let ?T = "plug (Fr s g False e2 u # hs) (mk s x p True e b)"
  have t1: "tree_at (root, h) ?T" using t True by simp
  have "rt b \<noteq> rt x"
  proof -
    have "tree_at (root, h) (plug (Fr s p True e b # Fr s g False e2 u # hs) x)" using t True by simp
    note a = this [unfolded tree_at_plug]
    have "x \<noteq> Tip" using x(2) by auto
    then show ?thesis using hole_not_sibling [of h p x "Fr s p True e b # Fr s g False e2 u # hs"] a by auto
  qed
  then have "bindE (rd (kid (opp s)) p h) (\<lambda>k. if k = rt x
       then bindE (rb_rotate s p (root, h)) (\<lambda>rh. Inr (rt x, p, rh)) else Inr (p, rt x, root, h)) = Inr (p, rt x, root, h)"
    using tree_at_rd [OF t1, of "kid (opp s)"] by simp
  then show ?thesis using t1 x b True
    by (intro exI [of _ root] exI [of _ h] exI [of _ x] exI [of _ p] exI [of _ e] exI [of _ b]) simp
next
  case False
  then have s': "s' = opp s" by (cases s; cases s') auto
  obtain l q d r where xq: "x = mk s l q True d r" using red_cases [OF x(2), of s] by blast
  have t1: "tree_at (root, h) (plug (Fr s g False e2 u # hs) (mk s b p True e (mk s l q True d r)))"
    using t s' xq by simp
  let ?U = "plug (Fr s g False e2 u # hs) (mk s (mk s b p True e l) q True d r)"
  obtain root' h' where r: "rb_rotate s p (root, h) = Inr (root', h')" "tree_at (root', h') ?U"
    "moved (ptrs (plug (Fr s g False e2 u # hs) (mk s b p True e (mk s l q True d r)))) h h'"
    using rb_rotate_plug [OF t1] by blast
  have "bindE (rd (kid (opp s)) p h) (\<lambda>k. if k = rt x
       then bindE (rb_rotate s p (root, h)) (\<lambda>rh. Inr (rt x, p, rh)) else Inr (p, rt x, root, h))
     = Inr (q, rt (mk s b p True e l), root', h')"
    using tree_at_rd [OF t1, of "kid (opp s)"] r(1) xq by simp
  moreover have "rb_ok (mk s b p True e l)" "rb_ok r" "\<not> red r" "bh (mk s b p True e l) = bh r" "bh r = bh x"
    using x b unfolding xq by (auto simp: bh_mk)
  moreover have "elems ?U = elems (plug (Fr s' p True e b # Fr s g False e2 u # hs) x)"
    unfolding xq s' by (cases s) (simp_all add: elems_plug)
  moreover have "moved (ptrs (plug (Fr s' p True e b # Fr s g False e2 u # hs) x)) h h'"
    using r(3) unfolding xq s' by simp
  ultimately show ?thesis using r(2)
    by (intro exI [of _ root'] exI [of _ h'] exI [of _ "mk s b p True e l"] exI [of _ q] exI [of _ d] exI [of _ r]) simp
qed

lemma insert_color_ok:
  assumes "tree_at (root, h) (plug fs x)" and "rb_ok x" and "red x" and "ctx_ok fs (bh x) False" and "top_black fs"
    and "length fs < f"
  shows "fixed (plug fs x) h (rb_insert_color f (rt x) (root, h))"
  using assms
proof (induction f arbitrary: root h fs x)
  case 0
  then show ?case by simp
next
  case (Suc f)
  note t = Suc.prems(1) and x = Suc.prems(2,3)
  have nx: "x \<noteq> Tip" using x(2) by auto
  show ?case
  proof (cases "\<exists>s q d b gs. fs = Fr s q True d b # gs")
    case False
    then have stop: "\<forall>s q c d b gs. fs = Fr s q c d b # gs \<longrightarrow> \<not> c" by auto
    have "ctx_ok fs (bh x) True" using Suc.prems(4) stop by (cases fs rule: ptrsc.cases) auto
    then have "rb_ok (plug fs x)" using x by (simp add: rb_ok_plug)
    from insert_color_stop [OF t nx this stop] show ?thesis .
  next
    case True
    then obtain s' p e b gs where fs: "fs = Fr s' p True e b # gs" by blast
    have b: "rb_ok b" "bh b = bh x" "\<not> red b" and gs0: "ctx_ok gs (bh x) True" using Suc.prems(4) fs by auto
    obtain s g e2 u hs where gs: "gs = Fr s g False e2 u # hs"
      using Suc.prems(5) gs0 fs by (cases gs rule: ptrsc.cases) auto
    have u: "rb_ok u" "bh u = bh x" and hs: "ctx_ok hs (Suc (bh x)) False" and tb: "top_black hs"
      using gs0 gs Suc.prems(5) fs by (auto elim: top_black.elims)
    let ?P = "mk s' x p True e b"
    have tP: "tree_at (root, h) (plug (Fr s g False e2 u # hs) ?P)" using t fs gs by simp
    note pr = rd_hole_parent [OF t nx, unfolded fs, simplified]
    have pred: "rb_is_red p h = Inr True" using rb_is_red_up [of h fs "rt x"] t fs by (simp add: tree_at_plug)
    have gp: "rd rbe_parent p h = Inr g" using rd_hole_parent [OF tP] by simp
    note gl = rd_frame(2) [OF tP]
    have side: "(if p = rbe_left (node s p (rt u) (up hs) False e2) then SL else SR) = s"
      using rd_frame(3) [OF tP] by simp
    have ru: "rep h g u" using tP by (simp add: tree_at_plug)
    note ured = rb_is_red_rt [OF ru]
    show ?thesis
    proof (cases "red u")
      case False
      obtain root' h' x' p' e' y' where i:
        "(bindE (rd (kid (opp s)) p h) (\<lambda>k. if k = rt x
           then bindE (rb_rotate s p (root, h)) (\<lambda>rh. Inr (rt x, p, rh)) else Inr (p, rt x, root, h))) = Inr (p', rt x', root', h')"
        "tree_at (root', h') (plug (Fr s g False e2 u # hs) (mk s x' p' True e' y'))"
        "rb_ok x'" "red x'" "rb_ok y'" "\<not> red y'" "bh x' = bh y'" "bh y' = bh x"
        "elems (plug (Fr s g False e2 u # hs) (mk s x' p' True e' y')) = elems (plug fs x)"
        "moved (ptrs (plug fs x)) h h'"
        using insert_color_inner [OF t [unfolded fs gs] x b] unfolding fs gs by blast
      obtain f' where f': "f = Suc f'" using Suc.prems(6) fs gs by (cases f) auto
      have "fixed (plug (Fr s g False e2 u # hs) (mk s x' p' True e' y')) h'
        (bindE (rb_set_blackred p' g h') (\<lambda>h. bindE (rb_rotate (opp s) g (root', h)) (\<lambda>rh. rb_insert_color (Suc f') (rt x') rh)))"
        by (rule insert_color_end [OF i(2-7)]) (use u hs i(7,8) False in simp_all)
      note E = fixed_trans [OF this i(10,9)]
      have "rb_insert_color (Suc f) (rt x) (root, h)
        = bindE (bindE (rd (kid (opp s)) p h) (\<lambda>k. if k = rt x
           then bindE (rb_rotate s p (root, h)) (\<lambda>rh. Inr (rt x, p, rh)) else Inr (p, rt x, root, h)))
          (\<lambda>(p, e, root, h). bindE (rb_set_blackred p g h) (\<lambda>h. bindE (rb_rotate (opp s) g (root, h)) (\<lambda>rh. rb_insert_color f e rh)))"
        by (simp add: pr pred gp gl side ured False Let_def bindE_assoc cong: if_cong)
      then show ?thesis using E unfolding i(1) f' by (simp del: rb_insert_color.simps)
    next
      case True
      obtain l w d r where uw: "u = mk (opp s) l w True d r" using red_cases [OF True, of "opp s"] by blast
      have t1: "tree_at (root, h) (plug (Fr (opp s) g False e2 ?P # hs) (mk (opp s) l w True d r))"
        using tP uw by simp
      let ?u = "mk (opp s) l w False d r"
      obtain h1 where h1: "set_red w False h = Inr h1" "tree_at (root, h1) (plug (Fr (opp s) g False e2 ?P # hs) ?u)"
        "moved (ptrs (plug (Fr (opp s) g False e2 ?P # hs) (mk (opp s) l w True d r))) h h1"
        using set_red_plug [OF t1, of False] by blast
      have t2: "tree_at (root, h1) (plug (Fr s g False e2 ?u # hs) (mk s' x p True e b))" using h1(2) by simp
      obtain h2 where h2: "set_red p False h1 = Inr h2" "tree_at (root, h2) (plug (Fr s g False e2 ?u # hs) (mk s' x p False e b))"
        "moved (ptrs (plug (Fr s g False e2 ?u # hs) (mk s' x p True e b))) h1 h2"
        using set_red_plug [OF t2, of False] by blast
      have t3: "tree_at (root, h2) (plug hs (mk s (mk s' x p False e b) g False e2 ?u))" using h2(2) by simp
      let ?G = "mk s (mk s' x p False e b) g True e2 ?u"
      obtain h3 where h3: "set_red g True h2 = Inr h3" "tree_at (root, h3) (plug hs ?G)"
        "moved (ptrs (plug hs (mk s (mk s' x p False e b) g False e2 ?u))) h2 h3"
        using set_red_plug [OF t3, of True] by blast
      have okG: "rb_ok ?G" "red ?G" and bG: "bh ?G = Suc (bh x)"
        using x b u uw True by (auto simp: bh_mk)
      have "fixed (plug hs ?G) h3 (rb_insert_color f (rt ?G) (root, h3))"
        by (rule Suc.IH [OF h3(2) okG]) (use bG hs tb Suc.prems(6) fs gs in simp_all)
      moreover have "elems (plug hs ?G) = elems (plug fs x)"
        unfolding fs gs uw by (cases s; cases s') (simp_all add: elems_plug)
      moreover have "moved (ptrs (plug fs x)) h h3"
      proof -
        have e1: "ptrs (plug (Fr (opp s) g False e2 ?P # hs) (mk (opp s) l w True d r)) = ptrs (plug fs x)"
          "ptrs (plug (Fr s g False e2 ?u # hs) (mk s' x p True e b)) = ptrs (plug fs x)"
          "ptrs (plug hs (mk s (mk s' x p False e b) g False e2 ?u)) = ptrs (plug fs x)"
          unfolding fs gs uw by (auto simp: ptrs_plug)
        show ?thesis using h1(3) h2(3) h3(3) unfolding e1 by (blast intro: moved_trans)
      qed
      ultimately have E: "fixed (plug fs x) h (rb_insert_color f g (root, h3))" using fixed_trans by fastforce
      have "rb_insert_color (Suc f) (rt x) (root, h) = rb_insert_color f g (root, h3)"
      proof -
        have w: "rt u = w" using uw by simp
        show ?thesis
          by (simp add: pr pred gp gl w side [unfolded w] ured [unfolded w] True Let_def h1(1) h2(1) h3(1)
              rb_set_blackred_def cong: if_cong)
      qed
      then show ?thesis using E by simp
    qed
  qed
qed

section \<open>The order of the elements\<close>

definition in_order :: "('d \<Rightarrow> 'd \<Rightarrow> int) \<Rightarrow> (ptr \<times> 'd) list \<Rightarrow> bool" where
  "in_order cmp xs \<longleftrightarrow> sorted_wrt (\<lambda>x y. cmp (snd x) (snd y) < 0) xs"

lemma before_append: "before (gs @ fs) = before fs @ before gs"
  by (induction gs rule: before.induct) simp_all

lemma behind_append: "behind (gs @ fs) = behind gs @ behind fs"
  by (induction gs rule: behind.induct) simp_all

lemma in_order_append: "in_order cmp (xs @ ys) \<longleftrightarrow> in_order cmp xs \<and> in_order cmp ys
    \<and> (\<forall>x \<in> set xs. \<forall>y \<in> set ys. cmp (snd x) (snd y) < 0)"
  by (auto simp: in_order_def sorted_wrt_append)

lemma in_order_Cons: "in_order cmp (x # xs) \<longleftrightarrow> (\<forall>y \<in> set xs. cmp (snd x) (snd y) < 0) \<and> in_order cmp xs"
  by (auto simp: in_order_def)

text \<open>Where \<open>rb_place\<close> ends: at an equal node, or in the hole \<open>gs\<close> below \<open>fs\<close>, with all that is before it less.\<close>

definition placed :: "('d \<Rightarrow> 'd \<Rightarrow> int) \<Rightarrow> 'd \<Rightarrow> int \<Rightarrow> 'd frame list \<Rightarrow> 'd rbt \<Rightarrow> ptr + ptr \<times> int \<Rightarrow> bool" where
  "placed cmp key c0 fs t r \<longleftrightarrow> (case r of
     Inl p \<Rightarrow> \<exists>d. (p, d) \<in> set (elems t) \<and> cmp key d = 0
   | Inr (parent, c) \<Rightarrow> \<exists>gs. plug gs Tip = t \<and> parent = up (gs @ fs)
       \<and> (if gs = [] then c = c0 else \<exists>q e d b gs'. gs = Fr (if c < 0 then SL else SR) q e d b # gs')
       \<and> (\<forall>x \<in> set (before gs). 0 < cmp key (snd x)) \<and> (\<forall>x \<in> set (behind gs). cmp key (snd x) < 0))"

lemma placed_step:
  assumes "placed cmp key c (Fr s q e d b # fs) t r"
    and "c < 0 \<and> s = SL \<or> 0 < c \<and> s = SR"
    and "s = SL \<Longrightarrow> \<forall>x \<in> set ((q, d) # elems b). cmp key (snd x) < 0"
    and "s = SR \<Longrightarrow> \<forall>x \<in> set (elems b @ [(q, d)]). 0 < cmp key (snd x)"
  shows "placed cmp key c0 fs (mk s t q e d b) r"
proof (cases r)
  case (Inl p)
  then show ?thesis using assms(1) by (auto simp: placed_def elems_mk) (cases s; auto)
next
  case (Inr pc)
  obtain parent c' where pc: "r = Inr (parent, c')" using Inr by (cases pc) auto
  obtain gs where g: "plug gs Tip = t" "parent = up (gs @ Fr s q e d b # fs)"
    "if gs = [] then c' = c else \<exists>q e d b gs'. gs = Fr (if c' < 0 then SL else SR) q e d b # gs'"
    "\<forall>x \<in> set (before gs). 0 < cmp key (snd x)" "\<forall>x \<in> set (behind gs). cmp key (snd x) < 0"
    using assms(1) pc by (auto simp: placed_def)
  let ?gs = "gs @ [Fr s q e d b]"
  have "set (before [Fr s q e d b]) = (if s = SR then set (elems b @ [(q, d)]) else {})"
    "set (behind [Fr s q e d b]) = (if s = SL then set ((q, d) # elems b) else {})" by (cases s; simp)+
  then have "(\<forall>x \<in> set (before ?gs). 0 < cmp key (snd x)) \<and> (\<forall>x \<in> set (behind ?gs). cmp key (snd x) < 0)"
    using g(4,5) assms(3,4) by (auto simp: before_append behind_append split: if_splits)
  moreover have "\<exists>q e d b gs'. ?gs = Fr (if c' < 0 then SL else SR) q e d b # gs'"
    using g(3) assms(2) by (auto split: if_splits)
  moreover have "plug ?gs Tip = mk s t q e d b" "parent = up (?gs @ fs)" using g(1,2) by simp_all
  ultimately show ?thesis unfolding pc placed_def sum.case prod.case by (intro exI [of _ ?gs]) simp
qed

context comparing begin

lemma rb_place_ok:
  assumes "rep h p t" and "in_order cmp (elems t)" and "length (elems t) < f" and "p = up fs"
  shows "\<exists>r. rb_place cmp f key (rt t) p c0 h = Inr r \<and> placed cmp key c0 fs t r"
  using assms
proof (induction t arbitrary: f p fs c0)
  case Tip
  then show ?case by (cases f) (auto simp: placed_def intro!: exI [of _ "[]"])
next
  case (Nd l q e d r)
  obtain f' where f: "f = Suc f'" using Nd.prems(3) by (cases f) auto
  have c: "cell_at h q = Obj (node SL (rt l) (rt r) p e d)" and lr: "rep h q l" "rep h q r" using Nd.prems(1) by simp_all
  have q: "q \<noteq> NULL" using c by (auto dest: cell_at_Obj_pos)
  have so: "in_order cmp (elems l)" "in_order cmp (elems r)" "\<forall>x \<in> set (elems l). cmp (snd x) d < 0"
    "\<forall>x \<in> set (elems r). cmp d (snd x) < 0"
    using Nd.prems(2) by (auto simp: in_order_append in_order_Cons)
  consider "cmp key d < 0" | "0 < cmp key d" | "cmp key d = 0" by linarith
  then show ?case
  proof cases
    case 1
    obtain z where z: "rb_place cmp f' key (rt l) q (cmp key d) h = Inr z" "placed cmp key (cmp key d) (Fr SL q e d r # fs) l z"
      using Nd.IH(1) [OF lr(1) so(1), of f' "Fr SL q e d r # fs"] Nd.prems(3) f by auto
    have "placed cmp key c0 fs (mk SL l q e d r) z"
      by (rule placed_step [OF z(2)]) (use 1 so(4) cmp_trans in auto)
    then show ?thesis using z(1) f c q 1 by simp
  next
    case 2
    obtain z where z: "rb_place cmp f' key (rt r) q (cmp key d) h = Inr z" "placed cmp key (cmp key d) (Fr SR q e d l # fs) r z"
      using Nd.IH(2) [OF lr(2) so(2), of f' "Fr SR q e d l # fs"] Nd.prems(3) f by auto
    have "0 < cmp key (snd x)" if "x \<in> set (elems l)" for x
      using that so(3) 2 cmp_trans [of "snd x" d key] cmp_swap by blast
    then have "placed cmp key c0 fs (mk SR r q e d l) z"
      by (intro placed_step [OF z(2)]) (use 2 in auto)
    then show ?thesis using z(1) f c q 2 by simp
  next
    case 3
    then show ?thesis using f c q by (auto simp: placed_def)
  qed
qed

end

section \<open>RB_INSERT\<close>

lemma length_ctx: "length fs \<le> length (before fs) + length (behind fs)"
  by (induction fs rule: before.induct) auto

lemma length_elems:
  assumes "rep h p t" and "dist t"
  shows "length (elems t) \<le> heap_size h"
proof -
  have "card (ptrs t) = length (elems t)"
    using assms(2) unfolding ptrs_elems dist_elems
    by (metis distinct_card length_map list.set_map)
  moreover have "ptrs t \<subseteq> {1..heap_size h}"
  proof
    fix q
    assume "q \<in> ptrs t"
    then obtain n where "cell_at h q = Obj n" using rep_obj [OF assms(1)] by blast
    then show "q \<in> {1..heap_size h}" using cell_at_valid [of h q] by auto
  qed
  ultimately show ?thesis using card_mono [of "{1..heap_size h}" "ptrs t"] by simp
qed

lemma top_black_plug: "fs \<noteq> [] \<Longrightarrow> \<not> red (plug fs t) \<Longrightarrow> top_black fs"
  by (induction fs arbitrary: t rule: top_black.induct) auto

text \<open>Hanging a new red leaf in a hole.\<close>

lemma hang_leaf:
  assumes t: "tree_at (root, h) (plug gs Tip)" and n: "cell_at h elm = Obj n" and new: "elm \<notin> ptrsc gs"
    and side: "if gs = [] then True else \<exists>q e d b gs'. gs = Fr s q e d b # gs'"
  shows "\<exists>h'. bindE (rb_set elm (up gs) h) (\<lambda>h. if up gs \<noteq> NULL
      then bindE (modify (up gs) (set_kid s elm) h) (\<lambda>h. Inr (root, h)) else Inr (elm, h)) = Inr (rootc gs elm, h')
    \<and> tree_at (rootc gs elm, h') (plug gs (Nd Tip elm True (rb_data n) Tip)) \<and> moved (insert elm (ptrsc gs)) h h'"
proof -
  let ?x = "Nd Tip elm True (rb_data n) Tip"
  note a = t [unfolded tree_at_plug]
  define h1 where "h1 = put_cell elm (Obj (node SL NULL NULL (up gs) True (rb_data n))) h"
  have s1: "rb_set elm (up gs) h = Inr h1"
    by (cases n) (simp add: rb_set_def modify_Obj [OF n] h1_def)
  have x1: "cell_at h1 elm = Obj (node SL NULL NULL (up gs) True (rb_data n))" and c1: "repc h1 gs NULL"
    using n a new by (simp_all add: h1_def cell_at_put repc_put)
  have m1: "moved (insert elm (ptrsc gs)) h h1" unfolding h1_def by (rule moved_put) (simp_all add: n)
  let ?h2 = "rehang gs elm h1"
  have "(if up gs \<noteq> NULL then bindE (modify (up gs) (set_kid s elm) h1) (\<lambda>h. Inr (root, h)) else Inr (elm, h1)) = Inr (rootc gs elm, ?h2)"
  proof (cases gs rule: ptrsc.cases)
    case 1
    then show ?thesis by (simp add: rehang_def)
  next
    case (2 s' q e d b gs')
    then have "s' = s" using side by simp
    moreover have "cell_at h1 q = Obj (node s' NULL (rt b) (up gs') e d)" using c1 2 by simp
    ultimately show ?thesis using 2 a
      by (auto simp: modify_Obj rehang_def dest: cell_at_Obj_pos simp del: node.simps)
  qed
  moreover have "tree_at (rootc gs elm, ?h2) (plug gs ?x)"
    unfolding tree_at_plug using a new x1 repc_rehang [OF c1] cell_at_rehang_out [OF c1 new] by simp
  moreover have "moved (insert elm (ptrsc gs)) h1 ?h2" by (rule moved_rehang [OF c1]) auto
  ultimately show ?thesis using s1 m1 moved_trans by (intro exI [of _ ?h2]) auto
qed

context comparing begin

lemma rb_insert_ok:
  assumes t: "tree_at (root, h) t" and ok: "rb_ok t" "\<not> red t" and so: "in_order cmp (elems t)"
    and n: "cell_at h elm = Obj n" and new: "elm \<notin> ptrs t"
  shows "(\<exists>p d. (p, d) \<in> set (elems t) \<and> cmp (rb_data n) d = 0 \<and> rb_insert cmp elm (root, h) = Inr (p, root, h))
    \<or> (\<forall>x \<in> set (elems t). cmp (rb_data n) (snd x) \<noteq> 0)
      \<and> (\<exists>root' h' t'. rb_insert cmp elm (root, h) = Inr (NULL, root', h') \<and> tree_at (root', h') t' \<and> rb_ok t' \<and> \<not> red t'
        \<and> elems t' = filter (\<lambda>x. 0 < cmp (rb_data n) (snd x)) (elems t) @ (elm, rb_data n)
            # filter (\<lambda>x. cmp (rb_data n) (snd x) < 0) (elems t)
        \<and> moved (insert elm (ptrs t)) h h')"
proof -
  let ?key = "rb_data n"
  have rp: "rep h NULL t" and ro: "root = rt t" and di: "dist t" using t by (auto simp: tree_at_def)
  note len = length_elems [OF rp di]
  obtain r where r: "rb_place cmp (Suc (heap_size h)) ?key root NULL 0 h = Inr r" "placed cmp ?key 0 [] t r"
    using rb_place_ok [OF rp so, of "Suc (heap_size h)" "[]" ?key 0] len ro by auto
  have k: "rd rb_data elm h = Inr ?key" using n by (simp add: rd_def)
  show ?thesis
  proof (cases r)
    case (Inl p)
    then show ?thesis using r k by (auto simp: rb_insert_def placed_def)
  next
    case (Inr pc)
    obtain c gs where g: "r = Inr (up gs, c)" "plug gs Tip = t"
      "if gs = [] then c = 0 else \<exists>q e d b gs'. gs = Fr (if c < 0 then SL else SR) q e d b # gs'"
      "\<forall>x \<in> set (before gs). 0 < cmp ?key (snd x)" "\<forall>x \<in> set (behind gs). cmp ?key (snd x) < 0"
      using r(2) Inr by (cases pc) (auto simp: placed_def)
    have el: "elems t = before gs @ behind gs" using elems_plug [of gs Tip] g(2) by simp
    have pt: "ptrs t = ptrsc gs" using ptrs_plug [of gs Tip] g(2) by simp
    let ?x = "Nd Tip elm True ?key Tip"
    have sd: "if gs = [] then True else \<exists>q e d b gs'. gs = Fr (if c < 0 then SL else SR) q e d b # gs'"
      using g(3) by (simp split: if_splits)
    obtain h1 where h1: "bindE (rb_set elm (up gs) h) (\<lambda>h. if up gs \<noteq> NULL
        then bindE (modify (up gs) (set_kid (if c < 0 then SL else SR) elm) h) (\<lambda>h. Inr (root, h)) else Inr (elm, h)) = Inr (rootc gs elm, h1)"
      "tree_at (rootc gs elm, h1) (plug gs ?x)" "moved (insert elm (ptrsc gs)) h h1"
      using hang_leaf [OF t [folded g(2)] n _ sd] new pt by blast
    have "ctx_ok gs 0 False" using ok(1) g(2) rb_ok_plug [of gs Tip] by simp
    moreover have "top_black gs" using top_black_plug [of gs Tip] ok(2) g(2) by (cases gs) auto
    moreover have "length gs < Suc (heap_size h)" using length_ctx [of gs] el len by simp
    ultimately have "fixed (plug gs ?x) h1 (rb_insert_color (Suc (heap_size h)) (rt ?x) (rootc gs elm, h1))"
      by (intro insert_color_ok [OF h1(2)]) simp_all
    then obtain root' h' t' where f: "rb_insert_color (Suc (heap_size h)) elm (rootc gs elm, h1) = Inr (root', h')"
      "tree_at (root', h') t'" "rb_ok t'" "\<not> red t'" "elems t' = elems (plug gs ?x)" "moved (ptrs (plug gs ?x)) h1 h'"
      unfolding fixed_def by auto
    have sz: "heap_size h1 = heap_size h" using h1(3) by (simp add: moved_def)
    have "rb_insert cmp elm (root, h) = bindE (bindE (rb_set elm (up gs) h) (\<lambda>h. if up gs \<noteq> NULL
        then bindE (modify (up gs) (set_kid (if c < 0 then SL else SR) elm) h) (\<lambda>h. Inr (root, h)) else Inr (elm, h)))
        (\<lambda>rh. bindE (rb_insert_color (Suc (heap_size h)) elm rh) (\<lambda>rh. Inr (NULL, rh)))"
      using r(1) k g(1) by (simp add: rb_insert_def bindE_assoc del: rb_insert_color.simps rb_place.simps)
    also have "\<dots> = Inr (NULL, root', h')" unfolding h1(1) using f(1) by (simp del: rb_insert_color.simps)
    finally have run: "rb_insert cmp elm (root, h) = Inr (NULL, root', h')" .
    have "filter (\<lambda>x. 0 < cmp ?key (snd x)) (elems t) = before gs" "filter (\<lambda>x. cmp ?key (snd x) < 0) (elems t) = behind gs"
      using g(4,5) unfolding el by (auto simp: filter_id_conv filter_empty_conv)
    moreover have "moved (insert elm (ptrs t)) h h'"
      using h1(3) f(6) unfolding pt by (auto simp: ptrs_plug intro: moved_trans)
    moreover have "\<forall>x \<in> set (elems t). cmp ?key (snd x) \<noteq> 0" using g(4,5) unfolding el by force
    ultimately show ?thesis using run f(2-5) by (auto simp: elems_plug)
  qed
qed

end

end
