(* ===== verification/TW_RBRemove.thy ===== *)
theory TW_RBRemove
  imports TW_RBInsert
begin

text \<open>
  Removing from the red-black tree: the recolouring loop, and taking a node out.
\<close>

section \<open>The recolouring loop\<close>

lemma rep_is_red_kid: "tree_at (root, h) (plug fs (mk s a q c d b)) \<Longrightarrow> rb_is_red (rt a) h = Inr (red a)"
  "tree_at (root, h) (plug fs (mk s a q c d b)) \<Longrightarrow> rb_is_red (rt b) h = Inr (red b)"
  by (auto simp: tree_at_plug intro!: rb_is_red_rt)

lemma top_black_red: "top_black fs \<Longrightarrow> fs \<noteq> [] \<Longrightarrow> \<not> red (plug fs t)"
  by (induction fs arbitrary: t rule: top_black.induct) auto

lemma red_plug_paint: "top_black fs \<Longrightarrow> \<not> red (plug fs (paint False t))"
  by (cases "fs = []") (auto simp: top_black_red)

text \<open>The loop ends at a red node, or at the root.\<close>

lemma remove_color_stop:
  assumes t: "tree_at (root, h) (plug fs x)" and ok: "rb_ok (paint False x)" and cx: "ctx_ok fs (Suc (bh x)) False"
    and tb: "top_black fs" and stop: "red x \<or> fs = []"
  shows "fixed (plug fs x) h (rb_remove_color (Suc f) (up fs) (rt x) (root, h))"
proof -
  have r: "rb_is_red (rt x) h = Inr (red x)" using t by (auto simp: tree_at_plug intro!: rb_is_red_rt)
  have ro: "fs = [] \<Longrightarrow> root = rt x" using t by (simp add: tree_at_def)
  have run: "rb_remove_color (Suc f) (up fs) (rt x) (root, h)
      = bindE (if rt x \<noteq> NULL then set_red (rt x) False h else Inr h) (\<lambda>h. Inr (root, h))"
    using stop ro by (auto simp: r)
  have o: "rb_ok (plug fs (paint False x))"
  proof (cases "red x")
    case True
    then have "bh (paint False x) = Suc (bh x)" by (cases x) auto
    then show ?thesis using ok cx by (simp add: rb_ok_plug)
  qed (use stop ok in simp)
  show ?thesis
  proof (cases "x = Tip")
    case True
    then have f: "fs = []" using stop by auto
    show ?thesis unfolding fixed_def run using t True f by (intro exI [of _ root] exI [of _ h] exI [of _ Tip]) simp
  next
    case False
    obtain a q c d b where x: "x = mk SL a q c d b" using mk_cases [OF False] by blast
    have "rt x \<noteq> NULL" using t False by (auto simp: tree_at_plug dest: rep_root)
    moreover obtain h' where "set_red q False h = Inr h'" "tree_at (root, h') (plug fs (mk SL a q False d b))"
      "moved (ptrs (plug fs (mk SL a q c d b))) h h'" using set_red_plug [OF t [unfolded x], of False] by blast
    moreover have "\<not> red (plug fs (mk SL a q False d b))" using red_plug_paint [OF tb, of x] x by simp
    ultimately show ?thesis unfolding fixed_def run using o x
      by (intro exI [of _ root] exI [of _ h'] exI [of _ "plug fs (mk SL a q False d b)"]) (simp add: elems_plug)
  qed
qed

text \<open>Making the sibling black.\<close>

lemma black_sibling_ok:
  assumes t: "tree_at (root, h) (plug (Fr s p c e b # gs) x)" and cx: "ctx_ok (Fr s p c e b # gs) (Suc (bh x)) False"
    and tb: "top_black (Fr s p c e b # gs)"
  shows "\<exists>root' h' c' b' gs'. rb_black_sibling s p (root, h) = Inr (rt b', root', h')
    \<and> tree_at (root', h') (plug (Fr s p c' e b' # gs') x) \<and> \<not> red b'
    \<and> ctx_ok (Fr s p c' e b' # gs') (Suc (bh x)) False \<and> top_black (Fr s p c' e b' # gs')
    \<and> elems (plug (Fr s p c' e b' # gs') x) = elems (plug (Fr s p c e b # gs) x)
    \<and> moved (ptrs (plug (Fr s p c e b # gs) x)) h h' \<and> (c' \<or> gs' = gs)"
proof -
  have tP: "tree_at (root, h) (plug gs (mk s x p c e b))" using t by simp
  have k: "rd (kid (opp s)) p h = Inr (rt b)" using tree_at_rd [OF tP, of "kid (opp s)"] by simp
  have b: "rb_ok b" "bh b = Suc (bh x)" using cx by simp_all
  then obtain l w cw d r where bw: "b = mk s l w cw d r" using mk_cases [of b s] by (cases b) auto
  have t1: "tree_at (root, h) (plug (Fr (opp s) p c e x # gs) (mk s l w cw d r))" using tP bw by simp
  have rw: "rd rbe_red w h = Inr cw" using tree_at_rd [OF t1, of rbe_red] by simp
  show ?thesis
  proof (cases cw)
    case False
    have run: "rb_black_sibling s p (root, h) = Inr (rt b, root, h)"
      using k rw bw False by (simp add: rb_black_sibling_def)
    show ?thesis
      by (intro exI [of _ root] exI [of _ h] exI [of _ c] exI [of _ b] exI [of _ gs])
        (use run t cx tb bw False in simp)
  next
    case True
    have c: "\<not> c" using cx bw True by auto
    obtain h1 where h1: "set_red w False h = Inr h1" "tree_at (root, h1) (plug (Fr (opp s) p c e x # gs) (mk s l w False d r))"
      "moved (ptrs (plug (Fr (opp s) p c e x # gs) (mk s l w cw d r))) h h1" using set_red_plug [OF t1, of False] by blast
    have t2: "tree_at (root, h1) (plug gs (mk s x p c e (mk s l w False d r)))" using h1(2) by simp
    obtain h2 where h2: "set_red p True h1 = Inr h2" "tree_at (root, h2) (plug gs (mk s x p True e (mk s l w False d r)))"
      "moved (ptrs (plug gs (mk s x p c e (mk s l w False d r)))) h1 h2" using set_red_plug [OF t2, of True] by blast
    obtain root3 h3 where h3: "rb_rotate s p (root, h2) = Inr (root3, h3)"
      "tree_at (root3, h3) (plug gs (mk s (mk s x p True e l) w False d r))"
      "moved (ptrs (plug gs (mk s x p True e (mk s l w False d r)))) h2 h3"
      using rb_rotate_plug [OF h2(2)] by blast
    have t3: "tree_at (root3, h3) (plug (Fr s w False d r # gs) (mk s x p True e l))" using h3(2) by simp
    have k3: "rd (kid (opp s)) p h3 = Inr (rt l)" using tree_at_rd [OF t3, of "kid (opp s)"] by simp
    have run: "rb_black_sibling s p (root, h) = Inr (rt l, root3, h3)"
      using k rw bw True h1(1) h2(1) h3(1) k3 by (simp add: rb_black_sibling_def rb_set_blackred_def)
    have bl: "rb_ok l" "rb_ok r" "bh l = Suc (bh x)" "bh r = Suc (bh x)" "\<not> red l" "\<not> red r"
      using b True unfolding bw by (auto simp: bh_mk)
    have mv: "moved (ptrs (plug (Fr s p c e b # gs) x)) h h3"
    proof -
      have e1: "ptrs (plug (Fr (opp s) p c e x # gs) (mk s l w cw d r)) = ptrs (plug (Fr s p c e b # gs) x)"
        "ptrs (plug gs (mk s x p c e (mk s l w False d r))) = ptrs (plug (Fr s p c e b # gs) x)"
        "ptrs (plug gs (mk s x p True e (mk s l w False d r))) = ptrs (plug (Fr s p c e b # gs) x)"
        unfolding bw by (auto simp: ptrs_plug)
      show ?thesis using h1(3) h2(3) h3(3) unfolding e1 by (blast intro: moved_trans)
    qed
    show ?thesis
    proof (intro exI [of _ root3] exI [of _ h3] exI [of _ True] exI [of _ l] exI [of _ "Fr s w False d r # gs"] conjI)
      show "rb_black_sibling s p (root, h) = Inr (rt l, root3, h3)" by (rule run)
      show "tree_at (root3, h3) (plug (Fr s p True e l # Fr s w False d r # gs) x)" using t3 by simp
      show "ctx_ok (Fr s p True e l # Fr s w False d r # gs) (Suc (bh x)) False" using bl cx c by simp
      show "top_black (Fr s p True e l # Fr s w False d r # gs)" using tb by (cases gs) auto
      show "elems (plug (Fr s p True e l # Fr s w False d r # gs) x) = elems (plug (Fr s p c e b # gs) x)"
        unfolding bw by (cases s) (simp_all add: elems_plug)
    qed (use bl mv in simp_all)
  qed
qed

text \<open>The last rotation.\<close>

lemma red_far_ok:
  assumes t: "tree_at (root, h) (plug (Fr s p c e (mk s b1 w False d b2) # gs) x)"
    and b: "rb_ok b1" "rb_ok b2" "bh b1 = bh x" "bh b2 = bh x" "red b1 \<or> red b2"
  shows "\<exists>root' h' m1 y f m2. rb_red_far s p w (root, h) = Inr (y, root', h')
    \<and> tree_at (root', h') (plug (Fr s p c e (mk s m1 y False f m2) # gs) x)
    \<and> rb_ok m1 \<and> rb_ok m2 \<and> bh m1 = bh x \<and> bh m2 = bh x \<and> red m2
    \<and> elems (mk s m1 y False f m2) = elems (mk s b1 w False d b2)
    \<and> moved (ptrs (plug (Fr s p c e (mk s b1 w False d b2) # gs) x)) h h'"
proof -
  let ?F = "Fr (opp s) p c e x # gs"
  have t1: "tree_at (root, h) (plug ?F (mk s b1 w False d b2))" using t by simp
  note k = tree_at_rd [OF t1, of "kid (opp s)"] tree_at_rd [OF t1, of "kid s"] rep_is_red_kid(2) [OF t1]
  show ?thesis
  proof (cases "red b2")
    case True
    then have "rb_red_far s p w (root, h) = Inr (w, root, h)" using k by (simp add: rb_red_far_def)
    then show ?thesis using t b True by (metis moved_refl)
  next
    case False
    then have rb1: "red b1" using b(5) by simp
    obtain n1 z d1 n2 where b1: "b1 = mk s n1 z True d1 n2" using red_cases [OF rb1] by blast
    have zn: "z \<noteq> NULL" using t1 b1 by (auto simp: tree_at_plug dest: cell_at_Obj_pos)
    have t2: "tree_at (root, h) (plug (Fr s w False d b2 # ?F) (mk s n1 z True d1 n2))" using t1 b1 by simp
    obtain h1 where h1: "set_red z False h = Inr h1" "tree_at (root, h1) (plug (Fr s w False d b2 # ?F) (mk s n1 z False d1 n2))"
      "moved (ptrs (plug (Fr s w False d b2 # ?F) (mk s n1 z True d1 n2))) h h1" using set_red_plug [OF t2, of False] by blast
    have t3: "tree_at (root, h1) (plug ?F (mk s (mk s n1 z False d1 n2) w False d b2))" using h1(2) by simp
    obtain h2 where h2: "set_red w True h1 = Inr h2" "tree_at (root, h2) (plug ?F (mk s (mk s n1 z False d1 n2) w True d b2))"
      "moved (ptrs (plug ?F (mk s (mk s n1 z False d1 n2) w False d b2))) h1 h2" using set_red_plug [OF t3, of True] by blast
    have t4: "tree_at (root, h2) (plug ?F (mk (opp s) b2 w True d (mk (opp s) n2 z False d1 n1)))" using h2(2) by simp
    obtain root3 h3 where h3: "rb_rotate (opp s) w (root, h2) = Inr (root3, h3)"
      "tree_at (root3, h3) (plug ?F (mk (opp s) (mk (opp s) b2 w True d n2) z False d1 n1))"
      "moved (ptrs (plug ?F (mk (opp s) b2 w True d (mk (opp s) n2 z False d1 n1)))) h2 h3"
      using rb_rotate_plug [OF t4] by blast
    have t5: "tree_at (root3, h3) (plug (Fr s p c e (mk s n1 z False d1 (mk s n2 w True d b2)) # gs) x)" using h3(2) by simp
    have "rd (kid (opp s)) p h3 = Inr z" using rd_frame(2) [OF t5, of "kid (opp s)"] by simp
    then have run: "rb_red_far s p w (root, h) = Inr (z, root3, h3)"
      using k False b1 zn h1(1) h2(1) h3(1) by (simp add: rb_red_far_def)
    have mv: "moved (ptrs (plug (Fr s p c e (mk s b1 w False d b2) # gs) x)) h h3"
    proof -
      have e1: "ptrs (plug (Fr s w False d b2 # ?F) (mk s n1 z True d1 n2)) = ptrs (plug (Fr s p c e (mk s b1 w False d b2) # gs) x)"
        "ptrs (plug ?F (mk s (mk s n1 z False d1 n2) w False d b2)) = ptrs (plug (Fr s p c e (mk s b1 w False d b2) # gs) x)"
        "ptrs (plug ?F (mk (opp s) b2 w True d (mk (opp s) n2 z False d1 n1))) = ptrs (plug (Fr s p c e (mk s b1 w False d b2) # gs) x)"
        unfolding b1 by (auto simp: ptrs_plug)
      show ?thesis using h1(3) h2(3) h3(3) unfolding e1 by (blast intro: moved_trans)
    qed
    show ?thesis
    proof (rule exI [of _ root3], rule exI [of _ h3], rule exI [of _ n1], rule exI [of _ z], rule exI [of _ d1],
        rule exI [of _ "mk s n2 w True d b2"], intro conjI)
      show "rb_red_far s p w (root, h) = Inr (z, root3, h3)" by (rule run)
      show "elems (mk s n1 z False d1 (mk s n2 w True d b2)) = elems (mk s b1 w False d b2)"
        unfolding b1 by (cases s) simp_all
      show "tree_at (root3, h3) (plug (Fr s p c e (mk s n1 z False d1 (mk s n2 w True d b2)) # gs) x)" by (rule t5)
    qed (use mv b False b1 in \<open>auto simp: bh_mk\<close>)
  qed
qed

lemma remove_end_ok:
  assumes t: "tree_at (root, h) (plug (Fr s p c e (mk s b1 w False d b2) # gs) x)"
    and x: "rb_ok x" "\<not> red x" and b: "rb_ok b1" "rb_ok b2" "bh b1 = bh x" "bh b2 = bh x" "red b1 \<or> red b2"
    and gs: "ctx_ok gs (if c then Suc (bh x) else Suc (Suc (bh x))) c"
  shows "fixed (plug (Fr s p c e (mk s b1 w False d b2) # gs) x) h
    (bindE (rb_remove_end s p w (root, h)) (\<lambda>(root, h).
      bindE (if root \<noteq> NULL then set_red root False h else Inr h) (\<lambda>h. Inr (root, h))))"
proof -
  let ?T = "plug (Fr s p c e (mk s b1 w False d b2) # gs) x"
  obtain root0 h0 m1 y f m2 where m: "rb_red_far s p w (root, h) = Inr (y, root0, h0)"
    "tree_at (root0, h0) (plug (Fr s p c e (mk s m1 y False f m2) # gs) x)"
    "rb_ok m1" "rb_ok m2" "bh m1 = bh x" "bh m2 = bh x" "red m2"
    "elems (mk s m1 y False f m2) = elems (mk s b1 w False d b2)" "moved (ptrs ?T) h h0"
    using red_far_ok [OF t b] by blast
  obtain l z g r where m2: "m2 = mk s l z True g r" using red_cases [OF m(7)] by blast
  have rp: "rd rbe_red p h0 = Inr c" using rd_frame(2) [OF m(2), of rbe_red] by simp
  let ?F = "Fr (opp s) p c e x # gs"
  have t1: "tree_at (root0, h0) (plug ?F (mk s m1 y False f m2))" using m(2) by simp
  obtain h1 where h1: "set_red y c h0 = Inr h1" "tree_at (root0, h1) (plug ?F (mk s m1 y c f m2))"
    "moved (ptrs (plug ?F (mk s m1 y False f m2))) h0 h1" using set_red_plug [OF t1, of c] by blast
  have t2: "tree_at (root0, h1) (plug gs (mk s x p c e (mk s m1 y c f m2)))" using h1(2) by simp
  obtain h2 where h2: "set_red p False h1 = Inr h2" "tree_at (root0, h2) (plug gs (mk s x p False e (mk s m1 y c f m2)))"
    "moved (ptrs (plug gs (mk s x p c e (mk s m1 y c f m2)))) h1 h2" using set_red_plug [OF t2, of False] by blast
  have t3: "tree_at (root0, h2) (plug (Fr (opp s) y c f m1 # Fr (opp s) p False e x # gs) (mk s l z True g r))"
    using h2(2) m2 by simp
  have k3: "rd (kid (opp s)) y h2 = Inr z" using rd_frame(2) [OF t3, of "kid (opp s)"] by simp
  have zn: "z \<noteq> NULL" using t3 by (auto simp: tree_at_plug dest: cell_at_Obj_pos)
  let ?m = "mk s l z False g r"
  obtain h3 where h3: "set_red z False h2 = Inr h3" "tree_at (root0, h3) (plug (Fr (opp s) y c f m1 # Fr (opp s) p False e x # gs) ?m)"
    "moved (ptrs (plug (Fr (opp s) y c f m1 # Fr (opp s) p False e x # gs) (mk s l z True g r))) h2 h3"
    using set_red_plug [OF t3, of False] by blast
  have t4: "tree_at (root0, h3) (plug gs (mk s x p False e (mk s m1 y c f ?m)))" using h3(2) by simp
  let ?U = "plug gs (mk s (mk s x p False e m1) y c f ?m)"
  obtain root5 h5 where h5: "rb_rotate s p (root0, h3) = Inr (root5, h5)" "tree_at (root5, h5) ?U"
    "moved (ptrs (plug gs (mk s x p False e (mk s m1 y c f ?m)))) h3 h5" using rb_rotate_plug [OF t4] by blast
  have ne: "?U \<noteq> Tip" using ptrs_plug [of gs "mk s (mk s x p False e m1) y c f ?m"] by auto
  obtain h6 where h6: "set_red root5 False h5 = Inr h6" "tree_at (root5, h6) (paint False ?U)" "moved (ptrs ?U) h5 h6"
    using set_red_root [OF h5(2) ne] by blast
  have rn: "root5 \<noteq> NULL" using h5(2) ne by (auto simp: tree_at_def dest: rep_root)
  have run: "bindE (rb_remove_end s p w (root, h)) (\<lambda>(root, h).
      bindE (if root \<noteq> NULL then set_red root False h else Inr h) (\<lambda>h. Inr (root, h))) = Inr (root5, h6)"
    using m(1) rp h1(1) h2(1) k3 zn h3(1) h5(1) rn h6(1) by (simp add: rb_remove_end_def)
  have ok: "rb_ok ?U" using x m m2 gs by (auto simp: rb_ok_plug bh_mk split: if_splits)
  have pm: "ptrs (mk s m1 y False f m2) = ptrs (mk s b1 w False d b2)" by (rule ptrs_same) (rule m(8))
  then have pm': "insert y (ptrs m1 \<union> ptrs m2) = insert w (ptrs b1 \<union> ptrs b2)" by simp
  have el: "elems ?U = elems ?T"
    using m(8) unfolding m2 by (cases s) (simp_all add: elems_plug)
  have mv: "moved (ptrs ?T) h h6"
  proof -
    have pU: "ptrs ?U = ptrs ?T" by (rule ptrs_same) (rule el)
    have e1: "ptrs (plug ?F (mk s m1 y False f m2)) = ptrs ?U" "ptrs (plug gs (mk s x p c e (mk s m1 y c f m2))) = ptrs ?U"
      "ptrs (plug (Fr (opp s) y c f m1 # Fr (opp s) p False e x # gs) (mk s l z True g r)) = ptrs ?U"
      "ptrs (plug gs (mk s x p False e (mk s m1 y c f ?m))) = ptrs ?U"
      unfolding m2 by (auto simp: ptrs_plug)
    show ?thesis using m(9) h1(3) h2(3) h3(3) h5(3) h6(3) unfolding e1 pU by (blast intro: moved_trans)
  qed
  show ?thesis unfolding fixed_def run using h6(2) rb_ok_paint [OF ok] el mv
    by (intro exI [of _ root5] exI [of _ h6] exI [of _ "paint False ?U"]) simp
qed

lemma hole_left:
  assumes t: "tree_at (root, h) (plug (Fr s p c e b # gs) x)" and b: "b \<noteq> Tip"
  shows "rd rbe_left p h = Inr (rbe_left (node s (rt x) (rt b) (up gs) c e))"
    and "(if rbe_left (node s (rt x) (rt b) (up gs) c e) = rt x then SL else SR) = s"
    and "rt x \<noteq> root"
proof -
  note a = t [unfolded tree_at_plug]
  have rb: "rep h p b" using a by simp
  have bn: "rt b \<noteq> NULL" using rep_root [OF rb] b by simp
  have "rt x \<noteq> rt b"
  proof (cases "x = Tip")
    case True
    then show ?thesis using bn by simp
  next
    case False
    then show ?thesis using hole_not_sibling [of h p x "Fr s p c e b # gs"] a by auto
  qed
  then show "(if rbe_left (node s (rt x) (rt b) (up gs) c e) = rt x then SL else SR) = s" by (cases s) auto
  show "rd rbe_left p h = Inr (rbe_left (node s (rt x) (rt b) (up gs) c e))" by (rule rd_frame(2) [OF t])
  have ri: "rootc fs q \<in> insert q (ptrsc fs)" for fs :: "'a frame list" and q
    by (induction fs arbitrary: q rule: ptrsc.induct) auto
  have r: "root = rootc gs p" using a by simp
  have pn: "p \<noteq> NULL" and gn: "NULL \<notin> ptrsc gs" using a by (auto dest: cell_at_Obj_pos repc_null)
  show "rt x \<noteq> root"
  proof (cases "x = Tip")
    case True
    then show ?thesis using ri [of gs p] r pn gn by (metis insertE rt.simps(1))
  next
    case False
    then show ?thesis using ri [of gs p] r rt_in [OF False] a by auto
  qed
qed

lemma remove_color_ok:
  assumes "tree_at (root, h) (plug fs x)" and "rb_ok (paint False x)" and "ctx_ok fs (Suc (bh x)) False" and "top_black fs"
    and "Suc (length fs) < f"
  shows "fixed (plug fs x) h (rb_remove_color f (up fs) (rt x) (root, h))"
  using assms
proof (induction f arbitrary: root h fs x)
  case 0
  then show ?case by simp
next
  case (Suc f)
  note t = Suc.prems(1) and ok = Suc.prems(2) and cx = Suc.prems(3) and tb = Suc.prems(4)
  show ?case
  proof (cases "red x \<or> fs = []")
    case True
    show ?thesis by (rule remove_color_stop [OF t ok cx tb True])
  next
    case False
    then obtain s p c e b gs where fs: "fs = Fr s p c e b # gs" by (cases fs rule: ptrsc.cases) auto
    have nx: "\<not> red x" and okx: "rb_ok x" using False ok by (cases x; auto)+
    have bne: "b \<noteq> Tip" using cx fs by auto
    note hl = hole_left [OF t [unfolded fs] bne]
    have xr: "rb_is_red (rt x) h = Inr False" using t nx by (auto simp: tree_at_plug dest: rb_is_red_rt)
    obtain root1 h1 c' b' gs' where b: "rb_black_sibling s p (root, h) = Inr (rt b', root1, h1)"
      "tree_at (root1, h1) (plug (Fr s p c' e b' # gs') x)" "\<not> red b'"
      "ctx_ok (Fr s p c' e b' # gs') (Suc (bh x)) False" "top_black (Fr s p c' e b' # gs')"
      "elems (plug (Fr s p c' e b' # gs') x) = elems (plug fs x)" "moved (ptrs (plug fs x)) h h1" "c' \<or> gs' = gs"
      using black_sibling_ok [of root h s p c e b gs x] t cx tb unfolding fs by blast
    have "b' \<noteq> Tip" using b(4) by auto
    then obtain b1 w d b2 where bw: "b' = mk s b1 w False d b2" using mk_cases [of b' s] b(3) by auto
    have bb: "rb_ok b1" "rb_ok b2" "bh b1 = bh x" "bh b2 = bh x" using b(4) unfolding bw by (auto simp: bh_mk)
    have tw: "tree_at (root1, h1) (plug (Fr (opp s) p c' e x # gs') (mk s b1 w False d b2))" using b(2) bw by simp
    note lw = tree_at_load [OF tw]
    have any: "bindE (rb_is_red (rbe_left (node s (rt b1) (rt b2) p False d)) h1) (\<lambda>l.
        bindE (if l then Inr True else rb_is_red (rbe_right (node s (rt b1) (rt b2) p False d)) h1) g)
      = g (red b1 \<or> red b2)" for g :: "bool \<Rightarrow> (ptr \<times> 'a rb_heap) res"
      using rep_is_red_kid [OF tw] by (cases s) auto
    let ?rest = "\<lambda>r. if \<not> r then bindE (set_red w True h1) (\<lambda>h. bindE (rd rbe_parent p h) (\<lambda>gp. rb_remove_color f gp p (root1, h)))
        else bindE (rb_remove_end s p w (root1, h1)) (\<lambda>(root, h).
          bindE (if root \<noteq> NULL then set_red root False h else Inr h) (\<lambda>h. Inr (root, h)))"
    have run: "rb_remove_color (Suc f) (up fs) (rt x) (root, h) = ?rest (red b1 \<or> red b2)"
    proof -
      have "rb_remove_color (Suc f) (up fs) (rt x) (root, h)
        = bindE (rb_is_red (rbe_left (node s (rt b1) (rt b2) p False d)) h1) (\<lambda>l.
        bindE (if l then Inr True else rb_is_red (rbe_right (node s (rt b1) (rt b2) p False d)) h1) ?rest)"
        using hl(3) fs bw lw by (simp add: xr hl(1) Let_def hl(2) b(1) del: node.simps cong: if_cong)
      then show ?thesis unfolding any .
    qed
    show ?thesis
    proof (cases "red b1 \<or> red b2")
      case True
      have "fixed (plug (Fr s p c' e (mk s b1 w False d b2) # gs') x) h1 (?rest True)"
        using remove_end_ok [OF b(2) [unfolded bw] okx nx bb True] b(4) by simp
      from fixed_trans [OF this b(7)] b(6) run True show ?thesis unfolding bw by simp
    next
      case False
      obtain h2 where h2: "set_red w True h1 = Inr h2" "tree_at (root1, h2) (plug (Fr (opp s) p c' e x # gs') (mk s b1 w True d b2))"
        "moved (ptrs (plug (Fr (opp s) p c' e x # gs') (mk s b1 w False d b2))) h1 h2" using set_red_plug [OF tw, of True] by blast
      let ?y = "mk s x p c' e (mk s b1 w True d b2)"
      have ty: "tree_at (root1, h2) (plug gs' ?y)" using h2(2) by simp
      have "rd rbe_parent p h2 = Inr (up gs')" using rd_hole_parent [OF ty] by simp
      then have run': "?rest False = rb_remove_color f (up gs') (rt ?y) (root1, h2)" using h2(1) by simp
      have oky: "rb_ok (paint False ?y)" using bb okx False nx by (simp add: bh_mk)
      have cy: "ctx_ok gs' (Suc (bh ?y)) False"
        using b(4) bb ctx_ok_mono [of gs' "Suc (bh x)" False] by (cases c') (auto simp: bh_mk)
      have ty': "top_black gs'" using b(5) by (cases gs') auto
      have "fixed (plug gs' ?y) h2 (rb_remove_color f (up gs') (rt ?y) (root1, h2))"
      proof (cases c')
        case True
        obtain f' where "f = Suc f'" using Suc.prems(5) fs by (cases f) auto
        then show ?thesis using remove_color_stop [OF ty oky cy ty'] True by auto
      next
        case False
        then have "Suc (length gs') < f" using b(8) Suc.prems(5) fs by simp
        then show ?thesis by (rule Suc.IH [OF ty oky cy ty'])
      qed
      moreover have "elems (plug gs' ?y) = elems (plug fs x)"
        using b(6) unfolding bw by (cases s) (simp_all add: elems_plug)
      moreover have "moved (ptrs (plug fs x)) h h2"
      proof -
        have "ptrs (plug (Fr (opp s) p c' e x # gs') (mk s b1 w False d b2)) = ptrs (plug fs x)"
          using ptrs_same [OF b(6)] unfolding bw by simp
        then show ?thesis using b(7) h2(3) moved_trans by simp
      qed
      ultimately have "fixed (plug fs x) h (?rest False)" unfolding run' by (blast intro: fixed_trans)
      then show ?thesis using run False by simp
    qed
  qed
qed

end
