(* ===== verification/TW_RBUnlink.thy ===== *)
theory TW_RBUnlink
  imports TW_RBRemove
begin

text \<open>
  Taking a node out of the red-black tree: RB_REMOVE.
\<close>

section \<open>The places of nodes\<close>

lemma place_of: "q \<in> ptrs t \<Longrightarrow> \<exists>fs l c d r. t = plug fs (Nd l q c d r)"
proof (induction t)
  case Tip
  then show ?case by simp
next
  case (Nd l p c d r)
  consider "q = p" | "q \<in> ptrs l" | "q \<in> ptrs r" using Nd.prems by auto
  then show ?case
  proof cases
    case 1
    then show ?thesis by (intro exI [of _ "[]"]) auto
  next
    case 2
    then obtain fs l' c' d' r' where "l = plug fs (Nd l' q c' d' r')" using Nd.IH(1) by blast
    then show ?thesis by (intro exI [of _ "fs @ [Fr SL p c d r]"]) auto
  next
    case 3
    then obtain fs l' c' d' r' where "r = plug fs (Nd l' q c' d' r')" using Nd.IH(2) by blast
    then show ?thesis by (intro exI [of _ "fs @ [Fr SR p c d l]"]) auto
  qed
qed

fun all_on :: "side \<Rightarrow> 'd frame list \<Rightarrow> bool" where
  "all_on s [] = True"
| "all_on s (Fr s' q c d b # fs) \<longleftrightarrow> s' = s \<and> all_on s fs"

lemma all_on_append [simp]: "all_on s (fs @ gs) \<longleftrightarrow> all_on s fs \<and> all_on s gs"
  by (induction fs rule: before.induct) auto

lemma all_on_before: "all_on SL fs \<Longrightarrow> before fs = []" "all_on SR fs \<Longrightarrow> behind fs = []"
  by (induction fs rule: before.induct) auto

lemma spine_ok:
  assumes "rep h p t" and "t \<noteq> Tip" and "length (elems t) \<le> f"
  shows "\<exists>gs q c d k. t = plug gs (mk s Tip q c d k) \<and> all_on s gs \<and> rb_spine s f (rt t) h = Inr q"
  using assms
proof (induction f arbitrary: p t)
  case 0
  then show ?case by (cases t) auto
next
  case (Suc f)
  obtain a q c d b where t: "t = mk s a q c d b" using mk_cases [OF Suc.prems(2)] by blast
  have k: "rd (kid s) q h = Inr (rt a)" and a: "rep h q a" using Suc.prems(1) unfolding t by (auto simp: rd_def)
  show ?case
  proof (cases "a = Tip")
    case True
    then show ?thesis using k t by (intro exI [of _ "[]"]) auto
  next
    case False
    have "length (elems a) \<le> f" using Suc.prems(3) unfolding t by (cases s) auto
    then obtain gs q' c' d' k' where g: "a = plug gs (mk s Tip q' c' d' k')" "all_on s gs" "rb_spine s f (rt a) h = Inr q'"
      using Suc.IH [OF a False] by blast
    have "rt a \<noteq> NULL" using rep_root [OF a] False by simp
    then show ?thesis using k t g
      by (intro exI [of _ "gs @ [Fr s q c d b]"] exI [of _ q'] exI [of _ c'] exI [of _ d'] exI [of _ k']) simp
  qed
qed

section \<open>Taking a node with at most one child out\<close>

lemma unlink_ok:
  assumes t: "tree_at (root, h) (plug fs (mk s Tip q c d b))"
  shows "\<exists>h'. rb_unlink q (rt b) (root, h) = Inr (up fs, c, rootc fs (rt b), h')
    \<and> tree_at (rootc fs (rt b), h') (plug fs b) \<and> cell_at h' q = cell_at h q
    \<and> moved (ptrs b \<union> ptrsc fs) h h'"
proof -
  note a = t [unfolded tree_at_plug]
  have c: "cell_at h q = Obj (node s NULL (rt b) (up fs) c d)" and b: "rep h q b" and fs: "repc h fs q"
    and root: "root = rootc fs q" and di: "dist b" "distc fs" "ptrs b \<inter> ptrsc fs = {}" "q \<notin> ptrs b" "q \<notin> ptrsc fs"
    using a by auto
  define h1 where "h1 = reparent (up fs) b h"
  have fs1: "repc h1 fs q" unfolding h1_def using fs di by (simp add: repc_reparent_out [OF b])
  have b1: "rep h1 (up fs) b" unfolding h1_def by (rule rep_reparent [OF b di(1)])
  have q1: "cell_at h1 q = cell_at h q" unfolding h1_def by (rule cell_at_reparent_out [OF b di(4)])
  define h2 where "h2 = rehang fs (rt b) h1"
  have rl: "rb_relink (up fs) q (rt b) (rootc fs q, h1) = Inr (rootc fs (rt b), h2)"
    unfolding h2_def
    by (rule rb_relink_up [OF fs1]) (use hole_not_sibling [of h "up fs" "mk s Tip q c d b" fs] a in simp)
  have r: "rd rbe_parent q h = Inr (up fs)" "rd rbe_red q h = Inr c" using c by (simp_all add: rd_def)
  have "rb_unlink q (rt b) (root, h) = Inr (up fs, c, rootc fs (rt b), h2)"
    by (simp only: rb_unlink_def prod.case bindE_Inr r set_parent_rt [OF b, of "up fs", folded h1_def] root rl)
  moreover have "tree_at (rootc fs (rt b), h2) (plug fs b)"
    unfolding tree_at_plug h2_def
    using di b1 repc_rehang [OF fs1] by (simp add: rep_rehang_out [OF fs1])
  moreover have "cell_at h2 q = cell_at h q"
    unfolding h2_def using cell_at_rehang_out [OF fs1 di(5)] q1 by simp
  moreover have "moved (ptrs b \<union> ptrsc fs) h h1" unfolding h1_def by (rule moved_reparent [OF b]) auto
  moreover have "moved (ptrs b \<union> ptrsc fs) h1 h2" unfolding h2_def by (rule moved_rehang [OF fs1]) auto
  ultimately show ?thesis using moved_trans by blast
qed

section \<open>The successor in the place of the node\<close>

lemma replace_ok:
  assumes t: "tree_at (root, h) (plug fs (Nd l old c d r))" and n: "cell_at h elm = Obj n"
    and new: "elm \<notin> ptrs (plug fs (Nd l old c d r))" and l: "l \<noteq> Tip"
  shows "\<exists>h'. rb_replace old elm (root, h) = Inr (rootc fs elm, h')
    \<and> tree_at (rootc fs elm, h') (plug fs (Nd l elm c (rb_data n) r))
    \<and> moved (insert elm (ptrs (plug fs (Nd l old c d r)))) h h'"
proof -
  note a = t [unfolded tree_at_plug]
  have co: "cell_at h old = Obj (node SL (rt l) (rt r) (up fs) c d)" and lr: "rep h old l" "rep h old r"
    and fs: "repc h fs old" and root: "root = rootc fs old"
    and di: "dist l" "dist r" "distc fs" "ptrs l \<inter> ptrs r = {}" "ptrs l \<inter> ptrsc fs = {}" "ptrs r \<inter> ptrsc fs = {}"
      "old \<notin> ptrs l" "old \<notin> ptrs r" "old \<notin> ptrsc fs" using a by auto
  have en: "elm \<noteq> old" "elm \<notin> ptrs l" "elm \<notin> ptrs r" "elm \<notin> ptrsc fs" using new by (auto simp: ptrs_plug)
  let ?S = "insert elm (ptrs (plug fs (Nd l old c d r)))"
  let ?e = "node SL (rt l) (rt r) (up fs) c (rb_data n)"
  define h1 where "h1 = put_cell elm (Obj ?e) h"
  have s1: "modify elm (\<lambda>e. e\<lparr>rbe_left := rbe_left (node SL (rt l) (rt r) (up fs) c d),
      rbe_right := rbe_right (node SL (rt l) (rt r) (up fs) c d), rbe_parent := rbe_parent (node SL (rt l) (rt r) (up fs) c d),
      rbe_red := rbe_red (node SL (rt l) (rt r) (up fs) c d)\<rparr>) h = Inr h1"
    by (cases n) (simp add: modify_Obj [OF n] h1_def)
  have x1: "cell_at h1 elm = Obj ?e" "cell_at h1 old = cell_at h old" using n en by (simp_all add: h1_def cell_at_put)
  have p1: "rep h1 old l" "rep h1 old r" "repc h1 fs old" using lr fs n en by (simp_all add: h1_def rep_put repc_put)
  have m1: "moved ?S h h1" unfolding h1_def by (rule moved_put) (simp_all add: n)
  define h2 where "h2 = rehang fs elm h1"
  have rl: "rb_relink (up fs) old elm (rootc fs old, h1) = Inr (rootc fs elm, h2)"
    unfolding h2_def
    by (rule rb_relink_up [OF p1(3)]) (use hole_not_sibling [of h "up fs" "Nd l old c d r" fs] a in simp)
  have x2: "cell_at h2 elm = Obj ?e" "cell_at h2 old = cell_at h old"
    unfolding h2_def using x1 cell_at_rehang_out [OF p1(3)] en di by simp_all
  have p2: "rep h2 old l" "rep h2 old r" "repc h2 fs elm"
    unfolding h2_def using p1 di repc_rehang [OF p1(3)] by (simp_all add: rep_rehang_out [OF p1(3)])
  have m2: "moved ?S h1 h2" unfolding h2_def by (rule moved_rehang [OF p1(3)]) (auto simp: ptrs_plug)
  define h3 where "h3 = reparent elm l h2"
  have ln: "rt l \<noteq> NULL" using rep_root [OF lr(1)] l by simp
  have s3: "set_parent (rt l) elm h2 = Inr h3" using set_parent_rt [OF p2(1), of elm] ln by (simp add: h3_def)
  have x3: "cell_at h3 elm = Obj ?e" "cell_at h3 old = cell_at h old"
    unfolding h3_def using x2 cell_at_reparent_out [OF p2(1)] en di by simp_all
  have p3: "rep h3 elm l" "rep h3 old r" "repc h3 fs elm"
    unfolding h3_def using p2 di by (simp_all add: rep_reparent [OF p2(1)] rep_reparent_out [OF p2(1)] repc_reparent_out [OF p2(1)])
  have m3: "moved ?S h2 h3" unfolding h3_def by (rule moved_reparent [OF p2(1)]) (auto simp: ptrs_plug)
  have r3: "rd rbe_right old h3 = Inr (rt r)" using x3 co by (simp add: rd_def)
  define h4 where "h4 = reparent elm r h3"
  have x4: "cell_at h4 elm = Obj ?e" unfolding h4_def using x3 cell_at_reparent_out [OF p3(2) en(3)] by simp
  have p4: "rep h4 elm l" "rep h4 elm r" "repc h4 fs elm"
    unfolding h4_def using p3 di
    by (simp_all add: rep_reparent [OF p3(2)] rep_reparent_out [OF p3(2)] repc_reparent_out [OF p3(2)] Int_commute)
  have m4: "moved ?S h3 h4" unfolding h4_def by (rule moved_reparent [OF p3(2)]) (auto simp: ptrs_plug)
  have "rb_replace old elm (root, h) = Inr (rootc fs elm, h4)"
  proof -
    have lo: "load old h = Inr (node SL (rt l) (rt r) (up fs) c d)" using co by simp
    have pl: "rbe_parent (node SL (rt l) (rt r) (up fs) c d) = up fs" "rbe_left (node SL (rt l) (rt r) (up fs) c d) = rt l" by simp_all
    show ?thesis
      by (simp only: rb_replace_def prod.case lo bindE_Inr s1) (simp only: pl root rl prod.case bindE_Inr s3 r3
          set_parent_rt [OF p3(2), of elm, folded h4_def])
  qed
  moreover have "tree_at (rootc fs elm, h4) (plug fs (Nd l elm c (rb_data n) r))"
    unfolding tree_at_plug using x4 p4 di en by auto
  moreover have "moved ?S h h4" using m1 m2 m3 m4 by (blast intro: moved_trans)
  ultimately show ?thesis by blast
qed

section \<open>RB_REMOVE\<close>

text \<open>A node of colour \<open>c\<close> with the one child \<open>b\<close> has been taken out of the context \<open>fs\<close>.\<close>

lemma remove_finish:
  assumes t: "tree_at (root, h) (plug fs b)" and ok: "rb_ok (plug fs (mk s Tip q c d b))"
    and bl: "\<not> red (plug fs (mk s Tip q c d b))" and f: "Suc (length fs) < f"
  shows "fixed (plug fs b) h (if \<not> c then rb_remove_color f (up fs) (rt b) (root, h) else Inr (root, h))"
proof -
  have tb: "top_black fs" using top_black_plug [OF _ bl] by (cases fs) auto
  have b: "rb_ok b" "bh b = 0" "c \<Longrightarrow> \<not> red b" and cx: "ctx_ok fs (if c then 0 else Suc 0) c"
    using ok by (auto simp: rb_ok_plug bh_mk)
  show ?thesis
  proof (cases c)
    case True
    then have "fs \<noteq> []" using bl by auto
    then have "\<not> red (plug fs b)" by (rule top_black_red [OF tb])
    moreover have "rb_ok (plug fs b)" using b cx True ctx_ok_mono by (auto simp: rb_ok_plug)
    ultimately show ?thesis using t True by (auto simp: fixed_def)
  next
    case False
    then have "fixed (plug fs b) h (rb_remove_color f (up fs) (rt b) (root, h))"
      by (intro remove_color_ok [OF t rb_ok_paint [OF b(1)] _ tb f]) (use b cx False in simp)
    then show ?thesis using False by simp
  qed
qed

lemma ctx_ok_middle: "ctx_ok (gs @ Fr s q c d b # fs) n e = ctx_ok (gs @ Fr s q' c d' b # fs) n e"
  by (induction gs arbitrary: n e rule: ptrsc.induct) simp_all

lemma red_middle: "red (plug (gs @ Fr s q c d b # fs) t) = red (plug (gs @ Fr s q' c d' b # fs) t')"
proof -
  have "red (plug fs u) = red (plug fs u')" if "red u = red u'" for fs :: "'a frame list" and u u'
    using that by (induction fs arbitrary: u u' rule: ptrsc.induct) simp_all
  then show ?thesis by simp
qed

lemma filter_old:
  fixes q :: ptr and xs ys :: "(ptr \<times> 'd) list"
  assumes "distinct (map fst (xs @ (q, d) # ys))"
  shows "filter (\<lambda>x. fst x \<noteq> q) (xs @ (q, d) # ys) = xs @ ys"
proof -
  have "filter (\<lambda>x. fst x \<noteq> q) zs = zs" if "q \<notin> fst ` set zs" for zs :: "(ptr \<times> 'd) list"
    using that by (induction zs) auto
  then show ?thesis using assms by auto
qed

definition removed :: "'d rbt \<Rightarrow> ptr \<Rightarrow> 'd rb_heap \<Rightarrow> (ptr \<times> 'd rb_heap) res \<Rightarrow> bool" where
  "removed t old h r \<longleftrightarrow> (\<exists>root' h' t'. r = Inr (root', h') \<and> tree_at (root', h') t' \<and> rb_ok t' \<and> \<not> red t'
     \<and> elems t' = filter (\<lambda>x. fst x \<noteq> old) (elems t) \<and> moved (ptrs t) h h')"

lemma removed_fixed:
  assumes "fixed U h1 r" and "moved (ptrs t) h h1" and "elems U = filter (\<lambda>x. fst x \<noteq> old) (elems t)"
  shows "removed t old h r"
proof -
  have "ptrs U \<subseteq> ptrs t" using assms(3) by (auto simp: ptrs_elems)
  moreover have "moved T h1 h' \<Longrightarrow> T \<subseteq> T' \<Longrightarrow> moved T' h1 h'" for T T' h'
    by (auto simp: moved_def same_outside_def)
  ultimately show ?thesis using assms unfolding removed_def fixed_def by (metis moved_trans)
qed

lemma moved_mono: "moved T h h' \<Longrightarrow> T \<subseteq> T' \<Longrightarrow> moved T' h h'"
  by (auto simp: moved_def same_outside_def)

lemma rb_remove_one_child:
  assumes t: "tree_at (root, h) (plug fs (mk s Tip old c d b))" and ok: "rb_ok (plug fs (mk s Tip old c d b))"
    and bl: "\<not> red (plug fs (mk s Tip old c d b))"
  shows "removed (plug fs (mk s Tip old c d b)) old h (rb_remove old (root, h))"
proof -
  let ?t = "plug fs (mk s Tip old c d b)"
  obtain h1 where u: "rb_unlink old (rt b) (root, h) = Inr (up fs, c, rootc fs (rt b), h1)"
    "tree_at (rootc fs (rt b), h1) (plug fs b)" "cell_at h1 old = cell_at h old" "moved (ptrs b \<union> ptrsc fs) h h1"
    using unlink_ok [OF t] by blast
  have rp: "rep h NULL ?t" and di: "dist ?t" using t by (simp_all add: tree_at_def)
  have "length fs \<le> length (before fs) + length (behind fs)" by (rule length_ctx)
  also have "\<dots> \<le> length (elems ?t)" by (simp add: elems_plug)
  finally have len: "Suc (length fs) < Suc (Suc (heap_size h1))"
    using length_elems [OF rp di] u(4) by (simp add: moved_def)
  note l = tree_at_load [OF t]
  have kids: "rbe_left (node s NULL (rt b) (up fs) c d) = NULL \<or> rbe_right (node s NULL (rt b) (up fs) c d) = NULL"
    and child: "(if rbe_left (node s NULL (rt b) (up fs) c d) = NULL then rbe_right (node s NULL (rt b) (up fs) c d)
      else rbe_left (node s NULL (rt b) (up fs) c d)) = rt b"
    by (cases s; simp)+
  have run: "rb_remove old (root, h) = (if \<not> c
      then rb_remove_color (Suc (Suc (heap_size h1))) (up fs) (rt b) (rootc fs (rt b), h1) else Inr (rootc fs (rt b), h1))"
    using l by (simp add: rb_remove_def kids child u(1) Let_def del: rb_remove_color.simps cong: if_cong)
  have "fixed (plug fs b) h1 (rb_remove old (root, h))"
    unfolding run by (rule remove_finish [OF u(2) ok bl len])
  moreover have "elems (plug fs b) = filter (\<lambda>x. fst x \<noteq> old) (elems ?t)"
  proof -
    have "distinct (map fst (elems ?t))" using di by (simp add: dist_elems)
    moreover have "elems ?t = (before fs @ (if s = SL then [] else elems b)) @ (old, d) # ((if s = SL then elems b else []) @ behind fs)"
      by (cases s) (simp_all add: elems_plug)
    ultimately have "filter (\<lambda>x. fst x \<noteq> old) (elems ?t) = (before fs @ (if s = SL then [] else elems b)) @ ((if s = SL then elems b else []) @ behind fs)"
      using filter_old by metis
    then show ?thesis by (cases s) (simp_all add: elems_plug)
  qed
  moreover have "moved (ptrs ?t) h h1" by (rule moved_mono [OF u(4)]) (auto simp: ptrs_plug)
  ultimately show ?thesis by (metis removed_fixed)
qed

lemma rb_remove_two_children:
  assumes t: "tree_at (root, h) (plug fs (Nd l old c d r))" and ok: "rb_ok (plug fs (Nd l old c d r))"
    and bl: "\<not> red (plug fs (Nd l old c d r))" and two: "l \<noteq> Tip" "r \<noteq> Tip"
  shows "removed (plug fs (Nd l old c d r)) old h (rb_remove old (root, h))"
proof -
  let ?t = "plug fs (Nd l old c d r)"
  note a = t [unfolded tree_at_plug]
  have rp: "rep h NULL ?t" and di: "dist ?t" using t by (simp_all add: tree_at_def)
  have rr: "rep h old r" and lo: "load old h = Inr (node SL (rt l) (rt r) (up fs) c d)" and ll: "rep h old l" using a by simp_all
  have kn: "rt l \<noteq> NULL" "rt r \<noteq> NULL" using rep_root [OF ll] rep_root [OF rr] two by simp_all
  have "length (elems r) \<le> heap_size h" using length_elems [OF rp di] by (simp add: elems_plug)
  from spine_ok [OF rr two(2) this, of SL] obtain gs elm e g k where
    sp: "r = plug gs (mk SL Tip elm e g k)" "all_on SL gs" "rb_spine SL (heap_size h) (rt r) h = Inr elm" by blast
  let ?fs = "gs @ Fr SR old c d l # fs"
  have t1: "tree_at (root, h) (plug ?fs (mk SL Tip elm e g k))" using t sp(1) by simp
  obtain h1 where u: "rb_unlink elm (rt k) (root, h) = Inr (up ?fs, e, rootc ?fs (rt k), h1)"
    "tree_at (rootc ?fs (rt k), h1) (plug ?fs k)" "cell_at h1 elm = cell_at h elm" "moved (ptrs k \<union> ptrsc ?fs) h h1"
    using unlink_ok [OF t1] by blast
  note ce = tree_at_rd [OF t1] tree_at_load [OF t1]
  have cell: "cell_at h1 elm = Obj (node SL NULL (rt k) (up ?fs) e g)" using ce(2) u(3) by (simp add: load_iff)
  then have ep: "rd rbe_parent elm h1 = Inr (up ?fs)" by (simp add: rd_def)
  have t2: "tree_at (rootc ?fs (rt k), h1) (plug fs (Nd l old c d (plug gs k)))" using u(2) by simp
  have new: "elm \<notin> ptrs (plug fs (Nd l old c d (plug gs k)))"
    using t1 by (auto simp: tree_at_plug ptrs_plug dist_plug)
  obtain h2 where v: "rb_replace old elm (rootc ?fs (rt k), h1) = Inr (rootc fs elm, h2)"
    "tree_at (rootc fs elm, h2) (plug fs (Nd l elm c g (plug gs k)))"
    "moved (insert elm (ptrs (plug fs (Nd l old c d (plug gs k))))) h1 h2"
    using replace_ok [OF t2 cell new two(1)] by auto
  let ?fs' = "gs @ Fr SR elm c g l # fs"
  have t3: "tree_at (rootc fs elm, h2) (plug ?fs' k)" using v(2) by simp
  have par: "(if up ?fs = old then elm else up ?fs) = up ?fs'"
  proof (cases gs rule: ptrsc.cases)
    case (2 s q c' d' b gs')
    then have "q \<noteq> old" using a sp(1) by (auto simp: ptrs_plug)
    then show ?thesis using 2 by simp
  qed simp
  have pt: "ptrs ?t = insert elm (ptrs k \<union> ptrsc ?fs)" unfolding sp(1) by (auto simp: ptrs_plug)
  have len: "Suc (length ?fs') < Suc (Suc (heap_size h2))"
  proof -
    have "length ?fs' = length ?fs" by simp
    also have "\<dots> \<le> length (before ?fs) + length (behind ?fs)" by (rule length_ctx)
    also have "\<dots> \<le> length (elems ?t)" using elems_plug [of ?fs "mk SL Tip elm e g k"] sp(1) by simp
    finally show ?thesis using length_elems [OF rp di] u(4) v(3) by (simp add: moved_def)
  qed
  have run: "rb_remove old (root, h) = (if \<not> e
      then rb_remove_color (Suc (Suc (heap_size h2))) (up ?fs') (rt k) (rootc fs elm, h2) else Inr (rootc fs elm, h2))"
    using lo kn ce(1) [of rbe_right] ep par
    by (simp add: rb_remove_def sp(3) u(1) v(1) del: rb_remove_color.simps cong: if_cong)
  have ok': "rb_ok (plug ?fs' (mk SL Tip elm e g k))"
    using ok ctx_ok_middle [of gs SR old c d l fs _ _ elm g] unfolding sp(1) by (simp add: rb_ok_plug)
  have bl': "\<not> red (plug ?fs' (mk SL Tip elm e g k))"
    using bl red_middle [of gs SR old c d l fs "mk SL Tip elm e g k" elm g "mk SL Tip elm e g k"] unfolding sp(1) by simp
  have "fixed (plug ?fs' k) h2 (rb_remove old (root, h))"
    unfolding run by (rule remove_finish [OF t3 ok' bl' len])
  moreover have "moved (ptrs ?t) h h2"
    using moved_mono [OF u(4), of "ptrs ?t"] moved_mono [OF v(3), of "ptrs ?t"] moved_trans
    unfolding pt by (auto simp: ptrs_plug)
  moreover have "elems (plug ?fs' k) = filter (\<lambda>x. fst x \<noteq> old) (elems ?t)"
  proof -
    have "distinct (map fst (elems ?t))" using di by (simp add: dist_elems)
    moreover have "elems ?t = (before fs @ elems l) @ (old, d) # ((elm, g) # elems k @ behind gs @ behind fs)"
      unfolding sp(1) using all_on_before(1) [OF sp(2)] by (simp add: elems_plug)
    ultimately have "filter (\<lambda>x. fst x \<noteq> old) (elems ?t) = (before fs @ elems l) @ ((elm, g) # elems k @ behind gs @ behind fs)"
      using filter_old by metis
    then show ?thesis using all_on_before(1) [OF sp(2)] by (simp add: elems_plug before_append behind_append)
  qed
  ultimately show ?thesis by (rule removed_fixed)
qed

lemma rb_remove_ok:
  assumes t: "tree_at (root, h) t" and ok: "rb_ok t" "\<not> red t" and old: "old \<in> ptrs t"
  shows "removed t old h (rb_remove old (root, h))"
proof -
  obtain fs l c d r where p: "t = plug fs (Nd l old c d r)" using place_of [OF old] by blast
  consider "l = Tip" | "r = Tip" | "l \<noteq> Tip" "r \<noteq> Tip" by blast
  then show ?thesis
  proof cases
    case 1
    then have "t = plug fs (mk SL Tip old c d r)" using p by simp
    then show ?thesis using rb_remove_one_child [of root h fs SL old c d r] t ok by simp
  next
    case 2
    then have "t = plug fs (mk SR Tip old c d l)" using p by simp
    then show ?thesis using rb_remove_one_child [of root h fs SR old c d l] t ok by simp
  next
    case 3
    then show ?thesis using rb_remove_two_children [of root h fs l old c d r] t ok p by simp
  qed
qed

end
