(* ===== verification/TW_RBFind.thy ===== *)
theory TW_RBFind
  imports TW_RBUnlink
begin

text \<open>
  Looking up and walking in the red-black tree, and how deep it is.
\<close>

section \<open>The height\<close>

fun hgt :: "'d rbt \<Rightarrow> nat" where
  "hgt Tip = 0"
| "hgt (Nd l q c d r) = Suc (max (hgt l) (hgt r))"

lemma hgt_bh: "rb_ok t \<Longrightarrow> hgt t \<le> 2 * bh t + (if red t then 1 else 0)"
proof (induction t)
  case (Nd l q c d r)
  then show ?case by (cases c) (auto split: if_splits)
qed simp

lemma bh_size: "rb_ok t \<Longrightarrow> 2 ^ bh t \<le> Suc (length (elems t))"
proof (induction t)
  case (Nd l q c d r)
  then have "2 ^ bh l \<le> Suc (length (elems l))" "2 ^ bh l \<le> Suc (length (elems r))" by auto
  then show ?case by (cases c) auto
qed simp

lemma hgt_elems: "hgt t \<le> length (elems t)"
  by (induction t) auto

lemma hgt_bound:
  assumes "rb_ok t" and "\<not> red t" and "(Suc (length (elems t)))\<^sup>2 < 2 ^ f"
  shows "hgt t < f"
proof -
  have "(2 :: nat) ^ hgt t \<le> 2 ^ (2 * bh t)" using hgt_bh [OF assms(1)] assms(2) by (intro power_increasing) simp_all
  also have "\<dots> = (2 ^ bh t)\<^sup>2" by (simp add: power_mult power2_eq_square flip: power_mult_distrib)
  also have "\<dots> \<le> (Suc (length (elems t)))\<^sup>2" by (rule power_mono [OF bh_size [OF assms(1)]]) simp
  also have "\<dots> < 2 ^ f" by (rule assms(3))
  finally show ?thesis by simp
qed

section \<open>Finding\<close>

definition first_of :: "(ptr \<times> 'd) list \<Rightarrow> ptr \<Rightarrow> ptr" where
  "first_of xs p = (case xs of [] \<Rightarrow> p | x # _ \<Rightarrow> fst x)"

lemma first_of_simps [simp]: "first_of [] p = p" "first_of (x # xs) p = fst x"
  by (simp_all add: first_of_def)

lemma first_of_append: "first_of (xs @ ys) p = first_of xs (first_of ys p)"
  by (cases xs) simp_all

context comparing begin

lemma filter_parts:
  assumes "in_order cmp (xs @ (q, d) # ys)"
  shows "cmp key d < 0 \<Longrightarrow> \<forall>y \<in> set ys. cmp key (snd y) < 0"
    and "0 < cmp key d \<Longrightarrow> \<forall>x \<in> set xs. 0 < cmp key (snd x)"
    and "cmp key d = 0 \<Longrightarrow> \<forall>x \<in> set xs. 0 < cmp key (snd x)"
    and "cmp key d = 0 \<Longrightarrow> \<forall>y \<in> set ys. cmp key (snd y) < 0"
proof -
  have l: "\<forall>x \<in> set xs. cmp (snd x) d < 0" and r: "\<forall>y \<in> set ys. cmp d (snd y) < 0"
    using assms by (auto simp: in_order_append in_order_Cons)
  show "cmp key d < 0 \<Longrightarrow> \<forall>y \<in> set ys. cmp key (snd y) < 0" using r cmp_trans by blast
  show "0 < cmp key d \<Longrightarrow> \<forall>x \<in> set xs. 0 < cmp key (snd x)" using l cmp_trans less_swap by blast
  show "cmp key d = 0 \<Longrightarrow> \<forall>x \<in> set xs. 0 < cmp key (snd x)" using l cmp_eq_right less_swap by blast
  show "cmp key d = 0 \<Longrightarrow> \<forall>y \<in> set ys. cmp key (snd y) < 0" using r cmp_eq by blast
qed

lemma filter_none: "\<forall>x \<in> set xs. \<not> P x \<Longrightarrow> filter P xs = []"
  by (simp add: filter_empty_conv)

lemma rb_find_ok:
  assumes "rep h p t" and "in_order cmp (elems t)" and "hgt t < f"
  shows "rb_find cmp f key (rt t) h = Inr (first_of (filter (\<lambda>x. cmp key (snd x) = 0) (elems t)) NULL)"
  using assms
proof (induction t arbitrary: f p)
  case Tip
  then show ?case by (cases f) auto
next
  case (Nd l q c d r)
  obtain f' where f: "f = Suc f'" using Nd.prems(3) by (cases f) auto
  have co: "cell_at h q = Obj (node SL (rt l) (rt r) p c d)" and lr: "rep h q l" "rep h q r" using Nd.prems(1) by simp_all
  have q: "q \<noteq> NULL" using co by (auto dest: cell_at_Obj_pos)
  have so: "in_order cmp (elems l)" "in_order cmp (elems r)" using Nd.prems(2) by (auto simp: in_order_append in_order_Cons)
  note parts = filter_parts [of "elems l" q d "elems r" key] 
  have o: "in_order cmp (elems l @ (q, d) # elems r)" using Nd.prems(2) by simp
  have hf: "hgt l < f'" "hgt r < f'" using Nd.prems(3) f by auto
  consider "cmp key d < 0" | "0 < cmp key d" | "cmp key d = 0" by linarith
  then show ?case
  proof cases
    case 1
    then have "filter (\<lambda>x. cmp key (snd x) = 0) (elems r) = []" using parts(1) [OF o] by (intro filter_none) auto
    then show ?thesis using Nd.IH(1) [OF lr(1) so(1) hf(1)] f co q 1 by (simp add: first_of_append)
  next
    case 2
    then have "filter (\<lambda>x. cmp key (snd x) = 0) (elems l) = []" using parts(2) [OF o] by (intro filter_none) auto
    then show ?thesis using Nd.IH(2) [OF lr(2) so(2) hf(2)] f co q 2 by (simp add: first_of_append)
  next
    case 3
    then have "filter (\<lambda>x. cmp key (snd x) = 0) (elems l) = []" using parts(3) [OF o] by (intro filter_none) auto
    then show ?thesis using f co q 3 by (simp add: first_of_append)
  qed
qed

lemma rb_nfind_ok:
  assumes "rep h p t" and "in_order cmp (elems t)" and "hgt t < f"
  shows "rb_nfind cmp f key res (rt t) h = Inr (first_of (filter (\<lambda>x. cmp key (snd x) \<le> 0) (elems t)) res)"
  using assms
proof (induction t arbitrary: f p res)
  case Tip
  then show ?case by (cases f) auto
next
  case (Nd l q c d r)
  obtain f' where f: "f = Suc f'" using Nd.prems(3) by (cases f) auto
  have co: "cell_at h q = Obj (node SL (rt l) (rt r) p c d)" and lr: "rep h q l" "rep h q r" using Nd.prems(1) by simp_all
  have q: "q \<noteq> NULL" using co by (auto dest: cell_at_Obj_pos)
  have so: "in_order cmp (elems l)" "in_order cmp (elems r)" using Nd.prems(2) by (auto simp: in_order_append in_order_Cons)
  note parts = filter_parts [of "elems l" q d "elems r" key]
  have o: "in_order cmp (elems l @ (q, d) # elems r)" using Nd.prems(2) by simp
  have hf: "hgt l < f'" "hgt r < f'" using Nd.prems(3) f by auto
  consider "cmp key d < 0" | "0 < cmp key d" | "cmp key d = 0" by linarith
  then show ?case
  proof cases
    case 1
    then show ?thesis using Nd.IH(1) [OF lr(1) so(1) hf(1), of q] f co q by (simp add: first_of_append)
  next
    case 2
    then have "filter (\<lambda>x. cmp key (snd x) \<le> 0) (elems l) = []" using parts(2) [OF o] by (intro filter_none) auto
    then show ?thesis using Nd.IH(2) [OF lr(2) so(2) hf(2), of res] f co q 2 by (simp add: first_of_append)
  next
    case 3
    then have "filter (\<lambda>x. cmp key (snd x) \<le> 0) (elems l) = []" using parts(3) [OF o] by (intro filter_none) auto
    then show ?thesis using f co q 3 by (simp add: first_of_append)
  qed
qed

end

section \<open>Walking\<close>

text \<open>The elements, and what comes behind a hole, seen from side \<open>s\<close>.\<close>

definition elems_on :: "side \<Rightarrow> 'd rbt \<Rightarrow> (ptr \<times> 'd) list" where
  "elems_on s t = (if s = SL then elems t else rev (elems t))"

definition after :: "side \<Rightarrow> 'd frame list \<Rightarrow> (ptr \<times> 'd) list" where
  "after s fs = (if s = SL then behind fs else rev (before fs))"

definition prior :: "side \<Rightarrow> 'd frame list \<Rightarrow> (ptr \<times> 'd) list" where
  "prior s fs = (if s = SL then before fs else rev (behind fs))"

lemma elems_on_simps [simp]:
  "elems_on s Tip = []" "elems_on s (mk s a q c d b) = elems_on s a @ (q, d) # elems_on s b"
  by (cases s; simp add: elems_on_def)+

lemma after_simps [simp]:
  "after s [] = []" "after s (Fr s q c d b # fs) = (q, d) # elems_on s b @ after s fs"
  "after s (Fr (opp s) q c d b # fs) = after s fs"
  by (cases s; simp add: after_def elems_on_def)+

lemma prior_on: "all_on s fs \<Longrightarrow> prior s fs = []"
  using all_on_before by (cases s) (auto simp: prior_def)

lemma elems_on_plug: "elems_on s (plug fs t) = prior s fs @ elems_on s t @ after s fs"
  by (cases s) (simp_all add: elems_on_def after_def prior_def elems_plug)

lemma rb_minmax_ok:
  assumes "rep h p t" and "hgt t < f" and "s = (if val < 0 then SL else SR)"
  shows "rb_minmax f val (rt t) parent h = Inr (first_of (elems_on s t) parent)"
  using assms(1,2)
proof (induction f arbitrary: p t parent)
  case 0
  then show ?case by simp
next
  case (Suc f)
  show ?case
  proof (cases "t = Tip")
    case True
    then show ?thesis by simp
  next
    case False
    obtain a q c d b where t: "t = mk s a q c d b" using mk_cases [OF False] by blast
    have co: "cell_at h q = Obj (node s (rt a) (rt b) p c d)" and a: "rep h q a" using Suc.prems(1) t by simp_all
    have "hgt a < f" using Suc.prems(2) t by (cases s) auto
    from Suc.IH [OF a this, of q] show ?thesis
      using co t assms(3) by (auto simp: rd_def first_of_append dest: cell_at_Obj_pos)
  qed
qed

lemma rb_climb_ok:
  assumes "tree_at (root, h) (plug fs x)" and "x \<noteq> Tip" and "length fs < f"
  shows "rb_climb s f (rt x) h = Inr (first_of (after s fs) NULL)"
  using assms
proof (induction f arbitrary: fs x)
  case 0
  then show ?case by simp
next
  case (Suc f)
  note par = rd_hole_parent [OF Suc.prems(1,2)]
  show ?case
  proof (cases fs rule: ptrsc.cases)
    case 1
    then show ?thesis using par by simp
  next
    case (2 s' q c d b gs)
    note t = Suc.prems(1) [unfolded 2]
    note a = t [unfolded tree_at_plug]
    have q: "q \<noteq> NULL" using a by (auto dest: cell_at_Obj_pos)
    have k: "rd (kid (opp s)) q h = Inr (kid (opp s) (node s' (rt x) (rt b) (up gs) c d))" by (rule rd_frame(2) [OF t])
    show ?thesis
    proof (cases "s' = s")
      case True
      have "rt x \<noteq> rt b" using hole_not_sibling [of h q x "Fr s' q c d b # gs"] a Suc.prems(2) by auto
      then show ?thesis using par k q 2 True by simp
    next
      case False
      then have s': "s' = opp s" by (cases s; cases s') auto
      have "tree_at (root, h) (plug gs (mk s' x q c d b))" using t by simp
      from Suc.IH [OF this] have "rb_climb s f q h = Inr (first_of (after s gs) NULL)" using Suc.prems(3) 2 by simp
      then show ?thesis using par k q unfolding 2 s' by simp
    qed
  qed
qed

lemma rb_next_ok:
  assumes t: "tree_at (root, h) t" and e: "elems_on s t = xs @ (q, d) # ys"
  shows "rb_next s q h = Inr (first_of ys NULL)"
proof -
  have "(q, d) \<in> set (elems t)" using e by (metis elems_on_def in_set_conv_decomp set_rev)
  then have "q \<in> ptrs t" by (force simp: ptrs_elems)
  then obtain fs l c d' r where "t = plug fs (Nd l q c d' r)" using place_of by blast
  then obtain a b where p: "t = plug fs (mk s a q c d' b)"
    by (cases s) (metis mk.simps(1), metis mk.simps(2))
  have di: "distinct (map fst (elems_on s t))" using t by (auto simp: tree_at_def dist_elems elems_on_def rev_map [symmetric])
  have "xs @ (q, d) # ys = (prior s fs @ elems_on s a) @ (q, d') # (elems_on s b @ after s fs)"
    using e unfolding p elems_on_plug by simp
  moreover have "zs @ y # ws = zs' @ y' # ws' \<Longrightarrow> distinct (map fst (zs @ y # ws)) \<Longrightarrow> fst y = fst y' \<Longrightarrow> ws = ws'"
    for zs ws zs' ws' :: "(ptr \<times> 'a) list" and y y'
    by (auto simp: append_eq_append_conv2 append_eq_Cons_conv Cons_eq_append_conv)
  ultimately have ys: "ys = elems_on s b @ after s fs" using di e by (metis fst_conv)
  note tp = t [unfolded p]
  have k: "rd (kid (opp s)) q h = Inr (rt b)" using tree_at_rd [OF tp, of "kid (opp s)"] by simp
  have rb: "rep h q b" using tp by (simp add: tree_at_plug)
  have rp: "rep h NULL t" and dt: "dist t" using t by (simp_all add: tree_at_def)
  note len = length_elems [OF rp dt]
  have size: "length fs + length (elems b) < length (elems t)"
    using length_ctx [of fs] unfolding p by (cases s) (simp_all add: elems_plug)
  show ?thesis
  proof (cases "b = Tip")
    case False
    have "length (elems b) \<le> heap_size h" using size len by simp
    from spine_ok [OF rb False this, of s] obtain gs q' c' e' k' where
      g: "b = plug gs (mk s Tip q' c' e' k')" "all_on s gs" "rb_spine s (heap_size h) (rt b) h = Inr q'" by blast
    have "first_of ys NULL = q'" unfolding ys g(1) elems_on_plug by (simp add: prior_on [OF g(2)])
    moreover have "rt b \<noteq> NULL" using rep_root [OF rb] False by simp
    ultimately show ?thesis using k g(3) by (simp add: rb_next_def)
  next
    case True
    have par: "rd rbe_parent q h = Inr (up fs)" using rd_hole_parent [OF tp] by simp
    have cl: "rb_climb s (heap_size h) q h = Inr (first_of (after s fs) NULL)"
      using rb_climb_ok [OF tp, of "heap_size h" s] size len by simp
    show ?thesis
    proof (cases fs rule: ptrsc.cases)
      case 1
      then show ?thesis using k True par cl ys by (simp add: rb_next_def)
    next
      case (2 s' w c2 e2 b2 gs)
      note t2 = tp [unfolded 2]
      note a2 = t2 [unfolded tree_at_plug]
      have w: "w \<noteq> NULL" using a2 by (auto dest: cell_at_Obj_pos)
      have kw: "rd (kid s) w h = Inr (kid s (node s' q (rt b2) (up gs) c2 e2))" using rd_frame(2) [OF t2, of "kid s"] by simp
      show ?thesis
      proof (cases "s' = s")
        case t: True
        then show ?thesis using k True par kw w ys unfolding 2 by (simp add: rb_next_def)
      next
        case False
        then have s': "s' = opp s" by (cases s; cases s') auto
        have "q \<noteq> rt b2" using hole_not_sibling [of h w "mk s a q c d' b" "Fr s' w c2 e2 b2 # gs"] a2 by auto
        then show ?thesis using k True par kw w cl ys unfolding 2 s' by (simp add: rb_next_def)
      qed
    qed
  qed
qed

end
