(* ===== verification/TW_RBClass.thy ===== *)
theory TW_RBClass
  imports TW_RBTree
begin

text \<open>
  The class RB_Tree of include/TW/tw_rbtree.h around the tree of provos_rb_tree.h. A tree is its root and the
  heap of its nodes; the data, a pointer in the code, is a value of any type, and the null pointer that \<open>find\<close>
  and \<open>remove\<close> return is \<open>None\<close>. \<open>nfind\<close> of the class does not compile (it assigns a \<^verbatim>\<open>T *\<close> to a \<open>T\<close>).
\<close>

section \<open>The operations\<close>

definition rbt_new :: ptr where
  "rbt_new = NULL"

text \<open>\<^verbatim>\<open>calloc\<close> clears the new node.\<close>

definition rbt_insert :: "('d \<Rightarrow> 'd \<Rightarrow> int) \<Rightarrow> 'd \<Rightarrow> ptr \<times> 'd rb_heap \<Rightarrow> (ptr \<times> 'd rb_heap) res" where
  "rbt_insert cmp data = (\<lambda>(root, h). case malloc h of (newnode, h) \<Rightarrow>
     bindE (construct newnode \<lparr>rb_data = data, rbe_left = NULL, rbe_right = NULL, rbe_parent = NULL, rbe_red = False\<rparr> h) (\<lambda>h.
     bindE (rb_insert cmp newnode (root, h)) (\<lambda>(_, rh). Inr rh)))"

definition rbt_find :: "('d \<Rightarrow> 'd \<Rightarrow> int) \<Rightarrow> 'd \<Rightarrow> ptr \<times> 'd rb_heap \<Rightarrow> 'd option res" where
  "rbt_find cmp data = (\<lambda>(root, h).
     bindE (rb_find cmp (Suc (heap_size h)) data root h) (\<lambda>found.
     if found \<noteq> NULL then bindE (rd rb_data found h) (\<lambda>d. Inr (Some d)) else Inr None))"

definition rbt_find_fill :: "('d \<Rightarrow> 'd \<Rightarrow> int) \<Rightarrow> 'd \<Rightarrow> 'd \<Rightarrow> ptr \<times> 'd rb_heap \<Rightarrow> (bool \<times> 'd) res" where
  "rbt_find_fill cmp data fill = (\<lambda>(root, h).
     bindE (rb_find cmp (Suc (heap_size h)) data root h) (\<lambda>found.
     if found \<noteq> NULL then bindE (rd rb_data found h) (\<lambda>d. Inr (True, d)) else Inr (False, fill)))"

definition rbt_remove :: "('d \<Rightarrow> 'd \<Rightarrow> int) \<Rightarrow> 'd \<Rightarrow> ptr \<times> 'd rb_heap \<Rightarrow> ('d option \<times> ptr \<times> 'd rb_heap) res" where
  "rbt_remove cmp data = (\<lambda>(root, h).
     bindE (rb_find cmp (Suc (heap_size h)) data root h) (\<lambda>found.
     if found \<noteq> NULL then
       bindE (rd rb_data found h) (\<lambda>d.
       bindE (rb_remove found (root, h)) (\<lambda>(root, h).
       bindE (free found h) (\<lambda>h. Inr (Some d, root, h))))
     else Inr (None, root, h)))"

definition rbt_isEmpty :: "ptr \<times> 'd rb_heap \<Rightarrow> bool" where
  "rbt_isEmpty rh \<longleftrightarrow> fst rh = NULL"

text \<open>The nodes that RB_FOREACH visits from \<open>x\<close> on.\<close>

fun rb_foreach :: "nat \<Rightarrow> ptr \<Rightarrow> 'd rb_heap \<Rightarrow> ptr list res" where
  "rb_foreach 0 x h = Inl Diverges"
| "rb_foreach (Suc f) x h = (if x \<noteq> NULL then bindE (rb_next SL x h) (\<lambda>y. bindE (rb_foreach f y h) (\<lambda>l. Inr (x # l)))
     else Inr [])"

text \<open>The destructor walks over the nodes and does nothing with them.\<close>

definition rbt_destroy :: "ptr \<times> 'd rb_heap \<Rightarrow> 'd rb_heap res" where
  "rbt_destroy = (\<lambda>(root, h).
     bindE (rb_minmax (Suc (heap_size h)) (-1) root NULL h) (\<lambda>walk.
     bindE (rb_foreach (Suc (heap_size h)) walk h) (\<lambda>_. Inr h)))"

section \<open>The iterator\<close>

text \<open>Its node; the results are the new node and what is returned.\<close>

definition rbiter_new :: ptr where
  "rbiter_new = NULL"

definition rbiter_startMax :: "ptr \<times> 'd rb_heap \<Rightarrow> ptr res" where
  "rbiter_startMax = (\<lambda>(root, h). rb_minmax (Suc (heap_size h)) 1 root NULL h)"

definition rbiter_startMin :: "ptr \<times> 'd rb_heap \<Rightarrow> ptr res" where
  "rbiter_startMin = (\<lambda>(root, h). rb_minmax (Suc (heap_size h)) (-1) root NULL h)"

definition rbiter_getNext :: "ptr \<times> 'd rb_heap \<Rightarrow> ptr \<Rightarrow> (ptr \<times> 'd option) res" where
  "rbiter_getNext = (\<lambda>(root, h) nd. if nd = NULL then Inr (nd, None) else
     bindE (rb_next SL nd h) (\<lambda>nex.
     if nex \<noteq> NULL then bindE (rd rb_data nex h) (\<lambda>d. Inr (nex, Some d)) else Inr (nd, None)))"

definition rbiter_getPrev :: "ptr \<times> 'd rb_heap \<Rightarrow> ptr \<Rightarrow> (ptr \<times> 'd option) res" where
  "rbiter_getPrev = (\<lambda>(root, h) nd. if nd = NULL then Inr (nd, None) else
     bindE (rb_next SR nd h) (\<lambda>nex.
     if nex \<noteq> NULL then bindE (rd rb_data nex h) (\<lambda>d. Inr (nex, Some d)) else Inr (nd, None)))"

definition rbiter_current :: "ptr \<times> 'd rb_heap \<Rightarrow> ptr \<Rightarrow> 'd option res" where
  "rbiter_current = (\<lambda>(root, h) nd. if nd = NULL then Inr None else bindE (rd rb_data nd h) (\<lambda>d. Inr (Some d)))"

end
