(* ===== verification/TW_RBProps.thy ===== *)
theory TW_RBProps
  imports TW_RBFind TW_RBClass
begin

text \<open>
  What the red-black tree and the class RB_Tree promise.
\<close>

section \<open>A tree in order\<close>

text \<open>The nodes reachable from the root form a red-black tree with a black root, all pointers to children and parents
  agree, and the nodes from left to right are \<open>xs\<close>, in the order of \<open>cmp\<close>.\<close>

definition rb_tree :: "('d \<Rightarrow> 'd \<Rightarrow> int) \<Rightarrow> ptr \<times> 'd rb_heap \<Rightarrow> (ptr \<times> 'd) list \<Rightarrow> bool" where
  "rb_tree cmp rh xs \<longleftrightarrow> (\<exists>t. tree_at rh t \<and> rb_ok t \<and> \<not> red t \<and> elems t = xs \<and> in_order cmp xs)"

lemma rb_treeE:
  assumes "rb_tree cmp (root, h) xs"
  obtains t where "tree_at (root, h) t" "rb_ok t" "\<not> red t" "elems t = xs" "in_order cmp xs" "root = rt t"
    "rep h NULL t" "dist t" "ptrs t = fst ` set xs" "length xs \<le> heap_size h" "hgt t < Suc (heap_size h)"
proof -
  obtain t where t: "tree_at (root, h) t" "rb_ok t" "\<not> red t" "elems t = xs" "in_order cmp xs"
    using assms by (auto simp: rb_tree_def)
  then have r: "rep h NULL t" "dist t" by (simp_all add: tree_at_def)
  show ?thesis
    using that [OF t] t r length_elems [OF r] hgt_elems [of t] by (simp add: tree_at_def ptrs_elems)
qed

lemma in_order_filter: "in_order cmp xs \<Longrightarrow> in_order cmp (filter P xs)"
  by (simp add: in_order_def sorted_wrt_filter)

lemma rb_tree_cell:
  assumes "rb_tree cmp (root, h) xs" and "(q, d) \<in> set xs"
  shows "\<exists>n. cell_at h q = Obj n \<and> rb_data n = d"
proof -
  obtain t where t: "tree_at (root, h) t" "elems t = xs" "ptrs t = fst ` set xs" using rb_treeE [OF assms(1)] by metis
  have "q \<in> ptrs t" using assms(2) t(3) by force
  then obtain fs l c e r where p: "t = plug fs (Nd l q c e r)" using place_of by blast
  have "(q, e) \<in> set (elems t)" unfolding p by (simp add: elems_plug)
  moreover have "distinct (map fst (elems t))" using t(1) by (simp add: tree_at_def dist_elems)
  ultimately have "e = d" using assms(2) t(2) by (metis eq_key_imp_eq_value)
  then show ?thesis using t(1) unfolding p by (auto simp: tree_at_plug)
qed

text \<open>The comparison that the comment of tw_rbtree.h gives as an example.\<close>

definition cmp_sock :: "int \<Rightarrow> int \<Rightarrow> int" where
  "cmp_sock a b = (if a < b then -1 else if a > b then 1 else 0)"

interpretation sock: comparing cmp_sock
  by unfold_locales (auto simp: cmp_sock_def split: if_splits)

text \<open>A tree of three nodes, a fourth node beside it.\<close>

definition ext_nodes :: "int rb_heap" where
  "ext_nodes = \<lparr>mem = [Obj \<lparr>rb_data = 20, rbe_left = 2, rbe_right = 3, rbe_parent = 0, rbe_red = False\<rparr>,
     Obj \<lparr>rb_data = 10, rbe_left = 0, rbe_right = 0, rbe_parent = 1, rbe_red = True\<rparr>,
     Obj \<lparr>rb_data = 30, rbe_left = 0, rbe_right = 0, rbe_parent = 1, rbe_red = True\<rparr>,
     Obj \<lparr>rb_data = 25, rbe_left = 0, rbe_right = 0, rbe_parent = 0, rbe_red = False\<rparr>], room = 4\<rparr>"

lemma ext_rb_tree: "rb_tree cmp_sock (1, ext_nodes) [(2, 10), (1, 20), (3, 30)]"
  unfolding rb_tree_def
  by (rule exI [of _ "Nd (Nd Tip 2 True 10 Tip) 1 False 20 (Nd Tip 3 True 30 Tip)"])
    (simp add: tree_at_def ext_nodes_def cell_at_def in_order_def cmp_sock_def nth_Cons')

lemma sock_laws: "comparing cmp_sock"
  by unfold_locales

section \<open>The macros\<close>

lemma rb_insert_tree:
  assumes "comparing cmp" and "rb_tree cmp (root, h) xs" and "cell_at h elm = Obj n" and "elm \<notin> fst ` set xs"
  shows "(\<exists>p d. (p, d) \<in> set xs \<and> cmp (rb_data n) d = 0 \<and> rb_insert cmp elm (root, h) = Inr (p, root, h))
    \<or> (\<forall>x \<in> set xs. cmp (rb_data n) (snd x) \<noteq> 0)
      \<and> (\<exists>root' h'. rb_insert cmp elm (root, h) = Inr (NULL, root', h')
        \<and> rb_tree cmp (root', h') (filter (\<lambda>x. 0 < cmp (rb_data n) (snd x)) xs @ (elm, rb_data n)
            # filter (\<lambda>x. cmp (rb_data n) (snd x) < 0) xs)
        \<and> moved (insert elm (fst ` set xs)) h h')"
proof -
  obtain t where t: "tree_at (root, h) t" "rb_ok t" "\<not> red t" "elems t = xs" "in_order cmp xs" "ptrs t = fst ` set xs"
    using rb_treeE [OF assms(2)] by metis
  let ?k = "rb_data n"
  have "in_order cmp (filter (\<lambda>x. 0 < cmp ?k (snd x)) xs @ (elm, ?k) # filter (\<lambda>x. cmp ?k (snd x) < 0) xs)"
    using t(5) comparing.cmp_swap [OF assms(1)] comparing.cmp_trans [OF assms(1)]
    by (simp add: in_order_append in_order_Cons in_order_filter) blast
  then show ?thesis
    using comparing.rb_insert_ok [OF assms(1) t(1-3) _ assms(3), unfolded t(4,6), OF t(5) assms(4)]
    unfolding rb_tree_def by metis
qed

lemma rb_remove_tree:
  assumes "rb_tree cmp (root, h) xs" and "(q, d) \<in> set xs"
  shows "\<exists>root' h'. rb_remove q (root, h) = Inr (root', h') \<and> rb_tree cmp (root', h') (filter (\<lambda>x. fst x \<noteq> q) xs)
    \<and> moved (fst ` set xs) h h'"
proof -
  obtain t where t: "tree_at (root, h) t" "rb_ok t" "\<not> red t" "elems t = xs" "in_order cmp xs" "ptrs t = fst ` set xs"
    using rb_treeE [OF assms(1)] by metis
  have "q \<in> ptrs t" using assms(2) t(6) by force
  from rb_remove_ok [OF t(1-3) this] show ?thesis
    using t(4-6) in_order_filter unfolding removed_def rb_tree_def by fastforce
qed

text \<open>C27. RB_INSERT of a node with new data hangs it in at its place and restores the laws of the tree by
  recolouring and rotating, whatever the tree: no red node has a red child, all paths have as many black nodes,
  every pointer to a parent is right, and no other memory is touched. Of a node with equal data
  there, it returns that one and changes nothing.\<close>
theorem rb_insert_balances:
  assumes "comparing cmp" and "rb_tree cmp (root, h) xs" and "cell_at h elm = Obj n" and "elm \<notin> fst ` set xs"
  shows "holds (rb_insert cmp elm (root, h)) (\<lambda>(p, root', h').
    if \<exists>x \<in> set xs. cmp (rb_data n) (snd x) = 0
    then (\<exists>d. (p, d) \<in> set xs \<and> cmp (rb_data n) d = 0) \<and> root' = root \<and> h' = h
    else p = NULL \<and> rb_tree cmp (root', h') (filter (\<lambda>x. 0 < cmp (rb_data n) (snd x)) xs @ (elm, rb_data n)
        # filter (\<lambda>x. cmp (rb_data n) (snd x) < 0) xs)
      \<and> same_outside (insert elm (fst ` set xs)) h h' \<and> live h' = live h)"
  using rb_insert_tree [OF assms] by (elim disjE exE conjE) (force, force simp: moved_def)

theorem rb_insert_balances_witness:
  "holds (rb_insert cmp_sock 4 (1, ext_nodes)) (\<lambda>(p, rh'). p = 0 \<and> rb_tree cmp_sock rh' [(2, 10), (1, 20), (4, 25), (3, 30)])"
proof -
  let ?n = "\<lparr>rb_data = 25, rbe_left = 0, rbe_right = 0, rbe_parent = 0, rbe_red = False\<rparr>"
  have n: "cell_at ext_nodes 4 = Obj ?n" and o: "4 \<notin> fst ` set [(2 :: ptr, 10 :: int), (1, 20), (3, 30)]"
    by (simp_all add: ext_nodes_def cell_at_def)
  from rb_insert_balances [OF sock_laws ext_rb_tree n o] show ?thesis
    by (rule holds_mono) (auto simp: cmp_sock_def)
qed

text \<open>C28. RB_REMOVE takes exactly the node it is given out of the tree, be it a leaf, a node with one child or one with two,
  and restores the laws of the tree; no other memory is touched, and the node is not freed.\<close>
theorem rb_remove_balances:
  assumes "rb_tree cmp (root, h) xs" and "(q, d) \<in> set xs"
  shows "holds (rb_remove q (root, h)) (\<lambda>(root', h'). rb_tree cmp (root', h') (filter (\<lambda>x. fst x \<noteq> q) xs)
    \<and> same_outside (fst ` set xs) h h' \<and> live h' = live h)"
  using rb_remove_tree [OF assms] by (auto simp: moved_def)

theorem rb_remove_balances_witness:
  "holds (rb_remove 1 (1, ext_nodes)) (\<lambda>rh'. rb_tree cmp_sock rh' [(2, 10), (3, 30)])"
proof -
  have "(1, 20) \<in> set [(2 :: ptr, 10 :: int), (1, 20), (3, 30)]" by simp
  from rb_remove_balances [OF ext_rb_tree this] show ?thesis by (rule holds_mono) auto
qed

text \<open>C29. RB_FIND of a tree with \<open>n\<close> nodes returns the node with equal data, or null when there is none, after at most
  2 log2 (n + 1) + 1 rounds of its loop.\<close>
theorem rb_find_logarithmic:
  assumes "comparing cmp" and "rb_tree cmp (root, h) xs" and "(Suc (length xs))\<^sup>2 < 2 ^ f"
  shows "\<exists>p. rb_find cmp f key root h = Inr p
    \<and> (if p = NULL then \<forall>x \<in> set xs. cmp key (snd x) \<noteq> 0 else \<exists>d. (p, d) \<in> set xs \<and> cmp key d = 0)"
proof -
  obtain t where t: "rb_ok t" "\<not> red t" "elems t = xs" "in_order cmp xs" "root = rt t" "rep h NULL t" "ptrs t = fst ` set xs"
    using rb_treeE [OF assms(2)] by metis
  have "hgt t < f" using hgt_bound [OF t(1,2)] assms(3) t(3) by simp
  from comparing.rb_find_ok [OF assms(1) t(6) _ this, of key] t(3-5)
  have r: "rb_find cmp f key root h = Inr (first_of (filter (\<lambda>x. cmp key (snd x) = 0) xs) NULL)" by simp
  show ?thesis
  proof (cases "filter (\<lambda>x. cmp key (snd x) = 0) xs")
    case Nil
    then show ?thesis using r by (auto simp: filter_empty_conv)
  next
    case (Cons x zs)
    then have x: "x \<in> set xs" "cmp key (snd x) = 0" by (auto dest: filter_eq_ConsD)
    have "fst x \<in> ptrs t" using x(1) t(7) by simp
    then have "fst x \<noteq> NULL" using rep_null [OF t(6)] by metis
    then show ?thesis using r Cons x by (intro exI [of _ "fst x"]) (auto intro!: exI [of _ "snd x"])
  qed
qed

theorem rb_find_logarithmic_witness: "rb_find cmp_sock 5 30 1 ext_nodes = Inr 3"
proof -
  have "(Suc (length [(2 :: ptr, 10 :: int), (1, 20), (3, 30)]))\<^sup>2 < 2 ^ 5" by (simp add: power2_eq_square)
  from rb_find_logarithmic [OF sock_laws ext_rb_tree this, of 30] show ?thesis
    by (auto simp: cmp_sock_def simp del: rb_find.simps split: if_splits)
qed

section \<open>Walking\<close>

lemma rb_next_in_order:
  assumes "rb_tree cmp (root, h) (as @ (q, d) # bs)"
  shows "rb_next SL q h = Inr (first_of bs NULL)" and "rb_next SR q h = Inr (first_of (rev as) NULL)"
proof -
  obtain t where t: "tree_at (root, h) t" "elems t = as @ (q, d) # bs" using rb_treeE [OF assms] by metis
  show "rb_next SL q h = Inr (first_of bs NULL)" by (rule rb_next_ok [OF t(1)]) (simp add: elems_on_def t(2))
  have "elems_on SR t = rev bs @ (q, d) # rev as" by (simp add: elems_on_def t(2))
  then show "rb_next SR q h = Inr (first_of (rev as) NULL)" by (rule rb_next_ok [OF t(1)])
qed

lemma rb_foreach_from:
  assumes "rb_tree cmp (root, h) (as @ bs)" and "length bs < f"
  shows "rb_foreach f (first_of bs NULL) h = Inr (map fst bs)"
  using assms
proof (induction bs arbitrary: as f)
  case Nil
  then show ?case by (cases f) auto
next
  case (Cons b bs)
  obtain f' where f: "f = Suc f'" using Cons.prems(2) by (cases f) auto
  obtain q d where b: "b = (q, d)" by (cases b)
  have "cell_at h q \<noteq> Freed" using rb_tree_cell [OF Cons.prems(1), of q d] b by auto
  then have "q \<noteq> NULL" using cell_at_valid by blast
  moreover have "rb_next SL q h = Inr (first_of bs NULL)" using rb_next_in_order(1) [of cmp root h as q d bs] Cons.prems(1) b by simp
  moreover have "rb_foreach f' (first_of bs NULL) h = Inr (map fst bs)"
    using Cons.IH [of "as @ [b]" f'] Cons.prems f by simp
  ultimately show ?case using f b by simp
qed

lemma rb_min_max_ok:
  assumes "rb_tree cmp (root, h) xs"
  shows "rb_minmax (Suc (heap_size h)) (-1) root NULL h = Inr (first_of xs NULL)"
    and "rb_minmax (Suc (heap_size h)) 1 root NULL h = Inr (first_of (rev xs) NULL)"
proof -
  obtain t where t: "root = rt t" "rep h NULL t" "elems t = xs" "hgt t < Suc (heap_size h)" using rb_treeE [OF assms] by metis
  show "rb_minmax (Suc (heap_size h)) (-1) root NULL h = Inr (first_of xs NULL)"
    using rb_minmax_ok [OF t(2,4), of SL "-1" NULL] t(1,3) by (simp add: elems_on_def del: rb_minmax.simps)
  show "rb_minmax (Suc (heap_size h)) 1 root NULL h = Inr (first_of (rev xs) NULL)"
    using rb_minmax_ok [OF t(2,4), of SR 1 NULL] t(1,3) by (simp add: elems_on_def del: rb_minmax.simps)
qed

text \<open>RB_FOREACH visits every node of a tree once, in the order of the data, and ends; and from any node \<open>getNext\<close> and
  \<open>getPrev\<close> of the iterator lead to its neighbours and back.\<close>
theorem rb_walk_in_order:
  assumes "rb_tree cmp (root, h) xs"
  shows "holds (rbiter_startMin (root, h)) (\<lambda>p. rb_foreach (Suc (heap_size h)) p h = Inr (map fst xs))
    \<and> holds (rbiter_startMax (root, h)) (\<lambda>p. p = first_of (rev xs) NULL)
    \<and> (\<forall>as p d q e bs. xs = as @ (p, d) # (q, e) # bs \<longrightarrow>
        rbiter_getNext (root, h) p = Inr (q, Some e) \<and> rbiter_getPrev (root, h) q = Inr (p, Some d))"
proof (intro conjI allI impI)
  have "length xs \<le> heap_size h" using rb_treeE [OF assms] by metis
  then show "holds (rbiter_startMin (root, h)) (\<lambda>p. rb_foreach (Suc (heap_size h)) p h = Inr (map fst xs))"
    using rb_min_max_ok(1) [OF assms] rb_foreach_from [of cmp root h "[]" xs] assms
    by (simp add: rbiter_startMin_def del: rb_minmax.simps rb_foreach.simps)
  show "holds (rbiter_startMax (root, h)) (\<lambda>p. p = first_of (rev xs) NULL)"
    using rb_min_max_ok(2) [OF assms] by (simp add: rbiter_startMax_def del: rb_minmax.simps)
  fix as p d q e bs
  assume xs: "xs = as @ (p, d) # (q, e) # bs"
  obtain n m where c: "cell_at h p = Obj n" "rb_data n = d" "cell_at h q = Obj m" "rb_data m = e"
    using rb_tree_cell [OF assms, of p d] rb_tree_cell [OF assms, of q e] xs by auto
  have pos: "p \<noteq> NULL" "q \<noteq> NULL" using c by (auto dest: cell_at_Obj_pos)
  have "rb_next SL p h = Inr q" using rb_next_in_order(1) [of cmp root h as p d "(q, e) # bs"] assms xs by simp
  then show "rbiter_getNext (root, h) p = Inr (q, Some e)" using c pos by (simp add: rbiter_getNext_def rd_def)
  have "rb_next SR q h = Inr p" using rb_next_in_order(2) [of cmp root h "as @ [(p, d)]" q e bs] assms xs by simp
  then show "rbiter_getPrev (root, h) q = Inr (p, Some d)" using c pos by (simp add: rbiter_getPrev_def rd_def)
qed

theorem rb_walk_in_order_witness:
  "holds (rbiter_startMin (1, ext_nodes)) (\<lambda>p. rb_foreach 5 p ext_nodes = Inr [2, 1, 3])
    \<and> rbiter_getNext (1, ext_nodes) 1 = Inr (3, Some 30)"
proof -
  have "heap_size ext_nodes = 4" by (simp add: ext_nodes_def)
  moreover have "[(2, 10), (1, 20), (3, 30)] = [(2, 10)] @ (1, 20) # (3, 30) # ([] :: (ptr \<times> int) list)" by simp
  moreover note w = rb_walk_in_order [OF ext_rb_tree]
  ultimately have "rbiter_getNext (1, ext_nodes) 1 = Inr (3, Some 30)" by blast
  then show ?thesis using w \<open>heap_size ext_nodes = 4\<close> by (auto simp del: rb_foreach.simps elim!: holds_mono)
qed

section \<open>The class\<close>

datatype 'd rcmd = R_insert 'd | R_find 'd | R_remove 'd | R_isEmpty

text \<open>The result of an operation: the data it returns, and whether the tree is empty.\<close>

definition rcmd_op :: "('d \<Rightarrow> 'd \<Rightarrow> int) \<Rightarrow> 'd rcmd \<Rightarrow> ptr \<times> 'd rb_heap \<Rightarrow> (('d option \<times> bool) \<times> ptr \<times> 'd rb_heap) res" where
  "rcmd_op cmp c rh = (case c of
     R_insert d \<Rightarrow> bindE (rbt_insert cmp d rh) (\<lambda>rh. Inr ((None, False), rh))
   | R_find d \<Rightarrow> bindE (rbt_find cmp d rh) (\<lambda>r. Inr ((r, False), rh))
   | R_remove d \<Rightarrow> bindE (rbt_remove cmp d rh) (\<lambda>(r, rh). Inr ((r, False), rh))
   | R_isEmpty \<Rightarrow> Inr ((None, rbt_isEmpty rh), rh))"

fun rbt_run :: "('d \<Rightarrow> 'd \<Rightarrow> int) \<Rightarrow> 'd rcmd list \<Rightarrow> ptr \<times> 'd rb_heap \<Rightarrow> (('d option \<times> bool) list \<times> ptr \<times> 'd rb_heap) res" where
  "rbt_run cmp [] rh = Inr ([], rh)"
| "rbt_run cmp (c # cs) rh = bindE (rcmd_op cmp c rh) (\<lambda>(r, rh). bindE (rbt_run cmp cs rh) (\<lambda>(rs, rh). Inr (r # rs, rh)))"

text \<open>The same on a sorted list, with the number of nodes that are lost: those of data that was there already.\<close>

definition sorted_cmd :: "('d \<Rightarrow> 'd \<Rightarrow> int) \<Rightarrow> 'd rcmd \<Rightarrow> 'd list \<times> nat \<Rightarrow> ('d option \<times> bool) \<times> 'd list \<times> nat" where
  "sorted_cmd cmp c = (\<lambda>(ds, lost). case c of
     R_insert d \<Rightarrow> ((None, False), if \<exists>e \<in> set ds. cmp d e = 0 then (ds, Suc lost)
       else (filter (\<lambda>e. 0 < cmp d e) ds @ d # filter (\<lambda>e. cmp d e < 0) ds, lost))
   | R_find d \<Rightarrow> ((List.find (\<lambda>e. cmp d e = 0) ds, False), ds, lost)
   | R_remove d \<Rightarrow> ((List.find (\<lambda>e. cmp d e = 0) ds, False), filter (\<lambda>e. cmp d e \<noteq> 0) ds, lost)
   | R_isEmpty \<Rightarrow> ((None, ds = []), ds, lost))"

fun sorted_run :: "('d \<Rightarrow> 'd \<Rightarrow> int) \<Rightarrow> 'd rcmd list \<Rightarrow> 'd list \<times> nat \<Rightarrow> ('d option \<times> bool) list \<times> 'd list \<times> nat" where
  "sorted_run cmp [] st = ([], st)"
| "sorted_run cmp (c # cs) st = (case sorted_cmd cmp c st of (r, st) \<Rightarrow>
     (case sorted_run cmp cs st of (rs, st) \<Rightarrow> (r # rs, st)))"

text \<open>The state: a tree of the data, and its nodes and the lost ones beside the memory \<open>F\<close> of everything else.\<close>

definition rbt_state :: "('d \<Rightarrow> 'd \<Rightarrow> int) \<Rightarrow> ptr set \<Rightarrow> ptr \<times> 'd rb_heap \<Rightarrow> 'd list \<times> nat \<Rightarrow> bool" where
  "rbt_state cmp F rh st \<longleftrightarrow> (\<exists>xs L. rb_tree cmp rh xs \<and> map snd xs = fst st \<and> card L = snd st \<and> finite L
     \<and> live (snd rh) = F \<union> fst ` set xs \<union> L \<and> fst ` set xs \<inter> (F \<union> L) = {} \<and> F \<inter> L = {})"

context comparing begin

lemma find_filter: "List.find P (map snd xs) = (case filter (P \<circ> snd) xs of [] \<Rightarrow> None | x # _ \<Rightarrow> Some (snd x))"
  by (induction xs) auto

lemma rbt_found:
  assumes "rb_tree cmp (root, h) xs"
  shows "(\<exists>p d. (p, d) \<in> set xs \<and> cmp key d = 0 \<and> rb_find cmp (Suc (heap_size h)) key root h = Inr p \<and> p \<noteq> NULL
      \<and> rd rb_data p h = Inr d \<and> List.find (\<lambda>e. cmp key e = 0) (map snd xs) = Some d
      \<and> filter (\<lambda>x. cmp key (snd x) \<noteq> 0) xs = filter (\<lambda>x. fst x \<noteq> p) xs)
    \<or> rb_find cmp (Suc (heap_size h)) key root h = Inr NULL \<and> List.find (\<lambda>e. cmp key e = 0) (map snd xs) = None
      \<and> filter (\<lambda>x. cmp key (snd x) \<noteq> 0) xs = xs"
proof -
  obtain t where t: "rep h NULL t" "elems t = xs" "in_order cmp xs" "root = rt t" "hgt t < Suc (heap_size h)" "dist t"
    using rb_treeE [OF assms] by metis
  have r: "rb_find cmp (Suc (heap_size h)) key root h = Inr (first_of (filter (\<lambda>x. cmp key (snd x) = 0) xs) NULL)"
    using rb_find_ok [OF t(1) _ t(5), of key] t(2-4) by (simp del: rb_find.simps)
  show ?thesis
  proof (cases "filter (\<lambda>x. cmp key (snd x) = 0) xs")
    case Nil
    then have "filter (\<lambda>x. cmp key (snd x) \<noteq> 0) xs = xs" by (auto simp: filter_id_conv filter_empty_conv)
    then show ?thesis using r Nil by (auto simp: find_filter comp_def simp del: rb_find.simps)
  next
    case (Cons x zs)
    obtain p d where x: "x = (p, d)" by (cases x)
    have m: "(p, d) \<in> set xs" "cmp key d = 0" using Cons x by (auto dest: filter_eq_ConsD)
    obtain n where n: "cell_at h p = Obj n" "rb_data n = d" using rb_tree_cell [OF assms m(1)] by blast
    obtain as bs where ab: "xs = as @ (p, d) # bs" using m(1) by (metis in_set_conv_decomp)
    have "in_order cmp (as @ (p, d) # bs)" using t(3) ab by simp
    note parts = filter_parts(3,4) [OF this m(2)]
    have "filter (\<lambda>x. cmp key (snd x) \<noteq> 0) as = as" "filter (\<lambda>x. cmp key (snd x) \<noteq> 0) bs = bs"
      using parts by (force simp: filter_id_conv)+
    then have "filter (\<lambda>x. cmp key (snd x) \<noteq> 0) xs = as @ bs" using m(2) unfolding ab by simp
    moreover have "filter (\<lambda>x. fst x \<noteq> p) xs = as @ bs"
      using filter_old [of as p d bs] t(2,6) ab by (simp add: dist_elems)
    ultimately show ?thesis using r Cons x m n cell_at_Obj_pos [OF n(1)]
      by (intro disjI1 exI [of _ p] exI [of _ d]) (simp add: find_filter comp_def rd_def del: rb_find.simps)
  qed
qed

end

lemma rb_tree_new:
  assumes "rb_tree cmp (root, h) xs"
  shows "rb_tree cmp (root, new_obj n h) xs" and "Suc (heap_size h) \<notin> fst ` set xs"
proof -
  obtain t where t: "tree_at (root, h) t" "rb_ok t" "\<not> red t" "elems t = xs" "in_order cmp xs" "ptrs t = fst ` set xs"
    using rb_treeE [OF assms] by metis
  have no: "Suc (heap_size h) \<notin> ptrs t"
  proof
    assume a: "Suc (heap_size h) \<in> ptrs t"
    have "rep h NULL t" using t(1) by (simp add: tree_at_def)
    then obtain n where "cell_at h (Suc (heap_size h)) = Obj n" using rep_obj a by metis
    then show False by (simp add: cell_at_fresh)
  qed
  have "rep (new_obj n h) NULL t = rep h NULL t" by (rule rep_cong) (use no in \<open>auto simp: cell_at_new\<close>)
  then show "rb_tree cmp (root, new_obj n h) xs" using t unfolding rb_tree_def by (auto simp: tree_at_def)
  show "Suc (heap_size h) \<notin> fst ` set xs" using no t(6) by simp
qed

context comparing begin

lemma rcmd_insert:
  assumes st: "rbt_state cmp F (root, h) (ds, lost)" and room: "room h \<noteq> 0"
  shows "\<exists>rh'. rbt_insert cmp d (root, h) = Inr rh' \<and> rbt_state cmp F rh' (snd (sorted_cmd cmp (R_insert d) (ds, lost)))
    \<and> room (snd rh') = room h - 1"
proof -
  obtain xs L where x: "rb_tree cmp (root, h) xs" "map snd xs = ds" "card L = lost" "finite L"
    "live h = F \<union> fst ` set xs \<union> L" "fst ` set xs \<inter> (F \<union> L) = {}" "F \<inter> L = {}"
    using st by (auto simp: rbt_state_def)
  let ?n = "\<lparr>rb_data = d, rbe_left = NULL, rbe_right = NULL, rbe_parent = NULL, rbe_red = False\<rparr>"
  let ?p = "Suc (heap_size h)" and ?h = "new_obj ?n h"
  have al: "rbt_insert cmp d (root, h) = bindE (rb_insert cmp ?p (root, ?h)) (\<lambda>(_, rh). Inr rh)"
    using room by (simp add: rbt_insert_def malloc_ok construct_new)
  have c: "cell_at ?h ?p = Obj ?n" by (simp add: cell_at_new)
  have pl: "?p \<notin> live h" by (rule fresh_not_live)
  have e: "(\<exists>e \<in> set ds. cmp d e = 0) \<longleftrightarrow> (\<exists>x \<in> set xs. cmp d (snd x) = 0)" unfolding x(2) [symmetric] by simp
  have "comparing cmp" by (rule comparing_axioms)
  from rb_insert_tree [OF this rb_tree_new(1) [OF x(1)] c rb_tree_new(2) [OF x(1)]]
  consider (dup) q where "\<exists>x \<in> set xs. cmp d (snd x) = 0" "rb_insert cmp ?p (root, ?h) = Inr (q, root, ?h)"
    | (new) root' h' where "\<forall>x \<in> set xs. cmp d (snd x) \<noteq> 0" "rb_insert cmp ?p (root, ?h) = Inr (NULL, root', h')"
      "rb_tree cmp (root', h') (filter (\<lambda>x. 0 < cmp d (snd x)) xs @ (?p, d) # filter (\<lambda>x. cmp d (snd x) < 0) xs)"
      "moved (insert ?p (fst ` set xs)) ?h h'"
    by (auto simp: split_def) (metis snd_conv)+
  then show ?thesis
  proof cases
    case dup
    have "rbt_state cmp F (root, ?h) (ds, Suc lost)"
      unfolding rbt_state_def using x rb_tree_new(1) [OF x(1)] pl
      by (intro exI [of _ xs] exI [of _ "insert ?p L"]) (auto simp: live_new)
    then show ?thesis using al dup e by (simp add: sorted_cmd_def)
  next
    case new
    let ?xs = "filter (\<lambda>x. 0 < cmp d (snd x)) xs @ (?p, d) # filter (\<lambda>x. cmp d (snd x) < 0) xs"
    have s: "set ?xs = insert (?p, d) (set xs)" using new(1) by (auto simp: neq_iff)
    have "map snd ?xs = filter (\<lambda>e. 0 < cmp d e) ds @ d # filter (\<lambda>e. cmp d e < 0) ds"
      using x(2) by (auto simp: filter_map comp_def)
    moreover have "live h' = F \<union> fst ` set ?xs \<union> L" "fst ` set ?xs \<inter> (F \<union> L) = {}"
      unfolding s using new(4) x(5,6) pl by (auto simp: moved_def live_new)
    ultimately have "rbt_state cmp F (root', h') (filter (\<lambda>e. 0 < cmp d e) ds @ d # filter (\<lambda>e. cmp d e < 0) ds, lost)"
      unfolding rbt_state_def using new(3) x(3,4,7) by (intro exI [of _ ?xs] exI [of _ L]) simp
    then show ?thesis using al new e by (simp add: sorted_cmd_def moved_def)
  qed
qed

lemma rcmd_remove:
  assumes st: "rbt_state cmp F (root, h) (ds, lost)"
  shows "\<exists>rh'. rbt_remove cmp d (root, h) = Inr (List.find (\<lambda>e. cmp d e = 0) ds, rh')
    \<and> rbt_state cmp F rh' (filter (\<lambda>e. cmp d e \<noteq> 0) ds, lost) \<and> room h \<le> room (snd rh')"
proof -
  obtain xs L where x: "rb_tree cmp (root, h) xs" "map snd xs = ds" "card L = lost" "finite L"
    "live h = F \<union> fst ` set xs \<union> L" "fst ` set xs \<inter> (F \<union> L) = {}" "F \<inter> L = {}"
    using st by (auto simp: rbt_state_def)
  have fd: "filter (\<lambda>e. cmp d e \<noteq> 0) ds = map snd (filter (\<lambda>x. cmp d (snd x) \<noteq> 0) xs)"
    using x(2) by (auto simp: filter_map comp_def)
  from rbt_found [OF x(1), of d] show ?thesis
  proof (elim disjE exE conjE)
    fix p e
    assume f: "(p, e) \<in> set xs" "cmp d e = 0" "rb_find cmp (Suc (heap_size h)) d root h = Inr p" "p \<noteq> NULL"
      "rd rb_data p h = Inr e" "List.find (\<lambda>e. cmp d e = 0) (map snd xs) = Some e"
      "filter (\<lambda>x. cmp d (snd x) \<noteq> 0) xs = filter (\<lambda>x. fst x \<noteq> p) xs"
    obtain root' h' where r: "rb_remove p (root, h) = Inr (root', h')"
      "rb_tree cmp (root', h') (filter (\<lambda>x. fst x \<noteq> p) xs)" "moved (fst ` set xs) h h'"
      using rb_remove_tree [OF x(1) f(1)] by blast
    have "p \<in> live h" using x(5) f(1) by force
    then have "p \<in> live h'" using r(3) by (simp add: moved_def)
    then have pl: "cell_at h' p \<noteq> Freed" by (simp add: live_iff)
    let ?h = "(put_cell p Freed h')\<lparr>room := Suc (room h')\<rparr>"
    have run: "rbt_remove cmp d (root, h) = Inr (Some e, root', ?h)"
      using f(3-5) r(1) free_ok [OF pl] by (simp add: rbt_remove_def del: rb_find.simps)
    let ?xs = "filter (\<lambda>x. fst x \<noteq> p) xs"
    have ps: "fst ` set ?xs = fst ` set xs - {p}" by auto
    obtain t where t: "tree_at (root', h') t" "rb_ok t" "\<not> red t" "elems t = ?xs" "in_order cmp ?xs" "ptrs t = fst ` set ?xs"
      using rb_treeE [OF r(2)] by metis
    have "rep ?h NULL t = rep h' NULL t" by (rule rep_cong) (use t(6) pl in \<open>auto simp: cell_at_put\<close>)
    then have tr: "rb_tree cmp (root', ?h) ?xs" using t unfolding rb_tree_def by (auto simp: tree_at_def)
    have "live ?h = F \<union> fst ` set ?xs \<union> L" "fst ` set ?xs \<inter> (F \<union> L) = {}"
      unfolding ps using pl r(3) x(5,6) f(1) by (auto simp: live_put_Freed moved_def)
    then have "rbt_state cmp F (root', ?h) (filter (\<lambda>e. cmp d e \<noteq> 0) ds, lost)"
      unfolding rbt_state_def using tr x(3,4,7) fd f(7) by (intro exI [of _ ?xs] exI [of _ L]) simp
    then show ?thesis using run f(6) x(2) r(3) by (simp add: moved_def)
  next
    assume "rb_find cmp (Suc (heap_size h)) d root h = Inr NULL" "List.find (\<lambda>e. cmp d e = 0) (map snd xs) = None"
      "filter (\<lambda>x. cmp d (snd x) \<noteq> 0) xs = xs"
    then show ?thesis using st x(2) fd by (simp add: rbt_remove_def del: rb_find.simps)
  qed
qed

lemma rcmd_ok:
  assumes st: "rbt_state cmp F (root, h) (ds, lost)" and room: "room h \<noteq> 0"
  shows "\<exists>rh'. rcmd_op cmp c (root, h) = Inr (fst (sorted_cmd cmp c (ds, lost)), rh')
    \<and> rbt_state cmp F rh' (snd (sorted_cmd cmp c (ds, lost))) \<and> room h - 1 \<le> room (snd rh')"
proof (cases c)
  case (R_insert d)
  have "fst (sorted_cmd cmp (R_insert d) (ds, lost)) = (None, False)" by (simp add: sorted_cmd_def)
  moreover obtain rh' where "rbt_insert cmp d (root, h) = Inr rh'"
    "rbt_state cmp F rh' (snd (sorted_cmd cmp (R_insert d) (ds, lost)))" "room (snd rh') = room h - 1"
    using rcmd_insert [OF assms, of d] by blast
  ultimately show ?thesis using R_insert by (simp add: rcmd_op_def)
next
  case (R_remove d)
  then show ?thesis using rcmd_remove [OF st, of d] by (auto simp: rcmd_op_def sorted_cmd_def)
next
  case (R_find d)
  obtain xs where x: "rb_tree cmp (root, h) xs" "map snd xs = ds" using st by (auto simp: rbt_state_def)
  have "rbt_find cmp d (root, h) = Inr (List.find (\<lambda>e. cmp d e = 0) ds)"
    using rbt_found [OF x(1), of d] x(2) by (auto simp: rbt_find_def simp del: rb_find.simps)
  then show ?thesis using st R_find by (simp add: rcmd_op_def sorted_cmd_def)
next
  case R_isEmpty
  obtain xs where x: "rb_tree cmp (root, h) xs" "map snd xs = ds" using st by (auto simp: rbt_state_def)
  obtain t where t: "root = rt t" "rep h NULL t" "elems t = xs" using rb_treeE [OF x(1)] by metis
  have "rbt_isEmpty (root, h) = (ds = [])"
    using rep_root [OF t(2)] t x(2) by (cases t) (auto simp: rbt_isEmpty_def)
  then show ?thesis using st R_isEmpty by (simp add: rcmd_op_def sorted_cmd_def)
qed

lemma rbt_run_ok:
  "rbt_state cmp F rh st \<Longrightarrow> length cs \<le> room (snd rh) \<Longrightarrow>
    \<exists>rh'. rbt_run cmp cs rh = Inr (fst (sorted_run cmp cs st), rh') \<and> rbt_state cmp F rh' (snd (sorted_run cmp cs st))"
proof (induction cs arbitrary: rh st)
  case (Cons c cs)
  obtain root h ds lost where p: "rh = (root, h)" "st = (ds, lost)" by (cases rh; cases st)
  obtain rh1 where r: "rcmd_op cmp c rh = Inr (fst (sorted_cmd cmp c st), rh1)"
    "rbt_state cmp F rh1 (snd (sorted_cmd cmp c st))" "room h - 1 \<le> room (snd rh1)"
    using rcmd_ok [of F root h ds lost c] Cons.prems p by auto
  have "length cs \<le> room (snd rh1)" using r(3) Cons.prems(2) p by simp
  from Cons.IH [OF r(2) this] r(1) show ?case by (auto simp: split_def)
qed simp

end

text \<open>C26. An RB_Tree is a sorted set: for every sequence of operations on a new one, each returns what the operation on a
  sorted list returns, and the tree then holds the list. Its nodes are the only memory it has taken, but for one
  node for each time that data was inserted that was there already: \<open>insert\<close> loses it. And the destructor
  gives no memory back at all. (While there is memory.)\<close>
theorem rb_tree_is_a_set:
  assumes "comparing cmp" and "length cs \<le> room h"
  shows "holds (rbt_run cmp cs (rbt_new, h)) (\<lambda>(rs, root', h').
    \<exists>xs L. (rs, map snd xs, card L) = sorted_run cmp cs ([], 0) \<and> rb_tree cmp (root', h') xs
      \<and> live h' = live h \<union> fst ` set xs \<union> L \<and> (live h \<inter> (fst ` set xs \<union> L)) = {} \<and> fst ` set xs \<inter> L = {}
      \<and> holds (rbt_destroy (root', h')) (\<lambda>h''. live h'' = live h'))"
proof -
  have "rbt_state cmp (live h) (rbt_new, h) ([], 0)"
    unfolding rbt_state_def rb_tree_def
    by (intro exI [of _ "[]"] exI [of _ "{}"] conjI exI [of _ Tip]) (simp_all add: tree_at_def rbt_new_def in_order_def)
  from comparing.rbt_run_ok [OF assms(1) this, of cs] assms(2) obtain rh' where
    r: "rbt_run cmp cs (rbt_new, h) = Inr (fst (sorted_run cmp cs ([], 0)), rh')"
    "rbt_state cmp (live h) rh' (snd (sorted_run cmp cs ([], 0)))" by auto
  obtain root' h' where p: "rh' = (root', h')" by (cases rh')
  obtain xs L where x: "rb_tree cmp (root', h') xs" "map snd xs = fst (snd (sorted_run cmp cs ([], 0)))"
    "card L = snd (snd (sorted_run cmp cs ([], 0)))" "live h' = live h \<union> fst ` set xs \<union> L"
    "fst ` set xs \<inter> (live h \<union> L) = {}" "live h \<inter> L = {}"
    using r(2) p by (auto simp: rbt_state_def)
  have "length xs \<le> heap_size h'" using rb_treeE [OF x(1)] by metis
  then have "rbt_destroy (root', h') = Inr h'"
    using rb_min_max_ok(1) [OF x(1)] rb_foreach_from [of cmp root' h' "[]" xs] x(1)
    by (simp add: rbt_destroy_def del: rb_minmax.simps rb_foreach.simps)
  then show ?thesis using r(1) p x
    by (auto intro!: exI [of _ xs] exI [of _ L] simp: prod_eq_iff)
qed

theorem rb_tree_is_a_set_witness:
  "holds (rbt_run cmp_sock [R_insert 5, R_insert 3, R_insert 5, R_find 5, R_remove 5, R_find 5, R_isEmpty] (rbt_new, empty_heap 9))
    (\<lambda>(rs, rh'). rs = [(None, False), (None, False), (None, False), (Some 5, False), (Some 5, False), (None, False), (None, False)]
      \<and> (\<exists>p. rb_tree cmp_sock rh' [(p, 3)]))"
    (is "holds (rbt_run _ ?cs _) (\<lambda>(rs, rh'). rs = ?rs \<and> _)")
proof -
  have v: "sorted_run cmp_sock ?cs ([], 0) = (?rs, [3], 1)" by (simp add: sorted_cmd_def cmp_sock_def)
  have "length ?cs \<le> room (empty_heap 9)" by (simp add: empty_heap_def)
  from rb_tree_is_a_set [OF sock_laws this] show ?thesis unfolding v by (rule holds_mono) auto
qed

end
