(* ===== verification/TW_CircularThreads.thy ===== *)
theory TW_CircularThreads
  imports TW_Circular
begin

text \<open>
  Threads that share one tw_safeCircular (include/TW/tw_circular.h).

  Every method is one critical section under the mutex of the buffer's TW_SemaTwoWay, or two around a wait,
  so a step is one of them by one thread. A thread is outside the class, or asleep in \<open>add\<close> with its
  value or in \<open>removeOrBlock\<close>, or awake again and about to run the rest of its call. A condition variable may wake a thread
  for no reason, and a timed \<open>add\<close> when its time is over; when that happens before a signalled thread has run again, its wait
  returns \<^verbatim>\<open>ETIMEDOUT\<close> all the same. (The timed removers do not use their limit, lemma
  \<open>circ_usec_eq\<close>.) Removing leaves \<open>moved\<close> of the value in its slot; without moving that is \<open>id\<close>.

  \<open>cput\<close> and \<open>cgot\<close> record the values in the order in which they were queued and unqueued; no operation
  reads them.
\<close>

section \<open>The system and its steps\<close>

datatype 'a cthread = COut | AddSleeps bool 'a | AddWoken bool 'a | AddTimedOut 'a | RemSleeps | RemWoken

record 'a csys =
  cbuf :: "'a circ"
  cths :: "'a cthread list"
  cput :: "'a list"
  cgot :: "'a list"

definition csys_init :: "'a circ \<Rightarrow> nat \<Rightarrow> 'a csys" where
  "csys_init c k = \<lparr>cbuf = c, cths = replicate k COut, cput = [], cgot = []\<rparr>"

definition c_at :: "'a csys \<Rightarrow> nat \<Rightarrow> 'a cthread \<Rightarrow> bool" where
  "c_at s t c \<longleftrightarrow> t < length (cths s) \<and> cths s ! t = c"

fun wake_adder :: "'a cthread \<Rightarrow> 'a cthread option" where
  "wake_adder (AddSleeps b x) = Some (AddWoken b x)"
| "wake_adder _ = None"

fun wake_remover :: "'a cthread \<Rightarrow> 'a cthread option" where
  "wake_remover RemSleeps = Some RemWoken"
| "wake_remover _ = None"

fun wake_removers :: "'a cthread \<Rightarrow> 'a cthread" where
  "wake_removers RemSleeps = RemWoken"
| "wake_removers c = c"

definition c_add_enter :: "bool \<Rightarrow> 'a \<Rightarrow> 'a circ \<Rightarrow> (bool progress \<times> 'a circ) res" where
  "c_add_enter timed x c = (if timed then circ_add_timed_enter x c else circ_add_enter x c)"

definition c_add_resume :: "bool \<Rightarrow> 'a \<Rightarrow> 'a circ \<Rightarrow> (bool progress \<times> 'a circ) res" where
  "c_add_resume timed x c = (if timed then circ_add_timed_resume 0 x c else circ_add_resume 0 x c)"

text \<open>The threads waiting for an element and for a place.\<close>

abbreviation w_elem :: "'a csys \<Rightarrow> nat" where
  "w_elem s \<equiv> s2_dec (csema (cbuf s))"

abbreviation w_place :: "'a csys \<Rightarrow> nat" where
  "w_place s \<equiv> s2_gtz (csema (cbuf s))"

definition c_put :: "bool \<Rightarrow> 'a \<Rightarrow> 'a csys \<Rightarrow> 'a csys" where
  "c_put got x s = s\<lparr>cput := cput s @ (if got then [x] else [])\<rparr>"

definition c_got :: "'a option \<Rightarrow> 'a csys \<Rightarrow> 'a csys" where
  "c_got r s = s\<lparr>cgot := cgot s @ gots [r]\<rparr>"

definition c_now :: "'a circ \<Rightarrow> 'a cthread list \<Rightarrow> 'a csys \<Rightarrow> 'a csys" where
  "c_now c ts s = s\<lparr>cbuf := c, cths := ts\<rparr>"

text \<open>The flags say whether \<open>clear\<close> is called, and whether the time of a timed \<open>add\<close> can run out. What \<open>clear\<close> throws away counts
  as taken out.\<close>

inductive cstep :: "bool \<Rightarrow> bool \<Rightarrow> ('a \<Rightarrow> 'a) \<Rightarrow> 'a csys \<Rightarrow> 'a csys \<Rightarrow> bool" for clears limits moved where
  c_add: "c_at s t COut \<Longrightarrow> c_add_enter timed x (cbuf s) = Inr (Done b, c) \<Longrightarrow>
    signals (w_elem s) (s2_dec (csema c)) wake_remover (cths s) ts \<Longrightarrow>
    cstep clears limits moved s (c_put b x (c_now c ts s))"
| c_add_sleep: "c_at s t COut \<Longrightarrow> c_add_enter timed x (cbuf s) = Inr (Blocked, c) \<Longrightarrow>
    cstep clears limits moved s (c_now c ((cths s)[t := AddSleeps timed x]) s)"
| c_add_again: "c_at s t (AddWoken timed x) \<Longrightarrow> c_add_resume timed x (cbuf s) = Inr (Done b, c) \<Longrightarrow>
    signals (w_elem s) (s2_dec (csema c)) wake_remover ((cths s)[t := COut]) ts \<Longrightarrow>
    cstep clears limits moved s (c_put b x (c_now c ts s))"
| c_add_resleep: "c_at s t (AddWoken timed x) \<Longrightarrow> c_add_resume timed x (cbuf s) = Inr (Blocked, c) \<Longrightarrow>
    cstep clears limits moved s (c_now c ((cths s)[t := AddSleeps timed x]) s)"
| c_add_timeout: "c_at s t (AddTimedOut x) \<Longrightarrow> ret \<noteq> 0 \<Longrightarrow>
    circ_add_timed_resume ret x (cbuf s) = Inr (Done b, c) \<Longrightarrow>
    cstep clears limits moved s (c_put b x (c_now c ((cths s)[t := COut]) s))"
| c_addIfRoom: "c_at s t COut \<Longrightarrow> circ_addIfRoom x (cbuf s) = Inr (b, c) \<Longrightarrow>
    signals (w_elem s) (s2_dec (csema c)) wake_remover (cths s) ts \<Longrightarrow>
    cstep clears limits moved s (c_put b x (c_now c ts s))"
| c_remove: "c_at s t COut \<Longrightarrow> circ_removeMv moved (cbuf s) = Inr (r, c) \<Longrightarrow>
    signals (w_place s) (s2_gtz (csema c)) wake_adder (cths s) ts \<Longrightarrow>
    cstep clears limits moved s (c_got r (c_now c ts s))"
| c_removeOrBlock: "c_at s t COut \<Longrightarrow> circ_removeMvOrBlock_enter moved (cbuf s) = Inr (Done r, c) \<Longrightarrow>
    signals (w_place s) (s2_gtz (csema c)) wake_adder (cths s) ts \<Longrightarrow>
    cstep clears limits moved s (c_got r (c_now c ts s))"
| c_remove_sleep: "c_at s t COut \<Longrightarrow> circ_removeMvOrBlock_enter moved (cbuf s) = Inr (Blocked, c) \<Longrightarrow>
    cstep clears limits moved s (c_now c ((cths s)[t := RemSleeps]) s)"
| c_remove_again: "c_at s t RemWoken \<Longrightarrow> circ_removeMvOrBlock_resume moved 0 (cbuf s) = Inr (r, c) \<Longrightarrow>
    signals (w_place s) (s2_gtz (csema c)) wake_adder ((cths s)[t := COut]) ts \<Longrightarrow>
    cstep clears limits moved s (c_got r (c_now c ts s))"
| c_unblockRemovers: "c_at s t COut \<Longrightarrow> circ_unblockAllRemovers (cbuf s) = Inr c \<Longrightarrow>
    cstep clears limits moved s (c_now c (map wake_removers (cths s)) s)"
| c_clear: "clears \<Longrightarrow> c_at s t COut \<Longrightarrow> circ_clear dflt (cbuf s) = Inr c \<Longrightarrow>
    cstep clears limits moved s ((c_now c (cths s) s)\<lparr>cgot := cput s\<rparr>)"
| c_spurious_add: "c_at s t (AddSleeps timed x) \<Longrightarrow> cstep clears limits moved s
    (c_now ((cbuf s)\<lparr>csema := (csema (cbuf s))\<lparr>s2_gtz := w_place s - 1\<rparr>\<rparr>) ((cths s)[t := AddWoken timed x]) s)"
| c_spurious_remove: "c_at s t RemSleeps \<Longrightarrow> cstep clears limits moved s
    (c_now ((cbuf s)\<lparr>csema := (csema (cbuf s))\<lparr>s2_dec := w_elem s - 1\<rparr>\<rparr>) ((cths s)[t := RemWoken]) s)"
| c_time_over: "limits \<Longrightarrow> c_at s t (AddSleeps True x) \<Longrightarrow> cstep clears limits moved s
    (c_now ((cbuf s)\<lparr>csema := (csema (cbuf s))\<lparr>s2_gtz := w_place s - 1\<rparr>\<rparr>) ((cths s)[t := AddTimedOut x]) s)"
| c_late: "limits \<Longrightarrow> c_at s t (AddWoken True x) \<Longrightarrow>
    cstep clears limits moved s (c_now (cbuf s) ((cths s)[t := AddTimedOut x]) s)"

text \<open>The buffer is built with room for its \<open>sz\<close> elements.\<close>

inductive c_reachable :: "bool \<Rightarrow> bool \<Rightarrow> ('a \<Rightarrow> 'a) \<Rightarrow> int \<Rightarrow> nat \<Rightarrow> 'a csys \<Rightarrow> bool" for clears limits moved sz k where
  c_reach_init: "circ_new esz mem dflt sz initobj = Inr c \<Longrightarrow> int (length (slots c)) = sz \<Longrightarrow>
    c_reachable clears limits moved sz k (csys_init c k)"
| c_reach_step: "c_reachable clears limits moved sz k s \<Longrightarrow> cstep clears limits moved s s' \<Longrightarrow> c_reachable clears limits moved sz k s'"

section \<open>Counting threads\<close>

fun add_asleep :: "'a cthread \<Rightarrow> bool" where
  "add_asleep (AddSleeps b x) = True"
| "add_asleep _ = False"

fun add_coming :: "'a cthread \<Rightarrow> bool" where
  "add_coming (AddWoken b x) = True"
| "add_coming _ = False"

fun rem_asleep :: "'a cthread \<Rightarrow> bool" where
  "rem_asleep RemSleeps = True"
| "rem_asleep _ = False"

fun rem_coming :: "'a cthread \<Rightarrow> bool" where
  "rem_coming RemWoken = True"
| "rem_coming _ = False"

lemma wake_adder_Some: "wake_adder c = Some d \<longleftrightarrow> (\<exists>b x. c = AddSleeps b x \<and> d = AddWoken b x)"
  by (cases c) auto

lemma wake_remover_Some: "wake_remover c = Some d \<longleftrightarrow> c = RemSleeps \<and> d = RemWoken"
  by (cases c) auto

lemma asleep_iff:
  "add_asleep c \<longleftrightarrow> (\<exists>b x. c = AddSleeps b x)" "rem_asleep c \<longleftrightarrow> c = RemSleeps"
  by (cases c; simp)+

lemma signal_adder:
  assumes "signals n (n - 1) wake_adder ts ts'" and "n = count_at add_asleep ts"
  shows "count_at add_asleep ts' = n - 1" and "count_at add_coming ts' = count_at add_coming ts + (if n = 0 then 0 else 1)"
    and "count_at rem_asleep ts' = count_at rem_asleep ts" and "count_at rem_coming ts' = count_at rem_coming ts"
  using assms by (auto elim!: signalsE simp: wake_adder_Some count_at_updates)

lemma signal_remover:
  assumes "signals n (n - 1) wake_remover ts ts'" and "n = count_at rem_asleep ts"
  shows "count_at rem_asleep ts' = n - 1" and "count_at rem_coming ts' = count_at rem_coming ts + (if n = 0 then 0 else 1)"
    and "count_at add_asleep ts' = count_at add_asleep ts" and "count_at add_coming ts' = count_at add_coming ts"
  using assms by (auto elim!: signalsE simp: wake_remover_Some count_at_updates)

lemma c_fields [simp]:
  "cbuf (c_put b x s) = cbuf s" "cths (c_put b x s) = cths s" "cgot (c_put b x s) = cgot s"
  "cput (c_put b x s) = cput s @ (if b then [x] else [])"
  "cbuf (c_got r s) = cbuf s" "cths (c_got r s) = cths s" "cput (c_got r s) = cput s" "cgot (c_got r s) = cgot s @ gots [r]"
  "cbuf (c_now c ts s) = c" "cths (c_now c ts s) = ts" "cput (c_now c ts s) = cput s" "cgot (c_now c ts s) = cgot s"
  by (simp_all add: c_put_def c_got_def c_now_def)

section \<open>Each critical section\<close>

lemma store_sema: "store i v c = Inr c' \<Longrightarrow> csema c' = csema c"
  by (auto simp: store_def split: if_splits)

lemma put_next_sema: "put_next x c = Inr c' \<Longrightarrow> csema c' = csema c"
  by (auto simp: put_next_def Let_def dest!: store_sema)

lemma unlock_sema: "circ_unlock c = Inr c' \<Longrightarrow> csema c' = (csema c)\<lparr>s2_mtx := False\<rparr>"
  by (cases "s2_mtx (csema c)") (auto simp: circ_unlock_def)

lemma reset_ends_sema [simp]: "csema (reset_ends c) = csema c"
  by (simp add: reset_ends_def)

lemma release_mtx: "snd (sema2_releaseWithoutLock (s\<lparr>s2_mtx := b\<rparr>)) = (snd (sema2_releaseWithoutLock s))\<lparr>s2_mtx := b\<rparr>"
  by (cases s) (simp add: sema2_releaseWithoutLock_def signal_gtz_def Let_def)

lemma take_next_sema:
  "take_next leave r c = Inr (v, c') \<Longrightarrow> csema c' = snd (sema2_releaseWithoutLock (csema c))"
  by (auto simp: take_next_def Let_def bindE_eq_Inr dest!: store_sema)

lemma take_after_wait_sema:
  "take_after_wait leave c = Inr (v, c') \<Longrightarrow> csema c' = snd (sema2_releaseWithoutLock (csema c))"
  by (auto simp: take_after_wait_def Let_def bindE_eq_Inr dest!: store_sema)

lemma add_step:
  assumes r: "circ_rep c xs" and e: "c_add_enter timed x c = Inr (p, c')"
  shows "if int (length xs) < c_size c
    then p = Done True \<and> circ_rep c' (xs @ [x]) \<and> c_size c' = c_size c \<and> csema c' = take_unit (csema c)
    else p = Blocked \<and> c' = c\<lparr>csema := (csema c)\<lparr>s2_gtz := Suc (s2_gtz (csema c))\<rparr>\<rparr>"
proof -
  from r have m: "\<not> s2_mtx (csema c)" "int (length xs) \<le> c_size c" by (simp_all add: circ_rep_def circ_core_def)
  have e: "circ_add_enter x c = Inr (p, c')"
    using e m(1) by (simp add: c_add_enter_def circ_add_timed_eq split: if_splits)
  show ?thesis
  proof (cases "int (length xs) < c_size c")
    case True
    with circ_add_rep [OF r True, of x] e have p: "p = Done True" "circ_rep c' (xs @ [x])" "c_size c' = c_size c"
      by (auto simp: same_circ_def)
    have "1 \<le> s2_cnt (csema c)" using r True by (simp add: circ_rep_def circ_core_def)
    then have "csema c' = take_unit (csema c)"
      using e m(1) by (auto simp: circ_add_enter_def circ_add_tail_def keep_enter_eq bindE_eq_Inr
          dest!: put_next_sema unlock_sema)
    with p True show ?thesis by simp
  next
    case False
    with circ_add_full [OF r, of x] e m(2) show ?thesis by auto
  qed
qed

lemma add_resume_enter: "\<not> s2_mtx (csema c) \<Longrightarrow> c_add_resume timed x c = c_add_enter timed x c"
  by (simp add: c_add_resume_def c_add_enter_def circ_add_resume_eq circ_add_timed_resume_def circ_add_timed_enter_def
      keep_timed_eq keep_resume_eq)

lemma add_timeout_step:
  assumes "circ_rep c xs" and "ret \<noteq> 0" and "circ_add_timed_resume ret x c = Inr (p, c')"
  shows "p = Done False \<and> c' = c"
  using assms by (auto simp: circ_add_timed_resume_def sema2_acquireAndKeepLock_timed_resume_def circ_add_timed_tail_def
      circ_rep_def)

lemma addIfRoom_step:
  assumes r: "circ_rep c xs" and e: "circ_addIfRoom x c = Inr (b, c')"
  shows "if b then int (length xs) < c_size c \<and> circ_rep c' (xs @ [x]) \<and> c_size c' = c_size c \<and> csema c' = take_unit (csema c)
    else c' = c"
proof -
  from r have m: "\<not> s2_mtx (csema c)" by (simp add: circ_rep_def)
  from circ_addIfRoom_rep [OF r, of x] e have b: "b \<longleftrightarrow> int (length xs) < c_size c"
    "circ_rep c' (if b then xs @ [x] else xs)" "c_size c' = c_size c" by (auto simp: same_circ_def)
  have "1 \<le> s2_cnt (csema c) \<longleftrightarrow> int (length xs) < c_size c" using r by (auto simp: circ_rep_def circ_core_def)
  then have "csema c' = (if b then take_unit (csema c) else csema c) \<and> (\<not> b \<longrightarrow> c' = c)"
    using e m b(1) by (auto simp: circ_addIfRoom_def keep_noblock_eq bindE_eq_Inr Let_def
        dest!: put_next_sema unlock_sema)
  with b show ?thesis by auto
qed

text \<open>Removing takes the first element and gives its place back, or finds none.\<close>

definition taken :: "'a circ \<Rightarrow> 'a list \<Rightarrow> 'a option \<Rightarrow> 'a circ \<Rightarrow> bool" where
  "taken c xs r c' \<longleftrightarrow> (case xs of [] \<Rightarrow> r = None \<and> c' = c
     | x # ys \<Rightarrow> r = Some x \<and> circ_rep c' ys \<and> c_size c' = c_size c \<and> csema c' = snd (sema2_releaseWithoutLock (csema c)))"

lemma remove_step:
  assumes r: "circ_rep c xs" and e: "circ_removeMv moved c = Inr (v, c')"
  shows "taken c xs v c'"
proof (cases xs)
  case Nil
  with circ_removeMv_Nil [of c moved] r e show ?thesis by (simp add: taken_def)
next
  case (Cons x ys)
  have "\<not> s2_mtx (csema c)" "circ_remain c = int (length xs)" using r circ_remain_eq [of c xs] by (simp_all add: circ_rep_def)
  then have "csema c' = snd (sema2_releaseWithoutLock (csema c))" using e Cons
    by (auto simp: circ_removeMv_def bindE_eq_Inr Let_def circ_remain_def sema2_countNoBlock_def release_mtx
        dest!: take_next_sema unlock_sema split: if_splits)
  with circ_removeMv_rep [of c x ys moved] r e Cons show ?thesis by (auto simp: taken_def same_circ_def)
qed

lemma remove_enter_step:
  assumes r: "circ_rep c xs" and e: "circ_removeMvOrBlock_enter moved c = Inr (p, c')"
  shows "if xs = [] then p = Blocked \<and> c' = c\<lparr>csema := (csema c)\<lparr>s2_dec := Suc (s2_dec (csema c))\<rparr>\<rparr>
    else p = Done (Some (hd xs)) \<and> taken c xs (Some (hd xs)) c'"
proof (cases xs)
  case Nil
  with removeMvOrBlock_enter_Nil [of c moved] r e show ?thesis by simp
next
  case (Cons x ys)
  have "\<not> s2_mtx (csema c)" "circ_remain c = int (length xs)" using r circ_remain_eq [of c xs] by (simp_all add: circ_rep_def)
  then have "csema c' = snd (sema2_releaseWithoutLock (csema c))" using e Cons
    by (auto simp: circ_removeMvOrBlock_enter_def bindE_eq_Inr Let_def circ_remain_def sema2_countNoBlock_def release_mtx
        dest!: take_next_sema unlock_sema split: if_splits)
  with removeMvOrBlock_enter_Cons [of c x ys moved] r e Cons show ?thesis by (auto simp: taken_def same_circ_def)
qed

lemma remove_resume_step:
  assumes r: "circ_rep c xs" and e: "circ_removeMvOrBlock_resume moved 0 c = Inr (v, c')"
  shows "taken c xs v c'"
proof (cases xs)
  case Nil
  with removeMvOrBlock_resume_rep [OF r, of moved 0] e show ?thesis by (simp add: taken_def)
next
  case (Cons x ys)
  have m: "\<not> s2_mtx (csema c)" "\<not> s2_size (csema c) \<le> s2_cnt (csema c)" using r Cons by (simp_all add: circ_rep_def circ_core_def)
  then have "csema c' = snd (sema2_releaseWithoutLock (csema c))" using e
    by (auto simp: circ_removeMvOrBlock_resume_def sema2_waitForAcquirersKeepLock_resume_def bindE_eq_Inr Let_def release_mtx
        dest!: take_after_wait_sema unlock_sema)
  with removeMvOrBlock_resume_rep [OF r, of moved 0] e Cons show ?thesis by (auto simp: taken_def same_circ_def)
qed

lemma clear_step:
  assumes r: "circ_rep c xs" and e: "circ_clear dflt c = Inr c'"
  shows "circ_rep c' [] \<and> c_size c' = c_size c \<and> s2_gtz (csema c') = s2_gtz (csema c) \<and> s2_dec (csema c') = s2_dec (csema c)"
proof -
  have "\<not> s2_mtx (csema c)" using r by (simp add: circ_rep_def)
  then have "s2_gtz (csema c') = s2_gtz (csema c) \<and> s2_dec (csema c') = s2_dec (csema c)"
    using e by (cases "isObjects c") (auto simp: circ_clear_def Let_def sema2_resetNoLock_def)
  then show ?thesis using circ_clear_rep [OF r, of dflt] e by (auto simp: same_circ_def)
qed

lemma unblock_removers_step:
  assumes "circ_rep c xs" and "circ_unblockAllRemovers c = Inr c'"
  shows "c' = c\<lparr>csema := (csema c)\<lparr>s2_dec := 0\<rparr>\<rparr>"
  using assms by (auto simp: circ_unblockAllRemovers_def sema2_releaseAllAcquireLocks_def broadcast_dec_def circ_rep_def)

section \<open>The invariant\<close>

definition c_inv :: "int \<Rightarrow> 'a csys \<Rightarrow> bool" where
  "c_inv sz s \<longleftrightarrow> (\<exists>xs. circ_rep (cbuf s) xs \<and> cput s = cgot s @ xs) \<and> c_size (cbuf s) = sz
     \<and> w_place s = count_at add_asleep (cths s) \<and> w_elem s = count_at rem_asleep (cths s)"


text \<open>A critical section that queues or unqueues, whatever the thread that ran it did before.\<close>

lemma put_inv:
  assumes i: "circ_rep (cbuf s) xs" "cput s = cgot s @ xs" "c_size (cbuf s) = sz"
    and w: "w_place s = count_at add_asleep ts0" "w_elem s = count_at rem_asleep ts0"
    and c: "circ_rep c (xs @ [x])" "c_size c = c_size (cbuf s)" "csema c = take_unit (csema (cbuf s))"
    and g: "signals (w_elem s) (s2_dec (csema c)) wake_remover ts0 ts"
  shows "c_inv sz (c_put True x (c_now c ts s))"
proof -
  have "circ_rep c (xs @ [x]) \<and> cput (c_put True x (c_now c ts s)) = cgot (c_put True x (c_now c ts s)) @ xs @ [x]"
    using c(1) i(2) by simp
  then show ?thesis using i(3) c(2,3) w signal_remover [OF g [unfolded c(3) take_unit_simps] w(2)] unfolding c_inv_def by simp
qed


lemma takenD:
  assumes "circ_rep c xs" and "taken c (x # ys) r c'"
  shows "gots [r] = [x]" "circ_rep c' ys" "c_size c' = c_size c" "s2_cnt (csema c') = s2_cnt (csema c) + 1"
    "s2_gtz (csema c') = s2_gtz (csema c) - 1" "s2_dec (csema c') = s2_dec (csema c)"
proof -
  have "0 \<le> s2_cnt (csema c)" using assms(1) by (simp add: circ_rep_def circ_core_def)
  then show "s2_gtz (csema c') = s2_gtz (csema c) - 1" "s2_dec (csema c') = s2_dec (csema c)"
    using assms(2) by (simp_all add: taken_def sema2_releaseWithoutLock_def signal_gtz_def Let_def)
qed (use assms(2) in \<open>simp_all add: taken_def\<close>)

lemma take_inv:
  assumes i: "circ_rep (cbuf s) xs" "cput s = cgot s @ xs" "c_size (cbuf s) = sz"
    and w: "w_place s = count_at add_asleep ts0" "w_elem s = count_at rem_asleep ts0"
    and c: "taken (cbuf s) xs r c"
    and g: "signals (w_place s) (s2_gtz (csema c)) wake_adder ts0 ts"
  shows "c_inv sz (c_got r (c_now c ts s))"
proof (cases xs)
  case Nil
  then show ?thesis using i w c g by (auto simp: c_inv_def taken_def gots_def)
next
  case (Cons x ys)
  note t = takenD [OF i(1) c [unfolded Cons]]
  have "circ_rep c ys \<and> cput s = (cgot s @ gots [r]) @ ys" using t(1,2) i(2) Cons by simp
  then show ?thesis using i(3) t(3,5,6) w signal_adder [OF g [unfolded t(5)] w(1)] unfolding c_inv_def by auto
qed


lemma c_invE:
  assumes "c_inv sz s"
  obtains xs where "circ_rep (cbuf s) xs" "cput s = cgot s @ xs" "c_size (cbuf s) = sz"
    "w_place s = count_at add_asleep (cths s)" "w_elem s = count_at rem_asleep (cths s)" "\<not> s2_mtx (csema (cbuf s))"
    "s2_cnt (csema (cbuf s)) = sz - int (length xs)" "int (length xs) \<le> sz"
  using assms by (auto simp: c_inv_def circ_rep_def circ_core_def)

lemma sleep_inv:
  assumes "circ_rep (cbuf s) xs" "cput s = cgot s @ xs" "c_size (cbuf s) = sz"
    "s2_cnt m = s2_cnt (csema (cbuf s))" "s2_size m = s2_size (csema (cbuf s))" "\<not> s2_mtx m"
    "s2_gtz m = count_at add_asleep ts" "s2_dec m = count_at rem_asleep ts"
  shows "c_inv sz (c_now ((cbuf s)\<lparr>csema := m\<rparr>) ts s)"
  using assms by (auto simp: c_inv_def circ_rep_def circ_core_sema)

text \<open>A thread that is outside, or awake and back outside, counts as nothing.\<close>

lemma back_out:
  assumes "t < length ts"
  shows "ts ! t = AddWoken b x \<Longrightarrow> count_at add_asleep (ts[t := COut]) = count_at add_asleep ts \<and>
      count_at rem_asleep (ts[t := COut]) = count_at rem_asleep ts \<and>
      count_at rem_coming (ts[t := COut]) = count_at rem_coming ts \<and>
      Suc (count_at add_coming (ts[t := COut])) = count_at add_coming ts"
    and "ts ! t = RemWoken \<Longrightarrow> count_at add_asleep (ts[t := COut]) = count_at add_asleep ts \<and>
      count_at rem_asleep (ts[t := COut]) = count_at rem_asleep ts \<and>
      count_at add_coming (ts[t := COut]) = count_at add_coming ts \<and>
      Suc (count_at rem_coming (ts[t := COut])) = count_at rem_coming ts"
  using assms count_at_pos [of t ts add_coming] count_at_pos [of t ts rem_coming] by (auto simp: count_at_updates)

lemma count_wake_removers:
  "count_at rem_asleep (map wake_removers ts) = 0" "count_at add_asleep (map wake_removers ts) = count_at add_asleep ts"
  "count_at add_coming (map wake_removers ts) = count_at add_coming ts"
proof -
  have n: "\<not> rem_asleep (wake_removers c)" "add_asleep (wake_removers c) = add_asleep c"
    "add_coming (wake_removers c) = add_coming c" for c :: "'a cthread" by (cases c; simp)+
  show "count_at rem_asleep (map wake_removers ts) = 0" by (rule count_at_map_zero) (rule n)
  show "count_at add_asleep (map wake_removers ts) = count_at add_asleep ts"
    "count_at add_coming (map wake_removers ts) = count_at add_coming ts" by (simp_all add: count_at_def filter_map comp_def n)
qed

lemma c_inv_step:
  assumes "cstep clears limits moved s s'" and inv: "c_inv sz s"
  shows "c_inv sz s'"
proof -
  from inv obtain xs where i: "circ_rep (cbuf s) xs" "cput s = cgot s @ xs" "c_size (cbuf s) = sz"
    and w: "w_place s = count_at add_asleep (cths s)" "w_elem s = count_at rem_asleep (cths s)"
    and m: "\<not> s2_mtx (csema (cbuf s))" by (rule c_invE)
  note upd = sleep_inv [OF i] c_at_def count_at_updates m w
  show ?thesis
    using assms(1)
  proof cases
    case (c_add t timed x b c ts)
    with add_step [OF i(1) c_add(3)] put_inv [OF i w] show ?thesis by (auto split: if_splits)
  next
    case (c_add_sleep t timed x c)
    with add_step [OF i(1) c_add_sleep(3)] show ?thesis by (auto simp: upd split: if_splits)
  next
    case (c_add_again t timed x b c ts)
    note o = back_out(1) [of t "cths s" timed x]
    have "w_place s = count_at add_asleep ((cths s)[t := COut])" "w_elem s = count_at rem_asleep ((cths s)[t := COut])"
      using c_add_again(2) o w by (simp_all add: c_at_def)
    with add_step [OF i(1) c_add_again(3) [unfolded add_resume_enter [OF m]]] put_inv [OF i] c_add_again(1,4)
    show ?thesis by (auto split: if_splits)
  next
    case (c_add_resleep t timed x c)
    with add_step [OF i(1) c_add_resleep(3) [unfolded add_resume_enter [OF m]]] show ?thesis
      by (auto simp: upd split: if_splits)
  next
    case (c_add_timeout t x ret b c)
    with add_timeout_step [OF i(1) c_add_timeout(3,4)] i w show ?thesis
      by (auto simp: c_inv_def c_at_def count_at_updates)
  next
    case (c_addIfRoom t x b c ts)
    with addIfRoom_step [OF i(1) c_addIfRoom(3)] put_inv [OF i w] inv show ?thesis
      by (cases b) (auto simp: c_inv_def)
  next
    case (c_remove t r c ts)
    with take_inv [OF i w remove_step [OF i(1) c_remove(3)] c_remove(4)] show ?thesis by simp
  next
    case (c_removeOrBlock t r c ts)
    with take_inv [OF i w _ c_removeOrBlock(4)] remove_enter_step [OF i(1) c_removeOrBlock(3)]
    show ?thesis by (auto split: if_splits)
  next
    case (c_remove_sleep t c)
    with remove_enter_step [OF i(1) c_remove_sleep(3)] show ?thesis by (auto simp: upd split: if_splits)
  next
    case (c_remove_again t r c ts)
    note o = back_out(2) [of t "cths s"]
    have "w_place s = count_at add_asleep ((cths s)[t := COut])" "w_elem s = count_at rem_asleep ((cths s)[t := COut])"
      using c_remove_again(2) o w by (simp_all add: c_at_def)
    with take_inv [OF i _ _ remove_resume_step [OF i(1) c_remove_again(3)] c_remove_again(4)] c_remove_again(1)
    show ?thesis by simp
  next
    case (c_unblockRemovers t c)
    with unblock_removers_step [OF i(1) c_unblockRemovers(3)] show ?thesis
      by (auto simp: upd count_wake_removers)
  next
    case (c_clear t dflt c)
    with clear_step [OF i(1) c_clear(4)] i w show ?thesis by (auto simp: c_inv_def)
  next
    case (c_spurious_add t timed x)
    then show ?thesis by (auto simp: upd)
  next
    case (c_spurious_remove t)
    then show ?thesis by (auto simp: upd)
  next
    case (c_time_over t x)
    then show ?thesis by (auto simp: upd)
  next
    case (c_late t x)
    then show ?thesis using i w by (auto simp: c_inv_def c_at_def count_at_updates)
  qed
qed

lemma c_reachable_inv: "c_reachable clears limits moved sz k s \<Longrightarrow> 0 < sz \<Longrightarrow> c_inv sz s"
proof (induction rule: c_reachable.induct)
  case (c_reach_init esz mem dflt initobj c)
  from circ_new_rep [OF c_reach_init] show ?case by (auto simp: c_inv_def csys_init_def count_at_def)
next
  case (c_reach_step s s')
  then show ?case using c_inv_step by blast
qed



section \<open>Properties\<close>

text \<open>C15. Threads that share a tw_safeCircular, built with room for its elements, see one bounded queue: in every reachable state the values taken out so far
  are, in the same order, the first ones of those put in, the slots from \<open>nextOut\<close> on hold the rest, which is
  never more than the size of the buffer, and the mutex is free. It does not matter that adders and removers overtake the
  threads that were woken, that waits time out, or that a condition variable wakes a thread for no reason.\<close>
theorem threads_share_one_circular:
  assumes "c_reachable clears limits moved sz k s" and "0 < sz"
  shows "\<exists>xs. circ_rep (cbuf s) xs \<and> cput s = cgot s @ xs \<and> int (length xs) \<le> sz \<and> c_size (cbuf s) = sz
    \<and> circ_remain (cbuf s) = int (length xs)"
proof -
  from c_reachable_inv [OF assms] obtain xs where "circ_rep (cbuf s) xs" "cput s = cgot s @ xs" "c_size (cbuf s) = sz"
    "int (length xs) \<le> sz" by (rule c_invE)
  then show ?thesis using circ_remain_eq [of "cbuf s" xs] by (auto simp: circ_rep_def)
qed


section \<open>Executions\<close>

text \<open>A buffer with one place: thread 0 adds 5 and then sleeps in \<open>add\<close> with 6.\<close>

definition ex_start :: "int circ" where
  "ex_start = \<lparr>isObjects = True, c_reverse = False,
     csema = \<lparr>s2_cnt = 1, s2_size = 1, s2_mtx = False, s2_gtz = 0, s2_dec = 0\<rparr>,
     c_enabled = True, nextIn = - 1, nextOut = 0, c_size = 1, slots = [Some 0]\<rparr>"

definition ex_full :: "nat \<Rightarrow> int circ" where
  "ex_full n = \<lparr>isObjects = True, c_reverse = False,
     csema = \<lparr>s2_cnt = 0, s2_size = 1, s2_mtx = False, s2_gtz = n, s2_dec = 0\<rparr>,
     c_enabled = True, nextIn = 0, nextOut = 0, c_size = 1, slots = [Some 5]\<rparr>"

definition ex_taken :: "int circ" where
  "ex_taken = \<lparr>isObjects = True, c_reverse = False,
     csema = \<lparr>s2_cnt = 1, s2_size = 1, s2_mtx = False, s2_gtz = 1, s2_dec = 0\<rparr>,
     c_enabled = True, nextIn = - 1, nextOut = 0, c_size = 1, slots = [Some 5]\<rparr>"

definition ex_cleared :: "nat \<Rightarrow> int circ" where
  "ex_cleared n = \<lparr>isObjects = True, c_reverse = False,
     csema = \<lparr>s2_cnt = 1, s2_size = 1, s2_mtx = False, s2_gtz = 1, s2_dec = n\<rparr>,
     c_enabled = True, nextIn = - 1, nextOut = 0, c_size = 1, slots = [Some 0]\<rparr>"

lemma ex_circ_runs:
  "circ_add_enter 5 ex_start = Inr (Done True, ex_full 0)"
  "circ_add_timed_enter 6 (ex_full 0) = Inr (Blocked, ex_full 1)"
  "circ_add_enter 6 (ex_full 0) = Inr (Blocked, ex_full 1)"
  "circ_add_enter 7 (ex_full 1) = Inr (Blocked, ex_full 2)"
  "circ_clear 0 (ex_full 1) = Inr (ex_cleared 0)"
  "circ_removeMvOrBlock_enter id (ex_cleared 0) = Inr (Blocked, ex_cleared 1)"
  "circ_removeMv id (ex_full 2) = Inr (Some 5, ex_taken)"
  "circ_add_timed_resume 110 6 ex_taken = Inr (Done False, ex_taken)"
  by code_simp+

definition ex_sys :: "int circ \<Rightarrow> int cthread list \<Rightarrow> int list \<Rightarrow> int list \<Rightarrow> int csys" where
  "ex_sys c ts ps gs = \<lparr>cbuf = c, cths = ts, cput = ps, cgot = gs\<rparr>"

lemma ex_sys_start: "c_reachable clears limits id 1 k (ex_sys ex_start (replicate k COut) [] [])"
proof -
  have "circ_new 4 True 0 1 True = Inr ex_start"
    by (simp add: circ_new_fits ex_start_def sema2_new_def)
  from c_reach_init [OF this] show ?thesis by (simp add: csys_init_def ex_sys_def ex_start_def)
qed

lemma ex_sys_filled:
  assumes "0 < k"
  shows "c_reachable clears limits id 1 k (ex_sys (ex_full 0) (replicate k COut) [5] [])"
proof -
  let ?s = "ex_sys ex_start (replicate k COut) [] []"
  have "cstep clears limits id ?s (c_put True 5 (c_now (ex_full 0) (replicate k COut) ?s))"
  proof (rule c_add [where t = 0 and timed = False])
    show "c_add_enter False 5 (cbuf ?s) = Inr (Done True, ex_full 0)"
      by (simp add: ex_sys_def c_add_enter_def ex_circ_runs)
  qed (use assms in \<open>simp_all add: c_at_def ex_sys_def ex_start_def ex_full_def\<close>)
  from c_reach_step [OF ex_sys_start this] show ?thesis by (simp add: c_put_def c_now_def ex_sys_def)
qed

lemma ex_sys_full: "c_reachable clears limits id 1 2 (ex_sys (ex_full 1) [AddSleeps False 6, COut] [5] [])"
proof -
  let ?s = "ex_sys (ex_full 0) [COut, COut] [5] []"
  have 1: "c_reachable clears limits id 1 2 ?s" using ex_sys_filled [of 2 clears limits] by (simp add: numeral_2_eq_2)
  have "cstep clears limits id ?s (c_now (ex_full 1) ([COut, COut][0 := AddSleeps False 6]) ?s)"
    using c_add_sleep [of ?s 0 False 6 "ex_full 1" clears limits id]
    by (simp add: c_at_def ex_sys_def c_add_enter_def ex_circ_runs)
  from c_reach_step [OF 1 this] show ?thesis by (simp add: c_now_def ex_sys_def)
qed

theorem threads_share_one_circular_witness:
  "\<exists>xs. circ_rep (ex_full 1) xs \<and> [5] = xs \<and> circ_remain (ex_full 1) = 1"
  using threads_share_one_circular [OF ex_sys_full [of False False]] by (auto simp: ex_sys_def)


text \<open>\<open>clear\<close> wakes no adder: an adder that sleeps at a full buffer goes on sleeping when the buffer is emptied by \<open>clear\<close>,
  and a remover that comes then waits for an element: all threads sleep, at an empty buffer, and no thread is on its way.\<close>
theorem circ_clear_deadlocks:
  "\<exists>s :: int csys. c_reachable True False id 1 2 s \<and> cths s = [AddSleeps False 6, RemSleeps] \<and> circ_remain (cbuf s) = 0"
proof -
  let ?s = "ex_sys (ex_full 1) [AddSleeps False 6, COut] [5] []"
  have "cstep True False id ?s ((c_now (ex_cleared 0) (cths ?s) ?s)\<lparr>cgot := cput ?s\<rparr>)"
    by (rule c_clear [where t = 1 and dflt = 0]) (simp_all add: c_at_def ex_sys_def ex_circ_runs del: One_nat_def)
  from c_reach_step [OF ex_sys_full this]
  have 1: "c_reachable True False id 1 2 (ex_sys (ex_cleared 0) [AddSleeps False 6, COut] [5] [5])"
    by (simp add: c_now_def ex_sys_def)
  let ?s = "ex_sys (ex_cleared 0) [AddSleeps False 6, COut] [5] [5]"
  have "cstep True False id ?s (c_now (ex_cleared 1) ((cths ?s)[1 := RemSleeps]) ?s)"
    by (rule c_remove_sleep) (simp_all add: c_at_def ex_sys_def ex_circ_runs)
  from c_reach_step [OF 1 this] show ?thesis
    by (intro exI [of _ "c_now (ex_cleared 1) ((cths ?s)[1 := RemSleeps]) ?s"])
      (simp add: c_now_def ex_sys_def ex_cleared_def circ_remain_def sema2_countNoBlock_def)
qed

text \<open>A timed \<open>add\<close> loses the wake-up of another: the place that \<open>remove\<close> frees is signalled to a timed \<open>add\<close> whose time is over before it
  runs again. It returns false without a look at the counter, and the other adder goes on sleeping beside an empty
  buffer, with no thread on its way.\<close>
theorem circ_timed_add_loses_a_wakeup:
  "\<exists>s :: int csys. c_reachable False True id 1 3 s \<and> cths s = [COut, AddSleeps False 7, COut] \<and> circ_remain (cbuf s) = 0"
proof -
  let ?s = "ex_sys (ex_full 0) [COut, COut, COut] [5] []"
  have 1: "c_reachable False True id 1 3 ?s" using ex_sys_filled [of 3 False True] by (simp add: numeral_3_eq_3)
  have "cstep False True id ?s (c_now (ex_full 1) ((cths ?s)[0 := AddSleeps True 6]) ?s)"
    by (rule c_add_sleep) (simp_all add: c_at_def ex_sys_def c_add_enter_def ex_circ_runs)
  from c_reach_step [OF 1 this] have 2: "c_reachable False True id 1 3 (ex_sys (ex_full 1) [AddSleeps True 6, COut, COut] [5] [])"
    by (simp add: c_now_def ex_sys_def)
  let ?s = "ex_sys (ex_full 1) [AddSleeps True 6, COut, COut] [5] []"
  have "cstep False True id ?s (c_now (ex_full 2) ((cths ?s)[1 := AddSleeps False 7]) ?s)"
    by (rule c_add_sleep) (simp_all add: c_at_def ex_sys_def c_add_enter_def ex_circ_runs del: One_nat_def)
  from c_reach_step [OF 2 this]
  have 3: "c_reachable False True id 1 3 (ex_sys (ex_full 2) [AddSleeps True 6, AddSleeps False 7, COut] [5] [])"
    by (simp add: c_now_def ex_sys_def)
  let ?s = "ex_sys (ex_full 2) [AddSleeps True 6, AddSleeps False 7, COut] [5] []"
  have "signals (Suc 1) 1 wake_adder (cths ?s) ((cths ?s)[0 := AddWoken True 6])"
    by (rule signals_one) (simp_all add: ex_sys_def)
  then have "cstep False True id ?s (c_got (Some 5) (c_now ex_taken ((cths ?s)[0 := AddWoken True 6]) ?s))"
    by (intro c_remove [where t = 2]) (simp_all add: c_at_def ex_sys_def ex_circ_runs, simp add: ex_full_def ex_taken_def numeral_2_eq_2)
  from c_reach_step [OF 3 this]
  have 4: "c_reachable False True id 1 3 (ex_sys ex_taken [AddWoken True 6, AddSleeps False 7, COut] [5] [5])"
    by (simp add: c_now_def c_got_def ex_sys_def)
  let ?s = "ex_sys ex_taken [AddWoken True 6, AddSleeps False 7, COut] [5] [5]"
  have "cstep False True id ?s (c_now (cbuf ?s) ((cths ?s)[0 := AddTimedOut 6]) ?s)"
    by (rule c_late) (simp_all add: c_at_def ex_sys_def)
  from c_reach_step [OF 4 this]
  have 5: "c_reachable False True id 1 3 (ex_sys ex_taken [AddTimedOut 6, AddSleeps False 7, COut] [5] [5])"
    by (simp add: c_now_def ex_sys_def)
  let ?s = "ex_sys ex_taken [AddTimedOut 6, AddSleeps False 7, COut] [5] [5]"
  have "cstep False True id ?s (c_put False 6 (c_now ex_taken ((cths ?s)[0 := COut]) ?s))"
    by (rule c_add_timeout [where ret = 110]) (simp_all add: c_at_def ex_sys_def ex_circ_runs)
  from c_reach_step [OF 5 this] show ?thesis
    by (intro exI [of _ "c_put False 6 (c_now ex_taken ((cths ?s)[0 := COut]) ?s)"])
      (simp add: c_now_def c_put_def ex_sys_def ex_taken_def circ_remain_def sema2_countNoBlock_def)
qed

end
