(* ===== verification/TW_BndFifoThreads.thy ===== *)
theory TW_BndFifoThreads
  imports TW_BndFifo TW_SafeFifoThreads
begin

text \<open>
  Threads that share one tw_bndSafeFIFO (include/TW/tw_fifo.h).

  The methods of the class are calls of its TW_Sema and its tw_safeFIFO one after the other, without a lock around both, so
  a step is one critical section of either, or the read or the write of the decrement that \<open>acquire\<close> does after it gave
  the mutex up. On its way through \<open>add\<close> a thread sleeps in \<open>acquire\<close>, is awake again, has passed the wait, has read the
  counter, has the unit, and has hooked its link in;
  on its way through a remover it sleeps in \<open>removeOrBlock\<close>, is awake again, and has to give the place back.
\<close>

section \<open>The system and its steps\<close>

datatype 'a bthread = BOut | BSleeps 'a | BWoken 'a | BPassed 'a | BLoaded 'a int | BHolds 'a | BSignals | BRemSleeps | BRemWoken | BGives

record 'a bsys =
  bq :: bnd
  bhp :: "'a link heap"
  bths :: "'a bthread list"
  bput :: "'a list"
  bgot :: "'a list"

definition bsys_init :: "int \<Rightarrow> nat \<Rightarrow> nat \<Rightarrow> 'a bsys" where
  "bsys_init maxsize n k = \<lparr>bq = bnd_new maxsize, bhp = empty_heap n, bths = replicate k BOut, bput = [], bgot = []\<rparr>"

definition b_at :: "'a bsys \<Rightarrow> nat \<Rightarrow> 'a bthread \<Rightarrow> bool" where
  "b_at s t c \<longleftrightarrow> t < length (bths s) \<and> bths s ! t = c"

definition b_now :: "bnd \<Rightarrow> 'a link heap \<Rightarrow> 'a bthread list \<Rightarrow> 'a bsys \<Rightarrow> 'a bsys" where
  "b_now b h ts s = s\<lparr>bq := b, bhp := h, bths := ts\<rparr>"

definition b_go :: "nat \<Rightarrow> 'a bthread \<Rightarrow> bnd \<Rightarrow> 'a bsys \<Rightarrow> 'a bsys" where
  "b_go t c b s = b_now b (bhp s) ((bths s)[t := c]) s"

fun b_next :: "'a \<Rightarrow> int progress \<Rightarrow> 'a bthread" where
  "b_next x (Done r) = BPassed x"
| "b_next x Blocked = BSleeps x"

fun wake_badder :: "'a bthread \<Rightarrow> 'a bthread option" where
  "wake_badder (BSleeps x) = Some (BWoken x)"
| "wake_badder _ = None"

fun wake_bremover :: "'a bthread \<Rightarrow> 'a bthread option" where
  "wake_bremover BRemSleeps = Some BRemWoken"
| "wake_bremover _ = None"

text \<open>After a remover has its result it gives the place back only when there was an element.\<close>

definition b_after :: "'a option \<Rightarrow> 'a bthread" where
  "b_after r = (if r \<noteq> None then BGives else BOut)"

inductive bstep :: "'a bsys \<Rightarrow> 'a bsys \<Rightarrow> bool" where
  b_acquire: "b_at s t BOut \<Longrightarrow> size_sema sema_acquire_enter (bq s) = Inr (p, b) \<Longrightarrow>
    bstep s (b_go t (b_next x p) b s)"
| b_again: "b_at s t (BWoken x) \<Longrightarrow> size_sema (sema_acquire_resume 0) (bq s) = Inr (p, b) \<Longrightarrow>
    bstep s (b_go t (b_next x p) b s)"
| b_load: "b_at s t (BPassed x) \<Longrightarrow> size_sema (\<lambda>m. Inr (sema_load m, m)) (bq s) = Inr (v, b) \<Longrightarrow>
    bstep s (b_go t (BLoaded x v) b s)"
| b_store: "b_at s t (BLoaded x v) \<Longrightarrow> size_sema (\<lambda>m. Inr ((), sema_store v m)) (bq s) = Inr (u, b) \<Longrightarrow>
    bstep s (b_go t (BHolds x) b s)"
| b_add: "b_at s t (BHolds x) \<Longrightarrow> sfifo_add_locked x (bfifo (bq s)) (bhp s) = Inr (f, h) \<Longrightarrow>
    bstep s ((b_now ((bq s)\<lparr>bfifo := f\<rparr>) h ((bths s)[t := BSignals]) s)\<lparr>bput := bput s @ [x]\<rparr>)"
| b_signal: "b_at s t BSignals \<Longrightarrow> sfifo_unblock (bfifo (bq s)) = Inr f \<Longrightarrow>
    signals (waiting (bfifo (bq s))) (waiting f) wake_bremover ((bths s)[t := BOut]) ts \<Longrightarrow>
    bstep s (b_now ((bq s)\<lparr>bfifo := f\<rparr>) (bhp s) ts s)"
| b_remove: "b_at s t BOut \<Longrightarrow> sfifo_remove (bfifo (bq s)) (bhp s) = Inr (r, f, h) \<Longrightarrow>
    bstep s ((b_now ((bq s)\<lparr>bfifo := f\<rparr>) h ((bths s)[t := b_after r]) s)\<lparr>bgot := bgot s @ gots [r]\<rparr>)"
| b_removeOrBlock: "b_at s t BOut \<Longrightarrow> sfifo_removeOrBlock_enter (bfifo (bq s)) (bhp s) = Inr (Done r, f, h) \<Longrightarrow>
    bstep s ((b_now ((bq s)\<lparr>bfifo := f\<rparr>) h ((bths s)[t := b_after r]) s)\<lparr>bgot := bgot s @ gots [r]\<rparr>)"
| b_remove_sleep: "b_at s t BOut \<Longrightarrow> sfifo_removeOrBlock_enter (bfifo (bq s)) (bhp s) = Inr (Blocked, f, h) \<Longrightarrow>
    bstep s (b_now ((bq s)\<lparr>bfifo := f\<rparr>) h ((bths s)[t := BRemSleeps]) s)"
| b_remove_again: "b_at s t BRemWoken \<Longrightarrow> sfifo_removeOrBlock_resume (bfifo (bq s)) (bhp s) = Inr (r, f, h) \<Longrightarrow>
    bstep s ((b_now ((bq s)\<lparr>bfifo := f\<rparr>) h ((bths s)[t := b_after r]) s)\<lparr>bgot := bgot s @ gots [r]\<rparr>)"
| b_give: "b_at s t BGives \<Longrightarrow> size_sema sema_release (bq s) = Inr (r, b) \<Longrightarrow>
    signals (adders_waiting (bq s)) (adders_waiting b) wake_badder ((bths s)[t := BOut]) ts \<Longrightarrow>
    bstep s (b_now b (bhp s) ts s)"
| b_spurious_add: "b_at s t (BSleeps x) \<Longrightarrow> bsema (bq s) = Some m \<Longrightarrow>
    bstep s (b_go t (BWoken x) ((bq s)\<lparr>bsema := Some (m\<lparr>sem_waiting := sem_waiting m - 1\<rparr>)\<rparr>) s)"
| b_spurious_remove: "b_at s t BRemSleeps \<Longrightarrow>
    bstep s (b_go t BRemWoken ((bq s)\<lparr>bfifo := (bfifo (bq s))\<lparr>waiting := waiting (bfifo (bq s)) - 1\<rparr>\<rparr>) s)"

inductive b_reachable :: "int \<Rightarrow> nat \<Rightarrow> nat \<Rightarrow> 'a bsys \<Rightarrow> bool" for maxsize n k where
  b_reach_init: "b_reachable maxsize n k (bsys_init maxsize n k)"
| b_reach_step: "b_reachable maxsize n k s \<Longrightarrow> bstep s s' \<Longrightarrow> b_reachable maxsize n k s'"

section \<open>The invariant\<close>

fun b_asleep :: "'a bthread \<Rightarrow> bool" where
  "b_asleep (BSleeps x) = True"
| "b_asleep _ = False"

text \<open>Of the counter nothing is left that holds in every state.\<close>

definition b_inv :: "'a bsys \<Rightarrow> bool" where
  "b_inv s \<longleftrightarrow> (\<exists>ps xs m. sfifo_rep (bhp s) (bfifo (bq s)) ps xs \<and> enabled (bfifo (bq s)) \<and> bput s = bgot s @ xs
     \<and> bsema (bq s) = Some m \<and> \<not> sem_mtx m \<and> sem_waiting m = count_at b_asleep (bths s))"

lemma b_fields [simp]:
  "bq (b_now b h ts s) = b" "bhp (b_now b h ts s) = h" "bths (b_now b h ts s) = ts" "bput (b_now b h ts s) = bput s"
  "bgot (b_now b h ts s) = bgot s"
  by (simp_all add: b_now_def)

lemma b_at_asleep:
  assumes "b_at s t c"
  shows "b_asleep c \<Longrightarrow> \<not> b_asleep d \<Longrightarrow> count_at b_asleep ((bths s)[t := d]) = count_at b_asleep (bths s) - 1"
    and "\<not> b_asleep c \<Longrightarrow> b_asleep d \<Longrightarrow> count_at b_asleep ((bths s)[t := d]) = Suc (count_at b_asleep (bths s))"
    and "b_asleep c = b_asleep d \<Longrightarrow> count_at b_asleep ((bths s)[t := d]) = count_at b_asleep (bths s)"
  using assms by (auto simp: b_at_def count_at_updates)

lemma b_invE:
  assumes "b_inv s"
  obtains ps xs m where "sfifo_rep (bhp s) (bfifo (bq s)) ps xs" "enabled (bfifo (bq s))" "bput s = bgot s @ xs"
    "bsema (bq s) = Some m" "\<not> sem_mtx m" "sem_waiting m = count_at b_asleep (bths s)"
  using assms unfolding b_inv_def by blast

lemma b_invI:
  "sfifo_rep (bhp s) (bfifo (bq s)) ps xs \<Longrightarrow> enabled (bfifo (bq s)) \<Longrightarrow> bput s = bgot s @ xs \<Longrightarrow>
    bsema (bq s) = Some m \<Longrightarrow> \<not> sem_mtx m \<Longrightarrow> sem_waiting m = count_at b_asleep (bths s) \<Longrightarrow> b_inv s"
  unfolding b_inv_def by blast

lemma wake_badder_counts:
  assumes "signals n (n - 1) wake_badder ts ts'" and "n = count_at b_asleep ts"
  shows "count_at b_asleep ts' = n - 1"
proof -
  have w: "wake_badder c = Some d \<longleftrightarrow> (\<exists>x. c = BSleeps x \<and> d = BWoken x)" for c d :: "'a bthread" by (cases c) auto
  show ?thesis using assms by (auto elim!: signalsE simp: w count_at_updates)
qed

lemma wake_bremover_counts:
  assumes "signals n m wake_bremover ts ts'"
  shows "count_at b_asleep ts' = count_at b_asleep ts"
proof -
  have w: "wake_bremover c = Some d \<longleftrightarrow> c = BRemSleeps \<and> d = BRemWoken" for c d :: "'a bthread" by (cases c) auto
  show ?thesis using assms by (auto elim!: signalsE simp: w count_at_updates)
qed

lemma remove_enabled:
  assumes "sfifo_rep h f ps xs" and "sfifo_remove f h = Inr (r, f', h')"
  shows "enabled f' = enabled f"
proof (cases xs)
  case Nil
  with assms show ?thesis by (simp add: sfifo_remove_Nil)
next
  case (Cons x ys)
  with sfifo_remove_rep [of h f ps x ys] assms show ?thesis by (auto simp: same_object_sfifo)
qed

text \<open>A remover that has run its critical section.\<close>

lemma b_inv_removed:
  assumes inv: "b_inv s" and t: "b_at s t c" and c: "c = BOut \<or> c = BRemWoken"
    and r: "sfifo_remove (bfifo (bq s)) (bhp s) = Inr (r, f, h)"
  shows "b_inv ((b_now ((bq s)\<lparr>bfifo := f\<rparr>) h ((bths s)[t := b_after r]) s)\<lparr>bgot := bgot s @ gots [r]\<rparr>)"
proof -
  from inv obtain ps xs m where i: "sfifo_rep (bhp s) (bfifo (bq s)) ps xs" "enabled (bfifo (bq s))" "bput s = bgot s @ xs"
    "bsema (bq s) = Some m" "\<not> sem_mtx m" "sem_waiting m = count_at b_asleep (bths s)" by (rule b_invE)
  from remove_cases(1) [OF i(1) r] obtain qs ys where q: "sfifo_rep h f qs ys" "xs = gots [r] @ ys" by blast
  have "count_at b_asleep ((bths s)[t := b_after r]) = count_at b_asleep (bths s)"
    using c by (intro b_at_asleep(3) [OF t]) (auto simp: b_after_def)
  then show ?thesis
    by (intro b_invI [of _ qs ys m]) (use i q remove_enabled [OF i(1) r] in simp_all)
qed

text \<open>A step that goes on to \<open>c\<close> and leaves the semaphore \<open>m\<close>.\<close>

lemma b_inv_go:
  assumes "b_inv s" and "bsema (bq s) = Some m" and "sem_waiting m' = count_at b_asleep ((bths s)[t := c])" and "\<not> sem_mtx m'"
  shows "b_inv (b_go t c ((bq s)\<lparr>bsema := Some m'\<rparr>) s)"
  using assms unfolding b_go_def by (elim b_invE) (rule b_invI, auto)

lemma b_inv_acquire:
  assumes i: "b_inv s" and t: "b_at s t c" and c: "\<not> b_asleep c"
    and e: "size_sema sema_acquire_enter (bq s) = Inr (p, b)"
  shows "b_inv (b_go t (b_next x p) b s)"
proof -
  from i obtain m where m: "bsema (bq s) = Some m" "\<not> sem_mtx m" "sem_waiting m = count_at b_asleep (bths s)" by (rule b_invE)
  have n: "count_at b_asleep ((bths s)[t := b_next x p]) = (if p = Blocked then Suc (count_at b_asleep (bths s)) else count_at b_asleep (bths s))"
    using b_at_asleep [OF t] c by (cases p) auto
  let ?m = "if p = Blocked then m\<lparr>sem_waiting := Suc (sem_waiting m)\<rparr> else m"
  have "b = (bq s)\<lparr>bsema := Some ?m\<rparr>"
    using e m by (auto simp: size_sema_def sema_acquire_enter_eq split: if_splits)
  with b_inv_go [OF i m(1), of ?m t "b_next x p"] n m show ?thesis by auto
qed

lemma b_inv_step:
  assumes "bstep s s'" and inv: "b_inv s"
  shows "b_inv s'"
proof -
  from inv obtain ps xs m where i: "sfifo_rep (bhp s) (bfifo (bq s)) ps xs" "enabled (bfifo (bq s))" "bput s = bgot s @ xs"
    "bsema (bq s) = Some m" "\<not> sem_mtx m" "sem_waiting m = count_at b_asleep (bths s)" by (rule b_invE)
  show ?thesis
    using assms(1)
  proof cases
    case (b_acquire t p b x)
    then show ?thesis using b_inv_acquire [OF inv b_acquire(2) _ b_acquire(3)] by simp
  next
    case (b_again t x p b)
    have "size_sema (sema_acquire_resume 0) (bq s) = size_sema sema_acquire_enter (bq s)"
      using i(4,5) by (simp add: size_sema_def sema_acquire_enter_eq sema_acquire_resume_eq)
    then show ?thesis using b_inv_acquire [OF inv b_again(2)] b_again by simp
  next
    case (b_load t x v b)
    then have "b = (bq s)\<lparr>bsema := Some m\<rparr>" using i(4) by (auto simp: size_sema_def)
    then show ?thesis unfolding b_load(1) using i b_at_asleep(3) [OF b_load(2), of "BLoaded x v"]
      by (auto intro!: b_inv_go [OF inv i(4)])
  next
    case (b_store t x v u b)
    then have "b = (bq s)\<lparr>bsema := Some (sema_store v m)\<rparr>" using i(4) by (auto simp: size_sema_def)
    then show ?thesis unfolding b_store(1) using i b_at_asleep(3) [OF b_store(2), of "BHolds x"]
      by (auto simp: sema_store_def intro!: b_inv_go [OF inv i(4)])
  next
    case (b_add t x f h)
    have n: "count_at b_asleep ((bths s)[t := BSignals]) = count_at b_asleep (bths s)"
      by (rule b_at_asleep(3) [OF b_add(2)]) simp
    from add_locked_cases [OF i(1) b_add(3)] i(2) obtain qs where "sfifo_rep h f qs (xs @ [x])" "enabled f" by auto
    then show ?thesis unfolding b_add(1)
      by (intro b_invI [of _ qs "xs @ [x]" m]) (use i n in auto)
  next
    case (b_signal t f ts)
    have n: "count_at b_asleep ((bths s)[t := BOut]) = count_at b_asleep (bths s)"
      by (rule b_at_asleep(3) [OF b_signal(2)]) simp
    have "f = unblocked (bfifo (bq s))" using unblock_result [OF i(1) b_signal(3)] .
    then have "sfifo_rep (bhp s) f ps xs" "enabled f" using i(1,2) by (auto simp: unblocked_def sfifo_rep_def)
    then show ?thesis unfolding b_signal(1)
      by (intro b_invI [of _ ps xs m]) (use i n wake_bremover_counts [OF b_signal(4)] in auto)
  next
    case (b_remove t r f h)
    then show ?thesis using b_inv_removed [OF inv b_remove(2) _ b_remove(3)] by simp
  next
    case (b_removeOrBlock t r f h)
    from enter_done [OF i(1) b_removeOrBlock(3)] show ?thesis
      using b_inv_removed [OF inv b_removeOrBlock(2)] b_removeOrBlock(1) by simp
  next
    case (b_remove_sleep t f h)
    have n: "count_at b_asleep ((bths s)[t := BRemSleeps]) = count_at b_asleep (bths s)"
      by (rule b_at_asleep(3) [OF b_remove_sleep(2)]) simp
    from enter_blocked [OF i(1) b_remove_sleep(3)] i(1,2) have "sfifo_rep h f ps xs" "enabled f"
      by (auto simp: sfifo_rep_def)
    then show ?thesis unfolding b_remove_sleep(1)
      by (intro b_invI [of _ ps xs m]) (use i n in auto)
  next
    case (b_remove_again t r f h)
    have "sfifo_remove (bfifo (bq s)) (bhp s) = Inr (r, f, h)" using b_remove_again(3) by (simp add: removeOrBlock_resume_eq)
    then show ?thesis using b_inv_removed [OF inv b_remove_again(2)] b_remove_again(1) by simp
  next
    case (b_give t r b ts)
    let ?ts = "(bths s)[t := BOut]"
    have n: "count_at b_asleep ?ts = count_at b_asleep (bths s)"
      by (rule b_at_asleep(3) [OF b_give(2)]) simp
    let ?m = "if 0 \<le> sem_cnt m then m\<lparr>sem_cnt := sem_cnt m + 1, sem_waiting := sem_waiting m - 1\<rparr>
        else m\<lparr>sem_cnt := sem_cnt m + 1\<rparr>"
    have b: "b = (bq s)\<lparr>bsema := Some ?m\<rparr>" using b_give(3) i(4,5) by (auto simp: size_sema_def sema_release_eq)
    have w: "adders_waiting (bq s) = count_at b_asleep ?ts" "adders_waiting b = sem_waiting ?m"
      using i(4,6) n b by (simp_all add: adders_waiting_def)
    have "sem_waiting ?m = count_at b_asleep ts"
    proof (cases "0 \<le> sem_cnt m")
      case True
      have "signals (count_at b_asleep ?ts) (count_at b_asleep ?ts - 1) wake_badder ?ts ts"
        using b_give(4) w True i(6) n by simp
      from wake_badder_counts [OF this refl] show ?thesis using True i(6) n by auto
    next
      case False
      then have "ts = ?ts" using b_give(4) w i(6) n by simp
      then show ?thesis using False i(6) n by auto
    qed
    then show ?thesis unfolding b_give(1)
      by (intro b_invI [of _ ps xs ?m]) (use i b in auto)
  next
    case (b_spurious_add t x m')
    have "count_at b_asleep ((bths s)[t := BWoken x]) = count_at b_asleep (bths s) - 1"
      by (rule b_at_asleep(1) [OF b_spurious_add(2)]) simp_all
    moreover have "m' = m" using i(4) b_spurious_add(3) by simp
    ultimately show ?thesis unfolding b_spurious_add(1) using i by (auto intro!: b_inv_go [OF inv i(4)])
  next
    case (b_spurious_remove t)
    have "count_at b_asleep ((bths s)[t := BRemWoken]) = count_at b_asleep (bths s)"
      by (rule b_at_asleep(3) [OF b_spurious_remove(2)]) simp
    then show ?thesis unfolding b_spurious_remove(1) b_go_def
      by (intro b_invI [of _ ps xs m]) (use i in \<open>auto simp: sfifo_rep_def\<close>)
  qed
qed

lemma b_reachable_inv: "b_reachable maxsize n k s \<Longrightarrow> b_inv s"
proof (induction rule: b_reachable.induct)
  case b_reach_init
  then show ?case
    by (auto simp: bsys_init_def bnd_new_def sema_new_def sfifo_new_def sfifo_rep_def fifo_rep_Nil count_at_def
        intro!: b_invI [of _ "[]" "[]"])
next
  case (b_reach_step s s')
  then show ?case using b_inv_step by blast
qed

section \<open>Executions\<close>

text \<open>\<open>b_here maxsize n c ts xs\<close>: a state can be reached in which the threads are at \<open>ts\<close>, the counter is \<open>c\<close>, nobody sleeps, and
  the queue holds \<open>xs\<close>; the allocator has given out one link for each.\<close>

definition b_here :: "int \<Rightarrow> nat \<Rightarrow> int \<Rightarrow> 'a bthread list \<Rightarrow> 'a list \<Rightarrow> bool" where
  "b_here maxsize n c ts xs \<longleftrightarrow> (\<exists>s ps. b_reachable maxsize n (length ts) s \<and> bths s = ts \<and> bmax (bq s) = maxsize \<and>
     bsema (bq s) = Some (sema_new c) \<and> sfifo_rep (bhp s) (bfifo (bq s)) ps xs \<and> enabled (bfifo (bq s)) \<and>
     waiting (bfifo (bq s)) = 0 \<and> room (bhp s) + length xs = n)"

lemma b_hereE:
  assumes "b_here maxsize n c ts xs"
  obtains s ps where "b_reachable maxsize n (length ts) s" "bths s = ts" "bmax (bq s) = maxsize"
    "bsema (bq s) = Some (sema_new c)" "sfifo_rep (bhp s) (bfifo (bq s)) ps xs" "enabled (bfifo (bq s))"
    "waiting (bfifo (bq s)) = 0" "room (bhp s) + length xs = n"
  using assms unfolding b_here_def by blast

lemma b_hereI:
  assumes "b_reachable maxsize n k s" "bstep s s'" "length (bths s') = k" "bmax (bq s') = maxsize"
    "bsema (bq s') = Some (sema_new c)" "sfifo_rep (bhp s') (bfifo (bq s')) ps xs" "enabled (bfifo (bq s'))"
    "waiting (bfifo (bq s')) = 0" "room (bhp s') + length xs = n"
  shows "b_here maxsize n c (bths s') xs"
  unfolding b_here_def using assms b_reach_step [OF assms(1,2)] by blast

lemma b_here_start: "b_here maxsize n maxsize (replicate k BOut) []"
  unfolding b_here_def using b_reach_init [of maxsize n k]
  by (intro exI [of _ "bsys_init maxsize n k"] exI [of _ "[]"])
    (simp add: bsys_init_def bnd_new_def sfifo_new_def sfifo_rep_def fifo_rep_Nil empty_heap_def)

lemma b_here_pass:
  assumes h: "b_here maxsize n c ts xs" and t: "t < length ts" "ts ! t = BOut" and c: "1 \<le> c"
  shows "b_here maxsize n c (ts[t := BPassed x]) xs"
proof -
  from h obtain s ps where s: "b_reachable maxsize n (length ts) s" "bths s = ts" "bmax (bq s) = maxsize"
    "bsema (bq s) = Some (sema_new c)" "sfifo_rep (bhp s) (bfifo (bq s)) ps xs" "enabled (bfifo (bq s))"
    "waiting (bfifo (bq s)) = 0" "room (bhp s) + length xs = n" by (rule b_hereE)
  have "bstep s (b_go t (b_next x (Done 0)) (bq s) s)"
    by (rule b_acquire) (use s t c in \<open>simp_all add: b_at_def size_sema_def sema_acquire_enter_eq sema_new_def\<close>)
  from b_hereI [OF s(1) this] s t show ?thesis by (simp add: b_go_def)
qed

lemma b_here_load:
  assumes h: "b_here maxsize n c ts xs" and t: "t < length ts" "ts ! t = BPassed x"
  shows "b_here maxsize n c (ts[t := BLoaded x c]) xs"
proof -
  from h obtain s ps where s: "b_reachable maxsize n (length ts) s" "bths s = ts" "bmax (bq s) = maxsize"
    "bsema (bq s) = Some (sema_new c)" "sfifo_rep (bhp s) (bfifo (bq s)) ps xs" "enabled (bfifo (bq s))"
    "waiting (bfifo (bq s)) = 0" "room (bhp s) + length xs = n" by (rule b_hereE)
  have "bstep s (b_go t (BLoaded x c) (bq s) s)"
    by (rule b_load) (use s t in \<open>simp_all add: b_at_def size_sema_def sema_load_def sema_new_def\<close>)
  from b_hereI [OF s(1) this] s t show ?thesis by (simp add: b_go_def)
qed

lemma b_here_store:
  assumes h: "b_here maxsize n c ts xs" and t: "t < length ts" "ts ! t = BLoaded x v"
  shows "b_here maxsize n (v - 1) (ts[t := BHolds x]) xs"
proof -
  from h obtain s ps where s: "b_reachable maxsize n (length ts) s" "bths s = ts" "bmax (bq s) = maxsize"
    "bsema (bq s) = Some (sema_new c)" "sfifo_rep (bhp s) (bfifo (bq s)) ps xs" "enabled (bfifo (bq s))"
    "waiting (bfifo (bq s)) = 0" "room (bhp s) + length xs = n" by (rule b_hereE)
  have "bstep s (b_go t (BHolds x) ((bq s)\<lparr>bsema := Some (sema_new (v - 1))\<rparr>) s)"
    by (rule b_store) (use s t in \<open>simp_all add: b_at_def size_sema_def sema_store_def sema_new_def\<close>)
  from b_hereI [OF s(1) this] s t show ?thesis by (simp add: b_go_def)
qed

text \<open>The rest of \<open>add\<close>: hooking the link in, and \<open>unblock\<close>, which finds nobody asleep.\<close>

lemma b_here_add:
  assumes h: "b_here maxsize n c ts xs" and t: "t < length ts" "ts ! t = BHolds x" and r: "length xs < n"
  shows "b_here maxsize n c (ts[t := BOut]) (xs @ [x])"
proof -
  from h obtain s ps where s: "b_reachable maxsize n (length ts) s" "bths s = ts" "bmax (bq s) = maxsize"
    "bsema (bq s) = Some (sema_new c)" "sfifo_rep (bhp s) (bfifo (bq s)) ps xs" "enabled (bfifo (bq s))"
    "waiting (bfifo (bq s)) = 0" "room (bhp s) + length xs = n" by (rule b_hereE)
  have "0 < room (bhp s)" using s(8) r by simp
  from sfifo_add_locked_rep [OF s(5,6) this, of x] obtain f m qs where
    a: "sfifo_add_locked x (bfifo (bq s)) (bhp s) = Inr (f, m)" "sfifo_rep m f qs (xs @ [x])" "enabled f" "waiting f = 0"
    "room m = room (bhp s) - 1" using s(6,7) by (auto simp: holds_iff same_object_sfifo)
  let ?s = "(b_now ((bq s)\<lparr>bfifo := f\<rparr>) m ((bths s)[t := BSignals]) s)\<lparr>bput := bput s @ [x]\<rparr>"
  have "bstep s ?s" by (rule b_add) (use s t a in \<open>simp_all add: b_at_def\<close>)
  with s(1) have r1: "b_reachable maxsize n (length ts) ?s" by (rule b_reach_step)
  have u: "sfifo_unblock f = Inr (unblocked f)" "waiting (unblocked f) = 0"
    using a by (simp_all add: sfifo_unblock_eq unblocked_def sfifo_rep_def)
  have "bstep ?s (b_now ((bq ?s)\<lparr>bfifo := unblocked f\<rparr>) (bhp ?s) ((bths ?s)[t := BOut]) ?s)"
    by (rule b_signal [where t = t]) (use s t a u in \<open>simp_all add: b_at_def\<close>)
  from b_hereI [OF r1 this, of c qs "xs @ [x]"] s a u \<open>0 < room (bhp s)\<close> show ?thesis
    by (simp add: sfifo_rep_def)
qed

text \<open>A whole \<open>remove\<close>, with the place given back.\<close>

lemma b_here_remove:
  assumes h: "b_here maxsize n c ts (x # xs)" and t: "t < length ts" "ts ! t = BOut"
  shows "b_here maxsize n (c + 1) ts xs"
proof -
  from h obtain s ps where s: "b_reachable maxsize n (length ts) s" "bths s = ts" "bmax (bq s) = maxsize"
    "bsema (bq s) = Some (sema_new c)" "sfifo_rep (bhp s) (bfifo (bq s)) ps (x # xs)" "enabled (bfifo (bq s))"
    "waiting (bfifo (bq s)) = 0" "room (bhp s) + length (x # xs) = n" by (rule b_hereE)
  from sfifo_remove_rep [OF s(5)] obtain f m where
    a: "sfifo_remove (bfifo (bq s)) (bhp s) = Inr (Some x, f, m)" "sfifo_rep m f (tl ps) xs" "enabled f" "waiting f = 0"
    "room m = Suc (room (bhp s))" using s(6,7) by (auto simp: holds_iff same_object_sfifo)
  let ?s = "(b_now ((bq s)\<lparr>bfifo := f\<rparr>) m ((bths s)[t := b_after (Some x)]) s)\<lparr>bgot := bgot s @ gots [Some x]\<rparr>"
  have "bstep s ?s" by (rule b_remove) (use s t a in \<open>simp_all add: b_at_def\<close>)
  with s(1) have r1: "b_reachable maxsize n (length ts) ?s" by (rule b_reach_step)
  have u: "size_sema sema_release (bq ?s) = Inr (0, (bq ?s)\<lparr>bsema := Some (sema_new (c + 1))\<rparr>)"
    using s(4) by (simp add: size_sema_def sema_release_eq sema_new_def)
  have "bstep ?s (b_now ((bq ?s)\<lparr>bsema := Some (sema_new (c + 1))\<rparr>) (bhp ?s) ((bths ?s)[t := BOut]) ?s)"
    by (rule b_give [where t = t, OF _ u]) (use s t in \<open>simp_all add: b_at_def b_after_def adders_waiting_def sema_new_def\<close>)
  from b_hereI [OF r1 this, of "c + 1" "tl ps" xs] s a t show ?thesis
    using list_update_id [of ts t] by simp
qed

text \<open>Two threads pass the wait together, one after the other reads and writes, or both read first.\<close>

lemmas b_here_t0 = b_here_pass [where t = 0] b_here_load [where t = 0] b_here_store [where t = 0] b_here_add [where t = 0]
lemmas b_here_t1 = b_here_pass [where t = "Suc 0"] b_here_load [where t = "Suc 0"] b_here_store [where t = "Suc 0"] b_here_add [where t = "Suc 0"]

lemma b_here_two_for_one:
  assumes h: "b_here maxsize n c [BOut, BOut] xs" and c: "1 \<le> c" and n: "Suc (length xs) < n"
  shows "b_here maxsize n (c - 1) [BOut, BOut] (xs @ [x, x])"
proof -
  from b_here_t0(1) [OF h _ _ c, of x] have "b_here maxsize n c [BPassed x, BOut] xs" by simp
  from b_here_t1(1) [OF this _ _ c, of x] have "b_here maxsize n c [BPassed x, BPassed x] xs" by simp
  from b_here_t0(2) [OF this] have "b_here maxsize n c [BLoaded x c, BPassed x] xs" by simp
  from b_here_t1(2) [OF this] have "b_here maxsize n c [BLoaded x c, BLoaded x c] xs" by simp
  from b_here_t0(3) [OF this] have "b_here maxsize n (c - 1) [BHolds x, BLoaded x c] xs" by simp
  from b_here_t1(3) [OF this] have "b_here maxsize n (c - 1) [BHolds x, BHolds x] xs" by simp
  from b_here_t0(4) [OF this] n have "b_here maxsize n (c - 1) [BOut, BHolds x] (xs @ [x])" by simp
  from b_here_t1(4) [OF this] n show ?thesis by simp
qed

lemma b_here_place_lost:
  fixes x :: 'a
  assumes h: "b_here maxsize n c [BOut :: 'a bthread, BOut] []" and c: "1 \<le> c" and n: "0 < n"
  shows "b_here maxsize n (c - 1) [BOut :: 'a bthread, BOut] []"
proof -
  from b_here_t0(1) [OF h _ _ c, of x] have "b_here maxsize n c [BPassed x, BOut] []" by simp
  from b_here_t1(1) [OF this _ _ c, of x] have "b_here maxsize n c [BPassed x, BPassed x] []" by simp
  from b_here_t0(2) [OF this] have "b_here maxsize n c [BLoaded x c, BPassed x] []" by simp
  from b_here_t0(3) [OF this] have "b_here maxsize n (c - 1) [BHolds x, BPassed x] []" by simp
  from b_here_t1(2) [OF this] have "b_here maxsize n (c - 1) [BHolds x, BLoaded x (c - 1)] []" by simp
  from b_here_t0(4) [OF this] n have "b_here maxsize n (c - 1) [BOut, BLoaded x (c - 1)] [x]" by simp
  from b_here_remove [OF this, of 0] have "b_here maxsize n (c - 1 + 1) [BOut, BLoaded x (c - 1)] []" by simp
  from b_here_t1(3) [OF this] have "b_here maxsize n (c - 1 - 1) [BOut, BHolds x] []" by simp
  from b_here_t1(4) [OF this] n have "b_here maxsize n (c - 1 - 1) [BOut, BOut] [x]" by simp
  from b_here_remove [OF this, of 0] show ?thesis by simp
qed

section \<open>Properties\<close>

text \<open>Threads that share a tw_bndSafeFIFO see one first-in first-out queue: in every reachable state the values taken out so far are
  the first of those put in, and the linked list holds the rest.\<close>
theorem bnd_threads_one_fifo:
  assumes "b_reachable maxsize n k s"
  shows "\<exists>ps xs. sfifo_rep (bhp s) (bfifo (bq s)) ps xs \<and> bput s = bgot s @ xs"
  using b_reachable_inv [OF assms] by (blast elim: b_invE)

text \<open>C19. The bound of a tw_bndSafeFIFO does not hold for threads that add at the same time: \<open>acquire\<close> of its semaphore decrements
  after it gave its mutex up, so that two threads take one place for both. Two threads can bring the queue to every length that
  there is memory for, whatever the bound, if it is not zero, and be out of all calls again.\<close>
theorem bnd_exceeds_any_bound:
  fixes x :: 'a
  assumes "1 \<le> maxsize" and "m < n"
  shows "\<exists>(s :: 'a bsys) ps xs. b_reachable maxsize n 2 s \<and> bths s = [BOut, BOut] \<and> bmax (bq s) = maxsize \<and>
    sfifo_rep (bhp s) (bfifo (bq s)) ps xs \<and> length xs = m \<and> remain (bfifo (bq s)) = int m"
proof -
  have "\<exists>xs :: 'a list. b_here maxsize n maxsize [BOut, BOut] xs \<and> length xs = m"
    using assms(2)
  proof (induction m)
    case 0
    show ?case using b_here_start [of maxsize n 2] by (simp add: numeral_2_eq_2)
  next
    case (Suc m)
    then obtain xs :: "'a list" where xs: "b_here maxsize n maxsize [BOut, BOut] xs" "length xs = m" by auto
    from b_here_two_for_one [OF xs(1) assms(1), of x] Suc.prems xs(2)
    have "b_here maxsize n (maxsize - 1) [BOut, BOut] (xs @ [x, x])" by simp
    moreover obtain y ys where "xs @ [x, x] = y # ys" by (cases xs) auto
    ultimately have "b_here maxsize n (maxsize - 1 + 1) [BOut, BOut] ys"
      using b_here_remove [where t = 0] by fastforce
    moreover have "length ys = Suc m" using arg_cong [OF \<open>xs @ [x, x] = y # ys\<close>, of length] xs(2) by simp
    ultimately show ?case by auto
  qed
  then obtain xs :: "'a list" where "b_here maxsize n maxsize [BOut, BOut] xs" "length xs = m" by blast
  then show ?thesis using fifo_repD(4)
    by (elim b_hereE) (force simp: sfifo_rep_def numeral_2_eq_2)
qed

theorem bnd_exceeds_any_bound_witness:
  "\<exists>(s :: int bsys) ps xs. b_reachable 1 100 2 s \<and> bths s = [BOut, BOut] \<and> bmax (bq s) = 1 \<and>
    sfifo_rep (bhp s) (bfifo (bq s)) ps xs \<and> length xs = 99 \<and> remain (bfifo (bq s)) = int 99"
  by (rule bnd_exceeds_any_bound) simp_all

text \<open>And the places can be used up though the queue is empty: a release between the read and the write of another thread's decrement
  is lost. Two threads that add and remove can reach a state in which no call is under way, nobody sleeps and
  the queue is empty, and every later \<open>add\<close> goes to sleep.\<close>
theorem bnd_waits_at_empty_queue:
  assumes "1 \<le> maxsize" and "0 < n"
  shows "\<exists>(s :: 'a bsys) ps. b_reachable maxsize n 2 s \<and> bths s = [BOut, BOut] \<and>
    sfifo_rep (bhp s) (bfifo (bq s)) ps [] \<and> holds (bnd_add_enter x (bq s) (bhp s)) (\<lambda>(p, b, h). p = Blocked)"
proof -
  have "int j \<le> maxsize \<Longrightarrow> b_here maxsize n (maxsize - int j) [BOut :: 'a bthread, BOut] []" for j
  proof (induction j)
    case 0
    show ?case using b_here_start [of maxsize n 2] by (simp add: numeral_2_eq_2)
  next
    case (Suc j)
    from b_here_place_lost [OF Suc.IH _ assms(2)] Suc.prems show ?case by (simp add: algebra_simps)
  qed
  from this [of "nat maxsize"] assms(1) have "b_here maxsize n 0 [BOut :: 'a bthread, BOut] []" by simp
  then obtain s :: "'a bsys" and ps where s: "b_reachable maxsize n 2 s" "bths s = [BOut, BOut]" "bsema (bq s) = Some (sema_new 0)"
    "sfifo_rep (bhp s) (bfifo (bq s)) ps []" by (elim b_hereE) (simp add: numeral_2_eq_2)
  moreover have "holds (bnd_add_enter x (bq s) (bhp s)) (\<lambda>(p, b, h). p = Blocked)"
    using s(3) by (simp add: bnd_add_enter_def bnd_add_tail_def size_sema_def sema_acquire_eq sema_new_def)
  ultimately show ?thesis by blast
qed

theorem bnd_waits_at_empty_queue_witness:
  "\<exists>(s :: int bsys) ps. b_reachable 3 1 2 s \<and> bths s = [BOut, BOut] \<and>
    sfifo_rep (bhp s) (bfifo (bq s)) ps [] \<and> holds (bnd_add_enter 7 (bq s) (bhp s)) (\<lambda>(p, b, h). p = Blocked)"
  by (rule bnd_waits_at_empty_queue) simp_all

theorem bnd_threads_one_fifo_witness:
  "let s = bsys_init 1 1 1 :: int bsys
   in \<exists>ps xs. sfifo_rep (bhp s) (bfifo (bq s)) ps xs \<and> bput s = bgot s @ xs"
  unfolding Let_def by (rule bnd_threads_one_fifo [OF b_reach_init])

end
