(* ===== verification/TW_KTree.thy ===== *)
theory TW_KTree
  imports TW_Prelude
begin

text \<open>
  The B-tree TW_KTree_32 of include/TW/tw_ktree.h.

  Every node of the tree is pointed to from one place, its parent or the root, so a node is a value: its flag
  \<open>is_internal\<close>, its keys and its children, with \<open>n\<close> the number of keys. What the code
  does with \<^verbatim>\<open>memmove\<close> in the arrays of keys and pointers are operations on the two lists. An index outside the part of an
  array that is used is a fault, and so is a write beyond its room, which is \<open>2 t - 1\<close> keys and
  \<open>2 t\<close> pointers. Beside the tree goes the memory: how many nodes can still be allocated, and the field \<open>n_nodes\<close>. The loop of \<open>destroy\<close> and that
  of \<open>traverse\<close> have a stack of their own, which is taken to be allocated.

  \<open>get\<close> does not compile (it passes no tree on), nor do the static methods that call others; \<open>tw_kb_getp\<close> is what it should call.
\<close>

section \<open>Nodes and trees\<close>

datatype 'k kbnode = KB (kb_int: bool) (kb_ks: "'k list") (kb_cs: "'k kbnode list")

abbreviation kb_n :: "'k kbnode \<Rightarrow> nat" where
  "kb_n x \<equiv> length (kb_ks x)"

record 'k kbtree =
  kb_root :: "'k kbnode"
  kb_t :: nat
  kb_nmax :: int
  kb_off_ptr :: int
  kb_ilen :: int
  kb_elen :: int
  kb_n_keys :: int

record kbmem =
  kb_room :: nat
  kb_n_nodes :: int

text \<open>A node of a tree that \<^verbatim>\<open>tw_kb_init_tree\<close> has built has \<open>ilen\<close> or \<open>elen\<close> bytes, which hold \<open>2 t - 1\<close> keys and, in an internal node,
  \<open>2 t\<close> pointers (\<open>ktree_layout\<close>); a size that the code stores as another number is a fault of \<open>kb_init_tree\<close>.\<close>

definition new_node :: "kbmem \<Rightarrow> kbmem res" where
  "new_node m = (if kb_room m = 0 then Inl NullDeref
     else Inr (m\<lparr>kb_room := kb_room m - 1, kb_n_nodes := kb_n_nodes m + 1\<rparr>))"

definition free_node :: "kbmem \<Rightarrow> kbmem" where
  "free_node m = m\<lparr>kb_room := kb_room m + 1\<rparr>"

text \<open>Reading an array, and the three things that are done to one: a value written at an index, put in between, and taken out.\<close>

definition at_index :: "int \<Rightarrow> 'a list \<Rightarrow> 'a res" where
  "at_index i xs = (if 0 \<le> i \<and> i < int (length xs) then Inr (xs ! nat i) else Inl OutOfBounds)"

definition set_index :: "int \<Rightarrow> 'a \<Rightarrow> 'a list \<Rightarrow> 'a list res" where
  "set_index i v xs = (if 0 \<le> i \<and> i < int (length xs) then Inr (xs[nat i := v]) else Inl OutOfBounds)"

definition ins_index :: "nat \<Rightarrow> int \<Rightarrow> 'a \<Rightarrow> 'a list \<Rightarrow> 'a list res" where
  "ins_index cap i v xs = (if 0 \<le> i \<and> i \<le> int (length xs) \<and> length xs < cap
     then Inr (take (nat i) xs @ v # drop (nat i) xs) else Inl OutOfBounds)"

definition del_index :: "int \<Rightarrow> 'a list \<Rightarrow> 'a list res" where
  "del_index i xs = (if 0 \<le> i \<and> i < int (length xs) then Inr (take (nat i) xs @ drop (Suc (nat i)) xs) else Inl OutOfBounds)"

text \<open>The keys, or pointers, of another node behind those of this one.\<close>

definition join_arrays :: "nat \<Rightarrow> 'a list \<Rightarrow> 'a list \<Rightarrow> 'a list res" where
  "join_arrays cap xs ys = (if length xs + length ys \<le> cap then Inr (xs @ ys) else Inl OutOfBounds)"

text \<open>The comparison that the file offers for numbers.\<close>

definition kb_generic_cmp :: "int \<Rightarrow> int \<Rightarrow> int" where
  "kb_generic_cmp a b = (if b < a then 1 else 0) - (if a < b then 1 else 0)"

section \<open>Building\<close>

text \<open>\<open>ksz\<close> is the size of a key. The division is of two values of the type \<^verbatim>\<open>size_t\<close>, and the divisor is computed with
  \<^verbatim>\<open>sizeof(key_t)\<close>, a type of the C library with 4 bytes, not with the size of a key. The results are stored as \<^verbatim>\<open>int\<close>.
  A degree that does not fit becomes another number. When one of the sizes of a node does not fit, so that the memory of the
  nodes is not what their arrays need, the model stops with a fault where the code goes on with nodes that are too small.\<close>

definition to_size_t :: "int \<Rightarrow> int" where
  "to_size_t x = x mod 2 ^ 64"

definition to_int :: "int \<Rightarrow> int" where
  "to_int x = (x + 2 ^ 31) mod 2 ^ 32 - 2 ^ 31"

definition int_exact :: "int \<Rightarrow> int res" where
  "int_exact x = (if to_int x = x then Inr x else Inl Overflow)"

definition kb_init_tree :: "int \<Rightarrow> int \<Rightarrow> kbmem \<Rightarrow> ('k kbtree option \<times> kbmem) res" where
  "kb_init_tree ksz sz m =
     (if kb_room m = 0 then Inl NullDeref else
      let m = m\<lparr>kb_room := kb_room m - 1, kb_n_nodes := 0\<rparr>;
          t = to_int ((to_size_t (sz - 4 - 8) div (8 + 4) + 1) div 2)
      in
        if t < 2 then Inr (None, free_node m)
        else
          bindE (int_exact (2 * t - 1)) (\<lambda>n.
          bindE (int_exact (to_size_t (4 + n * ksz))) (\<lambda>off_ptr.
          bindE (int_exact (to_size_t (4 + 8 + n * (8 + ksz) + 3) div 4 * 4)) (\<lambda>ilen.
          bindE (int_exact (off_ptr + 3)) (\<lambda>e.
          bindE (new_node m) (\<lambda>m.
            Inr (Some \<lparr>kb_root = KB False [] [], kb_t = nat t, kb_nmax = n, kb_off_ptr = off_ptr,
              kb_ilen = ilen, kb_elen = e div 4 * 4, kb_n_keys = 0\<rparr>, m)))))))"

section \<open>Searching\<close>

function kb_bsearch :: "('k \<Rightarrow> 'k \<Rightarrow> int) \<Rightarrow> 'k \<Rightarrow> 'k list \<Rightarrow> nat \<Rightarrow> nat \<Rightarrow> nat" where
  "kb_bsearch cmp k ks b e =
     (if b < e then
        let mid = (b + e) div 2 in
        if cmp (ks ! mid) k < 0 then kb_bsearch cmp k ks (mid + 1) e else kb_bsearch cmp k ks b mid
      else b)"
  by pat_completeness auto
termination by (relation "measure (\<lambda>(cmp, k, ks, b, e). e - b)") auto

declare kb_bsearch.simps [simp del]

text \<open>The result and the value of \<^verbatim>\<open>*r\<close>, which an empty node leaves as it was.\<close>

definition kb_getp_aux :: "('k \<Rightarrow> 'k \<Rightarrow> int) \<Rightarrow> 'k kbnode \<Rightarrow> 'k \<Rightarrow> int \<Rightarrow> int \<times> int" where
  "kb_getp_aux cmp x k r =
     (if kb_n x = 0 then (- 1, r)
      else
        let b = kb_bsearch cmp k (kb_ks x) 0 (kb_n x) in
        if b = kb_n x then (int (kb_n x) - 1, 1)
        else let c = cmp k (kb_ks x ! b) in (if c < 0 then int b - 1 else int b, c))"

text \<open>The version that first halves and then searches the half from behind.\<close>

fun kb_scan :: "('k \<Rightarrow> 'k \<Rightarrow> int) \<Rightarrow> 'k \<Rightarrow> 'k list \<Rightarrow> nat \<Rightarrow> nat \<Rightarrow> int \<Rightarrow> int \<times> int" where
  "kb_scan cmp k ks b n r =
     (let c = cmp k (ks ! n) in
      if c < 0 then (if b < n then kb_scan cmp k ks b (n - 1) c else (int n - 1, c)) else (int n, c))"

declare kb_scan.simps [simp del]

definition kb_get_aux :: "('k \<Rightarrow> 'k \<Rightarrow> int) \<Rightarrow> 'k kbnode \<Rightarrow> 'k \<Rightarrow> int \<Rightarrow> int \<times> int" where
  "kb_get_aux cmp x k r =
     (if kb_n x = 0 then (- 1, r)
      else let n = kb_n x div 2 in
        if cmp k (kb_ks x ! n) < 0 then kb_scan cmp k (kb_ks x) 0 n r
        else kb_scan cmp k (kb_ks x) n (kb_n x - 1) r)"

fun kb_getp :: "nat \<Rightarrow> ('k \<Rightarrow> 'k \<Rightarrow> int) \<Rightarrow> 'k kbnode \<Rightarrow> 'k \<Rightarrow> int \<Rightarrow> 'k option res" where
  "kb_getp 0 cmp x k r = Inl Diverges"
| "kb_getp (Suc f) cmp x k r =
     (let (i, r) = kb_getp_aux cmp x k r in
      if 0 \<le> i \<and> r = 0 then bindE (at_index i (kb_ks x)) (\<lambda>e. Inr (Some e))
      else if \<not> kb_int x then Inr None
      else bindE (at_index (i + 1) (kb_cs x)) (\<lambda>y. kb_getp f cmp y k r))"

fun kb_intervalp :: "nat \<Rightarrow> ('k \<Rightarrow> 'k \<Rightarrow> int) \<Rightarrow> 'k kbnode \<Rightarrow> 'k \<Rightarrow> int \<Rightarrow> 'k option \<Rightarrow> 'k option \<Rightarrow> ('k option \<times> 'k option) res" where
  "kb_intervalp 0 cmp x k r lower upper = Inl Diverges"
| "kb_intervalp (Suc f) cmp x k r lower upper =
     (let (i, r) = kb_getp_aux cmp x k r in
      if 0 \<le> i \<and> r = 0 then bindE (at_index i (kb_ks x)) (\<lambda>e. Inr (Some e, Some e))
      else
        bindE (if 0 \<le> i then bindE (at_index i (kb_ks x)) (\<lambda>e. Inr (Some e)) else Inr lower) (\<lambda>lower.
        bindE (if i < int (kb_n x) - 1 then bindE (at_index (i + 1) (kb_ks x)) (\<lambda>e. Inr (Some e)) else Inr upper) (\<lambda>upper.
        if \<not> kb_int x then Inr (lower, upper)
        else bindE (at_index (i + 1) (kb_cs x)) (\<lambda>y. kb_intervalp f cmp y k r lower upper))))"

section \<open>Putting\<close>

text \<open>\<open>y\<close>, child \<open>i\<close> of \<open>x\<close> with \<open>2 t - 1\<close> keys, is split around its middle key, which goes up.\<close>

definition kb_split :: "nat \<Rightarrow> 'k kbnode \<Rightarrow> int \<Rightarrow> 'k kbnode \<Rightarrow> kbmem \<Rightarrow> ('k kbnode \<times> kbmem) res" where
  "kb_split t x i y m =
     bindE (new_node m) (\<lambda>m.
      if kb_n y < 2 * t - 1 \<or> (kb_int y \<and> length (kb_cs y) < 2 * t) then Inl OutOfBounds
      else
        let z = KB (kb_int y) (take (t - 1) (drop t (kb_ks y))) (if kb_int y then take t (drop t (kb_cs y)) else []);
            y' = KB (kb_int y) (take (t - 1) (kb_ks y)) (if kb_int y then take t (kb_cs y) else [])
        in
          bindE (set_index i y' (kb_cs x)) (\<lambda>cs.
          bindE (ins_index (2 * t) (i + 1) z cs) (\<lambda>cs.
          bindE (ins_index (2 * t - 1) i (kb_ks y ! (t - 1)) (kb_ks x)) (\<lambda>ks. Inr (KB (kb_int x) ks cs, m)))))"

fun kb_putp_aux :: "nat \<Rightarrow> nat \<Rightarrow> ('k \<Rightarrow> 'k \<Rightarrow> int) \<Rightarrow> 'k kbnode \<Rightarrow> 'k \<Rightarrow> kbmem \<Rightarrow> ('k kbnode \<times> kbmem) res" where
  "kb_putp_aux 0 t cmp x k m = Inl Diverges"
| "kb_putp_aux (Suc f) t cmp x k m =
     (if \<not> kb_int x then
        let i = fst (kb_getp_aux cmp x k 0) in
        bindE (ins_index (2 * t - 1) (i + 1) k (kb_ks x)) (\<lambda>ks. Inr (KB (kb_int x) ks (kb_cs x), m))
      else
        let i = fst (kb_getp_aux cmp x k 0) + 1 in
        bindE (at_index i (kb_cs x)) (\<lambda>y.
        bindE (if kb_n y = 2 * t - 1
          then bindE (kb_split t x i y m) (\<lambda>(x, m).
               bindE (at_index i (kb_ks x)) (\<lambda>e. Inr (if 0 < cmp k e then i + 1 else i, x, m)))
          else Inr (i, x, m)) (\<lambda>(i, x, m).
        bindE (at_index i (kb_cs x)) (\<lambda>y.
        bindE (kb_putp_aux f t cmp y k m) (\<lambda>(y, m).
        bindE (set_index i y (kb_cs x)) (\<lambda>cs. Inr (KB (kb_int x) (kb_ks x) cs, m)))))))"

text \<open>The depth on the left edge: the fuel of the ways down the tree.\<close>

fun kb_depth :: "'k kbnode \<Rightarrow> nat" where
  "kb_depth (KB i ks []) = 0"
| "kb_depth (KB i ks (c # cs)) = Suc (kb_depth c)"

definition kb_putp :: "('k \<Rightarrow> 'k \<Rightarrow> int) \<Rightarrow> 'k kbtree \<Rightarrow> 'k \<Rightarrow> kbmem \<Rightarrow> ('k kbtree \<times> kbmem) res" where
  "kb_putp cmp b k m =
     (let b = b\<lparr>kb_n_keys := kb_n_keys b + 1\<rparr>; r = kb_root b in
      bindE (if kb_n r = 2 * kb_t b - 1
        then bindE (new_node m) (\<lambda>m. kb_split (kb_t b) (KB True [] [r]) 0 r m)
        else Inr (r, m)) (\<lambda>(r, m).
      bindE (kb_putp_aux (Suc (kb_depth r)) (kb_t b) cmp r k m) (\<lambda>(r, m). Inr (b\<lparr>kb_root := r\<rparr>, m))))"

section \<open>Deleting\<close>

text \<open>The child at index \<open>i\<close> has only \<open>t - 1\<close> keys and is filled before the way goes on into it: with a key from its left
  sibling, or from its right one, or by joining it with one. The results are the node and the index of the child.\<close>

definition kb_from_left :: "nat \<Rightarrow> 'k kbnode \<Rightarrow> int \<Rightarrow> 'k kbnode \<Rightarrow> 'k kbnode \<Rightarrow> 'k kbnode res" where
  "kb_from_left t x i y xp =
     bindE (at_index (i - 1) (kb_ks x)) (\<lambda>e.
     bindE (ins_index (2 * t - 1) 0 e (kb_ks xp)) (\<lambda>xks.
     bindE (at_index (int (kb_n y) - 1) (kb_ks y)) (\<lambda>e.
     bindE (set_index (i - 1) e (kb_ks x)) (\<lambda>ks.
     bindE (if kb_int xp
       then bindE (at_index (int (kb_n y)) (kb_cs y)) (\<lambda>c. ins_index (2 * t) 0 c (kb_cs xp))
       else Inr (kb_cs xp)) (\<lambda>xcs.
     bindE (set_index (i - 1) (KB (kb_int y) (take (kb_n y - 1) (kb_ks y)) (take (kb_n y) (kb_cs y))) (kb_cs x)) (\<lambda>cs.
     bindE (set_index i (KB (kb_int xp) xks xcs) cs) (\<lambda>cs. Inr (KB (kb_int x) ks cs))))))))"

definition kb_from_right :: "nat \<Rightarrow> 'k kbnode \<Rightarrow> int \<Rightarrow> 'k kbnode \<Rightarrow> 'k kbnode \<Rightarrow> 'k kbnode res" where
  "kb_from_right t x i y xp =
     bindE (at_index i (kb_ks x)) (\<lambda>e.
     bindE (ins_index (2 * t - 1) (int (kb_n xp)) e (kb_ks xp)) (\<lambda>xks.
     bindE (at_index 0 (kb_ks y)) (\<lambda>e.
     bindE (set_index i e (kb_ks x)) (\<lambda>ks.
     bindE (if kb_int xp
       then bindE (at_index 0 (kb_cs y)) (\<lambda>c. ins_index (2 * t) (int (length (kb_cs xp))) c (kb_cs xp))
       else Inr (kb_cs xp)) (\<lambda>xcs.
     bindE (set_index i (KB (kb_int xp) xks xcs) (kb_cs x)) (\<lambda>cs.
     bindE (set_index (i + 1) (KB (kb_int y) (drop 1 (kb_ks y)) (if kb_int y then drop 1 (kb_cs y) else kb_cs y)) cs) (\<lambda>cs.
     Inr (KB (kb_int x) ks cs))))))))"

text \<open>The children \<open>i\<close> and \<open>i + 1\<close>, \<open>y\<close> and \<open>z\<close>, are joined with \<open>e\<close> between them; \<open>z\<close> is freed.\<close>

definition kb_join :: "nat \<Rightarrow> 'k kbnode \<Rightarrow> int \<Rightarrow> 'k \<Rightarrow> 'k kbnode \<Rightarrow> 'k kbnode \<Rightarrow> 'k kbnode res" where
  "kb_join t x i e y z =
     bindE (join_arrays (2 * t - 1) (kb_ks y @ [e]) (kb_ks z)) (\<lambda>yks.
     bindE (if kb_int y then join_arrays (2 * t) (kb_cs y) (kb_cs z) else Inr (kb_cs y)) (\<lambda>ycs.
     bindE (del_index i (kb_ks x)) (\<lambda>ks.
     bindE (set_index i (KB (kb_int y) yks ycs) (kb_cs x)) (\<lambda>cs.
     bindE (del_index (i + 1) cs) (\<lambda>cs. Inr (KB (kb_int x) ks cs))))))"

definition sib_has :: "(nat \<Rightarrow> bool) \<Rightarrow> 'k kbnode option \<Rightarrow> bool" where
  "sib_has P sib = (case sib of None \<Rightarrow> False | Some y \<Rightarrow> P (kb_n y))"

definition kb_fill :: "nat \<Rightarrow> 'k kbnode \<Rightarrow> int \<Rightarrow> kbmem \<Rightarrow> ('k kbnode \<times> int \<times> kbmem) res" where
  "kb_fill t x i m =
     bindE (at_index i (kb_cs x)) (\<lambda>xp.
     if kb_n xp = t - 1 then
       bindE (if 0 < i then bindE (at_index (i - 1) (kb_cs x)) (\<lambda>y. Inr (Some y)) else Inr None) (\<lambda>ly.
       bindE (if i < int (kb_n x) then bindE (at_index (i + 1) (kb_cs x)) (\<lambda>y. Inr (Some y)) else Inr None) (\<lambda>ry.
       if sib_has (\<lambda>n. t \<le> n) ly then bindE (kb_from_left t x i (the ly) xp) (\<lambda>x. Inr (x, i, m))
       else if sib_has (\<lambda>n. t \<le> n) ry then bindE (kb_from_right t x i (the ry) xp) (\<lambda>x. Inr (x, i, m))
       else if sib_has (\<lambda>n. n = t - 1) ly then
         bindE (at_index (i - 1) (kb_ks x)) (\<lambda>e.
         bindE (kb_join t x (i - 1) e (the ly) xp) (\<lambda>x. Inr (x, i - 1, free_node m)))
       else if sib_has (\<lambda>n. n = t - 1) ry then
         bindE (at_index i (kb_ks x)) (\<lambda>e.
         bindE (kb_join t x i e xp (the ry)) (\<lambda>x. Inr (x, i, free_node m)))
       else Inr (x, i, m)))
     else Inr (x, i, m))"

text \<open>With \<open>s = 0\<close> the key \<open>k\<close> is deleted, with \<open>s = 1\<close> the greatest and with \<open>s = 2\<close> the least; \<open>k\<close> is a null
  pointer then. The results are the deleted key, the node and the memory.\<close>

definition kb_del_place :: "('k \<Rightarrow> 'k \<Rightarrow> int) \<Rightarrow> 'k kbnode \<Rightarrow> 'k option \<Rightarrow> int \<Rightarrow> (int \<times> int) res" where
  "kb_del_place cmp x k s =
     (if s \<noteq> 0 then Inr (if s = 1 then int (kb_n x) - 1 else - 1, if \<not> kb_int x then 0 else if s = 1 then 1 else - 1)
      else case k of None \<Rightarrow> Inl NullDeref | Some k \<Rightarrow> Inr (kb_getp_aux cmp x k 0))"

fun kb_delp_aux :: "nat \<Rightarrow> nat \<Rightarrow> ('k \<Rightarrow> 'k \<Rightarrow> int) \<Rightarrow> 'k kbnode \<Rightarrow> 'k option \<Rightarrow> int \<Rightarrow> kbmem \<Rightarrow> ('k \<times> 'k kbnode \<times> kbmem) res" where
  "kb_delp_aux 0 t cmp x k s m = Inl Diverges"
| "kb_delp_aux (Suc f) t cmp x k s m =
     bindE (kb_del_place cmp x k s) (\<lambda>(i, r).
     if \<not> kb_int x then
       let i = (if s = 2 then i + 1 else i) in
       bindE (at_index i (kb_ks x)) (\<lambda>kp.
       bindE (del_index i (kb_ks x)) (\<lambda>ks. Inr (kp, KB (kb_int x) ks (kb_cs x), m)))
     else
       let descend = (\<lambda>m.
         bindE (kb_fill t x (i + 1) m) (\<lambda>(x, i, m).
         bindE (at_index i (kb_cs x)) (\<lambda>xp.
         bindE (kb_delp_aux f t cmp xp k s m) (\<lambda>(kp, xp, m).
         bindE (set_index i xp (kb_cs x)) (\<lambda>cs. Inr (kp, KB (kb_int x) (kb_ks x) cs, m))))))
       in if r = 0 then
         bindE (at_index i (kb_cs x)) (\<lambda>y.
         bindE (at_index (i + 1) (kb_cs x)) (\<lambda>z.
         if t \<le> kb_n y then
           bindE (at_index i (kb_ks x)) (\<lambda>kp.
           bindE (kb_delp_aux f t cmp y None 1 m) (\<lambda>(e, y, m).
           bindE (set_index i e (kb_ks x)) (\<lambda>ks.
           bindE (set_index i y (kb_cs x)) (\<lambda>cs. Inr (kp, KB (kb_int x) ks cs, m)))))
         else if t \<le> kb_n z then
           bindE (at_index i (kb_ks x)) (\<lambda>kp.
           bindE (kb_delp_aux f t cmp z None 2 m) (\<lambda>(e, z, m).
           bindE (set_index i e (kb_ks x)) (\<lambda>ks.
           bindE (set_index (i + 1) z (kb_cs x)) (\<lambda>cs. Inr (kp, KB (kb_int x) ks cs, m)))))
         else if kb_n y = t - 1 \<and> kb_n z = t - 1 then
           (case k of None \<Rightarrow> Inl NullDeref | Some e \<Rightarrow>
              bindE (kb_join t x i e y z) (\<lambda>x.
              bindE (at_index i (kb_cs x)) (\<lambda>y.
              bindE (kb_delp_aux f t cmp y k s (free_node m)) (\<lambda>(kp, y, m).
              bindE (set_index i y (kb_cs x)) (\<lambda>cs. Inr (kp, KB (kb_int x) (kb_ks x) cs, m))))))
         else descend m))
       else descend m)"

definition kb_delp :: "('k \<Rightarrow> 'k \<Rightarrow> int) \<Rightarrow> 'k kbtree \<Rightarrow> 'k \<Rightarrow> kbmem \<Rightarrow> ('k \<times> 'k kbtree \<times> kbmem) res" where
  "kb_delp cmp b k m =
     bindE (kb_delp_aux (Suc (kb_depth (kb_root b))) (kb_t b) cmp (kb_root b) (Some k) 0 m) (\<lambda>(ret, x, m).
     let b = b\<lparr>kb_root := x, kb_n_keys := kb_n_keys b - 1\<rparr> in
     if kb_n x = 0 \<and> kb_int x then
       bindE (at_index 0 (kb_cs x)) (\<lambda>c.
       Inr (ret, b\<lparr>kb_root := c\<rparr>, free_node (m\<lparr>kb_n_nodes := kb_n_nodes m - 1\<rparr>)))
     else Inr (ret, b, m))"

section \<open>Walking and destroying\<close>

text \<open>The stack of \<open>traverse\<close>, top first: a node, or a null pointer below a leaf, and the index it has come to. The result
  is the list of keys that the callback is called with.\<close>

fun kb_trav :: "nat \<Rightarrow> ('k kbnode option \<times> nat) list \<Rightarrow> 'k list res" where
  "kb_trav 0 st = Inl Diverges"
| "kb_trav (Suc f) st = (case st of
     [] \<Rightarrow> Inr []
   | (x, i) # st' \<Rightarrow>
       if (case x of None \<Rightarrow> False | Some nd \<Rightarrow> i \<le> kb_n nd) then
         bindE (if kb_int (the x) then bindE (at_index (int i) (kb_cs (the x))) (\<lambda>c. Inr (Some c)) else Inr None) (\<lambda>c.
         kb_trav f ((c, 0) # st))
       else (case st' of
         [] \<Rightarrow> Inr []
       | (y, j) # st'' \<Rightarrow>
           bindE (kb_trav f ((y, Suc j) # st'')) (\<lambda>l.
           Inr ((case y of None \<Rightarrow> [] | Some nd \<Rightarrow> if j < kb_n nd then [kb_ks nd ! j] else []) @ l))))"

text \<open>Rounds of its loops on a node and what is below it.\<close>

fun kb_rounds :: "'k kbnode \<Rightarrow> nat" where
  "kb_rounds (KB b ks cs) = 2 * Suc (length ks) + (if b then sum_list (map kb_rounds cs) else 0)"

definition kb_traverse :: "'k kbtree \<Rightarrow> 'k list res" where
  "kb_traverse b = kb_trav (Suc (kb_rounds (kb_root b))) [(Some (kb_root b), 0)]"

fun kb_nodes :: "'k kbnode \<Rightarrow> nat" where
  "kb_nodes (KB b ks cs) = Suc (if b then sum_list (map kb_nodes cs) else 0)"

fun kb_destroy_loop :: "nat \<Rightarrow> 'k kbnode list \<Rightarrow> kbmem \<Rightarrow> kbmem res" where
  "kb_destroy_loop 0 st m = Inl Diverges"
| "kb_destroy_loop (Suc f) st m = (case st of
     [] \<Rightarrow> Inr m
   | x # st \<Rightarrow>
       if \<not> kb_int x then kb_destroy_loop f st (free_node m)
       else if length (kb_cs x) < Suc (kb_n x) then Inl OutOfBounds
       else kb_destroy_loop f (rev (take (Suc (kb_n x)) (kb_cs x)) @ st) (free_node m))"

definition kb_destroy :: "'k kbtree option \<Rightarrow> kbmem \<Rightarrow> kbmem res" where
  "kb_destroy b m = (case b of
     None \<Rightarrow> Inr m
   | Some b \<Rightarrow> bindE (kb_destroy_loop (Suc (kb_nodes (kb_root b))) [kb_root b] m) (\<lambda>m. Inr (free_node m)))"

section \<open>The class\<close>

definition kt_new :: "int \<Rightarrow> int \<Rightarrow> kbmem \<Rightarrow> ('k kbtree option \<times> kbmem) res" where
  "kt_new ksz sz m = kb_init_tree ksz sz m"

definition kt_destroy :: "'k kbtree option \<Rightarrow> kbmem \<Rightarrow> kbmem res" where
  "kt_destroy b m = kb_destroy b m"

definition kt_put :: "('k \<Rightarrow> 'k \<Rightarrow> int) \<Rightarrow> 'k kbtree option \<Rightarrow> 'k \<Rightarrow> kbmem \<Rightarrow> ('k kbtree option \<times> kbmem) res" where
  "kt_put cmp b k m = (case b of None \<Rightarrow> Inl NullDeref
     | Some b \<Rightarrow> bindE (kb_putp cmp b k m) (\<lambda>(b, m). Inr (Some b, m)))"

definition kt_del :: "('k \<Rightarrow> 'k \<Rightarrow> int) \<Rightarrow> 'k kbtree option \<Rightarrow> 'k \<Rightarrow> kbmem \<Rightarrow> ('k \<times> 'k kbtree option \<times> kbmem) res" where
  "kt_del cmp b k m = (case b of None \<Rightarrow> Inl NullDeref
     | Some b \<Rightarrow> bindE (kb_delp cmp b k m) (\<lambda>(e, b, m). Inr (e, Some b, m)))"

definition kt_traverse :: "'k kbtree option \<Rightarrow> 'k list res" where
  "kt_traverse b = (case b of None \<Rightarrow> Inl NullDeref | Some b \<Rightarrow> kb_traverse b)"

end
