(* ===== verification/TW_KTreeRep.thy ===== *)
theory TW_KTreeRep
  imports TW_KTree TW_Compare
begin

text \<open>
  The keys of a B-tree in order, when a node is one of a B-tree, and what the binary search in a node finds.
\<close>

section \<open>The keys in order\<close>

definition knit :: "'k list \<Rightarrow> 'k list list \<Rightarrow> 'k list" where
  "knit ks cs = concat (map2 (\<lambda>k c. k # c) ks cs)"

definition flat :: "'k list list \<Rightarrow> 'k list \<Rightarrow> 'k list" where
  "flat cs ks = concat (map2 (\<lambda>c k. c @ [k]) cs ks)"

definition weave :: "'k list list \<Rightarrow> 'k list \<Rightarrow> 'k list" where
  "weave cs ks = (case cs of [] \<Rightarrow> [] | c # cs \<Rightarrow> c @ knit ks cs)"

lemma knit_simps [simp]: "knit [] cs = []" "knit ks [] = []" "knit (k # ks) (c # cs) = k # c @ knit ks cs"
  by (simp_all add: knit_def)

lemma flat_simps [simp]: "flat [] ks = []" "flat cs [] = []" "flat (c # cs) (k # ks) = c @ k # flat cs ks"
  by (simp_all add: flat_def)

lemma weave_simps [simp]: "weave [] ks = []" "weave (c # cs) ks = c @ knit ks cs"
  by (simp_all add: weave_def)

lemma knit_append [simp]: "length ps = length as \<Longrightarrow> knit (ps @ ks) (as @ cs) = knit ps as @ knit ks cs"
  by (simp add: knit_def)

lemma flat_append [simp]: "length as = length ps \<Longrightarrow> flat (as @ cs) (ps @ ks) = flat as ps @ flat cs ks"
  by (simp add: flat_def)

text \<open>A child in the middle, with the keys and the children to both sides.\<close>

lemma weave_mid: "length as = length ps \<Longrightarrow> weave (as @ y # bs) (ps @ qs) = flat as ps @ y @ knit qs bs"
proof (induction as ps arbitrary: y rule: list_induct2)
  case (Cons a as p ps)
  then show ?case by (cases as) (auto simp: Cons)
qed simp

lemma set_knit: "length ks = length cs \<Longrightarrow> set (knit ks cs) = set ks \<union> \<Union> (set ` set cs)"
  by (induction ks cs rule: list_induct2) auto

lemma set_flat: "length cs = length ks \<Longrightarrow> set (flat cs ks) = set ks \<union> \<Union> (set ` set cs)"
  by (induction cs ks rule: list_induct2) auto

fun kb_keys :: "'k kbnode \<Rightarrow> 'k list" where
  "kb_keys (KB b ks cs) = (if b then weave (map kb_keys cs) ks else ks)"

section \<open>B-trees\<close>

text \<open>\<open>x\<close> is a node of a B-tree, with all leaves \<open>h\<close> levels below: at most \<open>2 t - 1\<close> keys in a node, and at least
  \<open>t - 1\<close> in each below \<open>x\<close>.\<close>

fun kb_ok :: "nat \<Rightarrow> nat \<Rightarrow> 'k kbnode \<Rightarrow> bool" where
  "kb_ok t 0 (KB b ks cs) \<longleftrightarrow> \<not> b \<and> cs = [] \<and> length ks \<le> 2 * t - 1"
| "kb_ok t (Suc h) (KB b ks cs) \<longleftrightarrow> b \<and> length cs = Suc (length ks) \<and> length ks \<le> 2 * t - 1
     \<and> (\<forall>c \<in> set cs. kb_ok t h c \<and> t - 1 \<le> kb_n c)"

lemma kb_ok_fields:
  assumes "kb_ok t h x"
  shows "kb_int x \<longleftrightarrow> h \<noteq> 0" and "kb_n x \<le> 2 * t - 1" and "h = 0 \<Longrightarrow> x = KB False (kb_ks x) []"
    and "h \<noteq> 0 \<Longrightarrow> length (kb_cs x) = Suc (kb_n x)"
  using assms by (cases x; cases h; auto)+

lemma kb_ok_depth: "kb_ok t h x \<Longrightarrow> kb_depth x = h"
proof (induction h arbitrary: x)
  case 0
  then show ?case by (cases x) auto
next
  case (Suc h)
  then show ?case by (cases x; cases "kb_cs x") auto
qed

lemma kb_keys_leaf [simp]: "kb_keys (KB False ks cs) = ks"
  by simp

lemma kb_keys_Nil: "kb_ok t h x \<Longrightarrow> kb_n x = 0 \<Longrightarrow> kb_keys x = (if h = 0 then [] else kb_keys (hd (kb_cs x)))"
  by (cases x; cases h) (auto simp: length_Suc_conv)

text \<open>An internal node, cut at one of its children.\<close>

lemma node_cut:
  assumes "length cs = Suc (length ks)" and "i \<le> length ks"
  obtains as y bs ps qs where "cs = as @ y # bs" "ks = ps @ qs" "length as = i" "length ps = i" "length bs = length qs"
proof
  show "cs = take i cs @ cs ! i # drop (Suc i) cs" using assms by (simp add: id_take_nth_drop)
  show "ks = take i ks @ drop i ks" by simp
qed (use assms in auto)

lemma kb_keys_cut:
  "length as = length ps \<Longrightarrow> kb_keys (KB True (ps @ qs) (as @ y # bs))
     = flat (map kb_keys as) ps @ kb_keys y @ knit qs (map kb_keys bs)"
  by (simp add: weave_mid)

lemma ordered_knit: "length ks = length cs \<Longrightarrow> ordered cmp (knit ks cs) \<Longrightarrow> ordered cmp ks"
  by (induction ks cs rule: list_induct2) (auto simp: ordered_Cons ordered_append set_knit)

lemma ordered_keys:
  assumes "kb_ok t h x" and "ordered cmp (kb_keys x)"
  shows "ordered cmp (kb_ks x)"
proof (cases h)
  case 0
  then show ?thesis using assms by (cases x) auto
next
  case (Suc h')
  obtain ks c cs where x: "x = KB True ks (c # cs)" "length cs = length ks"
    using assms(1) Suc by (cases x; cases "kb_cs x") auto
  then show ?thesis using assms(2) ordered_knit [of ks "map kb_keys cs"] by (simp add: ordered_append)
qed

section \<open>The search in a node\<close>

text \<open>Between \<open>b\<close> and \<open>e\<close> lies the first key that is not less.\<close>

definition first_ge :: "('k \<Rightarrow> 'k \<Rightarrow> int) \<Rightarrow> 'k \<Rightarrow> 'k list \<Rightarrow> nat \<Rightarrow> bool" where
  "first_ge cmp k ks b \<longleftrightarrow> b \<le> length ks \<and> (\<forall>j<b. cmp (ks ! j) k < 0) \<and> (\<forall>j. b \<le> j \<longrightarrow> j < length ks \<longrightarrow> 0 \<le> cmp (ks ! j) k)"

context comparing begin

lemma ordered_nth: "ordered cmp ks \<Longrightarrow> i < j \<Longrightarrow> j < length ks \<Longrightarrow> cmp (ks ! i) (ks ! j) \<le> 0"
  by (auto simp: ordered_def sorted_wrt_iff_nth_less)

lemma less_below:
  assumes "ordered cmp ks" and "cmp (ks ! m) k < 0" and "m < length ks" and "j \<le> m"
  shows "cmp (ks ! j) k < 0"
  using assms ordered_nth [of ks j m] le_less_trans [of "ks ! j" "ks ! m" k] by (cases "j = m") auto

lemma ge_above:
  assumes "ordered cmp ks" and "0 \<le> cmp (ks ! m) k" and "m \<le> j" and "j < length ks"
  shows "0 \<le> cmp (ks ! j) k"
  using assms ordered_nth [of ks m j] le_swap le_trans [of k "ks ! m" "ks ! j"] by (cases "j = m") auto

lemma bsearch_first:
  "ordered cmp ks \<Longrightarrow> b \<le> e \<Longrightarrow> e \<le> length ks \<Longrightarrow> \<forall>j<b. cmp (ks ! j) k < 0
    \<Longrightarrow> \<forall>j. e \<le> j \<longrightarrow> j < length ks \<longrightarrow> 0 \<le> cmp (ks ! j) k \<Longrightarrow> first_ge cmp k ks (kb_bsearch cmp k ks b e)"
proof (induction "e - b" arbitrary: b e rule: less_induct)
  case less
  let ?mid = "(b + e) div 2"
  show ?case
  proof (cases "b < e")
    case False
    then have "b = e" using less.prems(2) by simp
    moreover have "kb_bsearch cmp k ks b e = b" using False kb_bsearch.simps [of cmp k ks b e] by simp
    ultimately have "b = e" "kb_bsearch cmp k ks b e = b" by blast+
    then show ?thesis using less.prems by (simp add: first_ge_def)
  next
    case True
    note s = kb_bsearch.simps [of cmp k ks b e]
    show ?thesis
    proof (cases "cmp (ks ! ?mid) k < 0")
      case lt: True
      have "first_ge cmp k ks (kb_bsearch cmp k ks (?mid + 1) e)"
      proof (rule less.hyps)
        show "\<forall>j<?mid + 1. cmp (ks ! j) k < 0"
          using less_below [OF less.prems(1) lt] less.prems(3) True by auto
      qed (use True less.prems in auto)
      then show ?thesis using s True lt by (simp add: Let_def)
    next
      case ge: False
      have "first_ge cmp k ks (kb_bsearch cmp k ks b ?mid)"
      proof (rule less.hyps)
        show "\<forall>j. ?mid \<le> j \<longrightarrow> j < length ks \<longrightarrow> 0 \<le> cmp (ks ! j) k"
          using ge_above [OF less.prems(1), of ?mid k] ge by (simp add: linorder_not_less)
      qed (use True less.prems in auto)
      then show ?thesis using s True ge by (simp add: Let_def)
    qed
  qed
qed

lemma getp_first:
  assumes "ordered cmp ks" and "ks \<noteq> []"
  obtains b where "first_ge cmp k ks b"
    and "kb_getp_aux cmp (KB n ks cs) k r = (if b = length ks then (int b - 1, 1)
      else let c = cmp k (ks ! b) in (if c < 0 then int b - 1 else int b, c))"
  using bsearch_first [OF assms(1), of 0 "length ks" k] assms(2)
  by (auto simp: kb_getp_aux_def Let_def intro!: that [of "kb_bsearch cmp k ks 0 (length ks)"])

text \<open>The search cuts the keys of a node in two.\<close>

lemma getp_cut:
  assumes "ordered cmp ks" and "kb_getp_aux cmp (KB n ks cs) k r = (i, r')"
  obtains ps qs where "ks = ps @ qs" "i = int (length ps) - 1" "\<forall>p \<in> set ps. cmp p k \<le> 0" "\<forall>q \<in> set qs. cmp k q \<le> 0"
    and "ks \<noteq> [] \<longrightarrow> r' = 0 \<longrightarrow> ps \<noteq> [] \<and> cmp k (last ps) = 0"
    and "ks \<noteq> [] \<longrightarrow> r' \<noteq> 0 \<longrightarrow> (\<forall>p \<in> set ps. cmp p k < 0) \<and> (\<forall>q \<in> set qs. cmp k q < 0)"
proof (cases "ks = []")
  case True
  then show ?thesis using assms(2) by (intro that [of "[]" "[]"]) (auto simp: kb_getp_aux_def)
next
  case False
  obtain b where b: "first_ge cmp k ks b"
    and g: "kb_getp_aux cmp (KB n ks cs) k r = (if b = length ks then (int b - 1, 1)
      else let c = cmp k (ks ! b) in (if c < 0 then int b - 1 else int b, c))"
    by (rule getp_first [OF assms(1) False])
  have lo: "\<forall>p \<in> set (take b ks). cmp p k < 0" and hi: "\<forall>q \<in> set (drop b ks). 0 \<le> cmp q k" and bl: "b \<le> length ks"
    using b by (auto simp: first_ge_def in_set_conv_nth)
  show ?thesis
  proof (cases "b = length ks \<or> cmp k (ks ! b) < 0")
    case True
    have hi': "\<forall>q \<in> set (drop b ks). cmp k q < 0"
    proof (cases "b = length ks")
      case False
      then have c: "cmp k (ks ! b) < 0" using True by simp
      show ?thesis
      proof
        fix q assume "q \<in> set (drop b ks)"
        then obtain j where j: "q = ks ! (b + j)" "b + j < length ks" by (auto simp: in_set_conv_nth)
        then show "cmp k q < 0"
          using c ordered_nth [OF assms(1), of b "b + j"] less_le_trans [OF c, of q] by (cases "j = 0") auto
      qed
    qed simp
    have "i = int b - 1" "r' \<noteq> 0" using g assms(2) True by (auto simp: Let_def split: if_splits)
    then show ?thesis using lo hi' bl
      by (intro that [of "take b ks" "drop b ks"]) (auto simp: order_less_imp_le)
  next
    case F: False
    have z: "cmp k (ks ! b) = 0"
      using F b bl le_swap [of k "ks ! b"] by (auto simp: first_ge_def)
    have "i = int b" "r' = 0" using g assms(2) z F by (auto simp: Let_def)
    moreover have "set (drop (Suc b) ks) \<subseteq> set (drop b ks)" by (simp add: set_drop_subset_set_drop)
    moreover have "ks = take (Suc b) ks @ drop (Suc b) ks" by simp
    moreover have "take (Suc b) ks = take b ks @ [ks ! b]" using F bl by (simp add: take_Suc_conv_app_nth)
    moreover have "\<forall>p \<in> set (take b ks). cmp p k \<le> 0" using lo by (auto intro: order_less_imp_le)
    moreover have "\<forall>q \<in> set (drop b ks). cmp k q \<le> 0" using hi by (simp add: le_swap)
    ultimately show ?thesis using F bl z zero_swap [of k "ks ! b"]
      by (intro that [of "take (Suc b) ks" "drop (Suc b) ks"]) auto
  qed
qed

end

end
