(* ===== verification/TW_KTreePut.thy ===== *)
theory TW_KTreePut
  imports TW_KTreeRep
begin

text \<open>
  What \<open>kb_getp\<close> finds, and that \<open>kb_putp\<close> inserts a key at its place in the order and keeps the B-tree one.
\<close>

section \<open>Both sides of a child\<close>

lemma flat_key: "length as = length ps \<Longrightarrow> ordered cmp (flat as ps) \<Longrightarrow> a \<in> set (flat as ps)
  \<Longrightarrow> \<exists>p \<in> set ps. a = p \<or> cmp a p \<le> 0"
  by (induction as ps rule: list_induct2) (auto simp: ordered_append ordered_Cons)

lemma knit_key: "length qs = length bs \<Longrightarrow> ordered cmp (knit qs bs) \<Longrightarrow> b \<in> set (knit qs bs)
  \<Longrightarrow> \<exists>q \<in> set qs. b = q \<or> cmp q b \<le> 0"
  by (induction qs bs rule: list_induct2) (auto simp: ordered_append ordered_Cons)

context comparing begin

lemma flat_le: "length as = length ps \<Longrightarrow> ordered cmp (flat as ps) \<Longrightarrow> \<forall>p \<in> set ps. cmp p k \<le> 0
  \<Longrightarrow> \<forall>a \<in> set (flat as ps). cmp a k \<le> 0"
  using flat_key le_trans by metis

lemma flat_less: "length as = length ps \<Longrightarrow> ordered cmp (flat as ps) \<Longrightarrow> \<forall>p \<in> set ps. cmp p k < 0
  \<Longrightarrow> \<forall>a \<in> set (flat as ps). cmp a k < 0"
  using flat_key le_less_trans by metis

lemma knit_ge: "length qs = length bs \<Longrightarrow> ordered cmp (knit qs bs) \<Longrightarrow> \<forall>q \<in> set qs. cmp k q \<le> 0
  \<Longrightarrow> \<forall>b \<in> set (knit qs bs). cmp k b \<le> 0"
  using knit_key le_trans by metis

lemma knit_greater: "length qs = length bs \<Longrightarrow> ordered cmp (knit qs bs) \<Longrightarrow> \<forall>q \<in> set qs. cmp k q < 0
  \<Longrightarrow> \<forall>b \<in> set (knit qs bs). cmp k b < 0"
  using knit_key less_le_trans by metis

end

section \<open>Arrays\<close>

lemma at_index_mid [simp]: "i = int (length as) \<Longrightarrow> at_index i (as @ y # bs) = Inr y"
  by (simp add: at_index_def)

lemma set_index_mid [simp]: "i = int (length as) \<Longrightarrow> set_index i v (as @ y # bs) = Inr (as @ v # bs)"
  by (simp add: set_index_def)

lemma ins_index_mid [simp]: "i = int (length as) \<Longrightarrow> length as + length bs < cap \<Longrightarrow> ins_index cap i v (as @ bs) = Inr (as @ v # bs)"
  by (simp add: ins_index_def)

lemma del_index_mid [simp]: "i = int (length as) \<Longrightarrow> del_index i (as @ y # bs) = Inr (as @ bs)"
  by (simp add: del_index_def)

section \<open>Finding\<close>

text \<open>An internal node cut at the child that the search goes on in.\<close>

context comparing begin

lemma descend_cut:
  assumes ok: "kb_ok t h x" "kb_int x" and ord: "ordered cmp (kb_keys x)" and g: "kb_getp_aux cmp x k r = (i, r')"
  obtains as y bs ps qs h' where "x = KB True (ps @ qs) (as @ y # bs)" "h = Suc h'" "length as = length ps" "length bs = length qs"
    and "i = int (length ps) - 1" "kb_ok t h' y" "ordered cmp (kb_keys y)"
    and "\<forall>a \<in> set (flat (map kb_keys as) ps). cmp a k \<le> 0" "\<forall>b \<in> set (knit qs (map kb_keys bs)). cmp k b \<le> 0"
    and "r' \<noteq> 0 \<or> ps = [] \<longrightarrow> kb_n x \<noteq> 0 \<longrightarrow> (\<forall>a \<in> set (flat (map kb_keys as) ps). cmp a k < 0) \<and> (\<forall>b \<in> set (knit qs (map kb_keys bs)). cmp k b < 0)"
    and "kb_n x \<noteq> 0 \<longrightarrow> r' = 0 \<longrightarrow> ps \<noteq> [] \<and> cmp k (last ps) = 0"
proof -
  obtain ks cs h' where x: "x = KB True ks cs" and h: "h = Suc h'" and l: "length cs = Suc (length ks)"
    using ok by (cases x; cases h) auto
  have "ordered cmp ks" "kb_getp_aux cmp (KB True ks cs) k r = (i, r')" using ordered_keys [OF ok(1) ord] g x by simp_all
  then obtain ps qs where ks: "ks = ps @ qs" and i: "i = int (length ps) - 1"
    and le: "\<forall>p \<in> set ps. cmp p k \<le> 0" "\<forall>q \<in> set qs. cmp k q \<le> 0"
    and z: "ks \<noteq> [] \<longrightarrow> r' = 0 \<longrightarrow> ps \<noteq> [] \<and> cmp k (last ps) = 0"
    and s: "ks \<noteq> [] \<longrightarrow> r' \<noteq> 0 \<longrightarrow> (\<forall>p \<in> set ps. cmp p k < 0) \<and> (\<forall>q \<in> set qs. cmp k q < 0)"
    by (rule getp_cut)
  obtain as y bs where cs: "cs = as @ y # bs" and la: "length as = length ps" "length bs = length qs"
    using node_cut [OF l, of "length ps"] ks by (metis append_eq_append_conv length_append le_add1)
  have o: "ordered cmp (flat (map kb_keys as) ps)" "ordered cmp (kb_keys y)" "ordered cmp (knit qs (map kb_keys bs))"
    using ord la by (simp_all add: x ks cs weave_mid ordered_append)
  show ?thesis
  proof
    show "x = KB True (ps @ qs) (as @ y # bs)" using x ks cs by simp
    show "kb_ok t h' y" using ok(1) by (simp add: x h cs)
    show "\<forall>a \<in> set (flat (map kb_keys as) ps). cmp a k \<le> 0" using flat_le [OF _ o(1) le(1)] la by simp
    show "\<forall>b \<in> set (knit qs (map kb_keys bs)). cmp k b \<le> 0" using knit_ge [OF _ o(3) le(2)] la by simp
    show "r' \<noteq> 0 \<or> ps = [] \<longrightarrow> kb_n x \<noteq> 0 \<longrightarrow> (\<forall>a \<in> set (flat (map kb_keys as) ps). cmp a k < 0) \<and> (\<forall>b \<in> set (knit qs (map kb_keys bs)). cmp k b < 0)"
    proof (intro impI)
      assume "r' \<noteq> 0 \<or> ps = []" "kb_n x \<noteq> 0"
      then have "ks \<noteq> []" "r' \<noteq> 0" using z x by auto
      then have "\<forall>p \<in> set ps. cmp p k < 0" "\<forall>q \<in> set qs. cmp k q < 0" using s by blast+
      then show "(\<forall>a \<in> set (flat (map kb_keys as) ps). cmp a k < 0) \<and> (\<forall>b \<in> set (knit qs (map kb_keys bs)). cmp k b < 0)"
        using la flat_less [OF _ o(1), of k] knit_greater [OF _ o(3), of k] by simp
    qed
    show "kb_n x \<noteq> 0 \<longrightarrow> r' = 0 \<longrightarrow> ps \<noteq> [] \<and> cmp k (last ps) = 0" using z x by simp
  qed (fact h la i o(2))+
qed

lemma getp_leaf:
  assumes "ordered cmp ks"
  shows "holds (kb_getp (Suc f) cmp (KB False ks cs) k r)
     (\<lambda>e. case e of None \<Rightarrow> \<forall>e \<in> set ks. cmp k e \<noteq> 0 | Some e \<Rightarrow> e \<in> set ks \<and> cmp k e = 0)"
proof -
  obtain i r' where g: "kb_getp_aux cmp (KB False ks cs) k r = (i, r')" by fastforce
  obtain ps qs where c: "ks = ps @ qs" "i = int (length ps) - 1"
    and le: "\<forall>p \<in> set ps. cmp p k \<le> 0" "\<forall>q \<in> set qs. cmp k q \<le> 0"
    and z: "ks \<noteq> [] \<longrightarrow> r' = 0 \<longrightarrow> ps \<noteq> [] \<and> cmp k (last ps) = 0"
    and s: "ks \<noteq> [] \<longrightarrow> r' \<noteq> 0 \<longrightarrow> (\<forall>p \<in> set ps. cmp p k < 0) \<and> (\<forall>q \<in> set qs. cmp k q < 0)"
    by (rule getp_cut [OF assms g])
  show ?thesis
  proof (cases "0 \<le> i \<and> r' = 0")
    case True
    then obtain ps' p where "ps = ps' @ [p]" using c(2) by (cases ps rule: rev_cases) auto
    then show ?thesis using True c z g by (simp add: at_index_def nth_append)
  next
    case False
    have "\<forall>e \<in> set ks. cmp k e \<noteq> 0"
    proof (cases "ks = []")
      case nonempty: False
      then have "(\<forall>p \<in> set ps. 0 < cmp k p) \<and> (\<forall>q \<in> set qs. cmp k q < 0)" using s z c(2) False less_swap by force
      then show ?thesis using c(1) by force
    qed simp
    then show ?thesis using g by (simp add: if_not_P [OF False])
  qed
qed

lemma getp_finds:
  "kb_ok t h x \<Longrightarrow> ordered cmp (kb_keys x) \<Longrightarrow> h < f \<Longrightarrow> holds (kb_getp f cmp x k r)
     (\<lambda>e. case e of None \<Rightarrow> \<forall>e \<in> set (kb_keys x). cmp k e \<noteq> 0 | Some e \<Rightarrow> e \<in> set (kb_keys x) \<and> cmp k e = 0)"
proof (induction f arbitrary: x h r)
  case (Suc f)
  obtain i r' where g: "kb_getp_aux cmp x k r = (i, r')" by fastforce
  show ?case
  proof (cases "kb_int x")
    case False
    then have x: "x = KB False (kb_ks x) []" using kb_ok_fields [OF Suc.prems(1)] by (cases x) auto
    then have "kb_keys x = kb_ks x" by (metis kb_keys_leaf)
    then show ?thesis using getp_leaf [of "kb_ks x" f "[]" k r] Suc.prems(2) by (subst x) simp
  next
    case True
    obtain as y bs ps qs h' where x: "x = KB True (ps @ qs) (as @ y # bs)" "h = Suc h'" "length as = length ps" "length bs = length qs"
      and i: "i = int (length ps) - 1" and y: "kb_ok t h' y" "ordered cmp (kb_keys y)"
      and le: "\<forall>a \<in> set (flat (map kb_keys as) ps). cmp a k \<le> 0" "\<forall>b \<in> set (knit qs (map kb_keys bs)). cmp k b \<le> 0"
      and s: "r' \<noteq> 0 \<or> ps = [] \<longrightarrow> kb_n x \<noteq> 0 \<longrightarrow> (\<forall>a \<in> set (flat (map kb_keys as) ps). cmp a k < 0) \<and> (\<forall>b \<in> set (knit qs (map kb_keys bs)). cmp k b < 0)"
      and z: "kb_n x \<noteq> 0 \<longrightarrow> r' = 0 \<longrightarrow> ps \<noteq> [] \<and> cmp k (last ps) = 0"
      by (rule descend_cut [OF Suc.prems(1) True Suc.prems(2) g])
    note keys = kb_keys_cut [OF x(3), of qs y bs, folded x(1)]
    show ?thesis
    proof (cases "0 \<le> i \<and> r' = 0")
      case T: True
      then obtain ps' p where p: "ps = ps' @ [p]" using i by (cases ps rule: rev_cases) auto
      then have "cmp k p = 0" using z T x(1) by simp
      moreover have "p \<in> set (kb_keys x)" using x(3) p by (simp add: keys set_flat)
      ultimately show ?thesis using T p g x(1) i by (simp add: at_index_def nth_append)
    next
      case False
      have e: "\<forall>e \<in> set (flat (map kb_keys as) ps) \<union> set (knit qs (map kb_keys bs)). cmp k e \<noteq> 0"
      proof (cases "kb_n x = 0")
        case nonempty: False
        then have "(\<forall>a \<in> set (flat (map kb_keys as) ps). 0 < cmp k a) \<and> (\<forall>b \<in> set (knit qs (map kb_keys bs)). cmp k b < 0)"
          using s z False i less_swap by force
        then show ?thesis by force
      qed (simp add: x(1))
      have "holds (kb_getp f cmp y k r') (\<lambda>e. case e of None \<Rightarrow> \<forall>e \<in> set (kb_keys y). cmp k e \<noteq> 0
        | Some e \<Rightarrow> e \<in> set (kb_keys y) \<and> cmp k e = 0)"
        by (rule Suc.IH [OF y]) (use Suc.prems(3) x(2) in simp)
      moreover have "kb_getp (Suc f) cmp x k r = kb_getp f cmp y k r'" using g x(1,3) i False by auto
      ultimately show ?thesis using e by (auto simp: keys elim!: holds_mono split: option.splits)
    qed
  qed
qed simp

end

section \<open>Splitting a full child\<close>

lemma weave_split: "length cs = Suc (length ks) \<Longrightarrow> weave (cs @ ds) (ks @ e # ls) = weave cs ks @ (case ds of [] \<Rightarrow> [] | d # ds \<Rightarrow> e # d @ knit ls ds)"
  using knit_append [of ks "tl cs" "e # ls" ds] by (cases cs; cases ds) simp_all

lemma split_ok:
  assumes y: "kb_ok t h y" "kb_n y = 2 * t - 1" and t: "2 \<le> t" and m: "kb_room m \<noteq> 0"
    and l: "length as = length ps" "length bs = length qs" "length (ps @ qs) < 2 * t - 1"
  obtains y' e z where "kb_split t (KB True (ps @ qs) (as @ y # bs)) (int (length ps)) y m
      = Inr (KB True (ps @ e # qs) (as @ y' # z # bs), m\<lparr>kb_room := kb_room m - 1, kb_n_nodes := kb_n_nodes m + 1\<rparr>)"
    and "kb_keys y = kb_keys y' @ e # kb_keys z" "kb_ok t h y'" "kb_ok t h z" "kb_n y' = t - 1" "kb_n z = t - 1"
    and "kb_nodes y' + kb_nodes z = Suc (kb_nodes y)"
proof -
  define K1 K2 e where K: "K1 = take (t - 1) (kb_ks y)" "K2 = take (t - 1) (drop t (kb_ks y))" "e = kb_ks y ! (t - 1)"
  have n: "length (kb_ks y) = t + (t - 1)" "t - 1 < length (kb_ks y)" "Suc (t - 1) = t" using y(2) t by simp_all
  then have ks: "kb_ks y = K1 @ e # K2"
    using id_take_nth_drop [OF n(2)] by (simp add: K)
  have lk: "length K1 = t - 1" "length K2 = t - 1" using n by (simp_all add: K)
  have full: "\<not> kb_n y < 2 * t - 1" using y(2) by simp
  show ?thesis
  proof (cases h)
    case 0
    then have x: "y = KB False (K1 @ e # K2) []" using kb_ok_fields [OF y(1)] ks by simp
    show ?thesis
    proof
      show "kb_split t (KB True (ps @ qs) (as @ y # bs)) (int (length ps)) y m
        = Inr (KB True (ps @ e # qs) (as @ KB False K1 [] # KB False K2 [] # bs), m\<lparr>kb_room := kb_room m - 1, kb_n_nodes := kb_n_nodes m + 1\<rparr>)"
        using m l t full lk ins_index_mid [of "int (length ps) + 1" "as @ [KB False K1 []]" bs "2 * t" "KB False K2 []"]
        by (simp add: kb_split_def new_node_def K [symmetric] x nth_append Let_def)
    qed (use 0 x lk in simp_all)
  next
    case (Suc h')
    define C1 C2 where C: "C1 = take t (kb_cs y)" "C2 = take t (drop t (kb_cs y))"
    have lc: "length (kb_cs y) = 2 * t" using kb_ok_fields(4) [OF y(1)] Suc n by simp
    then have cs: "kb_cs y = C1 @ C2" and lC: "length C1 = t" "length C2 = t" by (simp_all add: C)
    have x: "y = KB True (K1 @ e # K2) (C1 @ C2)" using kb_ok_fields(1) [OF y(1)] Suc ks cs by (cases y) simp
    have ok: "kb_ok t h (KB True K1 C1)" "kb_ok t h (KB True K2 C2)" using y(1) lk lC t n by (auto simp: Suc x)
    obtain d ds where C2: "C2 = d # ds" using lC t by (cases C2) auto
    show ?thesis
    proof
      show "kb_split t (KB True (ps @ qs) (as @ y # bs)) (int (length ps)) y m
        = Inr (KB True (ps @ e # qs) (as @ KB True K1 C1 # KB True K2 C2 # bs), m\<lparr>kb_room := kb_room m - 1, kb_n_nodes := kb_n_nodes m + 1\<rparr>)"
        using m l t full lk lc lC ins_index_mid [of "int (length ps) + 1" "as @ [KB True K1 C1]" bs "2 * t" "KB True K2 C2"]
        by (simp add: kb_split_def new_node_def K [symmetric] C [symmetric] x nth_append Let_def)
      show "kb_keys y = kb_keys (KB True K1 C1) @ e # kb_keys (KB True K2 C2)"
        using weave_split [of "map kb_keys C1" K1] lC lk n(3) by (simp add: x C2)
    qed (use ok lk in \<open>simp_all add: x\<close>)
  qed
qed

section \<open>Putting\<close>

definition inserted :: "('k \<Rightarrow> 'k \<Rightarrow> int) \<Rightarrow> 'k \<Rightarrow> 'k list \<Rightarrow> 'k list \<Rightarrow> bool" where
  "inserted cmp k xs ys \<longleftrightarrow> (\<exists>as bs. xs = as @ bs \<and> ys = as @ k # bs \<and> (\<forall>a \<in> set as. cmp a k \<le> 0) \<and> (\<forall>b \<in> set bs. cmp k b \<le> 0))"

lemma insertedI: "\<forall>a \<in> set as. cmp a k \<le> 0 \<Longrightarrow> \<forall>b \<in> set bs. cmp k b \<le> 0 \<Longrightarrow> inserted cmp k (as @ bs) (as @ k # bs)"
  unfolding inserted_def by blast

lemma inserted_mid: "inserted cmp k xs ys \<Longrightarrow> \<forall>a \<in> set as. cmp a k \<le> 0 \<Longrightarrow> \<forall>b \<in> set bs. cmp k b \<le> 0
  \<Longrightarrow> inserted cmp k (as @ xs @ bs) (as @ ys @ bs)"
proof (unfold inserted_def, elim exE conjE)
  fix as' bs' assume "xs = as' @ bs'" "ys = as' @ k # bs'" "\<forall>a \<in> set as. cmp a k \<le> 0" "\<forall>b \<in> set bs. cmp k b \<le> 0"
    "\<forall>a \<in> set as'. cmp a k \<le> 0" "\<forall>b \<in> set bs'. cmp k b \<le> 0"
  then show "\<exists>as'' bs''. as @ xs @ bs = as'' @ bs'' \<and> as @ ys @ bs = as'' @ k # bs'' \<and> (\<forall>a \<in> set as''. cmp a k \<le> 0) \<and> (\<forall>b \<in> set bs''. cmp k b \<le> 0)"
    by (intro exI [of _ "as @ as'"] exI [of _ "bs' @ bs"]) auto
qed

lemma inserted_ordered: "inserted cmp k xs ys \<Longrightarrow> ordered cmp xs \<Longrightarrow> ordered cmp ys"
  by (auto simp: inserted_def ordered_append ordered_Cons)

lemma inserted_set: "inserted cmp k xs ys \<Longrightarrow> set ys = insert k (set xs)"
  by (auto simp: inserted_def)

text \<open>What \<open>kb_putp_aux\<close> promises of a node with room for a key: a B-tree of the same height, the key in its place, and
  every node that was allocated in the tree.\<close>

definition put_done :: "nat \<Rightarrow> ('k \<Rightarrow> 'k \<Rightarrow> int) \<Rightarrow> nat \<Rightarrow> 'k kbnode \<Rightarrow> 'k \<Rightarrow> kbmem \<Rightarrow> 'k kbnode \<times> kbmem \<Rightarrow> bool" where
  "put_done t cmp h x k m = (\<lambda>(x', m'). kb_ok t h x' \<and> kb_n x \<le> kb_n x' \<and> inserted cmp k (kb_keys x) (kb_keys x')
     \<and> kb_room m' + kb_nodes x' = kb_room m + kb_nodes x \<and> kb_n_nodes m' + int (kb_room m') = kb_n_nodes m + int (kb_room m))"

text \<open>A child with room is replaced by what a put made of it.\<close>

lemma put_done_child:
  assumes y: "put_done t cmp h y k m (y', m')" "t - 1 \<le> kb_n y"
    and x: "kb_ok t (Suc h) (KB True (ps @ qs) (as @ y # bs))" "length as = length ps"
    and le: "\<forall>a \<in> set (flat (map kb_keys as) ps). cmp a k \<le> 0" "\<forall>b \<in> set (knit qs (map kb_keys bs)). cmp k b \<le> 0"
  shows "put_done t cmp (Suc h) (KB True (ps @ qs) (as @ y # bs)) k m (KB True (ps @ qs) (as @ y' # bs), m')"
proof -
  note keys = kb_keys_cut [OF x(2)]
  show ?thesis using assms inserted_mid [OF _ le, of "kb_keys y" "kb_keys y'"]
    by (auto simp: put_done_def keys simp del: kb_keys.simps)
qed

lemma put_done_other:
  "put_done t cmp h w k m1 r \<Longrightarrow> kb_keys w = kb_keys x \<Longrightarrow> kb_n x \<le> kb_n w \<Longrightarrow> kb_room m1 + kb_nodes w = kb_room m + kb_nodes x
    \<Longrightarrow> kb_n_nodes m1 + int (kb_room m1) = kb_n_nodes m + int (kb_room m) \<Longrightarrow> put_done t cmp h x k m r"
  by (auto simp: put_done_def)

context comparing begin

lemma put_aux_ok:
  "kb_ok t h x \<Longrightarrow> kb_n x < 2 * t - 1 \<Longrightarrow> ordered cmp (kb_keys x) \<Longrightarrow> 2 \<le> t \<Longrightarrow> h < f \<Longrightarrow> h \<le> kb_room m
    \<Longrightarrow> holds (kb_putp_aux f t cmp x k m) (put_done t cmp h x k m)"
proof (induction f arbitrary: x h m)
  case (Suc f)
  obtain i r' where g: "kb_getp_aux cmp x k 0 = (i, r')" by fastforce
  show ?case
  proof (cases "kb_int x")
    case False
    obtain ks where x: "x = KB False ks []" and h: "h = 0" using kb_ok_fields(1,3) [OF Suc.prems(1)] False by auto
    obtain ps qs where c: "ks = ps @ qs" "i = int (length ps) - 1" "\<forall>p \<in> set ps. cmp p k \<le> 0" "\<forall>q \<in> set qs. cmp k q \<le> 0"
      by (rule getp_cut [of ks False "[]" k 0 i r']) (use g Suc.prems(3) x in auto)
    then show ?thesis using g Suc.prems(1,2) insertedI [OF c(3,4)] by (simp add: x h put_done_def)
  next
    case True
    obtain as y bs ps qs h' where x: "x = KB True (ps @ qs) (as @ y # bs)" "h = Suc h'" and l: "length as = length ps" "length bs = length qs"
      and i: "i = int (length ps) - 1" and y: "kb_ok t h' y" "ordered cmp (kb_keys y)"
      and le: "\<forall>a \<in> set (flat (map kb_keys as) ps). cmp a k \<le> 0" "\<forall>b \<in> set (knit qs (map kb_keys bs)). cmp k b \<le> 0"
      and s: "r' \<noteq> 0 \<or> ps = [] \<longrightarrow> kb_n x \<noteq> 0 \<longrightarrow> (\<forall>a \<in> set (flat (map kb_keys as) ps). cmp a k < 0) \<and> (\<forall>b \<in> set (knit qs (map kb_keys bs)). cmp k b < 0)"
      and z: "kb_n x \<noteq> 0 \<longrightarrow> r' = 0 \<longrightarrow> ps \<noteq> [] \<and> cmp k (last ps) = 0"
      by (rule descend_cut [OF Suc.prems(1) True Suc.prems(3) g])
    have yn: "t - 1 \<le> kb_n y" using Suc.prems(1) by (simp add: x)
    have fuel: "h' < f" "h' \<le> kb_room m" "h' \<le> kb_room m - 1" "kb_room m \<noteq> 0" using Suc.prems(5,6) x(2) by simp_all
    show ?thesis
    proof (cases "kb_n y = 2 * t - 1")
      case False
      have "holds (kb_putp_aux f t cmp y k m) (put_done t cmp h' y k m)"
        by (rule Suc.IH [OF y(1) _ y(2) Suc.prems(4) fuel(1,2)]) (use False kb_ok_fields(2) [OF y(1)] in simp)
      then obtain y' m' where y': "kb_putp_aux f t cmp y k m = Inr (y', m')" "put_done t cmp h' y k m (y', m')"
        by (auto simp: holds_iff)
      have "kb_putp_aux (Suc f) t cmp x k m = Inr (KB True (ps @ qs) (as @ y' # bs), m')"
        using g False i l y'(1) by (simp add: x del: One_nat_def)
      then show ?thesis using put_done_child [OF y'(2) yn _ l(1) le] Suc.prems(1) by (simp add: x)
    next
      case full: True
      define m1 where "m1 = m\<lparr>kb_room := kb_room m - 1, kb_n_nodes := kb_n_nodes m + 1\<rparr>"
      obtain u e v where sp: "kb_split t (KB True (ps @ qs) (as @ y # bs)) (int (length ps)) y m = Inr (KB True (ps @ e # qs) (as @ u # v # bs), m1)"
        and uv: "kb_keys y = kb_keys u @ e # kb_keys v" "kb_ok t h' u" "kb_ok t h' v" "kb_n u = t - 1" "kb_n v = t - 1"
        and nn: "kb_nodes u + kb_nodes v = Suc (kb_nodes y)"
        unfolding m1_def by (rule split_ok [OF y(1) full Suc.prems(4) fuel(4) l]) (use Suc.prems(2) x in simp)
      let ?w = "KB True (ps @ e # qs) (as @ u # v # bs)"
      have w: "kb_ok t h ?w" "kb_keys ?w = kb_keys x" "kb_n ?w = Suc (kb_n x)"
        using Suc.prems(1,2) uv l by (auto simp: x weave_mid)
      have o: "ordered cmp (kb_keys u)" "ordered cmp (kb_keys v)" "\<forall>a \<in> set (kb_keys u). cmp a e \<le> 0" "\<forall>b \<in> set (kb_keys v). cmp e b \<le> 0"
        using y(2) by (simp_all add: uv(1) ordered_append ordered_Cons)
      have room: "kb_room m1 + kb_nodes ?w = kb_room m + kb_nodes x" "kb_n_nodes m1 + int (kb_room m1) = kb_n_nodes m + int (kb_room m)"
        using nn fuel(4) by (simp_all add: m1_def x(1))
      have step: "put_done t cmp h x k m (KB True ps' cs', m')" if "put_done t cmp h ?w k m1 (KB True ps' cs', m')" for ps' cs' m'
        using put_done_other [OF that w(2) _ room] w(3) by simp
      have t: "t - 1 < 2 * t - 1" using Suc.prems(4) by simp
      have h: "h' \<le> kb_room m1" using fuel by (simp add: m1_def)
      show ?thesis
      proof (cases "0 < cmp k e")
        case True
        have "holds (kb_putp_aux f t cmp v k m1) (put_done t cmp h' v k m1)"
          by (rule Suc.IH [OF uv(3) _ o(2) Suc.prems(4) fuel(1) h]) (use uv t in simp)
        then obtain v' m' where v': "kb_putp_aux f t cmp v k m1 = Inr (v', m')" "put_done t cmp h' v k m1 (v', m')"
          by (auto simp: holds_iff)
        have ke: "cmp e k \<le> 0" using True less_swap(2) order_less_imp_le by blast
        have "put_done t cmp (Suc h') (KB True ((ps @ [e]) @ qs) ((as @ [u]) @ v # bs)) k m1 (KB True ((ps @ [e]) @ qs) ((as @ [u]) @ v' # bs), m')"
          by (rule put_done_child [OF v'(2)]) (use uv(5) w(1) x(2) l le o ke le_trans [OF _ ke] in auto)
        moreover have "kb_putp_aux (Suc f) t cmp x k m = Inr (KB True (ps @ e # qs) (as @ u # v' # bs), m')"
          using g full i l v'(1) True sp at_index_mid [of "int (length ps) + 1" "as @ [u]" v bs] set_index_mid [of "int (length ps) + 1" "as @ [u]" v' v bs]
          by (simp add: x)
        ultimately show ?thesis using step by (simp add: x(2))
      next
        case False
        have "holds (kb_putp_aux f t cmp u k m1) (put_done t cmp h' u k m1)"
          by (rule Suc.IH [OF uv(2) _ o(1) Suc.prems(4) fuel(1) h]) (use uv t in simp)
        then obtain u' m' where u': "kb_putp_aux f t cmp u k m1 = Inr (u', m')" "put_done t cmp h' u k m1 (u', m')"
          by (auto simp: holds_iff)
        have ke: "cmp k e \<le> 0" using False by simp
        have "put_done t cmp (Suc h') (KB True (ps @ (e # qs)) (as @ u # (v # bs))) k m1 (KB True (ps @ (e # qs)) (as @ u' # (v # bs)), m')"
          by (rule put_done_child [OF u'(2)]) (use uv(4) w(1) x(2) l le o ke le_trans [OF ke] in auto)
        moreover have "kb_putp_aux (Suc f) t cmp x k m = Inr (KB True (ps @ e # qs) (as @ u' # v # bs), m')"
          using g full i l u'(1) False sp by (simp add: x)
        ultimately show ?thesis using step by (simp add: x(2))
      qed
    qed
  qed
qed simp

end

section \<open>The tree\<close>

definition kbt_ok :: "('k \<Rightarrow> 'k \<Rightarrow> int) \<Rightarrow> 'k kbtree \<Rightarrow> bool" where
  "kbt_ok cmp b \<longleftrightarrow> 2 \<le> kb_t b \<and> kb_ok (kb_t b) (kb_depth (kb_root b)) (kb_root b)
     \<and> (kb_int (kb_root b) \<longrightarrow> kb_ks (kb_root b) \<noteq> []) \<and> ordered cmp (kb_keys (kb_root b))
     \<and> kb_n_keys b = int (length (kb_keys (kb_root b)))"

lemma inserted_length: "inserted cmp k xs ys \<Longrightarrow> length ys = Suc (length xs)"
  by (auto simp: inserted_def)

context comparing begin

lemma kb_putp_ok:
  assumes b: "kbt_ok cmp b" and room: "kb_depth (kb_root b) + 3 \<le> kb_room m"
  shows "holds (kb_putp cmp b k m) (\<lambda>(b', m'). kbt_ok cmp b' \<and> kb_t b' = kb_t b \<and> inserted cmp k (kb_keys (kb_root b)) (kb_keys (kb_root b'))
    \<and> kb_room m' + kb_nodes (kb_root b') = kb_room m + kb_nodes (kb_root b)
    \<and> kb_n_nodes m' + int (kb_room m') = kb_n_nodes m + int (kb_room m))"
proof -
  let ?r = "kb_root b" and ?t = "kb_t b"
  let ?h = "kb_depth ?r"
  have ok: "2 \<le> ?t" "kb_ok ?t ?h ?r" "ordered cmp (kb_keys ?r)" "kb_n_keys b = int (length (kb_keys ?r))"
    and ne: "kb_int ?r \<longrightarrow> kb_ks ?r \<noteq> []" using b by (auto simp: kbt_ok_def)
  have post: "kbt_ok cmp (b\<lparr>kb_n_keys := kb_n_keys b + 1, kb_root := x'\<rparr>)"
    if "put_done ?t cmp h x k m1 (x', m')" "kb_keys x = kb_keys ?r" "kb_int x \<longrightarrow> kb_ks x \<noteq> []" "h = kb_depth x" "kb_ok ?t h x" for h x m1 x' m'
  proof -
    have i: "inserted cmp k (kb_keys ?r) (kb_keys x')" "kb_ok ?t h x'" "kb_n x \<le> kb_n x'" using that(1,2) by (auto simp: put_done_def)
    have "kb_int x' \<longleftrightarrow> kb_int x" using kb_ok_fields(1) that(5) i(2) by blast
    then show ?thesis using i that(3) ok(1,4) inserted_ordered [OF i(1) ok(3)] inserted_length [OF i(1)] kb_ok_depth [OF i(2)]
      by (auto simp: kbt_ok_def)
  qed
  show ?thesis
  proof (cases "kb_n ?r = 2 * ?t - 1")
    case False
    have "holds (kb_putp_aux (Suc ?h) ?t cmp ?r k m) (put_done ?t cmp ?h ?r k m)"
      by (rule put_aux_ok [OF ok(2) _ ok(3) ok(1)]) (use False kb_ok_fields(2) [OF ok(2)] room in simp_all)
    then obtain x' m' where x': "kb_putp_aux (Suc ?h) ?t cmp ?r k m = Inr (x', m')" "put_done ?t cmp ?h ?r k m (x', m')"
      by (auto simp: holds_iff)
    then show ?thesis using False post [OF x'(2) refl ne refl ok(2)]
      by (simp add: kb_putp_def put_done_def del: kb_putp_aux.simps One_nat_def)
  next
    case True
    define m1 where "m1 = m\<lparr>kb_room := kb_room m - 1, kb_n_nodes := kb_n_nodes m + 1\<rparr>"
    define m2 where "m2 = m1\<lparr>kb_room := kb_room m1 - 1, kb_n_nodes := kb_n_nodes m1 + 1\<rparr>"
    have nm: "new_node m = Inr m1" and m1: "kb_room m1 \<noteq> 0" using room by (auto simp: new_node_def m1_def)
    have e: "length ([] :: 'd kbnode list) = length ([] :: 'd list)" "length ([] @ [] :: 'd list) < 2 * ?t - 1" using ok(1) by auto
    obtain u e v where "kb_split ?t (KB True ([] @ []) ([] @ ?r # [])) (int (length ([] :: 'd list))) ?r m1
        = Inr (KB True ([] @ e # []) ([] @ u # v # []), m1\<lparr>kb_room := kb_room m1 - 1, kb_n_nodes := kb_n_nodes m1 + 1\<rparr>)"
      and uv: "kb_keys ?r = kb_keys u @ e # kb_keys v" "kb_ok ?t ?h u" "kb_ok ?t ?h v" "kb_n u = ?t - 1" "kb_n v = ?t - 1"
      and nn: "kb_nodes u + kb_nodes v = Suc (kb_nodes ?r)"
      by (rule split_ok [OF ok(2) True ok(1) m1 e(1) e(1) e(2)])
    then have sp: "kb_split ?t (KB True [] [?r]) 0 ?r m1 = Inr (KB True [e] [u, v], m2)" by (simp add: m2_def)
    let ?w = "KB True [e] [u, v]"
    have w: "kb_ok ?t (Suc ?h) ?w" "kb_keys ?w = kb_keys ?r" "kb_depth ?w = Suc ?h"
      using uv ok(1) kb_ok_depth [OF uv(2)] by simp_all
    have "holds (kb_putp_aux (Suc (kb_depth ?w)) ?t cmp ?w k m2) (put_done ?t cmp (Suc ?h) ?w k m2)"
      by (rule put_aux_ok [OF w(1) _ _ ok(1)]) (use ok w(2,3) room in \<open>simp_all add: m1_def m2_def\<close>)
    then obtain x' m' where x': "kb_putp_aux (Suc (kb_depth ?w)) ?t cmp ?w k m2 = Inr (x', m')" "put_done ?t cmp (Suc ?h) ?w k m2 (x', m')"
      by (auto simp: holds_iff)
    have p: "kb_putp cmp b k m = Inr (b\<lparr>kb_n_keys := kb_n_keys b + 1, kb_root := x'\<rparr>, m')"
      using True nm sp x'(1) by (simp add: kb_putp_def Let_def del: kb_putp_aux.simps One_nat_def kb_depth.simps)
    have "kb_room m2 + kb_nodes ?w = kb_room m + kb_nodes ?r" "kb_n_nodes m2 + int (kb_room m2) = kb_n_nodes m + int (kb_room m)"
      using nn room by (simp_all add: m1_def m2_def)
    then show ?thesis using p x'(2) post [OF x'(2) w(2) _ w(3) [symmetric] w(1)] w(2)
      by (simp add: put_done_def del: kb_keys.simps kb_nodes.simps)
  qed
qed

end

end
