(* ===== verification/TW_KTreeDel.thy ===== *)
theory TW_KTreeDel
  imports TW_KTreePut
begin

text \<open>
  That \<open>kb_delp\<close> takes a key that is in the tree out of it, and keeps the B-tree one: the three ways to fill a child with
  too few keys, what they do to the order, and the way down.
\<close>

section \<open>Filling a child\<close>

lemma weave_Cons: "length cs = Suc (length ks) \<Longrightarrow> weave (c # cs) (k # ks) = c @ k # weave cs ks"
  by (cases cs) simp_all

lemma weave_snoc: "length cs = Suc (length ks) \<Longrightarrow> weave (cs @ [c]) (ks @ [k]) = weave cs ks @ k # c"
  using weave_split [of cs ks "[c]" k "[]"] by simp

lemma at_index_Cons [simp]: "at_index 0 (x # xs) = Inr x" "at_index 1 (x # y # xs) = Inr y"
  by (simp_all add: at_index_def)

lemma at_index_next [simp]:
  "i = int (length as) + 1 \<Longrightarrow> at_index i (as @ x # y # bs) = Inr y"
  "i = int (length as) + 2 \<Longrightarrow> at_index i (as @ x # y # z # bs) = Inr z"
  using at_index_mid [of i "as @ [x]" y bs] at_index_mid [of i "as @ [x, y]" z bs] by simp_all

text \<open>A node of height \<open>Suc h\<close>, and its last or its first child.\<close>

lemma node_last:
  assumes "kb_ok t (Suc h) z" and "kb_n z \<noteq> 0"
  obtains ks l cs c where "z = KB True (ks @ [l]) (cs @ [c])" "length cs = Suc (length ks)" "kb_ok t h c" "t - 1 \<le> kb_n c"
    and "kb_ok t (Suc h) (KB True ks cs)"
proof -
  obtain ks l where ks: "kb_ks z = ks @ [l]" using assms(2) by (cases "kb_ks z" rule: rev_cases) auto
  obtain cs c where cs: "kb_cs z = cs @ [c]" using kb_ok_fields(4) [OF assms(1)] by (cases "kb_cs z" rule: rev_cases) auto
  have "z = KB True (ks @ [l]) (cs @ [c])" using assms(1) ks cs by (cases z) simp
  then show ?thesis using assms(1) by (intro that [of ks l cs c]) auto
qed

lemma node_first:
  assumes "kb_ok t (Suc h) z" and "kb_n z \<noteq> 0"
  obtains f ks c cs where "z = KB True (f # ks) (c # cs)" "length cs = Suc (length ks)" "kb_ok t h c" "t - 1 \<le> kb_n c"
    and "kb_ok t (Suc h) (KB True ks cs)"
proof -
  obtain f ks where ks: "kb_ks z = f # ks" using assms(2) by (cases "kb_ks z") auto
  obtain c cs where cs: "kb_cs z = c # cs" using kb_ok_fields(4) [OF assms(1)] by (cases "kb_cs z") auto
  have "z = KB True (f # ks) (c # cs)" using assms(1) ks cs by (cases z) simp
  then show ?thesis using assms(1) by (intro that [of f ks c cs]) auto
qed

lemma from_left_ok:
  assumes ok: "kb_ok t h z" "kb_ok t h y" and n: "kb_n z \<noteq> 0" "kb_n y < 2 * t - 1" and l: "length as = length ps"
  obtains z' y' e c where "kb_from_left t (KB True (ps @ p # qs) (as @ z # y # bs)) (int (length ps) + 1) z y = Inr (KB True (ps @ e # qs) (as @ z' # y' # bs))"
    and "kb_ok t h z'" "kb_ok t h y'" "kb_n z' = kb_n z - 1" "kb_n y' = Suc (kb_n y)" "kb_keys z = kb_keys z' @ e # c"
    and "kb_keys y' = c @ p # kb_keys y" "kb_nodes z' + kb_nodes y' = kb_nodes z + kb_nodes y"
proof (cases h)
  case 0
  obtain zk e where z: "z = KB False (zk @ [e]) []" using kb_ok_fields(3) [OF ok(1) 0] n(1) by (cases "kb_ks z" rule: rev_cases) auto
  obtain yk where y: "y = KB False yk []" using kb_ok_fields(3) [OF ok(2) 0] by blast
  show ?thesis
  proof
    show "kb_from_left t (KB True (ps @ p # qs) (as @ z # y # bs)) (int (length ps) + 1) z y
      = Inr (KB True (ps @ e # qs) (as @ KB False zk [] # KB False (p # yk) [] # bs))"
      using l n(2) ins_index_mid [of 0 "[]" yk "2 * t - 1" p] set_index_mid [of "int (length ps) + 1" "as @ [KB False zk []]" "KB False (p # yk) []" y bs]
      by (simp add: kb_from_left_def z y)
  qed (use ok n 0 in \<open>simp_all add: z y\<close>)
next
  case (Suc h')
  obtain zk e zc c where z: "z = KB True (zk @ [e]) (zc @ [c])" "length zc = Suc (length zk)" "kb_ok t h' c" "t - 1 \<le> kb_n c"
    and z': "kb_ok t (Suc h') (KB True zk zc)" by (rule node_last [OF ok(1) [unfolded Suc] n(1)])
  obtain yk yc where y: "y = KB True yk yc" "length yc = Suc (length yk)" using ok(2) Suc by (cases y) auto
  show ?thesis
  proof
    show "kb_from_left t (KB True (ps @ p # qs) (as @ z # y # bs)) (int (length ps) + 1) z y
      = Inr (KB True (ps @ e # qs) (as @ KB True zk zc # KB True (p # yk) (c # yc) # bs))"
      using l n(2) z(2) y(2) ins_index_mid [of 0 "[]" yk "2 * t - 1" p] ins_index_mid [of 0 "[]" yc "2 * t" c]
        set_index_mid [of "int (length ps) + 1" "as @ [KB True zk zc]" "KB True (p # yk) (c # yc)" y bs]
      by (simp add: kb_from_left_def z(1) y(1))
    show "kb_keys z = kb_keys (KB True zk zc) @ e # kb_keys c" using weave_snoc [of "map kb_keys zc" zk] z(2) by (simp add: z(1))
    show "kb_keys (KB True (p # yk) (c # yc)) = kb_keys c @ p # kb_keys y" using weave_Cons [of "map kb_keys yc" yk] y(2) by (simp add: y(1))
  qed (use ok n Suc z y z' in \<open>auto simp del: kb_keys.simps\<close>)
qed

lemma from_right_ok:
  assumes ok: "kb_ok t h z" "kb_ok t h y" and n: "kb_n z \<noteq> 0" "kb_n y < 2 * t - 1" and l: "length as = length ps"
  obtains z' y' e c where "kb_from_right t (KB True (ps @ q # qs) (as @ y # z # bs)) (int (length ps)) z y = Inr (KB True (ps @ e # qs) (as @ y' # z' # bs))"
    and "kb_ok t h z'" "kb_ok t h y'" "kb_n z' = kb_n z - 1" "kb_n y' = Suc (kb_n y)" "kb_keys z = c @ e # kb_keys z'"
    and "kb_keys y' = kb_keys y @ q # c" "kb_nodes z' + kb_nodes y' = kb_nodes z + kb_nodes y"
proof (cases h)
  case 0
  obtain zk e where z: "z = KB False (e # zk) []" using kb_ok_fields(3) [OF ok(1) 0] n(1) by (cases "kb_ks z") auto
  obtain yk where y: "y = KB False yk []" using kb_ok_fields(3) [OF ok(2) 0] by blast
  show ?thesis
  proof
    show "kb_from_right t (KB True (ps @ q # qs) (as @ y # z # bs)) (int (length ps)) z y
      = Inr (KB True (ps @ e # qs) (as @ KB False (yk @ [q]) [] # KB False zk [] # bs))"
      using l n(2) ins_index_mid [of "int (length yk)" yk "[]" "2 * t - 1" q] set_index_mid [of "int (length ps) + 1" "as @ [KB False (yk @ [q]) []]" "KB False zk []" z bs]
      by (simp add: kb_from_right_def z y)
  qed (use ok n 0 in \<open>simp_all add: z y\<close>)
next
  case (Suc h')
  obtain e zk c zc where z: "z = KB True (e # zk) (c # zc)" "length zc = Suc (length zk)" "kb_ok t h' c" "t - 1 \<le> kb_n c"
    and z': "kb_ok t (Suc h') (KB True zk zc)" by (rule node_first [OF ok(1) [unfolded Suc] n(1)])
  obtain yk yc where y: "y = KB True yk yc" "length yc = Suc (length yk)" using ok(2) Suc by (cases y) auto
  show ?thesis
  proof
    show "kb_from_right t (KB True (ps @ q # qs) (as @ y # z # bs)) (int (length ps)) z y
      = Inr (KB True (ps @ e # qs) (as @ KB True (yk @ [q]) (yc @ [c]) # KB True zk zc # bs))"
      using l n(2) z(2) y(2) ins_index_mid [of "int (length yk)" yk "[]" "2 * t - 1" q] ins_index_mid [of "int (length yc)" yc "[]" "2 * t" c]
        set_index_mid [of "int (length ps) + 1" "as @ [KB True (yk @ [q]) (yc @ [c])]" "KB True zk zc" z bs]
      by (simp add: kb_from_right_def z(1) y(1))
    show "kb_keys z = kb_keys c @ e # kb_keys (KB True zk zc)" using weave_Cons [of "map kb_keys zc" zk] z(2) by (simp add: z(1))
    show "kb_keys (KB True (yk @ [q]) (yc @ [c])) = kb_keys y @ q # kb_keys c" using weave_snoc [of "map kb_keys yc" yk] y(2) by (simp add: y(1))
  qed (use ok n Suc z y z' in \<open>auto simp del: kb_keys.simps\<close>)
qed

lemma join_ok:
  assumes ok: "kb_ok t h y" "kb_ok t h z" and n: "kb_n y + kb_n z < 2 * t - 1" and l: "length as = length ps"
  obtains w where "kb_join t (KB True (ps @ p # qs) (as @ y # z # bs)) (int (length ps)) e y z = Inr (KB True (ps @ qs) (as @ w # bs))"
    and "kb_ok t h w" "kb_n w = Suc (kb_n y + kb_n z)" "kb_keys w = kb_keys y @ e # kb_keys z" "kb_nodes y + kb_nodes z = Suc (kb_nodes w)"
proof (cases h)
  case 0
  obtain yk zk where y: "y = KB False yk []" and z: "z = KB False zk []" using kb_ok_fields(3) [OF ok(1) 0] kb_ok_fields(3) [OF ok(2) 0] by blast
  show ?thesis
  proof
    show "kb_join t (KB True (ps @ p # qs) (as @ y # z # bs)) (int (length ps)) e y z = Inr (KB True (ps @ qs) (as @ KB False (yk @ e # zk) [] # bs))"
      using l n del_index_mid [of "int (length ps) + 1" "as @ [KB False (yk @ e # zk) []]" z bs]
      by (simp add: kb_join_def join_arrays_def y z)
  qed (use ok n 0 in \<open>simp_all add: z y\<close>)
next
  case (Suc h')
  obtain yk yc where y: "y = KB True yk yc" "length yc = Suc (length yk)" using ok(1) Suc by (cases y) auto
  obtain zk zc where z: "z = KB True zk zc" "length zc = Suc (length zk)" using ok(2) Suc by (cases z) auto
  show ?thesis
  proof
    show "kb_join t (KB True (ps @ p # qs) (as @ y # z # bs)) (int (length ps)) e y z = Inr (KB True (ps @ qs) (as @ KB True (yk @ e # zk) (yc @ zc) # bs))"
      using l n y(2) z(2) del_index_mid [of "int (length ps) + 1" "as @ [KB True (yk @ e # zk) (yc @ zc)]" z bs]
      by (simp add: kb_join_def join_arrays_def y(1) z(1))
    obtain d ds where zc: "zc = d # ds" using z(2) by (cases zc) auto
    show "kb_keys (KB True (yk @ e # zk) (yc @ zc)) = kb_keys y @ e # kb_keys z"
      using weave_split [of "map kb_keys yc" yk "map kb_keys zc"] y(2) by (simp add: y(1) z(1) zc)
  qed (use ok n Suc z y in \<open>auto simp del: kb_keys.simps\<close>)
qed

text \<open>Afterwards the child has at least \<open>t\<close> keys, and what it has taken over from its sides, \<open>L\<close> and \<open>R\<close>, stays next to its keys.\<close>

definition filled :: "nat \<Rightarrow> nat \<Rightarrow> 'k kbnode list \<Rightarrow> 'k list \<Rightarrow> 'k kbnode \<Rightarrow> 'k list \<Rightarrow> 'k kbnode list \<Rightarrow> kbmem \<Rightarrow> 'k kbnode \<times> int \<times> kbmem \<Rightarrow> bool" where
  "filled t h as ps y qs bs m = (\<lambda>(x', i', m'). \<exists>as' ps' y' qs' bs' L R. x' = KB True (ps' @ qs') (as' @ y' # bs') \<and> i' = int (length ps')
     \<and> length as' = length ps' \<and> length bs' = length qs' \<and> kb_ok t (Suc h) x' \<and> t \<le> kb_n y' \<and> length ps + length qs \<le> Suc (kb_n x')
     \<and> flat (map kb_keys as) ps = flat (map kb_keys as') ps' @ L \<and> kb_keys y' = L @ kb_keys y @ R
     \<and> knit qs (map kb_keys bs) = R @ knit qs' (map kb_keys bs')
     \<and> kb_room m' + kb_nodes x' = kb_room m + kb_nodes (KB True (ps @ qs) (as @ y # bs)) \<and> kb_n_nodes m' = kb_n_nodes m)"

lemma filledI:
  assumes "x' = KB True (ps' @ qs') (as' @ y' # bs')" "i' = int (length ps')"
    "length as' = length ps'" "length bs' = length qs'" "kb_ok t (Suc h) x'" "t \<le> kb_n y'" "length ps + length qs \<le> Suc (kb_n x')"
    "flat (map kb_keys as) ps = flat (map kb_keys as') ps' @ L" "kb_keys y' = L @ kb_keys y @ R"
    "knit qs (map kb_keys bs) = R @ knit qs' (map kb_keys bs')"
    "kb_room m' + kb_nodes x' = kb_room m + kb_nodes (KB True (ps @ qs) (as @ y # bs))" "kb_n_nodes m' = kb_n_nodes m"
  shows "filled t h as ps y qs bs m (x', i', m')"
  unfolding filled_def using assms by blast

lemma flat_snoc: "length as = length ps \<Longrightarrow> flat (as @ [a]) (ps @ [p]) = flat as ps @ a @ [p]"
  by simp

lemma sib_has_simps [simp]: "sib_has P None = False" "sib_has P (Some y) = P (kb_n y)"
  by (simp_all add: sib_has_def)

lemma fill_left:
  assumes ok: "kb_ok t (Suc h) (KB True ((ps @ [p]) @ qs) ((as @ [z]) @ y # bs))" and l: "length as = length ps" "length bs = length qs"
    and n: "kb_n y = t - 1" "t \<le> kb_n z" and t: "2 \<le> t"
  shows "holds (kb_fill t (KB True ((ps @ [p]) @ qs) ((as @ [z]) @ y # bs)) (int (length (ps @ [p]))) m) (filled t h (as @ [z]) (ps @ [p]) y qs bs m)"
proof -
  have ok': "kb_ok t h z" "kb_ok t h y" using ok by simp_all
  obtain z' y' e c where r: "kb_from_left t (KB True (ps @ p # qs) (as @ z # y # bs)) (int (length ps) + 1) z y = Inr (KB True (ps @ e # qs) (as @ z' # y' # bs))"
    and k: "kb_ok t h z'" "kb_ok t h y'" "kb_n z' = kb_n z - 1" "kb_n y' = Suc (kb_n y)" "kb_keys z = kb_keys z' @ e # c"
    and c: "kb_keys y' = c @ p # kb_keys y" "kb_nodes z' + kb_nodes y' = kb_nodes z + kb_nodes y"
    by (rule from_left_ok [OF ok', where as = as and ps = ps and p = p and qs = qs and bs = bs]) (use n t l in auto)
  have f: "filled t h (as @ [z]) (ps @ [p]) y qs bs m (KB True (ps @ e # qs) (as @ z' # y' # bs), int (length ps) + 1, m)"
    by (rule filledI [where as' = "as @ [z']" and ps' = "ps @ [e]" and y' = y' and qs' = qs and bs' = bs and L = "c @ [p]" and R = "[]"])
      (use ok l k c n t in \<open>auto simp del: kb_keys.simps\<close>)
  show ?thesis using r f n l t by (cases bs; cases qs) (simp_all add: kb_fill_def add.commute [of 1 "int _"])
qed

lemma fill_right:
  assumes ok: "kb_ok t (Suc h) (KB True (ps @ q # qs) (as @ y # z # bs))" and l: "length as = length ps" "length bs = length qs"
    and n: "kb_n y = t - 1" "t \<le> kb_n z" and t: "2 \<le> t" and no: "as \<noteq> [] \<longrightarrow> kb_n (last as) = t - 1"
  shows "holds (kb_fill t (KB True (ps @ q # qs) (as @ y # z # bs)) (int (length ps)) m) (filled t h as ps y (q # qs) (z # bs) m)"
proof -
  have ok': "kb_ok t h z" "kb_ok t h y" using ok by simp_all
  obtain z' y' e c where r: "kb_from_right t (KB True (ps @ q # qs) (as @ y # z # bs)) (int (length ps)) z y = Inr (KB True (ps @ e # qs) (as @ y' # z' # bs))"
    and k: "kb_ok t h z'" "kb_ok t h y'" "kb_n z' = kb_n z - 1" "kb_n y' = Suc (kb_n y)" "kb_keys z = c @ e # kb_keys z'"
    and c: "kb_keys y' = kb_keys y @ q # c" "kb_nodes z' + kb_nodes y' = kb_nodes z + kb_nodes y"
    by (rule from_right_ok [OF ok', where as = as and ps = ps and q = q and qs = qs and bs = bs]) (use n t l in auto)
  have f: "filled t h as ps y (q # qs) (z # bs) m (KB True (ps @ e # qs) (as @ y' # z' # bs), int (length ps), m)"
    by (rule filledI [where as' = as and ps' = ps and y' = y' and qs' = "e # qs" and bs' = "z' # bs" and L = "[]" and R = "q # c"])
      (use ok l k c n t in \<open>auto simp del: kb_keys.simps\<close>)
  have "\<not> t \<le> t - Suc 0" using t by simp
  then show ?thesis using r f n l no by (cases as rule: rev_cases; cases "ps = []") (simp_all add: kb_fill_def)
qed

lemma fill_join_left:
  assumes ok: "kb_ok t (Suc h) (KB True ((ps @ [p]) @ qs) ((as @ [z]) @ y # bs))" and l: "length as = length ps" "length bs = length qs"
    and n: "kb_n y = t - 1" "kb_n z = t - 1" and t: "2 \<le> t" and no: "bs \<noteq> [] \<longrightarrow> kb_n (hd bs) = t - 1"
  shows "holds (kb_fill t (KB True ((ps @ [p]) @ qs) ((as @ [z]) @ y # bs)) (int (length (ps @ [p]))) m) (filled t h (as @ [z]) (ps @ [p]) y qs bs m)"
proof -
  have ok': "kb_ok t h z" "kb_ok t h y" using ok by simp_all
  obtain w where r: "kb_join t (KB True (ps @ p # qs) (as @ z # y # bs)) (int (length ps)) p z y = Inr (KB True (ps @ qs) (as @ w # bs))"
    and k: "kb_ok t h w" "kb_n w = Suc (kb_n z + kb_n y)" "kb_keys w = kb_keys z @ p # kb_keys y" "kb_nodes z + kb_nodes y = Suc (kb_nodes w)"
    by (rule join_ok [OF ok', where as = as and ps = ps and p = p and qs = qs and bs = bs and e = p]) (use n t l in simp_all)
  have f: "filled t h (as @ [z]) (ps @ [p]) y qs bs m (KB True (ps @ qs) (as @ w # bs), int (length ps), free_node m)"
    by (rule filledI [where as' = as and ps' = ps and y' = w and qs' = qs and bs' = bs and L = "kb_keys z @ [p]" and R = "[]"])
      (use ok l k n t in \<open>auto simp: free_node_def simp del: kb_keys.simps\<close>)
  have "\<not> t \<le> t - Suc 0" using t by simp
  then show ?thesis using r f n l no by (cases bs; cases qs) (simp_all add: kb_fill_def)
qed

lemma fill_join_right:
  assumes ok: "kb_ok t (Suc h) (KB True ([] @ q # qs) ([] @ y # z # bs))" and l: "length bs = length qs"
    and n: "kb_n y = t - 1" "kb_n z = t - 1" and t: "2 \<le> t"
  shows "holds (kb_fill t (KB True (q # qs) (y # z # bs)) 0 m) (filled t h [] [] y (q # qs) (z # bs) m)"
proof -
  have ok': "kb_ok t h y" "kb_ok t h z" using ok by simp_all
  obtain w where "kb_join t (KB True ([] @ q # qs) ([] @ y # z # bs)) (int (length [])) q y z = Inr (KB True ([] @ qs) ([] @ w # bs))"
    and k: "kb_ok t h w" "kb_n w = Suc (kb_n y + kb_n z)" "kb_keys w = kb_keys y @ q # kb_keys z" "kb_nodes y + kb_nodes z = Suc (kb_nodes w)"
    by (rule join_ok [OF ok', where as = "[]" and ps = "[]" and p = q and qs = qs and bs = bs and e = q]) (use n t l in simp_all)
  then have r: "kb_join t (KB True (q # qs) (y # z # bs)) 0 q y z = Inr (KB True qs (w # bs))" by simp
  have f: "filled t h [] [] y (q # qs) (z # bs) m (KB True qs (w # bs), 0, free_node m)"
    by (rule filledI [where as' = "[]" and ps' = "[]" and y' = w and qs' = qs and bs' = bs and L = "[]" and R = "q # kb_keys z"])
      (use ok l k n t in \<open>auto simp: free_node_def simp del: kb_keys.simps\<close>)
  have "\<not> t \<le> t - Suc 0" using t by simp
  then show ?thesis using r f n l by (simp add: kb_fill_def)
qed

lemma fill_ok:
  assumes ok: "kb_ok t (Suc h) (KB True (ps @ qs) (as @ y # bs))" and l: "length as = length ps" "length bs = length qs"
    and t: "2 \<le> t" and ne: "ps @ qs \<noteq> []"
  shows "holds (kb_fill t (KB True (ps @ qs) (as @ y # bs)) (int (length ps)) m) (filled t h as ps y qs bs m)"
proof -
  have n: "t - 1 \<le> kb_n c" if "c \<in> set as \<or> c = y \<or> c \<in> set bs" for c using ok that by auto
  show ?thesis
  proof (cases "kb_n y = t - 1")
    case False
    have "filled t h as ps y qs bs m (KB True (ps @ qs) (as @ y # bs), int (length ps), m)"
      by (rule filledI [where L = "[]" and R = "[]", OF refl refl l ok]) (use False n [of y] in auto)
    then show ?thesis using False l by (simp add: kb_fill_def)
  next
    case y: True
    have sib: "t \<le> kb_n c \<or> kb_n c = t - 1" if "c \<in> set as \<or> c = y \<or> c \<in> set bs" for c using n [OF that] by auto
    consider (a) as' z where "as = as' @ [z]" "t \<le> kb_n z"
      | (b) z bs' where "bs = z # bs'" "t \<le> kb_n z" "as \<noteq> [] \<longrightarrow> kb_n (last as) = t - 1"
      | (c) as' z where "as = as' @ [z]" "kb_n z = t - 1" "bs \<noteq> [] \<longrightarrow> kb_n (hd bs) = t - 1"
      | (d) z bs' where "as = []" "bs = z # bs'" "kb_n z = t - 1"
    proof (cases as rule: rev_cases)
      case Nil
      then obtain z bs' where "bs = z # bs'" using ne l by (cases bs) auto
      then show ?thesis using b d Nil sib [of z] by auto
    next
      case (snoc as' z)
      show ?thesis
      proof (cases "t \<le> kb_n z")
        case False
        then have z: "kb_n z = t - 1" using sib [of z] snoc by auto
        show ?thesis
        proof (cases bs)
          case Nil
          then show ?thesis using c [OF snoc z] by simp
        next
          case (Cons w ws)
          then show ?thesis using c [OF snoc z] b [OF Cons] sib [of w] snoc z by auto
        qed
      qed (use a snoc in blast)
    qed
    then show ?thesis
    proof cases
      case a
      obtain ps' p where p: "ps = ps' @ [p]" using a l by (cases ps rule: rev_cases) auto
      show ?thesis using fill_left [of t h ps' p qs as' z y bs m] ok l a p y t by simp
    next
      case b
      obtain q qs' where q: "qs = q # qs'" using b l by (cases qs) auto
      show ?thesis using fill_right [of t h ps q qs' as y z bs' m] ok l b q y t by simp
    next
      case c
      obtain ps' p where p: "ps = ps' @ [p]" using c l by (cases ps rule: rev_cases) auto
      show ?thesis using fill_join_left [of t h ps' p qs as' z y bs m] ok l c p y t by simp
    next
      case d
      obtain q qs' where q: "qs = q # qs'" using d l by (cases qs) auto
      show ?thesis using fill_join_right [of t h q qs' y z bs' m] ok l d q y t by simp
    qed
  qed
qed

section \<open>What is deleted\<close>

definition gone :: "('k \<Rightarrow> 'k \<Rightarrow> int) \<Rightarrow> 'k option \<Rightarrow> int \<Rightarrow> 'k list \<Rightarrow> 'k list" where
  "gone cmp k s xs = (if s = 0 then filter (\<lambda>a. cmp a (the k) \<noteq> 0) xs else if s = 1 then butlast xs else tl xs)"

definition wanted :: "('k \<Rightarrow> 'k \<Rightarrow> int) \<Rightarrow> 'k option \<Rightarrow> int \<Rightarrow> 'k list \<Rightarrow> bool" where
  "wanted cmp k s xs \<longleftrightarrow> (if s = 0 then k \<noteq> None \<and> (\<exists>a \<in> set xs. cmp a (the k) = 0) else xs \<noteq> [] \<and> (s = 1 \<or> s = 2))"

definition got :: "('k \<Rightarrow> 'k \<Rightarrow> int) \<Rightarrow> 'k option \<Rightarrow> int \<Rightarrow> 'k \<Rightarrow> 'k list \<Rightarrow> bool" where
  "got cmp k s e xs \<longleftrightarrow> (if s = 0 then cmp e (the k) = 0 \<and> (e \<in> set xs \<or> k = Some e) else if s = 1 then e = last xs else e = hd xs)"

text \<open>The sides of a child hold none of it.\<close>

definition apart :: "('k \<Rightarrow> 'k \<Rightarrow> int) \<Rightarrow> 'k option \<Rightarrow> int \<Rightarrow> 'k list \<Rightarrow> 'k list \<Rightarrow> bool" where
  "apart cmp k s xs zs \<longleftrightarrow> (if s = 0 then \<forall>a \<in> set xs \<union> set zs. cmp a (the k) \<noteq> 0 else if s = 1 then zs = [] else xs = [])"

lemma gone_mid: "apart cmp k s xs zs \<Longrightarrow> ys \<noteq> [] \<or> s = 0 \<Longrightarrow> gone cmp k s (xs @ ys @ zs) = xs @ gone cmp k s ys @ zs"
  by (cases ys) (auto simp: gone_def apart_def filter_id_conv butlast_append split: if_splits)

lemma got_mid: "apart cmp k s xs zs \<Longrightarrow> ys \<noteq> [] \<or> s = 0 \<Longrightarrow> got cmp k s e ys \<Longrightarrow> got cmp k s e (xs @ ys @ zs)"
  by (auto simp: got_def apart_def split: if_splits)

lemma wanted_mid: "apart cmp k s xs zs \<Longrightarrow> ys \<noteq> [] \<Longrightarrow> wanted cmp k s (xs @ ys @ zs) \<Longrightarrow> wanted cmp k s ys"
  by (auto simp: wanted_def apart_def split: if_splits)

lemma apart_less: "apart cmp k s (xs @ us) (vs @ zs) \<Longrightarrow> apart cmp k s xs zs"
  by (auto simp: apart_def split: if_splits)

lemma kb_keys_ne:
  assumes "kb_ok t h x" and "kb_n x \<noteq> 0"
  shows "kb_keys x \<noteq> []"
proof (cases h)
  case 0
  then show ?thesis using assms by (cases x) auto
next
  case (Suc h')
  then obtain ks l cs c where "x = KB True (ks @ [l]) (cs @ [c])" "length cs = Suc (length ks)"
    using node_last [of t h' x] assms by metis
  then show ?thesis using weave_snoc [of "map kb_keys cs" ks "kb_keys c" l] by simp
qed

definition deleted :: "nat \<Rightarrow> nat \<Rightarrow> ('k \<Rightarrow> 'k \<Rightarrow> int) \<Rightarrow> 'k kbnode \<Rightarrow> 'k option \<Rightarrow> int \<Rightarrow> kbmem \<Rightarrow> 'k \<times> 'k kbnode \<times> kbmem \<Rightarrow> bool" where
  "deleted t h cmp x k s m = (\<lambda>(e, x', m'). kb_ok t h x' \<and> kb_n x \<le> Suc (kb_n x') \<and> kb_keys x' = gone cmp k s (kb_keys x)
     \<and> got cmp k s e (kb_keys x) \<and> kb_room m' + kb_nodes x' = kb_room m + kb_nodes x \<and> kb_n_nodes m' = kb_n_nodes m)"

section \<open>Strict order\<close>

context comparing begin

lemma filter_strict:
  assumes "strictly cmp (xs @ p # ys)" and "cmp p k = 0"
  shows "filter (\<lambda>a. cmp a k \<noteq> 0) (xs @ p # ys) = xs @ ys"
proof -
  have "\<forall>a \<in> set xs. cmp a k < 0" using assms less_le_trans by (auto simp: strictly_append strictly_Cons)
  moreover have "\<forall>b \<in> set ys. cmp k b < 0"
    using assms le_less_trans [of k p] zero_swap [of p k] by (auto simp: strictly_append strictly_Cons)
  ultimately have "\<forall>a \<in> set xs. cmp a k \<noteq> 0" "\<forall>b \<in> set ys. cmp b k \<noteq> 0" using zero_swap by force+
  then show ?thesis using assms(2) by simp
qed

lemma strictly_replace: "strictly cmp (xs @ p # ys) \<Longrightarrow> cmp p k = 0 \<Longrightarrow> strictly cmp (xs @ k # ys)"
  using less_le_trans [of _ p k] le_less_trans [of k p] zero_swap [of p k] by (auto simp: strictly_append strictly_Cons)

end

section \<open>The way down\<close>

text \<open>What remains to be done once the child to go on in is known, with the call on the child as \<open>del\<close>.\<close>

lemma descend_ok:
  assumes ok: "kb_ok t (Suc h) (KB True (ps @ qs) (as @ y # bs))" and l: "length as = length ps" "length bs = length qs"
    and t: "2 \<le> t" and ne: "ps @ qs \<noteq> []"
    and strict: "strictly cmp (kb_keys (KB True (ps @ qs) (as @ y # bs)))" and want: "wanted cmp k s (kb_keys (KB True (ps @ qs) (as @ y # bs)))"
    and side: "apart cmp k s (flat (map kb_keys as) ps) (knit qs (map kb_keys bs))"
    and del: "\<And>y m. kb_ok t h y \<Longrightarrow> strictly cmp (kb_keys y) \<Longrightarrow> wanted cmp k s (kb_keys y) \<Longrightarrow> kb_n y \<noteq> 0 \<Longrightarrow> holds (del y m) (deleted t h cmp y k s m)"
  shows "holds (bindE (kb_fill t (KB True (ps @ qs) (as @ y # bs)) (int (length ps)) m) (\<lambda>(x, i, m).
         bindE (at_index i (kb_cs x)) (\<lambda>xp.
         bindE (del xp m) (\<lambda>(kp, xp, m).
         bindE (set_index i xp (kb_cs x)) (\<lambda>cs. Inr (kp, KB (kb_int x) (kb_ks x) cs, m))))))
    (deleted t (Suc h) cmp (KB True (ps @ qs) (as @ y # bs)) k s m)"
proof -
  let ?x = "KB True (ps @ qs) (as @ y # bs)"
  obtain x' i' m1 where fill: "kb_fill t ?x (int (length ps)) m = Inr (x', i', m1)" and f: "filled t h as ps y qs bs m (x', i', m1)"
    using fill_ok [OF ok l t ne, of m] by (auto simp: holds_iff)
  obtain as' ps' y' qs' bs' L R where x': "x' = KB True (ps' @ qs') (as' @ y' # bs')" "i' = int (length ps')" "length as' = length ps'" "length bs' = length qs'"
    and ok': "kb_ok t (Suc h) x'" "t \<le> kb_n y'" "length ps + length qs \<le> Suc (kb_n x')"
    and fl: "flat (map kb_keys as) ps = flat (map kb_keys as') ps' @ L" and ky: "kb_keys y' = L @ kb_keys y @ R"
    and kn: "knit qs (map kb_keys bs) = R @ knit qs' (map kb_keys bs')"
    and room: "kb_room m1 + kb_nodes x' = kb_room m + kb_nodes ?x" "kb_n_nodes m1 = kb_n_nodes m"
    using f unfolding filled_def by blast
  let ?A = "flat (map kb_keys as') ps'" and ?B = "knit qs' (map kb_keys bs')"
  have keys: "kb_keys ?x = ?A @ kb_keys y' @ ?B"
    using kb_keys_cut [OF l(1), of qs y bs] fl ky kn by simp
  have y': "kb_ok t h y'" "kb_n y' \<noteq> 0" using ok' t x'(1) by auto
  have side': "apart cmp k s ?A ?B" using side unfolding fl kn by (rule apart_less)
  have ny: "kb_keys y' \<noteq> []" by (rule kb_keys_ne [OF y'])
  have sy: "strictly cmp (kb_keys y')" using strict unfolding keys by (simp add: strictly_append)
  have wy: "wanted cmp k s (kb_keys y')" using want unfolding keys by (rule wanted_mid [OF side' ny])
  obtain e y'' m2 where d: "del y' m1 = Inr (e, y'', m2)" and del': "deleted t h cmp y' k s m1 (e, y'', m2)"
    using del [OF y'(1) sy wy y'(2), of m1] by (auto simp: holds_iff)
  have y'': "kb_ok t h y''" "t - 1 \<le> kb_n y''" "kb_keys y'' = gone cmp k s (kb_keys y')" "got cmp k s e (kb_keys y')"
    "kb_room m2 + kb_nodes y'' = kb_room m1 + kb_nodes y'" "kb_n_nodes m2 = kb_n_nodes m1"
    using del' ok'(2) by (auto simp: deleted_def)
  let ?z = "KB True (ps' @ qs') (as' @ y'' # bs')"
  have "kb_keys ?z = gone cmp k s (kb_keys ?x)"
    using gone_mid [OF side', of "kb_keys y'"] ny kb_keys_cut [OF x'(3), of qs' y'' bs'] y''(3) unfolding keys by simp
  moreover have "got cmp k s e (kb_keys ?x)" using got_mid [OF side' _ y''(4)] ny unfolding keys by simp
  moreover have "kb_ok t (Suc h) ?z" using ok' y''(1,2) x'(1) by simp
  moreover have "kb_room m2 + kb_nodes ?z = kb_room m + kb_nodes ?x" "kb_n_nodes m2 = kb_n_nodes m" using room y''(5,6) x'(1) by simp_all
  ultimately have "deleted t (Suc h) cmp ?x k s m (e, ?z, m2)" using ok'(3) x'(1) by (simp add: deleted_def del: kb_keys.simps kb_ok.simps)
  then show ?thesis using fill d x' by (simp del: kb_keys.simps kb_ok.simps)
qed

context comparing begin

text \<open>A leaf, which the key is in.\<close>

lemma del_leaf:
  assumes str: "strictly cmp ks" and want: "wanted cmp k s ks" and len: "length ks \<le> 2 * t - 1"
  shows "holds (kb_delp_aux (Suc f) t cmp (KB False ks []) k s m) (deleted t 0 cmp (KB False ks []) k s m)"
proof -
  have put: "holds (kb_delp_aux (Suc f) t cmp (KB False ks []) k s m) (deleted t 0 cmp (KB False ks []) k s m)"
    if place: "kb_del_place cmp (KB False ks []) k s = Inr (i, r)" and i: "(if s = 2 then i + 1 else i) = int (length as)"
      and cut: "ks = as @ a # bs" and res: "gone cmp k s ks = as @ bs" "got cmp k s a ks" for i r as a bs
    using place i len res by (simp add: cut deleted_def)
  consider (key) k' where "s = 0" "k = Some k'" | (max) "s = 1" "ks \<noteq> []" | (min) "s = 2" "ks \<noteq> []"
    using want by (auto simp: wanted_def split: if_splits)
  then show ?thesis
  proof cases
    case key
    obtain i r where g: "kb_getp_aux cmp (KB False ks []) k' 0 = (i, r)" by fastforce
    obtain a where a: "a \<in> set ks" "cmp a k' = 0" using want key by (auto simp: wanted_def)
    obtain ps qs where c: "ks = ps @ qs" "i = int (length ps) - 1"
      and le: "\<forall>p \<in> set ps. cmp p k' \<le> 0" "\<forall>q \<in> set qs. cmp k' q \<le> 0"
      and z: "ks \<noteq> [] \<longrightarrow> r = 0 \<longrightarrow> ps \<noteq> [] \<and> cmp k' (last ps) = 0"
      and st: "ks \<noteq> [] \<longrightarrow> r \<noteq> 0 \<longrightarrow> (\<forall>p \<in> set ps. cmp p k' < 0) \<and> (\<forall>q \<in> set qs. cmp k' q < 0)"
      by (rule getp_cut [OF strictly_ordered [OF str] g])
    have "r = 0"
    proof (rule ccontr)
      assume "r \<noteq> 0"
      then have "cmp a k' < 0 \<or> cmp k' a < 0" using st a(1) c(1) by auto
      then show False using a(2) zero_swap [of a k'] by auto
    qed
    then have "ps \<noteq> [] \<and> cmp k' (last ps) = 0" using z a(1) by auto
    then obtain ps' p where p: "ps = ps' @ [p]" "cmp p k' = 0" using zero_swap by (cases ps rule: rev_cases) auto
    show ?thesis
      by (rule put [of i r ps' p qs]) (use key g c p filter_strict [of ps' p qs k'] str in \<open>simp_all add: kb_del_place_def gone_def got_def\<close>)
  next
    case max
    then obtain ks' l where "ks = ks' @ [l]" by (cases ks rule: rev_cases) auto
    then show ?thesis using max
      by (intro put [of "int (length ks) - 1" 0 ks' l "[]"]) (simp_all add: kb_del_place_def gone_def got_def)
  next
    case min
    then show ?thesis
      by (intro put [of "- 1" 0 "[]" "hd ks" "tl ks"]) (simp_all add: kb_del_place_def gone_def got_def)
  qed
qed

text \<open>The key is in the node: it is replaced by its predecessor or its successor, or goes down into the joined children.\<close>

lemma del_here:
  assumes ok: "kb_ok t (Suc h) (KB True (ps @ p # qs) (as @ z # y # bs))" and l: "length as = length ps" "length bs = length qs"
    and t: "2 \<le> t" and str: "strictly cmp (kb_keys (KB True (ps @ p # qs) (as @ z # y # bs)))" and p: "cmp p k = 0"
    and place: "kb_del_place cmp (KB True (ps @ p # qs) (as @ z # y # bs)) (Some k) 0 = Inr (int (length ps), 0)"
    and IH: "\<And>x k s m. kb_ok t h x \<Longrightarrow> strictly cmp (kb_keys x) \<Longrightarrow> wanted cmp k s (kb_keys x) \<Longrightarrow> kb_n x \<noteq> 0
      \<Longrightarrow> holds (kb_delp_aux f t cmp x k s m) (deleted t h cmp x k s m)"
  shows "holds (kb_delp_aux (Suc f) t cmp (KB True (ps @ p # qs) (as @ z # y # bs)) (Some k) 0 m)
    (deleted t (Suc h) cmp (KB True (ps @ p # qs) (as @ z # y # bs)) (Some k) 0 m)"
proof -
  let ?x = "KB True (ps @ p # qs) (as @ z # y # bs)"
  let ?A = "flat (map kb_keys as) ps" and ?B = "knit qs (map kb_keys bs)"
  have keys: "kb_keys (KB True (ps @ e # qs) (as @ u # v # bs)) = ?A @ kb_keys u @ e # kb_keys v @ ?B" for e u v
    using l by (simp add: weave_mid)
  have str': "strictly cmp ((?A @ kb_keys z) @ p # kb_keys y @ ?B)" using str by (simp add: keys del: kb_keys.simps)
  have g: "gone cmp (Some k) 0 (kb_keys ?x) = ?A @ kb_keys z @ kb_keys y @ ?B"
    using filter_strict [OF str' p] by (simp add: keys gone_def del: kb_keys.simps)
  have kid: "kb_ok t h z" "kb_ok t h y" "t - 1 \<le> kb_n z" "t - 1 \<le> kb_n y" using ok by simp_all
  have sz: "strictly cmp (kb_keys z)" "strictly cmp (kb_keys y)" using str' by (simp_all add: strictly_append strictly_Cons)
  have gotp: "got cmp (Some k) 0 p (kb_keys ?x)" using p by (simp add: got_def keys del: kb_keys.simps)
  show ?thesis
  proof (cases "t \<le> kb_n z")
    case True
    then have nz: "kb_n z \<noteq> 0" using t by linarith
    then have ne: "kb_keys z \<noteq> []" by (rule kb_keys_ne [OF kid(1)])
    obtain e z' m' where d: "kb_delp_aux f t cmp z None 1 m = Inr (e, z', m')" and del: "deleted t h cmp z None 1 m (e, z', m')"
      using IH [OF kid(1) sz(1) _ nz, of None 1 m] ne by (auto simp: wanted_def holds_iff)
    have z': "kb_keys z' @ [e] = kb_keys z" using del ne by (simp add: deleted_def gone_def got_def)
    have "kb_keys (KB True (ps @ e # qs) (as @ z' # y # bs)) = gone cmp (Some k) 0 (kb_keys ?x)"
      unfolding g by (simp add: keys z' [symmetric] del: kb_keys.simps)
    moreover have "kb_ok t (Suc h) (KB True (ps @ e # qs) (as @ z' # y # bs))" using del ok True by (auto simp: deleted_def)
    ultimately have "deleted t (Suc h) cmp ?x (Some k) 0 m (p, KB True (ps @ e # qs) (as @ z' # y # bs), m')"
      using del gotp by (simp add: deleted_def del: kb_keys.simps kb_ok.simps)
    then show ?thesis using place True d l by (simp add: Let_def del: kb_keys.simps kb_ok.simps)
  next
    case z: False
    show ?thesis
    proof (cases "t \<le> kb_n y")
      case True
      then have ny: "kb_n y \<noteq> 0" using t by linarith
    then have ne: "kb_keys y \<noteq> []" by (rule kb_keys_ne [OF kid(2)])
      obtain e y' m' where d: "kb_delp_aux f t cmp y None 2 m = Inr (e, y', m')" and del: "deleted t h cmp y None 2 m (e, y', m')"
        using IH [OF kid(2) sz(2) _ ny, of None 2 m] ne by (auto simp: wanted_def holds_iff)
      have y': "kb_keys y = e # kb_keys y'" using del ne by (simp add: deleted_def gone_def got_def)
      have "kb_keys (KB True (ps @ e # qs) (as @ z # y' # bs)) = gone cmp (Some k) 0 (kb_keys ?x)"
        unfolding g by (simp add: keys y' del: kb_keys.simps)
      moreover have "kb_ok t (Suc h) (KB True (ps @ e # qs) (as @ z # y' # bs))" using del ok True by (auto simp: deleted_def)
      ultimately have "deleted t (Suc h) cmp ?x (Some k) 0 m (p, KB True (ps @ e # qs) (as @ z # y' # bs), m')"
        using del gotp by (simp add: deleted_def del: kb_keys.simps kb_ok.simps)
      then show ?thesis using place True z d l set_index_mid [of "int (length ps) + 1" "as @ [z]" y' y bs]
        by (simp add: Let_def del: kb_keys.simps kb_ok.simps)
    next
      case False
      then have n: "kb_n z = t - 1" "kb_n y = t - 1" using z kid by simp_all
      obtain w where j: "kb_join t ?x (int (length ps)) k z y = Inr (KB True (ps @ qs) (as @ w # bs))"
        and w: "kb_ok t h w" "kb_n w = Suc (kb_n z + kb_n y)" "kb_keys w = kb_keys z @ k # kb_keys y" "kb_nodes z + kb_nodes y = Suc (kb_nodes w)"
        by (rule join_ok [OF kid(1,2), where as = as and ps = ps and p = p and qs = qs and bs = bs and e = k]) (use n t l in simp_all)
      have sw: "strictly cmp (kb_keys w)" using strictly_replace [of "?A @ kb_keys z" p "kb_keys y @ ?B" k] str' p
        by (simp add: w(3) strictly_append strictly_Cons)
      have kk: "cmp k k = 0" using zero_swap [of p k] p le_trans [of k p k] le_swap [of k k] by simp
      have "wanted cmp (Some k) 0 (kb_keys w)" using kk by (simp add: wanted_def w(3))
      then obtain e w' m' where d: "kb_delp_aux f t cmp w (Some k) 0 (free_node m) = Inr (e, w', m')" and del: "deleted t h cmp w (Some k) 0 (free_node m) (e, w', m')"
        using IH [OF w(1) sw, of "Some k" 0 "free_node m"] w(2) by (auto simp: holds_iff)
      have kw: "kb_keys w' = kb_keys z @ kb_keys y"
        using del filter_strict [of "kb_keys z" k "kb_keys y" k] sw kk by (simp add: deleted_def gone_def w(3))
      have "got cmp (Some k) 0 e (kb_keys ?x)" using del by (auto simp: deleted_def got_def w(3) keys simp del: kb_keys.simps)
      moreover have "kb_keys (KB True (ps @ qs) (as @ w' # bs)) = gone cmp (Some k) 0 (kb_keys ?x)"
        using kb_keys_cut [OF l(1), of qs w' bs] by (simp add: g kw del: kb_keys.simps)
      moreover have "kb_ok t (Suc h) (KB True (ps @ qs) (as @ w' # bs))" using del ok w(2) n by (auto simp: deleted_def)
      moreover have "kb_room m' + kb_nodes (KB True (ps @ qs) (as @ w' # bs)) = kb_room m + kb_nodes ?x" "kb_n_nodes m' = kb_n_nodes m"
        using del w(4) by (simp_all add: deleted_def free_node_def)
      ultimately have "deleted t (Suc h) cmp ?x (Some k) 0 m (e, KB True (ps @ qs) (as @ w' # bs), m')"
        by (simp add: deleted_def del: kb_keys.simps kb_ok.simps kb_nodes.simps)
      then show ?thesis using place z False n d l j by (simp add: Let_def del: kb_keys.simps kb_ok.simps)
    qed
  qed
qed

lemma delp_aux_ok:
  "kb_ok t h x \<Longrightarrow> strictly cmp (kb_keys x) \<Longrightarrow> wanted cmp k s (kb_keys x) \<Longrightarrow> h = 0 \<or> kb_n x \<noteq> 0 \<Longrightarrow> 2 \<le> t \<Longrightarrow> h < f
    \<Longrightarrow> holds (kb_delp_aux f t cmp x k s m) (deleted t h cmp x k s m)"
proof (induction f arbitrary: x h k s m)
  case (Suc f)
  show ?case
  proof (cases h)
    case 0
    obtain ks where x: "x = KB False ks []" using kb_ok_fields(3) [OF Suc.prems(1) 0] by blast
    show ?thesis using del_leaf [of ks k s t f m] Suc.prems(1-3) by (simp add: x 0 del: kb_delp_aux.simps)
  next
    case (Suc h')
    have ok: "kb_ok t (Suc h') x" and int: "kb_int x" and nx: "kb_n x \<noteq> 0" and f: "h' < f"
      using Suc.prems(1,4,6) kb_ok_fields(1) [OF Suc.prems(1)] by (simp_all add: Suc)
    have IH: "holds (kb_delp_aux f t cmp y k s m) (deleted t h' cmp y k s m)"
      if "kb_ok t h' y" "strictly cmp (kb_keys y)" "wanted cmp k s (kb_keys y)" "kb_n y \<noteq> 0" for y k s m
      by (rule Suc.IH [OF that(1-3) _ Suc.prems(5) f]) (use that(4) in simp)
    have down: "holds (kb_delp_aux (Suc f) t cmp x k s m) (deleted t (Suc h') cmp x k s m)"
      if place: "kb_del_place cmp x k s = Inr (int (length ps) - 1, r)" "r \<noteq> 0" and x: "x = KB True (ps @ qs) (as @ y # bs)"
        and l: "length as = length ps" "length bs = length qs" and ap: "apart cmp k s (flat (map kb_keys as) ps) (knit qs (map kb_keys bs))"
      for ps qs as y bs r
    proof -
      have "holds (bindE (kb_fill t x (int (length ps)) m) (\<lambda>(x, i, m).
         bindE (at_index i (kb_cs x)) (\<lambda>xp.
         bindE (kb_delp_aux f t cmp xp k s m) (\<lambda>(kp, xp, m).
         bindE (set_index i xp (kb_cs x)) (\<lambda>cs. Inr (kp, KB (kb_int x) (kb_ks x) cs, m)))))) (deleted t (Suc h') cmp x k s m)"
        unfolding x by (rule descend_ok [OF ok [unfolded x] l Suc.prems(5) _ Suc.prems(2) [unfolded x] Suc.prems(3) [unfolded x] ap IH])
          (use nx x in simp_all)
      then show ?thesis using place int by (simp add: Let_def)
    qed
    consider (key) k' where "s = 0" "k = Some k'" | (max) "s = 1" | (min) "s = 2"
      using Suc.prems(3) by (auto simp: wanted_def split: if_splits)
    then have "holds (kb_delp_aux (Suc f) t cmp x k s m) (deleted t (Suc h') cmp x k s m)"
    proof cases
      case key
      obtain i r where g: "kb_getp_aux cmp x k' 0 = (i, r)" by fastforce
      obtain as y bs ps qs h'' where x: "x = KB True (ps @ qs) (as @ y # bs)" "Suc h' = Suc h''" "length as = length ps" "length bs = length qs"
        and i: "i = int (length ps) - 1" and y: "kb_ok t h'' y" "ordered cmp (kb_keys y)"
        and le: "\<forall>a \<in> set (flat (map kb_keys as) ps). cmp a k' \<le> 0" "\<forall>b \<in> set (knit qs (map kb_keys bs)). cmp k' b \<le> 0"
        and st: "r \<noteq> 0 \<or> ps = [] \<longrightarrow> kb_n x \<noteq> 0 \<longrightarrow> (\<forall>a \<in> set (flat (map kb_keys as) ps). cmp a k' < 0) \<and> (\<forall>b \<in> set (knit qs (map kb_keys bs)). cmp k' b < 0)"
        and z: "kb_n x \<noteq> 0 \<longrightarrow> r = 0 \<longrightarrow> ps \<noteq> [] \<and> cmp k' (last ps) = 0"
        by (rule descend_cut [OF ok int strictly_ordered [OF Suc.prems(2)] g])
      have place: "kb_del_place cmp x k s = Inr (int (length ps) - 1, r)" using key g i by (simp add: kb_del_place_def)
      show ?thesis
      proof (cases "r = 0")
        case False
        then have "\<forall>a \<in> set (flat (map kb_keys as) ps). cmp a k' < 0" "\<forall>b \<in> set (knit qs (map kb_keys bs)). cmp k' b < 0" using st nx by blast+
        then have "apart cmp k s (flat (map kb_keys as) ps) (knit qs (map kb_keys bs))"
          using key zero_swap by (force simp: apart_def)
        then show ?thesis by (rule down [OF place False x(1,3,4)])
      next
        case True
        then obtain ps' p where p: "ps = ps' @ [p]" "cmp p k' = 0" using z nx zero_swap by (cases ps rule: rev_cases) auto
        obtain as' u where a: "as = as' @ [u]" using x(3) p by (cases as rule: rev_cases) auto
        have x': "x = KB True (ps' @ p # qs) (as' @ u # y # bs)" "length as' = length ps'" using x p a by simp_all
        have okx: "kb_ok t (Suc h') (KB True (ps' @ p # qs) (as' @ u # y # bs))" and strx: "strictly cmp (kb_keys (KB True (ps' @ p # qs) (as' @ u # y # bs)))"
          using ok Suc.prems(2) x'(1) by auto
        have placex: "kb_del_place cmp (KB True (ps' @ p # qs) (as' @ u # y # bs)) (Some k') 0 = Inr (int (length ps'), 0)"
          using place True key p(1) x'(1) by simp
        have "holds (kb_delp_aux (Suc f) t cmp x (Some k') 0 m) (deleted t (Suc h') cmp x (Some k') 0 m)"
          unfolding x'(1) by (rule del_here [OF _ x'(2) x(4) Suc.prems(5) _ p(2) _ IH])
            (fact okx strx placex)+
        then show ?thesis using key by simp
      qed
    next
      case max
      obtain ks l cs y where x: "x = KB True (ks @ [l]) (cs @ [y])" "length cs = Suc (length ks)" by (rule node_last [OF ok nx])
      show ?thesis
      proof (rule down)
        show "kb_del_place cmp x k s = Inr (int (length (ks @ [l])) - 1, 1)" using max x(1) by (simp add: kb_del_place_def)
        show "x = KB True ((ks @ [l]) @ []) (cs @ y # [])" using x(1) by simp
        show "apart cmp k s (flat (map kb_keys cs) (ks @ [l])) (knit [] (map kb_keys []))" using max by (simp add: apart_def)
      qed (use x(2) in simp_all)
    next
      case min
      obtain f ks y cs where x: "x = KB True (f # ks) (y # cs)" "length cs = Suc (length ks)" by (rule node_first [OF ok nx])
      show ?thesis
      proof (rule down)
        show "kb_del_place cmp x k s = Inr (int (length []) - 1, - 1)" using min x(1) by (simp add: kb_del_place_def)
        show "x = KB True ([] @ f # ks) ([] @ y # cs)" using x(1) by simp
        show "apart cmp k s (flat (map kb_keys []) []) (knit (f # ks) (map kb_keys cs))" using min by (simp add: apart_def)
      qed (use x(2) in simp_all)
    qed
    then show ?thesis by (simp add: Suc)
  qed
qed simp

end

end
