(* ===== verification/TW_KTreeClass.thy ===== *)
theory TW_KTreeClass
  imports TW_KTreeDel
begin

text \<open>
  Deleting from the whole tree, the neighbours of a key, the walk and the destruction.
\<close>

section \<open>Deleting\<close>

context comparing begin

lemma kb_delp_ok:
  assumes b: "kbt_ok cmp b" and str: "strictly cmp (kb_keys (kb_root b))" and "p \<in> set (kb_keys (kb_root b))" and p: "cmp p k = 0"
  shows "holds (kb_delp cmp b k m) (\<lambda>(e, b', m'). kbt_ok cmp b' \<and> kb_t b' = kb_t b
    \<and> kb_keys (kb_root b') = filter (\<lambda>a. cmp a k \<noteq> 0) (kb_keys (kb_root b)) \<and> e \<in> {p, k}
    \<and> kb_room m' + kb_nodes (kb_root b') = kb_room m + kb_nodes (kb_root b))"
proof -
  let ?r = "kb_root b" and ?t = "kb_t b"
  let ?h = "kb_depth ?r"
  have ok: "2 \<le> ?t" "kb_ok ?t ?h ?r" "kb_n_keys b = int (length (kb_keys ?r))" and ne: "kb_int ?r \<longrightarrow> kb_ks ?r \<noteq> []"
    using b by (auto simp: kbt_ok_def)
  obtain xs ys where k: "kb_keys ?r = xs @ p # ys" using assms(3) by (meson split_list)
  have g: "filter (\<lambda>a. cmp a k \<noteq> 0) (kb_keys ?r) = xs @ ys" using filter_strict [OF str [unfolded k] p] k by simp
  have uniq: "e = p" if "e \<in> set (kb_keys ?r)" "cmp e k = 0" for e
    using g that by (metis (mono_tags, lifting) Un_iff k list.set_intros(1) mem_Collect_eq set_append set_filter set_ConsD)
  have "wanted cmp (Some k) 0 (kb_keys ?r)" using assms(3) p by (auto simp: wanted_def)
  moreover have "?h = 0 \<or> kb_n ?r \<noteq> 0" using ne kb_ok_fields(1) [OF ok(2)] by auto
  ultimately obtain e x m1 where d: "kb_delp_aux (Suc ?h) ?t cmp ?r (Some k) 0 m = Inr (e, x, m1)" and del: "deleted ?t ?h cmp ?r (Some k) 0 m (e, x, m1)"
    using delp_aux_ok [OF ok(2) str _ _ ok(1), of "Some k" 0 "Suc ?h" m] by (auto simp: holds_iff)
  have x: "kb_ok ?t ?h x" "kb_keys x = xs @ ys" "kb_room m1 + kb_nodes x = kb_room m + kb_nodes ?r" and e: "e \<in> {p, k}"
    using del uniq g by (auto simp: deleted_def gone_def got_def)
  have ord: "ordered cmp (xs @ ys)" using strictly_ordered [OF str] by (simp add: k ordered_append ordered_Cons)
  show ?thesis
  proof (cases "kb_n x = 0 \<and> kb_int x")
    case False
    then have "kbt_ok cmp (b\<lparr>kb_root := x, kb_n_keys := kb_n_keys b - 1\<rparr>)"
      using x ok k ord kb_ok_depth [OF x(1)] by (auto simp: kbt_ok_def)
    then show ?thesis using d False x e g by (auto simp: kb_delp_def Let_def simp del: kb_delp_aux.simps)
  next
    case True
    then obtain h' where h: "?h = Suc h'" using kb_ok_fields(1) [OF x(1)] by (cases ?h) auto
    obtain c where c: "x = KB True [] [c]" using True x(1) by (cases x) (auto simp: h length_Suc_conv)
    have cn: "kb_ok ?t h' c" "kb_n c \<noteq> 0" using x(1) ok(1) by (auto simp: c h)
    have "kbt_ok cmp (b\<lparr>kb_n_keys := kb_n_keys b - 1, kb_root := c\<rparr>)"
      using x(2) cn ok k ord kb_ok_depth [OF cn(1)] by (auto simp: kbt_ok_def c)
    then show ?thesis using d x(2,3) e g by (auto simp: kb_delp_def Let_def c free_node_def simp del: kb_delp_aux.simps)
  qed
qed

section \<open>Neighbours\<close>

lemma leaf_cut:
  assumes "kb_ok t h x" and "\<not> kb_int x" and "ordered cmp (kb_keys x)" and "kb_getp_aux cmp x k r = (i, r')"
  obtains ps qs where "x = KB False (ps @ qs) []" "i = int (length ps) - 1"
    and "ps @ qs \<noteq> [] \<longrightarrow> r' = 0 \<longrightarrow> ps \<noteq> [] \<and> cmp k (last ps) = 0"
    and "ps @ qs \<noteq> [] \<longrightarrow> r' \<noteq> 0 \<longrightarrow> (\<forall>p \<in> set ps. cmp p k < 0) \<and> (\<forall>q \<in> set qs. cmp k q < 0)"
proof -
  have x: "x = KB False (kb_ks x) []" using kb_ok_fields(1,3) [OF assms(1)] assms(2) by blast
  then have o: "ordered cmp (kb_ks x)" "kb_getp_aux cmp (KB False (kb_ks x) []) k r = (i, r')"
    using assms(3,4) kb_keys_leaf by metis+
  show ?thesis by (rule getp_cut [OF o], rule that) (use x in auto)
qed

end

text \<open>The same key twice, or the greatest key below \<open>k\<close> and the least above it, with what is returned when there is none.\<close>

definition interval_of :: "('k \<Rightarrow> 'k \<Rightarrow> int) \<Rightarrow> 'k \<Rightarrow> 'k option \<Rightarrow> 'k option \<Rightarrow> 'k list \<Rightarrow> 'k option \<times> 'k option \<Rightarrow> bool" where
  "interval_of cmp k lower upper xs = (\<lambda>(lo, up).
     if \<exists>a \<in> set xs. cmp k a = 0 then lo = up \<and> (\<exists>a \<in> set xs. lo = Some a \<and> cmp k a = 0)
     else lo = (let l = filter (\<lambda>a. cmp a k < 0) xs in if l = [] then lower else Some (last l))
       \<and> up = (let l = filter (\<lambda>a. cmp k a < 0) xs in if l = [] then upper else Some (hd l)))"

context comparing begin

lemma interval_mid:
  assumes xs: "\<forall>a \<in> set xs. cmp a k < 0" and zs: "\<forall>b \<in> set zs. cmp k b < 0"
    and i: "interval_of cmp k (if xs = [] then lower else Some (last xs)) (if zs = [] then upper else Some (hd zs)) ys lu"
  shows "interval_of cmp k lower upper (xs @ ys @ zs) lu"
proof -
  have ne: "cmp k a \<noteq> 0" if "a \<in> set xs \<union> set zs" for a using xs zs zero_swap [of k a] that by auto
  have nl: "\<not> cmp b k < 0" if "b \<in> set zs" for b using zs less_swap(1) [of k b] that by force
  have nr: "\<not> cmp k a < 0" if "a \<in> set xs" for a using xs less_swap(1) [of a k] that by force
  have "filter (\<lambda>a. cmp a k < 0) (xs @ ys @ zs) = xs @ filter (\<lambda>a. cmp a k < 0) ys" using xs nl by (simp add: filter_empty_conv)
  moreover have "filter (\<lambda>a. cmp k a < 0) (xs @ ys @ zs) = filter (\<lambda>a. cmp k a < 0) ys @ zs" using zs nr by (simp add: filter_empty_conv)
  moreover have "(\<exists>a \<in> set (xs @ ys @ zs). cmp k a = 0 \<and> P a) \<longleftrightarrow> (\<exists>a \<in> set ys. cmp k a = 0 \<and> P a)" for P using ne by auto
  ultimately show ?thesis using i ne by (cases lu) (auto simp: interval_of_def Let_def hd_append split: if_splits)
qed

lemma interval_here: "a \<in> set xs \<Longrightarrow> cmp k a = 0 \<Longrightarrow> interval_of cmp k lower upper xs (Some a, Some a)"
  by (auto simp: interval_of_def)

lemma last_flat: "length as = length ps \<Longrightarrow> ps \<noteq> [] \<Longrightarrow> flat as ps \<noteq> [] \<and> last (flat as ps) = last ps"
  by (cases as rule: rev_cases; cases ps rule: rev_cases) auto

lemma hd_knit: "length qs = length bs \<Longrightarrow> qs \<noteq> [] \<Longrightarrow> knit qs bs \<noteq> [] \<and> hd (knit qs bs) = hd qs"
  by (cases qs; cases bs) auto

lemma kb_intervalp_ok:
  "kb_ok t h x \<Longrightarrow> ordered cmp (kb_keys x) \<Longrightarrow> h < f
    \<Longrightarrow> holds (kb_intervalp f cmp x k r lower upper) (interval_of cmp k lower upper (kb_keys x))"
proof (induction f arbitrary: x h r lower upper)
  case (Suc f)
  obtain i r' where g: "kb_getp_aux cmp x k r = (i, r')" by fastforce
  have at: "at_index (int (length ps) - 1) (ps @ qs) = Inr (last ps)" if "ps \<noteq> []" for ps qs :: "'d list"
    using that by (cases ps rule: rev_cases) simp_all
  show ?case
  proof (cases "kb_int x")
    case False
    obtain ps qs where x: "x = KB False (ps @ qs) []" and i: "i = int (length ps) - 1"
      and z: "ps @ qs \<noteq> [] \<longrightarrow> r' = 0 \<longrightarrow> ps \<noteq> [] \<and> cmp k (last ps) = 0"
      and st: "ps @ qs \<noteq> [] \<longrightarrow> r' \<noteq> 0 \<longrightarrow> (\<forall>p \<in> set ps. cmp p k < 0) \<and> (\<forall>q \<in> set qs. cmp k q < 0)"
      by (rule leaf_cut [OF Suc.prems(1) False Suc.prems(2) g])
    show ?thesis
    proof (cases "0 \<le> i \<and> r' = 0")
      case True
      then have ps: "ps \<noteq> []" using i by (cases ps) simp_all
      moreover have "cmp k (last ps) = 0" using z True ps by simp
      moreover have "kb_intervalp (Suc f) cmp x k r lower upper = Inr (Some (last ps), Some (last ps))"
        using True g at [OF calculation(1), of qs] by (simp add: x i)
      ultimately show ?thesis using interval_here [of "last ps" "kb_keys x" k lower upper] by (simp add: x)
    next
      case F: False
      then have "ps @ qs \<noteq> [] \<longrightarrow> r' \<noteq> 0" using z i by (cases ps) auto
      then have s: "\<forall>p \<in> set ps. cmp p k < 0" "\<forall>q \<in> set qs. cmp k q < 0" using st by (cases "ps @ qs = []"; simp)+
      have "interval_of cmp k lower upper (ps @ [] @ qs) (if ps = [] then lower else Some (last ps), if qs = [] then upper else Some (hd qs))"
        by (rule interval_mid [OF s]) (simp add: interval_of_def)
      moreover have "kb_intervalp (Suc f) cmp x k r lower upper = Inr (if ps = [] then lower else Some (last ps), if qs = [] then upper else Some (hd qs))"
        using F g at [of ps qs] at_index_mid [of "int (length ps)" ps "hd qs" "tl qs"] by (cases ps; cases qs) (auto simp: x i Let_def add.commute)
      ultimately show ?thesis by (simp add: x)
    qed
  next
    case True
    obtain as y bs ps qs h' where x: "x = KB True (ps @ qs) (as @ y # bs)" "h = Suc h'" "length as = length ps" "length bs = length qs"
      and i: "i = int (length ps) - 1" and y: "kb_ok t h' y" "ordered cmp (kb_keys y)"
      and le: "\<forall>a \<in> set (flat (map kb_keys as) ps). cmp a k \<le> 0" "\<forall>b \<in> set (knit qs (map kb_keys bs)). cmp k b \<le> 0"
      and st: "r' \<noteq> 0 \<or> ps = [] \<longrightarrow> kb_n x \<noteq> 0 \<longrightarrow> (\<forall>a \<in> set (flat (map kb_keys as) ps). cmp a k < 0) \<and> (\<forall>b \<in> set (knit qs (map kb_keys bs)). cmp k b < 0)"
      and z: "kb_n x \<noteq> 0 \<longrightarrow> r' = 0 \<longrightarrow> ps \<noteq> [] \<and> cmp k (last ps) = 0"
      by (rule descend_cut [OF Suc.prems(1) True Suc.prems(2) g])
    let ?A = "flat (map kb_keys as) ps" and ?B = "knit qs (map kb_keys bs)"
    note keys = kb_keys_cut [OF x(3), of qs y bs, folded x(1)]
    show ?thesis
    proof (cases "0 \<le> i \<and> r' = 0")
      case T: True
      then have p: "ps \<noteq> []" using i by (cases ps) simp_all
      moreover have "cmp k (last ps) = 0" using z T p x(1) by simp
      moreover have "last ps \<in> set (kb_keys x)" using x(3) p by (simp add: keys set_flat)
      ultimately show ?thesis using T g at [of ps qs] interval_here [of "last ps" "kb_keys x" k lower upper] x(1) i by simp
    next
      case F: False
      let ?lo = "if ps = [] then lower else Some (last ps)" and ?up = "if qs = [] then upper else Some (hd qs)"
      have "kb_n x \<noteq> 0 \<longrightarrow> r' \<noteq> 0 \<or> ps = []" using F i by (cases ps) auto
      then have s: "\<forall>a \<in> set ?A. cmp a k < 0" "\<forall>b \<in> set ?B. cmp k b < 0" using st x(1) by (cases "ps @ qs = []"; simp)+
      have e: "?lo = (if ?A = [] then lower else Some (last ?A))" "?up = (if ?B = [] then upper else Some (hd ?B))"
        using last_flat [of "map kb_keys as" ps] hd_knit [of qs "map kb_keys bs"] x(3,4) by auto
      have "holds (kb_intervalp f cmp y k r' ?lo ?up) (interval_of cmp k ?lo ?up (kb_keys y))"
        by (rule Suc.IH [OF y]) (use Suc.prems(3) x(2) in simp)
      then have "holds (kb_intervalp f cmp y k r' ?lo ?up) (interval_of cmp k lower upper (kb_keys x))"
        unfolding keys e by (rule holds_mono) (rule interval_mid [OF s])
      moreover have "kb_intervalp (Suc f) cmp x k r lower upper = kb_intervalp f cmp y k r' ?lo ?up"
        using F g at [of ps qs] at_index_mid [of "int (length ps)" ps "hd qs" "tl qs"] x(1,3) i by (cases ps; cases qs) (auto simp: Let_def add.commute)
      ultimately show ?thesis by simp
    qed
  qed
qed simp

end

end
