(* ===== verification/TW_KTreeProps.thy ===== *)
theory TW_KTreeProps
  imports TW_KTreeClass "HOL-Library.Multiset"
begin

text \<open>
  What the B-tree promises.
\<close>

section \<open>The walk\<close>

text \<open>On top of the stack is a node whose children from \<open>bs\<close> on are still to be visited.\<close>

lemma trav_leaf:
  "i + j = Suc (length ks) \<Longrightarrow> kb_trav (2 * j + f) ((Some (KB False ks cs), i) # st)
    = bindE (kb_trav f ((Some (KB False ks cs), Suc (length ks)) # st)) (\<lambda>l. Inr (drop i ks @ l))"
proof (induction j arbitrary: i)
  case 0
  then show ?case by (cases "kb_trav f ((Some (KB False ks cs), Suc (length ks)) # st)") simp_all
next
  case (Suc j)
  then have "i \<le> length ks" "Suc i + j = Suc (length ks)" by simp_all
  moreover have "drop i ks = (if i < length ks then [ks ! i] else []) @ drop (Suc i) ks" by (simp add: Cons_nth_drop_Suc)
  ultimately show ?case using Suc.IH [of "Suc i"] by (simp add: bindE_assoc)
qed

lemma trav_node:
  "kb_ok t h x \<Longrightarrow> kb_trav (kb_rounds x + f) ((Some x, 0) # st) = bindE (kb_trav f ((Some x, Suc (kb_n x)) # st)) (\<lambda>l. Inr (kb_keys x @ l))"
proof (induction h arbitrary: x f st)
  case 0
  obtain ks where x: "x = KB False ks []" using kb_ok_fields(3) [OF 0] by blast
  show ?case using trav_leaf [of 0 "Suc (length ks)" ks f "[]" st] by (simp add: x)
next
  case (Suc h)
  obtain ks cs where x: "x = KB True ks cs" "length cs = Suc (length ks)" using Suc.prems by (cases x) auto
  have kid: "kb_ok t h c" if "c \<in> set cs" for c using Suc.prems that by (simp add: x)
  have rest: "kb_trav (2 * length bs + sum_list (map kb_rounds bs) + f) ((Some x, length as) # st)
      = bindE (kb_trav f ((Some x, Suc (length ks)) # st)) (\<lambda>l. Inr (weave (map kb_keys bs) (drop (length as) ks) @ l))"
    if "cs = as @ bs" "bs \<noteq> []" for as bs
    using that
  proof (induction bs arbitrary: as)
    case (Cons y bs)
    have i: "length as \<le> length ks" "at_index (int (length as)) cs = Inr y" "Suc (length as) + length bs = Suc (length ks)"
      using x(2) Cons.prems(1) by simp_all
    let ?f = "2 * length bs + sum_list (map kb_rounds bs) + f"
    have y: "kb_trav (kb_rounds y + Suc ?f) ((Some y, 0) # (Some x, length as) # st)
        = bindE (kb_trav (Suc ?f) ((Some y, Suc (kb_n y)) # (Some x, length as) # st)) (\<lambda>l. Inr (kb_keys y @ l))"
      by (rule Suc.IH) (use kid Cons.prems in simp)
    have step: "kb_trav (2 * length (y # bs) + sum_list (map kb_rounds (y # bs)) + f) ((Some x, length as) # st)
        = bindE (kb_trav ?f ((Some x, Suc (length as)) # st))
            (\<lambda>l. Inr (kb_keys y @ (if length as < length ks then [ks ! length as] else []) @ l))"
      using y i(1,2) by (simp add: x(1) bindE_assoc add.commute add.left_commute)
    show ?case
    proof (cases "bs = []")
      case True
      then have "length as = length ks" using i(3) by simp
      then show ?thesis using step True by simp
    next
      case False
      then have l: "length as < length ks" using i(3) by (cases bs) simp_all
      have "kb_trav ?f ((Some x, Suc (length as)) # st)
          = bindE (kb_trav f ((Some x, Suc (length ks)) # st)) (\<lambda>l. Inr (weave (map kb_keys bs) (drop (Suc (length as)) ks) @ l))"
        using Cons.IH [of "as @ [y]"] Cons.prems(1) False by simp
      moreover have "weave (map kb_keys (y # bs)) (drop (length as) ks) = kb_keys y @ ks ! length as # weave (map kb_keys bs) (drop (Suc (length as)) ks)"
        using l False i(3) weave_Cons [of "map kb_keys bs" "drop (Suc (length as)) ks"] by (simp add: Cons_nth_drop_Suc [symmetric] del: weave_simps)
      ultimately show ?thesis using step l by (simp add: bindE_assoc)
    qed
  qed simp
  have ne: "cs \<noteq> []" using x(2) by auto
  have "kb_rounds x + f = 2 * length cs + sum_list (map kb_rounds cs) + f" using x by simp
  then show ?case using rest [of "[]" cs] ne by (simp add: x(1))
qed

lemma kb_traverse_ok: "kb_ok t h (kb_root b) \<Longrightarrow> kb_traverse b = Inr (kb_keys (kb_root b))"
  using trav_node [of t h "kb_root b" 1 "[]"] by (simp add: kb_traverse_def)

section \<open>Destroying\<close>

lemma kb_nodes_pos: "0 < kb_nodes x"
  by (cases x) simp

lemma destroy_loop:
  "sum_list (map kb_nodes st) < f \<Longrightarrow> \<forall>x \<in> set st. \<exists>h. kb_ok t h x
    \<Longrightarrow> kb_destroy_loop f st m = Inr (m\<lparr>kb_room := kb_room m + sum_list (map kb_nodes st)\<rparr>)"
proof (induction f arbitrary: st m)
  case (Suc f)
  show ?case
  proof (cases st)
    case (Cons x st')
    obtain h where ok: "kb_ok t h x" using Suc.prems Cons by auto
    have st': "\<forall>y \<in> set st'. \<exists>h. kb_ok t h y" using Suc.prems Cons by simp
    show ?thesis
    proof (cases h)
      case 0
      obtain ks where x: "x = KB False ks []" using kb_ok_fields(3) [OF ok 0] by blast
      show ?thesis using Suc.IH [of st' "free_node m", OF _ st'] Suc.prems(1) by (simp add: Cons x free_node_def)
    next
      case (Suc h')
      obtain ks cs where x: "x = KB True ks cs" "length cs = Suc (length ks)" using ok Suc by (cases x) auto
      have "\<forall>y \<in> set (rev cs @ st'). \<exists>h. kb_ok t h y" using ok st' by (auto simp: x Suc)
      then show ?thesis using Suc.IH [of "rev cs @ st'" "free_node m"] Suc.prems(1) x(2)
        by (simp add: Cons x(1) free_node_def rev_map [symmetric])
    qed
  qed simp
qed simp

lemma kb_destroy_ok:
  "kb_ok t h (kb_root b) \<Longrightarrow> kb_destroy (Some b) m = Inr (m\<lparr>kb_room := kb_room m + kb_nodes (kb_root b) + 1\<rparr>)"
  using destroy_loop [of "[kb_root b]" "Suc (kb_nodes (kb_root b))" t m] exI [of "\<lambda>h. kb_ok t h (kb_root b)" h]
  by (simp add: kb_destroy_def free_node_def del: kb_destroy_loop.simps)

section \<open>Searching from behind\<close>

text \<open>The keys from \<open>i\<close> on are greater than \<open>k\<close>, and the one before is not, unless it lies in front of \<open>b\<close>.\<close>

definition scanned :: "('k \<Rightarrow> 'k \<Rightarrow> int) \<Rightarrow> 'k \<Rightarrow> 'k list \<Rightarrow> nat \<Rightarrow> nat \<Rightarrow> int \<times> int \<Rightarrow> nat \<Rightarrow> bool" where
  "scanned cmp k ks b n r i \<longleftrightarrow> fst r = int i - 1 \<and> b \<le> i \<and> i \<le> Suc n \<and> (\<forall>j. i \<le> j \<longrightarrow> j \<le> n \<longrightarrow> cmp k (ks ! j) < 0)
     \<and> (if i = b then snd r < 0 else snd r = cmp k (ks ! (i - 1)) \<and> 0 \<le> snd r)"

lemma scan_ok: "b \<le> n \<Longrightarrow> \<exists>i. scanned cmp k ks b n (kb_scan cmp k ks b n r) i"
proof (induction n arbitrary: r)
  case 0
  have s: "kb_scan cmp k ks b 0 r = (if cmp k (ks ! 0) < 0 then (- 1, cmp k (ks ! 0)) else (0, cmp k (ks ! 0)))"
    using 0 kb_scan.simps [of cmp k ks b 0 r] by (simp add: Let_def)
  show ?case using 0 unfolding s by (cases "cmp k (ks ! 0) < 0") (auto simp: scanned_def intro: exI [of _ 0] exI [of _ 1])
next
  case (Suc n)
  let ?c = "cmp k (ks ! Suc n)"
  have s: "kb_scan cmp k ks b (Suc n) r = (if ?c < 0 then (if b < Suc n then kb_scan cmp k ks b n ?c else (int n, ?c)) else (int (Suc n), ?c))"
    using kb_scan.simps [of cmp k ks b "Suc n" r] by (simp add: Let_def)
  show ?case
  proof (cases "?c < 0 \<and> b < Suc n")
    case True
    then obtain i where "scanned cmp k ks b n (kb_scan cmp k ks b n ?c) i" using Suc.IH by fastforce
    then have "scanned cmp k ks b (Suc n) (kb_scan cmp k ks b n ?c) i" using True by (auto simp: scanned_def le_Suc_eq)
    moreover have "kb_scan cmp k ks b (Suc n) r = kb_scan cmp k ks b n ?c" using s True by simp
    ultimately show ?thesis by (intro exI [of _ i]) simp
  next
    case False
    show ?thesis
    proof (cases "?c < 0")
      case True
      then have "b = Suc n" using False Suc.prems by simp
      then have "scanned cmp k ks b (Suc n) (int n, ?c) b" using True by (simp add: scanned_def)
      moreover have "kb_scan cmp k ks b (Suc n) r = (int n, ?c)" using s True False by simp
      ultimately show ?thesis by (intro exI [of _ b]) simp
    next
      case nonneg: False
      then have "scanned cmp k ks b (Suc n) (int (Suc n), ?c) (Suc (Suc n))" using Suc.prems by (auto simp: scanned_def)
      moreover have "kb_scan cmp k ks b (Suc n) r = (int (Suc n), ?c)" using s nonneg by simp
      ultimately show ?thesis by (intro exI [of _ "Suc (Suc n)"]) simp
    qed
  qed
qed

context comparing begin

lemma get_aux_ok:
  assumes ord: "ordered cmp ks" and ne: "ks \<noteq> []"
  shows "\<exists>i. scanned cmp k ks 0 (length ks - 1) (kb_get_aux cmp (KB b ks cs) k r) i"
proof -
  let ?m = "length ks div 2"
  have m: "?m < length ks" using ne by simp
  show ?thesis
  proof (cases "cmp k (ks ! ?m) < 0")
    case True
    obtain i where i: "scanned cmp k ks 0 ?m (kb_scan cmp k ks 0 ?m r) i" using scan_ok [of 0 ?m cmp k ks r] by auto
    have "cmp k (ks ! j) < 0" if "?m \<le> j" "j < length ks" for j
      using that ordered_nth [OF ord, of ?m j] less_le_trans [OF True, of "ks ! j"] True by (cases "j = ?m") auto
    then have "\<forall>j. i \<le> j \<longrightarrow> j \<le> length ks - 1 \<longrightarrow> cmp k (ks ! j) < 0"
      using i ne by (auto simp: scanned_def)
    then have "scanned cmp k ks 0 (length ks - 1) (kb_scan cmp k ks 0 ?m r) i" using i m by (auto simp: scanned_def)
    then show ?thesis using True ne by (auto simp: kb_get_aux_def Let_def)
  next
    case False
    obtain i where "scanned cmp k ks ?m (length ks - 1) (kb_scan cmp k ks ?m (length ks - 1) r) i" using scan_ok [of ?m "length ks - 1" cmp k ks r] m by fastforce
    moreover from this False have "i \<noteq> ?m" using m by (auto simp: scanned_def)
    ultimately have "scanned cmp k ks 0 (length ks - 1) (kb_scan cmp k ks ?m (length ks - 1) r) i" by (auto simp: scanned_def)
    then show ?thesis using False ne by (auto simp: kb_get_aux_def Let_def)
  qed
qed

lemma searches_agree:
  assumes str: "strictly cmp ks" and ne: "ks \<noteq> []"
  shows "fst (kb_get_aux cmp (KB b ks cs) k r) = fst (kb_getp_aux cmp (KB b ks cs) k r)"
    and "snd (kb_get_aux cmp (KB b ks cs) k r) = 0 \<longleftrightarrow> snd (kb_getp_aux cmp (KB b ks cs) k r) = 0"
proof -
  obtain i where i: "scanned cmp k ks 0 (length ks - 1) (kb_get_aux cmp (KB b ks cs) k r) i" using get_aux_ok [OF strictly_ordered [OF str] ne] by blast
  obtain e r' where g: "kb_getp_aux cmp (KB b ks cs) k r = (e, r')" by fastforce
  obtain ps qs where c: "ks = ps @ qs" "e = int (length ps) - 1" and le: "\<forall>p \<in> set ps. cmp p k \<le> 0" "\<forall>q \<in> set qs. cmp k q \<le> 0"
    and z: "ks \<noteq> [] \<longrightarrow> r' = 0 \<longrightarrow> ps \<noteq> [] \<and> cmp k (last ps) = 0"
    and s: "ks \<noteq> [] \<longrightarrow> r' \<noteq> 0 \<longrightarrow> (\<forall>p \<in> set ps. cmp p k < 0) \<and> (\<forall>q \<in> set qs. cmp k q < 0)"
    by (rule getp_cut [OF strictly_ordered [OF str] g])
  have qs: "cmp k q < 0" if "q \<in> set qs" for q
  proof (cases "r' = 0")
    case True
    then have p: "ps \<noteq> []" "cmp k (last ps) = 0" using z ne by blast+
    then have "cmp (last ps) q < 0" using str that last_in_set [OF p(1)] by (simp add: c(1) strictly_append)
    then show ?thesis using le_less_trans [of k "last ps" q] p(2) by simp
  next
    case False
    then show ?thesis using s ne that by blast
  qed
  have il: "i = length ps"
  proof (rule antisym)
    show "i \<le> length ps"
    proof (rule ccontr)
      assume "\<not> i \<le> length ps"
      then have "ks ! (i - 1) \<in> set qs" using i ne by (auto simp: scanned_def c(1) nth_append in_set_conv_nth intro!: exI [of _ "i - 1 - length ps"])
      then have "cmp k (ks ! (i - 1)) < 0" by (rule qs)
      then show False using i \<open>\<not> i \<le> length ps\<close> by (auto simp: scanned_def split: if_splits)
    qed
    show "length ps \<le> i"
    proof (rule ccontr)
      assume "\<not> length ps \<le> i"
      then have "cmp k (ks ! i) < 0" "ks ! i \<in> set ps" using i ne by (auto simp: scanned_def c(1) nth_append)
      then show False using le(1) less_swap(1) by force
    qed
  qed
  show "fst (kb_get_aux cmp (KB b ks cs) k r) = fst (kb_getp_aux cmp (KB b ks cs) k r)" using i il c(2) g by (simp add: scanned_def)
  show "snd (kb_get_aux cmp (KB b ks cs) k r) = 0 \<longleftrightarrow> snd (kb_getp_aux cmp (KB b ks cs) k r) = 0"
  proof (cases ps rule: rev_cases)
    case Nil
    then show ?thesis using i il g z ne by (auto simp: scanned_def)
  next
    case (snoc ps' p)
    then have "snd (kb_get_aux cmp (KB b ks cs) k r) = cmp k p" using i il by (simp add: scanned_def c(1) nth_append)
    then show ?thesis using g z s ne snoc zero_swap [of k p] by auto
  qed
qed

end

section \<open>From building to destroying\<close>

lemma nodes_keys:
  "kb_ok t h x \<Longrightarrow> 2 \<le> t \<Longrightarrow> kb_n x \<noteq> 0 \<Longrightarrow> kb_nodes x \<le> length (kb_keys x)"
proof (induction h arbitrary: x)
  case 0
  then show ?case by (cases x) (auto simp: Suc_le_eq)
next
  case (Suc h)
  obtain ks c cs where x: "x = KB True ks (c # cs)" "length cs = length ks" using Suc.prems by (cases x; cases "kb_cs x") auto
  have kid: "kb_nodes d \<le> length (kb_keys d)" if "d = c \<or> d \<in> set cs" for d
    by (rule Suc.IH) (use Suc.prems that in \<open>auto simp: x\<close>)
  have "sum_list (map kb_nodes cs) + length ks \<le> length (knit ks (map kb_keys cs))"
    using x(2) kid
  proof (induction cs ks rule: list_induct2)
    case (Cons d ds k ks)
    have "kb_nodes d \<le> length (kb_keys d)" using Cons.prems by simp
    moreover have "sum_list (map kb_nodes ds) + length ks \<le> length (knit ks (map kb_keys ds))" by (rule Cons.IH) (use Cons.prems in auto)
    ultimately show ?case by simp
  qed simp
  moreover have "ks \<noteq> []" using Suc.prems(3) by (simp add: x)
  ultimately show ?case using kid [of c] by (cases ks) (simp_all add: x)
qed

lemma height_nodes: "kb_ok t h x \<Longrightarrow> h < kb_nodes x"
proof (induction h arbitrary: x)
  case 0
  then show ?case by (cases x) simp
next
  case (Suc h)
  obtain ks c cs where x: "x = KB True ks (c # cs)" using Suc.prems by (cases x; cases "kb_cs x") auto
  then have "h < kb_nodes c" using Suc by simp
  then show ?case by (simp add: x)
qed

lemma kbt_ok_nodes: "kbt_ok cmp b \<Longrightarrow> kb_depth (kb_root b) < kb_nodes (kb_root b) \<and> kb_nodes (kb_root b) \<le> Suc (length (kb_keys (kb_root b)))"
proof -
  assume b: "kbt_ok cmp b"
  then have ok: "kb_ok (kb_t b) (kb_depth (kb_root b)) (kb_root b)" "2 \<le> kb_t b" by (auto simp: kbt_ok_def)
  show ?thesis
  proof (cases "kb_n (kb_root b) = 0")
    case True
    then have "\<not> kb_int (kb_root b)" using b by (auto simp: kbt_ok_def)
    then show ?thesis using height_nodes [OF ok(1)] by (cases "kb_root b") simp
  next
    case False
    then show ?thesis using nodes_keys [OF ok False] height_nodes [OF ok(1)] by simp
  qed
qed

text \<open>The degree is computed as if a key had 4 bytes. The bytes of an internal node of that degree, before they are rounded.\<close>

definition node_bytes :: "int \<Rightarrow> int \<Rightarrow> int" where
  "node_bytes ksz sz = 15 + (2 * (((sz - 12) div 12 + 1) div 2) - 1) * (8 + ksz)"

lemma int_exact_eq: "0 \<le> x \<Longrightarrow> int_exact x = (if x < 2 ^ 31 then Inr x else Inl Overflow)"
  by (auto simp: int_exact_def to_int_def)

lemma size_t_exact: "0 \<le> x \<Longrightarrow> x < 2 ^ 64 \<Longrightarrow> to_size_t x = x"
  by (simp add: to_size_t_def)

lemma kt_new_eq:
  assumes "48 \<le> sz" and "sz < 2 ^ 31" and "0 < ksz" and "ksz < 2 ^ 31" and "2 \<le> kb_room m"
    and "t = ((sz - 12) div 12 + 1) div 2" and "n = 2 * t - 1"
  shows "kt_new ksz sz m = (if 2 ^ 31 \<le> node_bytes ksz sz then Inl Overflow
    else Inr (Some \<lparr>kb_root = KB False [] [], kb_t = nat t, kb_nmax = n, kb_off_ptr = 4 + n * ksz,
      kb_ilen = node_bytes ksz sz div 4 * 4, kb_elen = (7 + n * ksz) div 4 * 4, kb_n_keys = 0\<rparr>,
      m\<lparr>kb_room := kb_room m - 2, kb_n_nodes := 1\<rparr>))" and "2 \<le> t"
proof -
  have t: "2 \<le> t" "t < 2 ^ 28" using assms(1,2) by (simp_all add: assms(6))
  have n: "3 \<le> n" "n < 2 ^ 29" using t by (simp_all add: assms(7))
  have "n * ksz < 2 ^ 29 * 2 ^ 31" by (rule mult_strict_mono) (use n assms(3,4) in simp_all)
  then have nk: "0 \<le> n * ksz" "n * ksz < 2 ^ 60" using n assms(3) by simp_all
  have b: "node_bytes ksz sz = 15 + (8 * n + n * ksz)" by (simp add: node_bytes_def assms(6,7) distrib_left)
  have s: "to_size_t (sz - 4 - 8) = sz - 12" using assms(1,2) by (simp add: to_size_t_def)
  have deg: "to_int ((to_size_t (sz - 12) div 12 + 1) div 2) = t"
    using s t assms(6) by (simp add: to_int_def)
  have x1: "int_exact (2 * t - 1) = Inr n" using int_exact_eq [of n] n by (simp add: assms(7) [symmetric])
  have x2: "int_exact (to_size_t (4 + n * ksz)) = (if 4 + n * ksz < 2 ^ 31 then Inr (4 + n * ksz) else Inl Overflow)"
    using nk by (simp add: size_t_exact int_exact_eq)
  have x3: "to_size_t (15 + n * (8 + ksz)) = node_bytes ksz sz"
    using nk n by (simp add: size_t_exact b distrib_left)
  have "0 \<le> node_bytes ksz sz" using nk n by (simp add: b)
  then have x4: "int_exact (node_bytes ksz sz div 4 * 4) = (if node_bytes ksz sz < 2 ^ 31 then Inr (node_bytes ksz sz div 4 * 4) else Inl Overflow)"
    by (simp add: int_exact_eq; presburger)
  have x5: "int_exact (7 + n * ksz) = (if 7 + n * ksz < 2 ^ 31 then Inr (7 + n * ksz) else Inl Overflow)"
    using nk by (simp add: int_exact_eq)
  show "kt_new ksz sz m = (if 2 ^ 31 \<le> node_bytes ksz sz then Inl Overflow
    else Inr (Some \<lparr>kb_root = KB False [] [], kb_t = nat t, kb_nmax = n, kb_off_ptr = 4 + n * ksz,
      kb_ilen = node_bytes ksz sz div 4 * 4, kb_elen = (7 + n * ksz) div 4 * 4, kb_n_keys = 0\<rparr>,
      m\<lparr>kb_room := kb_room m - 2, kb_n_nodes := 1\<rparr>))"
  proof (cases "2 ^ 31 \<le> node_bytes ksz sz")
    case True
    then show ?thesis using t assms(5)
      by (simp add: kt_new_def kb_init_tree_def deg x1 x2 x3 x4 Let_def del: power_numeral)
  next
    case False
    then have l: "4 + n * ksz < 2 ^ 31" "7 + n * ksz < 2 ^ 31" using n unfolding b by linarith+
    have m: "new_node (m\<lparr>kb_room := kb_room m - Suc 0, kb_n_nodes := 0\<rparr>) = Inr (m\<lparr>kb_room := kb_room m - 2, kb_n_nodes := 1\<rparr>)"
      using assms(5) by (simp add: new_node_def)
    have r: "kb_room m \<noteq> 0" using assms(5) by simp
    show ?thesis using t r False l
      by (simp add: kt_new_def kb_init_tree_def deg x1 x2 x3 x4 x5 m Let_def del: power_numeral)
  qed
  show "2 \<le> t" by (rule t(1))
qed

lemma kt_new_ok:
  assumes "48 \<le> sz" and "sz < 2 ^ 31" and "0 < ksz" and "node_bytes ksz sz < 2 ^ 31" and "2 \<le> kb_room m"
  obtains b where "kt_new ksz sz m = Inr (Some b, m\<lparr>kb_room := kb_room m - 2, kb_n_nodes := 1\<rparr>)" "kb_root b = KB False [] []"
    "kb_t b = nat (((sz - 12) div 12 + 1) div 2)" "kb_nmax b = 2 * int (kb_t b) - 1" "2 \<le> kb_t b" "kb_n_keys b = 0"
    "kb_off_ptr b = 4 + kb_nmax b * ksz" "kb_ilen b = (15 + (8 * kb_nmax b + kb_nmax b * ksz)) div 4 * 4" "kb_elen b = (7 + kb_nmax b * ksz) div 4 * 4"
proof -
  define t where "t = ((sz - 12) div 12 + 1) div 2"
  have t: "2 \<le> t" using assms(1,2) by (simp add: t_def)
  have b: "node_bytes ksz sz = 15 + (8 * (2 * t - 1) + (2 * t - 1) * ksz)" by (simp add: node_bytes_def t_def [symmetric] distrib_left)
  have "1 * ksz \<le> (2 * t - 1) * ksz" by (rule mult_right_mono) (use t assms(3) in simp_all)
  moreover have "15 + 8 * (2 * t - 1) + (2 * t - 1) * ksz < 2 ^ 31" using b assms(4) by simp
  ultimately have k: "ksz < 2 ^ 31" using t by simp
  from kt_new_eq (1) [OF assms(1,2,3) k assms(5) t_def refl] t b assms(4) show ?thesis
    by (intro that [of "\<lparr>kb_root = KB False [] [], kb_t = nat t, kb_nmax = 2 * t - 1, kb_off_ptr = 4 + (2 * t - 1) * ksz,
       kb_ilen = node_bytes ksz sz div 4 * 4, kb_elen = (7 + (2 * t - 1) * ksz) div 4 * 4, kb_n_keys = 0\<rparr>"])
      (simp_all add: t_def [symmetric])
qed

text \<open>Putting one key after the other.\<close>

fun kt_puts :: "('k \<Rightarrow> 'k \<Rightarrow> int) \<Rightarrow> 'k list \<Rightarrow> 'k kbtree option \<times> kbmem \<Rightarrow> ('k kbtree option \<times> kbmem) res" where
  "kt_puts cmp [] bm = Inr bm"
| "kt_puts cmp (k # ks) bm = bindE (kt_put cmp (fst bm) k (snd bm)) (kt_puts cmp ks)"

lemma kt_puts_ok:
  assumes "comparing cmp"
  shows "kbt_ok cmp b \<Longrightarrow> 2 * (length (kb_keys (kb_root b)) + length ks) + 4 \<le> kb_room m + kb_nodes (kb_root b)
    \<Longrightarrow> \<exists>b' m'. kt_puts cmp ks (Some b, m) = Inr (Some b', m') \<and> kbt_ok cmp b' \<and> mset (kb_keys (kb_root b')) = mset (kb_keys (kb_root b)) + mset ks
      \<and> kb_room m' + kb_nodes (kb_root b') = kb_room m + kb_nodes (kb_root b) \<and> kb_n_nodes m' + int (kb_room m') = kb_n_nodes m + int (kb_room m)"
proof (induction ks arbitrary: b m)
  case (Cons k ks)
  have "kb_depth (kb_root b) + 3 \<le> kb_room m" using kbt_ok_nodes [OF Cons.prems(1)] Cons.prems(2) by simp
  then obtain b1 m1 where p: "kb_putp cmp b k m = Inr (b1, m1)" "kbt_ok cmp b1" "inserted cmp k (kb_keys (kb_root b)) (kb_keys (kb_root b1))"
    "kb_room m1 + kb_nodes (kb_root b1) = kb_room m + kb_nodes (kb_root b)" "kb_n_nodes m1 + int (kb_room m1) = kb_n_nodes m + int (kb_room m)"
    using comparing.kb_putp_ok [OF assms Cons.prems(1), of m k] by (auto simp: holds_iff)
  have ms: "mset (kb_keys (kb_root b1)) = mset (kb_keys (kb_root b)) + {#k#}" using p(3) by (auto simp: inserted_def)
  obtain b' m' where "kt_puts cmp ks (Some b1, m1) = Inr (Some b', m')" "kbt_ok cmp b'" "mset (kb_keys (kb_root b')) = mset (kb_keys (kb_root b1)) + mset ks"
    "kb_room m' + kb_nodes (kb_root b') = kb_room m1 + kb_nodes (kb_root b1)" "kb_n_nodes m' + int (kb_room m') = kb_n_nodes m1 + int (kb_room m1)"
    using Cons.IH [OF p(2), of m1] Cons.prems(2) p(4) inserted_length [OF p(3)] by auto
  then show ?case using p(1,4,5) ms by (auto simp: kt_put_def)
qed simp

section \<open>Deleting what is not there\<close>

context comparing begin

lemma del_absent_leaf:
  assumes b: "kbt_ok cmp b" and leaf: "\<not> kb_int (kb_root b)" and no: "\<forall>a \<in> set (kb_keys (kb_root b)). cmp a k \<noteq> 0"
  shows "kt_del cmp (Some b) k m = (let l = filter (\<lambda>a. cmp a k < 0) (kb_keys (kb_root b)); g = filter (\<lambda>a. 0 < cmp a k) (kb_keys (kb_root b)) in
    if l = [] then Inl OutOfBounds else Inr (last l, Some (b\<lparr>kb_root := KB False (butlast l @ g) [], kb_n_keys := kb_n_keys b - 1\<rparr>), m))"
proof -
  have ok: "kb_ok (kb_t b) (kb_depth (kb_root b)) (kb_root b)" "ordered cmp (kb_keys (kb_root b))" using b by (simp_all add: kbt_ok_def)
  obtain i r where g: "kb_getp_aux cmp (kb_root b) k 0 = (i, r)" by fastforce
  obtain ps qs where x: "kb_root b = KB False (ps @ qs) []" and i: "i = int (length ps) - 1"
    and z: "ps @ qs \<noteq> [] \<longrightarrow> r = 0 \<longrightarrow> ps \<noteq> [] \<and> cmp k (last ps) = 0"
    and s: "ps @ qs \<noteq> [] \<longrightarrow> r \<noteq> 0 \<longrightarrow> (\<forall>p \<in> set ps. cmp p k < 0) \<and> (\<forall>q \<in> set qs. cmp k q < 0)"
    by (rule leaf_cut [OF ok(1) leaf ok(2) g])
  have "r \<noteq> 0" if "ps @ qs \<noteq> []"
  proof
    assume "r = 0"
    then have "ps \<noteq> []" "cmp k (last ps) = 0" using z that by blast+
    then show False using no last_in_set [of ps] zero_swap [of "last ps" k] by (simp add: x)
  qed
  then have lt: "\<forall>p \<in> set ps. cmp p k < 0" and gt: "\<forall>q \<in> set qs. 0 < cmp q k"
    using s less_swap(1) by (cases "ps @ qs = []"; simp)+
  have f: "filter (\<lambda>a. cmp a k < 0) (ps @ qs) = ps" "filter (\<lambda>a. 0 < cmp a k) (ps @ qs) = qs"
    using lt gt by (fastforce simp: filter_empty_conv filter_id_conv)+
  have p: "kb_del_place cmp (KB False (ps @ qs) []) (Some k) 0 = Inr (i, r)" using g x by (simp add: kb_del_place_def)
  show ?thesis
  proof (cases ps rule: rev_cases)
    case Nil
    have "at_index i qs = Inl OutOfBounds" using i Nil by (simp add: at_index_def)
    then show ?thesis using p f Nil by (simp add: kt_del_def kb_delp_def x Let_def)
  next
    case (snoc ps' a)
    have "at_index i (ps @ qs) = Inr a" "del_index i (ps @ qs) = Inr (ps' @ qs)" using i snoc by simp_all
    then show ?thesis using p f snoc by (simp add: kt_del_def kb_delp_def x Let_def)
  qed
qed

end

section \<open>What the B-tree promises\<close>

interpretation num: comparing kb_generic_cmp
  by unfold_locales (auto simp: kb_generic_cmp_def split: if_splits)

lemma num_laws: "comparing kb_generic_cmp"
  by unfold_locales

text \<open>A tree with an internal root, and one that is a leaf.\<close>

definition ext_tree :: "int kbtree" where
  "ext_tree = \<lparr>kb_root = KB True [10, 40] [KB False [5] [], KB False [20, 25, 30] [], KB False [50] []],
     kb_t = 2, kb_nmax = 3, kb_off_ptr = 16, kb_ilen = 48, kb_elen = 16, kb_n_keys = 7\<rparr>"

definition ext_leaf :: "int kbtree" where
  "ext_leaf = ext_tree\<lparr>kb_root := KB False [13, 30] [], kb_n_keys := 2\<rparr>"

definition ext_mem :: kbmem where
  "ext_mem = \<lparr>kb_room = 20, kb_n_nodes = 4\<rparr>"

lemma ext_tree_ok:
  "kbt_ok kb_generic_cmp ext_tree" "kb_keys (kb_root ext_tree) = [5, 10, 20, 25, 30, 40, 50]" "strictly kb_generic_cmp (kb_keys (kb_root ext_tree))"
  "kb_depth (kb_root ext_tree) = 1" "kb_nodes (kb_root ext_tree) = 4"
  by (simp_all add: ext_tree_def kbt_ok_def ordered_def strictly_def kb_generic_cmp_def numeral_2_eq_2)

lemma ext_leaf_ok:
  "kbt_ok kb_generic_cmp ext_leaf" "kb_root ext_leaf = KB False [13, 30] []"
  by (simp_all add: ext_leaf_def ext_tree_def kbt_ok_def ordered_def kb_generic_cmp_def)

lemma ext_room: "kb_room ext_mem = 20"
  by (simp add: ext_mem_def)

text \<open>C34. Putting a key into a B-tree whose comparison is an order, with memory for the new nodes, inserts it at its place among the keys, behind those that
  are equal, without writing beyond the arrays of a node, and leaves a B-tree: all leaves at the same depth, no node with more than \<open>2 t - 1\<close> keys, none below the root with
  less than \<open>t - 1\<close>, and the keys in order; every node that was allocated is in the tree and was counted.\<close>

theorem ktree_put_inserts:
  assumes "comparing cmp" and "kbt_ok cmp b" and "kb_depth (kb_root b) + 3 \<le> kb_room m"
  shows "\<exists>b' m'. kt_put cmp (Some b) k m = Inr (Some b', m') \<and> kbt_ok cmp b' \<and> inserted cmp k (kb_keys (kb_root b)) (kb_keys (kb_root b'))
    \<and> kb_room m' + kb_nodes (kb_root b') = kb_room m + kb_nodes (kb_root b) \<and> kb_n_nodes m' + int (kb_room m') = kb_n_nodes m + int (kb_room m)"
  using comparing.kb_putp_ok [OF assms, of k] by (auto simp: kt_put_def holds_iff)

lemma ktree_put_inserts_witness:
  "\<exists>b' m'. kt_put kb_generic_cmp (Some ext_tree) 27 ext_mem = Inr (Some b', m') \<and> kbt_ok kb_generic_cmp b'
    \<and> inserted kb_generic_cmp 27 (kb_keys (kb_root ext_tree)) (kb_keys (kb_root b'))"
  using ktree_put_inserts [OF num_laws ext_tree_ok(1), of ext_mem 27] by (auto simp: ext_tree_ok ext_room)

text \<open>C35. For a B-tree whose keys are all different for its comparison: deleting a key that is in it takes exactly this key out, whichever node it is in and whichever
  children have to be filled or joined on the way, and leaves a B-tree; what is returned is the stored key or a copy of the argument, and every node that was joined into
  another is freed. With equal keys it is otherwise, \<open>ktree_del_equal_keys\<close>.\<close>

theorem ktree_del_removes:
  assumes "comparing cmp" and "kbt_ok cmp b" and "strictly cmp (kb_keys (kb_root b))" and "p \<in> set (kb_keys (kb_root b))" and "cmp p k = 0"
  shows "\<exists>e b' m'. kt_del cmp (Some b) k m = Inr (e, Some b', m') \<and> kbt_ok cmp b' \<and> e \<in> {p, k}
    \<and> kb_keys (kb_root b') = filter (\<lambda>a. cmp a k \<noteq> 0) (kb_keys (kb_root b)) \<and> kb_room m' + kb_nodes (kb_root b') = kb_room m + kb_nodes (kb_root b)"
  using comparing.kb_delp_ok [OF assms, of m] by (auto simp: kt_del_def holds_iff)

lemma ktree_del_removes_witness:
  "\<exists>e b' m'. kt_del kb_generic_cmp (Some ext_tree) 5 ext_mem = Inr (e, Some b', m') \<and> kbt_ok kb_generic_cmp b'
    \<and> kb_keys (kb_root b') = [10, 20, 25, 30, 40, 50]"
  using ktree_del_removes [OF num_laws ext_tree_ok(1,3), of 5 5 ext_mem] by (auto simp: ext_tree_ok kb_generic_cmp_def)

text \<open>Keys that are equal for the comparison, of their first components, and differ otherwise. The one whose children are joined is replaced by a copy of the argument,
  which stays in the tree, and the one before is deleted and returned.\<close>

definition ext_equal :: "(int \<times> int) kbtree" where
  "ext_equal = \<lparr>kb_root = KB True [(5, 2)] [KB False [(5, 1)] [], KB False [(7, 3)] []],
     kb_t = 2, kb_nmax = 3, kb_off_ptr = 28, kb_ilen = 60, kb_elen = 28, kb_n_keys = 3\<rparr>"

theorem ktree_del_equal_keys:
  shows "comparing (\<lambda>a b. kb_generic_cmp (fst a) (fst b))" and "kbt_ok (\<lambda>a b. kb_generic_cmp (fst a) (fst b)) ext_equal"
    and "kb_keys (kb_root ext_equal) = [(5, 1), (5, 2), (7, 3)]"
    and "holds (kt_del (\<lambda>a b. kb_generic_cmp (fst a) (fst b)) (Some ext_equal) (5, 99) ext_mem)
      (\<lambda>(e, b, _). e = (5, 1) \<and> kb_keys (kb_root (the b)) = [(5, 99), (7, 3)])"
proof -
  show "comparing (\<lambda>a b. kb_generic_cmp (fst a) (fst b))"
    by unfold_locales (auto simp: kb_generic_cmp_def split: if_splits)
  show "kbt_ok (\<lambda>a b. kb_generic_cmp (fst a) (fst b)) ext_equal" "kb_keys (kb_root ext_equal) = [(5, 1), (5, 2), (7, 3)]"
    by (simp_all add: ext_equal_def kbt_ok_def ordered_def kb_generic_cmp_def numeral_2_eq_2)
  show "holds (kt_del (\<lambda>a b. kb_generic_cmp (fst a) (fst b)) (Some ext_equal) (5, 99) ext_mem)
      (\<lambda>(e, b, _). e = (5, 1) \<and> kb_keys (kb_root (the b)) = [(5, 99), (7, 3)])"
    by code_simp
qed

text \<open>A search for a key ends with one that is equal to it, or with a null pointer when there is none in the tree.\<close>

theorem ktree_finds:
  assumes "comparing cmp" and "kbt_ok cmp b"
  shows "\<exists>e. kb_getp (Suc (kb_depth (kb_root b))) cmp (kb_root b) k 0 = Inr e
    \<and> (case e of None \<Rightarrow> \<forall>a \<in> set (kb_keys (kb_root b)). cmp k a \<noteq> 0 | Some a \<Rightarrow> a \<in> set (kb_keys (kb_root b)) \<and> cmp k a = 0)"
  using comparing.getp_finds [OF assms(1), of "kb_t b" "kb_depth (kb_root b)" "kb_root b" "Suc (kb_depth (kb_root b))" k 0] assms(2)
  by (auto simp: kbt_ok_def holds_iff simp del: kb_getp.simps)

lemma ktree_finds_witness:
  "\<exists>e. kb_getp (Suc 1) kb_generic_cmp (kb_root ext_tree) 25 0 = Inr e \<and> e = Some 25"
  using ktree_finds [OF num_laws ext_tree_ok(1), of 25] unfolding ext_tree_ok(2,4)
  by (auto simp: kb_generic_cmp_def split: option.splits if_splits simp del: kb_getp.simps)

text \<open>C37. For a key that is not in the tree, the interval is the greatest key below it and the least above it, a null pointer where there is none; for one that
  is, both ends are this key.\<close>

theorem ktree_neighbours:
  assumes "comparing cmp" and "kbt_ok cmp b"
  shows "\<exists>lu. kb_intervalp (Suc (kb_depth (kb_root b))) cmp (kb_root b) k 0 None None = Inr lu \<and> interval_of cmp k None None (kb_keys (kb_root b)) lu"
  using comparing.kb_intervalp_ok [OF assms(1), of "kb_t b" "kb_depth (kb_root b)" "kb_root b" "Suc (kb_depth (kb_root b))" k 0 None None] assms(2)
  by (auto simp: kbt_ok_def holds_iff simp del: kb_intervalp.simps)

lemma ktree_neighbours_witness:
  "kb_intervalp (Suc 1) kb_generic_cmp (kb_root ext_tree) 27 0 None None = Inr (Some 25, Some 30)"
  using ktree_neighbours [OF num_laws ext_tree_ok(1), of 27] unfolding ext_tree_ok(2,4)
  by (auto simp: interval_of_def kb_generic_cmp_def Let_def simp del: kb_intervalp.simps)

text \<open>C38. For a node with keys in strict order, none equal to another: the two searches within it, by halving and by halving once and walking back, give the same index, and the
  comparison that the caller tests is zero for both or for none. With equal keys the indices differ, \<open>ktree_searches_differ\<close>.\<close>

theorem ktree_searches_agree:
  assumes "comparing cmp" and "strictly cmp (kb_ks x)" and "kb_ks x \<noteq> []"
  shows "fst (kb_get_aux cmp x k r) = fst (kb_getp_aux cmp x k r) \<and> (snd (kb_get_aux cmp x k r) = 0 \<longleftrightarrow> snd (kb_getp_aux cmp x k r) = 0)"
  using comparing.searches_agree [OF assms, of "kb_int x" "kb_cs x" k r] by (simp add: kbnode.collapse)

lemma ktree_searches_agree_witness:
  "fst (kb_get_aux kb_generic_cmp (KB False [13, 30, 42] []) 30 7) = fst (kb_getp_aux kb_generic_cmp (KB False [13, 30, 42] []) 30 7)"
  using ktree_searches_agree [OF num_laws, of "KB False [13, 30, 42] []" 30 7] by (simp add: strictly_def kb_generic_cmp_def)

text \<open>Among equal keys, the first search finds the last and the second the first.\<close>

theorem ktree_searches_differ:
  "kb_get_aux kb_generic_cmp (KB False [5, 5] []) 5 r = (1, 0)" "kb_getp_aux kb_generic_cmp (KB False [5, 5] []) 5 r = (0, 0)"
  by (simp_all add: kb_get_aux_def kb_getp_aux_def kb_scan.simps kb_bsearch.simps kb_generic_cmp_def Let_def)

text \<open>C36. A tree built for a size of at least 48 with nodes whose size fits an \<^verbatim>\<open>int\<close>, and the memory it takes, given any sequence of keys, ends with a walk that visits all of them in
  order, equal ones as often as they were put; the number of nodes it counts is the number it has, and destroying it frees everything that was allocated.\<close>

theorem ktree_sorts:
  assumes "comparing cmp" and "48 \<le> sz" and "sz < 2 ^ 31" and "0 < ksz" and "node_bytes ksz sz < 2 ^ 31" and "2 * length ks + 5 \<le> kb_room m"
  shows "\<exists>b0 m0 b m1 xs m2. kt_new ksz sz m = Inr (b0, m0) \<and> kt_puts cmp ks (b0, m0) = Inr (Some b, m1) \<and> kt_traverse (Some b) = Inr xs
    \<and> ordered cmp xs \<and> mset xs = mset ks \<and> kb_n_keys b = int (length ks) \<and> kb_n_nodes m1 = int (kb_nodes (kb_root b))
    \<and> kt_destroy (Some b) m1 = Inr m2 \<and> kb_room m2 = kb_room m"
proof -
  obtain b :: "'a kbtree" where b: "kt_new ksz sz m = Inr (Some b, m\<lparr>kb_room := kb_room m - 2, kb_n_nodes := 1\<rparr>)" "kb_root b = KB False [] []" "2 \<le> kb_t b" "kb_n_keys b = 0"
    by (rule kt_new_ok [OF assms(2-5), of m]) (use assms(6) in simp_all)
  let ?m = "m\<lparr>kb_room := kb_room m - 2, kb_n_nodes := 1\<rparr>"
  have "kbt_ok cmp b" using b by (simp add: kbt_ok_def)
  moreover have "2 * length ks + 3 \<le> kb_room m - 2" using assms(6) by simp
  ultimately obtain b' m' where p: "kt_puts cmp ks (Some b, ?m) = Inr (Some b', m')" "kbt_ok cmp b'" "mset (kb_keys (kb_root b')) = mset ks"
    "kb_room m' + kb_nodes (kb_root b') = kb_room ?m + 1" "kb_n_nodes m' + int (kb_room m') = kb_n_nodes ?m + int (kb_room ?m)"
    using kt_puts_ok [OF assms(1), of b ks ?m] by (auto simp: b(2))
  have ok: "kb_ok (kb_t b') (kb_depth (kb_root b')) (kb_root b')" "ordered cmp (kb_keys (kb_root b'))" "kb_n_keys b' = int (length (kb_keys (kb_root b')))"
    using p(2) by (simp_all add: kbt_ok_def)
  have "length (kb_keys (kb_root b')) = length ks" using p(3) by (metis size_mset)
  then show ?thesis using b(1) p ok kb_traverse_ok [OF ok(1)] kb_destroy_ok [OF ok(1), of m'] assms(6)
    by (auto simp: kt_traverse_def kt_destroy_def)
qed

lemma ktree_sorts_witness:
  "\<exists>b0 m0 b m1. kt_new 4 48 ext_mem = Inr (b0, m0) \<and> kt_puts kb_generic_cmp [3, 1, 2, 1] (b0, m0) = Inr (Some b, m1)
    \<and> (\<exists>xs. kt_traverse (Some b) = Inr xs \<and> mset xs = mset [3, 1, 2, 1])"
  using ktree_sorts [OF num_laws, of 48 4 "[3, 1, 2, 1]" ext_mem] by (auto simp: ext_room node_bytes_def)

text \<open>Deleting a key that is not there is not harmless: in a tree that is one leaf it deletes the greatest key below, and if there is none, as in an empty tree, reads
  before the first key.\<close>

theorem ktree_del_absent:
  assumes "comparing cmp" and "kbt_ok cmp b" and "\<not> kb_int (kb_root b)" and "\<forall>a \<in> set (kb_keys (kb_root b)). cmp a k \<noteq> 0"
  shows "kt_del cmp (Some b) k m = (let l = filter (\<lambda>a. cmp a k < 0) (kb_keys (kb_root b)); g = filter (\<lambda>a. 0 < cmp a k) (kb_keys (kb_root b)) in
    if l = [] then Inl OutOfBounds else Inr (last l, Some (b\<lparr>kb_root := KB False (butlast l @ g) [], kb_n_keys := kb_n_keys b - 1\<rparr>), m))"
  using comparing.del_absent_leaf [OF assms] .

lemma ktree_del_absent_witness:
  "\<exists>b'. kt_del kb_generic_cmp (Some ext_leaf) 20 ext_mem = Inr (13, Some b', ext_mem) \<and> kb_keys (kb_root b') = [30]"
  using ktree_del_absent [OF num_laws ext_leaf_ok(1), of 20 ext_mem] by (simp add: ext_leaf_ok(2) kb_generic_cmp_def Let_def)

text \<open>A tree with a node size below 48 bytes is not built, and the first key put into it is a call through a null pointer.\<close>

theorem ktree_small:
  assumes "0 \<le> sz" and "sz < 48" and "0 < kb_room m"
  shows "\<exists>m'. kt_new ksz sz m = Inr (None, m') \<and> kb_room m' = kb_room m \<and> kt_put cmp None k m' = Inl NullDeref"
proof -
  have t: "to_int ((to_size_t (sz - 4 - 8) div (8 + 4) + 1) div 2) < 2"
  proof (cases "12 \<le> sz")
    case True
    then show ?thesis using assms(2) by (simp add: to_size_t_def to_int_def)
  next
    case False
    then have "sz = 0 \<or> sz = 1 \<or> sz = 2 \<or> sz = 3 \<or> sz = 4 \<or> sz = 5 \<or> sz = 6 \<or> sz = 7 \<or> sz = 8 \<or> sz = 9 \<or> sz = 10 \<or> sz = 11"
      using assms(1) by presburger
    then show ?thesis by (auto simp: to_size_t_def to_int_def)
  qed
  then show ?thesis using assms(3) by (simp add: kt_new_def kb_init_tree_def Let_def free_node_def kt_put_def)
qed

lemma ktree_small_witness:
  "\<exists>m'. kt_new 4 47 ext_mem = Inr (None :: int kbtree option, m') \<and> kt_put kb_generic_cmp None 3 m' = Inl NullDeref"
  using ktree_small [of 47 ext_mem 4 kb_generic_cmp 3] by (auto simp: ext_room)

text \<open>The memory of a node has room for what it is used for: \<open>2 t - 1\<close> keys behind the flag, and in an internal node \<open>2 t\<close> pointers behind the keys.\<close>

theorem ktree_layout:
  assumes "48 \<le> sz" and "sz < 2 ^ 31" and "0 < ksz" and "node_bytes ksz sz < 2 ^ 31" and "2 \<le> kb_room m"
  shows "\<exists>b m'. kt_new ksz sz m = Inr (Some b, m') \<and> 4 + (2 * int (kb_t b) - 1) * ksz \<le> kb_off_ptr b \<and> 4 + (2 * int (kb_t b) - 1) * ksz \<le> kb_elen b
    \<and> kb_off_ptr b + 8 * (2 * int (kb_t b)) \<le> kb_ilen b"
proof -
  obtain b :: "'a kbtree" where b: "kt_new ksz sz m = Inr (Some b, m\<lparr>kb_room := kb_room m - 2, kb_n_nodes := 1\<rparr>)"
    "kb_nmax b = 2 * int (kb_t b) - 1" "2 \<le> kb_t b" "kb_off_ptr b = 4 + kb_nmax b * ksz"
    "kb_ilen b = (15 + (8 * kb_nmax b + kb_nmax b * ksz)) div 4 * 4" "kb_elen b = (7 + kb_nmax b * ksz) div 4 * 4"
    by (rule kt_new_ok [OF assms])
  have "4 + kb_nmax b * ksz \<le> kb_elen b" unfolding b(6) by presburger
  moreover have "kb_off_ptr b + 8 * (kb_nmax b + 1) \<le> kb_ilen b" unfolding b(4,5) by presburger
  ultimately show ?thesis using b(1,2,4) by auto
qed

lemma ktree_layout_witness:
  "\<exists>b :: int kbtree. \<exists>m'. kt_new 8 512 ext_mem = Inr (Some b, m') \<and> kb_off_ptr b + 8 * (2 * int (kb_t b)) \<le> kb_ilen b"
  using ktree_layout [of 512 8 ext_mem] by (auto simp: ext_room node_bytes_def)

text \<open>The degree is that of keys with 4 bytes, so that wide keys make a node whose size does not fit an \<^verbatim>\<open>int\<close>. With the first numbers below, the code
  allocates 92 bytes for a node of 89478487 keys.\<close>

theorem ktree_too_wide:
  assumes "48 \<le> sz" and "sz < 2 ^ 31" and "0 < ksz" and "ksz < 2 ^ 31" and "2 \<le> kb_room m" and "2 ^ 31 \<le> node_bytes ksz sz"
  shows "kt_new ksz sz m = Inl Overflow"
  using kt_new_eq (1) [OF assms(1-5) refl refl] assms(6) by simp

lemma ktree_too_wide_witness:
  "kt_new 40 (2 ^ 30 + 48) ext_mem = (Inl Overflow :: (int kbtree option \<times> kbmem) res)
    \<and> to_int (to_size_t (4 + 8 + 89478487 * (8 + 40) + 3) div 4 * 4) = 92"
  using ktree_too_wide [of "2 ^ 30 + 48" 40 ext_mem] by (simp add: ext_room node_bytes_def to_int_def to_size_t_def)

end
