(* ===== verification/TW_DenseHash.thy ===== *)
theory TW_DenseHash
  imports TW_Heap "HOL-Library.Multiset"
begin

text \<open>
  TWDenseHash of include/TW/tw_densehash.h: a map that copies its keys and objects to memory of its own, over the
  container \<^verbatim>\<open>dense_hash_map\<close> of a library, which maps pointers to keys to pointers to objects.

  The container is third-party code and is taken as documented: slots that hold a pair or none, in the order of
  iteration. A search compares the keys behind the pointers. An erased slot stays as it is until the next insertion or
  resize, and either may put the pairs in any order, \<open>dp_arrange\<close>, that depends on the keys.
  Its two reserved keys must not be inserted. The other parameters are those of the template: the comparison of keys,
  the mutex, and the object that the default constructor builds.
\<close>

section \<open>The state\<close>

datatype ('k, 'd) dcell = KeyObj 'k | DataObj 'd

type_synonym ('k, 'd) dheap = "('k, 'd) dcell heap"
type_synonym slots = "(ptr \<times> ptr) option list"

record ('k, 'd) dparams =
  dp_eq :: "'k \<Rightarrow> 'k \<Rightarrow> bool"
  dp_acquire :: "bool \<Rightarrow> bool res"
  dp_release :: "bool \<Rightarrow> bool res"
  dp_arrange :: "('k, 'd) dheap \<Rightarrow> slots \<Rightarrow> slots"
  dp_new :: 'd

record dense =
  dh_slots :: slots
  dh_lock :: bool
  dh_iters :: int
  dh_empty :: ptr
  dh_deleted :: ptr

section \<open>Memory\<close>

definition read_key :: "ptr \<Rightarrow> ('k, 'd) dheap \<Rightarrow> 'k res" where
  "read_key p H = bindE (load p H) (\<lambda>c. case c of KeyObj k \<Rightarrow> Inr k | DataObj _ \<Rightarrow> Inl Uninit)"

definition read_data :: "ptr \<Rightarrow> ('k, 'd) dheap \<Rightarrow> 'd res" where
  "read_data p H = bindE (load p H) (\<lambda>c. case c of DataObj d \<Rightarrow> Inr d | KeyObj _ \<Rightarrow> Inl Uninit)"

text \<open>\<^verbatim>\<open>TW_NEW_WALLOC\<close> and \<^verbatim>\<open>TW_DELETE_WALLOC\<close>.\<close>

definition new_cell :: "('k, 'd) dcell \<Rightarrow> ('k, 'd) dheap \<Rightarrow> (ptr \<times> ('k, 'd) dheap) res" where
  "new_cell c H = (case malloc H of (p, H) \<Rightarrow> if p = NULL then Inr (NULL, H) else bindE (construct p c H) (\<lambda>H. Inr (p, H)))"

definition delete_cell :: "ptr \<Rightarrow> ('k, 'd) dheap \<Rightarrow> ('k, 'd) dheap res" where
  "delete_cell p H = bindE (load p H) (\<lambda>_. free p H)"

section \<open>The container\<close>

fun dm_search :: "('k \<Rightarrow> 'k \<Rightarrow> bool) \<Rightarrow> 'k \<Rightarrow> slots \<Rightarrow> ('k, 'd) dheap \<Rightarrow> nat option res" where
  "dm_search eq key [] H = Inr None"
| "dm_search eq key (None # xs) H = bindE (dm_search eq key xs H) (\<lambda>i. Inr (map_option Suc i))"
| "dm_search eq key (Some (p, q) # xs) H = bindE (read_key p H) (\<lambda>k.
     if eq k key then Inr (Some 0) else bindE (dm_search eq key xs H) (\<lambda>i. Inr (map_option Suc i)))"

definition dm_find :: "('k, 'd) dparams \<Rightarrow> 'k \<Rightarrow> dense \<Rightarrow> ('k, 'd) dheap \<Rightarrow> nat option res" where
  "dm_find P key s H = bindE (read_key (dh_empty s) H) (\<lambda>_. dm_search (dp_eq P) key (dh_slots s) H)"

definition dm_slot :: "nat \<Rightarrow> dense \<Rightarrow> (ptr \<times> ptr) res" where
  "dm_slot i s = (if i < length (dh_slots s) then (case dh_slots s ! i of None \<Rightarrow> Inl Dangling | Some e \<Rightarrow> Inr e) else Inl OutOfBounds)"

definition dm_set_second :: "nat \<Rightarrow> ptr \<Rightarrow> dense \<Rightarrow> dense res" where
  "dm_set_second i q s = bindE (dm_slot i s) (\<lambda>(p, _). Inr (s\<lparr>dh_slots := (dh_slots s)[i := Some (p, q)]\<rparr>))"

text \<open>\<^verbatim>\<open>values[p] = q\<close>: a key that is there keeps its pointer and gets the new object.\<close>

definition dm_put :: "('k, 'd) dparams \<Rightarrow> ptr \<Rightarrow> ptr \<Rightarrow> dense \<Rightarrow> ('k, 'd) dheap \<Rightarrow> dense res" where
  "dm_put P p q s H = bindE (read_key p H) (\<lambda>k. bindE (read_key (dh_empty s) H) (\<lambda>e. bindE (read_key (dh_deleted s) H) (\<lambda>d.
     if dp_eq P e k \<or> dp_eq P d k then Inl Uninit
     else bindE (dm_find P k s H) (\<lambda>it. case it of
       None \<Rightarrow> Inr (s\<lparr>dh_slots := dp_arrange P H (dh_slots s @ [Some (p, q)])\<rparr>)
     | Some i \<Rightarrow> dm_set_second i q s))))"

definition dm_erase :: "nat \<Rightarrow> dense \<Rightarrow> dense res" where
  "dm_erase i s = bindE (dm_slot i s) (\<lambda>_. Inr (s\<lparr>dh_slots := (dh_slots s)[i := None]\<rparr>))"

definition dm_resize :: "('k, 'd) dparams \<Rightarrow> dense \<Rightarrow> ('k, 'd) dheap \<Rightarrow> dense" where
  "dm_resize P s H = s\<lparr>dh_slots := dp_arrange P H (dh_slots s)\<rparr>"

text \<open>The first slot from \<open>i\<close> on with a pair; the number of slots is the end.\<close>

fun next_pair :: "slots \<Rightarrow> nat" where
  "next_pair [] = 0"
| "next_pair (None # xs) = Suc (next_pair xs)"
| "next_pair (Some e # xs) = 0"

definition dm_next :: "nat \<Rightarrow> dense \<Rightarrow> nat" where
  "dm_next i s = i + next_pair (drop i (dh_slots s))"

definition dm_size :: "dense \<Rightarrow> nat" where
  "dm_size s = length (filter (\<lambda>x. x \<noteq> None) (dh_slots s))"

section \<open>Building\<close>

text \<open>A container has no state until it has its two reserved keys: it requires \<^verbatim>\<open>set_empty_key\<close> before every other call
  (note 6 of dense_hash_map.html). With \<open>items\<close>, the constructor resizes it first.\<close>

definition dense_new :: "('k, 'd) dparams \<Rightarrow> 'k \<Rightarrow> 'k \<Rightarrow> int \<Rightarrow> ('k, 'd) dheap \<Rightarrow> (dense \<times> ('k, 'd) dheap) res" where
  "dense_new P deletekey emptykey items H =
     (if items \<noteq> 0 then Inl Uninit else
      bindE (new_cell (KeyObj emptykey) H) (\<lambda>(e, H).
      bindE (new_cell (KeyObj deletekey) H) (\<lambda>(d, H).
      Inr (\<lparr>dh_slots = [], dh_lock = False, dh_iters = 0, dh_empty = e, dh_deleted = d\<rparr>, H))))"

section \<open>Locking\<close>

definition dense_enter :: "('k, 'd) dparams \<Rightarrow> dense \<Rightarrow> dense res" where
  "dense_enter P s = bindE (dp_acquire P (dh_lock s)) (\<lambda>l. Inr (s\<lparr>dh_lock := l\<rparr>))"

definition dense_leave :: "('k, 'd) dparams \<Rightarrow> 'r \<Rightarrow> dense \<Rightarrow> ('k, 'd) dheap \<Rightarrow> ('r \<times> dense \<times> ('k, 'd) dheap) res" where
  "dense_leave P r s H = bindE (dp_release P (dh_lock s)) (\<lambda>l. Inr (r, s\<lparr>dh_lock := l\<rparr>, H))"

section \<open>Adding\<close>

text \<open>A new key for the object \<open>v\<close>. Without memory for it, the function returns where it is, with the lock.\<close>

definition dense_pair :: "('k, 'd) dparams \<Rightarrow> 'k \<Rightarrow> ptr \<Rightarrow> 'r \<Rightarrow> 'r \<Rightarrow> dense \<Rightarrow> ('k, 'd) dheap \<Rightarrow> ('r \<times> dense \<times> ('k, 'd) dheap) res" where
  "dense_pair P key v failed r s H = bindE (new_cell (KeyObj key) H) (\<lambda>(k, H).
     if k = NULL then Inr (failed, s, H)
     else bindE (dm_put P k v s H) (\<lambda>s. dense_leave P r s H))"

definition dense_addReplace_old :: "('k, 'd) dparams \<Rightarrow> 'k \<Rightarrow> 'd \<Rightarrow> 'd \<Rightarrow> dense \<Rightarrow> ('k, 'd) dheap
    \<Rightarrow> ((bool \<times> 'd) \<times> dense \<times> ('k, 'd) dheap) res" where
  "dense_addReplace_old P key dat olddat s H =
     bindE (dense_enter P s) (\<lambda>s.
     bindE (dm_find P key s H) (\<lambda>it.
     bindE (new_cell (DataObj dat) H) (\<lambda>(v, H).
     if v = NULL then Inr ((False, olddat), s, H)
     else case it of
       None \<Rightarrow> dense_pair P key v (False, olddat) (True, olddat) s H
     | Some i \<Rightarrow>
         bindE (dm_slot i s) (\<lambda>(_, old).
         bindE (read_data old H) (\<lambda>olddat.
         bindE (delete_cell old H) (\<lambda>H.
         bindE (dm_set_second i v s) (\<lambda>s. dense_leave P (True, olddat) s H)))))))"

definition dense_addReplace :: "('k, 'd) dparams \<Rightarrow> 'k \<Rightarrow> 'd \<Rightarrow> dense \<Rightarrow> ('k, 'd) dheap \<Rightarrow> (bool \<times> dense \<times> ('k, 'd) dheap) res" where
  "dense_addReplace P key dat s H =
     bindE (dense_enter P s) (\<lambda>s.
     bindE (dm_find P key s H) (\<lambda>it.
     bindE (new_cell (DataObj dat) H) (\<lambda>(v, H).
     if v = NULL then Inr (False, s, H)
     else case it of
       None \<Rightarrow> dense_pair P key v False True s H
     | Some i \<Rightarrow>
         bindE (dm_slot i s) (\<lambda>(_, old).
         bindE (delete_cell old H) (\<lambda>H.
         bindE (dm_set_second i v s) (\<lambda>s. dense_leave P True s H))))))"

definition dense_addReplaceNew :: "('k, 'd) dparams \<Rightarrow> 'k \<Rightarrow> dense \<Rightarrow> ('k, 'd) dheap \<Rightarrow> (ptr \<times> dense \<times> ('k, 'd) dheap) res" where
  "dense_addReplaceNew P key s H =
     bindE (dense_enter P s) (\<lambda>s.
     bindE (new_cell (DataObj (dp_new P)) H) (\<lambda>(v, H).
     if v = NULL then Inr (NULL, s, H)
     else bindE (dm_find P key s H) (\<lambda>it. case it of
       None \<Rightarrow> dense_pair P key v NULL v s H
     | Some i \<Rightarrow>
         bindE (dm_slot i s) (\<lambda>(_, old).
         bindE (delete_cell old H) (\<lambda>H.
         bindE (dm_set_second i v s) (\<lambda>s. dense_leave P v s H))))))"

definition dense_addNoreplaceNew :: "('k, 'd) dparams \<Rightarrow> 'k \<Rightarrow> dense \<Rightarrow> ('k, 'd) dheap \<Rightarrow> (ptr \<times> dense \<times> ('k, 'd) dheap) res" where
  "dense_addNoreplaceNew P key s H =
     bindE (dense_enter P s) (\<lambda>s.
     bindE (dm_find P key s H) (\<lambda>it. case it of
       None \<Rightarrow>
         bindE (new_cell (DataObj (dp_new P)) H) (\<lambda>(v, H).
         if v = NULL then Inr (NULL, s, H)
         else bindE (new_cell (KeyObj key) H) (\<lambda>(k, H).
           if k = NULL then bindE (delete_cell v H) (\<lambda>H. Inr (NULL, s, H))
           else bindE (dm_put P k v s H) (\<lambda>s. dense_leave P v s H)))
     | Some i \<Rightarrow> dense_leave P NULL s H))"

definition dense_findOrNew :: "('k, 'd) dparams \<Rightarrow> 'k \<Rightarrow> dense \<Rightarrow> ('k, 'd) dheap \<Rightarrow> (ptr \<times> dense \<times> ('k, 'd) dheap) res" where
  "dense_findOrNew P key s H =
     bindE (dense_enter P s) (\<lambda>s.
     bindE (dm_find P key s H) (\<lambda>it. case it of
       None \<Rightarrow>
         bindE (new_cell (DataObj (dp_new P)) H) (\<lambda>(v, H).
         if v = NULL then Inr (NULL, s, H) else dense_pair P key v NULL v s H)
     | Some i \<Rightarrow> bindE (dm_slot i s) (\<lambda>(_, v). dense_leave P v s H)))"

text \<open>The object that is given is not used: the new one is built by the default constructor.\<close>

definition dense_addNoreplace :: "('k, 'd) dparams \<Rightarrow> 'k \<Rightarrow> 'd \<Rightarrow> dense \<Rightarrow> ('k, 'd) dheap \<Rightarrow> (bool \<times> dense \<times> ('k, 'd) dheap) res" where
  "dense_addNoreplace P key dat s H =
     bindE (dense_enter P s) (\<lambda>s.
     bindE (dm_find P key s H) (\<lambda>it. case it of
       None \<Rightarrow>
         bindE (new_cell (DataObj (dp_new P)) H) (\<lambda>(v, H).
         if v = NULL then Inr (False, s, H) else dense_pair P key v False True s H)
     | Some i \<Rightarrow> dense_leave P False s H))"

section \<open>Removing and finding\<close>

definition dense_remove_fill :: "('k, 'd) dparams \<Rightarrow> 'k \<Rightarrow> 'd \<Rightarrow> dense \<Rightarrow> ('k, 'd) dheap \<Rightarrow> ((bool \<times> 'd) \<times> dense \<times> ('k, 'd) dheap) res" where
  "dense_remove_fill P key fill s H =
     bindE (dense_enter P s) (\<lambda>s.
     bindE (dm_find P key s H) (\<lambda>it. case it of
       None \<Rightarrow> dense_leave P (False, fill) s H
     | Some i \<Rightarrow>
         bindE (dm_slot i s) (\<lambda>(k, v).
         bindE (read_data v H) (\<lambda>fill.
         bindE (dm_erase i s) (\<lambda>s.
         bindE (dense_leave P (True, fill) (if dh_iters s = 0 then dm_resize P s H else s) H) (\<lambda>(r, s, H).
         bindE (delete_cell k H) (\<lambda>H.
         bindE (delete_cell v H) (\<lambda>H. Inr (r, s, H)))))))))"

definition dense_remove :: "('k, 'd) dparams \<Rightarrow> 'k \<Rightarrow> dense \<Rightarrow> ('k, 'd) dheap \<Rightarrow> (bool \<times> dense \<times> ('k, 'd) dheap) res" where
  "dense_remove P key s H =
     bindE (dense_enter P s) (\<lambda>s.
     bindE (dm_find P key s H) (\<lambda>it. case it of
       None \<Rightarrow> dense_leave P False s H
     | Some i \<Rightarrow>
         bindE (dm_slot i s) (\<lambda>(k, v).
         bindE (dm_erase i s) (\<lambda>s.
         bindE (dense_leave P True s H) (\<lambda>(r, s, H).
         bindE (delete_cell k H) (\<lambda>H.
         bindE (delete_cell v H) (\<lambda>H. Inr (r, s, H))))))))"

text \<open>The two searches release a lock that they have not acquired.\<close>

definition dense_find_fill :: "('k, 'd) dparams \<Rightarrow> 'k \<Rightarrow> 'd \<Rightarrow> dense \<Rightarrow> ('k, 'd) dheap \<Rightarrow> ((bool \<times> 'd) \<times> dense \<times> ('k, 'd) dheap) res" where
  "dense_find_fill P key fill s H =
     bindE (dm_find P key s H) (\<lambda>it. case it of
       None \<Rightarrow> dense_leave P (False, fill) s H
     | Some i \<Rightarrow>
         bindE (dm_slot i s) (\<lambda>(_, v).
         bindE (dense_leave P () s H) (\<lambda>(_, s, H).
         bindE (read_data v H) (\<lambda>fill. Inr ((True, fill), s, H)))))"

definition dense_find :: "('k, 'd) dparams \<Rightarrow> 'k \<Rightarrow> dense \<Rightarrow> ('k, 'd) dheap \<Rightarrow> (ptr \<times> dense \<times> ('k, 'd) dheap) res" where
  "dense_find P key s H =
     bindE (dm_find P key s H) (\<lambda>it. case it of
       None \<Rightarrow> dense_leave P NULL s H
     | Some i \<Rightarrow> bindE (dm_slot i s) (\<lambda>(_, v). dense_leave P v s H))"

definition dense_size :: "dense \<Rightarrow> int" where
  "dense_size s = int (dm_size s)"

fun dense_clear_loop :: "nat \<Rightarrow> dense \<Rightarrow> ('k, 'd) dheap \<Rightarrow> (dense \<times> ('k, 'd) dheap) res" where
  "dense_clear_loop 0 s H = Inl Diverges"
| "dense_clear_loop (Suc f) s H =
     (let it = dm_next 0 s in
      if it = length (dh_slots s) then Inr (s, H)
      else bindE (dm_slot it s) (\<lambda>(k, v).
        bindE (if v \<noteq> NULL then delete_cell v H else Inr H) (\<lambda>H.
        bindE (dm_erase it s) (\<lambda>s.
        bindE (if k \<noteq> NULL then delete_cell k H else Inr H) (\<lambda>H.
        dense_clear_loop f s H)))))"

definition dense_removeAll :: "('k, 'd) dparams \<Rightarrow> dense \<Rightarrow> ('k, 'd) dheap \<Rightarrow> (bool \<times> dense \<times> ('k, 'd) dheap) res" where
  "dense_removeAll P s H =
     bindE (dense_enter P s) (\<lambda>s.
     let s = dm_resize P s H in
     bindE (dense_clear_loop (Suc (dm_size s)) s H) (\<lambda>(s, H).
     dense_leave P True (dm_resize P s H) H))"

text \<open>The destructor; the copy of the key for erased slots is not freed.\<close>

definition dense_destroy :: "('k, 'd) dparams \<Rightarrow> dense \<Rightarrow> ('k, 'd) dheap \<Rightarrow> ('k, 'd) dheap res" where
  "dense_destroy P s H =
     bindE (dense_removeAll P s H) (\<lambda>(_, s, H).
     if dh_empty s \<noteq> NULL then delete_cell (dh_empty s) H else Inr H)"

section \<open>The iterator\<close>

definition dense_gotoStart :: "('k, 'd) dparams \<Rightarrow> dense \<Rightarrow> ('k, 'd) dheap \<Rightarrow> (nat \<times> dense \<times> ('k, 'd) dheap) res" where
  "dense_gotoStart P s H = bindE (dense_enter P s) (\<lambda>s.
     dense_leave P (dm_next 0 s) (s\<lparr>dh_iters := dh_iters s + 1\<rparr>) H)"

definition dense_releaseIter :: "('k, 'd) dparams \<Rightarrow> dense \<Rightarrow> ('k, 'd) dheap \<Rightarrow> (unit \<times> dense \<times> ('k, 'd) dheap) res" where
  "dense_releaseIter P s H = bindE (dense_enter P s) (\<lambda>s.
     dense_leave P () (if 0 < dh_iters s then s\<lparr>dh_iters := dh_iters s - 1\<rparr> else s) H)"

definition diter_atEnd :: "nat \<Rightarrow> dense \<Rightarrow> bool" where
  "diter_atEnd i s \<longleftrightarrow> i = length (dh_slots s)"

definition diter_data :: "nat \<Rightarrow> dense \<Rightarrow> ptr res" where
  "diter_data i s = (if i \<noteq> length (dh_slots s) then bindE (dm_slot i s) (\<lambda>(k, v). Inr v) else Inr NULL)"

definition diter_setData :: "nat \<Rightarrow> ptr \<Rightarrow> dense \<Rightarrow> dense res" where
  "diter_setData i d s = (if i \<noteq> length (dh_slots s) then dm_set_second i d s else Inr s)"

definition diter_key :: "nat \<Rightarrow> dense \<Rightarrow> ptr res" where
  "diter_key i s = (if i \<noteq> length (dh_slots s) then bindE (dm_slot i s) (\<lambda>(k, v). Inr k) else Inr NULL)"

definition diter_getNext :: "nat \<Rightarrow> dense \<Rightarrow> bool \<times> nat" where
  "diter_getNext i s = (if i = length (dh_slots s) then (False, i)
     else let i = dm_next (Suc i) s in (i \<noteq> length (dh_slots s), i))"

end
