(* ===== verification/TW_DenseRep.thy ===== *)
theory TW_DenseRep
  imports TW_DenseHash
begin

text \<open>
  What a TWDenseHash holds, and what the steps of its operations do to it.
\<close>

section \<open>What the table holds\<close>

text \<open>The library keeps the pairs when it moves them, and the comparison of keys is an equivalence.\<close>

locale dense_table =
  fixes P :: "('k, 'd) dparams"
  assumes eq_refl: "dp_eq P k k"
    and eq_sym: "dp_eq P k l \<Longrightarrow> dp_eq P l k"
    and eq_trans: "dp_eq P k l \<Longrightarrow> dp_eq P l m \<Longrightarrow> dp_eq P k m"
    and arrange: "mset (filter (\<lambda>x. x \<noteq> None) (dp_arrange P H xs)) = mset (filter (\<lambda>x. x \<noteq> None) xs)"

text \<open>\<open>T\<close> is the set of the entries: the pointers to key and object, and what they point to. Beside them and the two reserved keys, \<open>F\<close> is allocated.\<close>

type_synonym ('k, 'd) entry = "ptr \<times> ptr \<times> 'k \<times> 'd"

definition pairs :: "slots \<Rightarrow> (ptr \<times> ptr) set" where
  "pairs xs = {e. Some e \<in> set xs}"

definition once :: "slots \<Rightarrow> bool" where
  "once xs \<longleftrightarrow> distinct (filter (\<lambda>x. x \<noteq> None) xs)"

definition cells_ok :: "('k \<Rightarrow> 'k \<Rightarrow> bool) \<Rightarrow> 'k \<Rightarrow> 'k \<Rightarrow> ('k, 'd) dheap \<Rightarrow> ('k, 'd) entry set \<Rightarrow> bool" where
  "cells_ok eq ek dk H T \<longleftrightarrow> (\<forall>(p, q, k, d) \<in> T. cell_at H p = Obj (KeyObj k) \<and> cell_at H q = Obj (DataObj d) \<and> \<not> eq ek k \<and> \<not> eq dk k)"

definition apart_entries :: "('k \<Rightarrow> 'k \<Rightarrow> bool) \<Rightarrow> ('k, 'd) entry set \<Rightarrow> bool" where
  "apart_entries eq T \<longleftrightarrow> (\<forall>(p, q, k, d) \<in> T. \<forall>(p', q', k', d') \<in> T. p = p' \<or> q = q' \<or> eq k k' \<longrightarrow> (p, q, k, d) = (p', q', k', d'))"

definition ptrs_of :: "('k, 'd) entry set \<Rightarrow> ptr set" where
  "ptrs_of T = (\<Union>(p, q, k, d) \<in> T. {p, q})"

definition dense_rep :: "('k, 'd) dparams \<Rightarrow> 'k \<Rightarrow> 'k \<Rightarrow> ptr set \<Rightarrow> dense \<Rightarrow> ('k, 'd) dheap \<Rightarrow> ('k, 'd) entry set \<Rightarrow> bool" where
  "dense_rep P ek dk F s H T \<longleftrightarrow> once (dh_slots s) \<and> pairs (dh_slots s) = (\<lambda>(p, q, k, d). (p, q)) ` T
     \<and> cells_ok (dp_eq P) ek dk H T \<and> apart_entries (dp_eq P) T
     \<and> cell_at H (dh_empty s) = Obj (KeyObj ek) \<and> cell_at H (dh_deleted s) = Obj (KeyObj dk) \<and> (dh_empty s = dh_deleted s) = (ek = dk)
     \<and> dh_empty s \<notin> ptrs_of T \<and> dh_deleted s \<notin> ptrs_of T
     \<and> live H = F \<union> {dh_empty s, dh_deleted s} \<union> ptrs_of T \<and> F \<inter> ({dh_empty s, dh_deleted s} \<union> ptrs_of T) = {}"

text \<open>The map that the entries are.\<close>

definition maps :: "('k \<Rightarrow> 'k \<Rightarrow> bool) \<Rightarrow> ('k, 'd) entry set \<Rightarrow> ('k \<Rightarrow> 'd option) \<Rightarrow> bool" where
  "maps eq T M \<longleftrightarrow> (\<forall>key d. M key = Some d \<longleftrightarrow> (\<exists>p q k. (p, q, k, d) \<in> T \<and> eq k key))"

section \<open>Slots\<close>

lemma pairs_simps [simp]: "pairs [] = {}" "pairs (None # xs) = pairs xs" "pairs (Some e # xs) = insert e (pairs xs)" "pairs (xs @ ys) = pairs xs \<union> pairs ys"
  by (auto simp: pairs_def)

lemma once_simps [simp]: "once []" "once (None # xs) = once xs" "once (Some e # xs) \<longleftrightarrow> e \<notin> pairs xs \<and> once xs"
  "once (xs @ ys) \<longleftrightarrow> once xs \<and> once ys \<and> pairs xs \<inter> pairs ys = {}"
  by (auto simp: once_def pairs_def)

lemma slot_cut:
  assumes "i < length xs" and "xs ! i = Some e"
  obtains ys zs where "xs = ys @ Some e # zs" "length ys = i"
  using id_take_nth_drop [OF assms(1)] assms by (intro that [of "take i xs" "drop (Suc i) xs"]) auto

lemma pairs_set:
  assumes "once xs" and "i < length xs" and "xs ! i = Some e"
  shows "pairs (xs[i := None]) = pairs xs - {e}" and "once (xs[i := None])"
    and "pairs (xs[i := Some e']) = insert e' (pairs xs - {e})" and "e' \<notin> pairs xs - {e} \<Longrightarrow> once (xs[i := Some e'])"
proof -
  obtain ys zs where x: "xs = ys @ Some e # zs" "length ys = i" by (rule slot_cut [OF assms(2,3)])
  show "pairs (xs[i := None]) = pairs xs - {e}" "once (xs[i := None])" "pairs (xs[i := Some e']) = insert e' (pairs xs - {e})"
    "e' \<notin> pairs xs - {e} \<Longrightarrow> once (xs[i := Some e'])"
    using assms(1) x by (auto simp: list_update_append)
qed

lemma pairs_filter: "pairs (filter (\<lambda>x. x \<noteq> None) xs) = pairs xs"
  by (auto simp: pairs_def)

lemma pairs_mset:
  assumes "mset (filter (\<lambda>x. x \<noteq> None) xs) = mset (filter (\<lambda>x. x \<noteq> None) ys)"
  shows "pairs xs = pairs ys" and "once xs = once ys"
proof -
  have "set (filter (\<lambda>x. x \<noteq> None) xs) = set (filter (\<lambda>x. x \<noteq> None) ys)" using assms by (metis set_mset_mset)
  then show "pairs xs = pairs ys" by (metis pairs_def pairs_filter)
  show "once xs = once ys" using assms by (metis mset_eq_imp_distinct_iff once_def)
qed

lemma search_ok:
  assumes "\<forall>(p, q) \<in> pairs xs. \<exists>k. cell_at H p = Obj (KeyObj k)"
  shows "(dm_search eq key xs H = Inr None \<and> (\<forall>(p, q) \<in> pairs xs. \<forall>k. cell_at H p = Obj (KeyObj k) \<longrightarrow> \<not> eq k key))
    \<or> (\<exists>i p q k. dm_search eq key xs H = Inr (Some i) \<and> i < length xs \<and> xs ! i = Some (p, q) \<and> cell_at H p = Obj (KeyObj k) \<and> eq k key)"
  using assms
proof (induction xs)
  case (Cons x xs)
  show ?case
  proof (cases x)
    case None
    consider (no) "dm_search eq key xs H = Inr None" "\<forall>(p, q) \<in> pairs xs. \<forall>k. cell_at H p = Obj (KeyObj k) \<longrightarrow> \<not> eq k key"
      | (yes) i p q k where "dm_search eq key xs H = Inr (Some i)" "i < length xs" "xs ! i = Some (p, q)" "cell_at H p = Obj (KeyObj k)" "eq k key"
      using Cons None by auto
    then show ?thesis
    proof cases
      case yes
      then have "\<exists>j. dm_search eq key (x # xs) H = Inr (Some j) \<and> j < length (x # xs) \<and> (x # xs) ! j = Some (p, q)" using None by (intro exI [of _ "Suc i"]) simp
      then show ?thesis using yes(4,5) by blast
    qed (use None in auto)
  next
    case (Some e)
    obtain p q where e: "e = (p, q)" by fastforce
    obtain k where k: "cell_at H p = Obj (KeyObj k)" using Cons.prems by (auto simp: Some e)
    show ?thesis
    proof (cases "eq k key")
      case True
      then have "dm_search eq key (x # xs) H = Inr (Some 0)" using k by (simp add: Some e read_key_def)
      then have "\<exists>i. dm_search eq key (x # xs) H = Inr (Some i) \<and> i < length (x # xs) \<and> (x # xs) ! i = Some (p, q)" by (intro exI [of _ "0 :: nat"]) (simp add: Some e)
      then show ?thesis using True k by blast
    next
      case False
      consider (no) "dm_search eq key xs H = Inr None" "\<forall>(p, q) \<in> pairs xs. \<forall>k. cell_at H p = Obj (KeyObj k) \<longrightarrow> \<not> eq k key"
        | (yes) i p q k where "dm_search eq key xs H = Inr (Some i)" "i < length xs" "xs ! i = Some (p, q)" "cell_at H p = Obj (KeyObj k)" "eq k key"
        using Cons by (auto simp: Some e)
      then show ?thesis
      proof cases
        case no
        then show ?thesis using False k by (intro disjI1) (auto simp: Some e read_key_def)
      next
        case yes
        then have "dm_search eq key (x # xs) H = Inr (Some (Suc i))" using False k by (simp add: Some e read_key_def)
        then have "\<exists>j. dm_search eq key (x # xs) H = Inr (Some j) \<and> j < length (x # xs) \<and> (x # xs) ! j = Some (p, q)" using yes by (intro exI [of _ "Suc i"]) simp
        then show ?thesis using yes(4,5) by blast
      qed
    qed
  qed
qed simp

section \<open>Entries\<close>

lemma ptrs_of_simps [simp]: "ptrs_of {} = {}" "ptrs_of (insert (p, q, k, d) T) = {p, q} \<union> ptrs_of T"
  by (auto simp: ptrs_of_def)

lemma ptrs_of_in: "(p, q, k, d) \<in> T \<Longrightarrow> p \<in> ptrs_of T \<and> q \<in> ptrs_of T"
  by (force simp: ptrs_of_def)

lemma ptrs_of_remove:
  assumes c: "cells_ok eq ek dk H T" and a: "apart_entries eq T" and x: "(p, q, k, d) \<in> T"
  shows "ptrs_of (T - {(p, q, k, d)}) = ptrs_of T - {p, q}" and "p \<noteq> q"
proof -
  have cell: "cell_at H a = Obj (KeyObj l) \<and> cell_at H b = Obj (DataObj e)" if "(a, b, l, e) \<in> T" for a b l e
    using c that by (auto simp: cells_ok_def)
  show pq: "p \<noteq> q" using cell [OF x] by auto
  have ne: "{a, b} \<inter> {p, q} = {}" if y: "(a, b, l, e) \<in> T" "(a, b, l, e) \<noteq> (p, q, k, d)" for a b l e
  proof -
    have "a \<noteq> p" "b \<noteq> q" using a x y by (fastforce simp: apart_entries_def)+
    moreover have "a \<noteq> q" "b \<noteq> p" using cell [OF x] cell [OF y(1)] by auto
    ultimately show ?thesis by blast
  qed
  show "ptrs_of (T - {(p, q, k, d)}) = ptrs_of T - {p, q}"
  proof
    show "ptrs_of (T - {(p, q, k, d)}) \<subseteq> ptrs_of T - {p, q}" using ne by (fastforce simp: ptrs_of_def)
    show "ptrs_of T - {p, q} \<subseteq> ptrs_of (T - {(p, q, k, d)})" by (auto simp: ptrs_of_def)
  qed
qed

lemma apart_subset: "apart_entries eq T \<Longrightarrow> S \<subseteq> T \<Longrightarrow> apart_entries eq S"
  unfolding apart_entries_def split_beta by blast

lemma apart_insert:
  assumes "apart_entries eq T" and "\<And>a b l e. (a, b, l, e) \<in> T \<Longrightarrow> a \<noteq> p \<and> b \<noteq> q \<and> \<not> eq k l \<and> \<not> eq l k"
  shows "apart_entries eq (insert (p, q, k, d) T)"
proof -
  have "x = y" if x: "x \<in> insert (p, q, k, d) T" and y: "y \<in> insert (p, q, k, d) T"
    and e: "fst x = fst y \<or> fst (snd x) = fst (snd y) \<or> eq (fst (snd (snd x))) (fst (snd (snd y)))" for x y
  proof (cases "x \<in> T \<and> y \<in> T")
    case True
    then show ?thesis using assms(1) e unfolding apart_entries_def by (cases x; cases y) auto
  next
    case False
    then show ?thesis using assms(2) x y e by (cases x; cases y) auto
  qed
  then show ?thesis unfolding apart_entries_def split_beta prod.collapse by blast
qed

lemma apart_image:
  assumes "apart_entries eq T" and "(p, q, k, d) \<in> T"
  shows "(\<lambda>(p, q, k, d). (p, q)) ` (T - {(p, q, k, d)}) = (\<lambda>(p, q, k, d). (p, q)) ` T - {(p, q)}"
proof -
  have "inj_on (\<lambda>(p, q, k, d). (p, q)) T"
  proof (rule inj_onI)
    fix x y assume "x \<in> T" "y \<in> T" "(case x of (p, q, k, d) \<Rightarrow> (p, q)) = (case y of (p, q, k, d) \<Rightarrow> (p, q))"
    then show "x = y" using assms(1) unfolding apart_entries_def by (cases x; cases y) auto
  qed
  then show ?thesis using assms(2) by (simp add: inj_on_image_set_diff [of _ T])
qed

lemma cells_subset: "cells_ok eq ek dk H T \<Longrightarrow> S \<subseteq> T \<Longrightarrow> cells_ok eq ek dk H S"
  unfolding cells_ok_def split_beta by blast

lemma cells_heap:
  "cells_ok eq ek dk H T \<Longrightarrow> (\<And>p. p \<in> ptrs_of T \<Longrightarrow> cell_at H' p = cell_at H p) \<Longrightarrow> cells_ok eq ek dk H' T"
  unfolding cells_ok_def using ptrs_of_in by fastforce

context dense_table begin

lemma maps_none: "maps (dp_eq P) T M \<Longrightarrow> M key = None \<longleftrightarrow> (\<forall>(p, q, k, d) \<in> T. \<not> dp_eq P k key)"
  unfolding maps_def by (cases "M key") force+

lemma maps_insert:
  assumes "maps (dp_eq P) T M" and "\<forall>(p, q, k, d) \<in> T. \<not> dp_eq P k key"
  shows "maps (dp_eq P) (insert (p, q, key, d) T) (\<lambda>x. if dp_eq P key x then Some d else M x)"
  unfolding maps_def
proof (intro allI)
  fix x c
  have "\<not> dp_eq P k x" if "dp_eq P key x" "(a, b, k, e) \<in> T" for a b k e
    using assms(2) that eq_trans [of k x key] eq_sym by blast
  then show "((if dp_eq P key x then Some d else M x) = Some c) = (\<exists>a b k. (a, b, k, c) \<in> insert (p, q, key, d) T \<and> dp_eq P k x)"
    using assms(1) unfolding maps_def by auto
qed

lemma maps_remove:
  assumes "maps (dp_eq P) T M" and "apart_entries (dp_eq P) T" and "(p, q, k, d) \<in> T" and "dp_eq P k key"
  shows "maps (dp_eq P) (T - {(p, q, k, d)}) (\<lambda>x. if dp_eq P key x then None else M x)"
  unfolding maps_def
proof (intro allI)
  fix x c
  have "(a, b, l, e) = (p, q, k, d)" if "dp_eq P key x" "(a, b, l, e) \<in> T" "dp_eq P l x" for a b l e
  proof -
    have "dp_eq P l k" using that assms(4) eq_trans eq_sym by blast
    then show ?thesis using assms(2,3) that(2) by (fastforce simp: apart_entries_def)
  qed
  moreover have "\<not> dp_eq P k x" if "\<not> dp_eq P key x" using assms(4) that eq_trans eq_sym by blast
  ultimately show "((if dp_eq P key x then None else M x) = Some c) = (\<exists>a b l. (a, b, l, c) \<in> T - {(p, q, k, d)} \<and> dp_eq P l x)"
    using assms(1) unfolding maps_def by auto
qed

lemma maps_replace:
  assumes "maps (dp_eq P) T M" and "apart_entries (dp_eq P) T" and "(p, q, k, d) \<in> T" and "dp_eq P k key"
  shows "maps (dp_eq P) (insert (p, q', k, d') (T - {(p, q, k, d)})) (\<lambda>x. if dp_eq P key x then Some d' else M x)"
proof -
  have "\<forall>(a, b, l, e) \<in> T - {(p, q, k, d)}. \<not> dp_eq P l k"
    using assms(2,3) by (fastforce simp: apart_entries_def)
  from maps_insert [OF maps_remove [OF assms] this, of p q' d']
  have "maps (dp_eq P) (insert (p, q', k, d') (T - {(p, q, k, d)})) (\<lambda>x. if dp_eq P k x then Some d' else if dp_eq P key x then None else M x)" .
  moreover have "dp_eq P k x = dp_eq P key x" for x using assms(4) eq_trans eq_sym by blast
  ultimately show ?thesis by (simp cong: if_cong)
qed

end

section \<open>Steps\<close>

lemma dense_rep_more: "dense_rep P ek dk F (s\<lparr>dh_lock := l\<rparr>) H T = dense_rep P ek dk F s H T"
  "dense_rep P ek dk F (s\<lparr>dh_iters := i\<rparr>) H T = dense_rep P ek dk F s H T"
  by (simp_all add: dense_rep_def)

lemma rep_cell: "dense_rep P ek dk F s H T \<Longrightarrow> (p, q, k, d) \<in> T \<Longrightarrow> cell_at H p = Obj (KeyObj k) \<and> cell_at H q = Obj (DataObj d)"
  by (fastforce simp: dense_rep_def cells_ok_def)

text \<open>Memory of the outside comes and goes.\<close>

lemma rep_new:
  assumes r: "dense_rep P ek dk F s H T" and "0 < room H"
  obtains v where "new_cell c H = Inr (v, new_obj c H)" "v \<noteq> NULL" "v \<notin> F" "cell_at (new_obj c H) v = Obj c" "v \<notin> live H"
    and "dense_rep P ek dk (insert v F) s (new_obj c H) T" "room (new_obj c H) = room H - 1"
proof -
  let ?v = "Suc (heap_size H)"
  have nl: "?v \<notin> live H" by simp
  have lv: "live (new_obj c H) = insert ?v (live H)" by (auto simp: live_iff cell_at_new split: if_splits)
  have same: "cell_at (new_obj c H) p = cell_at H p" if "p \<in> live H" for p using that nl by (auto simp: cell_at_new)
  have rep: "dense_rep P ek dk (insert ?v F) s (new_obj c H) T"
    using r nl same cells_heap [of "dp_eq P" ek dk H T "new_obj c H"] unfolding dense_rep_def lv by auto
  have new: "new_cell c H = Inr (?v, new_obj c H)" using assms(2) by (simp add: new_cell_def malloc_ok construct_new)
  have room: "room (new_obj c H) = room H - 1" by (simp add: new_obj_def grow_def)
  have out: "?v \<notin> F" using r nl by (auto simp: dense_rep_def)
  show ?thesis by (rule that [OF new _ out _ nl rep room]) (simp_all add: cell_at_new)
qed

lemma rep_delete:
  assumes r: "dense_rep P ek dk F s H T" and q: "q \<in> F" "cell_at H q = Obj c"
  obtains H' where "delete_cell q H = Inr H'" "dense_rep P ek dk (F - {q}) s H' T" "room H' = Suc (room H)"
    "\<forall>p. p \<noteq> q \<longrightarrow> cell_at H' p = cell_at H p"
proof -
  let ?H = "(put_cell q Freed H)\<lparr>room := Suc (room H)\<rparr>"
  have c: "cell_at ?H p = (if p = q then Freed else cell_at H p)" for p using q(2) by (simp add: cell_at_put)
  have lv: "live ?H = live H - {q}" unfolding live_def c by auto
  have "\<forall>p \<in> {dh_empty s, dh_deleted s} \<union> ptrs_of T. p \<noteq> q" using r q(1) by (auto simp: dense_rep_def)
  then have "dense_rep P ek dk (F - {q}) s ?H T"
    using r cells_heap [of "dp_eq P" ek dk H T ?H] c unfolding dense_rep_def lv by auto
  then show ?thesis using q(2) c by (intro that [of ?H]) (simp_all add: delete_cell_def free_ok)
qed

context dense_table begin

lemma rep_resize: "dense_rep P ek dk F s H T \<Longrightarrow> dense_rep P ek dk F (dm_resize P s H) H T"
  using pairs_mset [OF arrange [of H "dh_slots s"]] by (simp add: dense_rep_def dm_resize_def)

lemma rep_find:
  assumes r: "dense_rep P ek dk F s H T" and m: "maps (dp_eq P) T M"
  obtains (none) "dm_find P key s H = Inr None" "M key = None" "\<forall>(p, q, k, d) \<in> T. \<not> dp_eq P k key"
  | (some) i p q k d where "dm_find P key s H = Inr (Some i)" "dm_slot i s = Inr (p, q)" "i < length (dh_slots s)" "dh_slots s ! i = Some (p, q)"
      "(p, q, k, d) \<in> T" "dp_eq P k key" "M key = Some d"
proof -
  have pr: "pairs (dh_slots s) = (\<lambda>(p, q, k, d). (p, q)) ` T" and e: "read_key (dh_empty s) H = Inr ek"
    using r by (auto simp: dense_rep_def read_key_def)
  have c: "\<forall>(p, q) \<in> pairs (dh_slots s). \<exists>k. cell_at H p = Obj (KeyObj k)"
    unfolding pr using rep_cell [OF r] by fastforce
  from search_ok [OF c, of "dp_eq P" key] show ?thesis
  proof (elim disjE exE conjE)
    assume no: "dm_search (dp_eq P) key (dh_slots s) H = Inr None"
      "\<forall>(p, q) \<in> pairs (dh_slots s). \<forall>k. cell_at H p = Obj (KeyObj k) \<longrightarrow> \<not> dp_eq P k key"
    have "\<forall>(p, q, k, d) \<in> T. \<not> dp_eq P k key" using no(2) rep_cell [OF r] unfolding pr by fastforce
    then show ?thesis using none no(1) e maps_none [OF m, of key] by (simp add: dm_find_def)
  next
    fix i p q k
    assume y: "dm_search (dp_eq P) key (dh_slots s) H = Inr (Some i)" "i < length (dh_slots s)" "dh_slots s ! i = Some (p, q)"
      "cell_at H p = Obj (KeyObj k)" "dp_eq P k key"
    have "(p, q) \<in> pairs (dh_slots s)" using y(2,3) nth_mem by (fastforce simp: pairs_def)
    then obtain k' d where x: "(p, q, k', d) \<in> T" unfolding pr by auto
    then have "k' = k" using rep_cell [OF r x] y(4) by simp
    moreover have "M key = Some d" using m x y(5) \<open>k' = k\<close> by (auto simp: maps_def)
    ultimately show ?thesis using some [of i p q k d] x y e by (simp add: dm_find_def dm_slot_def)
  qed
qed

lemma rep_absent:
  assumes r: "dense_rep P ek dk F s H T" and new: "\<forall>(p, q, k, d) \<in> T. \<not> dp_eq P k key"
  shows "dm_find P key s H = Inr None"
proof -
  have pr: "pairs (dh_slots s) = (\<lambda>(p, q, k, d). (p, q)) ` T" and e: "read_key (dh_empty s) H = Inr ek"
    using r by (auto simp: dense_rep_def read_key_def)
  have c: "\<forall>(p, q) \<in> pairs (dh_slots s). \<exists>k. cell_at H p = Obj (KeyObj k)"
    unfolding pr using rep_cell [OF r] by fastforce
  have False if y: "i < length (dh_slots s)" "dh_slots s ! i = Some (p, q)" "cell_at H p = Obj (KeyObj k)" "dp_eq P k key" for i p q k
  proof -
    have "(p, q) \<in> pairs (dh_slots s)" using y(1,2) nth_mem by (fastforce simp: pairs_def)
    then obtain k' d where x: "(p, q, k', d) \<in> T" unfolding pr by auto
    then show False using rep_cell [OF r x] new y(3,4) by auto
  qed
  then show ?thesis using search_ok [OF c, of "dp_eq P" key] e unfolding dm_find_def by auto
qed

lemma rep_pair:
  assumes r: "dense_rep P ek dk F s H T" and p: "p \<in> F" "cell_at H p = Obj (KeyObj key)" and q: "q \<in> F" "cell_at H q = Obj (DataObj d)"
    and new: "\<forall>(p, q, k, d) \<in> T. \<not> dp_eq P k key" and res: "\<not> dp_eq P ek key" "\<not> dp_eq P dk key"
  obtains s' where "dm_put P p q s H = Inr s'" "dense_rep P ek dk (F - {p, q}) s' H (insert (p, q, key, d) T)"
    "dh_lock s' = dh_lock s" "dh_iters s' = dh_iters s"
proof -
  let ?s = "s\<lparr>dh_slots := dp_arrange P H (dh_slots s @ [Some (p, q)])\<rparr>"
  have out: "p \<notin> ptrs_of T" "q \<notin> ptrs_of T" "p \<noteq> q" using r p q by (auto simp: dense_rep_def)
  have "(p, q) \<notin> pairs (dh_slots s)" using r out(1) ptrs_of_in by (fastforce simp: dense_rep_def)
  then have "once (dh_slots s @ [Some (p, q)])" "pairs (dh_slots s @ [Some (p, q)]) = (\<lambda>(p, q, k, d). (p, q)) ` insert (p, q, key, d) T"
    using r by (auto simp: dense_rep_def)
  then have sl: "once (dh_slots ?s)" "pairs (dh_slots ?s) = (\<lambda>(p, q, k, d). (p, q)) ` insert (p, q, key, d) T"
    using pairs_mset [OF arrange [of H "dh_slots s @ [Some (p, q)]"]] by simp_all
  have c: "cells_ok (dp_eq P) ek dk H (insert (p, q, key, d) T)" using r p q res by (simp add: dense_rep_def cells_ok_def)
  have "\<not> dp_eq P key k" if "(a, b, k, e) \<in> T" for a b k e using new that eq_sym by blast
  moreover have "a \<noteq> p \<and> b \<noteq> q" if "(a, b, k, e) \<in> T" for a b k e using ptrs_of_in [OF that] out by auto
  moreover have "\<not> dp_eq P k key" if "(a, b, k, e) \<in> T" for a b k e using new that by blast
  moreover have "apart_entries (dp_eq P) T" using r by (simp add: dense_rep_def)
  ultimately have a: "apart_entries (dp_eq P) (insert (p, q, key, d) T)" by (intro apart_insert) blast+
  have "dense_rep P ek dk (F - {p, q}) ?s H (insert (p, q, key, d) T)"
    using r p q out sl c a unfolding dense_rep_def by auto
  moreover have "dm_put P p q s H = Inr ?s"
    using rep_absent [OF r new] r p(2) res by (simp add: dm_put_def read_key_def dense_rep_def)
  ultimately show ?thesis using that by simp
qed

lemma rep_second:
  assumes r: "dense_rep P ek dk F s H T" and v: "v \<in> F" "cell_at H v = Obj (DataObj d')" and x: "(p, q, k, d) \<in> T"
    and i: "i < length (dh_slots s)" "dh_slots s ! i = Some (p, q)"
  obtains s' where "dm_set_second i v s = Inr s'" "dense_rep P ek dk (insert q (F - {v})) s' H (insert (p, v, k, d') (T - {(p, q, k, d)}))"
    "dh_lock s' = dh_lock s" "dh_iters s' = dh_iters s"
proof -
  let ?s = "s\<lparr>dh_slots := (dh_slots s)[i := Some (p, v)]\<rparr>" and ?T = "T - {(p, q, k, d)}"
  have c: "cells_ok (dp_eq P) ek dk H T" and a: "apart_entries (dp_eq P) T" and o: "once (dh_slots s)"
    and pr: "pairs (dh_slots s) = (\<lambda>(p, q, k, d). (p, q)) ` T" using r by (simp_all add: dense_rep_def)
  note rm = ptrs_of_remove [OF c a x]
  have vT: "v \<notin> ptrs_of T" using r v(1) by (auto simp: dense_rep_def)
  have pq: "p \<in> ptrs_of T" "q \<in> ptrs_of T" using ptrs_of_in [OF x] by auto
  have one: "(a', b, l, e) = (p, q, k, d)" if "(a', b, l, e) \<in> T" "a' = p \<or> b = q \<or> dp_eq P l k" for a' b l e
    using a x that by (fastforce simp: apart_entries_def)
  have im: "pairs (dh_slots s) - {(p, q)} = (\<lambda>(p, q, k, d). (p, q)) ` ?T" unfolding pr by (rule apart_image [OF a x, symmetric])
  have "(p, v) \<notin> pairs (dh_slots s)" using vT ptrs_of_in unfolding pr by fastforce
  then have "once ((dh_slots s)[i := Some (p, v)])" by (intro pairs_set(4) [OF o i]) blast
  moreover have "pairs ((dh_slots s)[i := Some (p, v)]) = insert (p, v) ((\<lambda>(p, q, k, d). (p, q)) ` ?T)"
    unfolding pairs_set(3) [OF o i] im by (rule refl)
  ultimately have sl: "once (dh_slots ?s)" "pairs (dh_slots ?s) = (\<lambda>(p, q, k, d). (p, q)) ` insert (p, v, k, d') ?T" by simp_all
  have c': "cells_ok (dp_eq P) ek dk H (insert (p, v, k, d') ?T)"
    using cells_subset [OF c, of ?T] c x v(2) by (auto simp: cells_ok_def)
  have "\<not> dp_eq P k l \<and> \<not> dp_eq P l k \<and> a' \<noteq> p \<and> b \<noteq> v" if "(a', b, l, e) \<in> ?T" for a' b l e
  proof -
    have "dp_eq P k l \<longleftrightarrow> dp_eq P l k" using eq_sym by blast
    moreover have "b \<noteq> v" using that ptrs_of_in [of a' b l e T] vT by auto
    moreover have "\<not> dp_eq P l k \<and> a' \<noteq> p" using one [of a' b l e] that by blast
    ultimately show ?thesis by blast
  qed
  then have a': "apart_entries (dp_eq P) (insert (p, v, k, d') ?T)"
    using apart_subset [OF a, of ?T] by (intro apart_insert) blast+
  have pt: "ptrs_of (insert (p, v, k, d') ?T) = insert v (ptrs_of T - {q})" using rm pq by auto
  have "dense_rep P ek dk (insert q (F - {v})) ?s H (insert (p, v, k, d') ?T)"
    using r v(1) vT pq sl c' a' unfolding dense_rep_def pt by auto
  moreover have "dm_set_second i v s = Inr ?s" using i by (simp add: dm_set_second_def dm_slot_def)
  ultimately show ?thesis using that by simp
qed

lemma rep_erase:
  assumes r: "dense_rep P ek dk F s H T" and x: "(p, q, k, d) \<in> T" and i: "i < length (dh_slots s)" "dh_slots s ! i = Some (p, q)"
  obtains s' where "dm_erase i s = Inr s'" "dense_rep P ek dk (F \<union> {p, q}) s' H (T - {(p, q, k, d)})"
    "dh_lock s' = dh_lock s" "dh_iters s' = dh_iters s"
proof -
  let ?s = "s\<lparr>dh_slots := (dh_slots s)[i := None]\<rparr>" and ?T = "T - {(p, q, k, d)}"
  have c: "cells_ok (dp_eq P) ek dk H T" and a: "apart_entries (dp_eq P) T" and o: "once (dh_slots s)"
    and pr: "pairs (dh_slots s) = (\<lambda>(p, q, k, d). (p, q)) ` T" using r by (simp_all add: dense_rep_def)
  note rm = ptrs_of_remove [OF c a x]
  have pq: "p \<in> ptrs_of T" "q \<in> ptrs_of T" using ptrs_of_in [OF x] by auto
  have one: "(a', b, l, e) = (p, q, k, d)" if "(a', b, l, e) \<in> T" "a' = p" for a' b l e
    using a x that by (fastforce simp: apart_entries_def)
  have "pairs (dh_slots s) - {(p, q)} = (\<lambda>(p, q, k, d). (p, q)) ` ?T" unfolding pr by (rule apart_image [OF a x, symmetric])
  then have sl: "once (dh_slots ?s)" "pairs (dh_slots ?s) = (\<lambda>(p, q, k, d). (p, q)) ` ?T" using pairs_set(1,2) [OF o i] by simp_all
  have "dense_rep P ek dk (F \<union> {p, q}) ?s H ?T"
    using r pq sl cells_subset [OF c, of ?T] apart_subset [OF a, of ?T] rm(1) unfolding dense_rep_def by auto
  moreover have "dm_erase i s = Inr ?s" using i by (simp add: dm_erase_def dm_slot_def)
  ultimately show ?thesis using that by simp
qed

end

end
