(* ===== verification/TW_DenseOps.thy ===== *)
theory TW_DenseOps
  imports TW_DenseRep
begin

text \<open>
  What each operation of a TWDenseHash does, when it is called with the lock free and memory left.
\<close>

section \<open>Keys and objects in and out\<close>

definition dmap_upd :: "('k, 'd) dparams \<Rightarrow> 'k \<Rightarrow> 'd option \<Rightarrow> ('k \<Rightarrow> 'd option) \<Rightarrow> 'k \<Rightarrow> 'd option" where
  "dmap_upd P key v M = (\<lambda>x. if dp_eq P key x then v else M x)"

text \<open>The mutex: acquired when it is free it is \<open>held\<close>, and released then it is free.\<close>

locale dense_locked = dense_table P for P :: "('k, 'd) dparams" +
  fixes held :: bool
  assumes acquire: "dp_acquire P False = Inr held" and release: "dp_release P held = Inr False"

context dense_locked begin

lemma enter_ok: "\<not> dh_lock s \<Longrightarrow> dense_enter P s = Inr (s\<lparr>dh_lock := held\<rparr>)"
  using acquire by (simp add: dense_enter_def)

lemma leave_ok: "dh_lock s = held \<Longrightarrow> dense_leave P r s H = Inr (r, s\<lparr>dh_lock := False\<rparr>, H)"
  using release by (simp add: dense_leave_def)

end

context dense_table begin

lemma replaced_ok:
  assumes r: "dense_rep P ek dk F s H T" and m: "maps (dp_eq P) T M" and v: "v \<in> F" "cell_at H v = Obj (DataObj d')"
    and x: "(p, q, k, d) \<in> T" "dp_eq P k key" and i: "i < length (dh_slots s)" "dh_slots s ! i = Some (p, q)"
  obtains H' s' T' where "delete_cell q H = Inr H'" "dm_set_second i v s = Inr s'" "dense_rep P ek dk (F - {v}) s' H' T'"
    "maps (dp_eq P) T' (dmap_upd P key (Some d') M)" "dh_lock s' = dh_lock s" "room H' = Suc (room H)" "cell_at H' v = Obj (DataObj d')"
proof -
  let ?T = "insert (p, v, k, d') (T - {(p, q, k, d)})"
  obtain s' where s': "dm_set_second i v s = Inr s'" "dense_rep P ek dk (insert q (F - {v})) s' H ?T" "dh_lock s' = dh_lock s"
    by (rule rep_second [OF r v x(1) i])
  have q: "q \<notin> F" "cell_at H q = Obj (DataObj d)" using r rep_cell [OF r x(1)] ptrs_of_in [OF x(1)] by (auto simp: dense_rep_def)
  obtain H' where H': "delete_cell q H = Inr H'" "dense_rep P ek dk (insert q (F - {v}) - {q}) s' H' ?T" "room H' = Suc (room H)"
    "\<forall>p. p \<noteq> q \<longrightarrow> cell_at H' p = cell_at H p" by (rule rep_delete [OF s'(2) insertI1 q(2)])
  have "insert q (F - {v}) - {q} = F - {v}" using q(1) by blast
  moreover have "maps (dp_eq P) ?T (dmap_upd P key (Some d') M)"
    unfolding dmap_upd_def by (rule maps_replace [OF m _ x]) (use r in \<open>simp add: dense_rep_def\<close>)
  moreover have "cell_at H' v = Obj (DataObj d')" using H'(4) v q(1) by auto
  ultimately show ?thesis using that [OF H'(1) s'(1) _ _ s'(3) H'(3)] H'(2) by simp
qed

lemma delete_pair:
  assumes r: "dense_rep P ek dk (F \<union> {p, q}) s H T" and p: "p \<notin> F" "cell_at H p = Obj c" and q: "q \<notin> F" "cell_at H q = Obj e" and pq: "p \<noteq> q"
  obtains H1 H2 where "delete_cell p H = Inr H1" "delete_cell q H1 = Inr H2" "dense_rep P ek dk F s H2 T" "room H \<le> room H2"
    "\<forall>x. x \<noteq> p \<longrightarrow> x \<noteq> q \<longrightarrow> cell_at H2 x = cell_at H x"
proof -
  obtain H1 where H1: "delete_cell p H = Inr H1" "dense_rep P ek dk (F \<union> {p, q} - {p}) s H1 T" "room H1 = Suc (room H)"
    "\<forall>x. x \<noteq> p \<longrightarrow> cell_at H1 x = cell_at H x" by (rule rep_delete [OF r _ p(2)]) simp
  have "q \<in> F \<union> {p, q} - {p}" "cell_at H1 q = Obj e" using H1(4) pq q(2) by simp_all
  then obtain H2 where H2: "delete_cell q H1 = Inr H2" "dense_rep P ek dk (F \<union> {p, q} - {p} - {q}) s H2 T" "room H2 = Suc (room H1)"
    "\<forall>x. x \<noteq> q \<longrightarrow> cell_at H2 x = cell_at H1 x" using rep_delete [OF H1(2)] by metis
  have "F \<union> {p, q} - {p} - {q} = F" using p(1) q(1) by blast
  then show ?thesis using that [OF H1(1) H2(1)] H1(3,4) H2 by simp
qed

lemma remove_ok:
  assumes r: "dense_rep P ek dk F s H T" and m: "maps (dp_eq P) T M"
    and x: "(p, q, k, d) \<in> T" "dp_eq P k key" and i: "i < length (dh_slots s)" "dh_slots s ! i = Some (p, q)"
  obtains s' T' where "dm_erase i s = Inr s'" "dense_rep P ek dk (F \<union> {p, q}) s' H T'" "maps (dp_eq P) T' (dmap_upd P key None M)"
    "dh_lock s' = dh_lock s" "p \<notin> F" "q \<notin> F" "p \<noteq> q" "cell_at H p = Obj (KeyObj k)" "cell_at H q = Obj (DataObj d)" "T' = T - {(p, q, k, d)}"
proof -
  obtain s' where s': "dm_erase i s = Inr s'" "dense_rep P ek dk (F \<union> {p, q}) s' H (T - {(p, q, k, d)})" "dh_lock s' = dh_lock s"
    by (rule rep_erase [OF r x(1) i])
  have "maps (dp_eq P) (T - {(p, q, k, d)}) (dmap_upd P key None M)"
    unfolding dmap_upd_def by (rule maps_remove [OF m _ x]) (use r in \<open>simp add: dense_rep_def\<close>)
  moreover have "p \<notin> F" "q \<notin> F" using r ptrs_of_in [OF x(1)] by (auto simp: dense_rep_def)
  moreover have "cell_at H p = Obj (KeyObj k)" "cell_at H q = Obj (DataObj d)" using rep_cell [OF r x(1)] by simp_all
  moreover from this have "p \<noteq> q" by auto
  ultimately show ?thesis using that [OF s'(1,2) _ s'(3)] by simp
qed

end

section \<open>The operations\<close>

text \<open>A call returns, with the lock free, at least \<open>n\<close> cells of memory and a table that holds \<open>M\<close>, what \<open>R\<close> says.\<close>

definition dense_gives :: "('k, 'd) dparams \<Rightarrow> 'k \<Rightarrow> 'k \<Rightarrow> ptr set \<Rightarrow> nat \<Rightarrow> ('r \<times> dense \<times> ('k, 'd) dheap) res
    \<Rightarrow> ('r \<Rightarrow> ('k, 'd) dheap \<Rightarrow> bool) \<Rightarrow> ('k \<Rightarrow> 'd option) \<Rightarrow> bool" where
  "dense_gives P ek dk F n x R M \<longleftrightarrow> holds x (\<lambda>(r, s, H). R r H \<and> \<not> dh_lock s \<and> n \<le> room H
     \<and> (\<exists>T. dense_rep P ek dk F s H T \<and> maps (dp_eq P) T M))"

lemma dense_givesI:
  "x = Inr (r, s, H) \<Longrightarrow> dense_rep P ek dk F s H T \<Longrightarrow> maps (dp_eq P) T M \<Longrightarrow> R r H \<Longrightarrow> \<not> dh_lock s \<Longrightarrow> n \<le> room H
    \<Longrightarrow> dense_gives P ek dk F n x R M"
  by (auto simp: dense_gives_def)

text \<open>Where the key of an entry is, if there is one.\<close>

definition found :: "('k, 'd) dparams \<Rightarrow> ('k, 'd) entry set \<Rightarrow> 'k \<Rightarrow> dense \<Rightarrow> nat option \<Rightarrow> bool" where
  "found P T key s it \<longleftrightarrow> (case it of None \<Rightarrow> \<forall>(p, q, k, d) \<in> T. \<not> dp_eq P k key
     | Some i \<Rightarrow> \<exists>p q k d. i < length (dh_slots s) \<and> dh_slots s ! i = Some (p, q) \<and> (p, q, k, d) \<in> T \<and> dp_eq P k key)"

context dense_table begin

lemma find_found:
  assumes "dense_rep P ek dk F s H T" and "maps (dp_eq P) T M"
  obtains it where "dm_find P key s H = Inr it" "found P T key s it" "it = None \<longleftrightarrow> M key = None"
  using assms
proof (cases rule: rep_find [where key = key])
  case none
  then show ?thesis by (intro that [of None]) (simp_all add: found_def)
next
  case (some i p q k d)
  then show ?thesis by (intro that [of "Some i"]) (auto simp: found_def)
qed

end

context dense_locked begin

lemma pair_ok:
  assumes r: "dense_rep P ek dk (insert v F) s H T" and m: "maps (dp_eq P) T M" and v: "v \<notin> F" "cell_at H v = Obj (DataObj d)"
    and new: "\<forall>(p, q, k, d) \<in> T. \<not> dp_eq P k key" and res: "\<not> dp_eq P ek key" "\<not> dp_eq P dk key"
    and "0 < room H" "dh_lock s = held" "\<And>H. cell_at H v = Obj (DataObj d) \<Longrightarrow> R a H"
  shows "dense_gives P ek dk F (room H - 1) (dense_pair P key v f a s H) R (dmap_upd P key (Some d) M)"
proof -
  obtain p where p: "new_cell (KeyObj key) H = Inr (p, new_obj (KeyObj key) H)" "p \<noteq> NULL" "p \<notin> insert v F"
    "cell_at (new_obj (KeyObj key) H) p = Obj (KeyObj key)" "p \<notin> live H"
    "dense_rep P ek dk (insert p (insert v F)) s (new_obj (KeyObj key) H) T" "room (new_obj (KeyObj key) H) = room H - 1"
    by (rule rep_new [OF r \<open>0 < room H\<close>])
  let ?H = "new_obj (KeyObj key) H"
  have vl: "cell_at ?H v = Obj (DataObj d)" using v(2) cell_at_fresh [of H] by (auto simp: cell_at_new simp del: cell_at_fresh)
  obtain s' where s': "dm_put P p v s ?H = Inr s'"
    "dense_rep P ek dk (insert p (insert v F) - {p, v}) s' ?H (insert (p, v, key, d) T)" "dh_lock s' = dh_lock s" "dh_iters s' = dh_iters s"
    by (rule rep_pair [OF p(6) _ p(4) _ vl new res]) simp_all
  have "insert p (insert v F) - {p, v} = F" using p(3) v(1) by blast
  then have rep: "dense_rep P ek dk F (s'\<lparr>dh_lock := False\<rparr>) ?H (insert (p, v, key, d) T)" using s'(2) by (simp add: dense_rep_more)
  have eq: "dense_pair P key v f a s H = Inr (a, s'\<lparr>dh_lock := False\<rparr>, ?H)"
    using p(1,2) s'(1,3) assms(9) by (simp add: dense_pair_def leave_ok)
  have "maps (dp_eq P) (insert (p, v, key, d) T) (dmap_upd P key (Some d) M)"
    unfolding dmap_upd_def by (rule maps_insert [OF m new])
  from dense_givesI [where R = R, OF eq rep this assms(10) [OF vl]] show ?thesis by simp
qed

lemma addReplace_old_ok:
  assumes r: "dense_rep P ek dk F s H T" and m: "maps (dp_eq P) T M" and s: "\<not> dh_lock s" "1 < room H"
    and res: "\<not> dp_eq P ek key" "\<not> dp_eq P dk key"
  shows "dense_gives P ek dk F (room H - 2) (dense_addReplace_old P key d old s H)
     (\<lambda>x _. x = (True, case M key of None \<Rightarrow> old | Some e \<Rightarrow> e)) (dmap_upd P key (Some d) M)"
proof -
  let ?s = "s\<lparr>dh_lock := held\<rparr>" and ?H = "new_obj (DataObj d) H"
  have r': "dense_rep P ek dk F ?s H T" using r by (simp add: dense_rep_more)
  obtain v where v: "new_cell (DataObj d) H = Inr (v, ?H)" "v \<noteq> NULL" "v \<notin> F" "cell_at ?H v = Obj (DataObj d)" "v \<notin> live H"
    "dense_rep P ek dk (insert v F) ?s ?H T" "room ?H = room H - 1" using rep_new [OF r', of "DataObj d"] s(2) by auto
  from r' m show ?thesis
  proof (cases rule: rep_find [where key = key])
    case none
    have "dense_gives P ek dk F (room ?H - 1) (dense_pair P key v (False, old) (True, old) ?s ?H)
        (\<lambda>x _. x = (True, case M key of None \<Rightarrow> old | Some e \<Rightarrow> e)) (dmap_upd P key (Some d) M)"
      by (rule pair_ok [OF v(6) m v(3,4) none(3) res]) (use s none v(7) in simp_all)
    then show ?thesis using none v s by (simp add: dense_addReplace_old_def enter_ok numeral_2_eq_2)
  next
    case (some i p q k e)
    obtain H' s' T' where n: "delete_cell q ?H = Inr H'" "dm_set_second i v ?s = Inr s'" "dense_rep P ek dk (insert v F - {v}) s' H' T'"
      "maps (dp_eq P) T' (dmap_upd P key (Some d) M)" "dh_lock s' = dh_lock ?s" "room H' = Suc (room ?H)"
      by (rule replaced_ok [OF v(6) m insertI1 v(4) some(5,6,3,4)])
    have "insert v F - {v} = F" using v(3) by blast
    then have rep: "dense_rep P ek dk F (s'\<lparr>dh_lock := False\<rparr>) H' T'" using n(3) by (simp add: dense_rep_more)
    have "read_data q ?H = Inr e" using rep_cell [OF v(6) some(5)] by (simp add: read_data_def)
    then have eq: "dense_addReplace_old P key d old s H = Inr ((True, e), s'\<lparr>dh_lock := False\<rparr>, H')"
      using some v n s by (simp add: dense_addReplace_old_def enter_ok leave_ok)
    show ?thesis by (rule dense_givesI [OF eq rep n(4)]) (use some n v in simp_all)
  qed
qed


lemma store_ok:
  assumes r: "dense_rep P ek dk (insert v F) s H T" and m: "maps (dp_eq P) T M" and v: "v \<notin> F" "cell_at H v = Obj (DataObj d)"
    and it: "found P T key s it" and res: "\<not> dp_eq P ek key" "\<not> dp_eq P dk key"
    and h: "0 < room H" "dh_lock s = held" and R: "\<And>H. cell_at H v = Obj (DataObj d) \<Longrightarrow> R a H"
  shows "dense_gives P ek dk F (room H - 1) (case it of None \<Rightarrow> dense_pair P key v f a s H
     | Some i \<Rightarrow> bindE (dm_slot i s) (\<lambda>(_, old). bindE (delete_cell old H) (\<lambda>H. bindE (dm_set_second i v s) (\<lambda>s. dense_leave P a s H))))
     R (dmap_upd P key (Some d) M)"
proof (cases it)
  case None
  then have "\<forall>(p, q, k, d) \<in> T. \<not> dp_eq P k key" using it by (simp add: found_def)
  from pair_ok [where R = R and a = a, OF r m v this res h R] show ?thesis by (simp add: None)
next
  case (Some i)
  then obtain p q k e where x: "i < length (dh_slots s)" "dh_slots s ! i = Some (p, q)" "(p, q, k, e) \<in> T" "dp_eq P k key"
    using it by (auto simp: found_def)
  obtain H' s' T' where n: "delete_cell q H = Inr H'" "dm_set_second i v s = Inr s'" "dense_rep P ek dk (insert v F - {v}) s' H' T'"
    "maps (dp_eq P) T' (dmap_upd P key (Some d) M)" "dh_lock s' = dh_lock s" "room H' = Suc (room H)" "cell_at H' v = Obj (DataObj d)"
    by (rule replaced_ok [OF r m insertI1 v(2) x(3,4,1,2)])
  have "insert v F - {v} = F" using v(1) by blast
  then have rep: "dense_rep P ek dk F (s'\<lparr>dh_lock := False\<rparr>) H' T'" using n(3) by (simp add: dense_rep_more)
  have "dm_slot i s = Inr (p, q)" using x by (simp add: dm_slot_def)
  then have eq: "(case it of None \<Rightarrow> dense_pair P key v f a s H
     | Some i \<Rightarrow> bindE (dm_slot i s) (\<lambda>(_, old). bindE (delete_cell old H) (\<lambda>H. bindE (dm_set_second i v s) (\<lambda>s. dense_leave P a s H))))
     = Inr (a, s'\<lparr>dh_lock := False\<rparr>, H')" using n h(2) by (simp add: Some leave_ok)
  show ?thesis by (rule dense_givesI [OF eq rep n(4)]) (use R n in simp_all)
qed

lemma addReplace_ok:
  assumes r: "dense_rep P ek dk F s H T" and m: "maps (dp_eq P) T M" and s: "\<not> dh_lock s" "1 < room H"
    and res: "\<not> dp_eq P ek key" "\<not> dp_eq P dk key"
  shows "dense_gives P ek dk F (room H - 2) (dense_addReplace P key d s H) (\<lambda>x _. x) (dmap_upd P key (Some d) M)"
proof -
  let ?s = "s\<lparr>dh_lock := held\<rparr>"
  have r': "dense_rep P ek dk F ?s H T" using r by (simp add: dense_rep_more)
  obtain v where v: "new_cell (DataObj d) H = Inr (v, new_obj (DataObj d) H)" "v \<noteq> NULL" "v \<notin> F"
    "cell_at (new_obj (DataObj d) H) v = Obj (DataObj d)" "v \<notin> live H"
    "dense_rep P ek dk (insert v F) ?s (new_obj (DataObj d) H) T" "room (new_obj (DataObj d) H) = room H - 1"
    using rep_new [OF r', of "DataObj d"] s(2) by auto
  obtain it where it: "dm_find P key ?s H = Inr it" "found P T key ?s it" "it = None \<longleftrightarrow> M key = None" by (rule find_found [OF r' m])
  have "0 < room (new_obj (DataObj d) H)" "dh_lock ?s = held" using s(2) by simp_all
  from store_ok [OF v(6) m v(3,4) it(2) res this, of "\<lambda>x _. x" True False]
  show ?thesis using it(1) v(1,2) s by (simp add: dense_addReplace_def enter_ok numeral_2_eq_2)
qed

lemma addReplaceNew_ok:
  assumes r: "dense_rep P ek dk F s H T" and m: "maps (dp_eq P) T M" and s: "\<not> dh_lock s" "1 < room H"
    and res: "\<not> dp_eq P ek key" "\<not> dp_eq P dk key"
  shows "dense_gives P ek dk F (room H - 2) (dense_addReplaceNew P key s H) (\<lambda>v H. read_data v H = Inr (dp_new P))
    (dmap_upd P key (Some (dp_new P)) M)"
proof -
  let ?s = "s\<lparr>dh_lock := held\<rparr>" and ?H = "new_obj (DataObj (dp_new P)) H"
  have r': "dense_rep P ek dk F ?s H T" using r by (simp add: dense_rep_more)
  obtain v where v: "new_cell (DataObj (dp_new P)) H = Inr (v, ?H)" "v \<noteq> NULL" "v \<notin> F" "cell_at ?H v = Obj (DataObj (dp_new P))" "v \<notin> live H"
    "dense_rep P ek dk (insert v F) ?s ?H T" "room ?H = room H - 1" using rep_new [OF r', of "DataObj (dp_new P)"] s(2) by auto
  obtain it where it: "dm_find P key ?s ?H = Inr it" "found P T key ?s it" "it = None \<longleftrightarrow> M key = None" by (rule find_found [OF v(6) m])
  have "0 < room ?H" "dh_lock ?s = held" using s(2) by simp_all
  from store_ok [OF v(6) m v(3,4) it(2) res this, of "\<lambda>v H. read_data v H = Inr (dp_new P)" v NULL]
  show ?thesis using it(1) v(1,2) s by (simp add: dense_addReplaceNew_def enter_ok numeral_2_eq_2 read_data_def)
qed

text \<open>A default object for a key that is not there.\<close>

lemma fresh_ok:
  assumes r: "dense_rep P ek dk F s H T" and m: "maps (dp_eq P) T M" and s: "dh_lock s = held" "1 < room H"
    and it: "\<forall>(p, q, k, d) \<in> T. \<not> dp_eq P k key" and res: "\<not> dp_eq P ek key" "\<not> dp_eq P dk key"
    and R: "\<And>v H. v \<noteq> NULL \<Longrightarrow> cell_at H v = Obj (DataObj d) \<Longrightarrow> R (a v) H"
  shows "dense_gives P ek dk F (room H - 2) (bindE (new_cell (DataObj d) H) (\<lambda>(v, H).
     if v = NULL then Inr (f, s, H) else dense_pair P key v f (a v) s H)) R (dmap_upd P key (Some d) M)"
proof -
  let ?H = "new_obj (DataObj d) H"
  obtain v where v: "new_cell (DataObj d) H = Inr (v, ?H)" "v \<noteq> NULL" "v \<notin> F" "cell_at ?H v = Obj (DataObj d)" "v \<notin> live H"
    "dense_rep P ek dk (insert v F) s ?H T" "room ?H = room H - 1" using rep_new [OF r, of "DataObj d"] s(2) by auto
  have "dense_gives P ek dk F (room ?H - 1) (dense_pair P key v f (a v) s ?H) R (dmap_upd P key (Some d) M)"
    by (rule pair_ok [OF v(6) m v(3,4) it res]) (use s R v(2) in simp_all)
  then show ?thesis using v(1,2) by (simp add: numeral_2_eq_2)
qed

end

end
