(* ===== verification/TW_DenseRun.thy ===== *)
theory TW_DenseRun
  imports TW_DenseOps
begin

text \<open>
  The other operations of a TWDenseHash, and sequences of them.
\<close>

section \<open>Adding only what is new\<close>

lemma new_cell_ok: "0 < room H \<Longrightarrow> new_cell c H = Inr (Suc (heap_size H), new_obj c H)"
  by (simp add: new_cell_def malloc_ok construct_new)

context dense_locked begin

lemma addNoreplaceNew_ok:
  assumes r: "dense_rep P ek dk F s H T" and m: "maps (dp_eq P) T M" and s: "\<not> dh_lock s" "1 < room H"
    and res: "\<not> dp_eq P ek key" "\<not> dp_eq P dk key"
  shows "dense_gives P ek dk F (room H - 2) (dense_addNoreplaceNew P key s H)
    (\<lambda>v H. if M key = None then read_data v H = Inr (dp_new P) else v = NULL)
    (if M key = None then dmap_upd P key (Some (dp_new P)) M else M)"
proof -
  let ?s = "s\<lparr>dh_lock := held\<rparr>" and ?d = "DataObj (dp_new P)"
  have r': "dense_rep P ek dk F ?s H T" using r by (simp add: dense_rep_more)
  obtain it where it: "dm_find P key ?s H = Inr it" "found P T key ?s it" "it = None \<longleftrightarrow> M key = None" by (rule find_found [OF r' m])
  show ?thesis
  proof (cases it)
    case None
    have "(case it of None \<Rightarrow> \<forall>(p, q, k, d) \<in> T. \<not> dp_eq P k key | _ \<Rightarrow> True)" using it(2) None by (simp add: found_def)
    then have new: "\<forall>(p, q, k, d) \<in> T. \<not> dp_eq P k key" by (simp add: None)
    have "dense_gives P ek dk F (room H - 2) (bindE (new_cell ?d H) (\<lambda>(v, H).
       if v = NULL then Inr (NULL, ?s, H) else dense_pair P key v NULL v ?s H))
       (\<lambda>v H. read_data v H = Inr (dp_new P)) (dmap_upd P key (Some (dp_new P)) M)"
      by (rule fresh_ok [OF r' m _ s(2) new res]) (simp_all add: read_data_def)
    moreover have "0 < room (new_obj ?d H)" using s(2) by simp
    ultimately show ?thesis using it None s(1,2)
      by (simp add: dense_addNoreplaceNew_def enter_ok dense_pair_def new_cell_ok)
  next
    case (Some i)
    have "dense_addNoreplaceNew P key s H = Inr (NULL, s\<lparr>dh_lock := False\<rparr>, H)"
      using it(1) s Some by (simp add: dense_addNoreplaceNew_def enter_ok leave_ok)
    moreover have "dense_rep P ek dk F (s\<lparr>dh_lock := False\<rparr>) H T" using r by (simp add: dense_rep_more)
    moreover obtain y where "M key = Some y" using it(3) Some by auto
    ultimately show ?thesis using m by (simp add: dense_gives_def) blast
  qed
qed

lemma findOrNew_ok:
  assumes r: "dense_rep P ek dk F s H T" and m: "maps (dp_eq P) T M" and s: "\<not> dh_lock s" "1 < room H"
    and res: "\<not> dp_eq P ek key" "\<not> dp_eq P dk key"
  shows "dense_gives P ek dk F (room H - 2) (dense_findOrNew P key s H)
    (\<lambda>v H. read_data v H = Inr (case M key of None \<Rightarrow> dp_new P | Some d \<Rightarrow> d))
    (if M key = None then dmap_upd P key (Some (dp_new P)) M else M)"
proof -
  let ?s = "s\<lparr>dh_lock := held\<rparr>"
  have r': "dense_rep P ek dk F ?s H T" using r by (simp add: dense_rep_more)
  from r' m show ?thesis
  proof (cases rule: rep_find [where key = key])
    case none
    have "dense_gives P ek dk F (room H - 2) (bindE (new_cell (DataObj (dp_new P)) H) (\<lambda>(v, H).
       if v = NULL then Inr (NULL, ?s, H) else dense_pair P key v NULL v ?s H))
       (\<lambda>v H. read_data v H = Inr (dp_new P)) (dmap_upd P key (Some (dp_new P)) M)"
      by (rule fresh_ok [OF r' m _ s(2) none(3) res]) (simp_all add: read_data_def)
    then show ?thesis using none s(1) by (simp add: dense_findOrNew_def enter_ok)
  next
    case (some i p q k d)
    have "dense_findOrNew P key s H = Inr (q, s\<lparr>dh_lock := False\<rparr>, H)"
      using some s by (simp add: dense_findOrNew_def enter_ok leave_ok)
    moreover have "dense_rep P ek dk F (s\<lparr>dh_lock := False\<rparr>) H T" using r by (simp add: dense_rep_more)
    moreover have "read_data q H = Inr d" using rep_cell [OF r some(5)] by (simp add: read_data_def)
    ultimately show ?thesis using some(7) m by (simp add: dense_gives_def) blast
  qed
qed

lemma addNoreplace_ok:
  assumes r: "dense_rep P ek dk F s H T" and m: "maps (dp_eq P) T M" and s: "\<not> dh_lock s" "1 < room H"
    and res: "\<not> dp_eq P ek key" "\<not> dp_eq P dk key"
  shows "dense_gives P ek dk F (room H - 2) (dense_addNoreplace P key d s H) (\<lambda>x _. x \<longleftrightarrow> M key = None)
    (if M key = None then dmap_upd P key (Some (dp_new P)) M else M)"
proof -
  let ?s = "s\<lparr>dh_lock := held\<rparr>"
  have r': "dense_rep P ek dk F ?s H T" using r by (simp add: dense_rep_more)
  from r' m show ?thesis
  proof (cases rule: rep_find [where key = key])
    case none
    have "dense_gives P ek dk F (room H - 2) (bindE (new_cell (DataObj (dp_new P)) H) (\<lambda>(v, H).
       if v = NULL then Inr (False, ?s, H) else dense_pair P key v False True ?s H))
       (\<lambda>x _. x) (dmap_upd P key (Some (dp_new P)) M)"
      by (rule fresh_ok [OF r' m _ s(2) none(3) res]) simp_all
    then show ?thesis using none s(1) by (simp add: dense_addNoreplace_def enter_ok)
  next
    case (some i p q k d)
    have "dense_addNoreplace P key d' s H = Inr (False, s\<lparr>dh_lock := False\<rparr>, H)" for d'
      using some s by (simp add: dense_addNoreplace_def enter_ok leave_ok)
    moreover have "dense_rep P ek dk F (s\<lparr>dh_lock := False\<rparr>) H T" using r by (simp add: dense_rep_more)
    ultimately show ?thesis using some(7) m by (simp add: dense_gives_def) blast
  qed
qed

section \<open>Removing\<close>

lemma upd_absent:
  assumes "maps (dp_eq P) T M" and "\<forall>(p, q, k, d) \<in> T. \<not> dp_eq P k key"
  shows "dmap_upd P key None M = M"
  using assms unfolding dmap_upd_def fun_eq_iff maps_def by (metis option.exhaust eq_sym eq_trans case_prodD)

lemma remove_fill_ok:
  assumes r: "dense_rep P ek dk F s H T" and m: "maps (dp_eq P) T M" and s: "\<not> dh_lock s"
  shows "dense_gives P ek dk F (room H) (dense_remove_fill P key fill s H)
    (\<lambda>x _. x = (case M key of None \<Rightarrow> (False, fill) | Some d \<Rightarrow> (True, d))) (dmap_upd P key None M)"
proof -
  let ?s = "s\<lparr>dh_lock := held\<rparr>"
  have r': "dense_rep P ek dk F ?s H T" using r by (simp add: dense_rep_more)
  from r' m show ?thesis
  proof (cases rule: rep_find [where key = key])
    case none
    have "dmap_upd P key None M = M" by (rule upd_absent [OF m none(3)])
    moreover have "dense_remove_fill P key fill s H = Inr ((False, fill), s\<lparr>dh_lock := False\<rparr>, H)"
      using none s by (simp add: dense_remove_fill_def enter_ok leave_ok)
    moreover have "dense_rep P ek dk F (s\<lparr>dh_lock := False\<rparr>) H T" using r by (simp add: dense_rep_more)
    ultimately show ?thesis using none(2) m by (simp add: dense_gives_def) blast
  next
    case (some i p q k d)
    obtain s' T' where n: "dm_erase i ?s = Inr s'" "dense_rep P ek dk (F \<union> {p, q}) s' H T'" "maps (dp_eq P) T' (dmap_upd P key None M)"
      "dh_lock s' = dh_lock ?s" "p \<notin> F" "q \<notin> F" "p \<noteq> q" "cell_at H p = Obj (KeyObj k)" "cell_at H q = Obj (DataObj d)" "T' = T - {(p, q, k, d)}"
      by (rule remove_ok [OF r' m some(5,6,3,4)])
    let ?t = "(if dh_iters s' = 0 then dm_resize P s' H else s')\<lparr>dh_lock := False\<rparr>"
    have "dense_rep P ek dk (F \<union> {p, q}) ?t H T'" using n(2) rep_resize [OF n(2)] by (simp add: dense_rep_more)
    then obtain H1 H2 where d: "delete_cell p H = Inr H1" "delete_cell q H1 = Inr H2" "dense_rep P ek dk F ?t H2 T'" "room H \<le> room H2"
      using delete_pair n(5-9) by metis
    have "dh_lock (if dh_iters s' = 0 then dm_resize P s' H else s') = held" using n(4) by (simp add: dm_resize_def)
    moreover have "read_data q H = Inr d" using n(9) by (simp add: read_data_def)
    ultimately have eq: "dense_remove_fill P key fill s H = Inr ((True, d), ?t, H2)"
      using some n(1) d(1,2) s by (simp add: dense_remove_fill_def enter_ok leave_ok)
    show ?thesis by (rule dense_givesI [OF eq d(3) n(3)]) (use some d in simp_all)
  qed
qed

lemma remove_ok':
  assumes r: "dense_rep P ek dk F s H T" and m: "maps (dp_eq P) T M" and s: "\<not> dh_lock s"
  shows "dense_gives P ek dk F (room H) (dense_remove P key s H) (\<lambda>x _. x \<longleftrightarrow> M key \<noteq> None) (dmap_upd P key None M)"
proof -
  let ?s = "s\<lparr>dh_lock := held\<rparr>"
  have r': "dense_rep P ek dk F ?s H T" using r by (simp add: dense_rep_more)
  from r' m show ?thesis
  proof (cases rule: rep_find [where key = key])
    case none
    have "dmap_upd P key None M = M" by (rule upd_absent [OF m none(3)])
    moreover have "dense_remove P key s H = Inr (False, s\<lparr>dh_lock := False\<rparr>, H)"
      using none s by (simp add: dense_remove_def enter_ok leave_ok)
    moreover have "dense_rep P ek dk F (s\<lparr>dh_lock := False\<rparr>) H T" using r by (simp add: dense_rep_more)
    ultimately show ?thesis using none(2) m by (simp add: dense_gives_def) blast
  next
    case (some i p q k d)
    obtain s' T' where n: "dm_erase i ?s = Inr s'" "dense_rep P ek dk (F \<union> {p, q}) s' H T'" "maps (dp_eq P) T' (dmap_upd P key None M)"
      "dh_lock s' = dh_lock ?s" "p \<notin> F" "q \<notin> F" "p \<noteq> q" "cell_at H p = Obj (KeyObj k)" "cell_at H q = Obj (DataObj d)" "T' = T - {(p, q, k, d)}"
      by (rule remove_ok [OF r' m some(5,6,3,4)])
    have "dense_rep P ek dk (F \<union> {p, q}) (s'\<lparr>dh_lock := False\<rparr>) H T'" using n(2) by (simp add: dense_rep_more)
    then obtain H1 H2 where d: "delete_cell p H = Inr H1" "delete_cell q H1 = Inr H2" "dense_rep P ek dk F (s'\<lparr>dh_lock := False\<rparr>) H2 T'"
      "room H \<le> room H2" using delete_pair n(5-9) by metis
    have eq: "dense_remove P key s H = Inr (True, s'\<lparr>dh_lock := False\<rparr>, H2)"
      using some n(1,4) d(1,2) s by (simp add: dense_remove_def enter_ok leave_ok)
    show ?thesis by (rule dense_givesI [OF eq d(3) n(3)]) (use some d in simp_all)
  qed
qed

section \<open>Searching\<close>

text \<open>The searches release the lock as it is: that has to be allowed.\<close>

lemma find_fill_ok:
  assumes r: "dense_rep P ek dk F s H T" and m: "maps (dp_eq P) T M" and s: "\<not> dh_lock s" and rel: "dp_release P False = Inr False"
  shows "dense_gives P ek dk F (room H) (dense_find_fill P key fill s H)
    (\<lambda>x _. x = (case M key of None \<Rightarrow> (False, fill) | Some d \<Rightarrow> (True, d))) M"
  using r m
proof (cases rule: rep_find [where key = key])
  case none
  have "dense_find_fill P key fill s H = Inr ((False, fill), s\<lparr>dh_lock := False\<rparr>, H)"
    using none s rel by (simp add: dense_find_fill_def dense_leave_def)
  moreover have "dense_rep P ek dk F (s\<lparr>dh_lock := False\<rparr>) H T" using r by (simp add: dense_rep_more)
  ultimately show ?thesis using none(2) m by (simp add: dense_gives_def) blast
next
  case (some i p q k d)
  have "read_data q H = Inr d" using rep_cell [OF r some(5)] by (simp add: read_data_def)
  then have "dense_find_fill P key fill s H = Inr ((True, d), s\<lparr>dh_lock := False\<rparr>, H)"
    using some s rel by (simp add: dense_find_fill_def dense_leave_def)
  moreover have "dense_rep P ek dk F (s\<lparr>dh_lock := False\<rparr>) H T" using r by (simp add: dense_rep_more)
  ultimately show ?thesis using some(7) m by (simp add: dense_gives_def) blast
qed

lemma find_ok:
  assumes r: "dense_rep P ek dk F s H T" and m: "maps (dp_eq P) T M" and s: "\<not> dh_lock s" and rel: "dp_release P False = Inr False"
  shows "dense_gives P ek dk F (room H) (dense_find P key s H)
    (\<lambda>v H. case M key of None \<Rightarrow> v = NULL | Some d \<Rightarrow> read_data v H = Inr d) M"
  using r m
proof (cases rule: rep_find [where key = key])
  case none
  have "dense_find P key s H = Inr (NULL, s\<lparr>dh_lock := False\<rparr>, H)"
    using none s rel by (simp add: dense_find_def dense_leave_def)
  moreover have "dense_rep P ek dk F (s\<lparr>dh_lock := False\<rparr>) H T" using r by (simp add: dense_rep_more)
  ultimately show ?thesis using none(2) m by (simp add: dense_gives_def) blast
next
  case (some i p q k d)
  have "read_data q H = Inr d" using rep_cell [OF r some(5)] by (simp add: read_data_def)
  moreover have "dense_find P key s H = Inr (q, s\<lparr>dh_lock := False\<rparr>, H)"
    using some s rel by (simp add: dense_find_def dense_leave_def)
  moreover have "dense_rep P ek dk F (s\<lparr>dh_lock := False\<rparr>) H T" using r by (simp add: dense_rep_more)
  ultimately show ?thesis using some(7) m by (simp add: dense_gives_def) blast
qed

end

section \<open>Emptying\<close>

lemma next_pair_ok: "(next_pair xs < length xs \<and> (\<exists>e. xs ! next_pair xs = Some e)) \<or> (next_pair xs = length xs \<and> pairs xs = {})"
  by (induction xs rule: next_pair.induct) auto

lemma dm_size_erase: "i < length xs \<Longrightarrow> xs ! i = Some e \<Longrightarrow> Suc (length (filter (\<lambda>x. x \<noteq> None) (xs[i := None]))) = length (filter (\<lambda>x. x \<noteq> None) xs)"
  by (induction xs arbitrary: i) (auto split: nat.splits simp: nth_Cons)

lemma clear_same: "dense_clear_loop f s H = Inr (s', H') \<Longrightarrow> dh_empty s' = dh_empty s \<and> dh_deleted s' = dh_deleted s"
proof (induction f arbitrary: s H)
  case (Suc f)
  show ?case
  proof (cases "dm_next 0 s = length (dh_slots s)")
    case False
    obtain t H1 where t: "dm_erase (dm_next 0 s) s = Inr t" "dense_clear_loop f t H1 = Inr (s', H')"
      using Suc.prems False by (auto simp: bindE_eq_Inr Let_def)
    then show ?thesis using Suc.IH [OF t(2)] by (auto simp: dm_erase_def bindE_eq_Inr)
  qed (use Suc.prems in simp)
qed simp

context dense_table begin

lemma clear_ok:
  "dense_rep P ek dk F s H T \<Longrightarrow> dm_size s < f \<Longrightarrow> \<exists>s' H'. dense_clear_loop f s H = Inr (s', H') \<and> dense_rep P ek dk F s' H' {}
     \<and> dh_lock s' = dh_lock s \<and> room H \<le> room H'"
proof (induction f arbitrary: s H T)
  case (Suc f)
  let ?i = "dm_next 0 s"
  have pr: "pairs (dh_slots s) = (\<lambda>(p, q, k, d). (p, q)) ` T" using Suc.prems(1) by (simp add: dense_rep_def)
  show ?case
  proof (cases "?i = length (dh_slots s)")
    case True
    then have "pairs (dh_slots s) = {}" using next_pair_ok [of "dh_slots s"] by (auto simp: dm_next_def)
    then have "T = {}" unfolding pr by simp
    then show ?thesis using True Suc.prems(1) by simp
  next
    case False
    then obtain p q where i: "?i < length (dh_slots s)" "dh_slots s ! ?i = Some (p, q)"
      using next_pair_ok [of "dh_slots s"] by (auto simp: dm_next_def)
    have "(p, q) \<in> pairs (dh_slots s)" using i nth_mem by (fastforce simp: pairs_def)
    then obtain k d where x: "(p, q, k, d) \<in> T" unfolding pr by auto
    obtain s' where s': "dm_erase ?i s = Inr s'" "dense_rep P ek dk (F \<union> {p, q}) s' H (T - {(p, q, k, d)})" "dh_lock s' = dh_lock s"
      by (rule rep_erase [OF Suc.prems(1) x i])
    have c: "cell_at H p = Obj (KeyObj k)" "cell_at H q = Obj (DataObj d)" using rep_cell [OF Suc.prems(1) x] by simp_all
    have out: "q \<notin> F" "p \<notin> F" "q \<noteq> p" using ptrs_of_in [OF x] Suc.prems(1) c by (auto simp: dense_rep_def)
    have "dense_rep P ek dk (F \<union> {q, p}) s' H (T - {(p, q, k, d)})" using s'(2) by (simp add: insert_commute)
    then obtain H1 H2 where h: "delete_cell q H = Inr H1" "delete_cell p H1 = Inr H2" "dense_rep P ek dk F s' H2 (T - {(p, q, k, d)})" "room H \<le> room H2"
      using delete_pair out c by metis
    have "dm_erase ?i s = Inr (s\<lparr>dh_slots := (dh_slots s)[?i := None]\<rparr>)" using i by (simp add: dm_erase_def dm_slot_def)
    then have "Suc (dm_size s') = dm_size s" using s'(1) dm_size_erase [OF i] by (auto simp: dm_size_def)
    then have "dm_size s' < f" using Suc.prems(2) by simp
    from Suc.IH [OF h(3) this] obtain t H' where t: "dense_clear_loop f s' H2 = Inr (t, H')" "dense_rep P ek dk F t H' {}"
      "dh_lock t = dh_lock s'" "room H2 \<le> room H'" by blast
    have "p \<noteq> NULL" "q \<noteq> NULL" using c by (auto dest: cell_at_Obj_pos)
    moreover have "dm_slot ?i s = Inr (p, q)" using i by (simp add: dm_slot_def)
    ultimately have "dense_clear_loop (Suc f) s H = Inr (t, H')" using False s'(1) h(1,2) t(1) by simp
    then show ?thesis using t h(4) s'(3) by auto
  qed
qed simp

end

context dense_locked begin

lemma removeAll_ok:
  assumes r: "dense_rep P ek dk F s H T" and s: "\<not> dh_lock s"
  obtains s' H' where "dense_removeAll P s H = Inr (True, s', H')" "dense_rep P ek dk F s' H' {}" "\<not> dh_lock s'" "room H \<le> room H'"
proof -
  let ?s = "dm_resize P (s\<lparr>dh_lock := held\<rparr>) H"
  have r': "dense_rep P ek dk F (s\<lparr>dh_lock := held\<rparr>) H T" using r by (simp add: dense_rep_more)
  obtain t H' where t: "dense_clear_loop (Suc (dm_size ?s)) ?s H = Inr (t, H')" "dense_rep P ek dk F t H' {}"
      "dh_lock t = dh_lock ?s" "room H \<le> room H'" using clear_ok [OF rep_resize [OF r'], of "Suc (dm_size ?s)"] by blast
  have "dh_lock (dm_resize P t H') = held" using t(3) by (simp add: dm_resize_def)
  then have "dense_removeAll P s H = Inr (True, (dm_resize P t H')\<lparr>dh_lock := False\<rparr>, H')"
    using t(1) s by (simp add: dense_removeAll_def enter_ok leave_ok Let_def del: dense_clear_loop.simps)
  then show ?thesis using that rep_resize [OF t(2)] t(4) by (simp add: dense_rep_more)
qed

lemma removeAll_same: "dense_removeAll P s H = Inr (b, s', H') \<Longrightarrow> dh_empty s' = dh_empty s \<and> dh_deleted s' = dh_deleted s"
  by (auto simp: dense_removeAll_def dense_enter_def dense_leave_def bindE_eq_Inr Let_def dm_resize_def dest!: clear_same simp del: dense_clear_loop.simps)

lemma destroy_ok:
  assumes r: "dense_rep P ek dk F s H T" and s: "\<not> dh_lock s"
  shows "holds (dense_destroy P s H) (\<lambda>H'. live H' = (if ek = dk then F else insert (dh_deleted s) F))"
proof -
  obtain s' H' where a: "dense_removeAll P s H = Inr (True, s', H')" "dense_rep P ek dk F s' H' {}" by (rule removeAll_ok [OF r s])
  have d: "dh_empty s' = dh_empty s \<and> dh_deleted s' = dh_deleted s" by (rule removeAll_same [OF a(1)])
  have c: "cell_at H' (dh_empty s') = Obj (KeyObj ek)" "(dh_empty s' = dh_deleted s') = (ek = dk)"
    "live H' = F \<union> {dh_empty s', dh_deleted s'}" "dh_empty s' \<notin> F" using a(2) by (auto simp: dense_rep_def)
  have "delete_cell (dh_empty s') H' = Inr ((put_cell (dh_empty s') Freed H')\<lparr>room := Suc (room H')\<rparr>)"
    using c(1) by (simp add: delete_cell_def free_ok)
  moreover have "live ((put_cell (dh_empty s') Freed H')\<lparr>room := Suc (room H')\<rparr>) = (if ek = dk then F else insert (dh_deleted s') F)"
    using c by (auto simp: live_put_Freed)
  ultimately show ?thesis using a(1) d cell_at_Obj_pos [OF c(1)] by (simp add: dense_destroy_def)
qed

end

end
