(* ===== verification/TW_DenseProps.thy ===== *)
theory TW_DenseProps
  imports TW_DenseRun TW_KHash32
begin

text \<open>
  What a TWDenseHash promises, and what its locking does.
\<close>

section \<open>The iterator\<close>

text \<open>From \<^verbatim>\<open>gotoStart\<close> to \<^verbatim>\<open>release\<close>, with all keys and objects that are read on the way.\<close>

fun dense_walk_loop :: "nat \<Rightarrow> nat \<Rightarrow> dense \<Rightarrow> ('k, 'd) dheap \<Rightarrow> ('k \<times> 'd) list res" where
  "dense_walk_loop 0 i s H = Inl Diverges"
| "dense_walk_loop (Suc f) i s H = (if diter_atEnd i s then Inr []
     else bindE (diter_key i s) (\<lambda>p. bindE (read_key p H) (\<lambda>k.
       bindE (diter_data i s) (\<lambda>q. bindE (read_data q H) (\<lambda>d.
       bindE (dense_walk_loop f (snd (diter_getNext i s)) s H) (\<lambda>l. Inr ((k, d) # l)))))))"

definition dense_walk :: "('k, 'd) dparams \<Rightarrow> dense \<Rightarrow> ('k, 'd) dheap \<Rightarrow> (('k \<times> 'd) list \<times> dense \<times> ('k, 'd) dheap) res" where
  "dense_walk P s H = bindE (dense_gotoStart P s H) (\<lambda>(i, s, H).
     bindE (dense_walk_loop (Suc (length (dh_slots s))) i s H) (\<lambda>l.
     bindE (dense_releaseIter P s H) (\<lambda>(_, s, H). Inr (l, s, H))))"

lemma next_pair_drop:
  "next_pair ys < length ys \<Longrightarrow> ys ! next_pair ys = Some e \<Longrightarrow> pairs ys = insert e (pairs (drop (Suc (next_pair ys)) ys))
     \<and> (once ys \<longrightarrow> e \<notin> pairs (drop (Suc (next_pair ys)) ys) \<and> once (drop (Suc (next_pair ys)) ys))
     \<and> length (filter (\<lambda>x. x \<noteq> None) ys) = Suc (length (filter (\<lambda>x. x \<noteq> None) (drop (Suc (next_pair ys)) ys)))"
  by (induction ys rule: next_pair.induct) auto

lemma apart_entriesD:
  assumes a: "apart_entries eq T" and x: "(p, q, k, d) \<in> T" and y: "(p', q', k', d') \<in> T" and e: "p = p' \<or> q = q' \<or> eq k k'"
  shows "(p, q, k, d) = (p', q', k', d')"
  using bspec [OF bspec [OF a [unfolded apart_entries_def] x, unfolded prod.case] y, unfolded prod.case] e by simp

context dense_table begin

lemma walk_loop_ok:
  assumes r: "dense_rep P ek dk F s H T"
  shows "once (drop j (dh_slots s)) \<Longrightarrow> j \<le> length (dh_slots s) \<Longrightarrow> length (dh_slots s) - j < f \<Longrightarrow>
    \<exists>l. dense_walk_loop f (dm_next j s) s H = Inr l \<and> length l = length (filter (\<lambda>x. x \<noteq> None) (drop j (dh_slots s)))
      \<and> set l = {(k, d). \<exists>p q. (p, q) \<in> pairs (drop j (dh_slots s)) \<and> (p, q, k, d) \<in> T}
      \<and> sorted_wrt (\<lambda>x y. \<not> dp_eq P (fst x) (fst y)) l"
proof (induction f arbitrary: j)
  case (Suc f)
  let ?xs = "dh_slots s" and ?i = "dm_next j s"
  let ?n = "next_pair (drop j ?xs)"
  show ?case
  proof (cases "?i = length ?xs")
    case True
    then have "?n = length (drop j ?xs)" using Suc.prems(2) by (simp add: dm_next_def)
    then have "pairs (drop j ?xs) = {}" using next_pair_ok [of "drop j ?xs"] by auto
    moreover from this have "filter (\<lambda>x. x \<noteq> None) (drop j ?xs) = []" by (auto simp: pairs_def filter_empty_conv)
    ultimately show ?thesis using True by (simp add: diter_atEnd_def)
  next
    case False
    have lt: "?n < length (drop j ?xs)" using next_pair_ok [of "drop j ?xs"] False Suc.prems(2) by (auto simp: dm_next_def)
    then obtain e where "drop j ?xs ! ?n = Some e" using next_pair_ok [of "drop j ?xs"] by (metis less_irrefl)
    then obtain p q where e: "drop j ?xs ! ?n = Some (p, q)" by (cases e) simp
    have i: "?i < length ?xs" "?xs ! ?i = Some (p, q)" using lt e by (simp_all add: dm_next_def)
    have dr: "drop (Suc ?n) (drop j ?xs) = drop (Suc ?i) ?xs" by (simp add: dm_next_def add.commute)
    note np = next_pair_drop [OF lt e, unfolded dr]
    have "(p, q) \<in> pairs ?xs" using i nth_mem [OF i(1)] by (simp add: pairs_def)
    then have "(p, q) \<in> (\<lambda>(p, q, k, d). (p, q)) ` T" using r by (simp add: dense_rep_def)
    then obtain k d where x: "(p, q, k, d) \<in> T" by auto
    have a: "apart_entries (dp_eq P) T" using r by (simp add: dense_rep_def)
    have ap: "(p', q', k', d') = (p, q, k, d)" if "(p', q', k', d') \<in> T" "p = p' \<or> dp_eq P k k'" for p' q' k' d'
      by (rule apart_entriesD [OF a x that(1), symmetric]) (use that(2) in blast)
    have "once (drop (Suc ?i) ?xs)" "Suc ?i \<le> length ?xs" "length ?xs - Suc ?i < f"
      using np Suc.prems i by (auto simp: dm_next_def)
    from Suc.IH [OF this] obtain l where l: "dense_walk_loop f (dm_next (Suc ?i) s) s H = Inr l"
      "length l = length (filter (\<lambda>x. x \<noteq> None) (drop (Suc ?i) ?xs))"
      "set l = {(k, d). \<exists>p q. (p, q) \<in> pairs (drop (Suc ?i) ?xs) \<and> (p, q, k, d) \<in> T}"
      "sorted_wrt (\<lambda>x y. \<not> dp_eq P (fst x) (fst y)) l" by blast
    have "dm_slot ?i s = Inr (p, q)" using i by (simp add: dm_slot_def)
    then have w: "dense_walk_loop (Suc f) ?i s H = Inr ((k, d) # l)"
      using i l(1) rep_cell [OF r x]
      by (simp add: diter_atEnd_def diter_key_def diter_data_def diter_getNext_def read_key_def read_data_def Let_def)
    have "\<not> dp_eq P k k'" if "(k', d') \<in> set l" for k' d'
      using that ap np Suc.prems(1) unfolding l(3) by blast
    then have st: "sorted_wrt (\<lambda>x y. \<not> dp_eq P (fst x) (fst y)) ((k, d) # l)" using l(4) by auto
    have one: "(p, q, k', d') \<in> T \<longleftrightarrow> k' = k \<and> d' = d" for k' d' using ap [of p q k' d'] x by auto
    have here: "\<exists>pa qa. (pa = p \<and> qa = q \<or> (pa, qa) \<in> pairs (drop (Suc ?i) ?xs)) \<and> (pa, qa, k, d) \<in> T" using x by blast
    have "set ((k, d) # l) = {(k, d). \<exists>p q. (p, q) \<in> pairs (drop j ?xs) \<and> (p, q, k, d) \<in> T}"
      unfolding conjunct1 [OF np] using here by (auto simp: l(3) one)
    then show ?thesis using w st l(2) np by auto
  qed
qed simp

end

context dense_locked begin

lemma walk_ok:
  assumes r: "dense_rep P ek dk F s H T" and m: "maps (dp_eq P) T M" and s: "\<not> dh_lock s"
  shows "holds (dense_walk P s H) (\<lambda>(l, _). int (length l) = dense_size s \<and> sorted_wrt (\<lambda>x y. \<not> dp_eq P (fst x) (fst y)) l
    \<and> (\<forall>key d. M key = Some d \<longleftrightarrow> (\<exists>k. (k, d) \<in> set l \<and> dp_eq P k key)))"
proof -
  let ?s = "s\<lparr>dh_lock := False, dh_iters := dh_iters s + 1\<rparr>"
  have r': "dense_rep P ek dk F ?s H T" using r by (simp add: dense_rep_more)
  have o: "once (drop 0 (dh_slots ?s))" using r by (simp add: dense_rep_def)
  from walk_loop_ok [OF r' o, of "Suc (length (dh_slots s))"]
  obtain l where l: "dense_walk_loop (Suc (length (dh_slots s))) (dm_next 0 ?s) ?s H = Inr l"
    "length l = length (filter (\<lambda>x. x \<noteq> None) (dh_slots s))"
    "set l = {(k, d). \<exists>p q. (p, q) \<in> pairs (dh_slots s) \<and> (p, q, k, d) \<in> T}"
    "sorted_wrt (\<lambda>x y. \<not> dp_eq P (fst x) (fst y)) l" by auto
  have "pairs (dh_slots s) = (\<lambda>(p, q, k, d). (p, q)) ` T" using r by (simp add: dense_rep_def)
  then have "(p, q) \<in> pairs (dh_slots s)" if "(p, q, k, d) \<in> T" for p q k d using that by force
  then have "set l = {(k, d). \<exists>p q. (p, q, k, d) \<in> T}" unfolding l(3) by blast
  then have M: "M key = Some d \<longleftrightarrow> (\<exists>k. (k, d) \<in> set l \<and> dp_eq P k key)" for key d using m by (auto simp: maps_def)
  have "dense_gotoStart P s H = Inr (dm_next 0 ?s, ?s, H)" using s by (simp add: dense_gotoStart_def enter_ok leave_ok dm_next_def)
  moreover have "\<exists>s'. dense_releaseIter P ?s H = Inr ((), s', H)" by (simp add: dense_releaseIter_def enter_ok leave_ok)
  ultimately have "\<exists>x. dense_walk P s H = Inr (l, x)" using l(1) by (auto simp: dense_walk_def simp del: dense_walk_loop.simps)
  then show ?thesis using l(2,4) M by (auto simp: dense_size_def dm_size_def)
qed

end

section \<open>Sequences of calls\<close>

datatype ('k, 'd) dcmd = D_addReplace 'k 'd | D_addReplace_old 'k 'd 'd | D_addReplaceNew 'k | D_addNoreplaceNew 'k | D_findOrNew 'k
  | D_addNoreplace 'k 'd | D_remove 'k | D_remove_fill 'k 'd | D_find 'k | D_find_fill 'k 'd | D_removeAll

text \<open>What a call returns: for a pointer, the object that the caller reads through it.\<close>

datatype 'd dans = D_bool bool | D_both bool 'd | D_obj "'d option"

definition dense_obj :: "ptr \<times> dense \<times> ('k, 'd) dheap \<Rightarrow> ('d dans \<times> dense \<times> ('k, 'd) dheap) res" where
  "dense_obj x = (case x of (v, s, H) \<Rightarrow> if v = NULL then Inr (D_obj None, s, H) else bindE (read_data v H) (\<lambda>d. Inr (D_obj (Some d), s, H)))"

fun dense_cmd :: "('k, 'd) dparams \<Rightarrow> ('k, 'd) dcmd \<Rightarrow> dense \<Rightarrow> ('k, 'd) dheap \<Rightarrow> ('d dans \<times> dense \<times> ('k, 'd) dheap) res" where
  "dense_cmd P (D_addReplace k d) s H = bindE (dense_addReplace P k d s H) (\<lambda>(b, x). Inr (D_bool b, x))"
| "dense_cmd P (D_addReplace_old k d old) s H = bindE (dense_addReplace_old P k d old s H) (\<lambda>((b, e), x). Inr (D_both b e, x))"
| "dense_cmd P (D_addReplaceNew k) s H = bindE (dense_addReplaceNew P k s H) dense_obj"
| "dense_cmd P (D_addNoreplaceNew k) s H = bindE (dense_addNoreplaceNew P k s H) dense_obj"
| "dense_cmd P (D_findOrNew k) s H = bindE (dense_findOrNew P k s H) dense_obj"
| "dense_cmd P (D_addNoreplace k d) s H = bindE (dense_addNoreplace P k d s H) (\<lambda>(b, x). Inr (D_bool b, x))"
| "dense_cmd P (D_remove k) s H = bindE (dense_remove P k s H) (\<lambda>(b, x). Inr (D_bool b, x))"
| "dense_cmd P (D_remove_fill k fill) s H = bindE (dense_remove_fill P k fill s H) (\<lambda>((b, e), x). Inr (D_both b e, x))"
| "dense_cmd P (D_find k) s H = bindE (dense_find P k s H) dense_obj"
| "dense_cmd P (D_find_fill k fill) s H = bindE (dense_find_fill P k fill s H) (\<lambda>((b, e), x). Inr (D_both b e, x))"
| "dense_cmd P D_removeAll s H = bindE (dense_removeAll P s H) (\<lambda>(b, x). Inr (D_bool b, x))"

fun dense_run :: "('k, 'd) dparams \<Rightarrow> ('k, 'd) dcmd list \<Rightarrow> dense \<Rightarrow> ('k, 'd) dheap \<Rightarrow> ('d dans list \<times> dense \<times> ('k, 'd) dheap) res" where
  "dense_run P [] s H = Inr ([], s, H)"
| "dense_run P (c # cs) s H = bindE (dense_cmd P c s H) (\<lambda>(a, s, H). bindE (dense_run P cs s H) (\<lambda>(as, x). Inr (a # as, x)))"

text \<open>The same calls on a map. \<open>addNoreplace\<close> stores a default object, not the one it is given.\<close>

fun dmap_cmd :: "('k, 'd) dparams \<Rightarrow> ('k, 'd) dcmd \<Rightarrow> ('k \<Rightarrow> 'd option) \<Rightarrow> 'd dans \<times> ('k \<Rightarrow> 'd option)" where
  "dmap_cmd P (D_addReplace k d) M = (D_bool True, dmap_upd P k (Some d) M)"
| "dmap_cmd P (D_addReplace_old k d old) M = (D_both True (case M k of None \<Rightarrow> old | Some e \<Rightarrow> e), dmap_upd P k (Some d) M)"
| "dmap_cmd P (D_addReplaceNew k) M = (D_obj (Some (dp_new P)), dmap_upd P k (Some (dp_new P)) M)"
| "dmap_cmd P (D_addNoreplaceNew k) M =
     (D_obj (if M k = None then Some (dp_new P) else None), if M k = None then dmap_upd P k (Some (dp_new P)) M else M)"
| "dmap_cmd P (D_findOrNew k) M = 
     (D_obj (Some (case M k of None \<Rightarrow> dp_new P | Some d \<Rightarrow> d)), if M k = None then dmap_upd P k (Some (dp_new P)) M else M)"
| "dmap_cmd P (D_addNoreplace k d) M = (D_bool (M k = None), if M k = None then dmap_upd P k (Some (dp_new P)) M else M)"
| "dmap_cmd P (D_remove k) M = (D_bool (M k \<noteq> None), dmap_upd P k None M)"
| "dmap_cmd P (D_remove_fill k fill) M = (case M k of None \<Rightarrow> D_both False fill | Some d \<Rightarrow> D_both True d, dmap_upd P k None M)"
| "dmap_cmd P (D_find k) M = (D_obj (M k), M)"
| "dmap_cmd P (D_find_fill k fill) M = (case M k of None \<Rightarrow> D_both False fill | Some d \<Rightarrow> D_both True d, M)"
| "dmap_cmd P D_removeAll M = (D_bool True, \<lambda>_. None)"

fun dmap_run :: "('k, 'd) dparams \<Rightarrow> ('k, 'd) dcmd list \<Rightarrow> ('k \<Rightarrow> 'd option) \<Rightarrow> 'd dans list \<times> ('k \<Rightarrow> 'd option)" where
  "dmap_run P [] M = ([], M)"
| "dmap_run P (c # cs) M = (case dmap_cmd P c M of (a, M) \<Rightarrow> case dmap_run P cs M of (as, M) \<Rightarrow> (a # as, M))"

text \<open>No call adds one of the two reserved keys; and a search needs a mutex that may be released when it is free.\<close>

fun dcmd_ok :: "('k, 'd) dparams \<Rightarrow> 'k \<Rightarrow> 'k \<Rightarrow> ('k, 'd) dcmd \<Rightarrow> bool" where
  "dcmd_ok P ek dk (D_find k) = (dp_release P False = Inr False)"
| "dcmd_ok P ek dk (D_find_fill k fill) = (dp_release P False = Inr False)"
| "dcmd_ok P ek dk (D_remove k) = True"
| "dcmd_ok P ek dk (D_remove_fill k fill) = True"
| "dcmd_ok P ek dk D_removeAll = True"
| "dcmd_ok P ek dk (D_addReplace k d) = (\<not> dp_eq P ek k \<and> \<not> dp_eq P dk k)"
| "dcmd_ok P ek dk (D_addReplace_old k d old) = (\<not> dp_eq P ek k \<and> \<not> dp_eq P dk k)"
| "dcmd_ok P ek dk (D_addReplaceNew k) = (\<not> dp_eq P ek k \<and> \<not> dp_eq P dk k)"
| "dcmd_ok P ek dk (D_addNoreplaceNew k) = (\<not> dp_eq P ek k \<and> \<not> dp_eq P dk k)"
| "dcmd_ok P ek dk (D_findOrNew k) = (\<not> dp_eq P ek k \<and> \<not> dp_eq P dk k)"
| "dcmd_ok P ek dk (D_addNoreplace k d) = (\<not> dp_eq P ek k \<and> \<not> dp_eq P dk k)"

lemma gives_cmd:
  assumes "dense_gives P ek dk F n x R M" and "\<And>r s H. R r H \<Longrightarrow> g (r, s, H) = Inr (a, s, H)" and "m \<le> n"
  shows "dense_gives P ek dk F m (bindE x g) (\<lambda>r _. r = a) M"
  using assms by (auto simp: dense_gives_def holds_iff split: prod.splits)

lemma dense_obj_ok: "read_data v H = Inr d \<Longrightarrow> dense_obj (v, s, H) = Inr (D_obj (Some d), s, H)"
  by (cases "v = NULL") (simp_all add: dense_obj_def read_data_def)

lemma dense_obj_null: "dense_obj (NULL, s, H) = Inr (D_obj None, s, H)"
  by (simp add: dense_obj_def)

context dense_locked begin

lemma cmd_ok:
  assumes r: "dense_rep P ek dk F s H T" and m: "maps (dp_eq P) T M" and s: "\<not> dh_lock s" and h: "1 < room H" and c: "dcmd_ok P ek dk c"
  shows "dense_gives P ek dk F (room H - 2) (dense_cmd P c s H) (\<lambda>r _. r = fst (dmap_cmd P c M)) (snd (dmap_cmd P c M))"
proof (cases c)
  case (D_addReplace k d)
  show ?thesis unfolding D_addReplace dense_cmd.simps dmap_cmd.simps fst_conv snd_conv
    by (rule gives_cmd [OF addReplace_ok [OF r m s h]]) (use c in \<open>auto simp: D_addReplace dense_obj_ok dense_obj_null split: option.splits if_splits\<close>)
next
  case (D_addReplace_old k d old)
  show ?thesis unfolding D_addReplace_old dense_cmd.simps dmap_cmd.simps fst_conv snd_conv
    by (rule gives_cmd [OF addReplace_old_ok [OF r m s h]]) (use c in \<open>auto simp: D_addReplace_old dense_obj_ok dense_obj_null split: option.splits if_splits\<close>)
next
  case (D_addReplaceNew k)
  show ?thesis unfolding D_addReplaceNew dense_cmd.simps dmap_cmd.simps fst_conv snd_conv
    by (rule gives_cmd [OF addReplaceNew_ok [OF r m s h]]) (use c in \<open>auto simp: D_addReplaceNew dense_obj_ok dense_obj_null split: option.splits if_splits\<close>)
next
  case (D_addNoreplaceNew k)
  show ?thesis unfolding D_addNoreplaceNew dense_cmd.simps dmap_cmd.simps fst_conv snd_conv
    by (rule gives_cmd [OF addNoreplaceNew_ok [OF r m s h]]) (use c in \<open>auto simp: D_addNoreplaceNew dense_obj_ok dense_obj_null split: option.splits if_splits\<close>)
next
  case (D_findOrNew k)
  show ?thesis unfolding D_findOrNew dense_cmd.simps dmap_cmd.simps fst_conv snd_conv
    by (rule gives_cmd [OF findOrNew_ok [OF r m s h]]) (use c in \<open>auto simp: D_findOrNew dense_obj_ok dense_obj_null split: option.splits if_splits\<close>)
next
  case (D_addNoreplace k d)
  show ?thesis unfolding D_addNoreplace dense_cmd.simps dmap_cmd.simps fst_conv snd_conv
    by (rule gives_cmd [OF addNoreplace_ok [OF r m s h]]) (use c in \<open>auto simp: D_addNoreplace dense_obj_ok dense_obj_null split: option.splits if_splits\<close>)
next
  case (D_remove k)
  show ?thesis unfolding D_remove dense_cmd.simps dmap_cmd.simps fst_conv snd_conv
    by (rule gives_cmd [OF remove_ok' [OF r m s]]) (use c in \<open>auto simp: D_remove dense_obj_ok dense_obj_null split: option.splits if_splits\<close>)
next
  case (D_remove_fill k fill)
  show ?thesis unfolding D_remove_fill dense_cmd.simps dmap_cmd.simps fst_conv snd_conv
    by (rule gives_cmd [OF remove_fill_ok [OF r m s]]) (use c in \<open>auto simp: D_remove_fill dense_obj_ok dense_obj_null split: option.splits if_splits\<close>)
next
  case (D_find k)
  show ?thesis unfolding D_find dense_cmd.simps dmap_cmd.simps fst_conv snd_conv
    by (rule gives_cmd [OF find_ok [OF r m s]]) (use c in \<open>auto simp: D_find dense_obj_ok dense_obj_null split: option.splits if_splits\<close>)
next
  case (D_find_fill k fill)
  show ?thesis unfolding D_find_fill dense_cmd.simps dmap_cmd.simps fst_conv snd_conv
    by (rule gives_cmd [OF find_fill_ok [OF r m s]]) (use c in \<open>auto simp: D_find_fill dense_obj_ok dense_obj_null split: option.splits if_splits\<close>)
next
  case D_removeAll
  obtain s' H' where a: "dense_removeAll P s H = Inr (True, s', H')" "dense_rep P ek dk F s' H' {}" "\<not> dh_lock s'" "room H \<le> room H'"
    by (rule removeAll_ok [OF r s])
  then have "dense_gives P ek dk F (room H - 2) (dense_cmd P c s H) (\<lambda>r _. r = D_bool True) (\<lambda>_. None)"
    using D_removeAll by (auto simp: dense_gives_def maps_def)
  then show ?thesis by (simp add: D_removeAll)
qed

lemma run_ok:
  "dense_rep P ek dk F s H T \<Longrightarrow> maps (dp_eq P) T M \<Longrightarrow> \<not> dh_lock s \<Longrightarrow> 2 * length cs \<le> room H \<Longrightarrow> \<forall>c \<in> set cs. dcmd_ok P ek dk c
    \<Longrightarrow> dense_gives P ek dk F 0 (dense_run P cs s H) (\<lambda>r _. r = fst (dmap_run P cs M)) (snd (dmap_run P cs M))"
proof (induction cs arbitrary: s H T M)
  case Nil
  then show ?case by (auto simp: dense_gives_def)
next
  case (Cons c cs)
  have "1 < room H" "dcmd_ok P ek dk c" using Cons.prems by auto
  from cmd_ok [OF Cons.prems(1-3) this] obtain s' H' T' where c: "dense_cmd P c s H = Inr (fst (dmap_cmd P c M), s', H')"
    "\<not> dh_lock s'" "room H - 2 \<le> room H'" "dense_rep P ek dk F s' H' T'" "maps (dp_eq P) T' (snd (dmap_cmd P c M))"
    by (auto simp: dense_gives_def holds_iff)
  have "2 * length cs \<le> room H'" using c(3) Cons.prems(4) by simp
  from Cons.IH [OF c(4,5,2) this] Cons.prems(5) have
    "dense_gives P ek dk F 0 (dense_run P cs s' H') (\<lambda>r _. r = fst (dmap_run P cs (snd (dmap_cmd P c M)))) (snd (dmap_run P cs (snd (dmap_cmd P c M))))"
    by simp
  then show ?case using c(1) by (auto simp: dense_gives_def holds_iff split: prod.splits)
qed

lemma new_ok:
  assumes "1 < room H" and "ek \<noteq> dk"
  obtains s H' where "dense_new P dk ek 0 H = Inr (s, H')" "dense_rep P ek dk (live H) s H' {}" "\<not> dh_lock s" "room H' = room H - 2"
proof -
  let ?H1 = "new_obj (KeyObj ek) H"
  let ?H2 = "new_obj (KeyObj dk) ?H1"
  let ?s = "\<lparr>dh_slots = [], dh_lock = False, dh_iters = 0, dh_empty = Suc (heap_size H), dh_deleted = Suc (Suc (heap_size H))\<rparr>"
  have new: "dense_new P dk ek 0 H = Inr (?s, ?H2)" using assms(1) by (simp add: dense_new_def new_cell_ok)
  have nl: "Suc (heap_size H) \<notin> live H" "Suc (Suc (heap_size H)) \<notin> live H" by (simp_all add: live_iff cell_at_def)
  have "live ?H2 = live H \<union> {Suc (heap_size H), Suc (Suc (heap_size H))}" by (auto simp: live_new)
  then have rep: "dense_rep P ek dk (live H) ?s ?H2 {}"
    using nl assms(2) unfolding dense_rep_def by (simp add: cells_ok_def apart_entries_def cell_at_new pairs_def)
  show ?thesis by (rule that [OF new rep]) simp_all
qed

end

lemma rep_reserved: "dense_rep P ek dk F s H T \<Longrightarrow> dh_deleted s \<notin> F"
  by (auto simp: dense_rep_def)

section \<open>A table of numbers\<close>

text \<open>Compared with \<^verbatim>\<open>eqstr_numericP\<close>; the container moves its pairs together when it grows or shrinks.\<close>

definition numeric_table :: "(bool \<Rightarrow> bool res) \<Rightarrow> (bool \<Rightarrow> bool res) \<Rightarrow> (nat, nat) dparams" where
  "numeric_table acquire release = \<lparr>dp_eq = eqstr_numericP, dp_acquire = acquire, dp_release = release, dp_arrange = \<lambda>_. filter (\<lambda>x. x \<noteq> None), dp_new = 0\<rparr>"

interpretation numeric: dense_table "numeric_table a r" for a r
  by unfold_locales (auto simp: numeric_table_def eqstr_numericP_def)

interpretation numeric_mutex: dense_locked "numeric_table mutex_lock mutex_unlock" True
  by unfold_locales (auto simp: numeric_table_def)

interpretation numeric_nomutex: dense_locked "numeric_table Inr Inr" False
  by unfold_locales (auto simp: numeric_table_def)

section \<open>Properties\<close>

text \<open>The table holds the map \<open>M\<close>.\<close>

definition dense_holds :: "('k, 'd) dparams \<Rightarrow> 'k \<Rightarrow> 'k \<Rightarrow> ptr set \<Rightarrow> dense \<Rightarrow> ('k, 'd) dheap \<Rightarrow> ('k \<Rightarrow> 'd option) \<Rightarrow> bool" where
  "dense_holds P ek dk F s H M \<longleftrightarrow> (\<exists>T. dense_rep P ek dk F s H T \<and> maps (dp_eq P) T M)"

lemma new_holds:
  assumes "dense_locked P held" and "dense_new P dk ek 0 H = Inr (s, H')" and "1 < room H" and "ek \<noteq> dk"
  shows "dense_holds P ek dk (live H) s H' (\<lambda>_. None)" "\<not> dh_lock s"
proof -
  obtain s1 H1 where "dense_new P dk ek 0 H = Inr (s1, H1)" "dense_rep P ek dk (live H) s1 H1 {}" "\<not> dh_lock s1" "room H1 = room H - 2"
    by (rule dense_locked.new_ok [OF assms(1,3,4)])
  moreover have "maps (dp_eq P) {} (\<lambda>_. None)" by (simp add: maps_def)
  ultimately show "dense_holds P ek dk (live H) s H' (\<lambda>_. None)" "\<not> dh_lock s" using assms(2) by (auto simp: dense_holds_def)
qed

text \<open>C30. A TWDenseHash that is built without a number of items (\<open>items = 0\<close>; with another number the constructor calls the
  container before its reserved keys are set) holds a map, \<open>dmap_cmd\<close>, in which \<open>addNoreplace\<close> and the operations with New in their
  names store a default object, also \<open>addNoreplace\<close>, which is given one. For every sequence of calls each returns what the call on the map
  returns; the iterator then finds every key once, with its object; and the destructor gives all the memory
  back, but for the copy of the key for erased slots. Hypotheses: the two reserved keys differ and no call adds one of them;
  every allocation succeeds; and the sequence has the two searches only with a mutex that may be unlocked when it is free, such as none at all:
  with TW_Mutex the theorem is about the sequences without searches.\<close>
theorem dense_is_a_map:
  assumes "dense_locked P held" and "\<forall>c \<in> set cs. dcmd_ok P ek dk c" and "2 * length cs + 2 \<le> room H" and "ek \<noteq> dk"
  shows "holds (bindE (dense_new P dk ek 0 H) (\<lambda>(s, H). dense_run P cs s H)) (\<lambda>(as, s, H').
    as = fst (dmap_run P cs (\<lambda>_. None))
    \<and> holds (dense_walk P s H') (\<lambda>(l, _). int (length l) = dense_size s \<and> sorted_wrt (\<lambda>x y. \<not> dp_eq P (fst x) (fst y)) l
        \<and> (\<forall>key d. snd (dmap_run P cs (\<lambda>_. None)) key = Some d \<longleftrightarrow> (\<exists>k. (k, d) \<in> set l \<and> dp_eq P k key)))
    \<and> holds (dense_destroy P s H') (\<lambda>H''. live H'' = insert (dh_deleted s) (live H)) \<and> dh_deleted s \<notin> live H)"
proof -
  have 1: "1 < room H" using assms(3) by simp
  obtain s H1 where n: "dense_new P dk ek 0 H = Inr (s, H1)" "dense_rep P ek dk (live H) s H1 {}" "\<not> dh_lock s" "room H1 = room H - 2"
    by (rule dense_locked.new_ok [OF assms(1) 1 assms(4)])
  have "maps (dp_eq P) {} (\<lambda>_. None)" "2 * length cs \<le> room H1" using assms(3) n(4) by (simp_all add: maps_def)
  from dense_locked.run_ok [OF assms(1) n(2) this(1) n(3) this(2) assms(2)]
  obtain s' H' T where r: "dense_run P cs s H1 = Inr (fst (dmap_run P cs (\<lambda>_. None)), s', H')" "\<not> dh_lock s'"
    "dense_rep P ek dk (live H) s' H' T" "maps (dp_eq P) T (snd (dmap_run P cs (\<lambda>_. None)))"
    by (auto simp: dense_gives_def holds_iff)
  show ?thesis
    using n(1) r(1) dense_locked.walk_ok [OF assms(1) r(3,4,2)] dense_locked.destroy_ok [OF assms(1) r(3,2)] rep_reserved [OF r(3)] assms(4) by simp
qed

theorem dense_is_a_map_witness:
  "holds (bindE (dense_new (numeric_table Inr Inr) 98 99 0 (empty_heap 30)) (\<lambda>(s, H).
      dense_run (numeric_table Inr Inr) [D_addReplace 1 7, D_addNoreplace 1 8, D_addNoreplace 2 8, D_addReplace_old 1 9 0, D_find 1, D_remove 1, D_find 1, D_findOrNew 3, D_find_fill 2 5] s H))
    (\<lambda>(as, s, H'). as = [D_bool True, D_bool False, D_bool True, D_both True 7, D_obj (Some 9), D_bool True, D_obj None, D_obj (Some 0), D_both True 0]
      \<and> holds (dense_destroy (numeric_table Inr Inr) s H') (\<lambda>H''. live H'' = {dh_deleted s}))"
proof -
  let ?P = "numeric_table Inr Inr"
  let ?cs = "[D_addReplace 1 7, D_addNoreplace 1 8, D_addNoreplace 2 8, D_addReplace_old 1 9 0, D_find 1, D_remove 1, D_find 1, D_findOrNew 3, D_find_fill 2 5]"
  have c: "\<forall>c \<in> set ?cs. dcmd_ok ?P 99 98 c" by (simp add: numeric_table_def eqstr_numericP_def)
  have r: "2 * length ?cs + 2 \<le> room (empty_heap 30)" by (simp add: empty_heap_def)
  have ne: "(99 :: nat) \<noteq> 98" by simp
  have v: "fst (dmap_run ?P ?cs (\<lambda>_. None)) = [D_bool True, D_bool False, D_bool True, D_both True 7, D_obj (Some 9), D_bool True, D_obj None, D_obj (Some 0), D_both True 0]"
    by (simp add: numeric_table_def eqstr_numericP_def dmap_upd_def)
  from dense_is_a_map [OF numeric_nomutex.dense_locked_axioms c r ne] show ?thesis unfolding v by (rule holds_mono) auto
qed

text \<open>C33. The searches of a TWDenseHash release a lock that they have not acquired. On a table that nobody has locked,
  \<open>find\<close> unlocks a mutex that is free, which is undefined for a TW_Mutex. While another operation is inside,
  \<open>find\<close> takes its lock away, and the next operation goes in beside it.\<close>
theorem dense_find_unlocks:
  assumes "dense_table P" and "dp_acquire P = mutex_lock" and "dp_release P = mutex_unlock" and "dense_holds P ek dk F s H M"
  shows "if dh_lock s
    then holds (dense_find P key s H) (\<lambda>(_, s', _). dense_enter P s' = Inr s) \<and> dense_enter P s = Inl SelfDeadlock
    else dense_find P key s H = Inl NotLocked \<and> dense_find_fill P key fill s H = Inl NotLocked"
proof -
  obtain T where r: "dense_rep P ek dk F s H T" "maps (dp_eq P) T M" using assms(4) by (auto simp: dense_holds_def)
  obtain it where it: "dm_find P key s H = Inr it" "found P T key s it" by (rule dense_table.find_found [OF assms(1) r])
  show ?thesis
    using it assms(2,3)
    by (cases it) (auto simp: dense_find_def dense_find_fill_def dense_leave_def dense_enter_def found_def dm_slot_def)
qed

theorem dense_find_unlocks_witness:
  "\<exists>s H. dense_new (numeric_table mutex_lock mutex_unlock) 98 99 0 (empty_heap 9) = Inr (s, H)
    \<and> dense_find (numeric_table mutex_lock mutex_unlock) 7 s H = Inl NotLocked"
proof -
  let ?P = "numeric_table mutex_lock mutex_unlock"
  have ne: "(99 :: nat) \<noteq> 98" by simp
  have h: "1 < room (empty_heap 9)" by (simp add: empty_heap_def)
  obtain s H where n: "dense_new ?P 98 99 0 (empty_heap 9) = Inr (s, H)" by (rule numeric_mutex.new_ok [OF h ne])
  note ok = new_holds [OF numeric_mutex.dense_locked_axioms n h ne]
  show ?thesis
    using dense_find_unlocks [OF numeric.dense_table_axioms _ _ ok(1), of 7] ok(2) n by (auto simp: numeric_table_def)
qed

text \<open>A search on a table whose lock is held leaves it free.\<close>

lemma dense_find_frees:
  assumes "dense_table P" and "dp_release P = mutex_unlock" and r: "dense_rep P ek dk F s H T" "maps (dp_eq P) T M" and l: "dh_lock s"
  shows "holds (dense_find P key s H) (\<lambda>(_, s', H'). s' = s\<lparr>dh_lock := False\<rparr> \<and> H' = H)"
    and "holds (dense_find_fill P key fill s H) (\<lambda>(_, s', H'). s' = s\<lparr>dh_lock := False\<rparr> \<and> H' = H)"
proof -
  have r': "dense_rep P ek dk F (s\<lparr>dh_lock := False\<rparr>) H T" using r(1) by (simp add: dense_rep_more)
  obtain it where it: "dm_find P key s H = Inr it" "found P T key s it" by (rule dense_table.find_found [OF assms(1) r])
  show "holds (dense_find P key s H) (\<lambda>(_, s', H'). s' = s\<lparr>dh_lock := False\<rparr> \<and> H' = H)"
    using it assms(2) l by (cases it) (auto simp: dense_find_def dense_leave_def found_def dm_slot_def)
  show "holds (dense_find_fill P key fill s H) (\<lambda>(_, s', H'). s' = s\<lparr>dh_lock := False\<rparr> \<and> H' = H)"
    using it assms(2) l rep_cell [OF r(1)]
    by (cases it) (auto simp: dense_find_fill_def dense_leave_def found_def dm_slot_def read_data_def)
qed

text \<open>All operations that take the lock, on a table and a memory, wait for a lock that their own thread holds.\<close>

definition dense_stuck :: "('k, 'd) dparams \<Rightarrow> dense \<Rightarrow> ('k, 'd) dheap \<Rightarrow> bool" where
  "dense_stuck P s H \<longleftrightarrow> (\<forall>k d e.
     dense_addReplace P k d s H = Inl SelfDeadlock \<and> dense_addReplace_old P k d e s H = Inl SelfDeadlock
     \<and> dense_addReplaceNew P k s H = Inl SelfDeadlock \<and> dense_addNoreplaceNew P k s H = Inl SelfDeadlock
     \<and> dense_findOrNew P k s H = Inl SelfDeadlock \<and> dense_addNoreplace P k d s H = Inl SelfDeadlock
     \<and> dense_remove P k s H = Inl SelfDeadlock \<and> dense_remove_fill P k d s H = Inl SelfDeadlock
     \<and> dense_removeAll P s H = Inl SelfDeadlock \<and> dense_destroy P s H = Inl SelfDeadlock
     \<and> dense_gotoStart P s H = Inl SelfDeadlock \<and> dense_releaseIter P s H = Inl SelfDeadlock)"

lemma kept_lock_stuck: "dp_acquire P = mutex_lock \<Longrightarrow> dh_lock s \<Longrightarrow> dense_stuck P s H"
  by (simp add: dense_stuck_def dense_addReplace_def dense_addReplace_old_def dense_addReplaceNew_def dense_addNoreplaceNew_def
    dense_findOrNew_def dense_addNoreplace_def dense_remove_def dense_remove_fill_def dense_removeAll_def dense_destroy_def
    dense_gotoStart_def dense_releaseIter_def dense_enter_def)

text \<open>C32. Without memory for a new pair, \<open>addReplace\<close> returns false and keeps the lock of its TW_Mutex. Its thread then waits for good in
  every operation that takes the lock, all but the two searches. A search does not take the lock and gives it away: after it the table
  is free and the operations go on. The copy of the object that \<open>addReplace\<close> has made, if there was memory for that, is lost. The map is as it was.\<close>
theorem dense_failure_keeps_lock:
  assumes "dense_table P" and "dp_acquire P = mutex_lock" and "dp_release P = mutex_unlock"
    and "dense_holds P ek dk F s H M" and "\<not> dh_lock s" and "M key = None" and "room H < 2"
  shows "holds (dense_addReplace P key d s H) (\<lambda>(ok, s', H'). \<not> ok
    \<and> card (live H') = card (live H) + room H \<and> dense_holds P ek dk (F \<union> (live H' - live H)) s' H' M
    \<and> dense_stuck P s' H'
    \<and> holds (dense_find P key' s' H') (\<lambda>(_, s'', H''). s'' = s \<and> H'' = H')
    \<and> holds (dense_find_fill P key' d' s' H') (\<lambda>(_, s'', H''). s'' = s \<and> H'' = H'))"
proof -
  obtain T where r: "dense_rep P ek dk F s H T" "maps (dp_eq P) T M" using assms(4) by (auto simp: dense_holds_def)
  let ?s = "s\<lparr>dh_lock := True\<rparr>"
  have e: "dense_enter P s = Inr ?s" using assms(2,5) by (simp add: dense_enter_def)
  have r': "dense_rep P ek dk F ?s H T" using r(1) by (simp add: dense_rep_more)
  obtain it where it: "dm_find P key ?s H = Inr it" "it = None \<longleftrightarrow> M key = None" by (rule dense_table.find_found [OF assms(1) r' r(2)])
  have free: "s\<lparr>dh_lock := False\<rparr> = s" using assms(5) by (cases s) simp
  have stuck: "dense_stuck P ?s H'" for H' using assms(2) by (simp add: kept_lock_stuck)
  have freed: "holds (dense_find P key' ?s H') (\<lambda>(_, s'', H''). s'' = s \<and> H'' = H')"
    "holds (dense_find_fill P key' d' ?s H') (\<lambda>(_, s'', H''). s'' = s \<and> H'' = H')"
    if "dense_rep P ek dk F' ?s H' T" for F' H'
    using dense_find_frees [OF assms(1,3) that r(2)] by (simp_all add: free)
  show ?thesis
  proof (cases "room H = 0")
    case True
    then have "dense_addReplace P key d s H = Inr (False, ?s, H)" using e it by (simp add: dense_addReplace_def new_cell_def malloc_fails)
    then show ?thesis using True r' r(2) stuck freed [OF r'] by (auto simp: dense_holds_def)
  next
    case False
    let ?H = "new_obj (DataObj d) H"
    have "0 < room H" using False by simp
    from rep_new [OF r' this, of "DataObj d"] obtain v where v: "new_cell (DataObj d) H = Inr (v, ?H)" "v \<noteq> NULL" "v \<notin> live H"
      "dense_rep P ek dk (insert v F) ?s ?H T" by metis
    have "v = Suc (heap_size H)" using v(1) new_cell_ok [OF \<open>0 < room H\<close>, of "DataObj d"] by simp
    then have l: "live ?H = insert v (live H)" by (simp add: live_new)
    have "room ?H = 0" "room H = 1" using assms(7) False by simp_all
    then have "dense_addReplace P key d s H = Inr (False, ?s, ?H)"
      using e it v(1,2) assms(6) by (simp add: dense_addReplace_def dense_pair_def new_cell_def malloc_fails)
    moreover have "insert v (live H) - live H = {v}" using v(3) by blast
    ultimately show ?thesis using \<open>room H = 1\<close> v(3,4) r(2) stuck freed [OF v(4)] by (auto simp: dense_holds_def l)
  qed
qed

theorem dense_failure_keeps_lock_witness:
  "\<exists>s H. dense_new (numeric_table mutex_lock mutex_unlock) 98 99 0 (empty_heap 3) = Inr (s, H)
    \<and> holds (dense_addReplace (numeric_table mutex_lock mutex_unlock) 7 8 s H) (\<lambda>(ok, s', H'). \<not> ok
       \<and> card (live H') = card (live H) + 1 \<and> dense_remove (numeric_table mutex_lock mutex_unlock) 7 s' H' = Inl SelfDeadlock
       \<and> holds (dense_find (numeric_table mutex_lock mutex_unlock) 7 s' H') (\<lambda>(_, s'', _). \<not> dh_lock s''))"
proof -
  let ?P = "numeric_table mutex_lock mutex_unlock"
  have ne: "(99 :: nat) \<noteq> 98" by simp
  have h: "1 < room (empty_heap 3)" by (simp add: empty_heap_def)
  obtain s H where n: "dense_new ?P 98 99 0 (empty_heap 3) = Inr (s, H)" "room H = room (empty_heap 3 :: (nat, nat) dheap) - 2"
    by (rule numeric_mutex.new_ok [OF h ne])
  note ok = new_holds [OF numeric_mutex.dense_locked_axioms n(1) h ne]
  have room: "room H = 1" using n(2) by (simp add: empty_heap_def)
  have P: "dp_acquire ?P = mutex_lock" "dp_release ?P = mutex_unlock" by (simp_all add: numeric_table_def)
  have "holds (dense_addReplace ?P 7 8 s H) (\<lambda>(ok, s', H'). \<not> ok \<and> card (live H') = card (live H) + 1
      \<and> dense_remove ?P 7 s' H' = Inl SelfDeadlock \<and> holds (dense_find ?P 7 s' H') (\<lambda>(_, s'', _). \<not> dh_lock s''))"
    by (rule holds_mono [OF dense_failure_keeps_lock [OF numeric.dense_table_axioms P ok refl, of 7 8 7 8]])
      (use room ok(2) in \<open>auto simp: dense_stuck_def elim: holds_mono\<close>)
  then show ?thesis using n(1) by blast
qed

end
