(* ===== verification/TW_SparseHash.thy ===== *)
theory TW_SparseHash
  imports TW_DenseHash
begin

text \<open>
  TWSparseHash of include/TW/tw_sparsehash.h: the map of TW_DenseHash over the container \<^verbatim>\<open>sparse_hash_map\<close>, which has
  one reserved key, for erased slots. The state is that of a TWDenseHash, with \<^verbatim>\<open>_emptykey\<close> as the key for erased slots.
  Most of the code is that of tw_densehash.h word for word; there the definition is the same. \<open>conv\<close> builds a
  key from an object, as the call \<^verbatim>\<open>KEY(dat)\<close> does.
\<close>

definition sparse_new :: "('k, 'd) dparams \<Rightarrow> 'k \<Rightarrow> int \<Rightarrow> ('k, 'd) dheap \<Rightarrow> (dense \<times> ('k, 'd) dheap) res" where
  "sparse_new P emptykey items H =
     (let xs = if items \<noteq> 0 then dp_arrange P H [] else [] in
      bindE (new_cell (KeyObj emptykey) H) (\<lambda>(e, H).
      Inr (\<lparr>dh_slots = xs, dh_lock = False, dh_iters = 0, dh_empty = e, dh_deleted = e\<rparr>, H)))"

definition sparse_addReplace :: "('k, 'd) dparams \<Rightarrow> 'k \<Rightarrow> 'd \<Rightarrow> dense \<Rightarrow> ('k, 'd) dheap \<Rightarrow> (bool \<times> dense \<times> ('k, 'd) dheap) res" where
  "sparse_addReplace = dense_addReplace"

text \<open>The new key is a copy of the object, not of the key.\<close>

definition sparse_addReplace_old :: "('k, 'd) dparams \<Rightarrow> ('d \<Rightarrow> 'k) \<Rightarrow> 'k \<Rightarrow> 'd \<Rightarrow> 'd \<Rightarrow> dense \<Rightarrow> ('k, 'd) dheap
    \<Rightarrow> ((bool \<times> 'd) \<times> dense \<times> ('k, 'd) dheap) res" where
  "sparse_addReplace_old P conv key dat olddat s H =
     bindE (dense_enter P s) (\<lambda>s.
     bindE (dm_find P key s H) (\<lambda>it.
     bindE (new_cell (DataObj dat) H) (\<lambda>(v, H).
     if v = NULL then Inr ((False, olddat), s, H)
     else case it of
       None \<Rightarrow> dense_pair P (conv dat) v (False, olddat) (True, olddat) s H
     | Some i \<Rightarrow>
         bindE (dm_slot i s) (\<lambda>(_, old).
         bindE (read_data old H) (\<lambda>olddat.
         bindE (delete_cell old H) (\<lambda>H.
         bindE (dm_set_second i v s) (\<lambda>s. dense_leave P (True, olddat) s H)))))))"

definition sparse_addReplaceNew :: "('k, 'd) dparams \<Rightarrow> 'k \<Rightarrow> dense \<Rightarrow> ('k, 'd) dheap \<Rightarrow> (ptr \<times> dense \<times> ('k, 'd) dheap) res" where
  "sparse_addReplaceNew = dense_addReplaceNew"

definition sparse_addNoreplaceNew :: "('k, 'd) dparams \<Rightarrow> 'k \<Rightarrow> dense \<Rightarrow> ('k, 'd) dheap \<Rightarrow> (ptr \<times> dense \<times> ('k, 'd) dheap) res" where
  "sparse_addNoreplaceNew P key s H =
     bindE (dense_enter P s) (\<lambda>s.
     bindE (dm_find P key s H) (\<lambda>it. case it of
       None \<Rightarrow>
         bindE (new_cell (DataObj (dp_new P)) H) (\<lambda>(v, H).
         if v = NULL then Inr (NULL, s, H) else dense_pair P key v NULL v s H)
     | Some i \<Rightarrow> dense_leave P NULL s H))"

definition sparse_findOrNew :: "('k, 'd) dparams \<Rightarrow> 'k \<Rightarrow> dense \<Rightarrow> ('k, 'd) dheap \<Rightarrow> (ptr \<times> dense \<times> ('k, 'd) dheap) res" where
  "sparse_findOrNew = dense_findOrNew"

definition sparse_addNoreplace :: "('k, 'd) dparams \<Rightarrow> 'k \<Rightarrow> 'd \<Rightarrow> dense \<Rightarrow> ('k, 'd) dheap \<Rightarrow> (bool \<times> dense \<times> ('k, 'd) dheap) res" where
  "sparse_addNoreplace P key dat s H =
     bindE (dense_enter P s) (\<lambda>s.
     bindE (dm_find P key s H) (\<lambda>it. case it of
       None \<Rightarrow>
         bindE (new_cell (DataObj dat) H) (\<lambda>(v, H).
         if v = NULL then Inr (False, s, H) else dense_pair P key v False True s H)
     | Some i \<Rightarrow> dense_leave P False s H))"

definition sparse_remove_fill :: "('k, 'd) dparams \<Rightarrow> 'k \<Rightarrow> 'd \<Rightarrow> dense \<Rightarrow> ('k, 'd) dheap \<Rightarrow> ((bool \<times> 'd) \<times> dense \<times> ('k, 'd) dheap) res" where
  "sparse_remove_fill = dense_remove_fill"

definition sparse_remove :: "('k, 'd) dparams \<Rightarrow> 'k \<Rightarrow> dense \<Rightarrow> ('k, 'd) dheap \<Rightarrow> (bool \<times> dense \<times> ('k, 'd) dheap) res" where
  "sparse_remove = dense_remove"

definition sparse_find_fill :: "('k, 'd) dparams \<Rightarrow> 'k \<Rightarrow> 'd \<Rightarrow> dense \<Rightarrow> ('k, 'd) dheap \<Rightarrow> ((bool \<times> 'd) \<times> dense \<times> ('k, 'd) dheap) res" where
  "sparse_find_fill = dense_find_fill"

definition sparse_find :: "('k, 'd) dparams \<Rightarrow> 'k \<Rightarrow> dense \<Rightarrow> ('k, 'd) dheap \<Rightarrow> (ptr \<times> dense \<times> ('k, 'd) dheap) res" where
  "sparse_find = dense_find"

definition sparse_size :: "dense \<Rightarrow> int" where
  "sparse_size = dense_size"

definition sparse_removeAll :: "('k, 'd) dparams \<Rightarrow> dense \<Rightarrow> ('k, 'd) dheap \<Rightarrow> (bool \<times> dense \<times> ('k, 'd) dheap) res" where
  "sparse_removeAll = dense_removeAll"

definition sparse_destroy :: "('k, 'd) dparams \<Rightarrow> dense \<Rightarrow> ('k, 'd) dheap \<Rightarrow> ('k, 'd) dheap res" where
  "sparse_destroy = dense_destroy"

text \<open>The iterator has no \<^verbatim>\<open>release\<close> of its own.\<close>

definition sparse_gotoStart :: "('k, 'd) dparams \<Rightarrow> dense \<Rightarrow> ('k, 'd) dheap \<Rightarrow> (nat \<times> dense \<times> ('k, 'd) dheap) res" where
  "sparse_gotoStart = dense_gotoStart"

definition sparse_releaseIter :: "('k, 'd) dparams \<Rightarrow> dense \<Rightarrow> ('k, 'd) dheap \<Rightarrow> (unit \<times> dense \<times> ('k, 'd) dheap) res" where
  "sparse_releaseIter = dense_releaseIter"

definition siter_data :: "nat \<Rightarrow> dense \<Rightarrow> ptr res" where
  "siter_data = diter_data"

definition siter_key :: "nat \<Rightarrow> dense \<Rightarrow> ptr res" where
  "siter_key = diter_key"

definition siter_getNext :: "nat \<Rightarrow> dense \<Rightarrow> bool \<times> nat" where
  "siter_getNext = diter_getNext"

definition siter_atEnd :: "nat \<Rightarrow> dense \<Rightarrow> bool" where
  "siter_atEnd = diter_atEnd"

text \<open>The definitions that are those of TW_DenseHash.\<close>

lemmas sparse_same = sparse_addReplace_def sparse_addReplaceNew_def sparse_findOrNew_def sparse_remove_fill_def sparse_remove_def
  sparse_find_fill_def sparse_find_def sparse_size_def sparse_removeAll_def sparse_destroy_def sparse_gotoStart_def sparse_releaseIter_def
  siter_data_def siter_key_def siter_getNext_def siter_atEnd_def

end
