(* ===== verification/TW_SparseProps.thy ===== *)
theory TW_SparseProps
  imports TW_SparseHash TW_DenseProps
begin

text \<open>
  What a TWSparseHash promises.
\<close>

section \<open>Where the code differs\<close>

context dense_locked begin

text \<open>A pair whose key is there already: the table keeps the old key, and loses the new one and the old object.\<close>

lemma pair_present:
  assumes r: "dense_rep P ek dk (insert v F) s H T" and m: "maps (dp_eq P) T M" and v: "v \<notin> F" "cell_at H v = Obj (DataObj d)"
    and there: "M key \<noteq> None" and res: "\<not> dp_eq P ek key" "\<not> dp_eq P dk key" and h: "0 < room H" "dh_lock s = held"
    and R: "\<And>H. cell_at H v = Obj (DataObj d) \<Longrightarrow> R a H"
  shows "\<exists>F'. F \<subseteq> F' \<and> dense_gives P ek dk F' (room H - 1) (dense_pair P key v f a s H) R (dmap_upd P key (Some d) M)"
proof -
  let ?H = "new_obj (KeyObj key) H"
  obtain p where p: "new_cell (KeyObj key) H = Inr (p, ?H)" "p \<noteq> NULL" "p \<notin> insert v F" "cell_at ?H p = Obj (KeyObj key)" "p \<notin> live H"
    "dense_rep P ek dk (insert p (insert v F)) s ?H T" "room ?H = room H - 1" by (rule rep_new [OF r h(1)])
  have vl: "cell_at ?H v = Obj (DataObj d)" using v(2) cell_at_fresh [of H] by (auto simp: cell_at_new simp del: cell_at_fresh)
  from p(6) m show ?thesis
  proof (cases rule: rep_find [where key = key])
    case none
    then show ?thesis using there by simp
  next
    case (some i p' q' k' d')
    obtain s' where s': "dm_set_second i v s = Inr s'"
      "dense_rep P ek dk (insert q' (insert p (insert v F) - {v})) s' ?H (insert (p', v, k', d) (T - {(p', q', k', d')}))" "dh_lock s' = dh_lock s"
      by (rule rep_second [OF p(6) _ vl some(5,3,4)]) simp
    have rep: "dense_rep P ek dk (insert q' (insert p (insert v F) - {v})) (s'\<lparr>dh_lock := False\<rparr>) ?H (insert (p', v, k', d) (T - {(p', q', k', d')}))"
      using s'(2) by (simp add: dense_rep_more)
    have mp: "maps (dp_eq P) (insert (p', v, k', d) (T - {(p', q', k', d')})) (dmap_upd P key (Some d) M)"
      unfolding dmap_upd_def by (rule maps_replace [OF m _ some(5,6)]) (use r in \<open>simp add: dense_rep_def\<close>)
    have "dm_put P p v s ?H = Inr s'"
      using some(1) s'(1) p(4,6) res by (simp add: dm_put_def read_key_def dense_rep_def)
    then have eq: "dense_pair P key v f a s H = Inr (a, s'\<lparr>dh_lock := False\<rparr>, ?H)"
      using p(1,2) s'(3) h(2) by (simp add: dense_pair_def leave_ok)
    have sub: "F \<subseteq> insert q' (insert p (insert v F) - {v})" using v(1) by blast
    have "dense_gives P ek dk (insert q' (insert p (insert v F) - {v})) (room H - 1) (dense_pair P key v f a s H) R (dmap_upd P key (Some d) M)"
      using dense_givesI [where R = R, OF eq rep mp R [OF vl]] by simp
    from exI [where P = "\<lambda>F'. F \<subseteq> F' \<and> dense_gives P ek dk F' (room H - 1) (dense_pair P key v f a s H) R (dmap_upd P key (Some d) M)", OF conjI [OF sub this]]
    show ?thesis .
  qed
qed

lemma sparse_addReplace_old_ok:
  assumes r: "dense_rep P ek dk F s H T" and m: "maps (dp_eq P) T M" and s: "\<not> dh_lock s" "1 < room H"
    and res: "\<not> dp_eq P ek (conv d)" "\<not> dp_eq P dk (conv d)"
  shows "\<exists>F'. F \<subseteq> F' \<and> dense_gives P ek dk F' (room H - 2) (sparse_addReplace_old P conv key d old s H)
     (\<lambda>x _. x = (True, case M key of None \<Rightarrow> old | Some e \<Rightarrow> e))
     (case M key of None \<Rightarrow> dmap_upd P (conv d) (Some d) M | Some e \<Rightarrow> dmap_upd P key (Some d) M)"
proof -
  let ?s = "s\<lparr>dh_lock := held\<rparr>" and ?H = "new_obj (DataObj d) H" and ?R = "\<lambda>x _. x = (True, case M key of None \<Rightarrow> old | Some e \<Rightarrow> e)"
  have r': "dense_rep P ek dk F ?s H T" using r by (simp add: dense_rep_more)
  obtain v where v: "new_cell (DataObj d) H = Inr (v, ?H)" "v \<noteq> NULL" "v \<notin> F" "cell_at ?H v = Obj (DataObj d)" "v \<notin> live H"
    "dense_rep P ek dk (insert v F) ?s ?H T" "room ?H = room H - 1" using rep_new [OF r', of "DataObj d"] s(2) by auto
  have room: "0 < room ?H" "room ?H - 1 = room H - 2" using v(7) s(2) by simp_all
  from r' m show ?thesis
  proof (cases rule: rep_find [where key = key])
    case none
    have "\<exists>F'. F \<subseteq> F' \<and> dense_gives P ek dk F' (room ?H - 1) (dense_pair P (conv d) v (False, old) (True, old) ?s ?H) ?R (dmap_upd P (conv d) (Some d) M)"
    proof (cases "M (conv d)")
      case None
      then have new: "\<forall>(p, q, k, e) \<in> T. \<not> dp_eq P k (conv d)" using maps_none [OF m] by simp
      have "dense_gives P ek dk F (room ?H - 1) (dense_pair P (conv d) v (False, old) (True, old) ?s ?H) ?R (dmap_upd P (conv d) (Some d) M)"
        by (rule pair_ok [OF v(6) m v(3,4) new res]) (use s none(2) room in simp_all)
      then show ?thesis by blast
    next
      case (Some e)
      show ?thesis by (rule pair_present [OF v(6) m v(3,4) _ res]) (use Some none(2) room in simp_all)
    qed
    moreover have "sparse_addReplace_old P conv key d old s H = dense_pair P (conv d) v (False, old) (True, old) ?s ?H"
      using none(1) v(1,2) s by (simp add: sparse_addReplace_old_def enter_ok)
    ultimately show ?thesis using none(2) room(2) by simp
  next
    case (some i p q k e)
    have "sparse_addReplace_old P conv key d old s H = dense_addReplace_old P key d old s H"
      using some(1) v(1,2) s by (simp add: sparse_addReplace_old_def dense_addReplace_old_def enter_ok)
    moreover have "dense_gives P ek dk F (room H - 2) (dense_addReplace_old P key d old s H) ?R (dmap_upd P key (Some d) M)"
    proof (rule addReplace_old_ok [OF r m s])
      have "\<not> dp_eq P ek k" "\<not> dp_eq P dk k" using r some(5) by (auto simp: dense_rep_def cells_ok_def)
      then show "\<not> dp_eq P ek key" "\<not> dp_eq P dk key" using some(6) eq_sym eq_trans by blast+
    qed
    ultimately show ?thesis using some(7) by auto
  qed
qed

lemma sparse_addNoreplaceNew_ok:
  assumes r: "dense_rep P ek dk F s H T" and m: "maps (dp_eq P) T M" and s: "\<not> dh_lock s" "1 < room H"
    and res: "\<not> dp_eq P ek key" "\<not> dp_eq P dk key"
  shows "dense_gives P ek dk F (room H - 2) (sparse_addNoreplaceNew P key s H)
    (\<lambda>v H. if M key = None then read_data v H = Inr (dp_new P) else v = NULL)
    (if M key = None then dmap_upd P key (Some (dp_new P)) M else M)"
proof -
  let ?s = "s\<lparr>dh_lock := held\<rparr>"
  have r': "dense_rep P ek dk F ?s H T" using r by (simp add: dense_rep_more)
  from r' m show ?thesis
  proof (cases rule: rep_find [where key = key])
    case none
    have "dense_gives P ek dk F (room H - 2) (bindE (new_cell (DataObj (dp_new P)) H) (\<lambda>(v, H).
       if v = NULL then Inr (NULL, ?s, H) else dense_pair P key v NULL v ?s H))
       (\<lambda>v H. read_data v H = Inr (dp_new P)) (dmap_upd P key (Some (dp_new P)) M)"
      by (rule fresh_ok [OF r' m _ s(2) none(3) res]) (simp_all add: read_data_def)
    then show ?thesis using none s(1) by (simp add: sparse_addNoreplaceNew_def enter_ok)
  next
    case (some i p q k d)
    have "sparse_addNoreplaceNew P key s H = Inr (NULL, s\<lparr>dh_lock := False\<rparr>, H)"
      using some s by (simp add: sparse_addNoreplaceNew_def enter_ok leave_ok)
    moreover have "dense_rep P ek dk F (s\<lparr>dh_lock := False\<rparr>) H T" using r by (simp add: dense_rep_more)
    ultimately show ?thesis using some(7) m by (simp add: dense_gives_def) blast
  qed
qed

lemma sparse_addNoreplace_ok:
  assumes r: "dense_rep P ek dk F s H T" and m: "maps (dp_eq P) T M" and s: "\<not> dh_lock s" "1 < room H"
    and res: "\<not> dp_eq P ek key" "\<not> dp_eq P dk key"
  shows "dense_gives P ek dk F (room H - 2) (sparse_addNoreplace P key d s H) (\<lambda>x _. x \<longleftrightarrow> M key = None)
    (if M key = None then dmap_upd P key (Some d) M else M)"
proof -
  let ?s = "s\<lparr>dh_lock := held\<rparr>"
  have r': "dense_rep P ek dk F ?s H T" using r by (simp add: dense_rep_more)
  from r' m show ?thesis
  proof (cases rule: rep_find [where key = key])
    case none
    have "dense_gives P ek dk F (room H - 2) (bindE (new_cell (DataObj d) H) (\<lambda>(v, H).
       if v = NULL then Inr (False, ?s, H) else dense_pair P key v False True ?s H))
       (\<lambda>x _. x) (dmap_upd P key (Some d) M)"
      by (rule fresh_ok [OF r' m _ s(2) none(3) res]) simp_all
    then show ?thesis using none s(1) by (simp add: sparse_addNoreplace_def enter_ok)
  next
    case (some i p q k e)
    have "sparse_addNoreplace P key d s H = Inr (False, s\<lparr>dh_lock := False\<rparr>, H)"
      using some s by (simp add: sparse_addNoreplace_def enter_ok leave_ok)
    moreover have "dense_rep P ek dk F (s\<lparr>dh_lock := False\<rparr>) H T" using r by (simp add: dense_rep_more)
    ultimately show ?thesis using some(7) m by (simp add: dense_gives_def) blast
  qed
qed

end

section \<open>Sequences of calls\<close>

fun sparse_cmd :: "('k, 'd) dparams \<Rightarrow> ('d \<Rightarrow> 'k) \<Rightarrow> ('k, 'd) dcmd \<Rightarrow> dense \<Rightarrow> ('k, 'd) dheap \<Rightarrow> ('d dans \<times> dense \<times> ('k, 'd) dheap) res" where
  "sparse_cmd P conv (D_addReplace k d) s H = bindE (sparse_addReplace P k d s H) (\<lambda>(b, x). Inr (D_bool b, x))"
| "sparse_cmd P conv (D_addReplace_old k d old) s H = bindE (sparse_addReplace_old P conv k d old s H) (\<lambda>((b, e), x). Inr (D_both b e, x))"
| "sparse_cmd P conv (D_addReplaceNew k) s H = bindE (sparse_addReplaceNew P k s H) dense_obj"
| "sparse_cmd P conv (D_addNoreplaceNew k) s H = bindE (sparse_addNoreplaceNew P k s H) dense_obj"
| "sparse_cmd P conv (D_findOrNew k) s H = bindE (sparse_findOrNew P k s H) dense_obj"
| "sparse_cmd P conv (D_addNoreplace k d) s H = bindE (sparse_addNoreplace P k d s H) (\<lambda>(b, x). Inr (D_bool b, x))"
| "sparse_cmd P conv (D_remove k) s H = bindE (sparse_remove P k s H) (\<lambda>(b, x). Inr (D_bool b, x))"
| "sparse_cmd P conv (D_remove_fill k fill) s H = bindE (sparse_remove_fill P k fill s H) (\<lambda>((b, e), x). Inr (D_both b e, x))"
| "sparse_cmd P conv (D_find k) s H = bindE (sparse_find P k s H) dense_obj"
| "sparse_cmd P conv (D_find_fill k fill) s H = bindE (sparse_find_fill P k fill s H) (\<lambda>((b, e), x). Inr (D_both b e, x))"
| "sparse_cmd P conv D_removeAll s H = bindE (sparse_removeAll P s H) (\<lambda>(b, x). Inr (D_bool b, x))"

fun sparse_run :: "('k, 'd) dparams \<Rightarrow> ('d \<Rightarrow> 'k) \<Rightarrow> ('k, 'd) dcmd list \<Rightarrow> dense \<Rightarrow> ('k, 'd) dheap \<Rightarrow> ('d dans list \<times> dense \<times> ('k, 'd) dheap) res" where
  "sparse_run P conv [] s H = Inr ([], s, H)"
| "sparse_run P conv (c # cs) s H = bindE (sparse_cmd P conv c s H) (\<lambda>(a, s, H). bindE (sparse_run P conv cs s H) (\<lambda>(as, x). Inr (a # as, x)))"

text \<open>The same calls on a map: \<open>addNoreplace\<close> stores the object it is given, and \<open>addReplace\<close> with three arguments adds a
  new object under the key that is made from the object.\<close>

fun sparse_map_cmd :: "('k, 'd) dparams \<Rightarrow> ('d \<Rightarrow> 'k) \<Rightarrow> ('k, 'd) dcmd \<Rightarrow> ('k \<Rightarrow> 'd option) \<Rightarrow> 'd dans \<times> ('k \<Rightarrow> 'd option)" where
  "sparse_map_cmd P conv (D_addReplace_old k d old) M = (case M k of
     None \<Rightarrow> (D_both True old, dmap_upd P (conv d) (Some d) M)
   | Some e \<Rightarrow> (D_both True e, dmap_upd P k (Some d) M))"
| "sparse_map_cmd P conv (D_addNoreplace k d) M = (D_bool (M k = None), if M k = None then dmap_upd P k (Some d) M else M)"
| "sparse_map_cmd P conv c M = dmap_cmd P c M"

fun sparse_map_run :: "('k, 'd) dparams \<Rightarrow> ('d \<Rightarrow> 'k) \<Rightarrow> ('k, 'd) dcmd list \<Rightarrow> ('k \<Rightarrow> 'd option) \<Rightarrow> 'd dans list \<times> ('k \<Rightarrow> 'd option)" where
  "sparse_map_run P conv [] M = ([], M)"
| "sparse_map_run P conv (c # cs) M = (case sparse_map_cmd P conv c M of (a, M) \<Rightarrow> case sparse_map_run P conv cs M of (as, M) \<Rightarrow> (a # as, M))"

fun is_addReplace_old :: "('k, 'd) dcmd \<Rightarrow> bool" where
  "is_addReplace_old (D_addReplace_old k d old) = True"
| "is_addReplace_old c = False"

fun sparse_cmd_ok :: "('k, 'd) dparams \<Rightarrow> ('d \<Rightarrow> 'k) \<Rightarrow> 'k \<Rightarrow> ('k, 'd) dcmd \<Rightarrow> bool" where
  "sparse_cmd_ok P conv ek (D_addReplace_old k d old) = (\<not> dp_eq P ek (conv d))"
| "sparse_cmd_ok P conv ek c = dcmd_ok P ek ek c"

context dense_locked begin

lemma sparse_cmd_gives:
  assumes r: "dense_rep P ek ek F s H T" and m: "maps (dp_eq P) T M" and s: "\<not> dh_lock s" "1 < room H" and c: "sparse_cmd_ok P conv ek c"
  shows "\<exists>F'. F \<subseteq> F' \<and> (\<not> is_addReplace_old c \<longrightarrow> F' = F) \<and> dense_gives P ek ek F' (room H - 2) (sparse_cmd P conv c s H)
    (\<lambda>r _. r = fst (sparse_map_cmd P conv c M)) (snd (sparse_map_cmd P conv c M))"
proof (cases "is_addReplace_old c")
  case True
  then obtain k d old where cd: "c = D_addReplace_old k d old" by (cases c) auto
  have res: "\<not> dp_eq P ek (conv d)" using c by (simp add: cd)
  from sparse_addReplace_old_ok [OF r m s, of conv d k old] res obtain F' where F: "F \<subseteq> F'"
    "dense_gives P ek ek F' (room H - 2) (sparse_addReplace_old P conv k d old s H)
     (\<lambda>x _. x = (True, case M k of None \<Rightarrow> old | Some e \<Rightarrow> e))
     (case M k of None \<Rightarrow> dmap_upd P (conv d) (Some d) M | Some e \<Rightarrow> dmap_upd P k (Some d) M)" by blast
  have "dense_gives P ek ek F' (room H - 2) (sparse_cmd P conv c s H) (\<lambda>r _. r = fst (sparse_map_cmd P conv c M)) (snd (sparse_map_cmd P conv c M))"
    using gives_cmd [OF F(2) _ order_refl, of "\<lambda>((b, e), x). Inr (D_both b e, x)"] by (cases "M k") (simp_all add: cd)
  then show ?thesis using F(1) True by blast
next
  case False
  have "dense_gives P ek ek F (room H - 2) (sparse_cmd P conv c s H) (\<lambda>r _. r = fst (sparse_map_cmd P conv c M)) (snd (sparse_map_cmd P conv c M))"
  proof (cases c)
    case (D_addReplace_old k d old)
    then show ?thesis using False by simp
  next
    case (D_addNoreplace k d)
    show ?thesis unfolding D_addNoreplace sparse_cmd.simps sparse_map_cmd.simps fst_conv snd_conv
      by (rule gives_cmd [OF sparse_addNoreplace_ok [OF r m s]]) (use c in \<open>auto simp: D_addNoreplace\<close>)
  next
    case (D_addNoreplaceNew k)
    show ?thesis unfolding D_addNoreplaceNew sparse_cmd.simps sparse_map_cmd.simps dmap_cmd.simps fst_conv snd_conv
      by (rule gives_cmd [OF sparse_addNoreplaceNew_ok [OF r m s]])
        (use c in \<open>auto simp: D_addNoreplaceNew dense_obj_ok dense_obj_null split: if_splits\<close>)
  qed (use cmd_ok [OF r m s, of c] c in \<open>simp_all add: sparse_same\<close>)
  then show ?thesis using False by blast
qed

lemma sparse_run_ok:
  "dense_rep P ek ek F s H T \<Longrightarrow> maps (dp_eq P) T M \<Longrightarrow> \<not> dh_lock s \<Longrightarrow> 2 * length cs \<le> room H \<Longrightarrow> \<forall>c \<in> set cs. sparse_cmd_ok P conv ek c
    \<Longrightarrow> \<exists>F'. F \<subseteq> F' \<and> ((\<forall>c \<in> set cs. \<not> is_addReplace_old c) \<longrightarrow> F' = F) \<and> dense_gives P ek ek F' 0 (sparse_run P conv cs s H)
      (\<lambda>r _. r = fst (sparse_map_run P conv cs M)) (snd (sparse_map_run P conv cs M))"
proof (induction cs arbitrary: s H T M F)
  case Nil
  then show ?case by (intro exI [of _ F]) (auto simp: dense_gives_def)
next
  case (Cons c cs)
  have "1 < room H" "sparse_cmd_ok P conv ek c" using Cons.prems by auto
  from sparse_cmd_gives [OF Cons.prems(1-3) this] obtain F1 s' H' T' where c: "F \<subseteq> F1" "\<not> is_addReplace_old c \<longrightarrow> F1 = F"
    "sparse_cmd P conv c s H = Inr (fst (sparse_map_cmd P conv c M), s', H')"
    "\<not> dh_lock s'" "room H - 2 \<le> room H'" "dense_rep P ek ek F1 s' H' T'" "maps (dp_eq P) T' (snd (sparse_map_cmd P conv c M))"
    by (auto simp: dense_gives_def holds_iff)
  have "2 * length cs \<le> room H'" using c(5) Cons.prems(4) by simp
  from Cons.IH [OF c(6,7,4) this] Cons.prems(5) obtain F' where F': "F1 \<subseteq> F'" "(\<forall>c \<in> set cs. \<not> is_addReplace_old c) \<longrightarrow> F' = F1"
    "dense_gives P ek ek F' 0 (sparse_run P conv cs s' H') (\<lambda>r _. r = fst (sparse_map_run P conv cs (snd (sparse_map_cmd P conv c M))))
      (snd (sparse_map_run P conv cs (snd (sparse_map_cmd P conv c M))))" by auto
  have "dense_gives P ek ek F' 0 (sparse_run P conv (c # cs) s H) (\<lambda>r _. r = fst (sparse_map_run P conv (c # cs) M)) (snd (sparse_map_run P conv (c # cs) M))"
    using F'(3) c(3) by (auto simp: dense_gives_def holds_iff split: prod.splits)
  moreover have "F \<subseteq> F'" using c(1) F'(1) by (rule subset_trans)
  moreover have "(\<forall>c \<in> set (c # cs). \<not> is_addReplace_old c) \<longrightarrow> F' = F" using c(2) F'(2) by simp
  ultimately show ?case by blast
qed

lemma sparse_new_ok:
  assumes "0 < room H"
  obtains s H' where "sparse_new P ek items H = Inr (s, H')" "dense_rep P ek ek (live H) s H' {}" "\<not> dh_lock s" "room H' = room H - 1"
proof -
  let ?H = "new_obj (KeyObj ek) H" and ?xs = "if items \<noteq> 0 then dp_arrange P H [] else []"
  let ?s = "\<lparr>dh_slots = ?xs, dh_lock = False, dh_iters = 0, dh_empty = Suc (heap_size H), dh_deleted = Suc (heap_size H)\<rparr>"
  have new: "sparse_new P ek items H = Inr (?s, ?H)" using assms by (simp add: sparse_new_def new_cell_ok Let_def)
  have xs: "pairs ?xs = {}" "once ?xs" using pairs_mset [OF arrange [of H "[]"]] by simp_all
  have "live ?H = live H \<union> {Suc (heap_size H)}" by (auto simp: live_new)
  then have rep: "dense_rep P ek ek (live H) ?s ?H {}"
    using xs unfolding dense_rep_def by (simp add: cells_ok_def apart_entries_def cell_at_new)
  show ?thesis by (rule that [OF new rep]) simp_all
qed

end

section \<open>The property\<close>

text \<open>C31. A TWSparseHash is a map, for every sequence of calls on a new one, but for one operation: \<open>addReplace\<close> with three
  arguments adds a new object under the key that is made from the object, and not under the key it is given. The
  iterator finds every key once, with its object. The destructor gives back all the memory, unless that operation was
  called. (While there is memory and no call adds the reserved key; searches need a mutex that may be unlocked when it is free.)\<close>
theorem sparse_is_a_map:
  assumes "dense_locked P held" and "\<forall>c \<in> set cs. sparse_cmd_ok P conv ek c" and "2 * length cs + 1 \<le> room H"
  shows "holds (bindE (sparse_new P ek items H) (\<lambda>(s, H). sparse_run P conv cs s H)) (\<lambda>(as, s, H').
    as = fst (sparse_map_run P conv cs (\<lambda>_. None))
    \<and> holds (dense_walk P s H') (\<lambda>(l, _). int (length l) = sparse_size s \<and> sorted_wrt (\<lambda>x y. \<not> dp_eq P (fst x) (fst y)) l
        \<and> (\<forall>key d. snd (sparse_map_run P conv cs (\<lambda>_. None)) key = Some d \<longleftrightarrow> (\<exists>k. (k, d) \<in> set l \<and> dp_eq P k key)))
    \<and> holds (sparse_destroy P s H') (\<lambda>H''. live H \<subseteq> live H'' \<and> ((\<forall>c \<in> set cs. \<not> is_addReplace_old c) \<longrightarrow> live H'' = live H)))"
proof -
  have 1: "0 < room H" using assms(3) by simp
  obtain s H1 where n: "sparse_new P ek items H = Inr (s, H1)" "dense_rep P ek ek (live H) s H1 {}" "\<not> dh_lock s" "room H1 = room H - 1"
    by (rule dense_locked.sparse_new_ok [OF assms(1) 1])
  have "maps (dp_eq P) {} (\<lambda>_. None)" "2 * length cs \<le> room H1" using assms(3) n(4) by (simp_all add: maps_def)
  from dense_locked.sparse_run_ok [OF assms(1) n(2) this(1) n(3) this(2) assms(2)]
  obtain F where F: "live H \<subseteq> F" "(\<forall>c \<in> set cs. \<not> is_addReplace_old c) \<longrightarrow> F = live H"
    and g: "dense_gives P ek ek F 0 (sparse_run P conv cs s H1) (\<lambda>r _. r = fst (sparse_map_run P conv cs (\<lambda>_. None))) (snd (sparse_map_run P conv cs (\<lambda>_. None)))"
    by blast
  from g obtain s' H' T where r: "sparse_run P conv cs s H1 = Inr (fst (sparse_map_run P conv cs (\<lambda>_. None)), s', H')" "\<not> dh_lock s'"
    "dense_rep P ek ek F s' H' T" "maps (dp_eq P) T (snd (sparse_map_run P conv cs (\<lambda>_. None)))"
    by (auto simp: dense_gives_def holds_iff)
  have "holds (sparse_destroy P s' H') (\<lambda>H''. live H'' = F)"
    using dense_locked.destroy_ok [OF assms(1) r(3,2)] by (simp add: sparse_same)
  then have "holds (sparse_destroy P s' H') (\<lambda>H''. live H \<subseteq> live H'' \<and> ((\<forall>c \<in> set cs. \<not> is_addReplace_old c) \<longrightarrow> live H'' = live H))"
    by (rule holds_mono) (use F in simp)
  then show ?thesis using n(1) r(1) dense_locked.walk_ok [OF assms(1) r(3,4,2)] by (simp add: sparse_same)
qed

theorem sparse_is_a_map_witness:
  "holds (bindE (sparse_new (numeric_table Inr Inr) 99 0 (empty_heap 30)) (\<lambda>(s, H).
      sparse_run (numeric_table Inr Inr) id [D_addReplace 1 7, D_addNoreplace 2 8, D_find 2, D_addReplace_old 3 4 0, D_find 3, D_find 4, D_remove 1] s H))
    (\<lambda>(as, s, H'). as = [D_bool True, D_bool True, D_obj (Some 8), D_both True 0, D_obj None, D_obj (Some 4), D_bool True])"
proof -
  let ?P = "numeric_table Inr Inr"
  let ?cs = "[D_addReplace 1 7, D_addNoreplace 2 8, D_find 2, D_addReplace_old 3 4 0, D_find 3, D_find 4, D_remove 1] :: (nat, nat) dcmd list"
  have c: "\<forall>c \<in> set ?cs. sparse_cmd_ok ?P id 99 c" by (simp add: numeric_table_def eqstr_numericP_def)
  have r: "2 * length ?cs + 1 \<le> room (empty_heap 30)" by (simp add: empty_heap_def)
  have v: "fst (sparse_map_run ?P id ?cs (\<lambda>_. None)) = [D_bool True, D_bool True, D_obj (Some 8), D_both True 0, D_obj None, D_obj (Some 4), D_bool True]"
    by (simp add: numeric_table_def eqstr_numericP_def dmap_upd_def)
  from sparse_is_a_map [OF numeric_nomutex.dense_locked_axioms c r, of 0] show ?thesis unfolding v by (rule holds_mono) auto
qed

end
