(* ===== verification/Spec2Isabelle.thy ===== *)
theory Spec2Isabelle
  imports TW_SafeFifoThreads TW_SafeFifoMv TW_BndFifo TW_Circular TW_BufCut TW_KHash32Props TW_ListIter TW_Stack TW_ArrayOps
    TW_AutoPtr TW_Mutex TW_TaskManager TW_TaskThreads
    TW_StringMapProps TW_RBProps TW_CircularThreads TW_BndFifoThreads TW_KTreeProps TW_DenseProps TW_SparseProps
begin

text \<open>
  The containers and synchronisation primitives of TWlib (include/TW and the sources beside it),
  a C++ template library.

  \<^bold>\<open>The program.\<close> TWlib's own core are containers over an allocator class: a linked queue (tw_FIFO),
  its thread-safe versions (tw_safeFIFO, tw_safeFIFOmv, tw_bndSafeFIFO), a bounded queue in an array
  (tw_safeCircular), a doubly linked list (LList), a stack, a growing array (DynArray), a hash table
  with open addressing (TW_KHash_32), maps from strings over it, tables that copy their
  keys (TWDenseHash, TWSparseHash), a red-black tree (RB_Tree), a B-tree (TW_KTree_32),
  reference-counted byte buffers (BufBlk over MemBlk) and pointers (autoPointer), mutexes and
  semaphores (TW_Mutex, TW_RecursiveMutex, TW_Sema, TW_SemaTwoWay), tasks and their manager, with
  some utilities for time, numbers and hashes. tw_bndSafeFIFO is a tw_safeFIFO together with a TW_Sema
  whose units are the free places; tw_safeCircular uses the mutex of its TW_SemaTwoWay as its own;
  a TW_StringStringMap is a TW_KHash_32 whose keys and data are CStrCont objects; a TaskManager keeps
  its tasks in a tw_safeFIFO; the containers take their links, nodes and arrays from an allocator
  (tw_alloc.h), and the timed calls compute their deadlines with tw_utils.

  \<^bold>\<open>How it is modelled.\<close> A C++ object is a record with the fields of the class. A method is a
  function from the objects and the heap it touches to their new states, in the \<open>res\<close> type of
  TW_Prelude: \<open>Inl\<close> is a fault (null or dangling pointer, double free, access outside an array,
  indeterminate value, a mutex locked twice by one thread, an \<^verbatim>\<open>int\<close> that overflows, a loop that does not end), \<open>Inr\<close> the
  result. A template argument \<open>T\<close> is a type variable; what a moved-from value becomes and what
  \<^verbatim>\<open>T()\<close> builds are arguments. A method that may wait on a condition variable is cut there:
  \<open>_enter\<close> runs up to the wait, \<open>_resume\<close> from it. Between the two any calls of other threads may
  come; the theories with threads make them the steps of an inductive relation. A signal goes to one thread that waits, whether or not
  its time limit has run out since, and a thread may wake up without one. The decrement of TW_Sema, which runs without its mutex, is two
  steps, a read and a write.

  \<^bold>\<open>The theories.\<close>
  \<^item> TW_Prelude: faults, results, their sequencing, mutexes, the collections of rewrite rules.
  \<^item> TW_Heap: cells, \<open>malloc\<close> and \<open>free\<close> (Alloc_Std in tw_alloc.h), objects behind pointers, and
    frame lemmas. A freed address is not handed out again, so that a use after free is a fault.
  \<^item> TW_Chain: singly linked chains in a heap, the loops that walk and free them.
  \<^item> TW_Queue: the locale of a first-in first-out queue with a limited space; what holds of every
    sequence of additions and removals is proved there once.
  \<^item> TW_Fifo: tw_FIFO of tw_fifo.h, all methods, and its iterator.
  \<^item> TW_SafeFifo, TW_SafeFifoThreads: tw_safeFIFO of tw_fifo.h; any number of threads that call it. Whether some of them peek and
    whether time limits run out are parameters of the relation, since each of the two can lose a wake-up.
  \<^item> TW_SafeFifoMv: tw_safeFIFOmv of tw_fifo.h, for values that are moved.
  \<^item> TW_BndFifo, TW_BndFifoThreads: tw_bndSafeFIFO of tw_fifo.h; sequences of its calls one after the other; threads that share one, each
    step a critical section of its semaphore or its FIFO, or half a decrement of the semaphore, which breaks its bound.
  \<^item> TW_Counting: the locale of a counting semaphore, and lists of thread states.
  \<^item> TW_Sema: TW_Sema of tw_sema.h, and threads that call acquire and release.
  \<^item> TW_Sema2: TW_SemaTwoWay of tw_sema2.h, and threads that call acquire with and without a time limit, release (also without holding
    a unit), releaseAll, reset and count.
  \<^item> TW_Circular, TW_CircularThreads: tw_safeCircular of tw_circular.h and its iterators, over an array that may be smaller than
    asked for; threads that add to and remove from one. Whether some call clear and whether time limits run out are parameters of the relation.
  \<^item> TW_BufBlk, TW_BufChain, TW_BufCut: MemBlk, BufBlk and BufBlkIter of tw_bufblk.h: the objects
    and single blocks; operations on chains of blocks, iterators and duplicates; what
    getContigBlock and eatBytes do to the bytes of a chain.
  \<^item> TW_Utils: tw_utils.cpp and tw_utils.h.
  \<^item> TW_KHashBits, TW_KHash, TW_KHash32, TW_KHash32Iter: the flag bits, the table kh_*_A of khash.h as
    tw_khash.h instantiates it, the class TW_KHash_32 and its iterator. TW_KHashInv, TW_KHashMap,
    TW_KHashPut, TW_KHashResize hold the invariant of the table, what it maps, and that putting a key
    and the rehash in place keep both; TW_KHash32Ops, TW_KHash32Spec, TW_KHash32Props carry that to
    the class, as the refinement of a finite map.
  \<^item> TW_Deque: the locale of a queue with two ends. TW_List, TW_ListRep, TW_ListOps, TW_ListIter: LList
    of tw_list.h, its doubly linked chains in the heap, its operations, its iterators.
  \<^item> TW_Stack: Stack of tw_stack.h. TW_Array, TW_ArrayOps: DynArray of tw_array.h.
  \<^item> TW_AutoPtr: autoPointer of tw_autopointer.h. TW_Mutex: the mutex classes of tw_sema.h.
  \<^item> TW_Task, TW_TaskManager, TW_TaskThreads: BaseTask, Task and TaskManager of tw_task.h and tw_task.cpp,
    and the threads that share one task.
  \<^item> TW_StringMap, TW_StringMapProps: CStrCont and the two maps of tw_stringmap.h and tw_stringmap.cpp.
  \<^item> TW_RBTree, TW_RBClass: the red-black tree of provos_rb_tree.h on a heap of nodes, and the class
    RB_Tree of tw_rbtree.h. TW_RBRep says when a heap holds a tree, with the way from the root down to a node as
    a context; TW_RBRotate, TW_RBInsert, TW_RBUnlink, TW_RBRemove, TW_RBFind hold what each macro does to the tree,
    TW_RBProps what the macros and the class promise.
  \<^item> TW_Compare: the locale of a comparison function, which both kinds of trees are given.
  \<^item> TW_KTree: TW_KTree_32 of tw_ktree.h, its nodes as values. TW_KTreeRep: its keys in order, the shape of
    a B-tree, the search in a node. TW_KTreePut, TW_KTreeDel, TW_KTreeClass: what putting, deleting and
    searching do, case by case; TW_KTreeProps what the class promises.
  \<^item> TW_DenseHash: TWDenseHash of tw_densehash.h over a table of the library sparsehash, which is a parameter.
    TW_DenseRep: the entries it holds, and the steps of its operations. TW_DenseOps, TW_DenseRun, TW_DenseProps: its
    operations, sequences of them, and what its locking does. Its locales hold what is asked of the table and of
    the mutex; they are interpreted for keys compared with eqstr_numericP, with a TW_Mutex and a TW_NoMutex.
    TW_SparseHash, TW_SparseProps: TWSparseHash of tw_sparsehash.h, where it differs.

  \<^bold>\<open>What the lemmas show.\<close> Every container has a representation predicate (\<open>fifo_rep\<close>, \<open>circ_rep\<close>,
  \<open>buf_rep\<close> and their kin) that relates its record and heap to a list, and every operation a lemma
  that it keeps the predicate and does to the list what it should, on every branch, or faults. The
  queue classes interpret the locale of TW_Queue, the semaphores that of TW_Counting; the refinement
  properties come from there. The thread theories prove invariants by induction over reachable
  states. A property that states a defect of the code (a unit of a semaphore taken twice, a lost
  wake-up, freed blocks in use) is proved as the existence of the run that shows it.

  \<^bold>\<open>Fuel.\<close> A loop over a chain has as fuel the size of the heap, or one more: a chain without a
  cycle is never longer (lemma \<open>chain_length\<close>), so the loop runs out of fuel only where the C++ loop
  does not end, and then the result is the fault \<open>Diverges\<close>. The lemmas about the operations prove
  that it is not. A loop of the hash table has as fuel the number of its buckets and one more, a
  way down or up a red-black tree at most two more than the size of the heap, a way down a B-tree its
  depth and one more, its walk and its destruction the number of rounds and of nodes, emptying a TWDenseHash one more than it
  has entries.

  \<^bold>\<open>Bounds.\<close> The allocators take sizes as \<^verbatim>\<open>int\<close> (\<open>tw_size\<close> in TW_Prelude): an array whose size in bytes does not fit is null or too
  small. The lemmas about a DynArray, a tw_safeCircular and the hash table ask for less than 2 ^ 31 bytes, and theorems beside them
  show what happens beyond (\<open>array_size_limit\<close>, \<open>circ_new_truncates\<close>, \<open>kh_resize_loses_values\<close>). The buckets and flags of the
  hash table are words of 32 bits; \<open>kh_put_A\<close> may double the buckets, and the refinement of \<open>n\<close> operations asks for
  room for 8 n keys and values, which is never exceeded. The sizes of the nodes of a B-tree are computed as the code does, and one that
  does not fit the \<^verbatim>\<open>int\<close> it is stored in is the fault \<open>Overflow\<close>, since the code then allocates nodes without room for their keys.
  \<open>_block_cnt\<close> of tw_safeFIFO, which waits that time out increment for good, is an \<^verbatim>\<open>int\<close> that overflows.
  TW_SemaTwoWay, TW_Sema, the reference counts and the indexes of tw_safeCircular are integers without a bound.

  \<^bold>\<open>Not modelled.\<close> Other values of type \<^verbatim>\<open>int\<close> that count elements are unbounded integers: to overflow them
  takes more than 2 ^ 31 elements. Allocation of the classes themselves with \<^verbatim>\<open>new\<close> does not fail.
  Destructors of the element type do nothing, except where the hash table deletes its objects. The
  arrays inside a hash table are taken to be allocated where the number of bytes asked for is not negative, and a string that is a key or an object of a map is the
  text it holds: the memory of the copies that CStrCont makes with an unchecked \<^verbatim>\<open>malloc\<close> is modelled in the operations of CStrCont, not
  inside the maps. A TWDenseHash that is built with a number of items is a fault: it uses its table before the table allows it. The memory of a
  MemBlk that is touched after it was freed is counted and otherwise without effect. Alignment is not modelled. Two branches of the red-black tree that are mirror images are one branch with the
  side as an argument; the splay tree of the same header is not used. Log output, the debug and
  Windows branches of the preprocessor, hex dumps of buffers and the shared-memory allocators are
  left out, and so are Job and JobRunner (declared, without code), the sockets, tw_khash2.h (a copy
  of a third-party table), tw_sparsehash.old.h, and the tables of the library sparsehash itself. tw_llist.h and
  tw_dlist.h do not compile (they define members their classes do not declare).
\<close>

end
